(* ===== verification/Prelude.thy ===== *)
theory Prelude
  imports Main "HOL-Library.Word" "HOL-Library.Char_ord" "HOL-Library.List_Lexorder"
    "HOL-Library.Multiset"
begin

text \<open>
  Shared vocabulary of the development: the named theorem collections, the Go types that every
  component uses (byte strings, byte slices, machine words), Go's truncating division, and the
  generic facts on lists, options and maps that the component proofs share.

  A Go \<open>string\<close> is a sequence of bytes, so it is modelled by \<open>string\<close> (HOL's \<open>char\<close> is an
  eight-bit value); \<open><\<close> on strings is Go's bytewise lexicographic order (theories
  \<open>List_Lexorder\<close> and \<open>Char_ord\<close>). A \<open>[]byte\<close> is an \<open>8 word list\<close>; where the program
  distinguishes \<open>nil\<close> from an empty slice the model uses an \<open>option\<close>. Counters of type
  \<open>uint64\<close> are \<open>64 word\<close>, with their wrap-around.
\<close>

unbundle bit_operations_syntax

named_theorems enum_defs \<open>values of the constants of Go enumerations\<close>
named_theorems store_defs \<open>definitions of the map-backed stores\<close>
named_theorems dll_simps \<open>field reads after pointer writes of a linked list\<close>

type_synonym byte = "8 word"
type_synonym bytes = "8 word list"
type_synonym uint64 = "64 word"

text \<open>The conversion \<open>[]byte(s)\<close> of a string to a byte slice.\<close>

definition bytes_of_string :: "string \<Rightarrow> bytes" where
  "bytes_of_string s = map of_char s"

text \<open>Go's integer division truncates towards zero.\<close>

definition go_div :: "int \<Rightarrow> int \<Rightarrow> int" where
  "go_div a b = sgn a * sgn b * (\<bar>a\<bar> div \<bar>b\<bar>)"

lemma go_div_nonneg: "0 \<le> a \<Longrightarrow> 0 < b \<Longrightarrow> go_div a b = a div b"
  by (cases "a = 0") (simp_all add: go_div_def)

subsection \<open>Words\<close>

lemma unat_pow2: "j < 64 \<Longrightarrow> unat ((2 :: uint64) ^ j) = 2 ^ j"
proof -
  assume "j < 64"
  then have "(2 :: nat) ^ j < 2 ^ 64" by (intro power_strict_increasing) simp_all
  then have "unat (of_nat (2 ^ j) :: uint64) = 2 ^ j" by (simp only: unat_of_nat) (simp add: take_bit_nat_eq_self)
  then show ?thesis by simp
qed

subsection \<open>Lists, options and maps\<close>

lemma takeWhile_sentinel: "x \<notin> set us \<Longrightarrow> takeWhile (\<lambda>c. c \<noteq> x) (us @ x # vs) = us"
  by (induction us) auto

lemma length_bytes_of_string [simp]: "length (bytes_of_string s) = length s"
  by (simp add: bytes_of_string_def)

lemma find_Some_iff_split:
  "find P xs = Some x \<longleftrightarrow> (\<exists>us vs. xs = us @ x # vs \<and> P x \<and> (\<forall>u \<in> set us. \<not> P u))"
proof (induction xs)
  case Nil
  then show ?case by simp
next
  case (Cons y ys)
  show ?case
  proof (cases "P y")
    case True
    then show ?thesis by (auto simp: Cons_eq_append_conv)
  next
    case False
    have "(\<exists>us vs. y # ys = us @ x # vs \<and> P x \<and> (\<forall>u \<in> set us. \<not> P u)) \<longleftrightarrow>
        (\<exists>us vs. ys = us @ x # vs \<and> P x \<and> (\<forall>u \<in> set us. \<not> P u))" (is "?l \<longleftrightarrow> ?r")
    proof
      assume ?l
      then obtain us vs where *: "y # ys = us @ x # vs" "P x" "\<forall>u \<in> set us. \<not> P u" by blast
      with False obtain us' where "us = y # us'" by (cases us) auto
      with * show ?r by auto
    next
      assume ?r
      then obtain us vs where "ys = us @ x # vs" "P x" "\<forall>u \<in> set us. \<not> P u" by blast
      with False have "y # ys = (y # us) @ x # vs \<and> P x \<and> (\<forall>u \<in> set (y # us). \<not> P u)" by simp
      then show ?l by blast
    qed
    then show ?thesis using False Cons by simp
  qed
qed

lemma find_rev_Some_iff:
  "find P (rev xs) = Some x \<longleftrightarrow> (\<exists>us vs. xs = us @ x # vs \<and> P x \<and> (\<forall>v \<in> set vs. \<not> P v))"
proof -
  have "find P (rev xs) = Some x \<longleftrightarrow>
      (\<exists>us vs. rev xs = us @ x # vs \<and> P x \<and> (\<forall>u \<in> set us. \<not> P u))"
    by (rule find_Some_iff_split)
  also have "\<dots> \<longleftrightarrow> (\<exists>us vs. xs = vs @ x # us \<and> P x \<and> (\<forall>u \<in> set us. \<not> P u))"
  proof -
    have "rev xs = us @ x # vs \<longleftrightarrow> xs = rev vs @ x # rev us" for us vs
      by (metis append_Cons append_Nil append_assoc rev.simps(2) rev_append rev_rev_ident)
    then show ?thesis by (metis rev_rev_ident set_rev)
  qed
  finally show ?thesis by blast
qed

lemma find_rev_None_iff: "find P (rev xs) = None \<longleftrightarrow> (\<forall>x \<in> set xs. \<not> P x)"
  by (auto simp: find_None_iff)

lemma option_bind_map: "Option.bind x (\<lambda>y. Some (f y)) = map_option f x"
  by (cases x) simp_all

subsection \<open>The doubling loop\<close>

text \<open>
  The loop \<open>for n < m { n <<= 1 }\<close>, with which the sharded store and the Bloom filter round a
  size up to a power of two. It need not end (a shifted-out \<open>n\<close> stays zero), so it is partial.
\<close>

partial_function (option) double_up :: "uint64 \<Rightarrow> uint64 \<Rightarrow> uint64 option" where
  "double_up n m = (if n < m then double_up (push_bit 1 n) m else Some n)"

text \<open>The doubling loop stops at the least power of two that reaches its bound.\<close>

lemma double_up_pow:
  assumes "unat m \<le> 2 ^ 63" "i \<le> 63" "i = 0 \<or> 2 ^ (i - 1) < unat m"
  shows "\<exists>j \<le> 63. double_up (2 ^ i) m = Some (2 ^ j) \<and> unat m \<le> 2 ^ j \<and> (j = 0 \<or> 2 ^ (j - 1) < unat m)"
  using assms(2,3)
proof (induction "63 - i" arbitrary: i)
  case 0
  then have i: "i = 63" by simp
  then have "\<not> (2 :: uint64) ^ i < m" using assms(1) by (simp add: word_less_nat_alt unat_pow2)
  then show ?case using 0 i assms(1) double_up.simps [of "2 ^ i" m] by auto
next
  case (Suc n)
  have u: "unat ((2 :: uint64) ^ i) = 2 ^ i" using Suc.hyps(2) by (intro unat_pow2) simp
  show ?case
  proof (cases "(2 :: uint64) ^ i < m")
    case False
    then have "unat m \<le> 2 ^ i" using u by (simp add: word_less_nat_alt)
    then show ?thesis using False Suc.prems double_up.simps [of "2 ^ i" m] by auto
  next
    case True
    then have lt: "2 ^ i < unat m" using u by (simp add: word_less_nat_alt)
    have "push_bit 1 ((2 :: uint64) ^ i) = 2 ^ Suc i" by (simp add: push_bit_eq_mult)
    then have "double_up (2 ^ i) m = double_up (2 ^ Suc i) m"
      using True double_up.simps [of "2 ^ i" m] by (simp add: mult.commute)
    moreover have "\<exists>j \<le> 63. double_up (2 ^ Suc i) m = Some (2 ^ j) \<and> unat m \<le> 2 ^ j
        \<and> (j = 0 \<or> 2 ^ (j - 1) < unat m)"
      using Suc.hyps(2) lt by (intro Suc.hyps(1)) auto
    ultimately show ?thesis by simp
  qed
qed

section \<open>Decimal numerals\<close>

text \<open>The digits \<open>fmt\<close> and \<open>strconv\<close> print for a non-negative number.\<close>

fun dec :: "nat \<Rightarrow> string" where
  "dec n = (if n < 10 then [char_of (48 + n)] else dec (n div 10) @ [char_of (48 + n mod 10)])"

declare dec.simps [simp del]

section \<open>Sorting with an unspecified order of equal elements\<close>

text \<open>
  \<open>sort.Slice\<close> and \<open>sort.Strings\<close> promise a sorted permutation and nothing about the order of
  equal elements. The components that sort take the sorting function as an argument; this is
  its contract.
\<close>

locale slice_sort =
  fixes key :: "'a \<Rightarrow> 'k :: linorder" and srt :: "'a list \<Rightarrow> 'a list"
  assumes srt_mset: "mset (srt xs) = mset xs"
    and srt_sorted: "sorted (map key (srt xs))"
begin

lemma srt_set [simp]: "set (srt xs) = set xs"
  using srt_mset by (metis set_mset_mset)

lemma srt_length [simp]: "length (srt xs) = length xs"
  using srt_mset by (metis size_mset)

lemma srt_keys_distinct: "distinct (map key xs) \<Longrightarrow> distinct (map key (srt xs))"
  by (metis mset_map distinct_count_atmost_1 set_mset_mset srt_mset)

text \<open>With distinct keys the result depends only on the collection of the elements.\<close>

lemma srt_unique:
  assumes "mset xs = mset ys" "distinct (map key xs)" "sorted (map key zs)" "mset zs = mset ys"
  shows "srt xs = zs"
proof (rule map_sorted_distinct_set_unique [of key])
  have d: "distinct (map key zs)"
    using assms by (metis mset_map distinct_count_atmost_1 set_mset_mset)
  then show "distinct (map key zs)" .
  show "distinct (map key (srt xs))" using srt_keys_distinct [OF assms(2)] .
  show "set (srt xs) = set zs" using assms(1,4) by (metis srt_set set_mset_mset)
  then show "inj_on key (set (srt xs) \<union> set zs)" using d by (simp add: distinct_map)
qed (use assms srt_sorted in auto)

lemma srt_cong: "mset xs = mset ys \<Longrightarrow> distinct (map key xs) \<Longrightarrow> srt xs = srt ys"
  by (rule srt_unique) (auto simp: srt_sorted srt_mset)

end

text \<open>Insertion sort on the key is one such function; the examples use it.\<close>

interpretation insertion_slice_sort: slice_sort key "sort_key key" for key :: "'a \<Rightarrow> 'k :: linorder"
  by unfold_locales simp_all

section \<open>Ranging over a map\<close>

text \<open>
  Go's \<open>range\<close> over a map visits every key once, in an unspecified order. An operation whose
  result depends on that order takes it as an argument, a function from the key set to a list.
\<close>

locale map_range =
  fixes enum :: "'k set \<Rightarrow> 'k list"
  assumes enum_set: "finite A \<Longrightarrow> set (enum A) = A"
    and enum_distinct: "finite A \<Longrightarrow> distinct (enum A)"
begin

lemma enum_length: "finite A \<Longrightarrow> length (enum A) = card A"
  by (metis distinct_card enum_distinct enum_set)

lemma enum_mset: "finite A \<Longrightarrow> mset (enum A) = mset_set A"
  by (metis enum_distinct enum_set mset_set_set)

lemma enum_empty [simp]: "enum {} = []"
  using enum_length [of "{}"] by simp

end

interpretation sorted_range: map_range "sorted_list_of_set :: 'k :: linorder set \<Rightarrow> 'k list"
  by unfold_locales simp_all

end
