(* ===== verification/Fs_Core.thy ===== *)
theory Fs_Core
  imports Complex_Main Prelude
begin

text \<open>
  The shared domain types of the fshash package family (\<open>pkg/fshash/internal/core/types.go\<close>):
  layer and vertex identifiers, access operations, events, file hashes, deduplication actions
  and results, statistics and the sentinel errors. A wrapped error
  (\<open>fmt.Errorf("%w: ...", ErrX)\<close>) is the sentinel's constructor applied to the detail text.
\<close>

datatype layer_id = LayerID (digest: string)

datatype vertex_id = VertexID (vdigest: string)

definition NewLayerID :: "string \<Rightarrow> layer_id" where
  "NewLayerID d = LayerID d"

definition layer_IsZero :: "layer_id \<Rightarrow> bool" where
  "layer_IsZero l \<longleftrightarrow> digest l = ''''"

definition layer_Equal :: "layer_id \<Rightarrow> layer_id \<Rightarrow> bool" where
  "layer_Equal l l' \<longleftrightarrow> digest l = digest l'"

definition NewVertexID :: "string \<Rightarrow> vertex_id" where
  "NewVertexID d = VertexID d"

definition vertex_IsZero :: "vertex_id \<Rightarrow> bool" where
  "vertex_IsZero v \<longleftrightarrow> vdigest v = ''''"

type_synonym access_op = "8 word"

definition OpRead :: access_op where [enum_defs]: "OpRead = 1"
definition OpWrite :: access_op where [enum_defs]: "OpWrite = 2"
definition OpClose :: access_op where [enum_defs]: "OpClose = 3"
definition OpDelete :: access_op where [enum_defs]: "OpDelete = 4"

definition AccessOp_String :: "access_op \<Rightarrow> string" where
  "AccessOp_String op =
     (if op = OpRead then ''read'' else if op = OpWrite then ''write'' else if op = OpClose then ''close''
      else if op = OpDelete then ''delete'' else ''unknown('' @ dec (unat op) @ '')'')"

record access_event =
  ev_LayerID :: layer_id
  ev_VertexID :: vertex_id
  ev_Path :: string
  ev_Op :: access_op
  ev_Offset :: uint64
  ev_Count :: uint64
  ev_Data :: "bytes option"
  ev_Timestamp :: int

datatype fs_error =
    ErrLayerNotFound string
  | ErrLayerExists string
  | ErrCacheMiss
  | ErrTreeEmpty string
  | ErrInvalidEvent string
  | ErrClosed
  | ErrInvalidChain
  | ErrContext

definition HasRange :: "access_event \<Rightarrow> bool" where
  "HasRange e \<longleftrightarrow> 0 < ev_Count e"

text \<open>\<open>Validate\<close> returns \<open>nil\<close> (here \<open>None\<close>) or the first failed check.\<close>

definition Validate :: "access_event \<Rightarrow> fs_error option" where
  "Validate e =
     (if layer_IsZero (ev_LayerID e) then Some (ErrInvalidEvent ''missing layer ID'')
      else if ev_Path e = '''' then Some (ErrInvalidEvent ''missing file path'')
      else if ev_Op e = 0 then Some (ErrInvalidEvent ''missing access operation'')
      else None)"

record file_hash =
  fh_Path :: string
  fh_Hash :: bytes
  fh_Algorithm :: string
  fh_LayerID :: layer_id
  fh_Size :: int

type_synonym action = "8 word"

definition ActionCompute :: action where [enum_defs]: "ActionCompute = 1"
definition ActionReuse :: action where [enum_defs]: "ActionReuse = 2"
definition ActionSkip :: action where [enum_defs]: "ActionSkip = 3"
definition ActionExclude :: action where [enum_defs]: "ActionExclude = 4"

definition Action_String :: "action \<Rightarrow> string" where
  "Action_String a =
     (if a = ActionCompute then ''compute'' else if a = ActionReuse then ''reuse''
      else if a = ActionSkip then ''skip'' else if a = ActionExclude then ''exclude''
      else ''unknown('' @ dec (unat a) @ '')'')"

record dedup_result =
  dr_Event :: access_event
  dr_Action :: action
  dr_CachedHash :: "file_hash option"
  dr_SourceLayer :: "layer_id option"

text \<open>
  In \<open>dedup_result\<close> the Go zero values of \<open>CachedHash\<close> and \<open>SourceLayer\<close> (left untouched
  unless the action is a reuse) are \<open>None\<close>.
\<close>

record processor_stats =
  st_EventsReceived :: uint64
  st_EventsComputed :: uint64
  st_EventsReused :: uint64
  st_EventsSkipped :: uint64
  st_EventsExcluded :: uint64
  st_CacheHits :: uint64
  st_CacheMisses :: uint64
  st_LayersRegistered :: uint64
  st_TreesFinalized :: uint64

text \<open>The rate, with exact division in place of \<open>float64\<close>; the sum wraps like Go's.\<close>

definition DeduplicationRate :: "processor_stats \<Rightarrow> real" where
  "DeduplicationRate s =
     (if st_EventsReceived s = 0 then 0
      else real (unat (st_EventsReused s + st_EventsSkipped s + st_EventsExcluded s))
        / real (unat (st_EventsReceived s)))"

subsection \<open>Facts\<close>

lemma digest_eq_iff [simp]: "digest l = digest l' \<longleftrightarrow> l = l'"
  by (cases l; cases l') simp

lemma layer_Equal_iff [simp]: "layer_Equal l l' \<longleftrightarrow> l = l'"
  by (simp add: layer_Equal_def)

lemma NewLayerID_inverse [simp]: "digest (NewLayerID d) = d"
  by (simp add: NewLayerID_def)

lemma NewLayerID_digest [simp]: "NewLayerID (digest l) = l"
  by (simp add: NewLayerID_def)

lemma actions_distinct [simp]:
  "ActionCompute \<noteq> ActionReuse" "ActionCompute \<noteq> ActionSkip" "ActionCompute \<noteq> ActionExclude"
  "ActionReuse \<noteq> ActionCompute" "ActionReuse \<noteq> ActionSkip" "ActionReuse \<noteq> ActionExclude"
  "ActionSkip \<noteq> ActionCompute" "ActionSkip \<noteq> ActionReuse" "ActionSkip \<noteq> ActionExclude"
  "ActionExclude \<noteq> ActionCompute" "ActionExclude \<noteq> ActionReuse" "ActionExclude \<noteq> ActionSkip"
  by (simp_all add: enum_defs)

lemma Validate_None_iff:
  "Validate e = None \<longleftrightarrow> digest (ev_LayerID e) \<noteq> '''' \<and> ev_Path e \<noteq> '''' \<and> ev_Op e \<noteq> 0"
  by (simp add: Validate_def layer_IsZero_def)

end
