(* ===== verification/Fs_Chunk.thy ===== *)
theory Fs_Chunk
  imports Prelude
begin

text \<open>
  Content hashing and buffer pooling of fshash (\<open>pkg/fshash/chunk/hasher.go\<close>, \<open>pool.go\<close>).

  The hash functions themselves (\<open>crypto/sha256\<close>, \<open>zeebo/blake3\<close>, \<open>zeebo/xxh3\<close>) are code
  outside the repository: they are the record \<open>digests\<close>, an argument of the constructor. The
  interface \<open>Hasher\<close> is the record \<open>hasher\<close> of its four methods. An \<open>io.Reader\<close> is what reading
  it to the end gives: an error or the bytes.
\<close>

section \<open>Hashers\<close>

record digests =
  dg_sha256 :: "bytes \<Rightarrow> bytes"
  dg_blake3 :: "bytes \<Rightarrow> bytes"
  dg_xxh3 :: "bytes \<Rightarrow> uint64"
  dg_xxh3_stream :: "bytes \<Rightarrow> bytes"

definition SHA256 :: string where "SHA256 = ''sha256''"
definition BLAKE3 :: string where "BLAKE3 = ''blake3''"
definition XXH3 :: string where "XXH3 = ''xxh3''"

record hasher =
  h_Hash :: "bytes \<Rightarrow> bytes"
  h_HashReader :: "string + bytes \<Rightarrow> string + bytes"
  h_Algorithm :: string
  h_Size :: int

definition uint64ToBytes :: "uint64 \<Rightarrow> bytes" where
  "uint64ToBytes v =
     [ucast (drop_bit 56 v), ucast (drop_bit 48 v), ucast (drop_bit 40 v), ucast (drop_bit 32 v),
      ucast (drop_bit 24 v), ucast (drop_bit 16 v), ucast (drop_bit 8 v), ucast v]"

definition sha256Hasher :: "digests \<Rightarrow> hasher" where
  "sha256Hasher d =
     \<lparr>h_Hash = dg_sha256 d,
      h_HashReader = (\<lambda>r. case r of Inl e \<Rightarrow> Inl e | Inr b \<Rightarrow> Inr (dg_sha256 d b)),
      h_Algorithm = SHA256, h_Size = 32\<rparr>"

definition blake3Hasher :: "digests \<Rightarrow> hasher" where
  "blake3Hasher d =
     \<lparr>h_Hash = dg_blake3 d,
      h_HashReader = (\<lambda>r. case r of Inl e \<Rightarrow> Inl e | Inr b \<Rightarrow> Inr (dg_blake3 d b)),
      h_Algorithm = BLAKE3, h_Size = 32\<rparr>"

definition xxh3Hasher :: "digests \<Rightarrow> hasher" where
  "xxh3Hasher d =
     \<lparr>h_Hash = (\<lambda>data. uint64ToBytes (dg_xxh3 d data)),
      h_HashReader = (\<lambda>r. case r of Inl e \<Rightarrow> Inl e | Inr b \<Rightarrow> Inr (dg_xxh3_stream d b)),
      h_Algorithm = XXH3, h_Size = 8\<rparr>"

text \<open>\<open>NewHasher\<close> panics (\<open>None\<close>) on an unknown algorithm.\<close>

definition NewHasher :: "digests \<Rightarrow> string \<Rightarrow> hasher option" where
  "NewHasher d algo =
     (if algo = SHA256 then Some (sha256Hasher d)
      else if algo = BLAKE3 then Some (blake3Hasher d)
      else if algo = XXH3 then Some (xxh3Hasher d)
      else None)"

section \<open>The buffer pool\<close>

text \<open>
  A buffer is a slice: its visible bytes and its capacity. A \<open>sync.Pool\<close> holds buffers that were
  put back and may drop any of them at any time; \<open>Get\<close> hands out one of them or calls \<open>New\<close>. The
  choice is an argument: \<open>Some i\<close> takes the \<open>i\<close>-th pooled buffer when there is one.
\<close>

record buffer =
  bu_data :: bytes
  bu_cap :: nat

record pool =
  po_small :: "buffer list"
  po_medium :: "buffer list"
  po_large :: "buffer list"

definition sizeSmall :: nat where "sizeSmall = 4 * 1024"
definition sizeMedium :: nat where "sizeMedium = 32 * 1024"
definition sizeLarge :: nat where "sizeLarge = 64 * 1024"

definition make_buffer :: "nat \<Rightarrow> buffer" where
  "make_buffer n = \<lparr>bu_data = replicate n 0, bu_cap = n\<rparr>"

definition NewPool :: pool where
  "NewPool = \<lparr>po_small = [], po_medium = [], po_large = []\<rparr>"

definition sync_get :: "nat \<Rightarrow> nat option \<Rightarrow> buffer list \<Rightarrow> buffer \<times> buffer list" where
  "sync_get new_size choice bs =
     (case choice of
        Some i \<Rightarrow> if i < length bs then (bs ! i, take i bs @ drop (Suc i) bs) else (make_buffer new_size, bs)
      | None \<Rightarrow> (make_buffer new_size, bs))"

definition pool_Get :: "int \<Rightarrow> nat option \<Rightarrow> pool \<Rightarrow> buffer \<times> pool" where
  "pool_Get sz choice p =
     (if sz \<le> int sizeSmall then
        (let (b, bs) = sync_get sizeSmall choice (po_small p) in (b, p\<lparr>po_small := bs\<rparr>))
      else if sz \<le> int sizeMedium then
        (let (b, bs) = sync_get sizeMedium choice (po_medium p) in (b, p\<lparr>po_medium := bs\<rparr>))
      else if sz \<le> int sizeLarge then
        (let (b, bs) = sync_get sizeLarge choice (po_large p) in (b, p\<lparr>po_large := bs\<rparr>))
      else (make_buffer (nat sz), p))"

text \<open>Re-slicing \<open>buf[:n]\<close> up to the capacity \<open>n\<close>; the bytes past the length are whatever the array holds.\<close>

definition reslice :: "(nat \<Rightarrow> byte) \<Rightarrow> nat \<Rightarrow> buffer \<Rightarrow> buffer" where
  "reslice tail n b = b\<lparr>bu_data := take n (bu_data b @ map tail [length (bu_data b)..<n])\<rparr>"

definition pool_Put :: "(nat \<Rightarrow> byte) \<Rightarrow> buffer \<Rightarrow> pool \<Rightarrow> pool" where
  "pool_Put tail buf p =
     (if bu_cap buf = sizeSmall then p\<lparr>po_small := reslice tail sizeSmall buf # po_small p\<rparr>
      else if bu_cap buf = sizeMedium then p\<lparr>po_medium := reslice tail sizeMedium buf # po_medium p\<rparr>
      else if bu_cap buf = sizeLarge then p\<lparr>po_large := reslice tail sizeLarge buf # po_large p\<rparr>
      else p)"

section \<open>Properties\<close>

subsection \<open>Big-endian conversion\<close>

lemma uint64ToBytes_length [simp]: "length (uint64ToBytes v) = 8"
  by (simp add: uint64ToBytes_def)

lemma uint64ToBytes_rsplit: "uint64ToBytes v = map (\<lambda>i. ucast (drop_bit (8 * (7 - i)) v)) [0..<8]"
  by (simp add: uint64ToBytes_def upt_rec)

lemma uint64ToBytes_bit:
  assumes "i < 8" "j < 8"
  shows "bit (uint64ToBytes v ! i) j \<longleftrightarrow> bit v (8 * (7 - i) + j)"
  using assms by (simp add: uint64ToBytes_rsplit bit_ucast_iff bit_drop_bit_eq)

lemma uint64ToBytes_inj: "uint64ToBytes v = uint64ToBytes w \<Longrightarrow> v = w"
proof (rule bit_word_eqI)
  fix n assume eq: "uint64ToBytes v = uint64ToBytes w" and n: "n < LENGTH(64)"
  define i where "i = 7 - n div 8"
  have i: "i < 8" "n mod 8 < 8" "8 * (7 - i) + n mod 8 = n"
    using n by (auto simp: i_def)
  show "bit v n = bit w n"
    using uint64ToBytes_bit [OF i(1,2), of v] uint64ToBytes_bit [OF i(1,2), of w] eq i(3) by simp
qed

text \<open>
  \<open>NewHasher\<close> returns a hasher exactly for the three known algorithms and panics otherwise.
  The hasher answers with the algorithm it was asked for, its one-shot digests have the length
  \<open>Size\<close> announces, and streaming gives the same digest as hashing the whole content at once, an
  error of the reader being passed on. (The library digests have their documented lengths, and
  XXH3's streaming \<open>Sum\<close> is the big-endian form of its 64-bit value.)
\<close>

theorem NewHasher_ok:
  assumes "\<And>b. length (dg_sha256 d b) = 32" "\<And>b. length (dg_blake3 d b) = 32"
    and "\<And>b. dg_xxh3_stream d b = uint64ToBytes (dg_xxh3 d b)"
  shows "if algo \<in> {SHA256, BLAKE3, XXH3}
    then \<exists>h. NewHasher d algo = Some h \<and> h_Algorithm h = algo
        \<and> (\<forall>data. int (length (h_Hash h data)) = h_Size h)
        \<and> (\<forall>data. h_HashReader h (Inr data) = Inr (h_Hash h data))
        \<and> (\<forall>e. h_HashReader h (Inl e) = Inl e)
    else NewHasher d algo = None"
  using assms
  by (auto simp: NewHasher_def sha256Hasher_def blake3Hasher_def xxh3Hasher_def SHA256_def BLAKE3_def XXH3_def)

definition example_digests :: digests where
  "example_digests = \<lparr>dg_sha256 = (\<lambda>b. replicate 31 0 @ [of_nat (length b)]),
     dg_blake3 = (\<lambda>b. replicate 31 1 @ [of_nat (length b)]), dg_xxh3 = (\<lambda>b. of_nat (length b)),
     dg_xxh3_stream = (\<lambda>b. uint64ToBytes (of_nat (length b)))\<rparr>"

theorem NewHasher_ok_witness:
  "\<exists>h. NewHasher example_digests ''xxh3'' = Some h \<and> length (h_Hash h [1, 2]) = 8"
  using NewHasher_ok [of example_digests "''xxh3''"]
  by (auto simp: example_digests_def XXH3_def NewHasher_def SHA256_def BLAKE3_def xxh3Hasher_def)

subsection \<open>The pool hands out buffers that are large enough\<close>

definition pool_ok :: "pool \<Rightarrow> bool" where
  "pool_ok p \<longleftrightarrow> (\<forall>b \<in> set (po_small p). length (bu_data b) = sizeSmall \<and> bu_cap b = sizeSmall)
     \<and> (\<forall>b \<in> set (po_medium p). length (bu_data b) = sizeMedium \<and> bu_cap b = sizeMedium)
     \<and> (\<forall>b \<in> set (po_large p). length (bu_data b) = sizeLarge \<and> bu_cap b = sizeLarge)"

lemma sync_get_ok:
  assumes "\<forall>b \<in> set bs. length (bu_data b) = n \<and> bu_cap b = n" "sync_get n choice bs = (b, bs')"
  shows "length (bu_data b) = n" "bu_cap b = n" "set bs' \<subseteq> set bs"
  using assms
  by (auto simp: sync_get_def make_buffer_def split: option.splits if_splits
      dest: in_set_takeD in_set_dropD)

lemma length_reslice: "length (bu_data (reslice tail n b)) = n"
  by (simp add: reslice_def)

datatype pool_op = PGet int "nat option" | PPut "nat \<Rightarrow> byte" buffer

fun pool_step :: "pool_op \<Rightarrow> pool \<Rightarrow> pool" where
  "pool_step (PGet n c) p = snd (pool_Get n c p)"
| "pool_step (PPut tail b) p = pool_Put tail b p"

lemma pool_ok_Put: "pool_ok p \<Longrightarrow> pool_ok (pool_Put tail b p)"
  by (auto simp: pool_ok_def pool_Put_def length_reslice) (auto simp: reslice_def)

lemma pool_Get_ok:
  assumes "pool_ok p" "pool_Get n c p = (b, p')"
  shows "pool_ok p' \<and> n \<le> int (length (bu_data b)) \<and> length (bu_data b) = bu_cap b"
proof -
  obtain bs bs1 where s: "sync_get sizeSmall c (po_small p) = (bs, bs1)" by fastforce
  obtain bm bm1 where m: "sync_get sizeMedium c (po_medium p) = (bm, bm1)" by fastforce
  obtain bl bl1 where l: "sync_get sizeLarge c (po_large p) = (bl, bl1)" by fastforce
  have S: "length (bu_data bs) = sizeSmall" "bu_cap bs = sizeSmall" "set bs1 \<subseteq> set (po_small p)"
    using sync_get_ok [OF _ s] assms(1) by (simp_all add: pool_ok_def)
  have M: "length (bu_data bm) = sizeMedium" "bu_cap bm = sizeMedium" "set bm1 \<subseteq> set (po_medium p)"
    using sync_get_ok [OF _ m] assms(1) by (simp_all add: pool_ok_def)
  have L: "length (bu_data bl) = sizeLarge" "bu_cap bl = sizeLarge" "set bl1 \<subseteq> set (po_large p)"
    using sync_get_ok [OF _ l] assms(1) by (simp_all add: pool_ok_def)
  consider "n \<le> int sizeSmall" | "\<not> n \<le> int sizeSmall" "n \<le> int sizeMedium"
    | "\<not> n \<le> int sizeSmall" "\<not> n \<le> int sizeMedium" "n \<le> int sizeLarge"
    | "\<not> n \<le> int sizeSmall" "\<not> n \<le> int sizeMedium" "\<not> n \<le> int sizeLarge" by blast
  then show ?thesis
  proof cases
    case 1
    then have e: "b = bs" "p' = p\<lparr>po_small := bs1\<rparr>" using assms(2) s by (simp_all add: pool_Get_def)
    then show ?thesis using 1 S assms(1) unfolding e pool_ok_def by auto
  next
    case 2
    then have e: "b = bm" "p' = p\<lparr>po_medium := bm1\<rparr>" using assms(2) m by (simp_all add: pool_Get_def)
    then show ?thesis using 2 M assms(1) unfolding e pool_ok_def by auto
  next
    case 3
    then have e: "b = bl" "p' = p\<lparr>po_large := bl1\<rparr>" using assms(2) l by (simp_all add: pool_Get_def)
    then show ?thesis using 3 L assms(1) unfolding e pool_ok_def by auto
  next
    case 4
    then have e: "b = make_buffer (nat n)" "p' = p" using assms(2) by (simp_all add: pool_Get_def)
    then show ?thesis using 4 assms(1) unfolding e by (simp add: make_buffer_def)
  qed
qed

lemma pool_ok_steps: "pool_ok p \<Longrightarrow> pool_ok (fold pool_step ops p)"
proof (induction ops arbitrary: p)
  case (Cons op ops)
  have "pool_ok (pool_step op p)"
    using pool_ok_Put [OF Cons.prems] pool_Get_ok [OF Cons.prems surjective_pairing] by (cases op) simp_all
  then show ?case using Cons.IH by simp
qed simp

text \<open>
  Whatever buffers callers returned to the pool before (of any length and capacity, resliced
  or foreign) and whatever the runtime kept of them, \<open>Get(size)\<close> hands out a buffer with at least
  \<open>size\<close> visible bytes, all of its capacity visible.
\<close>

theorem pool_Get_large_enough:
  "n \<le> int (length (bu_data (fst (pool_Get n c (fold pool_step ops NewPool)))))
   \<and> length (bu_data (fst (pool_Get n c (fold pool_step ops NewPool))))
      = bu_cap (fst (pool_Get n c (fold pool_step ops NewPool)))"
proof -
  have "pool_ok NewPool" by (simp add: pool_ok_def NewPool_def)
  from pool_Get_ok [OF pool_ok_steps [OF this] surjective_pairing] show ?thesis by blast
qed

end
