(* ===== verification/Fs_Merkle.thy ===== *)
theory Fs_Merkle
  imports Fs_Core Fs_Chunk
begin

text \<open>
  The Merkle tree of fshash (\<open>pkg/fshash/merkle\<close>: \<open>node.go\<close>, \<open>tree.go\<close>, \<open>proof.go\<close>): nodes and
  their traversal, the bottom-up builder with a configurable branching factor, the consistency
  check, and inclusion proofs. The hasher of the tree is a record of theory \<open>Fs_Chunk\<close>; the
  sorting function is an argument with the contract \<open>slice_sort\<close>. The level loops do not end for
  a branching factor below 2, so they are partial functions, and ending is proved.
\<close>

section \<open>Nodes\<close>

type_synonym node_kind = "8 word"

definition NodeLeaf :: node_kind where [enum_defs]: "NodeLeaf = 0"
definition NodeBranch :: node_kind where [enum_defs]: "NodeBranch = 1"

definition NodeKind_String :: "node_kind \<Rightarrow> string" where
  "NodeKind_String k = (if k = NodeLeaf then ''leaf'' else if k = NodeBranch then ''branch'' else ''unknown'')"

datatype merkle_node = Node (n_Kind: node_kind) (n_Hash: bytes) (n_Path: string)
  (n_Children: "merkle_node list") (n_Layer: layer_id) (n_Depth: int)

definition IsLeaf :: "merkle_node \<Rightarrow> bool" where
  "IsLeaf n \<longleftrightarrow> n_Kind n = NodeLeaf"

definition IsBranch :: "merkle_node \<Rightarrow> bool" where
  "IsBranch n \<longleftrightarrow> n_Kind n = NodeBranch"

fun node_LeafCount :: "merkle_node \<Rightarrow> nat" where
  "node_LeafCount (Node k h p cs l d) = (if k = NodeLeaf then 1 else sum_list (map node_LeafCount cs))"

text \<open>
  \<open>Walk\<close> threads the state \<open>'s\<close> of the callback; the callback's \<open>False\<close> stops the whole walk.
\<close>

fun walk :: "(merkle_node \<Rightarrow> int \<Rightarrow> 's \<Rightarrow> bool \<times> 's) \<Rightarrow> int \<Rightarrow> merkle_node \<Rightarrow> 's \<Rightarrow> bool \<times> 's"
  and walk_children :: "(merkle_node \<Rightarrow> int \<Rightarrow> 's \<Rightarrow> bool \<times> 's) \<Rightarrow> int \<Rightarrow> merkle_node list \<Rightarrow> 's \<Rightarrow> bool \<times> 's" where
  "walk fn depth (Node k h p cs l d) s =
     (case fn (Node k h p cs l d) depth s of
        (False, s) \<Rightarrow> (False, s)
      | (True, s) \<Rightarrow> walk_children fn (depth + 1) cs s)"
| "walk_children fn depth [] s = (True, s)"
| "walk_children fn depth (c # cs) s =
     (case walk fn depth c s of
        (False, s) \<Rightarrow> (False, s)
      | (True, s) \<Rightarrow> walk_children fn depth cs s)"

definition Walk :: "(merkle_node \<Rightarrow> int \<Rightarrow> 's \<Rightarrow> bool \<times> 's) \<Rightarrow> merkle_node \<Rightarrow> 's \<Rightarrow> 's" where
  "Walk fn n s = snd (walk fn 0 n s)"

section \<open>The builder\<close>

record tree_config =
  tc_branchingFactor :: int
  tc_algorithm :: string

definition WithBranchingFactor :: "int \<Rightarrow> tree_config \<Rightarrow> tree_config" where
  "WithBranchingFactor n c = (if n \<ge> 2 then c\<lparr>tc_branchingFactor := n\<rparr> else c)"

definition WithTreeAlgorithm :: "string \<Rightarrow> tree_config \<Rightarrow> tree_config" where
  "WithTreeAlgorithm algo c = c\<lparr>tc_algorithm := algo\<rparr>"

record merkle_tree =
  t_cfg :: tree_config
  t_hasher :: hasher
  t_leaves :: "merkle_node list"
  t_root :: "merkle_node option"
  t_built :: bool

text \<open>\<open>None\<close> is the panic of \<open>NewHasher\<close>.\<close>

definition NewTree :: "digests \<Rightarrow> (tree_config \<Rightarrow> tree_config) list \<Rightarrow> merkle_tree option" where
  "NewTree d opts =
     (let cfg = fold (\<lambda>opt c. opt c) opts \<lparr>tc_branchingFactor = 2, tc_algorithm = BLAKE3\<rparr>
      in map_option (\<lambda>h. \<lparr>t_cfg = cfg, t_hasher = h, t_leaves = [], t_root = None, t_built = False\<rparr>)
           (NewHasher d (tc_algorithm cfg)))"

definition tree_Insert :: "string \<Rightarrow> bytes \<Rightarrow> layer_id \<Rightarrow> merkle_tree \<Rightarrow> merkle_tree" where
  "tree_Insert path hash layerID t =
     t\<lparr>t_leaves := t_leaves t @ [Node NodeLeaf hash path [] layerID 0], t_built := False\<rparr>"

definition InsertSubtree :: "merkle_node \<Rightarrow> merkle_tree \<Rightarrow> merkle_tree" where
  "InsertSubtree node t = t\<lparr>t_leaves := t_leaves t @ [node], t_built := False\<rparr>"

definition combineNodes :: "(bytes \<Rightarrow> bytes) \<Rightarrow> int \<Rightarrow> merkle_node list \<Rightarrow> merkle_node" where
  "combineNodes H depth children =
     Node NodeBranch (H (concat (map n_Hash children))) '''' children (LayerID '''') depth"

text \<open>The loop \<open>for i := 0; i < len(level); i += n\<close> that cuts a level into slices of \<open>n\<close>.\<close>

partial_function (option) group_loop :: "nat \<Rightarrow> 'a list \<Rightarrow> 'a list list option" where
  "group_loop n xs =
     (if xs = [] then Some []
      else Option.bind (group_loop n (drop n xs)) (\<lambda>gs. Some (take n xs # gs)))"

text \<open>The outer loop, while the level has more than one node.\<close>

partial_function (option) build_loop ::
    "(bytes \<Rightarrow> bytes) \<Rightarrow> nat \<Rightarrow> int \<Rightarrow> merkle_node list \<Rightarrow> merkle_node list option" where
  "build_loop H n depth level =
     (if 1 < length level
      then Option.bind (group_loop n level)
             (\<lambda>gs. build_loop H n (depth + 1) (map (combineNodes H (depth + 1)) gs))
      else Some level)"

definition Build ::
    "(merkle_node list \<Rightarrow> merkle_node list) \<Rightarrow> merkle_tree \<Rightarrow> ((fs_error + merkle_node) \<times> merkle_tree) option" where
  "Build srt t =
     (if t_leaves t = [] then Some (Inl (ErrTreeEmpty ''''), t)
      else
        (let t = t\<lparr>t_leaves := srt (t_leaves t)\<rparr>
         in Option.bind (build_loop (h_Hash (t_hasher t)) (nat (tc_branchingFactor (t_cfg t))) 0 (t_leaves t))
              (\<lambda>level. Some (Inr (level ! 0), t\<lparr>t_root := Some (level ! 0), t_built := True\<rparr>))))"

definition tree_Root :: "merkle_tree \<Rightarrow> bytes option" where
  "tree_Root t = map_option n_Hash (t_root t)"

definition tree_LeafCount :: "merkle_tree \<Rightarrow> nat" where
  "tree_LeafCount t = length (t_leaves t)"

datatype verify_error = VerifyTreeEmpty | VerifyMismatch int

text \<open>\<open>verifyNode\<close> returns \<open>nil\<close> (\<open>None\<close>) or the first mismatch in pre-order.\<close>

fun verifyNode :: "(bytes \<Rightarrow> bytes) \<Rightarrow> merkle_node \<Rightarrow> verify_error option"
  and verify_children :: "(bytes \<Rightarrow> bytes) \<Rightarrow> merkle_node list \<Rightarrow> verify_error option" where
  "verifyNode H (Node k h p cs l d) =
     (if k = NodeLeaf then None
      else if h \<noteq> H (concat (map n_Hash cs)) then Some (VerifyMismatch d)
      else verify_children H cs)"
| "verify_children H [] = None"
| "verify_children H (c # cs) =
     (case verifyNode H c of Some e \<Rightarrow> Some e | None \<Rightarrow> verify_children H cs)"

definition tree_Verify :: "merkle_tree \<Rightarrow> verify_error option" where
  "tree_Verify t =
     (case t_root t of
        None \<Rightarrow> Some VerifyTreeEmpty
      | Some r \<Rightarrow> verifyNode (h_Hash (t_hasher t)) r)"

section \<open>Inclusion proofs\<close>

record merkle_proof =
  pf_Path :: string
  pf_LeafHash :: bytes
  pf_Siblings :: "bytes list"
  pf_Directions :: "bool list"

fun verify_walk :: "(bytes \<Rightarrow> bytes) \<Rightarrow> bytes \<Rightarrow> (bytes \<times> bool) list \<Rightarrow> bytes" where
  "verify_walk H current [] = current"
| "verify_walk H current ((sibling, right) # rest) =
     verify_walk H (H (if right then current @ sibling else sibling @ current)) rest"

definition proof_Verify :: "merkle_proof \<Rightarrow> bytes \<Rightarrow> (bytes \<Rightarrow> bytes) \<Rightarrow> bool" where
  "proof_Verify p rootHash H =
     (if length (pf_Siblings p) \<noteq> length (pf_Directions p) then False
      else verify_walk H (pf_LeafHash p) (zip (pf_Siblings p) (pf_Directions p)) = rootHash)"

text \<open>The index of the first leaf with the path.\<close>

fun find_leaf :: "string \<Rightarrow> nat \<Rightarrow> merkle_node list \<Rightarrow> nat option" where
  "find_leaf path i [] = None"
| "find_leaf path i (leaf # ls) = (if n_Path leaf = path then Some i else find_leaf path (Suc i) ls)"

text \<open>The siblings inside the target's group, in order, and on which side they are.\<close>

fun group_siblings :: "nat \<Rightarrow> nat \<Rightarrow> merkle_node list \<Rightarrow> (bytes \<times> bool) list" where
  "group_siblings localIdx j [] = []"
| "group_siblings localIdx j (child # cs) =
     (if j \<noteq> localIdx then [(n_Hash child, localIdx < j)] else []) @ group_siblings localIdx (Suc j) cs"

text \<open>The groups of a level with their start \<open>i\<close>; only the one that holds \<open>idx\<close> contributes.\<close>

fun level_siblings :: "nat \<Rightarrow> nat \<Rightarrow> nat \<Rightarrow> merkle_node list list \<Rightarrow> (bytes \<times> bool) list" where
  "level_siblings n idx i [] = []"
| "level_siblings n idx i (children # gs) =
     (if i \<le> idx \<and> idx < i + length children then group_siblings (idx - i) 0 children else [])
     @ level_siblings n idx (i + n) gs"

partial_function (option) proof_loop ::
    "(bytes \<Rightarrow> bytes) \<Rightarrow> nat \<Rightarrow> merkle_node list \<Rightarrow> nat \<Rightarrow> (bytes \<times> bool) list \<Rightarrow> (bytes \<times> bool) list option" where
  "proof_loop H n level idx acc =
     (if 1 < length level
      then Option.bind (group_loop n level)
             (\<lambda>gs. proof_loop H n (map (combineNodes H 0) gs) (idx div n) (acc @ level_siblings n idx 0 gs))
      else Some acc)"

text \<open>
  The outer option is termination, the inner one the \<open>nil\<close> of a missing path or an unbuilt tree.
\<close>

definition GenerateProof :: "string \<Rightarrow> merkle_tree \<Rightarrow> merkle_proof option option" where
  "GenerateProof path t =
     (case t_root t of
        None \<Rightarrow> Some None
      | Some _ \<Rightarrow>
          (case find_leaf path 0 (t_leaves t) of
             None \<Rightarrow> Some None
           | Some leafIdx \<Rightarrow>
               Option.bind
                 (proof_loop (h_Hash (t_hasher t)) (nat (tc_branchingFactor (t_cfg t))) (t_leaves t) leafIdx [])
                 (\<lambda>acc. Some (Some \<lparr>pf_Path = path, pf_LeafHash = n_Hash (t_leaves t ! leafIdx),
                     pf_Siblings = map fst acc, pf_Directions = map snd acc\<rparr>))))"

section \<open>The levels as pure functions\<close>

text \<open>The slices of a list, and the root as a function of the leaf hashes only.\<close>

function groups :: "nat \<Rightarrow> 'a list \<Rightarrow> 'a list list" where
  "groups n xs = (if xs = [] \<or> n = 0 then [] else take n xs # groups n (drop n xs))"
  by pat_completeness auto
termination by (relation "measure (length \<circ> snd)") auto

declare groups.simps [simp del]

lemma groups_Nil [simp]: "groups n [] = []"
  by (simp add: groups.simps)

lemma groups_step: "xs \<noteq> [] \<Longrightarrow> 0 < n \<Longrightarrow> groups n xs = take n xs # groups n (drop n xs)"
  by (simp add: groups.simps)

lemma group_loop_groups: "0 < n \<Longrightarrow> group_loop n xs = Some (groups n xs)"
proof (induction n xs rule: groups.induct)
  case (1 n xs)
  then show ?case by (cases "xs = []") (simp_all add: group_loop.simps groups_step)
qed

lemma concat_groups: "0 < n \<Longrightarrow> concat (groups n xs) = xs"
proof (induction n xs rule: groups.induct)
  case (1 n xs)
  then show ?case by (cases "xs = []") (simp_all add: groups_step)
qed

lemma map_groups: "groups n (map f xs) = map (map f) (groups n xs)"
proof (induction n xs rule: groups.induct)
  case (1 n xs)
  then show ?case
    by (cases "xs = [] \<or> n = 0") (auto simp: groups.simps [of n "map f xs"] groups.simps [of n xs] take_map drop_map)
qed

lemma groups_nonempty: "g \<in> set (groups n xs) \<Longrightarrow> g \<noteq> [] \<and> length g \<le> n"
proof (induction n xs rule: groups.induct)
  case (1 n xs)
  then show ?case by (cases "xs = [] \<or> n = 0") (auto simp: groups.simps [of n xs])
qed

lemma length_groups_le: "length (groups n xs) \<le> length xs"
proof (induction n xs rule: groups.induct)
  case (1 n xs)
  show ?case
  proof (cases "xs = [] \<or> n = 0")
    case False
    then have "length (groups n (drop n xs)) \<le> length xs - n" using 1 by auto
    moreover have "0 < n" "0 < length xs" using False by auto
    ultimately have "Suc (length (groups n (drop n xs))) \<le> length xs" by linarith
    then show ?thesis using False by (simp add: groups.simps [of n xs])
  qed (auto simp: groups.simps)
qed

lemma length_groups_less: "2 \<le> n \<Longrightarrow> 1 < length xs \<Longrightarrow> length (groups n xs) < length xs"
  using length_groups_le [of n "drop n xs"] by (auto simp: groups.simps [of n xs])

lemma length_groups_cong: "length xs = length ys \<Longrightarrow> map length (groups n xs) = map length (groups n ys)"
proof (induction n xs arbitrary: ys rule: groups.induct)
  case (1 n xs)
  show ?case
  proof (cases "xs = [] \<or> n = 0")
    case False
    then have "ys \<noteq> []" using 1(2) by auto
    then show ?thesis using 1 False by (auto simp: groups.simps [of n xs] groups.simps [of n ys])
  qed (use 1(2) in \<open>auto simp: groups.simps\<close>)
qed

function merkle_root :: "(bytes \<Rightarrow> bytes) \<Rightarrow> nat \<Rightarrow> bytes list \<Rightarrow> bytes" where
  "merkle_root H n hs =
     (if n < 2 \<or> length hs \<le> 1 then concat hs
      else merkle_root H n (map (\<lambda>g. H (concat g)) (groups n hs)))"
  by pat_completeness auto
termination by (relation "measure (\<lambda>(H, n, hs). length hs)") (auto simp: length_groups_less)

declare merkle_root.simps [simp del]

text \<open>The strings that are hashed on the way to the root.\<close>

function merkle_inputs :: "(bytes \<Rightarrow> bytes) \<Rightarrow> nat \<Rightarrow> bytes list \<Rightarrow> bytes set" where
  "merkle_inputs H n hs =
     (if n < 2 \<or> length hs \<le> 1 then {}
      else set (map concat (groups n hs)) \<union> merkle_inputs H n (map (\<lambda>g. H (concat g)) (groups n hs)))"
  by pat_completeness auto
termination by (relation "measure (\<lambda>(H, n, hs). length hs)") (auto simp: length_groups_less)

declare merkle_inputs.simps [simp del]

lemma hash_combineNodes [simp]: "n_Hash (combineNodes H d cs) = H (concat (map n_Hash cs))"
  by (simp add: combineNodes_def)

lemma map_hash_combine:
  "map n_Hash (map (combineNodes H d) (groups n level)) = map (\<lambda>g. H (concat g)) (groups n (map n_Hash level))"
  by (simp add: map_groups comp_def)

section \<open>The builder ends, and what it builds\<close>

fun frontier :: "merkle_node \<Rightarrow> merkle_node list" where
  "frontier (Node k h p cs l d) = (if k = NodeLeaf then [Node k h p cs l d] else concat (map frontier cs))"

lemma frontier_leaf: "IsLeaf n \<Longrightarrow> frontier n = [n]"
  by (cases n) (simp add: IsLeaf_def)

lemma frontier_combine [simp]: "frontier (combineNodes H d cs) = concat (map frontier cs)"
  by (simp add: combineNodes_def enum_defs)

lemma LeafCount_frontier: "node_LeafCount n = length (frontier n)"
proof (induction n)
  case (Node k h p cs l d)
  then show ?case by (induction cs) auto
qed

lemma verify_children_None: "verify_children H cs = None \<longleftrightarrow> (\<forall>c \<in> set cs. verifyNode H c = None)"
  by (induction cs) (auto split: option.splits)

lemma verifyNode_combine: "verifyNode H (combineNodes H d cs) = verify_children H cs"
  by (simp add: combineNodes_def enum_defs)

text \<open>One invariant carries the build: ending, the leaf order, consistency and the root hash.\<close>

lemma build_loop_ok:
  assumes "2 \<le> n" "level \<noteq> []"
  shows "\<exists>r. build_loop H n d level = Some [r]
    \<and> frontier r = concat (map frontier level)
    \<and> (verify_children H level = None \<longrightarrow> verifyNode H r = None)
    \<and> n_Hash r = merkle_root H n (map n_Hash level)"
  using assms(2)
proof (induction "length level" arbitrary: level d rule: less_induct)
  case less
  show ?case
  proof (cases "1 < length level")
    case False
    then obtain r where r: "level = [r]" using less.prems by (cases level) auto
    show ?thesis
      unfolding r by (auto simp: build_loop.simps merkle_root.simps split: option.splits)
  next
    case True
    let ?next = "map (combineNodes H (d + 1)) (groups n level)"
    have step: "build_loop H n d level = build_loop H n (d + 1) ?next"
      using True assms(1) by (subst build_loop.simps) (simp add: group_loop_groups)
    have ne: "?next \<noteq> []" using True assms(1) by (auto simp: groups.simps [of n level])
    have len: "length ?next < length level" using length_groups_less [OF assms(1) True] by simp
    obtain r where r: "build_loop H n (d + 1) ?next = Some [r]"
        "frontier r = concat (map frontier ?next)"
        "verify_children H ?next = None \<longrightarrow> verifyNode H r = None"
        "n_Hash r = merkle_root H n (map n_Hash ?next)"
      using less.hyps [OF len ne, of "d + 1"] by (elim exE conjE) (rule that)
    have "concat (map (\<lambda>g. concat (map frontier g)) gs) = concat (map frontier (concat gs))" for gs
      by (induction gs) simp_all
    then have fr: "frontier r = concat (map frontier level)"
      using r(2) assms(1) by (simp add: comp_def concat_groups)
    have "verify_children H ?next = None" if "verify_children H level = None"
    proof -
      have "\<forall>c \<in> set (concat (groups n level)). verifyNode H c = None"
        using that assms(1) by (simp only: concat_groups verify_children_None)
      then show ?thesis by (auto simp: verify_children_None verifyNode_combine)
    qed
    moreover have "n_Hash r = merkle_root H n (map n_Hash level)"
      using r(4) True assms(1) unfolding map_hash_combine
      by (subst merkle_root.simps) simp
    ultimately show ?thesis using step r(1,3) fr by auto
  qed
qed

section \<open>Trees made by the constructor\<close>

definition insert_files :: "(string \<times> bytes \<times> layer_id) list \<Rightarrow> merkle_tree \<Rightarrow> merkle_tree" where
  "insert_files files t = fold (\<lambda>(p, h, l). tree_Insert p h l) files t"

definition file_node :: "string \<times> bytes \<times> layer_id \<Rightarrow> merkle_node" where
  "file_node f = (case f of (p, h, l) \<Rightarrow> Node NodeLeaf h p [] l 0)"

definition tree_options :: "(tree_config \<Rightarrow> tree_config) set" where
  "tree_options = range WithBranchingFactor \<union> range WithTreeAlgorithm"

lemma file_node_simps [simp]:
  "n_Path (file_node f) = fst f" "n_Hash (file_node f) = fst (snd f)" "n_Layer (file_node f) = snd (snd f)"
  "IsLeaf (file_node f)" "frontier (file_node f) = [file_node f]" "verifyNode H (file_node f) = None"
  by (simp_all add: file_node_def IsLeaf_def split: prod.splits)

lemma inj_file_node: "inj file_node"
  by (rule injI) (auto simp: file_node_def split: prod.splits)

lemma insert_files_fields:
  "t_leaves (insert_files files t) = t_leaves t @ map file_node files"
  "t_cfg (insert_files files t) = t_cfg t" "t_hasher (insert_files files t) = t_hasher t"
  "t_root (insert_files files t) = t_root t"
  by (induction files arbitrary: t) (auto simp: insert_files_def tree_Insert_def file_node_def)

lemma options_branching:
  "set opts \<subseteq> tree_options \<Longrightarrow> 2 \<le> tc_branchingFactor c \<Longrightarrow>
     2 \<le> tc_branchingFactor (fold (\<lambda>opt c. opt c) opts c)"
proof (induction opts arbitrary: c)
  case (Cons opt opts)
  have "2 \<le> tc_branchingFactor (opt c)"
    using Cons.prems by (auto simp: tree_options_def WithBranchingFactor_def WithTreeAlgorithm_def)
  then show ?case using Cons by simp
qed simp

lemma NewTree_fields:
  assumes "NewTree d opts = Some t" "set opts \<subseteq> tree_options"
  shows "2 \<le> tc_branchingFactor (t_cfg t)" "t_leaves t = []" "t_root t = None"
    "NewHasher d (tc_algorithm (t_cfg t)) = Some (t_hasher t)"
  using assms options_branching [OF assms(2), of "\<lparr>tc_branchingFactor = 2, tc_algorithm = BLAKE3\<rparr>"]
  by (auto simp: NewTree_def Let_def)

definition tree_bf :: "merkle_tree \<Rightarrow> nat" where
  "tree_bf t = nat (tc_branchingFactor (t_cfg t))"

definition tree_H :: "merkle_tree \<Rightarrow> bytes \<Rightarrow> bytes" where
  "tree_H t = h_Hash (t_hasher t)"

lemma Build_files:
  assumes "slice_sort n_Path srt" "2 \<le> tree_bf t" "t_leaves t = []" "files \<noteq> []"
  shows "\<exists>r. Build srt (insert_files files t)
      = Some (Inr r, (insert_files files t)\<lparr>t_leaves := srt (map file_node files), t_root := Some r, t_built := True\<rparr>)
    \<and> frontier r = srt (map file_node files)
    \<and> verifyNode (tree_H t) r = None
    \<and> n_Hash r = merkle_root (tree_H t) (tree_bf t) (map n_Hash (srt (map file_node files)))
    \<and> build_loop (tree_H t) (tree_bf t) 0 (srt (map file_node files)) = Some [r]"
proof -
  note srt = slice_sort.srt_set [OF assms(1)]
  let ?level = "srt (map file_node files)"
  have nodes: "\<forall>m \<in> set ?level. \<exists>f. m = file_node f" using srt by auto
  have ne: "?level \<noteq> []" using srt [of "map file_node files"] assms(4) by (metis list.set(1) map_is_Nil_conv set_empty)
  obtain r where r: "build_loop (tree_H t) (tree_bf t) 0 ?level = Some [r]"
      "frontier r = concat (map frontier ?level)"
      "verify_children (tree_H t) ?level = None \<longrightarrow> verifyNode (tree_H t) r = None"
      "n_Hash r = merkle_root (tree_H t) (tree_bf t) (map n_Hash ?level)"
    using build_loop_ok [OF assms(2) ne, of "tree_H t" 0] by (elim exE conjE) (rule that)
  have "concat (map frontier xs) = xs" if "\<forall>m \<in> set xs. \<exists>f. m = file_node f" for xs
    using that by (induction xs) auto
  then have "frontier r = ?level" using r(2) nodes by simp
  moreover have "verifyNode (tree_H t) r = None"
    using r(3) nodes by (auto simp: verify_children_None)
  moreover have "Build srt (insert_files files t)
      = Some (Inr r, (insert_files files t)\<lparr>t_leaves := ?level, t_root := Some r, t_built := True\<rparr>)"
    using r(1) assms(3,4) by (simp add: Build_def insert_files_fields tree_H_def tree_bf_def Let_def)
  ultimately show ?thesis using r(1,4) by blast
qed

text \<open>
  C27: \<open>Build\<close> always ends and builds the right tree. For every tree made by \<open>NewTree\<close> with
  any of its options, and any files inserted, the level loop terminates (the branching factor is
  at least 2); without files the result is \<open>ErrTreeEmpty\<close>; otherwise the leaves of the root, from
  left to right, are the files sorted by path, \<open>LeafCount\<close> is their number, \<open>Verify\<close> accepts the
  tree, and the root hash is the function \<open>merkle_root\<close> of the sorted leaf hashes.
\<close>

theorem Build_ok:
  assumes "slice_sort n_Path srt" "NewTree d opts = Some t" "set opts \<subseteq> tree_options"
  shows "(files = [] \<longrightarrow> Build srt (insert_files files t) = Some (Inl (ErrTreeEmpty ''''), insert_files files t))
    \<and> (files \<noteq> [] \<longrightarrow> (\<exists>r t'. Build srt (insert_files files t) = Some (Inr r, t')
        \<and> mset (frontier r) = mset (map file_node files) \<and> sorted (map n_Path (frontier r))
        \<and> node_LeafCount r = length files
        \<and> tree_Verify t' = None
        \<and> tree_Root t' = Some (merkle_root (tree_H t) (tree_bf t) (map n_Hash (frontier r)))))"
proof (intro conjI impI)
  assume "files = []"
  then show "Build srt (insert_files files t) = Some (Inl (ErrTreeEmpty ''''), insert_files files t)"
    using NewTree_fields [OF assms(2,3)] by (simp add: Build_def insert_files_fields)
next
  assume ne: "files \<noteq> []"
  have bf: "2 \<le> tree_bf t" using NewTree_fields(1) [OF assms(2,3)] by (simp add: tree_bf_def)
  obtain r where r: "Build srt (insert_files files t)
      = Some (Inr r, (insert_files files t)\<lparr>t_leaves := srt (map file_node files), t_root := Some r, t_built := True\<rparr>)"
    "frontier r = srt (map file_node files)" "verifyNode (tree_H t) r = None"
    "n_Hash r = merkle_root (tree_H t) (tree_bf t) (map n_Hash (srt (map file_node files)))"
    using Build_files [OF assms(1) bf NewTree_fields(2) [OF assms(2,3)] ne] by (elim exE conjE) (rule that)
  define t' where "t' = (insert_files files t)\<lparr>t_leaves := srt (map file_node files), t_root := Some r, t_built := True\<rparr>"
  have "mset (frontier r) = mset (map file_node files)" "sorted (map n_Path (frontier r))"
    unfolding r(2) by (rule slice_sort.srt_mset [OF assms(1)], rule slice_sort.srt_sorted [OF assms(1)])
  moreover have "node_LeafCount r = length files"
    using slice_sort.srt_length [OF assms(1)] by (simp add: LeafCount_frontier r(2))
  moreover have "tree_Verify t' = None"
    using r(3) by (simp add: t'_def tree_Verify_def insert_files_fields tree_H_def)
  moreover have "tree_Root t' = Some (merkle_root (tree_H t) (tree_bf t) (map n_Hash (frontier r)))"
    using r(4) by (simp add: t'_def tree_Root_def r(2))
  ultimately show "\<exists>r t'. Build srt (insert_files files t) = Some (Inr r, t')
        \<and> mset (frontier r) = mset (map file_node files) \<and> sorted (map n_Path (frontier r))
        \<and> node_LeafCount r = length files
        \<and> tree_Verify t' = None
        \<and> tree_Root t' = Some (merkle_root (tree_H t) (tree_bf t) (map n_Hash (frontier r)))"
    using r(1) [folded t'_def] by (intro exI conjI)
qed

lemma path_sort: "slice_sort n_Path (sort_key n_Path)"
  by (rule insertion_slice_sort.slice_sort_axioms)

lemma example_NewTree: "\<exists>t. NewTree example_digests [WithBranchingFactor 3, WithTreeAlgorithm SHA256] = Some t"
  by (simp add: NewTree_def WithTreeAlgorithm_def NewHasher_def)

lemma example_NewTree0: "\<exists>t. NewTree example_digests [] = Some t"
  by (simp add: NewTree_def NewHasher_def BLAKE3_def SHA256_def)

lemma example_options: "set [WithBranchingFactor 3, WithTreeAlgorithm SHA256] \<subseteq> tree_options"
  by (auto simp: tree_options_def)

theorem Build_ok_witness:
  "\<exists>t r t'. NewTree example_digests [WithBranchingFactor 3, WithTreeAlgorithm SHA256] = Some t
     \<and> Build (sort_key n_Path) (insert_files [(''/b'', [2], LayerID ''l''), (''/a'', [1], LayerID ''l'')] t)
        = Some (Inr r, t') \<and> node_LeafCount r = 2 \<and> tree_Verify t' = None"
proof -
  obtain t where t: "NewTree example_digests [WithBranchingFactor 3, WithTreeAlgorithm SHA256] = Some t"
    using example_NewTree by blast
  from Build_ok [OF path_sort t example_options, of "[(''/b'', [2], LayerID ''l''), (''/a'', [1], LayerID ''l'')]"]
  show ?thesis using t by auto
qed

text \<open>
  The root does not depend on the insertion order nor on how the sort orders equal
  elements: two trees of the same configuration that were given the same files (each path once)
  in any order, sorted by any two sorting functions, return the same root node.
\<close>

theorem Build_order_independent:
  assumes "slice_sort n_Path srt" "slice_sort n_Path srt'"
    and "NewTree d opts = Some t" "set opts \<subseteq> tree_options"
    and "mset files = mset files'" "distinct (map fst files)" "files \<noteq> []"
  shows "\<exists>r. map_option fst (Build srt (insert_files files t)) = Some (Inr r)
    \<and> map_option fst (Build srt' (insert_files files' t)) = Some (Inr r)"
proof -
  have bf: "2 \<le> tree_bf t" using NewTree_fields(1) [OF assms(3,4)] by (simp add: tree_bf_def)
  have ne: "files' \<noteq> []" using assms(5,7) by auto
  have "distinct (map n_Path (map file_node files))" using assms(6) by (simp add: comp_def)
  moreover have "mset (map file_node files) = mset (map file_node files')" using assms(5) by simp
  ultimately have "srt (map file_node files) = srt' (map file_node files')"
    using slice_sort.srt_unique [OF assms(1)] slice_sort.srt_sorted [OF assms(2)] slice_sort.srt_mset [OF assms(2)]
    by metis
  moreover obtain r where "Build srt (insert_files files t)
      = Some (Inr r, (insert_files files t)\<lparr>t_leaves := srt (map file_node files), t_root := Some r, t_built := True\<rparr>)"
    "build_loop (tree_H t) (tree_bf t) 0 (srt (map file_node files)) = Some [r]"
    using Build_files [OF assms(1) bf NewTree_fields(2) [OF assms(3,4)] assms(7)] by (elim exE conjE) (rule that)
  moreover obtain r' where "Build srt' (insert_files files' t)
      = Some (Inr r', (insert_files files' t)\<lparr>t_leaves := srt' (map file_node files'), t_root := Some r', t_built := True\<rparr>)"
    "build_loop (tree_H t) (tree_bf t) 0 (srt' (map file_node files')) = Some [r']"
    using Build_files [OF assms(2) bf NewTree_fields(2) [OF assms(3,4)] ne] by (elim exE conjE) (rule that)
  ultimately show ?thesis by simp
qed

theorem Build_order_independent_witness:
  "\<exists>t r. NewTree example_digests [] = Some t
     \<and> map_option fst (Build (sort_key n_Path) (insert_files [(''/b'', [2], LayerID ''l''), (''/a'', [1], LayerID ''l'')] t)) = Some (Inr r)
     \<and> map_option fst (Build (sort_key n_Path) (insert_files [(''/a'', [1], LayerID ''l''), (''/b'', [2], LayerID ''l'')] t)) = Some (Inr r)"
proof -
  obtain t where t: "NewTree example_digests [] = Some t"
    using example_NewTree0 by blast
  from Build_order_independent [OF path_sort path_sort t, of "[(''/b'', [2], LayerID ''l''), (''/a'', [1], LayerID ''l'')]"
      "[(''/a'', [1], LayerID ''l''), (''/b'', [2], LayerID ''l'')]"]
  show ?thesis using t by auto
qed

section \<open>What the root hash binds\<close>

lemma merkle_root_step:
  "2 \<le> n \<Longrightarrow> 1 < length hs \<Longrightarrow>
     merkle_root H n hs = merkle_root H n (map (\<lambda>g. H (concat g)) (groups n hs))"
  by (subst merkle_root.simps) simp

lemma merkle_inputs_step:
  "2 \<le> n \<Longrightarrow> 1 < length hs \<Longrightarrow>
     merkle_inputs H n hs = set (map concat (groups n hs)) \<union> merkle_inputs H n (map (\<lambda>g. H (concat g)) (groups n hs))"
  by (subst merkle_inputs.simps) simp

lemma concat_fixed_inj:
  "length xs = length ys \<Longrightarrow> (\<forall>x \<in> set xs. length x = L) \<Longrightarrow> (\<forall>y \<in> set ys. length y = L) \<Longrightarrow>
     concat xs = concat ys \<Longrightarrow> xs = ys"
  by (induction xs ys rule: list_induct2) auto

lemma concat_map_concat: "concat (map concat xss) = concat (concat xss)"
  by (induction xss) simp_all

lemma merkle_root_binds:
  assumes "2 \<le> n" "\<And>b. length (H b) = L"
  shows "length hs = length hs' \<Longrightarrow> (\<forall>h \<in> set hs. length h = L) \<Longrightarrow> (\<forall>h \<in> set hs'. length h = L) \<Longrightarrow>
     inj_on H (merkle_inputs H n hs \<union> merkle_inputs H n hs') \<Longrightarrow>
     merkle_root H n hs = merkle_root H n hs' \<Longrightarrow> hs = hs'"
proof (induction "length hs" arbitrary: hs hs' rule: less_induct)
  case less
  show ?case
  proof (cases "1 < length hs")
    case False
    then consider "hs = []" "hs' = []" | h h' where "hs = [h]" "hs' = [h']"
      using less.prems(1) by (cases hs; cases hs') auto
    then show ?thesis
      using less.prems(5) by cases (simp_all add: merkle_root.simps)
  next
    case True
    then have True': "1 < length hs'" using less.prems(1) by simp
    let ?up = "\<lambda>hs. map (\<lambda>g. H (concat g)) (groups n hs)"
    note inputs = merkle_inputs_step [OF assms(1) True, of H] merkle_inputs_step [OF assms(1) True', of H]
    have len: "length (?up hs) < length hs" using length_groups_less [OF assms(1) True] by simp
    have "length (?up hs) = length (?up hs')"
      using length_groups_cong [OF less.prems(1), of n] by (metis length_map)
    moreover have "\<forall>h \<in> set (?up hs). length h = L" "\<forall>h \<in> set (?up hs'). length h = L"
      using assms(2) by auto
    moreover have "inj_on H (merkle_inputs H n (?up hs) \<union> merkle_inputs H n (?up hs'))"
      by (rule inj_on_subset [OF less.prems(4)]) (auto simp: inputs)
    moreover have "merkle_root H n (?up hs) = merkle_root H n (?up hs')"
      using less.prems(5) merkle_root_step [OF assms(1) True, of H] merkle_root_step [OF assms(1) True', of H] by simp
    ultimately have "?up hs = ?up hs'" by (rule less.hyps [OF len])
    then have "map H (map concat (groups n hs)) = map H (map concat (groups n hs'))" by (simp add: comp_def)
    moreover have "inj_on H (set (map concat (groups n hs)) \<union> set (map concat (groups n hs')))"
      by (rule inj_on_subset [OF less.prems(4)]) (auto simp: inputs)
    ultimately have "map concat (groups n hs) = map concat (groups n hs')" by (metis map_inj_on)
    then have "concat (concat (groups n hs)) = concat (concat (groups n hs'))" by (metis concat_map_concat)
    then have "concat hs = concat hs'" using assms(1) by (simp add: concat_groups)
    then show ?thesis using concat_fixed_inj less.prems(1-3) by blast
  qed
qed

text \<open>
  The root hash binds the contents. Two trees over the same number of files, with hashes of
  the digest length, that build to the same root hash have the same leaf hashes in the same
  (sorted) order, unless the hash function collides on two of the strings hashed on the way.
\<close>

theorem Build_binds_hashes:
  assumes "slice_sort n_Path srt" "NewTree d opts = Some t" "set opts \<subseteq> tree_options"
    and "Build srt (insert_files files t) = Some (Inr r, t1)"
    and "Build srt (insert_files files' t) = Some (Inr r', t2)"
    and "length files = length files'" "\<And>b. length (tree_H t b) = L"
    and "\<And>f. f \<in> set files \<union> set files' \<Longrightarrow> length (fst (snd f)) = L"
    and "inj_on (tree_H t) (merkle_inputs (tree_H t) (tree_bf t) (map n_Hash (frontier r))
        \<union> merkle_inputs (tree_H t) (tree_bf t) (map n_Hash (frontier r')))"
    and "n_Hash r = n_Hash r'"
  shows "map n_Hash (frontier r) = map n_Hash (frontier r')"
proof -
  have bf: "2 \<le> tree_bf t" using NewTree_fields(1) [OF assms(2,3)] by (simp add: tree_bf_def)
  note empty = NewTree_fields(2) [OF assms(2,3)]
  have ne: "files \<noteq> []" "files' \<noteq> []"
    using assms(4,5) empty by (auto simp: Build_def insert_files_fields)
  have *: "frontier r = srt (map file_node files)"
      "n_Hash r = merkle_root (tree_H t) (tree_bf t) (map n_Hash (srt (map file_node files)))"
    using Build_files [OF assms(1) bf empty ne(1)] assms(4) by auto
  have **: "frontier r' = srt (map file_node files')"
      "n_Hash r' = merkle_root (tree_H t) (tree_bf t) (map n_Hash (srt (map file_node files')))"
    using Build_files [OF assms(1) bf empty ne(2)] assms(5) by auto
  show ?thesis
  proof (rule merkle_root_binds [OF bf assms(7)])
    show "length (map n_Hash (frontier r)) = length (map n_Hash (frontier r'))"
      using assms(6) slice_sort.srt_length [OF assms(1)] by (simp add: * **)
    show "\<forall>h \<in> set (map n_Hash (frontier r)). length h = L" "\<forall>h \<in> set (map n_Hash (frontier r')). length h = L"
      using assms(8) slice_sort.srt_set [OF assms(1)] by (auto simp: *(1) **(1))
    show "merkle_root (tree_H t) (tree_bf t) (map n_Hash (frontier r))
        = merkle_root (tree_H t) (tree_bf t) (map n_Hash (frontier r'))"
      using *(2) **(2) assms(10) unfolding *(1) **(1) by metis
  qed (rule assms(9))
qed

theorem Build_binds_hashes_witness:
  "\<exists>t r r' t1 t2. NewTree example_digests [] = Some t
    \<and> Build (sort_key n_Path) (insert_files [(''a'', replicate 32 1, LayerID ''l''), (''b'', replicate 32 2, LayerID ''l'')] t) = Some (Inr r, t1)
    \<and> Build (sort_key n_Path) (insert_files [(''d'', replicate 32 2, LayerID ''m''), (''c'', replicate 32 1, LayerID ''m'')] t) = Some (Inr r', t2)
    \<and> map n_Hash (frontier r) = map n_Hash (frontier r')"
proof -
  obtain t where t: "NewTree example_digests [] = Some t" using example_NewTree0 by blast
  let ?f = "[(''a'', replicate 32 (1 :: byte), LayerID ''l''), (''b'', replicate 32 2, LayerID ''l'')]"
  let ?g = "[(''d'', replicate 32 (2 :: byte), LayerID ''m''), (''c'', replicate 32 1, LayerID ''m'')]"
  have opts: "set [] \<subseteq> tree_options" by simp
  have bf: "tree_bf t = 2" and H: "tree_H t = dg_blake3 example_digests"
    using t by (auto simp: NewTree_def NewHasher_def BLAKE3_def SHA256_def XXH3_def tree_bf_def tree_H_def blake3Hasher_def)
  have L: "length (tree_H t b) = 32" for b by (simp add: H example_digests_def)
  note B = Build_files [OF path_sort _ NewTree_fields(2) [OF t opts], of "?f"]
    Build_files [OF path_sort _ NewTree_fields(2) [OF t opts], of "?g"]
  obtain r t1 where r: "Build (sort_key n_Path) (insert_files ?f t) = Some (Inr r, t1)"
      "frontier r = sort_key n_Path (map file_node ?f)"
      "n_Hash r = merkle_root (tree_H t) (tree_bf t) (map n_Hash (sort_key n_Path (map file_node ?f)))"
    using B(1) bf by auto
  obtain r' t2 where r': "Build (sort_key n_Path) (insert_files ?g t) = Some (Inr r', t2)"
      "frontier r' = sort_key n_Path (map file_node ?g)"
      "n_Hash r' = merkle_root (tree_H t) (tree_bf t) (map n_Hash (sort_key n_Path (map file_node ?g)))"
    using B(2) bf by auto
  have hs: "map n_Hash (sort_key n_Path (map file_node ?f)) = [replicate 32 1, replicate 32 2]"
    "map n_Hash (sort_key n_Path (map file_node ?g)) = [replicate 32 1, replicate 32 2]"
    by (simp_all add: less_char_def)
  have "merkle_inputs (tree_H t) 2 [replicate 32 1, replicate 32 2] = {replicate 32 1 @ replicate 32 2}"
    by (simp add: merkle_inputs.simps groups.simps)
  then have "map n_Hash (frontier r) = map n_Hash (frontier r')"
    using r(2,3) r'(2,3) bf hs
    by (intro Build_binds_hashes [OF path_sort t opts r(1) r'(1) _ L]) auto
  then show ?thesis using t r(1) r'(1) by blast
qed

text \<open>
  But it does not bind the paths: renaming files without changing their order leaves the
  root hash as it was, for every hash function.
\<close>

theorem Build_ignores_paths:
  assumes "NewTree d opts = Some t" "set opts \<subseteq> tree_options"
    and "p1 < p2" "q1 < q2"
  shows "\<exists>r r'. map_option fst (Build (sort_key n_Path) (insert_files [(p1, h1, l), (p2, h2, l)] t)) = Some (Inr r)
    \<and> map_option fst (Build (sort_key n_Path) (insert_files [(q1, h1, l), (q2, h2, l)] t)) = Some (Inr r')
    \<and> n_Hash r = n_Hash r'"
proof -
  have bf: "2 \<le> tree_bf t" using NewTree_fields(1) [OF assms(1,2)] by (simp add: tree_bf_def)
  note B = Build_files [OF insertion_slice_sort.slice_sort_axioms bf NewTree_fields(2) [OF assms(1,2)]]
  have "sort_key n_Path (map file_node [(p1, h1, l), (p2, h2, l)]) = map file_node [(p1, h1, l), (p2, h2, l)]"
    "sort_key n_Path (map file_node [(q1, h1, l), (q2, h2, l)]) = map file_node [(q1, h1, l), (q2, h2, l)]"
    using less_imp_le [OF assms(3)] less_imp_le [OF assms(4)] by (simp_all add: sort_key_def)
  then show ?thesis
    using B [of "[(p1, h1, l), (p2, h2, l)]"] B [of "[(q1, h1, l), (q2, h2, l)]"] by auto
qed

theorem Build_ignores_paths_witness:
  "\<exists>t r r'. NewTree example_digests [] = Some t
    \<and> map_option fst (Build (sort_key n_Path) (insert_files [(''a'', [1], LayerID ''l''), (''b'', [2], LayerID ''l'')] t)) = Some (Inr r)
    \<and> map_option fst (Build (sort_key n_Path) (insert_files [(''c'', [1], LayerID ''l''), (''d'', [2], LayerID ''l'')] t)) = Some (Inr r')
    \<and> n_Hash r = n_Hash r'"
proof -
  obtain t where t: "NewTree example_digests [] = Some t" using example_NewTree0 by blast
  have "''a'' < ''b''" "''c'' < ''d''" by (simp_all add: less_char_def)
  from Build_ignores_paths [OF t _ this, of "[1]" "LayerID ''l''" "[2]"] show ?thesis using t by simp
qed

section \<open>Inclusion proofs: soundness\<close>

fun walk_inputs :: "(bytes \<Rightarrow> bytes) \<Rightarrow> bytes \<Rightarrow> (bytes \<times> bool) list \<Rightarrow> bytes set" where
  "walk_inputs H current [] = {}"
| "walk_inputs H current ((sibling, right) # rest) =
     (let combined = (if right then current @ sibling else sibling @ current)
      in insert combined (walk_inputs H (H combined) rest))"

lemma verify_walk_binds:
  assumes "\<And>b. length (H b) = L"
  shows "length xs = length ys \<Longrightarrow> map snd xs = map snd ys \<Longrightarrow> length c = L \<Longrightarrow> length c' = L \<Longrightarrow>
    (\<forall>x \<in> set xs \<union> set ys. length (fst x) = L) \<Longrightarrow>
    inj_on H (walk_inputs H c xs \<union> walk_inputs H c' ys) \<Longrightarrow>
    verify_walk H c xs = verify_walk H c' ys \<Longrightarrow> c = c' \<and> xs = ys"
proof (induction xs ys arbitrary: c c' rule: list_induct2)
  case Nil
  then show ?case by simp
next
  case (Cons x xs y ys)
  obtain s right where x: "x = (s, right)" by (cases x)
  obtain s' where y: "y = (s', right)" using Cons.prems(1) x by (cases y) auto
  let ?a = "if right then c @ s else s @ c" and ?b = "if right then c' @ s' else s' @ c'"
  have "H ?a = H ?b \<and> xs = ys"
  proof (rule Cons.IH)
    show "inj_on H (walk_inputs H (H ?a) xs \<union> walk_inputs H (H ?b) ys)"
      by (rule inj_on_subset [OF Cons.prems(5)]) (auto simp: x y Let_def)
  qed (use Cons.prems assms in \<open>simp_all add: x y\<close>)
  moreover have "?a \<in> walk_inputs H c (x # xs) \<union> walk_inputs H c' (y # ys)"
    "?b \<in> walk_inputs H c (x # xs) \<union> walk_inputs H c' (y # ys)"
    by (auto simp: x y Let_def)
  ultimately have "?a = ?b" using inj_onD [OF Cons.prems(5)] by blast
  then show ?case using \<open>H ?a = H ?b \<and> xs = ys\<close> Cons.prems(2-4)
    by (cases right) (auto simp: x y)
qed

text \<open>
  C28: inclusion proofs made of digests are sound. Let every leaf hash and sibling have the length
  \<open>L\<close> of the digests of \<open>H\<close>, which \<open>Verify\<close> does not check. For one root and one list of directions
  at most one leaf hash verifies: if two such proofs with the same directions both verify against
  the root, they have the same leaf hash and the same siblings, unless the hash function collides
  on two of the strings the two verifications hash.
\<close>

theorem proof_Verify_sound:
  assumes "proof_Verify p rootHash H" "proof_Verify q rootHash H" "pf_Directions p = pf_Directions q"
    and "\<And>b. length (H b) = L" "length (pf_LeafHash p) = L" "length (pf_LeafHash q) = L"
    and "\<And>s. s \<in> set (pf_Siblings p) \<union> set (pf_Siblings q) \<Longrightarrow> length s = L"
    and "inj_on H (walk_inputs H (pf_LeafHash p) (zip (pf_Siblings p) (pf_Directions p))
        \<union> walk_inputs H (pf_LeafHash q) (zip (pf_Siblings q) (pf_Directions q)))"
  shows "pf_LeafHash p = pf_LeafHash q \<and> pf_Siblings p = pf_Siblings q"
proof -
  let ?xs = "zip (pf_Siblings p) (pf_Directions p)" and ?ys = "zip (pf_Siblings q) (pf_Directions q)"
  have len: "length (pf_Siblings p) = length (pf_Directions p)" "length (pf_Siblings q) = length (pf_Directions q)"
    using assms(1,2) by (auto simp: proof_Verify_def split: if_splits)
  have "pf_LeafHash p = pf_LeafHash q \<and> ?xs = ?ys"
  proof (rule verify_walk_binds [OF assms(4)])
    show "verify_walk H (pf_LeafHash p) ?xs = verify_walk H (pf_LeafHash q) ?ys"
      using assms(1,2) len by (simp add: proof_Verify_def)
    show "\<forall>x \<in> set ?xs \<union> set ?ys. length (fst x) = L"
      using assms(7) by (auto dest: set_zip_leftD)
  qed (use len assms in simp_all)
  moreover have "map fst ?xs = pf_Siblings p" "map fst ?ys = pf_Siblings q" using len by simp_all
  ultimately show ?thesis by metis
qed

definition example_proof :: merkle_proof where
  "example_proof = \<lparr>pf_Path = ''a'', pf_LeafHash = [1], pf_Siblings = [[2], [3]], pf_Directions = [True, False]\<rparr>"

theorem proof_Verify_sound_witness:
  "let q = example_proof\<lparr>pf_Path := ''b''\<rparr>; H = (\<lambda>b. [of_nat (length b) + last b])
   in proof_Verify example_proof [6] H \<and> proof_Verify q [6] H \<and> pf_LeafHash q = pf_LeafHash example_proof"
proof -
  let ?H = "\<lambda>b :: bytes. [of_nat (length b) + last b]" and ?q = "example_proof\<lparr>pf_Path := ''b''\<rparr>"
  have v: "proof_Verify example_proof [6] ?H" "proof_Verify ?q [6] ?H" by (simp_all add: proof_Verify_def example_proof_def)
  have "pf_LeafHash ?q = pf_LeafHash example_proof \<and> pf_Siblings ?q = pf_Siblings example_proof"
    by (rule proof_Verify_sound [OF v(2,1) _, of 1]) (auto simp: example_proof_def inj_on_def)
  then show ?thesis using v by simp
qed

text \<open>
  The lengths matter: \<open>Verify\<close> accepts hashes of any length, so whatever the hash function, the bytes of
  a leaf and its sibling can be divided anew between the two.
\<close>

theorem Verify_ignores_lengths:
  "proof_Verify \<lparr>pf_Path = p, pf_LeafHash = xs @ ys, pf_Siblings = [zs], pf_Directions = [False]\<rparr> rootHash H
    = proof_Verify \<lparr>pf_Path = p, pf_LeafHash = ys, pf_Siblings = [zs @ xs], pf_Directions = [False]\<rparr> rootHash H"
  by (simp add: proof_Verify_def)
section \<open>Inclusion proofs: completeness\<close>

lemma groups2_Cons: "groups 2 (x # y # zs) = [x, y] # groups 2 zs"
  by (simp add: groups_step)

lemma level_siblings_after: "idx < i \<Longrightarrow> level_siblings n idx i gs = []"
  by (induction gs arbitrary: i) auto

lemma level_siblings_pair:
  "length xs = 2 * m \<Longrightarrow> i \<le> idx \<Longrightarrow> idx < i + 2 * m \<Longrightarrow>
    level_siblings 2 idx i (groups 2 xs)
      = (if even (idx - i) then [(n_Hash (xs ! (idx - i + 1)), True)] else [(n_Hash (xs ! (idx - i - 1)), False)])
    \<and> groups 2 xs ! ((idx - i) div 2)
      = (if even (idx - i) then [xs ! (idx - i), xs ! (idx - i + 1)] else [xs ! (idx - i - 1), xs ! (idx - i)])"
proof (induction m arbitrary: xs i)
  case 0
  then show ?case by simp
next
  case (Suc m)
  obtain x y zs where xs: "xs = x # y # zs" and zs: "length zs = 2 * m"
    using Suc.prems(1) by (cases xs; cases "tl xs") auto
  consider "idx = i" | "idx = Suc i" | "i + 2 \<le> idx" using Suc.prems(2) by linarith
  then show ?case
  proof cases
    case 1
    then show ?thesis by (simp add: xs groups2_Cons level_siblings_after)
  next
    case 2
    then show ?thesis by (simp add: xs groups2_Cons level_siblings_after)
  next
    case 3
    then obtain k where k: "idx = i + 2 + k" using le_Suc_ex by blast
    have "\<not> (i \<le> idx \<and> idx < i + length [x, y])" using 3 by simp
    then have ls: "level_siblings 2 idx i (groups 2 xs) = level_siblings 2 idx (i + 2) (groups 2 zs)"
      unfolding xs groups2_Cons level_siblings.simps by (simp only: if_False append_Nil)
    have "level_siblings 2 idx (i + 2) (groups 2 zs)
      = (if even k then [(n_Hash (zs ! (k + 1)), True)] else [(n_Hash (zs ! (k - 1)), False)])
    \<and> groups 2 zs ! (k div 2)
      = (if even k then [zs ! k, zs ! (k + 1)] else [zs ! (k - 1), zs ! k])"
      using Suc.IH [OF zs, of "i + 2"] 3 Suc.prems(3) by (simp add: k)
    then show ?thesis
      unfolding ls by (cases "even k") (auto simp: k xs groups2_Cons elim!: oddE)
  qed
qed

lemma length_groups2: "length xs = 2 * m \<Longrightarrow> length (groups 2 xs) = m"
proof (induction m arbitrary: xs)
  case (Suc m)
  obtain x y zs where "xs = x # y # zs" "length zs = 2 * m"
    using Suc.prems(1) by (cases xs; cases "tl xs") auto
  then show ?case using Suc.IH by (simp add: groups2_Cons)
qed simp

lemma proof_loop_pow2:
  "length level = 2 ^ k \<Longrightarrow> idx < 2 ^ k \<Longrightarrow>
    \<exists>sibs. proof_loop H 2 level idx acc = Some (acc @ sibs) \<and> length sibs = k
      \<and> verify_walk H (n_Hash (level ! idx)) sibs = merkle_root H 2 (map n_Hash level)"
proof (induction k arbitrary: level idx acc)
  case 0
  then obtain r where "level = [r]" by (cases level) auto
  then show ?case using 0 by (simp add: proof_loop.simps merkle_root.simps)
next
  case (Suc k)
  let ?next = "map (combineNodes H 0) (groups 2 level)"
  let ?s = "level_siblings 2 idx 0 (groups 2 level)"
  have gl: "length (groups 2 level) = 2 ^ k" using Suc.prems(1) by (intro length_groups2) simp
  have long: "1 < length level" unfolding Suc.prems(1) by (rule one_less_power) simp_all
  have idx: "idx div 2 < 2 ^ k" using Suc.prems(2) by simp
  have len: "length ?next = 2 ^ k" using gl by simp
  have step: "proof_loop H 2 level idx acc = proof_loop H 2 ?next (idx div 2) (acc @ ?s)"
    using long by (subst proof_loop.simps) (simp add: group_loop_groups)
  obtain sibs where sibs: "proof_loop H 2 ?next (idx div 2) (acc @ ?s) = Some ((acc @ ?s) @ sibs)" "length sibs = k"
      "verify_walk H (n_Hash (?next ! (idx div 2))) sibs = merkle_root H 2 (map n_Hash ?next)"
    using Suc.IH [OF len idx, of "acc @ ?s"] by (elim exE conjE) (rule that)
  have pair: "?s = (if even idx then [(n_Hash (level ! (idx + 1)), True)] else [(n_Hash (level ! (idx - 1)), False)])"
    "groups 2 level ! (idx div 2)
      = (if even idx then [level ! idx, level ! (idx + 1)] else [level ! (idx - 1), level ! idx])"
    using level_siblings_pair [of level "2 ^ k" 0 idx] Suc.prems by simp_all
  have "verify_walk H (n_Hash (level ! idx)) (?s @ sibs) = verify_walk H (n_Hash (?next ! (idx div 2))) sibs"
    using idx gl pair by (cases "even idx") simp_all
  also have "\<dots> = merkle_root H 2 (map n_Hash level)"
    using sibs(3) merkle_root_step [of 2 "map n_Hash level" H] long by (simp only: map_hash_combine) simp
  finally show ?case
    using step sibs(1,2) pair(1) by (intro exI [of _ "?s @ sibs"]) (auto simp: append_assoc)
qed

lemma find_leaf_Some:
  "find_leaf path i ls = Some j \<Longrightarrow> i \<le> j \<and> j < i + length ls \<and> n_Path (ls ! (j - i)) = path"
proof (induction ls arbitrary: i)
  case (Cons l ls)
  show ?case
  proof (cases "n_Path l = path")
    case False
    then have "find_leaf path (Suc i) ls = Some j" using Cons.prems by simp
    note IH = Cons.IH [OF this]
    then obtain k where "j = Suc i + k" using le_Suc_ex by blast
    with IH show ?thesis by simp
  qed (use Cons.prems in auto)
qed simp

lemma find_leaf_None: "find_leaf path i ls = None \<longleftrightarrow> path \<notin> n_Path ` set ls"
  by (induction ls arbitrary: i) auto

text \<open>
  Inclusion proofs are complete on a full binary tree. When \<open>2^k\<close> files (each path once)
  were inserted and the branching factor is 2, \<open>GenerateProof\<close> ends and returns, for every file,
  a proof with its hash and \<open>k\<close> siblings that \<open>Verify\<close> accepts against the root; for any other
  path it returns \<open>nil\<close>.
\<close>

theorem GenerateProof_complete:
  assumes "slice_sort n_Path srt" "NewTree d opts = Some t" "set opts \<subseteq> tree_options" "tree_bf t = 2"
    and "length files = 2 ^ k" "distinct (map fst files)"
    and "Build srt (insert_files files t) = Some (Inr r, t')"
  shows "(\<forall>(p, h, l) \<in> set files. \<exists>pf. GenerateProof p t' = Some (Some pf)
        \<and> pf_LeafHash pf = h \<and> length (pf_Siblings pf) = k \<and> proof_Verify pf (n_Hash r) (tree_H t))
    \<and> (\<forall>p. p \<notin> fst ` set files \<longrightarrow> GenerateProof p t' = Some None)"
proof (intro conjI ballI allI impI)
  have bf: "2 \<le> tree_bf t" using assms(4) by simp
  have ne: "files \<noteq> []" using assms(5) by auto
  let ?level = "srt (map file_node files)"
  have t': "t' = (insert_files files t)\<lparr>t_leaves := ?level, t_root := Some r, t_built := True\<rparr>"
      and root: "n_Hash r = merkle_root (tree_H t) 2 (map n_Hash ?level)"
    using Build_files [OF assms(1) bf NewTree_fields(2) [OF assms(2,3)] ne] assms(4,7) by auto
  have leaves: "t_leaves t' = ?level" "t_root t' = Some r" "h_Hash (t_hasher t') = tree_H t"
      "nat (tc_branchingFactor (t_cfg t')) = 2"
    using assms(4) by (simp_all add: t' insert_files_fields tree_H_def tree_bf_def)
  have level: "set ?level = file_node ` set files" "length ?level = 2 ^ k"
    using slice_sort.srt_set [OF assms(1)] slice_sort.srt_length [OF assms(1)] assms(5) by simp_all
  {
    fix f assume f: "f \<in> set files"
    obtain p h l where fe: "f = (p, h, l)" by (cases f)
    have "p \<in> n_Path ` set ?level" using f fe level(1) by force
    then obtain j where j: "find_leaf p 0 ?level = Some j" using find_leaf_None [of p 0 ?level] by blast
    have jl: "j < 2 ^ k" "n_Path (?level ! j) = p" using find_leaf_Some [OF j] level(2) by auto
    then obtain g where g: "g \<in> set files" "?level ! j = file_node g"
      using level nth_mem [of j ?level] by auto
    then have "g = f" using jl(2) f fe assms(6) by (auto simp: distinct_map inj_on_def)
    then have leaf: "n_Hash (?level ! j) = h" using g fe by simp
    obtain sibs where s: "proof_loop (tree_H t) 2 ?level j [] = Some sibs" "length sibs = k"
        "verify_walk (tree_H t) (n_Hash (?level ! j)) sibs = merkle_root (tree_H t) 2 (map n_Hash ?level)"
      using proof_loop_pow2 [OF level(2) jl(1), of "tree_H t" "[]"] by auto
    let ?pf = "\<lparr>pf_Path = p, pf_LeafHash = h, pf_Siblings = map fst sibs, pf_Directions = map snd sibs\<rparr>"
    have "GenerateProof p t' = Some (Some ?pf)"
      using j s(1) leaf by (simp add: GenerateProof_def leaves)
    moreover have "proof_Verify ?pf (n_Hash r) (tree_H t)"
      using s(3) leaf root by (simp add: proof_Verify_def zip_map_fst_snd)
    ultimately have "\<exists>pf. GenerateProof p t' = Some (Some pf)
        \<and> pf_LeafHash pf = h \<and> length (pf_Siblings pf) = k \<and> proof_Verify pf (n_Hash r) (tree_H t)"
      using s(2) by (intro exI [of _ ?pf]) simp
    then show "case f of (p, h, l) \<Rightarrow> \<exists>pf. GenerateProof p t' = Some (Some pf)
        \<and> pf_LeafHash pf = h \<and> length (pf_Siblings pf) = k \<and> proof_Verify pf (n_Hash r) (tree_H t)"
      by (simp add: fe)
  }
  fix p assume "p \<notin> fst ` set files"
  then have "find_leaf p 0 ?level = None" unfolding find_leaf_None level(1) by force
  then show "GenerateProof p t' = Some None" by (simp add: GenerateProof_def leaves)
qed

theorem GenerateProof_complete_witness:
  "\<exists>t r t' pf. NewTree example_digests [] = Some t
    \<and> Build (sort_key n_Path) (insert_files [(''b'', [2], LayerID ''l''), (''a'', [1], LayerID ''l'')] t) = Some (Inr r, t')
    \<and> GenerateProof ''a'' t' = Some (Some pf) \<and> length (pf_Siblings pf) = 1
    \<and> proof_Verify pf (n_Hash r) (tree_H t)"
proof -
  obtain t where t: "NewTree example_digests [] = Some t" using example_NewTree0 by blast
  have opts: "set [] \<subseteq> tree_options" by simp
  have bf: "tree_bf t = 2" using t by (auto simp: NewTree_def tree_bf_def Let_def)
  let ?f = "[(''b'', [2 :: byte], LayerID ''l''), (''a'', [1], LayerID ''l'')]"
  obtain r t' where r: "Build (sort_key n_Path) (insert_files ?f t) = Some (Inr r, t')"
    using Build_files [OF path_sort _ NewTree_fields(2) [OF t opts], of ?f] bf by auto
  have "length ?f = 2 ^ 1" "distinct (map fst ?f)" by simp_all
  from GenerateProof_complete [OF path_sort t opts bf this r] t r show ?thesis by auto
qed

text \<open>
  On other trees inclusion proofs fail. With three files and the default binary tree, the
  last leaf is alone in its group at the first level: the builder hashes it once more there, but
  \<open>GenerateProof\<close> records no step for that level, so the proof of the third file verifies only if
  hashing its leaf hash changes nothing.
\<close>

theorem GenerateProof_odd_leaf_fails:
  assumes "NewTree d opts = Some t" "set opts \<subseteq> tree_options" "tree_bf t = 2" "p1 < p2" "p2 < p3"
    and "Build (sort_key n_Path) (insert_files [(p1, h1, l), (p2, h2, l), (p3, h3, l)] t) = Some (Inr r, t')"
  shows "\<exists>pf. GenerateProof p3 t' = Some (Some pf) \<and> pf_LeafHash pf = h3
    \<and> (proof_Verify pf (n_Hash r) (tree_H t)
        \<longleftrightarrow> tree_H t (tree_H t (h1 @ h2) @ h3) = tree_H t (tree_H t (h1 @ h2) @ tree_H t h3))"
proof -
  let ?files = "[(p1, h1, l), (p2, h2, l), (p3, h3, l)]"
  have bf: "2 \<le> tree_bf t" using assms(3) by simp
  have srt: "sort_key n_Path (map file_node ?files) = map file_node ?files"
    using assms(4,5) by (simp add: sort_key_def less_imp_le)
  have t': "t' = (insert_files ?files t)\<lparr>t_leaves := map file_node ?files, t_root := Some r, t_built := True\<rparr>"
      and root: "n_Hash r = merkle_root (tree_H t) 2 [h1, h2, h3]"
    using Build_files [OF insertion_slice_sort.slice_sort_axioms bf NewTree_fields(2) [OF assms(1,2)], of ?files]
      assms(3,6) unfolding srt by auto
  have leaves: "t_leaves t' = map file_node ?files" "t_root t' = Some r" "h_Hash (t_hasher t') = tree_H t"
      "nat (tc_branchingFactor (t_cfg t')) = 2"
    using assms(3) by (simp_all add: t' insert_files_fields tree_H_def tree_bf_def)
  have "find_leaf p3 0 (map file_node ?files) = Some 2" using assms(4,5) by auto
  moreover have "proof_loop (tree_H t) 2 (map file_node ?files) 2 [] = Some [(tree_H t (h1 @ h2), False)]"
    by (simp add: proof_loop.simps group_loop_groups groups_step)
  ultimately have "GenerateProof p3 t' = Some (Some \<lparr>pf_Path = p3, pf_LeafHash = h3,
      pf_Siblings = [tree_H t (h1 @ h2)], pf_Directions = [False]\<rparr>)"
    by (simp add: GenerateProof_def leaves)
  moreover have "n_Hash r = tree_H t (tree_H t (h1 @ h2) @ tree_H t h3)"
    unfolding root by (simp add: merkle_root.simps groups_step)
  ultimately show ?thesis by (auto simp: proof_Verify_def)
qed

theorem GenerateProof_odd_leaf_fails_witness:
  "\<exists>t r t' pf. NewTree example_digests [] = Some t
    \<and> Build (sort_key n_Path) (insert_files [(''a'', [1], LayerID ''l''), (''b'', [2], LayerID ''l''), (''c'', [3], LayerID ''l'')] t)
        = Some (Inr r, t')
    \<and> GenerateProof ''c'' t' = Some (Some pf) \<and> \<not> proof_Verify pf (n_Hash r) (tree_H t)"
proof -
  obtain t where t: "NewTree example_digests [] = Some t" using example_NewTree0 by blast
  have opts: "set [] \<subseteq> tree_options" by simp
  have bf: "tree_bf t = 2" and H: "tree_H t = dg_blake3 example_digests"
    using t by (auto simp: NewTree_def NewHasher_def BLAKE3_def SHA256_def XXH3_def tree_bf_def tree_H_def blake3Hasher_def)
  let ?f = "[(''a'', [1 :: byte], LayerID ''l''), (''b'', [2], LayerID ''l''), (''c'', [3], LayerID ''l'')]"
  obtain r t' where r: "Build (sort_key n_Path) (insert_files ?f t) = Some (Inr r, t')"
    using Build_files [OF path_sort _ NewTree_fields(2) [OF t opts], of ?f] bf by auto
  have "''a'' < ''b''" "''b'' < ''c''" by (simp_all add: less_char_def)
  from GenerateProof_odd_leaf_fails [OF t opts bf this r] r t show ?thesis
    by (auto simp: H example_digests_def)
qed

end
