(* ===== verification/Go_Strings.thy ===== *)
theory Go_Strings
  imports Prelude
begin

text \<open>
  The functions of Go's \<open>strings\<close> and \<open>path/filepath\<close> packages that the program calls, on Unix:
  \<open>HasPrefix\<close>, \<open>TrimPrefix\<close>, \<open>Split\<close> and \<open>Join\<close> on a one-character separator, \<open>Clean\<close>, \<open>Base\<close>,
  \<open>Dir\<close>, \<open>Join\<close>. They are standard-library functions, modelled after their documentation; the
  facts below are what the components use of them.
\<close>

section \<open>Package strings\<close>

definition HasPrefix :: "string \<Rightarrow> string \<Rightarrow> bool" where
  "HasPrefix s pre \<longleftrightarrow> take (length pre) s = pre"

definition TrimPrefix :: "string \<Rightarrow> string \<Rightarrow> string" where
  "TrimPrefix s pre = (if HasPrefix s pre then drop (length pre) s else s)"

definition HasSuffix :: "string \<Rightarrow> string \<Rightarrow> bool" where
  "HasSuffix s suf \<longleftrightarrow> length suf \<le> length s \<and> drop (length s - length suf) s = suf"

fun split_on :: "char \<Rightarrow> string \<Rightarrow> string list" where
  "split_on sep [] = [[]]"
| "split_on sep (c # cs) =
     (if c = sep then [] # split_on sep cs
      else (case split_on sep cs of [] \<Rightarrow> [[c]] | w # ws \<Rightarrow> (c # w) # ws))"

fun join_with :: "string \<Rightarrow> string list \<Rightarrow> string" where
  "join_with sep [] = []"
| "join_with sep [x] = x"
| "join_with sep (x # y # xs) = x @ sep @ join_with sep (y # xs)"

section \<open>Package path/filepath\<close>

text \<open>
  \<open>Clean\<close>: the elements are pushed on a stack; empty ones and \<open>.\<close> are dropped, \<open>..\<close> pops an
  element, is dropped at the root, and stays at the front of a relative path.
\<close>

definition clean_step :: "bool \<Rightarrow> string \<Rightarrow> string list \<Rightarrow> string list" where
  "clean_step rooted e stack =
     (if e = '''' \<or> e = ''.'' then stack
      else if e = ''..'' then
        (if stack \<noteq> [] \<and> hd stack \<noteq> ''..'' then tl stack
         else if rooted then stack else e # stack)
      else e # stack)"

definition is_rooted :: "string \<Rightarrow> bool" where
  "is_rooted p \<longleftrightarrow> p \<noteq> [] \<and> hd p = CHR ''/''"

definition Clean :: "string \<Rightarrow> string" where
  "Clean p =
     (let es = rev (fold (clean_step (is_rooted p)) (split_on CHR ''/'' p) []);
          r = (if is_rooted p then ''/'' else '''') @ join_with ''/'' es
      in if r = '''' then ''.'' else r)"

definition strip_slashes :: "string \<Rightarrow> string" where
  "strip_slashes p = rev (dropWhile (\<lambda>c. c = CHR ''/'') (rev p))"

definition after_last_slash :: "string \<Rightarrow> string" where
  "after_last_slash p = rev (takeWhile (\<lambda>c. c \<noteq> CHR ''/'') (rev p))"

definition upto_last_slash :: "string \<Rightarrow> string" where
  "upto_last_slash p = rev (dropWhile (\<lambda>c. c \<noteq> CHR ''/'') (rev p))"

definition Base :: "string \<Rightarrow> string" where
  "Base p =
     (if p = '''' then ''.''
      else (let b = after_last_slash (strip_slashes p) in if b = '''' then ''/'' else b))"

definition Dir :: "string \<Rightarrow> string" where
  "Dir p = Clean (upto_last_slash p)"

definition filepath_Join :: "string list \<Rightarrow> string" where
  "filepath_Join elems =
     (case dropWhile (\<lambda>e. e = '''') elems of [] \<Rightarrow> '''' | es \<Rightarrow> Clean (join_with ''/'' es))"

section \<open>Facts\<close>

lemma HasPrefix_append [simp]: "HasPrefix (pre @ s) pre"
  by (simp add: HasPrefix_def)

lemma TrimPrefix_append [simp]: "TrimPrefix (pre @ s) pre = s"
  by (simp add: TrimPrefix_def)

lemma HasPrefix_iff: "HasPrefix s pre \<longleftrightarrow> (\<exists>t. s = pre @ t)"
  by (metis HasPrefix_append HasPrefix_def append_take_drop_id)

lemma split_on_no_sep: "sep \<notin> set s \<Longrightarrow> split_on sep s = [s]"
  by (induction s) auto

lemma split_on_nonempty [simp]: "split_on sep s \<noteq> []"
  by (induction s) (auto split: list.splits)

lemma split_on_append:
  "split_on sep (s @ sep # t) = split_on sep s @ split_on sep t"
  by (induction s) (auto split: list.splits)

lemma split_on_no_sep_elems: "w \<in> set (split_on sep s) \<Longrightarrow> sep \<notin> set w"
  by (induction s arbitrary: w) (auto split: list.splits if_splits)

lemma join_with_Cons: "xs \<noteq> [] \<Longrightarrow> join_with sep (x # xs) = x @ sep @ join_with sep xs"
  by (cases xs) simp_all

lemma join_split: "join_with [sep] (split_on sep s) = s"
proof (induction s)
  case (Cons c cs)
  show ?case
  proof (cases "c = sep")
    case True
    then show ?thesis using Cons by (simp add: join_with_Cons)
  next
    case False
    obtain w ws where w: "split_on sep cs = w # ws" by (cases "split_on sep cs") simp_all
    then show ?thesis using Cons False by (cases ws) simp_all
  qed
qed simp

lemma split_join:
  "xs \<noteq> [] \<Longrightarrow> (\<forall>x \<in> set xs. sep \<notin> set x) \<Longrightarrow> split_on sep (join_with [sep] xs) = xs"
proof (induction xs)
  case (Cons x xs)
  then show ?case
    by (cases "xs = []") (simp_all add: split_on_no_sep join_with_Cons split_on_append)
qed simp

text \<open>Plain names: one path element that \<open>Clean\<close> keeps.\<close>

definition plain_name :: "string \<Rightarrow> bool" where
  "plain_name n \<longleftrightarrow> n \<noteq> '''' \<and> n \<noteq> ''.'' \<and> n \<noteq> ''..'' \<and> CHR ''/'' \<notin> set n"

lemma clean_step_plain: "plain_name n \<Longrightarrow> clean_step rooted n stack = n # stack"
  by (simp add: plain_name_def clean_step_def)

lemma fold_clean_plain:
  "(\<forall>n \<in> set ns. plain_name n) \<Longrightarrow> fold (clean_step rooted) ns stack = rev ns @ stack"
  by (induction ns arbitrary: stack) (simp_all add: clean_step_plain)

text \<open>Clean paths of plain names, absolute or relative, given by their elements.\<close>

definition abs_path :: "string list \<Rightarrow> string" where
  "abs_path ns = ''/'' @ join_with ''/'' ns"

lemma clean_step_empty [simp]: "clean_step rooted '''' stack = stack"
  by (simp add: clean_step_def)

lemma plain_no_slash: "(\<forall>n \<in> set ns. plain_name n) \<Longrightarrow> \<forall>n \<in> set ns. CHR ''/'' \<notin> set n"
  by (simp add: plain_name_def)

lemma split_abs_path:
  "(\<forall>n \<in> set ns. plain_name n) \<Longrightarrow> ns \<noteq> [] \<Longrightarrow> split_on CHR ''/'' (abs_path ns) = '''' # ns"
  using split_join [of ns "CHR ''/''"] plain_no_slash by (simp add: abs_path_def)

lemma Clean_abs_path: "\<forall>n \<in> set ns. plain_name n \<Longrightarrow> Clean (abs_path ns) = abs_path ns"
proof (cases "ns = []")
  case True
  then show ?thesis by (simp add: abs_path_def Clean_def is_rooted_def)
next
  case False
  assume p: "\<forall>n \<in> set ns. plain_name n"
  show ?thesis
    using split_abs_path [OF p False] fold_clean_plain [OF p]
    by (simp add: Clean_def is_rooted_def abs_path_def)
qed

lemma join_with_snoc: "ns \<noteq> [] \<Longrightarrow> join_with sep (ns @ [n]) = join_with sep ns @ sep @ n"
proof (induction ns)
  case (Cons a ns)
  then show ?case by (cases "ns = []") (simp_all add: join_with_Cons)
qed simp

lemma abs_path_snoc: "abs_path (ns @ [n]) = (if ns = [] then ''/'' @ n else abs_path ns @ ''/'' @ n)"
  by (simp add: abs_path_def join_with_snoc)

lemma takeWhile_rev_name:
  "CHR ''/'' \<notin> set n \<Longrightarrow> takeWhile (\<lambda>c. c \<noteq> CHR ''/'') (rev (d @ ''/'' @ n)) = rev n"
  by (induction n rule: rev_induct) auto

lemma dropWhile_rev_name:
  "CHR ''/'' \<notin> set n \<Longrightarrow> dropWhile (\<lambda>c. c \<noteq> CHR ''/'') (rev (d @ ''/'' @ n)) = CHR ''/'' # rev d"
  by (induction n rule: rev_induct) auto

lemma strip_slashes_name:
  assumes "n \<noteq> ''''" "CHR ''/'' \<notin> set n"
  shows "strip_slashes (d @ n) = d @ n"
proof -
  obtain m c where n: "n = m @ [c]" using assms(1) by (metis rev_exhaust)
  then have "c \<noteq> CHR ''/''" using assms(2) by auto
  then show ?thesis by (simp add: strip_slashes_def n)
qed

lemma Base_name:
  assumes "n \<noteq> ''''" "CHR ''/'' \<notin> set n"
  shows "Base (d @ ''/'' @ n) = n"
  using strip_slashes_name [OF assms, of "d @ ''/''"] takeWhile_rev_name [OF assms(2), of d] assms(1)
  by (simp add: Base_def after_last_slash_def)

lemma Dir_name: "CHR ''/'' \<notin> set n \<Longrightarrow> Dir (d @ ''/'' @ n) = Clean (d @ ''/'')"
  using dropWhile_rev_name [of n d] by (simp add: Dir_def upto_last_slash_def)

lemma Clean_abs_path_slash:
  assumes "\<forall>n \<in> set ns. plain_name n" "ns \<noteq> []"
  shows "Clean (abs_path ns @ ''/'') = abs_path ns"
proof -
  have "split_on CHR ''/'' (abs_path ns @ CHR ''/'' # []) = split_on CHR ''/'' (abs_path ns) @ ['''']"
    by (simp only: split_on_append split_on.simps)
  then show ?thesis
    using split_abs_path [OF assms] fold_clean_plain [OF assms(1)]
    by (simp add: Clean_def is_rooted_def abs_path_def)
qed

lemma Clean_slashes: "Clean ''/'' = ''/''" "Clean ''//'' = ''/''"
  by (simp_all add: Clean_def is_rooted_def)

lemma Base_abs_path: "plain_name n \<Longrightarrow> Base (abs_path (ns @ [n])) = n"
  using Base_name [of n "abs_path ns"] Base_name [of n "''''"]
  by (simp add: abs_path_snoc plain_name_def)

lemma Dir_abs_path:
  "plain_name n \<Longrightarrow> \<forall>n \<in> set ns. plain_name n \<Longrightarrow> Dir (abs_path (ns @ [n])) = abs_path ns"
  using Dir_name [of n "abs_path ns"] Dir_name [of n "''''"] Clean_abs_path_slash [of ns]
  by (auto simp: abs_path_snoc plain_name_def Clean_slashes abs_path_def [of "[]"])

lemma Join_abs_path:
  assumes "\<forall>n \<in> set ns. plain_name n" "plain_name n"
  shows "filepath_Join [abs_path ns, n] = abs_path (ns @ [n])"
proof (cases "ns = []")
  case False
  have "filepath_Join [abs_path ns, n] = Clean (abs_path ns @ ''/'' @ n)"
    by (simp add: filepath_Join_def abs_path_def)
  also have "abs_path ns @ ''/'' @ n = abs_path (ns @ [n])" using False by (simp add: abs_path_snoc)
  finally show ?thesis using Clean_abs_path [of "ns @ [n]"] assms by simp
next
  case True
  have "split_on CHR ''/'' (CHR ''/'' # CHR ''/'' # n) = ['''', '''', n]"
    using assms(2) by (simp add: split_on_no_sep plain_name_def)
  then show ?thesis
    using True clean_step_plain [OF assms(2)]
    by (simp add: filepath_Join_def abs_path_def Clean_def is_rooted_def)
qed

section \<open>Splitting, hexadecimal digits and white space\<close>

text \<open>\<open>filepath.Split\<close>, \<open>strings.IndexByte\<close> (\<open>None\<close> for -1) and \<open>hex.EncodeToString\<close>.\<close>

definition filepath_Split :: "string \<Rightarrow> string \<times> string" where
  "filepath_Split p = (upto_last_slash p, after_last_slash p)"

fun IndexByte :: "string \<Rightarrow> char \<Rightarrow> nat option" where
  "IndexByte [] c = None"
| "IndexByte (x # xs) c = (if x = c then Some 0 else map_option Suc (IndexByte xs c))"

definition hex_digit :: "nat \<Rightarrow> char" where
  "hex_digit n = (if n < 10 then char_of (48 + n) else char_of (87 + n))"

definition hex_encode :: "bytes \<Rightarrow> string" where
  "hex_encode bs = concat (map (\<lambda>b. [hex_digit (unat b div 16), hex_digit (unat b mod 16)]) bs)"

text \<open>\<open>strings.TrimSpace\<close>: Unicode's white space, each character as its UTF-8 bytes.\<close>

definition chars :: "nat list \<Rightarrow> string" where
  "chars ns = map char_of ns"

definition space_encodings :: "string list" where
  "space_encodings = map chars ([[9], [10], [11], [12], [13], [32], [194, 133], [194, 160], [225, 154, 128]]
     @ map (\<lambda>b. [226, 128, b]) [128, 129, 130, 131, 132, 133, 134, 135, 136, 137, 138, 168, 169, 175]
     @ [[226, 129, 159], [227, 128, 128]])"

function trim_left :: "string list \<Rightarrow> string \<Rightarrow> string" where
  "trim_left ws s =
     (case find (\<lambda>w. w \<noteq> [] \<and> HasPrefix s w) ws of
        None \<Rightarrow> s
      | Some w \<Rightarrow> trim_left ws (drop (length w) s))"
  by auto

termination
proof (relation "measure (\<lambda>(ws, s). length s)")
  fix ws :: "string list" and s w :: string
  assume "find (\<lambda>w. w \<noteq> [] \<and> HasPrefix s w) ws = Some w"
  then have "w \<noteq> []" "HasPrefix s w" by (auto simp: find_Some_iff)
  then show "((ws, drop (length w) s), (ws, s)) \<in> measure (\<lambda>(ws, s). length s)"
    by (auto simp: HasPrefix_iff)
qed simp

declare trim_left.simps [simp del]

definition TrimSpace :: "string \<Rightarrow> string" where
  "TrimSpace s = rev (trim_left (map rev space_encodings) (rev (trim_left space_encodings s)))"

lemma filepath_Split_append: "fst (filepath_Split p) @ snd (filepath_Split p) = p"
  by (simp add: filepath_Split_def upto_last_slash_def after_last_slash_def
      flip: rev_append)

lemma IndexByte_None_iff: "IndexByte s c = None \<longleftrightarrow> c \<notin> set s"
  by (induction s) auto

lemma IndexByte_append: "c \<notin> set s \<Longrightarrow> IndexByte (s @ c # t) c = Some (length s)"
  by (induction s) auto

lemma IndexByte_SomeD: "IndexByte s c = Some i \<Longrightarrow> i < length s \<and> s = take i s @ c # drop (Suc i) s \<and> c \<notin> set (take i s)"
  by (induction s arbitrary: i) (auto split: if_splits)

lemma trim_left_subset: "set (trim_left ws s) \<subseteq> set s"
proof (induction ws s rule: trim_left.induct)
  case (1 ws s)
  then show ?case
    by (subst trim_left.simps) (auto split: option.split dest!: subsetD set_drop_subset [THEN subsetD])
qed

lemma TrimSpace_subset: "set (TrimSpace s) \<subseteq> set s"
  using trim_left_subset [of "map rev space_encodings" "rev (trim_left space_encodings s)"]
    trim_left_subset [of space_encodings s] by (auto simp: TrimSpace_def)

lemma hex_digit_code: "n < 16 \<Longrightarrow> of_char (hex_digit n) = (if n < 10 then 48 + n else 87 + n)"
  by (simp add: hex_digit_def of_char_of take_bit_nat_eq_self)

lemma hex_digit_inj:
  assumes "m < 16" "n < 16"
  shows "hex_digit m = hex_digit n \<longleftrightarrow> m = n"
proof
  assume "hex_digit m = hex_digit n"
  then have "(if m < 10 then 48 + m else 87 + m) = (if n < 10 then 48 + n else 87 + n)"
    using hex_digit_code [OF assms(1)] hex_digit_code [OF assms(2)] by (metis (no_types))
  then show "m = n" by (simp split: if_splits)
qed simp

lemma hex_encode_simps [simp]:
  "hex_encode [] = ''''"
  "hex_encode (b # bs) = hex_digit (unat b div 16) # hex_digit (unat b mod 16) # hex_encode bs"
  by (simp_all add: hex_encode_def)

lemma byte_nibbles: "unat (b :: byte) div 16 < 16" "unat b mod 16 < 16"
proof -
  have "unat b < 2 ^ 8" using unsigned_less [of b] by simp
  then show "unat b div 16 < 16" "unat b mod 16 < 16" by simp_all
qed

lemma hex_encode_inj [simp]: "hex_encode as = hex_encode bs \<longleftrightarrow> as = bs"
proof
  assume "hex_encode as = hex_encode bs"
  then show "as = bs"
  proof (induction as arbitrary: bs)
    case Nil
    then show ?case by (cases bs) simp_all
  next
    case (Cons a as)
    from Cons.prems obtain b bs' where bs: "bs = b # bs'" by (cases bs) simp_all
    with Cons.prems have "unat a div 16 = unat b div 16" "unat a mod 16 = unat b mod 16" "as = bs'"
      using Cons.IH by (simp_all add: hex_digit_inj byte_nibbles)
    then have "unat a = unat b" by (metis mult_div_mod_eq)
    then have "a = b" by (rule unsigned_word_eqI)
    then show ?case using bs \<open>as = bs'\<close> by simp
  qed
qed simp

lemma length_hex_encode [simp]: "length (hex_encode bs) = 2 * length bs"
  by (induction bs) (simp_all add: hex_encode_def)

lemma hex_encode_Nil_iff [simp]: "hex_encode bs = [] \<longleftrightarrow> bs = []"
  by (metis length_hex_encode length_0_conv mult_eq_0_iff zero_neq_numeral)

section \<open>Relative paths of plain names\<close>

definition rel_path :: "string list \<Rightarrow> string" where
  "rel_path ns = join_with ''/'' ns"

lemma split_rel_path:
  "(\<forall>n \<in> set ns. plain_name n) \<Longrightarrow> ns \<noteq> [] \<Longrightarrow> split_on CHR ''/'' (rel_path ns) = ns"
  unfolding rel_path_def by (rule split_join) (simp_all add: plain_no_slash)

lemma rel_path_snoc: "rel_path (ns @ [n]) = (if ns = [] then n else rel_path ns @ ''/'' @ n)"
  by (simp add: rel_path_def join_with_snoc)

lemma rel_path_append: "ns \<noteq> [] \<Longrightarrow> ms \<noteq> [] \<Longrightarrow> rel_path (ns @ ms) = rel_path ns @ ''/'' @ rel_path ms"
  unfolding rel_path_def
proof (induction ns)
  case (Cons a ns)
  then show ?case by (cases "ns = []") (simp_all add: join_with_Cons)
qed simp

lemma rel_path_not_empty: "\<forall>n \<in> set ns. plain_name n \<Longrightarrow> ns \<noteq> [] \<Longrightarrow> rel_path ns \<noteq> ''''"
  using split_rel_path [of ns] by (cases ns; cases "tl ns") (auto simp: rel_path_def plain_name_def)

lemma not_rooted_rel_path: "\<forall>n \<in> set ns. plain_name n \<Longrightarrow> ns \<noteq> [] \<Longrightarrow> \<not> is_rooted (rel_path ns)"
  by (cases ns; cases "tl ns"; cases "hd ns") (auto simp: rel_path_def is_rooted_def plain_name_def)

lemma Clean_rel_path: "\<forall>n \<in> set ns. plain_name n \<Longrightarrow> ns \<noteq> [] \<Longrightarrow> Clean (rel_path ns) = rel_path ns"
  using split_rel_path [of ns] fold_clean_plain [of ns False "[]"] not_rooted_rel_path [of ns] rel_path_not_empty [of ns]
  by (simp add: Clean_def) (simp add: rel_path_def)

lemma Clean_rel_path_slash:
  assumes "\<forall>n \<in> set ns. plain_name n" "ns \<noteq> []"
  shows "Clean (rel_path ns @ ''/'') = rel_path ns"
proof -
  have "split_on CHR ''/'' (rel_path ns @ CHR ''/'' # []) = split_on CHR ''/'' (rel_path ns) @ ['''']"
    by (simp only: split_on_append split_on.simps)
  moreover have "is_rooted (rel_path ns @ ''/'') = is_rooted (rel_path ns)"
    using rel_path_not_empty [OF assms] by (simp add: is_rooted_def)
  ultimately show ?thesis
    using split_rel_path [OF assms] fold_clean_plain [OF assms(1), of False "[]"] not_rooted_rel_path [OF assms]
      rel_path_not_empty [OF assms]
    by (simp add: Clean_def) (simp add: rel_path_def)
qed

lemma Clean_empty: "Clean '''' = ''.''"
  by (simp add: Clean_def is_rooted_def)

lemma upto_after_last_slash:
  "CHR ''/'' \<notin> set n \<Longrightarrow> upto_last_slash (d @ ''/'' @ n) = d @ ''/''"
  "CHR ''/'' \<notin> set n \<Longrightarrow> after_last_slash (d @ ''/'' @ n) = n"
  "CHR ''/'' \<notin> set n \<Longrightarrow> upto_last_slash n = ''''"
  "CHR ''/'' \<notin> set n \<Longrightarrow> after_last_slash n = n"
proof -
  assume n: "CHR ''/'' \<notin> set n"
  then have "dropWhile (\<lambda>c. c \<noteq> CHR ''/'') (rev n) = []" "takeWhile (\<lambda>c. c \<noteq> CHR ''/'') (rev n) = rev n"
    unfolding dropWhile_eq_Nil_conv takeWhile_eq_all_conv by auto
  then show "upto_last_slash n = ''''" "after_last_slash n = n"
    by (simp_all only: upto_last_slash_def after_last_slash_def rev_rev_ident rev.simps)
  show "upto_last_slash (d @ ''/'' @ n) = d @ ''/''" using dropWhile_rev_name [OF n, of d] by (simp add: upto_last_slash_def)
  show "after_last_slash (d @ ''/'' @ n) = n" using takeWhile_rev_name [OF n, of d] by (simp add: after_last_slash_def)
qed

lemma filepath_Split_rel_path:
  "plain_name n \<Longrightarrow> filepath_Split (rel_path (ns @ [n])) = (if ns = [] then '''' else rel_path ns @ ''/'', n)"
  using upto_after_last_slash(1,2) [of n "rel_path ns"] upto_after_last_slash(3,4) [of n]
  by (simp add: filepath_Split_def rel_path_snoc plain_name_def)

lemma Dir_rel_path:
  "plain_name n \<Longrightarrow> \<forall>n \<in> set ns. plain_name n \<Longrightarrow> Dir (rel_path (ns @ [n])) = (if ns = [] then ''.'' else rel_path ns)"
  using upto_after_last_slash(1) [of n "rel_path ns"] upto_after_last_slash(3) [of n] Clean_rel_path_slash [of ns]
  by (simp add: Dir_def rel_path_snoc plain_name_def Clean_empty)

lemma Join_abs_rel_path:
  assumes "\<forall>n \<in> set (ns @ ms). plain_name n" "ms \<noteq> []"
  shows "filepath_Join [abs_path ns, rel_path ms] = abs_path (ns @ ms)"
proof -
  have m: "rel_path ms \<noteq> ''''" using rel_path_not_empty [of ms] assms by simp
  have "filepath_Join [abs_path ns, rel_path ms] = Clean (abs_path ns @ ''/'' @ rel_path ms)"
    by (simp add: filepath_Join_def abs_path_def)
  also have "\<dots> = abs_path (ns @ ms)"
  proof (cases "ns = []")
    case True
    have "split_on CHR ''/'' (''/'' @ ''/'' @ rel_path ms) = '''' # '''' # ms"
      using split_rel_path [of ms] assms by simp
    then show ?thesis
      using True fold_clean_plain [of ms True "[]"] assms m
      by (simp add: Clean_def abs_path_def is_rooted_def rel_path_def)
  next
    case False
    then have "abs_path ns @ ''/'' @ rel_path ms = abs_path (ns @ ms)"
      using rel_path_append [OF False assms(2)] by (simp add: abs_path_def rel_path_def)
    then show ?thesis using Clean_abs_path [OF assms(1)] by simp
  qed
  finally show ?thesis .
qed

lemma Join_rel_rel_path:
  assumes "\<forall>n \<in> set (ns @ ms). plain_name n" "ns \<noteq> []" "ms \<noteq> []"
  shows "filepath_Join [rel_path ns, rel_path ms] = rel_path (ns @ ms)"
    and "filepath_Join [rel_path ns @ ''/'', rel_path ms] = rel_path (ns @ ms)"
proof -
  have ne: "rel_path ns \<noteq> ''''" using rel_path_not_empty [of ns] assms by simp
  have e: "rel_path (ns @ ms) = rel_path ns @ ''/'' @ rel_path ms" by (rule rel_path_append [OF assms(2,3)])
  show "filepath_Join [rel_path ns, rel_path ms] = rel_path (ns @ ms)"
    using Clean_rel_path [OF assms(1)] assms(2) ne e by (simp add: filepath_Join_def)
  have "split_on CHR ''/'' (rel_path ns @ ''/'' @ ''/'' @ rel_path ms) = ns @ '''' # ms"
    using split_rel_path [of ns] split_rel_path [of ms] assms by (simp add: split_on_append)
  moreover have "\<not> is_rooted (rel_path ns @ ''/'' @ ''/'' @ rel_path ms)"
    using not_rooted_rel_path [of ns] assms ne by (simp add: is_rooted_def)
  moreover have "fold (clean_step False) (ns @ '''' # ms) [] = rev (ns @ ms)"
    using fold_clean_plain [of ns False] fold_clean_plain [of ms False] assms(1) by simp
  ultimately have "Clean (rel_path ns @ ''/'' @ ''/'' @ rel_path ms) = rel_path (ns @ ms)"
    using rel_path_not_empty [OF assms(1)] assms(2) by (simp add: Clean_def) (simp add: rel_path_def)
  then show "filepath_Join [rel_path ns @ ''/'', rel_path ms] = rel_path (ns @ ms)"
    using ne by (simp add: filepath_Join_def)
qed

text \<open>
  \<open>filepath.Rel\<close>: the common leading elements of the two clean paths are dropped, one \<open>..\<close> is
  written for each remaining element of the base, then the rest of the target. It fails when only
  one of the paths is absolute, or when the first differing element of the base is \<open>..\<close>.
\<close>

definition path_elems :: "string \<Rightarrow> string list" where
  "path_elems p =
     (if p = ''.'' \<or> p = ''/'' then [] else split_on CHR ''/'' (if is_rooted p then tl p else p))"

fun drop_common :: "string list \<Rightarrow> string list \<Rightarrow> string list \<times> string list" where
  "drop_common (b # bs) (t # ts) = (if b = t then drop_common bs ts else (b # bs, t # ts))"
| "drop_common bs ts = (bs, ts)"

definition Rel :: "string \<Rightarrow> string \<Rightarrow> string option" where
  "Rel base targ =
     (let b = Clean base; t = Clean targ in
      if t = b then Some ''.''
      else if is_rooted b \<noteq> is_rooted t then None
      else (let (bs, ts) = drop_common (path_elems b) (path_elems t) in
        if bs \<noteq> [] \<and> ts \<noteq> [] \<and> hd bs = ''..'' then None
        else Some (join_with ''/'' (map (\<lambda>_. ''..'') bs @ ts))))"

lemma drop_common_append: "drop_common bs (bs @ ts) = ([], ts)"
  by (induction bs) simp_all

lemma path_elems_abs_path: "\<forall>n \<in> set ns. plain_name n \<Longrightarrow> path_elems (abs_path ns) = ns"
proof (cases "ns = []")
  case False
  assume p: "\<forall>n \<in> set ns. plain_name n"
  then have "abs_path ns \<noteq> ''/''" "tl (abs_path ns) = rel_path ns"
    using rel_path_not_empty [OF p False] by (simp_all add: abs_path_def rel_path_def)
  then show ?thesis using split_rel_path [OF p False] by (simp add: path_elems_def is_rooted_def abs_path_def)
qed (simp add: path_elems_def abs_path_def)

lemma abs_path_inj: "\<forall>n \<in> set (ns @ ms). plain_name n \<Longrightarrow> abs_path ns = abs_path ms \<longleftrightarrow> ns = ms"
  by (metis path_elems_abs_path Un_iff set_append)

lemma Rel_abs_path:
  assumes "\<forall>n \<in> set (ns @ ms). plain_name n"
  shows "Rel (abs_path ns) (abs_path (ns @ ms)) = Some (if ms = [] then ''.'' else rel_path ms)"
proof -
  have c: "Clean (abs_path ns) = abs_path ns" "Clean (abs_path (ns @ ms)) = abs_path (ns @ ms)"
    using assms by (simp_all add: Clean_abs_path)
  have r: "is_rooted (abs_path xs)" for xs :: "string list" by (simp add: is_rooted_def abs_path_def)
  show ?thesis
  proof (cases "ms = []")
    case True
    then show ?thesis by (simp add: Rel_def)
  next
    case False
    then have "abs_path (ns @ ms) \<noteq> abs_path ns" using abs_path_inj [of "ns @ ms" ns] assms by auto
    moreover have "path_elems (abs_path ns) = ns" "path_elems (abs_path (ns @ ms)) = ns @ ms"
      using assms by (simp_all add: path_elems_abs_path)
    ultimately show ?thesis using False unfolding Rel_def Let_def c by (simp add: r drop_common_append rel_path_def)
  qed
qed

lemma Dir_single: "plain_name n \<Longrightarrow> Dir n = ''.''"
  using Dir_rel_path [of n "[]"] by (simp add: rel_path_def)

text \<open>Joining under an absolute path, element by element: empty elements vanish.\<close>

lemma split_join_elems: "xs \<noteq> [] \<Longrightarrow> split_on sep (join_with [sep] xs) = concat (map (split_on sep) xs)"
proof (induction xs)
  case (Cons x xs)
  then show ?case by (cases "xs = []") (simp_all add: join_with_Cons split_on_append)
qed simp

lemma fold_clean_sparse:
  "(\<forall>e \<in> set es. e = '''' \<or> plain_name e) \<Longrightarrow> fold (clean_step rooted) es stack = rev (filter (\<lambda>e. e \<noteq> '''') es) @ stack"
proof (induction es arbitrary: stack)
  case (Cons e es)
  have "e \<noteq> ''''" if "plain_name e" using that by (simp add: plain_name_def)
  with Cons show ?case by (cases "e = ''''") (simp_all add: clean_step_plain)
qed simp

lemma Clean_rooted: "is_rooted p \<Longrightarrow> Clean p = abs_path (rev (fold (clean_step True) (split_on CHR ''/'' p) []))"
  by (simp add: Clean_def abs_path_def Let_def)

lemma Join_sparse:
  assumes "is_rooted a" "\<forall>e \<in> set (concat (map (split_on CHR ''/'') (a # es))). e = '''' \<or> plain_name e"
  shows "filepath_Join (a # es) = abs_path (filter (\<lambda>e. e \<noteq> '''') (concat (map (split_on CHR ''/'') (a # es))))"
proof -
  have a: "a \<noteq> ''''" using assms(1) by (simp add: is_rooted_def)
  then have "is_rooted (join_with ''/'' (a # es))" using assms(1) by (cases es) (simp_all add: is_rooted_def)
  then show ?thesis
    using a split_join_elems [of "a # es" "CHR ''/''"] fold_clean_sparse [OF assms(2), of True "[]"]
    by (simp add: filepath_Join_def Clean_rooted)
qed

lemma split_abs_elems: "\<forall>n \<in> set ns. plain_name n \<Longrightarrow> filter (\<lambda>e. e \<noteq> '''') (split_on CHR ''/'' (abs_path ns)) = ns"
  "\<forall>n \<in> set ns. plain_name n \<Longrightarrow> \<forall>e \<in> set (split_on CHR ''/'' (abs_path ns)). e = '''' \<or> plain_name e"
proof -
  assume p: "\<forall>n \<in> set ns. plain_name n"
  then have f: "filter (\<lambda>e. e \<noteq> '''') ns = ns" by (auto simp: filter_id_conv plain_name_def)
  have "filter (\<lambda>e. e \<noteq> '''') (split_on CHR ''/'' (abs_path ns)) = ns
      \<and> (\<forall>e \<in> set (split_on CHR ''/'' (abs_path ns)). e = '''' \<or> plain_name e)"
  proof (cases "ns = []")
    case True
    then show ?thesis by (simp add: abs_path_def)
  next
    case False
    then show ?thesis using split_abs_path [OF p False] f p by simp
  qed
  then show "filter (\<lambda>e. e \<noteq> '''') (split_on CHR ''/'' (abs_path ns)) = ns"
    "\<forall>e \<in> set (split_on CHR ''/'' (abs_path ns)). e = '''' \<or> plain_name e" by auto
qed

lemma Join_abs_dir_name:
  assumes "\<forall>n \<in> set (ns @ ds @ [x]). plain_name n"
  shows "filepath_Join [abs_path ns, if ds = [] then '''' else rel_path ds @ ''/'', x] = abs_path (ns @ ds @ [x])"
    and "ds \<noteq> [] \<Longrightarrow> filepath_Join [abs_path ns, rel_path ds, x] = abs_path (ns @ ds @ [x])"
proof -
  have r: "is_rooted (abs_path ns)" by (simp add: is_rooted_def abs_path_def)
  have x: "split_on CHR ''/'' x = [x]" using assms by (intro split_on_no_sep) (simp add: plain_name_def)
  have d: "split_on CHR ''/'' (rel_path ds) = ds" if "ds \<noteq> []" using split_rel_path [OF _ that] assms by simp
  have d': "split_on CHR ''/'' (rel_path ds @ ''/'') = ds @ ['''']" if "ds \<noteq> []"
    using split_on_append [of "CHR ''/''" "rel_path ds" "''''"] d [OF that] by simp
  have f: "filter (\<lambda>e. e \<noteq> '''') ds = ds" "x \<noteq> ''''" using assms by (auto simp: filter_id_conv plain_name_def)
  have s: "filter (\<lambda>e. e \<noteq> '''') (split_on CHR ''/'' (abs_path ns)) = ns"
      "\<forall>e \<in> set (split_on CHR ''/'' (abs_path ns)) \<union> set ds. e = '''' \<or> plain_name e"
    using split_abs_elems [of ns] assms by auto
  show "filepath_Join [abs_path ns, if ds = [] then '''' else rel_path ds @ ''/'', x] = abs_path (ns @ ds @ [x])"
    using Join_sparse [OF r, of "[if ds = [] then '''' else rel_path ds @ ''/'', x]"] s assms x d' f by auto
  show "ds \<noteq> [] \<Longrightarrow> filepath_Join [abs_path ns, rel_path ds, x] = abs_path (ns @ ds @ [x])"
    using Join_sparse [OF r, of "[rel_path ds, x]"] s assms x d f by auto
qed

end
