(* ===== verification/Fs_Layer.thy ===== *)
theory Fs_Layer
  imports Fs_Core
begin

text \<open>
  The layer component of fshash (\<open>pkg/fshash/layer\<close>): the immutable layer chain
  (\<open>chain.go\<close>), the in-memory layer store (\<open>store.go\<close>) and the copy-on-write resolver
  (\<open>resolver.go\<close>). The store's mutexes make each operation atomic; an operation takes the
  store and returns the new one. A \<open>map[string]struct{}\<close> is the set of its keys, and the
  operations that list such a map (in Go's unspecified iteration order) return the set.
\<close>

section \<open>Definitions\<close>

subsection \<open>Chains\<close>

record chain =
  ch_layers :: "layer_id list"
  ch_index :: "string \<rightharpoonup> nat"

fun index_from :: "nat \<Rightarrow> layer_id list \<Rightarrow> (string \<rightharpoonup> nat) \<Rightarrow> (string \<rightharpoonup> nat)" where
  "index_from i [] m = m"
| "index_from i (l # ls) m = index_from (Suc i) ls (m(digest l \<mapsto> i))"

definition NewChain :: "layer_id list \<Rightarrow> chain" where
  "NewChain ls = \<lparr>ch_layers = ls, ch_index = index_from 0 ls Map.empty\<rparr>"

definition ch_Layers :: "chain \<Rightarrow> layer_id list" where
  "ch_Layers c = ch_layers c"

definition ch_Depth :: "chain \<Rightarrow> nat" where
  "ch_Depth c = length (ch_layers c)"

definition ch_Contains :: "chain \<Rightarrow> layer_id \<Rightarrow> bool" where
  "ch_Contains c l \<longleftrightarrow> ch_index c (digest l) \<noteq> None"

definition ch_Position :: "chain \<Rightarrow> layer_id \<Rightarrow> int" where
  "ch_Position c l = (case ch_index c (digest l) of None \<Rightarrow> -1 | Some pos \<Rightarrow> int pos)"

definition ch_Top :: "chain \<Rightarrow> layer_id" where
  "ch_Top c = (if ch_layers c = [] then LayerID '''' else ch_layers c ! (length (ch_layers c) - 1))"

definition ch_Bottom :: "chain \<Rightarrow> layer_id" where
  "ch_Bottom c = (if ch_layers c = [] then LayerID '''' else ch_layers c ! 0)"

definition ch_Above :: "chain \<Rightarrow> layer_id \<Rightarrow> layer_id list" where
  "ch_Above c l =
     (let pos = ch_Position c l
      in if pos < 0 \<or> pos \<ge> int (length (ch_layers c)) - 1 then []
         else drop (nat pos + 1) (ch_layers c))"

definition ch_Freeze :: "chain \<Rightarrow> chain" where
  "ch_Freeze c = NewChain (ch_layers c)"

record chain_builder =
  cb_layers :: "layer_id list"

definition NewChainBuilder :: chain_builder where
  "NewChainBuilder = \<lparr>cb_layers = []\<rparr>"

definition cb_Push :: "layer_id \<Rightarrow> chain_builder \<Rightarrow> chain_builder" where
  "cb_Push l b = b\<lparr>cb_layers := cb_layers b @ [l]\<rparr>"

definition cb_Build :: "chain_builder \<Rightarrow> chain" where
  "cb_Build b = NewChain (cb_layers b)"

definition cb_Depth :: "chain_builder \<Rightarrow> nat" where
  "cb_Depth b = length (cb_layers b)"

subsection \<open>The layer store\<close>

record manifest =
  mf_parentID :: layer_id
  mf_modified :: "string set"
  mf_deleted :: "string set"
  mf_opaque :: "string set"

record mem_store =
  ms_layers :: "string \<rightharpoonup> manifest"

definition NewMemoryStore :: mem_store where
  "NewMemoryStore = \<lparr>ms_layers = Map.empty\<rparr>"

definition ms_Register :: "mem_store \<Rightarrow> layer_id \<Rightarrow> layer_id \<Rightarrow> fs_error + mem_store" where
  "ms_Register s lid parentID =
     (if layer_IsZero lid then Inl (ErrInvalidEvent ''layer ID must not be empty'')
      else if ms_layers s (digest lid) \<noteq> None then Inl (ErrLayerExists (digest lid))
      else if \<not> layer_IsZero parentID \<and> ms_layers s (digest parentID) = None
      then Inl (ErrLayerNotFound (''parent '' @ digest parentID))
      else Inr (s\<lparr>ms_layers := (ms_layers s)(digest lid \<mapsto>
             \<lparr>mf_parentID = parentID, mf_modified = {}, mf_deleted = {}, mf_opaque = {}\<rparr>)\<rparr>))"

definition getManifest :: "mem_store \<Rightarrow> layer_id \<Rightarrow> fs_error + manifest" where
  "getManifest s lid =
     (case ms_layers s (digest lid) of
        None \<Rightarrow> Inl (ErrLayerNotFound (digest lid))
      | Some m \<Rightarrow> Inr m)"

definition ms_MarkModified :: "mem_store \<Rightarrow> layer_id \<Rightarrow> string \<Rightarrow> fs_error + mem_store" where
  "ms_MarkModified s lid path =
     (case getManifest s lid of
        Inl e \<Rightarrow> Inl e
      | Inr m \<Rightarrow> Inr (s\<lparr>ms_layers := (ms_layers s)(digest lid \<mapsto>
                    m\<lparr>mf_modified := insert path (mf_modified m)\<rparr>)\<rparr>))"

definition ms_IsModified :: "mem_store \<Rightarrow> layer_id \<Rightarrow> string \<Rightarrow> bool" where
  "ms_IsModified s lid path =
     (case getManifest s lid of Inl _ \<Rightarrow> False | Inr m \<Rightarrow> path \<in> mf_modified m)"

definition ms_OwnerOf :: "mem_store \<Rightarrow> layer_id list \<Rightarrow> string \<Rightarrow> layer_id \<times> bool" where
  "ms_OwnerOf s chain path =
     (case find (\<lambda>l. ms_IsModified s l path) (rev chain) of
        Some l \<Rightarrow> (l, True)
      | None \<Rightarrow> (case chain of [] \<Rightarrow> (LayerID '''', False) | l # _ \<Rightarrow> (l, False)))"

definition ms_ModifiedPaths :: "mem_store \<Rightarrow> layer_id \<Rightarrow> string set" where
  "ms_ModifiedPaths s lid = (case getManifest s lid of Inl _ \<Rightarrow> {} | Inr m \<Rightarrow> mf_modified m)"

definition ms_Parent :: "mem_store \<Rightarrow> layer_id \<Rightarrow> fs_error + layer_id" where
  "ms_Parent s lid = (case getManifest s lid of Inl e \<Rightarrow> Inl e | Inr m \<Rightarrow> Inr (mf_parentID m))"

definition ms_Exists :: "mem_store \<Rightarrow> layer_id \<Rightarrow> bool" where
  "ms_Exists s lid \<longleftrightarrow> ms_layers s (digest lid) \<noteq> None"

definition ms_MarkDeleted :: "mem_store \<Rightarrow> layer_id \<Rightarrow> string \<Rightarrow> fs_error + mem_store" where
  "ms_MarkDeleted s lid path =
     (case getManifest s lid of
        Inl e \<Rightarrow> Inl e
      | Inr m \<Rightarrow> Inr (s\<lparr>ms_layers := (ms_layers s)(digest lid \<mapsto>
                    m\<lparr>mf_deleted := insert path (mf_deleted m)\<rparr>)\<rparr>))"

definition ms_IsDeleted :: "mem_store \<Rightarrow> layer_id \<Rightarrow> string \<Rightarrow> bool" where
  "ms_IsDeleted s lid path =
     (case getManifest s lid of Inl _ \<Rightarrow> False | Inr m \<Rightarrow> path \<in> mf_deleted m)"

definition ms_DeletedPaths :: "mem_store \<Rightarrow> layer_id \<Rightarrow> string set" where
  "ms_DeletedPaths s lid = (case getManifest s lid of Inl _ \<Rightarrow> {} | Inr m \<Rightarrow> mf_deleted m)"

definition ms_MarkOpaque :: "mem_store \<Rightarrow> layer_id \<Rightarrow> string \<Rightarrow> fs_error + mem_store" where
  "ms_MarkOpaque s lid dir =
     (case getManifest s lid of
        Inl e \<Rightarrow> Inl e
      | Inr m \<Rightarrow> Inr (s\<lparr>ms_layers := (ms_layers s)(digest lid \<mapsto>
                    m\<lparr>mf_opaque := insert dir (mf_opaque m)\<rparr>)\<rparr>))"

definition ms_IsOpaque :: "mem_store \<Rightarrow> layer_id \<Rightarrow> string \<Rightarrow> bool" where
  "ms_IsOpaque s lid dir =
     (case getManifest s lid of Inl _ \<Rightarrow> False | Inr m \<Rightarrow> dir \<in> mf_opaque m)"

definition ms_OpaqueDirs :: "mem_store \<Rightarrow> layer_id \<Rightarrow> string set" where
  "ms_OpaqueDirs s lid = (case getManifest s lid of Inl _ \<Rightarrow> {} | Inr m \<Rightarrow> mf_opaque m)"

subsection \<open>The resolver\<close>

text \<open>A \<open>Resolver\<close> holds nothing but its store, so its methods take the store.\<close>

definition NeedsRehash :: "mem_store \<Rightarrow> chain \<Rightarrow> string \<Rightarrow> layer_id \<Rightarrow> bool" where
  "NeedsRehash s c path cachedLayerID =
     (if ch_Position c cachedLayerID < 0 then True
      else list_ex (\<lambda>l. ms_IsModified s l path) (ch_Above c cachedLayerID))"

definition ResolveOwner :: "mem_store \<Rightarrow> chain \<Rightarrow> string \<Rightarrow> layer_id \<times> bool" where
  "ResolveOwner s c path = ms_OwnerOf s (ch_Layers c) path"

text \<open>
  The inner loops of \<open>IsFileVisible\<close>: \<open>last_slash p k\<close> is the scan for the last \<open>'/'\<close> below
  index \<open>k\<close> (the variable \<open>slash\<close>, \<open>None\<close> for \<open>-1\<close>), and \<open>ancestor_opaque\<close> climbs the
  directories of the path until one is opaque or the root has been tested.
\<close>

fun last_slash :: "string \<Rightarrow> nat \<Rightarrow> nat option" where
  "last_slash p 0 = None"
| "last_slash p (Suc k) = (if p ! k = CHR ''/'' then Some k else last_slash p k)"

lemma last_slash_less: "last_slash p k = Some i \<Longrightarrow> i < k"
  by (induction k) (auto split: if_splits)

function ancestor_opaque :: "mem_store \<Rightarrow> layer_id \<Rightarrow> string \<Rightarrow> bool" where
  "ancestor_opaque s l ancestor =
     (case last_slash ancestor (length ancestor) of
        None \<Rightarrow> False
      | Some slash \<Rightarrow>
          (let dir = (if slash > 0 then take slash ancestor else ''/'')
           in if ms_IsOpaque s l dir then True
              else if dir = ''/'' then False
              else ancestor_opaque s l dir))"
  by pat_completeness auto
termination
proof (relation "measure (\<lambda>(s, l, p). length p)", goal_cases)
  case 1
  then show ?case by simp
next
  case (2 s l ancestor slash dir)
  then show ?case by (auto dest: last_slash_less split: if_splits)
qed

declare ancestor_opaque.simps [simp del]

text \<open>\<open>visible_from s layers path i\<close>: the loop from index \<open>i - 1\<close> down to \<open>ownerPos + 1\<close>.\<close>

fun visible_from :: "mem_store \<Rightarrow> layer_id list \<Rightarrow> string \<Rightarrow> int \<Rightarrow> nat \<Rightarrow> bool" where
  "visible_from s layers path ownerPos 0 = True"
| "visible_from s layers path ownerPos (Suc i) =
     (if int i \<le> ownerPos then True
      else if ms_IsDeleted s (layers ! i) path then False
      else if ancestor_opaque s (layers ! i) path then False
      else visible_from s layers path ownerPos i)"

definition IsFileVisible :: "mem_store \<Rightarrow> chain \<Rightarrow> string \<Rightarrow> bool" where
  "IsFileVisible s c path =
     (let layers = ch_Layers c
      in if layers = [] then False
         else (let owner = fst (ms_OwnerOf s layers path);
                   pos = ch_Position c owner;
                   ownerPos = (if pos < 0 then 0 else pos)
               in visible_from s layers path ownerPos (length layers)))"

section \<open>Chains: positions and the layers above\<close>

lemma index_from_notin: "l \<notin> set ls \<Longrightarrow> index_from i ls m (digest l) = m (digest l)"
  by (induction i ls m rule: index_from.induct) auto

lemma index_from_split:
  "l \<notin> set vs \<Longrightarrow> index_from i (us @ l # vs) m (digest l) = Some (i + length us)"
proof (induction us arbitrary: i m)
  case Nil
  then show ?case by (simp add: index_from_notin)
next
  case (Cons u us)
  then show ?case by simp
qed

lemma ch_layers_NewChain [simp]: "ch_layers (NewChain ls) = ls"
  by (simp add: NewChain_def)

lemma ch_Layers_NewChain [simp]: "ch_Layers (NewChain ls) = ls"
  by (simp add: ch_Layers_def)

lemma ch_Freeze_NewChain [simp]: "ch_Freeze (NewChain ls) = NewChain ls"
  by (simp add: ch_Freeze_def)

lemma ch_Position_split:
  "l \<notin> set vs \<Longrightarrow> ch_Position (NewChain (us @ l # vs)) l = int (length us)"
  by (simp add: ch_Position_def NewChain_def index_from_split)

lemma ch_Position_notin: "l \<notin> set ls \<Longrightarrow> ch_Position (NewChain ls) l = -1"
  by (simp add: ch_Position_def NewChain_def index_from_notin)

lemma ch_Above_split:
  assumes "l \<notin> set vs"
  shows "ch_Above (NewChain (us @ l # vs)) l = vs"
  using assms by (simp add: ch_Above_def ch_Position_split Let_def)

lemma ch_Contains_NewChain: "ch_Contains (NewChain ls) l \<longleftrightarrow> l \<in> set ls"
proof (cases "l \<in> set ls")
  case True
  then obtain us vs where "ls = us @ l # vs" "l \<notin> set vs" by (meson split_list_last)
  then show ?thesis by (simp add: ch_Contains_def NewChain_def index_from_split)
next
  case False
  then show ?thesis by (simp add: ch_Contains_def NewChain_def index_from_notin)
qed

lemma ch_Position_nth:
  assumes "distinct ls" "i < length ls"
  shows "ch_Position (NewChain ls) (ls ! i) = int i"
proof -
  have eq: "ls = take i ls @ ls ! i # drop (Suc i) ls"
    using assms(2) by (simp add: id_take_nth_drop)
  have "ls ! i \<notin> set (drop (Suc i) ls)"
    using assms eq by (metis distinct.simps(2) distinct_append)
  then have "ch_Position (NewChain (take i ls @ ls ! i # drop (Suc i) ls)) (ls ! i) = int i"
    using assms(2) by (simp add: ch_Position_split)
  then show ?thesis using eq by simp
qed

lemma ch_Top_NewChain: "ls \<noteq> [] \<Longrightarrow> ch_Top (NewChain ls) = last ls"
  by (simp add: ch_Top_def last_conv_nth)

section \<open>The store: marks\<close>

lemmas mark_defs =
  ms_MarkModified_def ms_MarkDeleted_def ms_MarkOpaque_def
  ms_IsModified_def ms_IsDeleted_def ms_IsOpaque_def ms_Exists_def getManifest_def

declare mark_defs [store_defs]

text \<open>
  The contract shared by the three kinds of marks (modified, deleted, opaque): marking succeeds
  exactly on known layers, marks that one pair, and keeps the set of known layers.
\<close>

locale mark_store =
  fixes mark :: "'s \<Rightarrow> layer_id \<Rightarrow> string \<Rightarrow> fs_error + 's"
    and marked :: "'s \<Rightarrow> layer_id \<Rightarrow> string \<Rightarrow> bool"
    and known :: "'s \<Rightarrow> layer_id \<Rightarrow> bool"
  assumes mark_unknown: "\<not> known s l \<Longrightarrow> mark s l p = Inl (ErrLayerNotFound (digest l))"
    and mark_known: "known s l \<Longrightarrow> \<exists>s'. mark s l p = Inr s'"
    and marked_mark: "mark s l p = Inr s' \<Longrightarrow> marked s' l' q \<longleftrightarrow> marked s l' q \<or> (l' = l \<and> q = p)"
    and known_mark: "mark s l p = Inr s' \<Longrightarrow> known s' l' \<longleftrightarrow> known s l'"
begin

fun mark_all :: "'s \<Rightarrow> (layer_id \<times> string) list \<Rightarrow> fs_error + 's" where
  "mark_all s [] = Inr s"
| "mark_all s ((l, p) # ms) = (case mark s l p of Inl e \<Rightarrow> Inl e | Inr s' \<Rightarrow> mark_all s' ms)"

lemma mark_iff_known: "(\<exists>s'. mark s l p = Inr s') \<longleftrightarrow> known s l"
  using mark_unknown mark_known by fastforce

lemma mark_all_known: "(\<forall>(l, p) \<in> set ms. known s l) \<Longrightarrow> \<exists>s'. mark_all s ms = Inr s'"
proof (induction ms arbitrary: s)
  case Nil
  then show ?case by simp
next
  case (Cons m ms)
  obtain l p where m: "m = (l, p)" by (cases m)
  with Cons.prems obtain s1 where s1: "mark s l p = Inr s1" using mark_known by fastforce
  moreover have "\<forall>(l, p) \<in> set ms. known s1 l"
    using Cons.prems known_mark [OF s1] by auto
  ultimately show ?case using Cons.IH m by simp
qed

lemma marked_mark_all:
  "mark_all s ms = Inr s' \<Longrightarrow> marked s' l q \<longleftrightarrow> marked s l q \<or> (l, q) \<in> set ms"
  by (induction s ms rule: mark_all.induct) (auto simp: marked_mark split: sum.splits)

end

interpretation modified: mark_store ms_MarkModified ms_IsModified ms_Exists
  by unfold_locales (auto simp: mark_defs split: option.splits if_splits)

interpretation deleted: mark_store ms_MarkDeleted ms_IsDeleted ms_Exists
  by unfold_locales (auto simp: mark_defs split: option.splits if_splits)

interpretation opaqued: mark_store ms_MarkOpaque ms_IsOpaque ms_Exists
  by unfold_locales (auto simp: mark_defs split: option.splits if_splits)

text \<open>The three kinds of marks do not interfere.\<close>

lemma mark_frame:
  "ms_MarkModified s l p = Inr s' \<Longrightarrow> ms_IsDeleted s' = ms_IsDeleted s"
  "ms_MarkModified s l p = Inr s' \<Longrightarrow> ms_IsOpaque s' = ms_IsOpaque s"
  "ms_MarkDeleted s l p = Inr s' \<Longrightarrow> ms_IsModified s' = ms_IsModified s"
  "ms_MarkDeleted s l p = Inr s' \<Longrightarrow> ms_IsOpaque s' = ms_IsOpaque s"
  "ms_MarkOpaque s l p = Inr s' \<Longrightarrow> ms_IsModified s' = ms_IsModified s"
  "ms_MarkOpaque s l p = Inr s' \<Longrightarrow> ms_IsDeleted s' = ms_IsDeleted s"
  by (auto simp: mark_defs fun_eq_iff split: option.splits if_splits)

section \<open>The store: registration\<close>

definition parents_known :: "mem_store \<Rightarrow> bool" where
  "parents_known s \<longleftrightarrow> (\<forall>k m. ms_layers s k = Some m \<longrightarrow>
      k \<noteq> '''' \<and> (layer_IsZero (mf_parentID m) \<or> ms_Exists s (mf_parentID m)))"

lemma parents_known_NewMemoryStore: "parents_known NewMemoryStore"
  by (simp add: parents_known_def NewMemoryStore_def)

lemma parents_known_Register:
  "ms_Register s l p = Inr s' \<Longrightarrow> parents_known s \<Longrightarrow> parents_known s'"
  by (fastforce simp: parents_known_def ms_Register_def ms_Exists_def layer_IsZero_def
      split: if_splits)

lemma parents_known_mark:
  "ms_MarkModified s l p = Inr s' \<Longrightarrow> parents_known s \<Longrightarrow> parents_known s'"
  "ms_MarkDeleted s l p = Inr s' \<Longrightarrow> parents_known s \<Longrightarrow> parents_known s'"
  "ms_MarkOpaque s l p = Inr s' \<Longrightarrow> parents_known s \<Longrightarrow> parents_known s'"
  by (fastforce simp: parents_known_def mark_defs layer_IsZero_def split: option.splits if_splits)+

lemma Register_Exists:
  "ms_Register s l p = Inr s' \<Longrightarrow> ms_Exists s' l' \<longleftrightarrow> ms_Exists s l' \<or> l' = l"
  by (auto simp: ms_Register_def ms_Exists_def split: if_splits)

lemma Register_fresh: "ms_Register s l p = Inr s' \<Longrightarrow> \<not> ms_Exists s l"
  by (auto simp: ms_Register_def ms_Exists_def split: if_splits)

lemma marks_known:
  "ms_IsModified s l p \<Longrightarrow> ms_Exists s l" "ms_IsDeleted s l p \<Longrightarrow> ms_Exists s l"
  "ms_IsOpaque s l p \<Longrightarrow> ms_Exists s l"
  by (auto simp: mark_defs split: option.splits)

lemma Register_marks:
  assumes "ms_Register s l p = Inr s'"
  shows "ms_IsModified s' = ms_IsModified s" "ms_IsDeleted s' = ms_IsDeleted s"
    "ms_IsOpaque s' = ms_IsOpaque s"
  using assms by (auto simp: ms_Register_def mark_defs fun_eq_iff split: if_splits option.splits)

section \<open>The resolver\<close>

lemma OwnerOf_found:
  assumes "ms_IsModified s l p" "\<forall>v \<in> set vs. \<not> ms_IsModified s v p"
  shows "ms_OwnerOf s (us @ l # vs) p = (l, True)"
proof -
  have "find (\<lambda>l. ms_IsModified s l p) (rev (us @ l # vs)) = Some l"
    unfolding find_rev_Some_iff using assms by blast
  then show ?thesis by (simp add: ms_OwnerOf_def)
qed

lemma OwnerOf_default:
  assumes "ls \<noteq> []" "\<forall>v \<in> set ls. \<not> ms_IsModified s v p"
  shows "ms_OwnerOf s ls p = (hd ls, False)"
proof -
  have "find (\<lambda>l. ms_IsModified s l p) (rev ls) = None"
    unfolding find_rev_None_iff using assms by blast
  with assms(1) show ?thesis by (cases ls) (simp_all add: ms_OwnerOf_def)
qed

text \<open>
  The owner splits the chain: nothing above it modifies the path, and it modifies the path
  itself unless it is the base layer standing in for a path no layer has modified.
\<close>

lemma OwnerOf_cases:
  assumes "ls \<noteq> []"
  obtains us l vs where "ls = us @ l # vs" "fst (ms_OwnerOf s ls p) = l"
    "\<forall>v \<in> set vs. \<not> ms_IsModified s v p" "ms_IsModified s l p \<or> us = []"
    "snd (ms_OwnerOf s ls p) = ms_IsModified s l p"
proof (cases "\<exists>l \<in> set ls. ms_IsModified s l p")
  case True
  then obtain us l vs where *: "ls = us @ l # vs" "ms_IsModified s l p"
      "\<forall>v \<in> set vs. \<not> ms_IsModified s v p"
    using split_list_last_prop [OF True] by blast
  have o: "ms_OwnerOf s ls p = (l, True)" using OwnerOf_found [OF *(2,3)] *(1) by simp
  show thesis by (rule that [OF *(1) _ *(3)]) (simp_all only: o fst_conv snd_conv *(2) simp_thms)
next
  case False
  obtain l vs where ls: "ls = l # vs" using assms by (cases ls) auto
  have o: "ms_OwnerOf s ls p = (l, False)" using OwnerOf_default [OF assms, of s p] False ls by simp
  have "\<forall>v \<in> set vs. \<not> ms_IsModified s v p" "\<not> ms_IsModified s l p" using False ls by simp_all
  then show thesis by (intro that [of "[]" l vs]) (simp_all add: o [unfolded ls] ls)
qed

lemma NeedsRehash_split:
  "l \<notin> set vs \<Longrightarrow>
     NeedsRehash s (NewChain (us @ l # vs)) p l \<longleftrightarrow> (\<exists>v \<in> set vs. ms_IsModified s v p)"
  by (simp add: NeedsRehash_def ch_Position_split ch_Above_split list_ex_iff)

lemma NeedsRehash_foreign: "l \<notin> set ls \<Longrightarrow> NeedsRehash s (NewChain ls) p l"
  by (simp add: NeedsRehash_def ch_Position_notin)

text \<open>A two-layer store used as a concrete input: the upper layer modifies one path and whites out another.\<close>

definition example_store :: mem_store where
  "example_store = \<lparr>ms_layers =
     [''a'' \<mapsto> \<lparr>mf_parentID = LayerID '''', mf_modified = {''/f'', ''/g''}, mf_deleted = {}, mf_opaque = {}\<rparr>,
      ''b'' \<mapsto> \<lparr>mf_parentID = LayerID ''a'', mf_modified = {''/f''}, mf_deleted = {''/g''}, mf_opaque = {''/d''}\<rparr>]\<rparr>"

text \<open>
  Copy-on-write ownership. In a chain of distinct layers, the cached hash of a layer of the
  chain needs rehashing exactly when the layer that owns the path in the merged view
  (\<open>ResolveOwner\<close>) lies strictly above the layer the hash was taken in.
\<close>

theorem NeedsRehash_iff_owner_above:
  assumes "distinct ls" "l \<in> set ls"
  shows "NeedsRehash s (NewChain ls) p l \<longleftrightarrow>
    ch_Position (NewChain ls) l < ch_Position (NewChain ls) (fst (ResolveOwner s (NewChain ls) p))"
proof -
  from assms obtain us vs where ls: "ls = us @ l # vs" and lvs: "l \<notin> set vs"
    by (meson split_list_last)
  have ne: "ls \<noteq> []" using ls by simp
  obtain us' o' vs' where o: "ls = us' @ o' # vs'" "fst (ms_OwnerOf s ls p) = o'"
      "\<forall>v \<in> set vs'. \<not> ms_IsModified s v p" "ms_IsModified s o' p \<or> us' = []"
    by (rule OwnerOf_cases [OF ne, of s p])
  have ovs: "o' \<notin> set vs'" using assms(1) unfolding o(1) by simp
  have pos: "ch_Position (NewChain ls) l = int (length us)"
      "ch_Position (NewChain ls) o' = int (length us')"
    using ch_Position_split [OF lvs, of us] ch_Position_split [OF ovs, of us']
    by (simp_all only: ls [symmetric] o(1) [symmetric])
  have "(\<exists>v \<in> set vs. ms_IsModified s v p) \<longleftrightarrow> length us < length us'"
  proof
    assume "\<exists>v \<in> set vs. ms_IsModified s v p"
    then obtain v where v: "v \<in> set vs" "ms_IsModified s v p" by blast
    show "length us < length us'"
    proof (rule ccontr)
      assume "\<not> length us < length us'"
      then have "set (drop (Suc (length us)) ls) \<subseteq> set (drop (Suc (length us')) ls)"
        by (intro set_drop_subset_set_drop) simp
      moreover have "drop (Suc (length us)) ls = vs" using ls by simp
      moreover have "drop (Suc (length us')) ls = vs'" using o(1) by simp
      ultimately have "set vs \<subseteq> set vs'" by simp
      with v o(3) show False by blast
    qed
  next
    assume lt: "length us < length us'"
    then have "ms_IsModified s o' p" using o(4) by auto
    moreover have "o' \<in> set vs"
    proof -
      have "o' = ls ! length us'" using o(1) by simp
      also have "\<dots> = vs ! (length us' - Suc (length us))" using ls lt by (simp add: nth_append)
      finally show ?thesis using ls lt arg_cong [OF o(1), of length] by simp
    qed
    ultimately show "\<exists>v \<in> set vs. ms_IsModified s v p" by blast
  qed
  moreover have "NeedsRehash s (NewChain ls) p l \<longleftrightarrow> (\<exists>v \<in> set vs. ms_IsModified s v p)"
    using NeedsRehash_split [OF lvs] ls by simp
  moreover have "fst (ResolveOwner s (NewChain ls) p) = o'"
    using o(2) by (simp add: ResolveOwner_def)
  ultimately show ?thesis by (simp add: pos)
qed

theorem NeedsRehash_iff_owner_above_witness:
  "NeedsRehash example_store (NewChain [LayerID ''a'', LayerID ''b'']) ''/f'' (LayerID ''a'')
   \<and> \<not> NeedsRehash example_store (NewChain [LayerID ''a'', LayerID ''b'']) ''/g'' (LayerID ''a'')"
proof -
  let ?c = "[LayerID ''a'', LayerID ''b'']"
  have d: "distinct ?c" "LayerID ''a'' \<in> set ?c" by simp_all
  show ?thesis
    using NeedsRehash_iff_owner_above [OF d, of example_store "''/f''"]
      NeedsRehash_iff_owner_above [OF d, of example_store "''/g''"]
    by (simp add: ResolveOwner_def ms_OwnerOf_def mark_defs example_store_def ch_Position_def
        NewChain_def ch_Layers_def)
qed

text \<open>
  A cached hash from a layer that is not in the chain is never trusted, and marking a path
  as modified in any layer above the cached one forces a rehash from then on.
\<close>

theorem MarkModified_forces_rehash:
  assumes "ms_MarkModified s v p = Inr s'" "v \<in> set vs" "l \<notin> set vs"
  shows "NeedsRehash s' (NewChain (us @ l # vs)) p l"
proof -
  have "ms_IsModified s' v p" using modified.marked_mark [OF assms(1)] by simp
  then show ?thesis using NeedsRehash_split [OF assms(3)] assms(2) by blast
qed

theorem MarkModified_forces_rehash_witness:
  "\<exists>s'. ms_MarkModified
      \<lparr>ms_layers = [''b'' \<mapsto> \<lparr>mf_parentID = LayerID ''a'', mf_modified = {}, mf_deleted = {}, mf_opaque = {}\<rparr>]\<rparr>
      (LayerID ''b'') ''/f'' = Inr s'
    \<and> NeedsRehash s' (NewChain [LayerID ''a'', LayerID ''b'']) ''/f'' (LayerID ''a'')"
proof -
  let ?s = "\<lparr>ms_layers = [''b'' \<mapsto> \<lparr>mf_parentID = LayerID ''a'', mf_modified = {}, mf_deleted = {}, mf_opaque = {}\<rparr>]\<rparr>"
  obtain s' where s': "ms_MarkModified ?s (LayerID ''b'') ''/f'' = Inr s'"
    using modified.mark_known [of ?s "LayerID ''b''"] by (auto simp: ms_Exists_def)
  have "NeedsRehash s' (NewChain ([] @ LayerID ''a'' # [LayerID ''b''])) ''/f'' (LayerID ''a'')"
    by (rule MarkModified_forces_rehash [OF s']) simp_all
  with s' show ?thesis by auto
qed

subsection \<open>Opaque ancestors\<close>

text \<open>
  The directories above a path, stated without the loop: every prefix that ends before a slash,
  and the root for an absolute path.
\<close>

definition ancestor_dirs :: "string \<Rightarrow> string set" where
  "ancestor_dirs p = {take i p | i. 0 < i \<and> i < length p \<and> p ! i = CHR ''/''}
     \<union> (if p \<noteq> [] \<and> p ! 0 = CHR ''/'' then {''/''} else {})"

lemma last_slash_None_iff: "last_slash p k = None \<longleftrightarrow> (\<forall>i < k. p ! i \<noteq> CHR ''/'')"
  by (induction k) (auto simp: less_Suc_eq)

lemma last_slash_Some_iff:
  "last_slash p k = Some i \<longleftrightarrow> i < k \<and> p ! i = CHR ''/'' \<and> (\<forall>j < k. i < j \<longrightarrow> p ! j \<noteq> CHR ''/'')"
  by (induction k) (auto simp: less_Suc_eq)

lemma ancestor_dirs_no_slash:
  "last_slash p (length p) = None \<Longrightarrow> ancestor_dirs p = {}"
  by (auto simp: ancestor_dirs_def last_slash_None_iff)

lemma ancestor_dirs_root:
  assumes "last_slash p (length p) = Some 0"
  shows "ancestor_dirs p = {''/''}"
  using assms by (auto simp: ancestor_dirs_def last_slash_Some_iff)

lemma ancestor_dirs_step:
  assumes "last_slash p (length p) = Some k" "0 < k"
  shows "ancestor_dirs p = insert (take k p) (ancestor_dirs (take k p))"
proof -
  have k: "k < length p" "p ! k = CHR ''/''" "\<And>j. j < length p \<Longrightarrow> k < j \<Longrightarrow> p ! j \<noteq> CHR ''/''"
    using assms(1) by (auto simp: last_slash_Some_iff)
  have "{take i p | i. 0 < i \<and> i < length p \<and> p ! i = CHR ''/''}
      = insert (take k p) {take i (take k p) | i. 0 < i \<and> i < k \<and> take k p ! i = CHR ''/''}"
    (is "?A = insert _ ?B")
  proof (rule set_eqI, rule iffI)
    fix d assume "d \<in> ?A"
    then obtain i where i: "d = take i p" "0 < i" "i < length p" "p ! i = CHR ''/''" by blast
    with k have "i \<le> k" by (meson not_less)
    then show "d \<in> insert (take k p) ?B"
    proof (cases "i = k")
      case True
      then show ?thesis using i by simp
    next
      case False
      with \<open>i \<le> k\<close> have "i < k" by simp
      with i have "d = take i (take k p) \<and> 0 < i \<and> i < k \<and> take k p ! i = CHR ''/''"
        by (simp add: min_def)
      then show ?thesis by blast
    qed
  next
    fix d assume "d \<in> insert (take k p) ?B"
    then show "d \<in> ?A"
    proof
      assume "d = take k p"
      with k assms(2) show ?thesis by blast
    next
      assume "d \<in> ?B"
      then obtain i where "d = take i (take k p)" "0 < i" "i < k" "take k p ! i = CHR ''/''" by blast
      with k have "d = take i p \<and> 0 < i \<and> i < length p \<and> p ! i = CHR ''/''"
        by (simp add: min_def)
      then show ?thesis by blast
    qed
  qed
  moreover have "length (take k p) = k" using k by simp
  moreover have "take k p \<noteq> [] \<and> take k p ! 0 = CHR ''/'' \<longleftrightarrow> p \<noteq> [] \<and> p ! 0 = CHR ''/''"
    using assms(2) k by (auto simp: nth_take)
  ultimately show ?thesis unfolding ancestor_dirs_def by auto
qed

lemma ancestor_dirs_slash: "ancestor_dirs ''/'' = {''/''}"
  by (auto simp: ancestor_dirs_def)

lemma ancestor_opaque_iff:
  "ancestor_opaque s l p \<longleftrightarrow> (\<exists>d \<in> ancestor_dirs p. ms_IsOpaque s l d)"
proof (induction s l p rule: ancestor_opaque.induct)
  case (1 s l p)
  show ?case
  proof (cases "last_slash p (length p)")
    case None
    then show ?thesis by (simp add: ancestor_opaque.simps [of s l p] ancestor_dirs_no_slash)
  next
    case (Some k)
    show ?thesis
    proof (cases "k = 0")
      case True
      then show ?thesis using Some
        by (simp add: ancestor_opaque.simps [of s l p] ancestor_dirs_root)
    next
      case False
      show ?thesis
      proof (cases "take k p = ''/''")
        case True
        then show ?thesis using Some False ancestor_dirs_step [OF Some] ancestor_dirs_slash
          by (simp add: ancestor_opaque.simps [of s l p])
      next
        case ne: False
        have "ancestor_opaque s l p \<longleftrightarrow> ms_IsOpaque s l (take k p) \<or> ancestor_opaque s l (take k p)"
          using Some False ne by (simp add: ancestor_opaque.simps [of s l p] Let_def)
        moreover have "ms_IsOpaque s l (take k p) \<or> (ancestor_opaque s l (take k p) \<longleftrightarrow>
            (\<exists>d \<in> ancestor_dirs (take k p). ms_IsOpaque s l d))"
          using 1 [OF Some refl] False ne by auto
        ultimately show ?thesis using ancestor_dirs_step [OF Some] False by auto
      qed
    qed
  qed
qed

subsection \<open>Visibility in the merged view\<close>

text \<open>
  The overlay semantics, from the top layer down: a layer that modifies the path shows it; a
  layer with a whiteout for it, or with an opaque directory above it, hides everything below;
  the base layer is taken to hold every path.
\<close>

fun merged_visible :: "mem_store \<Rightarrow> layer_id list \<Rightarrow> string \<Rightarrow> bool" where
  "merged_visible s [] p = False"
| "merged_visible s [base] p = True"
| "merged_visible s (l # rest) p =
     (ms_IsModified s l p \<or>
      (\<not> ms_IsDeleted s l p \<and> \<not> (\<exists>d \<in> ancestor_dirs p. ms_IsOpaque s l d) \<and> merged_visible s rest p))"

lemma visible_from_iff:
  assumes "0 \<le> pos"
  shows "visible_from s ls p pos k \<longleftrightarrow>
    (\<forall>i < k. pos < int i \<longrightarrow> \<not> ms_IsDeleted s (ls ! i) p \<and> \<not> ancestor_opaque s (ls ! i) p)"
  by (induction k) (auto simp: less_Suc_eq)

lemma merged_visible_split:
  assumes "\<forall>v \<in> set vs. \<not> ms_IsModified s v p" "ms_IsModified s l p \<or> us = []"
  shows "merged_visible s (rev (us @ l # vs)) p \<longleftrightarrow>
    (\<forall>v \<in> set vs. \<not> ms_IsDeleted s v p \<and> \<not> (\<exists>d \<in> ancestor_dirs p. ms_IsOpaque s v d))"
  using assms(1)
proof (induction vs rule: rev_induct)
  case Nil
  show ?case
  proof (cases "us = []")
    case True
    then show ?thesis by simp
  next
    case False
    then obtain x xs where "rev us = x # xs" by (cases "rev us") auto
    then show ?thesis using assms(2) False by simp
  qed
next
  case (snoc v vs)
  obtain x xs where x: "rev (us @ l # vs) = x # xs" by (cases "rev (us @ l # vs)") auto
  have "merged_visible s (rev (us @ l # vs @ [v])) p \<longleftrightarrow>
      \<not> ms_IsDeleted s v p \<and> \<not> (\<exists>d \<in> ancestor_dirs p. ms_IsOpaque s v d)
      \<and> merged_visible s (rev (us @ l # vs)) p"
    using snoc.prems x by simp
  then show ?case using snoc by auto
qed

text \<open>
  C12: the loop of \<open>IsFileVisible\<close> (find the owner, then scan the layers above it for whiteouts
  and opaque ancestors, climbing the path slash by slash) computes exactly the overlay
  semantics \<open>merged_visible\<close>, on every chain of distinct layers.
\<close>

theorem IsFileVisible_merged_view:
  assumes "distinct ls"
  shows "IsFileVisible s (NewChain ls) p \<longleftrightarrow> merged_visible s (rev ls) p"
proof (cases "ls = []")
  case True
  then show ?thesis by (simp add: IsFileVisible_def)
next
  case False
  obtain us l vs where o: "ls = us @ l # vs" "fst (ms_OwnerOf s ls p) = l"
      "\<forall>v \<in> set vs. \<not> ms_IsModified s v p" "ms_IsModified s l p \<or> us = []"
    by (rule OwnerOf_cases [OF False, of s p])
  have lvs: "l \<notin> set vs" using assms unfolding o(1) by simp
  have pos: "ch_Position (NewChain ls) l = int (length us)"
    using ch_Position_split [OF lvs, of us] by (simp only: o(1) [symmetric])
  have "IsFileVisible s (NewChain ls) p \<longleftrightarrow> visible_from s ls p (int (length us)) (length ls)"
    using False o(2) pos by (simp add: IsFileVisible_def Let_def)
  also have "\<dots> \<longleftrightarrow> (\<forall>i < length ls. length us < i \<longrightarrow>
      \<not> ms_IsDeleted s (ls ! i) p \<and> \<not> ancestor_opaque s (ls ! i) p)"
    by (simp add: visible_from_iff)
  also have "\<dots> \<longleftrightarrow> (\<forall>v \<in> set vs. \<not> ms_IsDeleted s v p \<and> \<not> ancestor_opaque s v p)"
    (is "?idx \<longleftrightarrow> ?elt")
  proof
    assume ?idx
    show ?elt
    proof
      fix v assume "v \<in> set vs"
      then obtain j where "j < length vs" "vs ! j = v" by (auto simp: in_set_conv_nth)
      then have "Suc (length us) + j < length ls \<and> ls ! (Suc (length us) + j) = v"
        using o(1) by (simp add: nth_append)
      with \<open>?idx\<close> show "\<not> ms_IsDeleted s v p \<and> \<not> ancestor_opaque s v p"
        by (metis add_Suc less_add_Suc1)
    qed
  next
    assume elt: ?elt
    show ?idx
    proof (intro allI impI)
      fix i assume i: "i < length ls" "length us < i"
      then have "ls ! i = vs ! (i - Suc (length us))" "i - Suc (length us) < length vs"
        using o(1) by (auto simp: nth_append nth_Cons')
      with elt show "\<not> ms_IsDeleted s (ls ! i) p \<and> \<not> ancestor_opaque s (ls ! i) p"
        by (metis nth_mem)
    qed
  qed
  also have "\<dots> \<longleftrightarrow> merged_visible s (rev ls) p"
    using merged_visible_split [OF o(3,4)] by (simp add: o(1) ancestor_opaque_iff)
  finally show ?thesis .
qed

theorem IsFileVisible_merged_view_witness:
  "IsFileVisible example_store (NewChain [LayerID ''a'', LayerID ''b'']) ''/f''
   \<and> \<not> IsFileVisible example_store (NewChain [LayerID ''a'', LayerID ''b'']) ''/g''"
proof -
  let ?c = "[LayerID ''a'', LayerID ''b'']"
  have d: "distinct ?c" by simp
  show ?thesis
    using IsFileVisible_merged_view [OF d, of example_store "''/f''"]
      IsFileVisible_merged_view [OF d, of example_store "''/g''"]
    by (simp add: mark_defs example_store_def)
qed

end
