(* ===== verification/Fs_Overlay.thy ===== *)
theory Fs_Overlay
  imports Go_Strings Fs_Layer
begin

text \<open>
  The overlay component of fshash (\<open>pkg/fshash/overlay\<close>): classification of OverlayFS marker
  names (\<open>parser.go\<close>, \<open>types.go\<close>, \<open>options.go\<close>), the interpreter that turns access events into
  mutations (\<open>interpreter.go\<close>, \<open>hooks.go\<close>) and the chain visibility checker (\<open>visibility.go\<close>).
  A hook is an optional function on the state \<open>'s\<close> of the embedding program, \<open>None\<close> for \<open>nil\<close>.
\<close>

section \<open>Definitions\<close>

type_synonym entry_kind = "8 word"

definition EntryRegular :: entry_kind where [enum_defs]: "EntryRegular = 0"
definition EntryWhiteout :: entry_kind where [enum_defs]: "EntryWhiteout = 1"
definition EntryOpaque :: entry_kind where [enum_defs]: "EntryOpaque = 2"
definition EntryCopyUp :: entry_kind where [enum_defs]: "EntryCopyUp = 3"

definition EntryKind_String :: "entry_kind \<Rightarrow> string" where
  "EntryKind_String k =
     (if k = EntryRegular then ''regular'' else if k = EntryWhiteout then ''whiteout''
      else if k = EntryOpaque then ''opaque'' else if k = EntryCopyUp then ''copy-up'' else ''unknown'')"

record overlay_entry =
  oe_RawPath :: string
  oe_TargetPath :: string
  oe_Kind :: entry_kind
  oe_LayerID :: layer_id

type_synonym mutation_kind = "8 word"

definition MutationModified :: mutation_kind where [enum_defs]: "MutationModified = 0"
definition MutationDeleted :: mutation_kind where [enum_defs]: "MutationDeleted = 1"
definition MutationOpaqued :: mutation_kind where [enum_defs]: "MutationOpaqued = 2"
definition MutationRenamed :: mutation_kind where [enum_defs]: "MutationRenamed = 3"

definition MutationKind_String :: "mutation_kind \<Rightarrow> string" where
  "MutationKind_String k =
     (if k = MutationModified then ''modified'' else if k = MutationDeleted then ''deleted''
      else if k = MutationOpaqued then ''opaqued'' else if k = MutationRenamed then ''renamed'' else ''unknown'')"

record mutation =
  mu_Kind :: mutation_kind
  mu_Path :: string
  mu_LayerID :: layer_id
  mu_TargetPath :: string

record 's interpreter_hooks =
  OnWhiteoutDetected :: "(overlay_entry \<Rightarrow> 's \<Rightarrow> 's) option"
  OnOpaqueDetected :: "(overlay_entry \<Rightarrow> 's \<Rightarrow> 's) option"
  OnCopyUpDetected :: "(overlay_entry \<Rightarrow> 's \<Rightarrow> 's) option"
  OnMutationEmitted :: "(mutation \<Rightarrow> 's \<Rightarrow> 's) option"

definition fireWhiteout :: "'s interpreter_hooks \<Rightarrow> overlay_entry \<Rightarrow> 's \<Rightarrow> 's" where
  "fireWhiteout h entry s = (case OnWhiteoutDetected h of Some f \<Rightarrow> f entry s | None \<Rightarrow> s)"

definition fireOpaque :: "'s interpreter_hooks \<Rightarrow> overlay_entry \<Rightarrow> 's \<Rightarrow> 's" where
  "fireOpaque h entry s = (case OnOpaqueDetected h of Some f \<Rightarrow> f entry s | None \<Rightarrow> s)"

definition fireCopyUp :: "'s interpreter_hooks \<Rightarrow> overlay_entry \<Rightarrow> 's \<Rightarrow> 's" where
  "fireCopyUp h entry s = (case OnCopyUpDetected h of Some f \<Rightarrow> f entry s | None \<Rightarrow> s)"

definition fireMutation :: "'s interpreter_hooks \<Rightarrow> mutation \<Rightarrow> 's \<Rightarrow> 's" where
  "fireMutation h m s = (case OnMutationEmitted h of Some f \<Rightarrow> f m s | None \<Rightarrow> s)"

record 's overlay_config =
  oc_whiteoutPrefix :: string
  oc_opaqueMarker :: string
  oc_hooks :: "'s interpreter_hooks"

definition overlay_defaultConfig :: "'s overlay_config" where
  "overlay_defaultConfig = \<lparr>oc_whiteoutPrefix = ''.wh.'', oc_opaqueMarker = ''.wh..wh..opq'',
     oc_hooks = \<lparr>OnWhiteoutDetected = None, OnOpaqueDetected = None, OnCopyUpDetected = None,
                 OnMutationEmitted = None\<rparr>\<rparr>"

definition WithWhiteoutPrefix :: "string \<Rightarrow> 's overlay_config \<Rightarrow> 's overlay_config" where
  "WithWhiteoutPrefix pre c = c\<lparr>oc_whiteoutPrefix := pre\<rparr>"

definition WithOpaqueMarker :: "string \<Rightarrow> 's overlay_config \<Rightarrow> 's overlay_config" where
  "WithOpaqueMarker marker c = c\<lparr>oc_opaqueMarker := marker\<rparr>"

definition WithInterpreterHooks :: "'s interpreter_hooks \<Rightarrow> 's overlay_config \<Rightarrow> 's overlay_config" where
  "WithInterpreterHooks hooks c = c\<lparr>oc_hooks := hooks\<rparr>"

definition apply_options :: "('s overlay_config \<Rightarrow> 's overlay_config) list \<Rightarrow> 's overlay_config" where
  "apply_options opts = fold (\<lambda>opt cfg. opt cfg) opts overlay_defaultConfig"

record parser =
  pa_whiteoutPrefix :: string
  pa_opaqueMarker :: string

definition NewParser :: "('s overlay_config \<Rightarrow> 's overlay_config) list \<Rightarrow> parser" where
  "NewParser opts =
     (let cfg = apply_options opts
      in \<lparr>pa_whiteoutPrefix = oc_whiteoutPrefix cfg, pa_opaqueMarker = oc_opaqueMarker cfg\<rparr>)"

definition Parse :: "parser \<Rightarrow> string \<Rightarrow> layer_id \<Rightarrow> overlay_entry" where
  "Parse p path layerID =
     (let base = Base path; dir = Dir path
      in if base = pa_opaqueMarker p
         then \<lparr>oe_RawPath = path, oe_TargetPath = dir, oe_Kind = EntryOpaque, oe_LayerID = layerID\<rparr>
         else if HasPrefix base (pa_whiteoutPrefix p)
         then (let targetBase = TrimPrefix base (pa_whiteoutPrefix p);
                   targetPath = (if dir = ''.'' \<or> dir = ''/'' then filepath_Join [dir, targetBase]
                                 else filepath_Join [dir, targetBase])
               in \<lparr>oe_RawPath = path, oe_TargetPath = targetPath, oe_Kind = EntryWhiteout, oe_LayerID = layerID\<rparr>)
         else \<lparr>oe_RawPath = path, oe_TargetPath = path, oe_Kind = EntryRegular, oe_LayerID = layerID\<rparr>)"

definition IsWhiteout :: "parser \<Rightarrow> string \<Rightarrow> bool" where
  "IsWhiteout p path = (let base = Base path in HasPrefix base (pa_whiteoutPrefix p) \<and> base \<noteq> pa_opaqueMarker p)"

definition IsOpaque :: "parser \<Rightarrow> string \<Rightarrow> bool" where
  "IsOpaque p path \<longleftrightarrow> Base path = pa_opaqueMarker p"

definition WhiteoutTarget :: "parser \<Rightarrow> string \<Rightarrow> string" where
  "WhiteoutTarget p path =
     (if IsWhiteout p path
      then (let base = Base path; dir = Dir path;
                targetBase = TrimPrefix base (pa_whiteoutPrefix p)
            in filepath_Join [dir, targetBase])
      else path)"

record 's interpreter =
  in_parser :: parser
  in_hooks :: "'s interpreter_hooks"

definition NewInterpreter :: "('s overlay_config \<Rightarrow> 's overlay_config) list \<Rightarrow> 's interpreter" where
  "NewInterpreter opts = \<lparr>in_parser = NewParser opts, in_hooks = oc_hooks (apply_options opts)\<rparr>"

definition Interpret :: "'s interpreter \<Rightarrow> access_event \<Rightarrow> 's \<Rightarrow> mutation list \<times> 's" where
  "Interpret i event s =
     (let entry = Parse (in_parser i) (ev_Path event) (ev_LayerID event);
          mk = (\<lambda>kind. \<lparr>mu_Kind = kind, mu_Path = oe_TargetPath entry, mu_LayerID = oe_LayerID entry,
                        mu_TargetPath = ''''\<rparr>);
          (mutations, s) =
            (if oe_Kind entry = EntryWhiteout then ([mk MutationDeleted], fireWhiteout (in_hooks i) entry s)
             else if oe_Kind entry = EntryOpaque then ([mk MutationOpaqued], fireOpaque (in_hooks i) entry s)
             else if oe_Kind entry = EntryRegular then ([mk MutationModified], s)
             else ([], s))
      in (mutations, fold (fireMutation (in_hooks i)) mutations s))"

subsection \<open>The chain visibility checker\<close>

text \<open>
  \<open>opaque_scan\<close> is the loop over the ancestors of the path: it queries the store and, as its
  comment says, does nothing with the answer, so all it computes is the directory it has reached.
\<close>

fun opaque_scan :: "(string \<Rightarrow> bool) \<Rightarrow> string \<Rightarrow> string list \<Rightarrow> string \<Rightarrow> string" where
  "opaque_scan is_opaque path [] currentPath = currentPath"
| "opaque_scan is_opaque path [_] currentPath = currentPath"
| "opaque_scan is_opaque path (part # p2 # parts) currentPath =
     (if part = '''' \<and> currentPath = '''' then opaque_scan is_opaque path (p2 # parts) currentPath
      else
        (let currentPath =
               (if currentPath = '''' then (if HasPrefix path ''/'' then ''/'' @ part else part)
                else if currentPath = ''/'' then ''/'' @ part
                else currentPath @ ''/'' @ part)
         in if is_opaque currentPath then opaque_scan is_opaque path (p2 # parts) currentPath
            else opaque_scan is_opaque path (p2 # parts) currentPath))"

text \<open>\<open>checker_loop s layers path i\<close>: the loop from index \<open>i - 1\<close> down to 0.\<close>

fun checker_loop :: "mem_store \<Rightarrow> layer_id list \<Rightarrow> string \<Rightarrow> nat \<Rightarrow> bool" where
  "checker_loop s layers path 0 = True"
| "checker_loop s layers path (Suc i) =
     (let lid = layers ! i
      in if ms_IsDeleted s lid path then False
         else (let _ = opaque_scan (ms_IsOpaque s lid) path (split_on CHR ''/'' path) ''''
               in checker_loop s layers path i))"

definition checker_IsVisible :: "mem_store \<Rightarrow> chain \<Rightarrow> layer_id \<Rightarrow> string \<Rightarrow> bool" where
  "checker_IsVisible s c layerID path =
     (let pos = ch_Position c layerID
      in if pos < 0 then False
         else checker_loop s (ch_Layers c) path (nat pos + 1))"

definition VisiblePaths :: "mem_store \<Rightarrow> chain \<Rightarrow> layer_id \<Rightarrow> string list \<Rightarrow> string list" where
  "VisiblePaths s c layerID paths = filter (checker_IsVisible s c layerID) paths"

section \<open>The parser\<close>

lemma entry_kinds_distinct [simp]:
  "EntryRegular \<noteq> EntryWhiteout" "EntryRegular \<noteq> EntryOpaque" "EntryWhiteout \<noteq> EntryOpaque"
  "EntryWhiteout \<noteq> EntryRegular" "EntryOpaque \<noteq> EntryRegular" "EntryOpaque \<noteq> EntryWhiteout"
  by (simp_all add: enum_defs)

lemma mutation_kinds_distinct [simp]:
  "MutationModified \<noteq> MutationDeleted" "MutationModified \<noteq> MutationOpaqued" "MutationDeleted \<noteq> MutationOpaqued"
  "MutationDeleted \<noteq> MutationModified" "MutationOpaqued \<noteq> MutationModified" "MutationOpaqued \<noteq> MutationDeleted"
  by (simp_all add: enum_defs)

lemma Parse_simps:
  "oe_RawPath (Parse p path l) = path" "oe_LayerID (Parse p path l) = l"
  "oe_Kind (Parse p path l) = (if IsOpaque p path then EntryOpaque
     else if IsWhiteout p path then EntryWhiteout else EntryRegular)"
  "oe_TargetPath (Parse p path l) = (if IsOpaque p path then Dir path else WhiteoutTarget p path)"
  by (auto simp: Parse_def IsWhiteout_def IsOpaque_def WhiteoutTarget_def Let_def)

lemma default_parser:
  "NewParser [] = \<lparr>pa_whiteoutPrefix = ''.wh.'', pa_opaqueMarker = ''.wh..wh..opq''\<rparr>"
  by (simp add: NewParser_def apply_options_def overlay_defaultConfig_def)

text \<open>
  Marker names round-trip. For a clean absolute directory (any number of plain elements) and
  a plain name, the marker \<open>dir/.wh.name\<close> parses to a whiteout of exactly \<open>dir/name\<close>, the marker
  \<open>dir/.wh..wh..opq\<close> to an opaque mark of \<open>dir\<close>, and \<open>dir/name\<close>, when the name does not start
  with \<open>.wh.\<close>, to itself.
\<close>

theorem Parse_markers:
  assumes "\<forall>d \<in> set dir. plain_name d" "plain_name name"
  shows "Parse (NewParser []) (abs_path (dir @ [''.wh.'' @ name])) l =
      (if name = ''.wh..opq''
       then \<lparr>oe_RawPath = abs_path (dir @ [''.wh..wh..opq'']), oe_TargetPath = abs_path dir,
             oe_Kind = EntryOpaque, oe_LayerID = l\<rparr>
       else \<lparr>oe_RawPath = abs_path (dir @ [''.wh.'' @ name]), oe_TargetPath = abs_path (dir @ [name]),
             oe_Kind = EntryWhiteout, oe_LayerID = l\<rparr>)
    \<and> (\<not> HasPrefix name ''.wh.'' \<longrightarrow> Parse (NewParser []) (abs_path (dir @ [name])) l =
        \<lparr>oe_RawPath = abs_path (dir @ [name]), oe_TargetPath = abs_path (dir @ [name]),
         oe_Kind = EntryRegular, oe_LayerID = l\<rparr>)"
proof -
  have m: "plain_name (''.wh.'' @ name)" using assms(2) by (simp add: plain_name_def)
  have trim: "HasPrefix (''.wh.'' @ name) ''.wh.''" "TrimPrefix (''.wh.'' @ name) ''.wh.'' = name"
    by (rule HasPrefix_append, rule TrimPrefix_append)
  have opq: "''.wh.'' @ name = ''.wh..wh..opq'' \<longleftrightarrow> name = ''.wh..opq''" by simp
  have np: "name \<noteq> ''.wh..wh..opq''" if "\<not> HasPrefix name ''.wh.''"
    using that by (auto simp: HasPrefix_def)
  have mark: "abs_path (dir @ [''.wh..wh..opq'']) = abs_path (dir @ [''.wh.'' @ name])" if "name = ''.wh..opq''"
    using that by simp
  show ?thesis
    using Base_abs_path [OF m, of dir] Dir_abs_path [OF m assms(1)] mark
      Base_abs_path [OF assms(2), of dir] Join_abs_path [OF assms] trim opq np
    unfolding Parse_def default_parser parser.simps Let_def by (cases "name = ''.wh..opq''") (simp_all del: append.simps)
qed

theorem Parse_markers_witness:
  "oe_TargetPath (Parse (NewParser ([] :: (unit overlay_config \<Rightarrow> unit overlay_config) list))
       ''/etc/.wh.passwd'' (LayerID ''l'')) = ''/etc/passwd''
   \<and> oe_Kind (Parse (NewParser ([] :: (unit overlay_config \<Rightarrow> unit overlay_config) list))
       ''/etc/.wh..wh..opq'' (LayerID ''l'')) = EntryOpaque"
  using Parse_markers [where 'a = unit and 'b = unit and dir = "[''etc'']" and name = "''passwd''" and l = "LayerID ''l''"]
    Parse_markers [where 'a = unit and 'b = unit and dir = "[''etc'']" and name = "''.wh..opq''" and l = "LayerID ''l''"]
  by (simp add: plain_name_def abs_path_def)

section \<open>The interpreter\<close>

text \<open>
  The interpreter emits exactly one mutation per access event, of the kind its three
  classification predicates say (whatever prefix and marker are configured), on the event's
  layer; it fires the hook of the marker first and the mutation hook after it, each at most once.
\<close>

theorem Interpret_single_mutation:
  "let p = in_parser i; path = ev_Path event; h = in_hooks i; entry = Parse p path (ev_LayerID event)
   in \<exists>m. fst (Interpret i event s) = [m] \<and> mu_LayerID m = ev_LayerID event
    \<and> (if IsOpaque p path
       then mu_Kind m = MutationOpaqued \<and> mu_Path m = Dir path
         \<and> snd (Interpret i event s) = fireMutation h m (fireOpaque h entry s)
       else if IsWhiteout p path
       then mu_Kind m = MutationDeleted \<and> mu_Path m = filepath_Join [Dir path, TrimPrefix (Base path) (pa_whiteoutPrefix p)]
         \<and> snd (Interpret i event s) = fireMutation h m (fireWhiteout h entry s)
       else mu_Kind m = MutationModified \<and> mu_Path m = path
         \<and> snd (Interpret i event s) = fireMutation h m s)"
  by (simp add: Interpret_def Parse_simps WhiteoutTarget_def Let_def)

section \<open>The visibility checker\<close>

lemma checker_loop_iff:
  "checker_loop s layers path n \<longleftrightarrow> (\<forall>i < n. \<not> ms_IsDeleted s (layers ! i) path)"
  by (induction n) (auto simp: less_Suc_eq Let_def)

text \<open>
  The checker looks at whiteouts only: on a chain of distinct layers a path is reported
  visible from a layer exactly when neither that layer nor any layer below it carries a whiteout
  for the path. Opaque directories and the layers that (re)create the path play no role.
\<close>

theorem checker_IsVisible_iff:
  assumes "distinct (us @ l # vs)"
  shows "checker_IsVisible s (NewChain (us @ l # vs)) l path
    \<longleftrightarrow> (\<forall>v \<in> insert l (set us). \<not> ms_IsDeleted s v path)"
proof -
  have "ch_Position (NewChain (us @ l # vs)) l = int (length us)"
    using assms by (intro ch_Position_split) simp
  moreover have "(\<forall>i < Suc (length us). \<not> ms_IsDeleted s ((us @ l # vs) ! i) path)
      \<longleftrightarrow> (\<forall>v \<in> set (us @ [l]). \<not> ms_IsDeleted s v path)"
    by (auto simp: all_set_conv_all_nth nth_append less_Suc_eq simp del: set_append)
  ultimately show ?thesis by (simp add: checker_IsVisible_def checker_loop_iff)
qed

theorem checker_IsVisible_iff_witness:
  "\<not> checker_IsVisible example_store (NewChain [LayerID ''a'', LayerID ''b'']) (LayerID ''b'') ''/g''"
  using checker_IsVisible_iff [of "[LayerID ''a'']" "LayerID ''b''" "[]" example_store "''/g''"]
  by (simp add: mark_defs example_store_def)

text \<open>
  The two visibility checks of the program disagree. A file that a layer re-creates above a
  layer that had deleted it is visible for the resolver (and in the overlay's merged view), and
  invisible for the checker; a file under a directory that an upper layer made opaque is
  invisible for the resolver and visible for the checker.
\<close>

theorem visibility_checks_disagree:
  assumes "distinct [base, mid, upper]" "ms_IsModified s upper p" "ms_IsDeleted s mid p"
    and "ms_IsModified s base q" "\<not> ms_IsModified s mid q" "\<not> ms_IsModified s upper q"
    and "\<forall>l \<in> {base, mid, upper}. \<not> ms_IsDeleted s l q"
    and "d \<in> ancestor_dirs q" "ms_IsOpaque s upper d"
  shows "IsFileVisible s (NewChain [base, mid, upper]) p
    \<and> \<not> checker_IsVisible s (NewChain [base, mid, upper]) upper p
    \<and> \<not> IsFileVisible s (NewChain [base, mid, upper]) q
    \<and> checker_IsVisible s (NewChain [base, mid, upper]) upper q"
proof -
  let ?c = "[base, mid, upper]"
  have pos: "ch_Position (NewChain ?c) upper = 2" "ch_Position (NewChain ?c) base = 0"
    using assms(1) ch_Position_split [of upper "[]" "[base, mid]"] ch_Position_split [of base "[mid, upper]" "[]"]
    by simp_all
  have own: "ms_OwnerOf s ?c p = (upper, True)" "ms_OwnerOf s ?c q = (base, True)"
    using OwnerOf_found [of s upper p "[]" "[base, mid]"] OwnerOf_found [of s base q "[mid, upper]" "[]"] assms
    by simp_all
  have "IsFileVisible s (NewChain ?c) p"
    by (simp add: IsFileVisible_def own pos Let_def numeral_2_eq_2 numeral_3_eq_3)
  moreover have "\<not> IsFileVisible s (NewChain ?c) q"
    using assms(8,9) by (auto simp: IsFileVisible_def own pos Let_def ancestor_opaque_iff)
  moreover have "\<not> checker_IsVisible s (NewChain ?c) upper p" "checker_IsVisible s (NewChain ?c) upper q"
    using assms(3,7) by (auto simp: checker_IsVisible_def pos checker_loop_iff nth_Cons')
  ultimately show ?thesis by blast
qed

definition example_store3 :: mem_store where
  "example_store3 = \<lparr>ms_layers =
     [''a'' \<mapsto> \<lparr>mf_parentID = LayerID '''', mf_modified = {''/f'', ''/d/x''}, mf_deleted = {}, mf_opaque = {}\<rparr>,
      ''b'' \<mapsto> \<lparr>mf_parentID = LayerID ''a'', mf_modified = {}, mf_deleted = {''/f''}, mf_opaque = {}\<rparr>,
      ''c'' \<mapsto> \<lparr>mf_parentID = LayerID ''b'', mf_modified = {''/f''}, mf_deleted = {}, mf_opaque = {''/d''}\<rparr>]\<rparr>"

theorem visibility_checks_disagree_witness:
  "IsFileVisible example_store3 (NewChain [LayerID ''a'', LayerID ''b'', LayerID ''c'']) ''/f''
   \<and> \<not> checker_IsVisible example_store3 (NewChain [LayerID ''a'', LayerID ''b'', LayerID ''c'']) (LayerID ''c'') ''/f''"
proof -
  have "''/d'' \<in> ancestor_dirs ''/d/x''"
    unfolding ancestor_dirs_def by (intro UnI1 CollectI exI [of _ 2]) simp
  then show ?thesis
    using visibility_checks_disagree [of "LayerID ''a''" "LayerID ''b''" "LayerID ''c''" example_store3 "''/f''" "''/d/x''" "''/d''"]
    by (simp add: mark_defs example_store3_def)
qed

end
