(* ===== verification/Cache_Contract.thy ===== *)
theory Cache_Contract
  imports Prelude
begin

text \<open>
  The contract of a cache that may forget: the interface between the hash caches of the program
  (fshash's \<open>cache.Store\<close>, layermerkle's \<open>HashCache\<close>) and the deduplication engines that use
  them. \<open>lookup\<close> is the abstract content; a read changes the cache's bookkeeping but not its
  content, a write may evict any other entry, and nothing is ever invented. Implementations
  interpret the locales on their own operations; the engines use \<open>coherent\<close>: every cached value
  satisfies a predicate of its key.
\<close>

locale weak_cache =
  fixes invar :: "'s \<Rightarrow> bool"
    and lookup :: "'s \<Rightarrow> 'k \<Rightarrow> 'v option"
    and get :: "'k \<Rightarrow> 's \<Rightarrow> 'v option \<times> 's"
    and put :: "'k \<Rightarrow> 'v \<Rightarrow> 's \<Rightarrow> 's"
  assumes get_result: "invar s \<Longrightarrow> fst (get k s) = lookup s k"
    and get_lookup: "invar s \<Longrightarrow> lookup (snd (get k s)) = lookup s"
    and put_key: "invar s \<Longrightarrow> lookup (put k v s) k = Some v \<or> lookup (put k v s) k = None"
    and put_other: "invar s \<Longrightarrow> k' \<noteq> k \<Longrightarrow> lookup (put k v s) k' = lookup s k' \<or> lookup (put k v s) k' = None"
    and invar_get: "invar s \<Longrightarrow> invar (snd (get k s))"
    and invar_put: "invar s \<Longrightarrow> invar (put k v s)"
begin

definition coherent :: "('k \<Rightarrow> 'v \<Rightarrow> bool) \<Rightarrow> 's \<Rightarrow> bool" where
  "coherent P s \<longleftrightarrow> (\<forall>k v. lookup s k = Some v \<longrightarrow> P k v)"

lemma coherent_mono: "coherent P s \<Longrightarrow> (\<And>k v. P k v \<Longrightarrow> Q k v) \<Longrightarrow> coherent Q s"
  by (simp add: coherent_def)

lemma coherent_get_result: "invar s \<Longrightarrow> coherent P s \<Longrightarrow> fst (get k s) = Some v \<Longrightarrow> P k v"
  by (simp add: coherent_def get_result)

lemma coherent_get: "invar s \<Longrightarrow> coherent P s \<Longrightarrow> coherent P (snd (get k s))"
  by (simp add: coherent_def get_lookup)

lemma coherent_put:
  assumes "invar s" "coherent P s" "P k v"
  shows "coherent P (put k v s)"
  unfolding coherent_def
proof (intro allI impI)
  fix k' v' assume l: "lookup (put k v s) k' = Some v'"
  show "P k' v'"
  proof (cases "k' = k")
    case True
    then show ?thesis using l put_key [OF assms(1), of k v] assms(3) by auto
  next
    case False
    then show ?thesis using l put_other [OF assms(1) False, of v] assms(2) by (auto simp: coherent_def)
  qed
qed

text \<open>Reading a list of keys until the first hit, as the engines do along a layer stack.\<close>

fun first_hit :: "'k list \<Rightarrow> 's \<Rightarrow> ('k \<times> 'v) option \<times> 's" where
  "first_hit [] s = (None, s)"
| "first_hit (k # ks) s =
     (case get k s of
        (Some v, s') \<Rightarrow> (Some (k, v), s')
      | (None, s') \<Rightarrow> first_hit ks s')"

lemma first_hit_keeps:
  "invar s \<Longrightarrow> invar (snd (first_hit ks s)) \<and> lookup (snd (first_hit ks s)) = lookup s"
proof (induction ks arbitrary: s)
  case Nil
  then show ?case by simp
next
  case (Cons k ks)
  obtain r s' where g: "get k s = (r, s')" by (cases "get k s")
  have "invar s'" "lookup s' = lookup s"
    using invar_get [OF Cons.prems, of k] get_lookup [OF Cons.prems, of k] g by simp_all
  then show ?case using Cons.IH [of s'] g by (simp split: option.split)
qed

lemma first_hit_result:
  "invar s \<Longrightarrow> fst (first_hit ks s) =
     (case find (\<lambda>k. lookup s k \<noteq> None) ks of None \<Rightarrow> None | Some k \<Rightarrow> map_option (Pair k) (lookup s k))"
proof (induction ks arbitrary: s)
  case Nil
  then show ?case by simp
next
  case (Cons k ks)
  obtain r s' where g: "get k s = (r, s')" by (cases "get k s")
  have s': "invar s'" "lookup s' = lookup s" "r = lookup s k"
    using invar_get [OF Cons.prems, of k] get_lookup [OF Cons.prems, of k]
      get_result [OF Cons.prems, of k] g by simp_all
  then show ?case using Cons.IH [OF s'(1)] g by (simp split: option.split)
qed

end

text \<open>A cache that stores what it is given, at least until the next write, and can delete.\<close>

locale storing_cache = weak_cache +
  fixes delete :: "'b \<Rightarrow> 'a \<Rightarrow> 'a"
  assumes put_same: "invar s \<Longrightarrow> lookup (put k v s) k = Some v"
    and delete_lookup: "invar s \<Longrightarrow> lookup (delete k s) = (lookup s)(k := None)"
    and invar_delete: "invar s \<Longrightarrow> invar (delete k s)"
begin

lemma coherent_delete: "invar s \<Longrightarrow> coherent P s \<Longrightarrow> coherent P (delete k s)"
  by (simp add: coherent_def delete_lookup)

lemma put_then_get: "invar s \<Longrightarrow> fst (get k (put k v s)) = Some v"
  by (simp add: get_result invar_put put_same)

lemma delete_then_get: "invar s \<Longrightarrow> fst (get k (delete k s)) = None"
  by (simp add: get_result invar_delete delete_lookup)

end

text \<open>
  A cache that may forget at any time, also on reads: the weakest contract, which decorators with
  a time to live still keep. Contents are compared as partial maps.
\<close>

locale forgetful_cache =
  fixes invar :: "'s \<Rightarrow> bool"
    and lookup :: "'s \<Rightarrow> 'k \<Rightarrow> 'v option"
    and get :: "'k \<Rightarrow> 's \<Rightarrow> 'v option \<times> 's"
    and put :: "'k \<Rightarrow> 'v \<Rightarrow> 's \<Rightarrow> 's"
    and delete :: "'k \<Rightarrow> 's \<Rightarrow> 's"
  assumes get_sound: "invar s \<Longrightarrow> fst (get k s) = Some v \<Longrightarrow> lookup s k = Some v"
    and get_forgets: "invar s \<Longrightarrow> lookup (snd (get k s)) \<subseteq>\<^sub>m lookup s"
    and put_adds: "invar s \<Longrightarrow> lookup (put k v s) \<subseteq>\<^sub>m (lookup s)(k \<mapsto> v)"
    and delete_drops: "invar s \<Longrightarrow> lookup (delete k s) \<subseteq>\<^sub>m (lookup s)(k := None)"
    and invar_get: "invar s \<Longrightarrow> invar (snd (get k s))"
    and invar_put: "invar s \<Longrightarrow> invar (put k v s)"
    and invar_delete: "invar s \<Longrightarrow> invar (delete k s)"
begin

definition holds :: "('k \<Rightarrow> 'v \<Rightarrow> bool) \<Rightarrow> 's \<Rightarrow> bool" where
  "holds P s \<longleftrightarrow> (\<forall>k v. lookup s k = Some v \<longrightarrow> P k v)"

lemma holds_le: "holds P s \<Longrightarrow> lookup s' \<subseteq>\<^sub>m lookup s \<Longrightarrow> holds P s'"
  unfolding holds_def map_le_def by (metis domI)

lemma holds_get_result: "invar s \<Longrightarrow> holds P s \<Longrightarrow> fst (get k s) = Some v \<Longrightarrow> P k v"
  using get_sound unfolding holds_def by blast

lemma holds_get: "invar s \<Longrightarrow> holds P s \<Longrightarrow> holds P (snd (get k s))"
  using holds_le get_forgets by blast

lemma holds_put:
  assumes "invar s" "holds P s" "P k v"
  shows "holds P (put k v s)"
  unfolding holds_def
proof (intro allI impI)
  fix k' v' assume l: "lookup (put k v s) k' = Some v'"
  then have "((lookup s)(k \<mapsto> v)) k' = Some v'" using put_adds [OF assms(1), of k v] unfolding map_le_def by (metis domI)
  then show "P k' v'" using assms(2,3) unfolding holds_def by (auto split: if_splits)
qed

lemma holds_delete: "invar s \<Longrightarrow> holds P s \<Longrightarrow> holds P (delete k s)"
  using delete_drops [of s k] unfolding holds_def map_le_def by (metis domI fun_upd_apply option.distinct(1))

end

text \<open>A storing cache keeps the weaker contract.\<close>

sublocale storing_cache \<subseteq> forget: forgetful_cache invar lookup get put delete
proof
  fix s k v assume s: "invar s"
  show "lookup (put k v s) \<subseteq>\<^sub>m (lookup s)(k \<mapsto> v)"
    unfolding map_le_def using put_same [OF s, of k v] put_other [OF s, of _ k v] by fastforce
qed (simp_all add: get_result get_lookup delete_lookup invar_get invar_put invar_delete)

end
