(* ===== verification/Lru_Spec.thy ===== *)
theory Lru_Spec
  imports Prelude
begin

text \<open>
  The specification shared by the two LRU caches of the program (fshash's \<open>cache/store.go\<close> and
  layermerkle's \<open>cache.go\<close>): a list of key-value pairs, most recently used first, that drops its
  last pair when it exceeds its capacity.
\<close>

definition lru_drop :: "'k \<Rightarrow> ('k \<times> 'v) list \<Rightarrow> ('k \<times> 'v) list" where
  "lru_drop k kvs = filter (\<lambda>p. fst p \<noteq> k) kvs"

definition lru_get :: "'k \<Rightarrow> ('k \<times> 'v) list \<Rightarrow> 'v option \<times> ('k \<times> 'v) list" where
  "lru_get k kvs =
     (case map_of kvs k of None \<Rightarrow> (None, kvs) | Some v \<Rightarrow> (Some v, (k, v) # lru_drop k kvs))"

definition lru_put :: "int \<Rightarrow> 'k \<Rightarrow> 'v \<Rightarrow> ('k \<times> 'v) list \<Rightarrow> ('k \<times> 'v) list" where
  "lru_put cap k v kvs =
     (case map_of kvs k of
        Some _ \<Rightarrow> (k, v) # lru_drop k kvs
      | None \<Rightarrow> (let kvs' = (k, v) # kvs
                 in if int (length kvs') > cap then butlast kvs' else kvs'))"

text \<open>The invariant of a bounded list: keys occur once and the capacity is kept.\<close>

definition lru_ok :: "int \<Rightarrow> ('k \<times> 'v) list \<Rightarrow> bool" where
  "lru_ok cap kvs \<longleftrightarrow> distinct (map fst kvs) \<and> int (length kvs) \<le> cap"

lemma map_of_lru_drop [simp]: "map_of (lru_drop k kvs) j = (if j = k then None else map_of kvs j)"
  by (induction kvs) (auto simp: lru_drop_def)

lemma map_of_filter_key: "map_of (filter (\<lambda>p. P (fst p)) kvs) j = (if P j then map_of kvs j else None)"
  by (induction kvs) auto

lemma map_of_butlast:
  "distinct (map fst kvs) \<Longrightarrow> map_of (butlast kvs) k = map_of kvs k \<or> map_of (butlast kvs) k = None"
  by (cases kvs rule: rev_cases) (auto simp: map_add_def split: option.splits)

lemma fold_lru_drop: "fold lru_drop ks kvs = filter (\<lambda>p. fst p \<notin> set ks) kvs"
  by (induction ks arbitrary: kvs) (auto simp: lru_drop_def intro!: filter_cong)

lemma distinct_lru_drop: "distinct (map fst kvs) \<Longrightarrow> distinct (map fst (lru_drop k kvs))"
  by (simp add: lru_drop_def distinct_map_filter)

lemma lru_drop_notin [simp]: "k \<notin> fst ` set (lru_drop k kvs)"
  by (auto simp: lru_drop_def)

lemma length_lru_drop_less: "map_of kvs k = Some v \<Longrightarrow> length (lru_drop k kvs) < length kvs"
  unfolding lru_drop_def by (auto intro!: length_filter_less dest: map_of_SomeD)

lemma lru_drop_absent: "k \<notin> fst ` set kvs \<Longrightarrow> lru_drop k kvs = kvs"
  by (auto simp: lru_drop_def filter_id_conv)

lemma lru_ok_drop: "lru_ok cap kvs \<Longrightarrow> lru_ok cap (lru_drop k kvs)"
  using length_filter_le [of "\<lambda>p. fst p \<noteq> k" kvs] distinct_lru_drop [of kvs k]
  unfolding lru_ok_def lru_drop_def by linarith

lemma lru_ok_filter: "lru_ok cap kvs \<Longrightarrow> lru_ok cap (filter P kvs)"
  using length_filter_le [of P kvs] distinct_map_filter [of fst kvs P] unfolding lru_ok_def by linarith

lemma lru_ok_get: "lru_ok cap kvs \<Longrightarrow> lru_ok cap (snd (lru_get k kvs))"
  using length_lru_drop_less [of kvs k]
  by (fastforce simp: lru_ok_def lru_get_def distinct_lru_drop split: option.split)

lemma lru_get_lookup: "fst (lru_get k kvs) = map_of kvs k" "map_of (snd (lru_get k kvs)) = map_of kvs"
  by (auto simp: lru_get_def fun_eq_iff split: option.split)

lemma lru_ok_put:
  assumes "lru_ok cap kvs" "0 < cap"
  shows "lru_ok cap (lru_put cap k v kvs)"
proof (cases "map_of kvs k")
  case None
  then have "distinct (map fst ((k, v) # kvs))" using assms(1) by (simp add: lru_ok_def map_of_eq_None_iff)
  then have "distinct (map fst (butlast ((k, v) # kvs)))" unfolding map_butlast by (rule distinct_butlast)
  then show ?thesis
    using assms None \<open>distinct (map fst ((k, v) # kvs))\<close>
    unfolding lru_put_def lru_ok_def Let_def by (simp del: butlast.simps)
next
  case (Some w)
  then show ?thesis
    using assms length_lru_drop_less [OF Some] by (simp add: lru_put_def lru_ok_def distinct_lru_drop)
qed

lemma lru_put_lookup:
  assumes "lru_ok cap kvs" "0 < cap"
  shows "map_of (lru_put cap k v kvs) k = Some v"
    and "j \<noteq> k \<Longrightarrow> map_of (lru_put cap k v kvs) j = map_of kvs j \<or> map_of (lru_put cap k v kvs) j = None"
proof -
  have "map_of (lru_put cap k v kvs) k = Some v \<and>
    (j \<noteq> k \<longrightarrow> map_of (lru_put cap k v kvs) j = map_of kvs j \<or> map_of (lru_put cap k v kvs) j = None)"
  proof (cases "map_of kvs k")
    case None
    then have "distinct (map fst ((k, v) # kvs))" using assms(1) by (simp add: lru_ok_def map_of_eq_None_iff)
    from map_of_butlast [OF this, of j] show ?thesis
      using None assms by (auto simp: lru_put_def lru_ok_def Let_def)
  qed (simp add: lru_put_def)
  then show "map_of (lru_put cap k v kvs) k = Some v"
    "j \<noteq> k \<Longrightarrow> map_of (lru_put cap k v kvs) j = map_of kvs j \<or> map_of (lru_put cap k v kvs) j = None" by auto
qed

end
