(* ===== verification/Fs_Cache.thy ===== *)
theory Fs_Cache
  imports Fs_Core Cache_Contract Lru_Spec
begin

text \<open>
  The content-hash cache of fshash (\<open>pkg/fshash/cache/store.go\<close>): a set of shards, each a
  map from composite keys to the nodes of a doubly linked list in recency order, with a bounded
  size and least-recently-used eviction.

  The shard is modelled with its pointers: \<open>sh_heap\<close> maps addresses to list nodes, a
  \<open>*lruEntry\<close> is an \<open>addr option\<close>, and \<open>&lruEntry{..}\<close> takes the next fresh address. The
  second half proves that these pointer operations implement an LRU list.
\<close>

section \<open>Definitions\<close>

type_synonym addr = nat

record lru_entry =
  e_key :: string
  e_value :: file_hash
  e_prev :: "addr option"
  e_next :: "addr option"

record shard =
  sh_entries :: "string \<rightharpoonup> addr"
  sh_heap :: "addr \<rightharpoonup> lru_entry"
  sh_fresh :: addr
  sh_head :: "addr option"
  sh_tail :: "addr option"
  sh_capacity :: int
  sh_hits :: uint64
  sh_misses :: uint64
  sh_evicts :: uint64

definition newShard :: "int \<Rightarrow> shard" where
  "newShard capacity =
     \<lparr>sh_entries = Map.empty, sh_heap = Map.empty, sh_fresh = 0, sh_head = None, sh_tail = None,
      sh_capacity = capacity, sh_hits = 0, sh_misses = 0, sh_evicts = 0\<rparr>"

subsection \<open>Pointer accesses\<close>

definition get_prev :: "shard \<Rightarrow> addr \<Rightarrow> addr option" where
  "get_prev s a = Option.bind (sh_heap s a) e_prev"

definition get_next :: "shard \<Rightarrow> addr \<Rightarrow> addr option" where
  "get_next s a = Option.bind (sh_heap s a) e_next"

definition upd_entry :: "addr \<Rightarrow> (lru_entry \<Rightarrow> lru_entry) \<Rightarrow> shard \<Rightarrow> shard" where
  "upd_entry a f s = s\<lparr>sh_heap := (sh_heap s)(a := map_option f (sh_heap s a))\<rparr>"

definition set_prev :: "addr \<Rightarrow> addr option \<Rightarrow> shard \<Rightarrow> shard" where
  "set_prev a p = upd_entry a (e_prev_update (\<lambda>_. p))"

definition set_next :: "addr \<Rightarrow> addr option \<Rightarrow> shard \<Rightarrow> shard" where
  "set_next a n = upd_entry a (e_next_update (\<lambda>_. n))"

definition set_value :: "addr \<Rightarrow> file_hash \<Rightarrow> shard \<Rightarrow> shard" where
  "set_value a v = upd_entry a (e_value_update (\<lambda>_. v))"

subsection \<open>List operations\<close>

definition addToFront :: "addr \<Rightarrow> shard \<Rightarrow> shard" where
  "addToFront a s =
     (let s = set_prev a None s;
          s = set_next a (sh_head s) s;
          s = (case sh_head s of Some h \<Rightarrow> set_prev h (Some a) s | None \<Rightarrow> s);
          s = s\<lparr>sh_head := Some a\<rparr>
      in if sh_tail s = None then s\<lparr>sh_tail := Some a\<rparr> else s)"

definition removeEntry :: "addr \<Rightarrow> shard \<Rightarrow> shard" where
  "removeEntry a s =
     (let s = (case get_prev s a of
                 Some p \<Rightarrow> set_next p (get_next s a) s
               | None \<Rightarrow> s\<lparr>sh_head := get_next s a\<rparr>);
          s = (case get_next s a of
                 Some n \<Rightarrow> set_prev n (get_prev s a) s
               | None \<Rightarrow> s\<lparr>sh_tail := get_prev s a\<rparr>)
      in set_next a None (set_prev a None s))"

definition moveToFront :: "addr \<Rightarrow> shard \<Rightarrow> shard" where
  "moveToFront a s = (if sh_head s = Some a then s else addToFront a (removeEntry a s))"

definition evictLRU :: "shard \<Rightarrow> shard" where
  "evictLRU s =
     (case sh_tail s of
        None \<Rightarrow> s
      | Some victim \<Rightarrow>
          (let s = removeEntry victim s;
               s = (case sh_heap s victim of
                      None \<Rightarrow> s
                    | Some e \<Rightarrow> s\<lparr>sh_entries := (sh_entries s)(e_key e := None)\<rparr>)
           in s\<lparr>sh_evicts := sh_evicts s + 1\<rparr>))"

subsection \<open>Shard operations\<close>

definition shard_size :: "shard \<Rightarrow> nat" where
  "shard_size s = card (dom (sh_entries s))"

definition shard_get :: "string \<Rightarrow> shard \<Rightarrow> file_hash option \<times> shard" where
  "shard_get key s =
     (case sh_entries s key of
        None \<Rightarrow> (None, s\<lparr>sh_misses := sh_misses s + 1\<rparr>)
      | Some a \<Rightarrow>
          (let s = s\<lparr>sh_hits := sh_hits s + 1\<rparr>;
               s = moveToFront a s
           in (map_option e_value (sh_heap s a), s)))"

definition shard_put :: "string \<Rightarrow> file_hash \<Rightarrow> shard \<Rightarrow> shard" where
  "shard_put key value s =
     (case sh_entries s key of
        Some a \<Rightarrow> moveToFront a (set_value a value s)
      | None \<Rightarrow>
          (let a = sh_fresh s;
               s = s\<lparr>sh_heap := (sh_heap s)(a \<mapsto>
                     \<lparr>e_key = key, e_value = value, e_prev = None, e_next = None\<rparr>),
                     sh_fresh := Suc a\<rparr>;
               s = s\<lparr>sh_entries := (sh_entries s)(key \<mapsto> a)\<rparr>;
               s = addToFront a s
           in if int (shard_size s) > sh_capacity s then evictLRU s else s))"

definition shard_invalidate :: "string \<Rightarrow> shard \<Rightarrow> shard" where
  "shard_invalidate key s =
     (case sh_entries s key of
        None \<Rightarrow> s
      | Some a \<Rightarrow> (let s = removeEntry a s
                  in s\<lparr>sh_entries := (sh_entries s)(key := None)\<rparr>))"

text \<open>
  \<open>range\<close> over a map visits the keys in an unspecified order: \<open>order\<close> is that order, any
  list of the keys of the map.
\<close>

definition has_prefix :: "string \<Rightarrow> string \<Rightarrow> bool" where
  "has_prefix pre key \<longleftrightarrow> length pre \<le> length key \<and> take (length pre) key = pre"

fun delete_keys :: "string list \<Rightarrow> shard \<Rightarrow> shard" where
  "delete_keys [] s = s"
| "delete_keys (key # ks) s =
     delete_keys ks
       (case sh_entries s key of
          None \<Rightarrow> s
        | Some a \<Rightarrow> (let s = removeEntry a s
                    in s\<lparr>sh_entries := (sh_entries s)(key := None)\<rparr>))"

definition invalidateByPrefix :: "string \<Rightarrow> string list \<Rightarrow> shard \<Rightarrow> shard" where
  "invalidateByPrefix pre order s = delete_keys (filter (has_prefix pre) order) s"

subsection \<open>The sharded store\<close>

record sharded_store =
  ss_shards :: "shard list"
  ss_shardMask :: uint64

record cache_stats =
  cs_Hits :: uint64
  cs_Misses :: uint64
  cs_Evictions :: uint64
  cs_Size :: nat
  cs_ShardCount :: nat

definition NewShardedStore :: "int \<Rightarrow> int \<Rightarrow> sharded_store option" where
  "NewShardedStore shardCount maxEntries =
     (let shardCount = (if shardCount \<le> 0 then 16 else shardCount);
          maxEntries = (if maxEntries \<le> 0 then 65536 else maxEntries)
      in case double_up 1 (word_of_int shardCount) of
           None \<Rightarrow> None
         | Some n \<Rightarrow>
             (let perShard = go_div maxEntries (sint n);
                  perShard = (if perShard < 16 then 16 else perShard)
              in Some \<lparr>ss_shards = replicate (unat n) (newShard perShard), ss_shardMask = n - 1\<rparr>))"

fun fnv_loop :: "uint64 \<Rightarrow> string \<Rightarrow> uint64" where
  "fnv_loop h [] = h"
| "fnv_loop h (c # cs) = fnv_loop ((h XOR of_char c) * 1099511628211) cs"

definition fnvHash :: "string \<Rightarrow> uint64" where
  "fnvHash s = fnv_loop 14695981039346656037 s"

definition compositeKey :: "layer_id \<Rightarrow> string \<Rightarrow> string" where
  "compositeKey l path = digest l @ [CHR 0x00] @ path"

definition shard_index :: "sharded_store \<Rightarrow> string \<Rightarrow> nat" where
  "shard_index ss key = unat (fnvHash key AND ss_shardMask ss)"

definition getShard :: "sharded_store \<Rightarrow> string \<Rightarrow> shard" where
  "getShard ss key = ss_shards ss ! shard_index ss key"

definition ss_Get :: "layer_id \<Rightarrow> string \<Rightarrow> sharded_store \<Rightarrow> file_hash option \<times> sharded_store" where
  "ss_Get l path ss =
     (let key = compositeKey l path;
          (r, sh) = shard_get key (getShard ss key)
      in (r, ss\<lparr>ss_shards := (ss_shards ss)[shard_index ss key := sh]\<rparr>))"

definition ss_Put :: "layer_id \<Rightarrow> string \<Rightarrow> file_hash \<Rightarrow> sharded_store \<Rightarrow> sharded_store" where
  "ss_Put l path hash ss =
     (let key = compositeKey l path
      in ss\<lparr>ss_shards := (ss_shards ss)[shard_index ss key := shard_put key hash (getShard ss key)]\<rparr>)"

definition ss_Invalidate :: "layer_id \<Rightarrow> string \<Rightarrow> sharded_store \<Rightarrow> sharded_store" where
  "ss_Invalidate l path ss =
     (let key = compositeKey l path
      in ss\<lparr>ss_shards := (ss_shards ss)[shard_index ss key := shard_invalidate key (getShard ss key)]\<rparr>)"

text \<open>\<open>orders ! i\<close> is the order in which \<open>range\<close> visits shard \<open>i\<close>'s keys.\<close>

definition ss_InvalidateLayer :: "layer_id \<Rightarrow> string list list \<Rightarrow> sharded_store \<Rightarrow> sharded_store" where
  "ss_InvalidateLayer l orders ss =
     ss\<lparr>ss_shards := map2 (invalidateByPrefix (digest l @ [CHR 0x00])) orders (ss_shards ss)\<rparr>"

definition ss_Stats :: "sharded_store \<Rightarrow> cache_stats" where
  "ss_Stats ss =
     fold (\<lambda>s st. st\<lparr>cs_Hits := cs_Hits st + sh_hits s, cs_Misses := cs_Misses st + sh_misses s,
                    cs_Evictions := cs_Evictions st + sh_evicts s,
                    cs_Size := cs_Size st + shard_size s\<rparr>)
       (ss_shards ss)
       \<lparr>cs_Hits = 0, cs_Misses = 0, cs_Evictions = 0, cs_Size = 0, cs_ShardCount = length (ss_shards ss)\<rparr>"

section \<open>The linked list in the heap\<close>

definition first_of :: "'a list \<Rightarrow> 'a option \<Rightarrow> 'a option" where
  "first_of xs d = (case xs of [] \<Rightarrow> d | x # _ \<Rightarrow> Some x)"

definition last_of :: "'a list \<Rightarrow> 'a option \<Rightarrow> 'a option" where
  "last_of xs d = (if xs = [] then d else Some (last xs))"

lemma first_of_simps [simp]: "first_of [] d = d" "first_of (x # xs) d = Some x"
  by (simp_all add: first_of_def)

lemma last_of_simps [simp]: "last_of [] d = d" "last_of (xs @ [x]) d = Some x"
  "last_of (x # xs) d = last_of xs (Some x)"
  by (simp_all add: last_of_def)

lemma first_of_append [simp]: "first_of (xs @ ys) d = first_of xs (first_of ys d)"
  by (cases xs) simp_all

lemma last_of_append [simp]: "last_of (xs @ ys) d = last_of ys (last_of xs d)"
  by (simp add: last_of_def)

text \<open>
  \<open>seg h p xs n\<close>: the nodes \<open>xs\<close> are linked in this order, the first one's predecessor is
  \<open>p\<close> and the last one's successor is \<open>n\<close>.
\<close>

fun seg :: "(addr \<rightharpoonup> lru_entry) \<Rightarrow> addr option \<Rightarrow> addr list \<Rightarrow> addr option \<Rightarrow> bool" where
  "seg h p [] n \<longleftrightarrow> True"
| "seg h p (a # as) n \<longleftrightarrow>
     (\<exists>e. h a = Some e \<and> e_prev e = p \<and> e_next e = first_of as n) \<and> seg h (Some a) as n"

lemma seg_append:
  "seg h p (xs @ ys) n \<longleftrightarrow> seg h p xs (first_of ys n) \<and> seg h (last_of xs p) ys n"
  by (induction xs arbitrary: p) auto

lemma seg_frame: "(\<And>a. a \<in> set xs \<Longrightarrow> h' a = h a) \<Longrightarrow> seg h' p xs n \<longleftrightarrow> seg h p xs n"
  by (induction xs arbitrary: p) auto

lemma seg_alloc: "seg h p xs n \<Longrightarrow> a \<in> set xs \<Longrightarrow> \<exists>e. h a = Some e"
  by (induction xs arbitrary: p) auto

text \<open>Rewriting the predecessor of the first node, or the successor of the last one.\<close>

lemma seg_relink_first:
  assumes "seg h p xs n" "distinct xs" "xs = [] \<or> h' (hd xs) = map_option (e_prev_update (\<lambda>_. q)) (h (hd xs))"
    and "\<And>a. a \<in> set (tl xs) \<Longrightarrow> h' a = h a"
  shows "seg h' q xs n"
proof (cases xs)
  case (Cons a as)
  then have "seg h' (Some a) as n" using assms seg_frame [of as h' h] by simp
  then show ?thesis using Cons assms by auto
qed simp

lemma seg_relink_last:
  assumes "seg h p xs n" "distinct xs"
    and "xs = [] \<or> h' (last xs) = map_option (e_next_update (\<lambda>_. m)) (h (last xs))"
    and "\<And>a. a \<in> set (butlast xs) \<Longrightarrow> h' a = h a"
  shows "seg h' p xs m"
proof (cases xs rule: rev_cases)
  case (snoc as a)
  then have "seg h' p as (Some a)" using assms seg_frame [of as h' h] by (simp add: seg_append)
  then show ?thesis using snoc assms by (auto simp: seg_append)
qed simp

text \<open>The payload of a node, which no relinking changes.\<close>

definition payload :: "(addr \<rightharpoonup> lru_entry) \<Rightarrow> addr \<Rightarrow> (string \<times> file_hash) option" where
  "payload h a = map_option (\<lambda>e. (e_key e, e_value e)) (h a)"

lemma payload_simps [dll_simps]:
  "payload (sh_heap (set_prev a p s)) = payload (sh_heap s)"
  "payload (sh_heap (set_next a p s)) = payload (sh_heap s)"
  by (auto simp: payload_def set_prev_def set_next_def upd_entry_def fun_eq_iff option.map_comp comp_def)

lemma heap_simps [dll_simps]:
  "sh_heap (set_prev a p s) b = (if b = a then map_option (e_prev_update (\<lambda>_. p)) (sh_heap s a) else sh_heap s b)"
  "sh_heap (set_next a p s) b = (if b = a then map_option (e_next_update (\<lambda>_. p)) (sh_heap s a) else sh_heap s b)"
  "sh_heap (set_value a v s) b = (if b = a then map_option (e_value_update (\<lambda>_. v)) (sh_heap s a) else sh_heap s b)"
  by (simp_all add: set_prev_def set_next_def set_value_def upd_entry_def)

lemma field_simps_set [dll_simps]:
  "sh_entries (set_prev a p s) = sh_entries s" "sh_entries (set_next a p s) = sh_entries s"
  "sh_entries (set_value a v s) = sh_entries s"
  "sh_fresh (set_prev a p s) = sh_fresh s" "sh_fresh (set_next a p s) = sh_fresh s"
  "sh_fresh (set_value a v s) = sh_fresh s"
  "sh_head (set_prev a p s) = sh_head s" "sh_head (set_next a p s) = sh_head s"
  "sh_head (set_value a v s) = sh_head s"
  "sh_tail (set_prev a p s) = sh_tail s" "sh_tail (set_next a p s) = sh_tail s"
  "sh_tail (set_value a v s) = sh_tail s"
  "sh_capacity (set_prev a p s) = sh_capacity s" "sh_capacity (set_next a p s) = sh_capacity s"
  "sh_capacity (set_value a v s) = sh_capacity s"
  by (simp_all add: set_prev_def set_next_def set_value_def upd_entry_def)

definition linked :: "shard \<Rightarrow> addr list \<Rightarrow> bool" where
  "linked s xs \<longleftrightarrow> distinct xs \<and> seg (sh_heap s) None xs None
     \<and> sh_head s = first_of xs None \<and> sh_tail s = last_of xs None"

lemma linked_unlink:
  assumes "linked s (us @ a # vs)"
  shows "get_prev s a = last_of us None" "get_next s a = first_of vs None"
  using assms by (auto simp: linked_def seg_append get_prev_def get_next_def)

text \<open>The three field groups that relinking leaves alone.\<close>

definition same_data :: "shard \<Rightarrow> shard \<Rightarrow> bool" where
  "same_data s s' \<longleftrightarrow> sh_entries s' = sh_entries s \<and> sh_fresh s' = sh_fresh s
     \<and> sh_capacity s' = sh_capacity s \<and> payload (sh_heap s') = payload (sh_heap s)"

lemma same_data_refl [simp]: "same_data s s"
  by (simp add: same_data_def)

lemma same_data_trans: "same_data s s' \<Longrightarrow> same_data s' s'' \<Longrightarrow> same_data s s''"
  by (simp add: same_data_def)

lemma same_data_steps:
  "same_data s (set_prev a p s)" "same_data s (set_next a p s)"
  "same_data s (s\<lparr>sh_head := q\<rparr>)" "same_data s (s\<lparr>sh_tail := q\<rparr>)"
  by (simp_all add: same_data_def dll_simps)

lemma same_data_removeEntry: "same_data s (removeEntry a s)"
proof -
  define s1 where "s1 = (case get_prev s a of Some p \<Rightarrow> set_next p (get_next s a) s
      | None \<Rightarrow> s\<lparr>sh_head := get_next s a\<rparr>)"
  define s2 where "s2 = (case get_next s1 a of Some n \<Rightarrow> set_prev n (get_prev s1 a) s1
      | None \<Rightarrow> s1\<lparr>sh_tail := get_prev s1 a\<rparr>)"
  have "same_data s s1" by (simp add: s1_def same_data_steps split: option.split)
  moreover have "same_data s1 s2" by (simp add: s2_def same_data_steps split: option.split)
  moreover have "removeEntry a s = set_next a None (set_prev a None s2)"
    unfolding removeEntry_def Let_def s1_def s2_def by (rule refl)
  ultimately show ?thesis by (metis same_data_steps(1,2) same_data_trans)
qed

lemma same_data_addToFront: "same_data s (addToFront a s)"
proof -
  define s1 where "s1 = set_next a (sh_head (set_prev a None s)) (set_prev a None s)"
  define s2 where "s2 = (case sh_head s1 of Some h \<Rightarrow> set_prev h (Some a) s1 | None \<Rightarrow> s1)"
  have "same_data s s1" by (simp add: s1_def same_data_def dll_simps)
  moreover have "same_data s1 s2" by (simp add: s2_def same_data_steps split: option.split)
  moreover have "same_data s2 (addToFront a s)"
    unfolding addToFront_def Let_def s1_def [symmetric] s2_def [symmetric]
    by (simp add: same_data_def)
  ultimately show ?thesis by (metis same_data_trans)
qed

lemma same_data_moveToFront: "same_data s (moveToFront a s)"
  unfolding moveToFront_def
  by (simp, intro impI, rule same_data_trans [OF same_data_removeEntry same_data_addToFront])

lemma payload_None_iff: "payload h a = None \<longleftrightarrow> h a = None"
  by (simp add: payload_def)

lemma same_data_heap_None: "same_data s s' \<Longrightarrow> sh_heap s' a = None \<longleftrightarrow> sh_heap s a = None"
  by (simp add: same_data_def payload_None_iff [symmetric])

lemma linked_addToFront:
  assumes l: "linked s xs" and a: "a \<notin> set xs" "sh_heap s a \<noteq> None"
  shows "linked (addToFront a s) (a # xs)"
proof -
  let ?s1 = "set_next a (sh_head s) (set_prev a None s)"
  let ?s2 = "case sh_head s of Some h \<Rightarrow> set_prev h (Some a) ?s1 | None \<Rightarrow> ?s1"
  obtain e where e: "sh_heap s a = Some e" using a by blast
  have hd: "sh_head s = first_of xs None" and tl: "sh_tail s = last_of xs None" and d: "distinct xs"
    and sg: "seg (sh_heap s) None xs None"
    using l by (auto simp: linked_def)
  have h1: "sh_heap ?s1 b = (if b = a then Some (e\<lparr>e_prev := None, e_next := first_of xs None\<rparr>) else sh_heap s b)" for b
    using e hd by (simp add: dll_simps)
  have h2: "sh_heap ?s2 b = (if xs \<noteq> [] \<and> b = hd xs then map_option (e_prev_update (\<lambda>_. Some a)) (sh_heap ?s1 b)
      else sh_heap ?s1 b)" for b
    unfolding hd by (cases xs) (simp_all add: dll_simps)
  have hda: "hd xs \<noteq> a" if "xs \<noteq> []" using a(1) hd_in_set [OF that] by blast
  have "seg (sh_heap ?s2) (Some a) xs None"
  proof (rule seg_relink_first [OF sg d])
    show "xs = [] \<or> sh_heap ?s2 (hd xs) = map_option (e_prev_update (\<lambda>_. Some a)) (sh_heap s (hd xs))"
      using hda unfolding h2 h1 by simp
  next
    fix b assume "b \<in> set (tl xs)"
    then have "b \<noteq> hd xs" "b \<noteq> a" using d a(1) by (cases xs; auto)+
    then show "sh_heap ?s2 b = sh_heap s b" unfolding h2 h1 by simp
  qed
  moreover have "\<exists>e. sh_heap ?s2 a = Some e \<and> e_prev e = None \<and> e_next e = first_of xs None"
    using hda unfolding h2 h1 by auto
  moreover have "sh_heap (addToFront a s) = sh_heap ?s2"
    by (simp add: addToFront_def Let_def dll_simps split: option.splits)
  moreover have "sh_head (addToFront a s) = Some a"
    by (simp add: addToFront_def Let_def)
  moreover have "sh_tail (addToFront a s) = last_of (a # xs) None"
    using tl by (auto simp: addToFront_def Let_def dll_simps last_of_def split: option.splits)
  ultimately show ?thesis using a d by (simp add: linked_def)
qed

lemma linked_removeEntry:
  assumes l: "linked s (us @ a # vs)"
  shows "linked (removeEntry a s) (us @ vs)"
proof -
  let ?s1 = "case get_prev s a of Some p \<Rightarrow> set_next p (get_next s a) s
               | None \<Rightarrow> s\<lparr>sh_head := get_next s a\<rparr>"
  let ?s2 = "case get_next ?s1 a of Some n \<Rightarrow> set_prev n (get_prev ?s1 a) ?s1
               | None \<Rightarrow> ?s1\<lparr>sh_tail := get_prev ?s1 a\<rparr>"
  have d: "distinct us" "distinct vs" "a \<notin> set us" "a \<notin> set vs" "set us \<inter> set vs = {}"
    and su: "seg (sh_heap s) None us (Some a)" and sv: "seg (sh_heap s) (Some a) vs None"
    and hd: "sh_head s = first_of us (Some a)" and tl: "sh_tail s = last_of vs (Some a)"
    using l by (auto simp: linked_def seg_append)
  note pn = linked_unlink [OF l]
  have lus: "last us \<noteq> a" "last us \<notin> set vs" if "us \<noteq> []"
    using d(3,5) last_in_set [OF that] by blast+
  have hvs: "hd vs \<noteq> a" "hd vs \<notin> set us" if "vs \<noteq> []"
    using d(4,5) hd_in_set [OF that] by blast+
  have h1: "sh_heap ?s1 b = (if us \<noteq> [] \<and> b = last us
      then map_option (e_next_update (\<lambda>_. first_of vs None)) (sh_heap s b) else sh_heap s b)" for b
    using pn by (auto simp: dll_simps last_of_def)
  then have pn1: "get_prev ?s1 a = last_of us None" "get_next ?s1 a = first_of vs None"
    using pn lus(1) by (auto simp: get_prev_def get_next_def)
  have h2: "sh_heap ?s2 b = (if vs \<noteq> [] \<and> b = hd vs
      then map_option (e_prev_update (\<lambda>_. last_of us None)) (sh_heap ?s1 b) else sh_heap ?s1 b)" for b
    unfolding pn1 by (cases vs) (auto simp: dll_simps)
  have h3: "sh_heap (removeEntry a s) b = sh_heap ?s2 b" if "b \<noteq> a" for b
    using that by (simp add: removeEntry_def Let_def dll_simps)
  have "seg (sh_heap (removeEntry a s)) None us (first_of vs None)"
  proof (rule seg_relink_last [OF su d(1)])
    have "last us \<noteq> hd vs" if "us \<noteq> []" "vs \<noteq> []" using lus(2) that by auto
    then show "us = [] \<or> sh_heap (removeEntry a s) (last us)
        = map_option (e_next_update (\<lambda>_. first_of vs None)) (sh_heap s (last us))"
      by (cases "us = []") (auto simp: h3 [OF lus(1)] h2 h1)
  next
    fix b assume "b \<in> set (butlast us)"
    then have "b \<in> set us" "b \<noteq> last us"
      using d(1) by (cases us rule: rev_cases; auto)+
    moreover have "b \<noteq> hd vs" if "vs \<noteq> []" using hvs(2) [OF that] \<open>b \<in> set us\<close> by auto
    moreover have "b \<noteq> a" using \<open>b \<in> set us\<close> d(3) by blast
    ultimately show "sh_heap (removeEntry a s) b = sh_heap s b" by (auto simp: h3 h2 h1)
  qed
  moreover have "seg (sh_heap (removeEntry a s)) (last_of us None) vs None"
  proof (rule seg_relink_first [OF sv d(2)])
    have "hd vs \<noteq> last us" if "us \<noteq> []" "vs \<noteq> []"
      using lus(2) [OF that(1)] hd_in_set [OF that(2)] by metis
    then show "vs = [] \<or> sh_heap (removeEntry a s) (hd vs)
        = map_option (e_prev_update (\<lambda>_. last_of us None)) (sh_heap s (hd vs))"
      by (cases "vs = []") (auto simp: h3 [OF hvs(1)] h2 h1)
  next
    fix b assume "b \<in> set (tl vs)"
    then have "b \<in> set vs" "b \<noteq> hd vs" using d(2) by (cases vs; auto)+
    moreover have "b \<noteq> last us" if "us \<noteq> []" using lus(2) [OF that] \<open>b \<in> set vs\<close> by auto
    moreover have "b \<noteq> a" using \<open>b \<in> set vs\<close> d(4) by blast
    ultimately show "sh_heap (removeEntry a s) b = sh_heap s b" by (auto simp: h3 h2 h1)
  qed
  moreover have "sh_head (removeEntry a s) = first_of (us @ vs) None"
    using pn hd by (cases us) (auto simp: removeEntry_def Let_def dll_simps last_of_def split: option.splits)
  moreover have "sh_tail (removeEntry a s) = last_of (us @ vs) None"
  proof -
    have "sh_tail (removeEntry a s) = sh_tail ?s2"
      by (simp add: removeEntry_def Let_def dll_simps)
    also have "\<dots> = (if vs = [] then last_of us None else sh_tail ?s1)"
      unfolding pn1 by (cases vs) (simp_all add: dll_simps)
    also have "sh_tail ?s1 = sh_tail s" by (simp add: dll_simps split: option.splits)
    finally show ?thesis using tl by (simp add: last_of_def)
  qed
  ultimately show ?thesis using d by (simp add: linked_def seg_append)
qed

lemma linked_moveToFront:
  assumes l: "linked s (us @ a # vs)"
  shows "linked (moveToFront a s) (a # us @ vs)"
proof (cases "sh_head s = Some a")
  case True
  then have "us = []" using l by (cases us) (auto simp: linked_def)
  then show ?thesis using True l by (simp add: moveToFront_def)
next
  case False
  have "sh_heap s a \<noteq> None" using l by (auto simp: linked_def seg_append)
  then have "sh_heap (removeEntry a s) a \<noteq> None"
    using same_data_heap_None [OF same_data_removeEntry [of s a], of a] by simp
  moreover have "a \<notin> set (us @ vs)" using l by (simp add: linked_def)
  ultimately show ?thesis
    using linked_addToFront [OF linked_removeEntry [OF l]] False by (simp add: moveToFront_def)
qed

section \<open>The shard as a bounded LRU list\<close>

text \<open>The abstract content of a shard (theory \<open>Lru_Spec\<close>).\<close>

type_synonym lru = "(string \<times> file_hash) list"

text \<open>
  \<open>shard_rep s xs\<close>: the shard's pointers link the nodes \<open>xs\<close> and its map points exactly to
  them; \<open>contents\<close> reads off the abstract list.
\<close>

definition shard_rep :: "shard \<Rightarrow> addr list \<Rightarrow> bool" where
  "shard_rep s xs \<longleftrightarrow> linked s xs
     \<and> (\<forall>k a. sh_entries s k = Some a \<longleftrightarrow> a \<in> set xs \<and> map_option fst (payload (sh_heap s) a) = Some k)
     \<and> (\<forall>a. sh_fresh s \<le> a \<longrightarrow> sh_heap s a = None)"

definition contents :: "shard \<Rightarrow> addr list \<Rightarrow> lru" where
  "contents s xs = map (\<lambda>a. the (payload (sh_heap s) a)) xs"

definition shard_abs :: "shard \<Rightarrow> lru \<Rightarrow> bool" where
  "shard_abs s kvs \<longleftrightarrow> (\<exists>xs. shard_rep s xs \<and> kvs = contents s xs)"

lemma contents_same_data: "same_data s s' \<Longrightarrow> contents s' xs = contents s xs"
  by (simp add: contents_def same_data_def)

lemma shard_rep_relink:
  assumes "shard_rep s xs" "same_data s s'" "linked s' ys" "set ys = set xs"
  shows "shard_rep s' ys"
  using assms same_data_heap_None [OF assms(2)] by (simp add: shard_rep_def same_data_def)

lemma shard_rep_payload:
  assumes "shard_rep s xs" "a \<in> set xs"
  obtains k v where "payload (sh_heap s) a = Some (k, v)" "sh_entries s k = Some a"
proof -
  obtain e where e: "sh_heap s a = Some e"
    using assms seg_alloc unfolding shard_rep_def linked_def by blast
  then have p: "payload (sh_heap s) a = Some (e_key e, e_value e)" by (simp add: payload_def)
  then have "sh_entries s (e_key e) = Some a" using assms by (simp add: shard_rep_def)
  with p show thesis by (rule that)
qed

lemma shard_rep_entry:
  assumes "shard_rep s xs" "sh_entries s k = Some a"
  obtains us vs v where "xs = us @ a # vs" "payload (sh_heap s) a = Some (k, v)"
    "a \<notin> set us" "a \<notin> set vs"
proof -
  have "a \<in> set xs" and k: "map_option fst (payload (sh_heap s) a) = Some k"
    using assms by (auto simp: shard_rep_def)
  then obtain us vs where xs: "xs = us @ a # vs" by (meson split_list)
  obtain v where "payload (sh_heap s) a = Some (k, v)" using k by auto
  moreover have "a \<notin> set us" "a \<notin> set vs" using assms xs by (auto simp: shard_rep_def linked_def)
  ultimately show thesis using xs that by blast
qed

lemma shard_rep_key_inj:
  assumes "shard_rep s xs" "a \<in> set xs" "b \<in> set xs"
    "map_option fst (payload (sh_heap s) a) = map_option fst (payload (sh_heap s) b)"
  shows "a = b"
proof -
  obtain k v where k: "payload (sh_heap s) a = Some (k, v)" "sh_entries s k = Some a"
    using assms(1,2) by (rule shard_rep_payload)
  have "map_option fst (payload (sh_heap s) b) = Some k" using assms(4) k(1) by simp
  then have "sh_entries s k = Some b" using assms(1,3) unfolding shard_rep_def by blast
  with k show ?thesis by simp
qed

lemma fst_contents: "shard_rep s xs \<Longrightarrow> a \<in> set xs \<Longrightarrow>
    map_option fst (payload (sh_heap s) a) = Some (fst (the (payload (sh_heap s) a)))"
  by (erule (1) shard_rep_payload) simp

lemma contents_distinct: "shard_rep s xs \<Longrightarrow> distinct (map fst (contents s xs))"
proof -
  assume r: "shard_rep s xs"
  have "inj_on (\<lambda>a. fst (the (payload (sh_heap s) a))) (set xs)"
    by (rule inj_onI) (metis fst_contents r shard_rep_key_inj)
  moreover have "distinct xs" using r by (simp add: shard_rep_def linked_def)
  ultimately show ?thesis by (simp add: contents_def distinct_map comp_def)
qed

lemma map_of_contents:
  assumes "shard_rep s xs"
  shows "map_of (contents s xs) k =
    (case sh_entries s k of None \<Rightarrow> None | Some a \<Rightarrow> map_option e_value (sh_heap s a))"
proof (cases "sh_entries s k")
  case None
  have "k \<notin> fst ` set (contents s xs)"
  proof
    assume "k \<in> fst ` set (contents s xs)"
    then obtain a where "a \<in> set xs" "k = fst (the (payload (sh_heap s) a))"
      by (auto simp: contents_def)
    then have "sh_entries s k = Some a" using assms fst_contents [OF assms] by (simp add: shard_rep_def)
    with None show False by simp
  qed
  then show ?thesis using None by (simp add: map_of_eq_None_iff)
next
  case (Some a)
  obtain us vs v where xs: "xs = us @ a # vs" "payload (sh_heap s) a = Some (k, v)"
    by (rule shard_rep_entry [OF assms Some])
  then have "(k, v) \<in> set (contents s xs)" by (force simp: contents_def)
  then have "map_of (contents s xs) k = Some v"
    using contents_distinct [OF assms] by (simp add: map_of_is_SomeI)
  moreover obtain e where "sh_heap s a = Some e" "e_value e = v" using xs(2) by (auto simp: payload_def)
  ultimately show ?thesis using Some by simp
qed

lemma lru_drop_contents:
  assumes "shard_rep s (us @ a # vs)" "payload (sh_heap s) a = Some (k, v)"
  shows "lru_drop k (contents s (us @ a # vs)) = contents s (us @ vs)"
proof -
  have "fst (the (payload (sh_heap s) b)) \<noteq> k" if "b \<in> set us \<union> set vs" for b
  proof
    assume "fst (the (payload (sh_heap s) b)) = k"
    then have "b = a"
      using assms that fst_contents [OF assms(1), of b]
      by (intro shard_rep_key_inj [OF assms(1)]) auto
    then show False using that assms(1) by (auto simp: shard_rep_def linked_def)
  qed
  then show ?thesis using assms(2) by (auto simp: lru_drop_def contents_def comp_def filter_id_conv)
qed

lemma shard_size_rep:
  assumes "shard_rep s xs"
  shows "shard_size s = length xs"
proof -
  have "dom (sh_entries s) = set (map fst (contents s xs))"
  proof (rule set_eqI)
    fix k
    have "k \<in> dom (sh_entries s) \<longleftrightarrow> map_of (contents s xs) k \<noteq> None"
    proof (cases "sh_entries s k")
      case (Some a)
      then obtain v where "payload (sh_heap s) a = Some (k, v)" using shard_rep_entry [OF assms] by metis
      then show ?thesis using Some map_of_contents [OF assms, of k] by (auto simp: payload_def)
    qed (simp add: map_of_contents [OF assms] domIff)
    then show "k \<in> dom (sh_entries s) \<longleftrightarrow> k \<in> set (map fst (contents s xs))"
      by (simp add: map_of_eq_None_iff)
  qed
  then show ?thesis
    using distinct_card [OF contents_distinct [OF assms]] by (simp add: shard_size_def contents_def)
qed

subsection \<open>Each operation implements its specification\<close>

lemma shard_abs_newShard: "shard_abs (newShard cap) []"
proof -
  have "shard_rep (newShard cap) []"
    by (simp add: shard_rep_def linked_def newShard_def)
  then show ?thesis unfolding shard_abs_def contents_def by force
qed

lemma shard_rep_moveToFront:
  assumes "shard_rep s (us @ a # vs)"
  shows "shard_rep (moveToFront a s) (a # us @ vs)"
    "contents (moveToFront a s) (a # us @ vs) = contents s (a # us @ vs)"
  using assms linked_moveToFront [of s us a vs]
    shard_rep_relink [OF assms same_data_moveToFront, of a "a # us @ vs"]
  by (auto simp: shard_rep_def contents_same_data [OF same_data_moveToFront])

text \<open>Removing a node and its map entry, the common part of eviction and invalidation.\<close>

lemma shard_rep_unlink:
  assumes r: "shard_rep s (us @ a # vs)" and p: "payload (sh_heap s) a = Some (k, v)"
  defines "s' \<equiv> removeEntry a s"
  shows "shard_rep (s'\<lparr>sh_entries := (sh_entries s')(k := None)\<rparr>) (us @ vs)"
    "contents (s'\<lparr>sh_entries := (sh_entries s')(k := None)\<rparr>) (us @ vs)
      = lru_drop k (contents s (us @ a # vs))"
proof -
  have sd: "same_data s s'" unfolding s'_def by (rule same_data_removeEntry)
  have l: "linked s' (us @ vs)"
    unfolding s'_def using r by (intro linked_removeEntry) (simp add: shard_rep_def)
  have d: "a \<notin> set us" "a \<notin> set vs" using r by (auto simp: shard_rep_def linked_def)
  have ent: "sh_entries s j = Some b \<longleftrightarrow> b \<in> set (us @ a # vs) \<and> map_option fst (payload (sh_heap s) b) = Some j" for j b
    using r unfolding shard_rep_def by blast
  have "((sh_entries s)(k := None)) j = Some b \<longleftrightarrow>
      b \<in> set (us @ vs) \<and> map_option fst (payload (sh_heap s) b) = Some j" for j b
  proof (cases "j = k")
    case True
    then show ?thesis using shard_rep_key_inj [OF r, of b a] d p by auto
  next
    case False
    then show ?thesis using ent [of j b] p by auto
  qed
  then show "shard_rep (s'\<lparr>sh_entries := (sh_entries s')(k := None)\<rparr>) (us @ vs)"
    using l sd r same_data_heap_None [OF sd] by (simp add: shard_rep_def linked_def same_data_def)
  show "contents (s'\<lparr>sh_entries := (sh_entries s')(k := None)\<rparr>) (us @ vs)
      = lru_drop k (contents s (us @ a # vs))"
    using lru_drop_contents [OF r p] contents_same_data [OF sd, of "us @ vs"] by (simp add: contents_def)
qed

lemma shard_rep_evictLRU:
  assumes r: "shard_rep s xs"
  shows "shard_rep (evictLRU s) (butlast xs)" "contents (evictLRU s) (butlast xs) = butlast (contents s xs)"
proof -
  have "shard_rep (evictLRU s) (butlast xs) \<and> contents (evictLRU s) (butlast xs) = butlast (contents s xs)"
  proof (cases xs rule: rev_cases)
    case Nil
    then show ?thesis using r by (simp add: evictLRU_def shard_rep_def linked_def contents_def)
  next
    case (snoc us a)
    have r': "shard_rep s (us @ a # [])" using r snoc by simp
    obtain k v where p: "payload (sh_heap s) a = Some (k, v)"
      by (rule shard_rep_payload [OF r', of a]) simp_all
    have "payload (sh_heap (removeEntry a s)) a = Some (k, v)"
      using p same_data_removeEntry [of s a] by (simp add: same_data_def)
    then obtain e where e: "sh_heap (removeEntry a s) a = Some e" "e_key e = k" by (auto simp: payload_def)
    let ?s = "removeEntry a s\<lparr>sh_entries := (sh_entries (removeEntry a s))(k := None)\<rparr>"
    have "sh_tail s = Some a" using r snoc by (simp add: shard_rep_def linked_def)
    then have ev: "evictLRU s = ?s\<lparr>sh_evicts := sh_evicts ?s + 1\<rparr>"
      using e by (simp add: evictLRU_def Let_def)
    have "lru_drop k (contents s (us @ [a])) = contents s us"
      using lru_drop_contents [OF r' p] by simp
    then show ?thesis
      using shard_rep_unlink [OF r' p] snoc ev by (simp add: shard_rep_def linked_def contents_def)
  qed
  then show "shard_rep (evictLRU s) (butlast xs)" "contents (evictLRU s) (butlast xs) = butlast (contents s xs)"
    by blast+
qed

lemma shard_abs_evictLRU: "shard_abs s kvs \<Longrightarrow> shard_abs (evictLRU s) (butlast kvs)"
  unfolding shard_abs_def using shard_rep_evictLRU by metis

text \<open>Counters are not part of the representation.\<close>

lemma shard_abs_counters [simp]:
  "shard_abs (s\<lparr>sh_hits := h\<rparr>) kvs \<longleftrightarrow> shard_abs s kvs"
  "shard_abs (s\<lparr>sh_misses := h\<rparr>) kvs \<longleftrightarrow> shard_abs s kvs"
  by (simp_all add: shard_abs_def shard_rep_def linked_def contents_def)

text \<open>
  \<open>shard.get\<close> on the linked list returns what the LRU list holds for the key, and moves
  the entry to the front.
\<close>

lemma shard_get_refines:
  assumes "shard_abs s kvs"
  shows "fst (shard_get k s) = fst (lru_get k kvs)" "shard_abs (snd (shard_get k s)) (snd (lru_get k kvs))"
proof -
  obtain xs where r: "shard_rep s xs" and kvs: "kvs = contents s xs"
    using assms by (auto simp: shard_abs_def)
  have "fst (shard_get k s) = fst (lru_get k kvs) \<and> shard_abs (snd (shard_get k s)) (snd (lru_get k kvs))"
  proof (cases "sh_entries s k")
    case None
    then have "map_of kvs k = None" using map_of_contents [OF r] kvs by simp
    then show ?thesis using None assms by (simp add: shard_get_def lru_get_def)
  next
    case (Some a)
    obtain us vs v where xs: "xs = us @ a # vs" and p: "payload (sh_heap s) a = Some (k, v)"
      by (rule shard_rep_entry [OF r Some])
    let ?s = "s\<lparr>sh_hits := sh_hits s + 1\<rparr>"
    have r1: "shard_rep ?s (us @ a # vs)" using r xs by (simp add: shard_rep_def linked_def)
    note mv = shard_rep_moveToFront [OF r1]
    have "payload (sh_heap (moveToFront a ?s)) a = Some (k, v)"
      using p same_data_moveToFront [of ?s a] by (simp add: same_data_def)
    then obtain e where "sh_heap (moveToFront a ?s) a = Some e" "e_value e = v" by (auto simp: payload_def)
    then have get: "shard_get k s = (Some v, moveToFront a ?s)"
      using Some by (simp add: shard_get_def Let_def)
    obtain e' where "sh_heap s a = Some e'" "e_value e' = v" using p by (auto simp: payload_def)
    then have "map_of kvs k = Some v" using map_of_contents [OF r, of k] Some kvs by simp
    moreover have "contents (moveToFront a ?s) (a # us @ vs) = (k, v) # lru_drop k kvs"
      using mv(2) lru_drop_contents [OF r [unfolded xs] p] p xs kvs by (simp add: contents_def)
    then have "shard_abs (moveToFront a ?s) ((k, v) # lru_drop k kvs)"
      unfolding shard_abs_def using mv(1) by metis
    ultimately show ?thesis by (simp add: get lru_get_def)
  qed
  then show "fst (shard_get k s) = fst (lru_get k kvs)" "shard_abs (snd (shard_get k s)) (snd (lru_get k kvs))"
    by blast+
qed

text \<open>
  \<open>shard.put\<close> on the linked list implements the bounded LRU list: an existing entry is
  updated and moved to the front; a new one is pushed in front and, when the shard is over its
  capacity, the least recently used entry is dropped from both the list and the map.
\<close>

lemma shard_put_refines:
  assumes "shard_abs s kvs"
  shows "shard_abs (shard_put k v s) (lru_put (sh_capacity s) k v kvs)"
proof -
  obtain xs where r: "shard_rep s xs" and kvs: "kvs = contents s xs"
    using assms by (auto simp: shard_abs_def)
  have l: "linked s xs" using r by (simp add: shard_rep_def)
  show ?thesis
  proof (cases "sh_entries s k")
    case (Some a)
    obtain us vs v0 where xs: "xs = us @ a # vs" and p: "payload (sh_heap s) a = Some (k, v0)"
        and d: "a \<notin> set us" "a \<notin> set vs"
      by (rule shard_rep_entry [OF r Some])
    let ?s = "set_value a v s"
    have pl: "payload (sh_heap ?s) b = (if b = a then Some (k, v) else payload (sh_heap s) b)" for b
      using p by (auto simp: payload_def dll_simps)
    have "seg (sh_heap ?s) q ys n = seg (sh_heap s) q ys n" for q ys n
      by (induction ys arbitrary: q) (auto simp: dll_simps)
    then have "linked ?s xs" using l by (simp add: linked_def dll_simps)
    moreover have "map_option fst (payload (sh_heap ?s) b) = map_option fst (payload (sh_heap s) b)" for b
      using p by (simp add: pl)
    ultimately have r1: "shard_rep ?s (us @ a # vs)"
      using r xs by (simp add: shard_rep_def dll_simps)
    note mv = shard_rep_moveToFront [OF r1]
    have "contents ?s us = contents s us" "contents ?s vs = contents s vs"
      using d by (auto simp: contents_def pl)
    then have "contents (moveToFront a ?s) (a # us @ vs) = (k, v) # lru_drop k kvs"
      using mv(2) lru_drop_contents [OF r [unfolded xs] p] xs kvs pl [of a]
      by (simp add: contents_def)
    then have "shard_abs (moveToFront a ?s) ((k, v) # lru_drop k kvs)"
      unfolding shard_abs_def using mv(1) by metis
    moreover obtain e where "sh_heap s a = Some e" using p by (auto simp: payload_def)
    then have "map_of kvs k \<noteq> None" using map_of_contents [OF r, of k] Some kvs by simp
    ultimately show ?thesis using Some by (auto simp: shard_put_def lru_put_def)
  next
    case None
    define a where "a = sh_fresh s"
    define s1 where "s1 = s\<lparr>sh_heap := (sh_heap s)(a \<mapsto>
        \<lparr>e_key = k, e_value = v, e_prev = None, e_next = None\<rparr>), sh_fresh := Suc a,
        sh_entries := (sh_entries s)(k \<mapsto> a)\<rparr>"
    have ha: "sh_heap s a = None" using r by (simp add: shard_rep_def a_def)
    then have a: "a \<notin> set xs" using shard_rep_payload [OF r, of a] by (metis payload_None_iff option.distinct(1))
    have pl: "payload (sh_heap s1) b = (if b = a then Some (k, v) else payload (sh_heap s) b)" for b
      by (simp add: payload_def s1_def)
    have "seg (sh_heap s1) None xs None \<longleftrightarrow> seg (sh_heap s) None xs None"
      by (rule seg_frame) (use a in \<open>auto simp: s1_def\<close>)
    then have l1: "linked s1 xs" using l by (simp add: linked_def s1_def)
    have l2: "linked (addToFront a s1) (a # xs)"
      by (rule linked_addToFront [OF l1 a]) (simp add: s1_def)
    have es: "sh_entries s1 = (sh_entries s)(k \<mapsto> a)" by (simp add: s1_def)
    have ents: "sh_entries s1 j = Some b \<longleftrightarrow> b \<in> set (a # xs) \<and> map_option fst (payload (sh_heap s1) b) = Some j" for j b
    proof (cases "b = a")
      case True
      have "sh_entries s j \<noteq> Some a" using r a by (auto simp: shard_rep_def)
      then show ?thesis using True by (auto simp: es pl)
    next
      case False
      have "sh_entries s j = Some b \<longleftrightarrow> b \<in> set xs \<and> map_option fst (payload (sh_heap s) b) = Some j"
        using r by (simp add: shard_rep_def)
      moreover have "j \<noteq> k" if "sh_entries s j = Some b" using that None by auto
      ultimately show ?thesis using False by (auto simp: es pl)
    qed
    have fresh: "sh_fresh s1 \<le> b \<Longrightarrow> sh_heap s1 b = None" for b
      using r by (simp add: s1_def a_def shard_rep_def)
    have sd: "same_data s1 (addToFront a s1)" by (rule same_data_addToFront)
    have r2: "shard_rep (addToFront a s1) (a # xs)"
      unfolding shard_rep_def
      using l2 ents fresh sd same_data_heap_None [OF sd] by (simp add: same_data_def)
    have "contents (addToFront a s1) (a # xs) = contents s1 (a # xs)"
      by (rule contents_same_data [OF sd])
    also have "\<dots> = (k, v) # kvs" using a kvs by (auto simp: contents_def pl)
    finally have "contents (addToFront a s1) (a # xs) = (k, v) # kvs" .
    then have abs: "shard_abs (addToFront a s1) ((k, v) # kvs)"
      unfolding shard_abs_def using r2 by metis
    have put: "shard_put k v s = (let t = addToFront a s1 in
        if int (shard_size t) > sh_capacity t then evictLRU t else t)"
      using None by (simp add: shard_put_def a_def s1_def Let_def)
    have "map_of kvs k = None" using map_of_contents [OF r, of k] None kvs by simp
    moreover have "sh_capacity (addToFront a s1) = sh_capacity s" "shard_size (addToFront a s1) = Suc (length kvs)"
      using sd shard_size_rep [OF r2] kvs by (simp_all add: same_data_def s1_def contents_def)
    ultimately show ?thesis
      using abs shard_abs_evictLRU [OF abs] by (simp add: put lru_put_def Let_def)
  qed
qed

lemma shard_invalidate_refines:
  assumes "shard_abs s kvs"
  shows "shard_abs (shard_invalidate k s) (lru_drop k kvs)"
proof -
  obtain xs where r: "shard_rep s xs" and kvs: "kvs = contents s xs"
    using assms by (auto simp: shard_abs_def)
  show ?thesis
  proof (cases "sh_entries s k")
    case None
    then have "map_of kvs k = None" using map_of_contents [OF r] kvs by simp
    then have "lru_drop k kvs = kvs"
      by (force simp: lru_drop_def filter_id_conv map_of_eq_None_iff)
    then show ?thesis using None assms by (simp add: shard_invalidate_def)
  next
    case (Some a)
    obtain us vs v where xs: "xs = us @ a # vs" and p: "payload (sh_heap s) a = Some (k, v)"
      by (rule shard_rep_entry [OF r Some])
    show ?thesis
      using shard_rep_unlink [OF r [unfolded xs] p] Some kvs xs
      unfolding shard_abs_def shard_invalidate_def by (auto simp: Let_def)
  qed
qed

lemma delete_keys_eq: "delete_keys ks s = fold shard_invalidate ks s"
  by (induction ks s rule: delete_keys.induct) (simp_all add: shard_invalidate_def)

lemma fold_invalidate_refines:
  "shard_abs s kvs \<Longrightarrow> shard_abs (fold shard_invalidate ks s) (fold lru_drop ks kvs)"
  by (induction ks arbitrary: s kvs) (simp_all add: shard_invalidate_refines)

text \<open>Whatever order the map is visited in, exactly the entries with the prefix go.\<close>

lemma invalidateByPrefix_refines:
  assumes "shard_abs s kvs" "set order = dom (sh_entries s)"
  shows "shard_abs (invalidateByPrefix pre order s) (filter (\<lambda>p. \<not> has_prefix pre (fst p)) kvs)"
proof -
  obtain xs where r: "shard_rep s xs" and kvs: "kvs = contents s xs"
    using assms by (auto simp: shard_abs_def)
  have "fst p \<in> set order" if "p \<in> set kvs" for p
  proof -
    obtain k v where p: "p = (k, v)" by (cases p)
    have "map_of kvs k = Some v"
      using that p contents_distinct [OF r] kvs by (simp add: map_of_is_SomeI)
    then show ?thesis
      using map_of_contents [OF r, of k] kvs p assms(2) by (auto split: option.splits)
  qed
  then have "fold lru_drop (filter (has_prefix pre) order) kvs = filter (\<lambda>p. \<not> has_prefix pre (fst p)) kvs"
    unfolding fold_lru_drop by (intro filter_cong) auto
  then show ?thesis
    using fold_invalidate_refines [OF assms(1), of "filter (has_prefix pre) order"]
    by (simp add: invalidateByPrefix_def delete_keys_eq)
qed

subsection \<open>Runs of a shard\<close>

datatype shard_op = SGet string | SPut string file_hash | SInvalidate string

fun shard_run :: "shard_op list \<Rightarrow> shard \<Rightarrow> file_hash option list" where
  "shard_run [] s = []"
| "shard_run (SGet k # ops) s = (let (r, s') = shard_get k s in r # shard_run ops s')"
| "shard_run (SPut k v # ops) s = shard_run ops (shard_put k v s)"
| "shard_run (SInvalidate k # ops) s = shard_run ops (shard_invalidate k s)"

fun lru_run :: "int \<Rightarrow> shard_op list \<Rightarrow> lru \<Rightarrow> file_hash option list" where
  "lru_run cap [] kvs = []"
| "lru_run cap (SGet k # ops) kvs = (let (r, kvs') = lru_get k kvs in r # lru_run cap ops kvs')"
| "lru_run cap (SPut k v # ops) kvs = lru_run cap ops (lru_put cap k v kvs)"
| "lru_run cap (SInvalidate k # ops) kvs = lru_run cap ops (lru_drop k kvs)"

lemma capacity_moveToFront [simp]: "sh_capacity (moveToFront a s) = sh_capacity s"
  using same_data_moveToFront [of s a] by (simp add: same_data_def)

lemma capacity_removeEntry [simp]: "sh_capacity (removeEntry a s) = sh_capacity s"
  using same_data_removeEntry [of s a] by (simp add: same_data_def)

lemma capacity_addToFront [simp]: "sh_capacity (addToFront a s) = sh_capacity s"
  using same_data_addToFront [of s a] by (simp add: same_data_def)

lemma capacity_evictLRU [simp]: "sh_capacity (evictLRU s) = sh_capacity s"
  by (simp add: evictLRU_def Let_def split: option.split)

lemma capacity_ops [simp]:
  "sh_capacity (snd (shard_get k s)) = sh_capacity s" "sh_capacity (shard_put k v s) = sh_capacity s"
  "sh_capacity (shard_invalidate k s) = sh_capacity s"
  by (simp_all add: shard_get_def shard_put_def shard_invalidate_def Let_def dll_simps split: option.split)

lemma shard_run_lru_run: "shard_abs s kvs \<Longrightarrow> shard_run ops s = lru_run (sh_capacity s) ops kvs"
proof (induction ops arbitrary: s kvs)
  case Nil
  then show ?case by simp
next
  case (Cons op ops)
  show ?case
  proof (cases op)
    case (SGet k)
    then show ?thesis
      using Cons.IH [OF shard_get_refines(2) [OF Cons.prems], of k] shard_get_refines(1) [OF Cons.prems, of k]
      by (simp add: case_prod_unfold Let_def)
  next
    case (SPut k v)
    then show ?thesis using Cons.IH [OF shard_put_refines [OF Cons.prems, of k v]] by simp
  next
    case (SInvalidate k)
    then show ?thesis using Cons.IH [OF shard_invalidate_refines [OF Cons.prems, of k]] by simp
  qed
qed

text \<open>
  C11: functional refinement of the pointer-based cache. For every sequence of \<open>get\<close>, \<open>put\<close> and
  \<open>invalidate\<close> calls on a new shard, the doubly linked list with its map answers exactly like a
  list of key-value pairs in recency order that drops its last pair when it exceeds the capacity.
\<close>

theorem shard_refines_lru: "shard_run ops (newShard cap) = lru_run cap ops []"
  using shard_run_lru_run [OF shard_abs_newShard, of ops cap] by (simp add: newShard_def)

section \<open>The sharded store\<close>

definition shard_lookup :: "shard \<Rightarrow> string \<Rightarrow> file_hash option" where
  "shard_lookup s k = (case sh_entries s k of None \<Rightarrow> None | Some a \<Rightarrow> map_option e_value (sh_heap s a))"

lemma shard_lookup_abs: "shard_abs s kvs \<Longrightarrow> shard_lookup s k = map_of kvs k"
  unfolding shard_abs_def shard_lookup_def using map_of_contents by metis

definition shard_ok :: "shard \<Rightarrow> bool" where
  "shard_ok s \<longleftrightarrow> 0 < sh_capacity s \<and> (\<exists>kvs. shard_abs s kvs \<and> int (length kvs) \<le> sh_capacity s)"

lemma shard_ok_get:
  assumes "shard_ok s"
  shows "shard_ok (snd (shard_get k s))" "fst (shard_get k s) = shard_lookup s k"
    "shard_lookup (snd (shard_get k s)) = shard_lookup s"
proof -
  obtain kvs where a: "shard_abs s kvs" "int (length kvs) \<le> sh_capacity s"
    using assms by (auto simp: shard_ok_def)
  note g = shard_get_refines [OF a(1), of k]
  obtain xs where "shard_rep s xs" "kvs = contents s xs" using a(1) by (auto simp: shard_abs_def)
  then have "lru_ok (sh_capacity s) kvs" using a(2) contents_distinct by (auto simp: lru_ok_def)
  from lru_ok_get [OF this, of k] have len: "int (length (snd (lru_get k kvs))) \<le> sh_capacity s" by (simp add: lru_ok_def)
  then show "shard_ok (snd (shard_get k s))"
    unfolding shard_ok_def using assms a(2) g(2) by (fastforce simp: shard_ok_def)
  show "fst (shard_get k s) = shard_lookup s k"
    using g(1) shard_lookup_abs [OF a(1), of k] by (simp add: lru_get_def split: option.splits)
  show "shard_lookup (snd (shard_get k s)) = shard_lookup s"
    using shard_lookup_abs [OF g(2)] shard_lookup_abs [OF a(1)]
    by (auto simp: fun_eq_iff lru_get_def map_of_lru_drop split: option.splits)
qed

lemma shard_ok_put:
  assumes "shard_ok s"
  shows "shard_ok (shard_put k v s)" "shard_lookup (shard_put k v s) k = Some v"
    "j \<noteq> k \<Longrightarrow> shard_lookup (shard_put k v s) j = shard_lookup s j \<or> shard_lookup (shard_put k v s) j = None"
proof -
  obtain kvs where a: "shard_abs s kvs" "int (length kvs) \<le> sh_capacity s" "0 < sh_capacity s"
    using assms by (auto simp: shard_ok_def)
  obtain xs where xs: "shard_rep s xs" "kvs = contents s xs" using a(1) by (auto simp: shard_abs_def)
  have d: "distinct (map fst kvs)" using contents_distinct xs by blast
  note p = shard_put_refines [OF a(1), of k v]
  let ?l = "lru_put (sh_capacity s) k v kvs"
  have ok: "lru_ok (sh_capacity s) kvs" using a(2) d by (simp add: lru_ok_def)
  have *: "int (length ?l) \<le> sh_capacity s \<and> map_of ?l k = Some v \<and>
      (j \<noteq> k \<longrightarrow> map_of ?l j = map_of kvs j \<or> map_of ?l j = None)" for j
    using lru_ok_put [OF ok a(3), of k v] lru_put_lookup(1) [OF ok a(3), of k v] lru_put_lookup(2) [OF ok a(3), where k = k and v = v] by (auto simp: lru_ok_def)
  then show "shard_ok (shard_put k v s)" unfolding shard_ok_def using p a(3) by auto
  show "shard_lookup (shard_put k v s) k = Some v" using * shard_lookup_abs [OF p] by simp
  show "j \<noteq> k \<Longrightarrow> shard_lookup (shard_put k v s) j = shard_lookup s j \<or> shard_lookup (shard_put k v s) j = None"
    using * [of j] shard_lookup_abs [OF p] shard_lookup_abs [OF a(1)] by simp
qed

lemma shard_ok_invalidate:
  assumes "shard_ok s"
  shows "shard_ok (shard_invalidate k s)" "shard_lookup (shard_invalidate k s) = (shard_lookup s)(k := None)"
proof -
  obtain kvs where a: "shard_abs s kvs" "int (length kvs) \<le> sh_capacity s"
    using assms by (auto simp: shard_ok_def)
  note i = shard_invalidate_refines [OF a(1), of k]
  have "length (lru_drop k kvs) \<le> length kvs" by (simp add: lru_drop_def)
  then show "shard_ok (shard_invalidate k s)"
    unfolding shard_ok_def using assms a(2) i by (fastforce simp: shard_ok_def)
  show "shard_lookup (shard_invalidate k s) = (shard_lookup s)(k := None)"
    using shard_lookup_abs [OF i] shard_lookup_abs [OF a(1)] by (auto simp: fun_eq_iff map_of_lru_drop)
qed

subsection \<open>Routing keys to shards\<close>

text \<open>The methods of the store, on composite keys.\<close>

definition ss_get_key :: "string \<Rightarrow> sharded_store \<Rightarrow> file_hash option \<times> sharded_store" where
  "ss_get_key key ss = (fst (shard_get key (getShard ss key)),
     ss\<lparr>ss_shards := (ss_shards ss)[shard_index ss key := snd (shard_get key (getShard ss key))]\<rparr>)"

definition ss_put_key :: "string \<Rightarrow> file_hash \<Rightarrow> sharded_store \<Rightarrow> sharded_store" where
  "ss_put_key key hash ss =
     ss\<lparr>ss_shards := (ss_shards ss)[shard_index ss key := shard_put key hash (getShard ss key)]\<rparr>"

definition ss_invalidate_key :: "string \<Rightarrow> sharded_store \<Rightarrow> sharded_store" where
  "ss_invalidate_key key ss =
     ss\<lparr>ss_shards := (ss_shards ss)[shard_index ss key := shard_invalidate key (getShard ss key)]\<rparr>"

definition ss_lookup :: "sharded_store \<Rightarrow> string \<Rightarrow> file_hash option" where
  "ss_lookup ss key = shard_lookup (getShard ss key) key"

lemma ss_ops_keys:
  "ss_Get l p = ss_get_key (compositeKey l p)" "ss_Put l p h = ss_put_key (compositeKey l p) h"
  "ss_Invalidate l p = ss_invalidate_key (compositeKey l p)"
  by (simp_all add: ss_Get_def ss_get_key_def ss_Put_def ss_put_key_def ss_Invalidate_def
      ss_invalidate_key_def Let_def case_prod_unfold fun_eq_iff)

definition ss_inv :: "sharded_store \<Rightarrow> bool" where
  "ss_inv ss \<longleftrightarrow> unat (ss_shardMask ss) < length (ss_shards ss) \<and> list_all shard_ok (ss_shards ss)"

lemma shard_index_less: "ss_inv ss \<Longrightarrow> shard_index ss key < length (ss_shards ss)"
proof -
  assume i: "ss_inv ss"
  have "fnvHash key AND ss_shardMask ss \<le> ss_shardMask ss" by (rule word_and_le1)
  then have "shard_index ss key \<le> unat (ss_shardMask ss)"
    unfolding shard_index_def by (rule word_le_nat_alt [THEN iffD1])
  with i show ?thesis by (simp add: ss_inv_def)
qed

lemma ss_inv_shard: "ss_inv ss \<Longrightarrow> shard_ok (getShard ss key)"
  using shard_index_less [of ss key] by (simp add: ss_inv_def getShard_def list_all_length)

lemma ss_inv_update:
  "ss_inv ss \<Longrightarrow> shard_ok sh \<Longrightarrow> ss_inv (ss\<lparr>ss_shards := (ss_shards ss)[shard_index ss key := sh]\<rparr>)"
  by (auto simp: ss_inv_def list_all_iff dest!: set_update_subset_insert [THEN subsetD])

lemma getShard_update:
  "ss_inv ss \<Longrightarrow> getShard (ss\<lparr>ss_shards := (ss_shards ss)[shard_index ss key := sh]\<rparr>) j =
     (if shard_index ss j = shard_index ss key then sh else getShard ss j)"
  using shard_index_less [of ss key] by (simp add: getShard_def shard_index_def nth_list_update)

interpretation fs_cache: storing_cache ss_inv ss_lookup ss_get_key ss_put_key ss_invalidate_key
proof (unfold_locales, goal_cases)
  case (1 s k)
  then show ?case using shard_ok_get(2) [OF ss_inv_shard] by (simp add: ss_get_key_def ss_lookup_def)
next
  case (2 s k)
  show ?case
  proof
    fix j show "ss_lookup (snd (ss_get_key k s)) j = ss_lookup s j"
      using 2 shard_ok_get(3) [OF ss_inv_shard [OF 2], of k k]
      by (simp add: ss_get_key_def ss_lookup_def getShard_update) (simp add: getShard_def)
  qed
next
  case (3 s k v)
  then show ?case using shard_ok_put(2) [OF ss_inv_shard [OF 3]]
    by (simp add: ss_put_key_def ss_lookup_def getShard_update)
next
  case (4 s k' k v)
  then show ?case using shard_ok_put(3) [OF ss_inv_shard [OF 4(1)] 4(2)]
    by (simp add: ss_put_key_def ss_lookup_def getShard_update) (simp add: getShard_def)
next
  case (5 s k)
  then show ?case using shard_ok_get(1) [OF ss_inv_shard] by (simp add: ss_get_key_def ss_inv_update)
next
  case (6 s k v)
  then show ?case using shard_ok_put(1) [OF ss_inv_shard] by (simp add: ss_put_key_def ss_inv_update)
next
  case (7 s k v)
  then show ?case using shard_ok_put(2) [OF ss_inv_shard [OF 7]]
    by (simp add: ss_put_key_def ss_lookup_def getShard_update)
next
  case (8 s k)
  show ?case
  proof
    fix j show "ss_lookup (ss_invalidate_key k s) j = ((ss_lookup s)(k := None)) j"
      using 8 shard_ok_invalidate(2) [OF ss_inv_shard [OF 8], of k k]
      by (auto simp: ss_invalidate_key_def ss_lookup_def getShard_update) (simp add: getShard_def)
  qed
next
  case (9 s k)
  then show ?case using shard_ok_invalidate(1) [OF ss_inv_shard] by (simp add: ss_invalidate_key_def ss_inv_update)
qed

subsection \<open>Properties of the store\<close>

lemma compositeKey_inj:
  assumes "CHR 0x00 \<notin> set (digest l)" "CHR 0x00 \<notin> set (digest l')"
  shows "compositeKey l p = compositeKey l' p' \<longleftrightarrow> l = l' \<and> p = p'"
proof
  assume "compositeKey l p = compositeKey l' p'"
  then have "takeWhile (\<lambda>c. c \<noteq> CHR 0x00) (digest l @ CHR 0x00 # p)
      = takeWhile (\<lambda>c. c \<noteq> CHR 0x00) (digest l' @ CHR 0x00 # p')"
    by (simp add: compositeKey_def)
  then have "digest l = digest l'" using assms by (simp add: takeWhile_sentinel)
  with \<open>compositeKey l p = compositeKey l' p'\<close> show "l = l' \<and> p = p'"
    by (simp add: compositeKey_def)
qed simp

lemma has_prefix_compositeKey:
  assumes "CHR 0x00 \<notin> set (digest l)" "CHR 0x00 \<notin> set (digest l')"
  shows "has_prefix (digest l @ [CHR 0x00]) (compositeKey l' p) \<longleftrightarrow> l' = l"
proof
  assume "has_prefix (digest l @ [CHR 0x00]) (compositeKey l' p)"
  then obtain q where "compositeKey l' p = compositeKey l q"
    by (metis (no_types, lifting) append_take_drop_id append_assoc compositeKey_def has_prefix_def)
  then show "l' = l" using compositeKey_inj [OF assms(2,1)] by simp
qed (simp add: has_prefix_def compositeKey_def)

text \<open>
  What was stored is found. After \<open>Put\<close> of a hash for a layer and a path, \<open>Get\<close> of the same
  pair returns it; \<open>Get\<close> of another pair returns what it returned before, or misses (the entry
  was evicted), and never a foreign value. Layer digests contain no NUL byte.
\<close>

theorem ss_Get_Put:
  assumes "ss_inv ss" "CHR 0x00 \<notin> set (digest l)" "CHR 0x00 \<notin> set (digest l')"
  shows "fst (ss_Get l' p' (ss_Put l p h ss)) = Some h \<and> l' = l \<and> p' = p
     \<or> (l', p') \<noteq> (l, p) \<and> fst (ss_Get l' p' (ss_Put l p h ss)) \<in> {fst (ss_Get l' p' ss), None}"
proof (cases "l' = l \<and> p' = p")
  case True
  then show ?thesis using fs_cache.put_then_get [OF assms(1)] by (simp add: ss_ops_keys)
next
  case False
  then have "compositeKey l' p' \<noteq> compositeKey l p" using compositeKey_inj [OF assms(3,2)] by simp
  from fs_cache.put_other [OF assms(1) this, of h] show ?thesis
    using False assms(1) fs_cache.invar_put [OF assms(1)] by (simp add: ss_ops_keys fs_cache.get_result)
qed

lemma shard_ok_invalidateByPrefix:
  assumes "shard_ok s" "set order = dom (sh_entries s)"
  shows "shard_ok (invalidateByPrefix pre order s)"
    "shard_lookup (invalidateByPrefix pre order s) k = (if has_prefix pre k then None else shard_lookup s k)"
proof -
  obtain kvs where a: "shard_abs s kvs" "int (length kvs) \<le> sh_capacity s" "0 < sh_capacity s"
    using assms by (auto simp: shard_ok_def)
  let ?l = "filter (\<lambda>p. \<not> has_prefix pre (fst p)) kvs"
  note i = invalidateByPrefix_refines [OF a(1) assms(2), of pre]
  have "sh_capacity (fold shard_invalidate ks s) = sh_capacity s" for ks
    by (induction ks arbitrary: s) simp_all
  then have "sh_capacity (invalidateByPrefix pre order s) = sh_capacity s"
    by (simp add: invalidateByPrefix_def delete_keys_eq)
  moreover have "int (length ?l) \<le> sh_capacity s"
    using a(2) length_filter_le [of "\<lambda>p. \<not> has_prefix pre (fst p)" kvs] by linarith
  ultimately show "shard_ok (invalidateByPrefix pre order s)"
    unfolding shard_ok_def using a(3) i by auto
  have "map_of ?l k = (if has_prefix pre k then None else map_of kvs k)"
    by (induction kvs) auto
  then show "shard_lookup (invalidateByPrefix pre order s) k = (if has_prefix pre k then None else shard_lookup s k)"
    using shard_lookup_abs [OF i] shard_lookup_abs [OF a(1)] by simp
qed

definition key_orders :: "sharded_store \<Rightarrow> string list list \<Rightarrow> bool" where
  "key_orders ss orders \<longleftrightarrow> list_all2 (\<lambda>order s. set order = dom (sh_entries s)) orders (ss_shards ss)"

text \<open>
  \<open>InvalidateLayer\<close> removes exactly the entries of the layer, in every shard and whatever the
  order in which the maps are visited, and keeps the store's invariant.
\<close>

theorem ss_InvalidateLayer_exact:
  assumes "ss_inv ss" "key_orders ss orders"
    and "CHR 0x00 \<notin> set (digest l)" "CHR 0x00 \<notin> set (digest l')"
  shows "ss_inv (ss_InvalidateLayer l orders ss)
    \<and> fst (ss_Get l' p (ss_InvalidateLayer l orders ss)) = (if l' = l then None else fst (ss_Get l' p ss))"
proof -
  let ?pre = "digest l @ [CHR 0x00]" and ?key = "compositeKey l' p"
  let ?ss = "ss_InvalidateLayer l orders ss"
  have len: "length orders = length (ss_shards ss)"
    using assms(2) by (simp add: key_orders_def list_all2_lengthD)
  have ord: "set (orders ! i) = dom (sh_entries (ss_shards ss ! i))" if "i < length (ss_shards ss)" for i
    using assms(2) that len by (simp add: key_orders_def list_all2_conv_all_nth)
  have nth: "ss_shards ?ss ! i = invalidateByPrefix ?pre (orders ! i) (ss_shards ss ! i)"
    if "i < length (ss_shards ss)" for i using that len by (simp add: ss_InvalidateLayer_def)
  have ok: "shard_ok (ss_shards ss ! i)" if "i < length (ss_shards ss)" for i
    using assms(1) that by (simp add: ss_inv_def list_all_length)
  have inv: "ss_inv ?ss"
    using assms(1) len nth shard_ok_invalidateByPrefix(1) [OF ok ord]
    by (simp add: ss_inv_def list_all_length ss_InvalidateLayer_def)
  have idx: "shard_index ?ss ?key = shard_index ss ?key"
    by (simp add: shard_index_def ss_InvalidateLayer_def)
  have "ss_lookup ?ss ?key = (if has_prefix ?pre ?key then None else ss_lookup ss ?key)"
    using shard_ok_invalidateByPrefix(2) [OF ok ord] nth shard_index_less [OF assms(1), of ?key]
    by (simp add: ss_lookup_def getShard_def idx)
  then show ?thesis
    using inv has_prefix_compositeKey [OF assms(3,4)] assms(1) by (simp add: ss_ops_keys fs_cache.get_result)
qed

lemma NewShardedStore_built:
  assumes "shardCount < 2 ^ 63"
  shows "\<exists>ss j. NewShardedStore shardCount maxEntries = Some ss \<and> ss_inv ss
     \<and> length (ss_shards ss) = 2 ^ j \<and> ss_shardMask ss = 2 ^ j - 1
     \<and> (if shardCount \<le> 0 then 16 else shardCount) \<le> 2 ^ j
     \<and> (j = 0 \<or> 2 ^ (j - 1) < (if shardCount \<le> 0 then 16 else shardCount))
     \<and> (\<forall>s. s \<in> set (ss_shards ss) \<longrightarrow> 16 \<le> sh_capacity s \<and> shard_size s = 0)"
proof -
  define c where "c = (if shardCount \<le> 0 then 16 else shardCount)"
  have c: "0 < c" "c < 2 ^ 63" using assms by (auto simp: c_def)
  have uc: "unat (word_of_int c :: uint64) = nat c"
    using c by (simp add: unat_eq_nat_uint uint_word_of_int_eq take_bit_int_eq_self)
  obtain j where j: "j \<le> 63" "double_up 1 (word_of_int c) = Some (2 ^ j)" "nat c \<le> 2 ^ j"
      "j = 0 \<or> 2 ^ (j - 1) < nat c"
    using double_up_pow [of "word_of_int c" 0] c uc by (auto simp: nat_le_iff)
  have u: "unat ((2 :: uint64) ^ j) = 2 ^ j" using j(1) by (intro unat_pow2) simp
  define e where "e = (if maxEntries \<le> 0 then 65536 else maxEntries)"
  define p where "p = (if go_div e (sint ((2 :: uint64) ^ j)) < 16 then 16 else go_div e (sint ((2 :: uint64) ^ j)))"
  let ?ss = "\<lparr>ss_shards = replicate (2 ^ j) (newShard p), ss_shardMask = 2 ^ j - 1\<rparr>"
  have new: "NewShardedStore shardCount maxEntries = Some ?ss"
    using j(2) u by (simp add: NewShardedStore_def Let_def c_def e_def p_def)
  have p: "16 \<le> p" by (simp add: p_def)
  have "shard_ok (newShard p)"
    using p shard_abs_newShard [of p] by (auto simp: shard_ok_def newShard_def)
  moreover have "unat ((2 :: uint64) ^ j - 1) = 2 ^ j - 1"
    using u by (subst unat_minus_one) (auto simp: unat_eq_0 [symmetric])
  ultimately have "ss_inv ?ss" by (simp add: ss_inv_def list_all_iff)
  moreover have "sh_capacity (newShard p) = p" "shard_size (newShard p) = 0"
    by (simp_all add: newShard_def shard_size_def)
  moreover have "c \<le> 2 ^ j" using j(3) by (simp add: nat_le_iff)
  moreover have "j = 0 \<or> 2 ^ (j - 1) < c" using j(4) c(1) by (simp add: zless_nat_eq_int_zless)
  ultimately show ?thesis
    using new p unfolding c_def [symmetric] by (intro exI [of _ ?ss] exI [of _ j]) auto
qed

text \<open>
  The constructor always returns. Whatever shard count and size it is asked for, the doubling
  loop ends, the number of shards is the least power of two that reaches the requested count, the
  mask is that number minus one, every shard holds at least 16 entries, the store is empty and its
  invariant (every hash indexes a shard inside the array) holds.
\<close>

theorem NewShardedStore_ok:
  assumes "shardCount < 2 ^ 63"
  shows "\<exists>ss j. NewShardedStore shardCount maxEntries = Some ss \<and> ss_inv ss
     \<and> length (ss_shards ss) = 2 ^ j \<and> ss_shardMask ss = 2 ^ j - 1
     \<and> (if shardCount \<le> 0 then 16 else shardCount) \<le> 2 ^ j
     \<and> (j = 0 \<or> 2 ^ (j - 1) < (if shardCount \<le> 0 then 16 else shardCount))
     \<and> (\<forall>s. s \<in> set (ss_shards ss) \<longrightarrow> 16 \<le> sh_capacity s \<and> shard_size s = 0)"
  using assms by (rule NewShardedStore_built)

section \<open>Examples\<close>

definition example_hash :: file_hash where
  "example_hash = \<lparr>fh_Path = ''/x'', fh_Hash = [1], fh_Algorithm = ''blake3'', fh_LayerID = LayerID ''a'',
     fh_Size = 4\<rparr>"

definition example_sharded :: sharded_store where
  "example_sharded = \<lparr>ss_shards = [newShard 16], ss_shardMask = 0\<rparr>"

lemma example_sharded_inv: "ss_inv example_sharded"
  using shard_abs_newShard [of 16]
  by (auto simp: example_sharded_def ss_inv_def shard_ok_def newShard_def)

lemma example_sharded_put_inv: "ss_inv (ss_Put (LayerID ''a'') ''/x'' example_hash example_sharded)"
  using fs_cache.invar_put [OF example_sharded_inv] by (simp add: ss_ops_keys)

lemma example_sharded_put_keys:
  "key_orders (ss_Put (LayerID ''a'') ''/x'' example_hash example_sharded)
     [[compositeKey (LayerID ''a'') ''/x'']]"
  by (simp add: key_orders_def ss_Put_def Let_def getShard_def shard_index_def example_sharded_def
      shard_put_def newShard_def addToFront_def set_prev_def set_next_def upd_entry_def shard_size_def)

theorem ss_Get_Put_witness:
  "fst (ss_Get (LayerID ''a'') ''/x'' (ss_Put (LayerID ''a'') ''/x'' example_hash example_sharded))
     = Some example_hash"
  using ss_Get_Put [OF example_sharded_inv, of "LayerID ''a''" "LayerID ''a''" "''/x''" "''/x''"] by auto

theorem ss_InvalidateLayer_exact_witness:
  "fst (ss_Get (LayerID ''a'') ''/x'' (ss_InvalidateLayer (LayerID ''a'') [[compositeKey (LayerID ''a'') ''/x'']]
     (ss_Put (LayerID ''a'') ''/x'' example_hash example_sharded))) = None"
  using ss_InvalidateLayer_exact [OF example_sharded_put_inv example_sharded_put_keys,
      of "LayerID ''a''" "LayerID ''a''" "''/x''"] by simp

theorem NewShardedStore_ok_witness:
  "\<exists>ss. NewShardedStore 5 100 = Some ss \<and> ss_inv ss \<and> (5 :: int) \<le> int (length (ss_shards ss))"
proof -
  obtain ss j where "NewShardedStore 5 100 = Some ss" "ss_inv ss" "length (ss_shards ss) = 2 ^ j"
      "(if (5 :: int) \<le> 0 then 16 else 5) \<le> (2 :: int) ^ j"
    using NewShardedStore_ok [of 5 100] by force
  moreover from this have "int (length (ss_shards ss)) = 2 ^ j" by simp
  ultimately show ?thesis by (intro exI [of _ ss] conjI) simp_all
qed

end
