(* ===== verification/Fs_Bloom.thy ===== *)
theory Fs_Bloom
  imports Complex_Main Fs_Core
begin

text \<open>
  The Bloom filter of fshash (\<open>pkg/fshash/access/filter.go\<close>), with its 64-bit words: sizing,
  dual FNV hashing, \<open>Test\<close>, \<open>Add\<close>, \<open>TestAndAdd\<close>, \<open>Reset\<close>, the population count. The
  floating-point sizing formulas (\<open>math.Log\<close>) are the parameters \<open>m_est\<close> and \<open>k_est\<close> of the
  constructor: the number of bits and the number of probes before rounding and clamping.
\<close>

section \<open>Definitions\<close>

record bloom =
  bf_bits :: "uint64 list"
  bf_k :: uint64
  bf_m :: uint64
  bf_n :: uint64
  bf_mask :: uint64

definition NewBloomFilter ::
  "(uint64 \<Rightarrow> real \<Rightarrow> uint64) \<Rightarrow> (uint64 \<Rightarrow> uint64 \<Rightarrow> uint64) \<Rightarrow> uint64 \<Rightarrow> real \<Rightarrow> bloom option" where
  "NewBloomFilter m_est k_est expectedItems fpRate =
     (let expectedItems = (if expectedItems = 0 then 1024 else expectedItems);
          fpRate = (if fpRate \<le> 0 \<or> fpRate \<ge> 1 then 1 / 1000 else fpRate);
          m = m_est expectedItems fpRate
      in case double_up 1 m of
           None \<Rightarrow> None
         | Some p \<Rightarrow>
             (let m = p;
                  k = k_est m expectedItems;
                  k = (if k < 1 then 1 else k);
                  words = m div 64;
                  words = (if words = 0 then 1 else words)
              in Some \<lparr>bf_bits = replicate (unat words) 0, bf_k = k, bf_m = m, bf_n = 0,
                       bf_mask = m - 1\<rparr>))"

fun dual_loop :: "uint64 \<Rightarrow> uint64 \<Rightarrow> string \<Rightarrow> uint64 \<times> uint64" where
  "dual_loop h1 h2 [] = (h1, h2)"
| "dual_loop h1 h2 (c # cs) =
     dual_loop ((h1 XOR of_char c) * 1099511628211) ((h2 XOR of_char c) * 1099511628211) cs"

definition dualHash :: "layer_id \<Rightarrow> string \<Rightarrow> uint64 \<times> uint64" where
  "dualHash l path = dual_loop 14695981039346656037 2166136261 (digest l @ [CHR 0x00] @ path)"

text \<open>The probe positions \<open>(h1 + i*h2) & mask\<close> for \<open>i = 0, ..., k-1\<close>.\<close>

definition bf_probes :: "bloom \<Rightarrow> layer_id \<Rightarrow> string \<Rightarrow> uint64 list" where
  "bf_probes bf l path =
     (let (h1, h2) = dualHash l path
      in map (\<lambda>i. (h1 + of_nat i * h2) AND bf_mask bf) [0..<unat (bf_k bf)])"

text \<open>The single-bit mask \<open>1 << (pos%64)\<close>.\<close>

definition bit_of :: "uint64 \<Rightarrow> uint64" where
  "bit_of pos = push_bit (unat (pos mod 64)) 1"

fun test_bits :: "uint64 list \<Rightarrow> uint64 list \<Rightarrow> bool" where
  "test_bits bits [] = True"
| "test_bits bits (pos # ps) =
     (if bits ! unat (pos div 64) AND bit_of pos = 0 then False
      else test_bits bits ps)"

fun add_bits :: "uint64 list \<Rightarrow> uint64 list \<Rightarrow> uint64 list" where
  "add_bits bits [] = bits"
| "add_bits bits (pos # ps) =
     add_bits (bits[unat (pos div 64) := bits ! unat (pos div 64) OR bit_of pos]) ps"

fun test_and_add_bits :: "bool \<Rightarrow> uint64 list \<Rightarrow> uint64 list \<Rightarrow> bool \<times> uint64 list" where
  "test_and_add_bits present bits [] = (present, bits)"
| "test_and_add_bits present bits (pos # ps) =
     (let word = unat (pos div 64);
          present = (if bits ! word AND bit_of pos = 0 then False else present)
      in test_and_add_bits present (bits[word := bits ! word OR bit_of pos]) ps)"

definition bf_Test :: "bloom \<Rightarrow> layer_id \<Rightarrow> string \<Rightarrow> bool" where
  "bf_Test bf l path = test_bits (bf_bits bf) (bf_probes bf l path)"

definition bf_Add :: "layer_id \<Rightarrow> string \<Rightarrow> bloom \<Rightarrow> bloom" where
  "bf_Add l path bf = bf\<lparr>bf_bits := add_bits (bf_bits bf) (bf_probes bf l path), bf_n := bf_n bf + 1\<rparr>"

definition bf_TestAndAdd :: "layer_id \<Rightarrow> string \<Rightarrow> bloom \<Rightarrow> bool \<times> bloom" where
  "bf_TestAndAdd l path bf =
     (let (present, bits) = test_and_add_bits True (bf_bits bf) (bf_probes bf l path)
      in (present, bf\<lparr>bf_bits := bits, bf_n := bf_n bf + 1\<rparr>))"

definition bf_Reset :: "bloom \<Rightarrow> bloom" where
  "bf_Reset bf = bf\<lparr>bf_bits := map (\<lambda>_. 0) (bf_bits bf), bf_n := 0\<rparr>"

definition bf_Count :: "bloom \<Rightarrow> uint64" where
  "bf_Count bf = bf_n bf"

text \<open>The loop \<open>for x != 0 { x &= x - 1; count++ }\<close>.\<close>

function popcount_loop :: "uint64 \<Rightarrow> nat \<Rightarrow> nat" where
  "popcount_loop x c = (if x \<noteq> 0 then popcount_loop (x AND (x - 1)) (Suc c) else c)"
  by pat_completeness auto
termination
proof (relation "measure (\<lambda>(x, c). unat x)", goal_cases)
  case (2 x c)
  have "x AND (x - 1) \<le> x - 1" by (rule word_and_le1)
  moreover have "unat (x - 1) < unat x" using 2 by (simp add: unat_minus_one unat_gt_0)
  ultimately show ?case by (simp add: word_le_nat_alt)
qed simp

declare popcount_loop.simps [simp del]

definition popcount :: "uint64 \<Rightarrow> nat" where
  "popcount x = popcount_loop x 0"

text \<open>\<open>FillRatio\<close>, with the exact quotient in place of the rounded \<open>float64\<close> one.\<close>

definition bf_FillRatio :: "bloom \<Rightarrow> real" where
  "bf_FillRatio bf = real (sum_list (map popcount (bf_bits bf))) / real (unat (bf_m bf))"

section \<open>The filter as a set of bits\<close>

definition bitset :: "uint64 list \<Rightarrow> nat set" where
  "bitset bits = {q. q div 64 < length bits \<and> bit (bits ! (q div 64)) (q mod 64)}"

lemma probe_word: "unat (pos div 64 :: uint64) = unat pos div 64" "unat (pos mod 64 :: uint64) = unat pos mod 64"
  by (simp_all add: unat_div unat_mod)

lemma bit_bit_of: "bit (bit_of pos) n \<longleftrightarrow> n = unat pos mod 64"
proof -
  have "unat pos mod 64 < 64" by simp
  then show ?thesis unfolding bit_of_def probe_word by (auto simp only: bit_push_bit_iff bit_1_iff) auto
qed

lemma and_mask_bit: "w AND bit_of pos = 0 \<longleftrightarrow> \<not> bit w (unat pos mod 64)"
proof
  assume "w AND bit_of pos = 0"
  then have "\<not> bit (w AND bit_of pos) (unat pos mod 64)" by (simp only: bit_0_eq bot_apply) simp
  then show "\<not> bit w (unat pos mod 64)" by (simp only: bit_and_iff bit_bit_of) simp
next
  assume n: "\<not> bit w (unat pos mod 64)"
  show "w AND bit_of pos = 0"
    by (rule bit_eqI) (use n in \<open>auto simp: bit_and_iff bit_bit_of\<close>)
qed

lemma test_bits_iff:
  "(\<And>p. p \<in> set ps \<Longrightarrow> unat p div 64 < length bits) \<Longrightarrow>
     test_bits bits ps \<longleftrightarrow> unat ` set ps \<subseteq> bitset bits"
  by (induction ps) (auto simp: probe_word and_mask_bit bitset_def)

lemma length_add_bits [simp]: "length (add_bits bits ps) = length bits"
  by (induction ps arbitrary: bits) simp_all

lemma bitset_set_bit:
  assumes "unat pos div 64 < length bits"
  shows "bitset (bits[unat (pos div 64) := bits ! unat (pos div 64) OR bit_of pos])
    = insert (unat pos) (bitset bits)"
proof (rule set_eqI)
  fix q
  have "q = unat pos \<longleftrightarrow> q div 64 = unat pos div 64 \<and> q mod 64 = unat pos mod 64"
    by (metis div_mult_mod_eq)
  then show "q \<in> bitset (bits[unat (pos div 64) := bits ! unat (pos div 64) OR bit_of pos])
      \<longleftrightarrow> q \<in> insert (unat pos) (bitset bits)"
    using assms
    by (auto simp: bitset_def probe_word nth_list_update bit_or_iff bit_bit_of)
qed

lemma bitset_add_bits:
  "(\<And>p. p \<in> set ps \<Longrightarrow> unat p div 64 < length bits) \<Longrightarrow>
     bitset (add_bits bits ps) = bitset bits \<union> unat ` set ps"
  by (induction ps arbitrary: bits) (auto simp: bitset_set_bit)

lemma test_and_add_bits_eq:
  "(\<And>p. p \<in> set ps \<Longrightarrow> unat p div 64 < length bits) \<Longrightarrow>
     test_and_add_bits present bits ps = (present \<and> test_bits bits ps, add_bits bits ps)"
proof (induction ps arbitrary: bits present)
  case Nil
  then show ?case by simp
next
  case (Cons pos ps)
  let ?bits = "bits[unat (pos div 64) := bits ! unat (pos div 64) OR bit_of pos]"
  have pos: "unat pos div 64 < length bits" using Cons.prems by simp
  have ps: "\<And>p. p \<in> set ps \<Longrightarrow> unat p div 64 < length ?bits" using Cons.prems by simp
  have t: "bits ! unat (pos div 64) AND bit_of pos = 0 \<longleftrightarrow> unat pos \<notin> bitset bits"
    using pos by (simp add: probe_word and_mask_bit bitset_def)
  have "test_and_add_bits present bits (pos # ps)
      = (present \<and> unat pos \<in> bitset bits \<and> test_bits ?bits ps, add_bits ?bits ps)"
    using Cons.IH [OF ps] t by (simp add: Let_def)
  moreover have "test_bits ?bits ps \<longleftrightarrow> unat ` set ps \<subseteq> insert (unat pos) (bitset bits)"
    using test_bits_iff [OF ps] bitset_set_bit [OF pos] by simp
  moreover have "test_bits bits (pos # ps) \<longleftrightarrow> unat pos \<in> bitset bits \<and> unat ` set ps \<subseteq> bitset bits"
    using test_bits_iff [OF Cons.prems, of "pos # ps"] by simp
  ultimately show ?case by auto
qed

section \<open>The invariant\<close>

definition bloom_ok :: "bloom \<Rightarrow> bool" where
  "bloom_ok bf \<longleftrightarrow> unat (bf_mask bf) div 64 < length (bf_bits bf) \<and> 0 < bf_k bf
     \<and> unat (bf_m bf) = Suc (unat (bf_mask bf)) \<and> bitset (bf_bits bf) \<subseteq> {..unat (bf_mask bf)}"

lemma probe_le_mask: "p \<in> set (bf_probes bf l path) \<Longrightarrow> unat p \<le> unat (bf_mask bf)"
  by (auto simp: bf_probes_def case_prod_unfold Let_def word_and_le1 simp flip: word_le_nat_alt)

lemma probe_in_range:
  assumes "bloom_ok bf" "p \<in> set (bf_probes bf l path)"
  shows "unat p div 64 < length (bf_bits bf)"
proof -
  have "unat p div 64 \<le> unat (bf_mask bf) div 64"
    using probe_le_mask [OF assms(2)] by (rule div_le_mono)
  with assms(1) show ?thesis by (simp add: bloom_ok_def)
qed

lemma probes_cong: "bf_mask bf' = bf_mask bf \<Longrightarrow> bf_k bf' = bf_k bf \<Longrightarrow> bf_probes bf' l p = bf_probes bf l p"
  by (simp add: bf_probes_def)

lemma probes_nonempty: "bloom_ok bf \<Longrightarrow> bf_probes bf l p \<noteq> []"
  by (simp add: bloom_ok_def bf_probes_def case_prod_unfold Let_def word_gt_0 unat_eq_0)

lemma bf_Test_iff: "bloom_ok bf \<Longrightarrow> bf_Test bf l p \<longleftrightarrow> unat ` set (bf_probes bf l p) \<subseteq> bitset (bf_bits bf)"
  using test_bits_iff [OF probe_in_range] by (simp add: bf_Test_def)

lemma bf_Add_bits:
  "bloom_ok bf \<Longrightarrow> bitset (bf_bits (bf_Add l p bf)) = bitset (bf_bits bf) \<union> unat ` set (bf_probes bf l p)"
  using bitset_add_bits [OF probe_in_range] by (simp add: bf_Add_def)

lemma bloom_ok_Add: "bloom_ok bf \<Longrightarrow> bloom_ok (bf_Add l p bf)"
  using bf_Add_bits [of bf l p] probe_le_mask [of _ bf l p]
  by (auto simp: bloom_ok_def) (auto simp: bf_Add_def)

lemma bitset_zero: "bitset (map (\<lambda>_. 0) bits) = {}" "bitset (replicate n 0) = {}"
  by (auto simp: bitset_def)

lemma bloom_ok_Reset: "bloom_ok bf \<Longrightarrow> bloom_ok (bf_Reset bf)"
  by (simp add: bloom_ok_def bf_Reset_def bitset_zero)

lemma bf_Test_empty:
  assumes "bloom_ok bf" "bitset (bf_bits bf) = {}"
  shows "\<not> bf_Test bf l p"
  using probes_nonempty [OF assms(1), of l p] assms by (simp add: bf_Test_iff)

lemma probes_Add [simp]: "bf_probes (bf_Add l p bf) l' p' = bf_probes bf l' p'"
  by (rule probes_cong) (simp_all add: bf_Add_def)

lemma bf_Test_Add:
  "bloom_ok bf \<Longrightarrow> bf_Test bf l p \<or> (l, p) = (l', p') \<Longrightarrow> bf_Test (bf_Add l' p' bf) l p"
  by (auto simp: bf_Test_iff bloom_ok_Add bf_Add_bits)

lemma bf_TestAndAdd_pair:
  "bloom_ok bf \<Longrightarrow> bf_TestAndAdd l p bf = (bf_Test bf l p, bf_Add l p bf)"
  using test_and_add_bits_eq [where present = True, OF probe_in_range]
  by (simp add: bf_TestAndAdd_def bf_Test_def bf_Add_def)

text \<open>
  The single-pass \<open>TestAndAdd\<close> is \<open>Test\<close> followed by \<open>Add\<close>: setting the earlier probe bits
  during the pass never makes a later probe look present, even when two probes hit the same bit.
\<close>

theorem bf_TestAndAdd_eq:
  assumes "bloom_ok bf"
  shows "bf_TestAndAdd l p bf = (bf_Test bf l p, bf_Add l p bf)"
  using assms by (rule bf_TestAndAdd_pair)

definition example_bloom :: bloom where
  "example_bloom = \<lparr>bf_bits = [0, 0], bf_k = 2, bf_m = 128, bf_n = 0, bf_mask = 127\<rparr>"

lemma example_bloom_ok: "bloom_ok example_bloom"
  by (auto simp: bloom_ok_def example_bloom_def bitset_def less_Suc_eq nth_Cons')

theorem bf_TestAndAdd_eq_witness:
  "bf_TestAndAdd (LayerID ''sha256:a'') ''/etc/passwd'' example_bloom
   = (bf_Test example_bloom (LayerID ''sha256:a'') ''/etc/passwd'',
      bf_Add (LayerID ''sha256:a'') ''/etc/passwd'' example_bloom)"
  by (rule bf_TestAndAdd_eq [OF example_bloom_ok])

section \<open>No false negatives\<close>

text \<open>
  A run of the filter: the three operations the callers use, in any order. \<open>bf_pending\<close> is the
  reference behaviour, the exact set of pairs added since the last reset.
\<close>

datatype bloom_op = OpAdd layer_id string | OpTestAndAdd layer_id string | OpReset

fun bf_step :: "bloom_op \<Rightarrow> bloom \<Rightarrow> bloom" where
  "bf_step (OpAdd l p) bf = bf_Add l p bf"
| "bf_step (OpTestAndAdd l p) bf = snd (bf_TestAndAdd l p bf)"
| "bf_step OpReset bf = bf_Reset bf"

fun bf_pending_step :: "bloom_op \<Rightarrow> (layer_id \<times> string) set \<Rightarrow> (layer_id \<times> string) set" where
  "bf_pending_step (OpAdd l p) A = insert (l, p) A"
| "bf_pending_step (OpTestAndAdd l p) A = insert (l, p) A"
| "bf_pending_step OpReset A = {}"

lemma bf_TestAndAdd_ok: "bloom_ok bf \<Longrightarrow> snd (bf_TestAndAdd l p bf) = bf_Add l p bf"
  by (simp add: bf_TestAndAdd_pair)

lemma bf_step_ok: "bloom_ok bf \<Longrightarrow> bloom_ok (bf_step op bf)"
  by (cases op) (simp_all add: bf_TestAndAdd_ok bloom_ok_Add bloom_ok_Reset)

definition bf_covers :: "(layer_id \<times> string) set \<Rightarrow> bloom \<Rightarrow> bool" where
  "bf_covers A bf \<longleftrightarrow> bloom_ok bf \<and> (\<forall>(l, p) \<in> A. bf_Test bf l p)"

lemma bf_step_covers:
  assumes "bf_covers A bf"
  shows "bf_covers (bf_pending_step op A) (bf_step op bf)"
proof -
  have ok: "bloom_ok bf" using assms by (simp add: bf_covers_def)
  have "bf_covers (insert (l, p) A) (bf_Add l p bf)" for l p
    using assms by (auto simp: bf_covers_def bloom_ok_Add intro!: bf_Test_Add)
  then show ?thesis
    by (cases op) (simp_all add: bf_TestAndAdd_ok [OF ok] bf_covers_def bloom_ok_Reset [OF ok])
qed

lemma bf_run_covers: "bf_covers A bf \<Longrightarrow> bf_covers (fold bf_pending_step ops A) (fold bf_step ops bf)"
  by (induction ops arbitrary: A bf) (simp_all add: bf_step_covers)

text \<open>
  The filter has no false negatives. Whatever sequence of \<open>Add\<close>, \<open>TestAndAdd\<close> and
  \<open>Reset\<close> has run on a filter that satisfies the constructor's invariant, every pair added since
  the last \<open>Reset\<close> tests positive, the invariant still holds, and right after a \<open>Reset\<close> nothing
  tests positive.
\<close>

theorem bloom_no_false_negatives:
  assumes "bloom_ok bf"
  shows "(\<forall>(l, p) \<in> fold bf_pending_step ops {}. bf_Test (fold bf_step ops bf) l p)
    \<and> bloom_ok (fold bf_step ops bf)
    \<and> \<not> bf_Test (bf_Reset (fold bf_step ops bf)) l' p'"
proof -
  have "bf_covers (fold bf_pending_step ops {}) (fold bf_step ops bf)"
    using assms by (intro bf_run_covers) (simp add: bf_covers_def)
  moreover from this have "\<not> bf_Test (bf_Reset (fold bf_step ops bf)) l' p'"
    by (intro bf_Test_empty bloom_ok_Reset) (simp_all add: bf_covers_def bf_Reset_def bitset_zero)
  ultimately show ?thesis unfolding bf_covers_def by blast
qed

theorem bloom_no_false_negatives_witness:
  "bf_Test (bf_Add (LayerID ''b'') ''/y'' (snd (bf_TestAndAdd (LayerID ''a'') ''/x'' example_bloom)))
     (LayerID ''a'') ''/x''"
  using bloom_no_false_negatives [OF example_bloom_ok,
      of "[OpTestAndAdd (LayerID ''a'') ''/x'', OpAdd (LayerID ''b'') ''/y'']"] by simp

section \<open>Sizing\<close>

definition pow_or_zero :: "uint64 \<Rightarrow> bool" where
  "pow_or_zero n \<longleftrightarrow> n = 0 \<or> (\<exists>i \<le> 63. n = 2 ^ i)"

lemma pow_or_zero_double: "pow_or_zero n \<Longrightarrow> pow_or_zero (push_bit 1 n)"
  unfolding pow_or_zero_def
proof (elim disjE exE conjE)
  fix i :: nat assume i: "i \<le> 63" "n = 2 ^ i"
  then have n: "push_bit 1 n = 2 ^ Suc i" by (simp add: push_bit_eq_mult)
  show "push_bit 1 n = 0 \<or> (\<exists>i\<le>63. push_bit 1 n = 2 ^ i)"
  proof (cases "i = 63")
    case True
    then show ?thesis unfolding n by simp
  next
    case False
    with i show ?thesis unfolding n by (intro disjI2 exI [of _ "Suc i"]) simp
  qed
qed simp

lemma double_up_result:
  assumes "double_up n m = Some r"
  shows "pow_or_zero n \<longrightarrow> m \<le> r \<and> pow_or_zero r"
proof (rule double_up.raw_induct [OF _ assms])
  fix rec and n m r :: uint64
  assume IH: "\<And>n m r. rec n m = Some r \<Longrightarrow> pow_or_zero n \<longrightarrow> m \<le> r \<and> pow_or_zero r"
    and eq: "(if n < m then rec (push_bit 1 n) m else Some n) = Some r"
  show "pow_or_zero n \<longrightarrow> m \<le> r \<and> pow_or_zero r"
  proof (cases "n < m")
    case True
    with eq have "rec (push_bit 1 n) m = Some r" by (simp only: if_True)
    from IH [OF this] show ?thesis using pow_or_zero_double [of n] by blast
  qed (use eq in auto)
qed

lemma double_up_diverges:
  assumes "2 ^ 63 < unat m"
  shows "double_up 1 m = None"
proof (rule ccontr)
  assume "double_up 1 m \<noteq> None"
  then obtain r where r: "double_up 1 m = Some r" by blast
  have "pow_or_zero (1 :: uint64)" unfolding pow_or_zero_def by (intro disjI2 exI [of _ 0]) simp
  with double_up_result [OF r] have le: "m \<le> r" and "pow_or_zero r" by auto
  then have "unat r \<le> 2 ^ 63"
    unfolding pow_or_zero_def
  proof (elim disjE exE conjE)
    fix i :: nat assume "i \<le> 63" "r = 2 ^ i"
    then show "unat r \<le> 2 ^ 63" using power_increasing [of i 63 "2 :: nat"] by (simp add: unat_pow2 del: power_numeral)
  qed simp
  with le assms show False by (simp add: word_le_nat_alt)
qed

text \<open>The arguments the formulas see, after the defaults of the constructor.\<close>

definition bf_items :: "uint64 \<Rightarrow> uint64" where
  "bf_items expectedItems = (if expectedItems = 0 then 1024 else expectedItems)"

definition bf_rate :: "real \<Rightarrow> real" where
  "bf_rate fpRate = (if fpRate \<le> 0 \<or> fpRate \<ge> 1 then 1 / 1000 else fpRate)"

lemma NewBloomFilter_diverges:
  assumes "2 ^ 63 < unat (m_est (bf_items e) (bf_rate r))"
  shows "NewBloomFilter m_est k_est e r = None"
  unfolding NewBloomFilter_def bf_items_def [symmetric] bf_rate_def [symmetric] Let_def
    double_up_diverges [OF assms] option.case
  by (rule refl)

lemma pow2_words:
  assumes "j < 64"
  shows "unat ((2 :: uint64) ^ j div 64) = 2 ^ j div 64" "unat ((2 :: uint64) ^ j - 1) = 2 ^ j - 1"
proof -
  show "unat ((2 :: uint64) ^ j div 64) = 2 ^ j div 64" using assms by (simp add: unat_div unat_pow2)
  have "unat ((2 :: uint64) ^ j) \<noteq> 0" using unat_pow2 [OF assms] by simp
  then have "(2 :: uint64) ^ j \<noteq> 0" by (simp only: unat_eq_0 simp_thms)
  then show "unat ((2 :: uint64) ^ j - 1) = 2 ^ j - 1" using unat_pow2 [OF assms] by (simp add: unat_minus_one)
qed

lemma pow2_div64:
  assumes "(2 :: nat) ^ j div 64 \<noteq> 0"
  shows "(2 ^ j - 1) div 64 < (2 :: nat) ^ j div 64"
proof -
  have "6 \<le> j"
  proof (rule ccontr)
    assume "\<not> 6 \<le> j"
    then have "(2 :: nat) ^ j \<le> 2 ^ 5" by (intro power_increasing) simp_all
    with assms show False by simp
  qed
  then obtain i where "j = 6 + i" using le_Suc_ex by blast
  then have "(2 :: nat) ^ j = 64 * 2 ^ i" by (simp add: power_add)
  moreover have "(64 * x - 1) div 64 < x" if "0 < x" for x :: nat using that by linarith
  ultimately show ?thesis by simp
qed

lemma NewBloomFilter_built:
  assumes "unat (m_est (bf_items e) (bf_rate r)) \<le> 2 ^ 63"
  shows "\<exists>bf. NewBloomFilter m_est k_est e r = Some bf \<and> bloom_ok bf \<and> (\<exists>j \<le> 63. bf_m bf = 2 ^ j)
      \<and> m_est (bf_items e) (bf_rate r) \<le> bf_m bf \<and> bf_Count bf = 0 \<and> \<not> bf_Test bf l p"
proof -
  let ?m = "m_est (bf_items e) (bf_rate r)"
  obtain j where j: "j \<le> 63" "double_up 1 ?m = Some (2 ^ j)" "unat ?m \<le> 2 ^ j"
    using double_up_pow [of ?m 0] assms by auto
  let ?k = "if k_est (2 ^ j) (bf_items e) < 1 then 1 else k_est (2 ^ j) (bf_items e)"
  let ?w = "if (2 :: uint64) ^ j div 64 = 0 then 1 else (2 :: uint64) ^ j div 64"
  let ?bf = "\<lparr>bf_bits = replicate (unat ?w) 0, bf_k = ?k, bf_m = 2 ^ j, bf_n = 0, bf_mask = 2 ^ j - 1\<rparr>"
  have new: "NewBloomFilter m_est k_est e r = Some ?bf"
    unfolding NewBloomFilter_def bf_items_def [symmetric] bf_rate_def [symmetric] Let_def j(2) option.case by (rule refl)
  have lt: "j < 64" using j(1) by simp
  have "(2 ^ j - 1) div 64 < unat ?w"
  proof (cases "(2 :: nat) ^ j div 64 = 0")
    case True
    then have "((2 :: nat) ^ j - 1) div 64 = 0" by simp
    moreover have "(2 :: uint64) ^ j div 64 = 0" using True pow2_words(1) [OF lt] by (simp only: unat_eq_0)
    ultimately show ?thesis by simp
  next
    case False
    then have "(2 :: uint64) ^ j div 64 \<noteq> 0" using pow2_words(1) [OF lt] by (metis unat_0)
    then have "unat ?w = 2 ^ j div 64" using pow2_words(1) [OF lt] by simp
    then show ?thesis using pow2_div64 [OF False] by simp
  qed
  moreover have "0 < ?k" by (simp add: word_less_1 word_gt_0)
  ultimately have ok: "bloom_ok ?bf"
    unfolding bloom_ok_def bloom.simps length_replicate bitset_zero pow2_words(2) [OF lt] unat_pow2 [OF lt]
    by simp
  moreover have "\<not> bf_Test ?bf l p" using ok by (rule bf_Test_empty) (simp add: bitset_zero)
  moreover have "?m \<le> 2 ^ j" using j(3) unat_pow2 [OF lt] by (simp add: word_le_nat_alt)
  ultimately show "\<exists>bf. NewBloomFilter m_est k_est e r = Some bf \<and> bloom_ok bf \<and> (\<exists>j \<le> 63. bf_m bf = 2 ^ j)
      \<and> m_est (bf_items e) (bf_rate r) \<le> bf_m bf \<and> bf_Count bf = 0 \<and> \<not> bf_Test bf l p"
    using new j(1) by (intro exI [of _ ?bf] conjI) (auto simp: bf_Count_def)
qed

text \<open>
  The sizing loop of the constructor ends exactly when the estimate is at most \<open>2^63\<close> bits
  (above, the doubling overflows to 0 and loops for ever); the filter it then builds satisfies the
  invariant the operations rely on (the mask stays inside the bit array, at least one probe), its
  size is a power of two that reaches the estimate, and it is empty.
\<close>

theorem NewBloomFilter_iff:
  "(\<exists>bf. NewBloomFilter m_est k_est e r = Some bf \<and> bloom_ok bf \<and> (\<exists>j \<le> 63. bf_m bf = 2 ^ j)
      \<and> m_est (bf_items e) (bf_rate r) \<le> bf_m bf \<and> bf_Count bf = 0 \<and> \<not> bf_Test bf l p)
   = (unat (m_est (bf_items e) (bf_rate r)) \<le> 2 ^ 63)"
proof
  assume "\<exists>bf. NewBloomFilter m_est k_est e r = Some bf \<and> bloom_ok bf \<and> (\<exists>j \<le> 63. bf_m bf = 2 ^ j)
      \<and> m_est (bf_items e) (bf_rate r) \<le> bf_m bf \<and> bf_Count bf = 0 \<and> \<not> bf_Test bf l p"
  then have "NewBloomFilter m_est k_est e r \<noteq> None" by blast
  then show "unat (m_est (bf_items e) (bf_rate r)) \<le> 2 ^ 63"
    using NewBloomFilter_diverges [of m_est e r k_est] by (meson not_le)
qed (rule NewBloomFilter_built)

text \<open>A filter sized to a single bit answers yes for every pair once anything was added.\<close>

lemma NewBloomFilter_one_bit:
  assumes "NewBloomFilter m_est k_est e r = Some bf" "unat (m_est (bf_items e) (bf_rate r)) \<le> 1"
  shows "bf_mask bf = 0"
proof -
  have "\<not> 1 < m_est (bf_items e) (bf_rate r)" using assms(2) by (simp add: word_less_nat_alt)
  then have "double_up 1 (m_est (bf_items e) (bf_rate r)) = Some 1"
    by (subst double_up.simps) (simp only: if_False)
  with assms(1) show ?thesis
    unfolding NewBloomFilter_def bf_items_def [symmetric] bf_rate_def [symmetric] by (auto simp: Let_def)
qed

lemma one_bit_Test:
  assumes "bloom_ok bf" "bf_mask bf = 0"
  shows "bf_Test (bf_Add l p bf) l' p'"
proof -
  have zero: "q = 0" if "q \<in> set (bf_probes bf l'' p'')" for q l'' p''
    using probe_le_mask [OF that] assms(2) by (simp add: unat_eq_0)
  obtain q where "q \<in> set (bf_probes bf l p)"
    using probes_nonempty [OF assms(1), of l p] by (cases "bf_probes bf l p") auto
  then have q: "(0 :: uint64) \<in> set (bf_probes bf l p)" using zero by metis
  have "set (bf_probes bf l' p') \<subseteq> set (bf_probes bf l p)" using zero [of _ l' p'] q by (metis subsetI)
  then have "unat ` set (bf_probes bf l' p') \<subseteq> unat ` set (bf_probes bf l p)" by (rule image_mono)
  then show ?thesis
    unfolding bf_Test_iff [OF bloom_ok_Add [OF assms(1)]] bf_Add_bits [OF assms(1)] probes_Add by (rule le_supI2)
qed

section \<open>The population count\<close>

lemma bit_nat_double:
  "bit (2 * k :: nat) 0 \<longleftrightarrow> False" "bit (2 * k :: nat) (Suc n) \<longleftrightarrow> bit k n"
  "bit (Suc (2 * k)) 0 \<longleftrightarrow> True" "bit (Suc (2 * k)) (Suc n) \<longleftrightarrow> bit k n"
  by (simp_all add: bit_0 bit_Suc)

lemma nat_clear_lowest:
  "0 < m \<Longrightarrow> \<exists>n. bit m n \<and> (\<forall>i. bit (m AND (m - 1)) i \<longleftrightarrow> bit m i \<and> i \<noteq> n)" for m :: nat
proof (induction m rule: less_induct)
  case (less m)
  show ?case
  proof (cases "odd m")
    case True
    then obtain k where k: "m = Suc (2 * k)" by (metis oddE Suc_eq_plus1)
    then have m1: "m - 1 = 2 * k" by simp
    have "bit (m AND (m - 1)) i \<longleftrightarrow> bit m i \<and> i \<noteq> 0" for i
      unfolding m1 k by (cases i) (simp_all only: bit_and_iff bit_nat_double diff_Suc_1, simp_all add: bit_nat_double)
    moreover have "bit m 0" using True by (simp add: bit_0)
    ultimately show ?thesis by blast
  next
    case False
    with less.prems obtain k where k: "m = 2 * Suc k" by (metis evenE gr0_conv_Suc mult_0_right neq0_conv)
    obtain n where n: "bit (Suc k) n" "\<And>i. bit (Suc k AND k) i \<longleftrightarrow> bit (Suc k) i \<and> i \<noteq> n"
      using less.IH [of "Suc k"] k by auto
    have m1: "m - 1 = Suc (2 * k)" using k by simp
    have "bit (m AND (m - 1)) i \<longleftrightarrow> bit m i \<and> i \<noteq> Suc n" for i
      unfolding m1 k using n(2)
      by (cases i) (simp_all only: bit_and_iff bit_nat_double diff_Suc_1, simp_all add: bit_nat_double)
    moreover have "bit m (Suc n)" unfolding k using n(1) by (simp only: bit_nat_double)
    ultimately show ?thesis by blast
  qed
qed

lemma word_clear_lowest:
  fixes x :: uint64
  assumes "x \<noteq> 0"
  shows "\<exists>n. bit x n \<and> {i. bit (x AND (x - 1)) i} = {i. bit x i} - {n}"
proof -
  have "0 < unat x" using assms by (simp add: unat_gt_0)
  moreover have "unat (x AND (x - 1)) = unat x AND (unat x - 1)"
    using assms by (simp add: unsigned_and_eq unat_minus_one)
  moreover have "bit (unat w) i \<longleftrightarrow> bit w i" for w :: uint64 and i
    by (auto simp: bit_unsigned_iff dest: bit_imp_possible_bit)
  ultimately show ?thesis using nat_clear_lowest [of "unat x"] by (simp add: set_eq_iff) metis
qed

lemma finite_bits: "finite {i. bit (x :: uint64) i}"
  by (rule finite_subset [of _ "{..<64}"]) (auto dest: bit_imp_le_length)

lemma popcount_loop_eq: "popcount_loop x c = c + card {i. bit x i}"
proof (induction x c rule: popcount_loop.induct)
  case (1 x c)
  show ?case
  proof (cases "x = 0")
    case False
    with word_clear_lowest [OF False] 1 finite_bits [of x] card_Suc_Diff1 [of "{i. bit x i}"]
    show ?thesis by (subst popcount_loop.simps) fastforce
  qed (simp add: popcount_loop.simps)
qed

lemma card_bitset: "card (bitset bits) = sum_list (map popcount bits)"
proof (induction bits)
  case Nil
  then show ?case by (simp add: bitset_def)
next
  case (Cons w bits)
  have bound: "bit w i \<Longrightarrow> i < 64" for i by (auto dest: bit_imp_le_length)
  have split: "bitset (w # bits) = {i. bit w i} \<union> (\<lambda>q. q + 64) ` bitset bits"
  proof (rule set_eqI)
    fix q
    show "q \<in> bitset (w # bits) \<longleftrightarrow> q \<in> {i. bit w i} \<union> (\<lambda>q. q + 64) ` bitset bits"
    proof (cases "q < 64")
      case True
      then show ?thesis by (auto simp: bitset_def)
    next
      case False
      then obtain r where r: "q = r + 64" by (metis add.commute le_Suc_ex not_less)
      then have "\<not> bit w q" using bound [of q] by auto
      moreover have "q \<in> bitset (w # bits) \<longleftrightarrow> r \<in> bitset bits" by (simp add: r bitset_def)
      ultimately show ?thesis by (auto simp: r)
    qed
  qed
  have disj: "{i. bit w i} \<inter> (\<lambda>q. q + 64) ` bitset bits = {}" using bound by fastforce
  have fin: "finite (bitset bits)"
  proof (rule finite_subset [of _ "{..< 64 * length bits}"])
    have "q < 64 * n" if "q div 64 < n" for q n :: nat using that by linarith
    then show "bitset bits \<subseteq> {..< 64 * length bits}" by (auto simp: bitset_def)
  qed simp
  have "card ((\<lambda>q. q + 64) ` bitset bits) = card (bitset bits)"
    by (rule card_image) simp
  then have "card (bitset (w # bits)) = card {i. bit w i} + card (bitset bits)"
    unfolding split by (subst card_Un_disjoint [OF finite_bits finite_imageI [OF fin] disj]) simp
  then show ?case using Cons.IH by (simp add: popcount_def popcount_loop_eq)
qed

text \<open>
  \<open>FillRatio\<close> is the exact share of distinct probe positions that are set: the population
  count of the words is the number of set positions, none lies outside the \<open>m\<close> valid ones, and
  the ratio is between 0 and 1.
\<close>

theorem bf_FillRatio_exact:
  assumes "bloom_ok bf"
  shows "bf_FillRatio bf = real (card (bitset (bf_bits bf))) / real (unat (bf_m bf))
    \<and> bitset (bf_bits bf) \<subseteq> {..<unat (bf_m bf)} \<and> 0 \<le> bf_FillRatio bf \<and> bf_FillRatio bf \<le> 1"
proof -
  have sub: "bitset (bf_bits bf) \<subseteq> {..<unat (bf_m bf)}" "0 < unat (bf_m bf)"
    using assms by (auto simp: bloom_ok_def)
  then have "card (bitset (bf_bits bf)) \<le> unat (bf_m bf)"
    using card_mono [OF _ sub(1)] by simp
  then have "real (card (bitset (bf_bits bf))) / real (unat (bf_m bf)) \<le> 1"
    using sub(2) by (simp only: divide_le_eq_1_pos of_nat_0_less_iff of_nat_le_iff)
  moreover have "0 \<le> real (card (bitset (bf_bits bf))) / real (unat (bf_m bf))"
    by (rule divide_nonneg_nonneg) (rule of_nat_0_le_iff)+
  ultimately show ?thesis using sub(1) unfolding bf_FillRatio_def card_bitset by blast
qed

theorem bf_FillRatio_exact_witness:
  "bf_FillRatio example_bloom = real (card (bitset (bf_bits example_bloom))) / 128"
  using bf_FillRatio_exact [OF example_bloom_ok] by (simp add: example_bloom_def)

end
