(* ===== verification/Fs_Access.thy ===== *)
theory Fs_Access
  imports Fs_Layer Fs_Cache Fs_Bloom
begin

text \<open>
  Access tracking and deduplication of fshash (\<open>pkg/fshash/access/tracker.go\<close>, \<open>dedup.go\<close>). The
  tracker is a map of maps. The deduplicator shares the layer store with its owner, so the
  store is an argument of its operations and not a field of its state; the hash cache, the Bloom
  filter, the tracker and the counters are its own.
\<close>

section \<open>The tracker\<close>

type_synonym tracker = "string \<rightharpoonup> string \<rightharpoonup> file_hash"

definition NewTracker :: tracker where
  "NewTracker = Map.empty"

definition getOrCreateManifest :: "layer_id \<Rightarrow> tracker \<Rightarrow> (string \<rightharpoonup> file_hash) \<times> tracker" where
  "getOrCreateManifest l t =
     (case t (digest l) of
        Some m \<Rightarrow> (m, t)
      | None \<Rightarrow> (Map.empty, t(digest l \<mapsto> Map.empty)))"

definition tr_Record :: "layer_id \<Rightarrow> file_hash \<Rightarrow> tracker \<Rightarrow> tracker" where
  "tr_Record l hash t =
     (let (m, t) = getOrCreateManifest l t in t(digest l \<mapsto> m(fh_Path hash \<mapsto> hash)))"

definition tr_FileHashes :: "(string set \<Rightarrow> string list) \<Rightarrow> layer_id \<Rightarrow> tracker \<Rightarrow> file_hash list" where
  "tr_FileHashes enum l t =
     (case t (digest l) of
        None \<Rightarrow> []
      | Some m \<Rightarrow> map (\<lambda>p. the (m p)) (enum (dom m)))"

definition tr_Count :: "layer_id \<Rightarrow> tracker \<Rightarrow> nat" where
  "tr_Count l t = (case t (digest l) of None \<Rightarrow> 0 | Some m \<Rightarrow> card (dom m))"

definition tr_HasFile :: "layer_id \<Rightarrow> string \<Rightarrow> tracker \<Rightarrow> bool" where
  "tr_HasFile l path t = (case t (digest l) of None \<Rightarrow> False | Some m \<Rightarrow> m path \<noteq> None)"

definition tr_Clear :: "layer_id \<Rightarrow> tracker \<Rightarrow> tracker" where
  "tr_Clear l t = t(digest l := None)"

definition tr_ClearAll :: "tracker \<Rightarrow> tracker" where
  "tr_ClearAll t = Map.empty"

section \<open>The deduplicator\<close>

record dedup =
  dd_cache :: sharded_store
  dd_filter :: bloom
  dd_tracker :: tracker
  dd_received :: uint64
  dd_computed :: uint64
  dd_reused :: uint64
  dd_skipped :: uint64
  dd_excluded :: uint64

definition NewDeduplicator ::
  "(uint64 \<Rightarrow> real \<Rightarrow> uint64) \<Rightarrow> (uint64 \<Rightarrow> uint64 \<Rightarrow> uint64) \<Rightarrow> sharded_store \<Rightarrow> uint64 \<Rightarrow> real \<Rightarrow> dedup option" where
  "NewDeduplicator m_est k_est hashCache expectedItems fpRate =
     map_option (\<lambda>bf. \<lparr>dd_cache = hashCache, dd_filter = bf, dd_tracker = NewTracker, dd_received = 0,
         dd_computed = 0, dd_reused = 0, dd_skipped = 0, dd_excluded = 0\<rparr>)
       (NewBloomFilter m_est k_est expectedItems fpRate)"

text \<open>The loop over the chain that stops at the first cached hash.\<close>

fun cache_scan :: "layer_id list \<Rightarrow> string \<Rightarrow> sharded_store \<Rightarrow> file_hash option \<times> sharded_store" where
  "cache_scan [] path ss = (None, ss)"
| "cache_scan (lid # lids) path ss =
     (case ss_Get lid path ss of
        (Some h, ss) \<Rightarrow> (Some h, ss)
      | (None, ss) \<Rightarrow> cache_scan lids path ss)"

definition dd_Process :: "mem_store \<Rightarrow> access_event \<Rightarrow> chain \<Rightarrow> dedup \<Rightarrow> dedup_result \<times> dedup" where
  "dd_Process layers event c d =
     (let d = d\<lparr>dd_received := dd_received d + 1\<rparr>;
          result = \<lparr>dr_Event = event, dr_Action = 0, dr_CachedHash = None, dr_SourceLayer = None\<rparr>
      in if \<not> IsFileVisible layers c (ev_Path event)
         then (result\<lparr>dr_Action := ActionExclude\<rparr>, d\<lparr>dd_excluded := dd_excluded d + 1\<rparr>)
         else
           (let (present, bf) = bf_TestAndAdd (ev_LayerID event) (ev_Path event) (dd_filter d);
                d = d\<lparr>dd_filter := bf\<rparr>
            in if present
               then (result\<lparr>dr_Action := ActionSkip\<rparr>, d\<lparr>dd_skipped := dd_skipped d + 1\<rparr>)
               else
                 (let (cached, ss) = cache_scan (ch_Layers c) (ev_Path event) (dd_cache d);
                      d = d\<lparr>dd_cache := ss\<rparr>;
                      compute = (result\<lparr>dr_Action := ActionCompute\<rparr>, d\<lparr>dd_computed := dd_computed d + 1\<rparr>)
                  in case cached of
                       None \<Rightarrow> compute
                     | Some h \<Rightarrow>
                         (if \<not> NeedsRehash layers c (ev_Path event) (fh_LayerID h)
                          then (result\<lparr>dr_Action := ActionReuse, dr_CachedHash := Some h,
                                       dr_SourceLayer := Some (fh_LayerID h)\<rparr>,
                                d\<lparr>dd_reused := dd_reused d + 1,
                                  dd_tracker := tr_Record (ev_LayerID event) h (dd_tracker d)\<rparr>)
                          else compute))))"

definition dd_RecordComputed :: "file_hash \<Rightarrow> dedup \<Rightarrow> dedup" where
  "dd_RecordComputed hash d =
     d\<lparr>dd_cache := ss_Put (fh_LayerID hash) (fh_Path hash) hash (dd_cache d),
       dd_tracker := tr_Record (fh_LayerID hash) hash (dd_tracker d)\<rparr>"

definition dd_FileHashes :: "(string set \<Rightarrow> string list) \<Rightarrow> layer_id \<Rightarrow> dedup \<Rightarrow> file_hash list" where
  "dd_FileHashes enum l d = tr_FileHashes enum l (dd_tracker d)"

definition dd_ResetSession :: "dedup \<Rightarrow> dedup" where
  "dd_ResetSession d = d\<lparr>dd_filter := bf_Reset (dd_filter d)\<rparr>"

definition dd_Stats :: "dedup \<Rightarrow> processor_stats" where
  "dd_Stats d =
     \<lparr>st_EventsReceived = dd_received d, st_EventsComputed = dd_computed d, st_EventsReused = dd_reused d,
      st_EventsSkipped = dd_skipped d, st_EventsExcluded = dd_excluded d, st_CacheHits = 0, st_CacheMisses = 0,
      st_LayersRegistered = 0, st_TreesFinalized = 0\<rparr>"

section \<open>The tracker is a finite map of pairs\<close>

definition tr_lookup :: "tracker \<Rightarrow> layer_id \<Rightarrow> string \<Rightarrow> file_hash option" where
  "tr_lookup t l p = (case t (digest l) of None \<Rightarrow> None | Some m \<Rightarrow> m p)"

definition tracker_ok :: "tracker \<Rightarrow> bool" where
  "tracker_ok t \<longleftrightarrow> (\<forall>k m. t k = Some m \<longrightarrow> finite (dom m) \<and> (\<forall>p h. m p = Some h \<longrightarrow> fh_Path h = p))"

lemma tr_lookup_Record:
  "tr_lookup (tr_Record l h t) l' p = (if l' = l \<and> p = fh_Path h then Some h else tr_lookup t l' p)"
  by (auto simp: tr_lookup_def tr_Record_def getOrCreateManifest_def split: option.splits)

lemma tracker_ok_Record: "tracker_ok t \<Longrightarrow> tracker_ok (tr_Record l h t)"
  by (auto simp: tracker_ok_def tr_Record_def getOrCreateManifest_def split: option.splits if_splits)

lemma tracker_ok_New: "tracker_ok NewTracker"
  by (simp add: tracker_ok_def NewTracker_def)

lemma tr_FileHashes_lookup:
  assumes "map_range enum" "tracker_ok t"
  shows "set (tr_FileHashes enum l t) = {h. tr_lookup t l (fh_Path h) = Some h}"
    "distinct (map fh_Path (tr_FileHashes enum l t))"
    "length (tr_FileHashes enum l t) = tr_Count l t"
proof -
  have "set (tr_FileHashes enum l t) = {h. tr_lookup t l (fh_Path h) = Some h}
    \<and> distinct (map fh_Path (tr_FileHashes enum l t)) \<and> length (tr_FileHashes enum l t) = tr_Count l t"
  proof (cases "t (digest l)")
    case None
    then show ?thesis by (simp add: tr_FileHashes_def tr_lookup_def tr_Count_def)
  next
    case (Some m)
    have fin: "finite (dom m)" and path: "\<And>p h. m p = Some h \<Longrightarrow> fh_Path h = p"
      using assms(2) Some by (auto simp: tracker_ok_def)
    have e: "set (enum (dom m)) = dom m" "distinct (enum (dom m))" "length (enum (dom m)) = card (dom m)"
      using map_range.enum_set [OF assms(1) fin] map_range.enum_distinct [OF assms(1) fin]
        map_range.enum_length [OF assms(1) fin] by simp_all
    have "map (fh_Path \<circ> (\<lambda>p. the (m p))) (enum (dom m)) = enum (dom m)"
      using e(1) path by (intro map_idI) (auto simp: domIff)
    moreover have "(\<lambda>p. the (m p)) ` dom m = {h. m (fh_Path h) = Some h}"
    proof (intro set_eqI iffI)
      fix h assume "h \<in> (\<lambda>p. the (m p)) ` dom m"
      then obtain p where "m p = Some h" by auto
      then show "h \<in> {h. m (fh_Path h) = Some h}" using path by simp
    next
      fix h assume "h \<in> {h. m (fh_Path h) = Some h}"
      then have "m (fh_Path h) = Some h" by simp
      then show "h \<in> (\<lambda>p. the (m p)) ` dom m" by (intro image_eqI [of _ _ "fh_Path h"]) auto
    qed
    ultimately show ?thesis using Some e by (simp add: tr_FileHashes_def tr_lookup_def tr_Count_def)
  qed
  then show "set (tr_FileHashes enum l t) = {h. tr_lookup t l (fh_Path h) = Some h}"
    "distinct (map fh_Path (tr_FileHashes enum l t))"
    "length (tr_FileHashes enum l t) = tr_Count l t" by blast+
qed

datatype track_op = TRecord layer_id file_hash | TClear layer_id | TClearAll

fun tr_step :: "track_op \<Rightarrow> tracker \<Rightarrow> tracker" where
  "tr_step (TRecord l h) t = tr_Record l h t"
| "tr_step (TClear l) t = tr_Clear l t"
| "tr_step TClearAll t = tr_ClearAll t"

text \<open>The last write of a pair since its layer was cleared, read off the history of operations.\<close>

fun last_write :: "track_op list \<Rightarrow> layer_id \<Rightarrow> string \<Rightarrow> file_hash option" where
  "last_write [] l p = None"
| "last_write (op # older) l p =
     (case op of
        TRecord l' h \<Rightarrow> if l' = l \<and> fh_Path h = p then Some h else last_write older l p
      | TClear l' \<Rightarrow> if l' = l then None else last_write older l p
      | TClearAll \<Rightarrow> None)"

lemma tracker_run:
  "tracker_ok (foldr tr_step ops NewTracker)
   \<and> tr_lookup (foldr tr_step ops NewTracker) l p = last_write ops l p"
proof (induction ops)
  case Nil
  then show ?case by (simp add: tracker_ok_New) (simp add: tr_lookup_def NewTracker_def)
next
  case (Cons op ops)
  then show ?case
    by (cases op)
      (auto simp: tracker_ok_Record tr_lookup_Record tr_Clear_def tr_ClearAll_def,
       auto simp: tracker_ok_def tr_lookup_def)
qed

text \<open>
  The tracker returns the latest hashes. After any history of \<open>Record\<close>, \<open>Clear\<close> and
  \<open>ClearAll\<close> (newest first), \<open>FileHashes\<close> of a layer lists, in any order of the map iteration,
  exactly one hash per recorded path, the last one written since the layer was cleared;
  \<open>Count\<close> is their number and \<open>HasFile\<close> says for which paths there is one.
\<close>

theorem tracker_latest_hash:
  assumes "map_range enum"
  shows "set (tr_FileHashes enum l (foldr tr_step ops NewTracker))
      = {h. last_write ops l (fh_Path h) = Some h}
    \<and> distinct (map fh_Path (tr_FileHashes enum l (foldr tr_step ops NewTracker)))
    \<and> tr_Count l (foldr tr_step ops NewTracker) = length (tr_FileHashes enum l (foldr tr_step ops NewTracker))
    \<and> (tr_HasFile l p (foldr tr_step ops NewTracker) \<longleftrightarrow> last_write ops l p \<noteq> None)"
proof -
  have "tr_HasFile l p t \<longleftrightarrow> tr_lookup t l p \<noteq> None" for t
    by (simp add: tr_HasFile_def tr_lookup_def split: option.split)
  then show ?thesis
    using tr_FileHashes_lookup [OF assms] tracker_run [of ops l] by simp
qed

theorem tracker_latest_hash_witness:
  "set (tr_FileHashes sorted_list_of_set (LayerID ''a'')
     (foldr tr_step [TRecord (LayerID ''a'') example_hash, TClear (LayerID ''a'')] NewTracker)) = {example_hash}"
proof -
  have "{h. last_write [TRecord (LayerID ''a'') example_hash, TClear (LayerID ''a'')] (LayerID ''a'') (fh_Path h) = Some h}
      = {example_hash}" by auto
  then show ?thesis
    using tracker_latest_hash [OF sorted_range.map_range_axioms, of "LayerID ''a''"
        "[TRecord (LayerID ''a'') example_hash, TClear (LayerID ''a'')]"] by simp
qed

section \<open>The deduplicator\<close>

definition chain_keys :: "layer_id list \<Rightarrow> string \<Rightarrow> string list" where
  "chain_keys ls p = map (\<lambda>l. compositeKey l p) ls"

lemma cache_scan_first_hit:
  "cache_scan ls p ss = map_prod (map_option snd) (\<lambda>x. x) (fs_cache.first_hit (chain_keys ls p) ss)"
proof (induction ls arbitrary: ss)
  case Nil
  then show ?case by (simp add: chain_keys_def)
next
  case (Cons l ls)
  then show ?case
    by (simp add: chain_keys_def ss_ops_keys split: prod.splits option.splits)
qed

text \<open>
  The invariant of the cache: an entry is stored under the layer and path it names, and its hash
  is \<open>good\<close> for them.
\<close>

definition entry_ok :: "(layer_id \<Rightarrow> string \<Rightarrow> bytes \<Rightarrow> bool) \<Rightarrow> string \<Rightarrow> file_hash \<Rightarrow> bool" where
  "entry_ok good k h \<longleftrightarrow> k = compositeKey (fh_LayerID h) (fh_Path h) \<and> CHR 0x00 \<notin> set (digest (fh_LayerID h))
     \<and> good (fh_LayerID h) (fh_Path h) (fh_Hash h)"

definition dedup_ok :: "(layer_id \<Rightarrow> string \<Rightarrow> bytes \<Rightarrow> bool) \<Rightarrow> dedup \<Rightarrow> bool" where
  "dedup_ok good d \<longleftrightarrow> ss_inv (dd_cache d) \<and> bloom_ok (dd_filter d) \<and> tracker_ok (dd_tracker d)
     \<and> fs_cache.coherent (entry_ok good) (dd_cache d)"

lemma cache_scan_ok:
  assumes "ss_inv ss" "fs_cache.coherent (entry_ok good) ss" "cache_scan ls p ss = (r, ss')"
  shows "ss_inv ss'" "fs_cache.coherent (entry_ok good) ss'"
    "r = Some h \<Longrightarrow> \<exists>l \<in> set ls. entry_ok good (compositeKey l p) h"
proof -
  have ss': "ss' = snd (fs_cache.first_hit (chain_keys ls p) ss)"
      and r: "r = map_option snd (fst (fs_cache.first_hit (chain_keys ls p) ss))"
    using assms(3) by (simp_all add: cache_scan_first_hit map_prod_def case_prod_unfold)
  show "ss_inv ss'" "fs_cache.coherent (entry_ok good) ss'"
    using fs_cache.first_hit_keeps [OF assms(1)] assms(2) by (simp_all add: ss' fs_cache.coherent_def)
  assume "r = Some h"
  then obtain k where k: "find (\<lambda>k. ss_lookup ss k \<noteq> None) (chain_keys ls p) = Some k" "ss_lookup ss k = Some h"
    using fs_cache.first_hit_result [OF assms(1), of "chain_keys ls p"]
    by (auto simp: r split: option.splits)
  then have "k \<in> set (chain_keys ls p)" by (auto simp: find_Some_iff)
  then show "\<exists>l \<in> set ls. entry_ok good (compositeKey l p) h"
    using k(2) assms(2) by (auto simp: chain_keys_def fs_cache.coherent_def)
qed

text \<open>The four outcomes of \<open>Process\<close>, each with what it changes.\<close>

lemma dd_Process_cases:
  assumes "dd_Process s e c d = (r, d')"
  obtains
    (exclude) "\<not> IsFileVisible s c (ev_Path e)" "dr_Action r = ActionExclude"
      "d' = d\<lparr>dd_received := dd_received d + 1, dd_excluded := dd_excluded d + 1\<rparr>"
  | (skip) bf where "IsFileVisible s c (ev_Path e)" "dr_Action r = ActionSkip"
      "bf_TestAndAdd (ev_LayerID e) (ev_Path e) (dd_filter d) = (True, bf)"
      "d' = d\<lparr>dd_received := dd_received d + 1, dd_filter := bf, dd_skipped := dd_skipped d + 1\<rparr>"
  | (compute) bf cached ss where "IsFileVisible s c (ev_Path e)" "dr_Action r = ActionCompute"
      "bf_TestAndAdd (ev_LayerID e) (ev_Path e) (dd_filter d) = (False, bf)"
      "cache_scan (ch_Layers c) (ev_Path e) (dd_cache d) = (cached, ss)"
      "\<forall>h. cached = Some h \<longrightarrow> NeedsRehash s c (ev_Path e) (fh_LayerID h)"
      "d' = d\<lparr>dd_received := dd_received d + 1, dd_filter := bf, dd_cache := ss, dd_computed := dd_computed d + 1\<rparr>"
  | (reuse) bf h ss where "IsFileVisible s c (ev_Path e)" "dr_Action r = ActionReuse"
      "dr_CachedHash r = Some h" "dr_SourceLayer r = Some (fh_LayerID h)"
      "bf_TestAndAdd (ev_LayerID e) (ev_Path e) (dd_filter d) = (False, bf)"
      "cache_scan (ch_Layers c) (ev_Path e) (dd_cache d) = (Some h, ss)"
      "\<not> NeedsRehash s c (ev_Path e) (fh_LayerID h)"
      "d' = d\<lparr>dd_received := dd_received d + 1, dd_filter := bf, dd_cache := ss, dd_reused := dd_reused d + 1,
             dd_tracker := tr_Record (ev_LayerID e) h (dd_tracker d)\<rparr>"
proof -
  obtain present bf where t: "bf_TestAndAdd (ev_LayerID e) (ev_Path e) (dd_filter d) = (present, bf)" by fastforce
  obtain cached ss where sc: "cache_scan (ch_Layers c) (ev_Path e) (dd_cache d) = (cached, ss)" by fastforce
  consider "\<not> IsFileVisible s c (ev_Path e)" | "IsFileVisible s c (ev_Path e)" present
    | "IsFileVisible s c (ev_Path e)" "\<not> present" "\<forall>h. cached = Some h \<longrightarrow> NeedsRehash s c (ev_Path e) (fh_LayerID h)"
    | h where "IsFileVisible s c (ev_Path e)" "\<not> present" "cached = Some h" "\<not> NeedsRehash s c (ev_Path e) (fh_LayerID h)"
    by blast
  then show thesis
  proof cases
    case 1
    then show thesis using assms by (intro exclude) (auto simp: dd_Process_def Let_def)
  next
    case 2
    then show thesis using assms t by (intro skip) (auto simp: dd_Process_def Let_def)
  next
    case 3
    then show thesis using assms t sc
      by (intro compute [of bf cached ss]) (auto simp: dd_Process_def Let_def split: option.splits)
  next
    case 4
    then show thesis using assms t sc by (intro reuse [of h bf ss]) (auto simp: dd_Process_def Let_def)
  qed
qed

lemma dedup_ok_Process:
  assumes "dedup_ok good d" "dd_Process s e c d = (r, d')"
  shows "dedup_ok good d'"
proof -
  have ok: "ss_inv (dd_cache d)" "bloom_ok (dd_filter d)" "tracker_ok (dd_tracker d)"
      "fs_cache.coherent (entry_ok good) (dd_cache d)"
    using assms(1) by (simp_all add: dedup_ok_def)
  have bf: "bloom_ok bf" if "bf_TestAndAdd l p (dd_filter d) = (b, bf)" for l p b bf
    using bf_TestAndAdd_ok [OF ok(2), of l p] that bloom_ok_Add [OF ok(2), of l p] by simp
  from assms(2) show ?thesis
  proof (cases rule: dd_Process_cases)
    case exclude
    then show ?thesis using ok by (simp add: dedup_ok_def)
  next
    case skip
    then show ?thesis using ok bf by (simp add: dedup_ok_def)
  next
    case compute
    then show ?thesis using ok bf cache_scan_ok(1,2) [OF ok(1,4)] by (simp add: dedup_ok_def)
  next
    case reuse
    then show ?thesis using ok bf cache_scan_ok(1,2) [OF ok(1,4)] by (simp add: dedup_ok_def tracker_ok_Record)
  qed
qed

lemma dedup_ok_RecordComputed:
  assumes "dedup_ok good d" "good (fh_LayerID h) (fh_Path h) (fh_Hash h)" "CHR 0x00 \<notin> set (digest (fh_LayerID h))"
  shows "dedup_ok good (dd_RecordComputed h d)"
  using assms fs_cache.invar_put fs_cache.coherent_put [of "dd_cache d" "entry_ok good"]
  by (simp add: dedup_ok_def dd_RecordComputed_def ss_ops_keys tracker_ok_Record entry_ok_def)

lemma dedup_ok_ResetSession: "dedup_ok good d \<Longrightarrow> dedup_ok good (dd_ResetSession d)"
  by (simp add: dedup_ok_def dd_ResetSession_def bloom_ok_Reset)

text \<open>
  C19: reuse is sound. Let \<open>view l p\<close> be the bytes of the file at \<open>p\<close> seen from layer \<open>l\<close>, and
  suppose the marks tell the truth: a path unmodified in all layers above \<open>l\<close> has, seen from the
  top, the bytes it has seen from \<open>l\<close>. If every cached hash is the hash of the bytes seen from its
  layer, then whenever \<open>Process\<close> answers \<open>ActionReuse\<close> the reused hash is the hash of the bytes
  the event's chain shows at the event's path, its source layer belongs to the chain, and it is
  recorded in the tracker for the event's layer.
\<close>

theorem Process_reuse_sound:
  assumes "dedup_ok (\<lambda>l p b. b = H (view l p)) d"
    and "\<forall>l \<in> set ls. CHR 0x00 \<notin> set (digest l)" "distinct ls"
    and "\<And>us l vs. ls = us @ l # vs \<Longrightarrow> \<forall>v \<in> set vs. \<not> ms_IsModified s v (ev_Path e)
           \<Longrightarrow> view l (ev_Path e) = view (last ls) (ev_Path e)"
    and "dd_Process s e (NewChain ls) d = (r, d')" "dr_Action r = ActionReuse"
  shows "\<exists>h. dr_CachedHash r = Some h \<and> fh_Hash h = H (view (last ls) (ev_Path e))
    \<and> fh_Path h = ev_Path e \<and> fh_LayerID h \<in> set ls \<and> dr_SourceLayer r = Some (fh_LayerID h)
    \<and> tr_lookup (dd_tracker d') (ev_LayerID e) (ev_Path e) = Some h"
  using assms(5)
proof (cases rule: dd_Process_cases)
  case (reuse bf h ss)
  have "\<exists>l \<in> set ls. entry_ok (\<lambda>l p b. b = H (view l p)) (compositeKey l (ev_Path e)) h"
    using cache_scan_ok(3) [OF _ _ reuse(6) refl] assms(1) by (simp add: dedup_ok_def)
  then obtain l where l: "l \<in> set ls" "compositeKey l (ev_Path e) = compositeKey (fh_LayerID h) (fh_Path h)"
      "CHR 0x00 \<notin> set (digest (fh_LayerID h))" "fh_Hash h = H (view (fh_LayerID h) (fh_Path h))"
    by (auto simp: entry_ok_def)
  then have h: "fh_LayerID h = l" "fh_Path h = ev_Path e"
    using compositeKey_inj [of l "fh_LayerID h"] assms(2) by auto
  from l(1) assms(3) obtain us vs where ls: "ls = us @ l # vs" "l \<notin> set vs" by (meson split_list_last)
  have "\<forall>v \<in> set vs. \<not> ms_IsModified s v (ev_Path e)"
    using reuse(7) NeedsRehash_split [OF ls(2), of s us] by (simp add: h ls(1))
  then have "fh_Hash h = H (view (last ls) (ev_Path e))" using assms(4) [OF ls(1)] l(4) h by simp
  moreover have "tr_lookup (dd_tracker d') (ev_LayerID e) (ev_Path e) = Some h"
    using reuse(8) h by (simp add: tr_lookup_Record)
  ultimately show ?thesis using reuse(3,4) h l(1) by auto
qed (use assms(6) in simp_all)

section \<open>Sessions and counters\<close>

text \<open>A run of the deduplicator: events on chains, results recorded, session resets.\<close>

datatype dedup_op = DProcess mem_store access_event chain | DRecord file_hash | DReset

fun dd_step :: "dedup_op \<Rightarrow> dedup \<Rightarrow> dedup" where
  "dd_step (DProcess s e c) d = snd (dd_Process s e c d)"
| "dd_step (DRecord h) d = dd_RecordComputed h d"
| "dd_step DReset d = dd_ResetSession d"

definition balanced :: "dedup \<Rightarrow> bool" where
  "balanced d \<longleftrightarrow> dd_received d = dd_computed d + dd_reused d + dd_skipped d + dd_excluded d"

lemma balanced_step: "balanced d \<Longrightarrow> balanced (dd_step op d)"
proof (cases op)
  case (DProcess s e c)
  assume b: "balanced d"
  obtain r d' where p: "dd_Process s e c d = (r, d')" by fastforce
  then show ?thesis
    by (cases rule: dd_Process_cases) (use b in \<open>auto simp: balanced_def DProcess p\<close>)
qed (simp_all add: balanced_def dd_RecordComputed_def dd_ResetSession_def)

text \<open>
  The counters balance: after any run from a new deduplicator, the number of events
  received is the sum of the computed, reused, skipped and excluded ones (as 64-bit counters).
\<close>

theorem dedup_counters_balance:
  assumes "NewDeduplicator m_est k_est ss n r = Some d"
  shows "let st = dd_Stats (fold dd_step ops d)
    in st_EventsReceived st = st_EventsComputed st + st_EventsReused st + st_EventsSkipped st + st_EventsExcluded st"
proof -
  have "balanced d" using assms by (auto simp: NewDeduplicator_def balanced_def)
  then have "balanced (fold dd_step ops d)"
    by (induction ops arbitrary: d) (simp_all add: balanced_step)
  then show ?thesis by (simp add: balanced_def dd_Stats_def)
qed

definition example_event :: access_event where
  "example_event = \<lparr>ev_LayerID = LayerID ''a'', ev_VertexID = VertexID '''', ev_Path = ''/x'', ev_Op = OpRead,
     ev_Offset = 0, ev_Count = 0, ev_Data = None, ev_Timestamp = 0\<rparr>"

lemma NewDeduplicator_built:
  assumes "unat (m_est (bf_items n) (bf_rate r)) \<le> 2 ^ 63"
  shows "\<exists>d. NewDeduplicator m_est k_est ss n r = Some d"
proof -
  obtain bf where "NewBloomFilter m_est k_est n r = Some bf"
    using NewBloomFilter_built [of m_est n r, OF assms] by blast
  then show ?thesis by (simp add: NewDeduplicator_def)
qed

definition example_dedup :: dedup where
  "example_dedup = \<lparr>dd_cache = example_sharded, dd_filter = example_bloom, dd_tracker = NewTracker,
     dd_received = 0, dd_computed = 0, dd_reused = 0, dd_skipped = 0, dd_excluded = 0\<rparr>"

theorem dedup_counters_balance_witness:
  "\<exists>d. NewDeduplicator (\<lambda>_ _. 1000) (\<lambda>_ _. 7) example_sharded 100 (1 / 100) = Some d
    \<and> (let st = dd_Stats (fold dd_step [DProcess example_store example_event (NewChain [LayerID ''a'']), DReset] d)
       in st_EventsReceived st = st_EventsComputed st + st_EventsReused st + st_EventsSkipped st + st_EventsExcluded st)"
proof -
  obtain d where d: "NewDeduplicator (\<lambda>_ _. 1000) (\<lambda>_ _. 7) example_sharded 100 (1 / 100) = Some d"
    using NewDeduplicator_built [of "\<lambda>_ _. 1000" 100 "1 / 100"] by auto
  from dedup_counters_balance [OF this] d show ?thesis by blast
qed

theorem Process_reuse_sound_witness:
  "\<exists>r d'. dd_Process example_store (example_event\<lparr>ev_LayerID := LayerID ''b''\<rparr>) (NewChain [LayerID ''a'', LayerID ''b''])
      (dd_RecordComputed example_hash example_dedup) = (r, d')
    \<and> dr_Action r = ActionReuse \<and> tr_lookup (dd_tracker d') (LayerID ''b'') ''/x'' = Some example_hash"
proof -
  let ?e = "example_event\<lparr>ev_LayerID := LayerID ''b''\<rparr>" and ?ls = "[LayerID ''a'', LayerID ''b'']"
  let ?d = "dd_RecordComputed example_hash example_dedup"
  let ?good = "\<lambda>l p b. b = (\<lambda>_. [1]) ((\<lambda>l p. []) l p)"
  have "fs_cache.coherent (entry_ok ?good) example_sharded"
    by (simp add: fs_cache.coherent_def ss_lookup_def getShard_def shard_lookup_def example_sharded_def
        shard_index_def newShard_def)
  then have "dedup_ok ?good example_dedup"
    using example_sharded_inv example_bloom_ok tracker_ok_New by (simp add: dedup_ok_def example_dedup_def)
  then have ok: "dedup_ok ?good ?d"
    by (rule dedup_ok_RecordComputed) (simp_all add: example_hash_def)
  have vis: "IsFileVisible example_store (NewChain ?ls) ''/x''"
    by (simp add: IsFileVisible_def ms_OwnerOf_def mark_defs example_store_def ch_Position_def NewChain_def
        ch_Layers_def Let_def ancestor_opaque.simps numeral_2_eq_2)
  have empty: "bitset (bf_bits example_bloom) = {}" by (auto simp: bitset_def example_bloom_def nth_Cons')
  have bf: "bf_TestAndAdd (LayerID ''b'') ''/x'' (dd_filter ?d) = (False, bf_Add (LayerID ''b'') ''/x'' example_bloom)"
    using bf_TestAndAdd_pair [OF example_bloom_ok] bf_Test_empty [OF example_bloom_ok empty]
    by (simp add: dd_RecordComputed_def example_dedup_def)
  have "fst (ss_Get (LayerID ''a'') ''/x'' (dd_cache ?d)) = Some example_hash"
    using fs_cache.put_then_get [OF example_sharded_inv, of "compositeKey (LayerID ''a'') ''/x''" example_hash]
    by (simp add: dd_RecordComputed_def example_dedup_def example_hash_def ss_ops_keys)
  then obtain ss where sc: "cache_scan ?ls ''/x'' (dd_cache ?d) = (Some example_hash, ss)"
    by (cases "ss_Get (LayerID ''a'') ''/x'' (dd_cache ?d)") simp
  have nr: "\<not> NeedsRehash example_store (NewChain ?ls) ''/x'' (LayerID ''a'')"
    by (simp add: NeedsRehash_def ch_Above_def ch_Position_def NewChain_def mark_defs example_store_def)
  obtain r d' where p: "dd_Process example_store ?e (NewChain ?ls) ?d = (r, d')" by fastforce
  have a: "dr_Action r = ActionReuse"
    using p vis bf sc nr by (auto simp: dd_Process_def Let_def example_event_def example_hash_def)
  have nul: "\<forall>l \<in> set ?ls. CHR 0x00 \<notin> set (digest l)" by simp
  obtain h where "dr_CachedHash r = Some h" "fh_Path h = ''/x''" "tr_lookup (dd_tracker d') (LayerID ''b'') ''/x'' = Some h"
    using Process_reuse_sound [where H = "\<lambda>_. [1]" and view = "\<lambda>_ _. []", OF ok nul _ _ p a] by (auto simp: example_event_def)
  moreover have "dr_CachedHash r = Some example_hash"
    using p vis bf sc nr by (auto simp: dd_Process_def Let_def example_event_def example_hash_def)
  ultimately show ?thesis using p a by auto
qed

lemma dd_filter_step:
  assumes "bloom_ok (dd_filter d)" "op \<noteq> DReset"
  shows "bloom_ok (dd_filter (dd_step op d)) \<and> (bf_Test (dd_filter d) l p \<longrightarrow> bf_Test (dd_filter (dd_step op d)) l p)"
proof (cases op)
  case (DProcess s e c)
  obtain r d' where pr: "dd_Process s e c d = (r, d')" by fastforce
  then show ?thesis
  proof (cases rule: dd_Process_cases)
    case exclude
    then show ?thesis using assms(1) by (simp add: DProcess pr)
  qed (use assms(1) bf_Test_Add [OF assms(1), of l p] in
      \<open>auto simp: DProcess pr bf_TestAndAdd_pair bloom_ok_Add\<close>)
qed (use assms in \<open>simp_all add: dd_RecordComputed_def\<close>)

lemma dd_filter_run:
  assumes "DReset \<notin> set ops" "bloom_ok (dd_filter d)" "bf_Test (dd_filter d) l p"
  shows "bloom_ok (dd_filter (fold dd_step ops d)) \<and> bf_Test (dd_filter (fold dd_step ops d)) l p"
  using assms
proof (induction ops arbitrary: d)
  case (Cons op ops)
  then have "op \<noteq> DReset" by auto
  with dd_filter_step [OF Cons.prems(2) this, of l p] Cons show ?case by simp
qed simp

lemma dd_Process_tests:
  assumes "bloom_ok (dd_filter d)" "dd_Process s e c d = (r, d')" "dr_Action r \<noteq> ActionExclude"
  shows "bloom_ok (dd_filter d') \<and> bf_Test (dd_filter d') (ev_LayerID e) (ev_Path e)"
  using assms(2)
proof (cases rule: dd_Process_cases)
  case exclude
  then show ?thesis using assms(3) by simp
qed (use assms(1) bf_Test_Add [OF assms(1), of "ev_LayerID e" "ev_Path e"] in
    \<open>auto simp: bf_TestAndAdd_pair bloom_ok_Add\<close>)

lemma dd_Process_seen:
  assumes "bloom_ok (dd_filter d)" "bf_Test (dd_filter d) (ev_LayerID e) (ev_Path e)"
  shows "dr_Action (fst (dd_Process s e c d)) = (if IsFileVisible s c (ev_Path e) then ActionSkip else ActionExclude)
    \<and> dd_tracker (snd (dd_Process s e c d)) = dd_tracker d \<and> dd_cache (snd (dd_Process s e c d)) = dd_cache d"
  using assms by (simp add: dd_Process_def bf_TestAndAdd_pair Let_def)

text \<open>
  At most one computation per session. Once an event was processed and not excluded, every
  later event of the same layer and path, whatever happens in between short of a session reset,
  is answered \<open>ActionSkip\<close> or \<open>ActionExclude\<close> and changes neither cache nor tracker.
\<close>

theorem Process_once_per_session:
  assumes "bloom_ok (dd_filter d)" "dd_Process s e c d = (r, d1)" "dr_Action r \<noteq> ActionExclude"
    and "DReset \<notin> set ops" "ev_LayerID e' = ev_LayerID e" "ev_Path e' = ev_Path e"
  shows "let d2 = fold dd_step ops d1; (r', d3) = dd_Process s' e' c' d2
    in dr_Action r' \<in> {ActionSkip, ActionExclude} \<and> dd_tracker d3 = dd_tracker d2 \<and> dd_cache d3 = dd_cache d2"
proof -
  have "bloom_ok (dd_filter (fold dd_step ops d1)) \<and> bf_Test (dd_filter (fold dd_step ops d1)) (ev_LayerID e) (ev_Path e)"
    using dd_filter_run [OF assms(4)] dd_Process_tests [OF assms(1-3)] by blast
  then show ?thesis
    using dd_Process_seen [of "fold dd_step ops d1" e' s' c'] assms(5,6) by (simp add: Let_def case_prod_unfold)
qed

lemma example_process:
  "\<exists>d'. dd_Process example_store example_event (NewChain [LayerID ''a'']) example_dedup
     = (\<lparr>dr_Event = example_event, dr_Action = ActionCompute, dr_CachedHash = None, dr_SourceLayer = None\<rparr>, d')"
proof -
  have vis: "IsFileVisible example_store (NewChain [LayerID ''a'']) ''/x''"
    by (simp add: IsFileVisible_def ms_OwnerOf_def mark_defs example_store_def ch_Position_def NewChain_def
        ch_Layers_def Let_def)
  have empty: "bitset (bf_bits example_bloom) = {}" by (auto simp: bitset_def example_bloom_def nth_Cons')
  have bf: "bf_TestAndAdd (LayerID ''a'') ''/x'' example_bloom = (False, bf_Add (LayerID ''a'') ''/x'' example_bloom)"
    using bf_TestAndAdd_pair [OF example_bloom_ok] bf_Test_empty [OF example_bloom_ok empty] by simp
  have "fst (ss_Get (LayerID ''a'') ''/x'' example_sharded) = None"
    by (simp add: ss_Get_def Let_def getShard_def shard_index_def example_sharded_def shard_get_def newShard_def)
  then obtain ss where "cache_scan [LayerID ''a''] ''/x'' example_sharded = (None, ss)"
    by (cases "ss_Get (LayerID ''a'') ''/x'' example_sharded") simp
  then show ?thesis
    using vis bf by (simp add: dd_Process_def Let_def example_event_def example_dedup_def)
qed

theorem Process_once_per_session_witness:
  "\<exists>d1. snd (dd_Process example_store example_event (NewChain [LayerID ''a'']) example_dedup) = d1
    \<and> dr_Action (fst (dd_Process example_store example_event (NewChain [LayerID ''a'']) d1)) \<in> {ActionSkip, ActionExclude}"
proof -
  obtain d' where p: "dd_Process example_store example_event (NewChain [LayerID ''a'']) example_dedup
     = (\<lparr>dr_Event = example_event, dr_Action = ActionCompute, dr_CachedHash = None, dr_SourceLayer = None\<rparr>, d')"
    using example_process by blast
  have ok: "bloom_ok (dd_filter example_dedup)" by (simp add: example_dedup_def example_bloom_ok)
  from Process_once_per_session [OF ok p, of "[]" example_event example_store "NewChain [LayerID ''a'']"]
  show ?thesis using p by (simp add: Let_def case_prod_unfold)
qed

text \<open>
  A false positive of the filter loses a file. When the sizing formula asks for at most one
  bit (as it does for one expected item at a rate of 0.99), then after the first event that is
  not excluded every other visible file is skipped: it is neither hashed nor recorded, so it will
  be missing from the Merkle tree of its layer.
\<close>

theorem false_positive_loses_file:
  assumes "NewDeduplicator m_est k_est ss n fp = Some d" "unat (m_est (bf_items n) (bf_rate fp)) \<le> 1"
    and "dd_Process s e1 c1 d = (r1, d1)" "dr_Action r1 \<noteq> ActionExclude"
    and "IsFileVisible s c2 (ev_Path e2)"
  shows "let (r2, d2) = dd_Process s e2 c2 d1
    in dr_Action r2 = ActionSkip \<and> dd_tracker d2 = dd_tracker d1 \<and> dd_cache d2 = dd_cache d1"
proof -
  obtain bf where bf: "NewBloomFilter m_est k_est n fp = Some bf" "dd_filter d = bf"
    using assms(1) by (auto simp: NewDeduplicator_def)
  have "bloom_ok bf" using NewBloomFilter_built [of m_est n fp k_est] assms(2) bf(1) by force
  moreover have "bf_mask bf = 0" using NewBloomFilter_one_bit [OF bf(1) assms(2)] .
  moreover have "dd_filter d1 = bf_Add (ev_LayerID e1) (ev_Path e1) bf"
    using assms(3)
  proof (cases rule: dd_Process_cases)
    case exclude
    then show ?thesis using assms(4) by simp
  qed (use \<open>bloom_ok bf\<close> bf(2) in \<open>auto simp: bf_TestAndAdd_pair\<close>)
  ultimately show ?thesis
    using dd_Process_seen [of d1 e2 s c2] assms(5) one_bit_Test bloom_ok_Add by (simp add: Let_def case_prod_unfold)
qed

theorem false_positive_loses_file_witness:
  "\<exists>d r1 d1. NewDeduplicator (\<lambda>_ _. 0) (\<lambda>_ _. 0) example_sharded 1 (99 / 100) = Some d
    \<and> dd_Process example_store example_event (NewChain [LayerID ''a'']) d = (r1, d1)
    \<and> dr_Action (fst (dd_Process example_store (example_event\<lparr>ev_Path := ''/f''\<rparr>) (NewChain [LayerID ''a'']) d1)) = ActionSkip"
proof -
  obtain d where d: "NewDeduplicator (\<lambda>_ _. 0) (\<lambda>_ _. 0) example_sharded 1 (99 / 100) = Some d"
    using NewDeduplicator_built [of "\<lambda>_ _. 0" 1 "99 / 100"] by auto
  obtain r1 d1 where p: "dd_Process example_store example_event (NewChain [LayerID ''a'']) d = (r1, d1)" by fastforce
  have vis: "IsFileVisible example_store (NewChain [LayerID ''a'']) p" for p
    by (simp add: IsFileVisible_def ms_OwnerOf_def mark_defs example_store_def ch_Position_def NewChain_def
        ch_Layers_def Let_def)
  have "dr_Action r1 \<noteq> ActionExclude" using p vis by (cases rule: dd_Process_cases) simp_all
  from false_positive_loses_file [OF d _ p this, of "NewChain [LayerID ''a'']" "example_event\<lparr>ev_Path := ''/f''\<rparr>"]
  show ?thesis using d p vis by (simp add: Let_def case_prod_unfold)
qed

end
