(* ===== verification/Fs_Processor.thy ===== *)
theory Fs_Processor
  imports Fs_Merkle Fs_Overlay Fs_Access
begin

text \<open>
  The processor of fshash (\<open>pkg/fshash/processor.go\<close>, \<open>options.go\<close>, \<open>hooks.go\<close>): configuration,
  the public operations and the event pipeline, then the concurrent system of submitters,
  workers, the event channel and \<open>Close\<close> as a step relation.

  Hooks act on the state \<open>'s\<close> of the embedding program, which the operations thread through. The
  iteration order of the tracker's map and the two sorts of \<open>Finalize\<close> are arguments. The outer
  options are panics of the constructors (\<open>NewHasher\<close>) and sizing loops that do not end.
\<close>

section \<open>Configuration and hooks\<close>

record 's hooks =
  OnAccessDeduped :: "(dedup_result \<Rightarrow> 's \<Rightarrow> 's) option"
  OnHashComputed :: "(file_hash \<Rightarrow> 's \<Rightarrow> 's) option"
  OnTreeBuilt :: "(layer_id \<Rightarrow> bytes \<Rightarrow> 's \<Rightarrow> 's) option"
  OnLayerRegistered :: "(layer_id \<Rightarrow> 's \<Rightarrow> 's) option"
  OnCacheHit :: "(layer_id \<Rightarrow> string \<Rightarrow> 's \<Rightarrow> 's) option"
  OnCacheMiss :: "(layer_id \<Rightarrow> string \<Rightarrow> 's \<Rightarrow> 's) option"
  OnFileExcluded :: "(layer_id \<Rightarrow> string \<Rightarrow> 's \<Rightarrow> 's) option"

definition fireAccessDeduped :: "'s hooks \<Rightarrow> dedup_result \<Rightarrow> 's \<Rightarrow> 's" where
  "fireAccessDeduped h r w = (case OnAccessDeduped h of Some f \<Rightarrow> f r w | None \<Rightarrow> w)"

definition fireHashComputed :: "'s hooks \<Rightarrow> file_hash \<Rightarrow> 's \<Rightarrow> 's" where
  "fireHashComputed h hash w = (case OnHashComputed h of Some f \<Rightarrow> f hash w | None \<Rightarrow> w)"

definition fireTreeBuilt :: "'s hooks \<Rightarrow> layer_id \<Rightarrow> bytes \<Rightarrow> 's \<Rightarrow> 's" where
  "fireTreeBuilt h l rt w = (case OnTreeBuilt h of Some f \<Rightarrow> f l rt w | None \<Rightarrow> w)"

definition fireLayerRegistered :: "'s hooks \<Rightarrow> layer_id \<Rightarrow> 's \<Rightarrow> 's" where
  "fireLayerRegistered h l w = (case OnLayerRegistered h of Some f \<Rightarrow> f l w | None \<Rightarrow> w)"

definition fireCacheHit :: "'s hooks \<Rightarrow> layer_id \<Rightarrow> string \<Rightarrow> 's \<Rightarrow> 's" where
  "fireCacheHit h l p w = (case OnCacheHit h of Some f \<Rightarrow> f l p w | None \<Rightarrow> w)"

definition fireCacheMiss :: "'s hooks \<Rightarrow> layer_id \<Rightarrow> string \<Rightarrow> 's \<Rightarrow> 's" where
  "fireCacheMiss h l p w = (case OnCacheMiss h of Some f \<Rightarrow> f l p w | None \<Rightarrow> w)"

definition fireFileExcluded :: "'s hooks \<Rightarrow> layer_id \<Rightarrow> string \<Rightarrow> 's \<Rightarrow> 's" where
  "fireFileExcluded h l p w = (case OnFileExcluded h of Some f \<Rightarrow> f l p w | None \<Rightarrow> w)"

record 's processor_config =
  pc_hashAlgorithm :: string
  pc_cacheMaxEntries :: int
  pc_cacheShards :: int
  pc_bloomFPRate :: real
  pc_bloomExpectedItems :: uint64
  pc_workerCount :: int
  pc_channelBuffer :: int
  pc_bufferPoolSize :: int
  pc_hooks :: "'s hooks"

definition defaultConfig :: "'s processor_config" where
  "defaultConfig = \<lparr>pc_hashAlgorithm = BLAKE3, pc_cacheMaxEntries = 65536, pc_cacheShards = 16,
     pc_bloomFPRate = 1 / 1000, pc_bloomExpectedItems = 65536, pc_workerCount = 4, pc_channelBuffer = 4096,
     pc_bufferPoolSize = 32 * 1024,
     pc_hooks = \<lparr>OnAccessDeduped = None, OnHashComputed = None, OnTreeBuilt = None, OnLayerRegistered = None,
                 OnCacheHit = None, OnCacheMiss = None, OnFileExcluded = None\<rparr>\<rparr>"

definition WithHashAlgorithm :: "string \<Rightarrow> 's processor_config \<Rightarrow> 's processor_config" where
  "WithHashAlgorithm algo c = c\<lparr>pc_hashAlgorithm := algo\<rparr>"

definition WithCacheSize :: "int \<Rightarrow> 's processor_config \<Rightarrow> 's processor_config" where
  "WithCacheSize n c = (if n > 0 then c\<lparr>pc_cacheMaxEntries := n\<rparr> else c)"

definition WithCacheShards :: "int \<Rightarrow> 's processor_config \<Rightarrow> 's processor_config" where
  "WithCacheShards n c = (if n > 0 then c\<lparr>pc_cacheShards := n\<rparr> else c)"

definition WithBloomFilter :: "uint64 \<Rightarrow> real \<Rightarrow> 's processor_config \<Rightarrow> 's processor_config" where
  "WithBloomFilter n fp c =
     (let c = (if n > 0 then c\<lparr>pc_bloomExpectedItems := n\<rparr> else c)
      in if fp > 0 \<and> fp < 1 then c\<lparr>pc_bloomFPRate := fp\<rparr> else c)"

definition WithWorkerCount :: "int \<Rightarrow> 's processor_config \<Rightarrow> 's processor_config" where
  "WithWorkerCount n c = (if n > 0 then c\<lparr>pc_workerCount := n\<rparr> else c)"

definition WithChannelBuffer :: "int \<Rightarrow> 's processor_config \<Rightarrow> 's processor_config" where
  "WithChannelBuffer n c = (if n > 0 then c\<lparr>pc_channelBuffer := n\<rparr> else c)"

definition WithBufferPoolSize :: "int \<Rightarrow> 's processor_config \<Rightarrow> 's processor_config" where
  "WithBufferPoolSize n c = (if n > 0 then c\<lparr>pc_bufferPoolSize := n\<rparr> else c)"

definition WithHooks :: "'s hooks \<Rightarrow> 's processor_config \<Rightarrow> 's processor_config" where
  "WithHooks h c = c\<lparr>pc_hooks := h\<rparr>"

section \<open>The processor\<close>

text \<open>
  \<open>layers\<close> and the cache are shared by pointer between the processor, the resolver and the
  deduplicator: the store lives here and is passed to the deduplicator, the cache lives in it.
  The buffer pool of the processor is never used by it.
\<close>

record 's processor =
  pr_cfg :: "'s processor_config"
  pr_hasher :: hasher
  pr_layers :: mem_store
  pr_dedup :: dedup
  pr_interpreter :: "'s interpreter"
  pr_chains :: "string \<rightharpoonup> chain"
  pr_closed :: bool

definition NewProcessor ::
  "digests \<Rightarrow> (uint64 \<Rightarrow> real \<Rightarrow> uint64) \<Rightarrow> (uint64 \<Rightarrow> uint64 \<Rightarrow> uint64) \<Rightarrow>
   ('s processor_config \<Rightarrow> 's processor_config) list \<Rightarrow> 's processor option" where
  "NewProcessor d m_est k_est opts =
     (let cfg = fold (\<lambda>opt c. opt c) opts defaultConfig
      in case NewShardedStore (pc_cacheShards cfg) (pc_cacheMaxEntries cfg) of
           None \<Rightarrow> None
         | Some hashCache \<Rightarrow>
             (case NewDeduplicator m_est k_est hashCache (pc_bloomExpectedItems cfg) (pc_bloomFPRate cfg) of
                None \<Rightarrow> None
              | Some dedup \<Rightarrow>
                  (case NewHasher d (pc_hashAlgorithm cfg) of
                     None \<Rightarrow> None
                   | Some hasher \<Rightarrow>
                       Some \<lparr>pr_cfg = cfg, pr_hasher = hasher, pr_layers = NewMemoryStore, pr_dedup = dedup,
                             pr_interpreter = NewInterpreter [], pr_chains = Map.empty, pr_closed = False\<rparr>)))"

text \<open>
  \<open>RegisterLayer\<close> is two critical sections: \<open>Register\<close> of the layer store, under the store's lock, and
  the construction of the chain, under \<open>chainMu\<close>. Run without interruption they are \<open>RegisterLayer\<close>.
\<close>

definition RegisterLayer_store :: "layer_id \<Rightarrow> layer_id \<Rightarrow> 's processor \<Rightarrow> fs_error option \<times> 's processor" where
  "RegisterLayer_store lid parentID p =
     (case ms_Register (pr_layers p) lid parentID of
        Inl e \<Rightarrow> (Some e, p)
      | Inr s \<Rightarrow> (None, p\<lparr>pr_layers := s\<rparr>))"

definition RegisterLayer_chain :: "layer_id \<Rightarrow> layer_id \<Rightarrow> 's processor \<Rightarrow> 's \<Rightarrow> 's processor \<times> 's" where
  "RegisterLayer_chain lid parentID p w =
     (let builder = NewChainBuilder;
          builder = (if \<not> layer_IsZero parentID
                     then (case pr_chains p (digest parentID) of
                             Some parentChain \<Rightarrow> fold cb_Push (ch_Layers parentChain) builder
                           | None \<Rightarrow> builder)
                     else builder);
          builder = cb_Push lid builder;
          p = p\<lparr>pr_chains := (pr_chains p)(digest lid \<mapsto> cb_Build builder)\<rparr>
      in (p, fireLayerRegistered (pc_hooks (pr_cfg p)) lid w))"

definition RegisterLayer ::
  "layer_id \<Rightarrow> layer_id \<Rightarrow> 's processor \<Rightarrow> 's \<Rightarrow> fs_error option \<times> 's processor \<times> 's" where
  "RegisterLayer lid parentID p w =
     (if pr_closed p then (Some ErrClosed, p, w)
      else case RegisterLayer_store lid parentID p of
             (Some e, p) \<Rightarrow> (Some e, p, w)
           | (None, p) \<Rightarrow> (None, RegisterLayer_chain lid parentID p w))"
definition lift_mark :: "(mem_store \<Rightarrow> layer_id \<Rightarrow> string \<Rightarrow> fs_error + mem_store) \<Rightarrow>
    layer_id \<Rightarrow> string \<Rightarrow> 's processor \<Rightarrow> fs_error option \<times> 's processor" where
  "lift_mark mark l path p =
     (if pr_closed p then (Some ErrClosed, p)
      else case mark (pr_layers p) l path of Inl e \<Rightarrow> (Some e, p) | Inr s \<Rightarrow> (None, p\<lparr>pr_layers := s\<rparr>))"

definition proc_MarkModified :: "layer_id \<Rightarrow> string \<Rightarrow> 's processor \<Rightarrow> fs_error option \<times> 's processor" where
  "proc_MarkModified = lift_mark ms_MarkModified"

definition proc_MarkDeleted :: "layer_id \<Rightarrow> string \<Rightarrow> 's processor \<Rightarrow> fs_error option \<times> 's processor" where
  "proc_MarkDeleted = lift_mark ms_MarkDeleted"

definition proc_MarkOpaque :: "layer_id \<Rightarrow> string \<Rightarrow> 's processor \<Rightarrow> fs_error option \<times> 's processor" where
  "proc_MarkOpaque = lift_mark ms_MarkOpaque"

definition proc_Chain :: "'s processor \<Rightarrow> layer_id \<Rightarrow> chain option" where
  "proc_Chain p l = pr_chains p (digest l)"

definition proc_Stats :: "'s processor \<Rightarrow> processor_stats" where
  "proc_Stats p =
     (let dedupStats = dd_Stats (pr_dedup p); cacheStats = ss_Stats (dd_cache (pr_dedup p))
      in dedupStats\<lparr>st_CacheHits := cs_Hits cacheStats, st_CacheMisses := cs_Misses cacheStats\<rparr>)"

text \<open>The body of the mutation loop of \<open>processEvent\<close>; \<open>event.Path\<close> is updated along the loop.\<close>

definition process_mutation ::
  "chain \<Rightarrow> mutation \<Rightarrow> access_event \<times> 's processor \<times> 's \<Rightarrow> access_event \<times> 's processor \<times> 's" where
  "process_mutation c m = (\<lambda>(event, p, w).
     (let h = pc_hooks (pr_cfg p)
      in if mu_Kind m = MutationDeleted
         then (event, snd (proc_MarkDeleted (mu_LayerID m) (mu_Path m) p),
               fireFileExcluded h (mu_LayerID m) (ev_Path event) w)
         else if mu_Kind m = MutationOpaqued
         then (event, snd (proc_MarkOpaque (mu_LayerID m) (mu_Path m) p), w)
         else if mu_Kind m = MutationModified
         then
           (let event = event\<lparr>ev_Path := mu_Path m\<rparr>;
                (result, d) = dd_Process (pr_layers p) event c (pr_dedup p);
                p = p\<lparr>pr_dedup := d\<rparr>;
                (p, w) =
                  (if dr_Action result = ActionCompute
                   then
                     (let hash = (case ev_Data event of
                                    Some data \<Rightarrow> h_Hash (pr_hasher p) data
                                  | None \<Rightarrow> h_Hash (pr_hasher p) (bytes_of_string (ev_Path event)));
                          fileHash = \<lparr>fh_Path = ev_Path event, fh_Hash = hash,
                                      fh_Algorithm = h_Algorithm (pr_hasher p), fh_LayerID = ev_LayerID event,
                                      fh_Size = (case ev_Data event of Some data \<Rightarrow> int (length data) | None \<Rightarrow> 0)\<rparr>;
                          p = p\<lparr>pr_dedup := dd_RecordComputed fileHash (pr_dedup p)\<rparr>;
                          w = fireHashComputed h fileHash w;
                          w = fireCacheMiss h (ev_LayerID event) (ev_Path event) w
                      in (p, w))
                   else if dr_Action result = ActionReuse
                   then (p, fireCacheHit h (ev_LayerID event) (ev_Path event) w)
                   else if dr_Action result = ActionSkip then (p, w)
                   else if dr_Action result = ActionExclude
                   then (p, fireFileExcluded h (ev_LayerID event) (ev_Path event) w)
                   else (p, w))
            in (event, p, fireAccessDeduped h result w))
         else (event, p, w)))"

definition processEvent :: "access_event \<Rightarrow> 's processor \<Rightarrow> 's \<Rightarrow> fs_error option \<times> 's processor \<times> 's" where
  "processEvent event p w =
     (case proc_Chain p (ev_LayerID event) of
        None \<Rightarrow> (Some (ErrLayerNotFound (digest (ev_LayerID event))), p, w)
      | Some c \<Rightarrow>
          (let (mutations, w) = Interpret (pr_interpreter p) event w;
               (_, p, w) = fold (process_mutation c) mutations (event, p, w)
           in (None, p, w)))"

definition proc_Finalize ::
  "digests \<Rightarrow> (string set \<Rightarrow> string list) \<Rightarrow> (file_hash list \<Rightarrow> file_hash list) \<Rightarrow>
   (merkle_node list \<Rightarrow> merkle_node list) \<Rightarrow> layer_id \<Rightarrow> 's processor \<Rightarrow> 's \<Rightarrow>
   ((fs_error + merkle_node) \<times> 's processor \<times> 's) option" where
  "proc_Finalize d enum sort_hashes sort_nodes layerID p w =
     (if pr_closed p then Some (Inl ErrClosed, p, w)
      else
        (let hashes = dd_FileHashes enum layerID (pr_dedup p)
         in if length hashes = 0
            then Some (Inl (ErrTreeEmpty (''no files tracked for layer '' @ digest layerID)), p, w)
            else
              (let hashes = sort_hashes hashes
               in case NewTree d [WithTreeAlgorithm (pc_hashAlgorithm (pr_cfg p))] of
                    None \<Rightarrow> None
                  | Some tree \<Rightarrow>
                      (let tree = fold (\<lambda>h. tree_Insert (fh_Path h) (fh_Hash h) (fh_LayerID h)) hashes tree
                       in case Build sort_nodes tree of
                            None \<Rightarrow> None
                          | Some (Inl e, _) \<Rightarrow> Some (Inl e, p, w)
                          | Some (Inr rt, _) \<Rightarrow>
                              Some (Inr rt, p\<lparr>pr_dedup := dd_ResetSession (pr_dedup p)\<rparr>,
                                fireTreeBuilt (pc_hooks (pr_cfg p)) layerID (n_Hash rt) w)))))"

section \<open>The concurrent system\<close>

text \<open>
  Submitters, workers and \<open>Close\<close> interleave. \<open>Submit\<close> and \<open>SubmitAsync\<close> are two steps, as in
  the code: the test of \<open>closed\<close> with the validation, and the send on the channel, between which
  anything may happen; a cancelled context ends the call at the second step. \<open>Close\<close> is two steps
  too: the compare-and-swap of \<open>closed\<close> and the closing of the channel, after which the workers
  drain it. Sending on the closed channel panics, which ends the program. \<open>RegisterLayer\<close> is three:
  the test of \<open>closed\<close>, the registration in the store (which ends the call when it fails) and the
  construction of the chain; \<open>sy_registering\<close> holds the calls between two of them. The other
  operations are one step each: the marks take one lock for their effect, and for \<open>Finalize\<close> and the
  processing of one event, which take several locks in turn, this is a coarser atomicity than the
  code's. \<open>rq_reply\<close> names the reply channel of a blocking \<open>Submit\<close>. The guard \<open>G\<close> restricts the
  events workers take; it is \<open>\<lambda>_ _. True\<close> for the program as it is.
\<close>

datatype register_call = RegisterChecked layer_id layer_id | RegisterStored layer_id layer_id
record request =
  rq_event :: access_event
  rq_reply :: "nat option"

record 's system =
  sy_proc :: "'s processor"
  sy_world :: 's
  sy_registering :: "register_call list"
  sy_pending :: "request list"
  sy_queue :: "request list"
  sy_chan_closed :: bool
  sy_replies :: "(nat \<times> fs_error option) list"
  sy_panic :: bool

definition init_system :: "'s processor \<Rightarrow> 's \<Rightarrow> 's system" where
  "init_system p w = \<lparr>sy_proc = p, sy_world = w, sy_registering = [], sy_pending = [], sy_queue = [], sy_chan_closed = False,
     sy_replies = [], sy_panic = False\<rparr>"

definition submit_check :: "access_event \<Rightarrow> 's processor \<Rightarrow> fs_error option" where
  "submit_check e p = (if pr_closed p then Some ErrClosed else Validate e)"

definition proc_CloseFlag :: "'s processor \<Rightarrow> 's processor option" where
  "proc_CloseFlag p = (if pr_closed p then None else Some (p\<lparr>pr_closed := True\<rparr>))"

text \<open>One iteration of a worker: take the head of the channel, process it, answer.\<close>

definition worker_step :: "'s system \<Rightarrow> 's system" where
  "worker_step st =
     (case sy_queue st of
        [] \<Rightarrow> st
      | req # q \<Rightarrow>
          (let (err, p, w) = processEvent (rq_event req) (sy_proc st) (sy_world st)
           in st\<lparr>sy_proc := p, sy_world := w, sy_queue := q,
                 sy_replies := (case rq_reply req of Some i \<Rightarrow> sy_replies st @ [(i, err)] | None \<Rightarrow> sy_replies st)\<rparr>))"

inductive sys_step :: "('s processor \<Rightarrow> access_event \<Rightarrow> bool) \<Rightarrow> 's system \<Rightarrow> 's system \<Rightarrow> bool"
  for G :: "'s processor \<Rightarrow> access_event \<Rightarrow> bool" where
  step_register: "\<not> sy_panic st \<Longrightarrow> \<not> pr_closed (sy_proc st) \<Longrightarrow>
     sys_step G st (st\<lparr>sy_registering := sy_registering st @ [RegisterChecked l parent]\<rparr>)"
| step_register_store: "\<not> sy_panic st \<Longrightarrow> sy_registering st = us @ RegisterChecked l parent # vs \<Longrightarrow>
     RegisterLayer_store l parent (sy_proc st) = (err, p) \<Longrightarrow>
     sys_step G st (st\<lparr>sy_proc := p,
       sy_registering := us @ (if err = None then [RegisterStored l parent] else []) @ vs\<rparr>)"
| step_register_chain: "\<not> sy_panic st \<Longrightarrow> sy_registering st = us @ RegisterStored l parent # vs \<Longrightarrow>
     RegisterLayer_chain l parent (sy_proc st) (sy_world st) = (p, w) \<Longrightarrow>
     sys_step G st (st\<lparr>sy_proc := p, sy_world := w, sy_registering := us @ vs\<rparr>)"
| step_modified: "\<not> sy_panic st \<Longrightarrow> proc_MarkModified l path (sy_proc st) = (err, p) \<Longrightarrow>
     sys_step G st (st\<lparr>sy_proc := p\<rparr>)"
| step_deleted: "\<not> sy_panic st \<Longrightarrow> proc_MarkDeleted l path (sy_proc st) = (err, p) \<Longrightarrow>
     sys_step G st (st\<lparr>sy_proc := p\<rparr>)"
| step_opaque: "\<not> sy_panic st \<Longrightarrow> proc_MarkOpaque l path (sy_proc st) = (err, p) \<Longrightarrow>
     sys_step G st (st\<lparr>sy_proc := p\<rparr>)"
| step_finalize: "\<not> sy_panic st \<Longrightarrow>
     proc_Finalize d enum sort_hashes sort_nodes l (sy_proc st) (sy_world st) = Some (res, p, w) \<Longrightarrow>
     sys_step G st (st\<lparr>sy_proc := p, sy_world := w\<rparr>)"
| step_submit: "\<not> sy_panic st \<Longrightarrow> submit_check (rq_event req) (sy_proc st) = None \<Longrightarrow>
     sys_step G st (st\<lparr>sy_pending := sy_pending st @ [req]\<rparr>)"
| step_send: "\<not> sy_panic st \<Longrightarrow> sy_pending st = us @ req # vs \<Longrightarrow> \<not> sy_chan_closed st \<Longrightarrow>
     int (length (sy_queue st)) < pc_channelBuffer (pr_cfg (sy_proc st)) \<Longrightarrow>
     sys_step G st (st\<lparr>sy_pending := us @ vs, sy_queue := sy_queue st @ [req]\<rparr>)"
| step_cancel: "\<not> sy_panic st \<Longrightarrow> sy_pending st = us @ req # vs \<Longrightarrow>
     sys_step G st (st\<lparr>sy_pending := us @ vs\<rparr>)"
| step_send_panic: "\<not> sy_panic st \<Longrightarrow> sy_pending st \<noteq> [] \<Longrightarrow> sy_chan_closed st \<Longrightarrow>
     sys_step G st (st\<lparr>sy_panic := True\<rparr>)"
| step_work: "\<not> sy_panic st \<Longrightarrow> sy_queue st = req # q \<Longrightarrow> G (sy_proc st) (rq_event req) \<Longrightarrow>
     sys_step G st (worker_step st)"
| step_close: "\<not> sy_panic st \<Longrightarrow> proc_CloseFlag (sy_proc st) = Some p \<Longrightarrow>
     sys_step G st (st\<lparr>sy_proc := p\<rparr>)"
| step_close_chan: "\<not> sy_panic st \<Longrightarrow> pr_closed (sy_proc st) \<Longrightarrow> \<not> sy_chan_closed st \<Longrightarrow>
     sys_step G st (st\<lparr>sy_chan_closed := True\<rparr>)"

abbreviation sys_reach :: "('s processor \<Rightarrow> access_event \<Rightarrow> bool) \<Rightarrow> 's system \<Rightarrow> 's system \<Rightarrow> bool" where
  "sys_reach G \<equiv> (sys_step G)\<^sup>*\<^sup>*"

section \<open>What processing an event changes\<close>

text \<open>The parts of a processor that events leave alone, and the marks they only add to.\<close>

definition same_frame :: "'s processor \<Rightarrow> 's processor \<Rightarrow> bool" where
  "same_frame p p' \<longleftrightarrow> pr_cfg p' = pr_cfg p \<and> pr_hasher p' = pr_hasher p \<and> pr_chains p' = pr_chains p
     \<and> pr_closed p' = pr_closed p \<and> pr_interpreter p' = pr_interpreter p
     \<and> ms_Parent (pr_layers p') = ms_Parent (pr_layers p) \<and> ms_Exists (pr_layers p') = ms_Exists (pr_layers p)"

lemma same_frame_refl [simp]: "same_frame p p"
  by (simp add: same_frame_def)

lemma same_frame_trans: "same_frame p q \<Longrightarrow> same_frame q r \<Longrightarrow> same_frame p r"
  by (simp add: same_frame_def)

lemma marks_keep_parents:
  "ms_MarkModified s l p = Inr s' \<Longrightarrow> ms_Parent s' = ms_Parent s \<and> ms_Exists s' = ms_Exists s"
  "ms_MarkDeleted s l p = Inr s' \<Longrightarrow> ms_Parent s' = ms_Parent s \<and> ms_Exists s' = ms_Exists s"
  "ms_MarkOpaque s l p = Inr s' \<Longrightarrow> ms_Parent s' = ms_Parent s \<and> ms_Exists s' = ms_Exists s"
  by (auto simp: mark_defs ms_Parent_def fun_eq_iff split: option.splits if_splits)

lemma proc_marks_frame:
  "same_frame p (snd (proc_MarkModified l q p))" "same_frame p (snd (proc_MarkDeleted l q p))"
  "same_frame p (snd (proc_MarkOpaque l q p))"
  using marks_keep_parents
  by (auto simp: proc_MarkModified_def proc_MarkDeleted_def proc_MarkOpaque_def lift_mark_def same_frame_def
      split: sum.splits)

lemma proc_marks_dedup [simp]:
  "pr_dedup (snd (proc_MarkModified l q p)) = pr_dedup p" "pr_dedup (snd (proc_MarkDeleted l q p)) = pr_dedup p"
  "pr_dedup (snd (proc_MarkOpaque l q p)) = pr_dedup p"
  by (auto simp: proc_MarkModified_def proc_MarkDeleted_def proc_MarkOpaque_def lift_mark_def split: sum.splits)

lemma process_mutation_frame: "same_frame p (fst (snd (process_mutation c m (e, p, w))))"
proof -
  have "same_frame p (p\<lparr>pr_dedup := d\<rparr>)" for d by (simp add: same_frame_def)
  then show ?thesis
    using proc_marks_frame [of p] by (auto simp: process_mutation_def Let_def split: prod.splits)
qed

lemma fold_mutation_frame: "same_frame p (fst (snd (fold (process_mutation c) ms (e, p, w))))"
proof (induction ms arbitrary: e p w)
  case (Cons m ms)
  obtain e' p' w' where m: "process_mutation c m (e, p, w) = (e', p', w')" by (metis prod_cases3)
  then have "same_frame p p'" using process_mutation_frame [of p c m e w] by simp
  then show ?case using Cons.IH [of p' e' w'] m by (auto intro: same_frame_trans)
qed simp

lemma processEvent_frame: "same_frame p (fst (snd (processEvent e p w)))"
proof (cases "proc_Chain p (ev_LayerID e)")
  case (Some c)
  obtain ms w1 where i: "Interpret (pr_interpreter p) e w = (ms, w1)" by fastforce
  obtain e' p' w' where f: "fold (process_mutation c) ms (e, p, w1) = (e', p', w')" by (metis prod_cases3)
  then show ?thesis using Some i fold_mutation_frame [of p c ms e w1] by (simp add: processEvent_def)
qed (simp add: processEvent_def)

section \<open>Chains follow the registered parents\<close>

text \<open>
  Lists of layers, top first. In \<open>parent_path\<close> each layer's registered parent is the next one; in
  \<open>up_path\<close> the list also ends at a layer without a parent, so that it holds all the ancestors.
\<close>

fun parent_path :: "mem_store \<Rightarrow> layer_id list \<Rightarrow> bool" where
  "parent_path s [] = False"
| "parent_path s [l] = ms_Exists s l"
| "parent_path s (l # l' # ls) = (ms_Parent s l = Inr l' \<and> \<not> layer_IsZero l' \<and> parent_path s (l' # ls))"

fun up_path :: "mem_store \<Rightarrow> layer_id list \<Rightarrow> bool" where
  "up_path s [] = False"
| "up_path s [l] = (\<exists>parent. ms_Parent s l = Inr parent \<and> layer_IsZero parent)"
| "up_path s (l # l' # ls) = (ms_Parent s l = Inr l' \<and> \<not> layer_IsZero l' \<and> up_path s (l' # ls))"

text \<open>
  The processor and the registrations in progress: a layer is in the store when it has a chain or its
  call is between its two sections, never both; the chain of a layer is a path of registered parents
  through layers that have chains themselves.
\<close>

definition chain_ok :: "'s processor \<Rightarrow> string \<Rightarrow> chain \<Rightarrow> bool" where
  "chain_ok p k c \<longleftrightarrow> (\<exists>ls. c = NewChain ls \<and> distinct ls \<and> parent_path (pr_layers p) (rev ls)
     \<and> digest (last ls) = k \<and> (\<forall>l \<in> set ls. pr_chains p (digest l) \<noteq> None))"

definition stored_layers :: "register_call list \<Rightarrow> layer_id list" where
  "stored_layers R = concat (map (\<lambda>c. case c of RegisterStored l _ \<Rightarrow> [l] | RegisterChecked _ _ \<Rightarrow> []) R)"

definition chains_ok :: "register_call list \<Rightarrow> 's processor \<Rightarrow> bool" where
  "chains_ok R p \<longleftrightarrow>
     (\<forall>k c. pr_chains p k = Some c \<longrightarrow> chain_ok p k c)
     \<and> (\<forall>l. ms_Exists (pr_layers p) l \<longleftrightarrow> pr_chains p (digest l) \<noteq> None \<or> l \<in> set (stored_layers R))
     \<and> (\<forall>l parent. RegisterStored l parent \<in> set R \<longrightarrow> ms_Parent (pr_layers p) l = Inr parent)
     \<and> (\<forall>l \<in> set (stored_layers R). pr_chains p (digest l) = None)
     \<and> distinct (stored_layers R)"

lemma stored_layers_simps [simp]:
  "stored_layers [] = []" "stored_layers (R @ R') = stored_layers R @ stored_layers R'"
  "stored_layers (RegisterStored l parent # R) = l # stored_layers R"
  "stored_layers (RegisterChecked l parent # R) = stored_layers R"
  by (simp_all add: stored_layers_def)

lemma stored_layers_iff: "l \<in> set (stored_layers R) \<longleftrightarrow> (\<exists>parent. RegisterStored l parent \<in> set R)"
  by (fastforce simp: stored_layers_def split: register_call.splits)

lemma Parent_Exists: "ms_Parent s l = Inr parent \<Longrightarrow> ms_Exists s l"
  by (auto simp: ms_Parent_def getManifest_def ms_Exists_def split: option.splits)

lemma parent_path_Exists: "parent_path s ls \<Longrightarrow> l \<in> set ls \<Longrightarrow> ms_Exists s l"
  by (induction s ls rule: parent_path.induct) (auto intro: Parent_Exists)

lemma parent_path_cong:
  "(\<And>l. l \<in> set ls \<Longrightarrow> ms_Parent s' l = ms_Parent s l \<and> ms_Exists s' l = ms_Exists s l) \<Longrightarrow>
     parent_path s' ls = parent_path s ls"
  by (induction s ls rule: parent_path.induct) auto

lemma up_path_cong:
  "(\<And>l. l \<in> set ls \<Longrightarrow> ms_Parent s' l = ms_Parent s l) \<Longrightarrow> up_path s' ls = up_path s ls"
  by (induction s ls rule: up_path.induct) auto

lemma up_path_Exists: "up_path s ls \<Longrightarrow> l \<in> set ls \<Longrightarrow> ms_Exists s l"
  by (induction s ls rule: up_path.induct) (auto intro: Parent_Exists)

lemma chains_ok_frame: "same_frame p p' \<Longrightarrow> chains_ok R p \<Longrightarrow> chains_ok R p'"
  using parent_path_cong [of _ "pr_layers p'" "pr_layers p"]
  unfolding chains_ok_def chain_ok_def same_frame_def by metis

lemma Register_Parent:
  assumes "ms_Register s l parent = Inr s'"
  shows "ms_Parent s' l' = (if l' = l then Inr parent else ms_Parent s l')"
  using assms by (auto simp: ms_Register_def ms_Parent_def getManifest_def split: if_splits option.splits)

lemma Register_path:
  assumes "ms_Register s l parent = Inr s'" "parent_path s ls"
  shows "parent_path s' ls"
proof -
  have "l \<notin> set ls" using parent_path_Exists [OF assms(2)] Register_fresh [OF assms(1)] by blast
  then show ?thesis
    using assms(2) Register_Exists [OF assms(1)]
    by (subst parent_path_cong [of _ s' s]) (auto simp: Register_Parent [OF assms(1)])
qed

lemma Register_up_path:
  assumes "ms_Register s l parent = Inr s'" "up_path s ls"
  shows "up_path s' ls"
proof -
  have "l \<notin> set ls" using up_path_Exists [OF assms(2)] Register_fresh [OF assms(1)] by blast
  then show ?thesis using assms(2) by (subst up_path_cong [of _ s' s]) (auto simp: Register_Parent [OF assms(1)])
qed
lemma cb_Push_fold: "cb_layers (fold cb_Push ls b) = cb_layers b @ ls"
  by (induction ls arbitrary: b) (simp_all add: cb_Push_def)

text \<open>The first section registers the layer and leaves the call between the two.\<close>

lemma RegisterLayer_store_cases:
  assumes "RegisterLayer_store l parent p = (err, p')"
  obtains (failed) e where "err = Some e" "p' = p"
  | (stored) s where "err = None" "ms_Register (pr_layers p) l parent = Inr s" "p' = p\<lparr>pr_layers := s\<rparr>"
  using assms by (auto simp: RegisterLayer_store_def split: sum.splits)

lemma chains_ok_store:
  assumes "chains_ok (us @ RegisterChecked l parent # vs) p" "RegisterLayer_store l parent p = (err, p')"
  shows "chains_ok (us @ (if err = None then [RegisterStored l parent] else []) @ vs) p'"
  using assms(2)
proof (cases rule: RegisterLayer_store_cases)
  case failed
  then show ?thesis using assms(1) by (simp add: chains_ok_def)
next
  case (stored s)
  have new: "l \<notin> set (stored_layers us)" "l \<notin> set (stored_layers vs)" "pr_chains p (digest l) = None"
    using assms(1) Register_fresh [OF stored(2)] by (auto simp: chains_ok_def)
  have "l' \<noteq> l" if "RegisterStored l' par \<in> set us \<union> set vs" for l' par
    using new that stored_layers_iff by blast
  moreover have "chain_ok p' k c" if "chain_ok p k c" for k c
    using that Register_path [OF stored(2)] unfolding chain_ok_def stored(3) by fastforce
  ultimately show ?thesis
    using assms(1) new Register_Exists [OF stored(2)]
    unfolding chains_ok_def by (auto simp: stored Register_Parent [OF stored(2)])
qed

text \<open>The second gives the layer its chain: the parent's chain, when there is one, and the layer.\<close>

definition parent_layers :: "layer_id \<Rightarrow> 's processor \<Rightarrow> layer_id list" where
  "parent_layers parent p =
     (if layer_IsZero parent then []
      else case pr_chains p (digest parent) of Some c \<Rightarrow> ch_Layers c | None \<Rightarrow> [])"

lemma RegisterLayer_chain_eq:
  "RegisterLayer_chain l parent p w
    = (p\<lparr>pr_chains := (pr_chains p)(digest l \<mapsto> NewChain (parent_layers parent p @ [l]))\<rparr>,
       fireLayerRegistered (pc_hooks (pr_cfg p)) l w)"
proof -
  have "cb_Build (cb_Push l (fold cb_Push ls NewChainBuilder)) = NewChain (ls @ [l])" for ls
    by (simp add: cb_Build_def cb_Push_def [of l] cb_Push_fold NewChainBuilder_def)
  from this this [of "[]"] show ?thesis
    by (simp add: RegisterLayer_chain_def Let_def parent_layers_def split: option.split)
qed

lemma parent_layers_cases:
  assumes "chains_ok R p"
  obtains "parent_layers parent p = []" "layer_IsZero parent \<or> pr_chains p (digest parent) = None"
  | ls where "parent_layers parent p = ls" "\<not> layer_IsZero parent" "pr_chains p (digest parent) = Some (NewChain ls)"
      "distinct ls" "ls \<noteq> []" "last ls = parent" "parent_path (pr_layers p) (rev ls)" "\<forall>l \<in> set ls. pr_chains p (digest l) \<noteq> None"
proof (cases "layer_IsZero parent \<or> pr_chains p (digest parent) = None")
  case True
  then show thesis using that(1) by (auto simp: parent_layers_def)
next
  case False
  then obtain c where c: "pr_chains p (digest parent) = Some c" by auto
  then obtain ls where ls: "c = NewChain ls" "distinct ls" "parent_path (pr_layers p) (rev ls)"
      "digest (last ls) = digest parent" "\<forall>l \<in> set ls. pr_chains p (digest l) \<noteq> None"
    using assms unfolding chains_ok_def chain_ok_def by blast
  have "ls \<noteq> []" using ls(3) by auto
  then show thesis using that(2) [of ls] False c ls by (simp add: parent_layers_def digest_eq_iff)
qed

lemma chains_ok_chain:
  assumes "chains_ok (us @ RegisterStored l parent # vs) p" "RegisterLayer_chain l parent p w = (p', w')"
  shows "chains_ok (us @ vs) p'"
proof -
  let ?ls = "parent_layers parent p"
  have p': "p' = p\<lparr>pr_chains := (pr_chains p)(digest l \<mapsto> NewChain (?ls @ [l]))\<rparr>"
    using assms(2) by (simp add: RegisterLayer_chain_eq)
  have l: "ms_Parent (pr_layers p) l = Inr parent" "pr_chains p (digest l) = None"
      "l \<notin> set (stored_layers us)" "l \<notin> set (stored_layers vs)"
    using assms(1) by (auto simp: chains_ok_def)
  have "chain_ok p' (digest l) (NewChain (?ls @ [l]))"
    using assms(1)
  proof (cases rule: parent_layers_cases [of _ _ parent])
    case 1
    then show ?thesis using Parent_Exists [OF l(1)] by (auto simp: chain_ok_def p' intro!: exI [of _ "[l]"])
  next
    case (2 ls)
    then obtain ms where "rev ls = parent # ms" by (cases ls rule: rev_cases) auto
    moreover have "l \<notin> set ls" using 2(8) l(2) by auto
    ultimately have "distinct (ls @ [l]) \<and> parent_path (pr_layers p) (rev (ls @ [l]))" using 2(1-4,7) l(1) by auto
    then show ?thesis using 2(1,8) by (auto simp: chain_ok_def p' intro!: exI [of _ "ls @ [l]"])
  qed
  moreover have "chain_ok p' k c" if "pr_chains p k = Some c" for k c
  proof -
    have "chain_ok p k c" using assms(1) that by (simp add: chains_ok_def)
    then show ?thesis unfolding chain_ok_def p' by auto
  qed
  ultimately have "\<forall>k c. pr_chains p' k = Some c \<longrightarrow> chain_ok p' k c" by (simp add: p')
  moreover have "\<forall>l' \<in> set (stored_layers (us @ vs)). l' \<noteq> l" using l(3,4) by auto
  ultimately show ?thesis
    using assms(1) unfolding chains_ok_def by (auto simp: p' digest_eq_iff)
qed

text \<open>
  Complete chains. When every call waits until its parent has a chain, all chains reach down to a
  layer without a parent.
\<close>

definition waits_for_parent :: "'s system \<Rightarrow> 's system \<Rightarrow> bool" where
  "waits_for_parent st st' \<longleftrightarrow>
     (\<forall>l parent. sy_registering st' = sy_registering st @ [RegisterChecked l parent] \<longrightarrow>
        layer_IsZero parent \<or> proc_Chain (sy_proc st) parent \<noteq> None)"

definition ordered_step :: "('s processor \<Rightarrow> access_event \<Rightarrow> bool) \<Rightarrow> 's system \<Rightarrow> 's system \<Rightarrow> bool" where
  "ordered_step G st st' \<longleftrightarrow> sys_step G st st' \<and> waits_for_parent st st'"

definition parent_ready :: "'s processor \<Rightarrow> register_call \<Rightarrow> bool" where
  "parent_ready p c = (case c of
      RegisterChecked l parent \<Rightarrow> layer_IsZero parent \<or> pr_chains p (digest parent) \<noteq> None
    | RegisterStored l parent \<Rightarrow> layer_IsZero parent \<or> pr_chains p (digest parent) \<noteq> None)"

definition chains_complete :: "register_call list \<Rightarrow> 's processor \<Rightarrow> bool" where
  "chains_complete R p \<longleftrightarrow>
     (\<forall>k c. pr_chains p k = Some c \<longrightarrow> up_path (pr_layers p) (rev (ch_Layers c)))
     \<and> (\<forall>c \<in> set R. parent_ready p c)"

lemma parent_ready_simps [simp]:
  "parent_ready p (RegisterChecked l parent) \<longleftrightarrow> layer_IsZero parent \<or> pr_chains p (digest parent) \<noteq> None"
  "parent_ready p (RegisterStored l parent) \<longleftrightarrow> layer_IsZero parent \<or> pr_chains p (digest parent) \<noteq> None"
  by (simp_all add: parent_ready_def)

lemma parent_ready_mono:
  "(\<And>k. pr_chains p k \<noteq> None \<Longrightarrow> pr_chains p' k \<noteq> None) \<Longrightarrow> parent_ready p c \<Longrightarrow> parent_ready p' c"
  by (cases c) auto

lemma parent_ready_cong: "pr_chains p' = pr_chains p \<Longrightarrow> parent_ready p' = parent_ready p"
  by (simp add: parent_ready_def fun_eq_iff split: register_call.split)

lemma chains_complete_frame: "same_frame p p' \<Longrightarrow> chains_complete R p \<Longrightarrow> chains_complete R p'"
  using up_path_cong [of _ "pr_layers p'" "pr_layers p"] parent_ready_cong [of p' p]
  by (auto simp: chains_complete_def same_frame_def)

lemma chains_complete_store:
  assumes "chains_complete (us @ RegisterChecked l parent # vs) p" "RegisterLayer_store l parent p = (err, p')"
  shows "chains_complete (us @ (if err = None then [RegisterStored l parent] else []) @ vs) p'"
  using assms(2)
proof (cases rule: RegisterLayer_store_cases)
  case failed
  then show ?thesis using assms(1) by (simp add: chains_complete_def)
next
  case (stored s)
  then show ?thesis
    using assms(1) Register_up_path [OF stored(2)] parent_ready_cong [of p' p] by (auto simp: chains_complete_def)
qed

lemma chains_complete_chain:
  assumes "chains_complete (us @ RegisterStored l parent # vs) p" "chains_ok (us @ RegisterStored l parent # vs) p"
    and "RegisterLayer_chain l parent p w = (p', w')"
  shows "chains_complete (us @ vs) p'"
proof -
  let ?ls = "parent_layers parent p"
  have p': "p' = p\<lparr>pr_chains := (pr_chains p)(digest l \<mapsto> NewChain (?ls @ [l]))\<rparr>"
    using assms(3) by (simp add: RegisterLayer_chain_eq)
  have l: "ms_Parent (pr_layers p) l = Inr parent" using assms(2) by (simp add: chains_ok_def)
  have "up_path (pr_layers p) (rev (?ls @ [l]))"
    using assms(2)
  proof (cases rule: parent_layers_cases [of _ _ parent])
    case 1
    then show ?thesis using assms(1) l by (auto simp: chains_complete_def)
  next
    case (2 ls)
    then obtain ms where ms: "rev ls = parent # ms" by (cases ls rule: rev_cases) auto
    have "up_path (pr_layers p) (rev ls)" using assms(1) 2(3) unfolding chains_complete_def by fastforce
    then show ?thesis using 2 l ms by simp
  qed
  then show ?thesis
    using assms(1) parent_ready_mono [of p p'] unfolding chains_complete_def by (auto simp: p')
qed
section \<open>The invariant of the system\<close>

lemma Build_ok_proc:
  assumes "proc_Finalize d enum srt_h srt_n l p w = Some (res, p', w')"
  shows "p' = p \<or> p' = p\<lparr>pr_dedup := dd_ResetSession (pr_dedup p)\<rparr>"
  using assms by (auto simp: proc_Finalize_def Let_def split: if_splits option.splits prod.splits sum.splits)

lemma RegisterLayer_store_fields:
  assumes "RegisterLayer_store l parent p = (err, p')"
  shows "pr_hasher p' = pr_hasher p" "pr_cfg p' = pr_cfg p" "pr_dedup p' = pr_dedup p" "pr_closed p' = pr_closed p"
  using assms by (auto simp: RegisterLayer_store_def split: sum.splits)

lemma RegisterLayer_chain_fields:
  assumes "RegisterLayer_chain l parent p w = (p', w')"
  shows "pr_hasher p' = pr_hasher p" "pr_cfg p' = pr_cfg p" "pr_dedup p' = pr_dedup p" "pr_closed p' = pr_closed p"
  using assms by (auto simp: RegisterLayer_chain_eq)

definition sys_inv :: "'s system \<Rightarrow> bool" where
  "sys_inv st \<longleftrightarrow> chains_ok (sy_registering st) (sy_proc st) \<and> balanced (pr_dedup (sy_proc st))
     \<and> (sy_chan_closed st \<longrightarrow> pr_closed (sy_proc st))
     \<and> (\<forall>req \<in> set (sy_pending st) \<union> set (sy_queue st). Validate (rq_event req) = None)"

lemma balanced_Process: "balanced d \<Longrightarrow> balanced (snd (dd_Process s e c d))"
  using balanced_step [of d "DProcess s e c"] by simp

lemma balanced_RecordComputed: "balanced d \<Longrightarrow> balanced (dd_RecordComputed h d)"
  using balanced_step [of d "DRecord h"] by simp

lemma process_mutation_balanced:
  "balanced (pr_dedup p) \<Longrightarrow> balanced (pr_dedup (fst (snd (process_mutation c m (e, p, w)))))"
  using balanced_Process [of "pr_dedup p"]
  by (auto simp: process_mutation_def Let_def case_prod_unfold balanced_RecordComputed)

lemma fold_mutation_balanced:
  "balanced (pr_dedup p) \<Longrightarrow> balanced (pr_dedup (fst (snd (fold (process_mutation c) ms (e, p, w)))))"
proof (induction ms arbitrary: e p w)
  case (Cons m ms)
  obtain e' p' w' where m: "process_mutation c m (e, p, w) = (e', p', w')" by (metis prod_cases3)
  then have "balanced (pr_dedup p')" using process_mutation_balanced [OF Cons.prems, of c m e w] by simp
  then show ?case using Cons.IH [of p' e' w'] m by simp
qed simp

lemma processEvent_balanced:
  assumes "balanced (pr_dedup p)"
  shows "balanced (pr_dedup (fst (snd (processEvent e p w))))"
proof (cases "proc_Chain p (ev_LayerID e)")
  case (Some c)
  obtain ms w1 where i: "Interpret (pr_interpreter p) e w = (ms, w1)" by fastforce
  obtain e' p' w' where f: "fold (process_mutation c) ms (e, p, w1) = (e', p', w')" by (metis prod_cases3)
  then show ?thesis using Some i fold_mutation_balanced [OF assms, of c ms e w1] by (simp add: processEvent_def)
qed (use assms in \<open>simp add: processEvent_def\<close>)

lemma worker_step_fields:
  assumes "sy_queue st = req # q"
  shows "sy_proc (worker_step st) = fst (snd (processEvent (rq_event req) (sy_proc st) (sy_world st)))"
    "sy_queue (worker_step st) = q" "sy_pending (worker_step st) = sy_pending st"
    "sy_chan_closed (worker_step st) = sy_chan_closed st" "sy_panic (worker_step st) = sy_panic st"
    "sy_registering (worker_step st) = sy_registering st"
  using assms by (auto simp: worker_step_def Let_def case_prod_unfold)

lemma sys_inv_step:
  assumes "sys_step G st st'" "sys_inv st"
  shows "sys_inv st'"
  using assms
proof (induction rule: sys_step.induct)
  case (step_register st l parent)
  then show ?case by (simp add: sys_inv_def chains_ok_def)
next
  case (step_register_store st us l parent vs err p)
  have "chains_ok (us @ RegisterChecked l parent # vs) (sy_proc st)"
    using step_register_store(2,4) by (simp add: sys_inv_def)
  from chains_ok_store [OF this step_register_store(3)] show ?case
    using step_register_store(4) RegisterLayer_store_fields [OF step_register_store(3)] by (simp add: sys_inv_def)
next
  case (step_register_chain st us l parent vs p w)
  have "chains_ok (us @ RegisterStored l parent # vs) (sy_proc st)"
    using step_register_chain(2,4) by (simp add: sys_inv_def)
  from chains_ok_chain [OF this step_register_chain(3)] show ?case
    using step_register_chain(4) RegisterLayer_chain_fields [OF step_register_chain(3)] by (simp add: sys_inv_def)
next
  case (step_modified st l path err p)
  then show ?case
    using proc_marks_frame(1) [of "sy_proc st" l path] proc_marks_dedup(1) [of l path "sy_proc st"] chains_ok_frame
    by (auto simp: sys_inv_def same_frame_def)
next
  case (step_deleted st l path err p)
  then show ?case
    using proc_marks_frame(2) [of "sy_proc st" l path] proc_marks_dedup(2) [of l path "sy_proc st"] chains_ok_frame
    by (auto simp: sys_inv_def same_frame_def)
next
  case (step_opaque st l path err p)
  then show ?case
    using proc_marks_frame(3) [of "sy_proc st" l path] proc_marks_dedup(3) [of l path "sy_proc st"] chains_ok_frame
    by (auto simp: sys_inv_def same_frame_def)
next
  case (step_finalize st d enum sort_hashes sort_nodes l res p w)
  then show ?case
    using Build_ok_proc [OF step_finalize(2)]
    by (auto simp: sys_inv_def chains_ok_def chain_ok_def dd_ResetSession_def balanced_def)
next
  case (step_submit st req)
  then show ?case by (auto simp: sys_inv_def submit_check_def split: if_splits)
next
  case (step_send st us req vs)
  then show ?case by (auto simp: sys_inv_def)
next
  case (step_cancel st us req vs)
  then show ?case by (auto simp: sys_inv_def)
next
  case (step_send_panic st)
  then show ?case by (auto simp: sys_inv_def)
next
  case (step_work st req q)
  have "same_frame (sy_proc st) (sy_proc (worker_step st))"
    unfolding worker_step_fields [OF step_work(2)] by (rule processEvent_frame)
  moreover have "balanced (pr_dedup (sy_proc (worker_step st)))"
    using step_work(4) unfolding worker_step_fields [OF step_work(2)] sys_inv_def by (intro processEvent_balanced) simp
  ultimately show ?case
    using step_work worker_step_fields [OF step_work(2)] chains_ok_frame
    by (auto simp: sys_inv_def same_frame_def)
next
  case (step_close st p)
  then show ?case by (auto simp: sys_inv_def proc_CloseFlag_def chains_ok_def chain_ok_def split: if_splits)
next
  case (step_close_chan st)
  then show ?case by (auto simp: sys_inv_def)
qed

text \<open>The same steps keep the chains complete when every call waits for its parent.\<close>

lemma chains_complete_step:
  assumes "sys_step G st st'" "waits_for_parent st st'" "sys_inv st" "chains_complete (sy_registering st) (sy_proc st)"
  shows "chains_complete (sy_registering st') (sy_proc st')"
  using assms
proof (induction rule: sys_step.induct)
  case (step_register st l parent)
  then show ?case by (auto simp: chains_complete_def waits_for_parent_def proc_Chain_def)
next
  case (step_register_store st us l parent vs err p)
  then show ?case using chains_complete_store [of us l parent vs "sy_proc st"] by simp
next
  case (step_register_chain st us l parent vs p w)
  then show ?case using chains_complete_chain [of us l parent vs "sy_proc st"] by (simp add: sys_inv_def)
next
  case (step_modified st l path err p)
  then show ?case using proc_marks_frame(1) [of "sy_proc st" l path] chains_complete_frame by auto
next
  case (step_deleted st l path err p)
  then show ?case using proc_marks_frame(2) [of "sy_proc st" l path] chains_complete_frame by auto
next
  case (step_opaque st l path err p)
  then show ?case using proc_marks_frame(3) [of "sy_proc st" l path] chains_complete_frame by auto
next
  case (step_finalize st d enum sort_hashes sort_nodes l res p w)
  then show ?case
    using Build_ok_proc [OF step_finalize(2)] chains_complete_frame [of "sy_proc st" p] by (auto simp: same_frame_def)
next
  case (step_work st req q)
  then show ?case
    using chains_complete_frame [OF processEvent_frame] by (simp add: worker_step_fields [OF step_work(2)])
next
  case (step_close st p)
  then have "pr_chains p = pr_chains (sy_proc st)" "pr_layers p = pr_layers (sy_proc st)"
    by (auto simp: proc_CloseFlag_def split: if_splits)
  then show ?case using step_close parent_ready_cong [of p "sy_proc st"] by (simp add: chains_complete_def)
qed simp_all

lemma sys_inv_reach: "sys_reach G st st' \<Longrightarrow> sys_inv st \<Longrightarrow> sys_inv st'"
  by (induction rule: rtranclp_induct) (auto intro: sys_inv_step)

lemma ordered_reach: "(ordered_step G)\<^sup>*\<^sup>* st st' \<Longrightarrow> sys_reach G st st'"
  by (induction rule: rtranclp_induct) (auto simp: ordered_step_def intro: rtranclp.rtrancl_into_rtrancl)

lemma chains_complete_reach:
  "(ordered_step G)\<^sup>*\<^sup>* st st' \<Longrightarrow> sys_inv st \<Longrightarrow> chains_complete (sy_registering st) (sy_proc st) \<Longrightarrow>
     chains_complete (sy_registering st') (sy_proc st')"
proof (induction rule: rtranclp_induct)
  case (step st1 st2)
  then show ?case
    using chains_complete_step [of G st1 st2] sys_inv_reach [OF ordered_reach [OF step(1)]] by (simp add: ordered_step_def)
qed

lemma NewProcessor_fields:
  assumes "NewProcessor d m_est k_est opts = Some p"
  shows "pr_layers p = NewMemoryStore" "pr_chains p = Map.empty" "\<not> pr_closed p"
    "NewHasher d (pc_hashAlgorithm (pr_cfg p)) = Some (pr_hasher p)" "pr_interpreter p = NewInterpreter []"
    "\<exists>ss. NewShardedStore (pc_cacheShards (pr_cfg p)) (pc_cacheMaxEntries (pr_cfg p)) = Some ss
       \<and> NewDeduplicator m_est k_est ss (pc_bloomExpectedItems (pr_cfg p)) (pc_bloomFPRate (pr_cfg p)) = Some (pr_dedup p)"
  using assms by (auto simp: NewProcessor_def Let_def split: option.splits)

lemma NewDeduplicator_balanced: "NewDeduplicator m_est k_est ss n r = Some d \<Longrightarrow> balanced d"
  by (auto simp: NewDeduplicator_def balanced_def)

lemma sys_inv_init: "NewProcessor d m_est k_est opts = Some p \<Longrightarrow> sys_inv (init_system p w)"
  using NewProcessor_fields [of d m_est k_est opts p] NewDeduplicator_balanced
  by (auto simp: sys_inv_def init_system_def chains_ok_def NewMemoryStore_def ms_Exists_def)

text \<open>
  C18: in every state the concurrent system can reach from a new processor, with registrations
  interleaved in any way, a layer is in the store exactly when it has a chain or the call that
  registers it is between its two sections; its chain ends with the layer, has no repetition, and each
  layer of it is the registered parent of the next one. When moreover no call started before its
  parent had a chain, every chain holds all the ancestors, down to a base layer whose parent is
  empty. Only validated events are in flight.
\<close>

theorem system_chains_follow_parents:
  assumes "NewProcessor d m_est k_est opts = Some p0" "sys_reach G (init_system p0 w) st"
  shows "(\<forall>l. ms_Exists (pr_layers (sy_proc st)) l \<longleftrightarrow>
        proc_Chain (sy_proc st) l \<noteq> None \<or> (\<exists>parent. RegisterStored l parent \<in> set (sy_registering st)))
    \<and> (\<forall>l c. proc_Chain (sy_proc st) l = Some c \<longrightarrow>
        last (ch_Layers c) = l \<and> distinct (ch_Layers c) \<and> parent_path (pr_layers (sy_proc st)) (rev (ch_Layers c)))
    \<and> ((ordered_step G)\<^sup>*\<^sup>* (init_system p0 w) st \<longrightarrow>
        (\<forall>l c. proc_Chain (sy_proc st) l = Some c \<longrightarrow> up_path (pr_layers (sy_proc st)) (rev (ch_Layers c))))
    \<and> (\<forall>req \<in> set (sy_pending st) \<union> set (sy_queue st). Validate (rq_event req) = None)"
proof -
  have inv: "sys_inv st" using sys_inv_reach [OF assms(2) sys_inv_init [OF assms(1)]] .
  then have c: "chains_ok (sy_registering st) (sy_proc st)" by (simp add: sys_inv_def)
  have "last (ch_Layers c) = l \<and> distinct (ch_Layers c) \<and> parent_path (pr_layers (sy_proc st)) (rev (ch_Layers c))"
    if "proc_Chain (sy_proc st) l = Some c" for l c
  proof -
    have "chain_ok (sy_proc st) (digest l) c" using \<open>chains_ok _ _\<close> that by (simp add: chains_ok_def proc_Chain_def)
    then show ?thesis by (auto simp: chain_ok_def digest_eq_iff)
  qed
  moreover have "chains_complete (sy_registering st) (sy_proc st)" if "(ordered_step G)\<^sup>*\<^sup>* (init_system p0 w) st"
    by (rule chains_complete_reach [OF that sys_inv_init [OF assms(1)]])
      (use NewProcessor_fields(2) [OF assms(1)] in \<open>simp add: chains_complete_def init_system_def\<close>)
  ultimately show ?thesis
    using inv c by (auto simp: sys_inv_def chains_ok_def chains_complete_def proc_Chain_def stored_layers_iff)
qed

section \<open>Uninterrupted and overlapping registrations\<close>

text \<open>A call that runs without interruption is three steps, and has the effect of \<open>RegisterLayer\<close>.\<close>

lemma RegisterLayer_run:
  assumes "RegisterLayer l parent (sy_proc st) (sy_world st) = (None, p, w)" "\<not> sy_panic st"
    and "layer_IsZero parent \<or> proc_Chain (sy_proc st) parent \<noteq> None"
  shows "(ordered_step G)\<^sup>*\<^sup>* st (st\<lparr>sy_proc := p, sy_world := w\<rparr>)"
proof -
  let ?s1 = "st\<lparr>sy_registering := sy_registering st @ [RegisterChecked l parent]\<rparr>"
  obtain p1 where p1: "\<not> pr_closed (sy_proc st)" "RegisterLayer_store l parent (sy_proc st) = (None, p1)"
      "RegisterLayer_chain l parent p1 (sy_world st) = (p, w)"
    using assms(1) by (auto simp: RegisterLayer_def split: if_splits prod.splits option.splits)
  let ?s2 = "?s1\<lparr>sy_proc := p1, sy_registering := sy_registering st @ [RegisterStored l parent]\<rparr>"
  let ?s3 = "?s2\<lparr>sy_proc := p, sy_world := w, sy_registering := sy_registering st @ []\<rparr>"
  have "sys_step G st ?s1" by (rule step_register) (use assms(2) p1(1) in simp_all)
  moreover have "waits_for_parent st ?s1" using assms(3) by (simp add: waits_for_parent_def)
  moreover have "sys_step G ?s1 ?s2"
    using step_register_store [of ?s1 "sy_registering st" l parent "[]" None p1 G] assms(2) p1(2) by simp
  moreover have "sys_step G ?s2 ?s3"
    using step_register_chain [of ?s2 "sy_registering st" l parent "[]" p w G] assms(2) p1(3) by simp
  moreover have "waits_for_parent ?s1 ?s2" "waits_for_parent ?s2 ?s3" by (simp_all add: waits_for_parent_def)
  moreover have "?s3 = st\<lparr>sy_proc := p, sy_world := w\<rparr>" by simp
  ultimately show ?thesis
    unfolding ordered_step_def by (metis (no_types, lifting) converse_rtranclp_into_rtranclp rtranclp.rtrancl_refl)
qed

text \<open>
  Registrations that overlap can cut a chain for good: when a child is registered while the call of
  its parent is between its two sections, both calls return \<open>nil\<close> and the child's chain lacks the
  parent and all the layers below it.
\<close>

theorem overlapping_registrations_cut_chain:
  assumes "NewProcessor d m_est k_est opts = Some p0" "\<not> layer_IsZero l" "\<not> layer_IsZero parent" "l \<noteq> parent"
  shows "\<exists>st. sys_reach G (init_system p0 w) st \<and> sy_registering st = []
    \<and> ms_Parent (pr_layers (sy_proc st)) l = Inr parent
    \<and> proc_Chain (sy_proc st) parent = Some (NewChain [parent]) \<and> proc_Chain (sy_proc st) l = Some (NewChain [l])"
proof -
  let ?zero = "LayerID ''''" and ?s0 = "init_system p0 w"
  note new = NewProcessor_fields [OF assms(1)]
  have z: "layer_IsZero ?zero" by (simp add: layer_IsZero_def)
  have k: "digest l \<noteq> digest parent" using assms(4) by (simp add: digest_eq_iff)
  obtain s1 where s1: "ms_Register (pr_layers p0) parent ?zero = Inr s1"
    using new(1) assms(3) z by (simp add: ms_Register_def NewMemoryStore_def)
  then have "ms_Register s1 l parent \<in> range Inr"
    using new(1) assms(2,3) k by (auto simp: ms_Register_def NewMemoryStore_def split: if_splits)
  then obtain s2 where s2: "ms_Register s1 l parent = Inr s2" by auto
  let ?p1 = "p0\<lparr>pr_layers := s1\<rparr>" and ?p2 = "p0\<lparr>pr_layers := s2\<rparr>"
  let ?p3 = "?p2\<lparr>pr_chains := [digest l \<mapsto> NewChain [l]]\<rparr>"
  let ?p4 = "?p2\<lparr>pr_chains := [digest l \<mapsto> NewChain [l], digest parent \<mapsto> NewChain [parent]]\<rparr>"
  let ?c1 = "RegisterChecked parent ?zero" and ?c2 = "RegisterChecked l parent"
  let ?r1 = "RegisterStored parent ?zero" and ?r2 = "RegisterStored l parent"
  let ?w3 = "fireLayerRegistered (pc_hooks (pr_cfg p0)) l w"
  let ?w4 = "fireLayerRegistered (pc_hooks (pr_cfg p0)) parent ?w3"
  have e: "RegisterLayer_chain l parent ?p2 w = (?p3, ?w3)" "RegisterLayer_chain parent ?zero ?p3 ?w3 = (?p4, ?w4)"
    using new(2) z by (simp_all add: RegisterLayer_chain_eq parent_layers_def)
  have "sys_step G ?s0 (?s0\<lparr>sy_registering := [] @ [?c1]\<rparr>)"
    using step_register [of ?s0 G parent ?zero] new(3) by (simp add: init_system_def)
  moreover have "sys_step G (?s0\<lparr>sy_registering := [] @ [?c1]\<rparr>) (?s0\<lparr>sy_registering := [?c1, ?c2]\<rparr>)"
    using step_register [of "?s0\<lparr>sy_registering := [] @ [?c1]\<rparr>" G l parent] new(3) by (simp add: init_system_def)
  moreover have "sys_step G (?s0\<lparr>sy_registering := [?c1, ?c2]\<rparr>) (?s0\<lparr>sy_proc := ?p1, sy_registering := [?r1, ?c2]\<rparr>)"
    using step_register_store [of "?s0\<lparr>sy_registering := [?c1, ?c2]\<rparr>" "[]" parent ?zero "[?c2]" None ?p1 G] s1
    by (simp add: init_system_def RegisterLayer_store_def)
  moreover have "sys_step G (?s0\<lparr>sy_proc := ?p1, sy_registering := [?r1, ?c2]\<rparr>) (?s0\<lparr>sy_proc := ?p2, sy_registering := [?r1, ?r2]\<rparr>)"
    using step_register_store [of "?s0\<lparr>sy_proc := ?p1, sy_registering := [?r1, ?c2]\<rparr>" "[?r1]" l parent "[]" None ?p2 G] s2
    by (simp add: init_system_def RegisterLayer_store_def)
  moreover have "sys_step G (?s0\<lparr>sy_proc := ?p2, sy_registering := [?r1, ?r2]\<rparr>)
      (?s0\<lparr>sy_proc := ?p3, sy_world := ?w3, sy_registering := [?r1]\<rparr>)"
    using step_register_chain [of "?s0\<lparr>sy_proc := ?p2, sy_registering := [?r1, ?r2]\<rparr>" "[?r1]" l parent "[]" ?p3 ?w3 G] e(1)
    by (simp add: init_system_def)
  moreover have "sys_step G (?s0\<lparr>sy_proc := ?p3, sy_world := ?w3, sy_registering := [?r1]\<rparr>)
      (?s0\<lparr>sy_proc := ?p4, sy_world := ?w4, sy_registering := []\<rparr>)"
    using step_register_chain [of "?s0\<lparr>sy_proc := ?p3, sy_world := ?w3, sy_registering := [?r1]\<rparr>" "[]" parent ?zero "[]" ?p4 ?w4 G] e(2)
    by (simp add: init_system_def)
  ultimately have "sys_reach G ?s0 (?s0\<lparr>sy_proc := ?p4, sy_world := ?w4, sy_registering := []\<rparr>)"
    by (meson converse_rtranclp_into_rtranclp rtranclp.rtrancl_refl)
  then show ?thesis
    using k Register_Parent [OF s2, of l]
    by (intro exI [of _ "?s0\<lparr>sy_proc := ?p4, sy_world := ?w4, sy_registering := []\<rparr>"]) (simp add: proc_Chain_def)
qed
section \<open>An example run\<close>

lemma NewProcessor_built:
  assumes "NewHasher d BLAKE3 = Some h" "\<And>n r. unat (m_est n r) \<le> 2 ^ 63"
  shows "\<exists>p. NewProcessor d m_est k_est [] = Some p"
proof -
  obtain ss where ss: "NewShardedStore 16 65536 = Some ss"
    using NewShardedStore_built [of 16 65536] by auto
  obtain dd where "NewDeduplicator m_est k_est ss 65536 (1 / 1000) = Some dd"
    using NewDeduplicator_built [of m_est 65536 "1 / 1000"] assms(2) by blast
  then show ?thesis using ss assms(1) by (simp add: NewProcessor_def defaultConfig_def Let_def)
qed

lemma example_processor:
  obtains p :: "'s processor" where "NewProcessor example_digests (\<lambda>_ _. 1000) (\<lambda>_ _. 7) [] = Some p"
    "pr_cfg p = defaultConfig"
proof -
  obtain p :: "'s processor" where p: "NewProcessor example_digests (\<lambda>_ _. 1000) (\<lambda>_ _. 7) [] = Some p"
    using NewProcessor_built [of example_digests "blake3Hasher example_digests" "\<lambda>_ _. 1000"]
    by (auto simp: NewHasher_def BLAKE3_def SHA256_def)
  then have "pr_cfg p = defaultConfig" by (auto simp: NewProcessor_def Let_def split: option.splits)
  with p show thesis by (rule that)
qed

text \<open>A base layer and a layer over it, registered one after the other.\<close>

lemma example_registered:
  obtains p0 p :: "unit processor" where "NewProcessor example_digests (\<lambda>_ _. 1000) (\<lambda>_ _. 7) [] = Some p0"
    "(ordered_step G)\<^sup>*\<^sup>* (init_system p0 ()) ((init_system p0 ())\<lparr>sy_proc := p\<rparr>)"
    "proc_Chain p (LayerID ''b'') = Some (NewChain [LayerID ''a'', LayerID ''b''])"
proof -
  obtain p0 :: "unit processor" where p0: "NewProcessor example_digests (\<lambda>_ _. 1000) (\<lambda>_ _. 7) [] = Some p0"
    by (rule example_processor)
  let ?a = "LayerID ''a''" and ?b = "LayerID ''b''" and ?s0 = "init_system p0 ()"
  note new = NewProcessor_fields [OF p0]
  obtain s1 where s1: "ms_Register (pr_layers p0) ?a (LayerID '''') = Inr s1" "ms_layers s1 ''b'' = None" "ms_layers s1 ''a'' \<noteq> None"
    using new(1) by (simp add: ms_Register_def layer_IsZero_def NewMemoryStore_def)
  then obtain s2 where s2: "ms_Register s1 ?b ?a = Inr s2" by (simp add: ms_Register_def layer_IsZero_def)
  define p1 where "p1 = p0\<lparr>pr_layers := s1, pr_chains := [''a'' \<mapsto> NewChain [?a]]\<rparr>"
  define p2 where "p2 = p1\<lparr>pr_layers := s2, pr_chains := [''a'' \<mapsto> NewChain [?a], ''b'' \<mapsto> NewChain [?a, ?b]]\<rparr>"
  have p1: "RegisterLayer ?a (LayerID '''') p0 () = (None, p1, ())"
    using new(2,3) s1(1) by (simp add: RegisterLayer_def RegisterLayer_store_def RegisterLayer_chain_eq parent_layers_def
        layer_IsZero_def p1_def)
  have p2: "RegisterLayer ?b ?a p1 () = (None, p2, ())"
    using new(3) s2 by (simp add: RegisterLayer_def RegisterLayer_store_def RegisterLayer_chain_eq parent_layers_def
        layer_IsZero_def p1_def p2_def)
  let ?s1 = "?s0\<lparr>sy_proc := p1, sy_world := ()\<rparr>"
  have "(ordered_step G)\<^sup>*\<^sup>* ?s0 ?s1"
    by (rule RegisterLayer_run [of ?a "LayerID ''''"]) (use p1 in \<open>simp_all add: init_system_def layer_IsZero_def\<close>)
  moreover have "(ordered_step G)\<^sup>*\<^sup>* ?s1 (?s1\<lparr>sy_proc := p2, sy_world := ()\<rparr>)"
    by (rule RegisterLayer_run [of ?b ?a]) (use p2 in \<open>simp_all add: init_system_def proc_Chain_def p1_def\<close>)
  moreover have "?s1\<lparr>sy_proc := p2, sy_world := ()\<rparr> = ?s0\<lparr>sy_proc := p2\<rparr>" by simp
  ultimately have "(ordered_step G)\<^sup>*\<^sup>* ?s0 (?s0\<lparr>sy_proc := p2\<rparr>)" by (metis rtranclp_trans)
  with p0 show thesis by (rule that) (simp add: proc_Chain_def p2_def)
qed

theorem system_chains_follow_parents_witness:
  "\<exists>(p0 :: unit processor) st. NewProcessor example_digests (\<lambda>_ _. 1000) (\<lambda>_ _. 7) [] = Some p0
    \<and> (ordered_step (\<lambda>_ _. True))\<^sup>*\<^sup>* (init_system p0 ()) st
    \<and> proc_Chain (sy_proc st) (LayerID ''b'') = Some (NewChain [LayerID ''a'', LayerID ''b''])
    \<and> up_path (pr_layers (sy_proc st)) [LayerID ''b'', LayerID ''a'']"
proof -
  obtain p0 p :: "unit processor" where p0: "NewProcessor example_digests (\<lambda>_ _. 1000) (\<lambda>_ _. 7) [] = Some p0"
      and r: "(ordered_step (\<lambda>_ _. True))\<^sup>*\<^sup>* (init_system p0 ()) ((init_system p0 ())\<lparr>sy_proc := p\<rparr>)"
      and b: "proc_Chain p (LayerID ''b'') = Some (NewChain [LayerID ''a'', LayerID ''b''])"
    by (rule example_registered)
  from system_chains_follow_parents [OF p0 ordered_reach [OF r]] r b
  have "up_path (pr_layers p) [LayerID ''b'', LayerID ''a'']" by fastforce
  with p0 r b show ?thesis
    by (intro exI [of _ p0] exI [of _ "(init_system p0 ())\<lparr>sy_proc := p\<rparr>"]) simp
qed

theorem overlapping_registrations_cut_chain_witness:
  "\<exists>(p0 :: unit processor) st. sys_reach (\<lambda>_ _. True) (init_system p0 ()) st
    \<and> ms_Parent (pr_layers (sy_proc st)) (LayerID ''b'') = Inr (LayerID ''a'')
    \<and> proc_Chain (sy_proc st) (LayerID ''b'') = Some (NewChain [LayerID ''b''])"
proof -
  obtain p0 :: "unit processor" where p0: "NewProcessor example_digests (\<lambda>_ _. 1000) (\<lambda>_ _. 7) [] = Some p0"
    by (rule example_processor)
  have "\<not> layer_IsZero (LayerID ''b'')" "\<not> layer_IsZero (LayerID ''a'')" "LayerID ''b'' \<noteq> LayerID ''a''"
    by (simp_all add: layer_IsZero_def)
  from overlapping_registrations_cut_chain [OF p0 this] show ?thesis by blast
qed
section \<open>Closing\<close>

text \<open>
  Whiteouts still in the channel when \<open>Close\<close> is called are lost. \<open>Close\<close> sets \<open>closed\<close> and
  then lets the workers drain the channel, but the workers record whiteouts and opaque
  directories through \<open>MarkDeleted\<close> and \<open>MarkOpaque\<close>, which refuse to work on a closed processor,
  and their error is ignored: the submitter of such an event is told \<open>nil\<close>, and the layer store is
  unchanged.
\<close>

theorem closed_processor_drops_whiteouts:
  assumes "pr_closed p" "proc_Chain p (ev_LayerID e) = Some c"
    and "IsWhiteout (in_parser (pr_interpreter p)) (ev_Path e) \<or> IsOpaque (in_parser (pr_interpreter p)) (ev_Path e)"
  shows "fst (processEvent e p w) = None \<and> pr_layers (fst (snd (processEvent e p w))) = pr_layers p"
proof -
  have marks: "snd (proc_MarkDeleted l q p) = p" "snd (proc_MarkOpaque l q p) = p" for l q
    using assms(1) by (simp_all add: proc_MarkDeleted_def proc_MarkOpaque_def lift_mark_def)
  show ?thesis
    using assms(2,3)
    by (auto simp: processEvent_def Interpret_def Parse_simps process_mutation_def marks Let_def)
qed

theorem closed_processor_drops_whiteouts_witness:
  "\<exists>p :: unit processor. pr_closed p
    \<and> fst (processEvent (example_event\<lparr>ev_Path := ''/d/.wh.x''\<rparr>) p ()) = None
    \<and> pr_layers (fst (snd (processEvent (example_event\<lparr>ev_Path := ''/d/.wh.x''\<rparr>) p ()))) = pr_layers p"
proof -
  obtain p0 :: "unit processor" where p0: "NewProcessor example_digests (\<lambda>_ _. 1000) (\<lambda>_ _. 7) [] = Some p0"
    by (rule example_processor)
  let ?p = "p0\<lparr>pr_closed := True, pr_chains := [''a'' \<mapsto> NewChain [LayerID ''a'']]\<rparr>"
  let ?e = "example_event\<lparr>ev_Path := ''/d/.wh.x''\<rparr>"
  have "Base ''/d/.wh.x'' = ''.wh.x''" using Base_name [of "''.wh.x''" "''/d''"] by simp
  then have "IsWhiteout (in_parser (pr_interpreter ?p)) (ev_Path ?e)"
    using NewProcessor_fields(5) [OF p0]
    by (simp add: IsWhiteout_def NewInterpreter_def default_parser HasPrefix_def Let_def)
  then show ?thesis
    using closed_processor_drops_whiteouts [of ?p ?e "NewChain [LayerID ''a'']" "()"]
    by (intro exI [of _ ?p]) (simp add: proc_Chain_def example_event_def)
qed

text \<open>
  \<open>Submit\<close> racing with \<open>Close\<close> can crash the program. From every reachable state in which the
  processor is open and not panicked, and for every valid event, the interleaving \<open>closed\<close> test of
  \<open>Submit\<close>, \<open>Close\<close>, channel send reaches a panic (send on a closed channel).
\<close>

theorem submit_close_race_panics:
  assumes "NewProcessor d m_est k_est opts = Some p0" "sys_reach G (init_system p0 w) st"
    and "\<not> sy_panic st" "\<not> pr_closed (sy_proc st)" "Validate e = None"
  shows "\<exists>st'. sys_reach G st st' \<and> sy_panic st'"
proof -
  let ?req = "\<lparr>rq_event = e, rq_reply = None\<rparr>"
  let ?s1 = "st\<lparr>sy_pending := sy_pending st @ [?req]\<rparr>"
  let ?s2 = "?s1\<lparr>sy_proc := (sy_proc st)\<lparr>pr_closed := True\<rparr>\<rparr>"
  let ?s3 = "?s2\<lparr>sy_chan_closed := True\<rparr>"
  have open_chan: "\<not> sy_chan_closed st"
    using sys_inv_reach [OF assms(2) sys_inv_init [OF assms(1)]] assms(4) by (auto simp: sys_inv_def)
  have "sys_step G st ?s1" by (rule step_submit) (use assms(3-5) in \<open>simp_all add: submit_check_def\<close>)
  moreover have "sys_step G ?s1 ?s2"
    by (rule step_close) (use assms(3,4) in \<open>simp_all add: proc_CloseFlag_def\<close>)
  moreover have "sys_step G ?s2 ?s3" by (rule step_close_chan) (use assms(3) open_chan in simp_all)
  moreover have "sys_step G ?s3 (?s3\<lparr>sy_panic := True\<rparr>)" by (rule step_send_panic) (use assms(3) in simp_all)
  ultimately have "sys_reach G st (?s3\<lparr>sy_panic := True\<rparr>)"
    by (meson converse_rtranclp_into_rtranclp rtranclp.rtrancl_refl)
  moreover have "sy_panic (?s3\<lparr>sy_panic := True\<rparr>)" by simp
  ultimately show ?thesis by blast
qed

theorem submit_close_race_panics_witness:
  "\<exists>(p0 :: unit processor) st'. NewProcessor example_digests (\<lambda>_ _. 1000) (\<lambda>_ _. 7) [] = Some p0
    \<and> sys_reach (\<lambda>_ _. True) (init_system p0 ()) st' \<and> sy_panic st'"
proof -
  obtain p0 :: "unit processor" where p0: "NewProcessor example_digests (\<lambda>_ _. 1000) (\<lambda>_ _. 7) [] = Some p0"
    by (rule example_processor)
  have "\<exists>st'. sys_reach (\<lambda>_ _. True) (init_system p0 ()) st' \<and> sy_panic st'"
    using NewProcessor_fields(3) [OF p0]
    by (intro submit_close_race_panics [OF p0 rtranclp.rtrancl_refl, where e = example_event])
      (simp_all add: init_system_def Validate_None_iff example_event_def enum_defs)
  then show ?thesis using p0 by blast
qed

text \<open>The workers' loop until the channel is empty.\<close>

fun drain :: "nat \<Rightarrow> 's system \<Rightarrow> 's system" where
  "drain 0 st = st"
| "drain (Suc n) st = drain n (worker_step st)"

lemma drain_replies:
  "length (sy_queue st) = n \<Longrightarrow> \<not> sy_panic st \<Longrightarrow>
    sys_reach (\<lambda>_ _. True) st (drain n st) \<and> sy_queue (drain n st) = [] \<and> \<not> sy_panic (drain n st)
    \<and> map fst (sy_replies (drain n st)) = map fst (sy_replies st) @ concat (map (\<lambda>r. case rq_reply r of None \<Rightarrow> [] | Some i \<Rightarrow> [i]) (sy_queue st))"
proof (induction n arbitrary: st)
  case (Suc n)
  then obtain req q where q: "sy_queue st = req # q" by (cases "sy_queue st") auto
  have "sys_step (\<lambda>_ _. True) st (worker_step st)" using Suc.prems(2) q by (intro step_work) auto
  moreover have "map fst (sy_replies (worker_step st)) = map fst (sy_replies st) @ (case rq_reply req of None \<Rightarrow> [] | Some i \<Rightarrow> [i])"
    using q by (auto simp: worker_step_def Let_def case_prod_unfold split: option.splits)
  ultimately show ?case
    using Suc.IH [of "worker_step st"] Suc.prems worker_step_fields [OF q] q
    by (auto intro: converse_rtranclp_into_rtranclp)
qed simp

text \<open>
  \<open>Close\<close> drains. In any state that has not panicked, letting the workers run as many times as
  there are queued requests empties the channel, processes each request exactly once in order and
  answers exactly the blocking submitters among them.
\<close>

theorem close_drains_queue:
  assumes "\<not> sy_panic st"
  shows "let st' = drain (length (sy_queue st)) st
    in sys_reach (\<lambda>_ _. True) st st' \<and> sy_queue st' = [] \<and> \<not> sy_panic st'
      \<and> map fst (sy_replies st')
        = map fst (sy_replies st) @ concat (map (\<lambda>r. case rq_reply r of None \<Rightarrow> [] | Some i \<Rightarrow> [i]) (sy_queue st))"
  using drain_replies [OF refl assms] by (simp add: Let_def)

theorem close_drains_queue_witness:
  "\<exists>p0 :: unit processor.
    let st = (init_system p0 ())\<lparr>sy_queue := [\<lparr>rq_event = example_event, rq_reply = Some 7\<rparr>, \<lparr>rq_event = example_event, rq_reply = None\<rparr>]\<rparr>
    in map fst (sy_replies (drain 2 st)) = [7]"
proof -
  obtain p0 :: "unit processor" where p0: "NewProcessor example_digests (\<lambda>_ _. 1000) (\<lambda>_ _. 7) [] = Some p0"
    by (rule example_processor)
  let ?st = "(init_system p0 ())\<lparr>sy_queue := [\<lparr>rq_event = example_event, rq_reply = Some 7\<rparr>, \<lparr>rq_event = example_event, rq_reply = None\<rparr>]\<rparr>"
  have "\<not> sy_panic ?st" by (simp add: init_system_def)
  from close_drains_queue [OF this] have "map fst (sy_replies (drain 2 ?st)) = [7]"
    by (simp add: init_system_def Let_def numeral_2_eq_2)
  then show ?thesis unfolding Let_def by (rule exI [of _ p0])
qed

section \<open>Finalize returns the root of the layer's contents\<close>

text \<open>
  \<open>view l q\<close> is the content of the file \<open>q\<close> seen from layer \<open>l\<close>. An event is truthful when it
  carries the content its layer shows, and the modification marks on its chain account for every
  difference between that content and the one seen from a lower layer of the chain.
\<close>

definition truthful :: "(layer_id \<Rightarrow> string \<Rightarrow> bytes) \<Rightarrow> 's processor \<Rightarrow> access_event \<Rightarrow> bool" where
  "truthful view p e \<longleftrightarrow> ev_Data e = Some (view (ev_LayerID e) (ev_Path e))
     \<and> (\<forall>c. proc_Chain p (ev_LayerID e) = Some c \<longrightarrow>
          (\<forall>l \<in> set (ch_Layers c). CHR 0x00 \<notin> set (digest l))
          \<and> (\<forall>us l vs. ch_Layers c = us @ l # vs \<longrightarrow> (\<forall>v \<in> set vs. \<not> ms_IsModified (pr_layers p) v (ev_Path e))
               \<longrightarrow> view l (ev_Path e) = view (ev_LayerID e) (ev_Path e)))"

definition good_hash :: "(layer_id \<Rightarrow> string \<Rightarrow> bytes) \<Rightarrow> 's processor \<Rightarrow> layer_id \<Rightarrow> string \<Rightarrow> bytes \<Rightarrow> bool" where
  "good_hash view p l q b \<longleftrightarrow> b = h_Hash (pr_hasher p) (view l q)"

definition sem_ok :: "(layer_id \<Rightarrow> string \<Rightarrow> bytes) \<Rightarrow> 's processor \<Rightarrow> bool" where
  "sem_ok view p \<longleftrightarrow> dedup_ok (good_hash view p) (pr_dedup p)
     \<and> (\<forall>l q h. tr_lookup (dd_tracker (pr_dedup p)) l q = Some h \<longrightarrow> fh_Path h = q \<and> good_hash view p l q (fh_Hash h))"

lemma good_hash_cong: "pr_hasher p' = pr_hasher p \<Longrightarrow> good_hash view p' = good_hash view p"
  by (simp add: good_hash_def fun_eq_iff)

lemma sem_ok_same: "pr_hasher p' = pr_hasher p \<Longrightarrow> pr_dedup p' = pr_dedup p \<Longrightarrow> sem_ok view p' = sem_ok view p"
  by (simp add: sem_ok_def good_hash_cong [of p' p])

lemma Interpret_cases:
  "\<exists>m w'. Interpret i e w = ([m], w')
    \<and> (mu_Kind m = MutationModified \<and> mu_Path m = ev_Path e \<or> mu_Kind m = MutationDeleted \<or> mu_Kind m = MutationOpaqued)"
  by (auto simp: Interpret_def Parse_simps WhiteoutTarget_def Let_def)

lemma reuse_hash_good:
  assumes "dedup_ok (good_hash view p) d" "\<forall>l \<in> set ls. CHR 0x00 \<notin> set (digest l)" "distinct ls"
    and "cache_scan ls q (dd_cache d) = (Some h, ss)" "\<not> NeedsRehash s (NewChain ls) q (fh_LayerID h)"
    and "\<And>us l vs. ls = us @ l # vs \<Longrightarrow> \<forall>v \<in> set vs. \<not> ms_IsModified s v q \<Longrightarrow> view l q = view l' q"
  shows "fh_Path h = q \<and> good_hash view p l' q (fh_Hash h)"
proof -
  have "\<exists>l \<in> set ls. entry_ok (good_hash view p) (compositeKey l q) h"
    using cache_scan_ok(3) [OF _ _ assms(4) refl] assms(1) by (simp add: dedup_ok_def)
  then obtain l where l: "l \<in> set ls" "compositeKey l q = compositeKey (fh_LayerID h) (fh_Path h)"
      "CHR 0x00 \<notin> set (digest (fh_LayerID h))" "good_hash view p (fh_LayerID h) (fh_Path h) (fh_Hash h)"
    by (auto simp: entry_ok_def)
  then have h: "fh_LayerID h = l" "fh_Path h = q"
    using compositeKey_inj [of l "fh_LayerID h"] assms(2) by auto
  from l(1) assms(3) obtain us vs where ls: "ls = us @ l # vs" "l \<notin> set vs" by (meson split_list_last)
  then have "\<forall>v \<in> set vs. \<not> ms_IsModified s v q"
    using assms(5) NeedsRehash_split [OF ls(2), of s us] by (simp add: h)
  then show ?thesis using assms(6) [OF ls(1)] l(4) h by (simp add: good_hash_def)
qed

lemma sem_ok_processEvent:
  assumes "chains_ok R p" "sem_ok view p" "truthful view p e"
  shows "sem_ok view (fst (snd (processEvent e p w)))"
proof (cases "proc_Chain p (ev_LayerID e)")
  case None
  then show ?thesis using assms(2) by (simp add: processEvent_def)
next
  case (Some c)
  have "chain_ok p (digest (ev_LayerID e)) c" using assms(1) Some unfolding chains_ok_def proc_Chain_def by blast
  then obtain ls where ls: "c = NewChain ls" "distinct ls" "parent_path (pr_layers p) (rev ls)" "last ls = ev_LayerID e"
    by (auto simp: chain_ok_def digest_eq_iff)
  have nul: "\<forall>l \<in> set ls. CHR 0x00 \<notin> set (digest l)" and data: "ev_Data e = Some (view (ev_LayerID e) (ev_Path e))"
    and cow: "\<And>us l vs. ls = us @ l # vs \<Longrightarrow> \<forall>v \<in> set vs. \<not> ms_IsModified (pr_layers p) v (ev_Path e)
        \<Longrightarrow> view l (ev_Path e) = view (ev_LayerID e) (ev_Path e)"
    using assms(3) Some ls(1) by (auto simp: truthful_def)
  have "ls \<noteq> []" using ls(3) by auto
  then have top: "CHR 0x00 \<notin> set (digest (ev_LayerID e))" using nul ls(4) last_in_set by metis
  obtain m w1 where i: "Interpret (pr_interpreter p) e w = ([m], w1)"
      "mu_Kind m = MutationModified \<and> mu_Path m = ev_Path e \<or> mu_Kind m = MutationDeleted \<or> mu_Kind m = MutationOpaqued"
    using Interpret_cases [of "pr_interpreter p" e w] by (elim exE conjE) (rule that)
  have p': "fst (snd (processEvent e p w)) = fst (snd (process_mutation c m (e, p, w1)))"
    using Some i(1) by (simp add: processEvent_def case_prod_unfold)
  show ?thesis
  proof (cases "mu_Kind m = MutationModified")
    case False
    then have del: "fst (snd (process_mutation c m (e, p, w1))) = snd (proc_MarkDeleted (mu_LayerID m) (mu_Path m) p)
        \<or> fst (snd (process_mutation c m (e, p, w1))) = snd (proc_MarkOpaque (mu_LayerID m) (mu_Path m) p)"
      using i(2) by (auto simp: process_mutation_def Let_def)
    then show ?thesis
      using assms(2) sem_ok_same proc_marks_frame(2,3) [of p "mu_LayerID m" "mu_Path m"] proc_marks_dedup(2,3)
      unfolding p' same_frame_def by metis
  next
    case True
    then have path: "mu_Path m = ev_Path e" using i(2) by auto
    have e: "e\<lparr>ev_Path := mu_Path m\<rparr> = e" by (simp add: path)
    obtain r d where pr: "dd_Process (pr_layers p) e c (pr_dedup p) = (r, d)" by fastforce
    have ok: "dedup_ok (good_hash view p) d"
      using dedup_ok_Process [OF _ pr] assms(2) by (simp add: sem_ok_def)
    define fh where "fh = \<lparr>fh_Path = ev_Path e, fh_Hash = h_Hash (pr_hasher p) (view (ev_LayerID e) (ev_Path e)),
        fh_Algorithm = h_Algorithm (pr_hasher p), fh_LayerID = ev_LayerID e,
        fh_Size = int (length (view (ev_LayerID e) (ev_Path e)))\<rparr>"
    have q: "fst (snd (process_mutation c m (e, p, w1)))
        = p\<lparr>pr_dedup := (if dr_Action r = ActionCompute then dd_RecordComputed fh d else d)\<rparr>"
      using True pr data by (simp add: process_mutation_def Let_def e fh_def)
    have tr: "\<forall>l q h. tr_lookup (dd_tracker (pr_dedup p)) l q = Some h \<longrightarrow> fh_Path h = q \<and> good_hash view p l q (fh_Hash h)"
      using assms(2) by (simp add: sem_ok_def)
    have "dd_tracker d = dd_tracker (pr_dedup p) \<or>
        (\<exists>h. dd_tracker d = tr_Record (ev_LayerID e) h (dd_tracker (pr_dedup p))
           \<and> fh_Path h = ev_Path e \<and> good_hash view p (ev_LayerID e) (ev_Path e) (fh_Hash h))"
      using pr
    proof (cases rule: dd_Process_cases)
      case (reuse bf h ss)
      have "fh_Path h = ev_Path e \<and> good_hash view p (ev_LayerID e) (ev_Path e) (fh_Hash h)"
      proof (rule reuse_hash_good [OF _ nul ls(2)])
        show "dedup_ok (good_hash view p) (pr_dedup p)" using assms(2) by (simp add: sem_ok_def)
        show "cache_scan ls (ev_Path e) (dd_cache (pr_dedup p)) = (Some h, ss)"
          using reuse(6) by (simp add: ls(1))
        show "\<not> NeedsRehash (pr_layers p) (NewChain ls) (ev_Path e) (fh_LayerID h)"
          using reuse(7) by (simp add: ls(1))
      qed (rule cow)
      then show ?thesis using reuse(8) by auto
    qed simp_all
    then have trd: "\<forall>l q h. tr_lookup (dd_tracker d) l q = Some h \<longrightarrow> fh_Path h = q \<and> good_hash view p l q (fh_Hash h)"
      using tr by (auto simp: tr_lookup_Record split: if_splits)
    have fh: "good_hash view p (fh_LayerID fh) (fh_Path fh) (fh_Hash fh)" "CHR 0x00 \<notin> set (digest (fh_LayerID fh))"
      using top by (simp_all add: fh_def good_hash_def)
    have "dedup_ok (good_hash view p) (if dr_Action r = ActionCompute then dd_RecordComputed fh d else d)"
      using ok dedup_ok_RecordComputed [OF ok fh] by simp
    moreover have "\<forall>l q h. tr_lookup (dd_tracker (if dr_Action r = ActionCompute then dd_RecordComputed fh d else d)) l q = Some h
        \<longrightarrow> fh_Path h = q \<and> good_hash view p l q (fh_Hash h)"
      using trd fh(1) by (auto simp: dd_RecordComputed_def tr_lookup_Record split: if_splits)
    ultimately show ?thesis
      unfolding p' q sem_ok_def by (simp add: good_hash_cong [of "p\<lparr>pr_dedup := _\<rparr>" p])
  qed
qed

definition sem_inv :: "(layer_id \<Rightarrow> string \<Rightarrow> bytes) \<Rightarrow> 's processor \<Rightarrow> 's system \<Rightarrow> bool" where
  "sem_inv view p0 st \<longleftrightarrow> sys_inv st \<and> sem_ok view (sy_proc st)
     \<and> pr_hasher (sy_proc st) = pr_hasher p0 \<and> pr_cfg (sy_proc st) = pr_cfg p0"

lemma sem_ok_Reset: "sem_ok view p \<Longrightarrow> sem_ok view (p\<lparr>pr_dedup := dd_ResetSession (pr_dedup p)\<rparr>)"
  using dedup_ok_ResetSession [of "good_hash view p" "pr_dedup p"]
  by (simp add: sem_ok_def good_hash_cong [of "p\<lparr>pr_dedup := _\<rparr>" p] dd_ResetSession_def)

lemma sem_inv_step:
  assumes "sys_step (truthful view) st st'" "sem_inv view p0 st"
  shows "sem_inv view p0 st'"
proof -
  have inv: "sys_inv st'" using sys_inv_step [OF assms(1)] assms(2) by (simp add: sem_inv_def)
  have "sem_ok view (sy_proc st') \<and> pr_hasher (sy_proc st') = pr_hasher (sy_proc st) \<and> pr_cfg (sy_proc st') = pr_cfg (sy_proc st)"
    using assms
  proof (induction rule: sys_step.induct)
    case (step_register_store st us l parent vs err p)
    then show ?case
      using RegisterLayer_store_fields [OF step_register_store(3)] sem_ok_same [of p "sy_proc st" view]
      by (simp add: sem_inv_def)
  next
    case (step_register_chain st us l parent vs p w)
    then show ?case
      using RegisterLayer_chain_fields [OF step_register_chain(3)] sem_ok_same [of p "sy_proc st" view]
      by (simp add: sem_inv_def)
  next
    case (step_modified st l path err p)
    then show ?case
      using proc_marks_frame(1) [of "sy_proc st" l path] proc_marks_dedup(1) [of l path "sy_proc st"]
        sem_ok_same [of p "sy_proc st" view] by (simp add: sem_inv_def same_frame_def)
  next
    case (step_deleted st l path err p)
    then show ?case
      using proc_marks_frame(2) [of "sy_proc st" l path] proc_marks_dedup(2) [of l path "sy_proc st"]
        sem_ok_same [of p "sy_proc st" view] by (simp add: sem_inv_def same_frame_def)
  next
    case (step_opaque st l path err p)
    then show ?case
      using proc_marks_frame(3) [of "sy_proc st" l path] proc_marks_dedup(3) [of l path "sy_proc st"]
        sem_ok_same [of p "sy_proc st" view] by (simp add: sem_inv_def same_frame_def)
  next
    case (step_finalize st d enum sort_hashes sort_nodes l res p w)
    then show ?case using Build_ok_proc [OF step_finalize(2)] sem_ok_Reset by (auto simp: sem_inv_def)
  next
    case (step_work st req q)
    have "sem_ok view (sy_proc (worker_step st))"
      unfolding worker_step_fields [OF step_work(2)]
      by (rule sem_ok_processEvent [where R = "sy_registering st"]) (use step_work in \<open>simp_all add: sem_inv_def sys_inv_def\<close>)
    moreover have "same_frame (sy_proc st) (sy_proc (worker_step st))"
      unfolding worker_step_fields [OF step_work(2)] by (rule processEvent_frame)
    ultimately show ?case by (simp add: same_frame_def)
  next
    case (step_close st p)
    then have "pr_hasher p = pr_hasher (sy_proc st)" "pr_dedup p = pr_dedup (sy_proc st)" "pr_cfg p = pr_cfg (sy_proc st)"
      by (auto simp: proc_CloseFlag_def split: if_splits)
    then show ?case using step_close sem_ok_same [of p "sy_proc st" view] by (simp add: sem_inv_def)
  qed (simp_all add: sem_inv_def)
  then show ?thesis using inv assms(2) by (simp add: sem_inv_def)
qed

lemma sem_inv_reach: "sys_reach (truthful view) st st' \<Longrightarrow> sem_inv view p0 st \<Longrightarrow> sem_inv view p0 st'"
  by (induction rule: rtranclp_induct) (auto intro: sem_inv_step)

subsection \<open>The initial state\<close>

lemma NewBloomFilter_Some_ok: "NewBloomFilter m_est k_est n r = Some bf \<Longrightarrow> bloom_ok bf"
  using NewBloomFilter_built [of m_est n r k_est] NewBloomFilter_diverges [of m_est n r k_est]
  by (metis linorder_not_le option.distinct(1) option.inject)

lemma NewShardedStore_empty:
  assumes "NewShardedStore n m = Some ss" "ss_inv ss"
  shows "ss_lookup ss k = None"
proof -
  obtain a c where a: "ss_shards ss = replicate a (newShard c)"
    using assms(1) by (auto simp: NewShardedStore_def Let_def simp del: replicate_eq_replicate split: option.splits)
  have "getShard ss k = newShard c"
    using shard_index_less [OF assms(2), of k] by (simp add: getShard_def a)
  then show ?thesis by (simp add: ss_lookup_def shard_lookup_def newShard_def)
qed

lemma NewDeduplicator_ok:
  assumes "NewDeduplicator m_est k_est ss n r = Some d" "ss_inv ss" "\<And>k. ss_lookup ss k = None"
  shows "dedup_ok good d" "dd_tracker d = NewTracker"
proof -
  obtain bf where "NewBloomFilter m_est k_est n r = Some bf" "dd_filter d = bf" "dd_cache d = ss" "dd_tracker d = NewTracker"
    using assms(1) by (auto simp: NewDeduplicator_def)
  then show "dedup_ok good d" "dd_tracker d = NewTracker"
    using assms(2,3) NewBloomFilter_Some_ok tracker_ok_New by (simp_all add: dedup_ok_def fs_cache.coherent_def)
qed

lemma sem_inv_init:
  assumes "NewProcessor d m_est k_est opts = Some p" "pc_cacheShards (pr_cfg p) < 2 ^ 63"
  shows "sem_inv view p (init_system p w)"
proof -
  obtain ss where ss: "NewShardedStore (pc_cacheShards (pr_cfg p)) (pc_cacheMaxEntries (pr_cfg p)) = Some ss"
      "NewDeduplicator m_est k_est ss (pc_bloomExpectedItems (pr_cfg p)) (pc_bloomFPRate (pr_cfg p)) = Some (pr_dedup p)"
    using NewProcessor_fields(6) [OF assms(1)] by blast
  have inv: "ss_inv ss"
    using NewShardedStore_built [OF assms(2), of "pc_cacheMaxEntries (pr_cfg p)"] ss(1) by auto
  have "sem_ok view p"
    using NewDeduplicator_ok [OF ss(2) inv NewShardedStore_empty [OF ss(1) inv]]
    by (simp add: sem_ok_def tr_lookup_def NewTracker_def)
  then show ?thesis using sys_inv_init [OF assms(1), of w] by (simp add: sem_inv_def) (simp add: init_system_def)
qed

subsection \<open>Finalize\<close>

definition hash_file :: "file_hash \<Rightarrow> string \<times> bytes \<times> layer_id" where
  "hash_file h = (fh_Path h, fh_Hash h, fh_LayerID h)"

lemma fold_Insert_files:
  "fold (\<lambda>h. tree_Insert (fh_Path h) (fh_Hash h) (fh_LayerID h)) hs t = insert_files (map hash_file hs) t"
  by (induction hs arbitrary: t) (simp_all add: insert_files_def hash_file_def)

lemma NewTree_algorithm:
  assumes "NewHasher d algo = Some h"
  shows "\<exists>t. NewTree d [WithTreeAlgorithm algo] = Some t \<and> tree_H t = h_Hash h \<and> tree_bf t = 2 \<and> t_leaves t = []"
  using assms by (simp add: NewTree_def WithTreeAlgorithm_def Let_def tree_H_def tree_bf_def)

text \<open>
  C2: end to end. Take any reachable state of the concurrent system in which workers were only
  given truthful events. \<open>Finalize\<close> of a layer then always returns; it fails with \<open>ErrTreeEmpty\<close>
  when no file is tracked for the layer; otherwise the leaves of the tree are the tracked files
  sorted by path, each leaf hash is the hash of the content the layer shows at that path, whether
  it was computed or reused from another layer, and the root is the Merkle root of these hashes:
  a function of the contents only.
\<close>

theorem Finalize_root_of_contents:
  assumes "NewProcessor d m_est k_est opts = Some p0" "pc_cacheShards (pr_cfg p0) < 2 ^ 63"
    and "sys_reach (truthful view) (init_system p0 w0) st" "\<not> pr_closed (sy_proc st)"
    and "map_range enum" "slice_sort fh_Path sort_hashes" "slice_sort n_Path sort_nodes"
  shows "let p = sy_proc st; H = h_Hash (pr_hasher p0); A = {q. tr_HasFile l q (dd_tracker (pr_dedup p))}
    in if A = {} then proc_Finalize d enum sort_hashes sort_nodes l p w
          = Some (Inl (ErrTreeEmpty (''no files tracked for layer '' @ digest l)), p, w)
       else \<exists>r p' w'. proc_Finalize d enum sort_hashes sort_nodes l p w = Some (Inr r, p', w')
         \<and> map n_Path (frontier r) = sorted_list_of_set A
         \<and> map n_Hash (frontier r) = map (\<lambda>q. H (view l q)) (sorted_list_of_set A)
         \<and> n_Hash r = merkle_root H 2 (map (\<lambda>q. H (view l q)) (sorted_list_of_set A))"
proof -
  define p where "p = sy_proc st"
  define A where "A = {q. tr_HasFile l q (dd_tracker (pr_dedup p))}"
  define hs where "hs = dd_FileHashes enum l (pr_dedup p)"
  have inv: "sem_inv view p0 st" using sem_inv_reach [OF assms(3) sem_inv_init [OF assms(1,2)]] .
  then have ok: "sem_ok view p" and H: "pr_hasher p = pr_hasher p0" and cfg: "pr_cfg p = pr_cfg p0"
    by (simp_all add: sem_inv_def p_def)
  have tok: "tracker_ok (dd_tracker (pr_dedup p))" using ok by (simp add: sem_ok_def dedup_ok_def)
  have hs: "set hs = {h. tr_lookup (dd_tracker (pr_dedup p)) l (fh_Path h) = Some h}" "distinct (map fh_Path hs)"
    using tr_FileHashes_lookup [OF assms(5) tok, of l] by (simp_all add: hs_def dd_FileHashes_def)
  have good: "fh_Hash h = h_Hash (pr_hasher p0) (view l (fh_Path h))" if "h \<in> set hs" for h
  proof -
    have "tr_lookup (dd_tracker (pr_dedup p)) l (fh_Path h) = Some h" using that unfolding hs(1) by simp
    then have "good_hash view p l (fh_Path h) (fh_Hash h)" using ok unfolding sem_ok_def by blast
    then show ?thesis by (simp only: good_hash_def H)
  qed
  have A: "A = fh_Path ` set hs"
  proof (rule set_eqI)
    fix q
    have "q \<in> A \<longleftrightarrow> (\<exists>h. tr_lookup (dd_tracker (pr_dedup p)) l q = Some h)"
      by (auto simp: A_def tr_HasFile_def tr_lookup_def split: option.splits)
    also have "\<dots> \<longleftrightarrow> q \<in> fh_Path ` set hs"
    proof
      assume "\<exists>h. tr_lookup (dd_tracker (pr_dedup p)) l q = Some h"
      then obtain h where h: "tr_lookup (dd_tracker (pr_dedup p)) l q = Some h" by blast
      then have "fh_Path h = q" using ok unfolding sem_ok_def by blast
      then show "q \<in> fh_Path ` set hs" using h unfolding hs(1) by (intro image_eqI [of _ _ h]) simp_all
    next
      assume "q \<in> fh_Path ` set hs"
      then show "\<exists>h. tr_lookup (dd_tracker (pr_dedup p)) l q = Some h" unfolding hs(1) by blast
    qed
    finally show "q \<in> A \<longleftrightarrow> q \<in> fh_Path ` set hs" .
  qed
  show ?thesis
  proof (cases "A = {}")
    case True
    then have "hs = []" using A by simp
    then have "proc_Finalize d enum sort_hashes sort_nodes l p w
        = Some (Inl (ErrTreeEmpty (''no files tracked for layer '' @ digest l)), p, w)"
      using assms(4) by (simp add: proc_Finalize_def hs_def [symmetric] p_def [symmetric])
    then show ?thesis unfolding Let_def p_def [symmetric] A_def [symmetric] using True by simp
  next
    case False
    then have ne: "sort_hashes hs \<noteq> []" using A slice_sort.srt_set [OF assms(6), of hs] by fastforce
    obtain t where t: "NewTree d [WithTreeAlgorithm (pc_hashAlgorithm (pr_cfg p))] = Some t" "tree_H t = h_Hash (pr_hasher p0)"
        "tree_bf t = 2" "t_leaves t = []"
      using NewTree_algorithm [OF NewProcessor_fields(4) [OF assms(1)]] cfg by auto
    let ?files = "map hash_file (sort_hashes hs)"
    have "2 \<le> tree_bf t" "?files \<noteq> []" using t(3) ne by simp_all
    from Build_files [OF assms(7) this(1) t(4) this(2)]
    obtain r t' where r: "Build sort_nodes (insert_files ?files t) = Some (Inr r, t')"
        "frontier r = sort_nodes (map file_node ?files)"
        "n_Hash r = merkle_root (tree_H t) (tree_bf t) (map n_Hash (sort_nodes (map file_node ?files)))"
      by (elim exE conjE) (rule that)
    have fr: "set (frontier r) = (\<lambda>h. file_node (hash_file h)) ` set hs"
      using slice_sort.srt_set [OF assms(7)] slice_sort.srt_set [OF assms(6)] by (auto simp: r(2))
    have "distinct (map n_Path (map file_node ?files))"
      using slice_sort.srt_keys_distinct [OF assms(6) hs(2)] by (simp add: comp_def hash_file_def)
    then have "distinct (map n_Path (frontier r))" "sorted (map n_Path (frontier r))"
      unfolding r(2) using slice_sort.srt_keys_distinct [OF assms(7)] slice_sort.srt_sorted [OF assms(7)] by blast+
    moreover have "set (map n_Path (frontier r)) = A" using fr A by (auto simp: hash_file_def image_iff)
    ultimately have paths: "map n_Path (frontier r) = sorted_list_of_set A"
      using sorted_list_of_set.idem_if_sorted_distinct by metis
    have "\<forall>m \<in> set (frontier r). n_Hash m = h_Hash (pr_hasher p0) (view l (n_Path m))"
      using fr good by (auto simp: hash_file_def)
    then have "map n_Hash (frontier r) = map (\<lambda>m. h_Hash (pr_hasher p0) (view l (n_Path m))) (frontier r)" by simp
    then have hashes: "map n_Hash (frontier r) = map (\<lambda>q. h_Hash (pr_hasher p0) (view l q)) (sorted_list_of_set A)"
      unfolding paths [symmetric] by (simp add: comp_def)
    have "length hs \<noteq> 0" using False A by auto
    then have "proc_Finalize d enum sort_hashes sort_nodes l p w = Some (Inr r,
        p\<lparr>pr_dedup := dd_ResetSession (pr_dedup p)\<rparr>, fireTreeBuilt (pc_hooks (pr_cfg p)) l (n_Hash r) w)"
      using assms(4) t(1) r(1)
      by (simp add: proc_Finalize_def hs_def [symmetric] p_def [symmetric] fold_Insert_files Let_def)
    moreover have "n_Hash r = merkle_root (h_Hash (pr_hasher p0)) 2 (map (\<lambda>q. h_Hash (pr_hasher p0) (view l q)) (sorted_list_of_set A))"
      using r(3) t(2,3) hashes by (simp add: r(2))
    ultimately show ?thesis
      unfolding Let_def p_def [symmetric] A_def [symmetric] using False paths hashes by simp
  qed
qed

subsection \<open>A run with one layer and one event\<close>

definition example_data_event :: access_event where
  "example_data_event = example_event\<lparr>ev_Data := Some [1]\<rparr>"

lemma NewDeduplicator_parts:
  "NewDeduplicator m_est k_est ss n r = Some d \<Longrightarrow>
     \<exists>bf. NewBloomFilter m_est k_est n r = Some bf \<and> dd_filter d = bf \<and> dd_cache d = ss"
  by (auto simp: NewDeduplicator_def)

lemma example_first_event:
  assumes "NewProcessor d m_est k_est opts = Some p0" "pc_cacheShards (pr_cfg p0) < 2 ^ 63"
    and "sy_queue st = [\<lparr>rq_event = example_data_event, rq_reply = None\<rparr>]" "pr_dedup (sy_proc st) = pr_dedup p0"
    and "pr_interpreter (sy_proc st) = pr_interpreter p0"
    and "proc_Chain (sy_proc st) (LayerID ''a'') = Some (NewChain [LayerID ''a''])"
  shows "tr_HasFile (LayerID ''a'') ''/x'' (dd_tracker (pr_dedup (sy_proc (worker_step st))))"
proof -
  let ?e = example_data_event and ?c = "NewChain [LayerID ''a'']" and ?p = "sy_proc st"
  have e: "ev_LayerID ?e = LayerID ''a''" "ev_Path ?e = ''/x''" "ev_Data ?e = Some [1]"
    by (simp_all add: example_data_event_def example_event_def)
  have "Base ''/x'' = ''x''" using Base_name [of "''x''" "''''"] by simp
  then have k: "\<not> IsOpaque (in_parser (pr_interpreter p0)) ''/x''" "\<not> IsWhiteout (in_parser (pr_interpreter p0)) ''/x''"
    using NewProcessor_fields(5) [OF assms(1)]
    by (simp_all add: IsOpaque_def IsWhiteout_def NewInterpreter_def default_parser HasPrefix_def)
  obtain m w' where i: "Interpret (pr_interpreter p0) ?e (sy_world st) = ([m], w')"
      "mu_Kind m = MutationModified" "mu_Path m = ''/x''"
    using k by (simp add: Interpret_def Parse_simps WhiteoutTarget_def e Let_def)
  have same: "?e\<lparr>ev_Path := mu_Path m\<rparr> = ?e" using i(3) by (simp add: example_data_event_def example_event_def)
  obtain ss where ss: "NewShardedStore (pc_cacheShards (pr_cfg p0)) (pc_cacheMaxEntries (pr_cfg p0)) = Some ss"
      "NewDeduplicator m_est k_est ss (pc_bloomExpectedItems (pr_cfg p0)) (pc_bloomFPRate (pr_cfg p0)) = Some (pr_dedup p0)"
    using NewProcessor_fields(6) [OF assms(1)] by blast
  obtain bf where bf: "NewBloomFilter m_est k_est (pc_bloomExpectedItems (pr_cfg p0)) (pc_bloomFPRate (pr_cfg p0)) = Some bf"
      "dd_filter (pr_dedup p0) = bf" "dd_cache (pr_dedup p0) = ss"
    using NewDeduplicator_parts [OF ss(2)] by auto
  have "\<not> bf_Test bf (LayerID ''a'') ''/x''"
    using NewBloomFilter_built [of m_est "pc_bloomExpectedItems (pr_cfg p0)" "pc_bloomFPRate (pr_cfg p0)" k_est "LayerID ''a''" "''/x''"]
      NewBloomFilter_diverges [of m_est "pc_bloomExpectedItems (pr_cfg p0)" "pc_bloomFPRate (pr_cfg p0)" k_est] bf(1)
    by (metis linorder_not_le option.distinct(1) option.inject)
  then have t: "bf_TestAndAdd (LayerID ''a'') ''/x'' bf = (False, bf_Add (LayerID ''a'') ''/x'' bf)"
    using bf_TestAndAdd_pair [OF NewBloomFilter_Some_ok [OF bf(1)]] by simp
  have inv: "ss_inv ss"
    using NewShardedStore_built [OF assms(2), of "pc_cacheMaxEntries (pr_cfg p0)"] ss(1) by auto
  have "fst (ss_Get (LayerID ''a'') ''/x'' ss) = None"
    using fs_cache.get_result [OF inv] NewShardedStore_empty [OF ss(1) inv] by (simp add: ss_ops_keys)
  then obtain ss' where sc: "cache_scan [LayerID ''a''] ''/x'' ss = (None, ss')"
    by (cases "ss_Get (LayerID ''a'') ''/x'' ss") simp
  have "ms_OwnerOf (pr_layers ?p) [LayerID ''a''] ''/x'' = (LayerID ''a'', True)
      \<or> ms_OwnerOf (pr_layers ?p) [LayerID ''a''] ''/x'' = (LayerID ''a'', False)" by (simp add: ms_OwnerOf_def)
  then have vis: "IsFileVisible (pr_layers ?p) ?c ''/x''"
    by (auto simp: IsFileVisible_def ch_Position_def NewChain_def ch_Layers_def Let_def)
  obtain r d where pr: "dd_Process (pr_layers ?p) ?e ?c (pr_dedup p0) = (r, d)" "dr_Action r = ActionCompute"
    using vis t sc bf(2,3) by (simp add: dd_Process_def e Let_def)
  have "tr_HasFile (LayerID ''a'') ''/x'' (dd_tracker (pr_dedup (fst (snd (process_mutation ?c m (?e, ?p, w'))))))"
    using i(2) pr assms(4)
    by (simp add: process_mutation_def same Let_def e dd_RecordComputed_def tr_HasFile_def tr_Record_def
        getOrCreateManifest_def split: option.split)
  moreover have "fst (snd (processEvent ?e ?p (sy_world st))) = fst (snd (process_mutation ?c m (?e, ?p, w')))"
    using i(1) assms(5,6) by (simp add: processEvent_def e case_prod_unfold)
  ultimately show ?thesis by (simp add: worker_step_fields [OF assms(3)])
qed

theorem Finalize_root_of_contents_witness:
  "\<exists>(p0 :: unit processor) st r p' w'. NewProcessor example_digests (\<lambda>_ _. 1000) (\<lambda>_ _. 7) [] = Some p0
    \<and> sys_reach (truthful (\<lambda>_ _. [1])) (init_system p0 ()) st
    \<and> proc_Finalize example_digests sorted_list_of_set (sort_key fh_Path) (sort_key n_Path) (LayerID ''a'') (sy_proc st) ()
      = Some (Inr r, p', w')
    \<and> (\<forall>h \<in> set (map n_Hash (frontier r)). h = h_Hash (pr_hasher p0) [1])"
proof -
  let ?view = "\<lambda>(_ :: layer_id) (_ :: string). [1 :: byte]"
  let ?req = "\<lparr>rq_event = example_data_event, rq_reply = None\<rparr>"
  obtain p0 :: "unit processor" where p0: "NewProcessor example_digests (\<lambda>_ _. 1000) (\<lambda>_ _. 7) [] = Some p0"
      "pr_cfg p0 = defaultConfig"
    by (rule example_processor)
  have shards: "pc_cacheShards (pr_cfg p0) < 2 ^ 63" by (simp add: p0(2) defaultConfig_def)
  note new = NewProcessor_fields [OF p0(1)]
  obtain s1 where s1: "ms_Register (pr_layers p0) (LayerID ''a'') (LayerID '''') = Inr s1"
    using new(1) by (simp add: ms_Register_def layer_IsZero_def NewMemoryStore_def)
  define p1 where "p1 = p0\<lparr>pr_layers := s1, pr_chains := [''a'' \<mapsto> NewChain [LayerID ''a'']]\<rparr>"
  have p1: "RegisterLayer (LayerID ''a'') (LayerID '''') p0 () = (None, p1, ())"
      "pr_chains p1 = [''a'' \<mapsto> NewChain [LayerID ''a'']]" "pr_dedup p1 = pr_dedup p0" "pr_cfg p1 = pr_cfg p0"
      "pr_interpreter p1 = pr_interpreter p0" "\<not> pr_closed p1" "pr_hasher p1 = pr_hasher p0"
    using new(2,3) s1 by (simp_all add: RegisterLayer_def RegisterLayer_store_def RegisterLayer_chain_eq parent_layers_def
        layer_IsZero_def p1_def)
  let ?s0 = "init_system p0 ()" and ?s1 = "(init_system p0 ())\<lparr>sy_proc := p1, sy_world := ()\<rparr>"
  let ?s2 = "?s1\<lparr>sy_pending := sy_pending ?s1 @ [?req]\<rparr>"
  let ?s3 = "?s2\<lparr>sy_pending := [] @ [], sy_queue := sy_queue ?s2 @ [?req]\<rparr>"
  have "sys_reach (truthful ?view) ?s0 ?s1"
    by (rule ordered_reach [OF RegisterLayer_run [of "LayerID ''a''" "LayerID ''''"]])
      (use p1(1) in \<open>simp_all add: init_system_def layer_IsZero_def\<close>)
  moreover have "sys_step (truthful ?view) ?s1 ?s2"
    by (rule step_submit) (use p1 in \<open>simp_all add: init_system_def submit_check_def Validate_None_iff
        example_data_event_def example_event_def enum_defs\<close>)
  moreover have "sys_step (truthful ?view) ?s2 ?s3"
    by (rule step_send) (use p1 p0(2) in \<open>simp_all add: init_system_def defaultConfig_def\<close>)
  moreover have "sys_step (truthful ?view) ?s3 (worker_step ?s3)"
    by (rule step_work [of _ ?req "[]"]) (use p1 in \<open>simp_all add: init_system_def truthful_def proc_Chain_def example_data_event_def
        example_event_def\<close>)
  ultimately have reach: "sys_reach (truthful ?view) ?s0 (worker_step ?s3)"
    by (meson rtranclp.rtrancl_into_rtrancl)
  have q: "sy_queue ?s3 = [?req]" by (simp add: init_system_def)
  have has: "tr_HasFile (LayerID ''a'') ''/x'' (dd_tracker (pr_dedup (sy_proc (worker_step ?s3))))"
    by (rule example_first_event [OF p0(1) shards q]) (use p1 in \<open>simp_all add: proc_Chain_def\<close>)
  have "\<not> pr_closed (sy_proc (worker_step ?s3))"
    using processEvent_frame [of p1] p1(6) unfolding worker_step_fields(1) [OF q] same_frame_def by simp
  from Finalize_root_of_contents [where l = "LayerID ''a''" and w = "()", OF p0(1) shards reach this
      sorted_range.map_range_axioms insertion_slice_sort.slice_sort_axioms path_sort] has
  obtain r p' w' where f: "proc_Finalize example_digests sorted_list_of_set (sort_key fh_Path) (sort_key n_Path)
        (LayerID ''a'') (sy_proc (worker_step ?s3)) () = Some (Inr r, p', w')"
      "map n_Hash (frontier r) = map (\<lambda>q. h_Hash (pr_hasher p0) [1])
        (sorted_list_of_set {q. tr_HasFile (LayerID ''a'') q (dd_tracker (pr_dedup (sy_proc (worker_step ?s3))))})"
    by (auto simp: Let_def split: if_splits)
  have "\<forall>h \<in> set (map n_Hash (frontier r)). h = h_Hash (pr_hasher p0) [1]" unfolding f(2) by auto
  with p0(1) reach f(1) show ?thesis by blast
qed

end
