(* ===== verification/Lm_Core.thy ===== *)
theory Lm_Core
  imports Go_Strings
begin

text \<open>
  The domain types of the layermerkle engine (\<open>pkg/layermerkle\<close>): digests
  (\<open>internal/digest/digest.go\<close>), errors (\<open>errors.go\<close>), layer stacks, events, hash requests and
  results (\<open>event.go\<close>), and the layer registry with the layer-stack keys (\<open>layer.go\<close>).

  The Go types \<open>LayerID\<close>, \<open>VertexID\<close> and \<open>FileHash\<close> are aliases of the string type \<open>Digest\<close>, so
  all of them are \<open>string\<close> here. An error is a sentinel, an error built from a message, or a
  message wrapped around another error; a message is the list of the values it prints.
\<close>

section \<open>Digests\<close>

type_synonym lm_digest = string
type_synonym lm_layer = lm_digest
type_synonym lm_vertex = lm_digest
type_synonym lm_hash = lm_digest

definition SHA256_name :: string where
  "SHA256_name = ''sha256''"

definition newDigest :: "string \<Rightarrow> bytes \<Rightarrow> lm_digest" where
  "newDigest algorithm hsum = algorithm @ '':'' @ hex_encode hsum"

definition NewDigestFromBytes :: "string \<Rightarrow> bytes \<Rightarrow> lm_digest" where
  "NewDigestFromBytes algorithm hsum = newDigest algorithm hsum"

text \<open>\<open>crypto/sha256\<close>'s \<open>Sum256\<close> is the argument \<open>sha256\<close>.\<close>

definition FromBytes :: "(bytes \<Rightarrow> bytes) \<Rightarrow> bytes \<Rightarrow> lm_digest" where
  "FromBytes sha256 b = newDigest SHA256_name (sha256 b)"

definition FromString :: "(bytes \<Rightarrow> bytes) \<Rightarrow> string \<Rightarrow> lm_digest" where
  "FromString sha256 s = FromBytes sha256 (bytes_of_string s)"

definition isHexRune :: "char \<Rightarrow> bool" where
  "isHexRune c \<longleftrightarrow> (CHR ''0'' \<le> c \<and> c \<le> CHR ''9'') \<or> (CHR ''a'' \<le> c \<and> c \<le> CHR ''f'')"

datatype digest_error = MissingColon | EmptyAlgorithm | EmptyHex | InvalidHexChar

text \<open>
  \<open>Validate\<close> ranges over the runes of the hex part; a byte outside ASCII is never a hex digit and
  neither is a rune it belongs to, so the model ranges over the bytes.
\<close>

definition digest_Validate :: "lm_digest \<Rightarrow> digest_error option" where
  "digest_Validate d =
     (case IndexByte d CHR '':'' of
        None \<Rightarrow> Some MissingColon
      | Some colon \<Rightarrow>
          (if colon = 0 then Some MissingColon
           else (let algo = take colon d; hex = drop (colon + 1) d in
             if algo = '''' then Some EmptyAlgorithm
             else if hex = '''' then Some EmptyHex
             else if \<exists>c \<in> set hex. \<not> isHexRune c then Some InvalidHexChar
             else None)))"

definition digest_Algorithm :: "lm_digest \<Rightarrow> string" where
  "digest_Algorithm d =
     (case IndexByte d CHR '':'' of Some i \<Rightarrow> (if 0 < i then take i d else '''') | None \<Rightarrow> '''')"

definition digest_Hex :: "lm_digest \<Rightarrow> string" where
  "digest_Hex d = (case IndexByte d CHR '':'' of Some i \<Rightarrow> drop (i + 1) d | None \<Rightarrow> d)"

section \<open>Errors\<close>

datatype lm_sentinel =
    Err_LayerNotFound | Err_PathEscapes | Err_HashFailed | Err_CacheFull | Err_InvalidLayerStack
  | Err_VertexClosed | Err_EventDropped | Err_Whiteout | Err_EngineNotRunning

datatype lm_error =
    Sentinel lm_sentinel
  | Plain "string list"
  | Wrapped "string list" lm_error

text \<open>\<open>errors.Is\<close> follows the chain of wrapped errors.\<close>

fun errors_Is :: "lm_error \<Rightarrow> lm_sentinel \<Rightarrow> bool" where
  "errors_Is (Sentinel s) t \<longleftrightarrow> s = t"
| "errors_Is (Plain m) t \<longleftrightarrow> False"
| "errors_Is (Wrapped m e) t \<longleftrightarrow> errors_Is e t"

section \<open>Layer stacks, events, requests and results\<close>

type_synonym layer_stack = "lm_layer list"

definition stack_Top :: "layer_stack \<Rightarrow> lm_layer" where
  "stack_Top ls = (if length ls = 0 then '''' else ls ! (length ls - 1))"

fun stack_Contains :: "layer_stack \<Rightarrow> lm_layer \<Rightarrow> bool" where
  "stack_Contains [] i \<longleftrightarrow> False"
| "stack_Contains (l # ls) i \<longleftrightarrow> (if l = i then True else stack_Contains ls i)"

definition stack_Valid :: "layer_stack \<Rightarrow> bool" where
  "stack_Valid ls \<longleftrightarrow> 0 < length ls"

record lm_event =
  le_VertexID :: lm_vertex
  le_LayerStack :: layer_stack
  le_RelPath :: string
  le_AbsPath :: string
  le_Mask :: uint64
  le_PID :: "32 word"
  le_Timestamp :: int

definition readMask :: uint64 where
  "readMask = 0x00000001 OR 0x00000020 OR 0x00001000 OR 0x00000010"

definition IsReadAccess :: "lm_event \<Rightarrow> bool" where
  "IsReadAccess e \<longleftrightarrow> le_Mask e AND readMask \<noteq> 0"

record hash_request =
  hq_VertexID :: lm_vertex
  hq_LayerStack :: layer_stack
  hq_RelPath :: string
  hq_AbsPath :: string

record hash_result =
  hr_VertexID :: lm_vertex
  hr_RelPath :: string
  hr_Hash :: lm_hash
  hr_OwnerLayerID :: lm_layer
  hr_FromCache :: bool
  hr_Err :: "lm_error option"

definition AttrVertexID :: string where "AttrVertexID = ''layermerkle.vertex.id''"
definition AttrLayerStack :: string where "AttrLayerStack = ''layermerkle.layer.stack''"
definition AttrRelPath :: string where "AttrRelPath = ''layermerkle.rel.path''"

definition shortDigest :: "lm_digest \<Rightarrow> string" where
  "shortDigest d = (if 19 < length d then take 19 d else d)"

section \<open>The layer registry\<close>

text \<open>
  \<open>Labels\<close> is a map of strings. The registry stores the pointers its callers pass; the model
  stores their values, which the package itself never changes.
\<close>

record layer_info =
  li_ID :: lm_layer
  li_DiffPath :: string
  li_ChainID :: string
  li_Labels :: "string \<rightharpoonup> string"

definition DiffFilePath :: "layer_info \<Rightarrow> string \<Rightarrow> string" where
  "DiffFilePath l relPath = filepath_Join [li_DiffPath l, relPath]"

definition whiteoutName :: "string \<Rightarrow> string" where
  "whiteoutName relPath = (let (dir, name) = filepath_Split relPath in filepath_Join [dir, ''.wh.'' @ name])"

definition opaqueWhiteoutName :: "string \<Rightarrow> string" where
  "opaqueWhiteoutName dir = filepath_Join [dir, ''.wh..wh..opq'']"

type_synonym layer_registry = "lm_layer \<rightharpoonup> layer_info"

definition NewLayerRegistry :: layer_registry where
  "NewLayerRegistry = Map.empty"

text \<open>\<open>Register(nil)\<close> is \<open>Register None\<close>; the result is the error, if any, and the registry.\<close>

definition reg_Register :: "layer_info option \<Rightarrow> layer_registry \<Rightarrow> lm_error option \<times> layer_registry" where
  "reg_Register info r =
     (case info of
        None \<Rightarrow> (Some (Plain [''layermerkle: Register: info.ID must not be empty'']), r)
      | Some i \<Rightarrow>
          (if li_ID i = '''' then (Some (Plain [''layermerkle: Register: info.ID must not be empty'']), r)
           else if li_DiffPath i = ''''
           then (Some (Plain [''layermerkle: Register: layer: DiffPath must not be empty'', li_ID i]), r)
           else (None, r(li_ID i \<mapsto> i))))"

definition reg_Unregister :: "lm_layer \<Rightarrow> layer_registry \<Rightarrow> layer_registry" where
  "reg_Unregister i r = r(i := None)"

definition reg_Get :: "lm_layer \<Rightarrow> layer_registry \<Rightarrow> layer_info option" where
  "reg_Get i r = r i"

fun reg_ResolveStack :: "layer_stack \<Rightarrow> layer_registry \<Rightarrow> layer_info list \<times> lm_error list" where
  "reg_ResolveStack [] r = ([], [])"
| "reg_ResolveStack (i # stack) r =
     (let (infos, errs) = reg_ResolveStack stack r in
      case r i of
        None \<Rightarrow> (infos, Wrapped [i] (Sentinel Err_LayerNotFound) # errs)
      | Some l \<Rightarrow> (l # infos, errs))"

definition reg_Len :: "layer_registry \<Rightarrow> nat" where
  "reg_Len r = card (dom r)"

definition NewLayerStackKey :: "layer_stack \<Rightarrow> string" where
  "NewLayerStackKey stack = join_with ''|'' stack"

section \<open>Facts\<close>

subsection \<open>Digests\<close>

lemma isHexRune_hex_digit: "n < 16 \<Longrightarrow> isHexRune (hex_digit n)"
  by (auto simp: isHexRune_def hex_digit_def less_eq_char_def take_bit_nat_eq_self)

lemma isHexRune_hex_encode: "c \<in> set (hex_encode bs) \<Longrightarrow> isHexRune c"
  by (induction bs) (auto intro: isHexRune_hex_digit byte_nibbles)

text \<open>What \<open>Validate\<close> accepts.\<close>

lemma digest_Validate_None_iff:
  "digest_Validate d = None \<longleftrightarrow>
     (\<exists>algo hex. d = algo @ '':'' @ hex \<and> algo \<noteq> '''' \<and> CHR '':'' \<notin> set algo \<and> hex \<noteq> '''' \<and> (\<forall>c \<in> set hex. isHexRune c))"
    (is "?l \<longleftrightarrow> ?r")
proof
  assume l: ?l
  then obtain i where i: "IndexByte d CHR '':'' = Some i" by (auto simp: digest_Validate_def split: option.splits)
  from IndexByte_SomeD [OF i] have "d = take i d @ '':'' @ drop (Suc i) d" "CHR '':'' \<notin> set (take i d)" by simp_all
  then show ?r using l i by (fastforce simp: digest_Validate_def Let_def split: if_splits)
next
  assume ?r
  then obtain algo hex where d: "d = algo @ '':'' @ hex" "algo \<noteq> ''''" "CHR '':'' \<notin> set algo" "hex \<noteq> ''''"
    "\<forall>c \<in> set hex. isHexRune c" by blast
  then have "IndexByte d CHR '':'' = Some (length algo)" by (simp add: IndexByte_append)
  then show ?l using d by (simp add: digest_Validate_def Let_def)
qed

lemma newDigest_parts:
  assumes "CHR '':'' \<notin> set algo"
  shows "digest_Hex (newDigest algo hsum) = hex_encode hsum"
    and "digest_Algorithm (newDigest algo hsum) = algo"
    and "algo \<noteq> '''' \<Longrightarrow> hsum \<noteq> [] \<Longrightarrow> digest_Validate (newDigest algo hsum) = None"
proof -
  have "IndexByte (newDigest algo hsum) CHR '':'' = Some (length algo)"
    using assms by (simp add: newDigest_def IndexByte_append)
  then show "digest_Hex (newDigest algo hsum) = hex_encode hsum" "digest_Algorithm (newDigest algo hsum) = algo"
    by (simp_all add: digest_Hex_def digest_Algorithm_def newDigest_def)
  show "algo \<noteq> '''' \<Longrightarrow> hsum \<noteq> [] \<Longrightarrow> digest_Validate (newDigest algo hsum) = None"
    unfolding digest_Validate_None_iff newDigest_def using assms isHexRune_hex_encode
    by (intro exI [of _ algo] exI [of _ "hex_encode hsum"]) auto
qed

text \<open>
  A digest made from a hash hsum is well formed, its parts are the algorithm and the hexadecimal
  hsum, and different sums give different digests.
\<close>

theorem NewDigestFromBytes_roundtrip:
  assumes "algo \<noteq> ''''" "CHR '':'' \<notin> set algo" "hsum \<noteq> []"
  shows "digest_Validate (NewDigestFromBytes algo hsum) = None
    \<and> digest_Algorithm (NewDigestFromBytes algo hsum) = algo
    \<and> digest_Hex (NewDigestFromBytes algo hsum) = hex_encode hsum
    \<and> (NewDigestFromBytes algo hsum2 = NewDigestFromBytes algo hsum \<longrightarrow> hsum2 = hsum)"
  using newDigest_parts [OF assms(2)] assms
  by (simp add: NewDigestFromBytes_def) (simp add: newDigest_def)

subsection \<open>Stacks and their keys\<close>

lemma stack_Top_last: "ls \<noteq> [] \<Longrightarrow> stack_Top ls = last ls"
  by (simp add: stack_Top_def last_conv_nth)

lemma stack_Contains_iff [simp]: "stack_Contains ls i \<longleftrightarrow> i \<in> set ls"
  by (induction ls) auto

lemma stack_Valid_iff [simp]: "stack_Valid ls \<longleftrightarrow> ls \<noteq> []"
  by (simp add: stack_Valid_def)

text \<open>
  The key of a stack determines a non-empty stack whose layer identifiers hold no \<open>|\<close> (digests
  do not): the order and the number of the layers are encoded.
\<close>

lemma NewLayerStackKey_inj:
  assumes "s \<noteq> []" "t \<noteq> []" "\<forall>i \<in> set s \<union> set t. CHR ''|'' \<notin> set i"
  shows "NewLayerStackKey s = NewLayerStackKey t \<longleftrightarrow> s = t"
proof
  assume k: "NewLayerStackKey s = NewLayerStackKey t"
  have "split_on CHR ''|'' (NewLayerStackKey s) = s"
    unfolding NewLayerStackKey_def by (rule split_join) (use assms in blast)+
  moreover have "split_on CHR ''|'' (NewLayerStackKey t) = t"
    unfolding NewLayerStackKey_def by (rule split_join) (use assms in blast)+
  ultimately show "s = t" using k by metis
qed simp

subsection \<open>The registry\<close>

text \<open>\<open>ResolveStack\<close> splits the stack into the infos of its registered layers, in order, and one error per other layer.\<close>

lemma reg_ResolveStack_eq:
  "reg_ResolveStack stack r =
     (map (\<lambda>i. the (r i)) (filter (\<lambda>i. r i \<noteq> None) stack),
      map (\<lambda>i. Wrapped [i] (Sentinel Err_LayerNotFound)) (filter (\<lambda>i. r i = None) stack))"
proof (induction stack)
  case (Cons i stack)
  then show ?case by (cases "r i") simp_all
qed simp

text \<open>A registry only holds layers under their own, non-empty identifier and with a diff path.\<close>

definition registry_ok :: "layer_registry \<Rightarrow> bool" where
  "registry_ok r \<longleftrightarrow> finite (dom r) \<and> (\<forall>i l. r i = Some l \<longrightarrow> li_ID l = i \<and> i \<noteq> '''' \<and> li_DiffPath l \<noteq> '''')"

lemma registry_ok_ops:
  "registry_ok NewLayerRegistry"
  "registry_ok r \<Longrightarrow> registry_ok (snd (reg_Register info r))"
  "registry_ok r \<Longrightarrow> registry_ok (reg_Unregister i r)"
  by (auto simp: registry_ok_def NewLayerRegistry_def reg_Unregister_def reg_Register_def split: option.split)

lemma IsReadAccess_bits:
  "IsReadAccess e \<longleftrightarrow> (\<exists>n \<in> {0, 4, 5, 12}. bit (le_Mask e) n)"
proof -
  have m: "readMask = 2 ^ 0 OR 2 ^ 5 OR 2 ^ 12 OR 2 ^ 4" by (simp add: readMask_def)
  have "bit readMask n \<longleftrightarrow> n \<in> {0, 4, 5, 12}" for n
    unfolding m bit_or_iff bit_exp_iff by auto
  then have "bit (le_Mask e AND readMask) n \<longleftrightarrow> bit (le_Mask e) n \<and> n \<in> {0, 4, 5, 12}" for n
    by (simp add: bit_and_iff)
  moreover have "le_Mask e AND readMask \<noteq> 0 \<longleftrightarrow> (\<exists>n. bit (le_Mask e AND readMask) n)"
    using bit_eq_iff [of "le_Mask e AND readMask" 0] by (auto dest: bit_imp_le_length)
  ultimately show ?thesis unfolding IsReadAccess_def by blast
qed

end
