(* ===== verification/Lm_Cache.thy ===== *)
theory Lm_Cache
  imports Complex_Main "HOL-Library.Product_Lexorder" Lm_Core Lru_Spec Cache_Contract
begin

text \<open>
  The hash cache of layermerkle (\<open>cache.go\<close>): the interface \<open>HashCache\<close>, the 256-shard LRU cache
  behind it, the cache that never stores, and the two decorators (hooks and time to live).

  A Go interface value is a record of its methods over a state type; a decorator maps such a
  record to another one. \<open>time.Now()\<close> is the argument \<open>now\<close> of the operations that read the clock
  (nanoseconds). A \<open>(FileHash, bool)\<close> result is an \<open>option\<close>. \<open>container/list\<close> is modelled by the
  sequence of its elements and the value each element carries; an \<open>*list.Element\<close> is a number.
\<close>

type_synonym int64 = "64 word"
type_synonym cache_key = "lm_layer \<times> string"

record lm_cache_stats =
  cs_Hits :: int64
  cs_Misses :: int64
  cs_Evictions :: int64
  cs_Capacity :: int
  cs_Used :: int

text \<open>The ratio, with exact division in place of \<open>float64\<close>; the sum wraps like Go's.\<close>

definition HitRate :: "lm_cache_stats \<Rightarrow> real" where
  "HitRate s = (let total = cs_Hits s + cs_Misses s in
     if total = 0 then 0 else real_of_int (sint (cs_Hits s)) / real_of_int (sint total))"

record 's hash_cache =
  hc_Get :: "int \<Rightarrow> lm_layer \<Rightarrow> string \<Rightarrow> 's \<Rightarrow> lm_hash option \<times> 's"
  hc_Set :: "int \<Rightarrow> lm_layer \<Rightarrow> string \<Rightarrow> lm_hash \<Rightarrow> 's \<Rightarrow> 's"
  hc_Delete :: "lm_layer \<Rightarrow> string \<Rightarrow> 's \<Rightarrow> 's"
  hc_DeleteLayer :: "lm_layer \<Rightarrow> 's \<Rightarrow> 's"
  hc_Len :: "'s \<Rightarrow> int"
  hc_Stats :: "'s \<Rightarrow> lm_cache_stats"

section \<open>One shard\<close>

type_synonym element = nat

record cache_entry =
  ce_key :: cache_key
  ce_hash :: lm_hash
  ce_createdAt :: int

record cache_shard =
  csh_entries :: "cache_key \<rightharpoonup> element"
  csh_lru :: "element list"
  csh_value :: "element \<rightharpoonup> cache_entry"
  csh_next :: element
  csh_cap :: int
  csh_evicted :: int64

text \<open>The operations of \<open>container/list\<close>.\<close>

definition list_MoveToFront :: "element \<Rightarrow> cache_shard \<Rightarrow> cache_shard" where
  "list_MoveToFront el s =
     (if el \<in> set (csh_lru s) then s\<lparr>csh_lru := el # remove1 el (csh_lru s)\<rparr> else s)"

definition list_PushFront :: "cache_entry \<Rightarrow> cache_shard \<Rightarrow> element \<times> cache_shard" where
  "list_PushFront v s =
     (csh_next s, s\<lparr>csh_lru := csh_next s # csh_lru s, csh_value := (csh_value s)(csh_next s \<mapsto> v),
       csh_next := Suc (csh_next s)\<rparr>)"

definition list_Back :: "cache_shard \<Rightarrow> element option" where
  "list_Back s = (if csh_lru s = [] then None else Some (last (csh_lru s)))"

definition list_Remove :: "element \<Rightarrow> cache_shard \<Rightarrow> cache_shard" where
  "list_Remove el s = s\<lparr>csh_lru := remove1 el (csh_lru s)\<rparr>"

text \<open>\<open>el.Value.(*cacheEntry)\<close>; every element that the program reaches carries a value.\<close>

definition entry_of :: "cache_shard \<Rightarrow> element \<Rightarrow> cache_entry" where
  "entry_of s el = the (csh_value s el)"

definition csh_get :: "cache_key \<Rightarrow> cache_shard \<Rightarrow> lm_hash option \<times> cache_shard" where
  "csh_get k s =
     (case csh_entries s k of
        None \<Rightarrow> (None, s)
      | Some el \<Rightarrow> (let s' = list_MoveToFront el s in (Some (ce_hash (entry_of s' el)), s')))"

definition evictOldest :: "cache_shard \<Rightarrow> cache_shard" where
  "evictOldest s =
     (case list_Back s of
        None \<Rightarrow> s
      | Some el \<Rightarrow>
          (let entry = entry_of s el;
               s1 = s\<lparr>csh_entries := (csh_entries s)(ce_key entry := None)\<rparr>;
               s2 = list_Remove el s1
           in s2\<lparr>csh_evicted := csh_evicted s2 + 1\<rparr>))"

definition csh_set :: "int \<Rightarrow> cache_key \<Rightarrow> lm_hash \<Rightarrow> cache_shard \<Rightarrow> cache_shard" where
  "csh_set now k h s =
     (case csh_entries s k of
        Some el \<Rightarrow>
          (let s' = list_MoveToFront el s
           in s'\<lparr>csh_value := (csh_value s')(el \<mapsto> (entry_of s' el)\<lparr>ce_hash := h\<rparr>)\<rparr>)
      | None \<Rightarrow>
          (let s1 = (if csh_cap s \<le> int (length (csh_lru s)) then evictOldest s else s);
               (el, s2) = list_PushFront \<lparr>ce_key = k, ce_hash = h, ce_createdAt = now\<rparr> s1
           in s2\<lparr>csh_entries := (csh_entries s2)(k \<mapsto> el)\<rparr>))"

definition csh_delete :: "cache_key \<Rightarrow> cache_shard \<Rightarrow> cache_shard" where
  "csh_delete k s =
     (case csh_entries s k of
        None \<Rightarrow> s
      | Some el \<Rightarrow> list_Remove el (s\<lparr>csh_entries := (csh_entries s)(k := None)\<rparr>))"

text \<open>
  The body of the loop of \<open>DeleteLayer\<close>; the loop ranges over the shard's map in the order
  \<open>enum\<close> gives its keys.
\<close>

definition csh_deleteLayer :: "(cache_key set \<Rightarrow> cache_key list) \<Rightarrow> lm_layer \<Rightarrow> cache_shard \<Rightarrow> cache_shard" where
  "csh_deleteLayer enum l s =
     fold (\<lambda>k s. if fst k = l then csh_delete k s else s) (enum (dom (csh_entries s))) s"

section \<open>The sharded LRU cache\<close>

record lru_cache =
  lc_shards :: "cache_shard list"
  lc_capacity :: int
  lc_hits :: int64
  lc_misses :: int64

definition NewShardedLRUCache :: "int \<Rightarrow> lru_cache" where
  "NewShardedLRUCache totalCapacity =
     (let perShard0 = go_div totalCapacity 256;
          perShard = (if perShard0 < 1 then 1 else perShard0)
      in \<lparr>lc_shards = replicate 256 \<lparr>csh_entries = Map.empty, csh_lru = [], csh_value = Map.empty, csh_next = 0,
            csh_cap = perShard, csh_evicted = 0\<rparr>,
          lc_capacity = perShard, lc_hits = 0, lc_misses = 0\<rparr>)"

fun fnv32_loop :: "32 word \<Rightarrow> string \<Rightarrow> 32 word" where
  "fnv32_loop h [] = h"
| "fnv32_loop h (c # cs) = fnv32_loop ((h XOR of_char c) * 16777619) cs"

definition fnv32 :: "string \<Rightarrow> 32 word" where
  "fnv32 s = fnv32_loop 2166136261 s"

definition lc_index :: "cache_key \<Rightarrow> nat" where
  "lc_index k = unat (fnv32 (fst k @ [CHR 0x00] @ snd k) AND 0xff)"

definition lc_shard :: "cache_key \<Rightarrow> lru_cache \<Rightarrow> cache_shard" where
  "lc_shard k c = lc_shards c ! lc_index k"

definition lc_update :: "cache_key \<Rightarrow> cache_shard \<Rightarrow> lru_cache \<Rightarrow> lru_cache" where
  "lc_update k s c = c\<lparr>lc_shards := (lc_shards c)[lc_index k := s]\<rparr>"

definition lc_Get :: "int \<Rightarrow> lm_layer \<Rightarrow> string \<Rightarrow> lru_cache \<Rightarrow> lm_hash option \<times> lru_cache" where
  "lc_Get now l p c =
     (let (h, s) = csh_get (l, p) (lc_shard (l, p) c);
          c' = lc_update (l, p) s c
      in (h, if h \<noteq> None then c'\<lparr>lc_hits := lc_hits c' + 1\<rparr> else c'\<lparr>lc_misses := lc_misses c' + 1\<rparr>))"

definition lc_Set :: "int \<Rightarrow> lm_layer \<Rightarrow> string \<Rightarrow> lm_hash \<Rightarrow> lru_cache \<Rightarrow> lru_cache" where
  "lc_Set now l p h c = lc_update (l, p) (csh_set now (l, p) h (lc_shard (l, p) c)) c"

definition lc_Delete :: "lm_layer \<Rightarrow> string \<Rightarrow> lru_cache \<Rightarrow> lru_cache" where
  "lc_Delete l p c = lc_update (l, p) (csh_delete (l, p) (lc_shard (l, p) c)) c"

definition lc_DeleteLayer :: "(cache_key set \<Rightarrow> cache_key list) \<Rightarrow> lm_layer \<Rightarrow> lru_cache \<Rightarrow> lru_cache" where
  "lc_DeleteLayer enum l c = c\<lparr>lc_shards := map (csh_deleteLayer enum l) (lc_shards c)\<rparr>"

definition lc_Len :: "lru_cache \<Rightarrow> int" where
  "lc_Len c = sum_list (map (\<lambda>s. int (length (csh_lru s))) (lc_shards c))"

definition lc_Stats :: "lru_cache \<Rightarrow> lm_cache_stats" where
  "lc_Stats c =
     \<lparr>cs_Hits = lc_hits c, cs_Misses = lc_misses c, cs_Evictions = sum_list (map csh_evicted (lc_shards c)),
      cs_Capacity = lc_capacity c * 256, cs_Used = lc_Len c\<rparr>"

definition lru_hash_cache :: "(cache_key set \<Rightarrow> cache_key list) \<Rightarrow> lru_cache hash_cache" where
  "lru_hash_cache enum =
     \<lparr>hc_Get = lc_Get, hc_Set = lc_Set, hc_Delete = lc_Delete, hc_DeleteLayer = lc_DeleteLayer enum,
      hc_Len = lc_Len, hc_Stats = lc_Stats\<rparr>"

section \<open>The other implementations\<close>

definition NoopHashCache :: "unit hash_cache" where
  "NoopHashCache =
     \<lparr>hc_Get = (\<lambda>_ _ _ s. (None, s)), hc_Set = (\<lambda>_ _ _ _ s. s), hc_Delete = (\<lambda>_ _ s. s), hc_DeleteLayer = (\<lambda>_ s. s),
      hc_Len = (\<lambda>_. 0),
      hc_Stats = (\<lambda>_. \<lparr>cs_Hits = 0, cs_Misses = 0, cs_Evictions = 0, cs_Capacity = 0, cs_Used = 0\<rparr>)\<rparr>"

text \<open>
  \<open>InstrumentedHashCache\<close>: the hooks are functions on a world the program does not see; a \<open>nil\<close>
  hook is \<open>None\<close>.
\<close>

record 'w cache_hooks =
  ch_onHit :: "(lm_layer \<Rightarrow> string \<Rightarrow> 'w \<Rightarrow> 'w) option"
  ch_onMiss :: "(lm_layer \<Rightarrow> string \<Rightarrow> 'w \<Rightarrow> 'w) option"
  ch_onSet :: "(lm_layer \<Rightarrow> string \<Rightarrow> lm_hash \<Rightarrow> 'w \<Rightarrow> 'w) option"

definition ic_Get :: "'s hash_cache \<Rightarrow> 'w cache_hooks \<Rightarrow> int \<Rightarrow> lm_layer \<Rightarrow> string \<Rightarrow> 's \<times> 'w
    \<Rightarrow> lm_hash option \<times> 's \<times> 'w" where
  "ic_Get inner hk now l p s =
     (let (h, s1) = hc_Get inner now l p (fst s);
          w = (if h \<noteq> None
               then (case ch_onHit hk of None \<Rightarrow> snd s | Some f \<Rightarrow> f l p (snd s))
               else (case ch_onMiss hk of None \<Rightarrow> snd s | Some f \<Rightarrow> f l p (snd s)))
      in (h, s1, w))"

definition ic_Set :: "'s hash_cache \<Rightarrow> 'w cache_hooks \<Rightarrow> int \<Rightarrow> lm_layer \<Rightarrow> string \<Rightarrow> lm_hash \<Rightarrow> 's \<times> 'w \<Rightarrow> 's \<times> 'w" where
  "ic_Set inner hk now l p h s =
     (hc_Set inner now l p h (fst s), case ch_onSet hk of None \<Rightarrow> snd s | Some f \<Rightarrow> f l p h (snd s))"

definition NewInstrumentedHashCache :: "'s hash_cache \<Rightarrow> 'w cache_hooks \<Rightarrow> ('s \<times> 'w) hash_cache" where
  "NewInstrumentedHashCache inner hk =
     \<lparr>hc_Get = ic_Get inner hk, hc_Set = ic_Set inner hk,
      hc_Delete = (\<lambda>l p s. (hc_Delete inner l p (fst s), snd s)),
      hc_DeleteLayer = (\<lambda>l s. (hc_DeleteLayer inner l (fst s), snd s)),
      hc_Len = (\<lambda>s. hc_Len inner (fst s)), hc_Stats = (\<lambda>s. hc_Stats inner (fst s))\<rparr>"

text \<open>\<open>TTLHashCache\<close>: the times of the last writes, by the string \<open>layer NUL path\<close>.\<close>

type_synonym 's ttl_state = "'s \<times> (string \<rightharpoonup> int)"

definition ttl_key :: "lm_layer \<Rightarrow> string \<Rightarrow> string" where
  "ttl_key l p = l @ [CHR 0x00] @ p"

definition ttl_Get :: "'s hash_cache \<Rightarrow> int \<Rightarrow> int \<Rightarrow> lm_layer \<Rightarrow> string \<Rightarrow> 's ttl_state \<Rightarrow> lm_hash option \<times> 's ttl_state" where
  "ttl_Get inner ttl now l p s =
     (let plain = (let (h, s1) = hc_Get inner now l p (fst s) in (h, s1, snd s)) in
      case snd s (ttl_key l p) of
        Some t \<Rightarrow>
          (if now - t > ttl then (None, hc_Delete inner l p (fst s), (snd s)(ttl_key l p := None)) else plain)
      | None \<Rightarrow> plain)"

definition ttl_Set :: "'s hash_cache \<Rightarrow> int \<Rightarrow> lm_layer \<Rightarrow> string \<Rightarrow> lm_hash \<Rightarrow> 's ttl_state \<Rightarrow> 's ttl_state" where
  "ttl_Set inner now l p h s = (hc_Set inner now l p h (fst s), (snd s)(ttl_key l p \<mapsto> now))"

definition NewTTLHashCache :: "'s hash_cache \<Rightarrow> int \<Rightarrow> 's ttl_state hash_cache" where
  "NewTTLHashCache inner ttl =
     \<lparr>hc_Get = ttl_Get inner ttl, hc_Set = ttl_Set inner,
      hc_Delete = (\<lambda>l p s. (hc_Delete inner l p (fst s), snd s)),
      hc_DeleteLayer = (\<lambda>l s. (hc_DeleteLayer inner l (fst s), snd s)),
      hc_Len = (\<lambda>s. hc_Len inner (fst s)), hc_Stats = (\<lambda>s. hc_Stats inner (fst s))\<rparr>"

section \<open>A shard implements a bounded LRU list\<close>

text \<open>
  \<open>csh_rep s\<close>: the map points exactly to the elements of the list, each carrying its key;
  \<open>csh_contents\<close> reads off the abstract list.
\<close>

definition csh_rep :: "cache_shard \<Rightarrow> bool" where
  "csh_rep s \<longleftrightarrow> distinct (csh_lru s)
     \<and> (\<forall>k e. csh_entries s k = Some e \<longleftrightarrow> e \<in> set (csh_lru s) \<and> ce_key (entry_of s e) = k)
     \<and> (\<forall>e \<in> set (csh_lru s). csh_value s e \<noteq> None) \<and> (\<forall>e. csh_next s \<le> e \<longrightarrow> e \<notin> set (csh_lru s))"

definition csh_pair :: "cache_shard \<Rightarrow> element \<Rightarrow> cache_key \<times> lm_hash" where
  "csh_pair s e = (ce_key (entry_of s e), ce_hash (entry_of s e))"

definition csh_contents :: "cache_shard \<Rightarrow> (cache_key \<times> lm_hash) list" where
  "csh_contents s = map (csh_pair s) (csh_lru s)"

definition csh_ok :: "cache_shard \<Rightarrow> bool" where
  "csh_ok s \<longleftrightarrow> csh_rep s \<and> 0 < csh_cap s \<and> int (length (csh_lru s)) \<le> csh_cap s"

lemma csh_rep_entries:
  "csh_rep s \<Longrightarrow> csh_entries s k = Some e \<longleftrightarrow> e \<in> set (csh_lru s) \<and> ce_key (entry_of s e) = k"
  unfolding csh_rep_def by blast

lemma csh_rep_key_inj: "csh_rep s \<Longrightarrow> inj_on (\<lambda>e. ce_key (entry_of s e)) (set (csh_lru s))"
proof (rule inj_onI)
  fix e e' assume *: "csh_rep s" "e \<in> set (csh_lru s)" "e' \<in> set (csh_lru s)" "ce_key (entry_of s e) = ce_key (entry_of s e')"
  then have "csh_entries s (ce_key (entry_of s e)) = Some e" "csh_entries s (ce_key (entry_of s e)) = Some e'"
    by (simp_all add: csh_rep_entries)
  then show "e = e'" by simp
qed

lemma csh_contents_keys: "map fst (csh_contents s) = map (\<lambda>e. ce_key (entry_of s e)) (csh_lru s)"
  by (simp add: csh_contents_def csh_pair_def comp_def)

lemma csh_contents_distinct: "csh_rep s \<Longrightarrow> distinct (map fst (csh_contents s))"
  unfolding csh_contents_keys distinct_map using csh_rep_key_inj by (auto simp: csh_rep_def)

lemma csh_contents_lookup:
  assumes "csh_rep s"
  shows "map_of (csh_contents s) k = map_option (\<lambda>e. ce_hash (entry_of s e)) (csh_entries s k)"
proof (cases "csh_entries s k")
  case None
  have "k \<notin> fst ` set (csh_contents s)"
  proof
    assume "k \<in> fst ` set (csh_contents s)"
    then obtain e where "e \<in> set (csh_lru s)" "ce_key (entry_of s e) = k" by (auto simp: csh_contents_def csh_pair_def)
    then have "csh_entries s k = Some e" by (simp add: csh_rep_entries [OF assms])
    with None show False by simp
  qed
  then show ?thesis using None by (simp add: map_of_eq_None_iff)
next
  case (Some e)
  then have "(k, ce_hash (entry_of s e)) \<in> set (csh_contents s)"
    using csh_rep_entries [OF assms] by (auto simp: csh_contents_def csh_pair_def)
  then show ?thesis using Some map_of_is_SomeI [OF csh_contents_distinct [OF assms]] by simp
qed

lemma csh_contents_drop:
  assumes "csh_rep s" "csh_entries s k = Some e"
  shows "lru_drop k (csh_contents s) = map (csh_pair s) (remove1 e (csh_lru s))"
proof -
  have "remove1 e (csh_lru s) = filter (\<lambda>x. x \<noteq> e) (csh_lru s)"
    using assms(1) by (simp add: csh_rep_def distinct_remove1_removeAll removeAll_filter_not_eq eq_commute)
  also have "\<dots> = filter (\<lambda>x. ce_key (entry_of s x) \<noteq> k) (csh_lru s)"
  proof (rule filter_cong)
    fix x assume "x \<in> set (csh_lru s)"
    then show "x \<noteq> e \<longleftrightarrow> ce_key (entry_of s x) \<noteq> k"
      using csh_rep_entries [OF assms(1), of k x] csh_rep_entries [OF assms(1), of k e] assms(2) by auto
  qed simp
  finally show ?thesis by (simp add: lru_drop_def csh_contents_def filter_map comp_def csh_pair_def)
qed

subsection \<open>Each operation\<close>

lemma csh_rep_reorder:
  assumes "csh_rep s" "distinct xs" "set xs = set (csh_lru s)"
  shows "csh_rep (s\<lparr>csh_lru := xs\<rparr>)"
  using assms by (simp add: csh_rep_def entry_of_def)

lemma csh_rep_MoveToFront:
  assumes "csh_rep s" "csh_entries s k = Some e"
  shows "csh_rep (list_MoveToFront e s)"
    and "csh_contents (list_MoveToFront e s) = (k, ce_hash (entry_of s e)) # lru_drop k (csh_contents s)"
proof -
  have e: "e \<in> set (csh_lru s)" "ce_key (entry_of s e) = k" using csh_rep_entries [OF assms(1)] assms(2) by simp_all
  have d: "distinct (csh_lru s)" using assms(1) by (simp add: csh_rep_def)
  have "csh_rep (s\<lparr>csh_lru := e # remove1 e (csh_lru s)\<rparr>)"
    by (rule csh_rep_reorder) (use assms(1) d e(1) in auto)
  then show "csh_rep (list_MoveToFront e s)" using e(1) by (simp add: list_MoveToFront_def)
  show "csh_contents (list_MoveToFront e s) = (k, ce_hash (entry_of s e)) # lru_drop k (csh_contents s)"
    unfolding csh_contents_drop [OF assms] using e
    by (simp add: list_MoveToFront_def csh_contents_def csh_pair_def entry_of_def)
qed

lemma csh_get_refines:
  assumes "csh_rep s"
  shows "fst (csh_get k s) = fst (lru_get k (csh_contents s))"
    and "csh_rep (snd (csh_get k s))" "csh_contents (snd (csh_get k s)) = snd (lru_get k (csh_contents s))"
    and "csh_cap (snd (csh_get k s)) = csh_cap s"
  using csh_rep_MoveToFront [OF assms] csh_contents_lookup [OF assms, of k] assms
  by (auto simp: csh_get_def lru_get_def Let_def list_MoveToFront_def entry_of_def split: option.split)

lemma csh_rep_Remove:
  assumes "csh_rep s" "csh_entries s k = Some e"
  defines "s' \<equiv> list_Remove e (s\<lparr>csh_entries := (csh_entries s)(k := None)\<rparr>)"
  shows "csh_rep s'" "csh_contents s' = lru_drop k (csh_contents s)"
proof -
  have d: "distinct (csh_lru s)" and e: "e \<in> set (csh_lru s)" "ce_key (entry_of s e) = k"
    using assms(1,2) csh_rep_entries [OF assms(1)] by (simp_all add: csh_rep_def)
  have "csh_entries s' k' = Some e' \<longleftrightarrow> e' \<in> set (csh_lru s') \<and> ce_key (entry_of s' e') = k'" for k' e'
  proof (cases "k' = k")
    case True
    then show ?thesis using csh_rep_entries [OF assms(1), of k e'] assms(2) d
      by (auto simp: s'_def list_Remove_def entry_of_def)
  next
    case False
    then show ?thesis using csh_rep_entries [OF assms(1), of k' e'] e d
      by (auto simp: s'_def list_Remove_def entry_of_def)
  qed
  then show "csh_rep s'"
    using assms(1) d unfolding csh_rep_def by (simp add: s'_def list_Remove_def entry_of_def)
  show "csh_contents s' = lru_drop k (csh_contents s)"
    unfolding csh_contents_drop [OF assms(1,2)]
    by (simp add: s'_def list_Remove_def csh_contents_def csh_pair_def entry_of_def)
qed

lemma csh_delete_refines:
  assumes "csh_rep s"
  shows "csh_rep (csh_delete k s)" "csh_contents (csh_delete k s) = lru_drop k (csh_contents s)"
    "csh_cap (csh_delete k s) = csh_cap s"
proof -
  have "lru_drop k (csh_contents s) = csh_contents s" if "csh_entries s k = None"
    using csh_contents_lookup [OF assms, of k] that by (intro lru_drop_absent) (simp add: map_of_eq_None_iff)
  then show "csh_rep (csh_delete k s)" "csh_contents (csh_delete k s) = lru_drop k (csh_contents s)"
    "csh_cap (csh_delete k s) = csh_cap s"
    using csh_rep_Remove [OF assms] assms
    by (auto simp: csh_delete_def list_Remove_def split: option.split)
qed

lemma evictOldest_refines:
  assumes "csh_rep s"
  shows "csh_rep (evictOldest s)" "csh_contents (evictOldest s) = butlast (csh_contents s)"
    "csh_cap (evictOldest s) = csh_cap s"
proof -
  have *: "csh_rep (evictOldest s) \<and> csh_contents (evictOldest s) = butlast (csh_contents s) \<and> csh_cap (evictOldest s) = csh_cap s"
  proof (cases "csh_lru s = []")
    case True
    then show ?thesis using assms by (simp add: evictOldest_def list_Back_def csh_contents_def)
  next
    case False
    define e where "e = last (csh_lru s)"
    have e: "e \<in> set (csh_lru s)" using False by (simp add: e_def)
    let ?k = "ce_key (entry_of s e)"
    have k: "csh_entries s ?k = Some e" using csh_rep_entries [OF assms] e by simp
    let ?s = "list_Remove e (s\<lparr>csh_entries := (csh_entries s)(?k := None)\<rparr>)"
    have ev: "evictOldest s = ?s\<lparr>csh_evicted := csh_evicted ?s + 1\<rparr>"
      using False by (simp add: evictOldest_def list_Back_def Let_def e_def)
    have r: "remove1 e (csh_lru s) = butlast (csh_lru s)"
    proof -
      obtain us where us: "csh_lru s = us @ [e]" using False unfolding e_def by (metis append_butlast_last_id)
      then have "e \<notin> set us" using assms by (simp add: csh_rep_def)
      then show ?thesis by (simp add: us remove1_append)
    qed
    have "csh_contents (evictOldest s) = map (csh_pair s) (remove1 e (csh_lru s))"
      by (simp add: ev csh_contents_def list_Remove_def csh_pair_def entry_of_def)
    moreover have "csh_rep (evictOldest s)"
      unfolding ev using csh_rep_Remove(1) [OF assms k] by (simp add: csh_rep_def entry_of_def)
    moreover have "csh_cap (evictOldest s) = csh_cap s" by (simp add: ev list_Remove_def)
    ultimately show ?thesis by (simp add: r csh_contents_def map_butlast)
  qed
  then show "csh_rep (evictOldest s)" "csh_contents (evictOldest s) = butlast (csh_contents s)"
    "csh_cap (evictOldest s) = csh_cap s" by auto
qed

lemma csh_set_refines:
  assumes "csh_ok s"
  shows "csh_rep (csh_set now k h s)" "csh_contents (csh_set now k h s) = lru_put (csh_cap s) k h (csh_contents s)"
    "csh_cap (csh_set now k h s) = csh_cap s"
proof -
  have r: "csh_rep s" and cap: "0 < csh_cap s" "int (length (csh_lru s)) \<le> csh_cap s"
    using assms by (auto simp: csh_ok_def)
  have *: "csh_rep (csh_set now k h s) \<and> csh_contents (csh_set now k h s) = lru_put (csh_cap s) k h (csh_contents s)
    \<and> csh_cap (csh_set now k h s) = csh_cap s"
  proof (cases "csh_entries s k")
    case (Some e)
    let ?s = "list_MoveToFront e s"
    have e: "e \<in> set (csh_lru s)" "ce_key (entry_of s e) = k" using csh_rep_entries [OF r] Some by simp_all
    have mv: "csh_rep ?s" "csh_contents ?s = (k, ce_hash (entry_of s e)) # lru_drop k (csh_contents s)"
      using csh_rep_MoveToFront [OF r Some] by simp_all
    let ?t = "?s\<lparr>csh_value := (csh_value ?s)(e \<mapsto> (entry_of ?s e)\<lparr>ce_hash := h\<rparr>)\<rparr>"
    have val: "ce_key (entry_of ?t x) = ce_key (entry_of ?s x)" "x \<noteq> e \<Longrightarrow> entry_of ?t x = entry_of ?s x"
      "ce_hash (entry_of ?t e) = h" for x
      by (simp_all add: entry_of_def)
    have "csh_rep ?t"
      using mv(1) unfolding csh_rep_def val(1) by simp
    moreover have "csh_contents ?t = (k, h) # lru_drop k (csh_contents s)"
    proof -
      have lru: "csh_lru ?t = e # remove1 e (csh_lru s)" "csh_lru ?s = e # remove1 e (csh_lru s)"
        using e(1) by (simp_all add: list_MoveToFront_def)
      have "e \<notin> set (remove1 e (csh_lru s))" using r by (simp add: csh_rep_def)
      then have "map (csh_pair ?t) (remove1 e (csh_lru s)) = map (csh_pair ?s) (remove1 e (csh_lru s))"
        by (intro map_cong refl) (metis csh_pair_def val(2))
      moreover have "map (csh_pair ?s) (remove1 e (csh_lru s)) = lru_drop k (csh_contents s)"
        using mv(2) unfolding csh_contents_def [of ?s] lru(2) by simp
      moreover have "csh_pair ?t e = (k, h)"
        unfolding csh_pair_def val using e by (simp add: list_MoveToFront_def entry_of_def)
      ultimately show ?thesis unfolding csh_contents_def [of ?t] lru(1) by simp
    qed
    moreover have "csh_set now k h s = ?t" by (simp add: csh_set_def Some Let_def)
    moreover have "lru_put (csh_cap s) k h (csh_contents s) = (k, h) # lru_drop k (csh_contents s)"
      using csh_contents_lookup [OF r, of k] Some by (simp add: lru_put_def)
    moreover have "csh_cap ?t = csh_cap s" by (simp add: list_MoveToFront_def)
    ultimately show ?thesis by simp
  next
    case None
    define t where "t = (if csh_cap s \<le> int (length (csh_lru s)) then evictOldest s else s)"
    have t: "csh_rep t" "csh_cap t = csh_cap s"
      "csh_contents t = (if csh_cap s \<le> int (length (csh_lru s)) then butlast (csh_contents s) else csh_contents s)"
      using evictOldest_refines [OF r] r by (simp_all add: t_def)
    have k: "k \<notin> fst ` set (csh_contents s)"
      using csh_contents_lookup [OF r, of k] None by (simp add: map_of_eq_None_iff)
    have "set (csh_contents t) \<subseteq> set (csh_contents s)" unfolding t(3) by (auto dest: in_set_butlastD)
    then have kt: "csh_entries t k = None"
      using csh_contents_lookup [OF t(1), of k] k by (cases "csh_entries t k") (force dest!: map_of_SomeD)+
    define u where "u = csh_set now k h s"
    have u: "u = t\<lparr>csh_lru := csh_next t # csh_lru t, csh_next := Suc (csh_next t),
        csh_value := (csh_value t)(csh_next t \<mapsto> \<lparr>ce_key = k, ce_hash = h, ce_createdAt = now\<rparr>),
        csh_entries := (csh_entries t)(k \<mapsto> csh_next t)\<rparr>"
      unfolding u_def csh_set_def None option.case t_def [symmetric] by (simp add: list_PushFront_def)
    have fresh: "csh_next t \<notin> set (csh_lru t)" using t(1) by (simp add: csh_rep_def)
    have val: "entry_of u (csh_next t) = \<lparr>ce_key = k, ce_hash = h, ce_createdAt = now\<rparr>"
      "x \<noteq> csh_next t \<Longrightarrow> entry_of u x = entry_of t x" for x
      by (simp_all add: u entry_of_def)
    have "csh_entries u k' = Some e' \<longleftrightarrow> e' \<in> set (csh_lru u) \<and> ce_key (entry_of u e') = k'" for k' e'
      using csh_rep_entries [OF t(1), of k' e'] kt fresh val by (cases "e' = csh_next t") (auto simp: u entry_of_def)
    then have "csh_rep u"
      using t(1) fresh unfolding csh_rep_def by (auto simp: u simp del: split_paired_All)
    moreover have "csh_contents u = (k, h) # csh_contents t"
    proof -
      have "map (csh_pair u) (csh_lru t) = map (csh_pair t) (csh_lru t)"
        using fresh by (intro map_cong refl) (metis csh_pair_def val(2))
      moreover have "csh_lru u = csh_next t # csh_lru t" by (simp add: u)
      ultimately show ?thesis by (simp add: csh_contents_def csh_pair_def val(1))
    qed
    moreover have "csh_cap u = csh_cap s" by (simp add: u t(2))
    moreover have "lru_put (csh_cap s) k h (csh_contents s) = (k, h) # csh_contents t"
    proof -
      have len: "length (csh_contents s) = length (csh_lru s)" by (simp add: csh_contents_def)
      have "csh_contents s \<noteq> []" if "csh_cap s \<le> int (length (csh_lru s))" using that cap(1) len by auto
      then show ?thesis
        using csh_contents_lookup [OF r, of k] None cap len by (auto simp: lru_put_def Let_def t(3))
    qed
    ultimately show ?thesis by (simp add: u_def)
  qed
  then show "csh_rep (csh_set now k h s)" "csh_contents (csh_set now k h s) = lru_put (csh_cap s) k h (csh_contents s)"
    "csh_cap (csh_set now k h s) = csh_cap s" by auto
qed

lemma csh_deleteLayer_fold:
  fixes l :: lm_layer
  assumes "csh_rep s"
  defines "f \<equiv> \<lambda>k s. if fst k = l then csh_delete k s else s"
  shows "csh_rep (fold f ks s) \<and> csh_cap (fold f ks s) = csh_cap s
    \<and> csh_contents (fold f ks s) = filter (\<lambda>p. \<not> (fst (fst p) = l \<and> fst p \<in> set ks)) (csh_contents s)"
  using assms(1)
proof (induction ks arbitrary: s)
  case Nil
  then show ?case by simp
next
  case (Cons k ks)
  have f: "csh_rep (f k s)" "csh_cap (f k s) = csh_cap s"
    "csh_contents (f k s) = filter (\<lambda>p. \<not> (fst (fst p) = l \<and> fst p = k)) (csh_contents s)"
    using csh_delete_refines [OF Cons.prems, of k] Cons.prems
    by (auto simp: f_def lru_drop_def intro!: filter_cong filter_True [symmetric])
  have "csh_contents (fold f ks (f k s)) = filter (\<lambda>p. \<not> (fst (fst p) = l \<and> fst p \<in> set (k # ks))) (csh_contents s)"
    using Cons.IH [OF f(1)] unfolding f(3) filter_filter by (auto intro!: filter_cong)
  then show ?case using Cons.IH [OF f(1)] f(2) by simp
qed

lemma csh_deleteLayer_refines:
  assumes "csh_rep s" "map_range enum"
  shows "csh_rep (csh_deleteLayer enum l s)" "csh_cap (csh_deleteLayer enum l s) = csh_cap s"
    "csh_contents (csh_deleteLayer enum l s) = filter (\<lambda>p. fst (fst p) \<noteq> l) (csh_contents s)"
proof -
  have dom: "dom (csh_entries s) = fst ` set (csh_contents s)"
    using csh_contents_lookup [OF assms(1)] dom_map_of_conv_image_fst [of "csh_contents s"]
    by (metis (mono_tags, lifting) dom_def map_option_is_None Collect_cong)
  have "set (enum (dom (csh_entries s))) = fst ` set (csh_contents s)"
    unfolding dom using map_range.enum_set [OF assms(2)] by blast
  then have "filter (\<lambda>p. \<not> (fst (fst p) = l \<and> fst p \<in> set (enum (dom (csh_entries s))))) (csh_contents s)
      = filter (\<lambda>p. fst (fst p) \<noteq> l) (csh_contents s)"
    by (intro filter_cong) auto
  then show "csh_rep (csh_deleteLayer enum l s)" "csh_cap (csh_deleteLayer enum l s) = csh_cap s"
    "csh_contents (csh_deleteLayer enum l s) = filter (\<lambda>p. fst (fst p) \<noteq> l) (csh_contents s)"
    using csh_deleteLayer_fold [OF assms(1), of l "enum (dom (csh_entries s))"]
    by (simp_all add: csh_deleteLayer_def)
qed

section \<open>The contract of a hash cache\<close>

text \<open>
  What the deduplication engine relies on: every method is one of a cache that may forget, and
  \<open>DeleteLayer\<close> leaves nothing of the layer.
\<close>

locale hash_cache_laws =
  fixes C :: "'s hash_cache"
    and invar :: "'s \<Rightarrow> bool"
    and look :: "'s \<Rightarrow> cache_key \<Rightarrow> lm_hash option"
  assumes methods: "forgetful_cache invar look (\<lambda>k. hc_Get C now (fst k) (snd k)) (\<lambda>k. hc_Set C now (fst k) (snd k))
      (\<lambda>k. hc_Delete C (fst k) (snd k))"
    and deleteLayer: "invar s \<Longrightarrow> look (hc_DeleteLayer C l s) \<subseteq>\<^sub>m look s |` {k. fst k \<noteq> l}"
    and invar_deleteLayer: "invar s \<Longrightarrow> invar (hc_DeleteLayer C l s)"

sublocale hash_cache_laws \<subseteq> ops: forgetful_cache invar look "\<lambda>k. hc_Get C now (fst k) (snd k)"
    "\<lambda>k. hc_Set C now (fst k) (snd k)" "\<lambda>k. hc_Delete C (fst k) (snd k)" for now
  by (rule methods)

context hash_cache_laws
begin

definition all_cached :: "(lm_layer \<Rightarrow> string \<Rightarrow> lm_hash \<Rightarrow> bool) \<Rightarrow> 's \<Rightarrow> bool" where
  "all_cached P s \<longleftrightarrow> (\<forall>l p h. look s (l, p) = Some h \<longrightarrow> P l p h)"

lemma all_cached_holds: "all_cached P s \<longleftrightarrow> forgetful_cache.holds look (\<lambda>k. P (fst k) (snd k)) s"
  by (auto simp: all_cached_def ops.holds_def)

lemma invar_Get: "invar s \<Longrightarrow> invar (snd (hc_Get C now l p s))"
  using ops.invar_get [of s now "(l, p)"] by simp

lemma invar_Set: "invar s \<Longrightarrow> invar (hc_Set C now l p h s)"
  using ops.invar_put [of s now "(l, p)" h] by simp

lemma invar_Delete: "invar s \<Longrightarrow> invar (hc_Delete C l p s)"
  using ops.invar_delete [of s "(l, p)"] by simp

lemma cached_Get_result: "invar s \<Longrightarrow> all_cached P s \<Longrightarrow> fst (hc_Get C now l p s) = Some h \<Longrightarrow> P l p h"
  using ops.get_sound [of s now "(l, p)" h] by (simp add: all_cached_def)

lemma cached_Get: "invar s \<Longrightarrow> all_cached P s \<Longrightarrow> all_cached P (snd (hc_Get C now l p s))"
  using ops.holds_get [of s _ now "(l, p)"] unfolding all_cached_holds by simp

lemma cached_Set: "invar s \<Longrightarrow> all_cached P s \<Longrightarrow> P l p h \<Longrightarrow> all_cached P (hc_Set C now l p h s)"
  using ops.holds_put [of s _ "(l, p)" h now] unfolding all_cached_holds by simp

lemma cached_Delete: "invar s \<Longrightarrow> all_cached P s \<Longrightarrow> all_cached P (hc_Delete C l p s)"
  using ops.holds_delete [of s _ "(l, p)"] unfolding all_cached_holds by simp

lemma cached_DeleteLayer:
  assumes "invar s" "all_cached P s"
  shows "all_cached (\<lambda>l' p h. l' \<noteq> l \<and> P l' p h) (hc_DeleteLayer C l s)"
  unfolding all_cached_def
proof (intro allI impI)
  fix l' p h assume "look (hc_DeleteLayer C l s) (l', p) = Some h"
  then have "(look s |` {k. fst k \<noteq> l}) (l', p) = Some h" using deleteLayer [OF assms(1), of l] unfolding map_le_def by (metis domI)
  then show "l' \<noteq> l \<and> P l' p h" using assms(2) by (auto simp: all_cached_def restrict_map_def split: if_splits)
qed

end

text \<open>Sequences of calls with their clock readings, and the unbounded map they would fill.\<close>

datatype cache_op = CGet lm_layer string | CSet lm_layer string lm_hash | CDelete lm_layer string | CDeleteLayer lm_layer

fun apply_op :: "'s hash_cache \<Rightarrow> int \<times> cache_op \<Rightarrow> 's \<Rightarrow> 's" where
  "apply_op C (now, CGet l p) s = snd (hc_Get C now l p s)"
| "apply_op C (now, CSet l p h) s = hc_Set C now l p h s"
| "apply_op C (now, CDelete l p) s = hc_Delete C l p s"
| "apply_op C (now, CDeleteLayer l) s = hc_DeleteLayer C l s"

text \<open>The last write of every key: the hash and the time.\<close>

fun ideal_op :: "int \<times> cache_op \<Rightarrow> (cache_key \<rightharpoonup> lm_hash \<times> int) \<Rightarrow> (cache_key \<rightharpoonup> lm_hash \<times> int)" where
  "ideal_op (now, CGet l p) m = m"
| "ideal_op (now, CSet l p h) m = m((l, p) \<mapsto> (h, now))"
| "ideal_op (now, CDelete l p) m = m((l, p) := None)"
| "ideal_op (now, CDeleteLayer l) m = m |` {k. fst k \<noteq> l}"

definition last_writes :: "(int \<times> cache_op) list \<Rightarrow> cache_key \<rightharpoonup> lm_hash \<times> int" where
  "last_writes ops = fold ideal_op ops Map.empty"

lemma last_writes_snoc [simp]: "last_writes (ops @ [op]) = ideal_op op (last_writes ops)"
  by (simp add: last_writes_def)

context hash_cache_laws
begin

definition below :: "'s \<Rightarrow> (cache_key \<rightharpoonup> lm_hash \<times> int) \<Rightarrow> bool" where
  "below s m \<longleftrightarrow> (\<forall>k h. look s k = Some h \<longrightarrow> (\<exists>t. m k = Some (h, t)))"

lemma below_le: "below s m \<Longrightarrow> look s' \<subseteq>\<^sub>m look s \<Longrightarrow> below s' m"
  unfolding below_def map_le_def by (metis domI)

lemma below_step:
  assumes "invar s" "below s m"
  shows "invar (apply_op C op s)" "below (apply_op C op s) (ideal_op op m)"
proof -
  obtain now o' where op: "op = (now, o')" by (cases op)
  show "invar (apply_op C op s)"
    using assms(1) invar_Get invar_Set invar_Delete invar_deleteLayer unfolding op by (cases o') simp_all
  show "below (apply_op C op s) (ideal_op op m)"
  proof (cases o')
    case (CGet l p)
    then show ?thesis using below_le [OF assms(2)] ops.get_forgets [OF assms(1), of now "(l, p)"] by (simp add: op)
  next
    case (CSet l p h)
    have "look (hc_Set C now l p h s) k = Some h' \<Longrightarrow> \<exists>t. (m((l, p) \<mapsto> (h, now))) k = Some (h', t)" for k h'
      using ops.put_adds [OF assms(1), of now "(l, p)" h] assms(2) unfolding map_le_def below_def
      by (metis domI fst_conv fun_upd_apply option.inject snd_conv)
    then show ?thesis by (simp add: op CSet below_def)
  next
    case (CDelete l p)
    have "look (hc_Delete C l p s) k = Some h' \<Longrightarrow> \<exists>t. (m((l, p) := None)) k = Some (h', t)" for k h'
      using ops.delete_drops [OF assms(1), of "(l, p)"] assms(2) unfolding map_le_def below_def
      by (metis domI fst_conv fun_upd_apply option.distinct(1) snd_conv)
    then show ?thesis by (simp add: op CDelete below_def)
  next
    case (CDeleteLayer l)
    have "look (hc_DeleteLayer C l s) k = Some h' \<Longrightarrow> \<exists>t. (m |` {k. fst k \<noteq> l}) k = Some (h', t)" for k h'
      using deleteLayer [OF assms(1), of l] assms(2) unfolding map_le_def below_def restrict_map_def
      by (metis (mono_tags, lifting) domI option.distinct(1))
    then show ?thesis by (simp add: op CDeleteLayer below_def)
  qed
qed

lemma below_run:
  assumes "invar s" "look s = Map.empty"
  shows "invar (fold (apply_op C) ops s) \<and> below (fold (apply_op C) ops s) (last_writes ops)"
proof (induction ops rule: rev_induct)
  case Nil
  then show ?case using assms by (simp add: below_def)
next
  case (snoc op ops)
  then show ?case
    using below_step [of "fold (apply_op C) ops s" "last_writes ops" op] by simp
qed

end

section \<open>The LRU cache keeps it\<close>

definition lc_inv :: "lru_cache \<Rightarrow> bool" where
  "lc_inv c \<longleftrightarrow> length (lc_shards c) = 256 \<and> (\<forall>s \<in> set (lc_shards c). csh_ok s \<and> csh_cap s = lc_capacity c)"

definition lc_lookup :: "lru_cache \<Rightarrow> cache_key \<Rightarrow> lm_hash option" where
  "lc_lookup c k = map_of (csh_contents (lc_shard k c)) k"

lemma csh_ok_iff: "csh_ok s \<longleftrightarrow> csh_rep s \<and> 0 < csh_cap s \<and> lru_ok (csh_cap s) (csh_contents s)"
  using csh_contents_distinct by (auto simp: csh_ok_def lru_ok_def csh_contents_def)

lemma csh_ok_ops:
  assumes "csh_ok s"
  shows "csh_ok (snd (csh_get k s))" "csh_ok (csh_set now k h s)" "csh_ok (csh_delete k s)"
    "map_range enum \<Longrightarrow> csh_ok (csh_deleteLayer enum l s)"
proof -
  have r: "csh_rep s" and s: "0 < csh_cap s" "lru_ok (csh_cap s) (csh_contents s)" using assms by (auto simp: csh_ok_iff)
  show "csh_ok (snd (csh_get k s))" unfolding csh_ok_iff csh_get_refines [OF r] using lru_ok_get s csh_get_refines [OF r] by auto
  show "csh_ok (csh_set now k h s)" unfolding csh_ok_iff csh_set_refines [OF assms] using lru_ok_put [OF s(2,1)] s csh_set_refines [OF assms] by auto
  show "csh_ok (csh_delete k s)" unfolding csh_ok_iff csh_delete_refines [OF r] using lru_ok_drop s csh_delete_refines [OF r] by auto
  show "csh_ok (csh_deleteLayer enum l s)" if "map_range enum"
    unfolding csh_ok_iff csh_deleteLayer_refines [OF r that] using lru_ok_filter s csh_deleteLayer_refines [OF r that] by auto
qed

lemma lc_index_less: "lc_index k < 256"
proof -
  have "unat (fnv32 (fst k @ [CHR 0x00] @ snd k) AND 0xff) \<le> unat (0xff :: 32 word)"
    by (intro iffD1 [OF word_le_nat_alt] word_and_le1)
  then show ?thesis unfolding lc_index_def by simp
qed

lemma lc_inv_shard: "lc_inv c \<Longrightarrow> csh_ok (lc_shard k c) \<and> csh_cap (lc_shard k c) = lc_capacity c"
  using lc_index_less [of k] by (simp add: lc_inv_def lc_shard_def)

lemma lc_inv_update:
  assumes "lc_inv c" "csh_ok s" "csh_cap s = lc_capacity c"
  shows "lc_inv (lc_update k s c)"
  unfolding lc_inv_def
proof (intro conjI ballI)
  fix t assume "t \<in> set (lc_shards (lc_update k s c))"
  then have "t \<in> insert s (set (lc_shards c))" unfolding lc_update_def using set_update_subset_insert by fastforce
  then show "csh_ok t" "csh_cap t = lc_capacity (lc_update k s c)" using assms by (auto simp: lc_inv_def lc_update_def)
qed (use assms(1) in \<open>simp add: lc_inv_def lc_update_def\<close>)

lemma lc_shard_update:
  assumes "lc_inv c"
  shows "lc_shard j (lc_update k s c) = (if lc_index j = lc_index k then s else lc_shard j c)"
  using assms lc_index_less [of j] by (simp add: lc_inv_def lc_shard_def lc_update_def)

lemma lc_inv_counters [simp]:
  "lc_inv (c\<lparr>lc_hits := x\<rparr>) = lc_inv c" "lc_inv (c\<lparr>lc_misses := x\<rparr>) = lc_inv c"
  "lc_lookup (c\<lparr>lc_hits := x\<rparr>) = lc_lookup c" "lc_lookup (c\<lparr>lc_misses := x\<rparr>) = lc_lookup c"
  by (simp_all add: lc_inv_def lc_lookup_def lc_shard_def fun_eq_iff)

lemma lc_lookup_update:
  "lc_inv c \<Longrightarrow> lc_lookup (lc_update k s c) j = (if lc_index j = lc_index k then map_of (csh_contents s) j else lc_lookup c j)"
  by (simp add: lc_lookup_def lc_shard_update)

interpretation lru_storing: storing_cache lc_inv lc_lookup "\<lambda>k. lc_Get now (fst k) (snd k)"
    "\<lambda>k. lc_Set now (fst k) (snd k)" "\<lambda>k. lc_Delete (fst k) (snd k)" for now
proof
  fix c :: lru_cache and k k' :: cache_key and h
  assume c: "lc_inv c"
  let ?s = "lc_shard k c"
  have s: "csh_ok ?s" "csh_rep ?s" "csh_cap ?s = lc_capacity c" "0 < csh_cap ?s" "lru_ok (csh_cap ?s) (csh_contents ?s)"
    using lc_inv_shard [OF c, of k] by (auto simp: csh_ok_iff)
  note same = lc_lookup_def lc_shard_def
  have get: "lc_lookup (lc_update k (snd (csh_get k ?s)) c) = lc_lookup c"
    unfolding fun_eq_iff lc_lookup_update [OF c] csh_get_refines(3) [OF s(2)] lru_get_lookup(2) by (simp add: same)
  show "fst (lc_Get now (fst k) (snd k) c) = lc_lookup c k"
    using csh_get_refines(1) [OF s(2), of k] lru_get_lookup(1) by (simp add: lc_Get_def case_prod_unfold Let_def lc_lookup_def)
  show "lc_lookup (snd (lc_Get now (fst k) (snd k) c)) = lc_lookup c"
    using get by (simp add: lc_Get_def case_prod_unfold Let_def)
  show "lc_inv (snd (lc_Get now (fst k) (snd k) c))"
    using lc_inv_update [OF c csh_ok_ops(1) [OF s(1), of k]] csh_get_refines(4) [OF s(2)] s(3)
    by (simp add: lc_Get_def case_prod_unfold Let_def)
  have set_eq: "lc_Set now (fst k) (snd k) h c = lc_update k (csh_set now k h ?s) c" by (simp add: lc_Set_def)
  show "lc_inv (lc_Set now (fst k) (snd k) h c)"
    unfolding set_eq using lc_inv_update [OF c csh_ok_ops(2) [OF s(1)]] csh_set_refines(3) [OF s(1)] s(3) by simp
  have put: "lc_lookup (lc_Set now (fst k) (snd k) h c) j
      = (if lc_index j = lc_index k then map_of (lru_put (csh_cap ?s) k h (csh_contents ?s)) j else lc_lookup c j)" for j
    unfolding set_eq lc_lookup_update [OF c] csh_set_refines(2) [OF s(1)] by (rule refl)
  show same_key: "lc_lookup (lc_Set now (fst k) (snd k) h c) k = Some h"
    unfolding put using lru_put_lookup(1) [OF s(5,4)] by simp
  then show "lc_lookup (lc_Set now (fst k) (snd k) h c) k = Some h \<or> lc_lookup (lc_Set now (fst k) (snd k) h c) k = None" by simp
  show "lc_lookup (lc_Set now (fst k) (snd k) h c) k' = lc_lookup c k' \<or> lc_lookup (lc_Set now (fst k) (snd k) h c) k' = None"
    if "k' \<noteq> k"
    unfolding put using lru_put_lookup(2) [OF s(5,4) that, of h] by (simp add: same)
  have del_eq: "lc_Delete (fst k) (snd k) c = lc_update k (csh_delete k ?s) c" by (simp add: lc_Delete_def)
  show "lc_lookup (lc_Delete (fst k) (snd k) c) = (lc_lookup c)(k := None)"
    unfolding del_eq fun_eq_iff lc_lookup_update [OF c] csh_delete_refines(2) [OF s(2)] by (simp add: same)
  show "lc_inv (lc_Delete (fst k) (snd k) c)"
    unfolding del_eq using lc_inv_update [OF c csh_ok_ops(3) [OF s(1)]] csh_delete_refines(3) [OF s(2)] s(3) by simp
qed

lemma lc_DeleteLayer_spec:
  assumes "lc_inv c" "map_range enum"
  shows "lc_inv (lc_DeleteLayer enum l c)" "lc_lookup (lc_DeleteLayer enum l c) = lc_lookup c |` {k. fst k \<noteq> l}"
proof -
  have ok: "csh_ok s \<and> csh_cap s = lc_capacity c" if "s \<in> set (lc_shards c)" for s using assms(1) that by (simp add: lc_inv_def)
  have r: "csh_rep s" if "s \<in> set (lc_shards c)" for s using ok [OF that] by (simp add: csh_ok_def)
  show "lc_inv (lc_DeleteLayer enum l c)"
    using assms(1) ok csh_ok_ops(4) [OF _ assms(2)] csh_deleteLayer_refines(2) [OF r assms(2)]
    by (simp add: lc_inv_def lc_DeleteLayer_def)
  have mem: "lc_shard k c \<in> set (lc_shards c)" for k
    using assms(1) lc_index_less [of k] by (simp add: lc_inv_def lc_shard_def)
  have "lc_shard k (lc_DeleteLayer enum l c) = csh_deleteLayer enum l (lc_shard k c)" for k
    using assms(1) lc_index_less [of k] by (simp add: lc_inv_def lc_shard_def lc_DeleteLayer_def)
  then have "lc_lookup (lc_DeleteLayer enum l c) k = map_of (filter (\<lambda>p. fst (fst p) \<noteq> l) (csh_contents (lc_shard k c))) k" for k
    using csh_deleteLayer_refines(3) [OF r [OF mem] assms(2)] by (simp add: lc_lookup_def)
  then have "lc_lookup (lc_DeleteLayer enum l c) k = (lc_lookup c |` {k. fst k \<noteq> l}) k" for k
    unfolding map_of_filter_key [of "\<lambda>k. fst k \<noteq> l"] by (simp add: restrict_map_def lc_lookup_def)
  then show "lc_lookup (lc_DeleteLayer enum l c) = lc_lookup c |` {k. fst k \<noteq> l}" by (rule ext)
qed

lemma lru_laws:
  assumes "map_range enum"
  shows "hash_cache_laws (lru_hash_cache enum) lc_inv lc_lookup"
proof (rule hash_cache_laws.intro)
  fix now
  show "forgetful_cache lc_inv lc_lookup (\<lambda>k. hc_Get (lru_hash_cache enum) now (fst k) (snd k))
      (\<lambda>k. hc_Set (lru_hash_cache enum) now (fst k) (snd k)) (\<lambda>k. hc_Delete (lru_hash_cache enum) (fst k) (snd k))"
    using lru_storing.forget.forgetful_cache_axioms [of now] by (simp add: lru_hash_cache_def)
qed (simp_all add: lru_hash_cache_def lc_DeleteLayer_spec assms)

locale key_range = map_range enum for enum :: "cache_key set \<Rightarrow> cache_key list"

sublocale key_range \<subseteq> lru: hash_cache_laws "lru_hash_cache enum" lc_inv lc_lookup
  by (rule lru_laws [OF map_range_axioms])

interpretation sorted_keys: key_range "sorted_list_of_set :: cache_key set \<Rightarrow> cache_key list"
  by unfold_locales

interpretation noop: hash_cache_laws NoopHashCache "\<lambda>_. True" "\<lambda>_. Map.empty"
  by unfold_locales (simp_all add: NoopHashCache_def)

text \<open>The decorators keep the contract of the cache they wrap.\<close>

locale decorated_cache = hash_cache_laws C invar look
  for C :: "'s hash_cache" and invar look +
  fixes hk :: "'w cache_hooks" and ttl :: int

sublocale decorated_cache \<subseteq> instrumented: hash_cache_laws "NewInstrumentedHashCache C hk" "\<lambda>s. invar (fst s)" "\<lambda>s. look (fst s)"
proof (rule hash_cache_laws.intro)
  fix now and s :: "'a \<times> 'b" and l
  show "forgetful_cache (\<lambda>s. invar (fst s)) (\<lambda>s. look (fst s)) (\<lambda>k. hc_Get (NewInstrumentedHashCache C hk) now (fst k) (snd k))
      (\<lambda>k. hc_Set (NewInstrumentedHashCache C hk) now (fst k) (snd k)) (\<lambda>k. hc_Delete (NewInstrumentedHashCache C hk) (fst k) (snd k))"
    by unfold_locales
      (simp_all add: NewInstrumentedHashCache_def ic_Get_def ic_Set_def case_prod_unfold Let_def
        ops.get_sound ops.get_forgets ops.put_adds ops.delete_drops ops.invar_get ops.invar_put ops.invar_delete)
qed (simp_all add: NewInstrumentedHashCache_def deleteLayer invar_deleteLayer)

sublocale decorated_cache \<subseteq> expiring: hash_cache_laws "NewTTLHashCache C ttl" "\<lambda>s. invar (fst s)" "\<lambda>s. look (fst s)"
proof (rule hash_cache_laws.intro)
  fix now and s :: "'a ttl_state" and l
  have "look (hc_Delete C l p s) \<subseteq>\<^sub>m look s" if "invar s" for l p s
    using ops.delete_drops [OF that, of "(l, p)"] by (auto simp: map_le_def split: if_splits)
  then show "forgetful_cache (\<lambda>s. invar (fst s)) (\<lambda>s. look (fst s)) (\<lambda>k. hc_Get (NewTTLHashCache C ttl) now (fst k) (snd k))
      (\<lambda>k. hc_Set (NewTTLHashCache C ttl) now (fst k) (snd k)) (\<lambda>k. hc_Delete (NewTTLHashCache C ttl) (fst k) (snd k))"
    by unfold_locales
      (auto simp: NewTTLHashCache_def ttl_Get_def ttl_Set_def case_prod_unfold Let_def split: option.split option.split_asm if_splits
        intro: ops.get_sound ops.get_forgets ops.put_adds ops.delete_drops ops.invar_get ops.invar_put ops.invar_delete)
qed (simp_all add: NewTTLHashCache_def deleteLayer invar_deleteLayer)

interpretation decorated_lru: decorated_cache "lru_hash_cache sorted_list_of_set" lc_inv lc_lookup hk ttl for hk ttl
  by unfold_locales

section \<open>Properties\<close>

lemma NewShardedLRUCache_ok:
  "lc_inv (NewShardedLRUCache n)" "lc_lookup (NewShardedLRUCache n) = Map.empty"
  "lc_capacity (NewShardedLRUCache n) = max 1 (go_div n 256)"
proof -
  show "lc_inv (NewShardedLRUCache n)"
    by (simp add: NewShardedLRUCache_def Let_def lc_inv_def csh_ok_def csh_rep_def)
  show "lc_lookup (NewShardedLRUCache n) = Map.empty"
    using lc_index_less by (simp add: NewShardedLRUCache_def Let_def lc_lookup_def lc_shard_def csh_contents_def fun_eq_iff)
  show "lc_capacity (NewShardedLRUCache n) = max 1 (go_div n 256)"
    by (simp add: NewShardedLRUCache_def Let_def)
qed

lemma lc_capacity_ops [simp]:
  "lc_capacity (snd (lc_Get now l p c)) = lc_capacity c" "lc_capacity (lc_Set now l p h c) = lc_capacity c"
  "lc_capacity (lc_Delete l p c) = lc_capacity c" "lc_capacity (lc_DeleteLayer enum l c) = lc_capacity c"
  by (simp_all add: lc_Get_def lc_Set_def lc_Delete_def lc_DeleteLayer_def lc_update_def case_prod_unfold Let_def)

lemma sum_list_le: "(\<forall>x \<in> set xs. f x \<le> (c :: int)) \<Longrightarrow> sum_list (map f xs) \<le> int (length xs) * c"
  by (induction xs) (auto simp: algebra_simps)

lemma lc_Len_bound: "lc_inv c \<Longrightarrow> lc_Len c \<le> 256 * lc_capacity c"
  using sum_list_le [of "lc_shards c" "\<lambda>s. int (length (csh_lru s))" "lc_capacity c"]
  by (simp add: lc_inv_def lc_Len_def csh_ok_def) (metis)

lemma lc_Set_counters [simp]:
  "lc_hits (lc_Set now l p h c) = lc_hits c" "lc_misses (lc_Set now l p h c) = lc_misses c"
  "lc_hits (lc_Delete l p c) = lc_hits c" "lc_misses (lc_Delete l p c) = lc_misses c"
  "lc_hits (lc_DeleteLayer enum l c) = lc_hits c" "lc_misses (lc_DeleteLayer enum l c) = lc_misses c"
  by (simp_all add: lc_Set_def lc_Delete_def lc_DeleteLayer_def lc_update_def)

lemma lc_Get_counters: "lc_hits (snd (lc_Get now l p c)) + lc_misses (snd (lc_Get now l p c)) = lc_hits c + lc_misses c + 1"
  by (simp add: lc_Get_def lc_update_def case_prod_unfold Let_def)

definition is_get :: "int \<times> cache_op \<Rightarrow> bool" where
  "is_get op \<longleftrightarrow> (case snd op of CGet l p \<Rightarrow> True | _ \<Rightarrow> False)"

lemma is_get_simps [simp]:
  "is_get (t, CGet l p)" "\<not> is_get (t, CSet l p h)" "\<not> is_get (t, CDelete l p)" "\<not> is_get (t, CDeleteLayer l)"
  by (simp_all add: is_get_def)

lemma lru_hash_cache_sel [simp]:
  "hc_Get (lru_hash_cache enum) = lc_Get" "hc_Set (lru_hash_cache enum) = lc_Set"
  "hc_Delete (lru_hash_cache enum) = lc_Delete" "hc_DeleteLayer (lru_hash_cache enum) = lc_DeleteLayer enum"
  by (simp_all add: lru_hash_cache_def)

lemma lc_run_counters:
  "lc_capacity (fold (apply_op (lru_hash_cache enum)) ops c) = lc_capacity c
   \<and> lc_hits (fold (apply_op (lru_hash_cache enum)) ops c) + lc_misses (fold (apply_op (lru_hash_cache enum)) ops c)
     = lc_hits c + lc_misses c + of_nat (length (filter is_get ops))"
proof (induction ops arbitrary: c)
  case Nil
  then show ?case by simp
next
  case (Cons op ops)
  obtain now o' where op: "op = (now, o')" by (cases op)
  show ?case unfolding op by (cases o') (simp_all add: Cons lc_Get_counters algebra_simps)
qed

text \<open>
  After any sequence of calls on a new sharded LRU cache, whatever it evicted: a \<open>Get\<close> misses or
  answers the last hash written under exactly that layer and path and not deleted since; a \<open>Get\<close>
  directly after a \<open>Set\<close> of its key hits; the entries never exceed the reported capacity, which is
  the requested one rounded down to a multiple of 256, at least 256; and hits and misses add up
  to the number of \<open>Get\<close> calls (modulo \<open>2^64\<close>).
\<close>

theorem lru_cache_serves_last_write:
  assumes "map_range enum"
  shows "let c = fold (apply_op (lru_hash_cache enum)) ops (NewShardedLRUCache n) in
    fst (lc_Get now l p c) \<in> {None, map_option fst (last_writes ops (l, p))}
    \<and> fst (lc_Get now l p (lc_Set t l p h c)) = Some h
    \<and> cs_Used (lc_Stats c) \<le> cs_Capacity (lc_Stats c) \<and> cs_Capacity (lc_Stats c) = 256 * max 1 (go_div n 256)
    \<and> cs_Hits (lc_Stats c) + cs_Misses (lc_Stats c) = of_nat (length (filter is_get ops))"
proof -
  note laws = lru_laws [OF assms]
  define c where "c = fold (apply_op (lru_hash_cache enum)) ops (NewShardedLRUCache n)"
  have b: "lc_inv c" "hash_cache_laws.below lc_lookup c (last_writes ops)"
    using hash_cache_laws.below_run [OF laws NewShardedLRUCache_ok(1,2)] by (simp_all add: c_def)
  have "fst (lc_Get now l p c) = lc_lookup c (l, p)" using lru_storing.get_result [OF b(1), of now "(l, p)"] by simp
  then have "fst (lc_Get now l p c) \<in> {None, map_option fst (last_writes ops (l, p))}"
    using b(2) unfolding hash_cache_laws.below_def [OF laws] by (cases "lc_lookup c (l, p)") fastforce+
  moreover have "fst (lc_Get now l p (lc_Set t l p h c)) = Some h"
    using lru_storing.invar_put [OF b(1), of t "(l, p)" h] lru_storing.put_same [OF b(1), of t "(l, p)" h]
      lru_storing.get_result [of "lc_Set t l p h c" now "(l, p)"] by simp
  moreover have "lc_capacity c = max 1 (go_div n 256)" "lc_hits c + lc_misses c = of_nat (length (filter is_get ops))"
    using lc_run_counters [of enum ops "NewShardedLRUCache n"] NewShardedLRUCache_ok(3) [of n]
    by (simp_all add: c_def) (simp add: NewShardedLRUCache_def Let_def)
  ultimately show ?thesis unfolding c_def [symmetric] Let_def using lc_Len_bound [OF b(1)] by (simp add: lc_Stats_def)
qed

theorem lru_cache_serves_last_write_witness:
  "let c = fold (apply_op (lru_hash_cache sorted_list_of_set)) [(1, CSet ''a'' ''x'' ''h''), (2, CGet ''a'' ''y'')] (NewShardedLRUCache 1000)
   in fst (lc_Get 3 ''a'' ''x'' c) \<in> {None, Some ''h''} \<and> fst (lc_Get 3 ''a'' ''x'' (lc_Set 2 ''a'' ''x'' ''g'' c)) = Some ''g''
     \<and> cs_Capacity (lc_Stats c) = 768 \<and> cs_Used (lc_Stats c) \<le> 768 \<and> cs_Hits (lc_Stats c) + cs_Misses (lc_Stats c) = 1"
proof -
  let ?ops = "[(1, CSet ''a'' ''x'' ''h''), (2, CGet ''a'' ''y'')]"
  have "last_writes ?ops (''a'', ''x'') = Some (''h'', 1)" by (simp add: last_writes_def)
  then show ?thesis
    using lru_cache_serves_last_write [OF sorted_range.map_range_axioms, where now = 3 and l = "''a''" and p = "''x''" and ops = ?ops
        and n = 1000 and t = 2 and h = "''g''"]
    by (simp only: Let_def) (simp add: go_div_def)
qed

end
