(* ===== verification/Lm_Ttl.thy ===== *)
theory Lm_Ttl
  imports Lm_Cache
begin

text \<open>
  The time to live of layermerkle's cached hashes (\<open>TTLHashCache\<close> in \<open>cache.go\<close>): every cached hash
  has the time of its last write, so what a \<open>Get\<close> returns is never older than the time to live.
\<close>

definition op_layer :: "int \<times> cache_op \<Rightarrow> lm_layer" where
  "op_layer op = (case snd op of CGet l p \<Rightarrow> l | CSet l p h \<Rightarrow> l | CDelete l p \<Rightarrow> l | CDeleteLayer l \<Rightarrow> l)"

lemma ttl_key_inj: "CHR 0x00 \<notin> set l \<Longrightarrow> CHR 0x00 \<notin> set l' \<Longrightarrow> ttl_key l p = ttl_key l' p' \<longleftrightarrow> l = l' \<and> p = p'"
  unfolding ttl_key_def by (simp add: append_eq_append_conv2) (auto simp: Cons_eq_append_conv append_eq_Cons_conv)

definition stamped :: "('s \<Rightarrow> cache_key \<Rightarrow> lm_hash option) \<Rightarrow> 's ttl_state \<Rightarrow> (cache_key \<rightharpoonup> lm_hash \<times> int) \<Rightarrow> bool" where
  "stamped look s m \<longleftrightarrow> (\<forall>l p h. look (fst s) (l, p) = Some h
     \<longrightarrow> (\<exists>t. m (l, p) = Some (h, t) \<and> snd s (ttl_key l p) = Some t \<and> CHR 0x00 \<notin> set l))"

lemma stampedD: "stamped look s m \<Longrightarrow> look (fst s) (l, p) = Some h
    \<Longrightarrow> \<exists>t. m (l, p) = Some (h, t) \<and> snd s (ttl_key l p) = Some t \<and> CHR 0x00 \<notin> set l"
  unfolding stamped_def by blast

context hash_cache_laws
begin

lemma Get_le: "invar s \<Longrightarrow> look (snd (hc_Get C now l p s)) k = Some h \<Longrightarrow> look s k = Some h"
  using ops.get_forgets [of s now "(l, p)"] unfolding map_le_def by (metis domI fst_conv snd_conv)

lemma Set_le: "invar s \<Longrightarrow> look (hc_Set C now l p h s) k = Some h' \<Longrightarrow> (if k = (l, p) then h' = h else look s k = Some h')"
  using ops.put_adds [of s now "(l, p)" h] unfolding map_le_def by (metis domI fst_conv fun_upd_apply option.inject snd_conv)

lemma Delete_le: "invar s \<Longrightarrow> look (hc_Delete C l p s) k = Some h \<Longrightarrow> k \<noteq> (l, p) \<and> look s k = Some h"
  using ops.delete_drops [of s "(l, p)"] unfolding map_le_def by (metis domI fst_conv fun_upd_apply option.distinct(1) snd_conv)

lemma DeleteLayer_le: "invar s \<Longrightarrow> look (hc_DeleteLayer C l s) k = Some h \<Longrightarrow> fst k \<noteq> l \<and> look s k = Some h"
  using deleteLayer [of s l] unfolding map_le_def restrict_map_def by (metis (mono_tags, lifting) domI mem_Collect_eq option.distinct(1))

lemma stamped_step:
  assumes "invar (fst s)" "stamped look s m" "CHR 0x00 \<notin> set (op_layer op)"
  shows "invar (fst (apply_op (NewTTLHashCache C ttl) op s)) \<and> stamped look (apply_op (NewTTLHashCache C ttl) op s) (ideal_op op m)"
proof -
  obtain now o' where op: "op = (now, o')" by (cases op)
  obtain s0 times where s: "s = (s0, times)" by (cases s)
  have inv: "invar s0" using assms(1) by (simp add: s)
  note st = stampedD [OF assms(2), unfolded s fst_conv snd_conv]
  show ?thesis
  proof (cases o')
    case (CGet l p)
    have l: "CHR 0x00 \<notin> set l" using assms(3) by (simp add: op CGet op_layer_def)
    show ?thesis
    proof (cases "\<exists>t. times (ttl_key l p) = Some t \<and> now - t > ttl")
      case True
      then have a: "apply_op (NewTTLHashCache C ttl) op s = (hc_Delete C l p s0, times(ttl_key l p := None))"
        by (auto simp: op CGet s NewTTLHashCache_def ttl_Get_def Let_def)
      have "stamped look (hc_Delete C l p s0, times(ttl_key l p := None)) m"
        unfolding stamped_def fst_conv snd_conv
      proof (intro allI impI)
        fix l' p' h assume "look (hc_Delete C l p s0) (l', p') = Some h"
        from Delete_le [OF inv this] have "(l', p') \<noteq> (l, p)" "look s0 (l', p') = Some h" by auto
        with st [OF this(2)] ttl_key_inj [OF l, of l' p p']
        show "\<exists>t. m (l', p') = Some (h, t) \<and> (times(ttl_key l p := None)) (ttl_key l' p') = Some t \<and> CHR 0x00 \<notin> set l'"
          by auto
      qed
      then show ?thesis unfolding a using invar_Delete [OF inv] by (simp add: op CGet)
    next
      case False
      then have a: "apply_op (NewTTLHashCache C ttl) op s = (snd (hc_Get C now l p s0), times)"
        by (auto simp: op CGet s NewTTLHashCache_def ttl_Get_def Let_def case_prod_unfold split: option.split)
      have "stamped look (snd (hc_Get C now l p s0), times) m"
        unfolding stamped_def fst_conv snd_conv using Get_le [OF inv] st by blast
      then show ?thesis unfolding a using invar_Get [OF inv] by (simp add: op CGet)
    qed
  next
    case (CSet l p h)
    have l: "CHR 0x00 \<notin> set l" using assms(3) by (simp add: op CSet op_layer_def)
    have "stamped look (hc_Set C now l p h s0, times(ttl_key l p \<mapsto> now)) (m((l, p) \<mapsto> (h, now)))"
      unfolding stamped_def fst_conv snd_conv
    proof (intro allI impI)
      fix l' p' h' assume "look (hc_Set C now l p h s0) (l', p') = Some h'"
      from Set_le [OF inv this] have *: "if (l', p') = (l, p) then h' = h else look s0 (l', p') = Some h'" .
      show "\<exists>t. (m((l, p) \<mapsto> (h, now))) (l', p') = Some (h', t) \<and> (times(ttl_key l p \<mapsto> now)) (ttl_key l' p') = Some t
          \<and> CHR 0x00 \<notin> set l'"
      proof (cases "(l', p') = (l, p)")
        case True
        then show ?thesis using * l by simp
      next
        case False
        then have "look s0 (l', p') = Some h'" using * by simp
        from st [OF this] show ?thesis using False ttl_key_inj [OF l, of l' p p'] by auto
      qed
    qed
    then show ?thesis using invar_Set [OF inv] by (simp add: op CSet s NewTTLHashCache_def ttl_Set_def)
  next
    case (CDelete l p)
    have "stamped look (hc_Delete C l p s0, times) (m((l, p) := None))"
      unfolding stamped_def fst_conv snd_conv
    proof (intro allI impI)
      fix l' p' h assume "look (hc_Delete C l p s0) (l', p') = Some h"
      from Delete_le [OF inv this] st
      show "\<exists>t. (m((l, p) := None)) (l', p') = Some (h, t) \<and> times (ttl_key l' p') = Some t \<and> CHR 0x00 \<notin> set l'" by auto
    qed
    then show ?thesis using invar_Delete [OF inv] by (simp add: op CDelete s NewTTLHashCache_def)
  next
    case (CDeleteLayer l)
    have "stamped look (hc_DeleteLayer C l s0, times) (m |` {k. fst k \<noteq> l})"
      unfolding stamped_def fst_conv snd_conv
    proof (intro allI impI)
      fix l' p' h assume "look (hc_DeleteLayer C l s0) (l', p') = Some h"
      from DeleteLayer_le [OF inv this] st
      show "\<exists>t. (m |` {k. fst k \<noteq> l}) (l', p') = Some (h, t) \<and> times (ttl_key l' p') = Some t \<and> CHR 0x00 \<notin> set l'" by auto
    qed
    then show ?thesis using invar_deleteLayer [OF inv] by (simp add: op CDeleteLayer s NewTTLHashCache_def)
  qed
qed

lemma stamped_run:
  fixes ttl :: int
  assumes "invar s0" "look s0 = Map.empty" "\<forall>op \<in> set ops. CHR 0x00 \<notin> set (op_layer op)"
  defines "s \<equiv> fold (apply_op (NewTTLHashCache C ttl)) ops (s0, Map.empty)"
  shows "invar (fst s) \<and> stamped look s (last_writes ops)"
  unfolding s_def using assms(3)
proof (induction ops rule: rev_induct)
  case Nil
  then show ?case using assms(1,2) by (simp add: stamped_def)
next
  case (snoc op ops)
  then show ?case using stamped_step [of "fold (apply_op (NewTTLHashCache C ttl)) ops (s0, Map.empty)" "last_writes ops" op ttl] by simp
qed

lemma ttl_Get_stamped:
  assumes "invar (fst s)" "stamped look s m" "fst (ttl_Get C ttl now l p s) = Some h"
  shows "\<exists>t. m (l, p) = Some (h, t) \<and> now - t \<le> ttl"
proof -
  have g: "fst (hc_Get C now l p (fst s)) = Some h" "\<And>t. snd s (ttl_key l p) = Some t \<Longrightarrow> now - t \<le> ttl"
    using assms(3) by (auto simp: ttl_Get_def Let_def case_prod_unfold split: option.splits if_splits)
  have "look (fst s) (l, p) = Some h" using ops.get_sound [OF assms(1), of now "(l, p)" h] g(1) by simp
  from stampedD [OF assms(2) this] g(2) show ?thesis by blast
qed

end

text \<open>
  A cache with a time to live, over any cache that keeps the contract and starts empty, never
  answers with a hash that is older than its time to live: what \<open>Get\<close> returns is the last hash
  written under the key, written at most \<open>ttl\<close> before the call. Layer identifiers must not hold
  the NUL character that separates them from the path in the key of the write times.
\<close>

theorem TTL_Get_fresh:
  assumes "hash_cache_laws C invar look" "invar s0" "look s0 = Map.empty"
    and "\<forall>op \<in> set ops. CHR 0x00 \<notin> set (op_layer op)"
    and "fst (ttl_Get C ttl now l p (fold (apply_op (NewTTLHashCache C ttl)) ops (s0, Map.empty))) = Some h"
  shows "\<exists>t. last_writes ops (l, p) = Some (h, t) \<and> now - t \<le> ttl"
  using hash_cache_laws.stamped_run [OF assms(1-4), of ttl] hash_cache_laws.ttl_Get_stamped [OF assms(1) _ _ assms(5)] by blast

theorem TTL_Get_fresh_witness:
  "fst (ttl_Get (lru_hash_cache sorted_list_of_set) 10 5 ''a'' ''x''
      (fold (apply_op (NewTTLHashCache (lru_hash_cache sorted_list_of_set) 10)) [(0, CSet ''a'' ''x'' ''h'')] (NewShardedLRUCache 1000, Map.empty)))
     = Some ''h''
   \<and> (\<exists>t. last_writes [(0, CSet ''a'' ''x'' ''h'')] (''a'', ''x'') = Some (''h'', t) \<and> 5 - t \<le> 10)"
proof -
  let ?c = "NewShardedLRUCache 1000"
  have "fst (lc_Get 5 ''a'' ''x'' (lc_Set 0 ''a'' ''x'' ''h'' ?c)) = Some ''h''"
    using lru_storing.get_result [OF lru_storing.invar_put [OF NewShardedLRUCache_ok(1), of 0 "(''a'', ''x'')" "''h''"], of 5 "(''a'', ''x'')"]
      lru_storing.put_same [OF NewShardedLRUCache_ok(1), of 0 "(''a'', ''x'')" "''h''"] by simp
  then have *: "fst (ttl_Get (lru_hash_cache sorted_list_of_set) 10 5 ''a'' ''x''
      (fold (apply_op (NewTTLHashCache (lru_hash_cache sorted_list_of_set) 10)) [(0, CSet ''a'' ''x'' ''h'')] (?c, Map.empty))) = Some ''h''"
    by (simp add: NewTTLHashCache_def ttl_Get_def ttl_Set_def case_prod_unfold Let_def)
  show ?thesis
    using * TTL_Get_fresh [OF lru_laws [OF sorted_range.map_range_axioms] NewShardedLRUCache_ok(1,2) _ *]
    by (simp add: op_layer_def)
qed

end
