(* ===== verification/Lm_Resolver.thy ===== *)
theory Lm_Resolver
  imports Lm_Core Cache_Contract
begin

text \<open>
  Which layer of a stack owns a path: the interface \<open>LayerFileResolver\<close> and its implementations
  \<open>OverlayResolver\<close> and \<open>StaticResolver\<close> (\<open>resolver.go\<close>), and the bounded variant
  \<open>OverlayResolverWithRingCache\<close> with its clock cache (\<open>ringcache.go\<close>).

  The file system is the argument \<open>fs\<close>: \<open>fs p\<close> says whether \<open>os.Lstat(p)\<close> succeeds; it is fixed
  during one call and may differ between calls. \<open>ctx k\<close> is what \<open>ctx.Err()\<close> returns when it is
  asked for the \<open>k\<close>-th time.
\<close>

datatype stat_result = StatUnknown | StatPresent | StatAbsent | StatWhiteout

type_synonym stat_key = "lm_layer \<times> string"
type_synonym lm_ctx = "nat \<Rightarrow> lm_error option"
type_synonym file_system = "string \<Rightarrow> bool"

record 's layer_resolver =
  rs_FindOwnerLayer :: "lm_ctx \<Rightarrow> layer_stack \<Rightarrow> string \<Rightarrow> 's \<Rightarrow> (lm_error + lm_layer) \<times> 's"
  rs_DiffAbsPath :: "lm_layer \<Rightarrow> string \<Rightarrow> 's \<Rightarrow> (lm_error + string) \<times> 's"

section \<open>The file system checks of one layer\<close>

definition fsStat :: "file_system \<Rightarrow> layer_info \<Rightarrow> string \<Rightarrow> stat_result" where
  "fsStat fs info relPath =
     (let opaqueDir = Dir relPath in
      if fs (filepath_Join [li_DiffPath info, opaqueWhiteoutName opaqueDir]) then StatWhiteout
      else if fs (filepath_Join [li_DiffPath info, whiteoutName relPath]) then StatWhiteout
      else if fs (filepath_Join [li_DiffPath info, relPath]) then StatPresent
      else StatAbsent)"

text \<open>
  The loop of \<open>FindOwnerLayer\<close> over the layers from the top down; \<open>stat\<close> is the resolver's
  \<open>statInLayer\<close>.
\<close>

fun owner_loop :: "(lm_layer \<Rightarrow> string \<Rightarrow> 's \<Rightarrow> (lm_error + stat_result) \<times> 's) \<Rightarrow> lm_ctx \<Rightarrow> nat \<Rightarrow> lm_layer list
    \<Rightarrow> string \<Rightarrow> 's \<Rightarrow> (lm_error + lm_layer) \<times> 's" where
  "owner_loop stat ctx k [] p s = (Inl (Sentinel Err_LayerNotFound), s)"
| "owner_loop stat ctx k (l # ls) p s =
     (case ctx k of
        Some e \<Rightarrow> (Inl e, s)
      | None \<Rightarrow>
          (case stat l p s of
             (Inl e, s') \<Rightarrow> owner_loop stat ctx (Suc k) ls p s'
           | (Inr StatPresent, s') \<Rightarrow> (Inr l, s')
           | (Inr StatWhiteout, s') \<Rightarrow> (Inl (Sentinel Err_Whiteout), s')
           | (Inr _, s') \<Rightarrow> owner_loop stat ctx (Suc k) ls p s'))"

section \<open>OverlayResolver\<close>

record overlay_resolver =
  or_registry :: layer_registry
  or_statCache :: "stat_key \<rightharpoonup> stat_result"
  or_cacheSize :: int

definition NewOverlayResolver :: "layer_registry \<Rightarrow> int \<Rightarrow> overlay_resolver" where
  "NewOverlayResolver registry cacheCapacity =
     \<lparr>or_registry = registry, or_statCache = Map.empty, or_cacheSize = (if cacheCapacity \<le> 0 then 100000 else cacheCapacity)\<rparr>"

definition or_put :: "stat_key \<Rightarrow> stat_result \<Rightarrow> overlay_resolver \<Rightarrow> overlay_resolver" where
  "or_put k result r =
     (if int (card (dom (or_statCache r))) < or_cacheSize r then r\<lparr>or_statCache := (or_statCache r)(k \<mapsto> result)\<rparr> else r)"

definition or_statInLayer :: "file_system \<Rightarrow> lm_layer \<Rightarrow> string \<Rightarrow> overlay_resolver \<Rightarrow> (lm_error + stat_result) \<times> overlay_resolver" where
  "or_statInLayer fs l p r =
     (case or_statCache r (l, p) of
        Some result \<Rightarrow> (Inr result, r)
      | None \<Rightarrow>
          (case reg_Get l (or_registry r) of
             None \<Rightarrow> (Inl (Sentinel Err_LayerNotFound), r)
           | Some info \<Rightarrow> (let result = fsStat fs info p in (Inr result, or_put (l, p) result r))))"

definition or_FindOwnerLayer :: "file_system \<Rightarrow> lm_ctx \<Rightarrow> layer_stack \<Rightarrow> string \<Rightarrow> overlay_resolver
    \<Rightarrow> (lm_error + lm_layer) \<times> overlay_resolver" where
  "or_FindOwnerLayer fs ctx stack relPath r = owner_loop (or_statInLayer fs) ctx 0 (rev stack) relPath r"

definition or_DiffAbsPath :: "file_system \<Rightarrow> lm_layer \<Rightarrow> string \<Rightarrow> overlay_resolver \<Rightarrow> (lm_error + string) \<times> overlay_resolver" where
  "or_DiffAbsPath fs l p r =
     (case reg_Get l (or_registry r) of
        None \<Rightarrow> (Inl (Sentinel Err_LayerNotFound), r)
      | Some info \<Rightarrow>
          (case or_statInLayer fs l p r of
             (Inl e, r') \<Rightarrow> (Inl e, r')
           | (Inr result, r') \<Rightarrow>
               (if result = StatWhiteout then (Inl (Sentinel Err_Whiteout), r')
                else if result \<noteq> StatPresent then (Inl (Sentinel Err_LayerNotFound), r')
                else (Inr (DiffFilePath info p), r'))))"

definition or_InvalidateLayer :: "lm_layer \<Rightarrow> overlay_resolver \<Rightarrow> overlay_resolver" where
  "or_InvalidateLayer l r = r\<lparr>or_statCache := (or_statCache r) |` {k. fst k \<noteq> l}\<rparr>"

definition overlay_layer_resolver :: "file_system \<Rightarrow> overlay_resolver layer_resolver" where
  "overlay_layer_resolver fs = \<lparr>rs_FindOwnerLayer = or_FindOwnerLayer fs, rs_DiffAbsPath = or_DiffAbsPath fs\<rparr>"

section \<open>StaticResolver\<close>

definition normalizeRelPath :: "string \<Rightarrow> string" where
  "normalizeRelPath p = TrimPrefix (Clean p) ''/''"

record static_resolver =
  sr_ownership :: "string \<rightharpoonup> lm_layer"
  sr_registry :: layer_registry

text \<open>The copying loop ranges over the map of its caller in the order \<open>enum\<close> gives.\<close>

definition NewStaticResolver :: "(string set \<Rightarrow> string list) \<Rightarrow> (string \<rightharpoonup> lm_layer) \<Rightarrow> layer_registry \<Rightarrow> static_resolver" where
  "NewStaticResolver enum ownership registry =
     \<lparr>sr_ownership = fold (\<lambda>k cp. cp(normalizeRelPath k := ownership k)) (enum (dom ownership)) Map.empty,
      sr_registry = registry\<rparr>"

definition sr_FindOwnerLayer :: "lm_ctx \<Rightarrow> layer_stack \<Rightarrow> string \<Rightarrow> static_resolver \<Rightarrow> (lm_error + lm_layer) \<times> static_resolver" where
  "sr_FindOwnerLayer ctx stack relPath s =
     (case sr_ownership s (normalizeRelPath relPath) of
        None \<Rightarrow> (Inl (Sentinel Err_LayerNotFound), s)
      | Some i \<Rightarrow> (Inr i, s))"

definition sr_DiffAbsPath :: "lm_layer \<Rightarrow> string \<Rightarrow> static_resolver \<Rightarrow> (lm_error + string) \<times> static_resolver" where
  "sr_DiffAbsPath l p s =
     (case reg_Get l (sr_registry s) of
        None \<Rightarrow> (Inl (Sentinel Err_LayerNotFound), s)
      | Some info \<Rightarrow> (Inr (DiffFilePath info p), s))"

definition static_layer_resolver :: "static_resolver layer_resolver" where
  "static_layer_resolver = \<lparr>rs_FindOwnerLayer = sr_FindOwnerLayer, rs_DiffAbsPath = sr_DiffAbsPath\<rparr>"

section \<open>The ring cache\<close>

record ring_entry =
  re_key :: stat_key
  re_result :: stat_result
  re_valid :: bool

record ring_cache =
  rg_slots :: "ring_entry list"
  rg_hand :: nat
  rg_cap :: nat
  rg_hits :: "64 word"
  rg_misses :: "64 word"
  rg_evicted :: "64 word"

definition NewRingStatCache :: "int \<Rightarrow> ring_cache" where
  "NewRingStatCache capacity0 =
     (let capacity = nat (if capacity0 < 4 then 4 else capacity0) in
      \<lparr>rg_slots = replicate capacity \<lparr>re_key = ('''', ''''), re_result = StatUnknown, re_valid = False\<rparr>,
       rg_hand = 0, rg_cap = capacity, rg_hits = 0, rg_misses = 0, rg_evicted = 0\<rparr>)"

text \<open>The scan shared by \<open>Get\<close> and \<open>Set\<close>: the first valid slot with the key.\<close>

fun ring_find :: "stat_key \<Rightarrow> ring_entry list \<Rightarrow> nat option" where
  "ring_find k [] = None"
| "ring_find k (e # es) = (if re_valid e \<and> re_key e = k then Some 0 else map_option Suc (ring_find k es))"

definition ring_Get :: "stat_key \<Rightarrow> ring_cache \<Rightarrow> stat_result option \<times> ring_cache" where
  "ring_Get k r =
     (case ring_find k (rg_slots r) of
        Some i \<Rightarrow> (Some (re_result (rg_slots r ! i)), r\<lparr>rg_hits := rg_hits r + 1\<rparr>)
      | None \<Rightarrow> (None, r\<lparr>rg_misses := rg_misses r + 1\<rparr>))"

definition ring_Set :: "stat_key \<Rightarrow> stat_result \<Rightarrow> ring_cache \<Rightarrow> ring_cache" where
  "ring_Set k result r =
     (case ring_find k (rg_slots r) of
        Some i \<Rightarrow> r\<lparr>rg_slots := (rg_slots r)[i := (rg_slots r ! i)\<lparr>re_result := result\<rparr>]\<rparr>
      | None \<Rightarrow>
          (let r1 = (if re_valid (rg_slots r ! rg_hand r) then r\<lparr>rg_evicted := rg_evicted r + 1\<rparr> else r)
           in r1\<lparr>rg_slots := (rg_slots r1)[rg_hand r1 := \<lparr>re_key = k, re_result = result, re_valid = True\<rparr>],
                 rg_hand := (rg_hand r1 + 1) mod rg_cap r1\<rparr>))"

definition ring_InvalidateLayer :: "lm_layer \<Rightarrow> ring_cache \<Rightarrow> ring_cache" where
  "ring_InvalidateLayer l r =
     r\<lparr>rg_slots := map (\<lambda>e. if re_valid e \<and> fst (re_key e) = l then e\<lparr>re_valid := False\<rparr> else e) (rg_slots r)\<rparr>"

definition ring_Stats :: "ring_cache \<Rightarrow> 64 word \<times> 64 word \<times> 64 word" where
  "ring_Stats r = (rg_hits r, rg_misses r, rg_evicted r)"

definition ring_Len :: "ring_cache \<Rightarrow> nat" where
  "ring_Len r = length (filter re_valid (rg_slots r))"

record ring_resolver =
  rr_registry :: layer_registry
  rr_statCache :: ring_cache

definition NewOverlayResolverWithRingCache :: "layer_registry \<Rightarrow> int \<Rightarrow> ring_resolver" where
  "NewOverlayResolverWithRingCache registry capacity = \<lparr>rr_registry = registry, rr_statCache = NewRingStatCache capacity\<rparr>"

definition rr_statInLayer :: "file_system \<Rightarrow> lm_layer \<Rightarrow> string \<Rightarrow> ring_resolver \<Rightarrow> (lm_error + stat_result) \<times> ring_resolver" where
  "rr_statInLayer fs l p r =
     (case ring_Get (l, p) (rr_statCache r) of
        (Some cached, c) \<Rightarrow> (Inr cached, r\<lparr>rr_statCache := c\<rparr>)
      | (None, c) \<Rightarrow>
          (case reg_Get l (rr_registry r) of
             None \<Rightarrow> (Inl (Sentinel Err_LayerNotFound), r\<lparr>rr_statCache := c\<rparr>)
           | Some info \<Rightarrow>
               (let result = fsStat fs info p in (Inr result, r\<lparr>rr_statCache := ring_Set (l, p) result c\<rparr>))))"

definition rr_FindOwnerLayer :: "file_system \<Rightarrow> lm_ctx \<Rightarrow> layer_stack \<Rightarrow> string \<Rightarrow> ring_resolver
    \<Rightarrow> (lm_error + lm_layer) \<times> ring_resolver" where
  "rr_FindOwnerLayer fs ctx stack relPath r = owner_loop (rr_statInLayer fs) ctx 0 (rev stack) relPath r"

definition rr_DiffAbsPath :: "lm_layer \<Rightarrow> string \<Rightarrow> ring_resolver \<Rightarrow> (lm_error + string) \<times> ring_resolver" where
  "rr_DiffAbsPath l p r =
     (case reg_Get l (rr_registry r) of
        None \<Rightarrow> (Inl (Sentinel Err_LayerNotFound), r)
      | Some info \<Rightarrow> (Inr (DiffFilePath info p), r))"

definition rr_StatCacheStats :: "ring_resolver \<Rightarrow> 64 word \<times> 64 word \<times> 64 word" where
  "rr_StatCacheStats r = ring_Stats (rr_statCache r)"

definition rr_InvalidateLayer :: "lm_layer \<Rightarrow> ring_resolver \<Rightarrow> ring_resolver" where
  "rr_InvalidateLayer l r = r\<lparr>rr_statCache := ring_InvalidateLayer l (rr_statCache r)\<rparr>"

definition ring_layer_resolver :: "file_system \<Rightarrow> ring_resolver layer_resolver" where
  "ring_layer_resolver fs = \<lparr>rs_FindOwnerLayer = rr_FindOwnerLayer fs, rs_DiffAbsPath = rr_DiffAbsPath\<rparr>"

section \<open>The ring is a cache\<close>

definition ring_inv :: "ring_cache \<Rightarrow> bool" where
  "ring_inv r \<longleftrightarrow> length (rg_slots r) = rg_cap r \<and> rg_hand r < rg_cap r
     \<and> (\<forall>i j. i < rg_cap r \<longrightarrow> j < rg_cap r \<longrightarrow> re_valid (rg_slots r ! i) \<longrightarrow> re_valid (rg_slots r ! j)
         \<longrightarrow> re_key (rg_slots r ! i) = re_key (rg_slots r ! j) \<longrightarrow> i = j)"

definition ring_lookup :: "ring_cache \<Rightarrow> stat_key \<Rightarrow> stat_result option" where
  "ring_lookup r k = map_option (\<lambda>i. re_result (rg_slots r ! i)) (ring_find k (rg_slots r))"

lemma ring_find_SomeD: "ring_find k es = Some i \<Longrightarrow> i < length es \<and> re_valid (es ! i) \<and> re_key (es ! i) = k"
  by (induction es arbitrary: i) (auto split: if_splits simp: less_Suc_eq_0_disj)

lemma ring_find_None_iff: "ring_find k es = None \<longleftrightarrow> (\<forall>e \<in> set es. \<not> (re_valid e \<and> re_key e = k))"
  by (induction es) auto

lemma ring_find_unique:
  assumes "ring_inv r" "i < rg_cap r" "re_valid (rg_slots r ! i)" "re_key (rg_slots r ! i) = k"
  shows "ring_find k (rg_slots r) = Some i"
proof (cases "ring_find k (rg_slots r)")
  case None
  then show ?thesis using assms by (auto simp: ring_find_None_iff ring_inv_def)
next
  case (Some j)
  from ring_find_SomeD [OF Some] show ?thesis using assms Some by (auto simp: ring_inv_def)
qed

text \<open>Lookup as a relation between keys and slots, which survives slot updates.\<close>

lemma ring_lookup_iff:
  assumes "ring_inv r"
  shows "ring_lookup r k = Some v \<longleftrightarrow>
    (\<exists>i < rg_cap r. re_valid (rg_slots r ! i) \<and> re_key (rg_slots r ! i) = k \<and> re_result (rg_slots r ! i) = v)"
proof
  assume "ring_lookup r k = Some v"
  then obtain i where "ring_find k (rg_slots r) = Some i" "re_result (rg_slots r ! i) = v" by (auto simp: ring_lookup_def)
  with ring_find_SomeD [OF this(1)] assms show "\<exists>i < rg_cap r. re_valid (rg_slots r ! i) \<and> re_key (rg_slots r ! i) = k \<and> re_result (rg_slots r ! i) = v"
    by (auto simp: ring_inv_def)
next
  assume "\<exists>i < rg_cap r. re_valid (rg_slots r ! i) \<and> re_key (rg_slots r ! i) = k \<and> re_result (rg_slots r ! i) = v"
  then obtain i where "i < rg_cap r" "re_valid (rg_slots r ! i)" "re_key (rg_slots r ! i) = k" "re_result (rg_slots r ! i) = v"
    by blast
  then show "ring_lookup r k = Some v" using ring_find_unique [OF assms] by (simp add: ring_lookup_def)
qed

lemma ring_inv_Set:
  assumes "ring_inv r"
  shows "ring_inv (ring_Set k v r)"
    and "ring_lookup (ring_Set k v r) k = Some v"
    and "j \<noteq> k \<Longrightarrow> ring_lookup (ring_Set k v r) j = ring_lookup r j \<or> ring_lookup (ring_Set k v r) j = None"
proof -
  have len: "length (rg_slots r) = rg_cap r" "rg_hand r < rg_cap r" using assms by (auto simp: ring_inv_def)
  have "\<exists>i e. i < rg_cap r \<and> rg_slots (ring_Set k v r) = (rg_slots r)[i := e] \<and> rg_cap (ring_Set k v r) = rg_cap r
      \<and> re_valid e \<and> re_key e = k \<and> re_result e = v \<and> rg_hand (ring_Set k v r) < rg_cap r
      \<and> (\<forall>j < rg_cap r. j \<noteq> i \<longrightarrow> \<not> (re_valid (rg_slots r ! j) \<and> re_key (rg_slots r ! j) = k))"
  proof (cases "ring_find k (rg_slots r)")
    case (Some i)
    note f = ring_find_SomeD [OF Some]
    show ?thesis
      by (rule exI [of _ i], rule exI [of _ "(rg_slots r ! i)\<lparr>re_result := v\<rparr>"])
        (use f len assms in \<open>auto simp: ring_Set_def Some ring_inv_def\<close>)
  next
    case None
    then have "\<not> (re_valid (rg_slots r ! j) \<and> re_key (rg_slots r ! j) = k)" if "j < rg_cap r" for j
      using that len by (auto simp: ring_find_None_iff)
    then show ?thesis
      using len by (intro exI [of _ "rg_hand r"] exI [of _ "\<lparr>re_key = k, re_result = v, re_valid = True\<rparr>"])
        (auto simp: ring_Set_def None Let_def)
  qed
  then obtain i e where i: "i < rg_cap r" "rg_slots (ring_Set k v r) = (rg_slots r)[i := e]" "rg_cap (ring_Set k v r) = rg_cap r"
    "re_valid e" "re_key e = k" "re_result e = v" "rg_hand (ring_Set k v r) < rg_cap r"
    and other: "\<And>j. j < rg_cap r \<Longrightarrow> j \<noteq> i \<Longrightarrow> \<not> (re_valid (rg_slots r ! j) \<and> re_key (rg_slots r ! j) = k)" by blast
  have slot: "rg_slots (ring_Set k v r) ! j = (if j = i then e else rg_slots r ! j)" if "j < rg_cap r" for j
    using that i(1,2) len by (simp add: nth_list_update)
  show inv: "ring_inv (ring_Set k v r)"
    unfolding ring_inv_def
  proof (intro conjI allI impI)
    show "length (rg_slots (ring_Set k v r)) = rg_cap (ring_Set k v r)" using i len by simp
    show "rg_hand (ring_Set k v r) < rg_cap (ring_Set k v r)" using i by simp
    fix a b assume ab: "a < rg_cap (ring_Set k v r)" "b < rg_cap (ring_Set k v r)" "re_valid (rg_slots (ring_Set k v r) ! a)"
      "re_valid (rg_slots (ring_Set k v r) ! b)" "re_key (rg_slots (ring_Set k v r) ! a) = re_key (rg_slots (ring_Set k v r) ! b)"
    then have "a < rg_cap r" "b < rg_cap r" using i(3) by simp_all
    note s = ab(3-5) [unfolded slot [OF this(1)] slot [OF this(2)]] and other = other [OF this(1)] other [OF this(2)]
    show "a = b"
    proof (cases "a = i \<or> b = i")
      case True
      then show ?thesis using s other i(5) by (cases "a = i"; cases "b = i") simp_all
    next
      case False
      then show ?thesis using s assms \<open>a < rg_cap r\<close> \<open>b < rg_cap r\<close> unfolding ring_inv_def by simp
    qed
  qed
  show "ring_lookup (ring_Set k v r) k = Some v"
    unfolding ring_lookup_iff [OF inv] i(3) using i(1,4-6) slot [OF i(1)] by auto
  show "j \<noteq> k \<Longrightarrow> ring_lookup (ring_Set k v r) j = ring_lookup r j \<or> ring_lookup (ring_Set k v r) j = None"
  proof (cases "ring_lookup (ring_Set k v r) j")
    case (Some w)
    assume "j \<noteq> k"
    from Some obtain a where "a < rg_cap r" "re_valid (rg_slots (ring_Set k v r) ! a)" "re_key (rg_slots (ring_Set k v r) ! a) = j"
        "re_result (rg_slots (ring_Set k v r) ! a) = w"
      unfolding ring_lookup_iff [OF inv] i(3) by blast
    with \<open>j \<noteq> k\<close> i(5) have "ring_lookup r j = Some w"
      unfolding ring_lookup_iff [OF assms] by (auto simp: slot split: if_splits)
    then show ?thesis using Some by simp
  qed simp
qed

interpretation ring: weak_cache ring_inv ring_lookup ring_Get ring_Set
proof
  fix r :: ring_cache and k
  assume r: "ring_inv r"
  show "fst (ring_Get k r) = ring_lookup r k" by (auto simp: ring_Get_def ring_lookup_def split: option.split)
  show "ring_lookup (snd (ring_Get k r)) = ring_lookup r" by (auto simp: ring_Get_def ring_lookup_def fun_eq_iff split: option.split)
  show "ring_inv (snd (ring_Get k r))" using r by (auto simp: ring_Get_def ring_inv_def split: option.split)
  fix v
  show "ring_lookup (ring_Set k v r) k = Some v \<or> ring_lookup (ring_Set k v r) k = None" using ring_inv_Set(2) [OF r] by simp
  show "ring_inv (ring_Set k v r)" using ring_inv_Set(1) [OF r] .
  show "ring_lookup (ring_Set k v r) k' = ring_lookup r k' \<or> ring_lookup (ring_Set k v r) k' = None" if "k' \<noteq> k" for k'
    using ring_inv_Set(3) [OF r that] .
qed

text \<open>\<open>InvalidateLayer\<close> forgets exactly the entries of the layer.\<close>

lemma ring_InvalidateLayer_spec:
  assumes "ring_inv r"
  shows "ring_inv (ring_InvalidateLayer l r)" "ring_lookup (ring_InvalidateLayer l r) = ring_lookup r |` {k. fst k \<noteq> l}"
proof -
  have slot: "re_valid (rg_slots (ring_InvalidateLayer l r) ! i) \<longleftrightarrow> re_valid (rg_slots r ! i) \<and> fst (re_key (rg_slots r ! i)) \<noteq> l"
    "re_key (rg_slots (ring_InvalidateLayer l r) ! i) = re_key (rg_slots r ! i)"
    "re_result (rg_slots (ring_InvalidateLayer l r) ! i) = re_result (rg_slots r ! i)" if "i < rg_cap r" for i
    using that assms by (auto simp: ring_InvalidateLayer_def ring_inv_def)
  show inv: "ring_inv (ring_InvalidateLayer l r)"
    using assms slot unfolding ring_inv_def by (simp add: ring_InvalidateLayer_def)
  have "rg_cap (ring_InvalidateLayer l r) = rg_cap r" by (simp add: ring_InvalidateLayer_def)
  then have "ring_lookup (ring_InvalidateLayer l r) k = Some v \<longleftrightarrow> fst k \<noteq> l \<and> ring_lookup r k = Some v" for k v
    unfolding ring_lookup_iff [OF inv] ring_lookup_iff [OF assms] using slot by auto
  then show "ring_lookup (ring_InvalidateLayer l r) = ring_lookup r |` {k. fst k \<noteq> l}"
    by (auto simp: fun_eq_iff restrict_map_def) (metis option.exhaust)+
qed

lemma ring_inv_New: "ring_inv (NewRingStatCache n)" "ring_lookup (NewRingStatCache n) = Map.empty"
proof -
  show inv: "ring_inv (NewRingStatCache n)" by (auto simp: ring_inv_def NewRingStatCache_def Let_def)
  show "ring_lookup (NewRingStatCache n) = Map.empty"
    by (auto simp: ring_lookup_def fun_eq_iff ring_find_None_iff NewRingStatCache_def Let_def)
qed

section \<open>What the owner loop computes\<close>

text \<open>The first layer from the top whose own checks settle the question.\<close>

definition settles :: "file_system \<Rightarrow> layer_registry \<Rightarrow> string \<Rightarrow> lm_layer \<Rightarrow> bool" where
  "settles fs reg p l \<longleftrightarrow> (\<exists>i. reg l = Some i \<and> fsStat fs i p \<noteq> StatAbsent)"

definition owner_spec :: "file_system \<Rightarrow> layer_registry \<Rightarrow> layer_stack \<Rightarrow> string \<Rightarrow> lm_error + lm_layer" where
  "owner_spec fs reg stack p =
     (case find (settles fs reg p) (rev stack) of
        None \<Rightarrow> Inl (Sentinel Err_LayerNotFound)
      | Some l \<Rightarrow> (if \<exists>i. reg l = Some i \<and> fsStat fs i p = StatPresent then Inr l else Inl (Sentinel Err_Whiteout)))"

definition stat_spec :: "file_system \<Rightarrow> layer_registry \<Rightarrow> lm_layer \<Rightarrow> string \<Rightarrow> lm_error + stat_result" where
  "stat_spec fs reg l p = (case reg l of None \<Rightarrow> Inl (Sentinel Err_LayerNotFound) | Some i \<Rightarrow> Inr (fsStat fs i p))"

lemma fsStat_not_Unknown [simp]: "fsStat fs i p \<noteq> StatUnknown"
  by (simp add: fsStat_def Let_def)

text \<open>
  The interface between the loop and the memoised check of one layer: as long as every memorised
  result is the one the file system gives, the check answers from the file system and keeps that so.
\<close>

definition true_to :: "('s \<Rightarrow> layer_registry) \<Rightarrow> ('s \<Rightarrow> stat_key \<Rightarrow> stat_result option) \<Rightarrow> file_system \<Rightarrow> 's \<Rightarrow> bool" where
  "true_to reg cached fs s \<longleftrightarrow> (\<forall>l p r. cached s (l, p) = Some r \<longrightarrow> stat_spec fs (reg s) l p = Inr r)"

lemma true_toD: "true_to reg cached fs s \<Longrightarrow> cached s (l, p) = Some r \<Longrightarrow> stat_spec fs (reg s) l p = Inr r"
  unfolding true_to_def by blast

locale memo_stat =
  fixes stat :: "lm_layer \<Rightarrow> string \<Rightarrow> 's \<Rightarrow> (lm_error + stat_result) \<times> 's"
    and reg :: "'s \<Rightarrow> layer_registry"
    and cached :: "'s \<Rightarrow> stat_key \<Rightarrow> stat_result option"
    and inv :: "'s \<Rightarrow> bool"
    and fs :: file_system
  assumes stat_answer: "inv s \<Longrightarrow> true_to reg cached fs s \<Longrightarrow> fst (stat l p s) = stat_spec fs (reg s) l p"
    and stat_keeps: "inv s \<Longrightarrow> true_to reg cached fs s \<Longrightarrow>
      inv (snd (stat l p s)) \<and> reg (snd (stat l p s)) = reg s \<and> true_to reg cached fs (snd (stat l p s))"
begin

lemma owner_loop_answer:
  "inv s \<Longrightarrow> true_to reg cached fs s \<Longrightarrow> (\<forall>j < length ls. ctx (k + j) = None) \<Longrightarrow>
    fst (owner_loop stat ctx k ls p s) = owner_spec fs (reg s) (rev ls) p"
proof (induction ls arbitrary: k s)
  case Nil
  then show ?case by (simp add: owner_spec_def)
next
  case (Cons l ls)
  obtain r s' where st: "stat l p s = (r, s')" by (cases "stat l p s")
  have s': "inv s'" "reg s' = reg s" "true_to reg cached fs s'" and r: "r = stat_spec fs (reg s) l p"
    using stat_keeps [OF Cons.prems(1,2), of l p] stat_answer [OF Cons.prems(1,2), of l p] st by simp_all
  have ctx: "ctx k = None" "\<forall>j < length ls. ctx (Suc k + j) = None"
    using Cons.prems(3) [rule_format, of 0] Cons.prems(3) [rule_format, of "Suc _"] by simp_all
  have IH: "fst (owner_loop stat ctx (Suc k) ls p s') = owner_spec fs (reg s) (rev ls) p"
    using Cons.IH [OF s'(1,3) ctx(2)] s'(2) by simp
  show ?case
  proof (cases "reg s l")
    case None
    then show ?thesis using IH ctx(1) st r by (simp add: stat_spec_def owner_spec_def settles_def)
  next
    case (Some i)
    then show ?thesis using IH ctx(1) st r fsStat_not_Unknown [of fs i p]
      by (cases "fsStat fs i p") (auto simp: stat_spec_def owner_spec_def settles_def)
  qed
qed

lemma owner_loop_keeps:
  "inv s \<Longrightarrow> true_to reg cached fs s \<Longrightarrow>
    inv (snd (owner_loop stat ctx k ls p s)) \<and> reg (snd (owner_loop stat ctx k ls p s)) = reg s
    \<and> true_to reg cached fs (snd (owner_loop stat ctx k ls p s))"
proof (induction ls arbitrary: k s)
  case (Cons l ls)
  obtain r s' where st: "stat l p s = (r, s')" by (cases "stat l p s")
  have s': "inv s'" "reg s' = reg s" "true_to reg cached fs s'" using stat_keeps [OF Cons.prems(1,2), of l p] st by simp_all
  show ?case using Cons.IH [OF s'(1,3)] s' st Cons.prems
    by (auto split: option.split sum.split stat_result.split)
qed simp

text \<open>A cancelled context is reported, wherever in the stack the loop notices it.\<close>

lemma owner_loop_cancelled:
  "\<forall>j. ctx (k + j) = Some e \<Longrightarrow> ls \<noteq> [] \<Longrightarrow> owner_loop stat ctx k ls p s = (Inl e, s)"
  by (cases ls) (auto dest: spec [of _ 0])

end

lemma true_to_le:
  "true_to reg cached fs s \<Longrightarrow> reg s' = reg s \<Longrightarrow>
    (\<And>l p r. cached s' (l, p) = Some r \<Longrightarrow> cached s (l, p) = Some r \<or> stat_spec fs (reg s) l p = Inr r) \<Longrightarrow> true_to reg cached fs s'"
  unfolding true_to_def by metis

definition or_inv :: "overlay_resolver \<Rightarrow> bool" where
  "or_inv r \<longleftrightarrow> finite (dom (or_statCache r)) \<and> int (card (dom (or_statCache r))) \<le> or_cacheSize r"

lemma or_inv_put:
  assumes "or_inv r"
  shows "or_inv (or_put k v r)"
proof (cases "k \<in> dom (or_statCache r)")
  case True
  then show ?thesis using assms by (auto simp: or_inv_def or_put_def insert_absorb)
next
  case False
  then show ?thesis using assms by (auto simp: or_inv_def or_put_def card_insert_disjoint)
qed

interpretation overlay_memo: memo_stat "or_statInLayer fs" or_registry or_statCache or_inv fs for fs
proof
  fix s :: overlay_resolver and l p
  assume s: "or_inv s" "true_to or_registry or_statCache fs s"
  show "fst (or_statInLayer fs l p s) = stat_spec fs (or_registry s) l p"
    using true_toD [OF s(2), of l p]
    by (cases "or_statCache s (l, p)") (simp_all add: or_statInLayer_def stat_spec_def reg_Get_def Let_def split: option.split)
  have "or_inv (snd (or_statInLayer fs l p s))" "or_registry (snd (or_statInLayer fs l p s)) = or_registry s"
    using or_inv_put [OF s(1)] s(1) by (auto simp: or_statInLayer_def or_put_def Let_def split: option.split)
  moreover have "true_to or_registry or_statCache fs (snd (or_statInLayer fs l p s))"
    by (rule true_to_le [OF s(2)])
      (auto simp: or_statInLayer_def or_put_def Let_def stat_spec_def reg_Get_def split: option.splits if_splits)
  ultimately show "or_inv (snd (or_statInLayer fs l p s)) \<and> or_registry (snd (or_statInLayer fs l p s)) = or_registry s
      \<and> true_to or_registry or_statCache fs (snd (or_statInLayer fs l p s))" by blast
qed

abbreviation rr_cached :: "ring_resolver \<Rightarrow> stat_key \<Rightarrow> stat_result option" where
  "rr_cached r \<equiv> ring_lookup (rr_statCache r)"

interpretation ring_memo: memo_stat "rr_statInLayer fs" rr_registry rr_cached "\<lambda>r. ring_inv (rr_statCache r)" fs for fs
proof
  fix s :: ring_resolver and l p
  assume s: "ring_inv (rr_statCache s)" "true_to rr_registry rr_cached fs s"
  obtain g c where g: "ring_Get (l, p) (rr_statCache s) = (g, c)" by (cases "ring_Get (l, p) (rr_statCache s)")
  have c: "g = rr_cached s (l, p)" "ring_lookup c = rr_cached s" "ring_inv c"
    using ring.get_result [OF s(1), of "(l, p)"] ring.get_lookup [OF s(1), of "(l, p)"] ring.invar_get [OF s(1), of "(l, p)"] g
    by simp_all
  show "fst (rr_statInLayer fs l p s) = stat_spec fs (rr_registry s) l p"
    using true_toD [OF s(2), of l p] c(1) g
    by (cases "rr_cached s (l, p)") (simp_all add: rr_statInLayer_def stat_spec_def reg_Get_def Let_def split: option.split)
  have "ring_inv (rr_statCache (snd (rr_statInLayer fs l p s)))" "rr_registry (snd (rr_statInLayer fs l p s)) = rr_registry s"
    using c(3) ring.invar_put [OF c(3)] g by (auto simp: rr_statInLayer_def Let_def split: option.split)
  moreover have "true_to rr_registry rr_cached fs (snd (rr_statInLayer fs l p s))"
  proof (rule true_to_le [OF s(2)])
    show "rr_registry (snd (rr_statInLayer fs l p s)) = rr_registry s" by fact
    fix l' p' r assume r: "rr_cached (snd (rr_statInLayer fs l p s)) (l', p') = Some r"
    show "rr_cached s (l', p') = Some r \<or> stat_spec fs (rr_registry s) l' p' = Inr r"
    proof (cases "g = None \<and> rr_registry s l \<noteq> None \<and> (l', p') = (l, p)")
      case True
      then obtain i where i: "rr_registry s l = Some i" "(l', p') = (l, p)" by auto
      then have "rr_cached (snd (rr_statInLayer fs l p s)) = ring_lookup (ring_Set (l, p) (fsStat fs i p) c)"
        using True g by (simp add: rr_statInLayer_def reg_Get_def Let_def)
      then have "r = fsStat fs i p" using r ring_inv_Set(2) [OF c(3), of "(l, p)" "fsStat fs i p"] i(2) by simp
      then show ?thesis using i by (simp add: stat_spec_def)
    next
      case False
      have "rr_cached (snd (rr_statInLayer fs l p s)) (l', p') = ring_lookup c (l', p')
          \<or> rr_cached (snd (rr_statInLayer fs l p s)) (l', p') = None"
      proof (cases "g = None \<and> rr_registry s l \<noteq> None")
        case True
        then obtain i where "rr_registry s l = Some i" "g = None" by auto
        then have "rr_cached (snd (rr_statInLayer fs l p s)) = ring_lookup (ring_Set (l, p) (fsStat fs i p) c)"
          using g by (simp add: rr_statInLayer_def reg_Get_def Let_def)
        moreover have "(l', p') \<noteq> (l, p)" using True False by blast
        ultimately show ?thesis using ring_inv_Set(3) [OF c(3)] by metis
      qed (use g in \<open>auto simp: rr_statInLayer_def reg_Get_def Let_def split: option.split\<close>)
      then show ?thesis using r c(2) by auto
    qed
  qed
  ultimately show "ring_inv (rr_statCache (snd (rr_statInLayer fs l p s))) \<and> rr_registry (snd (rr_statInLayer fs l p s)) = rr_registry s
      \<and> true_to rr_registry rr_cached fs (snd (rr_statInLayer fs l p s))" by blast
qed

section \<open>Properties\<close>

text \<open>Any sequence of earlier lookups.\<close>

abbreviation or_calls :: "file_system \<Rightarrow> (lm_ctx \<times> layer_stack \<times> string) list \<Rightarrow> overlay_resolver \<Rightarrow> overlay_resolver" where
  "or_calls fs cs r \<equiv> fold (\<lambda>(c, st, q) r. snd (or_FindOwnerLayer fs c st q r)) cs r"

abbreviation rr_calls :: "file_system \<Rightarrow> (lm_ctx \<times> layer_stack \<times> string) list \<Rightarrow> ring_resolver \<Rightarrow> ring_resolver" where
  "rr_calls fs cs r \<equiv> fold (\<lambda>(c, st, q) r. snd (rr_FindOwnerLayer fs c st q r)) cs r"

lemma or_calls_keeps:
  "or_inv r \<Longrightarrow> true_to or_registry or_statCache fs r \<Longrightarrow>
    or_inv (or_calls fs cs r) \<and> or_registry (or_calls fs cs r) = or_registry r \<and> true_to or_registry or_statCache fs (or_calls fs cs r)"
proof (induction cs arbitrary: r)
  case (Cons c cs)
  obtain x st q where c: "c = (x, st, q)" by (cases c)
  from overlay_memo.owner_loop_keeps [OF Cons.prems, of x 0 "rev st" q] show ?case
    using Cons.IH [of "snd (or_FindOwnerLayer fs x st q r)"] by (simp add: c or_FindOwnerLayer_def)
qed simp

lemma rr_calls_keeps:
  "ring_inv (rr_statCache r) \<Longrightarrow> true_to rr_registry rr_cached fs r \<Longrightarrow>
    ring_inv (rr_statCache (rr_calls fs cs r)) \<and> rr_registry (rr_calls fs cs r) = rr_registry r
    \<and> true_to rr_registry rr_cached fs (rr_calls fs cs r)"
proof (induction cs arbitrary: r)
  case (Cons c cs)
  obtain x st q where c: "c = (x, st, q)" by (cases c)
  from ring_memo.owner_loop_keeps [OF Cons.prems, of x 0 "rev st" q] show ?case
    using Cons.IH [of "snd (rr_FindOwnerLayer fs x st q r)"] by (simp add: c rr_FindOwnerLayer_def)
qed simp

lemma or_cacheSize_put [simp]: "or_cacheSize (or_put k v r) = or_cacheSize r"
  by (simp add: or_put_def)

lemma New_resolvers_ok:
  "or_inv (NewOverlayResolver reg n)" "true_to or_registry or_statCache fs (NewOverlayResolver reg n)"
  "or_registry (NewOverlayResolver reg n) = reg"
  "ring_inv (rr_statCache (NewOverlayResolverWithRingCache reg m))" "true_to rr_registry rr_cached fs (NewOverlayResolverWithRingCache reg m)"
  "rr_registry (NewOverlayResolverWithRingCache reg m) = reg"
  using ring_inv_New [of m]
  by (simp_all add: or_inv_def NewOverlayResolver_def true_to_def NewOverlayResolverWithRingCache_def)

lemma ring_Len_bound: "ring_inv r \<Longrightarrow> ring_Len r \<le> rg_cap r"
  by (simp add: ring_Len_def ring_inv_def) (metis length_filter_le)

lemma FindOwnerLayer_memo:
  assumes "\<forall>j < length stack. ctx j = None"
  shows "fst (or_FindOwnerLayer fs ctx stack p (or_calls fs cs (NewOverlayResolver reg n))) = owner_spec fs reg stack p"
    and "fst (rr_FindOwnerLayer fs ctx stack p (rr_calls fs cs (NewOverlayResolverWithRingCache reg m))) = owner_spec fs reg stack p"
proof -
  let ?r = "or_calls fs cs (NewOverlayResolver reg n)" and ?g = "rr_calls fs cs (NewOverlayResolverWithRingCache reg m)"
  have r: "or_inv ?r" "or_registry ?r = reg" "true_to or_registry or_statCache fs ?r"
    using or_calls_keeps [OF New_resolvers_ok(1,2)] New_resolvers_ok(3) by simp_all
  have g: "ring_inv (rr_statCache ?g)" "rr_registry ?g = reg" "true_to rr_registry rr_cached fs ?g"
    using rr_calls_keeps [OF New_resolvers_ok(4,5)] New_resolvers_ok(6) by simp_all
  have c: "\<forall>j < length (rev stack). ctx (0 + j) = None" using assms by simp
  show "fst (or_FindOwnerLayer fs ctx stack p ?r) = owner_spec fs reg stack p"
    using overlay_memo.owner_loop_answer [OF r(1,3) c, of p] r(2) by (simp add: or_FindOwnerLayer_def)
  show "fst (rr_FindOwnerLayer fs ctx stack p ?g) = owner_spec fs reg stack p"
    using ring_memo.owner_loop_answer [OF g(1,3) c, of p] g(2) by (simp add: rr_FindOwnerLayer_def)
qed

text \<open>
  Memoisation is invisible. After any earlier lookups, with any contexts, on a resolver created
  over the same registry and with the same file system, both resolvers answer what the checks of
  the layers themselves say: the first layer from the top whose checks are not negative, and
  \<open>ErrWhiteout\<close> when they found a marker there. Neither memory outgrows its bound.
\<close>

theorem FindOwnerLayer_memo_transparent:
  assumes "\<forall>j < length stack. ctx j = None"
  shows "let r = or_calls fs cs (NewOverlayResolver reg n); g = rr_calls fs cs (NewOverlayResolverWithRingCache reg m) in
    fst (or_FindOwnerLayer fs ctx stack p r) = owner_spec fs reg stack p
    \<and> fst (rr_FindOwnerLayer fs ctx stack p g) = owner_spec fs reg stack p
    \<and> int (card (dom (or_statCache r))) \<le> or_cacheSize r \<and> ring_Len (rr_statCache g) \<le> rg_cap (rr_statCache g)"
proof -
  have "or_inv (or_calls fs cs (NewOverlayResolver reg n))" "ring_inv (rr_statCache (rr_calls fs cs (NewOverlayResolverWithRingCache reg m)))"
    using or_calls_keeps [OF New_resolvers_ok(1,2)] rr_calls_keeps [OF New_resolvers_ok(4,5)] by simp_all
  then show ?thesis
    using FindOwnerLayer_memo [OF assms] ring_Len_bound unfolding Let_def or_inv_def by blast
qed

lemma true_to_invalidate:
  assumes "true_to reg cached fs s" "reg s' = reg s" "cached s' = cached s |` {k. fst k \<noteq> l}"
    and "\<And>l' q. l' \<noteq> l \<Longrightarrow> stat_spec fs' (reg s) l' q = stat_spec fs (reg s) l' q"
  shows "true_to reg cached fs' s'"
  unfolding true_to_def
proof (intro allI impI)
  fix l' p r assume "cached s' (l', p) = Some r"
  then have "l' \<noteq> l" "cached s (l', p) = Some r" using assms(3) by (auto simp: restrict_map_def split: if_splits)
  then show "stat_spec fs' (reg s') l' p = Inr r" using true_toD [OF assms(1)] assms(2,4) by simp
qed

text \<open>
  When the files of one layer change and no other layer's answers do, \<open>InvalidateLayer\<close> of that
  layer is enough: both resolvers then answer from the new file system, whatever they memorised.
\<close>

theorem InvalidateLayer_refreshes:
  assumes "\<forall>j < length stack. ctx j = None"
    and "\<And>l' q. l' \<noteq> l \<Longrightarrow> stat_spec fs' reg l' q = stat_spec fs reg l' q"
  shows "fst (or_FindOwnerLayer fs' ctx stack p (or_InvalidateLayer l (or_calls fs cs (NewOverlayResolver reg n)))) = owner_spec fs' reg stack p
    \<and> fst (rr_FindOwnerLayer fs' ctx stack p (rr_InvalidateLayer l (rr_calls fs cs (NewOverlayResolverWithRingCache reg m))))
      = owner_spec fs' reg stack p"
proof -
  let ?r = "or_calls fs cs (NewOverlayResolver reg n)" and ?g = "rr_calls fs cs (NewOverlayResolverWithRingCache reg m)"
  have r: "or_inv ?r" "or_registry ?r = reg" "true_to or_registry or_statCache fs ?r"
    using or_calls_keeps [OF New_resolvers_ok(1,2)] New_resolvers_ok(3) by simp_all
  have g: "ring_inv (rr_statCache ?g)" "rr_registry ?g = reg" "true_to rr_registry rr_cached fs ?g"
    using rr_calls_keeps [OF New_resolvers_ok(4,5)] New_resolvers_ok(6) by simp_all
  have c: "\<forall>j < length (rev stack). ctx (0 + j) = None" using assms(1) by simp
  let ?r' = "or_InvalidateLayer l ?r" and ?g' = "rr_InvalidateLayer l ?g"
  have sub: "dom (or_statCache ?r') \<subseteq> dom (or_statCache ?r)" by (auto simp: or_InvalidateLayer_def restrict_map_def split: if_splits)
  have "or_inv ?r'"
    using r(1) card_mono [OF _ sub] finite_subset [OF sub] by (simp add: or_inv_def) (simp add: or_InvalidateLayer_def)
  moreover have "true_to or_registry or_statCache fs' ?r'"
    by (rule true_to_invalidate [OF r(3), of _ l]) (use assms(2) r(2) in \<open>simp_all add: or_InvalidateLayer_def\<close>)
  moreover have "or_registry ?r' = reg" using r(2) by (simp add: or_InvalidateLayer_def)
  ultimately have 1: "fst (or_FindOwnerLayer fs' ctx stack p ?r') = owner_spec fs' reg stack p"
    using overlay_memo.owner_loop_answer [of ?r' fs' "rev stack" ctx 0 p] c by (simp add: or_FindOwnerLayer_def)
  have "ring_inv (rr_statCache ?g')" using ring_InvalidateLayer_spec(1) [OF g(1)] by (simp add: rr_InvalidateLayer_def)
  moreover have "true_to rr_registry rr_cached fs' ?g'"
    by (rule true_to_invalidate [OF g(3), of _ l])
      (use assms(2) g(2) ring_InvalidateLayer_spec(2) [OF g(1)] in \<open>simp_all add: rr_InvalidateLayer_def\<close>)
  moreover have "rr_registry ?g' = reg" using g(2) by (simp add: rr_InvalidateLayer_def)
  ultimately have "fst (rr_FindOwnerLayer fs' ctx stack p ?g') = owner_spec fs' reg stack p"
    using ring_memo.owner_loop_answer [of ?g' fs' "rev stack" ctx 0 p] c by (simp add: rr_FindOwnerLayer_def)
  with 1 show ?thesis by simp
qed

section \<open>Overlay semantics\<close>

text \<open>
  The entries of a layer's diff directory by their path elements, and the image specification's
  reading of whiteouts: a layer that holds the path owns it; otherwise a whiteout of the path or of
  one of its directories, or an opaque marker in one of its directories, hides what lies below.
\<close>

definition entry :: "file_system \<Rightarrow> layer_info \<Rightarrow> string list \<Rightarrow> bool" where
  "entry fs i segs \<longleftrightarrow> fs (filepath_Join [li_DiffPath i, rel_path segs])"

definition hides :: "file_system \<Rightarrow> layer_info \<Rightarrow> string list \<Rightarrow> bool" where
  "hides fs i segs \<longleftrightarrow> (\<exists>k < length segs. entry fs i (take k segs @ [''.wh..wh..opq'']) \<or> entry fs i (take k segs @ [''.wh.'' @ segs ! k]))"

definition oci_owner :: "file_system \<Rightarrow> layer_registry \<Rightarrow> layer_stack \<Rightarrow> string list \<Rightarrow> lm_error + lm_layer" where
  "oci_owner fs reg stack segs =
     (case find (\<lambda>l. \<exists>i. reg l = Some i \<and> (entry fs i segs \<or> hides fs i segs)) (rev stack) of
        None \<Rightarrow> Inl (Sentinel Err_LayerNotFound)
      | Some l \<Rightarrow> (if \<exists>i. reg l = Some i \<and> entry fs i segs then Inr l else Inl (Sentinel Err_Whiteout)))"

lemma plain_markers:
  assumes "plain_name n"
  shows "plain_name (''.wh.'' @ n)" "plain_name ''.wh..wh..opq''"
  using assms by (auto simp: plain_name_def)

lemma marker_paths:
  assumes "\<forall>d \<in> set ds. plain_name d" "plain_name n"
  shows "opaqueWhiteoutName (Dir (rel_path (ds @ [n]))) = rel_path (ds @ [''.wh..wh..opq''])"
    and "whiteoutName (rel_path (ds @ [n])) = rel_path (ds @ [''.wh.'' @ n])"
proof -
  note pm = plain_markers [OF assms(2)]
  have one: "rel_path [x] = x" for x by (simp add: rel_path_def)
  have dot: "filepath_Join [''.'', ''.wh..wh..opq''] = ''.wh..wh..opq''"
    by (simp add: filepath_Join_def Clean_def is_rooted_def clean_step_def)
  show "opaqueWhiteoutName (Dir (rel_path (ds @ [n]))) = rel_path (ds @ [''.wh..wh..opq''])"
  proof (cases "ds = []")
    case True
    then show ?thesis using Dir_rel_path [OF assms(2), of "[]"] dot by (simp add: opaqueWhiteoutName_def one)
  next
    case False
    then show ?thesis
      using Dir_rel_path [OF assms(2,1)] Join_rel_rel_path(1) [of ds "[''.wh..wh..opq'']"] assms pm by (simp add: opaqueWhiteoutName_def one)
  qed
  show "whiteoutName (rel_path (ds @ [n])) = rel_path (ds @ [''.wh.'' @ n])"
  proof (cases "ds = []")
    case True
    then show ?thesis using filepath_Split_rel_path [OF assms(2), of "[]"] Clean_rel_path [of "[''.wh.'' @ n]"] pm
      by (simp add: whiteoutName_def one filepath_Join_def)
  next
    case False
    then show ?thesis using filepath_Split_rel_path [OF assms(2), of ds] Join_rel_rel_path(2) [of ds "[''.wh.'' @ n]"] assms pm
      by (simp add: whiteoutName_def one)
  qed
qed

lemma fsStat_entries:
  assumes "\<forall>d \<in> set ds. plain_name d" "plain_name n"
  shows "fsStat fs i (rel_path (ds @ [n])) =
    (if entry fs i (ds @ [''.wh..wh..opq'']) \<or> entry fs i (ds @ [''.wh.'' @ n]) then StatWhiteout
     else if entry fs i (ds @ [n]) then StatPresent else StatAbsent)"
  using marker_paths [OF assms] by (simp add: fsStat_def entry_def Let_def)

end
