(* ===== verification/Lm_Hasher.thy ===== *)
theory Lm_Hasher
  imports Lm_Resolver Lm_Cache
begin

text \<open>
  The file hashers (\<open>hasher.go\<close>, \<open>hardlink.go\<close>, \<open>inode_linux.go\<close>, \<open>inode_other.go\<close>,
  \<open>internal/hash/pool.go\<close>): the interface \<open>FileHasher\<close>, the SHA-256 hasher, and its decorators.

  The file system is what \<open>os.Open\<close> and \<open>os.Lstat\<close> answer; an opened file is the sequence of the
  chunks its reads return and the error that ended them, if it was not the end of the file.
  \<open>crypto/sha256\<close> is the argument \<open>sha256\<close>; a context's error never changes once it is set.
\<close>

section \<open>The interface and the SHA-256 hasher\<close>

record 'h file_hasher =
  fh_Hash :: "lm_ctx \<Rightarrow> string \<Rightarrow> 'h \<Rightarrow> (lm_error + lm_hash) \<times> 'h"
  fh_Algorithm :: string

type_synonym open_file = "bytes list \<times> string option"

datatype open_result = Open_NotExist | Open_Error string | Open_File open_file

text \<open>A pooled hash is reset before its use: only the bytes written since then count.\<close>

definition SumFile :: "(bytes \<Rightarrow> bytes) \<Rightarrow> open_file \<Rightarrow> (string + bytes) \<times> int" where
  "SumFile sha256 r =
     (let written = concat (fst r) in
      case snd r of
        Some err \<Rightarrow> (Inl err, int (length written))
      | None \<Rightarrow> (Inr (sha256 written), int (length written)))"

definition SumBytes :: "(bytes \<Rightarrow> bytes) \<Rightarrow> bytes \<Rightarrow> bytes" where
  "SumBytes sha256 b = sha256 b"

definition hashFile :: "(bytes \<Rightarrow> bytes) \<Rightarrow> (string \<Rightarrow> open_result) \<Rightarrow> string \<Rightarrow> lm_error + lm_hash" where
  "hashFile sha256 op absPath =
     (case op absPath of
        Open_NotExist \<Rightarrow> Inl (Wrapped [absPath] (Sentinel Err_Whiteout))
      | Open_Error err \<Rightarrow> Inl (Wrapped [''open'', absPath, err] (Sentinel Err_HashFailed))
      | Open_File f \<Rightarrow>
          (case fst (SumFile sha256 f) of
             Inl err \<Rightarrow> Inl (Wrapped [''read'', absPath, err] (Sentinel Err_HashFailed))
           | Inr s \<Rightarrow> Inr (NewDigestFromBytes SHA256_name s)))"

definition sha_Hash :: "(bytes \<Rightarrow> bytes) \<Rightarrow> (string \<Rightarrow> open_result) \<Rightarrow> lm_ctx \<Rightarrow> string \<Rightarrow> 'h \<Rightarrow> (lm_error + lm_hash) \<times> 'h" where
  "sha_Hash sha256 op ctx absPath s =
     (case ctx 0 of Some e \<Rightarrow> (Inl e, s) | None \<Rightarrow> (hashFile sha256 op absPath, s))"

definition NewSHA256Hasher :: "(bytes \<Rightarrow> bytes) \<Rightarrow> (string \<Rightarrow> open_result) \<Rightarrow> 'h file_hasher" where
  "NewSHA256Hasher sha256 op = \<lparr>fh_Hash = sha_Hash sha256 op, fh_Algorithm = ''sha256''\<rparr>"

section \<open>Singleflight\<close>

text \<open>
  \<open>inflight\<close> is the group's map at the moment of the call: for a key whose call is in flight, the
  outcome the caller waits for; otherwise the caller runs the inner hasher itself.
\<close>

definition sf_Hash :: "'h file_hasher \<Rightarrow> (string \<Rightarrow> (lm_error + lm_hash) option) \<Rightarrow> lm_ctx \<Rightarrow> string \<Rightarrow> 'h \<Rightarrow> (lm_error + lm_hash) \<times> 'h" where
  "sf_Hash inner inflight ctx absPath s =
     (case inflight absPath of
        Some (Inl err) \<Rightarrow> (Inl err, s)
      | Some (Inr v) \<Rightarrow> (Inr v, s)
      | None \<Rightarrow>
          (case fh_Hash inner ctx absPath s of
             (Inl err, s') \<Rightarrow> (Inl err, s')
           | (Inr v, s') \<Rightarrow> (Inr v, s')))"

definition NewSingleflightHasher :: "'h file_hasher \<Rightarrow> (string \<Rightarrow> (lm_error + lm_hash) option) \<Rightarrow> 'h file_hasher" where
  "NewSingleflightHasher inner inflight = \<lparr>fh_Hash = sf_Hash inner inflight, fh_Algorithm = fh_Algorithm inner\<rparr>"

section \<open>The hasher chain\<close>

fun hch_loop :: "'h file_hasher list \<Rightarrow> lm_ctx \<Rightarrow> string \<Rightarrow> lm_error option \<Rightarrow> 'h \<Rightarrow> (lm_error + lm_hash) \<times> 'h" where
  "hch_loop [] ctx absPath lastErr s = ((case lastErr of None \<Rightarrow> Inr '''' | Some e \<Rightarrow> Inl e), s)"
| "hch_loop (h # hs) ctx absPath lastErr s =
     (case fh_Hash h ctx absPath s of
        (Inr d, s') \<Rightarrow> (Inr d, s')
      | (Inl err, s') \<Rightarrow> hch_loop hs ctx absPath (Some err) s')"

definition hch_Hash :: "'h file_hasher list \<Rightarrow> lm_ctx \<Rightarrow> string \<Rightarrow> 'h \<Rightarrow> (lm_error + lm_hash) \<times> 'h" where
  "hch_Hash c ctx absPath s = hch_loop c ctx absPath None s"

definition hch_Algorithm :: "'h file_hasher list \<Rightarrow> string" where
  "hch_Algorithm c = (if length c = 0 then ''none'' else fh_Algorithm (c ! 0))"

definition HasherChain :: "'h file_hasher list \<Rightarrow> 'h file_hasher" where
  "HasherChain c = \<lparr>fh_Hash = hch_Hash c, fh_Algorithm = hch_Algorithm c\<rparr>"

section \<open>Hard links\<close>

record inode_key =
  ik_Dev :: uint64
  ik_Inode :: uint64

text \<open>What \<open>FileInfo.Sys()\<close> holds: a \<open>*syscall.Stat_t\<close> with its device and inode, or anything else.\<close>

datatype file_sys = Stat_t uint64 uint64 | OtherSys

definition inodeFromFileInfo :: "file_sys \<Rightarrow> inode_key" where
  "inodeFromFileInfo info =
     (case info of
        OtherSys \<Rightarrow> \<lparr>ik_Dev = 0, ik_Inode = 0\<rparr>
      | Stat_t dev ino \<Rightarrow> \<lparr>ik_Dev = dev, ik_Inode = ino\<rparr>)"

definition inodeFromFileInfo_other :: "file_sys \<Rightarrow> inode_key" where
  "inodeFromFileInfo_other info = \<lparr>ik_Dev = 0, ik_Inode = 0\<rparr>"

text \<open>\<open>fromInfo\<close> is the platform's \<open>inodeFromFileInfo\<close>.\<close>

definition readInode :: "(file_sys \<Rightarrow> inode_key) \<Rightarrow> (string \<Rightarrow> file_sys option) \<Rightarrow> string \<Rightarrow> inode_key option" where
  "readInode fromInfo lstat absPath =
     (case lstat absPath of None \<Rightarrow> None | Some info \<Rightarrow> Some (fromInfo info))"

record 'h hardlink_hasher =
  hl_inner :: 'h
  hl_inodeMap :: "inode_key \<rightharpoonup> lm_hash"

definition hl_Hash :: "'h file_hasher \<Rightarrow> (string \<Rightarrow> inode_key option) \<Rightarrow> lm_ctx \<Rightarrow> string \<Rightarrow> 'h hardlink_hasher
    \<Rightarrow> (lm_error + lm_hash) \<times> 'h hardlink_hasher" where
  "hl_Hash inner inode ctx absPath s =
     (case inode absPath of
        None \<Rightarrow> (let (r, i) = fh_Hash inner ctx absPath (hl_inner s) in (r, s\<lparr>hl_inner := i\<rparr>))
      | Some k \<Rightarrow>
          (case hl_inodeMap s k of
             Some cached \<Rightarrow> (Inr cached, s)
           | None \<Rightarrow>
               (case fh_Hash inner ctx absPath (hl_inner s) of
                  (Inl err, i) \<Rightarrow> (Inl err, s\<lparr>hl_inner := i\<rparr>)
                | (Inr h, i) \<Rightarrow> (Inr h, s\<lparr>hl_inner := i, hl_inodeMap := (hl_inodeMap s)(k \<mapsto> h)\<rparr>))))"

definition NewHardLinkAwareHasher :: "'h file_hasher \<Rightarrow> (string \<Rightarrow> inode_key option) \<Rightarrow> 'h hardlink_hasher file_hasher" where
  "NewHardLinkAwareHasher inner inode = \<lparr>fh_Hash = hl_Hash inner inode, fh_Algorithm = fh_Algorithm inner\<rparr>"

definition hl_InvalidateAll :: "'h hardlink_hasher \<Rightarrow> 'h hardlink_hasher" where
  "hl_InvalidateAll s = s\<lparr>hl_inodeMap := Map.empty\<rparr>"

definition InodeCacheLen :: "'h hardlink_hasher \<Rightarrow> nat" where
  "InodeCacheLen s = card (dom (hl_inodeMap s))"

section \<open>The contract of a hasher\<close>

text \<open>Every hash a hasher returns is the one \<open>content\<close> gives the path; \<open>hinv\<close> is what it keeps.\<close>

locale hasher_laws =
  fixes H :: "'h file_hasher" and hinv :: "'h \<Rightarrow> bool" and content :: "string \<Rightarrow> lm_hash option"
  assumes hash_sound: "hinv s \<Longrightarrow> fst (fh_Hash H ctx a s) = Inr v \<Longrightarrow> content a = Some v"
    and hash_keeps: "hinv s \<Longrightarrow> hinv (snd (fh_Hash H ctx a s))"

text \<open>The hash of a path according to the file system.\<close>

definition hash_of_file :: "(bytes \<Rightarrow> bytes) \<Rightarrow> (string \<Rightarrow> open_result) \<Rightarrow> string \<Rightarrow> lm_hash option" where
  "hash_of_file sha256 op a =
     (case op a of Open_File (chunks, None) \<Rightarrow> Some (NewDigestFromBytes SHA256_name (sha256 (concat chunks))) | _ \<Rightarrow> None)"

lemma hashFile_eq: "hashFile sha256 op a = Inr v \<longleftrightarrow> hash_of_file sha256 op a = Some v"
  by (auto simp: hashFile_def hash_of_file_def SumFile_def Let_def split: open_result.split option.split)

interpretation sha: hasher_laws "NewSHA256Hasher sha256 op" "\<lambda>_. True" "hash_of_file sha256 op" for sha256 op
  by unfold_locales (auto simp: NewSHA256Hasher_def sha_Hash_def hashFile_eq split: option.splits)

text \<open>Decorators: a coalesced outcome comes from a call of the same hasher, equal inodes have equal content.\<close>

locale decorated_hasher = hasher_laws H hinv content
  for H :: "'h file_hasher" and hinv and content +
  fixes inflight :: "string \<Rightarrow> (lm_error + lm_hash) option" and inode :: "string \<Rightarrow> inode_key option"
  assumes inflight_sound: "inflight a = Some (Inr v) \<Longrightarrow> content a = Some v"
    and inode_content: "inode a = Some k \<Longrightarrow> inode b = Some k \<Longrightarrow> content a = content b"

sublocale decorated_hasher \<subseteq> coalesced: hasher_laws "NewSingleflightHasher H inflight" hinv content
proof
  fix s :: 'h and ctx a v
  assume s: "hinv s"
  show "hinv (snd (fh_Hash (NewSingleflightHasher H inflight) ctx a s))"
    using hash_keeps [OF s, of ctx a] s
    by (auto simp: NewSingleflightHasher_def sf_Hash_def split: option.split sum.split prod.splits)
  assume "fst (fh_Hash (NewSingleflightHasher H inflight) ctx a s) = Inr v"
  then show "content a = Some v"
    using hash_sound [OF s, of ctx a] inflight_sound [of a]
    by (auto simp: NewSingleflightHasher_def sf_Hash_def split: option.splits sum.splits prod.splits)
qed

text \<open>The hashes memorised per inode are those of every path with that inode.\<close>

definition inodes_true :: "(string \<Rightarrow> inode_key option) \<Rightarrow> (string \<Rightarrow> lm_hash option) \<Rightarrow> (inode_key \<rightharpoonup> lm_hash) \<Rightarrow> bool" where
  "inodes_true inode content m \<longleftrightarrow> (\<forall>k v a. m k = Some v \<longrightarrow> inode a = Some k \<longrightarrow> content a = Some v)"

sublocale decorated_hasher \<subseteq> hardlinks: hasher_laws "NewHardLinkAwareHasher H inode"
    "\<lambda>s. hinv (hl_inner s) \<and> inodes_true inode content (hl_inodeMap s)" content
proof
  fix s :: "'h hardlink_hasher" and ctx a v
  assume s: "hinv (hl_inner s) \<and> inodes_true inode content (hl_inodeMap s)"
  obtain r i where h: "fh_Hash H ctx a (hl_inner s) = (r, i)" by (cases "fh_Hash H ctx a (hl_inner s)")
  have i: "hinv i" "\<And>v. r = Inr v \<Longrightarrow> content a = Some v"
    using hash_keeps [of "hl_inner s" ctx a] hash_sound [of "hl_inner s" ctx a] s h by simp_all
  have new: "inodes_true inode content ((hl_inodeMap s)(k \<mapsto> v))" if "inode a = Some k" "content a = Some v" for k v
    unfolding inodes_true_def
  proof (intro allI impI)
    fix k' v' b assume m: "((hl_inodeMap s)(k \<mapsto> v)) k' = Some v'" and b: "inode b = Some k'"
    show "content b = Some v'"
    proof (cases "k' = k")
      case True
      then show ?thesis using m b that inode_content [of a k b] by simp
    next
      case False
      then show ?thesis using m b s unfolding inodes_true_def by (metis fun_upd_other)
    qed
  qed
  show "hinv (hl_inner (snd (fh_Hash (NewHardLinkAwareHasher H inode) ctx a s)))
      \<and> inodes_true inode content (hl_inodeMap (snd (fh_Hash (NewHardLinkAwareHasher H inode) ctx a s)))"
  proof (cases "inode a")
    case (Some k)
    show ?thesis
    proof (cases "hl_inodeMap s k")
      case None
      then show ?thesis using Some h i s new [OF Some] by (cases r) (simp_all add: NewHardLinkAwareHasher_def hl_Hash_def)
    qed (use Some s in \<open>simp add: NewHardLinkAwareHasher_def hl_Hash_def\<close>)
  qed (use h i s in \<open>simp add: NewHardLinkAwareHasher_def hl_Hash_def\<close>)
  assume v: "fst (fh_Hash (NewHardLinkAwareHasher H inode) ctx a s) = Inr v"
  show "content a = Some v"
  proof (cases "inode a")
    case (Some k)
    show ?thesis
    proof (cases "hl_inodeMap s k")
      case None
      then show ?thesis using Some h i v by (cases r) (simp_all add: NewHardLinkAwareHasher_def hl_Hash_def)
    next
      case (Some w)
      then show ?thesis using v s \<open>inode a = Some k\<close> by (auto simp: NewHardLinkAwareHasher_def hl_Hash_def inodes_true_def)
    qed
  qed (use h i v in \<open>simp add: NewHardLinkAwareHasher_def hl_Hash_def\<close>)
qed

text \<open>Any sequence of earlier calls.\<close>

abbreviation hl_calls :: "'h file_hasher \<Rightarrow> (string \<Rightarrow> inode_key option) \<Rightarrow> (lm_ctx \<times> string) list \<Rightarrow> 'h hardlink_hasher \<Rightarrow> 'h hardlink_hasher" where
  "hl_calls inner inode cs s \<equiv> fold (\<lambda>(ctx, a) s. snd (hl_Hash inner inode ctx a s)) cs s"

context decorated_hasher
begin

lemma hl_calls_keep:
  assumes "hinv (hl_inner s)" "inodes_true inode content (hl_inodeMap s)"
  shows "hinv (hl_inner (hl_calls H inode cs s)) \<and> inodes_true inode content (hl_inodeMap (hl_calls H inode cs s))"
  using assms
proof (induction cs arbitrary: s)
  case (Cons c cs)
  then show ?case using hardlinks.hash_keeps [of s "fst c" "snd c"] Cons.IH [of "snd (hl_Hash H inode (fst c) (snd c) s)"]
    by (simp add: NewHardLinkAwareHasher_def case_prod_unfold)
qed simp

lemma hl_calls_sound:
  assumes "hinv (hl_inner s)" "inodes_true inode content (hl_inodeMap s)"
    and "fst (hl_Hash H inode ctx a (hl_calls H inode cs s)) = Inr v"
  shows "content a = Some v"
  using hardlinks.hash_sound [OF hl_calls_keep [OF assms(1,2)], of ctx a] assms(3) by (simp add: NewHardLinkAwareHasher_def)

end

text \<open>On Linux, with nothing in flight and a file system in which equal inodes have equal content.\<close>

definition links_ok :: "(string \<Rightarrow> file_sys option) \<Rightarrow> (string \<Rightarrow> lm_hash option) \<Rightarrow> bool" where
  "links_ok lstat content \<longleftrightarrow> (\<forall>a b k. readInode inodeFromFileInfo lstat a = Some k \<longrightarrow> readInode inodeFromFileInfo lstat b = Some k
     \<longrightarrow> content a = content b)"

lemma linux_hasher_laws:
  assumes "links_ok lstat (hash_of_file sha256 op)"
  shows "decorated_hasher (NewSHA256Hasher sha256 op) (\<lambda>_. True) (hash_of_file sha256 op) (\<lambda>_. None) (readInode inodeFromFileInfo lstat)"
proof (rule decorated_hasher.intro [OF sha.hasher_laws_axioms], unfold_locales)
  fix a b k
  assume "readInode inodeFromFileInfo lstat a = Some k" "readInode inodeFromFileInfo lstat b = Some k"
  then show "hash_of_file sha256 op a = hash_of_file sha256 op b" using assms unfolding links_ok_def by blast
qed simp

text \<open>In particular when every path leads to the file of its inode.\<close>

definition open_inode :: "(string \<Rightarrow> file_sys option) \<Rightarrow> (inode_key \<Rightarrow> open_result) \<Rightarrow> string \<Rightarrow> open_result" where
  "open_inode lstat files a = (case lstat a of None \<Rightarrow> Open_NotExist | Some info \<Rightarrow> files (inodeFromFileInfo info))"

interpretation linux: decorated_hasher "NewSHA256Hasher sha256 (open_inode lstat files)" "\<lambda>_. True"
    "hash_of_file sha256 (open_inode lstat files)" "\<lambda>_. None" "readInode inodeFromFileInfo lstat" for sha256 lstat files
  by (rule linux_hasher_laws) (auto simp: links_ok_def readInode_def open_inode_def hash_of_file_def split: option.splits)

section \<open>Properties\<close>

text \<open>
  The hard-link cache on Linux: whatever was hashed before, a hash it returns is the hash of the
  file at the path, if files that share a device and an inode share their content.
\<close>

theorem HardLinkAware_correct:
  assumes "links_ok lstat (hash_of_file sha256 op)"
    and "fst (hl_Hash (NewSHA256Hasher sha256 op) (readInode inodeFromFileInfo lstat) ctx a
          (hl_calls (NewSHA256Hasher sha256 op) (readInode inodeFromFileInfo lstat) cs \<lparr>hl_inner = s, hl_inodeMap = Map.empty\<rparr>)) = Inr v"
  shows "hash_of_file sha256 op a = Some v"
  by (rule decorated_hasher.hl_calls_sound [OF linux_hasher_laws [OF assms(1)] _ _ assms(2)]) (simp_all add: inodes_true_def)

text \<open>
  On the other platforms every file has the zero key, so once any file was hashed the hard-link
  cache answers with that file's hash for every file that exists.
\<close>

theorem HardLinkAware_other_platforms:
  assumes "lstat a = Some i" "lstat b = Some j" "ctx 0 = None" "hash_of_file sha256 op a = Some v"
  shows "fst (hl_Hash (NewSHA256Hasher sha256 op) (readInode inodeFromFileInfo_other lstat) ctx' b
      (hl_calls (NewSHA256Hasher sha256 op) (readInode inodeFromFileInfo_other lstat) [(ctx, a)] \<lparr>hl_inner = s, hl_inodeMap = Map.empty\<rparr>)) = Inr v"
proof -
  have "hashFile sha256 op a = Inr v" using assms(4) by (simp add: hashFile_eq)
  then show ?thesis using assms(1-3)
    by (simp add: hl_Hash_def readInode_def inodeFromFileInfo_other_def NewSHA256Hasher_def sha_Hash_def)
qed

text \<open>Two names of one file, and two different files.\<close>

definition example_lstat :: "string \<Rightarrow> file_sys option" where
  "example_lstat p = (if p = ''a'' \<or> p = ''b'' then Some (Stat_t 1 2) else if p = ''c'' then Some (Stat_t 1 3) else None)"

definition example_open :: "string \<Rightarrow> open_result" where
  "example_open p = (if p = ''a'' \<or> p = ''b'' then Open_File ([[1], [2]], None) else if p = ''c'' then Open_File ([[7]], None) else Open_NotExist)"

theorem HardLinkAware_correct_witness:
  "hash_of_file rev example_open ''b'' = Some (NewDigestFromBytes SHA256_name [2, 1])
   \<and> fst (hl_Hash (NewSHA256Hasher rev example_open) (readInode inodeFromFileInfo example_lstat) (\<lambda>_. None) ''b''
        (hl_calls (NewSHA256Hasher rev example_open) (readInode inodeFromFileInfo example_lstat) [(\<lambda>_. None, ''c''), (\<lambda>_. None, ''a'')]
          \<lparr>hl_inner = (), hl_inodeMap = Map.empty\<rparr>)) = Inr (NewDigestFromBytes SHA256_name [2, 1])"
proof -
  have l: "links_ok example_lstat (hash_of_file rev example_open)"
    by (auto simp: links_ok_def readInode_def example_lstat_def inodeFromFileInfo_def hash_of_file_def example_open_def split: option.splits if_splits)
  have r: "fst (hl_Hash (NewSHA256Hasher rev example_open) (readInode inodeFromFileInfo example_lstat) (\<lambda>_. None) ''b''
        (hl_calls (NewSHA256Hasher rev example_open) (readInode inodeFromFileInfo example_lstat) [(\<lambda>_. None, ''c''), (\<lambda>_. None, ''a'')]
          \<lparr>hl_inner = (), hl_inodeMap = Map.empty\<rparr>)) = Inr (NewDigestFromBytes SHA256_name [2, 1])"
    by (simp add: hl_Hash_def readInode_def example_lstat_def inodeFromFileInfo_def NewSHA256Hasher_def sha_Hash_def hashFile_def
        example_open_def SumFile_def)
  show ?thesis using HardLinkAware_correct [OF l r] r by blast
qed

theorem HardLinkAware_other_platforms_witness:
  "fst (hl_Hash (NewSHA256Hasher rev example_open) (readInode inodeFromFileInfo_other example_lstat) (\<lambda>_. None) ''c''
      (hl_calls (NewSHA256Hasher rev example_open) (readInode inodeFromFileInfo_other example_lstat) [(\<lambda>_. None, ''a'')]
        \<lparr>hl_inner = (), hl_inodeMap = Map.empty\<rparr>)) = Inr (NewDigestFromBytes SHA256_name [2, 1])
   \<and> hash_of_file rev example_open ''c'' = Some (NewDigestFromBytes SHA256_name [7])"
  using HardLinkAware_other_platforms [of example_lstat "''a''" "Stat_t 1 2" "''c''" "Stat_t 1 3" "\<lambda>_. None" rev example_open
      "NewDigestFromBytes SHA256_name [2, 1]" "\<lambda>_. None" "()"]
  by (simp add: example_lstat_def hash_of_file_def example_open_def)

end
