(* ===== verification/Lm_Trie.thy ===== *)
theory Lm_Trie
  imports Go_Strings "HOL-Library.AList"
begin

text \<open>
  The path trie of layermerkle (\<open>internal/trie/trie.go\<close>). A node's \<open>children\<close> map is an association
  list with distinct keys; a \<open>nil\<close> hash is \<open>None\<close>. The pointer updates of \<open>insert\<close> become the
  rebuilding of the path from the root, which no other reference can observe: nodes are shared with
  nobody until \<open>Walk\<close> or \<open>SortedChildren\<close> hand them out.
\<close>

datatype trie_node =
  TNode (tn_Segment: string) (tn_Hash: "bytes option") (tn_IsDir: bool) (tn_children: "(string \<times> trie_node) list")

definition NewRoot :: trie_node where
  "NewRoot = TNode '''' None True []"

definition splitPath :: "string \<Rightarrow> string list" where
  "splitPath p = (if p = '''' \<or> p = ''.'' then [] else split_on CHR ''/'' p)"

fun trie_insert :: "string list \<Rightarrow> bytes \<Rightarrow> trie_node \<Rightarrow> trie_node" where
  "trie_insert [] h n = n"
| "trie_insert (seg # segs) h (TNode s hh d children) =
     (let child = (case map_of children seg of Some c \<Rightarrow> c | None \<Rightarrow> TNode seg None (segs \<noteq> []) []);
          child' = (if segs = [] then TNode (tn_Segment child) (Some h) False (tn_children child)
                    else trie_insert segs h (TNode (tn_Segment child) (tn_Hash child) True (tn_children child)))
      in TNode s hh d (AList.update seg child' children))"

definition trie_Insert :: "string \<Rightarrow> bytes \<Rightarrow> trie_node \<Rightarrow> trie_node" where
  "trie_Insert filePath h n = trie_insert (splitPath (Clean filePath)) h n"

fun trie_Len :: "trie_node \<Rightarrow> nat" where
  "trie_Len (TNode s h d children) = (if \<not> d then 1 else sum_list (map (\<lambda>p. trie_Len (snd p)) children))"

definition sortedKeys :: "(string \<times> trie_node) list \<Rightarrow> string list" where
  "sortedKeys m = sort (map fst m)"

text \<open>\<open>SortedChildren\<close>: the children in the order of the sorted keys.\<close>

definition SortedChildren :: "trie_node \<Rightarrow> trie_node list" where
  "SortedChildren n = map (\<lambda>k. the (map_of (tn_children n) k)) (sortedKeys (tn_children n))"

lemma size_SortedChildren: "c \<in> set (SortedChildren n) \<Longrightarrow> size c < size n"
proof -
  assume "c \<in> set (SortedChildren n)"
  then obtain k where k: "k \<in> fst ` set (tn_children n)" "c = the (map_of (tn_children n) k)"
    by (auto simp: SortedChildren_def sortedKeys_def)
  then have "(k, c) \<in> set (tn_children n)"
    by (metis (no_types, lifting) domIff dom_map_of_conv_image_fst map_of_SomeD option.collapse)
  then have "size c < size_list (size_prod (\<lambda>_. 0) size) (tn_children n)"
    by (intro size_list_estimation [of "(k, c)"]) simp_all
  then show ?thesis by (cases n) simp
qed

text \<open>
  \<open>Walk\<close> calls \<open>fn\<close> for every node below the root, depth first and in sorted order, until \<open>fn\<close>
  returns false; \<open>fn\<close> acts on a state of its caller. \<open>walk_nodes\<close> is the loop over the children.
\<close>

function walk_nodes :: "(string \<Rightarrow> trie_node \<Rightarrow> 'w \<Rightarrow> bool \<times> 'w) \<Rightarrow> string \<Rightarrow> trie_node list \<Rightarrow> string list \<Rightarrow> 'w \<Rightarrow> bool \<times> 'w" where
  "walk_nodes fn prefix (child # rest) (key # keys) w =
     (let fullPath = (if prefix = '''' then key else prefix @ ''/'' @ key);
          (go, w1) = fn fullPath child w
      in if \<not> go then (False, w1)
         else if tn_IsDir child
         then (let (go', w2) = walk_nodes fn fullPath (SortedChildren child) (sortedKeys (tn_children child)) w1
               in if \<not> go' then (False, w2) else walk_nodes fn prefix rest keys w2)
         else walk_nodes fn prefix rest keys w1)"
| "walk_nodes fn prefix [] keys w = (True, w)"
| "walk_nodes fn prefix ns [] w = (True, w)"
  by pat_completeness auto

lemma size_trie_pos: "0 < size (n :: trie_node)"
  by (cases n) simp

lemma foldr_max_less: "(\<forall>x \<in> set xs. f x < (b :: nat)) \<Longrightarrow> 0 < b \<Longrightarrow> foldr (\<lambda>x. max (f x)) xs 0 < b"
  by (induction xs) auto

termination walk_nodes
proof (relation "measures [\<lambda>(fn, p, ns, ks, w). foldr (\<lambda>n. max (size n)) ns 0, \<lambda>(fn, p, ns, ks, w). length ns]")
  fix fn :: "string \<Rightarrow> trie_node \<Rightarrow> 'w \<Rightarrow> bool \<times> 'w" and p :: string and child rest key keys w fullPath x go w1
  have "foldr (\<lambda>n. max (size n)) (SortedChildren child) 0 < size child"
    by (rule foldr_max_less) (simp_all add: size_SortedChildren size_trie_pos)
  then show "((fn, fullPath, SortedChildren child, sortedKeys (tn_children child), w1), (fn, p, child # rest, key # keys, w))
      \<in> measures [\<lambda>(fn, p, ns, ks, w). foldr (\<lambda>n. max (size n)) ns 0, \<lambda>(fn, p, ns, ks, w). length ns]"
    by (simp add: less_max_iff_disj)
qed (simp_all, linarith+)

definition trie_Walk :: "(string \<Rightarrow> trie_node \<Rightarrow> 'w \<Rightarrow> bool \<times> 'w) \<Rightarrow> trie_node \<Rightarrow> 'w \<Rightarrow> bool \<times> 'w" where
  "trie_Walk fn n w = walk_nodes fn '''' (SortedChildren n) (sortedKeys (tn_children n)) w"

section \<open>Contents\<close>

text \<open>The file at a path, and the well-formed tries: no empty directory, no file with children.\<close>

fun tlookup :: "trie_node \<Rightarrow> string list \<Rightarrow> bytes option" where
  "tlookup n [] = None"
| "tlookup n (seg # segs) =
     (case map_of (tn_children n) seg of
        None \<Rightarrow> None
      | Some c \<Rightarrow> (if segs = [] then (if tn_IsDir c then None else tn_Hash c) else if tn_IsDir c then tlookup c segs else None))"

fun twf :: "trie_node \<Rightarrow> bool" where
  "twf (TNode s h d children) \<longleftrightarrow> distinct (map fst children)
     \<and> (\<forall>p \<in> set children. tn_Segment (snd p) = fst p
          \<and> (if tn_IsDir (snd p) then twf (snd p) \<and> tn_children (snd p) \<noteq> [] else tn_Hash (snd p) \<noteq> None \<and> tn_children (snd p) = []))"

lemma twf_children:
  "twf n \<longleftrightarrow> distinct (map fst (tn_children n)) \<and> (\<forall>k c. map_of (tn_children n) k = Some c \<longrightarrow> tn_Segment c = k
     \<and> (if tn_IsDir c then twf c \<and> tn_children c \<noteq> [] else tn_Hash c \<noteq> None \<and> tn_children c = []))"
proof (cases n)
  case (TNode s h d cs)
  show ?thesis
  proof (cases "distinct (map fst cs)")
    case True
    then have "map_of cs k = Some c \<longleftrightarrow> (k, c) \<in> set cs" for k c by simp
    then show ?thesis using True by (auto simp: TNode)
  qed (simp add: TNode)
qed

lemma first_key: "cs \<noteq> [] \<Longrightarrow> \<exists>k c. map_of cs k = Some c"
  by (cases cs) auto

lemma twf_child_lookup:
  assumes "twf n" "map_of (tn_children n) k = Some c"
  shows "\<exists>p. tlookup n (k # p) \<noteq> None"
  using assms
proof (induction n arbitrary: k c rule: measure_induct_rule [of size])
  case (less n)
  have c: "if tn_IsDir c then twf c \<and> tn_children c \<noteq> [] else tn_Hash c \<noteq> None \<and> tn_children c = []"
    using less.prems unfolding twf_children [of n] by blast
  show ?case
  proof (cases "tn_IsDir c")
    case False
    then show ?thesis using c less.prems(2) by (intro exI [of _ "[]"]) simp
  next
    case True
    with c have "twf c" "tn_children c \<noteq> []" by simp_all
    then obtain k' c' where kc: "map_of (tn_children c) k' = Some c'" "twf c"
      using first_key by metis
    have "size c < size n"
    proof -
      have "size c < size_list (size_prod (\<lambda>_. 0) size) (tn_children n)"
        using map_of_SomeD [OF less.prems(2)] by (intro size_list_estimation [of "(k, c)"]) simp_all
      then show ?thesis by (cases n) simp
    qed
    from less.IH [OF this kc(2,1)] obtain p where "tlookup c (k' # p) \<noteq> None" by blast
    then show ?thesis using True less.prems(2) by (intro exI [of _ "k' # p"]) simp
  qed
qed

text \<open>In a well-formed trie the contents fix the keys and the kind of every child.\<close>

lemma twf_key_iff: "twf n \<Longrightarrow> map_of (tn_children n) k \<noteq> None \<longleftrightarrow> (\<exists>p. tlookup n (k # p) \<noteq> None)"
proof -
  assume n: "twf n"
  show ?thesis
  proof (cases "map_of (tn_children n) k")
    case (Some c)
    then show ?thesis using twf_child_lookup [OF n Some] by simp
  qed simp
qed

lemma twf_leaf_iff:
  assumes "twf n" "map_of (tn_children n) k = Some c"
  shows "\<not> tn_IsDir c \<longleftrightarrow> tlookup n [k] \<noteq> None"
proof -
  have "if tn_IsDir c then twf c \<and> tn_children c \<noteq> [] else tn_Hash c \<noteq> None \<and> tn_children c = []"
    using assms(1) unfolding twf_children [of n] using assms(2) by blast
  then show ?thesis using assms(2) by (auto split: if_splits)
qed

section \<open>Insertion\<close>

lemma map_of_update [simp]: "map_of (AList.update k v xs) = (map_of xs)(k \<mapsto> v)"
  by (rule update_conv')

lemma keys_update: "fst ` set (AList.update k v xs) = insert k (fst ` set xs)"
  by (simp add: dom_map_of_conv_image_fst [symmetric])

lemma update_not_Nil [simp]: "AList.update k v xs \<noteq> []"
  by (cases xs) auto

lemma twf_update:
  assumes "twf (TNode s h d cs)" "tn_Segment c = k"
    and "if tn_IsDir c then twf c \<and> tn_children c \<noteq> [] else tn_Hash c \<noteq> None \<and> tn_children c = []"
  shows "twf (TNode s h d (AList.update k c cs))"
  using assms unfolding twf_children [of "TNode _ _ _ _"] by (auto simp: distinct_update)

lemma twf_meta [simp]: "twf (TNode s h d cs) = twf (TNode s' h' d' cs)"
  by simp

lemma tn_Segment_insert [simp]: "tn_Segment (trie_insert segs h n) = tn_Segment n"
  by (cases segs; cases n) (simp_all add: Let_def)

lemma tn_IsDir_insert [simp]: "tn_IsDir (trie_insert segs h n) = tn_IsDir n"
  by (cases segs; cases n) (simp_all add: Let_def)

lemma tn_children_insert [simp]: "segs \<noteq> [] \<Longrightarrow> tn_children (trie_insert segs h n) \<noteq> []"
  by (cases segs; cases n) (simp_all add: Let_def)

text \<open>Two paths that are equal or of which neither is below the other.\<close>

definition compatible :: "string list \<Rightarrow> string list \<Rightarrow> bool" where
  "compatible p q \<longleftrightarrow> (\<forall>r. r \<noteq> [] \<longrightarrow> p \<noteq> q @ r \<and> q \<noteq> p @ r)"

lemma compatible_Cons: "compatible (s # p) (s # q) \<longleftrightarrow> compatible p q"
  by (simp add: compatible_def)

lemma tlookup_insert:
  assumes "twf n" "segs \<noteq> []" "\<And>q. tlookup n q \<noteq> None \<Longrightarrow> compatible segs q"
  shows "twf (trie_insert segs h n) \<and> tlookup (trie_insert segs h n) = (tlookup n)(segs \<mapsto> h)"
  using assms
proof (induction segs arbitrary: n)
  case Nil
  then show ?case by simp
next
  case (Cons seg segs)
  obtain s hh d cs where n: "n = TNode s hh d cs" by (cases n)
  have wf: "distinct (map fst cs)" "\<And>k c. map_of cs k = Some c \<Longrightarrow> tn_Segment c = k
      \<and> (if tn_IsDir c then twf c \<and> tn_children c \<noteq> [] else tn_Hash c \<noteq> None \<and> tn_children c = [])"
    using Cons.prems(1) unfolding n twf_children [of "TNode _ _ _ _"] by auto
  define child where "child = (case map_of cs seg of Some c \<Rightarrow> c | None \<Rightarrow> TNode seg None (segs \<noteq> []) [])"
  have seg: "tn_Segment child = seg" using wf(2) by (auto simp: child_def split: option.split)
  show ?case
  proof (cases "segs = []")
    case True
    have leaf: "tn_children child = []"
    proof (cases "map_of cs seg")
      case (Some c)
      have "\<not> tn_IsDir c"
      proof
        assume "tn_IsDir c"
        then have "tn_children c \<noteq> []" "twf c" using wf(2) [OF Some] by simp_all
        then obtain k c' where "map_of (tn_children c) k = Some c'" "twf c" using first_key by metis
        from twf_child_lookup [OF this(2,1)] obtain p where "tlookup c (k # p) \<noteq> None" by blast
        then have "tlookup n (seg # k # p) \<noteq> None" using Some \<open>tn_IsDir c\<close> by (simp add: n)
        from Cons.prems(3) [OF this] show False unfolding True compatible_def by (auto dest: spec [of _ "k # p"])
      qed
      then show ?thesis using wf(2) [OF Some] Some by (simp add: child_def)
    qed (simp add: child_def)
    let ?c = "TNode (tn_Segment child) (Some h) False (tn_children child)"
    have ins: "trie_insert (seg # segs) h n = TNode s hh d (AList.update seg ?c cs)"
      using True by (simp add: n child_def [unfolded True] Let_def)
    have "twf (TNode s hh d (AList.update seg ?c cs))"
      by (rule twf_update) (use Cons.prems(1) n seg leaf in simp_all)
    moreover have "tlookup (TNode s hh d (AList.update seg ?c cs)) q = ((tlookup n)([seg] \<mapsto> h)) q" for q
    proof (cases q)
      case (Cons a q')
      show ?thesis
      proof (cases "a = seg \<and> q' \<noteq> []")
        case qt: True
        have "tlookup n q = None"
        proof (rule ccontr)
          assume "tlookup n q \<noteq> None"
          from Cons.prems(3) [OF this] show False using qt unfolding True compatible_def Cons by (auto dest: spec [of _ q'])
        qed
        then show ?thesis using qt Cons leaf by (simp add: n)
      qed (use Cons in \<open>auto simp: n split: option.split\<close>)
    qed simp
    ultimately show ?thesis unfolding ins using True by (auto simp: fun_eq_iff)
  next
    case False
    let ?base = "TNode (tn_Segment child) (tn_Hash child) True (tn_children child)"
    let ?c = "trie_insert segs h ?base"
    have ins: "trie_insert (seg # segs) h n = TNode s hh d (AList.update seg ?c cs)"
      unfolding n child_def using False by (simp only: trie_insert.simps Let_def if_False)
    have dir: "tn_IsDir child \<and> (twf child)"
    proof (cases "map_of cs seg")
      case (Some c)
      have "tn_IsDir c"
      proof (rule ccontr)
        assume "\<not> tn_IsDir c"
        then have "tlookup n [seg] \<noteq> None" using wf(2) [OF Some] Some by (simp add: n)
        from Cons.prems(3) [OF this] show False using False unfolding compatible_def by (auto dest: spec [of _ segs])
      qed
      then show ?thesis using wf(2) [OF Some] Some by (simp add: child_def)
    qed (use False in \<open>simp add: child_def\<close>)
    have same: "tlookup ?base = tlookup child"
    proof
      fix q show "tlookup ?base q = tlookup child q" by (cases q) simp_all
    qed
    have old: "tlookup n (seg # q) = tlookup child q" if "q \<noteq> []" for q
      using that dir by (cases "map_of cs seg") (auto simp: n child_def neq_Nil_conv)
    have IH: "twf ?c \<and> tlookup ?c = (tlookup child)(segs \<mapsto> h)"
    proof -
      have "compatible segs q" if "tlookup ?base q \<noteq> None" for q
      proof -
        have "q \<noteq> []" using that by (cases q) simp_all
        then have "tlookup n (seg # q) \<noteq> None" using that old unfolding same by simp
        from Cons.prems(3) [OF this] show ?thesis by (simp add: compatible_Cons)
      qed
      moreover have "twf ?base" using dir by (cases child) simp
      ultimately show ?thesis using Cons.IH [of ?base] False unfolding same by blast
    qed
    have "twf (TNode s hh d (AList.update seg ?c cs))"
      by (rule twf_update) (use Cons.prems(1) n seg IH False in simp_all)
    moreover have "tlookup (TNode s hh d (AList.update seg ?c cs)) q = ((tlookup n)(seg # segs \<mapsto> h)) q" for q
    proof (cases q)
      case (Cons a q')
      show ?thesis
      proof (cases "a = seg")
        case True
        show ?thesis
        proof (cases "q' = []")
          case q': False
          have "tlookup (TNode s hh d (AList.update seg ?c cs)) q = tlookup ?c q'" using True Cons q' by simp
          also have "\<dots> = ((tlookup child)(segs \<mapsto> h)) q'" using IH by simp
          finally show ?thesis using True Cons old [OF q'] by simp
        next
          case True': True
          have "tlookup n [seg] = None"
          proof (rule ccontr)
            assume "tlookup n [seg] \<noteq> None"
            from Cons.prems(3) [OF this] show False using False unfolding compatible_def by (auto dest: spec [of _ segs])
          qed
          then show ?thesis using True True' Cons False by simp
        qed
      qed (use Cons in \<open>auto simp: n split: option.split\<close>)
    qed simp
    ultimately show ?thesis unfolding ins by (auto simp: fun_eq_iff)
  qed
qed

end
