(* ===== verification/Lm_Merkle.thy ===== *)
theory Lm_Merkle
  imports Complex_Main Lm_Core Lm_Trie
begin

text \<open>
  The Merkle tree of one build vertex and the forest of all vertices (\<open>merkle.go\<close>), on the path
  trie of \<open>Lm_Trie\<close>. A builder collects hash results; \<open>Finalize\<close> sorts the leaves, computes the
  node tree and its root digest. The theorems say on what the root depends (the last hash added for
  every path) and on what it does not (the order of the additions, and the names of the files).
\<close>

section \<open>Leaves, nodes and trees\<close>

record merkle_leaf =
  lf_RelPath :: string
  lf_Hash :: lm_hash
  lf_OwnerLayerID :: lm_layer
  lf_FromCache :: bool

text \<open>A \<open>nil\<close> hash and an empty one are read by length only, so both are \<open>[]\<close>.\<close>

datatype lm_node = LNode (nd_Path: string) (nd_Hash: bytes) (nd_Children: "lm_node list") (nd_Leaf: "merkle_leaf option")

definition nd_IsLeaf :: "lm_node \<Rightarrow> bool" where
  "nd_IsLeaf n \<longleftrightarrow> nd_Leaf n \<noteq> None"

definition nd_HexHash :: "lm_node \<Rightarrow> string" where
  "nd_HexHash n = hex_encode (nd_Hash n)"

record lm_tree =
  tr_VertexID :: lm_vertex
  tr_LayerStack :: layer_stack
  tr_Root :: lm_digest
  tr_RootNode :: "lm_node option"
  tr_Leaves :: "merkle_leaf list"
  tr_LeafCount :: int
  tr_CacheHitCount :: int
  tr_FinalizedAt :: int

text \<open>The quotient of two counters, a \<open>float64\<close> in the code, is the exact quotient here.\<close>

definition CacheHitRate :: "lm_tree \<Rightarrow> real" where
  "CacheHitRate t = (if tr_LeafCount t = 0 then 0 else real_of_int (tr_CacheHitCount t) / real_of_int (tr_LeafCount t))"

record tree_builder =
  tb_vertexID :: lm_vertex
  tb_layerStack :: layer_stack
  tb_root :: trie_node
  tb_leaves :: "merkle_leaf list"
  tb_hitCount :: int

definition NewMerkleTreeBuilder :: "lm_vertex \<Rightarrow> layer_stack \<Rightarrow> tree_builder" where
  "NewMerkleTreeBuilder vertexID stack =
     \<lparr>tb_vertexID = vertexID, tb_layerStack = stack, tb_root = NewRoot, tb_leaves = [], tb_hitCount = 0\<rparr>"

definition tb_Add :: "hash_result \<Rightarrow> tree_builder \<Rightarrow> tree_builder" where
  "tb_Add r b =
     (if hr_Err r \<noteq> None \<or> hr_Hash r = '''' then b
      else (let leaf = \<lparr>lf_RelPath = hr_RelPath r, lf_Hash = hr_Hash r, lf_OwnerLayerID = hr_OwnerLayerID r,
                        lf_FromCache = hr_FromCache r\<rparr>
            in b\<lparr>tb_root := trie_Insert (hr_RelPath r) (bytes_of_string (hr_Hash r)) (tb_root b),
                 tb_leaves := tb_leaves b @ [leaf],
                 tb_hitCount := (if hr_FromCache r then tb_hitCount b + 1 else tb_hitCount b)\<rparr>))"

section \<open>The node tree and its root\<close>

text \<open>Writing the children's hashes one after the other and summing hashes their concatenation.\<close>

definition hashChildren :: "(bytes \<Rightarrow> bytes) \<Rightarrow> lm_node list \<Rightarrow> bytes" where
  "hashChildren sha256 children = (if length children = 0 then [] else sha256 (concat (map nd_Hash children)))"

function buildMerkleNode :: "(bytes \<Rightarrow> bytes) \<Rightarrow> string \<Rightarrow> trie_node \<Rightarrow> lm_node" where
  "buildMerkleNode sha256 path n =
     (let children = map (\<lambda>child.
            let childPath = (if path = '''' then tn_Segment child else path @ ''/'' @ tn_Segment child)
            in if \<not> tn_IsDir child
               then LNode childPath (case tn_Hash child of Some h \<Rightarrow> h | None \<Rightarrow> []) []
                      (Some \<lparr>lf_RelPath = childPath, lf_Hash = '''', lf_OwnerLayerID = '''', lf_FromCache = False\<rparr>)
               else (let inner = buildMerkleNode sha256 childPath child
                     in LNode childPath (nd_Hash inner) (nd_Children inner) None)) (SortedChildren n)
      in LNode path (hashChildren sha256 children) children None)"
  by auto
termination
  by (relation "measure (\<lambda>(sha256, path, n). size n)") (auto simp: size_SortedChildren)

declare buildMerkleNode.simps [simp del]

definition computeRootDigest :: "lm_node option \<Rightarrow> lm_digest" where
  "computeRootDigest r =
     (case r of None \<Rightarrow> ''''
      | Some n \<Rightarrow> (if length (nd_Hash n) = 0 then '''' else NewDigestFromBytes SHA256_name (nd_Hash n)))"

text \<open>
  \<open>srt\<close> is \<open>sort.Slice\<close> by path. The sorted slice is the builder's own, so the builder changes too.
\<close>

definition tb_Finalize :: "(bytes \<Rightarrow> bytes) \<Rightarrow> (merkle_leaf list \<Rightarrow> merkle_leaf list) \<Rightarrow> int \<Rightarrow> tree_builder \<Rightarrow> lm_tree \<times> tree_builder" where
  "tb_Finalize sha256 srt now b =
     (let b' = b\<lparr>tb_leaves := srt (tb_leaves b)\<rparr>;
          rootNode = buildMerkleNode sha256 '''' (tb_root b');
          r = computeRootDigest (Some rootNode)
      in (\<lparr>tr_VertexID = tb_vertexID b', tr_LayerStack = tb_layerStack b', tr_Root = r, tr_RootNode = Some rootNode,
           tr_Leaves = tb_leaves b', tr_LeafCount = int (length (tb_leaves b')), tr_CacheHitCount = tb_hitCount b',
           tr_FinalizedAt = now\<rparr>, b'))"

section \<open>The forest\<close>

type_synonym lm_forest = "lm_vertex \<rightharpoonup> lm_tree"

definition NewMerkleForest :: lm_forest where
  "NewMerkleForest = Map.empty"

definition mf_Add :: "lm_tree \<Rightarrow> lm_forest \<Rightarrow> lm_forest" where
  "mf_Add t f = f(tr_VertexID t \<mapsto> t)"

definition mf_Get :: "lm_vertex \<Rightarrow> lm_forest \<Rightarrow> lm_tree option" where
  "mf_Get v f = f v"

text \<open>\<open>enum\<close> is the order of \<open>range\<close> over the map, \<open>srt\<close> is \<open>sort.Slice\<close> by vertex.\<close>

definition mf_All :: "(lm_vertex set \<Rightarrow> lm_vertex list) \<Rightarrow> (lm_tree list \<Rightarrow> lm_tree list) \<Rightarrow> lm_forest \<Rightarrow> lm_tree list" where
  "mf_All enum srt f = srt (map (\<lambda>v. the (f v)) (enum (dom f)))"

definition mf_Len :: "lm_forest \<Rightarrow> nat" where
  "mf_Len f = card (dom f)"

section \<open>Tries with the same contents build the same nodes\<close>

lemma sortedKeys_eq: "distinct (map fst m) \<Longrightarrow> sortedKeys m = sorted_list_of_set (dom (map_of m))"
  unfolding sortedKeys_def dom_map_of_conv_image_fst
  by (metis distinct_remdups_id list.set_map sorted_list_of_set_sort_remdups)

lemma sortedKeys_child: "k \<in> set (sortedKeys m) \<Longrightarrow> \<exists>c. map_of m k = Some c"
  unfolding sortedKeys_def by (metis domD dom_map_of_conv_image_fst list.set_map set_sort)

lemma SortedChildren_segments:
  assumes "twf n"
  shows "map tn_Segment (SortedChildren n) = sortedKeys (tn_children n)"
proof -
  have "tn_Segment (the (map_of (tn_children n) k)) = k" if "k \<in> set (sortedKeys (tn_children n))" for k
  proof -
    obtain c where "map_of (tn_children n) k = Some c"
      using sortedKeys_child [OF \<open>k \<in> set (sortedKeys (tn_children n))\<close>] by blast
    moreover from this have "tn_Segment c = k" using assms unfolding twf_children [of n] by blast
    ultimately show ?thesis by simp
  qed
  then show ?thesis by (simp add: SortedChildren_def map_idI)
qed

lemma tlookup_child:
  assumes "map_of (tn_children n) k = Some c" "tn_IsDir c"
  shows "tlookup c q = (if q = [] then None else tlookup n (k # q))"
  using assms by (cases q) simp_all

lemma buildMerkleNode_ext:
  assumes "twf n" "twf m" "tlookup n = tlookup m"
  shows "buildMerkleNode sha256 path n = buildMerkleNode sha256 path m"
  using assms
proof (induction n arbitrary: m path rule: measure_induct_rule [of size])
  case (less n)
  note wf = less.prems(1,2)
  have keys: "map_of (tn_children n) k \<noteq> None \<longleftrightarrow> map_of (tn_children m) k \<noteq> None" for k
    unfolding twf_key_iff [OF wf(1)] twf_key_iff [OF wf(2)] less.prems(3) ..
  then have "dom (map_of (tn_children n)) = dom (map_of (tn_children m))" by (auto simp: dom_def)
  moreover have "distinct (map fst (tn_children n))" "distinct (map fst (tn_children m))"
    using wf unfolding twf_children [of n] twf_children [of m] by blast+
  ultimately have ks: "sortedKeys (tn_children n) = sortedKeys (tn_children m)"
    by (simp add: sortedKeys_eq)
  have child: "(if path = '''' then tn_Segment c else path @ ''/'' @ tn_Segment c) = (if path = '''' then k else path @ ''/'' @ k)"
    "tn_Segment d = k" "tn_Segment c = k" "tn_IsDir c \<longleftrightarrow> tn_IsDir d" "\<not> tn_IsDir c \<Longrightarrow> tn_Hash c = tn_Hash d"
    "tn_IsDir c \<Longrightarrow> buildMerkleNode sha256 p c = buildMerkleNode sha256 p d"
    if c: "map_of (tn_children n) k = Some c" and d: "map_of (tn_children m) k = Some d" for k c d p
  proof -
    have wc: "tn_Segment c = k" "if tn_IsDir c then twf c \<and> tn_children c \<noteq> [] else tn_Hash c \<noteq> None \<and> tn_children c = []"
      using wf(1) c unfolding twf_children [of n] by blast+
    have wd: "tn_Segment d = k" "if tn_IsDir d then twf d \<and> tn_children d \<noteq> [] else tn_Hash d \<noteq> None \<and> tn_children d = []"
      using wf(2) d unfolding twf_children [of m] by blast+
    show "tn_Segment d = k" "tn_Segment c = k"
      "(if path = '''' then tn_Segment c else path @ ''/'' @ tn_Segment c) = (if path = '''' then k else path @ ''/'' @ k)"
      using wc wd by simp_all
    show dir: "tn_IsDir c \<longleftrightarrow> tn_IsDir d"
      using twf_leaf_iff [OF wf(1) c] twf_leaf_iff [OF wf(2) d] unfolding less.prems(3) by blast
    have "tlookup n [k] = tlookup m [k]" by (simp add: less.prems(3))
    then show "\<not> tn_IsDir c \<Longrightarrow> tn_Hash c = tn_Hash d" using dir c d by simp
    assume ic: "tn_IsDir c"
    then have id: "tn_IsDir d" using dir by simp
    have "tlookup c = tlookup d"
      unfolding fun_eq_iff tlookup_child [OF c ic] tlookup_child [OF d id] less.prems(3) by simp
    moreover have "size c < size n"
    proof -
      have "size c < size_list (size_prod (\<lambda>_. 0) size) (tn_children n)"
        using map_of_SomeD [OF c] by (intro size_list_estimation [of "(k, c)"]) simp_all
      then show ?thesis by (cases n) simp
    qed
    ultimately show "buildMerkleNode sha256 p c = buildMerkleNode sha256 p d"
      using less.IH [of c d p] wc(2) wd(2) ic id by simp
  qed
  have eq: "f (the (map_of (tn_children n) k)) = g (the (map_of (tn_children m) k))"
    if kk: "k \<in> set (sortedKeys (tn_children n))"
      and fg: "\<And>c d. map_of (tn_children n) k = Some c \<Longrightarrow> map_of (tn_children m) k = Some d \<Longrightarrow> f c = g d" for k f g
  proof -
    obtain c where c: "map_of (tn_children n) k = Some c"
      using sortedKeys_child [OF kk] by blast
    then obtain d where "map_of (tn_children m) k = Some d" using keys [of k] by auto
    then show ?thesis using fg c by simp
  qed
  show ?case
    unfolding buildMerkleNode.simps [of sha256 path n] buildMerkleNode.simps [of sha256 path m] SortedChildren_def
      list.map_comp ks [symmetric]
    by (intro arg_cong [where f = "\<lambda>cs. let children = cs in LNode path (hashChildren sha256 children) children None"] map_cong refl)
      (unfold comp_def, rule eq, assumption, use child in \<open>simp add: Let_def\<close>)
qed

section \<open>What a builder accumulates\<close>

text \<open>The results \<open>Add\<close> accepts, the trie path of a result, and the last hash added for every path.\<close>

definition accepted :: "hash_result \<Rightarrow> bool" where
  "accepted r \<longleftrightarrow> hr_Err r = None \<and> hr_Hash r \<noteq> ''''"

definition result_path :: "hash_result \<Rightarrow> string list" where
  "result_path r = splitPath (Clean (hr_RelPath r))"

definition last_hashes :: "hash_result list \<Rightarrow> string list \<Rightarrow> lm_hash option" where
  "last_hashes rs = fold (\<lambda>r m. if accepted r \<and> result_path r \<noteq> [] then m(result_path r \<mapsto> hr_Hash r) else m) rs Map.empty"

lemma last_hashes_simps [simp]:
  "last_hashes [] = Map.empty"
  "last_hashes (rs @ [r]) =
     (if accepted r \<and> result_path r \<noteq> [] then (last_hashes rs)(result_path r \<mapsto> hr_Hash r) else last_hashes rs)"
  by (simp_all add: last_hashes_def)

lemma tb_Add_simps [simp]:
  "tb_root (tb_Add r b) = (if accepted r then trie_insert (result_path r) (bytes_of_string (hr_Hash r)) (tb_root b) else tb_root b)"
  "tb_vertexID (tb_Add r b) = tb_vertexID b" "tb_layerStack (tb_Add r b) = tb_layerStack b"
  by (simp_all add: tb_Add_def accepted_def result_path_def trie_Insert_def Let_def)

lemma builder_trie:
  assumes "\<forall>p \<in> dom (last_hashes rs). \<forall>q \<in> dom (last_hashes rs). compatible p q"
  shows "twf (tb_root (fold tb_Add rs (NewMerkleTreeBuilder v st)))
    \<and> tlookup (tb_root (fold tb_Add rs (NewMerkleTreeBuilder v st))) = map_option bytes_of_string \<circ> last_hashes rs"
  using assms
proof (induction rs rule: rev_induct)
  case Nil
  have "tlookup NewRoot q = None" for q by (cases q) (simp_all add: NewRoot_def)
  then show ?case by (simp add: NewMerkleTreeBuilder_def fun_eq_iff) (simp add: NewRoot_def)
next
  case (snoc r rs)
  let ?n = "tb_root (fold tb_Add rs (NewMerkleTreeBuilder v st))"
  have IH: "twf ?n" "tlookup ?n = map_option bytes_of_string \<circ> last_hashes rs"
    using snoc by (auto split: if_splits)
  show ?case
  proof (cases "accepted r \<and> result_path r \<noteq> []")
    case True
    have "compatible (result_path r) q" if "tlookup ?n q \<noteq> None" for q
    proof -
      have "q \<in> dom (last_hashes (rs @ [r]))" using that True unfolding IH(2) by auto
      moreover have "result_path r \<in> dom (last_hashes (rs @ [r]))" using True by simp
      ultimately show ?thesis using snoc.prems by blast
    qed
    then have "twf (trie_insert (result_path r) (bytes_of_string (hr_Hash r)) ?n)
        \<and> tlookup (trie_insert (result_path r) (bytes_of_string (hr_Hash r)) ?n)
          = (tlookup ?n)(result_path r \<mapsto> bytes_of_string (hr_Hash r))"
      using True IH(1) by (intro tlookup_insert) auto
    then show ?thesis using True IH(2) by (auto simp: fun_eq_iff)
  next
    case False
    have "trie_insert [] h n = n" for h n by simp
    then show ?thesis using False IH by auto
  qed
qed

text \<open>
  C20: the root digest (and the whole node tree) is a function of the last hash added for every path, when
  no file path lies below another one: neither the order of the additions, nor repeated accesses,
  nor the vertex, the stack, the sorting and the time change it.
\<close>

theorem Finalize_root_determined:
  assumes "\<forall>p \<in> dom (last_hashes rs). \<forall>q \<in> dom (last_hashes rs). compatible p q"
    and "last_hashes rs = last_hashes rs'"
  shows "let t = fst (tb_Finalize sha256 srt now (fold tb_Add rs (NewMerkleTreeBuilder v st)));
             t' = fst (tb_Finalize sha256 srt' now' (fold tb_Add rs' (NewMerkleTreeBuilder v' st')))
         in tr_Root t = tr_Root t' \<and> tr_RootNode t = tr_RootNode t'"
proof -
  let ?n = "tb_root (fold tb_Add rs (NewMerkleTreeBuilder v st))"
  let ?m = "tb_root (fold tb_Add rs' (NewMerkleTreeBuilder v' st'))"
  have "twf ?n \<and> tlookup ?n = map_option bytes_of_string \<circ> last_hashes rs" using assms(1) by (rule builder_trie)
  moreover have "twf ?m \<and> tlookup ?m = map_option bytes_of_string \<circ> last_hashes rs'"
    by (rule builder_trie) (use assms in simp)
  ultimately have "buildMerkleNode sha256 '''' ?n = buildMerkleNode sha256 '''' ?m"
    using assms(2) by (intro buildMerkleNode_ext) simp_all
  then show ?thesis by (simp add: tb_Finalize_def Let_def)
qed

definition example_result :: "string \<Rightarrow> lm_hash \<Rightarrow> bool \<Rightarrow> hash_result" where
  "example_result p h c =
     \<lparr>hr_VertexID = ''v'', hr_RelPath = p, hr_Hash = h, hr_OwnerLayerID = ''l'', hr_FromCache = c, hr_Err = None\<rparr>"

text \<open>Two files accessed in either order, one of them twice.\<close>

theorem Finalize_root_determined_witness:
  "let rs = [example_result ''b'' ''h1'' False, example_result ''a/x'' ''h2'' False];
       rs' = [example_result ''a/x'' ''h3'' False, example_result ''a/x'' ''h2'' False, example_result ''b'' ''h1'' True]
   in tr_Root (fst (tb_Finalize rev (\<lambda>ls. ls) 1 (fold tb_Add rs (NewMerkleTreeBuilder ''v'' []))))
    = tr_Root (fst (tb_Finalize rev (\<lambda>ls. ls) 2 (fold tb_Add rs' (NewMerkleTreeBuilder ''w'' []))))"
proof -
  define rs where "rs = [example_result ''b'' ''h1'' False, example_result ''a/x'' ''h2'' False]"
  define rs' where "rs' = [example_result ''a/x'' ''h3'' False, example_result ''a/x'' ''h2'' False, example_result ''b'' ''h1'' True]"
  have p: "result_path (example_result ''b'' h c) = [''b'']" "result_path (example_result ''a/x'' h c) = [''a'', ''x'']" for h c
    by (simp_all add: result_path_def example_result_def) code_simp+
  have a: "accepted (example_result p h c) \<longleftrightarrow> h \<noteq> ''''" for p h c by (simp add: accepted_def example_result_def)
  have h: "hr_Hash (example_result p h c) = h" for p h c by (simp add: example_result_def)
  have l: "last_hashes rs = [[''b''] \<mapsto> ''h1'', [''a'', ''x''] \<mapsto> ''h2'']"
    by (simp add: last_hashes_def rs_def p a h)
  have l': "last_hashes rs' = [[''b''] \<mapsto> ''h1'', [''a'', ''x''] \<mapsto> ''h2'']"
    by (simp add: last_hashes_def rs'_def p a h fun_upd_twist)
  have "\<forall>p \<in> dom (last_hashes rs). \<forall>q \<in> dom (last_hashes rs). compatible p q"
    unfolding l compatible_def by (simp add: Cons_eq_append_conv)
  from Finalize_root_determined [OF this l [folded l'], of rev "\<lambda>ls. ls" 1 "''v''" "[]" "\<lambda>ls. ls" 2 "''w''" "[]"]
  show ?thesis unfolding Let_def rs_def rs'_def by blast
qed

text \<open>
  The root says nothing of the names: a vertex that read one file has the same root whatever that
  file was called.
\<close>

theorem Finalize_root_ignores_names:
  assumes "plain_name a" "plain_name b" "accepted r" "hr_RelPath r = a" "accepted r'" "hr_RelPath r' = b"
    and "hr_Hash r = hr_Hash r'"
  shows "tr_Root (fst (tb_Finalize sha256 srt now (tb_Add r (NewMerkleTreeBuilder v st))))
       = tr_Root (fst (tb_Finalize sha256 srt now (tb_Add r' (NewMerkleTreeBuilder v st))))"
proof -
  have h: "nd_Hash (buildMerkleNode sha256 '''' (tb_root (tb_Add r (NewMerkleTreeBuilder v st)))) = sha256 (bytes_of_string (hr_Hash r))"
    if "plain_name (hr_RelPath r)" "accepted r" for r
  proof -
    let ?a = "hr_RelPath r"
    have "result_path r = [?a]"
      using that Clean_rel_path [of "[?a]"] split_on_no_sep [of "CHR ''/''" ?a]
      by (simp add: result_path_def splitPath_def rel_path_def plain_name_def)
    then show ?thesis
      using that(2) by (simp add: NewMerkleTreeBuilder_def NewRoot_def buildMerkleNode.simps [of _ "''''"]
          SortedChildren_def sortedKeys_def hashChildren_def Let_def)
  qed
  have "nd_Hash (buildMerkleNode sha256 '''' (tb_root (tb_Add r (NewMerkleTreeBuilder v st))))
      = nd_Hash (buildMerkleNode sha256 '''' (tb_root (tb_Add r' (NewMerkleTreeBuilder v st))))"
    using h [of r] h [of r'] assms by simp
  then show ?thesis by (simp add: tb_Finalize_def Let_def computeRootDigest_def del: tb_Add_simps)
qed

theorem Finalize_root_ignores_names_witness:
  "tr_Root (fst (tb_Finalize rev (\<lambda>ls. ls) 0 (tb_Add (example_result ''passwd'' ''h'' False) (NewMerkleTreeBuilder ''v'' []))))
   = tr_Root (fst (tb_Finalize rev (\<lambda>ls. ls) 0 (tb_Add (example_result ''shadow'' ''h'' False) (NewMerkleTreeBuilder ''v'' []))))"
  by (rule Finalize_root_ignores_names [of "''passwd''" "''shadow''"])
    (simp_all add: plain_name_def accepted_def example_result_def)

lemma builder_leaves:
  "tb_leaves (fold tb_Add rs b) = tb_leaves b @ map (\<lambda>r. \<lparr>lf_RelPath = hr_RelPath r, lf_Hash = hr_Hash r,
       lf_OwnerLayerID = hr_OwnerLayerID r, lf_FromCache = hr_FromCache r\<rparr>) (filter accepted rs)"
  "tb_hitCount (fold tb_Add rs b) = tb_hitCount b + int (length (filter (\<lambda>r. accepted r \<and> hr_FromCache r) rs))"
  by (induction rs arbitrary: b) (auto simp: tb_Add_def accepted_def Let_def)

text \<open>
  The leaves of the tree: one per accepted result, in path order, with the counters that belong to
  them.
\<close>

theorem Finalize_leaves:
  assumes "slice_sort lf_RelPath srt"
  shows "let t = fst (tb_Finalize sha256 srt now (fold tb_Add rs (NewMerkleTreeBuilder v st)))
         in sorted (map lf_RelPath (tr_Leaves t))
          \<and> mset (tr_Leaves t) = mset (map (\<lambda>r. \<lparr>lf_RelPath = hr_RelPath r, lf_Hash = hr_Hash r,
              lf_OwnerLayerID = hr_OwnerLayerID r, lf_FromCache = hr_FromCache r\<rparr>) (filter accepted rs))
          \<and> tr_LeafCount t = int (length (filter accepted rs))
          \<and> tr_CacheHitCount t = int (length (filter lf_FromCache (tr_Leaves t)))
          \<and> 0 \<le> CacheHitRate t \<and> CacheHitRate t \<le> 1"
proof -
  let ?leaf = "\<lambda>r. \<lparr>lf_RelPath = hr_RelPath r, lf_Hash = hr_Hash r, lf_OwnerLayerID = hr_OwnerLayerID r, lf_FromCache = hr_FromCache r\<rparr>"
  define ls where "ls = map ?leaf (filter accepted rs)"
  define hits where "hits = length (filter (\<lambda>r. accepted r \<and> hr_FromCache r) rs)"
  have "length (filter lf_FromCache (srt ls)) = size (filter_mset lf_FromCache (mset ls))"
    by (metis mset_filter size_mset slice_sort.srt_mset [OF assms])
  also have "\<dots> = length (filter lf_FromCache ls)" by (metis mset_filter size_mset)
  also have "\<dots> = hits" by (simp add: ls_def hits_def filter_map comp_def conj_commute)
  finally have h: "length (filter lf_FromCache (srt ls)) = hits" .
  have len: "length (srt ls) = length (filter accepted rs)"
    using slice_sort.srt_length [OF assms] by (simp add: ls_def)
  have le: "hits \<le> length (filter accepted rs)" unfolding h [symmetric] len [symmetric] by simp
  then show ?thesis
    using len h slice_sort.srt_sorted [OF assms, of ls] slice_sort.srt_mset [OF assms, of ls]
    by (simp add: tb_Finalize_def Let_def builder_leaves NewMerkleTreeBuilder_def ls_def [symmetric] hits_def [symmetric]
        CacheHitRate_def divide_le_eq_1)
qed

theorem Finalize_leaves_witness:
  "let t = fst (tb_Finalize rev (sort_key lf_RelPath) 0 (fold tb_Add [example_result ''b'' ''h'' True, example_result ''a'' '''' False,
         example_result ''a'' ''h'' False] (NewMerkleTreeBuilder ''v'' [])))
   in tr_LeafCount t = 2 \<and> sorted (map lf_RelPath (tr_Leaves t))"
proof -
  have s: "slice_sort lf_RelPath (sort_key lf_RelPath :: merkle_leaf list \<Rightarrow> _)" by unfold_locales simp_all
  show ?thesis
    using Finalize_leaves [OF s, of rev 0 "[example_result ''b'' ''h'' True, example_result ''a'' '''' False,
         example_result ''a'' ''h'' False]" "''v''" "[]"]
    by (simp add: Let_def accepted_def example_result_def)
qed

section \<open>The forest's contents\<close>

text \<open>\<open>All\<close> lists every stored tree once, by vertex, whatever the order of the map.\<close>

lemma mf_All_contents:
  assumes "slice_sort tr_VertexID srt" "map_range enum" "finite (dom f)" "\<And>v t. f v = Some t \<Longrightarrow> tr_VertexID t = v"
  shows "set (mf_All enum srt f) = ran f" "map tr_VertexID (mf_All enum srt f) = sorted_list_of_set (dom f)"
    "length (mf_All enum srt f) = mf_Len f"
proof -
  let ?ts = "map (\<lambda>v. the (f v)) (enum (dom f))"
  have e: "set (enum (dom f)) = dom f" "distinct (enum (dom f))"
    using map_range.enum_set [OF assms(2,3)] map_range.enum_distinct [OF assms(2,3)] by auto
  show "set (mf_All enum srt f) = ran f"
    unfolding mf_All_def slice_sort.srt_set [OF assms(1)] by (force simp: e ran_def image_iff)
  have k: "map tr_VertexID ?ts = enum (dom f)"
    using e assms(4) by (auto simp: comp_def intro!: map_idI)
  have "distinct (map tr_VertexID (srt ?ts))" using slice_sort.srt_keys_distinct [OF assms(1)] e k by simp
  moreover have "set (map tr_VertexID (srt ?ts)) = dom f"
    using slice_sort.srt_set [OF assms(1), of ?ts] e(1) k by (metis set_map)
  ultimately show "map tr_VertexID (mf_All enum srt f) = sorted_list_of_set (dom f)"
    unfolding mf_All_def using slice_sort.srt_sorted [OF assms(1)] by (metis sorted_list_of_set.idem_if_sorted_distinct)
  then show "length (mf_All enum srt f) = mf_Len f"
    by (metis length_map length_sorted_list_of_set mf_Len_def)
qed

end
