(* ===== verification/Lm_Whiteout.thy ===== *)
theory Lm_Whiteout
  imports Lm_Resolver
begin

text \<open>
  Whiteouts (\<open>whiteout.go\<close>): \<open>OCICompliantResolver\<close>, which looks for opaque markers in every
  ancestor directory, and \<open>WhiteoutIndex\<close>, the same markers read in one walk of the diff directory;
  then what the resolvers make of the image specification's whiteout rules.
\<close>

section \<open>OCICompliantResolver\<close>

definition NewOCICompliantResolver :: "layer_registry \<Rightarrow> int \<Rightarrow> overlay_resolver" where
  "NewOCICompliantResolver registry cacheCapacity = NewOverlayResolver registry cacheCapacity"

definition hasFileWhiteout :: "file_system \<Rightarrow> string \<Rightarrow> string \<Rightarrow> bool" where
  "hasFileWhiteout fs diffPath relPath =
     (let (dir, name) = filepath_Split relPath in fs (filepath_Join [diffPath, dir, ''.wh.'' @ name]))"

definition ancestorIsOpaque :: "file_system \<Rightarrow> string \<Rightarrow> string \<Rightarrow> bool" where
  "ancestorIsOpaque fs diffPath relPath \<longleftrightarrow>
     (let segments = split_on CHR ''/'' relPath in
      \<exists>depth \<in> set [1 ..< length segments]. fs (filepath_Join [diffPath, join_with ''/'' (take depth segments), ''.wh..wh..opq'']))"

fun oci_loop :: "file_system \<Rightarrow> layer_registry \<Rightarrow> lm_ctx \<Rightarrow> nat \<Rightarrow> lm_layer list \<Rightarrow> string \<Rightarrow> lm_error + lm_layer" where
  "oci_loop fs reg ctx k [] p = Inl (Sentinel Err_LayerNotFound)"
| "oci_loop fs reg ctx k (l # ls) p =
     (case ctx k of
        Some e \<Rightarrow> Inl e
      | None \<Rightarrow>
          (case reg_Get l reg of
             None \<Rightarrow> oci_loop fs reg ctx (Suc k) ls p
           | Some info \<Rightarrow>
               (if hasFileWhiteout fs (li_DiffPath info) p then Inl (Sentinel Err_Whiteout)
                else if ancestorIsOpaque fs (li_DiffPath info) p then Inl (Sentinel Err_Whiteout)
                else if fs (filepath_Join [li_DiffPath info, p]) then Inr l
                else oci_loop fs reg ctx (Suc k) ls p)))"

definition oci_FindOwnerLayer :: "file_system \<Rightarrow> lm_ctx \<Rightarrow> layer_stack \<Rightarrow> string \<Rightarrow> overlay_resolver
    \<Rightarrow> (lm_error + lm_layer) \<times> overlay_resolver" where
  "oci_FindOwnerLayer fs ctx stack relPath r = (oci_loop fs (or_registry r) ctx 0 (rev stack) relPath, r)"

definition oci_layer_resolver :: "file_system \<Rightarrow> overlay_resolver layer_resolver" where
  "oci_layer_resolver fs = \<lparr>rs_FindOwnerLayer = oci_FindOwnerLayer fs, rs_DiffAbsPath = or_DiffAbsPath fs\<rparr>"

section \<open>WhiteoutIndex\<close>

record whiteout_index =
  wi_fileWhiteouts :: "string set"
  wi_opaqueDirectories :: "string set"

text \<open>
  \<open>filepath.Walk\<close> calls the function for the root and everything below; \<open>visits\<close> lists the calls, each with its
  path and whether it carries an error. The function never fails, so neither does the walk.
\<close>

definition index_visit :: "string \<Rightarrow> string \<times> bool \<Rightarrow> whiteout_index \<Rightarrow> whiteout_index" where
  "index_visit diffPath v idx =
     (let (path, failed) = v in
      if failed then idx
      else (let name = Base path in
        case Rel diffPath path of
          None \<Rightarrow> idx
        | Some rel \<Rightarrow>
            (let dir = Dir rel in
             if name = ''.wh..wh..opq'' then idx\<lparr>wi_opaqueDirectories := insert dir (wi_opaqueDirectories idx)\<rparr>
             else if HasPrefix name ''.wh.'' \<and> \<not> HasPrefix name ''.wh..wh.'' then
               (let orig = TrimPrefix name ''.wh.'';
                    maskedPath = (if dir = ''.'' then orig else dir @ ''/'' @ orig)
                in idx\<lparr>wi_fileWhiteouts := insert maskedPath (wi_fileWhiteouts idx)\<rparr>)
             else idx)))"

definition BuildWhiteoutIndex :: "string \<Rightarrow> (string \<times> bool) list \<Rightarrow> whiteout_index" where
  "BuildWhiteoutIndex diffPath visits =
     fold (index_visit diffPath) visits \<lparr>wi_fileWhiteouts = {}, wi_opaqueDirectories = {}\<rparr>"

definition IsMasked :: "whiteout_index \<Rightarrow> string \<Rightarrow> bool" where
  "IsMasked idx relPath \<longleftrightarrow>
     relPath \<in> wi_fileWhiteouts idx
     \<or> (let parts = split_on CHR ''/'' relPath in
        \<exists>depth \<in> set [1 ..< length parts]. join_with ''/'' (take depth parts) \<in> wi_opaqueDirectories idx)"

definition FileWhiteoutCount :: "whiteout_index \<Rightarrow> nat" where
  "FileWhiteoutCount idx = card (wi_fileWhiteouts idx)"

definition OpaqueDirectoryCount :: "whiteout_index \<Rightarrow> nat" where
  "OpaqueDirectoryCount idx = card (wi_opaqueDirectories idx)"

section \<open>The markers by path elements\<close>

definition plain_path :: "string list \<Rightarrow> bool" where
  "plain_path ns \<longleftrightarrow> (\<forall>n \<in> set ns. plain_name n)"

lemma plain_path_simps [simp]:
  "plain_path []" "plain_path (n # ns) \<longleftrightarrow> plain_name n \<and> plain_path ns" "plain_path (ns @ ms) \<longleftrightarrow> plain_path ns \<and> plain_path ms"
  by (auto simp: plain_path_def)

lemma plain_path_take: "plain_path ns \<Longrightarrow> plain_path (take k ns)"
  by (auto simp: plain_path_def dest: in_set_takeD)

lemma plain_opq [simp]: "plain_name ''.wh..wh..opq''"
  by (simp add: plain_name_def)

lemma plain_wh [simp]: "plain_name n \<Longrightarrow> plain_name (''.wh.'' @ n)"
  by (simp add: plain_name_def)

lemma entry_abs:
  "li_DiffPath i = abs_path dns \<Longrightarrow> plain_path (dns @ segs) \<Longrightarrow> segs \<noteq> [] \<Longrightarrow> entry fs i segs = fs (abs_path (dns @ segs))"
  using Join_abs_rel_path [of dns segs] by (simp add: entry_def plain_path_def)

lemma split_rel: "plain_path ns \<Longrightarrow> ns \<noteq> [] \<Longrightarrow> split_on CHR ''/'' (rel_path ns) = ns"
  by (simp add: split_rel_path plain_path_def)

lemma plain_pathD: "plain_path ns \<Longrightarrow> \<forall>n \<in> set ns. plain_name n"
  by (simp add: plain_path_def)

lemma hasFileWhiteout_entry:
  assumes "li_DiffPath i = abs_path dns" "plain_path (dns @ ds)" "plain_name n"
  shows "hasFileWhiteout fs (li_DiffPath i) (rel_path (ds @ [n])) = entry fs i (ds @ [''.wh.'' @ n])"
proof -
  have p: "plain_path (dns @ ds @ [''.wh.'' @ n])" using assms plain_wh [OF assms(3)] by simp
  then have "entry fs i (ds @ [''.wh.'' @ n]) = fs (abs_path (dns @ ds @ [''.wh.'' @ n]))"
    using entry_abs [OF assms(1), of "ds @ [''.wh.'' @ n]" fs] by simp
  then show ?thesis
    unfolding hasFileWhiteout_def filepath_Split_rel_path [OF assms(3)] assms(1) Let_def prod.case
      Join_abs_dir_name(1) [OF plain_pathD [OF p]] by (rule sym)
qed

lemma ancestorIsOpaque_entry:
  assumes "li_DiffPath i = abs_path dns" "plain_path (dns @ segs)" "segs \<noteq> []"
  shows "ancestorIsOpaque fs (li_DiffPath i) (rel_path segs) \<longleftrightarrow>
    (\<exists>k \<in> {1 ..< length segs}. entry fs i (take k segs @ [''.wh..wh..opq'']))"
proof -
  have "fs (filepath_Join [li_DiffPath i, join_with ''/'' (take k segs), ''.wh..wh..opq'']) = entry fs i (take k segs @ [''.wh..wh..opq''])"
    if k: "k \<in> {1 ..< length segs}" for k
  proof -
    have p: "plain_path (dns @ take k segs @ [''.wh..wh..opq''])" using assms(2) plain_path_take [of segs k] by simp
    have "take k segs \<noteq> []" using k by auto
    then show ?thesis
      using Join_abs_dir_name(2) [OF plain_pathD [OF p]] entry_abs [OF assms(1) p] by (simp add: assms(1) rel_path_def)
  qed
  moreover have "split_on CHR ''/'' (rel_path segs) = segs" using split_rel [OF _ assms(3)] assms(2) by simp
  ultimately show ?thesis by (auto simp: ancestorIsOpaque_def Let_def)
qed

section \<open>The index and the resolver read the same markers\<close>

text \<open>
  A walk of the layer's diff directory that meets no error: it visits the root and exactly the
  entries that \<open>Lstat\<close> finds.
\<close>

definition good_walk :: "file_system \<Rightarrow> string list \<Rightarrow> (string \<times> bool) list \<Rightarrow> bool" where
  "good_walk fs dns visits \<longleftrightarrow>
     (\<forall>v. v \<in> set visits \<longleftrightarrow> v = (abs_path dns, False)
        \<or> (\<exists>segs. plain_path segs \<and> segs \<noteq> [] \<and> fs (abs_path (dns @ segs)) \<and> v = (abs_path (dns @ segs), False)))"

lemma good_walk_ex:
  assumes "good_walk fs dns visits" "\<not> P (abs_path dns, False)"
  shows "(\<exists>v \<in> set visits. P v) \<longleftrightarrow>
    (\<exists>segs. plain_path segs \<and> segs \<noteq> [] \<and> fs (abs_path (dns @ segs)) \<and> P (abs_path (dns @ segs), False))"
proof
  assume "\<exists>v \<in> set visits. P v"
  then obtain v where v: "v \<in> set visits" "P v" by blast
  with assms have "\<exists>segs. plain_path segs \<and> segs \<noteq> [] \<and> fs (abs_path (dns @ segs)) \<and> v = (abs_path (dns @ segs), False)"
    unfolding good_walk_def by metis
  with v(2) show "\<exists>segs. plain_path segs \<and> segs \<noteq> [] \<and> fs (abs_path (dns @ segs)) \<and> P (abs_path (dns @ segs), False)" by metis
next
  assume "\<exists>segs. plain_path segs \<and> segs \<noteq> [] \<and> fs (abs_path (dns @ segs)) \<and> P (abs_path (dns @ segs), False)"
  with assms(1) show "\<exists>v \<in> set visits. P v" unfolding good_walk_def by metis
qed

text \<open>What one call adds to the two sets.\<close>

definition visit_opaque :: "string \<Rightarrow> string \<times> bool \<Rightarrow> string set" where
  "visit_opaque d v = (case Rel d (fst v) of
     Some rel \<Rightarrow> (if \<not> snd v \<and> Base (fst v) = ''.wh..wh..opq'' then {Dir rel} else {}) | None \<Rightarrow> {})"

definition visit_file :: "string \<Rightarrow> string \<times> bool \<Rightarrow> string set" where
  "visit_file d v = (case Rel d (fst v) of
     Some rel \<Rightarrow>
       (if \<not> snd v \<and> Base (fst v) \<noteq> ''.wh..wh..opq'' \<and> HasPrefix (Base (fst v)) ''.wh.'' \<and> \<not> HasPrefix (Base (fst v)) ''.wh..wh.''
        then {if Dir rel = ''.'' then TrimPrefix (Base (fst v)) ''.wh.'' else Dir rel @ ''/'' @ TrimPrefix (Base (fst v)) ''.wh.''}
        else {})
   | None \<Rightarrow> {})"

lemma index_visit_adds:
  "index_visit d v idx = idx\<lparr>wi_fileWhiteouts := visit_file d v \<union> wi_fileWhiteouts idx,
     wi_opaqueDirectories := visit_opaque d v \<union> wi_opaqueDirectories idx\<rparr>"
proof -
  have shape: "(if f then idx else case r of None \<Rightarrow> idx | Some rel \<Rightarrow>
        if m then idx\<lparr>wi_opaqueDirectories := insert (a rel) (wi_opaqueDirectories idx)\<rparr>
        else if p \<and> q then idx\<lparr>wi_fileWhiteouts := insert (b rel) (wi_fileWhiteouts idx)\<rparr> else idx)
    = idx\<lparr>wi_fileWhiteouts := (case r of Some rel \<Rightarrow> (if \<not> f \<and> \<not> m \<and> p \<and> q then {b rel} else {}) | None \<Rightarrow> {}) \<union> wi_fileWhiteouts idx,
        wi_opaqueDirectories := (case r of Some rel \<Rightarrow> (if \<not> f \<and> m then {a rel} else {}) | None \<Rightarrow> {}) \<union> wi_opaqueDirectories idx\<rparr>"
    for f m p q :: bool and r :: "string option" and a b :: "string \<Rightarrow> string"
    by (cases r) simp_all
  show ?thesis
    unfolding index_visit_def visit_file_def visit_opaque_def case_prod_unfold Let_def
    by (rule shape)
qed

lemma index_fold:
  "fold (index_visit d) vs idx = idx\<lparr>wi_fileWhiteouts := \<Union> (visit_file d ` set vs) \<union> wi_fileWhiteouts idx,
     wi_opaqueDirectories := \<Union> (visit_opaque d ` set vs) \<union> wi_opaqueDirectories idx\<rparr>"
proof (induction vs arbitrary: idx)
  case (Cons v vs)
  have "fold (index_visit d) (v # vs) idx = fold (index_visit d) vs (index_visit d v idx)" by simp
  also note Cons.IH
  finally show ?case unfolding index_visit_adds by (simp add: Un_ac)
qed simp

lemma rel_path_inj:
  assumes "plain_path ns" "plain_path ms" "ns \<noteq> []" "ms \<noteq> []"
  shows "rel_path ns = rel_path ms \<longleftrightarrow> ns = ms"
proof
  assume "rel_path ns = rel_path ms"
  then have "split_on CHR ''/'' (rel_path ns) = split_on CHR ''/'' (rel_path ms)" by (rule arg_cong)
  then show "ns = ms" unfolding split_rel [OF assms(1,3)] split_rel [OF assms(2,4)] .
qed (rule arg_cong)

lemma rel_path_not_dot:
  assumes "plain_path ns" "ns \<noteq> []"
  shows "rel_path ns \<noteq> ''.''"
proof
  assume "rel_path ns = ''.''"
  then have "ns = split_on CHR ''/'' ''.''" using split_rel [OF assms] by simp
  also have "\<dots> = [''.'']" by simp
  finally show False using assms(1) by (simp add: plain_name_def)
qed

text \<open>One entry of the walk.\<close>

lemma visit_entry:
  assumes "plain_path (dns @ ms)" "plain_name w"
  shows "Base (abs_path (dns @ ms @ [w])) = w"
    and "Rel (abs_path dns) (abs_path (dns @ ms @ [w])) = Some (rel_path (ms @ [w]))"
    and "Dir (rel_path (ms @ [w])) = (if ms = [] then ''.'' else rel_path ms)"
proof -
  have p: "plain_path dns" "plain_path ms" "plain_path (dns @ ms @ [w])" using assms by simp_all
  show "Base (abs_path (dns @ ms @ [w])) = w" using Base_abs_path [OF assms(2), of "dns @ ms"] by simp
  show "Rel (abs_path dns) (abs_path (dns @ ms @ [w])) = Some (rel_path (ms @ [w]))"
    using Rel_abs_path [OF plain_pathD [OF p(3)]] by simp
  show "Dir (rel_path (ms @ [w])) = (if ms = [] then ''.'' else rel_path ms)"
    by (rule Dir_rel_path [OF assms(2) plain_pathD [OF p(2)]])
qed

lemma index_opaque:
  assumes "good_walk fs dns visits" "plain_path (dns @ ks)" "ks \<noteq> []"
  shows "rel_path ks \<in> wi_opaqueDirectories (BuildWhiteoutIndex (abs_path dns) visits) \<longleftrightarrow> fs (abs_path (dns @ ks @ [''.wh..wh..opq'']))"
proof -
  have pd: "plain_path dns" and pk: "plain_path ks" using assms(2) by simp_all
  have nd: "rel_path ks \<noteq> ''.''" by (rule rel_path_not_dot [OF pk assms(3)])
  have root: "rel_path ks \<notin> visit_opaque (abs_path dns) (abs_path dns, False)"
  proof -
    have "Rel (abs_path dns) (abs_path dns) = Some ''.''" using Rel_abs_path [of dns "[]"] plain_pathD [OF pd] by simp
    moreover have "Dir ''.'' = ''.''" by (simp add: Dir_def upto_last_slash_def Clean_empty)
    ultimately show ?thesis using nd by (simp add: visit_opaque_def)
  qed
  have ent: "rel_path ks \<in> visit_opaque (abs_path dns) (abs_path (dns @ segs), False) \<longleftrightarrow> segs = ks @ [''.wh..wh..opq'']"
    if segs: "plain_path segs" "segs \<noteq> []" for segs
  proof -
    obtain ms w where w: "segs = ms @ [w]" using segs(2) by (metis append_butlast_last_id)
    then have p: "plain_path ms" "plain_name w" using segs(1) by simp_all
    have dm: "plain_path (dns @ ms)" using pd p(1) by simp
    have "rel_path ks = (if ms = [] then ''.'' else rel_path ms) \<longleftrightarrow> ks = ms"
      using nd rel_path_inj [OF pk p(1) assms(3)] assms(3) by (cases "ms = []") simp_all
    then show ?thesis unfolding visit_opaque_def w fst_conv snd_conv visit_entry [OF dm p(2)] option.case by auto
  qed
  have "rel_path ks \<in> wi_opaqueDirectories (BuildWhiteoutIndex (abs_path dns) visits) \<longleftrightarrow>
      (\<exists>v \<in> set visits. rel_path ks \<in> visit_opaque (abs_path dns) v)"
    by (simp add: BuildWhiteoutIndex_def index_fold)
  also have "\<dots> \<longleftrightarrow> (\<exists>segs. plain_path segs \<and> segs \<noteq> [] \<and> fs (abs_path (dns @ segs))
      \<and> rel_path ks \<in> visit_opaque (abs_path dns) (abs_path (dns @ segs), False))"
    by (rule good_walk_ex [OF assms(1), where P = "\<lambda>v. rel_path ks \<in> visit_opaque (abs_path dns) v", OF root])
  also have "\<dots> \<longleftrightarrow> (\<exists>segs. plain_path segs \<and> segs \<noteq> [] \<and> fs (abs_path (dns @ segs)) \<and> segs = ks @ [''.wh..wh..opq''])"
    using ent by blast
  also have "\<dots> \<longleftrightarrow> fs (abs_path (dns @ ks @ [''.wh..wh..opq'']))" using pk by simp
  finally show ?thesis .
qed

lemma HasPrefix_same: "HasPrefix (p @ s) (p @ t) \<longleftrightarrow> HasPrefix s t"
  by (simp add: HasPrefix_def)

lemma index_file:
  assumes "good_walk fs dns visits" "plain_path (dns @ ds)" "plain_name n" "\<not> HasPrefix n ''.wh.''"
    and "\<not> HasPrefix (Base (abs_path dns)) ''.wh.''"
  shows "rel_path (ds @ [n]) \<in> wi_fileWhiteouts (BuildWhiteoutIndex (abs_path dns) visits) \<longleftrightarrow> fs (abs_path (dns @ ds @ [''.wh.'' @ n]))"
proof -
  have pd: "plain_path dns" and pk: "plain_path ds" using assms(2) by simp_all
  have root: "rel_path (ds @ [n]) \<notin> visit_file (abs_path dns) (abs_path dns, False)"
    using assms(5) by (simp add: visit_file_def split: option.split)
  have pn: "plain_path (ds @ [n])" using pk assms(3) by simp
  have sn: "split_on CHR ''/'' (rel_path (ds @ [n])) = ds @ [n]" by (rule split_rel [OF pn]) simp
  have ent: "rel_path (ds @ [n]) \<in> visit_file (abs_path dns) (abs_path (dns @ segs), False) \<longleftrightarrow> segs = ds @ [''.wh.'' @ n]"
    if segs: "plain_path segs" "segs \<noteq> []" for segs
  proof -
    obtain ms w where w: "segs = ms @ [w]" using segs(2) by (metis append_butlast_last_id)
    then have p: "plain_path ms" "plain_name w" using segs(1) by simp_all
    have dm: "plain_path (dns @ ms)" using pd p(1) by simp
    have dot: "(if ms = [] then ''.'' else rel_path ms) = ''.'' \<longleftrightarrow> ms = []"
      using rel_path_not_dot [OF p(1)] by (cases "ms = []") simp_all
    have path: "rel_path (ds @ [n]) = (if ms = [] then t else rel_path ms @ ''/'' @ t) \<longleftrightarrow> ms = ds \<and> t = n"
      if t: "CHR ''/'' \<notin> set t" for t
    proof
      assume eq: "rel_path (ds @ [n]) = (if ms = [] then t else rel_path ms @ ''/'' @ t)"
      have "split_on CHR ''/'' (if ms = [] then t else rel_path ms @ ''/'' @ t) = ms @ [t]"
      proof (cases "ms = []")
        case False
        have "split_on CHR ''/'' (rel_path ms @ CHR ''/'' # t) = split_on CHR ''/'' (rel_path ms) @ split_on CHR ''/'' t"
          by (rule split_on_append)
        then show ?thesis using False split_rel [OF p(1) False] split_on_no_sep [OF t] by simp
      qed (use split_on_no_sep [OF t] in simp)
      with eq sn show "ms = ds \<and> t = n" by simp
    next
      assume "ms = ds \<and> t = n"
      then show "rel_path (ds @ [n]) = (if ms = [] then t else rel_path ms @ ''/'' @ t)" by (simp only: rel_path_snoc)
    qed
    show ?thesis
    proof (cases "HasPrefix w ''.wh.''")
      case False
      then have "w \<noteq> ''.wh.'' @ n" by (metis HasPrefix_append)
      then show ?thesis using False unfolding visit_file_def w fst_conv snd_conv visit_entry [OF dm p(2)] by simp
    next
      case True
      then obtain t where t: "w = ''.wh.'' @ t" unfolding HasPrefix_iff by blast
      have ct: "CHR ''/'' \<notin> set t" using p(2) by (simp add: t plain_name_def)
      have opq: "w = ''.wh..wh..opq'' \<longleftrightarrow> t = ''.wh..opq''" by (simp add: t)
      have meta: "HasPrefix w ''.wh..wh.'' \<longleftrightarrow> HasPrefix t ''.wh.''"
        using HasPrefix_same [of "''.wh.''" t "''.wh.''"] by (simp add: t)
      have "t = ''.wh..opq'' \<Longrightarrow> HasPrefix t ''.wh.''" by (simp add: HasPrefix_def)
      then have "rel_path (ds @ [n]) \<in> visit_file (abs_path dns) (abs_path (dns @ segs), False) \<longleftrightarrow>
          \<not> HasPrefix t ''.wh.'' \<and> rel_path (ds @ [n]) = (if ms = [] then t else rel_path ms @ ''/'' @ t)"
        unfolding visit_file_def w fst_conv snd_conv visit_entry [OF dm p(2)] option.case dot opq meta
        using True TrimPrefix_append [of "''.wh.''" t] unfolding t by (cases "ms = []") simp_all
      then show ?thesis unfolding path [OF ct] using assms(4) by (auto simp: w t)
    qed
  qed
  have "rel_path (ds @ [n]) \<in> wi_fileWhiteouts (BuildWhiteoutIndex (abs_path dns) visits) \<longleftrightarrow>
      (\<exists>v \<in> set visits. rel_path (ds @ [n]) \<in> visit_file (abs_path dns) v)"
    by (simp add: BuildWhiteoutIndex_def index_fold)
  also have "\<dots> \<longleftrightarrow> (\<exists>segs. plain_path segs \<and> segs \<noteq> [] \<and> fs (abs_path (dns @ segs))
      \<and> rel_path (ds @ [n]) \<in> visit_file (abs_path dns) (abs_path (dns @ segs), False))"
    by (rule good_walk_ex [OF assms(1), where P = "\<lambda>v. rel_path (ds @ [n]) \<in> visit_file (abs_path dns) v", OF root])
  also have "\<dots> \<longleftrightarrow> (\<exists>segs. plain_path segs \<and> segs \<noteq> [] \<and> fs (abs_path (dns @ segs)) \<and> segs = ds @ [''.wh.'' @ n])"
    using ent by blast
  also have "\<dots> \<longleftrightarrow> fs (abs_path (dns @ ds @ [''.wh.'' @ n]))" using pk plain_wh [OF assms(3)] by simp
  finally show ?thesis .
qed

text \<open>
  On a faithful walk the index answers for every plain path what the resolver's own checks of the
  same layer answer: whether the layer masks the path. (Names that themselves begin with \<open>.wh.\<close> are
  left out: their whiteouts are the metadata names the index skips.)
\<close>

theorem WhiteoutIndex_agrees:
  fixes i :: layer_info
  assumes "li_DiffPath i = abs_path dns" "plain_path (dns @ ds)" "plain_name n" "good_walk fs dns visits"
    and "\<not> HasPrefix n ''.wh.''" "\<not> HasPrefix (Base (abs_path dns)) ''.wh.''"
  shows "IsMasked (BuildWhiteoutIndex (abs_path dns) visits) (rel_path (ds @ [n])) \<longleftrightarrow>
    hasFileWhiteout fs (li_DiffPath i) (rel_path (ds @ [n])) \<or> ancestorIsOpaque fs (li_DiffPath i) (rel_path (ds @ [n]))"
proof -
  let ?segs = "ds @ [n]" and ?idx = "BuildWhiteoutIndex (abs_path dns) visits"
  have pd: "plain_path dns" and pk: "plain_path ds" using assms(2) by simp_all
  have ps: "plain_path (dns @ ?segs)" "plain_path ?segs" using pd pk assms(3) by simp_all
  have "rel_path ?segs \<in> wi_fileWhiteouts ?idx \<longleftrightarrow> hasFileWhiteout fs (li_DiffPath i) (rel_path ?segs)"
  proof -
    have p: "plain_path (dns @ ds @ [''.wh.'' @ n])" using pd pk plain_wh [OF assms(3)] by simp
    show ?thesis
      unfolding index_file [OF assms(4,2,3,5,6)] hasFileWhiteout_entry [OF assms(1-3)]
      using entry_abs [OF assms(1) p, of fs] by blast
  qed
  moreover have "(\<exists>k \<in> {1 ..< length ?segs}. join_with ''/'' (take k ?segs) \<in> wi_opaqueDirectories ?idx)
      \<longleftrightarrow> ancestorIsOpaque fs (li_DiffPath i) (rel_path ?segs)"
    unfolding ancestorIsOpaque_entry [OF assms(1) ps(1) snoc_eq_iff_butlast [THEN iffD1, THEN conjunct1, OF refl]]
  proof (rule bex_cong [OF refl])
    fix k assume k: "k \<in> {1 ..< length ?segs}"
    have t: "plain_path (dns @ take k ?segs)" "take k ?segs \<noteq> []" using pd plain_path_take [OF ps(2), of k] k by auto
    have p: "plain_path (dns @ take k ?segs @ [''.wh..wh..opq''])" using t(1) by simp
    show "join_with ''/'' (take k ?segs) \<in> wi_opaqueDirectories ?idx \<longleftrightarrow> entry fs i (take k ?segs @ [''.wh..wh..opq''])"
      using index_opaque [OF assms(4) t] entry_abs [OF assms(1) p] by (simp only: rel_path_def append_is_Nil_conv) simp
  qed
  ultimately show ?thesis
    unfolding IsMasked_def Let_def split_rel [OF ps(2) snoc_eq_iff_butlast [THEN iffD1, THEN conjunct1, OF refl]]
    by (simp only: set_upt)
qed

section \<open>The resolvers and the image specification\<close>

text \<open>The markers that the checks of one layer see, by path elements.\<close>

definition own_marker :: "file_system \<Rightarrow> layer_info \<Rightarrow> string list \<Rightarrow> string \<Rightarrow> bool" where
  "own_marker fs i ds n \<longleftrightarrow> entry fs i (ds @ [''.wh..wh..opq'']) \<or> entry fs i (ds @ [''.wh.'' @ n])"

lemma own_marker_hides: "own_marker fs i ds n \<Longrightarrow> hides fs i (ds @ [n])"
  unfolding own_marker_def hides_def by (intro exI [of _ "length ds"]) auto

text \<open>
  Layers whose markers sit where the resolvers look for them: a marker that hides the path is in the
  path's own directory, not at the root of the layer, and never beside a file the layer brings.
\<close>

definition simple_layer :: "file_system \<Rightarrow> layer_info \<Rightarrow> string list \<Rightarrow> string \<Rightarrow> bool" where
  "simple_layer fs i ds n \<longleftrightarrow> (entry fs i (ds @ [n]) \<longrightarrow> \<not> hides fs i (ds @ [n]))
     \<and> (hides fs i (ds @ [n]) \<longrightarrow> own_marker fs i ds n) \<and> (ds = [] \<longrightarrow> \<not> entry fs i [''.wh..wh..opq''])
     \<and> (\<exists>dns. plain_path dns \<and> li_DiffPath i = abs_path dns)"

definition oci_masks :: "file_system \<Rightarrow> layer_info \<Rightarrow> string \<Rightarrow> bool" where
  "oci_masks fs i p \<longleftrightarrow> hasFileWhiteout fs (li_DiffPath i) p \<or> ancestorIsOpaque fs (li_DiffPath i) p"

lemma oci_masks_entries:
  assumes "plain_path dns" "li_DiffPath i = abs_path dns" "plain_path ds" "plain_name n"
  shows "oci_masks fs i (rel_path (ds @ [n])) \<longleftrightarrow> entry fs i (ds @ [''.wh.'' @ n])
    \<or> (\<exists>k \<in> {1 ..< length (ds @ [n])}. entry fs i (take k (ds @ [n]) @ [''.wh..wh..opq'']))"
proof -
  have "plain_path (dns @ ds)" "plain_path (dns @ ds @ [n])" using assms by simp_all
  then show ?thesis
    unfolding oci_masks_def using hasFileWhiteout_entry [OF assms(2) _ assms(4), of ds] ancestorIsOpaque_entry [OF assms(2), of "ds @ [n]"] by simp
qed

lemma oci_masks_hides:
  assumes "plain_path dns" "li_DiffPath i = abs_path dns" "plain_path ds" "plain_name n" "oci_masks fs i (rel_path (ds @ [n]))"
  shows "hides fs i (ds @ [n])"
proof -
  consider "entry fs i (ds @ [''.wh.'' @ n])" | k where "k < length (ds @ [n])" "entry fs i (take k (ds @ [n]) @ [''.wh..wh..opq''])"
    using assms(5) unfolding oci_masks_entries [OF assms(1-4)] by auto
  then show ?thesis
  proof cases
    case 1
    then show ?thesis unfolding hides_def by (intro exI [of _ "length ds"]) simp
  next
    case 2
    then show ?thesis unfolding hides_def by blast
  qed
qed

text \<open>The loop of the OCI resolver, without its early returns.\<close>

lemma oci_loop_find:
  assumes "\<forall>j < length ls. ctx (k + j) = None"
  shows "oci_loop fs reg ctx k ls p =
    (case find (\<lambda>l. \<exists>i. reg l = Some i \<and> (oci_masks fs i p \<or> fs (filepath_Join [li_DiffPath i, p]))) ls of
       None \<Rightarrow> Inl (Sentinel Err_LayerNotFound)
     | Some l \<Rightarrow> (if \<exists>i. reg l = Some i \<and> oci_masks fs i p then Inl (Sentinel Err_Whiteout) else Inr l))"
  using assms
proof (induction ls arbitrary: k)
  case (Cons l ls)
  have c: "ctx k = None" "\<forall>j < length ls. ctx (Suc k + j) = None"
    using Cons.prems [rule_format, of 0] Cons.prems [rule_format, of "Suc _"] by simp_all
  show ?case
  proof (cases "reg l")
    case None
    then show ?thesis using Cons.IH [OF c(2)] c(1) by (simp add: reg_Get_def)
  next
    case (Some i)
    then show ?thesis using Cons.IH [OF c(2)] c(1) by (simp add: reg_Get_def oci_masks_def)
  qed
qed simp

lemma find_cong_set: "(\<And>x. x \<in> set xs \<Longrightarrow> P x = Q x) \<Longrightarrow> find P xs = find Q xs"
  by (induction xs) auto

lemma case_find_cong:
  assumes "\<And>x. x \<in> set xs \<Longrightarrow> P x = Q x" "\<And>x. x \<in> set xs \<Longrightarrow> Q x \<Longrightarrow> f x = g x"
  shows "(case find P xs of None \<Rightarrow> d | Some x \<Rightarrow> f x) = (case find Q xs of None \<Rightarrow> d | Some x \<Rightarrow> g x)"
proof -
  have eq: "find P xs = find Q xs" using assms(1) by (rule find_cong_set)
  have "f x = g x" if "find Q xs = Some x" for x using assms(2) that by (auto simp: find_Some_iff)
  then show ?thesis unfolding eq by (cases "find Q xs") simp_all
qed

text \<open>
  C33: when all layers of a stack keep their markers where the resolvers look, both resolvers, whatever
  they memorised before, name the owner the image specification names.
\<close>

theorem FindOwnerLayer_overlay_semantics:
  assumes "\<forall>j < length stack. ctx j = None" "plain_path ds" "plain_name n"
    and "\<forall>l \<in> set stack. \<forall>i. reg l = Some i \<longrightarrow> simple_layer fs i ds n"
  shows "fst (or_FindOwnerLayer fs ctx stack (rel_path (ds @ [n])) (or_calls fs cs (NewOverlayResolver reg c))) = oci_owner fs reg stack (ds @ [n])
    \<and> fst (oci_FindOwnerLayer fs ctx stack (rel_path (ds @ [n])) (NewOCICompliantResolver reg c)) = oci_owner fs reg stack (ds @ [n])"
proof
  let ?p = "rel_path (ds @ [n])"
  have st: "fsStat fs i ?p = (if own_marker fs i ds n then StatWhiteout else if entry fs i (ds @ [n]) then StatPresent else StatAbsent)" for i
    using fsStat_entries [OF plain_pathD [OF assms(2)] assms(3)] by (simp add: own_marker_def)
  have simple: "simple_layer fs i ds n" if "l \<in> set (rev stack)" "reg l = Some i" for l i using assms(4) that by simp
  have "fst (or_FindOwnerLayer fs ctx stack ?p (or_calls fs cs (NewOverlayResolver reg c))) = owner_spec fs reg stack ?p"
    using FindOwnerLayer_memo [OF assms(1)] by blast
  also have "\<dots> = oci_owner fs reg stack (ds @ [n])"
    unfolding owner_spec_def oci_owner_def
  proof (rule case_find_cong)
    fix l assume l: "l \<in> set (rev stack)"
    show "settles fs reg ?p l = (\<exists>i. reg l = Some i \<and> (entry fs i (ds @ [n]) \<or> hides fs i (ds @ [n])))"
      unfolding settles_def st using simple [OF l] own_marker_hides by (auto simp: simple_layer_def split: if_splits)
    show "(if \<exists>i. reg l = Some i \<and> fsStat fs i ?p = StatPresent then Inr l else Inl (Sentinel Err_Whiteout))
        = (if \<exists>i. reg l = Some i \<and> entry fs i (ds @ [n]) then Inr l else Inl (Sentinel Err_Whiteout))"
      unfolding st using simple [OF l] own_marker_hides by (auto simp: simple_layer_def)
  qed
  finally show "fst (or_FindOwnerLayer fs ctx stack ?p (or_calls fs cs (NewOverlayResolver reg c))) = oci_owner fs reg stack (ds @ [n])" .
  have masks: "oci_masks fs i ?p \<longleftrightarrow> hides fs i (ds @ [n])" if "l \<in> set (rev stack)" "reg l = Some i" for l i
  proof -
    have s: "simple_layer fs i ds n" by (rule simple [OF that])
    then obtain dns where dns: "plain_path dns" "li_DiffPath i = abs_path dns" unfolding simple_layer_def by blast
    show ?thesis
    proof
      show "oci_masks fs i ?p \<Longrightarrow> hides fs i (ds @ [n])" by (rule oci_masks_hides [OF dns assms(2,3)])
      assume "hides fs i (ds @ [n])"
      then have m: "own_marker fs i ds n" and r: "ds = [] \<longrightarrow> \<not> entry fs i [''.wh..wh..opq'']" using s by (auto simp: simple_layer_def)
      show "oci_masks fs i ?p"
      proof (cases "entry fs i (ds @ [''.wh.'' @ n])")
        case False
        then have o: "entry fs i (ds @ [''.wh..wh..opq''])" using m by (simp add: own_marker_def)
        with r have "ds \<noteq> []" by auto
        then have "length ds \<in> {1 ..< length (ds @ [n])}" by (cases ds) simp_all
        moreover have "entry fs i (take (length ds) (ds @ [n]) @ [''.wh..wh..opq''])" using o by simp
        ultimately show ?thesis unfolding oci_masks_entries [OF dns assms(2,3)] by blast
      qed (simp add: oci_masks_entries [OF dns assms(2,3)])
    qed
  qed
  have cand: "fs (filepath_Join [li_DiffPath i, ?p]) = entry fs i (ds @ [n])" for i by (simp add: entry_def)
  have ctx: "\<forall>j < length (rev stack). ctx (0 + j) = None" using assms(1) by simp
  have "fst (oci_FindOwnerLayer fs ctx stack ?p (NewOCICompliantResolver reg c)) = oci_loop fs reg ctx 0 (rev stack) ?p"
    by (simp add: oci_FindOwnerLayer_def NewOCICompliantResolver_def NewOverlayResolver_def)
  also have "\<dots> = oci_owner fs reg stack (ds @ [n])"
    unfolding oci_loop_find [OF ctx] oci_owner_def cand
  proof (rule case_find_cong)
    fix l assume l: "l \<in> set (rev stack)"
    show "(\<exists>i. reg l = Some i \<and> (oci_masks fs i ?p \<or> entry fs i (ds @ [n]))) = (\<exists>i. reg l = Some i \<and> (entry fs i (ds @ [n]) \<or> hides fs i (ds @ [n])))"
      using masks [OF l] by auto
  next
    fix l assume l: "l \<in> set (rev stack)" and q: "\<exists>i. reg l = Some i \<and> (entry fs i (ds @ [n]) \<or> hides fs i (ds @ [n]))"
    then obtain i where i: "reg l = Some i" "entry fs i (ds @ [n]) \<or> hides fs i (ds @ [n])" by blast
    show "(if \<exists>i. reg l = Some i \<and> oci_masks fs i ?p then Inl (Sentinel Err_Whiteout) else Inr l)
        = (if \<exists>i. reg l = Some i \<and> entry fs i (ds @ [n]) then Inr l else Inl (Sentinel Err_Whiteout))"
      using i masks [OF l i(1)] simple [OF l i(1)] by (auto simp: simple_layer_def)
  qed
  finally show "fst (oci_FindOwnerLayer fs ctx stack ?p (NewOCICompliantResolver reg c)) = oci_owner fs reg stack (ds @ [n])" .
qed

text \<open>
  An opaque marker hides what lower layers have in its directory; \<open>OverlayResolver\<close> takes it to
  hide the layer's own files too. A file that a layer brings in a directory it marks opaque is
  reported deleted, although the layer owns it.
\<close>

theorem opaque_marker_hides_own_files:
  assumes "\<forall>j \<le> length st. ctx j = None" "plain_path ds" "plain_name n" "reg l = Some i"
    and "entry fs i (ds @ [n])" "entry fs i (ds @ [''.wh..wh..opq''])"
  shows "oci_owner fs reg (st @ [l]) (ds @ [n]) = Inr l
    \<and> fst (or_FindOwnerLayer fs ctx (st @ [l]) (rel_path (ds @ [n])) (or_calls fs cs (NewOverlayResolver reg c))) = Inl (Sentinel Err_Whiteout)"
proof
  have "fsStat fs i (rel_path (ds @ [n])) = StatWhiteout"
    using fsStat_entries [OF plain_pathD [OF assms(2)] assms(3), of fs i] assms(6) by simp
  then have "owner_spec fs reg (st @ [l]) (rel_path (ds @ [n])) = Inl (Sentinel Err_Whiteout)"
    using assms(4) by (simp add: owner_spec_def settles_def)
  then show "fst (or_FindOwnerLayer fs ctx (st @ [l]) (rel_path (ds @ [n])) (or_calls fs cs (NewOverlayResolver reg c))) = Inl (Sentinel Err_Whiteout)"
    using FindOwnerLayer_memo(1) [of "st @ [l]" ctx fs "rel_path (ds @ [n])" cs reg c] assms(1) by simp
  show "oci_owner fs reg (st @ [l]) (ds @ [n]) = Inr l" using assms(4,5) by (simp add: oci_owner_def)
qed

text \<open>
  The whiteout of a directory hides everything below it; the resolvers only look for the whiteout of
  the path itself. A file of a lower layer is reported although an upper layer deleted its directory.
\<close>

theorem directory_whiteout_ignored:
  assumes "\<forall>j \<le> Suc (length st). ctx j = None" "plain_path ds" "plain_name n" "reg u = Some i" "reg l = Some i'"
    and "k < length ds" "entry fs i (take k ds @ [''.wh.'' @ ds ! k])" "\<not> entry fs i (ds @ [n])" "\<not> own_marker fs i ds n"
    and "entry fs i' (ds @ [n])" "\<not> own_marker fs i' ds n"
  shows "oci_owner fs reg (st @ [l, u]) (ds @ [n]) = Inl (Sentinel Err_Whiteout)
    \<and> fst (or_FindOwnerLayer fs ctx (st @ [l, u]) (rel_path (ds @ [n])) (or_calls fs cs (NewOverlayResolver reg c))) = Inr l"
proof
  have "fsStat fs i (rel_path (ds @ [n])) = StatAbsent" "fsStat fs i' (rel_path (ds @ [n])) = StatPresent"
    using fsStat_entries [OF plain_pathD [OF assms(2)] assms(3), of fs] assms(8-11) by (auto simp: own_marker_def)
  then have "owner_spec fs reg (st @ [l, u]) (rel_path (ds @ [n])) = Inr l"
    using assms(4,5) by (simp add: owner_spec_def settles_def)
  then show "fst (or_FindOwnerLayer fs ctx (st @ [l, u]) (rel_path (ds @ [n])) (or_calls fs cs (NewOverlayResolver reg c))) = Inr l"
    using FindOwnerLayer_memo(1) [of "st @ [l, u]" ctx fs "rel_path (ds @ [n])" cs reg c] assms(1) by (simp add: less_Suc_eq_le)
  have "hides fs i (ds @ [n])"
    unfolding hides_def using assms(6,7) by (intro exI [of _ k]) (simp add: nth_append)
  then show "oci_owner fs reg (st @ [l, u]) (ds @ [n]) = Inl (Sentinel Err_Whiteout)"
    using assms(4,8) by (simp add: oci_owner_def)
qed

section \<open>Witnesses\<close>

definition example_layer :: "lm_layer \<Rightarrow> layer_info" where
  "example_layer l = \<lparr>li_ID = l, li_DiffPath = abs_path [l], li_ChainID = '''', li_Labels = Map.empty\<rparr>"

definition example_registry :: layer_registry where
  "example_registry = [''a'' \<mapsto> example_layer ''a'', ''b'' \<mapsto> example_layer ''b'']"

definition example_fs :: "string list list \<Rightarrow> file_system" where
  "example_fs paths p \<longleftrightarrow> p \<in> abs_path ` set paths"

lemma example_entry:
  assumes "\<forall>ns \<in> set paths. plain_path ns" "plain_name l" "plain_path segs" "segs \<noteq> []"
  shows "entry (example_fs paths) (example_layer l) segs \<longleftrightarrow> l # segs \<in> set paths"
proof -
  have p: "plain_path ([l] @ segs)" using assms(2,3) by simp
  have "entry (example_fs paths) (example_layer l) segs \<longleftrightarrow> (\<exists>ns \<in> set paths. abs_path (l # segs) = abs_path ns)"
    using entry_abs [of "example_layer l" "[l]" segs "example_fs paths", OF _ p assms(4)]
    by (simp add: example_layer_def example_fs_def image_iff)
  also have "\<dots> \<longleftrightarrow> l # segs \<in> set paths"
  proof
    assume "\<exists>ns \<in> set paths. abs_path (l # segs) = abs_path ns"
    then obtain ns where ns: "ns \<in> set paths" "abs_path (l # segs) = abs_path ns" by blast
    have "l # segs = ns" using abs_path_inj [of "l # segs" ns] plain_pathD [of "(l # segs) @ ns"] assms(1) ns p by simp
    then show "l # segs \<in> set paths" using ns(1) by simp
  qed blast
  finally show ?thesis .
qed

lemma example_names [simp]:
  "plain_name ''a''" "plain_name ''b''" "plain_name ''etc''" "plain_name ''passwd''" "plain_name ''.wh.etc''" "plain_name ''.wh.passwd''"
  by (simp_all add: plain_name_def)

lemma example_registry_sel: "example_registry ''a'' = Some (example_layer ''a'')" "example_registry ''b'' = Some (example_layer ''b'')"
  by (simp_all add: example_registry_def)

theorem opaque_marker_hides_own_files_witness:
  "let fs = example_fs [[''a'', ''etc'', ''passwd''], [''a'', ''etc'', ''.wh..wh..opq'']] in
    oci_owner fs example_registry [''b'', ''a''] [''etc'', ''passwd''] = Inr ''a''
    \<and> fst (or_FindOwnerLayer fs (\<lambda>_. None) [''b'', ''a''] (rel_path [''etc'', ''passwd'']) (NewOverlayResolver example_registry 10))
      = Inl (Sentinel Err_Whiteout)"
proof -
  let ?ps = "[[''a'', ''etc'', ''passwd''], [''a'', ''etc'', ''.wh..wh..opq'']]"
  have "entry (example_fs ?ps) (example_layer ''a'') ([''etc''] @ [''passwd''])"
    "entry (example_fs ?ps) (example_layer ''a'') ([''etc''] @ [''.wh..wh..opq''])"
    by (subst example_entry; simp)+
  from opaque_marker_hides_own_files [where st = "[''b'']" and ctx = "\<lambda>_. None" and ds = "[''etc'']" and n = "''passwd''" and cs = "[]"
      and c = 10 and reg = example_registry and l = "''a''" and i = "example_layer ''a''" and fs = "example_fs ?ps",
      OF _ _ _ example_registry_sel(1) this]
  show ?thesis by (simp add: Let_def)
qed

theorem directory_whiteout_ignored_witness:
  "let fs = example_fs [[''a'', ''etc'', ''passwd''], [''b'', ''.wh.etc'']] in
    oci_owner fs example_registry [''a'', ''b''] [''etc'', ''passwd''] = Inl (Sentinel Err_Whiteout)
    \<and> fst (or_FindOwnerLayer fs (\<lambda>_. None) [''a'', ''b''] (rel_path [''etc'', ''passwd'']) (NewOverlayResolver example_registry 10)) = Inr ''a''"
proof -
  let ?ps = "[[''a'', ''etc'', ''passwd''], [''b'', ''.wh.etc'']]"
  let ?fs = "example_fs ?ps"
  have e: "entry ?fs (example_layer ''b'') [''.wh.etc'']" "\<not> entry ?fs (example_layer ''b'') ([''etc''] @ [''passwd''])"
    "entry ?fs (example_layer ''a'') ([''etc''] @ [''passwd''])"
    by (subst example_entry; simp)+
  have m: "\<not> own_marker ?fs (example_layer x) [''etc''] ''passwd''" if "plain_name x" for x
    unfolding own_marker_def by (subst (1 2) example_entry) (use that in simp_all)
  show ?thesis
    using directory_whiteout_ignored [where st = "[]" and ctx = "\<lambda>_. None" and ds = "[''etc'']" and n = "''passwd''"
        and reg = example_registry and u = "''b''" and l = "''a''" and i = "example_layer ''b''" and i' = "example_layer ''a''" and k = 0
        and fs = ?fs and cs = "[]" and c = 10] e m
    by (simp add: Let_def example_registry_sel)
qed

theorem FindOwnerLayer_overlay_semantics_witness:
  "let fs = example_fs [[''a'', ''etc'', ''passwd''], [''b'', ''etc'', ''.wh.passwd'']]; p = rel_path [''etc'', ''passwd''] in
    fst (or_FindOwnerLayer fs (\<lambda>_. None) [''a'', ''b''] p (NewOverlayResolver example_registry 10)) = oci_owner fs example_registry [''a'', ''b''] [''etc'', ''passwd'']
    \<and> fst (oci_FindOwnerLayer fs (\<lambda>_. None) [''a'', ''b''] p (NewOCICompliantResolver example_registry 10))
      = oci_owner fs example_registry [''a'', ''b''] [''etc'', ''passwd'']"
proof -
  let ?ps = "[[''a'', ''etc'', ''passwd''], [''b'', ''etc'', ''.wh.passwd'']]"
  let ?fs = "example_fs ?ps"
  have h: "hides ?fs (example_layer x) [''etc'', ''passwd''] \<longleftrightarrow> x = ''b''"
    and o: "own_marker ?fs (example_layer x) [''etc''] ''passwd'' \<longleftrightarrow> x = ''b''"
    and e: "entry ?fs (example_layer x) [''etc'', ''passwd''] \<longleftrightarrow> x = ''a''" if x: "plain_name x" for x
  proof -
    have ent: "entry ?fs (example_layer x) segs \<longleftrightarrow> x # segs \<in> set ?ps" if "plain_path segs" "segs \<noteq> []" for segs
      by (rule example_entry) (use x that in simp_all)
    have two: "(\<exists>k < length [''etc'', ''passwd'']. P k) \<longleftrightarrow> P 0 \<or> P (Suc 0)" for P
      by (simp add: less_Suc_eq) blast
    show "hides ?fs (example_layer x) [''etc'', ''passwd''] \<longleftrightarrow> x = ''b''"
      unfolding hides_def two by (simp add: ent)
    show "own_marker ?fs (example_layer x) [''etc''] ''passwd'' \<longleftrightarrow> x = ''b''" by (simp add: own_marker_def ent)
    show "entry ?fs (example_layer x) [''etc'', ''passwd''] \<longleftrightarrow> x = ''a''" by (simp add: ent)
  qed
  have "simple_layer ?fs (example_layer x) [''etc''] ''passwd''" if "x \<in> set [''a'', ''b'']" for x
  proof -
    have "\<exists>dns. plain_path dns \<and> li_DiffPath (example_layer x) = abs_path dns"
      by (rule exI [of _ "[x]"]) (use that in \<open>auto simp: example_layer_def\<close>)
    then show ?thesis using that h [of x] o [of x] e [of x] by (auto simp: simple_layer_def)
  qed
  then show ?thesis
    using FindOwnerLayer_overlay_semantics [of "[''a'', ''b'']" "\<lambda>_. None" "[''etc'']" "''passwd''" example_registry ?fs "[]" 10]
    by (simp add: Let_def example_registry_sel)
qed

theorem WhiteoutIndex_agrees_witness:
  "IsMasked (BuildWhiteoutIndex (abs_path [''a'']) [(abs_path [''a''], False), (abs_path [''a'', ''etc'', ''.wh.passwd''], False)])
      (rel_path [''etc'', ''passwd''])
   \<longleftrightarrow> hasFileWhiteout (example_fs [[''a'', ''etc'', ''.wh.passwd'']]) (abs_path [''a'']) (rel_path [''etc'', ''passwd''])
     \<or> ancestorIsOpaque (example_fs [[''a'', ''etc'', ''.wh.passwd'']]) (abs_path [''a'']) (rel_path [''etc'', ''passwd''])"
proof -
  let ?fs = "example_fs [[''a'', ''etc'', ''.wh.passwd'']]"
  let ?vs = "[(abs_path [''a''], False), (abs_path [''a'', ''etc'', ''.wh.passwd''], False)]"
  have fs: "?fs (abs_path ([''a''] @ segs)) \<longleftrightarrow> segs = [''etc'', ''.wh.passwd'']" if "plain_path segs" for segs
    using abs_path_inj [of "''a'' # segs" "[''a'', ''etc'', ''.wh.passwd'']"] plain_pathD [OF that]
    by (simp add: example_fs_def)
  have "good_walk ?fs [''a''] ?vs"
    unfolding good_walk_def
  proof (intro allI iffI)
    fix v assume "v \<in> set ?vs"
    then consider "v = (abs_path [''a''], False)" | "v = (abs_path ([''a''] @ [''etc'', ''.wh.passwd'']), False)" by auto
    then show "v = (abs_path [''a''], False) \<or> (\<exists>segs. plain_path segs \<and> segs \<noteq> [] \<and> ?fs (abs_path ([''a''] @ segs)) \<and> v = (abs_path ([''a''] @ segs), False))"
    proof cases
      case 2
      then show ?thesis by (intro disjI2 exI [of _ "[''etc'', ''.wh.passwd'']"] conjI) (simp_all add: example_fs_def)
    qed simp
  next
    fix v assume "v = (abs_path [''a''], False) \<or> (\<exists>segs. plain_path segs \<and> segs \<noteq> [] \<and> ?fs (abs_path ([''a''] @ segs)) \<and> v = (abs_path ([''a''] @ segs), False))"
    then show "v \<in> set ?vs"
    proof
      assume "\<exists>segs. plain_path segs \<and> segs \<noteq> [] \<and> ?fs (abs_path ([''a''] @ segs)) \<and> v = (abs_path ([''a''] @ segs), False)"
      then obtain segs where s: "plain_path segs" "?fs (abs_path ([''a''] @ segs))" "v = (abs_path ([''a''] @ segs), False)" by blast
      then have "segs = [''etc'', ''.wh.passwd'']" using fs [OF s(1)] by simp
      with s(3) show ?thesis by simp
    qed simp
  qed
  moreover have "\<not> HasPrefix (Base (abs_path [''a''])) ''.wh.''" using Base_abs_path [of "''a''" "[]"] by (simp add: HasPrefix_def)
  ultimately show ?thesis
    using WhiteoutIndex_agrees [where i = "example_layer ''a''" and dns = "[''a'']" and ds = "[''etc'']" and n = "''passwd''" and fs = ?fs and visits = ?vs]
    by (simp add: example_layer_def HasPrefix_def)
qed

definition example_one :: layer_registry where
  "example_one = [''a'' \<mapsto> example_layer ''a'']"

lemma example_fsStat:
  assumes "\<forall>ns \<in> set paths. plain_path ns" "plain_name l"
  shows "fsStat (example_fs paths) (example_layer l) (rel_path [''etc'', ''passwd'']) =
    (if [l, ''etc'', ''.wh..wh..opq''] \<in> set paths \<or> [l, ''etc'', ''.wh.passwd''] \<in> set paths then StatWhiteout
     else if [l, ''etc'', ''passwd''] \<in> set paths then StatPresent else StatAbsent)"
  using fsStat_entries [of "[''etc'']" "''passwd''" "example_fs paths" "example_layer l"]
    example_entry [OF assms, of "[''etc'', ''.wh..wh..opq'']"] example_entry [OF assms, of "[''etc'', ''.wh.passwd'']"]
    example_entry [OF assms, of "[''etc'', ''passwd'']"] by simp

theorem FindOwnerLayer_memo_transparent_witness:
  "let fs = example_fs [[''a'', ''etc'', ''passwd'']]; p = rel_path [''etc'', ''passwd''];
       r = or_calls fs [(\<lambda>_. None, [''a''], p)] (NewOverlayResolver example_one 10);
       g = rr_calls fs [(\<lambda>_. None, [''a''], p)] (NewOverlayResolverWithRingCache example_one 1) in
    fst (or_FindOwnerLayer fs (\<lambda>_. None) [''a''] p r) = Inr ''a'' \<and> fst (rr_FindOwnerLayer fs (\<lambda>_. None) [''a''] p g) = Inr ''a''"
proof -
  have "owner_spec (example_fs [[''a'', ''etc'', ''passwd'']]) example_one [''a''] (rel_path [''etc'', ''passwd'']) = Inr ''a''"
    using example_fsStat [of "[[''a'', ''etc'', ''passwd'']]" "''a''"] by (simp add: owner_spec_def settles_def example_one_def)
  then show ?thesis
    using FindOwnerLayer_memo_transparent [where stack = "[''a'']" and ctx = "\<lambda>_. None" and fs = "example_fs [[''a'', ''etc'', ''passwd'']]"
        and cs = "[(\<lambda>_. None, [''a''], rel_path [''etc'', ''passwd''])]" and reg = example_one and n = 10 and m = 1
        and p = "rel_path [''etc'', ''passwd'']"]
    unfolding Let_def by simp
qed

theorem InvalidateLayer_refreshes_witness:
  "let fs = example_fs [[''a'', ''etc'', ''passwd'']]; p = rel_path [''etc'', ''passwd''] in
    fst (or_FindOwnerLayer (example_fs []) (\<lambda>_. None) [''a''] p
      (or_InvalidateLayer ''a'' (or_calls fs [(\<lambda>_. None, [''a''], p)] (NewOverlayResolver example_one 10)))) = Inl (Sentinel Err_LayerNotFound)"
proof -
  let ?fs = "example_fs [[''a'', ''etc'', ''passwd'']]" and ?p = "rel_path [''etc'', ''passwd'']"
  have "owner_spec (example_fs []) example_one [''a''] ?p = Inl (Sentinel Err_LayerNotFound)"
    using example_fsStat [of "[]" "''a''"] by (simp add: owner_spec_def settles_def example_one_def)
  moreover have "stat_spec (example_fs []) example_one l' q = stat_spec ?fs example_one l' q" if "l' \<noteq> ''a''" for l' q
    using that by (simp add: stat_spec_def example_one_def)
  ultimately show ?thesis
    using InvalidateLayer_refreshes [where stack = "[''a'']" and ctx = "\<lambda>_. None" and l = "''a''" and fs' = "example_fs []" and fs = ?fs
        and cs = "[(\<lambda>_. None, [''a''], ?p)]" and reg = example_one and n = 10 and p = ?p]
    unfolding Let_def by simp
qed

end
