(* ===== verification/Lm_Dedup.thy ===== *)
theory Lm_Dedup
  imports Lm_Hasher Lm_Merkle Lm_Whiteout
begin

text \<open>
  The deduplication engine and the vertex processor (\<open>deduplicator.go\<close>) with the engine hooks
  (\<open>hooks.go\<close>). The engine works on the three interfaces \<open>HashCache\<close>, \<open>FileHasher\<close> and
  \<open>LayerFileResolver\<close>; its state is the product of their states and of the hooks' own.

  \<open>now\<close> is the clock the cache reads; \<open>ctx\<close> and \<open>hctx\<close> are the request's context as the resolver
  and the hasher ask for its error. The hooks of the package ignore their context argument.
\<close>

section \<open>Hooks\<close>

record 'k engine_hook =
  eh_OnCacheHit :: "hash_request \<Rightarrow> hash_result \<Rightarrow> 'k \<Rightarrow> 'k"
  eh_OnHashStart :: "hash_request \<Rightarrow> 'k \<Rightarrow> 'k"
  eh_OnHashComplete :: "hash_request \<Rightarrow> lm_hash \<Rightarrow> 'k \<Rightarrow> 'k"
  eh_OnHashError :: "hash_request \<Rightarrow> lm_error \<Rightarrow> 'k \<Rightarrow> 'k"
  eh_OnEventDropped :: "lm_event \<Rightarrow> lm_error \<Rightarrow> 'k \<Rightarrow> 'k"
  eh_OnVertexFinalized :: "lm_tree \<Rightarrow> 'k \<Rightarrow> 'k"

definition NoopHook :: "'k engine_hook" where
  "NoopHook = \<lparr>eh_OnCacheHit = (\<lambda>_ _ k. k), eh_OnHashStart = (\<lambda>_ k. k), eh_OnHashComplete = (\<lambda>_ _ k. k),
     eh_OnHashError = (\<lambda>_ _ k. k), eh_OnEventDropped = (\<lambda>_ _ k. k), eh_OnVertexFinalized = (\<lambda>_ k. k)\<rparr>"

type_synonym 'k hook_chain = "'k engine_hook list"

definition NewHookChain :: "'k engine_hook list \<Rightarrow> 'k hook_chain" where
  "NewHookChain hooks = hooks"

definition hk_Add :: "'k engine_hook \<Rightarrow> 'k hook_chain \<Rightarrow> 'k hook_chain" where
  "hk_Add h c = c @ [h]"

definition hk_OnCacheHit :: "'k hook_chain \<Rightarrow> hash_request \<Rightarrow> hash_result \<Rightarrow> 'k \<Rightarrow> 'k" where
  "hk_OnCacheHit c req r k = fold (\<lambda>h. eh_OnCacheHit h req r) c k"

definition hk_OnHashStart :: "'k hook_chain \<Rightarrow> hash_request \<Rightarrow> 'k \<Rightarrow> 'k" where
  "hk_OnHashStart c req k = fold (\<lambda>h. eh_OnHashStart h req) c k"

definition hk_OnHashComplete :: "'k hook_chain \<Rightarrow> hash_request \<Rightarrow> lm_hash \<Rightarrow> 'k \<Rightarrow> 'k" where
  "hk_OnHashComplete c req d k = fold (\<lambda>h. eh_OnHashComplete h req d) c k"

definition hk_OnHashError :: "'k hook_chain \<Rightarrow> hash_request \<Rightarrow> lm_error \<Rightarrow> 'k \<Rightarrow> 'k" where
  "hk_OnHashError c req err k = fold (\<lambda>h. eh_OnHashError h req err) c k"

definition hk_OnEventDropped :: "'k hook_chain \<Rightarrow> lm_event \<Rightarrow> lm_error \<Rightarrow> 'k \<Rightarrow> 'k" where
  "hk_OnEventDropped c ev reason k = fold (\<lambda>h. eh_OnEventDropped h ev reason) c k"

definition hk_OnVertexFinalized :: "'k hook_chain \<Rightarrow> lm_tree \<Rightarrow> 'k \<Rightarrow> 'k" where
  "hk_OnVertexFinalized c tree k = fold (\<lambda>h. eh_OnVertexFinalized h tree) c k"

record counting =
  ct_cacheHits :: int64
  ct_hashStarts :: int64
  ct_hashErrors :: int64
  ct_dropped :: int64
  ct_finalized :: int64

definition CountingHook :: "counting engine_hook" where
  "CountingHook =
     \<lparr>eh_OnCacheHit = (\<lambda>_ _ k. k\<lparr>ct_cacheHits := ct_cacheHits k + 1\<rparr>),
      eh_OnHashStart = (\<lambda>_ k. k\<lparr>ct_hashStarts := ct_hashStarts k + 1\<rparr>),
      eh_OnHashComplete = (\<lambda>_ _ k. k),
      eh_OnHashError = (\<lambda>_ _ k. k\<lparr>ct_hashErrors := ct_hashErrors k + 1\<rparr>),
      eh_OnEventDropped = (\<lambda>_ _ k. k\<lparr>ct_dropped := ct_dropped k + 1\<rparr>),
      eh_OnVertexFinalized = (\<lambda>_ k. k\<lparr>ct_finalized := ct_finalized k + 1\<rparr>)\<rparr>"

text \<open>\<open>Snapshot\<close> copies the five counters.\<close>

definition ct_Snapshot :: "counting \<Rightarrow> int64 \<times> int64 \<times> int64 \<times> int64 \<times> int64" where
  "ct_Snapshot h = (ct_cacheHits h, ct_hashStarts h, ct_hashErrors h, ct_dropped h, ct_finalized h)"

definition ct_Reset :: "counting \<Rightarrow> counting" where
  "ct_Reset h = \<lparr>ct_cacheHits = 0, ct_hashStarts = 0, ct_hashErrors = 0, ct_dropped = 0, ct_finalized = 0\<rparr>"

section \<open>DeduplicationEngine\<close>

record ('c, 'h, 'r, 'k) dedup_engine =
  de_cache :: "'c hash_cache"
  de_hasher :: "'h file_hasher"
  de_resolver :: "'r layer_resolver"
  de_hooks :: "'k hook_chain"

record ('c, 'h, 'r, 'k) dedup_state =
  ds_cache :: 'c
  ds_hasher :: 'h
  ds_resolver :: 'r
  ds_hooks :: 'k

text \<open>\<open>None\<close> is the \<open>nil\<close> hook chain.\<close>

definition NewDeduplicationEngine :: "'c hash_cache \<Rightarrow> 'h file_hasher \<Rightarrow> 'r layer_resolver \<Rightarrow> 'k hook_chain option \<Rightarrow> ('c, 'h, 'r, 'k) dedup_engine" where
  "NewDeduplicationEngine cache hasher resolver hooks =
     \<lparr>de_cache = cache, de_hasher = hasher, de_resolver = resolver,
      de_hooks = (case hooks of None \<Rightarrow> [] | Some c \<Rightarrow> c)\<rparr>"

definition singleflightKey :: "layer_stack \<Rightarrow> string \<Rightarrow> string" where
  "singleflightKey stack relPath = NewLayerStackKey stack @ [CHR 0x00] @ relPath"

text \<open>The slow path of \<open>resolve\<close>, after the owner's cache entry was missed.\<close>

definition dd_compute :: "('c, 'h, 'r, 'k) dedup_engine \<Rightarrow> int \<Rightarrow> lm_ctx \<Rightarrow> hash_request \<Rightarrow> lm_layer
    \<Rightarrow> ('c, 'h, 'r, 'k) dedup_state \<Rightarrow> (lm_error + hash_result) \<times> ('c, 'h, 'r, 'k) dedup_state" where
  "dd_compute E now hctx req ownerLayer s =
     (case rs_DiffAbsPath (de_resolver E) ownerLayer (hq_RelPath req) (ds_resolver s) of
        (Inl err, r) \<Rightarrow> (Inl (Wrapped [''diff abs path'', hq_RelPath req, ownerLayer] err), s\<lparr>ds_resolver := r\<rparr>)
      | (Inr absPath, r) \<Rightarrow>
          (let s1 = s\<lparr>ds_resolver := r, ds_hooks := hk_OnHashStart (de_hooks E) req (ds_hooks s)\<rparr> in
           case fh_Hash (de_hasher E) hctx absPath (ds_hasher s1) of
             (Inl err, h') \<Rightarrow>
               (Inl (Wrapped [''hash'', absPath] err),
                s1\<lparr>ds_hasher := h', ds_hooks := hk_OnHashError (de_hooks E) req err (ds_hooks s1)\<rparr>)
           | (Inr h, h') \<Rightarrow>
               (let c1 = hc_Set (de_cache E) now ownerLayer (hq_RelPath req) h (ds_cache s1);
                    topLayer = stack_Top (hq_LayerStack req);
                    c2 = (if topLayer \<noteq> ownerLayer then hc_Set (de_cache E) now topLayer (hq_RelPath req) h c1 else c1)
                in (Inr \<lparr>hr_VertexID = hq_VertexID req, hr_RelPath = hq_RelPath req, hr_Hash = h,
                         hr_OwnerLayerID = ownerLayer, hr_FromCache = False, hr_Err = None\<rparr>,
                    s1\<lparr>ds_hasher := h', ds_hooks := hk_OnHashComplete (de_hooks E) req h (ds_hooks s1), ds_cache := c2\<rparr>))))"

definition dd_resolve :: "('c, 'h, 'r, 'k) dedup_engine \<Rightarrow> int \<Rightarrow> lm_ctx \<Rightarrow> lm_ctx \<Rightarrow> hash_request
    \<Rightarrow> ('c, 'h, 'r, 'k) dedup_state \<Rightarrow> (lm_error + hash_result) \<times> ('c, 'h, 'r, 'k) dedup_state" where
  "dd_resolve E now ctx hctx req s =
     (case rs_FindOwnerLayer (de_resolver E) ctx (hq_LayerStack req) (hq_RelPath req) (ds_resolver s) of
        (Inl err, r) \<Rightarrow>
          (if errors_Is err Err_Whiteout then (Inl (Sentinel Err_Whiteout), s\<lparr>ds_resolver := r\<rparr>)
           else (Inl (Wrapped [''resolve owner for'', hq_RelPath req] err), s\<lparr>ds_resolver := r\<rparr>))
      | (Inr ownerLayer, r) \<Rightarrow>
          (case hc_Get (de_cache E) now ownerLayer (hq_RelPath req) (ds_cache s) of
             (Some h, c) \<Rightarrow>
               (let result = \<lparr>hr_VertexID = hq_VertexID req, hr_RelPath = hq_RelPath req, hr_Hash = h,
                              hr_OwnerLayerID = ownerLayer, hr_FromCache = True, hr_Err = None\<rparr>;
                    topLayer = stack_Top (hq_LayerStack req);
                    c1 = (if topLayer \<noteq> ownerLayer then hc_Set (de_cache E) now topLayer (hq_RelPath req) h c else c)
                in (Inr result, s\<lparr>ds_resolver := r, ds_cache := c1, ds_hooks := hk_OnCacheHit (de_hooks E) req result (ds_hooks s)\<rparr>))
           | (None, c) \<Rightarrow> dd_compute E now hctx req ownerLayer (s\<lparr>ds_resolver := r, ds_cache := c\<rparr>)))"

text \<open>
  \<open>inflight\<close> is the singleflight group at the moment of the call: for a key whose call is in
  flight, the outcome the caller waits for and receives; otherwise the caller runs \<open>resolve\<close>.
\<close>

definition dd_Resolve :: "('c, 'h, 'r, 'k) dedup_engine \<Rightarrow> (string \<Rightarrow> (lm_error + hash_result) option) \<Rightarrow> int \<Rightarrow> lm_ctx \<Rightarrow> lm_ctx
    \<Rightarrow> hash_request \<Rightarrow> ('c, 'h, 'r, 'k) dedup_state \<Rightarrow> hash_result \<times> ('c, 'h, 'r, 'k) dedup_state" where
  "dd_Resolve E inflight now ctx hctx req s =
     (if \<not> stack_Valid (hq_LayerStack req) then
        (\<lparr>hr_VertexID = hq_VertexID req, hr_RelPath = hq_RelPath req, hr_Hash = '''', hr_OwnerLayerID = '''', hr_FromCache = False,
          hr_Err = Some (Wrapped [''empty stack for'', hq_RelPath req] (Sentinel Err_InvalidLayerStack))\<rparr>, s)
      else (let topLayer = stack_Top (hq_LayerStack req) in
        case hc_Get (de_cache E) now topLayer (hq_RelPath req) (ds_cache s) of
          (Some h, c) \<Rightarrow>
            (let result = \<lparr>hr_VertexID = hq_VertexID req, hr_RelPath = hq_RelPath req, hr_Hash = h, hr_OwnerLayerID = topLayer,
                           hr_FromCache = True, hr_Err = None\<rparr>
             in (result, s\<lparr>ds_cache := c, ds_hooks := hk_OnCacheHit (de_hooks E) req result (ds_hooks s)\<rparr>))
        | (None, c) \<Rightarrow>
            (let sfKey = singleflightKey (hq_LayerStack req) (hq_RelPath req);
                 (v, s1) = (case inflight sfKey of
                    Some outcome \<Rightarrow> (outcome, s\<lparr>ds_cache := c\<rparr>)
                  | None \<Rightarrow> dd_resolve E now ctx hctx req (s\<lparr>ds_cache := c\<rparr>))
             in case v of
                  Inl err \<Rightarrow> (\<lparr>hr_VertexID = hq_VertexID req, hr_RelPath = hq_RelPath req, hr_Hash = '''', hr_OwnerLayerID = '''',
                                hr_FromCache = False, hr_Err = Some err\<rparr>, s1)
                | Inr r \<Rightarrow> (r, s1))))"

section \<open>VertexProcessor\<close>

text \<open>\<open>onTree\<close> acts on the hooks' state; the forest and the builders are the processor's.\<close>

record ('c, 'h, 'r, 'k) vertex_state =
  vp_dedup :: "('c, 'h, 'r, 'k) dedup_state"
  vp_forest :: lm_forest
  vp_builders :: "lm_vertex \<rightharpoonup> tree_builder"

definition NewVertexProcessor :: "('c, 'h, 'r, 'k) dedup_state \<Rightarrow> lm_forest \<Rightarrow> ('c, 'h, 'r, 'k) vertex_state" where
  "NewVertexProcessor d forest = \<lparr>vp_dedup = d, vp_forest = forest, vp_builders = Map.empty\<rparr>"

definition getOrCreateBuilder :: "lm_vertex \<Rightarrow> layer_stack \<Rightarrow> ('c, 'h, 'r, 'k) vertex_state \<Rightarrow> tree_builder \<times> ('c, 'h, 'r, 'k) vertex_state" where
  "getOrCreateBuilder vertexID stack vp =
     (case vp_builders vp vertexID of
        Some b \<Rightarrow> (b, vp)
      | None \<Rightarrow> (let b = NewMerkleTreeBuilder vertexID stack in (b, vp\<lparr>vp_builders := (vp_builders vp)(vertexID \<mapsto> b)\<rparr>)))"

definition vp_Process :: "('c, 'h, 'r, 'k) dedup_engine \<Rightarrow> (string \<Rightarrow> (lm_error + hash_result) option) \<Rightarrow> int \<Rightarrow> lm_ctx \<Rightarrow> lm_ctx
    \<Rightarrow> lm_event \<Rightarrow> ('c, 'h, 'r, 'k) vertex_state \<Rightarrow> hash_result \<times> ('c, 'h, 'r, 'k) vertex_state" where
  "vp_Process E inflight now ctx hctx ev vp =
     (let req = \<lparr>hq_VertexID = le_VertexID ev, hq_LayerStack = le_LayerStack ev, hq_RelPath = le_RelPath ev, hq_AbsPath = le_AbsPath ev\<rparr>;
          (result, d) = dd_Resolve E inflight now ctx hctx req (vp_dedup vp);
          vp1 = vp\<lparr>vp_dedup := d\<rparr>
      in if hr_Err result \<noteq> None then (result, vp1)
         else (let (b, vp2) = getOrCreateBuilder (le_VertexID ev) (le_LayerStack ev) vp1
               in (result, vp2\<lparr>vp_builders := (vp_builders vp2)(le_VertexID ev \<mapsto> tb_Add result b)\<rparr>)))"

definition vp_FinalizeVertex :: "(bytes \<Rightarrow> bytes) \<Rightarrow> (merkle_leaf list \<Rightarrow> merkle_leaf list) \<Rightarrow> (lm_tree \<Rightarrow> 'k \<Rightarrow> 'k) option \<Rightarrow> int
    \<Rightarrow> lm_vertex \<Rightarrow> ('c, 'h, 'r, 'k) vertex_state \<Rightarrow> (lm_error + lm_tree) \<times> ('c, 'h, 'r, 'k) vertex_state" where
  "vp_FinalizeVertex sha256 srt onTree now vertexID vp =
     (case vp_builders vp vertexID of
        None \<Rightarrow> (Inl (Wrapped [vertexID] (Sentinel Err_VertexClosed)), vp)
      | Some b \<Rightarrow>
          (let tree = fst (tb_Finalize sha256 srt now b);
               vp1 = vp\<lparr>vp_builders := (vp_builders vp)(vertexID := None), vp_forest := mf_Add tree (vp_forest vp)\<rparr>
           in (Inr tree,
               case onTree of None \<Rightarrow> vp1
               | Some f \<Rightarrow> vp1\<lparr>vp_dedup := (vp_dedup vp1)\<lparr>ds_hooks := f tree (ds_hooks (vp_dedup vp1))\<rparr>\<rparr>)))"

definition vp_ActiveVertexIDs :: "(lm_vertex set \<Rightarrow> lm_vertex list) \<Rightarrow> ('c, 'h, 'r, 'k) vertex_state \<Rightarrow> lm_vertex list" where
  "vp_ActiveVertexIDs enum vp = enum (dom (vp_builders vp))"

section \<open>The contract of a resolver\<close>

text \<open>
  \<open>own stack p\<close> is the layer whose file a path of the stack denotes, \<open>diff l p\<close> the place of that
  file. A layer that owns a path in one stack owns it in every stack it tops.
\<close>

locale resolver_laws =
  fixes R :: "'r layer_resolver" and rinv :: "'r \<Rightarrow> bool"
    and own :: "layer_stack \<Rightarrow> string \<Rightarrow> lm_layer option" and diff :: "lm_layer \<Rightarrow> string \<Rightarrow> string"
  assumes find_sound: "rinv s \<Longrightarrow> fst (rs_FindOwnerLayer R ctx st p s) = Inr l \<Longrightarrow> own st p = Some l"
    and find_keeps: "rinv s \<Longrightarrow> rinv (snd (rs_FindOwnerLayer R ctx st p s))"
    and diff_sound: "rinv s \<Longrightarrow> fst (rs_DiffAbsPath R l p s) = Inr a \<Longrightarrow> a = diff l p"
    and diff_keeps: "rinv s \<Longrightarrow> rinv (snd (rs_DiffAbsPath R l p s))"
    and top_owns: "own st p = Some l \<Longrightarrow> t \<noteq> [] \<Longrightarrow> stack_Top t = l \<Longrightarrow> own t p = Some l"

lemma owner_spec_snoc:
  "owner_spec fs reg (ls @ [x]) p =
     (case reg x of None \<Rightarrow> owner_spec fs reg ls p
      | Some i \<Rightarrow> (if fsStat fs i p = StatPresent then Inr x else if fsStat fs i p = StatWhiteout then Inl (Sentinel Err_Whiteout)
                  else owner_spec fs reg ls p))"
proof (cases "reg x")
  case (Some i)
  then show ?thesis using fsStat_not_Unknown [of fs i p] by (cases "fsStat fs i p") (auto simp: owner_spec_def settles_def)
qed (simp add: owner_spec_def settles_def)

lemma owner_spec_Inr: "owner_spec fs reg st p = Inr l \<Longrightarrow> \<exists>i. reg l = Some i \<and> fsStat fs i p = StatPresent"
  by (induction st rule: rev_induct) (auto simp: owner_spec_snoc, simp_all add: owner_spec_def split: option.splits if_splits)

context memo_stat
begin

lemma owner_loop_sound:
  "inv s \<Longrightarrow> true_to reg cached fs s \<Longrightarrow> fst (owner_loop stat ctx k ls p s) = Inr l \<Longrightarrow> owner_spec fs (reg s) (rev ls) p = Inr l"
proof (induction ls arbitrary: k s)
  case (Cons x ls)
  obtain r s' where st: "stat x p s = (r, s')" by (cases "stat x p s")
  have s': "inv s'" "reg s' = reg s" "true_to reg cached fs s'" and r: "r = stat_spec fs (reg s) x p"
    using stat_keeps [OF Cons.prems(1,2), of x p] stat_answer [OF Cons.prems(1,2), of x p] st by simp_all
  have IH: "fst (owner_loop stat ctx (Suc k) ls p s') = Inr l \<Longrightarrow> owner_spec fs (reg s) (rev ls) p = Inr l"
    using Cons.IH [OF s'(1,3), of "Suc k"] s'(2) by simp
  show ?case
  proof (cases "reg s x")
    case None
    then show ?thesis using IH Cons.prems(3) st r by (simp add: stat_spec_def owner_spec_snoc split: option.splits)
  next
    case (Some i)
    then show ?thesis using IH Cons.prems(3) st r fsStat_not_Unknown [of fs i p]
      by (cases "fsStat fs i p") (simp_all add: stat_spec_def owner_spec_snoc split: option.splits)
  qed
qed simp

end

definition overlay_owner :: "file_system \<Rightarrow> layer_registry \<Rightarrow> layer_stack \<Rightarrow> string \<Rightarrow> lm_layer option" where
  "overlay_owner fs reg st p = (case owner_spec fs reg st p of Inr l \<Rightarrow> Some l | Inl e \<Rightarrow> None)"

lemma overlay_owner_top:
  assumes "overlay_owner fs reg st p = Some l" "t \<noteq> []" "stack_Top t = l"
  shows "overlay_owner fs reg t p = Some l"
proof -
  have "\<exists>i. reg l = Some i \<and> fsStat fs i p = StatPresent"
    using assms(1) owner_spec_Inr unfolding overlay_owner_def by (auto split: sum.splits)
  moreover obtain t' where "t = t' @ [l]" using assms(2,3) by (cases t rule: rev_cases) (simp_all add: stack_Top_last)
  ultimately show ?thesis by (auto simp: overlay_owner_def owner_spec_snoc)
qed

text \<open>The overlay resolver keeps the contract, over the registry it was created with.\<close>

definition or_ready :: "file_system \<Rightarrow> layer_registry \<Rightarrow> overlay_resolver \<Rightarrow> bool" where
  "or_ready fs reg r \<longleftrightarrow> or_inv r \<and> true_to or_registry or_statCache fs r \<and> or_registry r = reg"

definition diff_path :: "layer_registry \<Rightarrow> lm_layer \<Rightarrow> string \<Rightarrow> string" where
  "diff_path reg l p = DiffFilePath (the (reg l)) p"

interpretation overlay: resolver_laws "overlay_layer_resolver fs" "or_ready fs reg" "overlay_owner fs reg" "diff_path reg" for fs reg
proof
  fix s ctx st p l assume s: "or_ready fs reg s"
  then have r: "or_inv s" "true_to or_registry or_statCache fs s" "or_registry s = reg" by (simp_all add: or_ready_def)
  show "or_ready fs reg (snd (rs_FindOwnerLayer (overlay_layer_resolver fs) ctx st p s))"
    using overlay_memo.owner_loop_keeps [OF r(1,2), of ctx 0 "rev st" p] r(3)
    by (simp add: or_ready_def overlay_layer_resolver_def or_FindOwnerLayer_def)
  show "or_ready fs reg (snd (rs_DiffAbsPath (overlay_layer_resolver fs) l p s))"
    using overlay_memo.stat_keeps [OF r(1,2), of l p] s
    by (auto simp: or_ready_def overlay_layer_resolver_def or_DiffAbsPath_def split: option.split sum.split prod.splits)
  show "overlay_owner fs reg st p = Some l" if "fst (rs_FindOwnerLayer (overlay_layer_resolver fs) ctx st p s) = Inr l"
    using overlay_memo.owner_loop_sound [OF r(1,2), of ctx 0 "rev st" p l] that r(3)
    by (simp add: overlay_layer_resolver_def or_FindOwnerLayer_def overlay_owner_def)
  show "a = diff_path reg l p" if "fst (rs_DiffAbsPath (overlay_layer_resolver fs) l p s) = Inr a" for a
    using that r(3)
    by (auto simp: overlay_layer_resolver_def or_DiffAbsPath_def diff_path_def reg_Get_def split: option.splits sum.splits prod.splits if_splits)
qed (rule overlay_owner_top)

section \<open>Soundness\<close>

text \<open>
  The engine caches a hash under the requesting stack's top layer, so its answers are right when the
  top layer determines the stack: \<open>chain\<close> gives every layer the stack it tops.
\<close>

definition chained :: "(lm_layer \<Rightarrow> layer_stack) \<Rightarrow> layer_stack \<Rightarrow> bool" where
  "chained chain st \<longleftrightarrow> st \<noteq> [] \<and> chain (stack_Top st) = st"

lemma chained_unique: "chained chain s \<Longrightarrow> chained chain t \<Longrightarrow> stack_Top s = stack_Top t \<Longrightarrow> s = t"
  by (metis chained_def)

locale dedup_parts = cache: hash_cache_laws C invar look + hasher: hasher_laws H hinv content + resolver: resolver_laws R rinv own diff
  for C :: "'c hash_cache" and invar look and H :: "'h file_hasher" and hinv content and R :: "'r layer_resolver" and rinv own diff +
  fixes chain :: "lm_layer \<Rightarrow> layer_stack"
begin

text \<open>The hash of the file a path of a stack denotes; what may be cached; the invariant of the engine.\<close>

definition right_hash :: "layer_stack \<Rightarrow> string \<Rightarrow> lm_hash \<Rightarrow> bool" where
  "right_hash st p h \<longleftrightarrow> (\<exists>l. own st p = Some l \<and> content (diff l p) = Some h)"

definition cacheable :: "lm_layer \<Rightarrow> string \<Rightarrow> lm_hash \<Rightarrow> bool" where
  "cacheable l p h \<longleftrightarrow> (\<forall>st. own st p = Some l \<longrightarrow> content (diff l p) = Some h)
     \<and> (\<forall>st. chained chain st \<longrightarrow> stack_Top st = l \<longrightarrow> right_hash st p h)"

definition ready :: "('c, 'h, 'r, 'k) dedup_state \<Rightarrow> bool" where
  "ready s \<longleftrightarrow> invar (ds_cache s) \<and> cache.all_cached cacheable (ds_cache s) \<and> hinv (ds_hasher s) \<and> rinv (ds_resolver s)"

lemma cacheable_owner:
  assumes "own st p = Some l" "content (diff l p) = Some h"
  shows "cacheable l p h"
  unfolding cacheable_def
proof (intro conjI allI impI)
  fix st' assume st': "chained chain st'" "stack_Top st' = l"
  have "own st' p = Some l" by (rule resolver.top_owns [OF assms(1) _ st'(2)]) (use st'(1) in \<open>simp add: chained_def\<close>)
  then show "right_hash st' p h" unfolding right_hash_def using assms(2) by blast
qed (rule assms(2))

lemma cacheable_top:
  assumes "chained chain st" "own st p = Some l" "content (diff l p) = Some h"
  shows "cacheable (stack_Top st) p h"
  unfolding cacheable_def
proof (intro conjI allI impI)
  fix st' assume "own st' p = Some (stack_Top st)"
  from resolver.top_owns [OF this _ refl] have "own st p = Some (stack_Top st)" using assms(1) by (simp add: chained_def)
  then have "l = stack_Top st" using assms(2) by simp
  then show "content (diff (stack_Top st) p) = Some h" using assms(3) by simp
next
  fix st' assume "chained chain st'" "stack_Top st' = stack_Top st"
  then have "st' = st" using assms(1) chained_unique by blast
  then show "right_hash st' p h" using assms by (auto simp: right_hash_def)
qed

lemma compute_sound:
  assumes "ready s" "chained chain (hq_LayerStack req)" "own (hq_LayerStack req) (hq_RelPath req) = Some l"
  shows "ready (snd (dd_compute \<lparr>de_cache = C, de_hasher = H, de_resolver = R, de_hooks = hk\<rparr> now hctx req l s))"
    and "fst (dd_compute \<lparr>de_cache = C, de_hasher = H, de_resolver = R, de_hooks = hk\<rparr> now hctx req l s) = Inr r \<Longrightarrow>
      right_hash (hq_LayerStack req) (hq_RelPath req) (hr_Hash r)"
proof -
  let ?p = "hq_RelPath req" and ?st = "hq_LayerStack req"
  have s: "invar (ds_cache s)" "cache.all_cached cacheable (ds_cache s)" "hinv (ds_hasher s)" "rinv (ds_resolver s)"
    using assms(1) by (simp_all add: ready_def)
  obtain a r1 where a: "rs_DiffAbsPath R l ?p (ds_resolver s) = (a, r1)" by (cases "rs_DiffAbsPath R l ?p (ds_resolver s)")
  have r1: "rinv r1" "\<And>x. a = Inr x \<Longrightarrow> x = diff l ?p"
    using resolver.diff_keeps [OF s(4), of l ?p] resolver.diff_sound [OF s(4), of l ?p] a by simp_all
  obtain h h1 where h: "fh_Hash H hctx (diff l ?p) (ds_hasher s) = (h, h1)" by (cases "fh_Hash H hctx (diff l ?p) (ds_hasher s)")
  have h1: "hinv h1" "\<And>v. h = Inr v \<Longrightarrow> content (diff l ?p) = Some v"
    using hasher.hash_keeps [OF s(3), of hctx "diff l ?p"] hasher.hash_sound [OF s(3), of hctx "diff l ?p"] h by simp_all
  have set: "invar (hc_Set C now l ?p v (ds_cache s)) \<and> cache.all_cached cacheable (hc_Set C now l ?p v (ds_cache s))
      \<and> invar (hc_Set C now (stack_Top ?st) ?p v (hc_Set C now l ?p v (ds_cache s)))
      \<and> cache.all_cached cacheable (hc_Set C now (stack_Top ?st) ?p v (hc_Set C now l ?p v (ds_cache s)))" if "h = Inr v" for v
  proof -
    have c: "cacheable l ?p v" "cacheable (stack_Top ?st) ?p v"
      using cacheable_owner [OF assms(3)] cacheable_top [OF assms(2,3)] h1(2) [OF that] by simp_all
    have c1: "invar (hc_Set C now l ?p v (ds_cache s))" "cache.all_cached cacheable (hc_Set C now l ?p v (ds_cache s))"
      using cache.invar_Set [OF s(1)] cache.cached_Set [OF s(1,2) c(1)] by simp_all
    then show ?thesis using cache.invar_Set [OF c1(1)] cache.cached_Set [OF c1 c(2)] by simp
  qed
  have "ready (snd (dd_compute \<lparr>de_cache = C, de_hasher = H, de_resolver = R, de_hooks = hk\<rparr> now hctx req l s))
    \<and> (fst (dd_compute \<lparr>de_cache = C, de_hasher = H, de_resolver = R, de_hooks = hk\<rparr> now hctx req l s) = Inr r \<longrightarrow>
      right_hash ?st ?p (hr_Hash r))"
  proof (cases a)
    case (Inl e)
    then show ?thesis using a r1(1) s by (simp add: dd_compute_def ready_def)
  next
    case (Inr x)
    then have x: "x = diff l ?p" using r1(2) by simp
    show ?thesis
    proof (cases h)
      case Inl': (Inl e)
      then show ?thesis using a h r1(1) h1(1) s Inr x by (simp add: dd_compute_def ready_def Let_def)
    next
      case Inr': (Inr v)
      then show ?thesis using a h r1(1) h1 s Inr x set [OF Inr'] assms(3)
        by (auto simp: dd_compute_def ready_def Let_def right_hash_def)
    qed
  qed
  then show "ready (snd (dd_compute \<lparr>de_cache = C, de_hasher = H, de_resolver = R, de_hooks = hk\<rparr> now hctx req l s))"
    "fst (dd_compute \<lparr>de_cache = C, de_hasher = H, de_resolver = R, de_hooks = hk\<rparr> now hctx req l s) = Inr r \<Longrightarrow> right_hash ?st ?p (hr_Hash r)"
    by blast+
qed

end

context dedup_parts
begin

abbreviation engine :: "'k hook_chain \<Rightarrow> ('c, 'h, 'r, 'k) dedup_engine" where
  "engine hk \<equiv> \<lparr>de_cache = C, de_hasher = H, de_resolver = R, de_hooks = hk\<rparr>"

lemma ready_hooks [simp]: "ready (s\<lparr>ds_hooks := k\<rparr>) \<longleftrightarrow> ready s"
  by (simp add: ready_def)

lemma ready_Get: "ready s \<Longrightarrow> ready (s\<lparr>ds_cache := snd (hc_Get C now l p (ds_cache s))\<rparr>)"
  by (simp add: ready_def cache.invar_Get cache.cached_Get)

lemma ready_Set: "ready s \<Longrightarrow> cacheable l p h \<Longrightarrow> ready (s\<lparr>ds_cache := hc_Set C now l p h (ds_cache s)\<rparr>)"
  by (simp add: ready_def cache.invar_Set cache.cached_Set)

lemma ready_Get_result: "ready s \<Longrightarrow> fst (hc_Get C now l p (ds_cache s)) = Some h \<Longrightarrow> cacheable l p h"
  using cache.cached_Get_result unfolding ready_def by blast

lemma ready_find: "ready s \<Longrightarrow> ready (s\<lparr>ds_resolver := snd (rs_FindOwnerLayer R ctx st p (ds_resolver s))\<rparr>)"
  by (simp add: ready_def resolver.find_keeps)

lemma resolve_sound:
  assumes "ready s" "chained chain (hq_LayerStack req)"
  shows "ready (snd (dd_resolve (engine hk) now ctx hctx req s))"
    and "fst (dd_resolve (engine hk) now ctx hctx req s) = Inr r \<Longrightarrow> right_hash (hq_LayerStack req) (hq_RelPath req) (hr_Hash r)"
proof -
  let ?p = "hq_RelPath req" and ?st = "hq_LayerStack req"
  obtain o1 r1 where f: "rs_FindOwnerLayer R ctx ?st ?p (ds_resolver s) = (o1, r1)" by (cases "rs_FindOwnerLayer R ctx ?st ?p (ds_resolver s)")
  let ?s1 = "s\<lparr>ds_resolver := r1\<rparr>"
  have s1: "ready ?s1" using ready_find [OF assms(1), of ctx ?st ?p] f by simp
  have "ready (snd (dd_resolve (engine hk) now ctx hctx req s))
    \<and> (fst (dd_resolve (engine hk) now ctx hctx req s) = Inr r \<longrightarrow> right_hash ?st ?p (hr_Hash r))"
  proof (cases o1)
    case (Inl e)
    then show ?thesis using f s1 by (simp add: dd_resolve_def)
  next
    case (Inr l)
    have own: "own ?st ?p = Some l" using resolver.find_sound [of "ds_resolver s" ctx ?st ?p l] assms(1) f Inr by (simp add: ready_def)
    obtain g c where g: "hc_Get C now l ?p (ds_cache s) = (g, c)" by (cases "hc_Get C now l ?p (ds_cache s)")
    have s2: "ready (?s1\<lparr>ds_cache := c\<rparr>)" using ready_Get [OF s1, of now l ?p] g by simp
    show ?thesis
    proof (cases g)
      case None
      then show ?thesis using f g Inr compute_sound [OF s2 assms(2) own, of hk now hctx] by (simp add: dd_resolve_def)
    next
      case (Some h)
      then have "cacheable l ?p h" using ready_Get_result [OF s1, of now l ?p] g by simp
      then have h: "content (diff l ?p) = Some h" using own unfolding cacheable_def by blast
      have "ready (?s1\<lparr>ds_cache := hc_Set C now (stack_Top ?st) ?p h c\<rparr>)"
        using ready_Set [OF s2 cacheable_top [OF assms(2) own h], of now] by simp
      then show ?thesis using Some f g Inr s2 own h by (auto simp: dd_resolve_def Let_def right_hash_def)
    qed
  qed
  then show "ready (snd (dd_resolve (engine hk) now ctx hctx req s))"
    "fst (dd_resolve (engine hk) now ctx hctx req s) = Inr r \<Longrightarrow> right_hash ?st ?p (hr_Hash r)" by blast+
qed

text \<open>An in-flight call that ends with a result ends with a right one.\<close>

definition flights_right :: "(string \<Rightarrow> (lm_error + hash_result) option) \<Rightarrow> bool" where
  "flights_right inflight \<longleftrightarrow>
     (\<forall>st p r. chained chain st \<longrightarrow> inflight (singleflightKey st p) = Some (Inr r) \<longrightarrow> right_hash st p (hr_Hash r))"

lemma Resolve_sound:
  assumes "ready s" "flights_right inflight" "chained chain (hq_LayerStack req)"
  shows "ready (snd (dd_Resolve (engine hk) inflight now ctx hctx req s))"
    and "hr_Err (fst (dd_Resolve (engine hk) inflight now ctx hctx req s)) = None \<Longrightarrow>
      right_hash (hq_LayerStack req) (hq_RelPath req) (hr_Hash (fst (dd_Resolve (engine hk) inflight now ctx hctx req s)))"
proof -
  let ?p = "hq_RelPath req" and ?st = "hq_LayerStack req"
  let ?key = "singleflightKey ?st ?p"
  have st: "?st \<noteq> []" using assms(3) by (simp add: chained_def)
  obtain g c where g: "hc_Get C now (stack_Top ?st) ?p (ds_cache s) = (g, c)" by (cases "hc_Get C now (stack_Top ?st) ?p (ds_cache s)")
  have s1: "ready (s\<lparr>ds_cache := c\<rparr>)" using ready_Get [OF assms(1), of now "stack_Top ?st" ?p] g by simp
  have "ready (snd (dd_Resolve (engine hk) inflight now ctx hctx req s)) \<and>
    (hr_Err (fst (dd_Resolve (engine hk) inflight now ctx hctx req s)) = None \<longrightarrow>
      right_hash ?st ?p (hr_Hash (fst (dd_Resolve (engine hk) inflight now ctx hctx req s))))"
  proof (cases g)
    case (Some h)
    then have "cacheable (stack_Top ?st) ?p h" using ready_Get_result [OF assms(1), of now "stack_Top ?st" ?p] g by simp
    then have "right_hash ?st ?p h" using assms(3) by (simp add: cacheable_def)
    then show ?thesis using Some g st s1 by (simp add: dd_Resolve_def Let_def)
  next
    case None
    show ?thesis
    proof (cases "inflight ?key")
      case (Some v)
      have "right_hash ?st ?p (hr_Hash r)" if "v = Inr r" for r using assms(2,3) Some that unfolding flights_right_def by blast
      then show ?thesis using None Some g st s1 by (cases v) (simp_all add: dd_Resolve_def Let_def)
    next
      case None': None
      obtain v s' where v: "dd_resolve (engine hk) now ctx hctx req (s\<lparr>ds_cache := c\<rparr>) = (v, s')"
        by (cases "dd_resolve (engine hk) now ctx hctx req (s\<lparr>ds_cache := c\<rparr>)")
      show ?thesis using None None' g st v resolve_sound [OF s1 assms(3), of hk now ctx hctx]
        by (cases v) (simp_all add: dd_Resolve_def Let_def)
    qed
  qed
  then show "ready (snd (dd_Resolve (engine hk) inflight now ctx hctx req s))"
    "hr_Err (fst (dd_Resolve (engine hk) inflight now ctx hctx req s)) = None \<Longrightarrow>
      right_hash ?st ?p (hr_Hash (fst (dd_Resolve (engine hk) inflight now ctx hctx req s)))" by blast+
qed

end

text \<open>Any sequence of requests, alone in flight.\<close>

abbreviation dd_calls :: "('c, 'h, 'r, 'k) dedup_engine \<Rightarrow> (int \<times> lm_ctx \<times> lm_ctx \<times> hash_request) list
    \<Rightarrow> ('c, 'h, 'r, 'k) dedup_state \<Rightarrow> ('c, 'h, 'r, 'k) dedup_state" where
  "dd_calls E cs s \<equiv> fold (\<lambda>(now, ctx, hctx, req) s. snd (dd_Resolve E (\<lambda>_. None) now ctx hctx req s)) cs s"

context dedup_parts
begin

lemma dd_calls_ready:
  "ready s \<Longrightarrow> \<forall>(now, ctx, hctx, req) \<in> set cs. chained chain (hq_LayerStack req) \<Longrightarrow> ready (dd_calls (engine hk) cs s)"
proof (induction cs arbitrary: s)
  case (Cons c cs)
  obtain now ctx hctx req where c: "c = (now, ctx, hctx, req)" by (cases c)
  have "flights_right (\<lambda>_. None)" by (simp add: flights_right_def)
  then have "ready (snd (dd_Resolve (engine hk) (\<lambda>_. None) now ctx hctx req s))"
    by (intro Resolve_sound(1)) (use Cons.prems c in auto)
  then show ?case using Cons c by simp
qed simp

end

interpretation dedup: dedup_parts "lru_hash_cache sorted_list_of_set" lc_inv lc_lookup
    "NewSHA256Hasher sha256 op" "\<lambda>_. True" "hash_of_file sha256 op"
    "overlay_layer_resolver fs" "or_ready fs reg" "overlay_owner fs reg" "diff_path reg" chain for sha256 op fs reg chain
  by (rule dedup_parts.intro) unfold_locales

text \<open>Resolvers and hashers that answer whenever they can make every request for a readable file succeed.\<close>

locale responsive_parts = dedup_parts C invar look H hinv content R rinv own diff chain
  for C :: "'c hash_cache" and invar look and H :: "'h file_hasher" and hinv content and R :: "'r layer_resolver" and rinv own diff chain +
  assumes find_complete: "rinv s \<Longrightarrow> own st p = Some l \<Longrightarrow> \<forall>j < length st. ctx j = None \<Longrightarrow> fst (rs_FindOwnerLayer R ctx st p s) = Inr l"
    and diff_complete: "rinv s \<Longrightarrow> own st p = Some l \<Longrightarrow> fst (rs_DiffAbsPath R l p s) = Inr (diff l p)"
    and hash_complete: "hinv s' \<Longrightarrow> content a = Some v \<Longrightarrow> hctx 0 = None \<Longrightarrow> fst (fh_Hash H hctx a s') = Inr v"
begin

lemma Resolve_complete:
  assumes "ready s" "hq_LayerStack req \<noteq> []" "own (hq_LayerStack req) (hq_RelPath req) = Some l"
    and "content (diff l (hq_RelPath req)) = Some h" "\<forall>j < length (hq_LayerStack req). ctx j = None" "hctx 0 = None"
  shows "hr_Err (fst (dd_Resolve (engine hk) (\<lambda>_. None) now ctx hctx req s)) = None"
proof -
  let ?p = "hq_RelPath req" and ?st = "hq_LayerStack req"
  obtain g c where g: "hc_Get C now (stack_Top ?st) ?p (ds_cache s) = (g, c)" by (cases "hc_Get C now (stack_Top ?st) ?p (ds_cache s)")
  have s: "hinv (ds_hasher s)" "rinv (ds_resolver s)" using assms(1) by (simp_all add: ready_def)
  obtain r where r: "rs_FindOwnerLayer R ctx ?st ?p (ds_resolver s) = (Inr l, r)"
    using find_complete [OF s(2) assms(3,5)] by (metis prod.collapse)
  have "rinv r" using resolver.find_keeps [OF s(2), of ctx ?st ?p] r by simp
  then obtain r' where r': "rs_DiffAbsPath R l ?p r = (Inr (diff l ?p), r')" using diff_complete [OF _ assms(3)] by (metis prod.collapse)
  obtain h' where h: "fh_Hash H hctx (diff l ?p) (ds_hasher s) = (Inr h, h')"
    using hash_complete [where hctx = hctx, OF s(1) assms(4,6)] by (metis prod.collapse)
  obtain g' c' where g': "hc_Get C now l ?p c = (g', c')" by (cases "hc_Get C now l ?p c")
  show ?thesis using assms(2) g r r' h g'
    by (cases g; cases g') (simp_all add: dd_Resolve_def dd_resolve_def dd_compute_def Let_def)
qed

end

interpretation responsive: responsive_parts "lru_hash_cache sorted_list_of_set" lc_inv lc_lookup
    "NewSHA256Hasher sha256 op" "\<lambda>_. True" "hash_of_file sha256 op"
    "overlay_layer_resolver fs" "or_ready fs reg" "overlay_owner fs reg" "diff_path reg" chain for sha256 op fs reg chain
proof
  fix s ctx st p l assume r: "or_ready fs reg s" and o: "overlay_owner fs reg st p = Some l"
  have s: "or_inv s" "true_to or_registry or_statCache fs s" "or_registry s = reg" using r by (simp_all add: or_ready_def)
  have spec: "owner_spec fs reg st p = Inr l" using o by (auto simp: overlay_owner_def split: sum.splits)
  show "fst (rs_FindOwnerLayer (overlay_layer_resolver fs) ctx st p s) = Inr l" if "\<forall>j < length st. ctx j = None"
    using overlay_memo.owner_loop_answer [OF s(1,2), of "rev st" ctx 0 p] that s(3) spec
    by (simp add: overlay_layer_resolver_def or_FindOwnerLayer_def)
  obtain i where i: "reg l = Some i" "fsStat fs i p = StatPresent" using owner_spec_Inr [OF spec] by blast
  have "fst (or_statInLayer fs l p s) = Inr StatPresent"
    using overlay_memo.stat_answer [OF s(1,2), of l p] s(3) i by (simp add: stat_spec_def)
  then obtain s' where "or_statInLayer fs l p s = (Inr StatPresent, s')" by (metis prod.collapse)
  then show "fst (rs_DiffAbsPath (overlay_layer_resolver fs) l p s) = Inr (diff_path reg l p)"
    using i s(3) by (simp add: overlay_layer_resolver_def or_DiffAbsPath_def reg_Get_def diff_path_def)
next
  fix a v and hctx :: lm_ctx and s' assume "hash_of_file sha256 op a = Some v" "hctx 0 = None"
  then show "fst (fh_Hash (NewSHA256Hasher sha256 op) hctx a s') = Inr v"
    by (simp add: NewSHA256Hasher_def sha_Hash_def hashFile_eq)
qed

section \<open>Properties\<close>

text \<open>The engine with the default cache, hasher and resolver, before its first request.\<close>

definition default_engine :: "(bytes \<Rightarrow> bytes) \<Rightarrow> (string \<Rightarrow> open_result) \<Rightarrow> file_system \<Rightarrow> 'k hook_chain
    \<Rightarrow> (lru_cache, unit, overlay_resolver, 'k) dedup_engine" where
  "default_engine sha256 op fs hk =
     NewDeduplicationEngine (lru_hash_cache sorted_list_of_set) (NewSHA256Hasher sha256 op) (overlay_layer_resolver fs) (Some hk)"

definition default_state :: "layer_registry \<Rightarrow> int \<Rightarrow> int \<Rightarrow> 'k \<Rightarrow> (lru_cache, unit, overlay_resolver, 'k) dedup_state" where
  "default_state reg n m k =
     \<lparr>ds_cache = NewShardedLRUCache n, ds_hasher = (), ds_resolver = NewOverlayResolver reg m, ds_hooks = k\<rparr>"

lemma default_state_ready: "dedup.ready sha256 op fs reg chain (default_state reg n m k)"
  using New_resolvers_ok(1-3) NewShardedLRUCache_ok(1,2) [of n]
  by (simp add: dedup.ready_def default_state_def or_ready_def sorted_keys.lru.all_cached_def)

text \<open>
  C3: deduplication returns the right hash. When every stack of a build is determined by its top layer,
  then after any sequence of requests (whatever the caches evicted, with any contexts) the hash of
  a result without error is the SHA-256 digest of the file that the owner of the path in the
  requested stack holds, owner and file being what the layers say. And when there is such a file,
  it can be read and the context is not cancelled, the result has no error.
\<close>

theorem Resolve_returns_owner_hash:
  assumes "\<forall>(now, ctx, hctx, req) \<in> set cs. chained chain (hq_LayerStack req)" "chained chain (hq_LayerStack req)"
    and "r = fst (dd_Resolve (default_engine sha256 op fs hk) (\<lambda>_. None) now ctx hctx req
           (dd_calls (default_engine sha256 op fs hk) cs (default_state reg n m k)))"
  shows "(hr_Err r = None \<longrightarrow> (\<exists>l. owner_spec fs reg (hq_LayerStack req) (hq_RelPath req) = Inr l
      \<and> hash_of_file sha256 op (DiffFilePath (the (reg l)) (hq_RelPath req)) = Some (hr_Hash r)))
    \<and> (\<forall>l h. owner_spec fs reg (hq_LayerStack req) (hq_RelPath req) = Inr l
      \<longrightarrow> hash_of_file sha256 op (DiffFilePath (the (reg l)) (hq_RelPath req)) = Some h
      \<longrightarrow> (\<forall>j < length (hq_LayerStack req). ctx j = None) \<longrightarrow> hctx 0 = None \<longrightarrow> hr_Err r = None \<and> hr_Hash r = h)"
proof -
  note e = default_engine_def [unfolded NewDeduplicationEngine_def option.case]
  let ?p = "hq_RelPath req" and ?st = "hq_LayerStack req"
  have ready: "dedup.ready sha256 op fs reg chain (dd_calls (default_engine sha256 op fs hk) cs (default_state reg n m k))"
    unfolding e by (rule dedup.dd_calls_ready [OF default_state_ready assms(1)])
  moreover have "dedup.flights_right sha256 op fs reg chain (\<lambda>_. None)" by (simp add: dedup.flights_right_def)
  ultimately have right: "dedup.right_hash sha256 op fs reg ?st ?p (hr_Hash r)" if "hr_Err r = None"
    using dedup.Resolve_sound(2) [OF _ _ assms(2)] that unfolding assms(3) e by blast
  have own: "overlay_owner fs reg ?st ?p = Some l \<longleftrightarrow> owner_spec fs reg ?st ?p = Inr l" for l
    by (auto simp: overlay_owner_def split: sum.splits)
  have fine: "hr_Err r = None" if "owner_spec fs reg ?st ?p = Inr l" "hash_of_file sha256 op (DiffFilePath (the (reg l)) ?p) = Some h"
    "\<forall>j < length ?st. ctx j = None" "hctx 0 = None" for l h
    unfolding assms(3) e
    by (rule responsive.Resolve_complete [OF ready [unfolded e]])
      (use that assms(2) in \<open>simp_all add: own diff_path_def chained_def\<close>)
  show ?thesis
    using right fine unfolding dedup.right_hash_def own diff_path_def by fastforce
qed

lemma lc_Get_after:
  assumes "lc_inv c" "lc_lookup c (l, p) = Some h"
  shows "fst (lc_Get now l p c) = Some h"
  using lru_storing.get_result [OF assms(1), of now "(l, p)"] assms(2) by simp

lemma lc_Get_keeps:
  assumes "lc_inv c" "lc_Get now l p c = (g, c')"
  shows "lc_inv c'" "g = lc_lookup c' (l, p)" "lc_lookup c' = lc_lookup c"
  using lru_storing.get_result [OF assms(1), of now "(l, p)"] lru_storing.get_lookup [OF assms(1), of now "(l, p)"]
    lru_storing.invar_get [OF assms(1), of now "(l, p)"] assms(2) by simp_all

lemma lc_Set_stores:
  assumes "lc_inv c"
  shows "lc_inv (lc_Set now l p h c)" "lc_lookup (lc_Set now l p h c) (l, p) = Some h"
  using lru_storing.invar_put [OF assms, of now "(l, p)" h] lru_storing.put_same [OF assms, of now "(l, p)" h] by simp_all

definition top_cached :: "hash_request \<Rightarrow> lm_hash \<Rightarrow> (lru_cache, 'h, 'r, 'k) dedup_state \<Rightarrow> bool" where
  "top_cached req h s \<longleftrightarrow> lc_inv (ds_cache s) \<and> lc_lookup (ds_cache s) (stack_Top (hq_LayerStack req), hq_RelPath req) = Some h"

lemma compute_top_cached:
  assumes "lc_inv (ds_cache s)" "de_cache E = lru_hash_cache enum" "dd_compute E now hctx req l s = (Inr x, s')"
  shows "top_cached req (hr_Hash x) s'"
proof -
  obtain a r where a: "rs_DiffAbsPath (de_resolver E) l (hq_RelPath req) (ds_resolver s) = (Inr a, r)"
    using assms(3) by (auto simp: dd_compute_def split: prod.splits sum.splits)
  obtain h h' where h: "fh_Hash (de_hasher E) hctx a (ds_hasher s) = (Inr h, h')"
    using assms(3) a by (auto simp: dd_compute_def Let_def split: prod.splits sum.splits)
  note i = lc_Set_stores [OF assms(1), of now l "hq_RelPath req" h]
  show ?thesis using assms(2,3) a h i lc_Set_stores [OF i(1), of now "stack_Top (hq_LayerStack req)" "hq_RelPath req" h]
    by (auto simp: dd_compute_def Let_def top_cached_def)
qed

lemma resolve_top_cached:
  assumes "lc_inv (ds_cache s)" "de_cache E = lru_hash_cache enum" "dd_resolve E now ctx hctx req s = (Inr x, s')"
  shows "top_cached req (hr_Hash x) s'"
proof -
  obtain l r where l: "rs_FindOwnerLayer (de_resolver E) ctx (hq_LayerStack req) (hq_RelPath req) (ds_resolver s) = (Inr l, r)"
    using assms(3) by (auto simp: dd_resolve_def split: prod.splits sum.splits if_splits)
  obtain g c where g: "lc_Get now l (hq_RelPath req) (ds_cache s) = (g, c)" by (cases "lc_Get now l (hq_RelPath req) (ds_cache s)")
  note i = lc_Get_keeps [OF assms(1) g]
  show ?thesis
  proof (cases g)
    case None
    then show ?thesis using assms(2,3) l g i(1) compute_top_cached [of "s\<lparr>ds_resolver := r, ds_cache := c\<rparr>" E enum now hctx req l x s']
      by (simp add: dd_resolve_def)
  next
    case (Some h)
    then show ?thesis using assms(2,3) l g i lc_Set_stores [OF i(1), of now "stack_Top (hq_LayerStack req)" "hq_RelPath req" h]
      by (auto simp: dd_resolve_def Let_def top_cached_def)
  qed
qed

text \<open>
  The fast path looks at the top layer only. Once a request succeeded, any request for the same path
  in a stack with the same top layer is answered with the first one's hash, whatever layers lie
  below, and with the top layer as the owner. (Any resolver and any hasher, the LRU cache.)
\<close>

theorem Resolve_shared_top_layer:
  assumes "lc_inv (ds_cache s)" "de_cache E = lru_hash_cache sorted_list_of_set"
    and "r = fst (dd_Resolve E (\<lambda>_. None) now ctx hctx req s)" "hr_Err r = None"
    and "stack_Valid (hq_LayerStack req')" "stack_Top (hq_LayerStack req') = stack_Top (hq_LayerStack req)" "hq_RelPath req' = hq_RelPath req"
  shows "fst (dd_Resolve E inflight now' ctx' hctx' req' (snd (dd_Resolve E (\<lambda>_. None) now ctx hctx req s)))
    = \<lparr>hr_VertexID = hq_VertexID req', hr_RelPath = hq_RelPath req', hr_Hash = hr_Hash r,
       hr_OwnerLayerID = stack_Top (hq_LayerStack req), hr_FromCache = True, hr_Err = None\<rparr>"
proof -
  let ?p = "hq_RelPath req" and ?st = "hq_LayerStack req" and ?s' = "snd (dd_Resolve E (\<lambda>_. None) now ctx hctx req s)"
  have st: "stack_Valid ?st" using assms(3,4) by (auto simp: dd_Resolve_def split: if_splits)
  obtain g c where g: "lc_Get now (stack_Top ?st) ?p (ds_cache s) = (g, c)" by (cases "lc_Get now (stack_Top ?st) ?p (ds_cache s)")
  note c = lc_Get_keeps [OF assms(1) g]
  have "top_cached req (hr_Hash r) ?s'"
  proof (cases g)
    case (Some h)
    then show ?thesis using g c st assms(2,3) by (simp add: dd_Resolve_def Let_def top_cached_def)
  next
    case None
    obtain v s1 where v: "dd_resolve E now ctx hctx req (s\<lparr>ds_cache := c\<rparr>) = (v, s1)" by (cases "dd_resolve E now ctx hctx req (s\<lparr>ds_cache := c\<rparr>)")
    show ?thesis
    proof (cases v)
      case (Inl e)
      then show ?thesis using None g v st assms(2,3,4) by (simp add: dd_Resolve_def Let_def)
    next
      case (Inr x)
      have "top_cached req (hr_Hash x) s1" by (rule resolve_top_cached [OF _ assms(2) v [unfolded Inr]]) (use c in simp)
      then show ?thesis using None Inr g v st assms(2,3) by (simp add: dd_Resolve_def Let_def)
    qed
  qed
  then have "fst (lc_Get now' (stack_Top ?st) ?p (ds_cache ?s')) = Some (hr_Hash r)" unfolding top_cached_def using lc_Get_after by blast
  then show ?thesis using assms(2,5-7) by (simp add: dd_Resolve_def Let_def case_prod_unfold split: option.splits)
qed

end
