(* ===== verification/Lm_Vertex.thy ===== *)
theory Lm_Vertex
  imports Lm_Dedup
begin

text \<open>
  The vertex processor over a run of events (\<open>deduplicator.go\<close>): which results reach which tree,
  what a second finalisation does, and the examples of the deduplication engine.
\<close>

section \<open>Runs\<close>

text \<open>An event with what the environment supplies while it is processed; a run returns every event's result.\<close>

type_synonym vp_step = "(string \<Rightarrow> (lm_error + hash_result) option) \<times> int \<times> lm_ctx \<times> lm_ctx \<times> lm_event"

fun vp_run :: "('c, 'h, 'r, 'k) dedup_engine \<Rightarrow> vp_step list \<Rightarrow> ('c, 'h, 'r, 'k) vertex_state
    \<Rightarrow> (lm_event \<times> hash_result) list \<times> ('c, 'h, 'r, 'k) vertex_state" where
  "vp_run E [] vp = ([], vp)"
| "vp_run E ((inflight, now, ctx, hctx, ev) # steps) vp =
     (let (r, vp1) = vp_Process E inflight now ctx hctx ev vp;
          (rs, vp2) = vp_run E steps vp1
      in ((ev, r) # rs, vp2))"

text \<open>The builder of a vertex after the given results of it.\<close>

definition built :: "lm_vertex \<Rightarrow> (lm_event \<times> hash_result) list \<Rightarrow> tree_builder option \<Rightarrow> tree_builder option" where
  "built v rs b =
     (let mine = filter (\<lambda>(e, r). le_VertexID e = v \<and> hr_Err r = None) rs in
      if mine = [] then b
      else Some (fold tb_Add (map snd mine) (case b of Some b \<Rightarrow> b | None \<Rightarrow> NewMerkleTreeBuilder v (le_LayerStack (fst (hd mine))))))"

lemma built_Nil [simp]: "built v [] b = b"
  by (simp add: built_def)

lemma built_Cons:
  "built v ((e, r) # rs) b =
     (if le_VertexID e = v \<and> hr_Err r = None
      then built v rs (Some (tb_Add r (case b of Some b \<Rightarrow> b | None \<Rightarrow> NewMerkleTreeBuilder v (le_LayerStack e))))
      else built v rs b)"
  by (cases b) (auto simp: built_def Let_def)

lemma Process_builders:
  assumes "vp_Process E inflight now ctx hctx ev vp = (r, vp')"
  shows "vp_builders vp' v = built v [(ev, r)] (vp_builders vp v)" "vp_forest vp' = vp_forest vp"
  using assms
  by (auto simp: vp_Process_def built_Cons getOrCreateBuilder_def Let_def split: prod.splits if_splits option.splits)

lemma run_builders:
  "vp_run E steps vp = (rs, vp') \<Longrightarrow> vp_builders vp' v = built v rs (vp_builders vp v) \<and> vp_forest vp' = vp_forest vp"
proof (induction E steps vp arbitrary: rs vp' rule: vp_run.induct)
  case (2 E inflight now ctx hctx ev steps vp)
  obtain r vp1 where p: "vp_Process E inflight now ctx hctx ev vp = (r, vp1)" by (cases "vp_Process E inflight now ctx hctx ev vp")
  obtain rs' vp2 where q: "vp_run E steps vp1 = (rs', vp2)" by (cases "vp_run E steps vp1")
  have "rs = (ev, r) # rs'" "vp' = vp2" using 2(2) p q by simp_all
  then show ?case using 2(1) [OF p [symmetric] refl q] Process_builders(1) [OF p, of v] Process_builders(2) [OF p] by (simp add: built_Cons)
qed simp

section \<open>Properties\<close>

text \<open>
  After any run on a new processor, events of different vertices interleaved at will: finalising a
  vertex without a successful result fails with \<open>ErrVertexClosed\<close> and changes nothing; otherwise it
  stores and returns the tree of exactly that vertex's successful results, in their order, under
  the first one's layer stack; finalising it again fails, and no other vertex is touched.
\<close>

theorem FinalizeVertex_collects:
  assumes "vp_run E steps (NewVertexProcessor d forest) = (rs, vp)"
    and "mine = filter (\<lambda>(e, r). le_VertexID e = v \<and> hr_Err r = None) rs"
    and "vp_FinalizeVertex sha256 srt onTree now v vp = (res, vp')"
  shows "(mine = [] \<longrightarrow> res = Inl (Wrapped [v] (Sentinel Err_VertexClosed)) \<and> vp' = vp)
    \<and> (mine \<noteq> [] \<longrightarrow> (let tree = fst (tb_Finalize sha256 srt now
             (fold tb_Add (map snd mine) (NewMerkleTreeBuilder v (le_LayerStack (fst (hd mine))))))
         in res = Inr tree \<and> mf_Get v (vp_forest vp') = Some tree
          \<and> fst (vp_FinalizeVertex sha256 srt onTree now2 v vp') = Inl (Wrapped [v] (Sentinel Err_VertexClosed))
          \<and> (\<forall>w. w \<noteq> v \<longrightarrow> vp_builders vp' w = vp_builders vp w \<and> mf_Get w (vp_forest vp') = mf_Get w forest)))"
proof -
  have b: "vp_builders vp v = built v rs None" "vp_forest vp = forest"
    using run_builders [OF assms(1), of v] by (simp_all add: NewVertexProcessor_def)
  show ?thesis
  proof (cases "mine = []")
    case True
    then show ?thesis using assms(2,3) b by (simp add: built_def vp_FinalizeVertex_def)
  next
    case False
    have id: "tb_vertexID (fold tb_Add xs b) = tb_vertexID b" for xs and b :: tree_builder
      by (induction xs arbitrary: b) simp_all
    let ?b = "fold tb_Add (map snd mine) (NewMerkleTreeBuilder v (le_LayerStack (fst (hd mine))))"
    let ?t = "fst (tb_Finalize sha256 srt now ?b)"
    have "vp_builders vp v = Some ?b" using False b(1) assms(2) by (simp add: built_def Let_def)
    moreover have "tr_VertexID ?t = v" by (simp add: tb_Finalize_def Let_def id) (simp add: NewMerkleTreeBuilder_def)
    ultimately show ?thesis using False assms(3) b(2)
      by (auto simp: vp_FinalizeVertex_def Let_def mf_Add_def mf_Get_def split: option.splits)
  qed
qed

text \<open>
  A caller that waited on another one's flight gets that one's result: it carries the leader's
  vertex, not the caller's.
\<close>

theorem Resolve_coalesced_names_leader:
  assumes "fst (dd_resolve E now ctx hctx req s) = Inr r"
    and "inflight (singleflightKey (hq_LayerStack req) (hq_RelPath req)) = Some (Inr r)"
    and "stack_Valid (hq_LayerStack req)" "hq_LayerStack req' = hq_LayerStack req" "hq_RelPath req' = hq_RelPath req"
    and "fst (hc_Get (de_cache E) now' (stack_Top (hq_LayerStack req)) (hq_RelPath req) (ds_cache s')) = None"
  shows "fst (dd_Resolve E inflight now' ctx' hctx' req' s') = r \<and> hr_VertexID r = hq_VertexID req"
proof -
  obtain c where c: "hc_Get (de_cache E) now' (stack_Top (hq_LayerStack req)) (hq_RelPath req) (ds_cache s') = (None, c)"
    using assms(6) by (metis prod.collapse)
  have "hr_VertexID r = hq_VertexID req"
    using assms(1) by (auto simp: dd_resolve_def dd_compute_def Let_def split: prod.splits sum.splits option.splits if_splits)
  then show ?thesis using assms(2-5) c by (simp add: dd_Resolve_def Let_def)
qed

section \<open>Examples\<close>

text \<open>A file system in which every file holds its own path.\<close>

definition path_open :: "string \<Rightarrow> open_result" where
  "path_open p = Open_File ([bytes_of_string p], None)"

abbreviation example_engine :: "(lru_cache, unit, overlay_resolver, unit) dedup_engine" where
  "example_engine \<equiv> default_engine rev path_open (example_fs [[''a'', ''etc'', ''passwd''], [''b'', ''etc'', ''passwd'']]) []"

abbreviation example_request :: "lm_vertex \<Rightarrow> layer_stack \<Rightarrow> hash_request" where
  "example_request v st \<equiv> \<lparr>hq_VertexID = v, hq_LayerStack = st, hq_RelPath = rel_path [''etc'', ''passwd''], hq_AbsPath = ''''\<rparr>"

lemma example_owner:
  assumes "l \<in> {''a'', ''b''}" "st \<in> {[l], [l, ''t'']}"
  shows "owner_spec (example_fs [[''a'', ''etc'', ''passwd''], [''b'', ''etc'', ''passwd'']]) example_registry st (rel_path [''etc'', ''passwd'']) = Inr l"
proof -
  let ?fs = "example_fs [[''a'', ''etc'', ''passwd''], [''b'', ''etc'', ''passwd'']]"
  have e: "entry ?fs (example_layer l) segs \<longleftrightarrow> l # segs \<in> set [[''a'', ''etc'', ''passwd''], [''b'', ''etc'', ''passwd'']]"
    if "plain_path segs" "segs \<noteq> []" for segs
    by (rule example_entry) (use that assms(1) in \<open>auto simp: plain_name_def\<close>)
  have p: "plain_name ''etc''" "plain_name ''passwd''" by (simp_all add: plain_name_def)
  have "fsStat ?fs (example_layer l) (rel_path ([''etc''] @ [''passwd''])) = StatPresent"
    using p assms(1) by (subst fsStat_entries) (auto simp: e plain_name_def)
  moreover have "example_registry l = Some (example_layer l)" "example_registry ''t'' = None"
    using assms(1) by (auto simp: example_registry_def)
  ultimately show ?thesis using assms(2)
    by (auto simp: owner_spec_snoc [of _ _ "[]", simplified] owner_spec_snoc [of _ _ "[l]", simplified])
qed

lemma example_diff:
  assumes "l \<in> {''a'', ''b''}"
  shows "hash_of_file rev path_open (DiffFilePath (the (example_registry l)) (rel_path [''etc'', ''passwd'']))
    = Some (NewDigestFromBytes SHA256_name (rev (bytes_of_string (abs_path [l, ''etc'', ''passwd'']))))"
proof -
  have "filepath_Join [abs_path [l], rel_path [''etc'', ''passwd'']] = abs_path ([l] @ [''etc'', ''passwd''])"
    by (rule Join_abs_rel_path) (use assms in \<open>auto simp: plain_name_def\<close>)
  moreover have "the (example_registry l) = example_layer l" using assms example_registry_sel by auto
  ultimately show ?thesis by (simp add: DiffFilePath_def example_layer_def hash_of_file_def path_open_def)
qed

text \<open>The second of two equal requests, in a build whose stacks are single layers.\<close>

theorem Resolve_returns_owner_hash_witness:
  "let s = dd_calls example_engine [(1, \<lambda>_. None, \<lambda>_. None, example_request ''v'' [''a''])] (default_state example_registry 1000 100 ());
       r = fst (dd_Resolve example_engine (\<lambda>_. None) 2 (\<lambda>_. None) (\<lambda>_. None) (example_request ''v'' [''a'']) s)
   in hr_Err r = None \<and> hr_Hash r = NewDigestFromBytes SHA256_name (rev (bytes_of_string (abs_path [''a'', ''etc'', ''passwd''])))"
proof -
  let ?cs = "[(1, \<lambda>_. None, \<lambda>_. None, example_request ''v'' [''a''])] :: (int \<times> lm_ctx \<times> lm_ctx \<times> hash_request) list"
  have c: "chained (\<lambda>l. [l]) [''a'']" by (simp add: chained_def stack_Top_def)
  have cs: "\<forall>(now, ctx, hctx, req) \<in> set ?cs. chained (\<lambda>l. [l]) (hq_LayerStack req)" using c by simp
  have c': "chained (\<lambda>l. [l]) (hq_LayerStack (example_request ''v'' [''a'']))" using c by simp
  note t = conjunct2 [OF Resolve_returns_owner_hash [OF cs c' refl, of rev path_open
      "example_fs [[''a'', ''etc'', ''passwd''], [''b'', ''etc'', ''passwd'']]" "[]" 2 "\<lambda>_. None" "\<lambda>_. None" example_registry 1000 100 "()"],
      rule_format, unfolded hash_request.simps, of "''a''"]
  show ?thesis
    unfolding Let_def by (rule t) (use example_owner [of "''a''" "[''a'']"] example_diff [of "''a''"] in simp_all)
qed

text \<open>Two stacks with the same top layer \<open>t\<close> over different lower layers: the second request gets the first one's hash.\<close>

theorem Resolve_shared_top_layer_witness:
  "let s = default_state example_registry 1000 100 ();
       s1 = snd (dd_Resolve example_engine (\<lambda>_. None) 1 (\<lambda>_. None) (\<lambda>_. None) (example_request ''v'' [''a'', ''t'']) s);
       r = fst (dd_Resolve example_engine (\<lambda>_. None) 2 (\<lambda>_. None) (\<lambda>_. None) (example_request ''w'' [''b'', ''t'']) s1)
   in hr_Err r = None \<and> hr_Hash r = NewDigestFromBytes SHA256_name (rev (bytes_of_string (abs_path [''a'', ''etc'', ''passwd''])))
    \<and> hash_of_file rev path_open (DiffFilePath (the (example_registry ''b'')) (rel_path [''etc'', ''passwd''])) \<noteq> Some (hr_Hash r)"
proof -
  let ?fs = "example_fs [[''a'', ''etc'', ''passwd''], [''b'', ''etc'', ''passwd'']]" and ?s = "default_state example_registry 1000 100 ()"
  let ?req = "example_request ''v'' [''a'', ''t'']"
  define r where "r = fst (dd_Resolve example_engine (\<lambda>_. None) 1 (\<lambda>_. None) (\<lambda>_. None) ?req ?s)"
  let ?chain = "\<lambda>_. [''a'', ''t'']"
  note e = default_engine_def [unfolded NewDeduplicationEngine_def option.case]
  have ready: "dedup.ready rev path_open ?fs example_registry ?chain ?s" by (rule default_state_ready)
  have own: "overlay_owner ?fs example_registry [''a'', ''t''] (rel_path [''etc'', ''passwd'']) = Some ''a''"
    using example_owner [of "''a''" "[''a'', ''t'']"] by (simp add: overlay_owner_def)
  have err: "hr_Err r = None"
    unfolding r_def e by (rule responsive.Resolve_complete [OF ready]) (use own example_diff [of "''a''"] in \<open>simp_all add: diff_path_def\<close>)
  have "dedup.flights_right rev path_open ?fs example_registry ?chain (\<lambda>_. None)" by (simp add: dedup.flights_right_def)
  then have "dedup.right_hash rev path_open ?fs example_registry [''a'', ''t''] (rel_path [''etc'', ''passwd'']) (hr_Hash r)"
    using dedup.Resolve_sound(2) [OF ready, of "\<lambda>_. None" ?req "[]" 1 "\<lambda>_. None" "\<lambda>_. None"] err
    unfolding r_def e by (simp add: chained_def)
  then have h: "hr_Hash r = NewDigestFromBytes SHA256_name (rev (bytes_of_string (abs_path [''a'', ''etc'', ''passwd''])))"
    using own example_diff [of "''a''"] by (simp add: dedup.right_hash_def diff_path_def)
  have ab: "bytes_of_string (abs_path [''a'', ''etc'', ''passwd'']) \<noteq> bytes_of_string (abs_path [''b'', ''etc'', ''passwd''])"
    by (simp add: bytes_of_string_def abs_path_def)
  have inv: "lc_inv (ds_cache ?s)" by (simp add: default_state_def NewShardedLRUCache_ok)
  have eng: "de_cache example_engine = lru_hash_cache sorted_list_of_set" by (simp add: e)
  have "fst (dd_Resolve example_engine (\<lambda>_. None) 2 (\<lambda>_. None) (\<lambda>_. None) (example_request ''w'' [''b'', ''t''])
      (snd (dd_Resolve example_engine (\<lambda>_. None) 1 (\<lambda>_. None) (\<lambda>_. None) ?req ?s)))
    = \<lparr>hr_VertexID = ''w'', hr_RelPath = rel_path [''etc'', ''passwd''], hr_Hash = hr_Hash r,
       hr_OwnerLayerID = ''t'', hr_FromCache = True, hr_Err = None\<rparr>"
    using Resolve_shared_top_layer [OF inv eng r_def err, of "example_request ''w'' [''b'', ''t'']" "\<lambda>_. None" 2 "\<lambda>_. None" "\<lambda>_. None"]
    by (simp add: stack_Top_def)
  then show ?thesis using h ab example_diff [of "''b''"] by (simp add: Let_def NewDigestFromBytes_def newDigest_def)
qed

text \<open>Two vertices, three events.\<close>

definition example_event :: "lm_vertex \<Rightarrow> string \<Rightarrow> lm_event" where
  "example_event v p = \<lparr>le_VertexID = v, le_LayerStack = [''a''], le_RelPath = p, le_AbsPath = p, le_Mask = 1, le_PID = 0, le_Timestamp = 0\<rparr>"

definition static_engine :: "(unit, unit, static_resolver, unit) dedup_engine" where
  "static_engine = NewDeduplicationEngine NoopHashCache (NewSHA256Hasher rev path_open) static_layer_resolver None"

definition static_state :: "(unit, unit, static_resolver, unit) dedup_state" where
  "static_state = \<lparr>ds_cache = (), ds_hasher = (), ds_resolver = \<lparr>sr_ownership = (\<lambda>p. if p = ''x'' then Some ''a'' else None),
     sr_registry = example_registry\<rparr>, ds_hooks = ()\<rparr>"

theorem FinalizeVertex_collects_witness:
  "let (rs, vp) = vp_run static_engine (map (\<lambda>e. (\<lambda>_. None, 0, \<lambda>_. None, \<lambda>_. None, e)) [example_event ''v'' ''x'', example_event ''w'' ''x'', example_event ''v'' ''y''])
           (NewVertexProcessor static_state Map.empty);
       (res, vp') = vp_FinalizeVertex rev (\<lambda>ls. ls) None 7 ''v'' vp
   in \<exists>tree. res = Inr tree \<and> mf_Get ''v'' (vp_forest vp') = Some tree \<and> vp_builders vp' ''w'' = vp_builders vp ''w''
    \<and> fst (vp_FinalizeVertex rev (\<lambda>ls. ls) None 8 ''v'' vp') = Inl (Wrapped [''v''] (Sentinel Err_VertexClosed))"
proof -
  let ?steps = "map (\<lambda>e. (\<lambda>_. None, 0, \<lambda>_. None, \<lambda>_. None, e)) [example_event ''v'' ''x'', example_event ''w'' ''x'', example_event ''v'' ''y''] :: vp_step list"
  obtain rs vp where run: "vp_run static_engine ?steps (NewVertexProcessor static_state Map.empty) = (rs, vp)"
    by (cases "vp_run static_engine ?steps (NewVertexProcessor static_state Map.empty)")
  obtain res vp' where fin: "vp_FinalizeVertex rev (\<lambda>ls. ls) None 7 ''v'' vp = (res, vp')"
    by (cases "vp_FinalizeVertex rev (\<lambda>ls. ls) None 7 ''v'' vp")
  have clean: "normalizeRelPath ''x'' = ''x''" by code_simp
  obtain r rs' vp1 where r: "vp_Process static_engine (\<lambda>_. None) 0 (\<lambda>_. None) (\<lambda>_. None) (example_event ''v'' ''x'') (NewVertexProcessor static_state Map.empty) = (r, vp1)"
      "rs = (example_event ''v'' ''x'', r) # rs'"
    using run by (auto split: prod.splits)
  have "hr_Err r = None"
    using r(1) by (auto simp: vp_Process_def dd_Resolve_def dd_resolve_def dd_compute_def static_engine_def NewDeduplicationEngine_def
        NoopHashCache_def static_layer_resolver_def sr_FindOwnerLayer_def sr_DiffAbsPath_def reg_Get_def example_registry_def
        NewSHA256Hasher_def sha_Hash_def hashFile_def path_open_def SumFile_def static_state_def NewVertexProcessor_def
        example_event_def clean Let_def getOrCreateBuilder_def stack_Top_def)
  then have "filter (\<lambda>(e, r). le_VertexID e = ''v'' \<and> hr_Err r = None) rs \<noteq> []" using r(2) by (simp add: example_event_def)
  then have "\<exists>tree. res = Inr tree \<and> mf_Get ''v'' (vp_forest vp') = Some tree \<and> vp_builders vp' ''w'' = vp_builders vp ''w''
    \<and> fst (vp_FinalizeVertex rev (\<lambda>ls. ls) None 8 ''v'' vp') = Inl (Wrapped [''v''] (Sentinel Err_VertexClosed))"
    using FinalizeVertex_collects [OF run refl fin, of 8] unfolding Let_def by simp
  then show ?thesis by (simp only: run fin Let_def prod.case)
qed

text \<open>A leader of vertex \<open>v\<close> and a follower of vertex \<open>w\<close>.\<close>

theorem Resolve_coalesced_names_leader_witness:
  "let req = \<lparr>hq_VertexID = ''v'', hq_LayerStack = [''a''], hq_RelPath = ''x'', hq_AbsPath = ''x''\<rparr>;
       outcome = fst (dd_resolve static_engine 0 (\<lambda>_. None) (\<lambda>_. None) req static_state)
   in hr_VertexID (fst (dd_Resolve static_engine (\<lambda>_. Some outcome) 0 (\<lambda>_. None) (\<lambda>_. None) (req\<lparr>hq_VertexID := ''w''\<rparr>) static_state)) = ''v''"
proof -
  let ?req = "\<lparr>hq_VertexID = ''v'', hq_LayerStack = [''a''], hq_RelPath = ''x'', hq_AbsPath = ''x''\<rparr>"
  have clean: "normalizeRelPath ''x'' = ''x''" by code_simp
  obtain r where r: "fst (dd_resolve static_engine 0 (\<lambda>_. None) (\<lambda>_. None) ?req static_state) = Inr r"
    by (simp add: dd_resolve_def dd_compute_def static_engine_def NewDeduplicationEngine_def
        NoopHashCache_def static_layer_resolver_def sr_FindOwnerLayer_def sr_DiffAbsPath_def reg_Get_def example_registry_def
        NewSHA256Hasher_def sha_Hash_def hashFile_def path_open_def SumFile_def static_state_def clean Let_def)
  show ?thesis
    using Resolve_coalesced_names_leader [OF r, of "\<lambda>_. Some (Inr r)" "?req\<lparr>hq_VertexID := ''w''\<rparr>" 0 static_state "\<lambda>_. None" "\<lambda>_. None"] r
    by (simp add: Let_def static_engine_def NewDeduplicationEngine_def NoopHashCache_def)
qed

end
