(* ===== verification/Lm_Engine.thy ===== *)
theory Lm_Engine
  imports Lm_Vertex
begin

text \<open>
  The engine facade (\<open>engine.go\<close>) and the batch interface (\<open>batch.go\<close>). Construction is a function
  of the options; the life of a constructed engine is a step relation between the goroutines that
  call \<open>Submit\<close>, \<open>Start\<close> and \<open>Stop\<close>, the dispatch loop of every \<open>Start\<close>, and its workers.

  Every \<open>Start\<close> makes a new channel, a new semaphore and a new dispatch loop; the field \<open>eventCh\<close> is
  the last channel, and a loop reads it when it gets to run, not when it is spawned. A worker's \<open>Process\<close> is one step. \<open>accepted\<close>,
  \<open>processed\<close> and \<open>discarded\<close> are history: the events sent to a channel, processed, and dropped by
  a dispatch loop.
\<close>

section \<open>Construction\<close>

record engine_config =
  cf_workers :: int
  cf_eventBufSize :: int
  cf_cacheCapacity :: int
  cf_statCacheSize :: int

definition defaultEngineConfig :: "int \<Rightarrow> engine_config" where
  "defaultEngineConfig numCPU =
     \<lparr>cf_workers = numCPU, cf_eventBufSize = 4096, cf_cacheCapacity = 128000, cf_statCacheSize = 200000\<rparr>"

text \<open>The engine under construction; an interface value comes with its state, \<open>None\<close> is \<open>nil\<close>.\<close>

record ('c, 'h, 'r, 'k) engine_parts =
  ep_cfg :: engine_config
  ep_registry :: layer_registry
  ep_cache :: "('c hash_cache \<times> 'c) option"
  ep_hasher :: "('h file_hasher \<times> 'h) option"
  ep_resolver :: "('r layer_resolver \<times> 'r) option"
  ep_hooks :: "'k hook_chain"
  ep_onTree :: "(lm_tree \<Rightarrow> 'k \<Rightarrow> 'k) option"

type_synonym ('c, 'h, 'r, 'k) engine_option = "('c, 'h, 'r, 'k) engine_parts \<Rightarrow> ('c, 'h, 'r, 'k) engine_parts"

definition WithFileHasher :: "'h file_hasher \<times> 'h \<Rightarrow> ('c, 'h, 'r, 'k) engine_option" where
  "WithFileHasher h e = e\<lparr>ep_hasher := Some h\<rparr>"

definition WithHashCache :: "'c hash_cache \<times> 'c \<Rightarrow> ('c, 'h, 'r, 'k) engine_option" where
  "WithHashCache c e = e\<lparr>ep_cache := Some c\<rparr>"

definition WithResolver :: "'r layer_resolver \<times> 'r \<Rightarrow> ('c, 'h, 'r, 'k) engine_option" where
  "WithResolver r e = e\<lparr>ep_resolver := Some r\<rparr>"

definition WithHook :: "'k engine_hook \<Rightarrow> ('c, 'h, 'r, 'k) engine_option" where
  "WithHook h e = e\<lparr>ep_hooks := hk_Add h (ep_hooks e)\<rparr>"

definition WithWorkers :: "int \<Rightarrow> ('c, 'h, 'r, 'k) engine_option" where
  "WithWorkers n e = (if n > 0 then e\<lparr>ep_cfg := (ep_cfg e)\<lparr>cf_workers := n\<rparr>\<rparr> else e)"

definition WithEventBufferSize :: "int \<Rightarrow> ('c, 'h, 'r, 'k) engine_option" where
  "WithEventBufferSize n e = (if n > 0 then e\<lparr>ep_cfg := (ep_cfg e)\<lparr>cf_eventBufSize := n\<rparr>\<rparr> else e)"

definition WithCacheCapacity :: "int \<Rightarrow> ('c, 'h, 'r, 'k) engine_option" where
  "WithCacheCapacity n e = (if n > 0 then e\<lparr>ep_cfg := (ep_cfg e)\<lparr>cf_cacheCapacity := n\<rparr>\<rparr> else e)"

definition WithPredefinedRegistry :: "layer_registry \<Rightarrow> ('c, 'h, 'r, 'k) engine_option" where
  "WithPredefinedRegistry r e = e\<lparr>ep_registry := r\<rparr>"

definition WithOnTree :: "(lm_tree \<Rightarrow> 'k \<Rightarrow> 'k) \<Rightarrow> ('c, 'h, 'r, 'k) engine_option" where
  "WithOnTree fn e = e\<lparr>ep_onTree := Some fn\<rparr>"

text \<open>What \<open>applyDefaults\<close> puts for the missing parts, and the defaults of the package.\<close>

record ('c, 'h, 'r) default_parts =
  df_hasher :: "'h file_hasher \<times> 'h"
  df_cache :: "int \<Rightarrow> 'c hash_cache \<times> 'c"
  df_resolver :: "layer_registry \<Rightarrow> int \<Rightarrow> 'r layer_resolver \<times> 'r"

definition package_defaults :: "(bytes \<Rightarrow> bytes) \<Rightarrow> (string \<Rightarrow> open_result) \<Rightarrow> (string \<Rightarrow> (lm_error + lm_hash) option) \<Rightarrow> file_system
    \<Rightarrow> (cache_key set \<Rightarrow> cache_key list) \<Rightarrow> (lru_cache, unit, overlay_resolver) default_parts" where
  "package_defaults sha256 op inflight fs enum =
     \<lparr>df_hasher = (NewSingleflightHasher (NewSHA256Hasher sha256 op) inflight, ()),
      df_cache = (\<lambda>n. (lru_hash_cache enum, NewShardedLRUCache n)),
      df_resolver = (\<lambda>reg n. (overlay_layer_resolver fs, NewOverlayResolver reg n))\<rparr>"

definition applyDefaults :: "('c, 'h, 'r) default_parts \<Rightarrow> ('c, 'h, 'r, 'k) engine_parts \<Rightarrow> ('c, 'h, 'r, 'k) engine_parts" where
  "applyDefaults df e0 =
     (let e1 = (if ep_hasher e0 = None then e0\<lparr>ep_hasher := Some (df_hasher df)\<rparr> else e0);
          e2 = (if ep_cache e1 = None then e1\<lparr>ep_cache := Some (df_cache df (cf_cacheCapacity (ep_cfg e1)))\<rparr> else e1);
          e3 = (if ep_resolver e2 = None
                then e2\<lparr>ep_resolver := Some (df_resolver df (ep_registry e2) (cf_statCacheSize (ep_cfg e2)))\<rparr> else e2)
      in if ep_onTree e3 = None then e3\<lparr>ep_onTree := Some (\<lambda>_ k. k)\<rparr> else e3)"

section \<open>The running engine\<close>

text \<open>
  Every \<open>Start\<close> makes a channel and spawns a dispatch loop. The loop reads the field \<open>e.eventCh\<close> when
  it gets to run, without the lock, so \<open>lp_chan\<close> is empty at first; a later \<open>Start\<close> may have replaced
  the field by then.
\<close>

record channel =
  ch_buf :: "lm_event list"
  ch_closed :: bool

record dispatch_loop =
  lp_chan :: "nat option"
  lp_held :: "lm_event option"
  lp_workers :: "lm_event list"
  lp_exited :: bool

record ('c, 'h, 'r, 'k) lm_engine =
  en_cfg :: engine_config
  en_registry :: layer_registry
  en_dedup :: "('c, 'h, 'r, 'k) dedup_engine"
  en_vp :: "('c, 'h, 'r, 'k) vertex_state"
  en_onTree :: "lm_tree \<Rightarrow> 'k \<Rightarrow> 'k"
  en_running :: bool
  en_channels :: "channel list"
  en_loops :: "dispatch_loop list"
  en_submitting :: "(nat \<times> lm_event) list"
  en_panicked :: bool
  en_accepted :: "lm_event list"
  en_processed :: "lm_event list"
  en_discarded :: "lm_event list"

text \<open>\<open>wire\<close>: the processor's callback first runs the hooks, then \<open>onTree\<close>; \<open>k\<close> is the hooks' initial state.\<close>

definition en_wire :: "'k \<Rightarrow> ('c, 'h, 'r, 'k) engine_parts \<Rightarrow> ('c, 'h, 'r, 'k) lm_engine" where
  "en_wire k e =
     (let (c, cs) = the (ep_cache e); (h, hs) = the (ep_hasher e); (r, rs) = the (ep_resolver e);
          dedup = NewDeduplicationEngine c h r (Some (ep_hooks e));
          d = \<lparr>ds_cache = cs, ds_hasher = hs, ds_resolver = rs, ds_hooks = k\<rparr>
      in \<lparr>en_cfg = ep_cfg e, en_registry = ep_registry e, en_dedup = dedup, en_vp = NewVertexProcessor d NewMerkleForest,
          en_onTree = (\<lambda>t k. the (ep_onTree e) t (hk_OnVertexFinalized (ep_hooks e) t k)),
          en_running = False, en_channels = [], en_loops = [], en_submitting = [], en_panicked = False,
          en_accepted = [], en_processed = [], en_discarded = []\<rparr>)"

definition NewEngine :: "int \<Rightarrow> ('c, 'h, 'r) default_parts \<Rightarrow> 'k \<Rightarrow> ('c, 'h, 'r, 'k) engine_option list \<Rightarrow> ('c, 'h, 'r, 'k) lm_engine" where
  "NewEngine numCPU df k opts =
     (let e = \<lparr>ep_cfg = defaultEngineConfig numCPU, ep_registry = NewLayerRegistry, ep_cache = None, ep_hasher = None,
               ep_resolver = None, ep_hooks = NewHookChain [], ep_onTree = None\<rparr>
      in en_wire k (applyDefaults df (fold (\<lambda>o1. o1) opts e)))"

definition en_hooked :: "('k \<Rightarrow> 'k) \<Rightarrow> ('c, 'h, 'r, 'k) lm_engine \<Rightarrow> ('c, 'h, 'r, 'k) lm_engine" where
  "en_hooked f e = e\<lparr>en_vp := (en_vp e)\<lparr>vp_dedup := (vp_dedup (en_vp e))\<lparr>ds_hooks := f (ds_hooks (vp_dedup (en_vp e)))\<rparr>\<rparr>\<rparr>"

abbreviation en_drop :: "lm_event \<Rightarrow> lm_error \<Rightarrow> ('c, 'h, 'r, 'k) lm_engine \<Rightarrow> ('c, 'h, 'r, 'k) lm_engine" where
  "en_drop ev reason e \<equiv> en_hooked (hk_OnEventDropped (de_hooks (en_dedup e)) ev reason) e"

definition en_Start :: "('c, 'h, 'r, 'k) lm_engine \<Rightarrow> lm_error option \<times> ('c, 'h, 'r, 'k) lm_engine" where
  "en_Start e =
     (if en_running e then (Some (Plain [''layermerkle: engine already running'']), e)
      else (None, e\<lparr>en_running := True, en_channels := en_channels e @ [\<lparr>ch_buf = [], ch_closed = False\<rparr>],
                    en_loops := en_loops e @ [\<lparr>lp_chan = None, lp_held = None, lp_workers = [], lp_exited = False\<rparr>]\<rparr>))"

text \<open>The locked part of \<open>Stop\<close>; the call returns when every loop and worker has ended (\<open>en_idle\<close>).\<close>

definition en_Stop :: "('c, 'h, 'r, 'k) lm_engine \<Rightarrow> ('c, 'h, 'r, 'k) lm_engine" where
  "en_Stop e =
     (if \<not> en_running e then e
      else (let i = length (en_channels e) - 1 in
            e\<lparr>en_running := False, en_channels := (en_channels e)[i := (en_channels e ! i)\<lparr>ch_closed := True\<rparr>]\<rparr>))"

definition en_idle :: "('c, 'h, 'r, 'k) lm_engine \<Rightarrow> bool" where
  "en_idle e \<longleftrightarrow> (\<forall>l \<in> set (en_loops e). lp_exited l \<and> lp_workers l = [])"

text \<open>
  \<open>Submit\<close> reads the fields under the lock, then selects. \<open>cerr\<close> is the context's error, if it is
  done; among several ready cases \<open>pick\<close> says whether the context's is taken. A send on a closed
  channel is ready, and panics.
\<close>

definition submit_select :: "lm_error option \<Rightarrow> bool \<Rightarrow> nat \<Rightarrow> lm_event \<Rightarrow> ('c, 'h, 'r, 'k) lm_engine \<Rightarrow> lm_error option \<times> ('c, 'h, 'r, 'k) lm_engine" where
  "submit_select cerr pick i ev e =
     (let ch = en_channels e ! i; sendable = ch_closed ch \<or> int (length (ch_buf ch)) < cf_eventBufSize (en_cfg e) in
      if cerr \<noteq> None \<and> (pick \<or> \<not> sendable) then (cerr, en_drop ev (the cerr) e)
      else if ch_closed ch then (None, e\<lparr>en_panicked := True\<rparr>)
      else if sendable then
        (None, e\<lparr>en_channels := (en_channels e)[i := ch\<lparr>ch_buf := ch_buf ch @ [ev]\<rparr>], en_accepted := en_accepted e @ [ev]\<rparr>)
      else (Some (Sentinel Err_EventDropped), en_drop ev (Sentinel Err_EventDropped) e))"

definition en_Submit :: "lm_error option \<Rightarrow> bool \<Rightarrow> lm_event \<Rightarrow> ('c, 'h, 'r, 'k) lm_engine \<Rightarrow> lm_error option \<times> ('c, 'h, 'r, 'k) lm_engine" where
  "en_Submit cerr pick ev e =
     (if \<not> en_running e then (Some (Sentinel Err_EngineNotRunning), en_drop ev (Sentinel Err_EngineNotRunning) e)
      else submit_select cerr pick (length (en_channels e) - 1) ev e)"

text \<open>
  \<open>Feed\<close> takes events from its channel until that is closed or the context is done; each input is
  one turn of its \<open>select\<close>. The errors it forwards to \<open>onErr\<close> are returned.
\<close>

datatype feed_input = FeedEvent lm_event "lm_error option" bool | FeedClosed | FeedDone

fun en_Feed :: "feed_input list \<Rightarrow> ('c, 'h, 'r, 'k) lm_engine \<Rightarrow> lm_error list \<times> ('c, 'h, 'r, 'k) lm_engine" where
  "en_Feed [] e = ([], e)"
| "en_Feed (FeedClosed # ins) e = ([], e)"
| "en_Feed (FeedDone # ins) e = ([], e)"
| "en_Feed (FeedEvent ev cerr pick # ins) e =
     (if \<not> IsReadAccess ev then en_Feed ins e
      else (let (err, e1) = en_Submit cerr pick ev e; (errs, e2) = en_Feed ins e1
            in (case err of Some x \<Rightarrow> x # errs | None \<Rightarrow> errs, e2)))"

definition en_FinalizeVertex :: "(bytes \<Rightarrow> bytes) \<Rightarrow> (merkle_leaf list \<Rightarrow> merkle_leaf list) \<Rightarrow> int \<Rightarrow> lm_vertex
    \<Rightarrow> ('c, 'h, 'r, 'k) lm_engine \<Rightarrow> (lm_error + lm_tree) \<times> ('c, 'h, 'r, 'k) lm_engine" where
  "en_FinalizeVertex sha256 srt now v e =
     (let (r, vp) = vp_FinalizeVertex sha256 srt (Some (en_onTree e)) now v (en_vp e) in (r, e\<lparr>en_vp := vp\<rparr>))"

definition en_Forest :: "('c, 'h, 'r, 'k) lm_engine \<Rightarrow> lm_forest" where
  "en_Forest e = vp_forest (en_vp e)"

definition en_CacheStats :: "('c, 'h, 'r, 'k) lm_engine \<Rightarrow> lm_cache_stats" where
  "en_CacheStats e = hc_Stats (de_cache (en_dedup e)) (ds_cache (vp_dedup (en_vp e)))"

section \<open>The dispatch loop\<close>

definition en_channel :: "nat \<Rightarrow> (channel \<Rightarrow> channel) \<Rightarrow> ('c, 'h, 'r, 'k) lm_engine \<Rightarrow> ('c, 'h, 'r, 'k) lm_engine" where
  "en_channel j f e = e\<lparr>en_channels := (en_channels e)[j := f (en_channels e ! j)]\<rparr>"

definition en_loop :: "nat \<Rightarrow> (dispatch_loop \<Rightarrow> dispatch_loop) \<Rightarrow> ('c, 'h, 'r, 'k) lm_engine \<Rightarrow> ('c, 'h, 'r, 'k) lm_engine" where
  "en_loop i f e = e\<lparr>en_loops := (en_loops e)[i := f (en_loops e ! i)]\<rparr>"

text \<open>
  The steps of the loop of the \<open>i\<close>th \<open>Start\<close> and of its workers: read the channel from the field, which
  holds the one made by this \<open>Start\<close> or by a later one; take an event from the channel, drop it when
  the context is done or pass it to a new worker as soon as the semaphore admits one; end when the
  channel is closed and empty.
\<close>

inductive dispatch_step :: "nat \<Rightarrow> ('c, 'h, 'r, 'k) lm_engine \<Rightarrow> ('c, 'h, 'r, 'k) lm_engine \<Rightarrow> bool" where
  read_field: "i < length (en_loops e) \<Longrightarrow> lp_chan (en_loops e ! i) = None \<Longrightarrow> i \<le> j \<Longrightarrow> j < length (en_channels e) \<Longrightarrow>
    dispatch_step i e (en_loop i (\<lambda>l. l\<lparr>lp_chan := Some j\<rparr>) e)"
| discard: "i < length (en_loops e) \<Longrightarrow> \<not> lp_exited (en_loops e ! i) \<Longrightarrow> lp_held (en_loops e ! i) = None \<Longrightarrow>
    lp_chan (en_loops e ! i) = Some j \<Longrightarrow> ch_buf (en_channels e ! j) = ev # rest \<Longrightarrow>
    dispatch_step i e (en_drop ev reason (en_channel j (\<lambda>c. c\<lparr>ch_buf := rest\<rparr>) e)\<lparr>en_discarded := en_discarded e @ [ev]\<rparr>)"
| take_event: "i < length (en_loops e) \<Longrightarrow> \<not> lp_exited (en_loops e ! i) \<Longrightarrow> lp_held (en_loops e ! i) = None \<Longrightarrow>
    lp_chan (en_loops e ! i) = Some j \<Longrightarrow> ch_buf (en_channels e ! j) = ev # rest \<Longrightarrow>
    dispatch_step i e (en_loop i (\<lambda>l. l\<lparr>lp_held := Some ev\<rparr>) (en_channel j (\<lambda>c. c\<lparr>ch_buf := rest\<rparr>) e))"
| spawn: "i < length (en_loops e) \<Longrightarrow> lp_held (en_loops e ! i) = Some ev \<Longrightarrow>
    int (length (lp_workers (en_loops e ! i))) < cf_workers (en_cfg e) \<Longrightarrow>
    dispatch_step i e (en_loop i (\<lambda>l. l\<lparr>lp_held := None, lp_workers := lp_workers l @ [ev]\<rparr>) e)"
| work: "i < length (en_loops e) \<Longrightarrow> lp_workers (en_loops e ! i) = us @ ev # vs \<Longrightarrow>
    dispatch_step i e ((en_loop i (\<lambda>l. l\<lparr>lp_workers := us @ vs\<rparr>) e)
      \<lparr>en_vp := snd (vp_Process (en_dedup e) inflight now ctx hctx ev (en_vp e)), en_processed := en_processed e @ [ev]\<rparr>)"
| finish: "i < length (en_loops e) \<Longrightarrow> \<not> lp_exited (en_loops e ! i) \<Longrightarrow> lp_held (en_loops e ! i) = None \<Longrightarrow>
    lp_chan (en_loops e ! i) = Some j \<Longrightarrow> ch_buf (en_channels e ! j) = [] \<Longrightarrow> ch_closed (en_channels e ! j) \<Longrightarrow>
    dispatch_step i e (en_loop i (\<lambda>l. l\<lparr>lp_exited := True\<rparr>) e)"

text \<open>All steps of the engine; a panic ends the program.\<close>

inductive engine_step :: "('c, 'h, 'r, 'k) lm_engine \<Rightarrow> ('c, 'h, 'r, 'k) lm_engine \<Rightarrow> bool" where
  start: "\<not> en_panicked e \<Longrightarrow> engine_step e (snd (en_Start e))"
| stop: "\<not> en_panicked e \<Longrightarrow> engine_step e (en_Stop e)"
| reject: "\<not> en_panicked e \<Longrightarrow> \<not> en_running e \<Longrightarrow> engine_step e (snd (en_Submit cerr pick ev e))"
| read: "\<not> en_panicked e \<Longrightarrow> en_running e \<Longrightarrow>
    engine_step e (e\<lparr>en_submitting := (length (en_channels e) - 1, ev) # en_submitting e\<rparr>)"
| select: "\<not> en_panicked e \<Longrightarrow> en_submitting e = us @ (i, ev) # vs \<Longrightarrow>
    engine_step e ((snd (submit_select cerr pick i ev e))\<lparr>en_submitting := us @ vs\<rparr>)"
| dispatch: "\<not> en_panicked e \<Longrightarrow> dispatch_step i e e' \<Longrightarrow> engine_step e e'"
| finalize: "\<not> en_panicked e \<Longrightarrow> engine_step e (snd (en_FinalizeVertex sha256 srt now v e))"

inductive engine_reach :: "('c, 'h, 'r, 'k) lm_engine \<Rightarrow> ('c, 'h, 'r, 'k) lm_engine \<Rightarrow> bool" where
  reach_refl: "engine_reach e e"
| reach_step: "engine_reach e e' \<Longrightarrow> engine_step e' e'' \<Longrightarrow> engine_reach e e''"

inductive_cases dispatch_stepE: "dispatch_step i e e'"
inductive_cases engine_stepE: "engine_step e e'"

section \<open>The invariant\<close>

text \<open>The events in the channels and in the hands of the loops and workers; what holds of each.\<close>

definition in_channels :: "channel list \<Rightarrow> lm_event multiset" where
  "in_channels cs = sum_list (map (\<lambda>c. mset (ch_buf c)) cs)"

definition in_loop :: "dispatch_loop \<Rightarrow> lm_event multiset" where
  "in_loop l = (case lp_held l of None \<Rightarrow> {#} | Some ev \<Rightarrow> {#ev#}) + mset (lp_workers l)"

definition in_loops :: "dispatch_loop list \<Rightarrow> lm_event multiset" where
  "in_loops ls = sum_list (map in_loop ls)"

definition loop_ok :: "engine_config \<Rightarrow> channel list \<Rightarrow> dispatch_loop \<Rightarrow> bool" where
  "loop_ok cf cs l \<longleftrightarrow> int (length (lp_workers l)) \<le> cf_workers cf
     \<and> (\<forall>j. lp_chan l = Some j \<longrightarrow> j < length cs)
     \<and> (lp_chan l = None \<longrightarrow> lp_held l = None \<and> lp_workers l = [] \<and> \<not> lp_exited l)
     \<and> (lp_exited l \<longrightarrow> lp_held l = None \<and> (\<exists>j. lp_chan l = Some j \<and> ch_closed (cs ! j) \<and> ch_buf (cs ! j) = []))"

definition engine_ok :: "('c, 'h, 'r, 'k) lm_engine \<Rightarrow> bool" where
  "engine_ok e \<longleftrightarrow> 0 < cf_workers (en_cfg e) \<and> 0 < cf_eventBufSize (en_cfg e)
     \<and> length (en_loops e) = length (en_channels e)
     \<and> (\<forall>c \<in> set (en_channels e). int (length (ch_buf c)) \<le> cf_eventBufSize (en_cfg e))
     \<and> (\<forall>l \<in> set (en_loops e). loop_ok (en_cfg e) (en_channels e) l)
     \<and> (\<forall>i < length (en_channels e). \<not> ch_closed (en_channels e ! i) \<longleftrightarrow> en_running e \<and> Suc i = length (en_channels e))
     \<and> (en_running e \<longrightarrow> en_channels e \<noteq> [])
     \<and> (\<forall>(i, ev) \<in> set (en_submitting e). i < length (en_channels e))
     \<and> mset (en_accepted e) = in_channels (en_channels e) + in_loops (en_loops e) + mset (en_processed e) + mset (en_discarded e)"

lemma sum_list_update:
  "i < length xs \<Longrightarrow> sum_list (map f (xs[i := x])) + f (xs ! i) = sum_list (map f xs) + (f x :: 'a :: comm_monoid_add)"
proof (induction xs arbitrary: i)
  case (Cons y xs)
  then show ?case by (cases i) (auto simp: ac_simps)
qed simp

lemma in_channels_snoc [simp]: "in_channels (cs @ [c]) = in_channels cs + mset (ch_buf c)" "in_channels [] = {#}"
  by (simp_all add: in_channels_def)

lemma in_loops_snoc [simp]: "in_loops (ls @ [l]) = in_loops ls + in_loop l" "in_loops [] = {#}"
  by (simp_all add: in_loops_def)

lemma hooked_simps [simp]:
  "en_cfg (en_hooked f e) = en_cfg e" "en_channels (en_hooked f e) = en_channels e" "en_loops (en_hooked f e) = en_loops e"
  "en_running (en_hooked f e) = en_running e"
  "en_submitting (en_hooked f e) = en_submitting e" "en_accepted (en_hooked f e) = en_accepted e"
  "en_processed (en_hooked f e) = en_processed e" "en_discarded (en_hooked f e) = en_discarded e"
  "en_panicked (en_hooked f e) = en_panicked e"
  by (simp_all add: en_hooked_def)

lemma loop_simps [simp]:
  "en_cfg (en_loop i f e) = en_cfg e" "en_channels (en_loop i f e) = en_channels e"
  "en_loops (en_loop i f e) = (en_loops e)[i := f (en_loops e ! i)]"
  "en_running (en_loop i f e) = en_running e" "en_submitting (en_loop i f e) = en_submitting e"
  "en_accepted (en_loop i f e) = en_accepted e" "en_processed (en_loop i f e) = en_processed e"
  "en_discarded (en_loop i f e) = en_discarded e" "en_panicked (en_loop i f e) = en_panicked e"
  by (simp_all add: en_loop_def)

lemma channel_simps [simp]:
  "en_cfg (en_channel i f e) = en_cfg e" "en_loops (en_channel i f e) = en_loops e"
  "en_channels (en_channel i f e) = (en_channels e)[i := f (en_channels e ! i)]"
  "en_running (en_channel i f e) = en_running e" "en_submitting (en_channel i f e) = en_submitting e"
  "en_accepted (en_channel i f e) = en_accepted e" "en_processed (en_channel i f e) = en_processed e"
  "en_discarded (en_channel i f e) = en_discarded e" "en_panicked (en_channel i f e) = en_panicked e"
  by (simp_all add: en_channel_def)

lemma balance:
  fixes A :: "'a multiset"
  assumes "C' + c = C + c2" "L' + l = L + l2" "A = C + L + P + D" "A' + c + l + P + D = A + c2 + l2 + P' + D'"
  shows "A' = C' + L' + P' + D'"
proof (rule multiset_eqI)
  fix x
  show "count A' x = count (C' + L' + P' + D') x"
    using assms [THEN arg_cong [where f = "\<lambda>m. count m x"]] by simp
qed

text \<open>
  Changing one channel and one loop: the channel stays open or closed, a closed empty one stays empty,
  and the events move between channel, loop and history.
\<close>

lemma loop_ok_channel:
  assumes "loop_ok cf cs l" "j < length cs" "ch_closed c = ch_closed (cs ! j)"
    "ch_closed c \<and> ch_buf (cs ! j) = [] \<longrightarrow> ch_buf c = []"
  shows "loop_ok cf (cs[j := c]) l"
  using assms by (auto simp: loop_ok_def nth_list_update)

lemma engine_ok_update:
  assumes "engine_ok e" "i < length (en_loops e)" "j < length (en_channels e)"
    and "en_loops e' = (en_loops e)[i := l]" "en_channels e' = (en_channels e)[j := c]"
    and "en_cfg e' = en_cfg e" "en_running e' = en_running e" "set (en_submitting e') \<subseteq> set (en_submitting e)"
    and "ch_closed c = ch_closed (en_channels e ! j)" "ch_closed c \<and> ch_buf (en_channels e ! j) = [] \<longrightarrow> ch_buf c = []"
    and "int (length (ch_buf c)) \<le> cf_eventBufSize (en_cfg e)" "loop_ok (en_cfg e) (en_channels e') l"
    and "mset (en_accepted e') + mset (ch_buf (en_channels e ! j)) + in_loop (en_loops e ! i) + mset (en_processed e) + mset (en_discarded e)
       = mset (en_accepted e) + mset (ch_buf c) + in_loop l + mset (en_processed e') + mset (en_discarded e')"
  shows "engine_ok e'"
proof -
  have "in_channels (en_channels e') + mset (ch_buf (en_channels e ! j)) = in_channels (en_channels e) + mset (ch_buf c)"
    "in_loops (en_loops e') + in_loop (en_loops e ! i) = in_loops (en_loops e) + in_loop l"
    using sum_list_update [OF assms(3), of "\<lambda>c. mset (ch_buf c)" c] sum_list_update [OF assms(2), of in_loop l]
    unfolding in_channels_def in_loops_def assms(4,5) by simp_all
  moreover have "mset (en_accepted e) = in_channels (en_channels e) + in_loops (en_loops e) + mset (en_processed e) + mset (en_discarded e)"
    using assms(1) by (simp add: engine_ok_def)
  ultimately have "mset (en_accepted e') = in_channels (en_channels e') + in_loops (en_loops e') + mset (en_processed e') + mset (en_discarded e')"
    using assms(13) by (rule balance)
  moreover have "loop_ok (en_cfg e) (en_channels e') m" if "m \<in> set (en_loops e')" for m
  proof (cases "m = l")
    case False
    then have "m \<in> set (en_loops e)" using that set_update_subset_insert unfolding assms(4) by fastforce
    then have "loop_ok (en_cfg e) (en_channels e) m" using assms(1) by (simp add: engine_ok_def)
    then show ?thesis unfolding assms(5) by (rule loop_ok_channel [OF _ assms(3,9,10)])
  qed (use assms(12) in simp)
  moreover have "int (length (ch_buf b)) \<le> cf_eventBufSize (en_cfg e)" if "b \<in> set (en_channels e')" for b
    using assms(1,11) that set_update_subset_insert unfolding assms(5) by (fastforce simp: engine_ok_def)
  moreover have "ch_closed (en_channels e' ! k) = ch_closed (en_channels e ! k)" if "k < length (en_channels e)" for k
    using that assms(3,5,9) by (cases "k = j") simp_all
  ultimately show ?thesis using assms(1,4-8) by (auto simp: engine_ok_def)
qed

text \<open>A step of a loop alone.\<close>

lemma engine_ok_loop:
  assumes "engine_ok e" "i < length (en_loops e)" "en_loops e' = (en_loops e)[i := l]" "en_channels e' = en_channels e"
    and "en_cfg e' = en_cfg e" "en_running e' = en_running e" "en_submitting e' = en_submitting e"
    and "loop_ok (en_cfg e) (en_channels e) l"
    and "mset (en_accepted e') + in_loop (en_loops e ! i) + mset (en_processed e) + mset (en_discarded e)
       = mset (en_accepted e) + in_loop l + mset (en_processed e') + mset (en_discarded e')"
  shows "engine_ok e'"
proof -
  have i: "i < length (en_channels e)" using assms(1,2) by (simp add: engine_ok_def)
  then have "int (length (ch_buf (en_channels e ! i))) \<le> cf_eventBufSize (en_cfg e)"
    using assms(1) by (simp add: engine_ok_def)
  then show ?thesis
    by (intro engine_ok_update [OF assms(1,2) i assms(3), where c = "en_channels e ! i"])
      (use assms in \<open>simp_all add: ac_simps\<close>)
qed

lemma dispatch_ok:
  assumes "dispatch_step i e e'" "engine_ok e"
  shows "engine_ok e'"
proof -
  have l: "loop_ok (en_cfg e) (en_channels e) (en_loops e ! i)" if "i < length (en_loops e)"
    using assms(2) that by (simp add: engine_ok_def)
  have j: "j < length (en_channels e) \<and> int (length (ch_buf (en_channels e ! j))) \<le> cf_eventBufSize (en_cfg e)"
    if "i < length (en_loops e)" "lp_chan (en_loops e ! i) = Some j" for j
    using assms(2) l [OF that(1)] that(2) by (simp add: engine_ok_def loop_ok_def)
  show ?thesis using assms(1)
  proof cases
    case (read_field j)
    show ?thesis
      by (rule engine_ok_loop [OF assms(2) read_field(2), where l = "(en_loops e ! i)\<lparr>lp_chan := Some j\<rparr>"])
        (use read_field l in \<open>simp_all add: loop_ok_def in_loop_def\<close>)
  next
    case (discard j ev rest reason)
    note jj = j [OF discard(2,5)]
    have "loop_ok (en_cfg e) ((en_channels e)[j := (en_channels e ! j)\<lparr>ch_buf := rest\<rparr>]) (en_loops e ! i)"
      by (rule loop_ok_channel) (use l discard jj in simp_all)
    then show ?thesis
      by (intro engine_ok_update [OF assms(2) discard(2) conjunct1 [OF jj], where l = "en_loops e ! i" and c = "(en_channels e ! j)\<lparr>ch_buf := rest\<rparr>"])
        (use discard jj in simp_all)
  next
    case (take_event j ev rest)
    note jj = j [OF take_event(2,5)]
    have "loop_ok (en_cfg e) ((en_channels e)[j := (en_channels e ! j)\<lparr>ch_buf := rest\<rparr>]) (en_loops e ! i)"
      by (rule loop_ok_channel) (use l take_event jj in simp_all)
    then have "loop_ok (en_cfg e) ((en_channels e)[j := (en_channels e ! j)\<lparr>ch_buf := rest\<rparr>]) ((en_loops e ! i)\<lparr>lp_held := Some ev\<rparr>)"
      using take_event by (simp add: loop_ok_def)
    then show ?thesis
      by (intro engine_ok_update [OF assms(2) take_event(2) conjunct1 [OF jj],
            where l = "(en_loops e ! i)\<lparr>lp_held := Some ev\<rparr>" and c = "(en_channels e ! j)\<lparr>ch_buf := rest\<rparr>"])
        (use take_event jj in \<open>simp_all add: in_loop_def\<close>)
  next
    case (spawn ev)
    show ?thesis
      by (rule engine_ok_loop [OF assms(2) spawn(2),
            where l = "(en_loops e ! i)\<lparr>lp_held := None, lp_workers := lp_workers (en_loops e ! i) @ [ev]\<rparr>"])
        (use spawn l in \<open>auto simp: loop_ok_def in_loop_def\<close>)
  next
    case (work us ev vs inflight now ctx hctx)
    show ?thesis
      by (rule engine_ok_loop [OF assms(2) work(2), where l = "(en_loops e ! i)\<lparr>lp_workers := us @ vs\<rparr>"])
        (use work l in \<open>auto simp: loop_ok_def in_loop_def\<close>)
  next
    case (finish j)
    show ?thesis
      by (rule engine_ok_loop [OF assms(2) finish(2), where l = "(en_loops e ! i)\<lparr>lp_exited := True\<rparr>"])
        (use finish l in \<open>auto simp: loop_ok_def in_loop_def\<close>)
  qed
qed

lemma engine_ok_same:
  assumes "engine_ok e" "en_cfg e' = en_cfg e" "en_channels e' = en_channels e" "en_loops e' = en_loops e"
    "en_running e' = en_running e" "\<forall>(i, ev) \<in> set (en_submitting e'). i < length (en_channels e)"
    "en_accepted e' = en_accepted e" "en_processed e' = en_processed e" "en_discarded e' = en_discarded e"
  shows "engine_ok e'"
  using assms by (simp add: engine_ok_def)

lemma loop_ok_append: "loop_ok cf cs l \<Longrightarrow> loop_ok cf (cs @ [c]) l"
  by (auto simp: loop_ok_def nth_append)

lemma Start_ok: "engine_ok e \<Longrightarrow> engine_ok (snd (en_Start e))"
  by (auto simp: en_Start_def engine_ok_def loop_ok_append nth_append less_Suc_eq)
    (simp_all add: loop_ok_def in_loop_def)

lemma Stop_ok:
  assumes "engine_ok e"
  shows "engine_ok (en_Stop e)"
proof (cases "en_running e")
  case True
  let ?i = "length (en_channels e) - 1"
  let ?c = "(en_channels e ! ?i)\<lparr>ch_closed := True\<rparr>"
  have i: "?i < length (en_channels e)" "Suc ?i = length (en_channels e)" using assms True by (auto simp: engine_ok_def)
  have "in_channels ((en_channels e)[?i := ?c]) = in_channels (en_channels e)"
    using sum_list_update [OF i(1), of "\<lambda>c. mset (ch_buf c)" ?c] by (simp add: in_channels_def)
  moreover have "int (length (ch_buf ?c)) \<le> cf_eventBufSize (en_cfg e)" using assms i(1) by (simp add: engine_ok_def)
  moreover have "loop_ok (en_cfg e) ((en_channels e)[?i := ?c]) l" if "l \<in> set (en_loops e)" for l
  proof -
    have "loop_ok (en_cfg e) (en_channels e) l" using assms that by (simp add: engine_ok_def)
    then show ?thesis using i by (auto simp: loop_ok_def nth_list_update)
  qed
  ultimately show ?thesis using assms True i
    by (auto simp: en_Stop_def Let_def engine_ok_def nth_list_update dest!: set_update_subset_insert [THEN subsetD])
qed (use assms in \<open>simp add: en_Stop_def\<close>)

lemma select_ok:
  assumes "engine_ok e" "i < length (en_channels e)" "set sub \<subseteq> set (en_submitting e)"
  shows "engine_ok ((snd (submit_select cerr pick i ev e))\<lparr>en_submitting := sub\<rparr>)"
proof -
  let ?ch = "en_channels e ! i"
  have sub: "\<forall>(j, ev) \<in> set sub. j < length (en_channels e)" using assms(1,3) by (auto simp: engine_ok_def)
  have i: "i < length (en_loops e)" using assms(1,2) by (simp add: engine_ok_def)
  show ?thesis
  proof (cases "(cerr = None \<or> \<not> pick) \<and> \<not> ch_closed ?ch \<and> int (length (ch_buf ?ch)) < cf_eventBufSize (en_cfg e)")
    case True
    let ?c = "?ch\<lparr>ch_buf := ch_buf ?ch @ [ev]\<rparr>"
    have "loop_ok (en_cfg e) (en_channels e) (en_loops e ! i)" using assms(1) i by (simp add: engine_ok_def)
    then have "loop_ok (en_cfg e) ((en_channels e)[i := ?c]) (en_loops e ! i)"
      by (rule loop_ok_channel) (use True assms(2) in simp_all)
    then show ?thesis
      by (intro engine_ok_update [OF assms(1) i assms(2), where l = "en_loops e ! i" and c = ?c])
        (use True assms(3) in \<open>auto simp: submit_select_def Let_def\<close>)
  next
    case False
    show ?thesis by (rule engine_ok_same [OF assms(1)]) (use False sub in \<open>auto simp: submit_select_def Let_def\<close>)
  qed
qed

lemma step_ok:
  assumes "engine_step e e'" "engine_ok e"
  shows "engine_ok e'"
  using assms(1)
proof cases
  case (reject cerr pick ev)
  then show ?thesis by (intro engine_ok_same [OF assms(2)]) (use assms(2) in \<open>auto simp: en_Submit_def engine_ok_def\<close>)
next
  case (read ev)
  then show ?thesis by (intro engine_ok_same [OF assms(2)]) (use assms(2) in \<open>auto simp: engine_ok_def\<close>)
next
  case (select us i ev vs cerr pick)
  have "i < length (en_channels e)" using assms(2) select(3) by (auto simp: engine_ok_def)
  then show ?thesis unfolding select(1) by (rule select_ok [OF assms(2)]) (use select(3) in auto)
next
  case (finalize sha256 srt now v)
  then show ?thesis by (intro engine_ok_same [OF assms(2)]) (use assms(2) in \<open>auto simp: en_FinalizeVertex_def engine_ok_def case_prod_unfold Let_def\<close>)
qed (use assms(2) in \<open>auto intro: dispatch_ok Start_ok Stop_ok\<close>)

lemma reach_ok: "engine_reach e e' \<Longrightarrow> engine_ok e \<Longrightarrow> engine_ok e'"
  by (induction rule: engine_reach.induct) (auto intro: step_ok)

text \<open>Options keep the sizes positive.\<close>

definition good_option :: "('c, 'h, 'r, 'k) engine_option \<Rightarrow> bool" where
  "good_option opt \<longleftrightarrow> (\<forall>e. 0 < cf_workers (ep_cfg e) \<and> 0 < cf_eventBufSize (ep_cfg e)
     \<longrightarrow> 0 < cf_workers (ep_cfg (opt e)) \<and> 0 < cf_eventBufSize (ep_cfg (opt e)))"

lemma options_good:
  "good_option (WithFileHasher h)" "good_option (WithHashCache c)" "good_option (WithResolver r)" "good_option (WithHook hk)"
  "good_option (WithWorkers n)" "good_option (WithEventBufferSize n)" "good_option (WithCacheCapacity n)"
  "good_option (WithPredefinedRegistry reg)" "good_option (WithOnTree fn)"
  by (simp_all add: good_option_def WithFileHasher_def WithHashCache_def WithResolver_def WithHook_def WithWorkers_def
      WithEventBufferSize_def WithCacheCapacity_def WithPredefinedRegistry_def WithOnTree_def)

lemma apply_good:
  "\<forall>opt \<in> set opts. good_option opt \<Longrightarrow> 0 < cf_workers (ep_cfg e) \<and> 0 < cf_eventBufSize (ep_cfg e) \<Longrightarrow>
    0 < cf_workers (ep_cfg (fold (\<lambda>o1. o1) opts e)) \<and> 0 < cf_eventBufSize (ep_cfg (fold (\<lambda>o1. o1) opts e))"
  by (induction opts arbitrary: e) (simp_all add: good_option_def)

lemma applyDefaults_cfg [simp]: "ep_cfg (applyDefaults df e) = ep_cfg e"
  by (simp add: applyDefaults_def Let_def)

lemma en_wire_simps [simp]:
  "en_cfg (en_wire k e) = ep_cfg e" "en_channels (en_wire k e) = []" "en_loops (en_wire k e) = []" "en_running (en_wire k e) = False" "en_submitting (en_wire k e) = []"
  "en_accepted (en_wire k e) = []" "en_processed (en_wire k e) = []" "en_discarded (en_wire k e) = []" "en_panicked (en_wire k e) = False"
  by (simp_all add: en_wire_def case_prod_unfold Let_def)

lemma NewEngine_ok:
  assumes "0 < numCPU" "\<forall>opt \<in> set opts. good_option opt"
  shows "engine_ok (NewEngine numCPU df k opts)"
  using apply_good [OF assms(2), of "\<lparr>ep_cfg = defaultEngineConfig numCPU, ep_registry = NewLayerRegistry, ep_cache = None, ep_hasher = None,
               ep_resolver = None, ep_hooks = NewHookChain [], ep_onTree = None\<rparr>"] assms(1)
  by (simp add: NewEngine_def Let_def engine_ok_def defaultEngineConfig_def)

section \<open>Properties\<close>

text \<open>
  The channels no loop ranges over: those whose loop has not read the field yet, and those whose loop
  read it after a later \<open>Start\<close> had replaced it.
\<close>

definition unread_channels :: "('c, 'h, 'r, 'k) lm_engine \<Rightarrow> channel list" where
  "unread_channels e = map (nth (en_channels e))
     (filter (\<lambda>j. \<forall>l \<in> set (en_loops e). lp_chan l \<noteq> Some j) [0..<length (en_channels e)])"

lemma idle_loops:
  assumes "en_idle e" "engine_ok e"
  shows "in_loops (en_loops e) = {#}"
proof -
  have "\<forall>l \<in> set (en_loops e). in_loop l = {#}"
    using assms by (auto simp: en_idle_def engine_ok_def loop_ok_def in_loop_def)
  moreover have "\<forall>l \<in> set ls. in_loop l = {#} \<Longrightarrow> in_loops ls = {#}" for ls
    by (induction ls) (simp_all add: in_loops_def)
  ultimately show ?thesis by blast
qed

lemma idle_channels:
  assumes "en_idle e" "engine_ok e"
  shows "in_channels (en_channels e) = in_channels (unread_channels e)"
proof -
  let ?P = "\<lambda>j. \<forall>l \<in> set (en_loops e). lp_chan l \<noteq> Some j" and ?f = "\<lambda>j. mset (ch_buf (en_channels e ! j))"
  have "?f j = {#}" if "\<not> ?P j" for j
  proof -
    from that obtain l where l: "l \<in> set (en_loops e)" "lp_chan l = Some j" by blast
    then have "lp_exited l" "loop_ok (en_cfg e) (en_channels e) l" using assms by (auto simp: en_idle_def engine_ok_def)
    then show ?thesis using l(2) by (auto simp: loop_ok_def)
  qed
  then have "sum_list (map ?f (filter ?P [0..<length (en_channels e)])) = sum_list (map ?f [0..<length (en_channels e)])"
    by (intro sum_list_map_filter) blast
  moreover have "map ?f [0..<length (en_channels e)] = map (\<lambda>c. mset (ch_buf c)) (en_channels e)"
    by (rule nth_equalityI) simp_all
  ultimately show ?thesis by (simp add: in_channels_def unread_channels_def comp_def)
qed

text \<open>
  C6: no accepted event is lost from sight or duplicated, however calls, loops and workers interleave:
  every event sent to a channel is waiting in a channel, in the hands of a loop or worker, processed, or
  discarded (with its hook); channels and workers stay within the configured bounds. Once every loop
  and worker has ended, all accepted events were processed or discarded but those in channels that no
  loop ever read; when each loop read the channel of its own \<open>Start\<close> there are none of these.
\<close>

theorem engine_accounts_for_events:
  assumes "0 < numCPU" "\<forall>opt \<in> set opts. good_option opt" "engine_reach (NewEngine numCPU df k opts) e"
  shows "mset (en_accepted e) = in_channels (en_channels e) + in_loops (en_loops e) + mset (en_processed e) + mset (en_discarded e)
    \<and> (\<forall>c \<in> set (en_channels e). int (length (ch_buf c)) \<le> cf_eventBufSize (en_cfg e))
    \<and> (\<forall>l \<in> set (en_loops e). int (length (lp_workers l)) \<le> cf_workers (en_cfg e))
    \<and> (en_idle e \<longrightarrow> mset (en_accepted e) = in_channels (unread_channels e) + mset (en_processed e) + mset (en_discarded e))
    \<and> (en_idle e \<and> (\<forall>i < length (en_loops e). lp_chan (en_loops e ! i) = Some i) \<longrightarrow>
        mset (en_accepted e) = mset (en_processed e) + mset (en_discarded e))"
proof -
  have ok: "engine_ok e" using reach_ok [OF assms(3)] NewEngine_ok [OF assms(1,2)] by blast
  have "unread_channels e = []" if "\<forall>i < length (en_loops e). lp_chan (en_loops e ! i) = Some i"
  proof -
    have "\<exists>l \<in> set (en_loops e). lp_chan l = Some j" if "j < length (en_channels e)" for j
      using \<open>\<forall>i < _. _\<close> that ok by (auto simp: engine_ok_def intro: bexI [of _ "en_loops e ! j"])
    then show ?thesis by (auto simp: unread_channels_def filter_empty_conv)
  qed
  then show ?thesis
    using ok idle_loops [OF _ ok] idle_channels [OF _ ok] by (auto simp: engine_ok_def loop_ok_def)
qed

text \<open>The work all channels and loops have left.\<close>

definition loop_work :: "dispatch_loop \<Rightarrow> nat" where
  "loop_work l = (if lp_held l = None then 0 else 2) + length (lp_workers l)
     + (if lp_exited l then 0 else if lp_chan l = None then 2 else 1)"

definition engine_work :: "('c, 'h, 'r, 'k) lm_engine \<Rightarrow> nat" where
  "engine_work e = sum_list (map (\<lambda>c. 3 * length (ch_buf c)) (en_channels e)) + sum_list (map loop_work (en_loops e))"

lemma engine_work_update:
  assumes "i < length (en_loops e)" "j < length (en_channels e)"
    and "en_loops e' = (en_loops e)[i := l]" "en_channels e' = (en_channels e)[j := c]"
  shows "engine_work e' + 3 * length (ch_buf (en_channels e ! j)) + loop_work (en_loops e ! i)
    = engine_work e + 3 * length (ch_buf c) + loop_work l"
  using sum_list_update [OF assms(2), of "\<lambda>c. 3 * length (ch_buf c)" c] sum_list_update [OF assms(1), of loop_work l]
  unfolding engine_work_def assms(3,4) by linarith

lemma engine_work_loop:
  assumes "i < length (en_loops e)" "en_loops e' = (en_loops e)[i := l]" "en_channels e' = en_channels e"
  shows "engine_work e' + loop_work (en_loops e ! i) = engine_work e + loop_work l"
  using sum_list_update [OF assms(1), of loop_work l] unfolding engine_work_def assms(2,3) by linarith

lemma dispatch_work:
  assumes "dispatch_step i e e'" "engine_ok e"
  shows "engine_work e' < engine_work e"
proof -
  have j: "j < length (en_channels e)" if "i < length (en_loops e)" "lp_chan (en_loops e ! i) = Some j" for j
  proof -
    have "loop_ok (en_cfg e) (en_channels e) (en_loops e ! i)" using assms(2) that(1) by (simp add: engine_ok_def)
    then show ?thesis using that(2) by (simp add: loop_ok_def)
  qed
  have l: "lp_chan (en_loops e ! i) = None \<Longrightarrow> \<not> lp_exited (en_loops e ! i)" if "i < length (en_loops e)"
    using assms(2) that by (auto simp: engine_ok_def loop_ok_def)
  show ?thesis using assms(1)
  proof cases
    case (read_field j)
    then show ?thesis
      using engine_work_loop [of i e e' "(en_loops e ! i)\<lparr>lp_chan := Some j\<rparr>"] l by (simp add: loop_work_def)
  next
    case (discard j ev rest reason)
    then show ?thesis
      using engine_work_update [OF discard(2) j [OF discard(2,5)], of e' "en_loops e ! i" "(en_channels e ! j)\<lparr>ch_buf := rest\<rparr>"]
      by simp
  next
    case (take_event j ev rest)
    then show ?thesis
      using engine_work_update [OF take_event(2) j [OF take_event(2,5)],
          of e' "(en_loops e ! i)\<lparr>lp_held := Some ev\<rparr>" "(en_channels e ! j)\<lparr>ch_buf := rest\<rparr>"]
      by (simp add: loop_work_def)
  next
    case (spawn ev)
    then show ?thesis
      using engine_work_loop [of i e e' "(en_loops e ! i)\<lparr>lp_held := None, lp_workers := lp_workers (en_loops e ! i) @ [ev]\<rparr>"]
      by (auto simp: loop_work_def split: if_splits)
  next
    case (work us ev vs inflight now ctx hctx)
    then show ?thesis
      using engine_work_loop [of i e e' "(en_loops e ! i)\<lparr>lp_workers := us @ vs\<rparr>"]
      by (auto simp: loop_work_def split: if_splits)
  next
    case (finish j)
    then show ?thesis
      using engine_work_loop [of i e e' "(en_loops e ! i)\<lparr>lp_exited := True\<rparr>"] by (simp add: loop_work_def)
  qed
qed

lemma dispatch_progress:
  assumes "engine_ok e" "\<not> en_running e" "i < length (en_loops e)"
    and "\<not> (lp_exited (en_loops e ! i) \<and> lp_workers (en_loops e ! i) = [])"
  shows "\<exists>e'. dispatch_step i e e'"
proof (cases "lp_workers (en_loops e ! i)")
  case (Cons ev vs)
  then have "lp_workers (en_loops e ! i) = [] @ ev # vs" by simp
  then show ?thesis using dispatch_step.work [OF assms(3)] by blast
next
  case no_worker: Nil
  have ok: "loop_ok (en_cfg e) (en_channels e) (en_loops e ! i)" using assms(1,3) by (simp add: engine_ok_def)
  show ?thesis
  proof (cases "lp_held (en_loops e ! i)")
    case (Some ev)
    have "int (length (lp_workers (en_loops e ! i))) < cf_workers (en_cfg e)" using no_worker assms(1) by (simp add: engine_ok_def)
    then show ?thesis using dispatch_step.spawn [OF assms(3) Some] by blast
  next
    case None
    have x: "\<not> lp_exited (en_loops e ! i)" using assms(4) no_worker by simp
    show ?thesis
    proof (cases "lp_chan (en_loops e ! i)")
      case None
      moreover have "i < length (en_channels e)" using assms(1,3) by (simp add: engine_ok_def)
      ultimately show ?thesis using dispatch_step.read_field [OF assms(3)] by blast
    next
      case (Some j)
      then have c: "ch_closed (en_channels e ! j)" using ok assms(1,2) by (simp add: loop_ok_def engine_ok_def)
      show ?thesis
      proof (cases "ch_buf (en_channels e ! j)")
        case Nil
        then show ?thesis using dispatch_step.finish [OF assms(3) x None Some _ c] by blast
      next
        case (Cons ev rest)
        then show ?thesis using dispatch_step.take_event [OF assms(3) x None Some] by blast
      qed
    qed
  qed
qed

text \<open>
  C34: \<open>Stop\<close> returns unless the engine is started again. While the engine is not running, every step of
  a loop or worker reduces the work left, one such step is possible until every loop has ended and the
  workers are gone, which is what \<open>Stop\<close> waits for, and no other step but \<open>Start\<close> adds work. A worker's
  \<open>Process\<close> is one step: it is assumed to return.
\<close>

theorem Stop_drains:
  assumes "0 < numCPU" "\<forall>opt \<in> set opts. good_option opt" "engine_reach (NewEngine numCPU df k opts) e"
    and "\<not> en_running e"
  shows "(\<forall>i e'. dispatch_step i e e' \<longrightarrow> engine_work e' < engine_work e)
    \<and> ((\<exists>i e'. dispatch_step i e e') \<or> en_idle e)
    \<and> (\<forall>e'. engine_step e e' \<and> \<not> en_running e' \<longrightarrow> engine_work e' \<le> engine_work e)"
proof -
  have ok: "engine_ok e" using reach_ok [OF assms(3)] NewEngine_ok [OF assms(1,2)] by blast
  have "engine_work e' \<le> engine_work e" if "engine_step e e'" "\<not> en_running e'" for e'
    using that(1)
  proof cases
    case start
    then show ?thesis using that(2) by (simp add: en_Start_def assms(4))
  next
    case (select us j ev vs cerr pick)
    have "j < length (en_channels e)" using ok select(3) by (auto simp: engine_ok_def)
    then have "ch_closed (en_channels e ! j)" using ok assms(4) by (simp add: engine_ok_def)
    then show ?thesis using select by (simp add: submit_select_def engine_work_def Let_def)
  next
    case (dispatch j)
    then show ?thesis using dispatch_work [OF _ ok] by (metis less_imp_le)
  next
    case (finalize sha256 srt now v)
    then show ?thesis by (simp add: en_FinalizeVertex_def case_prod_unfold Let_def engine_work_def)
  qed (use assms(4) in \<open>simp_all add: en_Submit_def en_Stop_def engine_work_def\<close>)
  moreover have "(\<exists>i e'. dispatch_step i e e') \<or> en_idle e"
    using dispatch_progress [OF ok assms(4)] unfolding en_idle_def by (metis in_set_conv_nth)
  ultimately show ?thesis using dispatch_work [OF _ ok] by blast
qed

text \<open>
  \<open>Start\<close> races with the loop of the \<open>Start\<close> before it. The loop reads \<open>e.eventCh\<close> when it gets to run,
  without the lock. If the engine was stopped and started again by then, it ranges over the new
  channel, and an event accepted before the \<open>Stop\<close> is never taken from the old one: the engine ends
  idle and stopped with the event neither processed nor discarded.
\<close>

theorem early_restart_strands_event:
  assumes "0 < numCPU" "\<forall>opt \<in> set opts. good_option opt"
  shows "\<exists>e. engine_reach (NewEngine numCPU df k opts) e \<and> en_idle e \<and> \<not> en_running e
    \<and> en_accepted e = [ev] \<and> en_processed e = [] \<and> en_discarded e = []"
proof -
  define e0 where "e0 = NewEngine numCPU df k opts"
  let ?open = "\<lambda>evs. \<lparr>ch_buf = evs, ch_closed = False\<rparr>" and ?shut = "\<lambda>evs. \<lparr>ch_buf = evs, ch_closed = True\<rparr>"
  let ?loop = "\<lambda>ch x. \<lparr>lp_chan = ch, lp_held = None, lp_workers = [], lp_exited = x\<rparr>"
  have f: "en_channels e0 = []" "en_loops e0 = []" "\<not> en_running e0" "en_submitting e0 = []" "\<not> en_panicked e0"
      "en_accepted e0 = []" "en_processed e0 = []" "en_discarded e0 = []"
    by (simp_all add: e0_def NewEngine_def Let_def)
  have b: "0 < cf_eventBufSize (en_cfg e0)" using NewEngine_ok [OF assms, of df k] by (simp add: engine_ok_def e0_def)
  define st where "st = (\<lambda>run cs ls sub acc. \<lparr>en_cfg = en_cfg e0, en_registry = en_registry e0, en_dedup = en_dedup e0,
      en_vp = en_vp e0, en_onTree = en_onTree e0, en_running = run, en_channels = cs, en_loops = ls, en_submitting = sub,
      en_panicked = False, en_accepted = acc, en_processed = [], en_discarded = []\<rparr>)"
  have 1: "engine_step e0 (st True [?open []] [?loop None False] [] [])"
  proof -
    have "snd (en_Start e0) = st True [?open []] [?loop None False] [] []"
      by (rule lm_engine.equality) (use f in \<open>simp_all add: en_Start_def st_def\<close>)
    then show ?thesis using engine_step.start [OF f(5)] by simp
  qed
  have 2: "engine_step (st True [?open []] [?loop None False] [] []) (st True [?open []] [?loop None False] [(0, ev)] [])"
    using engine_step.read [of "st True [?open []] [?loop None False] [] []" ev] f by (simp add: st_def)
  have 3: "engine_step (st True [?open []] [?loop None False] [(0, ev)] []) (st True [?open [ev]] [?loop None False] [] [ev])"
    using engine_step.select [of "st True [?open []] [?loop None False] [(0, ev)] []" "[]" 0 ev "[]" None False] f b
    by (simp add: st_def submit_select_def)
  have 4: "engine_step (st True [?open [ev]] [?loop None False] [] [ev]) (st False [?shut [ev]] [?loop None False] [] [ev])"
    using engine_step.stop [of "st True [?open [ev]] [?loop None False] [] [ev]"] f by (simp add: st_def en_Stop_def)
  have 5: "engine_step (st False [?shut [ev]] [?loop None False] [] [ev])
      (st True [?shut [ev], ?open []] [?loop None False, ?loop None False] [] [ev])"
    using engine_step.start [of "st False [?shut [ev]] [?loop None False] [] [ev]"] f by (simp add: st_def en_Start_def)
  have 6: "engine_step (st True [?shut [ev], ?open []] [?loop None False, ?loop None False] [] [ev])
      (st True [?shut [ev], ?open []] [?loop (Some 1) False, ?loop None False] [] [ev])"
    using engine_step.dispatch [OF _ dispatch_step.read_field [of 0 "st True [?shut [ev], ?open []] [?loop None False, ?loop None False] [] [ev]" 1]] f
    by (simp add: st_def en_loop_def)
  have 7: "engine_step (st True [?shut [ev], ?open []] [?loop (Some 1) False, ?loop None False] [] [ev])
      (st True [?shut [ev], ?open []] [?loop (Some 1) False, ?loop (Some 1) False] [] [ev])"
    using engine_step.dispatch [OF _ dispatch_step.read_field [of 1 "st True [?shut [ev], ?open []] [?loop (Some 1) False, ?loop None False] [] [ev]" 1]] f
    by (simp add: st_def en_loop_def)
  have 8: "engine_step (st True [?shut [ev], ?open []] [?loop (Some 1) False, ?loop (Some 1) False] [] [ev])
      (st False [?shut [ev], ?shut []] [?loop (Some 1) False, ?loop (Some 1) False] [] [ev])"
    using engine_step.stop [of "st True [?shut [ev], ?open []] [?loop (Some 1) False, ?loop (Some 1) False] [] [ev]"] f
    by (simp add: st_def en_Stop_def)
  have 9: "engine_step (st False [?shut [ev], ?shut []] [?loop (Some 1) False, ?loop (Some 1) False] [] [ev])
      (st False [?shut [ev], ?shut []] [?loop (Some 1) True, ?loop (Some 1) False] [] [ev])"
    using engine_step.dispatch [OF _ dispatch_step.finish [of 0 "st False [?shut [ev], ?shut []] [?loop (Some 1) False, ?loop (Some 1) False] [] [ev]" 1]] f
    by (simp add: st_def en_loop_def)
  have 10: "engine_step (st False [?shut [ev], ?shut []] [?loop (Some 1) True, ?loop (Some 1) False] [] [ev])
      (st False [?shut [ev], ?shut []] [?loop (Some 1) True, ?loop (Some 1) True] [] [ev])"
    using engine_step.dispatch [OF _ dispatch_step.finish [of 1 "st False [?shut [ev], ?shut []] [?loop (Some 1) True, ?loop (Some 1) False] [] [ev]" 1]] f
    by (simp add: st_def en_loop_def)
  have "engine_reach e0 (st False [?shut [ev], ?shut []] [?loop (Some 1) True, ?loop (Some 1) True] [] [ev])"
    by (rule engine_reach.reach_step [OF _ 10], rule engine_reach.reach_step [OF _ 9], rule engine_reach.reach_step [OF _ 8],
        rule engine_reach.reach_step [OF _ 7], rule engine_reach.reach_step [OF _ 6], rule engine_reach.reach_step [OF _ 5],
        rule engine_reach.reach_step [OF _ 4], rule engine_reach.reach_step [OF _ 3], rule engine_reach.reach_step [OF _ 2],
        rule engine_reach.reach_step [OF engine_reach.reach_refl 1])
  moreover have "en_idle (st False [?shut [ev], ?shut []] [?loop (Some 1) True, ?loop (Some 1) True] [] [ev])"
    by (simp add: st_def en_idle_def)
  ultimately show ?thesis using f unfolding e0_def [symmetric]
    by (intro exI [of _ "st False [?shut [ev], ?shut []] [?loop (Some 1) True, ?loop (Some 1) True] [] [ev]"]) (simp add: st_def)
qed

text \<open>
  \<open>Submit\<close> and \<open>Stop\<close> race: \<open>Submit\<close> checks \<open>running\<close> under the lock and sends after releasing it. If
  \<open>Stop\<close> closes the channel in between, the send panics. This is reachable from every new engine
  with any event, and it is the only way to a panic.
\<close>

theorem Submit_races_with_Stop:
  "(\<exists>e. engine_reach (NewEngine numCPU df k opts) e \<and> en_panicked e)
   \<and> (\<forall>(e :: ('c, 'h, 'r, 'k) lm_engine) e'. engine_step e e' \<longrightarrow> \<not> en_panicked e \<longrightarrow> en_panicked e' \<longrightarrow>
        (\<exists>(i, ev) \<in> set (en_submitting e). ch_closed (en_channels e ! i)))"
proof (intro conjI allI impI)
  define e0 where "e0 = NewEngine numCPU df k opts"
  define e1 where "e1 = snd (en_Start e0)"
  define e2 where "e2 = e1\<lparr>en_submitting := [(0, undefined)]\<rparr>"
  define e3 where "e3 = en_Stop e2"
  define e4 where "e4 = (snd (submit_select None False 0 undefined e3))\<lparr>en_submitting := []\<rparr>"
  have f0: "en_channels e0 = []" "\<not> en_running e0" "en_submitting e0 = []" "\<not> en_panicked e0"
    by (simp_all add: e0_def NewEngine_def Let_def)
  have f1: "length (en_channels e1) = 1" "en_running e1" "en_submitting e1 = []" "\<not> en_panicked e1"
    using f0 by (simp_all add: e1_def en_Start_def)
  have f3: "ch_closed (en_channels e3 ! 0)" "en_submitting e3 = [] @ (0, undefined) # []" "\<not> en_panicked e3"
    using f1 by (simp_all add: e3_def e2_def en_Stop_def Let_def)
  have "engine_reach e0 e1" unfolding e1_def by (rule engine_reach.reach_step [OF engine_reach.reach_refl engine_step.start [OF f0(4)]])
  moreover have "engine_step e1 e2"
    using engine_step.read [OF f1(4,2), of undefined] f1(1,3) by (simp add: e2_def)
  moreover have "engine_step e2 e3" unfolding e3_def by (rule engine_step.stop) (use f1 in \<open>simp add: e2_def\<close>)
  moreover have "engine_step e3 e4" using engine_step.select [OF f3(3,2), of None False] by (simp add: e4_def)
  ultimately have "engine_reach e0 e4" by (blast intro: engine_reach.reach_step)
  moreover have "en_panicked e4" using f3(1) by (simp add: e4_def submit_select_def Let_def)
  ultimately show "\<exists>e. engine_reach (NewEngine numCPU df k opts) e \<and> en_panicked e" unfolding e0_def by blast
next
  fix e e' :: "('c, 'h, 'r, 'k) lm_engine"
  assume s: "engine_step e e'" "\<not> en_panicked e" "en_panicked e'"
  from s(1) show "\<exists>(i, ev) \<in> set (en_submitting e). ch_closed (en_channels e ! i)"
  proof cases
    case (select us i ev vs cerr pick)
    then have "ch_closed (en_channels e ! i)" using s(2,3) by (auto simp: submit_select_def Let_def split: if_splits)
    then show ?thesis using select(3) by auto
  next
    case (dispatch i)
    from dispatch(2) show ?thesis by cases (use s in simp_all)
  qed (use s in \<open>auto simp: en_Start_def en_Stop_def en_Submit_def en_FinalizeVertex_def case_prod_unfold Let_def split: if_splits\<close>)
qed

section \<open>Batches and cache keys\<close>

record batch_result =
  br_Submitted :: int
  br_Dropped :: int
  br_Errors :: "lm_error option list"

text \<open>\<open>cerr\<close> and \<open>pick\<close> of every event are those of its \<open>Submit\<close>.\<close>

fun batch_loop :: "(lm_event \<times> lm_error option \<times> bool) list \<Rightarrow> batch_result \<Rightarrow> ('c, 'h, 'r, 'k) lm_engine
    \<Rightarrow> batch_result \<times> ('c, 'h, 'r, 'k) lm_engine" where
  "batch_loop [] result e = (result, e)"
| "batch_loop ((ev, cerr, pick) # evs) result e =
     (if \<not> IsReadAccess ev
      then batch_loop evs (result\<lparr>br_Dropped := br_Dropped result + 1, br_Errors := br_Errors result @ [None]\<rparr>) e
      else (case en_Submit cerr pick ev e of
          (Some err, e1) \<Rightarrow> batch_loop evs (result\<lparr>br_Dropped := br_Dropped result + 1, br_Errors := br_Errors result @ [Some err]\<rparr>) e1
        | (None, e1) \<Rightarrow> batch_loop evs (result\<lparr>br_Submitted := br_Submitted result + 1, br_Errors := br_Errors result @ [None]\<rparr>) e1))"

definition SubmitBatch :: "(lm_event \<times> lm_error option \<times> bool) list \<Rightarrow> ('c, 'h, 'r, 'k) lm_engine \<Rightarrow> batch_result \<times> ('c, 'h, 'r, 'k) lm_engine" where
  "SubmitBatch events e = batch_loop events \<lparr>br_Submitted = 0, br_Dropped = 0, br_Errors = []\<rparr> e"

text \<open>The encoder's buffer after \<open>Encode\<close>.\<close>

definition key_Encode :: "(bytes \<Rightarrow> bytes) \<Rightarrow> lm_layer \<Rightarrow> string \<Rightarrow> bytes" where
  "key_Encode sha256 layerID relPath = sha256 (bytes_of_string layerID @ [0] @ bytes_of_string relPath)"

definition key_HexString :: "bytes \<Rightarrow> string" where
  "key_HexString buf = hex_encode buf"

definition LittleEndian_Uint64 :: "bytes \<Rightarrow> uint64" where
  "LittleEndian_Uint64 bs = foldr (\<lambda>b w. push_bit 8 w OR ucast b) bs 0"

definition makeFixedCacheKey :: "(bytes \<Rightarrow> bytes) \<Rightarrow> lm_layer \<Rightarrow> string \<Rightarrow> uint64 list" where
  "makeFixedCacheKey sha256 layerID relPath =
     (let s = sha256 (bytes_of_string layerID @ [0] @ bytes_of_string relPath)
      in [LittleEndian_Uint64 (take 8 s), LittleEndian_Uint64 (take 8 (drop 8 s)),
          LittleEndian_Uint64 (take 8 (drop 16 s)), LittleEndian_Uint64 (take 8 (drop 24 s))])"

definition shardIndex :: "uint64 list \<Rightarrow> byte" where
  "shardIndex k = ucast (k ! 0 AND 0xff)"

text \<open>The shard of a key is the first byte of its hash.\<close>

lemma shardIndex_first_byte:
  assumes "sha256 (bytes_of_string l @ [0] @ bytes_of_string p) = b # bs"
  shows "shardIndex (makeFixedCacheKey sha256 l p) = b"
proof (rule bit_word_eqI)
  fix n assume n: "n < LENGTH(8)"
  have m: "bit (0xff :: uint64) n" if "n < 8" for n
  proof -
    have "(0xff :: uint64) = mask 8" by (simp add: mask_eq_exp_minus_1)
    then show ?thesis using that by (simp only: bit_mask_iff) simp
  qed
  show "bit (shardIndex (makeFixedCacheKey sha256 l p)) n \<longleftrightarrow> bit b n"
    using n m [of n] unfolding makeFixedCacheKey_def assms Let_def shardIndex_def
    by (simp add: LittleEndian_Uint64_def bit_simps)
qed

lemma batch_loop_counts:
  "batch_loop evs r e = (r', e') \<Longrightarrow>
    br_Submitted r' + br_Dropped r' = br_Submitted r + br_Dropped r + int (length evs)
    \<and> length (br_Errors r') = length (br_Errors r) + length evs
    \<and> (\<not> en_panicked e' \<longrightarrow> \<not> en_panicked e \<and> int (length (en_accepted e')) - br_Submitted r' = int (length (en_accepted e)) - br_Submitted r)"
proof (induction evs r e arbitrary: r' e' rule: batch_loop.induct)
  case (2 ev cerr pick evs r e)
  show ?case
  proof (cases "IsReadAccess ev")
    case True
    obtain err e1 where s: "en_Submit cerr pick ev e = (err, e1)" by (cases "en_Submit cerr pick ev e")
    have a: "en_panicked e1 \<or> \<not> en_panicked e \<and> int (length (en_accepted e1)) = int (length (en_accepted e)) + (if err = None then 1 else 0)"
      if "\<not> en_panicked e"
      using s that by (auto simp: en_Submit_def submit_select_def Let_def split: if_splits)
    have p: "en_panicked e \<Longrightarrow> en_panicked e1"
      using s by (auto simp: en_Submit_def submit_select_def Let_def split: if_splits)
    show ?thesis
    proof (cases err)
      case None
      show ?thesis using 2(2) [OF _ s [symmetric] None, of r' e'] 2(4) True s None a p by (cases "en_panicked e") auto
    next
      case (Some x)
      show ?thesis using 2(3) [OF _ s [symmetric] Some, of r' e'] 2(4) True s Some a p by (cases "en_panicked e") auto
    qed
  next
    case False
    then show ?thesis using 2(1) [OF False, of r' e'] 2(4) by simp
  qed
qed simp

text \<open>
  A batch reports one outcome per event, every event is either submitted or dropped, and on a
  running engine the submitted ones are exactly the accepted ones.
\<close>

theorem SubmitBatch_reports:
  assumes "SubmitBatch events e = (r, e')" "\<not> en_panicked e'"
  shows "br_Submitted r + br_Dropped r = int (length events) \<and> length (br_Errors r) = length events
    \<and> br_Submitted r = int (length (en_accepted e')) - int (length (en_accepted e))"
  using batch_loop_counts [of events "\<lparr>br_Submitted = 0, br_Dropped = 0, br_Errors = []\<rparr>" e r e'] assms
  by (simp add: SubmitBatch_def)

section \<open>Examples\<close>

text \<open>One event accepted by a started engine, then \<open>Stop\<close>.\<close>

definition run_start :: "(lru_cache, unit, overlay_resolver, unit) lm_engine" where
  "run_start = NewEngine 2 (package_defaults rev path_open (\<lambda>_. None) (example_fs []) sorted_list_of_set) () [WithWorkers 3]"

definition run_accepted :: "(lru_cache, unit, overlay_resolver, unit) lm_engine" where
  "run_accepted = (snd (submit_select None False 0 (example_event ''v'' ''x'')
     ((snd (en_Start run_start))\<lparr>en_submitting := [(0, example_event ''v'' ''x'')]\<rparr>)))\<lparr>en_submitting := []\<rparr>"

lemma run_start_sel:
  "en_channels run_start = []" "en_loops run_start = []" "\<not> en_running run_start" "en_submitting run_start = []" "\<not> en_panicked run_start"
  "en_accepted run_start = []" "en_processed run_start = []" "en_discarded run_start = []" "cf_eventBufSize (en_cfg run_start) = 4096"
  by (simp_all add: run_start_def NewEngine_def Let_def WithWorkers_def defaultEngineConfig_def)

lemma run_accepted_sel:
  "en_channels run_accepted = [\<lparr>ch_buf = [example_event ''v'' ''x''], ch_closed = False\<rparr>]"
  "en_loops run_accepted = [\<lparr>lp_chan = None, lp_held = None, lp_workers = [], lp_exited = False\<rparr>]"
  "en_running run_accepted" "\<not> en_panicked run_accepted" "en_accepted run_accepted = [example_event ''v'' ''x'']"
  "en_processed run_accepted = []" "en_discarded run_accepted = []"
  using run_start_sel by (simp_all add: run_accepted_def en_Start_def submit_select_def Let_def)

lemma run_accepted_reach: "engine_reach run_start run_accepted"
proof -
  let ?ev = "example_event ''v'' ''x''"
  let ?e1 = "snd (en_Start run_start)"
  have e1: "length (en_channels ?e1) = 1" "en_running ?e1" "en_submitting ?e1 = []" "\<not> en_panicked ?e1"
    using run_start_sel by (simp_all add: en_Start_def)
  have 1: "engine_step run_start ?e1" by (rule engine_step.start [OF run_start_sel(5)])
  have 2: "engine_step ?e1 (?e1\<lparr>en_submitting := [(0, ?ev)]\<rparr>)" using engine_step.read [OF e1(4,2), of ?ev] e1(1,3) by simp
  have 3: "engine_step (?e1\<lparr>en_submitting := [(0, ?ev)]\<rparr>) run_accepted"
    unfolding run_accepted_def
    using engine_step.select [of "?e1\<lparr>en_submitting := [(0, ?ev)]\<rparr>" "[]" 0 ?ev "[]" None False] e1(4) by simp
  show ?thesis using 1 2 3 by (meson engine_reach.reach_refl engine_reach.reach_step)
qed

theorem engine_accounts_for_events_witness:
  "mset (en_accepted run_accepted) = in_channels (en_channels run_accepted) \<and> en_accepted run_accepted = [example_event ''v'' ''x'']"
proof -
  have g: "\<forall>opt \<in> set [WithWorkers 3]. good_option opt" by (simp add: options_good(5))
  show ?thesis using engine_accounts_for_events [OF _ g run_accepted_reach [unfolded run_start_def]] run_accepted_sel
    by (simp add: in_loops_def in_loop_def)
qed

theorem Stop_drains_witness:
  "\<not> en_running (en_Stop run_accepted) \<and> en_accepted (en_Stop run_accepted) = [example_event ''v'' ''x'']
   \<and> (\<exists>i e'. dispatch_step i (en_Stop run_accepted) e' \<and> engine_work e' < engine_work (en_Stop run_accepted))"
proof -
  have r: "engine_reach run_start (en_Stop run_accepted)"
    using run_accepted_reach engine_step.stop [OF run_accepted_sel(4)] by (rule engine_reach.reach_step)
  have s: "\<not> en_running (en_Stop run_accepted)" "en_accepted (en_Stop run_accepted) = [example_event ''v'' ''x'']"
    "\<not> en_idle (en_Stop run_accepted)"
    using run_accepted_sel by (simp_all add: en_Stop_def en_idle_def)
  have g: "\<forall>opt \<in> set [WithWorkers 3]. good_option opt" by (simp add: options_good(5))
  show ?thesis using Stop_drains [OF _ g r [unfolded run_start_def] s(1)] s by simp blast
qed

theorem early_restart_strands_event_witness:
  "\<exists>e. engine_reach run_start e \<and> en_idle e \<and> en_accepted e = [example_event ''v'' ''x''] \<and> en_processed e = []"
proof -
  have g: "\<forall>opt \<in> set [WithWorkers 3]. good_option opt" by (simp add: options_good(5))
  from early_restart_strands_event [OF _ g, of 2] show ?thesis unfolding run_start_def by (metis zero_less_numeral)
qed

theorem SubmitBatch_reports_witness:
  "let (r, e') = SubmitBatch [(example_event ''v'' ''x'', None, False), ((example_event ''v'' ''y'')\<lparr>le_Mask := 2\<rparr>, None, False)] run_accepted
   in br_Submitted r = 1 \<and> br_Dropped r = 1 \<and> length (en_accepted e') = 2"
proof -
  let ?evs = "[(example_event ''v'' ''x'', None, False), ((example_event ''v'' ''y'')\<lparr>le_Mask := 2\<rparr>, None, False)] :: (lm_event \<times> lm_error option \<times> bool) list"
  obtain r e' where r: "SubmitBatch ?evs run_accepted = (r, e')" by (cases "SubmitBatch ?evs run_accepted")
  have cfg: "cf_eventBufSize (en_cfg run_accepted) = 4096" using run_start_sel by (simp add: run_accepted_def submit_select_def en_Start_def Let_def)
  have m: "IsReadAccess (example_event ''v'' ''x'')" "\<not> IsReadAccess ((example_event ''v'' ''y'')\<lparr>le_Mask := 2\<rparr>)"
    by (simp_all add: IsReadAccess_def readMask_def example_event_def)
  have s: "\<not> en_panicked e' \<and> br_Submitted r = 1"
    using r m cfg run_accepted_sel by (auto simp: SubmitBatch_def en_Submit_def submit_select_def Let_def)
  then show ?thesis using SubmitBatch_reports [OF r] run_accepted_sel(5) unfolding r by simp
qed

text \<open>The race: a submission that read the channel before \<open>Stop\<close> closed it.\<close>

definition run_raced :: "(lru_cache, unit, overlay_resolver, unit) lm_engine" where
  "run_raced = en_Stop ((snd (en_Start run_start))\<lparr>en_submitting := [(0, example_event ''v'' ''x'')]\<rparr>)"

theorem Submit_races_with_Stop_witness:
  "(\<exists>e. engine_reach run_start e \<and> en_panicked e) \<and> (\<exists>(i, ev) \<in> set (en_submitting run_raced). ch_closed (en_channels run_raced ! i))"
proof -
  let ?ev = "example_event ''v'' ''x''"
  let ?e' = "(snd (submit_select None False 0 ?ev run_raced))\<lparr>en_submitting := [] @ []\<rparr>"
  have s: "ch_closed (en_channels run_raced ! 0)" "en_submitting run_raced = [] @ (0, ?ev) # []" "\<not> en_panicked run_raced"
    using run_start_sel by (simp_all add: run_raced_def en_Start_def en_Stop_def Let_def)
  have step: "engine_step run_raced ?e'" by (rule engine_step.select [OF s(3,2)])
  have p: "en_panicked ?e'" using s(1) by (simp add: submit_select_def Let_def)
  note t = Submit_races_with_Stop [of 2 "package_defaults rev path_open (\<lambda>_. None) (example_fs []) sorted_list_of_set" "()" "[WithWorkers 3]"]
  show ?thesis using conjunct1 [OF t] conjunct2 [OF t, rule_format, OF step s(3) p] unfolding run_start_def by blast
qed

end
