(* ===== verification/Lm_Adapter.thy ===== *)
theory Lm_Adapter
  imports Lm_Engine
begin

text \<open>
  The adapters in front of the engine (\<open>adapter.go\<close>, \<open>fanwatch.go\<close>): the conversion of fanotify
  events with attached attributes, the resolver of merged-view paths, and the classification of
  whiteout names. An attribute of type \<open>any\<close> is a string or something else.
\<close>

section \<open>Event sources and attributes\<close>

datatype attr_value = AttrString string | AttrOther

record event_source =
  es_GetMask :: uint64
  es_GetPID :: "32 word"
  es_GetPath :: string
  es_GetTimestamp :: int
  es_GetAttr :: "string \<Rightarrow> attr_value option"

text \<open>The type assertion \<open>v.(string)\<close> with its second result ignored.\<close>

definition attr_string :: "attr_value option \<Rightarrow> string" where
  "attr_string v = (case v of Some (AttrString s) \<Rightarrow> s | _ \<Rightarrow> '''')"

record direct_source =
  dr_mask :: uint64
  dr_pid :: "32 word"
  dr_path :: string
  dr_timestamp :: int
  dr_attrs :: "string \<rightharpoonup> attr_value"

definition NewDirectEventSource :: "uint64 \<Rightarrow> 32 word \<Rightarrow> string \<Rightarrow> int \<Rightarrow> (string \<rightharpoonup> attr_value) \<Rightarrow> direct_source" where
  "NewDirectEventSource msk pid p ts attrs = \<lparr>dr_mask = msk, dr_pid = pid, dr_path = p, dr_timestamp = ts, dr_attrs = attrs\<rparr>"

definition direct_event_source :: "direct_source \<Rightarrow> event_source" where
  "direct_event_source d = \<lparr>es_GetMask = dr_mask d, es_GetPID = dr_pid d, es_GetPath = dr_path d, es_GetTimestamp = dr_timestamp d,
     es_GetAttr = dr_attrs d\<rparr>"

section \<open>Layer stacks as attributes\<close>

fun parse_parts :: "string list \<Rightarrow> layer_stack \<Rightarrow> lm_error + layer_stack" where
  "parse_parts [] stack = Inr stack"
| "parse_parts (part # parts) stack =
     (let p = TrimSpace part in
      if p = '''' then parse_parts parts stack
      else if digest_Validate p \<noteq> None then Inl (Sentinel Err_InvalidLayerStack)
      else parse_parts parts (stack @ [p]))"

definition parseLayerStack :: "string \<Rightarrow> lm_error + layer_stack" where
  "parseLayerStack raw =
     (case parse_parts (split_on CHR '':'' raw) [] of
        Inl e \<Rightarrow> Inl e
      | Inr stack \<Rightarrow> (if length stack = 0 then Inl (Sentinel Err_InvalidLayerStack) else Inr stack))"

definition EncodeLayerStack :: "layer_stack \<Rightarrow> string" where
  "EncodeLayerStack stack = join_with '':'' stack"

definition AccessEventFromEnriched :: "event_source \<Rightarrow> lm_error + lm_event" where
  "AccessEventFromEnriched src =
     (let vertexStr = attr_string (es_GetAttr src AttrVertexID);
          stackStr = attr_string (es_GetAttr src AttrLayerStack);
          relPath = attr_string (es_GetAttr src AttrRelPath)
      in if vertexStr = '''' \<or> stackStr = '''' \<or> relPath = '''' then Inl (Sentinel Err_InvalidLayerStack)
         else (case parseLayerStack stackStr of
             Inl e \<Rightarrow> Inl e
           | Inr stack \<Rightarrow> Inr \<lparr>le_VertexID = vertexStr, le_LayerStack = stack, le_RelPath = normalizeRelPath relPath,
                            le_AbsPath = es_GetPath src, le_Mask = es_GetMask src, le_PID = es_GetPID src,
                            le_Timestamp = es_GetTimestamp src\<rparr>))"

definition AccessEventAttrs :: "lm_vertex \<Rightarrow> layer_stack \<Rightarrow> string \<Rightarrow> string \<rightharpoonup> attr_value" where
  "AccessEventAttrs vertexID stack relPath =
     [AttrVertexID \<mapsto> AttrString vertexID, AttrLayerStack \<mapsto> AttrString (EncodeLayerStack stack), AttrRelPath \<mapsto> AttrString relPath]"

section \<open>PipelineAdapter\<close>

record 'w pipeline_adapter =
  pa_onErr :: "(lm_error \<Rightarrow> 'w \<Rightarrow> 'w) option"
  pa_dropOnFull :: bool

definition WithAdapterErrorCallback :: "(lm_error \<Rightarrow> 'w \<Rightarrow> 'w) option \<Rightarrow> 'w pipeline_adapter \<Rightarrow> 'w pipeline_adapter" where
  "WithAdapterErrorCallback fn a = a\<lparr>pa_onErr := fn\<rparr>"

definition WithAdapterDropOnFull :: "bool \<Rightarrow> 'w pipeline_adapter \<Rightarrow> 'w pipeline_adapter" where
  "WithAdapterDropOnFull d a = a\<lparr>pa_dropOnFull := d\<rparr>"

definition NewPipelineAdapter :: "('w pipeline_adapter \<Rightarrow> 'w pipeline_adapter) list \<Rightarrow> 'w pipeline_adapter" where
  "NewPipelineAdapter opts = fold (\<lambda>o1. o1) opts \<lparr>pa_onErr = Some (\<lambda>_ w. w), pa_dropOnFull = False\<rparr>"

text \<open>\<open>cerr\<close> and \<open>pick\<close> are those of \<open>Submit\<close>; \<open>w\<close> is what the error callback acts on.\<close>

definition ConvertAndSubmit :: "'w pipeline_adapter \<Rightarrow> lm_error option \<Rightarrow> bool \<Rightarrow> event_source \<Rightarrow> ('c, 'h, 'r, 'k) lm_engine \<Rightarrow> 'w
    \<Rightarrow> lm_error option \<times> ('c, 'h, 'r, 'k) lm_engine \<times> 'w" where
  "ConvertAndSubmit a cerr pick src e w =
     (case AccessEventFromEnriched src of
        Inl err \<Rightarrow> (None, e, w)
      | Inr ev \<Rightarrow>
          (if \<not> IsReadAccess ev then (None, e, w)
           else (let (submitErr, e1) = en_Submit cerr pick ev e in
             case (submitErr, pa_onErr a) of
               (Some err, Some onErr) \<Rightarrow> (if pa_dropOnFull a then (None, e1, onErr err w) else (submitErr, e1, onErr err w))
             | _ \<Rightarrow> (submitErr, e1, w))))"

section \<open>MergedPathResolver\<close>

definition NewMergedPathResolver :: "string \<Rightarrow> string" where
  "NewMergedPathResolver mergedDir = Clean mergedDir"

definition mp_RelPath :: "string \<Rightarrow> string \<Rightarrow> lm_error + string" where
  "mp_RelPath mergedDir absPath =
     (case Rel mergedDir (Clean absPath) of
        None \<Rightarrow> Inl (Wrapped [absPath, mergedDir] (Sentinel Err_PathEscapes))
      | Some rel \<Rightarrow>
          (if HasPrefix rel ''..'' then Inl (Wrapped [absPath, mergedDir] (Sentinel Err_PathEscapes)) else Inr rel))"

definition mp_BuildAccessEvent :: "string \<Rightarrow> lm_vertex \<Rightarrow> layer_stack \<Rightarrow> string \<Rightarrow> uint64 \<Rightarrow> 32 word \<Rightarrow> int \<Rightarrow> lm_error + lm_event" where
  "mp_BuildAccessEvent mergedDir vertexID stack absPath msk pid ts =
     (case mp_RelPath mergedDir absPath of
        Inl err \<Rightarrow> Inl err
      | Inr rel \<Rightarrow> Inr \<lparr>le_VertexID = vertexID, le_LayerStack = stack, le_RelPath = rel, le_AbsPath = absPath, le_Mask = msk,
                       le_PID = pid, le_Timestamp = ts\<rparr>)"

section \<open>Whiteout names\<close>

datatype whiteout_type = WhiteoutNone | WhiteoutFile | WhiteoutOpaque | WhiteoutMetadata

definition whiteoutPrefix :: string where "whiteoutPrefix = ''.wh.''"
definition opaqueMarker :: string where "opaqueMarker = ''.wh..wh..opq''"
definition metaWhiteoutPfx :: string where "metaWhiteoutPfx = ''.wh..wh.''"

definition ClassifyWhiteout :: "string \<Rightarrow> whiteout_type" where
  "ClassifyWhiteout name =
     (if name = opaqueMarker then WhiteoutOpaque
      else if HasPrefix name metaWhiteoutPfx then WhiteoutMetadata
      else if HasPrefix name whiteoutPrefix then WhiteoutFile
      else WhiteoutNone)"

definition OriginalName :: "string \<Rightarrow> string option" where
  "OriginalName name =
     (if \<not> HasPrefix name whiteoutPrefix then None
      else (let orig = TrimPrefix name whiteoutPrefix in
        if orig = '''' \<or> HasPrefix orig ''.wh.'' then None else Some orig))"

definition IsWhiteoutPath :: "string \<Rightarrow> bool" where
  "IsWhiteoutPath relPath \<longleftrightarrow> (\<exists>segment \<in> set (split_on CHR ''/'' relPath). ClassifyWhiteout segment \<noteq> WhiteoutNone)"

definition OpaqueWhiteoutPaths :: "string \<Rightarrow> string list" where
  "OpaqueWhiteoutPaths relPath =
     (let parts = split_on CHR ''/'' (Dir relPath)
      in map (\<lambda>i. join_with ''/'' (take i parts) @ ''/'' @ opaqueMarker) (rev [1..<Suc (length parts)]) @ [opaqueMarker])"

record file_info =
  fi_Size :: int
  fi_Mode :: "32 word"
  fi_ModTime :: int

record file_metadata =
  fm_Size :: int
  fm_Mode :: "32 word"
  fm_ModTime :: int
  fm_IsDir :: bool
  fm_IsLink :: bool

text \<open>\<open>fs.ModeDir\<close> is bit 31 and \<open>fs.ModeSymlink\<close> bit 27 of the mode.\<close>

definition MetadataFromInfo :: "file_info \<Rightarrow> file_metadata" where
  "MetadataFromInfo info =
     \<lparr>fm_Size = fi_Size info, fm_Mode = fi_Mode info, fm_ModTime = fi_ModTime info,
      fm_IsDir = (fi_Mode info AND 0x80000000 \<noteq> 0), fm_IsLink = (fi_Mode info AND 0x08000000 \<noteq> 0)\<rparr>"

section \<open>Properties\<close>

text \<open>No part of a string split at colons is a digest.\<close>

lemma parse_parts_fails:
  "\<forall>p \<in> set parts. CHR '':'' \<notin> set p \<Longrightarrow> parse_parts parts [] = Inl (Sentinel Err_InvalidLayerStack) \<or> parse_parts parts [] = Inr []"
proof (induction parts)
  case (Cons part parts)
  have "CHR '':'' \<notin> set (TrimSpace part)" using Cons.prems TrimSpace_subset [of part] by auto
  then have "digest_Validate (TrimSpace part) = Some MissingColon"
    by (simp add: digest_Validate_def IndexByte_None_iff [THEN iffD2])
  then show ?case using Cons by (simp add: Let_def)
qed simp

lemma parseLayerStack_fails: "parseLayerStack raw = Inl (Sentinel Err_InvalidLayerStack)"
  using parse_parts_fails [of "split_on CHR '':'' raw"] split_on_no_sep_elems [of _ "CHR '':''" raw]
  by (auto simp: parseLayerStack_def)

text \<open>
  The fanotify integration never delivers an event. A digest contains a colon, and the layer stack
  attribute is split at colons before its parts are validated, so every attribute is refused:
  whatever the source, also one with exactly the attributes \<open>AccessEventAttrs\<close> builds, the conversion
  fails with \<open>ErrInvalidLayerStack\<close> and \<open>ConvertAndSubmit\<close> reports success without submitting.
\<close>

theorem ConvertAndSubmit_never_submits:
  "AccessEventFromEnriched src = Inl (Sentinel Err_InvalidLayerStack)
   \<and> ConvertAndSubmit a cerr pick src e w = (None, e, w)
   \<and> AccessEventFromEnriched (direct_event_source (NewDirectEventSource msk pid p ts (AccessEventAttrs v st rel)))
     = Inl (Sentinel Err_InvalidLayerStack)"
  by (simp add: ConvertAndSubmit_def AccessEventFromEnriched_def Let_def parseLayerStack_fails)

text \<open>
  Merged-view paths: for a merged directory and a path below it the resolver returns exactly the
  path's elements below the directory, except that it also refuses, as if it escaped, a path whose
  first element below the directory starts with two dots (\<open>..data\<close>).
\<close>

theorem MergedPath_RelPath:
  assumes "\<forall>n \<in> set (ds @ segs). plain_name n" "segs \<noteq> []"
  shows "mp_RelPath (NewMergedPathResolver (abs_path ds)) (abs_path (ds @ segs)) =
    (if HasPrefix (hd segs) ''..'' then Inl (Wrapped [abs_path (ds @ segs), abs_path ds] (Sentinel Err_PathEscapes))
     else Inr (rel_path segs))"
proof -
  have "HasPrefix (rel_path segs) ''..'' \<longleftrightarrow> HasPrefix (hd segs) ''..''"
  proof (cases segs)
    case (Cons n ns)
    show ?thesis
    proof (cases "ns = []")
      case True
      then show ?thesis by (simp add: Cons rel_path_def)
    next
      case False
      have "rel_path segs = n @ ''/'' @ rel_path ns" using rel_path_append [of "[n]" ns] False by (simp add: Cons) (simp add: rel_path_def)
      moreover have "plain_name n" using assms(1) Cons by simp
      ultimately show ?thesis unfolding Cons
        by (cases n; cases "tl n") (auto simp: HasPrefix_def plain_name_def)
    qed
  qed (use assms(2) in simp)
  then show ?thesis
    using Rel_abs_path [of ds segs] Clean_abs_path [of ds] Clean_abs_path [of "ds @ segs"] assms
    by (simp add: mp_RelPath_def NewMergedPathResolver_def)
qed

theorem MergedPath_RelPath_witness:
  "mp_RelPath (NewMergedPathResolver (abs_path [''merged''])) (abs_path [''merged'', ''etc'', ''passwd'']) = Inr (rel_path [''etc'', ''passwd''])
   \<and> mp_RelPath (NewMergedPathResolver (abs_path [''merged''])) (abs_path [''merged'', ''..data''])
     = Inl (Wrapped [abs_path [''merged'', ''..data''], abs_path [''merged'']] (Sentinel Err_PathEscapes))"
  using MergedPath_RelPath [of "[''merged'']" "[''etc'', ''passwd'']"] MergedPath_RelPath [of "[''merged'']" "[''..data'']"]
  by (simp add: plain_name_def HasPrefix_def)

text \<open>A file whiteout and the name it masks.\<close>

lemma OriginalName_whiteout:
  "OriginalName (''.wh.'' @ n) = (if n = '''' \<or> HasPrefix n ''.wh.'' then None else Some n)"
  "ClassifyWhiteout (''.wh.'' @ n) = WhiteoutFile \<longleftrightarrow> \<not> HasPrefix n ''.wh.''"
proof -
  show "OriginalName (''.wh.'' @ n) = (if n = '''' \<or> HasPrefix n ''.wh.'' then None else Some n)"
    using TrimPrefix_append [of "''.wh.''" n] HasPrefix_append [of "''.wh.''" n]
    by (simp add: OriginalName_def whiteoutPrefix_def Let_def del: TrimPrefix_append HasPrefix_append)
  show "ClassifyWhiteout (''.wh.'' @ n) = WhiteoutFile \<longleftrightarrow> \<not> HasPrefix n ''.wh.''"
    by (auto simp: ClassifyWhiteout_def whiteoutPrefix_def opaqueMarker_def metaWhiteoutPfx_def HasPrefix_iff)
qed

end
