(* ===== verification/Lm_Persist.thy ===== *)
theory Lm_Persist
  imports Lm_Cache
begin

text \<open>
  The persistent hash cache (\<open>persistent.go\<close>): an in-memory LRU cache with an append-only
  write-ahead log. The file is the sequence of its bytes. \<open>encoding/gob\<close> is the pair of arguments
  \<open>encode\<close> and \<open>decode\<close>; a record is a four-byte little-endian length and that many bytes.

  The environment decides which operations fail: \<open>fault\<close> is \<open>None\<close> for a complete write and
  otherwise the number of bytes that reached the file; \<open>tmp_err\<close> is the error of creating the
  temporary file of a compaction; \<open>rd_err k\<close> is a read error, other than the end of the file, at the
  header of record \<open>k\<close>.
\<close>

section \<open>The log\<close>

record wal_entry =
  we_LayerID :: string
  we_RelPath :: string
  we_Hash :: string
  we_Deleted :: bool
  we_TS :: int

definition PutUint32 :: "nat \<Rightarrow> bytes" where
  "PutUint32 n = map (\<lambda>i. word_of_nat (n div 256 ^ i)) [0, 1, 2, 3]"

definition LittleEndian_Uint32 :: "bytes \<Rightarrow> nat" where
  "LittleEndian_Uint32 bs = unat (bs ! 0) + 256 * unat (bs ! 1) + 65536 * unat (bs ! 2) + 16777216 * unat (bs ! 3)"

text \<open>The conversion \<open>uint32(buf.Len())\<close> keeps the length modulo \<open>2^32\<close>.\<close>

definition wal_record :: "(wal_entry \<Rightarrow> bytes) \<Rightarrow> wal_entry \<Rightarrow> bytes" where
  "wal_record encode e = PutUint32 (length (encode e) mod 2 ^ 32) @ encode e"

definition writeWALEntry :: "(wal_entry \<Rightarrow> bytes) \<Rightarrow> nat option \<Rightarrow> wal_entry \<Rightarrow> bytes \<Rightarrow> string option \<times> bytes" where
  "writeWALEntry encode fault e w =
     (case fault of
        None \<Rightarrow> (None, w @ wal_record encode e)
      | Some n \<Rightarrow> (Some ''write'', w @ take n (wal_record encode e)))"

function readWAL :: "(bytes \<Rightarrow> wal_entry option) \<Rightarrow> (nat \<Rightarrow> string option) \<Rightarrow> nat \<Rightarrow> bytes \<Rightarrow> wal_entry list \<times> string option" where
  "readWAL decode rd_err k r =
     (case rd_err k of
        Some err \<Rightarrow> ([], Some err)
      | None \<Rightarrow>
          (if length r < 4 then ([], None)
           else (let entryLen = LittleEndian_Uint32 (take 4 r); r1 = drop 4 r in
             if entryLen = 0 \<or> entryLen > 2 ^ 20 then ([], None)
             else if length r1 < entryLen then ([], None)
             else (case decode (take entryLen r1) of
                 None \<Rightarrow> ([], None)
               | Some e \<Rightarrow> (let (entries, err) = readWAL decode rd_err (Suc k) (drop entryLen r1) in (e # entries, err))))))"
  by auto
termination
  by (relation "measure (\<lambda>(decode, rd_err, k, r). length r)") auto

declare readWAL.simps [simp del]

section \<open>The cache\<close>

datatype wal_file = NoFile | OpenWAL bytes | ClosedWAL bytes

record 's persistent_cache =
  pc_inner :: 's
  pc_walFile :: wal_file
  pc_walPath :: string
  pc_walCount :: int
  pc_compactAt :: int

definition compact :: "string option \<Rightarrow> 's persistent_cache \<Rightarrow> string option \<times> 's persistent_cache" where
  "compact tmp_err c = (case tmp_err of Some err \<Rightarrow> (Some err, c) | None \<Rightarrow> (None, c\<lparr>pc_walCount := 0\<rparr>))"

definition maybeCompactLocked :: "string option \<Rightarrow> 's persistent_cache \<Rightarrow> 's persistent_cache" where
  "maybeCompactLocked tmp_err c = (if pc_walCount c < pc_compactAt c then c else snd (compact tmp_err c))"

text \<open>A write to a closed file fails and leaves it alone.\<close>

definition appendWAL :: "(wal_entry \<Rightarrow> bytes) \<Rightarrow> nat option \<Rightarrow> string option \<Rightarrow> wal_entry \<Rightarrow> 's persistent_cache \<Rightarrow> 's persistent_cache" where
  "appendWAL encode fault tmp_err e c =
     (case pc_walFile c of
        NoFile \<Rightarrow> c
      | ClosedWAL w \<Rightarrow> c
      | OpenWAL w \<Rightarrow>
          (case writeWALEntry encode fault e w of
             (Some err, w') \<Rightarrow> c\<lparr>pc_walFile := OpenWAL w'\<rparr>
           | (None, w') \<Rightarrow> maybeCompactLocked tmp_err (c\<lparr>pc_walFile := OpenWAL w', pc_walCount := pc_walCount c + 1\<rparr>)))"

definition pc_Get :: "'s hash_cache \<Rightarrow> int \<Rightarrow> lm_layer \<Rightarrow> string \<Rightarrow> 's persistent_cache \<Rightarrow> lm_hash option \<times> 's persistent_cache" where
  "pc_Get inner now l p c = (let (h, i) = hc_Get inner now l p (pc_inner c) in (h, c\<lparr>pc_inner := i\<rparr>))"

definition pc_Set :: "'s hash_cache \<Rightarrow> (wal_entry \<Rightarrow> bytes) \<Rightarrow> nat option \<Rightarrow> string option \<Rightarrow> int \<Rightarrow> lm_layer \<Rightarrow> string \<Rightarrow> lm_hash
    \<Rightarrow> 's persistent_cache \<Rightarrow> 's persistent_cache" where
  "pc_Set inner encode fault tmp_err now l p h c =
     appendWAL encode fault tmp_err \<lparr>we_LayerID = l, we_RelPath = p, we_Hash = h, we_Deleted = False, we_TS = now\<rparr>
       (c\<lparr>pc_inner := hc_Set inner now l p h (pc_inner c)\<rparr>)"

definition pc_Delete :: "'s hash_cache \<Rightarrow> (wal_entry \<Rightarrow> bytes) \<Rightarrow> nat option \<Rightarrow> string option \<Rightarrow> int \<Rightarrow> lm_layer \<Rightarrow> string
    \<Rightarrow> 's persistent_cache \<Rightarrow> 's persistent_cache" where
  "pc_Delete inner encode fault tmp_err now l p c =
     appendWAL encode fault tmp_err \<lparr>we_LayerID = l, we_RelPath = p, we_Hash = '''', we_Deleted = True, we_TS = now\<rparr>
       (c\<lparr>pc_inner := hc_Delete inner l p (pc_inner c)\<rparr>)"

definition pc_DeleteLayer :: "'s hash_cache \<Rightarrow> string option \<Rightarrow> lm_layer \<Rightarrow> 's persistent_cache \<Rightarrow> 's persistent_cache" where
  "pc_DeleteLayer inner tmp_err l c = maybeCompactLocked tmp_err (c\<lparr>pc_inner := hc_DeleteLayer inner l (pc_inner c)\<rparr>)"


text \<open>The replay of one entry; \<open>Delete\<close> and \<open>Set\<close> go to the in-memory cache only.\<close>

definition replay :: "'s hash_cache \<Rightarrow> int \<Rightarrow> wal_entry \<Rightarrow> 's \<Rightarrow> 's" where
  "replay inner now e s =
     (if we_Deleted e then hc_Delete inner (we_LayerID e) (we_RelPath e) s
      else hc_Set inner now (we_LayerID e) (we_RelPath e) (we_Hash e) s)"

text \<open>\<open>file\<close> is the content of the file that is opened or created, or the error of opening it.\<close>

definition openAndReplay :: "'s hash_cache \<Rightarrow> (bytes \<Rightarrow> wal_entry option) \<Rightarrow> (nat \<Rightarrow> string option) \<Rightarrow> string option \<Rightarrow> int \<Rightarrow> string + bytes
    \<Rightarrow> 's persistent_cache \<Rightarrow> string option \<times> 's persistent_cache" where
  "openAndReplay inner decode rd_err seek_err now file c =
     (case file of
        Inl err \<Rightarrow> (Some err, c)
      | Inr w \<Rightarrow>
          (let c1 = c\<lparr>pc_walFile := OpenWAL w\<rparr> in
           case readWAL decode rd_err 0 w of
             (entries, Some err) \<Rightarrow> (Some (''replay WAL: '' @ err), c1)
           | (entries, None) \<Rightarrow>
               (seek_err, c1\<lparr>pc_inner := fold (replay inner now) entries (pc_inner c1), pc_walCount := int (length entries)\<rparr>)))"

definition NewPersistentHashCache :: "(cache_key set \<Rightarrow> cache_key list) \<Rightarrow> (bytes \<Rightarrow> wal_entry option) \<Rightarrow> (nat \<Rightarrow> string option) \<Rightarrow> string option
    \<Rightarrow> int \<Rightarrow> string + bytes \<Rightarrow> string \<Rightarrow> int \<Rightarrow> int \<Rightarrow> string + lru_cache persistent_cache" where
  "NewPersistentHashCache enum decode rd_err seek_err now file walPath capacity compactionThreshold =
     (let c = \<lparr>pc_inner = NewShardedLRUCache capacity, pc_walFile = NoFile, pc_walPath = walPath, pc_walCount = 0,
               pc_compactAt = (if compactionThreshold \<le> 0 then 100000 else compactionThreshold)\<rparr>
      in case openAndReplay (lru_hash_cache enum) decode rd_err seek_err now file c of
           (Some err, c') \<Rightarrow> Inl (''persistent cache: open '' @ walPath @ '': '' @ err)
         | (None, c') \<Rightarrow> Inr c')"

text \<open>The cache as a \<open>HashCache\<close>, in an environment whose faults do not change between calls.\<close>

definition persistent_hash_cache :: "'s hash_cache \<Rightarrow> (wal_entry \<Rightarrow> bytes) \<Rightarrow> nat option \<Rightarrow> string option \<Rightarrow> int \<Rightarrow> 's persistent_cache hash_cache" where
  "persistent_hash_cache inner encode fault tmp_err now0 =
     \<lparr>hc_Get = pc_Get inner, hc_Set = pc_Set inner encode fault tmp_err, hc_Delete = pc_Delete inner encode fault tmp_err now0,
      hc_DeleteLayer = pc_DeleteLayer inner tmp_err, hc_Len = (\<lambda>c. hc_Len inner (pc_inner c)), hc_Stats = (\<lambda>c. hc_Stats inner (pc_inner c))\<rparr>"

section \<open>The log's format\<close>

lemma word_digit: "unat (word_of_nat (n div 256 ^ i) :: byte) = n div 256 ^ i mod 256"
  by (simp add: unat_of_nat)

lemma Uint32_roundtrip:
  assumes "n < 2 ^ 32"
  shows "LittleEndian_Uint32 (PutUint32 n) = n"
proof -
  have e: "n div 256 mod 256 = n div 256 - 256 * (n div 65536)" "n mod 256 = n - 256 * (n div 256)"
    "n div 65536 mod 256 = n div 65536 - 256 * (n div 16777216)" "n div 16777216 mod 256 = n div 16777216"
    using assms by (simp_all add: minus_mult_div_eq_mod [symmetric] div_mult2_eq [symmetric])
  have le: "256 * (n div 256) \<le> n" "256 * (n div 65536) \<le> n div 256" "256 * (n div 16777216) \<le> n div 65536"
    by (simp_all add: div_mult2_eq [of n 256 256, simplified] div_mult2_eq [of n 65536 256, simplified])
  have glue: "(n - 256 * a) + 256 * (a - 256 * b) + 65536 * (b - 256 * c) + 16777216 * c = n"
    if "256 * a \<le> n" "256 * b \<le> a" "256 * c \<le> b" for a b c
    using that by arith
  have "LittleEndian_Uint32 (PutUint32 n) = n mod 256 + 256 * (n div 256 mod 256) + 65536 * (n div 65536 mod 256) + 16777216 * (n div 16777216 mod 256)"
    using word_digit [of n 0] word_digit [of n 1] word_digit [of n 2] word_digit [of n 3]
    by (simp add: LittleEndian_Uint32_def PutUint32_def)
  also have "\<dots> = n" unfolding e by (rule glue [OF le])
  finally show ?thesis .
qed

lemma length_PutUint32 [simp]: "length (PutUint32 n) = 4"
  by (simp add: PutUint32_def)

text \<open>What the log relies on in \<open>encoding/gob\<close>: a record decodes to its entry, and records stay below 1 MiB.\<close>

definition gob_ok :: "(wal_entry \<Rightarrow> bytes) \<Rightarrow> (bytes \<Rightarrow> wal_entry option) \<Rightarrow> wal_entry \<Rightarrow> bool" where
  "gob_ok encode decode e \<longleftrightarrow> decode (encode e) = Some e \<and> encode e \<noteq> [] \<and> length (encode e) \<le> 2 ^ 20"

lemma readWAL_record:
  assumes "gob_ok encode decode e" "rd_err k = None"
  shows "readWAL decode rd_err k (wal_record encode e @ r) =
    (e # fst (readWAL decode rd_err (Suc k) r), snd (readWAL decode rd_err (Suc k) r))"
proof -
  let ?n = "length (encode e)"
  have n: "?n mod 2 ^ 32 = ?n" "0 < ?n" "?n \<le> 2 ^ 20" using assms(1) by (auto simp: gob_ok_def)
  have "LittleEndian_Uint32 (take 4 (wal_record encode e @ r)) = ?n"
    using Uint32_roundtrip [of ?n] n by (simp add: wal_record_def)
  moreover have "drop 4 (wal_record encode e @ r) = encode e @ r" "\<not> length (wal_record encode e @ r) < 4" by (simp_all add: wal_record_def)
  ultimately show ?thesis
    using assms n readWAL.simps [of decode rd_err k "wal_record encode e @ r"] by (simp add: gob_ok_def Let_def case_prod_unfold)
qed

lemma readWAL_records:
  "\<forall>e \<in> set es. gob_ok encode decode e \<Longrightarrow> readWAL decode (\<lambda>_. None) k (concat (map (wal_record encode) es) @ r)
     = (es @ fst (readWAL decode (\<lambda>_. None) (k + length es) r), snd (readWAL decode (\<lambda>_. None) (k + length es) r))"
  by (induction es arbitrary: k) (simp_all add: readWAL_record)


section \<open>The contract of a hash cache\<close>

lemma pc_inner_maybeCompactLocked [simp]: "pc_inner (maybeCompactLocked tmp_err c) = pc_inner c"
  by (simp add: maybeCompactLocked_def compact_def split: option.split)

lemma pc_inner_appendWAL [simp]: "pc_inner (appendWAL encode fault tmp_err e c) = pc_inner c"
  by (simp add: appendWAL_def writeWALEntry_def split: wal_file.split option.split)

lemma pc_inner_ops [simp]:
  "fst (pc_Get inner now l p c) = fst (hc_Get inner now l p (pc_inner c))"
  "pc_inner (snd (pc_Get inner now l p c)) = snd (hc_Get inner now l p (pc_inner c))"
  "pc_inner (pc_Set inner encode fault tmp_err now l p h c) = hc_Set inner now l p h (pc_inner c)"
  "pc_inner (pc_Delete inner encode fault tmp_err now0 l p c) = hc_Delete inner l p (pc_inner c)"
  "pc_inner (pc_DeleteLayer inner tmp_err l c) = hc_DeleteLayer inner l (pc_inner c)"
  by (simp_all add: pc_Get_def pc_Set_def pc_Delete_def pc_DeleteLayer_def case_prod_unfold Let_def)

locale logged_cache = hash_cache_laws C invar look
  for C :: "'s hash_cache" and invar look +
  fixes encode :: "wal_entry \<Rightarrow> bytes" and fault :: "nat option" and tmp_err :: "string option" and now0 :: int

sublocale logged_cache \<subseteq> persistent: hash_cache_laws "persistent_hash_cache C encode fault tmp_err now0"
    "\<lambda>c. invar (pc_inner c)" "\<lambda>c. look (pc_inner c)"
proof (rule hash_cache_laws.intro)
  fix now and s :: "'a persistent_cache" and l
  let ?P = "persistent_hash_cache C encode fault tmp_err now0"
  show "forgetful_cache (\<lambda>c. invar (pc_inner c)) (\<lambda>c. look (pc_inner c)) (\<lambda>k. hc_Get ?P now (fst k) (snd k))
      (\<lambda>k. hc_Set ?P now (fst k) (snd k)) (\<lambda>k. hc_Delete ?P (fst k) (snd k))"
    by unfold_locales
      (simp_all add: persistent_hash_cache_def
        ops.get_sound ops.get_forgets ops.put_adds ops.delete_drops ops.invar_get ops.invar_put ops.invar_delete)
qed (simp_all add: persistent_hash_cache_def deleteLayer invar_deleteLayer)

interpretation logged_lru: logged_cache "lru_hash_cache sorted_list_of_set" lc_inv lc_lookup encode fault tmp_err now0
  for encode fault tmp_err now0
  by unfold_locales

section \<open>What a reopened cache holds\<close>

text \<open>The entries that a sequence of calls logs; \<open>DeleteLayer\<close> logs none.\<close>

fun logged :: "int \<Rightarrow> int \<times> cache_op \<Rightarrow> wal_entry list" where
  "logged now0 (now, CSet l p h) = [\<lparr>we_LayerID = l, we_RelPath = p, we_Hash = h, we_Deleted = False, we_TS = now\<rparr>]"
| "logged now0 (now, CDelete l p) = [\<lparr>we_LayerID = l, we_RelPath = p, we_Hash = '''', we_Deleted = True, we_TS = now0\<rparr>]"
| "logged now0 (now, _) = []"


lemma walFile_maybeCompactLocked [simp]: "pc_walFile (maybeCompactLocked tmp_err c) = pc_walFile c"
  by (simp add: maybeCompactLocked_def compact_def split: option.split)

lemma walFile_op:
  assumes "pc_walFile c = OpenWAL w"
  shows "pc_walFile (apply_op (persistent_hash_cache inner encode None tmp_err now0) op c)
    = OpenWAL (w @ concat (map (wal_record encode) (logged now0 op)))"
proof -
  obtain now o' where "op = (now, o')" by (cases op)
  then show ?thesis
    using assms by (cases o') (simp_all add: persistent_hash_cache_def pc_Get_def pc_Set_def pc_Delete_def pc_DeleteLayer_def
      appendWAL_def writeWALEntry_def case_prod_unfold Let_def)
qed

lemma walFile_run:
  "pc_walFile c = OpenWAL w \<Longrightarrow> pc_walFile (fold (apply_op (persistent_hash_cache inner encode None tmp_err now0)) ops c)
    = OpenWAL (w @ concat (map (wal_record encode) (concat (map (logged now0) ops))))"
  by (induction ops arbitrary: c w) (simp_all add: walFile_op)



lemma openAndReplay_log:
  assumes "\<forall>e \<in> set es. gob_ok encode decode e"
  shows "openAndReplay inner decode (\<lambda>_. None) None t (Inr (concat (map (wal_record encode) es))) c =
    (None, c\<lparr>pc_walFile := OpenWAL (concat (map (wal_record encode) es)), pc_inner := fold (replay inner t) es (pc_inner c),
             pc_walCount := int (length es)\<rparr>)"
  using readWAL_records [OF assms, of 0 "[]"] readWAL.simps [of decode "\<lambda>_. None" "length es" "[]"]
  by (simp add: openAndReplay_def Let_def)

section \<open>Properties\<close>

lemma NewPersistentHashCache_log:
  assumes "\<forall>e \<in> set es. gob_ok encode decode e"
  shows "NewPersistentHashCache enum decode (\<lambda>_. None) None t (Inr (concat (map (wal_record encode) es))) path n threshold =
    Inr \<lparr>pc_inner = fold (replay (lru_hash_cache enum) t) es (NewShardedLRUCache n), pc_walFile = OpenWAL (concat (map (wal_record encode) es)),
         pc_walPath = path, pc_walCount = int (length es), pc_compactAt = (if threshold \<le> 0 then 100000 else threshold)\<rparr>"
  by (simp add: NewPersistentHashCache_def openAndReplay_log [OF assms] Let_def)





text \<open>The persistent cache forgets a deleted layer only until the next start: \<open>DeleteLayer\<close> appends no deletion
  marker and the compaction it triggers leaves the file as it is, so the reopened cache serves the deleted layer's hashes.\<close>

theorem DeleteLayer_is_undone_by_reopening:
  fixes encode :: "wal_entry \<Rightarrow> bytes"
  assumes "map_range enum" "gob_ok encode decode \<lparr>we_LayerID = l, we_RelPath = p, we_Hash = h, we_Deleted = False, we_TS = t1\<rparr>"
    and "NewPersistentHashCache enum decode (\<lambda>_. None) None t0 (Inr []) path n threshold = Inr c0"
    and "c1 = pc_DeleteLayer (lru_hash_cache enum) tmp_err l (pc_Set (lru_hash_cache enum) encode None tmp_err t1 l p h c0)"
  shows "fst (pc_Get (lru_hash_cache enum) now l p c1) = None
    \<and> (\<exists>w c2. pc_walFile c1 = OpenWAL w \<and> NewPersistentHashCache enum decode (\<lambda>_. None) None t2 (Inr w) path n threshold = Inr c2
        \<and> fst (pc_Get (lru_hash_cache enum) now l p c2) = Some h)"
proof -
  let ?e = "\<lparr>we_LayerID = l, we_RelPath = p, we_Hash = h, we_Deleted = False, we_TS = t1\<rparr>"
  let ?P = "persistent_hash_cache (lru_hash_cache enum) encode None tmp_err 0"
  have laws: "hash_cache_laws (lru_hash_cache enum) lc_inv lc_lookup" by (rule lru_laws [OF assms(1)])
  have c0: "pc_walFile c0 = OpenWAL []" "pc_inner c0 = NewShardedLRUCache n" using assms(3) NewPersistentHashCache_log [of "[]"] by auto
  have i: "lc_inv (NewShardedLRUCache n)" by (rule NewShardedLRUCache_ok)
  have c1: "c1 = fold (apply_op ?P) [(t1, CSet l p h), (t1, CDeleteLayer l)] c0" using assms(4) by (simp add: persistent_hash_cache_def)
  have w: "pc_walFile c1 = OpenWAL (wal_record encode ?e)" using walFile_run [OF c0(1), of _ encode tmp_err 0 "[(t1, CSet l p h), (t1, CDeleteLayer l)]"] by (simp add: c1)
  have inner1: "pc_inner c1 = hc_DeleteLayer (lru_hash_cache enum) l (lc_Set t1 l p h (NewShardedLRUCache n))"
    using assms(4) c0(2) by (simp add: lru_hash_cache_def)
  have set_ok: "lc_inv (lc_Set t l p h (NewShardedLRUCache n))" for t using lru_storing.invar_put [OF i, of t "(l, p)" h] by simp
  have inv1: "lc_inv (pc_inner c1)" unfolding inner1 by (rule hash_cache_laws.invar_deleteLayer [OF laws set_ok])
  have "lc_lookup (pc_inner c1) (l, p) = None"
    using hash_cache_laws.deleteLayer [OF laws set_ok [of t1], of l]
    unfolding inner1 [symmetric] map_le_def restrict_map_def by (metis (mono_tags, lifting) domIff fst_conv mem_Collect_eq option.distinct(1))
  then have none: "fst (pc_Get (lru_hash_cache enum) now l p c1) = None"
    using lru_storing.get_result [OF inv1, of now "(l, p)"] by (simp add: lru_hash_cache_def)
  have "fst (lc_Get now l p (lc_Set t2 l p h (NewShardedLRUCache n))) = Some h"
    using lru_storing.put_same [OF i, of t2 "(l, p)" h] lru_storing.get_result [OF set_ok, of now "(l, p)"] by simp
  then show ?thesis
    using none w NewPersistentHashCache_log [of "[?e]" encode decode enum t2 path n threshold] assms(2)
    by (simp add: replay_def lru_hash_cache_def)
qed

section \<open>Witnesses\<close>

text \<open>A small encoding of two entries.\<close>

definition entry_set :: wal_entry where
  "entry_set = \<lparr>we_LayerID = ''a'', we_RelPath = ''x'', we_Hash = ''h'', we_Deleted = False, we_TS = 1\<rparr>"

definition entry_del :: wal_entry where
  "entry_del = \<lparr>we_LayerID = ''a'', we_RelPath = ''y'', we_Hash = '''', we_Deleted = True, we_TS = 0\<rparr>"

definition small_encode :: "wal_entry \<Rightarrow> bytes" where
  "small_encode e = (if we_Deleted e then [2, 0] else [1])"

definition small_decode :: "bytes \<Rightarrow> wal_entry option" where
  "small_decode bs = (if bs = [1] then Some entry_set else if bs = [2, 0] then Some entry_del else None)"

lemma small_gob: "gob_ok small_encode small_decode entry_set" "gob_ok small_encode small_decode entry_del"
  by (simp_all add: gob_ok_def small_encode_def small_decode_def entry_set_def entry_del_def)

theorem DeleteLayer_is_undone_by_reopening_witness:
  "\<exists>c0. NewPersistentHashCache sorted_list_of_set small_decode (\<lambda>_. None) None 0 (Inr []) ''wal'' 1000 0 = Inr c0
    \<and> (let c1 = pc_DeleteLayer (lru_hash_cache sorted_list_of_set) None ''a''
           (pc_Set (lru_hash_cache sorted_list_of_set) small_encode None None 1 ''a'' ''x'' ''h'' c0)
       in fst (pc_Get (lru_hash_cache sorted_list_of_set) 5 ''a'' ''x'' c1) = None
        \<and> (\<exists>w c2. pc_walFile c1 = OpenWAL w \<and> NewPersistentHashCache sorted_list_of_set small_decode (\<lambda>_. None) None 4 (Inr w) ''wal'' 1000 0 = Inr c2
            \<and> fst (pc_Get (lru_hash_cache sorted_list_of_set) 5 ''a'' ''x'' c2) = Some ''h''))"
proof -
  obtain c0 where c0: "NewPersistentHashCache sorted_list_of_set small_decode (\<lambda>_. None) None 0 (Inr []) ''wal'' 1000 0 = Inr c0"
    using NewPersistentHashCache_log [of "[]" small_encode small_decode sorted_list_of_set 0 "''wal''" 1000 0] by simp
  show ?thesis
    unfolding Let_def
    by (intro exI [of _ c0] conjI c0
        DeleteLayer_is_undone_by_reopening [OF sorted_range.map_range_axioms small_gob(1) [unfolded entry_set_def] c0 HOL.refl, THEN conjunct1]
        DeleteLayer_is_undone_by_reopening [OF sorted_range.map_range_axioms small_gob(1) [unfolded entry_set_def] c0 HOL.refl, THEN conjunct2])
qed

end
