(* ===== verification/Lm_Flight.thy ===== *)
theory Lm_Flight
  imports Prelude
begin

text \<open>
  The singleflight groups (\<open>internal/singleflight/singleflight.go\<close>) under every interleaving of their
  callers. A state holds the group's map, the calls that were ever made (the heap objects \<open>*call\<close>,
  named by their index) and the position of every thread in \<open>Do\<close>; an action is one step of one thread
  between two synchronisation points. The mutex is held within one action only, so an action is
  atomic. What \<open>fn\<close> returns is part of the action: the model says nothing about it.
\<close>

section \<open>Group\<close>

record 'r sg_call =
  sc_key :: string
  sc_owner :: nat
  sc_val :: "'r option"
  sc_done :: bool

datatype 'r sg_pc =
    Idle
  | Waiting string nat
  | Running string nat
  | Computed string nat
  | Signalled string nat
  | Returned string nat 'r bool

record 'r sg_state =
  sg_m :: "string \<rightharpoonup> nat"
  sg_calls :: "'r sg_call list"
  sg_pc :: "nat \<Rightarrow> 'r sg_pc"

datatype 'r sg_action = Do nat string | FnReturns nat 'r | WgDone nat | DeleteKey nat | Wake nat

definition sg_init :: "'r sg_state" where
  "sg_init = \<lparr>sg_m = Map.empty, sg_calls = [], sg_pc = (\<lambda>_. Idle)\<rparr>"

definition at :: "nat \<Rightarrow> 'r sg_pc \<Rightarrow> 'r sg_state \<Rightarrow> 'r sg_state" where
  "at t p s = s\<lparr>sg_pc := (sg_pc s)(t := p)\<rparr>"

definition set_call :: "nat \<Rightarrow> ('r sg_call \<Rightarrow> 'r sg_call) \<Rightarrow> 'r sg_state \<Rightarrow> 'r sg_state" where
  "set_call c f s = s\<lparr>sg_calls := (sg_calls s)[c := f (sg_calls s ! c)]\<rparr>"

text \<open>A thread that has returned may call again.\<close>

fun outside :: "'r sg_pc \<Rightarrow> bool" where
  "outside Idle = True"
| "outside (Returned k c r shared) = True"
| "outside _ = False"

fun sg_step :: "'r sg_action \<Rightarrow> 'r sg_state \<Rightarrow> 'r sg_state option" where
  "sg_step (Do t key) s =
     (if outside (sg_pc s t) then
        (case sg_m s key of
           Some c \<Rightarrow> Some (at t (Waiting key c) s)
         | None \<Rightarrow>
             (let c = length (sg_calls s) in
              Some (at t (Running key c)
                (s\<lparr>sg_m := (sg_m s)(key \<mapsto> c),
                   sg_calls := sg_calls s @ [\<lparr>sc_key = key, sc_owner = t, sc_val = None, sc_done = False\<rparr>]\<rparr>))))
      else None)"
| "sg_step (FnReturns t r) s =
     (case sg_pc s t of Running key c \<Rightarrow> Some (at t (Computed key c) (set_call c (\<lambda>cl. cl\<lparr>sc_val := Some r\<rparr>) s)) | _ \<Rightarrow> None)"
| "sg_step (WgDone t) s =
     (case sg_pc s t of Computed key c \<Rightarrow> Some (at t (Signalled key c) (set_call c (\<lambda>cl. cl\<lparr>sc_done := True\<rparr>) s)) | _ \<Rightarrow> None)"
| "sg_step (DeleteKey t) s =
     (case sg_pc s t of
        Signalled key c \<Rightarrow>
          (case sc_val (sg_calls s ! c) of
             Some r \<Rightarrow> Some (at t (Returned key c r False) (s\<lparr>sg_m := (sg_m s)(key := None)\<rparr>))
           | None \<Rightarrow> None)
      | _ \<Rightarrow> None)"
| "sg_step (Wake t) s =
     (case sg_pc s t of
        Waiting key c \<Rightarrow>
          (if sc_done (sg_calls s ! c) then
             (case sc_val (sg_calls s ! c) of Some r \<Rightarrow> Some (at t (Returned key c r True) s) | None \<Rightarrow> None)
           else None)
      | _ \<Rightarrow> None)"

fun sg_run :: "'r sg_action list \<Rightarrow> 'r sg_state \<Rightarrow> 'r sg_state option" where
  "sg_run [] s = Some s"
| "sg_run (a # as) s = (case sg_step a s of None \<Rightarrow> None | Some s' \<Rightarrow> sg_run as s')"

inductive sg_reach :: "'r sg_state \<Rightarrow> bool" where
  start: "sg_reach sg_init"
| action: "sg_reach s \<Longrightarrow> sg_step a s = Some s' \<Longrightarrow> sg_reach s'"

lemma sg_reach_run: "sg_reach s \<Longrightarrow> sg_run as s = Some s' \<Longrightarrow> sg_reach s'"
  by (induction as arbitrary: s) (auto split: option.splits intro: sg_reach.action)

subsection \<open>The invariant\<close>

text \<open>What every position of a thread says about the call it holds.\<close>

fun pc_ok :: "'r sg_state \<Rightarrow> nat \<Rightarrow> 'r sg_pc \<Rightarrow> bool" where
  "pc_ok s t Idle = True"
| "pc_ok s t (Waiting k c) \<longleftrightarrow> c < length (sg_calls s) \<and> sc_key (sg_calls s ! c) = k \<and> sc_owner (sg_calls s ! c) \<noteq> t
     \<and> (sc_done (sg_calls s ! c) \<or> sg_m s k = Some c)"
| "pc_ok s t (Running k c) \<longleftrightarrow> sg_m s k = Some c \<and> sc_owner (sg_calls s ! c) = t \<and> sc_val (sg_calls s ! c) = None"
| "pc_ok s t (Computed k c) \<longleftrightarrow> sg_m s k = Some c \<and> sc_owner (sg_calls s ! c) = t \<and> sc_val (sg_calls s ! c) \<noteq> None"
| "pc_ok s t (Signalled k c) \<longleftrightarrow> sg_m s k = Some c \<and> sc_owner (sg_calls s ! c) = t \<and> sc_val (sg_calls s ! c) \<noteq> None"
| "pc_ok s t (Returned k c r shared) \<longleftrightarrow> c < length (sg_calls s) \<and> sc_key (sg_calls s ! c) = k
     \<and> sc_val (sg_calls s ! c) = Some r \<and> (shared \<longleftrightarrow> sc_owner (sg_calls s ! c) \<noteq> t)"

definition owned :: "'r sg_state \<Rightarrow> string \<Rightarrow> nat \<Rightarrow> bool" where
  "owned s k c \<longleftrightarrow> c < length (sg_calls s) \<and> sc_key (sg_calls s ! c) = k
     \<and> (sg_pc s (sc_owner (sg_calls s ! c)) = Running k c \<and> \<not> sc_done (sg_calls s ! c)
      \<or> sg_pc s (sc_owner (sg_calls s ! c)) = Computed k c \<and> \<not> sc_done (sg_calls s ! c)
      \<or> sg_pc s (sc_owner (sg_calls s ! c)) = Signalled k c \<and> sc_done (sg_calls s ! c))"

definition sg_inv :: "'r sg_state \<Rightarrow> bool" where
  "sg_inv s \<longleftrightarrow> (\<forall>t. pc_ok s t (sg_pc s t)) \<and> (\<forall>k c. sg_m s k = Some c \<longrightarrow> owned s k c)
     \<and> (\<forall>c < length (sg_calls s). sc_done (sg_calls s ! c) \<longrightarrow> sc_val (sg_calls s ! c) \<noteq> None)"

lemma sg_invD:
  assumes "sg_inv s"
  shows "pc_ok s t (sg_pc s t)" "sg_m s k = Some c \<Longrightarrow> owned s k c"
    "c < length (sg_calls s) \<Longrightarrow> sc_done (sg_calls s ! c) \<Longrightarrow> sc_val (sg_calls s ! c) \<noteq> None"
  using assms by (auto simp: sg_inv_def)

lemma sg_inv_init: "sg_inv sg_init"
  by (simp add: sg_inv_def sg_init_def)

lemma pc_ok_cong: "sg_m s' = sg_m s \<Longrightarrow> sg_calls s' = sg_calls s \<Longrightarrow> pc_ok s' t p = pc_ok s t p"
  by (cases p) simp_all

lemma fields_at [simp]:
  "sg_m (at t p s) = sg_m s" "sg_calls (at t p s) = sg_calls s" "sg_pc (at t p s) = (sg_pc s)(t := p)"
  by (simp_all add: at_def)

lemma fields_set_call [simp]:
  "sg_m (set_call c f s) = sg_m s" "sg_pc (set_call c f s) = sg_pc s" "length (sg_calls (set_call c f s)) = length (sg_calls s)"
  by (simp_all add: set_call_def)

lemma nth_set_call [simp]:
  "sg_calls (set_call c f s) ! d = (if d = c \<and> c < length (sg_calls s) then f (sg_calls s ! c) else sg_calls s ! d)"
  by (cases "c < length (sg_calls s)") (simp_all add: set_call_def nth_list_update list_update_beyond)

text \<open>A thread that holds a call of its own holds the call that the map names.\<close>

lemma sg_inv_Do:
  assumes "sg_inv s" "sg_step (Do t key) s = Some s'"
  shows "sg_inv s'"
proof (cases "sg_m s key")
  case (Some c)
  have out: "outside (sg_pc s t)" and s': "s' = at t (Waiting key c) s" using assms(2) Some by (auto split: if_splits)
  have keep: "owned s' k d" if "owned s k d" for k d using that out by (auto simp: owned_def s')
  have c: "owned s key c" by (rule sg_invD(2) [OF assms(1) Some])
  have "sc_owner (sg_calls s ! c) \<noteq> t" using c out by (auto simp: owned_def)
  then have "pc_ok s' t (sg_pc s' t)" using c Some by (simp add: s' owned_def)
  moreover have "pc_ok s' t' (sg_pc s' t')" if "t' \<noteq> t" for t'
    using sg_invD(1) [OF assms(1), of t'] that pc_ok_cong [of s' s t' "sg_pc s t'"] by (simp add: s')
  ultimately have "pc_ok s' t' (sg_pc s' t')" for t' by (cases "t' = t") auto
  then show ?thesis using keep assms(1) by (auto simp: sg_inv_def s')
next
  case None
  let ?c = "length (sg_calls s)"
  have out: "outside (sg_pc s t)" and s': "s' = at t (Running key ?c)
      (s\<lparr>sg_m := (sg_m s)(key \<mapsto> ?c), sg_calls := sg_calls s @ [\<lparr>sc_key = key, sc_owner = t, sc_val = None, sc_done = False\<rparr>]\<rparr>)"
    using assms(2) None by (auto split: if_splits simp: Let_def)
  have len: "d < ?c" if "sg_m s k = Some d" for k d using sg_invD(2) [OF assms(1) that] by (simp add: owned_def)
  have keep: "owned s' k d" if "owned s k d" for k d
    using that out by (auto simp: owned_def s' nth_append)
  have "pc_ok s' t' (sg_pc s' t')" if "t' \<noteq> t" for t'
    using sg_invD(1) [OF assms(1), of t'] len None that
    by (cases "sg_pc s t'") (simp_all add: s' nth_append, (fastforce simp: nth_append)+)
  then have "pc_ok s' t' (sg_pc s' t')" for t' by (cases "t' = t") (simp_all add: s')
  moreover have "owned s' key ?c" by (simp add: owned_def s')
  ultimately show ?thesis using keep assms(1) by (auto simp: sg_inv_def s' nth_append less_Suc_eq)
qed

lemma sg_inv_own_step:
  assumes "sg_inv s" "a = FnReturns t r \<or> a = WgDone t" "sg_step a s = Some s'"
  shows "sg_inv s'"
proof -
  obtain k c p f where p: "sg_pc s t \<in> {Running k c, Computed k c}" "sg_pc s t = Running k c \<Longrightarrow> p = Computed k c \<and> f = (\<lambda>cl. cl\<lparr>sc_val := Some r\<rparr>)"
      "sg_pc s t = Computed k c \<Longrightarrow> p = Signalled k c \<and> f = (\<lambda>cl. cl\<lparr>sc_done := True\<rparr>)" and s': "s' = at t p (set_call c f s)"
    using assms(2,3) by (auto split: sg_pc.splits)
  have own: "sg_m s k = Some c" "sc_owner (sg_calls s ! c) = t" using p(1) sg_invD(1) [OF assms(1), of t] by auto
  have len: "c < length (sg_calls s)" "owned s k c" using sg_invD(2) [OF assms(1) own(1)] by (auto simp: owned_def)
  have keep: "owned s' k' d" if "owned s k' d" for k' d
    using that p own by (cases "d = c") (auto simp: owned_def s')
  have none: "sg_pc s t = Running k c \<Longrightarrow> sc_val (sg_calls s ! c) = None" using sg_invD(1) [OF assms(1), of t] by simp
  have "pc_ok s' t' (sg_pc s' t')" if "t' \<noteq> t" for t'
    using sg_invD(1) [OF assms(1), of t'] that p own len(1) none by (cases "sg_pc s t'") (auto simp: s')
  moreover have "pc_ok s' t (sg_pc s' t)" using sg_invD(1) [OF assms(1), of t] p own len by (auto simp: s')
  ultimately have "pc_ok s' t' (sg_pc s' t')" for t' by (cases "t' = t") auto
  moreover have "sg_pc s t = Computed k c \<Longrightarrow> sc_val (sg_calls s ! c) \<noteq> None" using sg_invD(1) [OF assms(1), of t] by simp
  ultimately show ?thesis using keep assms(1) p len by (auto simp: sg_inv_def s')
qed

lemma sg_inv_DeleteKey:
  assumes "sg_inv s" "sg_step (DeleteKey t) s = Some s'"
  shows "sg_inv s'"
proof -
  obtain k c r where p: "sg_pc s t = Signalled k c" "sc_val (sg_calls s ! c) = Some r"
      and s': "s' = at t (Returned k c r False) (s\<lparr>sg_m := (sg_m s)(k := None)\<rparr>)"
    using assms(2) by (auto split: sg_pc.splits option.splits)
  have own: "sg_m s k = Some c" "sc_owner (sg_calls s ! c) = t" using p(1) sg_invD(1) [OF assms(1), of t] by auto
  have c: "owned s k c" by (rule sg_invD(2) [OF assms(1) own(1)])
  then have d: "sc_done (sg_calls s ! c)" "c < length (sg_calls s)" "sc_key (sg_calls s ! c) = k" using p own by (auto simp: owned_def)
  have "pc_ok s' t (sg_pc s' t)" using p d own by (simp add: s')
  moreover have "pc_ok s' t' (sg_pc s' t')" if "t' \<noteq> t" for t'
  proof (cases "sg_pc s t'")
    case (Waiting k' c')
    then show ?thesis using sg_invD(1) [OF assms(1), of t'] that d own by (cases "k' = k") (auto simp: s')
  qed (use sg_invD(1) [OF assms(1), of t'] that own in \<open>auto simp: s'\<close>)
  ultimately have "pc_ok s' t' (sg_pc s' t')" for t' by (cases "t' = t") auto
  moreover have "owned s' k' d" if "owned s k' d" "k' \<noteq> k" for k' d using that p own by (auto simp: owned_def s')
  ultimately show ?thesis using assms(1) by (auto simp: sg_inv_def s')
qed

lemma sg_inv_Wake:
  assumes "sg_inv s" "sg_step (Wake t) s = Some s'"
  shows "sg_inv s'"
proof -
  obtain k c r where p: "sg_pc s t = Waiting k c" "sc_val (sg_calls s ! c) = Some r" and s': "s' = at t (Returned k c r True) s"
    using assms(2) by (auto split: sg_pc.splits option.splits if_splits)
  have "pc_ok s' t' (sg_pc s' t')" for t'
    using sg_invD(1) [OF assms(1), of t'] sg_invD(1) [OF assms(1), of t] p pc_ok_cong [of s' s t' "sg_pc s t'"]
    by (cases "t' = t") (auto simp: s')
  moreover have "owned s' k' d" if "owned s k' d" for k' d using that p by (auto simp: owned_def s')
  ultimately show ?thesis using assms(1) by (auto simp: sg_inv_def s')
qed

lemma sg_inv_step: "sg_inv s \<Longrightarrow> sg_step a s = Some s' \<Longrightarrow> sg_inv s'"
  by (cases a) (blast intro: sg_inv_Do sg_inv_own_step sg_inv_DeleteKey sg_inv_Wake)+

lemma sg_reach_inv: "sg_reach s \<Longrightarrow> sg_inv s"
  by (induction rule: sg_reach.induct) (auto intro: sg_inv_init sg_inv_step)

subsection \<open>What the group guarantees\<close>

lemma running_owner:
  assumes "sg_inv s" "sg_pc s t = Running k c"
  shows "sg_m s k = Some c" "sc_owner (sg_calls s ! c) = t"
  using sg_invD(1) [OF assms(1), of t] assms(2) by auto

text \<open>C21: Under every interleaving at most one thread executes \<open>fn\<close> for a key, and every result that a call of \<open>Do\<close>
  returns is one that \<open>fn\<close> returned for that key: the thread's own execution when the result is not marked as
  shared, another thread's when it is.\<close>

theorem Do_executes_once_per_key:
  assumes "sg_reach s"
  shows "(sg_pc s t1 = Running k c1 \<and> sg_pc s t2 = Running k c2 \<longrightarrow> t1 = t2)
    \<and> (sg_pc s t = Returned k' c r shared \<longrightarrow>
        sc_key (sg_calls s ! c) = k' \<and> sc_val (sg_calls s ! c) = Some r \<and> (shared \<longleftrightarrow> sc_owner (sg_calls s ! c) \<noteq> t))"
proof -
  have inv: "sg_inv s" using assms by (rule sg_reach_inv)
  show ?thesis
    using running_owner [OF inv, of t1 k c1] running_owner [OF inv, of t2 k c2] sg_invD(1) [OF inv, of t] by auto
qed

text \<open>A waiting caller is never stranded: from every reachable state a thread that waits on a call returns that call's
  result after at most three more steps, two of them by the thread that executes \<open>fn\<close>, as soon as \<open>fn\<close> returns.\<close>

theorem waiting_caller_returns:
  assumes "sg_reach s" "sg_pc s t = Waiting k c"
  shows "\<exists>acts s' r'. length acts \<le> 3 \<and> set acts \<subseteq> {FnReturns (sc_owner (sg_calls s ! c)) r, WgDone (sc_owner (sg_calls s ! c)), Wake t}
    \<and> sg_run acts s = Some s' \<and> sg_pc s' t = Returned k c r' True
    \<and> (case sc_val (sg_calls s ! c) of None \<Rightarrow> r' = r | Some v \<Rightarrow> r' = v)"
proof -
  let ?o = "sc_owner (sg_calls s ! c)"
  have inv: "sg_inv s" using assms(1) by (rule sg_reach_inv)
  have c: "c < length (sg_calls s)" "?o \<noteq> t" "sc_done (sg_calls s ! c) \<or> sg_m s k = Some c"
    using sg_invD(1) [OF inv, of t] assms(2) by auto
  consider v where "sc_done (sg_calls s ! c)" "sc_val (sg_calls s ! c) = Some v"
    | "sg_pc s ?o = Running k c" "\<not> sc_done (sg_calls s ! c)" "sc_val (sg_calls s ! c) = None"
    | v where "sg_pc s ?o = Computed k c" "\<not> sc_done (sg_calls s ! c)" "sc_val (sg_calls s ! c) = Some v"
  proof (cases "sc_done (sg_calls s ! c)")
    case False
    then have "owned s k c" using c(3) sg_invD(2) [OF inv] by blast
    then show ?thesis using False that(2,3) sg_invD(1) [OF inv, of ?o] by (auto simp: owned_def)
  qed (use that(1) sg_invD(3) [OF inv c(1)] in auto)
  then show ?thesis
  proof cases
    case (1 v)
    then have "sg_run [Wake t] s = Some (at t (Returned k c v True) s)" using assms(2) by simp
    then show ?thesis using 1 by (intro exI [of _ "[Wake t]"]) auto
  next
    case 2
    then show ?thesis using c assms(2) by (intro exI [of _ "[FnReturns ?o r, WgDone ?o, Wake t]"]) simp
  next
    case (3 v)
    then show ?thesis using c assms(2) by (intro exI [of _ "[WgDone ?o, Wake t]"]) simp
  qed
qed

text \<open>The window between \<open>wg.Done\<close> and the deletion of the key: a call that starts after \<open>fn\<close> has returned may
  still be handed that old result, without \<open>fn\<close> running during the call.\<close>

theorem Do_joins_finished_execution:
  assumes "t1 \<noteq> t2"
  shows "\<exists>s s'. sg_run [Do t1 key, FnReturns t1 r, WgDone t1] sg_init = Some s \<and> sg_pc s t2 = Idle
    \<and> (\<forall>t k c. sg_pc s t \<noteq> Running k c) \<and> sg_run [Do t2 key, Wake t2] s = Some s' \<and> sg_pc s' t2 = Returned key 0 r True"
  using assms by (simp add: sg_init_def Let_def)

subsection \<open>Witnesses\<close>

lemma reach_by_run: "sg_run acts sg_init = Some s \<Longrightarrow> sg_reach s"
  by (rule sg_reach_run [OF sg_reach.start])

theorem Do_executes_once_per_key_witness:
  "\<exists>s. sg_reach s \<and> sg_pc s (2 :: nat) = Returned ''k'' 0 (7 :: nat) True \<and> sc_val (sg_calls s ! 0) = Some 7
    \<and> sc_owner (sg_calls s ! 0) \<noteq> 2"
proof -
  obtain s where s: "sg_run [Do 1 ''k'', Do 2 ''k'', FnReturns 1 7, WgDone 1, Wake 2] (sg_init :: nat sg_state) = Some s"
    "sg_pc s 2 = Returned ''k'' 0 7 True"
    by (simp add: sg_init_def Let_def)
  then show ?thesis
    using Do_executes_once_per_key [OF reach_by_run [OF s(1)], of 1 "''k''" 0 2 0 2 "''k''" 0 7 True] s reach_by_run [OF s(1)] by blast
qed

theorem waiting_caller_returns_witness:
  "\<exists>s acts s' r'. sg_reach s \<and> sg_pc s 2 = Waiting ''k'' 0 \<and> sg_run acts s = Some s' \<and> sg_pc s' 2 = Returned ''k'' 0 (r' :: nat) True"
proof -
  obtain s where s: "sg_run [Do 1 ''k'', Do 2 ''k''] (sg_init :: nat sg_state) = Some s" "sg_pc s 2 = Waiting ''k'' 0"
    by (simp add: sg_init_def Let_def)
  then show ?thesis
    using waiting_caller_returns [OF reach_by_run [OF s(1)] s(2), of 7] reach_by_run [OF s(1)] by blast
qed

theorem Do_joins_finished_execution_witness:
  "\<exists>s s'. sg_run [Do 1 ''k'', FnReturns 1 (7 :: nat), WgDone 1] sg_init = Some s
    \<and> sg_run [Do 2 ''k'', Wake 2] s = Some s' \<and> sg_pc s' 2 = Returned ''k'' 0 7 True"
  using Do_joins_finished_execution [of 1 2 "''k''" "7 :: nat"] by (simp del: sg_run.simps sg_step.simps) blast

end
