(* ===== verification/Lm_Serial.thy ===== *)
theory Lm_Serial
  imports Lm_Merkle
begin

text \<open>
  The wire format of Merkle forests and the printed tree (\<open>serial.go\<close>). \<open>encoding/json\<close> is a pair of
  arguments, \<open>marshal\<close> and \<open>unmarshal\<close>; the stream that is read or written is its byte sequence, with
  the error of the stream, if any, as an argument.
\<close>

section \<open>Wire types\<close>

record wire_leaf =
  wl_RelPath :: string
  wl_Hash :: string
  wl_OwnerLayerID :: string
  wl_FromCache :: bool

record wire_tree =
  wt_VertexID :: string
  wt_LayerStack :: "string list"
  wt_Root :: string
  wt_Leaves :: "wire_leaf list"
  wt_LeafCount :: int
  wt_CacheHitCount :: int
  wt_FinalizedAt :: int

record wire_forest =
  wf_Version :: int
  wf_Trees :: "wire_tree list"

definition forestWireVersion :: int where "forestWireVersion = 1"

section \<open>Conversions\<close>

definition treeToWire :: "lm_tree \<Rightarrow> wire_tree" where
  "treeToWire t =
     \<lparr>wt_VertexID = tr_VertexID t, wt_LayerStack = tr_LayerStack t, wt_Root = tr_Root t,
      wt_Leaves = map (\<lambda>lf. \<lparr>wl_RelPath = lf_RelPath lf, wl_Hash = lf_Hash lf, wl_OwnerLayerID = lf_OwnerLayerID lf,
                             wl_FromCache = lf_FromCache lf\<rparr>) (tr_Leaves t),
      wt_LeafCount = tr_LeafCount t, wt_CacheHitCount = tr_CacheHitCount t, wt_FinalizedAt = tr_FinalizedAt t\<rparr>"

datatype serial_error =
    InvalidLayerDigest string digest_error
  | UnmarshalForestFailed string
  | UnmarshalTreeFailed string
  | UnsupportedVersion int
  | ReadForestFailed string
  | StreamError string

fun validateStack :: "string list \<Rightarrow> serial_error + layer_stack" where
  "validateStack [] = Inr []"
| "validateStack (s # ss) =
     (case digest_Validate s of
        Some err \<Rightarrow> Inl (InvalidLayerDigest s err)
      | None \<Rightarrow> (case validateStack ss of Inl e \<Rightarrow> Inl e | Inr st \<Rightarrow> Inr (s # st)))"

definition wireToTree :: "wire_tree \<Rightarrow> serial_error + lm_tree" where
  "wireToTree wt =
     (case validateStack (wt_LayerStack wt) of
        Inl e \<Rightarrow> Inl e
      | Inr st \<Rightarrow> Inr \<lparr>tr_VertexID = wt_VertexID wt, tr_LayerStack = st, tr_Root = wt_Root wt, tr_RootNode = None,
          tr_Leaves = map (\<lambda>wl. \<lparr>lf_RelPath = wl_RelPath wl, lf_Hash = wl_Hash wl, lf_OwnerLayerID = wl_OwnerLayerID wl,
                                lf_FromCache = wl_FromCache wl\<rparr>) (wt_Leaves wt),
          tr_LeafCount = wt_LeafCount wt, tr_CacheHitCount = wt_CacheHitCount wt, tr_FinalizedAt = wt_FinalizedAt wt\<rparr>)"

section \<open>Marshal and unmarshal\<close>

definition forestToWire :: "(lm_vertex set \<Rightarrow> lm_vertex list) \<Rightarrow> (lm_tree list \<Rightarrow> lm_tree list) \<Rightarrow> lm_forest \<Rightarrow> wire_forest" where
  "forestToWire enum srt f = \<lparr>wf_Version = forestWireVersion, wf_Trees = map treeToWire (mf_All enum srt f)\<rparr>"

definition MarshalForest :: "(wire_forest \<Rightarrow> string + bytes) \<Rightarrow> (lm_vertex set \<Rightarrow> lm_vertex list) \<Rightarrow> (lm_tree list \<Rightarrow> lm_tree list) \<Rightarrow> lm_forest
    \<Rightarrow> string + bytes" where
  "MarshalForest marshal enum srt f = marshal (forestToWire enum srt f)"

fun addTrees :: "wire_tree list \<Rightarrow> lm_forest \<Rightarrow> serial_error + lm_forest" where
  "addTrees [] f = Inr f"
| "addTrees (wt # wts) f = (case wireToTree wt of Inl e \<Rightarrow> Inl e | Inr t \<Rightarrow> addTrees wts (mf_Add t f))"

definition UnmarshalForest :: "(bytes \<Rightarrow> string + wire_forest) \<Rightarrow> bytes \<Rightarrow> serial_error + lm_forest" where
  "UnmarshalForest unmarshal data =
     (case unmarshal data of
        Inl err \<Rightarrow> Inl (UnmarshalForestFailed err)
      | Inr w \<Rightarrow>
          (if wf_Version w \<noteq> forestWireVersion then Inl (UnsupportedVersion (wf_Version w))
           else addTrees (wf_Trees w) NewMerkleForest))"

text \<open>\<open>write_err\<close> is what the writer answers; \<open>read\<close> is what \<open>io.ReadAll\<close> returns.\<close>

definition WriteForest :: "(wire_forest \<Rightarrow> string + bytes) \<Rightarrow> (lm_vertex set \<Rightarrow> lm_vertex list) \<Rightarrow> (lm_tree list \<Rightarrow> lm_tree list)
    \<Rightarrow> (bytes \<Rightarrow> string option) \<Rightarrow> lm_forest \<Rightarrow> string option \<times> bytes option" where
  "WriteForest marshal enum srt write_err f =
     (case MarshalForest marshal enum srt f of Inl err \<Rightarrow> (Some err, None) | Inr b \<Rightarrow> (write_err b, Some b))"

definition ReadForest :: "(bytes \<Rightarrow> string + wire_forest) \<Rightarrow> string + bytes \<Rightarrow> serial_error + lm_forest" where
  "ReadForest unmarshal r = (case r of Inl err \<Rightarrow> Inl (ReadForestFailed err) | Inr b \<Rightarrow> UnmarshalForest unmarshal b)"

definition MarshalTree :: "(wire_tree \<Rightarrow> string + bytes) \<Rightarrow> lm_tree \<Rightarrow> string + bytes" where
  "MarshalTree marshal t = marshal (treeToWire t)"

definition UnmarshalTree :: "(bytes \<Rightarrow> string + wire_tree) \<Rightarrow> bytes \<Rightarrow> serial_error + lm_tree" where
  "UnmarshalTree unmarshal data = (case unmarshal data of Inl err \<Rightarrow> Inl (UnmarshalTreeFailed err) | Inr wt \<Rightarrow> wireToTree wt)"

section \<open>Printing\<close>

text \<open>The loop \<open>for i := len(s) - 1; i \<ge> 0; i--\<close>, from \<open>i\<close> characters on.\<close>

fun lastSlash_from :: "string \<Rightarrow> nat \<Rightarrow> int" where
  "lastSlash_from s 0 = -1"
| "lastSlash_from s (Suc i) = (if s ! i = CHR ''/'' then int i else lastSlash_from s i)"

definition lastSlash :: "string \<Rightarrow> int" where
  "lastSlash s = lastSlash_from s (length s)"

text \<open>The two loops of the insertion sort, which swaps neighbours in place.\<close>

fun sink :: "string list \<Rightarrow> nat \<Rightarrow> string list" where
  "sink ss 0 = ss"
| "sink ss (Suc j) = (if ss ! Suc j < ss ! j then sink (ss[Suc j := ss ! j, j := ss ! Suc j]) j else ss)"

definition sortStrings :: "string list \<Rightarrow> string list" where
  "sortStrings ss = fold (\<lambda>i ss. sink ss i) [1..<length ss] ss"

definition leafDir :: "merkle_leaf \<Rightarrow> string" where
  "leafDir lf = (let i = lastSlash (lf_RelPath lf) in if i \<ge> 0 then take (nat i) (lf_RelPath lf) else '''')"

definition leafName :: "merkle_leaf \<Rightarrow> string" where
  "leafName lf = drop (nat (lastSlash (lf_RelPath lf) + 1)) (lf_RelPath lf)"

text \<open>One constructor for each format string that \<open>PrettyPrintTree\<close> writes, with its arguments.\<close>

datatype pretty_line =
    TreeHeader string string int real
  | DirLine string
  | LeafLine string string string bool

definition PrettyPrintTree :: "(string set \<Rightarrow> string list) \<Rightarrow> lm_tree \<Rightarrow> pretty_line list" where
  "PrettyPrintTree enum t =
     (let dirs = (\<lambda>d. filter (\<lambda>lf. leafDir lf = d) (tr_Leaves t));
          sortedDirs = sortStrings (enum (leafDir ` set (tr_Leaves t)))
      in TreeHeader (shortDigest (tr_VertexID t)) (shortDigest (tr_Root t)) (tr_LeafCount t) (CacheHitRate t * 100)
         # concat (map (\<lambda>dir. (if dir \<noteq> '''' then [DirLine dir] else [])
              @ map (\<lambda>lf. LeafLine (leafName lf) (shortDigest (lf_Hash lf)) (shortDigest (lf_OwnerLayerID lf)) (lf_FromCache lf)) (dirs dir))
            sortedDirs))"

section \<open>Round trip\<close>

lemma validateStack_iff: "validateStack ss = Inr st \<longleftrightarrow> st = ss \<and> (\<forall>s \<in> set ss. digest_Validate s = None)"
  by (induction ss arbitrary: st) (auto split: option.splits sum.splits)

lemma validateStack_Inl:
  "\<exists>s \<in> set ss. digest_Validate s \<noteq> None \<Longrightarrow> \<exists>s e. s \<in> set ss \<and> digest_Validate s = Some e \<and> validateStack ss = Inl (InvalidLayerDigest s e)"
proof (induction ss)
  case (Cons s ss)
  show ?case
  proof (cases "digest_Validate s")
    case None
    then show ?thesis using Cons by auto
  qed auto
qed simp

definition valid_tree :: "lm_tree \<Rightarrow> bool" where
  "valid_tree t \<longleftrightarrow> (\<forall>s \<in> set (tr_LayerStack t). digest_Validate s = None)"

text \<open>The in-memory node tree is not serialised.\<close>

definition without_nodes :: "lm_tree \<Rightarrow> lm_tree" where
  "without_nodes t = t\<lparr>tr_RootNode := None\<rparr>"

lemma leaf_fields:
  "\<lparr>lf_RelPath = lf_RelPath lf, lf_Hash = lf_Hash lf, lf_OwnerLayerID = lf_OwnerLayerID lf, lf_FromCache = lf_FromCache lf\<rparr> = (lf :: merkle_leaf)"
  by simp

lemma wireToTree_treeToWire: "valid_tree t \<Longrightarrow> wireToTree (treeToWire t) = Inr (without_nodes t)"
  using validateStack_iff [of "tr_LayerStack t" "tr_LayerStack t"]
  by (cases t) (simp add: wireToTree_def treeToWire_def valid_tree_def without_nodes_def comp_def leaf_fields)

definition names_bad_layer :: "serial_error \<Rightarrow> lm_tree \<Rightarrow> bool" where
  "names_bad_layer err t \<longleftrightarrow> (\<exists>s \<in> set (tr_LayerStack t). \<exists>e. digest_Validate s = Some e \<and> err = InvalidLayerDigest s e)"

lemma wireToTree_invalid: "\<not> valid_tree t \<Longrightarrow> \<exists>err. names_bad_layer err t \<and> wireToTree (treeToWire t) = Inl err"
  using validateStack_Inl [of "tr_LayerStack t"] by (fastforce simp: wireToTree_def treeToWire_def valid_tree_def names_bad_layer_def)

lemma treeToWire_without_nodes [simp]: "treeToWire (without_nodes t) = treeToWire t" "tr_VertexID (without_nodes t) = tr_VertexID t"
  by (simp_all add: treeToWire_def without_nodes_def)

lemma addTrees_valid:
  "\<forall>t \<in> set ts. valid_tree t \<Longrightarrow> addTrees (map treeToWire ts) f = Inr (fold (\<lambda>t f. mf_Add (without_nodes t) f) ts f)"
  by (induction ts arbitrary: f) (simp_all add: wireToTree_treeToWire)

lemma addTrees_invalid:
  "\<exists>t \<in> set ts. \<not> valid_tree t \<Longrightarrow> \<exists>t \<in> set ts. \<exists>err. names_bad_layer err t \<and> addTrees (map treeToWire ts) f = Inl err"
proof (induction ts arbitrary: f)
  case (Cons t ts)
  show ?case
  proof (cases "valid_tree t")
    case True
    then show ?thesis using Cons by (simp add: wireToTree_treeToWire)
  next
    case False
    then show ?thesis using wireToTree_invalid [OF False] by auto
  qed
qed simp

lemma fold_mf_Add:
  "fold (\<lambda>t f. mf_Add (g t) f) ts f = f ++ (\<lambda>v. map_option g (map_of (rev (map (\<lambda>t. (tr_VertexID t, t)) ts)) v))"
  if "\<And>t. tr_VertexID (g t) = tr_VertexID t"
proof (induction ts rule: rev_induct)
  case Nil
  then show ?case by (simp add: map_add_def)
next
  case (snoc t ts)
  then show ?case by (auto simp: mf_Add_def that map_add_def split: option.splits)
qed

text \<open>The forests that the engine builds: every tree stands under its own vertex.\<close>

definition forest_ok :: "lm_forest \<Rightarrow> bool" where
  "forest_ok f \<longleftrightarrow> finite (dom f) \<and> (\<forall>v t. f v = Some t \<longrightarrow> tr_VertexID t = v)"

lemma forest_ok_ops: "forest_ok NewMerkleForest" "forest_ok f \<Longrightarrow> forest_ok (mf_Add t f)"
  by (auto simp: forest_ok_def NewMerkleForest_def mf_Add_def)

lemma map_of_keyed:
  assumes "set ts = ran f" "\<And>v t. f v = Some t \<Longrightarrow> key t = v" "distinct (map key ts)"
  shows "map_of (map (\<lambda>t. (key t, t)) ts) = f"
proof
  fix v
  have d: "distinct (map fst (map (\<lambda>t. (key t, t)) ts))" using assms(3) by (simp add: comp_def)
  show "map_of (map (\<lambda>t. (key t, t)) ts) v = f v"
  proof (cases "f v")
    case None
    then have "v \<notin> key ` set ts" using assms(1,2) by (auto simp: ran_def)
    then show ?thesis using None by (auto simp: map_of_eq_None_iff)
  next
    case (Some t)
    then have "(v, t) \<in> set (map (\<lambda>t. (key t, t)) ts)" using assms(1,2) by (auto simp: ran_def)
    then show ?thesis using Some d by simp
  qed
qed

lemma mf_All_forest:
  assumes "slice_sort tr_VertexID srt" "map_range enum" "forest_ok f"
  shows "set (mf_All enum srt f) = ran f" "distinct (map tr_VertexID (mf_All enum srt f))"
    "map_of (map (\<lambda>t. (tr_VertexID t, t)) (mf_All enum srt f)) = f"
    "mf_All enum srt f = map (\<lambda>v. the (f v)) (sorted_list_of_set (dom f))"
proof -
  note k = mf_All_contents [OF assms(1,2), of f]
  show s: "set (mf_All enum srt f) = ran f" and d: "distinct (map tr_VertexID (mf_All enum srt f))"
    using k assms(3) by (auto simp: forest_ok_def)
  show m: "map_of (map (\<lambda>t. (tr_VertexID t, t)) (mf_All enum srt f)) = f"
    using map_of_keyed [OF s _ d] assms(3) by (auto simp: forest_ok_def)
  have "mf_All enum srt f = map (\<lambda>v. the (f v)) (map tr_VertexID (mf_All enum srt f))"
    using s assms(3) by (auto simp: forest_ok_def ran_def intro!: map_idI [symmetric])
  moreover have "map tr_VertexID (mf_All enum srt f) = sorted_list_of_set (dom f)" using k(2) assms(3) by (auto simp: forest_ok_def)
  ultimately show "mf_All enum srt f = map (\<lambda>v. the (f v)) (sorted_list_of_set (dom f))" by metis
qed

lemma unmarshal_trees:
  assumes "slice_sort tr_VertexID srt" "map_range enum" "forest_ok f" "\<forall>t \<in> ran f. valid_tree t"
  shows "addTrees (map treeToWire (mf_All enum srt f)) NewMerkleForest = Inr (\<lambda>v. map_option without_nodes (f v))"
proof -
  let ?ts = "mf_All enum srt f"
  note a = mf_All_forest [OF assms(1-3)]
  have "map_of (rev (map (\<lambda>t. (tr_VertexID t, t)) ?ts)) = f"
    using map_of_keyed [of "rev ?ts" f tr_VertexID] a(1,2) assms(3) by (simp add: rev_map forest_ok_def distinct_rev [of "map tr_VertexID ?ts", symmetric, unfolded rev_map] del: distinct_rev)
  then show ?thesis
    using addTrees_valid [of ?ts NewMerkleForest] fold_mf_Add [of without_nodes ?ts NewMerkleForest] a(1) assms(4)
    by (simp add: NewMerkleForest_def map_add_def fun_eq_iff split: option.splits)
qed

section \<open>The insertion sort\<close>

lemma insort_last: "x < a \<Longrightarrow> insort x (xs @ [a]) = insort x xs @ [a :: 'a :: linorder]"
  by (induction xs) auto

lemma insort_top: "sorted xs \<Longrightarrow> \<forall>y \<in> set xs. y \<le> x \<Longrightarrow> insort x xs = xs @ [x :: 'a :: linorder]"
  using properties_for_sort [where xs = "x # xs" and ys = "xs @ [x]"] by (simp add: sorted_append sorted_sort_id)

lemma sink_place: "sorted xs \<Longrightarrow> sink (xs @ x # ys) (length xs) = insort x xs @ ys"
proof (induction xs arbitrary: ys rule: rev_induct)
  case (snoc a xs)
  show ?case
  proof (cases "x < a")
    case True
    then show ?thesis using snoc.IH [of "a # ys"] snoc.prems by (simp add: nth_append list_update_append sorted_append insort_last)
  next
    case False
    then have "\<forall>y \<in> set (xs @ [a]). y \<le> x" using snoc.prems by (auto simp: sorted_append)
    then show ?thesis using insort_top [OF snoc.prems] False by (simp add: nth_append)
  qed
qed simp

lemma sortStrings_prefix:
  "0 < n \<Longrightarrow> n \<le> length ss \<Longrightarrow> fold (\<lambda>i ss. sink ss i) [1..<n] ss = sort (take n ss) @ drop n ss"
proof (induction n)
  case (Suc n)
  show ?case
  proof (cases "n = 0")
    case True
    then show ?thesis using Suc.prems by (cases ss) auto
  next
    case False
    let ?xs = "sort (take n ss)"
    have n: "n < length ss" "length ?xs = n" using Suc.prems by auto
    have "fold (\<lambda>i ss. sink ss i) [1..<Suc n] ss = sink (?xs @ ss ! n # drop (Suc n) ss) (length ?xs)"
      using Suc False by (simp add: Cons_nth_drop_Suc n)
    also have "\<dots> = insort (ss ! n) ?xs @ drop (Suc n) ss" by (rule sink_place) simp
    also have "insort (ss ! n) ?xs = sort (take (Suc n) ss)"
      using properties_for_sort [where xs = "take (Suc n) ss" and ys = "insort (ss ! n) ?xs"] n by (simp add: take_Suc_conv_app_nth sorted_insort)
    finally show ?thesis .
  qed
qed simp

section \<open>Properties\<close>

text \<open>C35: reading back a marshalled forest, for a forest that \<open>encoding/json\<close> encodes and decodes to the same value: this is
  assumed of its wire form, and true when its file names are valid UTF-8, since \<open>json.Marshal\<close> replaces other bytes. If moreover all
  layers are well-formed digests, the forest is read back tree for tree (without the in-memory nodes) and marshals to the same bytes
  again, whatever the iteration order of the maps; a forest with a malformed layer digest is marshalled all the same, and
  reading it back is refused with the error of such a layer.\<close>

theorem UnmarshalForest_MarshalForest:
  assumes "slice_sort tr_VertexID srt" "map_range enum" "slice_sort tr_VertexID srt'" "map_range enum'" "forest_ok f"
    and "MarshalForest marshal enum srt f = Inr b" "unmarshal b = Inr (forestToWire enum srt f)"
  shows "if \<forall>t \<in> ran f. valid_tree t
    then \<exists>g. UnmarshalForest unmarshal b = Inr g \<and> g = (\<lambda>v. map_option without_nodes (f v)) \<and> MarshalForest marshal enum' srt' g = Inr b
    else \<exists>t \<in> ran f. \<exists>err. names_bad_layer err t \<and> UnmarshalForest unmarshal b = Inl err"
proof (cases "\<forall>t \<in> ran f. valid_tree t")
  case True
  let ?g = "\<lambda>v. map_option without_nodes (f v)"
  have g: "forest_ok ?g" "dom ?g = dom f" using assms(5) by (auto simp: forest_ok_def dom_def)
  have "mf_All enum' srt' ?g = map without_nodes (mf_All enum srt f)"
    unfolding mf_All_forest(4) [OF assms(3,4) g(1)] mf_All_forest(4) [OF assms(1,2,5)] g(2)
    using assms(5) by (auto simp: forest_ok_def)
  then have "forestToWire enum' srt' ?g = forestToWire enum srt f" by (simp add: forestToWire_def comp_def)
  then show ?thesis
    using True unmarshal_trees [OF assms(1,2,5) True] assms(6,7)
    by (simp add: UnmarshalForest_def MarshalForest_def forestToWire_def)
next
  case False
  then have "\<exists>t \<in> set (mf_All enum srt f). \<not> valid_tree t" using mf_All_forest(1) [OF assms(1,2,5)] by simp
  from addTrees_invalid [OF this, of NewMerkleForest] show ?thesis
    using False assms(7) mf_All_forest(1) [OF assms(1,2,5)] by (auto simp: UnmarshalForest_def forestToWire_def)
qed

text \<open>The hand-written insertion sort of \<open>serial.go\<close> sorts: on every list of strings its in-place swaps compute the
  sorted permutation, like the library's sort.\<close>

theorem sortStrings_sorts: "sortStrings ss = sort ss"
proof (cases ss)
  case (Cons s ss')
  then show ?thesis using sortStrings_prefix [of "length ss" ss] by (simp add: sortStrings_def)
qed (simp add: sortStrings_def)

lemma lastSlash_from_prefix: "i \<le> length s \<Longrightarrow> lastSlash_from (s @ t) i = lastSlash_from s i"
  by (induction i) (auto simp: nth_append)

lemma lastSlash_snoc: "lastSlash (s @ [c]) = (if c = CHR ''/'' then int (length s) else lastSlash s)"
  using lastSlash_from_prefix [of "length s" s "[c]"] by (simp add: lastSlash_def nth_append)

lemma leaf_dir_name:
  "CHR ''/'' \<notin> set (leafName lf)"
  "lf_RelPath lf = (if CHR ''/'' \<in> set (lf_RelPath lf) then leafDir lf @ ''/'' @ leafName lf else leafName lf)"
proof -
  have "CHR ''/'' \<notin> set (drop (nat (lastSlash s + 1)) s)
    \<and> (if CHR ''/'' \<in> set s then 0 \<le> lastSlash s \<and> s = take (nat (lastSlash s)) s @ ''/'' @ drop (nat (lastSlash s + 1)) s
       else lastSlash s = -1) \<and> lastSlash s < int (length s)" for s
  proof (induction s rule: rev_induct)
    case Nil
    then show ?case by (simp add: lastSlash_def)
  next
    case (snoc c s)
    then show ?case
      by (cases "c = CHR ''/''"; cases "CHR ''/'' \<in> set s") (auto simp: lastSlash_snoc nat_add_distrib)
  qed
  from this [of "lf_RelPath lf"] show "CHR ''/'' \<notin> set (leafName lf)"
    "lf_RelPath lf = (if CHR ''/'' \<in> set (lf_RelPath lf) then leafDir lf @ ''/'' @ leafName lf else leafName lf)"
    by (auto simp: leafName_def leafDir_def Let_def split: if_splits)
qed

fun is_leaf_line :: "pretty_line \<Rightarrow> bool" where
  "is_leaf_line (LeafLine n h l c) = True"
| "is_leaf_line _ = False"

definition leaf_line :: "merkle_leaf \<Rightarrow> pretty_line" where
  "leaf_line lf = LeafLine (leafName lf) (shortDigest (lf_Hash lf)) (shortDigest (lf_OwnerLayerID lf)) (lf_FromCache lf)"

lemma mset_by_groups: "distinct ds \<Longrightarrow> g ` set xs \<subseteq> set ds \<Longrightarrow> mset (concat (map (\<lambda>d. filter (\<lambda>x. g x = d) xs) ds)) = mset xs"
proof (induction ds arbitrary: xs)
  case (Cons d ds)
  let ?ys = "filter (\<lambda>x. g x \<noteq> d) xs"
  have "map (\<lambda>e. filter (\<lambda>x. g x = e) xs) ds = map (\<lambda>e. filter (\<lambda>x. g x = e) ?ys) ds"
    using Cons.prems(1) by (auto intro!: filter_cong)
  moreover have "mset (concat (map (\<lambda>e. filter (\<lambda>x. g x = e) ?ys) ds)) = mset ?ys"
    by (rule Cons.IH) (use Cons.prems in auto)
  ultimately have "mset (concat (map (\<lambda>e. filter (\<lambda>x. g x = e) xs) ds)) = mset ?ys" by (simp only:)
  then show ?case by (simp del: mset_filter add: mset_filter [symmetric]) (metis mset_filter multiset_partition)
qed simp

text \<open>The printed tree shows every leaf of the tree exactly once, below the line of its own directory, and the
  directories in increasing order, whatever the iteration order of the map that groups the leaves.\<close>

theorem PrettyPrintTree_shows_every_leaf:
  assumes "map_range enum"
  shows "mset (filter is_leaf_line (PrettyPrintTree enum t)) = mset (map leaf_line (tr_Leaves t))
    \<and> filter (\<lambda>l. \<exists>d. l = DirLine d) (PrettyPrintTree enum t) = map DirLine (sorted_list_of_set (leafDir ` set (tr_Leaves t) - {''''}))"
proof -
  let ?ds = "sortStrings (enum (leafDir ` set (tr_Leaves t)))"
  let ?block = "\<lambda>dir. (if dir \<noteq> '''' then [DirLine dir] else []) @ map leaf_line (filter (\<lambda>lf. leafDir lf = dir) (tr_Leaves t))"
  have ds: "distinct ?ds" "set ?ds = leafDir ` set (tr_Leaves t)" "sorted ?ds"
    using map_range.enum_set [OF assms] map_range.enum_distinct [OF assms] by (simp_all add: sortStrings_sorts)
  have p: "PrettyPrintTree enum t = TreeHeader (shortDigest (tr_VertexID t)) (shortDigest (tr_Root t)) (tr_LeafCount t) (CacheHitRate t * 100)
      # concat (map ?block ?ds)"
    by (simp add: PrettyPrintTree_def Let_def leaf_line_def [abs_def])
  have b: "filter is_leaf_line (?block d) = map leaf_line (filter (\<lambda>lf. leafDir lf = d) (tr_Leaves t))"
    "filter (\<lambda>l. \<exists>d. l = DirLine d) (?block d) = (if d \<noteq> '''' then [DirLine d] else [])" for d
    by (simp_all add: filter_map comp_def leaf_line_def)
  have "filter is_leaf_line (PrettyPrintTree enum t) = map leaf_line (concat (map (\<lambda>d. filter (\<lambda>lf. leafDir lf = d) (tr_Leaves t)) ?ds))"
    unfolding p by (simp only: filter.simps is_leaf_line.simps if_False filter_concat map_map comp_def b map_concat)
  then have "mset (filter is_leaf_line (PrettyPrintTree enum t)) = mset (map leaf_line (tr_Leaves t))"
    using mset_by_groups [OF ds(1), of leafDir "tr_Leaves t"] ds(2) by (simp del: mset_concat)
  moreover have "filter (\<lambda>l. \<exists>d. l = DirLine d) (PrettyPrintTree enum t) = map DirLine (filter (\<lambda>d. d \<noteq> '''') ?ds)"
  proof -
    have "concat (map (\<lambda>d. if d \<noteq> '''' then [DirLine d] else []) xs) = map DirLine (filter (\<lambda>d. d \<noteq> '''') xs)" for xs by (induction xs) auto
    then show ?thesis unfolding p by (simp only: filter.simps pretty_line.distinct filter_concat map_map comp_def b simp_thms if_False)
  qed
  moreover have "filter (\<lambda>d. d \<noteq> '''') ?ds = sorted_list_of_set (leafDir ` set (tr_Leaves t) - {''''})"
    using ds by (intro sorted_distinct_set_unique) (auto simp: sorted_filter [of "\<lambda>x. x", simplified])
  ultimately show ?thesis by simp
qed

section \<open>Witnesses\<close>

definition example_tree :: lm_tree where
  "example_tree = \<lparr>tr_VertexID = ''v'', tr_LayerStack = [''sha256:ab''], tr_Root = ''sha256:00'', tr_RootNode = None,
     tr_Leaves = [\<lparr>lf_RelPath = ''usr/sh'', lf_Hash = ''sha256:cd'', lf_OwnerLayerID = ''sha256:ab'', lf_FromCache = False\<rparr>],
     tr_LeafCount = 1, tr_CacheHitCount = 0, tr_FinalizedAt = 5\<rparr>"

lemma example_forest: "forest_ok [''v'' \<mapsto> example_tree]" "\<forall>t \<in> ran [''v'' \<mapsto> example_tree]. valid_tree t"
proof -
  show "forest_ok [''v'' \<mapsto> example_tree]" by (simp add: forest_ok_def example_tree_def)
  have "digest_Validate ''sha256:ab'' = None" by code_simp
  then show "\<forall>t \<in> ran [''v'' \<mapsto> example_tree]. valid_tree t" by (simp add: valid_tree_def example_tree_def)
qed

theorem UnmarshalForest_MarshalForest_witness:
  "\<exists>marshal unmarshal b g. MarshalForest marshal sorted_list_of_set (sort_key tr_VertexID) [''v'' \<mapsto> example_tree] = Inr b
    \<and> UnmarshalForest unmarshal b = Inr g \<and> g ''v'' = Some example_tree"
proof -
  let ?f = "[''v'' \<mapsto> example_tree]" and ?marshal = "\<lambda>_ :: wire_forest. Inr [1] :: string + bytes"
  let ?un = "\<lambda>_ :: bytes. Inr (forestToWire sorted_list_of_set (sort_key tr_VertexID) ?f) :: string + wire_forest"
  have m: "MarshalForest ?marshal sorted_list_of_set (sort_key tr_VertexID) ?f = Inr [1]" by (simp add: MarshalForest_def)
  have "without_nodes example_tree = example_tree" by (simp add: without_nodes_def example_tree_def)
  then show ?thesis
    using UnmarshalForest_MarshalForest [OF insertion_slice_sort.slice_sort_axioms sorted_range.map_range_axioms
        insertion_slice_sort.slice_sort_axioms sorted_range.map_range_axioms example_forest(1) m, of ?un] example_forest(2) m
    by (intro exI [of _ ?marshal] exI [of _ ?un] exI [of _ "[1]"]) auto
qed

theorem PrettyPrintTree_shows_every_leaf_witness:
  "filter is_leaf_line (PrettyPrintTree sorted_list_of_set example_tree) = [leaf_line (hd (tr_Leaves example_tree))]"
  using conjunct1 [OF PrettyPrintTree_shows_every_leaf [OF sorted_range.map_range_axioms, of example_tree]]
  by (simp add: example_tree_def del: mset_filter)

end
