(* ===== verification/Lm_Diff.thy ===== *)
theory Lm_Diff
  imports Lm_Serial
begin

text \<open>
  The comparison of two Merkle forests (\<open>diff.go\<close>). Every loop over a map takes the order of the
  iteration, \<open>enum\<close>, as an argument, and the final sorts take \<open>sort.Slice\<close> as an argument; the
  theorems show that the results do not depend on either.
\<close>

section \<open>Results\<close>

record file_change =
  fc_RelPath :: string
  fc_BeforeHash :: lm_hash
  fc_AfterHash :: lm_hash
  fc_OwnerLayerID :: lm_layer

record file_diff =
  fd_Added :: "file_change list"
  fd_Removed :: "file_change list"
  fd_Modified :: "file_change list"
  fd_Unchanged :: "file_change list"

record tree_change =
  tc_VertexID :: lm_vertex
  tc_Before :: lm_tree
  tc_After :: lm_tree
  tc_FileDiff :: "file_diff option"

record forest_diff =
  df_Added :: "lm_tree list"
  df_Removed :: "lm_tree list"
  df_Changed :: "tree_change list"
  df_Unchanged :: "lm_tree list"

definition IsIdentical :: "forest_diff \<Rightarrow> bool" where
  "IsIdentical d \<longleftrightarrow> length (df_Added d) = 0 \<and> length (df_Removed d) = 0 \<and> length (df_Changed d) = 0"

text \<open>The digits are written from the end of a buffer of 20 bytes; a 64-bit length has at most 19.\<close>

function itoa_digits :: "int \<Rightarrow> string \<Rightarrow> string" where
  "itoa_digits n buf = (if n > 0 then itoa_digits (n div 10) (char_of (48 + nat (n mod 10)) # buf) else buf)"
  by auto
termination itoa_digits
  by (relation "measure (\<lambda>(n, buf). nat n)") auto

declare itoa_digits.simps [simp del]

definition itoa :: "int \<Rightarrow> string" where
  "itoa n = (if n = 0 then ''0'' else itoa_digits n [])"

definition Summary :: "forest_diff \<Rightarrow> string" where
  "Summary d = ''ForestDiff{added='' @ itoa (int (length (df_Added d))) @ '' removed='' @ itoa (int (length (df_Removed d)))
     @ '' changed='' @ itoa (int (length (df_Changed d))) @ '' unchanged='' @ itoa (int (length (df_Unchanged d))) @ ''}''"

section \<open>Comparing forests\<close>

definition indexTrees :: "lm_tree list \<Rightarrow> lm_forest" where
  "indexTrees ts = fold (\<lambda>t m. m(tr_VertexID t \<mapsto> t)) ts Map.empty"

definition indexLeaves :: "merkle_leaf list \<Rightarrow> string \<rightharpoonup> merkle_leaf" where
  "indexLeaves ls = fold (\<lambda>lf m. m(lf_RelPath lf \<mapsto> lf)) ls Map.empty"

text \<open>The sorts of the four result lists: \<open>sortTrees\<close> and \<open>sortChanges\<close> by vertex, \<open>sortFileChanges\<close> by path.\<close>

record diff_sorts =
  ds_sortTrees :: "lm_tree list \<Rightarrow> lm_tree list"
  ds_sortChanges :: "tree_change list \<Rightarrow> tree_change list"
  ds_sortFileChanges :: "file_change list \<Rightarrow> file_change list"

definition diff_step :: "lm_forest \<Rightarrow> lm_forest \<Rightarrow> lm_vertex \<Rightarrow> forest_diff \<Rightarrow> forest_diff" where
  "diff_step aAll bAll v d =
     (let bTree = the (bAll v) in
      case aAll v of
        Some aTree \<Rightarrow>
          (if tr_Root aTree = tr_Root bTree then d\<lparr>df_Unchanged := df_Unchanged d @ [bTree]\<rparr>
           else d\<lparr>df_Changed := df_Changed d @ [\<lparr>tc_VertexID = v, tc_Before = aTree, tc_After = bTree, tc_FileDiff = None\<rparr>]\<rparr>)
      | None \<Rightarrow> d\<lparr>df_Added := df_Added d @ [bTree]\<rparr>)"

definition removed_step :: "lm_forest \<Rightarrow> lm_forest \<Rightarrow> lm_vertex \<Rightarrow> forest_diff \<Rightarrow> forest_diff" where
  "removed_step aAll bAll v d = (if bAll v = None then d\<lparr>df_Removed := df_Removed d @ [the (aAll v)]\<rparr> else d)"

definition Diff :: "diff_sorts \<Rightarrow> (lm_vertex set \<Rightarrow> lm_vertex list) \<Rightarrow> lm_forest \<Rightarrow> lm_forest \<Rightarrow> forest_diff" where
  "Diff S enum a b =
     (let aAll = indexTrees (mf_All enum (ds_sortTrees S) a);
          bAll = indexTrees (mf_All enum (ds_sortTrees S) b);
          d = fold (diff_step aAll bAll) (enum (dom bAll)) \<lparr>df_Added = [], df_Removed = [], df_Changed = [], df_Unchanged = []\<rparr>;
          d = fold (removed_step aAll bAll) (enum (dom aAll)) d
      in \<lparr>df_Added = ds_sortTrees S (df_Added d), df_Removed = ds_sortTrees S (df_Removed d),
          df_Changed = ds_sortChanges S (df_Changed d), df_Unchanged = ds_sortTrees S (df_Unchanged d)\<rparr>)"

section \<open>Comparing leaves\<close>

definition leaf_step :: "(string \<rightharpoonup> merkle_leaf) \<Rightarrow> (string \<rightharpoonup> merkle_leaf) \<Rightarrow> string \<Rightarrow> file_diff \<Rightarrow> file_diff" where
  "leaf_step before after p d =
     (let al = the (after p) in
      case before p of
        Some bl \<Rightarrow>
          (let fc = \<lparr>fc_RelPath = p, fc_BeforeHash = lf_Hash bl, fc_AfterHash = lf_Hash al, fc_OwnerLayerID = lf_OwnerLayerID al\<rparr> in
           if lf_Hash bl = lf_Hash al then d\<lparr>fd_Unchanged := fd_Unchanged d @ [fc]\<rparr>
           else d\<lparr>fd_Modified := fd_Modified d @ [fc]\<rparr>)
      | None \<Rightarrow> d\<lparr>fd_Added := fd_Added d @ [\<lparr>fc_RelPath = p, fc_BeforeHash = '''', fc_AfterHash = lf_Hash al, fc_OwnerLayerID = ''''\<rparr>]\<rparr>)"

definition removed_leaf_step :: "(string \<rightharpoonup> merkle_leaf) \<Rightarrow> (string \<rightharpoonup> merkle_leaf) \<Rightarrow> string \<Rightarrow> file_diff \<Rightarrow> file_diff" where
  "removed_leaf_step before after p d =
     (if after p = None
      then d\<lparr>fd_Removed := fd_Removed d @ [\<lparr>fc_RelPath = p, fc_BeforeHash = lf_Hash (the (before p)), fc_AfterHash = '''', fc_OwnerLayerID = ''''\<rparr>]\<rparr>
      else d)"

definition diffLeaves :: "diff_sorts \<Rightarrow> (string set \<Rightarrow> string list) \<Rightarrow> lm_tree \<Rightarrow> lm_tree \<Rightarrow> file_diff" where
  "diffLeaves S enum before after =
     (let bi = indexLeaves (tr_Leaves before); ai = indexLeaves (tr_Leaves after);
          d = fold (leaf_step bi ai) (enum (dom ai)) \<lparr>fd_Added = [], fd_Removed = [], fd_Modified = [], fd_Unchanged = []\<rparr>;
          d = fold (removed_leaf_step bi ai) (enum (dom bi)) d
      in \<lparr>fd_Added = ds_sortFileChanges S (fd_Added d), fd_Removed = ds_sortFileChanges S (fd_Removed d),
          fd_Modified = ds_sortFileChanges S (fd_Modified d), fd_Unchanged = ds_sortFileChanges S (fd_Unchanged d)\<rparr>)"

definition ComputeFileDiff :: "diff_sorts \<Rightarrow> (string set \<Rightarrow> string list) \<Rightarrow> tree_change \<Rightarrow> file_diff \<times> tree_change" where
  "ComputeFileDiff S enum tc =
     (case tc_FileDiff tc of
        Some d \<Rightarrow> (d, tc)
      | None \<Rightarrow> (let d = diffLeaves S enum (tc_Before tc) (tc_After tc) in (d, tc\<lparr>tc_FileDiff := Some d\<rparr>)))"

section \<open>The loops as filters\<close>

lemma sorted_entries:
  assumes "slice_sort key srt" "map_range enum" "finite K" "\<And>k. k \<in> K \<Longrightarrow> P k \<Longrightarrow> key (g k) = k"
  shows "srt (map g (filter P (enum K))) = map g (sorted_list_of_set {k \<in> K. P k})"
proof -
  let ?zs = "map g (sorted_list_of_set {k \<in> K. P k})"
  have fin: "finite {k \<in> K. P k}" using assms(3) by simp
  have k1: "map key (map g (filter P (enum K))) = filter P (enum K)"
    using assms(4) map_range.enum_set [OF assms(2,3)] by (auto intro!: map_idI)
  have k2: "map key ?zs = sorted_list_of_set {k \<in> K. P k}" using assms(4) fin by (auto intro!: map_idI)
  have "mset (filter P (enum K)) = mset (sorted_list_of_set {k \<in> K. P k})"
    using map_range.enum_set [OF assms(2,3)] map_range.enum_distinct [OF assms(2,3)] fin
    by (intro set_eq_iff_mset_eq_distinct [THEN iffD1]) auto
  then have "mset ?zs = mset (map g (filter P (enum K)))" by (simp del: mset_filter)
  then show ?thesis
    using slice_sort.srt_unique [OF assms(1), of "map g (filter P (enum K))" "map g (filter P (enum K))" ?zs]
      map_range.enum_distinct [OF assms(2,3)] k1 k2 by simp
qed

lemma fold_diff_step:
  "fold (diff_step aAll bAll) vs d =
    d\<lparr>df_Added := df_Added d @ map (\<lambda>v. the (bAll v)) (filter (\<lambda>v. aAll v = None) vs),
      df_Changed := df_Changed d @ map (\<lambda>v. \<lparr>tc_VertexID = v, tc_Before = the (aAll v), tc_After = the (bAll v), tc_FileDiff = None\<rparr>)
         (filter (\<lambda>v. aAll v \<noteq> None \<and> tr_Root (the (aAll v)) \<noteq> tr_Root (the (bAll v))) vs),
      df_Unchanged := df_Unchanged d @ map (\<lambda>v. the (bAll v)) (filter (\<lambda>v. aAll v \<noteq> None \<and> tr_Root (the (aAll v)) = tr_Root (the (bAll v))) vs)\<rparr>"
  by (induction vs arbitrary: d) (auto simp: diff_step_def Let_def split: option.splits)

lemma fold_removed_step:
  "fold (removed_step aAll bAll) vs d = d\<lparr>df_Removed := df_Removed d @ map (\<lambda>v. the (aAll v)) (filter (\<lambda>v. bAll v = None) vs)\<rparr>"
  by (induction vs arbitrary: d) (auto simp: removed_step_def)

lemma fold_leaf_step:
  "fold (leaf_step before after) ps d =
    d\<lparr>fd_Added := fd_Added d @ map (\<lambda>p. \<lparr>fc_RelPath = p, fc_BeforeHash = '''', fc_AfterHash = lf_Hash (the (after p)), fc_OwnerLayerID = ''''\<rparr>)
         (filter (\<lambda>p. before p = None) ps),
      fd_Modified := fd_Modified d @ map (\<lambda>p. \<lparr>fc_RelPath = p, fc_BeforeHash = lf_Hash (the (before p)), fc_AfterHash = lf_Hash (the (after p)),
           fc_OwnerLayerID = lf_OwnerLayerID (the (after p))\<rparr>)
         (filter (\<lambda>p. before p \<noteq> None \<and> lf_Hash (the (before p)) \<noteq> lf_Hash (the (after p))) ps),
      fd_Unchanged := fd_Unchanged d @ map (\<lambda>p. \<lparr>fc_RelPath = p, fc_BeforeHash = lf_Hash (the (before p)), fc_AfterHash = lf_Hash (the (after p)),
           fc_OwnerLayerID = lf_OwnerLayerID (the (after p))\<rparr>)
         (filter (\<lambda>p. before p \<noteq> None \<and> lf_Hash (the (before p)) = lf_Hash (the (after p))) ps)\<rparr>"
  by (induction ps arbitrary: d) (auto simp: leaf_step_def Let_def split: option.splits)

lemma fold_removed_leaf_step:
  "fold (removed_leaf_step before after) ps d = d\<lparr>fd_Removed := fd_Removed d @
     map (\<lambda>p. \<lparr>fc_RelPath = p, fc_BeforeHash = lf_Hash (the (before p)), fc_AfterHash = '''', fc_OwnerLayerID = ''''\<rparr>) (filter (\<lambda>p. after p = None) ps)\<rparr>"
  by (induction ps arbitrary: d) (auto simp: removed_leaf_step_def)

lemma fold_index: "fold (\<lambda>x m. m(key x \<mapsto> x)) xs m = m ++ map_of (rev (map (\<lambda>x. (key x, x)) xs))"
  by (induction xs arbitrary: m) auto

lemma finite_indexLeaves [simp]: "finite (dom (indexLeaves ls))"
  by (simp add: indexLeaves_def fold_index finite_dom_map_of)

lemma indexLeaves_RelPath: "indexLeaves ls p = Some lf \<Longrightarrow> lf \<in> set ls \<and> lf_RelPath lf = p"
  unfolding indexLeaves_def fold_index by (auto dest: map_of_SomeD)

lemma dom_indexLeaves: "dom (indexLeaves ls) = lf_RelPath ` set ls"
  unfolding indexLeaves_def fold_index by (auto simp: dom_map_of_conv_image_fst image_image)

lemma indexTrees_All:
  assumes "slice_sort tr_VertexID srt" "map_range enum" "forest_ok f"
  shows "indexTrees (mf_All enum srt f) = f"
proof -
  note a = mf_All_forest [OF assms]
  have "distinct (map tr_VertexID (rev (mf_All enum srt f)))" using a(2) by (simp add: rev_map [symmetric])
  then show ?thesis
    using map_of_keyed [of "rev (mf_All enum srt f)" f tr_VertexID] a(1) assms(3)
    unfolding indexTrees_def fold_index by (auto simp: forest_ok_def rev_map)
qed

lemma itoa_digits_dec: "0 < n \<Longrightarrow> itoa_digits (int n) buf = dec n @ buf"
proof (induction n arbitrary: buf rule: less_induct)
  case (less n)
  have d: "int n div 10 = int (n div 10)" "nat (int n mod 10) = n mod 10" by (simp_all add: nat_mod_distrib zdiv_int)
  show ?case
  proof (cases "n < 10")
    case True
    then have "itoa_digits (int n div 10) b = b" for b by (subst itoa_digits.simps) simp
    then show ?thesis using True less.prems d by (subst itoa_digits.simps) (simp add: dec.simps [of n])
  next
    case False
    then show ?thesis using less.IH [of "n div 10"] less.prems d by (subst itoa_digits.simps) (simp add: dec.simps [of n])
  qed
qed

lemma itoa_dec: "itoa (int n) = dec n"
proof (cases "n = 0")
  case True
  have "char_of (48 :: nat) = CHR ''0''" by code_simp
  then show ?thesis using True by (simp add: itoa_def dec.simps)
next
  case False
  then show ?thesis using itoa_digits_dec [of n "[]"] by (simp add: itoa_def)
qed

section \<open>The environment of a comparison\<close>

locale diff_environment =
  map_range enum + trees: slice_sort tr_VertexID "ds_sortTrees S" + changes: slice_sort tc_VertexID "ds_sortChanges S"
    + file_changes: slice_sort fc_RelPath "ds_sortFileChanges S"
  for S :: diff_sorts and enum :: "string set \<Rightarrow> string list"

definition insertion_sorts :: diff_sorts where
  "insertion_sorts = \<lparr>ds_sortTrees = sort_key tr_VertexID, ds_sortChanges = sort_key tc_VertexID, ds_sortFileChanges = sort_key fc_RelPath\<rparr>"

interpretation insertion_diff: diff_environment insertion_sorts sorted_list_of_set
  by unfold_locales (simp_all add: insertion_sorts_def)

context diff_environment
begin

lemma Diff_eq:
  assumes "forest_ok a" "forest_ok b"
  shows "Diff S enum a b =
    \<lparr>df_Added = map (\<lambda>v. the (b v)) (sorted_list_of_set {v \<in> dom b. a v = None}),
     df_Removed = map (\<lambda>v. the (a v)) (sorted_list_of_set {v \<in> dom a. b v = None}),
     df_Changed = map (\<lambda>v. \<lparr>tc_VertexID = v, tc_Before = the (a v), tc_After = the (b v), tc_FileDiff = None\<rparr>)
       (sorted_list_of_set {v \<in> dom b. a v \<noteq> None \<and> tr_Root (the (a v)) \<noteq> tr_Root (the (b v))}),
     df_Unchanged = map (\<lambda>v. the (b v)) (sorted_list_of_set {v \<in> dom b. a v \<noteq> None \<and> tr_Root (the (a v)) = tr_Root (the (b v))})\<rparr>"
proof -
  have fin: "finite (dom a)" "finite (dom b)" using assms by (simp_all add: forest_ok_def)
  have keys: "v \<in> dom a \<Longrightarrow> tr_VertexID (the (a v)) = v" "v \<in> dom b \<Longrightarrow> tr_VertexID (the (b v)) = v" for v
    using assms by (auto simp: forest_ok_def)
  note sort_trees = sorted_entries [OF trees.slice_sort_axioms map_range_axioms]
    and sort_changes = sorted_entries [OF changes.slice_sort_axioms map_range_axioms]
  show ?thesis
    unfolding Diff_def Let_def indexTrees_All [OF trees.slice_sort_axioms map_range_axioms assms(1)]
      indexTrees_All [OF trees.slice_sort_axioms map_range_axioms assms(2)] fold_diff_step fold_removed_step
    using sort_trees [OF fin(1), of "\<lambda>v. b v = None" "\<lambda>v. the (a v)"] sort_trees [OF fin(2), of "\<lambda>v. a v = None" "\<lambda>v. the (b v)"]
      sort_trees [OF fin(2), of "\<lambda>v. a v \<noteq> None \<and> tr_Root (the (a v)) = tr_Root (the (b v))" "\<lambda>v. the (b v)"]
      sort_changes [OF fin(2), of "\<lambda>v. a v \<noteq> None \<and> tr_Root (the (a v)) \<noteq> tr_Root (the (b v))"
        "\<lambda>v. \<lparr>tc_VertexID = v, tc_Before = the (a v), tc_After = the (b v), tc_FileDiff = None\<rparr>"] keys
    by simp
qed

lemma diffLeaves_eq:
  fixes before after :: lm_tree
  defines "bi \<equiv> indexLeaves (tr_Leaves before)" and "ai \<equiv> indexLeaves (tr_Leaves after)"
  shows "diffLeaves S enum before after =
    \<lparr>fd_Added = map (\<lambda>p. \<lparr>fc_RelPath = p, fc_BeforeHash = '''', fc_AfterHash = lf_Hash (the (ai p)), fc_OwnerLayerID = ''''\<rparr>)
       (sorted_list_of_set {p \<in> dom ai. bi p = None}),
     fd_Removed = map (\<lambda>p. \<lparr>fc_RelPath = p, fc_BeforeHash = lf_Hash (the (bi p)), fc_AfterHash = '''', fc_OwnerLayerID = ''''\<rparr>)
       (sorted_list_of_set {p \<in> dom bi. ai p = None}),
     fd_Modified = map (\<lambda>p. \<lparr>fc_RelPath = p, fc_BeforeHash = lf_Hash (the (bi p)), fc_AfterHash = lf_Hash (the (ai p)),
         fc_OwnerLayerID = lf_OwnerLayerID (the (ai p))\<rparr>)
       (sorted_list_of_set {p \<in> dom ai. bi p \<noteq> None \<and> lf_Hash (the (bi p)) \<noteq> lf_Hash (the (ai p))}),
     fd_Unchanged = map (\<lambda>p. \<lparr>fc_RelPath = p, fc_BeforeHash = lf_Hash (the (bi p)), fc_AfterHash = lf_Hash (the (ai p)),
         fc_OwnerLayerID = lf_OwnerLayerID (the (ai p))\<rparr>)
       (sorted_list_of_set {p \<in> dom ai. bi p \<noteq> None \<and> lf_Hash (the (bi p)) = lf_Hash (the (ai p))})\<rparr>"
proof -
  have fin: "finite (dom ai)" "finite (dom bi)" by (simp_all add: ai_def bi_def)
  note sort_files = sorted_entries [OF file_changes.slice_sort_axioms map_range_axioms]
  show ?thesis
    unfolding diffLeaves_def Let_def ai_def [symmetric] bi_def [symmetric] fold_leaf_step fold_removed_leaf_step
    using fin by (simp add: sort_files)
qed

end

section \<open>Properties\<close>

text \<open>Comparing two forests. Whatever the iteration order of the maps and the order that the unstable sort gives equal
  elements, \<open>Diff\<close> reports every vertex of either forest in exactly one of its four lists, in vertex order: added,
  removed, changed (another root) or unchanged; and the forests are identical exactly when they have the same vertices
  with the same roots.\<close>

theorem Diff_classifies_vertices:
  assumes "diff_environment S enum" "forest_ok a" "forest_ok b"
  shows "map tr_VertexID (df_Added (Diff S enum a b)) = sorted_list_of_set (dom b - dom a)
    \<and> map tr_VertexID (df_Removed (Diff S enum a b)) = sorted_list_of_set (dom a - dom b)
    \<and> map tc_VertexID (df_Changed (Diff S enum a b)) = sorted_list_of_set {v \<in> dom a \<inter> dom b. tr_Root (the (a v)) \<noteq> tr_Root (the (b v))}
    \<and> map tr_VertexID (df_Unchanged (Diff S enum a b)) = sorted_list_of_set {v \<in> dom a \<inter> dom b. tr_Root (the (a v)) = tr_Root (the (b v))}
    \<and> (IsIdentical (Diff S enum a b) \<longleftrightarrow> (\<forall>v. map_option tr_Root (a v) = map_option tr_Root (b v)))"
proof -
  have fin: "finite (dom a)" "finite (dom b)" using assms by (simp_all add: forest_ok_def)
  have keys: "v \<in> dom a \<Longrightarrow> tr_VertexID (the (a v)) = v" "v \<in> dom b \<Longrightarrow> tr_VertexID (the (b v)) = v" for v
    using assms by (auto simp: forest_ok_def)
  have sets: "{v \<in> dom b. a v = None} = dom b - dom a" "{v \<in> dom a. b v = None} = dom a - dom b"
    "{v \<in> dom b. a v \<noteq> None \<and> Q v} = {v \<in> dom a \<inter> dom b. Q v}" for Q by auto
  have ids: "map tr_VertexID (map (\<lambda>v. the (f v)) (sorted_list_of_set K)) = sorted_list_of_set K"
    if "finite K" "\<And>v. v \<in> K \<Longrightarrow> tr_VertexID (the (f v)) = v" for f K
    using that by (auto intro!: map_idI)
  have "(\<forall>v. map_option tr_Root (a v) = map_option tr_Root (b v)) \<longleftrightarrow>
      dom b - dom a = {} \<and> dom a - dom b = {} \<and> {v \<in> dom a \<inter> dom b. tr_Root (the (a v)) \<noteq> tr_Root (the (b v))} = {}" (is "?l \<longleftrightarrow> ?r")
  proof
    assume ?l
    then have "map_option tr_Root (a v) = map_option tr_Root (b v)" for v by blast
    then have "v \<notin> dom b - dom a \<and> v \<notin> dom a - dom b \<and> \<not> (v \<in> dom a \<inter> dom b \<and> tr_Root (the (a v)) \<noteq> tr_Root (the (b v)))" for v
      by (metis DiffD1 DiffD2 IntD1 IntD2 domIff option.map_disc_iff option.map_sel)
    then show ?r by blast
  next
    assume r: ?r
    show ?l
    proof
      fix v
      have "v \<notin> dom b - dom a \<and> v \<notin> dom a - dom b \<and> \<not> (v \<in> dom a \<inter> dom b \<and> tr_Root (the (a v)) \<noteq> tr_Root (the (b v)))"
        using r by blast
      then show "map_option tr_Root (a v) = map_option tr_Root (b v)" by (cases "a v"; cases "b v") auto
    qed
  qed
  then show ?thesis
    unfolding diff_environment.Diff_eq [OF assms] sets
    using fin ids [of "dom b - dom a" b] ids [of "dom a - dom b" a] keys
      ids [of "{v \<in> dom a \<inter> dom b. tr_Root (the (a v)) = tr_Root (the (b v))}" b]
    by (simp add: IsIdentical_def comp_def)
qed

text \<open>The files of a changed vertex. Every path that either tree accessed is reported exactly once, in path order, with
  the hash last recorded for it on each side; hence a path is reported as unchanged only if both trees recorded the same
  hash.\<close>

theorem diffLeaves_classifies_paths:
  assumes "diff_environment S enum"
  shows "let d = diffLeaves S enum before after;
      ai = indexLeaves (tr_Leaves after); bi = indexLeaves (tr_Leaves before);
      paths = map fc_RelPath (fd_Added d @ fd_Removed d @ fd_Modified d @ fd_Unchanged d)
    in distinct paths \<and> set paths = lf_RelPath ` set (tr_Leaves before) \<union> lf_RelPath ` set (tr_Leaves after)
      \<and> (\<forall>p. p \<in> fc_RelPath ` set (fd_Unchanged d) \<longleftrightarrow> (\<exists>h. map_option lf_Hash (bi p) = Some h \<and> map_option lf_Hash (ai p) = Some h))
      \<and> (\<forall>fc \<in> set (fd_Modified d). map_option lf_Hash (bi (fc_RelPath fc)) = Some (fc_BeforeHash fc)
            \<and> map_option lf_Hash (ai (fc_RelPath fc)) = Some (fc_AfterHash fc) \<and> fc_BeforeHash fc \<noteq> fc_AfterHash fc)
      \<and> sorted (map fc_RelPath (fd_Added d)) \<and> sorted (map fc_RelPath (fd_Removed d)) \<and> sorted (map fc_RelPath (fd_Modified d))"
proof -
  let ?ai = "indexLeaves (tr_Leaves after)" and ?bi = "indexLeaves (tr_Leaves before)"
  have "finite {p \<in> dom ?ai. Q p}" "finite {p \<in> dom ?bi. Q p}" for Q by simp_all
  then show ?thesis
    unfolding diff_environment.diffLeaves_eq [OF assms] Let_def dom_indexLeaves [symmetric]
    by (auto simp: comp_def image_image)
qed

section \<open>Witnesses\<close>

theorem Diff_classifies_vertices_witness:
  "let d = Diff insertion_sorts sorted_list_of_set Map.empty [''v'' \<mapsto> example_tree]
   in map tr_VertexID (df_Added d) = [''v''] \<and> df_Removed d = [] \<and> df_Changed d = [] \<and> \<not> IsIdentical d"
  using Diff_classifies_vertices [OF insertion_diff.diff_environment_axioms _ example_forest(1), of Map.empty]
  by (auto simp: forest_ok_def Let_def dest!: spec [of _ "''v''"])

theorem diffLeaves_classifies_paths_witness:
  "let d = diffLeaves insertion_sorts sorted_list_of_set (example_tree\<lparr>tr_Leaves := []\<rparr>) example_tree;
       paths = map fc_RelPath (fd_Added d @ fd_Removed d @ fd_Modified d @ fd_Unchanged d)
   in distinct paths \<and> set paths = {''usr/sh''}"
  using diffLeaves_classifies_paths [OF insertion_diff.diff_environment_axioms, of "example_tree\<lparr>tr_Leaves := []\<rparr>" example_tree]
  by (simp add: Let_def) (simp add: example_tree_def)

end
