(* ===== verification/Lm_Provenance.thy ===== *)
theory Lm_Provenance
  imports Lm_Serial Lm_Engine
begin

text \<open>
  Build provenance and warm starts: the provenance record of a forest and the comparison of two
  records (\<open>provenance.go\<close>), and the cache warmer that loads a record or a forest into the hash cache
  of a new engine (\<open>warmer.go\<close>). \<open>encoding/json\<close> is a pair of arguments, and the orders of map
  iterations and of unstable sorts are arguments too.
\<close>

section \<open>Provenance records\<close>

record prov_file =
  pf_RelPath :: string
  pf_ContentDigest :: string
  pf_OwnerLayer :: string
  pf_FromCache :: bool

record prov_vertex =
  pv_VertexDigest :: string
  pv_MerkleRoot :: string
  pv_LayerStack :: "string list"
  pv_FinalizedAt :: int
  pv_LeafCount :: int
  pv_CacheHitRate :: real
  pv_Files :: "prov_file list"

record oci_provenance =
  op_SchemaVersion :: int
  op_MediaType :: string
  op_CreatedAt :: int
  op_BuildID :: string
  op_Vertices :: "prov_vertex list"
  op_TotalFiles :: int
  op_TotalCacheHits :: int

definition OCIProvenanceMediaType :: string where
  "OCIProvenanceMediaType = ''application/vnd.layermerkle.provenance.v1+json''"

record prov_config =
  cg_buildID :: string
  cg_includeFiles :: bool
  cg_sortByRelPath :: bool

type_synonym prov_option = "prov_config \<Rightarrow> prov_config"

definition WithProvenanceBuildID :: "string \<Rightarrow> prov_option" where
  "WithProvenanceBuildID i c = c\<lparr>cg_buildID := i\<rparr>"

definition WithProvenanceFiles :: "bool \<Rightarrow> prov_option" where
  "WithProvenanceFiles include c = c\<lparr>cg_includeFiles := include\<rparr>"

definition treeToProvenanceVertex :: "(merkle_leaf list \<Rightarrow> merkle_leaf list) \<Rightarrow> lm_tree \<Rightarrow> prov_config \<Rightarrow> prov_vertex" where
  "treeToProvenanceVertex srt_leaves t cfg =
     \<lparr>pv_VertexDigest = tr_VertexID t, pv_MerkleRoot = tr_Root t, pv_LayerStack = tr_LayerStack t,
      pv_FinalizedAt = tr_FinalizedAt t, pv_LeafCount = tr_LeafCount t, pv_CacheHitRate = CacheHitRate t,
      pv_Files =
        (if cg_includeFiles cfg
         then map (\<lambda>l. \<lparr>pf_RelPath = lf_RelPath l, pf_ContentDigest = lf_Hash l, pf_OwnerLayer = lf_OwnerLayerID l,
                        pf_FromCache = lf_FromCache l\<rparr>)
                (if cg_sortByRelPath cfg then srt_leaves (tr_Leaves t) else tr_Leaves t)
         else [])\<rparr>"

definition addVertex :: "(merkle_leaf list \<Rightarrow> merkle_leaf list) \<Rightarrow> prov_config \<Rightarrow> lm_tree \<Rightarrow> oci_provenance \<Rightarrow> oci_provenance" where
  "addVertex srt_leaves cfg t p =
     p\<lparr>op_Vertices := op_Vertices p @ [treeToProvenanceVertex srt_leaves t cfg],
       op_TotalFiles := op_TotalFiles p + tr_LeafCount t,
       op_TotalCacheHits := op_TotalCacheHits p + tr_CacheHitCount t\<rparr>"

definition ExportProvenance :: "(lm_vertex set \<Rightarrow> lm_vertex list) \<Rightarrow> (lm_tree list \<Rightarrow> lm_tree list) \<Rightarrow> (merkle_leaf list \<Rightarrow> merkle_leaf list)
    \<Rightarrow> int \<Rightarrow> lm_forest \<Rightarrow> prov_option list \<Rightarrow> oci_provenance" where
  "ExportProvenance enum srt srt_leaves now f opts =
     (let cfg = fold (\<lambda>opt. opt) opts \<lparr>cg_buildID = '''', cg_includeFiles = True, cg_sortByRelPath = True\<rparr>
      in fold (addVertex srt_leaves cfg) (mf_All enum srt f)
        \<lparr>op_SchemaVersion = 2, op_MediaType = OCIProvenanceMediaType, op_CreatedAt = now, op_BuildID = cg_buildID cfg,
         op_Vertices = [], op_TotalFiles = 0, op_TotalCacheHits = 0\<rparr>)"

datatype prov_error = WriteProvenanceFailed string | ReadProvenanceFailed string | UnexpectedMediaType string

definition WriteProvenance :: "(oci_provenance \<Rightarrow> string + bytes) \<Rightarrow> oci_provenance \<Rightarrow> prov_error + bytes" where
  "WriteProvenance encode p = (case encode p of Inl err \<Rightarrow> Inl (WriteProvenanceFailed err) | Inr b \<Rightarrow> Inr b)"

definition ReadProvenance :: "(bytes \<Rightarrow> string + oci_provenance) \<Rightarrow> bytes \<Rightarrow> prov_error + oci_provenance" where
  "ReadProvenance decode r =
     (case decode r of
        Inl err \<Rightarrow> Inl (ReadProvenanceFailed err)
      | Inr p \<Rightarrow> if op_MediaType p \<noteq> OCIProvenanceMediaType then Inl (UnexpectedMediaType (op_MediaType p)) else Inr p)"

section \<open>Comparing records\<close>

record prov_diff =
  pd_AddedVertices :: "string list"
  pd_RemovedVertices :: "string list"
  pd_ChangedVertices :: "string list"
  pd_NewFiles :: int
  pd_RemovedFiles :: int

definition indexProvenanceVertices :: "oci_provenance \<Rightarrow> string \<rightharpoonup> prov_vertex" where
  "indexProvenanceVertices p = fold (\<lambda>v m. m(pv_VertexDigest v \<mapsto> v)) (op_Vertices p) Map.empty"

definition pd_visit :: "(string \<rightharpoonup> prov_vertex) \<Rightarrow> (string \<rightharpoonup> prov_vertex) \<Rightarrow> string \<Rightarrow> prov_diff \<Rightarrow> prov_diff" where
  "pd_visit aIndex bIndex d r =
     (let bVtx = the (bIndex d) in
      case aIndex d of
        Some aVtx \<Rightarrow>
          (if pv_MerkleRoot aVtx \<noteq> pv_MerkleRoot bVtx then
             (let r1 = r\<lparr>pd_ChangedVertices := pd_ChangedVertices r @ [d],
                         pd_NewFiles := pd_NewFiles r + (pv_LeafCount bVtx - pv_LeafCount aVtx)\<rparr>
              in if pd_NewFiles r1 < 0
                 then r1\<lparr>pd_RemovedFiles := pd_RemovedFiles r1 + - pd_NewFiles r1, pd_NewFiles := 0\<rparr> else r1)
           else r)
      | None \<Rightarrow> r\<lparr>pd_AddedVertices := pd_AddedVertices r @ [d], pd_NewFiles := pd_NewFiles r + pv_LeafCount bVtx\<rparr>)"

definition pd_visit_removed :: "(string \<rightharpoonup> prov_vertex) \<Rightarrow> (string \<rightharpoonup> prov_vertex) \<Rightarrow> string \<Rightarrow> prov_diff \<Rightarrow> prov_diff" where
  "pd_visit_removed aIndex bIndex d r =
     (if bIndex d = None
      then r\<lparr>pd_RemovedVertices := pd_RemovedVertices r @ [d], pd_RemovedFiles := pd_RemovedFiles r + pv_LeafCount (the (aIndex d))\<rparr>
      else r)"

text \<open>\<open>enum_b\<close> and \<open>enum_a\<close> are the iteration orders of the two loops over maps.\<close>

definition DiffProvenance :: "(string set \<Rightarrow> string list) \<Rightarrow> (string set \<Rightarrow> string list) \<Rightarrow> oci_provenance \<Rightarrow> oci_provenance \<Rightarrow> prov_diff" where
  "DiffProvenance enum_b enum_a a b =
     (let aIndex = indexProvenanceVertices a; bIndex = indexProvenanceVertices b;
          r = fold (pd_visit aIndex bIndex) (enum_b (dom bIndex))
            \<lparr>pd_AddedVertices = [], pd_RemovedVertices = [], pd_ChangedVertices = [], pd_NewFiles = 0, pd_RemovedFiles = 0\<rparr>;
          r = fold (pd_visit_removed aIndex bIndex) (enum_a (dom aIndex)) r
      in r\<lparr>pd_AddedVertices := sort (pd_AddedVertices r), pd_RemovedVertices := sort (pd_RemovedVertices r),
           pd_ChangedVertices := sort (pd_ChangedVertices r)\<rparr>)"

section \<open>Warming a cache\<close>

record warm_result =
  wr_Warmed :: int
  wr_Skipped :: int
  wr_Vertices :: int

definition warm_zero :: warm_result where
  "warm_zero = \<lparr>wr_Warmed = 0, wr_Skipped = 0, wr_Vertices = 0\<rparr>"

text \<open>One entry of either source; the loop body is the same in \<open>Warm\<close> and \<open>WarmFromForest\<close>.\<close>

definition warm_entry :: "'c hash_cache \<Rightarrow> layer_registry \<Rightarrow> int \<Rightarrow> string \<times> string \<times> string \<Rightarrow> warm_result \<times> 'c \<Rightarrow> warm_result \<times> 'c" where
  "warm_entry C reg now e rc =
     (let (owner, path, hash) = e; (r, c) = rc in
      if owner = '''' \<or> hash = '''' then (r\<lparr>wr_Skipped := wr_Skipped r + 1\<rparr>, c)
      else case reg_Get owner reg of
        None \<Rightarrow> (r\<lparr>wr_Skipped := wr_Skipped r + 1\<rparr>, c)
      | Some _ \<Rightarrow> (r\<lparr>wr_Warmed := wr_Warmed r + 1\<rparr>, hc_Set C now owner path hash c))"

text \<open>\<open>ctx k\<close> is \<open>ctx.Err()\<close> at the check before vertex \<open>k\<close>.\<close>

fun warm_groups :: "'c hash_cache \<Rightarrow> layer_registry \<Rightarrow> int \<Rightarrow> (nat \<Rightarrow> lm_error option) \<Rightarrow> nat \<Rightarrow> (string \<times> string \<times> string) list list
    \<Rightarrow> warm_result \<times> 'c \<Rightarrow> (warm_result \<times> lm_error option) \<times> 'c" where
  "warm_groups C reg now ctx k [] (r, c) = ((r, None), c)"
| "warm_groups C reg now ctx k (es # ess) (r, c) =
     (case ctx k of
        Some err \<Rightarrow> ((r, Some err), c)
      | None \<Rightarrow> warm_groups C reg now ctx (Suc k) ess (fold (warm_entry C reg now) es (r\<lparr>wr_Vertices := wr_Vertices r + 1\<rparr>, c)))"

definition Warm :: "'c hash_cache \<Rightarrow> layer_registry \<Rightarrow> int \<Rightarrow> (nat \<Rightarrow> lm_error option) \<Rightarrow> oci_provenance \<Rightarrow> 'c
    \<Rightarrow> (warm_result \<times> lm_error option) \<times> 'c" where
  "Warm C reg now ctx p c =
     warm_groups C reg now ctx 0 (map (\<lambda>v. map (\<lambda>f. (pf_OwnerLayer f, pf_RelPath f, pf_ContentDigest f)) (pv_Files v)) (op_Vertices p)) (warm_zero, c)"

definition WarmFromForest :: "'c hash_cache \<Rightarrow> layer_registry \<Rightarrow> (lm_vertex set \<Rightarrow> lm_vertex list) \<Rightarrow> (lm_tree list \<Rightarrow> lm_tree list) \<Rightarrow> int
    \<Rightarrow> (nat \<Rightarrow> lm_error option) \<Rightarrow> lm_forest \<Rightarrow> 'c \<Rightarrow> (warm_result \<times> lm_error option) \<times> 'c" where
  "WarmFromForest C reg enum srt now ctx f c =
     warm_groups C reg now ctx 0 (map (\<lambda>t. map (\<lambda>l. (lf_OwnerLayerID l, lf_RelPath l, lf_Hash l)) (tr_Leaves t)) (mf_All enum srt f)) (warm_zero, c)"

record ('c, 'h, 'r, 'k) warm_start_config =
  ws_Provenance :: "oci_provenance option"
  ws_Forest :: "lm_forest option"
  ws_EngineOptions :: "('c, 'h, 'r, 'k) engine_option list"

definition NewEngineWithWarmStart :: "int \<Rightarrow> ('c, 'h, 'r) default_parts \<Rightarrow> 'k \<Rightarrow> (lm_vertex set \<Rightarrow> lm_vertex list) \<Rightarrow> (lm_tree list \<Rightarrow> lm_tree list)
    \<Rightarrow> int \<Rightarrow> (nat \<Rightarrow> lm_error option) \<Rightarrow> ('c, 'h, 'r, 'k) warm_start_config
    \<Rightarrow> ('c, 'h, 'r, 'k) lm_engine option \<times> warm_result \<times> lm_error option" where
  "NewEngineWithWarmStart numCPU df k enum srt now ctx cfg =
     (let e = NewEngine numCPU df k (ws_EngineOptions cfg);
          C = de_cache (en_dedup e); c = ds_cache (vp_dedup (en_vp e));
          ((r, err), c') = (case ws_Provenance cfg of
              Some p \<Rightarrow> Warm C (en_registry e) now ctx p c
            | None \<Rightarrow> (case ws_Forest cfg of
                Some f \<Rightarrow> WarmFromForest C (en_registry e) enum srt now ctx f c
              | None \<Rightarrow> ((warm_zero, None), c)))
      in case err of
           Some er \<Rightarrow> (None, r, Some (Wrapped [''layermerkle: warm start''] er))
         | None \<Rightarrow> (Some (e\<lparr>en_vp := (en_vp e)\<lparr>vp_dedup := (vp_dedup (en_vp e))\<lparr>ds_cache := c'\<rparr>\<rparr>\<rparr>), r, None))"

section \<open>The loops of the comparison\<close>

definition prov_changed :: "(string \<rightharpoonup> prov_vertex) \<Rightarrow> (string \<rightharpoonup> prov_vertex) \<Rightarrow> string \<Rightarrow> bool" where
  "prov_changed aIndex bIndex d \<longleftrightarrow> aIndex d \<noteq> None \<and> pv_MerkleRoot (the (aIndex d)) \<noteq> pv_MerkleRoot (the (bIndex d))"

definition pd_net :: "prov_diff \<Rightarrow> int" where
  "pd_net r = pd_NewFiles r - pd_RemovedFiles r"

definition net_of :: "(string \<rightharpoonup> prov_vertex) \<Rightarrow> (string \<rightharpoonup> prov_vertex) \<Rightarrow> string \<Rightarrow> int" where
  "net_of aIndex bIndex d =
     (if aIndex d = None then pv_LeafCount (the (bIndex d))
      else if prov_changed aIndex bIndex d then pv_LeafCount (the (bIndex d)) - pv_LeafCount (the (aIndex d)) else 0)"

lemma fold_pd_visit:
  "pd_AddedVertices (fold (pd_visit ai bi) ds r) = pd_AddedVertices r @ filter (\<lambda>d. ai d = None) ds
   \<and> pd_ChangedVertices (fold (pd_visit ai bi) ds r) = pd_ChangedVertices r @ filter (prov_changed ai bi) ds
   \<and> pd_RemovedVertices (fold (pd_visit ai bi) ds r) = pd_RemovedVertices r
   \<and> pd_net (fold (pd_visit ai bi) ds r) = pd_net r + (\<Sum>d\<leftarrow>ds. net_of ai bi d)"
proof (induction ds arbitrary: r)
  case (Cons d ds)
  have "pd_AddedVertices (pd_visit ai bi d r) = pd_AddedVertices r @ (if ai d = None then [d] else [])"
    "pd_ChangedVertices (pd_visit ai bi d r) = pd_ChangedVertices r @ (if prov_changed ai bi d then [d] else [])"
    "pd_RemovedVertices (pd_visit ai bi d r) = pd_RemovedVertices r" "pd_net (pd_visit ai bi d r) = pd_net r + net_of ai bi d"
    by (auto simp: pd_visit_def prov_changed_def pd_net_def net_of_def Let_def split: option.splits)
  then show ?case using Cons by simp
qed simp

lemma fold_pd_visit_removed:
  "pd_AddedVertices (fold (pd_visit_removed ai bi) ds r) = pd_AddedVertices r
   \<and> pd_ChangedVertices (fold (pd_visit_removed ai bi) ds r) = pd_ChangedVertices r
   \<and> pd_RemovedVertices (fold (pd_visit_removed ai bi) ds r) = pd_RemovedVertices r @ filter (\<lambda>d. bi d = None) ds
   \<and> pd_net (fold (pd_visit_removed ai bi) ds r) = pd_net r - (\<Sum>d\<leftarrow>filter (\<lambda>d. bi d = None) ds. pv_LeafCount (the (ai d)))"
  by (induction ds arbitrary: r) (auto simp: pd_visit_removed_def pd_net_def)

lemma finite_index [simp]: "finite (dom (indexProvenanceVertices p))"
proof -
  have "finite (dom (fold (\<lambda>v m. m(pv_VertexDigest v \<mapsto> v)) vs m))" if "finite (dom m)" for vs and m :: "string \<rightharpoonup> prov_vertex"
    using that by (induction vs arbitrary: m) auto
  then show ?thesis by (simp add: indexProvenanceVertices_def)
qed

lemma sum_list_enum: "map_range enum \<Longrightarrow> finite A \<Longrightarrow> (\<Sum>x\<leftarrow>enum A. f x) = sum f A" for f :: "'a \<Rightarrow> int"
  using map_range.enum_distinct map_range.enum_set by (metis sum.distinct_set_conv_list)

lemma sort_filter_enum: "map_range enum \<Longrightarrow> finite A \<Longrightarrow> sort (filter P (enum A)) = sorted_list_of_set {x \<in> A. P x}" for A :: "string set"
  by (intro sorted_distinct_set_unique) (auto simp: map_range.enum_distinct map_range.enum_set)

section \<open>Properties\<close>

text \<open>Comparing two provenance records, in any iteration order of the two maps: the three lists of vertices are exactly
  the added, removed and changed ones in increasing order, and the two file counts differ by the net change of the
  leaf counts.\<close>

theorem DiffProvenance_vertices_and_balance:
  assumes "map_range enum_a" "map_range enum_b"
  shows "let r = DiffProvenance enum_b enum_a a b; ai = indexProvenanceVertices a; bi = indexProvenanceVertices b in
    pd_AddedVertices r = sorted_list_of_set (dom bi - dom ai)
    \<and> pd_RemovedVertices r = sorted_list_of_set (dom ai - dom bi)
    \<and> pd_ChangedVertices r = sorted_list_of_set {d \<in> dom ai \<inter> dom bi. pv_MerkleRoot (the (ai d)) \<noteq> pv_MerkleRoot (the (bi d))}
    \<and> pd_NewFiles r - pd_RemovedFiles r = (\<Sum>d \<in> dom bi. net_of ai bi d) - (\<Sum>d \<in> dom ai - dom bi. pv_LeafCount (the (ai d)))"
proof -
  define ai bi where i: "ai = indexProvenanceVertices a" "bi = indexProvenanceVertices b"
  have fin: "finite (dom ai)" "finite (dom bi)" by (simp_all add: i)
  let ?zero = "\<lparr>pd_AddedVertices = [], pd_RemovedVertices = [], pd_ChangedVertices = [], pd_NewFiles = 0, pd_RemovedFiles = 0\<rparr>"
  let ?r = "fold (pd_visit_removed ai bi) (enum_a (dom ai)) (fold (pd_visit ai bi) (enum_b (dom bi)) ?zero)"
  have sets: "{d \<in> dom bi. ai d = None} = dom bi - dom ai" "{d \<in> dom ai. bi d = None} = dom ai - dom bi"
    "{d \<in> dom bi. prov_changed ai bi d} = {d \<in> dom ai \<inter> dom bi. pv_MerkleRoot (the (ai d)) \<noteq> pv_MerkleRoot (the (bi d))}"
    by (auto simp: prov_changed_def)
  have "(\<Sum>d\<leftarrow>filter (\<lambda>d. bi d = None) (enum_a (dom ai)). pv_LeafCount (the (ai d))) = (\<Sum>d \<in> {d \<in> dom ai. bi d = None}. pv_LeafCount (the (ai d)))"
    using map_range.enum_distinct [OF assms(1) fin(1)] map_range.enum_set [OF assms(1) fin(1)]
    by (subst sum.distinct_set_conv_list [symmetric]) auto
  then have net: "pd_net ?r = (\<Sum>d \<in> dom bi. net_of ai bi d) - (\<Sum>d \<in> dom ai - dom bi. pv_LeafCount (the (ai d)))"
    using fold_pd_visit [of ai bi "enum_b (dom bi)" ?zero] fold_pd_visit_removed [of ai bi "enum_a (dom ai)"]
      sum_list_enum [OF assms(2) fin(2), of "net_of ai bi"] sets(2) by (simp add: pd_net_def)
  show ?thesis
    unfolding DiffProvenance_def Let_def i [symmetric]
    using net fold_pd_visit [of ai bi "enum_b (dom bi)" ?zero] fold_pd_visit_removed [of ai bi "enum_a (dom ai)"]
      sort_filter_enum [OF assms(2) fin(2)] sort_filter_enum [OF assms(1) fin(1)] sets by (simp add: pd_net_def)
qed

text \<open>Two records: vertex \<open>x\<close> shrinks from five files to two, vertex \<open>y\<close> with four files is new.\<close>

definition small_vertex :: "string \<Rightarrow> string \<Rightarrow> int \<Rightarrow> prov_vertex" where
  "small_vertex d mr n = \<lparr>pv_VertexDigest = d, pv_MerkleRoot = mr, pv_LayerStack = [], pv_FinalizedAt = 0, pv_LeafCount = n,
     pv_CacheHitRate = 0, pv_Files = []\<rparr>"

definition small_record :: "prov_vertex list \<Rightarrow> oci_provenance" where
  "small_record vs = \<lparr>op_SchemaVersion = 2, op_MediaType = OCIProvenanceMediaType, op_CreatedAt = 0, op_BuildID = '''',
     op_Vertices = vs, op_TotalFiles = 0, op_TotalCacheHits = 0\<rparr>"

text \<open>The file counts of a comparison depend on the iteration order of a map: the same two records are reported with four
  new and three removed files in one order and with one new and no removed file in the other.\<close>

theorem DiffProvenance_counts_depend_on_order:
  "\<exists>a b. \<exists>enum1 enum2 :: string set \<Rightarrow> string list. map_range enum1 \<and> map_range enum2
    \<and> pd_NewFiles (DiffProvenance enum1 enum1 a b) = 4 \<and> pd_RemovedFiles (DiffProvenance enum1 enum1 a b) = 3
    \<and> pd_NewFiles (DiffProvenance enum2 enum1 a b) = 1 \<and> pd_RemovedFiles (DiffProvenance enum2 enum1 a b) = 0"
proof -
  let ?a = "small_record [small_vertex ''x'' ''r'' 5]" and ?b = "small_record [small_vertex ''x'' ''s'' 2, small_vertex ''y'' ''t'' 4]"
  let ?e1 = "sorted_list_of_set :: string set \<Rightarrow> string list" and ?e2 = "\<lambda>A :: string set. rev (sorted_list_of_set A)"
  have m: "map_range ?e1" "map_range ?e2" by (unfold_locales; simp)+
  have i: "indexProvenanceVertices ?a = [''x'' \<mapsto> small_vertex ''x'' ''r'' 5]"
    "indexProvenanceVertices ?b = [''x'' \<mapsto> small_vertex ''x'' ''s'' 2, ''y'' \<mapsto> small_vertex ''y'' ''t'' 4]"
    by (simp_all add: indexProvenanceVertices_def small_record_def small_vertex_def)
  have "sorted_list_of_set {''x'', ''y''} = [''x'', ''y'']" by code_simp
  moreover have "dom [''x'' \<mapsto> small_vertex ''x'' ''s'' 2, ''y'' \<mapsto> small_vertex ''y'' ''t'' 4] = {''x'', ''y''}" by auto
  ultimately have "pd_NewFiles (DiffProvenance ?e1 ?e1 ?a ?b) = 4 \<and> pd_RemovedFiles (DiffProvenance ?e1 ?e1 ?a ?b) = 3
      \<and> pd_NewFiles (DiffProvenance ?e2 ?e1 ?a ?b) = 1 \<and> pd_RemovedFiles (DiffProvenance ?e2 ?e1 ?a ?b) = 0"
    unfolding DiffProvenance_def Let_def i by (simp add: pd_visit_def pd_visit_removed_def small_vertex_def Let_def)
  then show ?thesis using m by blast
qed

section \<open>What warming does\<close>

definition warmable :: "layer_registry \<Rightarrow> string \<times> string \<times> string \<Rightarrow> bool" where
  "warmable reg e \<longleftrightarrow> fst e \<noteq> '''' \<and> snd (snd e) \<noteq> '''' \<and> reg (fst e) \<noteq> None"

definition warm_op :: "int \<Rightarrow> string \<times> string \<times> string \<Rightarrow> int \<times> cache_op" where
  "warm_op now e = (now, CSet (fst e) (fst (snd e)) (snd (snd e)))"

definition prov_entries :: "oci_provenance \<Rightarrow> (string \<times> string \<times> string) list list" where
  "prov_entries p = map (\<lambda>v. map (\<lambda>f. (pf_OwnerLayer f, pf_RelPath f, pf_ContentDigest f)) (pv_Files v)) (op_Vertices p)"

lemma fold_warm_entry:
  "fold (warm_entry C reg now) es (r, c) =
    (r\<lparr>wr_Warmed := wr_Warmed r + int (length (filter (warmable reg) es)), wr_Skipped := wr_Skipped r + int (length (filter (\<lambda>e. \<not> warmable reg e) es))\<rparr>,
     fold (apply_op C) (map (warm_op now) (filter (warmable reg) es)) c)"
proof (induction es arbitrary: r c)
  case (Cons e es)
  have "warm_entry C reg now e (r, c) = (if warmable reg e then (r\<lparr>wr_Warmed := wr_Warmed r + 1\<rparr>, apply_op C (warm_op now e) c)
      else (r\<lparr>wr_Skipped := wr_Skipped r + 1\<rparr>, c))"
    by (cases e) (auto simp: warm_entry_def reg_Get_def warmable_def warm_op_def split: option.split)
  then show ?case by (simp add: Cons algebra_simps)
qed simp

lemma warm_groups_result:
  "\<exists>n \<le> length ess. warm_groups C reg now ctx k ess (r, c) =
    ((r\<lparr>wr_Warmed := wr_Warmed r + int (length (filter (warmable reg) (concat (take n ess)))),
        wr_Skipped := wr_Skipped r + int (length (filter (\<lambda>e. \<not> warmable reg e) (concat (take n ess)))),
        wr_Vertices := wr_Vertices r + int n\<rparr>, if n = length ess then None else ctx (k + n)),
     fold (apply_op C) (map (warm_op now) (filter (warmable reg) (concat (take n ess)))) c)
    \<and> (n < length ess \<longrightarrow> ctx (k + n) \<noteq> None) \<and> (\<forall>i < n. ctx (k + i) = None)"
proof (induction ess arbitrary: k r c)
  case Nil
  then show ?case by simp
next
  case (Cons es ess)
  show ?case
  proof (cases "ctx k")
    case (Some err)
    then show ?thesis by (intro exI [of _ 0]) simp
  next
    case None
    let ?rc = "fold (warm_entry C reg now) es (r\<lparr>wr_Vertices := wr_Vertices r + 1\<rparr>, c)"
    from Cons.IH [of "Suc k" "fst ?rc" "snd ?rc"] obtain n where n: "n \<le> length ess"
      "warm_groups C reg now ctx (Suc k) ess ?rc =
        ((fst ?rc\<lparr>wr_Warmed := wr_Warmed (fst ?rc) + int (length (filter (warmable reg) (concat (take n ess)))),
            wr_Skipped := wr_Skipped (fst ?rc) + int (length (filter (\<lambda>e. \<not> warmable reg e) (concat (take n ess)))),
            wr_Vertices := wr_Vertices (fst ?rc) + int n\<rparr>, if n = length ess then None else ctx (Suc k + n)),
         fold (apply_op C) (map (warm_op now) (filter (warmable reg) (concat (take n ess)))) (snd ?rc))"
      "n < length ess \<longrightarrow> ctx (Suc k + n) \<noteq> None" "\<forall>i < n. ctx (Suc k + i) = None" by auto
    have "ctx (k + i) = None" if "i < Suc n" for i using that n(4) None by (cases i) auto
    then show ?thesis
      using n None by (intro exI [of _ "Suc n"]) (simp add: fold_warm_entry algebra_simps)
  qed
qed

text \<open>What warming loads: up to the vertex at which the context is cancelled, every recorded file with a known layer and a
  digest is written to the cache under its owner layer, in the order of the record, and nothing else is; every
  processed file is counted once, as warmed or as skipped; and the call fails exactly when it stopped early.\<close>

theorem Warm_writes_known_files:
  assumes "Warm C reg now ctx p c = ((r, err), c')"
  shows "\<exists>n \<le> length (op_Vertices p). let es = concat (take n (prov_entries p)) in
    c' = fold (apply_op C) (map (warm_op now) (filter (warmable reg) es)) c
    \<and> wr_Vertices r = int n \<and> wr_Warmed r = int (length (filter (warmable reg) es)) \<and> wr_Warmed r + wr_Skipped r = int (length es)
    \<and> (err = None \<longleftrightarrow> n = length (op_Vertices p)) \<and> (n < length (op_Vertices p) \<longrightarrow> err = ctx n)"
proof -
  obtain n where n: "n \<le> length (prov_entries p)" "n < length (prov_entries p) \<longrightarrow> ctx n \<noteq> None"
    "warm_groups C reg now ctx 0 (prov_entries p) (warm_zero, c) =
      ((warm_zero\<lparr>wr_Warmed := wr_Warmed warm_zero + int (length (filter (warmable reg) (concat (take n (prov_entries p))))),
        wr_Skipped := wr_Skipped warm_zero + int (length (filter (\<lambda>e. \<not> warmable reg e) (concat (take n (prov_entries p))))),
        wr_Vertices := wr_Vertices warm_zero + int n\<rparr>, if n = length (prov_entries p) then None else ctx n),
       fold (apply_op C) (map (warm_op now) (filter (warmable reg) (concat (take n (prov_entries p))))) c)"
    using warm_groups_result [of "prov_entries p" C reg now ctx 0 warm_zero c] by auto
  define es where "es = concat (take n (prov_entries p))"
  have len: "length (prov_entries p) = length (op_Vertices p)" by (simp add: prov_entries_def)
  have c: "int (length (filter (warmable reg) es)) + int (length (filter (\<lambda>e. \<not> warmable reg e) es)) = int (length es)"
    using sum_length_filter_compl [of "warmable reg" es] by linarith
  have "((r, err), c') = ((warm_zero\<lparr>wr_Warmed := wr_Warmed warm_zero + int (length (filter (warmable reg) es)),
        wr_Skipped := wr_Skipped warm_zero + int (length (filter (\<lambda>e. \<not> warmable reg e) es)),
        wr_Vertices := wr_Vertices warm_zero + int n\<rparr>, if n = length (op_Vertices p) then None else ctx n),
       fold (apply_op C) (map (warm_op now) (filter (warmable reg) es)) c)"
    using assms n(3) unfolding Warm_def prov_entries_def [symmetric] es_def len by (simp only:)
  then have r: "r = \<lparr>wr_Warmed = int (length (filter (warmable reg) es)), wr_Skipped = int (length (filter (\<lambda>e. \<not> warmable reg e) es)), wr_Vertices = int n\<rparr>"
    and err: "err = (if n = length (op_Vertices p) then None else ctx n)"
    and c': "c' = fold (apply_op C) (map (warm_op now) (filter (warmable reg) es)) c"
    by (simp_all add: warm_zero_def)
  show ?thesis
    by (rule exI [of _ n]) (use n(1,2) c in \<open>auto simp: Let_def es_def [symmetric] len r err c'\<close>)
qed

lemma op_Vertices_Export:
  "op_Vertices (fold (addVertex srt_leaves cfg) ts p) = op_Vertices p @ map (\<lambda>t. treeToProvenanceVertex srt_leaves t cfg) ts"
  by (induction ts arbitrary: p) (simp_all add: addVertex_def)

text \<open>Warming from a forest and warming from its exported provenance record are the same, call for call: the export keeps
  all that warming needs, when files are included and the leaves are sorted as the engine leaves them.\<close>

theorem Warm_ExportProvenance:
  assumes "slice_sort lf_RelPath srt_leaves" "map_range enum" "slice_sort tr_VertexID srt" "forest_ok f"
    and "\<forall>t \<in> ran f. sorted (map lf_RelPath (tr_Leaves t)) \<and> distinct (map lf_RelPath (tr_Leaves t))"
  shows "Warm C reg now ctx (ExportProvenance enum srt srt_leaves t0 f [WithProvenanceBuildID i]) c = WarmFromForest C reg enum srt now ctx f c"
proof -
  have s: "srt_leaves (tr_Leaves t) = tr_Leaves t" if "t \<in> set (mf_All enum srt f)" for t
    using slice_sort.srt_unique [OF assms(1), of "tr_Leaves t" "tr_Leaves t" "tr_Leaves t"] assms(5) that
      mf_All_forest(1) [OF assms(3,2,4)] by simp
  have "prov_entries (ExportProvenance enum srt srt_leaves t0 f [WithProvenanceBuildID i]) =
      map (\<lambda>t. map (\<lambda>l. (lf_OwnerLayerID l, lf_RelPath l, lf_Hash l)) (tr_Leaves t)) (mf_All enum srt f)"
    using s by (simp add: prov_entries_def ExportProvenance_def op_Vertices_Export WithProvenanceBuildID_def treeToProvenanceVertex_def comp_def)
  then show ?thesis by (simp add: Warm_def WarmFromForest_def prov_entries_def)
qed

lemma apply_opts_registry:
  assumes "\<forall>opt \<in> set opts. \<forall>e :: ('c, 'h, 'r, 'k) engine_parts. ep_registry (opt e) = ep_registry e"
  shows "ep_registry (fold (\<lambda>o1. o1) opts (e :: ('c, 'h, 'r, 'k) engine_parts)) = ep_registry e"
  using assms by (induction opts arbitrary: e) simp_all

lemma warm_unknown: "\<forall>es \<in> set ess. \<forall>e \<in> set es. \<not> warmable reg e \<Longrightarrow> snd (warm_groups C reg now ctx k ess (r, c)) = c
    \<and> wr_Warmed (fst (fst (warm_groups C reg now ctx k ess (r, c)))) = wr_Warmed r"
proof (induction ess arbitrary: k r c)
  case (Cons es ess)
  have "filter (warmable reg) es = []" using Cons.prems by (auto simp: filter_empty_conv)
  then show ?case using Cons by (auto simp: fold_warm_entry split: option.split)
qed simp

lemma warm_uncancelled: "snd (fst (warm_groups C reg now (\<lambda>_. None) k ess (r, c))) = None"
proof (induction ess arbitrary: k r c)
  case (Cons es ess)
  then show ?case by (cases "fold (warm_entry C reg now) es (r\<lparr>wr_Vertices := wr_Vertices r + 1\<rparr>, c)") simp
qed simp

text \<open>A warm start loads nothing unless the engine is given a registry: layers are unknown to a new engine's own registry, so
  every recorded file is skipped and the cache stays as it was created.\<close>

theorem warm_start_needs_registry:
  fixes cfg :: "('c, 'h, 'r, 'k) warm_start_config"
  assumes "\<forall>opt \<in> set (ws_EngineOptions cfg). \<forall>e. ep_registry (opt e) = ep_registry e"
    and "NewEngineWithWarmStart numCPU df k enum srt now (\<lambda>_. None) cfg = (en, r, err)"
  shows "err = None \<and> wr_Warmed r = 0 \<and> en = Some (NewEngine numCPU df k (ws_EngineOptions cfg))"
proof -
  let ?e = "NewEngine numCPU df k (ws_EngineOptions cfg)"
  have reg: "en_registry ?e = Map.empty"
    using apply_opts_registry [OF assms(1)] by (simp add: NewEngine_def en_wire_def Let_def applyDefaults_def NewLayerRegistry_def case_prod_unfold)
  have u: "snd (warm_groups C Map.empty now (\<lambda>_. None) 0 ess (warm_zero, c)) = c" "snd (fst (warm_groups C Map.empty now (\<lambda>_. None) 0 ess (warm_zero, c))) = None"
    "wr_Warmed (fst (fst (warm_groups C Map.empty now (\<lambda>_. None) 0 ess (warm_zero, c)))) = 0" for C :: "'c hash_cache" and ess c
    using warm_unknown [of ess "Map.empty" C now "\<lambda>_. None" 0 warm_zero c] warm_uncancelled [of C Map.empty now 0 ess warm_zero c]
    by (simp_all add: warmable_def warm_zero_def)
  have z: "wr_Warmed warm_zero = 0" by (simp add: warm_zero_def)
  have same: "e\<lparr>en_vp := (en_vp e)\<lparr>vp_dedup := (vp_dedup (en_vp e))\<lparr>ds_cache := ds_cache (vp_dedup (en_vp e))\<rparr>\<rparr>\<rparr> = e"
    for e :: "('c, 'h, 'r, 'k) lm_engine" by simp
  define e where "e = ?e"
  have "NewEngineWithWarmStart numCPU df k enum srt now (\<lambda>_. None) cfg =
    (Some e, (case ws_Provenance cfg of
        Some p \<Rightarrow> fst (fst (Warm (de_cache (en_dedup e)) (en_registry e) now (\<lambda>_. None) p (ds_cache (vp_dedup (en_vp e)))))
      | None \<Rightarrow> (case ws_Forest cfg of
          Some f \<Rightarrow> fst (fst (WarmFromForest (de_cache (en_dedup e)) (en_registry e) enum srt now (\<lambda>_. None) f (ds_cache (vp_dedup (en_vp e)))))
        | None \<Rightarrow> warm_zero)), None)"
    unfolding NewEngineWithWarmStart_def Let_def e_def [symmetric] Warm_def WarmFromForest_def case_prod_unfold reg [folded e_def]
    by (simp only: u same fst_conv snd_conv option.case split: option.split) simp
  then show ?thesis
    using assms(2) unfolding reg [folded e_def] Warm_def WarmFromForest_def e_def [symmetric]
    by (simp add: u z split: option.splits)
qed

section \<open>Witnesses\<close>

theorem DiffProvenance_vertices_and_balance_witness:
  "let r = DiffProvenance sorted_list_of_set sorted_list_of_set (small_record []) (small_record [small_vertex ''x'' ''s'' 2])
   in pd_AddedVertices r = [''x''] \<and> pd_NewFiles r - pd_RemovedFiles r = 2"
  using DiffProvenance_vertices_and_balance [OF sorted_range.map_range_axioms sorted_range.map_range_axioms, of "small_record []" "small_record [small_vertex ''x'' ''s'' 2]"]
  unfolding Let_def by (simp add: indexProvenanceVertices_def small_record_def small_vertex_def net_of_def)

definition small_file_record :: oci_provenance where
  "small_file_record = small_record [(small_vertex ''v'' ''r'' 1)\<lparr>pv_Files :=
     [\<lparr>pf_RelPath = ''usr/sh'', pf_ContentDigest = ''sha256:cd'', pf_OwnerLayer = ''sha256:ab'', pf_FromCache = False\<rparr>]\<rparr>]"

lemma Warm_uncancelled: "snd (fst (Warm C reg now (\<lambda>_. None) p c)) = None"
  by (simp only: Warm_def warm_uncancelled)

theorem Warm_writes_known_files_witness:
  "\<exists>r c'. Warm NoopHashCache [''sha256:ab'' \<mapsto> \<lparr>li_ID = ''sha256:ab'', li_DiffPath = ''/d'', li_ChainID = '''', li_Labels = Map.empty\<rparr>] 3 (\<lambda>_. None) small_file_record () = ((r, None), c')
    \<and> wr_Vertices r = 1 \<and> wr_Warmed r + wr_Skipped r = 1"
proof -
  let ?reg = "[''sha256:ab'' \<mapsto> \<lparr>li_ID = ''sha256:ab'', li_DiffPath = ''/d'', li_ChainID = '''', li_Labels = Map.empty\<rparr>] :: layer_registry"
  obtain rc c' where rc: "Warm NoopHashCache ?reg 3 (\<lambda>_. None) small_file_record () = (rc, c')"
    by (cases "Warm NoopHashCache ?reg 3 (\<lambda>_. None) small_file_record ()")
  obtain r err where "rc = (r, err)" by (cases rc)
  then have w: "Warm NoopHashCache ?reg 3 (\<lambda>_. None) small_file_record () = ((r, err), c')" using rc by simp
  have "length (op_Vertices small_file_record) = 1" "take 1 (prov_entries small_file_record) = [[(''sha256:ab'', ''usr/sh'', ''sha256:cd'')]]"
    by (simp_all add: small_file_record_def small_record_def small_vertex_def prov_entries_def)
  moreover have "err = None" using Warm_uncancelled [of NoopHashCache ?reg 3 small_file_record "()"] unfolding w by simp
  moreover obtain n where "n \<le> length (op_Vertices small_file_record)" "wr_Vertices r = int n" "err = None \<longleftrightarrow> n = length (op_Vertices small_file_record)"
      "wr_Warmed r + wr_Skipped r = int (length (concat (take n (prov_entries small_file_record))))"
    using Warm_writes_known_files [OF w] unfolding Let_def by blast
  ultimately show ?thesis using w by (intro exI [of _ r] exI [of _ c']) simp
qed

theorem Warm_ExportProvenance_witness:
  "Warm NoopHashCache reg 3 ctx (ExportProvenance sorted_list_of_set (sort_key tr_VertexID) (sort_key lf_RelPath) 0 [''v'' \<mapsto> example_tree] [WithProvenanceBuildID ''b'']) ()
    = WarmFromForest NoopHashCache reg sorted_list_of_set (sort_key tr_VertexID) 3 ctx [''v'' \<mapsto> example_tree] ()"
  by (rule Warm_ExportProvenance [OF insertion_slice_sort.slice_sort_axioms sorted_range.map_range_axioms insertion_slice_sort.slice_sort_axioms example_forest(1)])
    (simp add: example_tree_def)

theorem warm_start_needs_registry_witness:
  "\<exists>en r err. NewEngineWithWarmStart 2 (package_defaults rev path_open (\<lambda>_. None) (example_fs []) sorted_list_of_set) () sorted_list_of_set
      (sort_key tr_VertexID) 0 (\<lambda>_. None) \<lparr>ws_Provenance = Some small_file_record, ws_Forest = None, ws_EngineOptions = [WithWorkers 3]\<rparr> = (en, r, err)
    \<and> err = None \<and> wr_Warmed r = 0"
proof -
  let ?cfg = "\<lparr>ws_Provenance = Some small_file_record, ws_Forest = None, ws_EngineOptions = [WithWorkers 3]\<rparr>
    :: (lru_cache, unit, overlay_resolver, unit) warm_start_config"
  obtain en r err where w: "NewEngineWithWarmStart 2 (package_defaults rev path_open (\<lambda>_. None) (example_fs []) sorted_list_of_set) () sorted_list_of_set
      (sort_key tr_VertexID) 0 (\<lambda>_. None) ?cfg = (en, r, err)" by (rule prod_cases3)
  have "\<forall>opt \<in> set (ws_EngineOptions ?cfg). \<forall>e. ep_registry (opt e) = ep_registry e" by (simp add: WithWorkers_def)
  from warm_start_needs_registry [OF this w] show ?thesis using w by blast
qed

end
