(* ===== verification/Ds_Core.thy ===== *)
theory Ds_Core
  imports Go_Strings
begin

text \<open>
  Directory synchronisation (\<open>internal/dirsync\<close>): errors (\<open>errors.go\<close>, \<open>helpers.go\<close>), entries and their
  kinds (\<open>types.go\<close>), path filters (\<open>filter.go\<close>) and the pruning set (\<open>pruning_set.go\<close>).
\<close>

section \<open>Errors\<close>

text \<open>\<open>Ctx\<close> is \<open>context.Canceled\<close> or \<open>context.DeadlineExceeded\<close>; \<open>NotExist\<close> is \<open>fs.ErrNotExist\<close>; \<open>Sys\<close> any other
  error of the operating system. \<open>Wrap\<close> is \<open>fmt.Errorf\<close> with \<open>%w\<close>, its message as the list of its parts. \<open>OutOfFuel\<close>
  marks a walk that was cut off by the model.\<close>

datatype ds_error =
    Ctx string
  | NotExist
  | Sys string
  | BatcherClosed
  | RequiredPath string string
  | OpError string string ds_error
  | Wrap "string list" ds_error
  | Join "ds_error list"
  | Msg "string list"
  | OutOfFuel

fun is_ctx_error :: "ds_error \<Rightarrow> bool" where
  "is_ctx_error (Ctx s) = True"
| "is_ctx_error (Wrap m e) = is_ctx_error e"
| "is_ctx_error (OpError op p e) = is_ctx_error e"
| "is_ctx_error (Join es) = list_ex is_ctx_error es"
| "is_ctx_error _ = False"

abbreviation isContextErr :: "ds_error \<Rightarrow> bool" where "isContextErr \<equiv> is_ctx_error"

fun is_not_exist :: "ds_error \<Rightarrow> bool" where
  "is_not_exist NotExist = True"
| "is_not_exist (Wrap m e) = is_not_exist e"
| "is_not_exist (OpError op p e) = is_not_exist e"
| "is_not_exist (Join es) = list_ex is_not_exist es"
| "is_not_exist _ = False"

definition wrapOp :: "string \<Rightarrow> string \<Rightarrow> ds_error option \<Rightarrow> ds_error option" where
  "wrapOp op path err = (case err of None \<Rightarrow> None | Some e \<Rightarrow> Some (OpError op path e))"

definition joinErrors :: "ds_error list \<Rightarrow> ds_error option" where
  "joinErrors errs = (if errs = [] then None else Some (Join errs))"

section \<open>Entries\<close>

datatype path_kind = KUnknown | KFile | KDir | KSymlink | KOther

definition path_kind_String :: "path_kind \<Rightarrow> string" where
  "path_kind_String k = (case k of KFile \<Rightarrow> ''file'' | KDir \<Rightarrow> ''dir'' | KSymlink \<Rightarrow> ''symlink'' | KOther \<Rightarrow> ''other'' | KUnknown \<Rightarrow> ''unknown'')"

text \<open>The type bits of a mode; \<open>TOther\<close> carries the bits of devices, pipes and sockets. \<open>fi_ModeBits\<close> are the
  setuid, setgid and sticky bits.\<close>

datatype file_type = TRegular | TDir | TSymlink | TOther nat

record file_info =
  fi_Type :: file_type
  fi_Perm :: nat
  fi_ModeBits :: nat
  fi_Size :: int
  fi_ModTime :: int
  fi_Inode :: "(nat \<times> nat) option"

definition PathKindOf :: "file_info \<Rightarrow> path_kind" where
  "PathKindOf info = (case fi_Type info of TDir \<Rightarrow> KDir | TRegular \<Rightarrow> KFile | TSymlink \<Rightarrow> KSymlink | TOther n \<Rightarrow> KOther)"

abbreviation IsDir :: "file_info \<Rightarrow> bool" where "IsDir info \<equiv> fi_Type info = TDir"

record exclusive_path =
  ep_Path :: string
  ep_Kind :: path_kind
  ep_Info :: file_info
  ep_Collapsed :: bool

record common_path =
  cp_Path :: string
  cp_Kind :: path_kind
  cp_LowerInfo :: "file_info option"
  cp_UpperInfo :: "file_info option"
  cp_HashEqual :: "bool option"

definition IsContentEqual :: "common_path \<Rightarrow> bool \<times> bool" where
  "IsContentEqual c = (case cp_HashEqual c of None \<Rightarrow> (False, False) | Some eq \<Rightarrow> (eq, True))"

definition TypeMismatch :: "common_path \<Rightarrow> bool" where
  "TypeMismatch c = (case (cp_LowerInfo c, cp_UpperInfo c) of (Some l, Some u) \<Rightarrow> fi_Type l \<noteq> fi_Type u | _ \<Rightarrow> False)"

section \<open>Filters\<close>

record path_filter =
  fl_Include :: "string \<Rightarrow> bool \<Rightarrow> bool"
  fl_RequiredPaths :: "string list"

definition NoopFilter :: path_filter where
  "NoopFilter = \<lparr>fl_Include = (\<lambda>_ _. True), fl_RequiredPaths = []\<rparr>"

text \<open>
  A matcher of \<open>github.com/moby/patternmatcher\<close> is its function \<open>MatchesOrParentMatches\<close>, which may fail;
  \<open>pm_New\<close> is the library's constructor.
\<close>

type_synonym pattern_matcher = "string \<Rightarrow> string + bool"

record pattern_filter =
  pf_includePatterns :: "string list"
  pf_excludePatterns :: "string list"
  pf_requiredPaths :: "string list"
  pf_includeMatcher :: "pattern_matcher option"
  pf_excludeMatcher :: "pattern_matcher option"

definition NewPatternFilter :: "(string list \<Rightarrow> string + pattern_matcher) \<Rightarrow> string list \<Rightarrow> string list \<Rightarrow> string list \<Rightarrow> string + pattern_filter" where
  "NewPatternFilter pm_New inc exc req =
     (let f = \<lparr>pf_includePatterns = inc, pf_excludePatterns = exc, pf_requiredPaths = req, pf_includeMatcher = None, pf_excludeMatcher = None\<rparr>;
          r1 = (if inc \<noteq> [] then (case pm_New inc of Inl e \<Rightarrow> Inl (''filter: invalid include patterns: '' @ e)
                  | Inr m \<Rightarrow> Inr (f\<lparr>pf_includeMatcher := Some m\<rparr>)) else Inr f)
      in case r1 of
           Inl e \<Rightarrow> Inl e
         | Inr f1 \<Rightarrow> (if exc \<noteq> [] then (case pm_New exc of Inl e \<Rightarrow> Inl (''filter: invalid exclude patterns: '' @ e)
                  | Inr m \<Rightarrow> Inr (f1\<lparr>pf_excludeMatcher := Some m\<rparr>)) else Inr f1))"

definition ContainsAny :: "string \<Rightarrow> string \<Rightarrow> bool" where
  "ContainsAny s cs \<longleftrightarrow> (\<exists>c \<in> set s. c \<in> set cs)"

definition couldHaveMatchingDescendant :: "pattern_filter \<Rightarrow> string \<Rightarrow> bool" where
  "couldHaveMatchingDescendant f dirPath =
     list_ex (\<lambda>raw. let pat = TrimPrefix raw ''!'' in HasPrefix pat (dirPath @ ''/'') \<or> ContainsAny pat ''*?['') (pf_includePatterns f)"

definition pf_Include :: "pattern_filter \<Rightarrow> string \<Rightarrow> bool \<Rightarrow> bool" where
  "pf_Include f relPath isDir =
     (if (case pf_excludeMatcher f of Some m \<Rightarrow> m relPath = Inr True | None \<Rightarrow> False) then False
      else (case pf_includeMatcher f of
              None \<Rightarrow> True
            | Some m \<Rightarrow> (if m relPath = Inr True then True else isDir \<and> couldHaveMatchingDescendant f relPath)))"

definition pf_filter :: "pattern_filter \<Rightarrow> path_filter" where
  "pf_filter f = \<lparr>fl_Include = pf_Include f, fl_RequiredPaths = pf_requiredPaths f\<rparr>"

section \<open>The pruning set\<close>

definition isPathUnder :: "string \<Rightarrow> string \<Rightarrow> bool" where
  "isPathUnder child parent \<longleftrightarrow> child = parent \<or> HasPrefix child (parent @ ''/'')"

type_synonym pruning_set = "exclusive_path list"

definition ps_Add :: "exclusive_path \<Rightarrow> pruning_set \<Rightarrow> bool \<times> pruning_set" where
  "ps_Add ep es =
     (if list_ex (\<lambda>e. ep_Collapsed e \<and> isPathUnder (ep_Path ep) (ep_Path e)) es then (False, es)
      else if ep_Collapsed ep then (True, filter (\<lambda>e. \<not> isPathUnder (ep_Path e) (ep_Path ep)) es @ [ep])
      else (True, es @ [ep]))"

definition ps_Len :: "pruning_set \<Rightarrow> nat" where "ps_Len es = length es"

definition ps_Covered :: "string \<Rightarrow> pruning_set \<Rightarrow> bool" where
  "ps_Covered path es = list_ex (\<lambda>e. ep_Collapsed e \<and> isPathUnder path (ep_Path e)) es"

definition ps_Entries :: "pruning_set \<Rightarrow> exclusive_path list" where "ps_Entries es = es"

definition ps_ForEach :: "(exclusive_path \<Rightarrow> 's \<Rightarrow> 's) \<Rightarrow> pruning_set \<Rightarrow> 's \<Rightarrow> 's" where
  "ps_ForEach fn es s = fold fn (ps_Entries es) s"

definition ps_Drain :: "(exclusive_path \<Rightarrow> 's \<Rightarrow> 's) \<Rightarrow> pruning_set \<Rightarrow> 's \<Rightarrow> 's \<times> pruning_set" where
  "ps_Drain fn es s = (fold fn es s, [])"

definition ps_Reset :: "pruning_set \<Rightarrow> pruning_set" where "ps_Reset es = []"

section \<open>Paths under a path\<close>

lemma isPathUnder_refl [simp]: "isPathUnder p p"
  by (simp add: isPathUnder_def)

lemma isPathUnder_iff: "isPathUnder c p \<longleftrightarrow> c = p \<or> (\<exists>t. c = p @ ''/'' @ t)"
  by (auto simp: isPathUnder_def HasPrefix_iff)

lemma isPathUnder_trans: "isPathUnder a b \<Longrightarrow> isPathUnder b c \<Longrightarrow> isPathUnder a c"
  unfolding isPathUnder_iff by auto

lemma isPathUnder_rel_path:
  assumes "\<forall>n \<in> set (ns @ ms). plain_name n" "ns \<noteq> []" "ms \<noteq> []"
  shows "isPathUnder (rel_path ns) (rel_path ms) \<longleftrightarrow> (\<exists>ts. ns = ms @ ts)"
proof
  assume "isPathUnder (rel_path ns) (rel_path ms)"
  then consider "rel_path ns = rel_path ms" | t where "rel_path ns = rel_path ms @ ''/'' @ t" unfolding isPathUnder_iff by blast
  then show "\<exists>ts. ns = ms @ ts"
  proof cases
    case 1
    then have "split_on CHR ''/'' (rel_path ns) = split_on CHR ''/'' (rel_path ms)" by simp
    then show ?thesis using assms split_rel_path [of ns] split_rel_path [of ms] by simp
  next
    case (2 t)
    have "ns = split_on CHR ''/'' (rel_path ns)" using assms split_rel_path [of ns] by simp
    also have "\<dots> = split_on CHR ''/'' (rel_path ms) @ split_on CHR ''/'' t" unfolding 2 by (simp add: split_on_append)
    also have "split_on CHR ''/'' (rel_path ms) = ms" using assms split_rel_path [of ms] by simp
    finally show ?thesis by blast
  qed
next
  assume "\<exists>ts. ns = ms @ ts"
  then obtain ts where "ns = ms @ ts" by blast
  then show "isPathUnder (rel_path ns) (rel_path ms)" using assms by (cases "ts = []") (auto simp: isPathUnder_iff rel_path_append)
qed

section \<open>What a pruning set removes\<close>

definition entry_removes :: "exclusive_path \<Rightarrow> string \<Rightarrow> bool" where
  "entry_removes e p \<longleftrightarrow> (if ep_Collapsed e then isPathUnder p (ep_Path e) else p = ep_Path e)"

definition set_removes :: "exclusive_path list \<Rightarrow> string \<Rightarrow> bool" where
  "set_removes es p \<longleftrightarrow> (\<exists>e \<in> set es. entry_removes e p)"

text \<open>No collapsed entry covers another entry: of two entries at different places neither covers the other.\<close>

definition covers :: "exclusive_path \<Rightarrow> exclusive_path \<Rightarrow> bool" where
  "covers e d \<longleftrightarrow> ep_Collapsed e \<and> isPathUnder (ep_Path d) (ep_Path e)"

definition pruned :: "pruning_set \<Rightarrow> bool" where
  "pruned es \<longleftrightarrow> sorted_wrt (\<lambda>d e. \<not> covers d e \<and> \<not> covers e d) es"

lemma ps_Add_pruned: "pruned es \<Longrightarrow> pruned (snd (ps_Add ep es))"
  by (auto simp: ps_Add_def pruned_def covers_def sorted_wrt_append sorted_wrt_filter list_ex_iff)

lemma ps_Add_removes: "set_removes (snd (ps_Add ep es)) p \<longleftrightarrow> entry_removes ep p \<or> set_removes es p"
  by (auto simp: ps_Add_def set_removes_def entry_removes_def list_ex_iff split: if_splits intro: isPathUnder_trans)

text \<open>The pruning set is a minimal plan for the same removals. Whatever entries are added and in whatever order, the set
  removes exactly the paths that the entries together remove; no collapsed entry of the set covers another one; an
  entry is refused exactly when a collapsed entry covers it; and draining visits the entries of the set and leaves it
  empty.\<close>

theorem PruningSet_removes_what_was_added:
  "let es = fold (\<lambda>ep es. snd (ps_Add ep es)) eps [] in
    pruned es \<and> (\<forall>p. set_removes es p \<longleftrightarrow> set_removes eps p) \<and> set es \<subseteq> set eps
    \<and> (\<forall>ep. fst (ps_Add ep es) \<longleftrightarrow> \<not> ps_Covered (ep_Path ep) es)
    \<and> ps_Drain (\<lambda>e visited. visited @ [e]) es [] = (es, [])"
proof -
  let ?es = "fold (\<lambda>ep es. snd (ps_Add ep es)) eps []"
  have "pruned ?es \<and> (\<forall>p. set_removes ?es p \<longleftrightarrow> set_removes eps p) \<and> set ?es \<subseteq> set eps"
  proof (induction eps rule: rev_induct)
    case Nil
    then show ?case by (simp add: pruned_def set_removes_def)
  next
    case (snoc ep eps)
    let ?fs = "fold (\<lambda>ep es. snd (ps_Add ep es)) eps []"
    have "set (snd (ps_Add ep ?fs)) \<subseteq> insert ep (set ?fs)" by (auto simp: ps_Add_def)
    then show ?case using snoc ps_Add_pruned [of ?fs ep] ps_Add_removes [of ep ?fs] by (auto simp: set_removes_def [of "_ @ _"] set_removes_def [of eps])
  qed
  moreover have "fold (\<lambda>e visited. visited @ [e]) xs ys = ys @ xs" for xs ys :: "exclusive_path list" by (induction xs arbitrary: ys) auto
  ultimately show ?thesis by (simp add: Let_def ps_Drain_def ps_Add_def ps_Covered_def)
qed

end
