(* ===== verification/Ds_Walk.thy ===== *)
theory Ds_Walk
  imports Ds_Core
begin

text \<open>
  The merge walk over two directory trees (\<open>walker.go\<close>) and the classifier that runs it
  (\<open>classifier.go\<close>). The file system is a record of the calls the code makes; \<open>fs_SecureJoin\<close> is
  \<open>SecureJoin\<close> of \<open>github.com/cyphar/filepath-securejoin\<close>, a library call. Paths are relative to a
  root and joined by slashes. A walk descends a directory tree whose depth the code does not
  bound (with \<open>followSymlinks\<close> it may be infinite): the recursion takes fuel, the number of directory
  levels it may still descend, and ends with \<open>OutOfFuel\<close> without it. \<open>walkBoth_events\<close> shows that the
  depth of the lower tree is enough.
\<close>

section \<open>The file system\<close>

record dir_entry =
  de_Name :: string
  de_Type :: file_type
  de_Info :: "ds_error + file_info"

record walk_fs =
  fs_SecureJoin :: "string \<Rightarrow> string \<Rightarrow> ds_error + string"
  fs_ReadDir :: "string \<Rightarrow> ds_error + dir_entry list"
  fs_Stat :: "string \<Rightarrow> ds_error + file_info"
  fs_Lstat :: "string \<Rightarrow> ds_error + file_info"

text \<open>A symlink whose target can be stat-checked is replaced by its target.\<close>

definition resolveEntry :: "walk_fs \<Rightarrow> string \<Rightarrow> dir_entry \<Rightarrow> dir_entry" where
  "resolveEntry F dirPath e =
     (if de_Type e \<noteq> TSymlink then e
      else case fs_Stat F (filepath_Join [dirPath, de_Name e]) of
        Inl err \<Rightarrow> e
      | Inr info \<Rightarrow> e\<lparr>de_Type := fi_Type info, de_Info := Inr info\<rparr>)"

definition readDirResolved :: "walk_fs \<Rightarrow> string \<Rightarrow> bool \<Rightarrow> ds_error + dir_entry list" where
  "readDirResolved F dirPath followSymlinks =
     (case fs_ReadDir F dirPath of
        Inl err \<Rightarrow> Inl err
      | Inr entries \<Rightarrow> Inr (if \<not> followSymlinks then entries else map (resolveEntry F dirPath) entries))"

section \<open>Callbacks\<close>

text \<open>The callbacks and the context read and change a state; a callback may be \<open>nil\<close>.\<close>

type_synonym 's outcome = "ds_error option \<times> 's"

record 's walk_fn =
  wf_ctxErr :: "'s \<Rightarrow> 's outcome"
  wf_OnExclusive :: "(exclusive_path \<Rightarrow> 's \<Rightarrow> 's outcome) option"
  wf_OnCommon :: "(common_path \<Rightarrow> 's \<Rightarrow> 's outcome) option"

definition and_then :: "'s outcome \<Rightarrow> ('s \<Rightarrow> 's outcome) \<Rightarrow> 's outcome" where
  "and_then r k = (case r of (Some err, s) \<Rightarrow> (Some err, s) | (None, s) \<Rightarrow> k s)"

definition callExclusive :: "'s walk_fn \<Rightarrow> exclusive_path \<Rightarrow> 's \<Rightarrow> 's outcome" where
  "callExclusive fn ep s = (case wf_OnExclusive fn of Some f \<Rightarrow> f ep s | None \<Rightarrow> (None, s))"

definition callCommon :: "'s walk_fn \<Rightarrow> common_path \<Rightarrow> 's \<Rightarrow> 's outcome" where
  "callCommon fn cp s = (case wf_OnCommon fn of Some f \<Rightarrow> f cp s | None \<Rightarrow> (None, s))"

definition joinRelPath :: "string \<Rightarrow> string \<Rightarrow> string" where
  "joinRelPath relDir name = (if relDir = '''' then name else relDir @ ''/'' @ name)"

section \<open>The walk\<close>

text \<open>The arguments that every call passes on.\<close>

record 's walk =
  wk_fs :: walk_fs
  wk_lowerRoot :: string
  wk_upperRoot :: string
  wk_filter :: path_filter
  wk_followSymlinks :: bool
  wk_fn :: "'s walk_fn"

fun emitAll :: "'s walk \<Rightarrow> (dir_entry \<Rightarrow> 's \<Rightarrow> 's outcome) \<Rightarrow> dir_entry list \<Rightarrow> 's \<Rightarrow> 's outcome" where
  "emitAll W emit [] s = (None, s)"
| "emitAll W emit (e # es) s =
     and_then (wf_ctxErr (wk_fn W) s) (\<lambda>s. and_then (emit e s) (emitAll W emit es))"

text \<open>One lower-only entry; \<open>descend\<close> handles the entries of a directory that is not collapsed.\<close>

definition emitExclusive_step :: "'s walk \<Rightarrow> (string \<Rightarrow> string \<Rightarrow> dir_entry list \<Rightarrow> 's \<Rightarrow> 's outcome) \<Rightarrow> string \<Rightarrow> string \<Rightarrow> dir_entry \<Rightarrow> 's \<Rightarrow> 's outcome" where
  "emitExclusive_step W descend lowerDirAbs relDir entry s =
     and_then (wf_ctxErr (wk_fn W) s) (\<lambda>s.
       let relPath = joinRelPath relDir (de_Name entry) in
       case de_Info entry of
         Inl err \<Rightarrow> (Some (Wrap [''walker: stat exclusive'', filepath_Join [lowerDirAbs, de_Name entry]] err), s)
       | Inr info \<Rightarrow>
           (if \<not> fl_Include (wk_filter W) relPath (IsDir info) then (None, s)
            else if IsDir info then
              (if fl_Include (wk_filter W) relPath False
               then callExclusive (wk_fn W) \<lparr>ep_Path = relPath, ep_Kind = KDir, ep_Info = info, ep_Collapsed = True\<rparr> s
               else case fs_SecureJoin (wk_fs W) (wk_lowerRoot W) relPath of
                      Inl err \<Rightarrow> (Some (Wrap [''walker: secure join exclusive'', relPath] err), s)
                    | Inr subAbs \<Rightarrow>
                        (case readDirResolved (wk_fs W) subAbs (wk_followSymlinks W) of
                           Inl err \<Rightarrow> (Some (Wrap [''walker: read exclusive dir'', relPath] err), s)
                         | Inr subEntries \<Rightarrow> descend subAbs relPath subEntries s))
            else callExclusive (wk_fn W) \<lparr>ep_Path = relPath, ep_Kind = PathKindOf info, ep_Info = info, ep_Collapsed = False\<rparr> s))"

primrec emitExclusive :: "nat \<Rightarrow> 's walk \<Rightarrow> string \<Rightarrow> string \<Rightarrow> dir_entry \<Rightarrow> 's \<Rightarrow> 's outcome" where
  "emitExclusive 0 W = emitExclusive_step W (\<lambda>_ _ _ s. (Some OutOfFuel, s))"
| "emitExclusive (Suc n) W = emitExclusive_step W (\<lambda>dir rel. emitAll W (emitExclusive n W dir rel))"

definition emitAllExclusive :: "nat \<Rightarrow> 's walk \<Rightarrow> string \<Rightarrow> string \<Rightarrow> dir_entry list \<Rightarrow> 's \<Rightarrow> 's outcome" where
  "emitAllExclusive n W lowerDirAbs relDir entries = emitAll W (emitExclusive n W lowerDirAbs relDir) entries"

text \<open>An entry of both trees; \<open>walk\<close> is the walk of a common directory.\<close>

definition handleCommonEntry :: "'s walk \<Rightarrow> (string \<Rightarrow> 's \<Rightarrow> 's outcome) \<Rightarrow> string \<Rightarrow> file_info \<Rightarrow> file_info \<Rightarrow> 's \<Rightarrow> 's outcome" where
  "handleCommonEntry W walk relPath lInfo uInfo s =
     (if IsDir lInfo \<and> IsDir uInfo then walk relPath s
      else if IsDir lInfo \<and> \<not> IsDir uInfo then
        and_then (callCommon (wk_fn W) \<lparr>cp_Path = relPath, cp_Kind = KDir, cp_LowerInfo = Some lInfo, cp_UpperInfo = Some uInfo, cp_HashEqual = None\<rparr> s)
          (callExclusive (wk_fn W) \<lparr>ep_Path = relPath, ep_Kind = KDir, ep_Info = lInfo, ep_Collapsed = True\<rparr>)
      else callCommon (wk_fn W) \<lparr>cp_Path = relPath, cp_Kind = PathKindOf lInfo, cp_LowerInfo = Some lInfo, cp_UpperInfo = Some uInfo, cp_HashEqual = None\<rparr> s)"

definition commonEntry :: "'s walk \<Rightarrow> (string \<Rightarrow> 's \<Rightarrow> 's outcome) \<Rightarrow> string \<Rightarrow> dir_entry \<Rightarrow> dir_entry \<Rightarrow> 's \<Rightarrow> 's outcome" where
  "commonEntry W walk relDir le ue s =
     (let relPath = joinRelPath relDir (de_Name le) in
      case de_Info le of
        Inl err \<Rightarrow> (Some (Wrap [''walker: stat lower'', relPath] err), s)
      | Inr lInfo \<Rightarrow>
          (case de_Info ue of
             Inl err \<Rightarrow> (Some (Wrap [''walker: stat upper'', relPath] err), s)
           | Inr uInfo \<Rightarrow>
               (if fl_Include (wk_filter W) relPath (IsDir lInfo) then handleCommonEntry W walk relPath lInfo uInfo s else (None, s))))"

text \<open>The two-pointer merge and the loop that drains the remaining lower entries.\<close>

fun merge :: "'s walk \<Rightarrow> (dir_entry \<Rightarrow> 's \<Rightarrow> 's outcome) \<Rightarrow> (dir_entry \<Rightarrow> dir_entry \<Rightarrow> 's \<Rightarrow> 's outcome)
    \<Rightarrow> dir_entry list \<Rightarrow> dir_entry list \<Rightarrow> 's \<Rightarrow> 's outcome" where
  "merge W onLower onBoth [] us s = (None, s)"
| "merge W onLower onBoth (l # ls) [] s =
     and_then (wf_ctxErr (wk_fn W) s) (\<lambda>s. and_then (onLower l s) (merge W onLower onBoth ls []))"
| "merge W onLower onBoth (l # ls) (u # us) s =
     and_then (wf_ctxErr (wk_fn W) s) (\<lambda>s.
       if de_Name l < de_Name u then and_then (onLower l s) (merge W onLower onBoth ls (u # us))
       else if de_Name u < de_Name l then merge W onLower onBoth (l # ls) us s
       else and_then (onBoth l u s) (merge W onLower onBoth ls us))"

definition walkBoth_step :: "nat \<Rightarrow> 's walk \<Rightarrow> (string \<Rightarrow> 's \<Rightarrow> 's outcome) \<Rightarrow> string \<Rightarrow> 's \<Rightarrow> 's outcome" where
  "walkBoth_step n W walk relDir s =
     and_then (wf_ctxErr (wk_fn W) s) (\<lambda>s.
       case fs_SecureJoin (wk_fs W) (wk_lowerRoot W) relDir of
         Inl err \<Rightarrow> (Some (Wrap [''walker: secure join lower'', wk_lowerRoot W, relDir] err), s)
       | Inr lowerDir \<Rightarrow>
           (case fs_SecureJoin (wk_fs W) (wk_upperRoot W) relDir of
              Inl err \<Rightarrow> (Some (Wrap [''walker: secure join upper'', wk_upperRoot W, relDir] err), s)
            | Inr upperDir \<Rightarrow>
                (case readDirResolved (wk_fs W) lowerDir (wk_followSymlinks W) of
                   Inl err \<Rightarrow> (Some (Wrap [''walker: read lower'', lowerDir] err), s)
                 | Inr lowerEntries \<Rightarrow>
                     (case readDirResolved (wk_fs W) upperDir (wk_followSymlinks W) of
                        Inl err \<Rightarrow>
                          (if is_not_exist err then emitAllExclusive n W lowerDir relDir lowerEntries s
                           else (Some (Wrap [''walker: read upper'', upperDir] err), s))
                      | Inr upperEntries \<Rightarrow>
                          merge W (emitExclusive n W lowerDir relDir) (commonEntry W walk relDir) lowerEntries upperEntries s))))"

primrec walkBoth :: "nat \<Rightarrow> 's walk \<Rightarrow> string \<Rightarrow> 's \<Rightarrow> 's outcome" where
  "walkBoth 0 W = walkBoth_step 0 W (\<lambda>_ s. (Some OutOfFuel, s))"
| "walkBoth (Suc n) W = walkBoth_step (Suc n) W (walkBoth n W)"

section \<open>The classifier\<close>

record classifier_config =
  cc_followSymlinks :: bool
  cc_includePatterns :: "string list"
  cc_excludePatterns :: "string list"
  cc_requiredPaths :: "string list"
  cc_exclusiveBufSz :: int
  cc_commonBufSz :: int

type_synonym classifier_option = "classifier_config \<Rightarrow> classifier_config"

definition defaultClassifierConfig :: classifier_config where
  "defaultClassifierConfig = \<lparr>cc_followSymlinks = False, cc_includePatterns = [], cc_excludePatterns = [], cc_requiredPaths = [],
     cc_exclusiveBufSz = 512, cc_commonBufSz = 512\<rparr>"

definition WithFollowSymlinks :: "bool \<Rightarrow> classifier_option" where
  "WithFollowSymlinks enabled c = c\<lparr>cc_followSymlinks := enabled\<rparr>"

definition WithAllowWildcards :: "bool \<Rightarrow> classifier_option" where
  "WithAllowWildcards enabled c = c"

definition WithIncludePatterns :: "string list \<Rightarrow> classifier_option" where
  "WithIncludePatterns patterns c = c\<lparr>cc_includePatterns := cc_includePatterns c @ patterns\<rparr>"

definition WithExcludePatterns :: "string list \<Rightarrow> classifier_option" where
  "WithExcludePatterns patterns c = c\<lparr>cc_excludePatterns := cc_excludePatterns c @ patterns\<rparr>"

definition WithRequiredPaths :: "string list \<Rightarrow> classifier_option" where
  "WithRequiredPaths paths c = c\<lparr>cc_requiredPaths := cc_requiredPaths c @ paths\<rparr>"

definition WithExclusiveBufferSize :: "int \<Rightarrow> classifier_option" where
  "WithExclusiveBufferSize n c = (if n > 0 then c\<lparr>cc_exclusiveBufSz := n\<rparr> else c)"

definition WithCommonBufferSize :: "int \<Rightarrow> classifier_option" where
  "WithCommonBufferSize n c = (if n > 0 then c\<lparr>cc_commonBufSz := n\<rparr> else c)"

text \<open>Invalid patterns make \<open>buildFilter\<close> panic: \<open>Inl\<close> is the panic.\<close>

definition buildFilter :: "(string list \<Rightarrow> string + pattern_matcher) \<Rightarrow> classifier_config \<Rightarrow> string + path_filter" where
  "buildFilter pm_New cfg =
     (if cc_includePatterns cfg = [] \<and> cc_excludePatterns cfg = [] \<and> cc_requiredPaths cfg = [] then Inr NoopFilter
      else case NewPatternFilter pm_New (cc_includePatterns cfg) (cc_excludePatterns cfg) (cc_requiredPaths cfg) of
             Inl e \<Rightarrow> Inl (''dirsync: invalid filter patterns: '' @ e)
           | Inr pf \<Rightarrow> Inr (pf_filter pf))"

record classifier =
  cl_lowerRoot :: string
  cl_upperRoot :: string
  cl_cfg :: classifier_config
  cl_filter :: path_filter

definition NewClassifier :: "(string list \<Rightarrow> string + pattern_matcher) \<Rightarrow> string \<Rightarrow> string \<Rightarrow> classifier_option list \<Rightarrow> string + classifier" where
  "NewClassifier pm_New lowerRoot upperRoot opts =
     (let cfg = fold (\<lambda>opt. opt) opts defaultClassifierConfig in
      case buildFilter pm_New cfg of
        Inl e \<Rightarrow> Inl e
      | Inr f \<Rightarrow> Inr \<lparr>cl_lowerRoot = Clean lowerRoot, cl_upperRoot = Clean upperRoot, cl_cfg = cfg, cl_filter = f\<rparr>)"

definition WithFilter :: "path_filter \<Rightarrow> classifier \<Rightarrow> classifier" where
  "WithFilter f c = c\<lparr>cl_filter := f\<rparr>"

fun validateRequired :: "walk_fs \<Rightarrow> string \<Rightarrow> string list \<Rightarrow> ds_error option" where
  "validateRequired F lowerRoot [] = None"
| "validateRequired F lowerRoot (rel # rels) =
     (case fs_Lstat F (filepath_Join [lowerRoot, rel]) of
        Inr info \<Rightarrow> validateRequired F lowerRoot rels
      | Inl err \<Rightarrow>
          Some (if is_not_exist err then RequiredPath rel lowerRoot else Wrap [''classifier: stat required path'', rel] err))"

definition validateRequiredPaths :: "walk_fs \<Rightarrow> classifier \<Rightarrow> ds_error option" where
  "validateRequiredPaths F c = validateRequired F (cl_lowerRoot c) (fl_RequiredPaths (cl_filter c))"

text \<open>What the classifier's goroutine puts on its three channels, in order; \<open>fn\<close> is the pair of sends that give up
  when the context ends.\<close>

definition Classify :: "nat \<Rightarrow> walk_fs \<Rightarrow> classifier \<Rightarrow> 's walk_fn \<Rightarrow> 's \<Rightarrow> ds_error list \<times> 's" where
  "Classify fuel F c fn s =
     (case validateRequiredPaths F c of
        Some err \<Rightarrow> ([err], s)
      | None \<Rightarrow>
          (case walkBoth fuel \<lparr>wk_fs = F, wk_lowerRoot = cl_lowerRoot c, wk_upperRoot = cl_upperRoot c, wk_filter = cl_filter c,
                          wk_followSymlinks = cc_followSymlinks (cl_cfg c), wk_fn = fn\<rparr> '''' s of
             (None, s') \<Rightarrow> ([], s')
           | (Some err, s') \<Rightarrow> (if isContextErr err then [] else [err], s')))"

end
