(* ===== verification/Ds_Spec.thy ===== *)
theory Ds_Spec
  imports Ds_Walk
begin

text \<open>
  The specification of the merge walk. A directory tree is a datatype; \<open>shows_tree\<close> says that a file
  system shows it below a root. \<open>diff_events\<close> is the classification written as a recursion on the lower
  tree with a lookup in the upper one, without the two pointers, the callbacks and the file system;
  \<open>walkBoth_events\<close> proves that the walk produces exactly these events, and the rest of the theory what
  they mean for the paths of the two trees.
\<close>

section \<open>Directory trees\<close>

datatype ds_tree = Leaf file_info | Node file_info "(string \<times> ds_tree) list"

primrec tree_info :: "ds_tree \<Rightarrow> file_info" where
  "tree_info (Leaf i) = i"
| "tree_info (Node i kids) = i"

fun tree_kids :: "ds_tree \<Rightarrow> (string \<times> ds_tree) list" where
  "tree_kids (Leaf i) = []"
| "tree_kids (Node i kids) = kids"

lemma kid_size: "(n, t) \<in> set kids \<Longrightarrow> size t < size_list (size_prod (\<lambda>_. 0) size) kids"
  by (induction kids) auto

fun tree_depth :: "ds_tree \<Rightarrow> nat" where
  "tree_depth (Leaf i) = 0"
| "tree_depth (Node i kids) = Suc (fold (\<lambda>k d. max (tree_depth (snd k)) d) kids 0)"

text \<open>Directories list their entries in increasing order of their names; names hold no slash and are not
  empty, dot or dot-dot.\<close>

fun wf_tree :: "ds_tree \<Rightarrow> bool" where
  "wf_tree (Leaf i) \<longleftrightarrow> fi_Type i \<noteq> TDir"
| "wf_tree (Node i kids) \<longleftrightarrow> fi_Type i = TDir \<and> sorted_wrt (<) (map fst kids) \<and> (\<forall>k \<in> set kids. plain_name (fst k) \<and> wf_tree (snd k))"

fun subtree :: "ds_tree \<Rightarrow> string list \<Rightarrow> ds_tree option" where
  "subtree t [] = Some t"
| "subtree t (n # ns) = (case map_of (tree_kids t) n of None \<Rightarrow> None | Some k \<Rightarrow> subtree k ns)"

definition is_node :: "ds_tree \<Rightarrow> bool" where
  "is_node t \<longleftrightarrow> fi_Type (tree_info t) = TDir"

lemma wf_is_node [simp]: "wf_tree t \<Longrightarrow> is_node t \<longleftrightarrow> (\<exists>i kids. t = Node i kids)"
  by (cases t) (auto simp: is_node_def)

lemma subtree_append: "subtree t (ns @ ms) = (case subtree t ns of None \<Rightarrow> None | Some u \<Rightarrow> subtree u ms)"
  by (induction ns arbitrary: t) (auto split: option.splits)

lemma wf_subtree: "wf_tree t \<Longrightarrow> subtree t ns = Some u \<Longrightarrow> wf_tree u \<and> (\<forall>n \<in> set ns. plain_name n)"
proof (induction ns arbitrary: t)
  case (Cons n ns)
  then obtain k where k: "map_of (tree_kids t) n = Some k" "subtree k ns = Some u" by (auto split: option.splits)
  then have "(n, k) \<in> set (tree_kids t)" by (simp add: map_of_SomeD)
  then have "plain_name n" "wf_tree k" using Cons.prems(1) by (cases t; fastforce)+
  then show ?case using Cons.IH [OF _ k(2)] by simp
qed simp

definition entry_of :: "string \<times> ds_tree \<Rightarrow> dir_entry" where
  "entry_of k = \<lparr>de_Name = fst k, de_Type = fi_Type (tree_info (snd k)), de_Info = Inr (tree_info (snd k))\<rparr>"

text \<open>The file system shows the tree below the root: each of its directories can be joined to the root and read. Nothing is
  said of the other paths. For the empty tree the root does not exist.\<close>

definition shows_tree :: "walk_fs \<Rightarrow> string \<Rightarrow> ds_tree option \<Rightarrow> bool" where
  "shows_tree F root t \<longleftrightarrow>
     (case t of
        None \<Rightarrow> \<exists>path. fs_SecureJoin F root '''' = Inr path \<and> fs_ReadDir F path = Inl NotExist
      | Some u \<Rightarrow> \<forall>ns i kids. (\<forall>n \<in> set ns. plain_name n) \<and> subtree u ns = Some (Node i kids) \<longrightarrow>
          (\<exists>path. fs_SecureJoin F root (rel_path ns) = Inr path \<and> fs_ReadDir F path = Inr (map entry_of kids)))"
section \<open>The classification\<close>

datatype walk_event = Exclusive exclusive_path | Common common_path

definition excl_leaf :: "string list \<Rightarrow> file_info \<Rightarrow> walk_event" where
  "excl_leaf ns i = Exclusive \<lparr>ep_Path = rel_path ns, ep_Kind = PathKindOf i, ep_Info = i, ep_Collapsed = False\<rparr>"

definition excl_dir :: "string list \<Rightarrow> file_info \<Rightarrow> walk_event" where
  "excl_dir ns i = Exclusive \<lparr>ep_Path = rel_path ns, ep_Kind = KDir, ep_Info = i, ep_Collapsed = True\<rparr>"

definition common_event :: "string list \<Rightarrow> path_kind \<Rightarrow> file_info \<Rightarrow> file_info \<Rightarrow> walk_event" where
  "common_event ns k li ui = Common \<lparr>cp_Path = rel_path ns, cp_Kind = k, cp_LowerInfo = Some li, cp_UpperInfo = Some ui, cp_HashEqual = None\<rparr>"

function excl_events :: "path_filter \<Rightarrow> string list \<Rightarrow> ds_tree \<Rightarrow> walk_event list" where
  "excl_events f ns (Leaf i) = (if fl_Include f (rel_path ns) False then [excl_leaf ns i] else [])"
| "excl_events f ns (Node i kids) =
     (if \<not> fl_Include f (rel_path ns) True then []
      else if fl_Include f (rel_path ns) False then [excl_dir ns i]
      else concat (map (\<lambda>k. excl_events f (ns @ [fst k]) (snd k)) kids))"
  by pat_completeness auto
termination excl_events
  by (relation "measure (\<lambda>(f, ns, t). size t)") (auto dest: kid_size)

text \<open>An entry of the lower tree, and what the upper tree has in its place.\<close>

function diff_entry :: "path_filter \<Rightarrow> string list \<Rightarrow> ds_tree \<Rightarrow> ds_tree option \<Rightarrow> walk_event list" where
  "diff_entry f ns l None = excl_events f ns l"
| "diff_entry f ns (Leaf li) (Some u) =
     (if fl_Include f (rel_path ns) False then [common_event ns (PathKindOf li) li (tree_info u)] else [])"
| "diff_entry f ns (Node li lkids) (Some (Leaf ui)) =
     (if fl_Include f (rel_path ns) True then [common_event ns KDir li ui, excl_dir ns li] else [])"
| "diff_entry f ns (Node li lkids) (Some (Node ui ukids)) =
     (if fl_Include f (rel_path ns) True
      then concat (map (\<lambda>k. diff_entry f (ns @ [fst k]) (snd k) (map_of ukids (fst k))) lkids) else [])"
  by pat_completeness auto
termination diff_entry
  by (relation "measure (\<lambda>(f, ns, l, u). size l)") (auto dest: kid_size)

definition diff_events :: "path_filter \<Rightarrow> ds_tree \<Rightarrow> ds_tree option \<Rightarrow> walk_event list" where
  "diff_events f l u =
     concat (map (\<lambda>k. diff_entry f [fst k] (snd k) (Option.bind u (\<lambda>t. map_of (tree_kids t) (fst k)))) (tree_kids l))"

section \<open>The walk computes it\<close>

text \<open>Callbacks that append their argument to a list, in a context that never ends.\<close>

definition collector :: "walk_event list walk_fn" where
  "collector = \<lparr>wf_ctxErr = (\<lambda>s. (None, s)), wf_OnExclusive = Some (\<lambda>e s. (None, s @ [Exclusive e])),
     wf_OnCommon = Some (\<lambda>c s. (None, s @ [Common c]))\<rparr>"

definition collecting_walk :: "walk_fs \<Rightarrow> string \<Rightarrow> string \<Rightarrow> path_filter \<Rightarrow> walk_event list walk" where
  "collecting_walk F lowerRoot upperRoot f =
     \<lparr>wk_fs = F, wk_lowerRoot = lowerRoot, wk_upperRoot = upperRoot, wk_filter = f, wk_followSymlinks = False, wk_fn = collector\<rparr>"

lemma and_then_None [simp]: "and_then (None, s) k = k s"
  by (simp add: and_then_def)

lemma collector_simps [simp]:
  "wf_ctxErr collector s = (None, s)" "callExclusive collector e s = (None, s @ [Exclusive e])" "callCommon collector c s = (None, s @ [Common c])"
  by (simp_all add: collector_def callExclusive_def callCommon_def)

lemma walk_fields [simp]:
  "wk_fs (collecting_walk F lr ur f) = F" "wk_lowerRoot (collecting_walk F lr ur f) = lr" "wk_upperRoot (collecting_walk F lr ur f) = ur"
  "wk_filter (collecting_walk F lr ur f) = f" "\<not> wk_followSymlinks (collecting_walk F lr ur f)" "wk_fn (collecting_walk F lr ur f) = collector"
  by (simp_all add: collecting_walk_def)

lemma entry_of_simps [simp]: "de_Name (entry_of k) = fst k" "de_Info (entry_of k) = Inr (tree_info (snd k))"
  by (simp_all add: entry_of_def)

lemma joinRelPath_rel_path: "\<forall>n \<in> set ns. plain_name n \<Longrightarrow> joinRelPath (rel_path ns) n = rel_path (ns @ [n])"
  using rel_path_not_empty [of ns] rel_path_snoc [of ns n] by (cases "ns = []") (simp_all add: joinRelPath_def rel_path_def [of "[]"])

lemma fold_max_bound:
  "d \<le> fold (\<lambda>k d. max (g k) d) ks d \<and> (k \<in> set ks \<longrightarrow> g k \<le> fold (\<lambda>k d. max (g k) d) ks (d :: nat))"
proof (induction ks arbitrary: d)
  case (Cons j ks)
  have "d \<le> max (g j) d" "g j \<le> max (g j) d" by simp_all
  moreover have "max (g j) d \<le> fold (\<lambda>k d. max (g k) d) ks (max (g j) d)" using Cons.IH by blast
  ultimately have "d \<le> fold (\<lambda>k d. max (g k) d) ks (max (g j) d)" "g j \<le> fold (\<lambda>k d. max (g k) d) ks (max (g j) d)" by linarith+
  then show ?case using Cons.IH by auto
qed simp

lemma depth_kid: "(n, t) \<in> set kids \<Longrightarrow> tree_depth t < tree_depth (Node i kids)"
  using fold_max_bound [of 0 "\<lambda>k. tree_depth (snd k)" kids "(n, t)"] by (simp add: less_Suc_eq_le)

lemma depth_entry: "k \<in> set kids \<Longrightarrow> tree_depth (snd k) < tree_depth (Node i kids)"
  using depth_kid [of "fst k" "snd k"] by simp

lemma emitAll_events:
  assumes "\<And>k s. k \<in> set ks \<Longrightarrow> emit (entry_of k) s = (None, s @ g k)" "wk_fn W = collector"
  shows "emitAll W emit (map entry_of ks) s = (None, s @ concat (map g ks))"
  using assms(1) by (induction ks arbitrary: s) (simp_all add: assms(2))

lemma shows_node:
  assumes "shows_tree F root (Some t)" "wf_tree t" "subtree t ns = Some (Node i kids)"
  obtains path where "fs_SecureJoin F root (rel_path ns) = Inr path" "fs_ReadDir F path = Inr (map entry_of kids)"
proof -
  have "\<forall>n \<in> set ns. plain_name n" using wf_subtree [OF assms(2,3)] by blast
  then show ?thesis using that assms(1,3) unfolding shows_tree_def by fastforce
qed
text \<open>Lower-only entries. \<open>t\<close> is the entry at \<open>ns\<close> with the parent \<open>ps\<close>.\<close>

lemma emitExclusive_events:
  assumes "shows_tree F lr (Some l)" "wf_tree l" "subtree l (ps @ [n]) = Some t" "tree_depth t \<le> fuel"
  shows "emitExclusive fuel (collecting_walk F lr ur f) dir (rel_path ps) (entry_of (n, t)) s = (None, s @ excl_events f (ps @ [n]) t)"
  using assms(3,4)
proof (induction t arbitrary: fuel ps n dir s)
  case (Leaf i)
  have j: "joinRelPath (rel_path ps) n = rel_path (ps @ [n])" and w: "fi_Type i \<noteq> TDir"
    using wf_subtree [OF assms(2) Leaf(1)] by (simp_all add: joinRelPath_rel_path)
  then show ?case by (cases fuel) (simp_all add: emitExclusive_step_def Let_def excl_leaf_def)
next
  case (Node i kids)
  let ?W = "collecting_walk F lr ur f" and ?ns = "ps @ [n]"
  have j: "joinRelPath (rel_path ps) n = rel_path ?ns" and w: "fi_Type i = TDir" "wf_tree (Node i kids)"
    using wf_subtree [OF assms(2) Node.prems(1)] by (simp_all add: joinRelPath_rel_path)
  obtain m where fuel: "fuel = Suc m" using Node.prems(2) by (cases fuel) auto
  obtain path where path: "fs_SecureJoin F lr (rel_path ?ns) = Inr path" "fs_ReadDir F path = Inr (map entry_of kids)"
    by (rule shows_node [OF assms(1,2) Node.prems(1)])
  have kid: "emitExclusive m ?W path (rel_path ?ns) (entry_of k) s = (None, s @ excl_events f (?ns @ [fst k]) (snd k))" if "k \<in> set kids" for k s
  proof -
    have k: "(fst k, snd k) \<in> set kids" using that by simp
    have "distinct (map fst kids)" using w(2) strict_sorted_iff by auto
    then have "map_of kids (fst k) = Some (snd k)" using k by simp
    then have "subtree l (?ns @ [fst k]) = Some (snd k)" unfolding subtree_append [of l ?ns] Node.prems(1) by simp
    moreover have "tree_depth (snd k) \<le> m" using depth_kid [OF k, of i] Node.prems(2) fuel by linarith
    ultimately show ?thesis using Node.IH [OF that, of "snd k" ?ns "fst k" m path s] by (cases k) simp
  qed
  have "emitAll ?W (emitExclusive m ?W path (rel_path ?ns)) (map entry_of kids) s
      = (None, s @ concat (map (\<lambda>k. excl_events f (?ns @ [fst k]) (snd k)) kids))"
    by (rule emitAll_events) (simp_all add: kid)
  then show ?case
    using w path by (simp add: fuel emitExclusive_step_def Let_def j readDirResolved_def excl_dir_def)
qed

lemma merge_events:
  assumes "sorted_wrt (<) (map fst lks)" "sorted_wrt (<) (map fst uks)" "wk_fn W = collector"
    and "\<And>k s. k \<in> set lks \<Longrightarrow> map_of uks (fst k) = None \<Longrightarrow> onLower (entry_of k) s = (None, s @ g k)"
    and "\<And>k v s. k \<in> set lks \<Longrightarrow> map_of uks (fst k) = Some v \<Longrightarrow> onBoth (entry_of k) (entry_of (fst k, v)) s = (None, s @ g k)"
  shows "merge W onLower onBoth (map entry_of lks) (map entry_of uks) s = (None, s @ concat (map g lks))"
  using assms(1,2,4,5)
proof (induction lks arbitrary: uks s)
  case (Cons l lks)
  note lower_IH = Cons.IH and lower_prems = Cons.prems
  show ?case using Cons.prems
  proof (induction uks arbitrary: s)
    case Nil
    then show ?case using lower_IH [of "[]" "s @ g l"] by (simp add: assms(3))
  next
    case (Cons u uks)
    have above: "map_of uks n = None" if "n \<le> fst u" for n
      using Cons.prems(2) that by (auto simp: map_of_eq_None_iff)
    consider (lt) "fst l < fst u" | (gt) "fst u < fst l" | (eq) "fst l = fst u" by fastforce
    then show ?case
    proof cases
      case lt
      then have "map_of (u # uks) (fst l) = None" using above [of "fst l"] by (cases u) auto
      then show ?thesis using lt Cons.prems lower_IH [of "u # uks" "s @ g l"] by (simp add: assms(3))
    next
      case gt
      from gt have "map_of (u # uks) (fst k) = map_of uks (fst k)" if "k \<in> set (l # lks)" for k
        using that gt lower_prems(1) by (cases u) (auto dest: less_trans)
      moreover have "\<not> fst l < fst u" using gt by simp
      ultimately show ?thesis using gt Cons.prems Cons.IH [of s] by (simp add: assms(3))
    next
      case eq
      have "map_of (u # uks) (fst k) = map_of uks (fst k)" if "k \<in> set lks" for k
        using that eq lower_prems(1) by (cases u) auto
      then have rest: "merge W onLower onBoth (map entry_of lks) (map entry_of uks) (s @ g l) = (None, (s @ g l) @ concat (map g lks))"
        using Cons.prems by (intro lower_IH) simp_all
      have "map_of (u # uks) (fst l) = Some (snd u)" using eq by (cases u) simp
      then have "onBoth (entry_of l) (entry_of (fst l, snd u)) s = (None, s @ g l)" using Cons.prems(4) by simp
      moreover have "entry_of (fst l, snd u) = entry_of u" using eq by (simp add: entry_of_def)
      ultimately show ?thesis using eq rest by (simp add: assms(3))
    qed
  qed
qed simp

lemma walkBoth_step_events:
  assumes "shows_tree F lr (Some l)" "shows_tree F ur (Some u)" "wf_tree l" "wf_tree u"
    and "subtree l ns = Some (Node li lkids)" "subtree u ns = Some (Node ui ukids)" "tree_depth (Node li lkids) \<le> Suc n"
    and "\<And>k s lk ui' uk. k \<in> set lkids \<Longrightarrow> snd k = Node lk uk \<Longrightarrow> is_node (the (map_of ukids (fst k))) \<Longrightarrow> map_of ukids (fst k) \<noteq> None \<Longrightarrow>
      fl_Include f (rel_path (ns @ [fst k])) True \<Longrightarrow>
      walk (rel_path (ns @ [fst k])) s = (None, s @ diff_entry f (ns @ [fst k]) (snd k) (map_of ukids (fst k)))"
  shows "walkBoth_step n (collecting_walk F lr ur f) walk (rel_path ns) s =
    (None, s @ concat (map (\<lambda>k. diff_entry f (ns @ [fst k]) (snd k) (map_of ukids (fst k))) lkids))"
proof -
  let ?W = "collecting_walk F lr ur f"
  obtain lp where lp: "fs_SecureJoin F lr (rel_path ns) = Inr lp" "fs_ReadDir F lp = Inr (map entry_of lkids)"
    by (rule shows_node [OF assms(1,3,5)])
  obtain up where up: "fs_SecureJoin F ur (rel_path ns) = Inr up" "fs_ReadDir F up = Inr (map entry_of ukids)"
    by (rule shows_node [OF assms(2,4,6)])
  have wl: "wf_tree (Node li lkids)" "\<forall>n \<in> set ns. plain_name n" using wf_subtree [OF assms(3,5)] by auto
  have wu: "wf_tree (Node ui ukids)" using wf_subtree [OF assms(4,6)] by auto
  have sub: "subtree l (ns @ [fst k]) = Some (snd k)" if "k \<in> set lkids" for k
  proof -
    have "distinct (map fst lkids)" using wl(1) strict_sorted_iff by auto
    then have "map_of lkids (fst k) = Some (snd k)" using that by simp
    then show ?thesis unfolding subtree_append [of l ns] assms(5) by simp
  qed
  have "merge ?W (emitExclusive n ?W lp (rel_path ns)) (commonEntry ?W walk (rel_path ns)) (map entry_of lkids) (map entry_of ukids) s
      = (None, s @ concat (map (\<lambda>k. diff_entry f (ns @ [fst k]) (snd k) (map_of ukids (fst k))) lkids))"
  proof (rule merge_events)
    fix k s assume k: "k \<in> set lkids" "map_of ukids (fst k) = None"
    have "tree_depth (snd k) \<le> n" using depth_kid [of "fst k" "snd k" lkids li] k(1) assms(7) by simp
    then show "emitExclusive n ?W lp (rel_path ns) (entry_of k) s = (None, s @ diff_entry f (ns @ [fst k]) (snd k) (map_of ukids (fst k)))"
      using emitExclusive_events [OF assms(1,3) sub [OF k(1)]] k(2) by simp
  next
    fix k v s assume k: "k \<in> set lkids" "map_of ukids (fst k) = Some v"
    have wk: "wf_tree (snd k)" "wf_tree v" using wl(1) wu k by (auto dest!: map_of_SomeD)
    have "joinRelPath (rel_path ns) (fst k) = rel_path (ns @ [fst k])" by (rule joinRelPath_rel_path [OF wl(2)])
    then show "commonEntry ?W walk (rel_path ns) (entry_of k) (entry_of (fst k, v)) s
        = (None, s @ diff_entry f (ns @ [fst k]) (snd k) (map_of ukids (fst k)))"
      using wk k assms(8) [OF k(1)]
      by (cases "snd k"; cases v) (auto simp: commonEntry_def Let_def handleCommonEntry_def common_event_def excl_dir_def is_node_def)
  qed (use wl(1) wu in simp_all)
  then show ?thesis by (simp add: walkBoth_step_def lp up readDirResolved_def)
qed

lemma walkBoth_dir_events:
  assumes "shows_tree F lr (Some l)" "shows_tree F ur (Some u)" "wf_tree l" "wf_tree u"
    and "subtree l ns = Some (Node li lkids)" "subtree u ns = Some (Node ui ukids)" "tree_depth (Node li lkids) \<le> Suc n"
  shows "walkBoth n (collecting_walk F lr ur f) (rel_path ns) s =
    (None, s @ concat (map (\<lambda>k. diff_entry f (ns @ [fst k]) (snd k) (map_of ukids (fst k))) lkids))"
  using assms(5-7)
proof (induction n arbitrary: ns li lkids ui ukids s)
  case 0
  have "snd k \<noteq> Node lk uk" if "k \<in> set lkids" for k lk uk
  proof -
    have "(fst k, snd k) \<in> set lkids" using that by simp
    from depth_kid [OF this, of li] 0(3) show ?thesis by (cases "snd k") auto
  qed
  then show ?case
    unfolding walkBoth.simps by (intro walkBoth_step_events [OF assms(1-4) 0(1,2)]) (use 0(3) in auto)
next
  case (Suc n)
  show ?case
    unfolding walkBoth.simps
  proof (rule walkBoth_step_events [OF assms(1-4) Suc.prems(1,2)])
    show "tree_depth (Node li lkids) \<le> Suc (Suc n)" by (rule Suc.prems(3))
    fix k s lk uk
    assume k: "k \<in> set lkids" "snd k = Node lk uk" "is_node (the (map_of ukids (fst k)))" "map_of ukids (fst k) \<noteq> None"
      "fl_Include f (rel_path (ns @ [fst k])) True"
    then obtain v where v: "map_of ukids (fst k) = Some v" by blast
    have wl: "wf_tree (Node li lkids)" using wf_subtree [OF assms(3) Suc.prems(1)] by simp
    have wu: "wf_tree (Node ui ukids)" using wf_subtree [OF assms(4) Suc.prems(2)] by simp
    have wv: "wf_tree v" using wu v by (auto dest!: map_of_SomeD)
    then obtain vi vk where vn: "v = Node vi vk" using k(3) v by auto
    have "distinct (map fst lkids)" using wl strict_sorted_iff by auto
    then have "map_of lkids (fst k) = Some (Node lk uk)" using k(1,2) by (metis map_of_is_SomeI prod.collapse)
    then have sl: "subtree l (ns @ [fst k]) = Some (Node lk uk)" unfolding subtree_append [of l ns] Suc.prems(1) by simp
    have su: "subtree u (ns @ [fst k]) = Some (Node vi vk)" unfolding subtree_append [of u ns] Suc.prems(2) using v vn by simp
    have "tree_depth (Node lk uk) \<le> Suc n" using depth_entry [OF k(1), of li] Suc.prems(3) unfolding k(2) by linarith
    then show "walkBoth n (collecting_walk F lr ur f) (rel_path (ns @ [fst k])) s = (None, s @ diff_entry f (ns @ [fst k]) (snd k) (map_of ukids (fst k)))"
      using Suc.IH [OF sl su] k v vn by simp
  qed
qed

text \<open>A missing upper directory: everything below the lower root is exclusive.\<close>

lemma walkBoth_no_upper:
  assumes "shows_tree F lr (Some (Node li lkids))" "shows_tree F ur None" "wf_tree (Node li lkids)" "tree_depth (Node li lkids) \<le> Suc n"
  shows "walkBoth n (collecting_walk F lr ur f) '''' s = (None, s @ concat (map (\<lambda>k. excl_events f [fst k] (snd k)) lkids))"
proof -
  let ?W = "collecting_walk F lr ur f" and ?l = "Node li lkids"
  have r: "rel_path [] = ''''" by (simp add: rel_path_def)
  obtain lp where lp: "fs_SecureJoin F lr '''' = Inr lp" "fs_ReadDir F lp = Inr (map entry_of lkids)"
    using shows_node [OF assms(1,3), of "[]"] r by auto
  obtain up where up: "fs_SecureJoin F ur '''' = Inr up" "fs_ReadDir F up = Inl NotExist"
    using assms(2) by (auto simp: shows_tree_def)
  have "emitAll ?W (emitExclusive n ?W lp '''') (map entry_of lkids) s = (None, s @ concat (map (\<lambda>k. excl_events f [fst k] (snd k)) lkids))"
  proof (rule emitAll_events)
    fix k s assume k: "k \<in> set lkids"
    have "distinct (map fst lkids)" using assms(3) strict_sorted_iff by auto
    then have "map_of lkids (fst k) = Some (snd k)" using k by simp
    then have "subtree ?l ([] @ [fst k]) = Some (snd k)" by simp
    moreover have "tree_depth (snd k) \<le> n" using depth_entry [OF k, of li] assms(4) by linarith
    ultimately show "emitExclusive n ?W lp '''' (entry_of k) s = (None, s @ excl_events f [fst k] (snd k))"
      using emitExclusive_events [OF assms(1,3), of "[]" "fst k" "snd k" n ur f lp s] r by simp
  qed simp
  then show ?thesis
    by (cases n) (simp_all add: walkBoth_step_def lp up readDirResolved_def emitAllExclusive_def)
qed

lemma walkBoth_collects:
  assumes "shows_tree F lr (Some l)" "shows_tree F ur u" "wf_tree l" "is_node l" "\<forall>t. u = Some t \<longrightarrow> wf_tree t \<and> is_node t"
    and "tree_depth l \<le> Suc fuel"
  shows "walkBoth fuel (collecting_walk F lr ur f) '''' [] = (None, diff_events f l u)"
proof -
  obtain li lkids where l: "l = Node li lkids" using assms(3,4) by auto
  have r: "rel_path [] = ''''" by (simp add: rel_path_def)
  show ?thesis
  proof (cases u)
    case None
    then show ?thesis using walkBoth_no_upper [of F lr li lkids ur fuel f "[]"] assms l by (simp add: diff_events_def)
  next
    case (Some t)
    then obtain ui ukids where t: "t = Node ui ukids" using assms(5) by auto
    show ?thesis
      using walkBoth_dir_events [OF assms(1), of ur t "[]" li lkids ui ukids fuel f "[]"] assms Some t l r
      by (simp add: diff_events_def)
  qed
qed

text \<open>C4: The two-pointer walk computes the specification: on file systems that show two well-formed trees (the upper one
  may be missing), with fuel for the depth of the lower tree, the walk ends without an error and its callbacks see
  exactly the entries of \<open>diff_events\<close>, in that order.\<close>

theorem walkBoth_events:
  assumes "shows_tree F lr (Some l)" "shows_tree F ur u" "wf_tree l" "is_node l" "\<forall>t. u = Some t \<longrightarrow> wf_tree t \<and> is_node t"
    and "tree_depth l \<le> Suc fuel"
  shows "walkBoth fuel (collecting_walk F lr ur f) '''' [] = (None, diff_events f l u)"
  using assms by (rule walkBoth_collects)

text \<open>A file system that shows two given trees, at the roots \<open>l\<close> and \<open>u\<close>, and an instance of the hypotheses.\<close>

definition read_tree :: "ds_tree option \<Rightarrow> string \<Rightarrow> ds_error + dir_entry list" where
  "read_tree t p = (case Option.bind t (\<lambda>u. subtree u (if p = '''' then [] else split_on CHR ''/'' p)) of
     None \<Rightarrow> Inl NotExist
   | Some (Leaf i) \<Rightarrow> Inl (Sys ''not a directory'')
   | Some (Node i kids) \<Rightarrow> Inr (map entry_of kids))"

definition two_trees :: "ds_tree option \<Rightarrow> ds_tree option \<Rightarrow> walk_fs" where
  "two_trees l u = \<lparr>fs_SecureJoin = (\<lambda>r p. Inr (r @ ''/'' @ p)),
     fs_ReadDir = (\<lambda>p. read_tree (if hd p = CHR ''l'' then l else u) (drop 2 p)),
     fs_Stat = (\<lambda>p. Inl NotExist), fs_Lstat = (\<lambda>p. Inl NotExist)\<rparr>"

lemma read_tree_rel_path:
  "\<forall>n \<in> set ns. plain_name n \<Longrightarrow> read_tree t (rel_path ns) = (case Option.bind t (\<lambda>u. subtree u ns) of
     None \<Rightarrow> Inl NotExist | Some (Leaf i) \<Rightarrow> Inl (Sys ''not a directory'') | Some (Node i kids) \<Rightarrow> Inr (map entry_of kids))"
  using split_rel_path [of ns] rel_path_not_empty [of ns]
  by (cases "ns = []") (simp_all add: read_tree_def rel_path_def [of "[]"])

lemma two_trees_show: "shows_tree (two_trees l u) ''l'' l" "shows_tree (two_trees l u) ''u'' u"
proof -
  have "read_tree None '''' = Inl NotExist" by (simp add: read_tree_def)
  then show "shows_tree (two_trees l u) ''l'' l" "shows_tree (two_trees l u) ''u'' u"
    by (auto simp: shows_tree_def two_trees_def read_tree_rel_path split: option.split)
qed

definition dir_info :: file_info where
  "dir_info = \<lparr>fi_Type = TDir, fi_Perm = 493, fi_ModeBits = 0, fi_Size = 0, fi_ModTime = 0, fi_Inode = None\<rparr>"

definition example_file :: "int \<Rightarrow> ds_tree" where
  "example_file sz = Leaf \<lparr>fi_Type = TRegular, fi_Perm = 420, fi_ModeBits = 0, fi_Size = sz, fi_ModTime = 0, fi_Inode = None\<rparr>"

definition example_lower :: ds_tree where
  "example_lower = Node dir_info [(''a'', Node dir_info [(''x'', example_file 1), (''y'', example_file 2)]), (''b'', example_file 3), (''d'', Node dir_info [])]"

definition example_upper :: ds_tree where
  "example_upper = Node dir_info [(''b'', example_file 4), (''c'', example_file 5), (''d'', example_file 6)]"

lemma example_trees:
  "wf_tree example_lower" "is_node example_lower" "wf_tree example_upper" "is_node example_upper" "tree_depth example_lower = 2"
  by (simp_all add: example_lower_def example_upper_def example_file_def dir_info_def is_node_def plain_name_def)

theorem walkBoth_events_witness:
  "\<exists>F. walkBoth 1 (collecting_walk F ''l'' ''u'' NoopFilter) '''' [] = (None, diff_events NoopFilter example_lower (Some example_upper))"
  using walkBoth_events [OF two_trees_show, of example_lower "Some example_upper" 1 NoopFilter] example_trees by auto

section \<open>What the classification says about the paths\<close>

definition exclusives :: "walk_event list \<Rightarrow> exclusive_path list" where
  "exclusives evs = concat (map (\<lambda>ev. case ev of Exclusive e \<Rightarrow> [e] | Common c \<Rightarrow> []) evs)"

definition commons :: "walk_event list \<Rightarrow> common_path list" where
  "commons evs = concat (map (\<lambda>ev. case ev of Common c \<Rightarrow> [c] | Exclusive e \<Rightarrow> []) evs)"

lemma exclusives_simps [simp]:
  "exclusives [] = []" "exclusives (ev # evs) = (case ev of Exclusive e \<Rightarrow> e # exclusives evs | Common c \<Rightarrow> exclusives evs)"
  "exclusives (xs @ ys) = exclusives xs @ exclusives ys"
  by (simp_all add: exclusives_def split: walk_event.split)

lemma exclusives_concat: "exclusives (concat xss) = concat (map exclusives xss)"
  by (induction xss) simp_all

definition upper_at :: "ds_tree option \<Rightarrow> string list \<Rightarrow> ds_tree option" where
  "upper_at u ns = Option.bind u (\<lambda>t. subtree t ns)"

lemma upper_at_Cons: "upper_at (Some (Node i kids)) (q # qs) = upper_at (map_of kids q) qs"
  by (simp add: upper_at_def split: option.split)

text \<open>The relative paths \<open>qs\<close>, below an entry of the lower tree, that the events of the entry remove.\<close>

fun covered :: "ds_tree \<Rightarrow> ds_tree option \<Rightarrow> string list \<Rightarrow> bool" where
  "covered (Leaf li) None qs \<longleftrightarrow> qs = []"
| "covered (Node li lk) None qs \<longleftrightarrow> True"
| "covered (Leaf li) (Some u) qs \<longleftrightarrow> False"
| "covered (Node li lk) (Some (Leaf ui)) qs \<longleftrightarrow> True"
| "covered (Node li lk) (Some (Node ui uk)) [] \<longleftrightarrow> False"
| "covered (Node li lk) (Some (Node ui uk)) (q # qs) \<longleftrightarrow> (case map_of lk q of None \<Rightarrow> False | Some l \<Rightarrow> covered l (map_of uk q) qs)"

abbreviation plain :: "string list \<Rightarrow> bool" where "plain ns \<equiv> \<forall>n \<in> set ns. plain_name n"

lemma removes_excl:
  assumes "plain ns" "plain ps" "ns \<noteq> []" "ps \<noteq> []"
  shows "set_removes (exclusives [excl_dir ns i]) (rel_path ps) \<longleftrightarrow> (\<exists>ts. ps = ns @ ts)"
    "set_removes (exclusives [excl_leaf ns i]) (rel_path ps) \<longleftrightarrow> ps = ns"
proof -
  show "set_removes (exclusives [excl_dir ns i]) (rel_path ps) \<longleftrightarrow> (\<exists>ts. ps = ns @ ts)"
    using isPathUnder_rel_path [of ps ns] assms by (auto simp: set_removes_def excl_dir_def entry_removes_def)
  have "rel_path ps = rel_path ns \<longleftrightarrow> ps = ns" using split_rel_path [OF assms(1,3)] split_rel_path [OF assms(2,4)] by metis
  then show "set_removes (exclusives [excl_leaf ns i]) (rel_path ps) \<longleftrightarrow> ps = ns"
    by (simp add: set_removes_def excl_leaf_def entry_removes_def)
qed

lemma set_removes_append [simp]: "set_removes (xs @ ys) p \<longleftrightarrow> set_removes xs p \<or> set_removes ys p" "\<not> set_removes [] p"
  by (auto simp: set_removes_def)

lemma set_removes_concat: "set_removes (concat xss) p \<longleftrightarrow> (\<exists>xs \<in> set xss. set_removes xs p)"
  by (induction xss) auto

lemma set_removes_common [simp]: "exclusives (common_event ns k li ui # evs) = exclusives evs"
  by (simp add: common_event_def)

lemma noop_include [simp]: "fl_Include NoopFilter p d"
  by (simp add: NoopFilter_def)

lemma diff_entry_removes:
  assumes "plain ps" "ps \<noteq> []"
  shows "plain ns \<Longrightarrow> ns \<noteq> [] \<Longrightarrow> wf_tree l \<Longrightarrow>
    set_removes (exclusives (diff_entry NoopFilter ns l u)) (rel_path ps) \<longleftrightarrow> (\<exists>qs. ps = ns @ qs \<and> covered l u qs)"
proof (induction "NoopFilter" ns l u rule: diff_entry.induct)
  case (1 ns l)
  then show ?case using removes_excl [OF _ assms(1) _ assms(2), of ns] by (cases l) auto
next
  case (2 ns li u)
  then show ?case by (simp add: common_event_def)
next
  case (3 ns li lkids ui)
  then show ?case using removes_excl(1) [OF _ assms(1) _ assms(2), of ns] by (simp add: common_event_def)
next
  case (4 ns li lkids ui ukids)
  let ?ev = "\<lambda>k. diff_entry NoopFilter (ns @ [fst k]) (snd k) (map_of ukids (fst k))"
  have IH: "set_removes (exclusives (?ev k)) (rel_path ps) \<longleftrightarrow> (\<exists>qs. ps = (ns @ [fst k]) @ qs \<and> covered (snd k) (map_of ukids (fst k)) qs)"
    if "k \<in> set lkids" for k
    using 4 that by auto
  have m: "map_of lkids q = Some l \<longleftrightarrow> (q, l) \<in> set lkids" for q l
  proof -
    have "distinct (map fst lkids)" using 4(4) strict_sorted_iff by auto
    then show ?thesis by simp
  qed
  have "set_removes (exclusives (diff_entry NoopFilter ns (Node li lkids) (Some (Node ui ukids)))) (rel_path ps)
      \<longleftrightarrow> (\<exists>k \<in> set lkids. \<exists>qs. ps = (ns @ [fst k]) @ qs \<and> covered (snd k) (map_of ukids (fst k)) qs)"
    using IH by (simp add: exclusives_concat set_removes_concat)
  also have "\<dots> \<longleftrightarrow> (\<exists>qs. ps = ns @ qs \<and> covered (Node li lkids) (Some (Node ui ukids)) qs)" (is "?l \<longleftrightarrow> ?r")
  proof
    assume ?l
    then obtain k qs where "k \<in> set lkids" "ps = ns @ fst k # qs" "covered (snd k) (map_of ukids (fst k)) qs" by auto
    moreover from this have "map_of lkids (fst k) = Some (snd k)" using m by simp
    ultimately show ?r by auto
  next
    assume ?r
    then obtain qs where qs: "ps = ns @ qs" "covered (Node li lkids) (Some (Node ui ukids)) qs" by blast
    then obtain q ts l where "qs = q # ts" "map_of lkids q = Some l" "covered l (map_of ukids q) ts" by (cases qs) (auto split: option.splits)
    then show ?l using qs(1) m by (intro bexI [of _ "(q, l)"]) auto
  qed
  finally show ?case .
qed

lemma subtree_Leaf [simp]: "subtree (Leaf i) qs = (if qs = [] then Some (Leaf i) else None)"
  by (cases qs) simp_all

lemma covered_lower:
  "wf_tree l \<Longrightarrow> (\<forall>t. u = Some t \<longrightarrow> wf_tree t) \<Longrightarrow> subtree l qs = Some t \<Longrightarrow>
   covered l u qs \<longleftrightarrow> (case upper_at u qs of None \<Rightarrow> True | Some v \<Rightarrow> is_node t \<and> \<not> is_node v)"
proof (induction l u qs rule: covered.induct)
  case (3 li u qs)
  then show ?case by (cases qs) (auto simp: upper_at_def is_node_def)
next
  case (4 li lk ui qs)
  then show ?case by (cases qs) (auto simp: upper_at_def is_node_def)
next
  case (6 li lk ui uk q qs)
  then obtain l where l: "map_of lk q = Some l" "subtree l qs = Some t" by (auto split: option.splits)
  then have "(q, l) \<in> set lk" by (simp add: map_of_SomeD)
  then have w: "wf_tree l" using 6(2) by auto
  have wu: "\<forall>t. map_of uk q = Some t \<longrightarrow> wf_tree t" using 6(3) by (auto dest!: map_of_SomeD)
  have "upper_at (Some (Node ui uk)) (q # qs) = upper_at (map_of uk q) qs" by (simp add: upper_at_def split: option.split)
  then show ?case using 6(1) [OF l(1) w wu l(2)] l(1) by simp
qed (auto simp: upper_at_def is_node_def split: if_splits)

lemma covered_not_lower:
  "wf_tree l \<Longrightarrow> subtree l qs = None \<Longrightarrow> upper_at u qs = Some v \<Longrightarrow> \<not> covered l u qs"
proof (induction l u qs rule: covered.induct)
  case (4 li lk ui qs)
  then show ?case by (cases qs) (auto simp: upper_at_def)
next
  case (6 li lk ui uk q qs)
  then show ?case by (auto simp: upper_at_def split: option.splits dest!: map_of_SomeD)
qed (auto simp: upper_at_def)

lemma commons_simps [simp]:
  "commons [] = []" "commons (ev # evs) = (case ev of Common c \<Rightarrow> c # commons evs | Exclusive e \<Rightarrow> commons evs)"
  "commons (xs @ ys) = commons xs @ commons ys"
  by (simp_all add: commons_def split: walk_event.split)

lemma commons_concat: "commons (concat xss) = concat (map commons xss)"
  by (induction xss) simp_all

lemma commons_excl: "commons (excl_events f ns t) = []"
proof (induction f ns t rule: excl_events.induct)
  case (1 f ns i)
  then show ?case by (simp add: excl_leaf_def)
next
  case (2 f ns i kids)
  then have "concat (map (\<lambda>k. commons (excl_events f (ns @ [fst k]) (snd k))) kids) = []"
    if "fl_Include f (rel_path ns) True" "\<not> fl_Include f (rel_path ns) False" using that by simp
  then show ?case by (simp add: excl_dir_def commons_concat comp_def)
qed

definition kind_of :: "ds_tree \<Rightarrow> path_kind" where
  "kind_of t = PathKindOf (tree_info t)"

lemma diff_entry_commons:
  "wf_tree l \<Longrightarrow> (\<forall>t. u = Some t \<longrightarrow> wf_tree t) \<Longrightarrow>
   c \<in> set (commons (diff_entry NoopFilter ns l u)) \<longleftrightarrow>
   (\<exists>qs t v. subtree l qs = Some t \<and> upper_at u qs = Some v \<and> \<not> (is_node t \<and> is_node v)
      \<and> c = \<lparr>cp_Path = rel_path (ns @ qs), cp_Kind = kind_of t, cp_LowerInfo = Some (tree_info t), cp_UpperInfo = Some (tree_info v), cp_HashEqual = None\<rparr>)"
proof (induction "NoopFilter" ns l u rule: diff_entry.induct)
  case (1 ns l)
  then show ?case by (simp add: commons_excl upper_at_def)
next
  case (2 ns li u)
  then have "is_node (Leaf li) = False" by simp
  then show ?case using 2 by (auto simp: common_event_def upper_at_def kind_of_def split: if_splits)
next
  case (3 ns li lkids ui)
  have "(\<exists>qs t v. subtree (Node li lkids) qs = Some t \<and> upper_at (Some (Leaf ui)) qs = Some v \<and> \<not> (is_node t \<and> is_node v) \<and> P qs t v)
      \<longleftrightarrow> P [] (Node li lkids) (Leaf ui)" for P
    using 3 by (auto simp: upper_at_def is_node_def split: if_splits)
  then show ?case using 3 by (simp add: common_event_def excl_dir_def kind_of_def PathKindOf_def)
next
  case (4 ns li lkids ui ukids)
  have m: "map_of lkids q = Some l \<longleftrightarrow> (q, l) \<in> set lkids" for q l
  proof -
    have "distinct (map fst lkids)" using 4(2) strict_sorted_iff by auto
    then show ?thesis by simp
  qed
  let ?Q = "\<lambda>ms qs t v. \<not> (is_node t \<and> is_node v) \<and> c = \<lparr>cp_Path = rel_path (ms @ qs), cp_Kind = kind_of t, cp_LowerInfo = Some (tree_info t), cp_UpperInfo = Some (tree_info v), cp_HashEqual = None\<rparr>"
  have "c \<in> set (commons (diff_entry NoopFilter (ns @ [fst k]) (snd k) (map_of ukids (fst k)))) \<longleftrightarrow>
      (\<exists>qs t v. subtree (snd k) qs = Some t \<and> upper_at (map_of ukids (fst k)) qs = Some v \<and> ?Q (ns @ [fst k]) qs t v)"
    if "k \<in> set lkids" for k
  proof -
    have "wf_tree (snd k)" "\<forall>t. map_of ukids (fst k) = Some t \<longrightarrow> wf_tree t" using 4(2,3) that by (auto dest!: map_of_SomeD)
    then show ?thesis using 4(1) [OF _ that] by simp
  qed
  then have "c \<in> set (commons (diff_entry NoopFilter ns (Node li lkids) (Some (Node ui ukids)))) \<longleftrightarrow>
      (\<exists>k \<in> set lkids. \<exists>qs t v. subtree (snd k) qs = Some t \<and> upper_at (map_of ukids (fst k)) qs = Some v \<and> ?Q (ns @ [fst k]) qs t v)"
    by (simp add: commons_concat)
  also have "\<dots> \<longleftrightarrow> (\<exists>qs t v. subtree (Node li lkids) qs = Some t \<and> upper_at (Some (Node ui ukids)) qs = Some v \<and> ?Q ns qs t v)" (is "?l \<longleftrightarrow> ?r")
  proof
    assume ?l
    then obtain k qs t v where k: "k \<in> set lkids" "subtree (snd k) qs = Some t" "upper_at (map_of ukids (fst k)) qs = Some v" "?Q (ns @ [fst k]) qs t v" by blast
    from k(1) have "map_of lkids (fst k) = Some (snd k)" using m by simp
    then have "subtree (Node li lkids) (fst k # qs) = Some t" "upper_at (Some (Node ui ukids)) (fst k # qs) = Some v"
      using k(2,3) by (simp_all add: upper_at_Cons)
    moreover have "?Q ns (fst k # qs) t v" using k(4) by simp
    ultimately show ?r by blast
  next
    assume ?r
    then obtain qs t v where r: "subtree (Node li lkids) qs = Some t" "upper_at (Some (Node ui ukids)) qs = Some v" "?Q ns qs t v" by blast
    then show ?l
    proof (cases qs)
      case Nil
      then show ?thesis using r 4(2,3) by (auto simp: upper_at_def is_node_def)
    next
      case (Cons q ts)
      then obtain l where "map_of lkids q = Some l" "subtree l ts = Some t" "upper_at (map_of ukids q) ts = Some v"
        using r by (auto simp: upper_at_def split: option.splits)
      moreover from this have "(q, l) \<in> set lkids" using m by simp
      moreover have "?Q (ns @ [q]) ts t v" using r(3) Cons by simp
      ultimately have "subtree (snd (q, l)) ts = Some t \<and> upper_at (map_of ukids (fst (q, l))) ts = Some v \<and> ?Q (ns @ [fst (q, l)]) ts t v" "(q, l) \<in> set lkids"
        by simp_all
      then show ?thesis by blast
    qed
  qed
  finally show ?case .
qed

text \<open>No collapsed entry covers another entry, whatever the filter.\<close>

lemma excl_events_below:
  "plain ns \<Longrightarrow> ns \<noteq> [] \<Longrightarrow> wf_tree t \<Longrightarrow> e \<in> set (exclusives (excl_events f ns t)) \<Longrightarrow> \<exists>qs. plain qs \<and> ep_Path e = rel_path (ns @ qs)"
proof (induction f ns t rule: excl_events.induct)
  case (1 f ns i)
  then show ?case by (auto simp: excl_leaf_def split: if_splits intro!: exI [of _ "[]"])
next
  case (2 f ns i kids)
  show ?case
  proof (cases "fl_Include f (rel_path ns) True \<and> \<not> fl_Include f (rel_path ns) False")
    case True
    then obtain k where k: "k \<in> set kids" "e \<in> set (exclusives (excl_events f (ns @ [fst k]) (snd k)))"
      using 2(5) by (auto simp: exclusives_concat)
    then obtain qs where "plain qs" "ep_Path e = rel_path ((ns @ [fst k]) @ qs)" using 2(1) [OF _ _ k(1)] 2(2,4) True by fastforce
    then show ?thesis using 2(4) k(1) by (intro exI [of _ "fst k # qs"]) simp
  next
    case False
    then show ?thesis using 2(5) by (auto simp: excl_dir_def split: if_splits intro!: exI [of _ "[]"])
  qed
qed

lemma diff_entry_below:
  "plain ns \<Longrightarrow> ns \<noteq> [] \<Longrightarrow> wf_tree l \<Longrightarrow> e \<in> set (exclusives (diff_entry f ns l u)) \<Longrightarrow> \<exists>qs. plain qs \<and> ep_Path e = rel_path (ns @ qs)"
proof (induction f ns l u rule: diff_entry.induct)
  case (1 f ns l)
  then show ?case using excl_events_below [of ns l e f] by simp
next
  case (4 f ns li lkids ui ukids)
  then obtain k where k: "k \<in> set lkids" "e \<in> set (exclusives (diff_entry f (ns @ [fst k]) (snd k) (map_of ukids (fst k))))" "fl_Include f (rel_path ns) True"
    by (auto simp: exclusives_concat split: if_splits)
  then obtain qs where "plain qs" "ep_Path e = rel_path ((ns @ [fst k]) @ qs)" using 4(1) [OF k(3,1)] 4(2,4) by fastforce
  then show ?case using 4(4) k(1) by (intro exI [of _ "fst k # qs"]) simp
qed (auto simp: common_event_def excl_dir_def split: if_splits intro!: exI [of _ "[]"])

lemma not_covers_siblings:
  assumes "plain ns" "plain_name n" "plain_name m" "n \<noteq> m" "ep_Path d = rel_path ((ns @ [n]) @ qs)" "ep_Path e = rel_path ((ns @ [m]) @ ps)"
    and "plain qs" "plain ps"
  shows "\<not> covers d e"
  using assms isPathUnder_rel_path [of "(ns @ [m]) @ ps" "(ns @ [n]) @ qs"] by (auto simp: covers_def)

lemma pruned_concat:
  assumes "distinct (map fst ks)" "\<And>k. k \<in> set ks \<Longrightarrow> pruned (g k)"
    and "\<And>k j d e. k \<in> set ks \<Longrightarrow> j \<in> set ks \<Longrightarrow> fst k \<noteq> fst j \<Longrightarrow> d \<in> set (g k) \<Longrightarrow> e \<in> set (g j) \<Longrightarrow> \<not> covers d e"
  shows "pruned (concat (map g ks))"
  using assms
proof (induction ks)
  case (Cons k ks)
  have "\<not> covers d e \<and> \<not> covers e d" if "d \<in> set (g k)" "e \<in> set (concat (map g ks))" for d e
  proof -
    from that obtain j where j: "j \<in> set ks" "e \<in> set (g j)" by auto
    then have "fst k \<noteq> fst j" using Cons.prems(1) by (auto simp: image_iff)
    then show ?thesis using Cons.prems(3) [of k j d e] Cons.prems(3) [of j k e d] j that by auto
  qed
  moreover have "pruned (concat (map g ks))"
  proof (rule Cons.IH)
    show "\<not> covers d e" if "i \<in> set ks" "j \<in> set ks" "fst i \<noteq> fst j" "d \<in> set (g i)" "e \<in> set (g j)" for i j d e
      using Cons.prems(3) [of i j d e] that by simp
  qed (use Cons.prems in simp_all)
  ultimately show ?case using Cons.prems(2) by (simp add: pruned_def sorted_wrt_append)
qed (simp add: pruned_def)

lemma pruned_short [simp]: "pruned []" "pruned [e]"
  by (simp_all add: pruned_def)

lemma excl_events_pruned: "plain ns \<Longrightarrow> ns \<noteq> [] \<Longrightarrow> wf_tree t \<Longrightarrow> pruned (exclusives (excl_events f ns t))"
proof (induction f ns t rule: excl_events.induct)
  case (1 f ns i)
  then show ?case by (simp add: excl_leaf_def)
next
  case (2 f ns i kids)
  have w: "plain_name (fst k)" "wf_tree (snd k)" if "k \<in> set kids" for k using 2(4) that by auto
  show ?case
  proof (cases "fl_Include f (rel_path ns) True \<and> \<not> fl_Include f (rel_path ns) False")
    case True
    have "pruned (concat (map (\<lambda>k. exclusives (excl_events f (ns @ [fst k]) (snd k))) kids))"
    proof (rule pruned_concat)
      show "distinct (map fst kids)" using 2(4) strict_sorted_iff by auto
      show "pruned (exclusives (excl_events f (ns @ [fst k]) (snd k)))" if "k \<in> set kids" for k
        using 2(1) [OF _ _ that] True 2(2) w [OF that] by simp
      fix k j d e
      assume a: "k \<in> set kids" "j \<in> set kids" "fst k \<noteq> fst j" "d \<in> set (exclusives (excl_events f (ns @ [fst k]) (snd k)))"
        "e \<in> set (exclusives (excl_events f (ns @ [fst j]) (snd j)))"
      obtain qs where "plain qs" "ep_Path d = rel_path ((ns @ [fst k]) @ qs)" using excl_events_below [OF _ _ _ a(4)] w [OF a(1)] 2(2) by auto
      moreover obtain ps where "plain ps" "ep_Path e = rel_path ((ns @ [fst j]) @ ps)" using excl_events_below [OF _ _ _ a(5)] w [OF a(2)] 2(2) by auto
      ultimately show "\<not> covers d e" using not_covers_siblings [OF 2(2) w(1) [OF a(1)] w(1) [OF a(2)] a(3)] by blast
    qed
    then show ?thesis using True by (simp add: exclusives_concat comp_def)
  qed (auto simp: excl_dir_def)
qed

lemma diff_entry_pruned: "plain ns \<Longrightarrow> ns \<noteq> [] \<Longrightarrow> wf_tree l \<Longrightarrow> pruned (exclusives (diff_entry f ns l u))"
proof (induction f ns l u rule: diff_entry.induct)
  case (1 f ns l)
  then show ?case using excl_events_pruned by simp
next
  case (4 f ns li lkids ui ukids)
  have w: "plain_name (fst k)" "wf_tree (snd k)" if "k \<in> set lkids" for k using 4(4) that by auto
  have "pruned (concat (map (\<lambda>k. exclusives (diff_entry f (ns @ [fst k]) (snd k) (map_of ukids (fst k)))) lkids))"
    if inc: "fl_Include f (rel_path ns) True"
  proof (rule pruned_concat)
    show "distinct (map fst lkids)" using 4(4) strict_sorted_iff by auto
    show "pruned (exclusives (diff_entry f (ns @ [fst k]) (snd k) (map_of ukids (fst k))))" if "k \<in> set lkids" for k
      using 4(1) [OF inc that] 4(2) w [OF that] by simp
    fix k j d e
    assume a: "k \<in> set lkids" "j \<in> set lkids" "fst k \<noteq> fst j" "d \<in> set (exclusives (diff_entry f (ns @ [fst k]) (snd k) (map_of ukids (fst k))))"
      "e \<in> set (exclusives (diff_entry f (ns @ [fst j]) (snd j) (map_of ukids (fst j))))"
    obtain qs where "plain qs" "ep_Path d = rel_path ((ns @ [fst k]) @ qs)" using diff_entry_below [OF _ _ _ a(4)] w [OF a(1)] 4(2) by auto
    moreover obtain ps where "plain ps" "ep_Path e = rel_path ((ns @ [fst j]) @ ps)" using diff_entry_below [OF _ _ _ a(5)] w [OF a(2)] 4(2) by auto
    ultimately show "\<not> covers d e" using not_covers_siblings [OF 4(2) w(1) [OF a(1)] w(1) [OF a(2)] a(3)] by blast
  qed
  then show ?case by (simp add: exclusives_concat comp_def)
qed (simp_all add: common_event_def excl_dir_def)

section \<open>Well-formed events\<close>

primrec formed :: "walk_event \<Rightarrow> bool" where
  "formed (Exclusive e) \<longleftrightarrow> (\<exists>ns. ns \<noteq> [] \<and> plain ns \<and> ep_Path e = rel_path ns) \<and> ep_Kind e = PathKindOf (ep_Info e)
     \<and> (ep_Collapsed e \<longleftrightarrow> ep_Kind e = KDir)"
| "formed (Common c) \<longleftrightarrow> (\<exists>ns. ns \<noteq> [] \<and> plain ns \<and> cp_Path c = rel_path ns) \<and> cp_HashEqual c = None
     \<and> (\<exists>l u. cp_LowerInfo c = Some l \<and> cp_UpperInfo c = Some u \<and> cp_Kind c = PathKindOf l)"

section \<open>Properties\<close>

lemma wf_kid: "wf_tree (Node i kids) \<Longrightarrow> k \<in> set kids \<Longrightarrow> plain_name (fst k) \<and> wf_tree (snd k)"
  by auto

lemma excl_events_formed:
  "plain ns \<Longrightarrow> ns \<noteq> [] \<Longrightarrow> wf_tree t \<Longrightarrow> ev \<in> set (excl_events f ns t) \<Longrightarrow> formed ev"
proof (induction f ns t rule: excl_events.induct)
  case (1 f ns i)
  then show ?case by (auto simp: excl_leaf_def PathKindOf_def split: if_splits file_type.splits)
next
  case (2 f ns i kids)
  show ?case
  proof (cases "fl_Include f (rel_path ns) True \<and> \<not> fl_Include f (rel_path ns) False")
    case True
    then obtain k where k: "k \<in> set kids" "ev \<in> set (excl_events f (ns @ [fst k]) (snd k))" using 2(5) by auto
    then show ?thesis using 2(1) [OF _ _ k(1)] 2(2,4) True by fastforce
  next
    case False
    then show ?thesis using 2(2-5) by (auto simp: excl_dir_def PathKindOf_def split: if_splits)
  qed
qed

lemma diff_entry_formed:
  "plain ns \<Longrightarrow> ns \<noteq> [] \<Longrightarrow> wf_tree l \<Longrightarrow> ev \<in> set (diff_entry f ns l u) \<Longrightarrow> formed ev"
proof (induction f ns l u rule: diff_entry.induct)
  case (1 f ns l)
  then show ?case using excl_events_formed by simp
next
  case (2 f ns li u)
  then show ?case by (auto simp: common_event_def split: if_splits)
next
  case (3 f ns li lkids ui)
  then show ?case by (auto simp: common_event_def excl_dir_def PathKindOf_def split: if_splits)
next
  case (4 f ns li lkids ui ukids)
  then obtain k where k: "k \<in> set lkids" "ev \<in> set (diff_entry f (ns @ [fst k]) (snd k) (map_of ukids (fst k)))" "fl_Include f (rel_path ns) True"
    by (auto split: if_splits)
  then show ?case using 4(1) [OF k(3,1)] 4(2,4) by fastforce
qed

lemma diff_events_formed:
  assumes "wf_tree l" "is_node l" "ev \<in> set (diff_events f l u)"
  shows "formed ev"
proof -
  obtain li lkids where l: "l = Node li lkids" using assms by auto
  obtain k where k: "k \<in> set lkids" "ev \<in> set (diff_entry f [fst k] (snd k) (Option.bind u (\<lambda>t. map_of (tree_kids t) (fst k))))"
    using assms(3) by (auto simp: diff_events_def l)
  then show ?thesis using diff_entry_formed [OF _ _ _ k(2)] wf_kid [OF assms(1) [unfolded l] k(1)] by simp
qed

text \<open>C38: well-formed events. Every event of a walk over two trees, whatever the filter, names a plain relative path; an exclusive entry has the kind of
  its information and is collapsed exactly when it is a directory; a common entry carries the information of both
  sides, has the lower entry's kind and is not compared yet.\<close>

theorem walk_events_well_formed:
  assumes "shows_tree F lr (Some l)" "shows_tree F ur u" "wf_tree l" "is_node l" "\<forall>t. u = Some t \<longrightarrow> wf_tree t \<and> is_node t"
    and "tree_depth l \<le> Suc fuel"
  shows "\<exists>evs. walkBoth fuel (collecting_walk F lr ur f) '''' [] = (None, evs) \<and> (\<forall>ev \<in> set evs. formed ev)"
  using walkBoth_collects [OF assms] diff_events_formed [OF assms(3,4)] by blast

theorem walk_events_well_formed_witness:
  "\<exists>evs. walkBoth 1 (collecting_walk (two_trees (Some example_lower) (Some example_upper)) ''l'' ''u'' NoopFilter) '''' [] = (None, evs) \<and> (\<forall>ev \<in> set evs. formed ev)"
  using walk_events_well_formed [OF two_trees_show, of example_lower "Some example_upper" 1 NoopFilter] example_trees by auto
lemma diff_events_pruned:
  assumes "wf_tree l" "is_node l"
  shows "pruned (exclusives (diff_events f l u))"
proof -
  obtain li lkids where l: "l = Node li lkids" using assms by auto
  note w = wf_kid [OF assms(1) [unfolded l]]
  have "pruned (concat (map (\<lambda>k. exclusives (diff_entry f [fst k] (snd k) (Option.bind u (\<lambda>t. map_of (tree_kids t) (fst k))))) lkids))"
  proof (rule pruned_concat)
    show "distinct (map fst lkids)" using assms(1) l strict_sorted_iff by auto
    show "pruned (exclusives (diff_entry f [fst k] (snd k) (Option.bind u (\<lambda>t. map_of (tree_kids t) (fst k)))))" if "k \<in> set lkids" for k
      using w [OF that] diff_entry_pruned [of "[fst k]" "snd k"] by simp
    fix k j d e
    assume a: "k \<in> set lkids" "j \<in> set lkids" "fst k \<noteq> fst j"
      "d \<in> set (exclusives (diff_entry f [fst k] (snd k) (Option.bind u (\<lambda>t. map_of (tree_kids t) (fst k)))))"
      "e \<in> set (exclusives (diff_entry f [fst j] (snd j) (Option.bind u (\<lambda>t. map_of (tree_kids t) (fst j)))))"
    obtain qs where "plain qs" "ep_Path d = rel_path (([] @ [fst k]) @ qs)" using diff_entry_below [OF _ _ _ a(4)] w [OF a(1)] by auto
    moreover obtain ps where "plain ps" "ep_Path e = rel_path (([] @ [fst j]) @ ps)" using diff_entry_below [OF _ _ _ a(5)] w [OF a(2)] by auto
    ultimately show "\<not> covers d e" using not_covers_siblings [of "[]" "fst k" "fst j" d qs e ps] w [OF a(1)] w [OF a(2)] a(3) by simp
  qed
  then show ?thesis by (simp add: diff_events_def l exclusives_concat comp_def)
qed

text \<open>C37: No overlapping work. Whatever the filter, no collapsed entry of a walk over two trees covers another exclusive entry: no
  descendant of a collapsed directory is emitted, and no path is emitted twice.\<close>

theorem exclusive_entries_do_not_overlap:
  assumes "shows_tree F lr (Some l)" "shows_tree F ur u" "wf_tree l" "is_node l" "\<forall>t. u = Some t \<longrightarrow> wf_tree t \<and> is_node t"
    and "tree_depth l \<le> Suc fuel"
  shows "\<exists>evs. walkBoth fuel (collecting_walk F lr ur f) '''' [] = (None, evs) \<and> pruned (exclusives evs)"
  using walkBoth_collects [OF assms] diff_events_pruned [OF assms(3,4)] by blast

theorem exclusive_entries_do_not_overlap_witness:
  "\<exists>evs. walkBoth 1 (collecting_walk (two_trees (Some example_lower) (Some example_upper)) ''l'' ''u'' NoopFilter) '''' [] = (None, evs) \<and> pruned (exclusives evs)"
  using exclusive_entries_do_not_overlap [OF two_trees_show, of example_lower "Some example_upper" 1 NoopFilter] example_trees by auto
lemma diff_events_removes:
  assumes "wf_tree l" "is_node l" "\<forall>t. u = Some t \<longrightarrow> wf_tree t" "plain (q # qs)"
  shows "set_removes (exclusives (diff_events NoopFilter l u)) (rel_path (q # qs)) \<longleftrightarrow>
    (case map_of (tree_kids l) q of None \<Rightarrow> False | Some k \<Rightarrow> covered k (Option.bind u (\<lambda>t. map_of (tree_kids t) q)) qs)"
proof -
  obtain li lkids where l: "l = Node li lkids" using assms by auto
  have m: "map_of lkids n = Some k \<longleftrightarrow> (n, k) \<in> set lkids" for n k
  proof -
    have "distinct (map fst lkids)" using assms(1) l strict_sorted_iff by auto
    then show ?thesis by simp
  qed
  have "set_removes (exclusives (diff_events NoopFilter l u)) (rel_path (q # qs)) \<longleftrightarrow>
      (\<exists>k \<in> set lkids. set_removes (exclusives (diff_entry NoopFilter [fst k] (snd k) (Option.bind u (\<lambda>t. map_of (tree_kids t) (fst k))))) (rel_path (q # qs)))"
    by (simp add: diff_events_def l exclusives_concat set_removes_concat)
  also have "\<dots> \<longleftrightarrow> (\<exists>k \<in> set lkids. \<exists>ts. q # qs = [fst k] @ ts \<and> covered (snd k) (Option.bind u (\<lambda>t. map_of (tree_kids t) (fst k))) ts)"
    using diff_entry_removes [OF assms(4), of "[fst k]" for k] wf_kid [OF assms(1) [unfolded l]] by (intro bex_cong) auto
  also have "\<dots> \<longleftrightarrow> (case map_of lkids q of None \<Rightarrow> False | Some k \<Rightarrow> covered k (Option.bind u (\<lambda>t. map_of (tree_kids t) q)) qs)"
  proof (cases "map_of lkids q")
    case None
    then have "\<forall>k \<in> set lkids. fst k \<noteq> q" using m by (metis option.distinct(1) prod.collapse)
    then show ?thesis using None by auto
  next
    case (Some t)
    then have only: "k = (q, t)" if "k \<in> set lkids" "fst k = q" for k using m that by (metis option.inject prod.collapse)
    have k: "(q, t) \<in> set lkids" using Some m by simp
    have "(\<exists>k \<in> set lkids. \<exists>ts. q # qs = [fst k] @ ts \<and> P k ts) \<longleftrightarrow> P (q, t) qs" for P
    proof
      assume "P (q, t) qs"
      then have "\<exists>ts. q # qs = [fst (q, t)] @ ts \<and> P (q, t) ts" by simp
      then show "\<exists>k \<in> set lkids. \<exists>ts. q # qs = [fst k] @ ts \<and> P k ts" using k by blast
    qed (use only in fastforce)
    from this [of "\<lambda>k. covered (snd k) (Option.bind u (\<lambda>t. map_of (tree_kids t) (fst k)))"] show ?thesis using Some by simp
  qed
  finally show ?thesis by (simp add: l)
qed

lemma upper_at_bind: "upper_at u (q # qs) = upper_at (Option.bind u (\<lambda>t. map_of (tree_kids t) q)) qs"
  by (simp add: upper_at_def split: option.split bind_split)

lemma diff_events_removes_lower:
  assumes "wf_tree l" "is_node l" "\<forall>t. u = Some t \<longrightarrow> wf_tree t" "plain ns" "ns \<noteq> []"
  shows "(\<forall>t. subtree l ns = Some t \<longrightarrow>
      set_removes (exclusives (diff_events NoopFilter l u)) (rel_path ns) =
        (case upper_at u ns of None \<Rightarrow> True | Some v \<Rightarrow> is_node t \<and> \<not> is_node v))
    \<and> (subtree l ns = None \<and> upper_at u ns \<noteq> None \<longrightarrow> \<not> set_removes (exclusives (diff_events NoopFilter l u)) (rel_path ns))"
proof -
  obtain q qs where ns: "ns = q # qs" using assms(5) by (cases ns) auto
  obtain li lkids where l: "l = Node li lkids" using assms by auto
  let ?u = "Option.bind u (\<lambda>t. map_of (tree_kids t) q)"
  have wu: "\<forall>t. ?u = Some t \<longrightarrow> wf_tree t"
  proof (intro allI impI)
    fix t assume "?u = Some t"
    then obtain v where "u = Some v" "(q, t) \<in> set (tree_kids v)" by (cases u) (auto dest!: map_of_SomeD)
    then show "wf_tree t" using assms(3) by (cases v) auto
  qed
  have wl: "wf_tree k" if "map_of lkids q = Some k" for k using that assms(1) l by (auto dest!: map_of_SomeD)
  show ?thesis
    using diff_events_removes [OF assms(1-3), of q qs] assms(4) covered_lower [OF wl wu, of _ qs] covered_not_lower [OF wl, of _ qs ?u]
    unfolding ns upper_at_bind [of u q qs] by (auto simp: l split: option.split option.split_asm)
qed

text \<open>C36: What is deleted, without a filter: the exclusive entries of a walk over two trees remove a path of the lower tree
  exactly when the upper tree has nothing there, or has a non-directory in the place of a directory; and they remove
  no path that only the upper tree has.\<close>

theorem exclusive_entries_remove_lower_only:
  assumes "shows_tree F lr (Some l)" "shows_tree F ur u" "wf_tree l" "is_node l" "\<forall>t. u = Some t \<longrightarrow> wf_tree t \<and> is_node t"
    and "tree_depth l \<le> Suc fuel" "plain ns" "ns \<noteq> []"
  shows "\<exists>evs. walkBoth fuel (collecting_walk F lr ur NoopFilter) '''' [] = (None, evs) \<and>
     (\<forall>t. subtree l ns = Some t \<longrightarrow>
        set_removes (exclusives evs) (rel_path ns) = (case upper_at u ns of None \<Rightarrow> True | Some v \<Rightarrow> is_node t \<and> \<not> is_node v)) \<and>
     (subtree l ns = None \<and> upper_at u ns \<noteq> None \<longrightarrow> \<not> set_removes (exclusives evs) (rel_path ns))"
  using walkBoth_collects [OF assms(1-6), of NoopFilter] diff_events_removes_lower [OF assms(3,4) _ assms(7,8), of u] assms(5) by auto

theorem exclusive_entries_remove_lower_only_witness:
  "\<exists>evs. walkBoth 1 (collecting_walk (two_trees (Some example_lower) (Some example_upper)) ''l'' ''u'' NoopFilter) '''' [] = (None, evs) \<and>
     set_removes (exclusives evs) (rel_path [''a'', ''x'']) \<and> \<not> set_removes (exclusives evs) (rel_path [''b'']) \<and> \<not> set_removes (exclusives evs) (rel_path [''c''])"
proof -
  let ?run = "walkBoth 1 (collecting_walk (two_trees (Some example_lower) (Some example_upper)) ''l'' ''u'' NoopFilter) '''' []"
  note w = exclusive_entries_remove_lower_only [OF two_trees_show, of example_lower "Some example_upper" 1]
  have p: "plain [''a'', ''x'']" "plain [''b'']" "plain [''c'']" by (simp_all add: plain_name_def)
  have a: "subtree example_lower [''a'', ''x''] = Some (example_file 1)" "upper_at (Some example_upper) [''a'', ''x''] = None"
    and b: "subtree example_lower [''b''] = Some (example_file 3)" "upper_at (Some example_upper) [''b''] = Some (example_file 4)"
    and c: "subtree example_lower [''c''] = None" "upper_at (Some example_upper) [''c''] = Some (example_file 5)"
    and f: "\<not> is_node (example_file 3)"
    by (simp_all add: example_lower_def example_upper_def example_file_def upper_at_def is_node_def)
  have e: "wf_tree example_lower" "is_node example_lower" "\<forall>t. Some example_upper = Some t \<longrightarrow> wf_tree t \<and> is_node t" "tree_depth example_lower \<le> Suc 1"
    using example_trees by auto
  have "\<exists>evs. ?run = (None, evs) \<and> set_removes (exclusives evs) (rel_path [''a'', ''x''])" using w [OF e p(1)] a by auto
  moreover have "\<exists>evs. ?run = (None, evs) \<and> \<not> set_removes (exclusives evs) (rel_path [''b''])" using w [OF e p(2)] b f by auto
  moreover have "\<exists>evs. ?run = (None, evs) \<and> \<not> set_removes (exclusives evs) (rel_path [''c''])" using w [OF e p(3)] c by auto
  ultimately show ?thesis by (metis prod.inject)
qed
lemma diff_events_commons:
  assumes "wf_tree l" "is_node l" "wf_tree t" "is_node t"
  shows "c \<in> set (commons (diff_events NoopFilter l (Some t))) \<longleftrightarrow>
    (\<exists>ns a b. subtree l ns = Some a \<and> subtree t ns = Some b \<and> \<not> (is_node a \<and> is_node b)
       \<and> c = \<lparr>cp_Path = rel_path ns, cp_Kind = kind_of a, cp_LowerInfo = Some (tree_info a), cp_UpperInfo = Some (tree_info b), cp_HashEqual = None\<rparr>)"
proof -
  obtain li lkids ui ukids where lt: "l = Node li lkids" "t = Node ui ukids" using assms by auto
  have "diff_entry NoopFilter [] l (Some t) = diff_events NoopFilter l (Some t)" by (simp add: lt diff_events_def)
  then show ?thesis using diff_entry_commons [of l "Some t" c "[]"] assms(1,3) by (simp add: upper_at_def)
qed

text \<open>What is compared: without a filter the common entries are exactly the paths that both trees have and that are not
  directories in both, with the lower entry's kind and the two entries' information.\<close>

theorem common_entries_are_shared_paths:
  assumes "wf_tree l" "is_node l" "wf_tree t" "is_node t"
  shows "c \<in> set (commons (diff_events NoopFilter l (Some t))) \<longleftrightarrow>
    (\<exists>ns a b. subtree l ns = Some a \<and> subtree t ns = Some b \<and> \<not> (is_node a \<and> is_node b)
       \<and> c = \<lparr>cp_Path = rel_path ns, cp_Kind = kind_of a, cp_LowerInfo = Some (tree_info a), cp_UpperInfo = Some (tree_info b), cp_HashEqual = None\<rparr>)"
  using assms by (rule diff_events_commons)

theorem common_entries_are_shared_paths_witness:
  "\<exists>c \<in> set (commons (diff_events NoopFilter example_lower (Some example_upper))). cp_Path c = ''d'' \<and> cp_Kind c = KDir"
proof -
  let ?c = "\<lparr>cp_Path = rel_path [''d''], cp_Kind = kind_of (Node dir_info []), cp_LowerInfo = Some (tree_info (Node dir_info [])),
    cp_UpperInfo = Some (tree_info (example_file 6)), cp_HashEqual = None\<rparr>"
  have "subtree example_lower [''d''] = Some (Node dir_info [])" "subtree example_upper [''d''] = Some (example_file 6)"
    by (simp_all add: example_lower_def example_upper_def)
  moreover have "\<not> is_node (example_file 6)" by (simp add: example_file_def is_node_def)
  ultimately have "?c \<in> set (commons (diff_events NoopFilter example_lower (Some example_upper)))"
    unfolding common_entries_are_shared_paths [OF example_trees(1-4)] by blast
  then show ?thesis by (rule bexI [rotated]) (simp add: rel_path_def kind_of_def PathKindOf_def dir_info_def)
qed

text \<open>Exclusions do not protect the contents of a collapsed directory. With exclude patterns only, a lower-only directory that
  is not itself excluded is emitted as one collapsed entry, which removes every path below it, the excluded ones too.\<close>

theorem collapse_removes_excluded_paths:
  assumes "wf_tree l" "map_of (tree_kids l) n = Some (Node i kids)" "Option.bind u (\<lambda>t. map_of (tree_kids t) n) = None"
    and "pf_includeMatcher pf = None" "pf_excludeMatcher pf = Some m" "m n \<noteq> Inr True" "m (rel_path (n # qs)) = Inr True"
    and "plain qs" "qs \<noteq> []"
  shows "\<not> fl_Include (pf_filter pf) (rel_path (n # qs)) d
    \<and> set_removes (exclusives (diff_events (pf_filter pf) l u)) (rel_path (n # qs))"
proof -
  obtain li lkids where l: "l = Node li lkids" using assms(2) by (cases l) auto
  have k: "(n, Node i kids) \<in> set lkids" using assms(2) l by (simp add: map_of_SomeD)
  have pn: "plain_name n" using assms(1) l k by auto
  have r: "rel_path [n] = n" by (simp add: rel_path_def)
  have "fl_Include (pf_filter pf) n b" for b using assms(4-6) by (simp add: pf_filter_def pf_Include_def)
  then have "diff_entry (pf_filter pf) [n] (Node i kids) None = [excl_dir [n] i]" using r by simp
  moreover have "set_removes (exclusives [excl_dir [n] i]) (rel_path (n # qs))"
    using removes_excl(1) [of "[n]" "n # qs" i] pn assms(8) by simp
  ultimately have "set_removes (exclusives (diff_entry (pf_filter pf) [fst (n, Node i kids)] (snd (n, Node i kids))
      (Option.bind u (\<lambda>t. map_of (tree_kids t) (fst (n, Node i kids)))))) (rel_path (n # qs))"
    by (simp only: fst_conv snd_conv assms(3))
  then have "\<exists>k \<in> set lkids. set_removes (exclusives (diff_entry (pf_filter pf) [fst k] (snd k)
      (Option.bind u (\<lambda>t. map_of (tree_kids t) (fst k))))) (rel_path (n # qs))"
    by (rule bexI [OF _ k])
  then have "set_removes (exclusives (diff_events (pf_filter pf) l u)) (rel_path (n # qs))"
    by (simp add: diff_events_def l exclusives_concat set_removes_concat)
  then show ?thesis using assms(4,5,7) by (simp add: pf_filter_def pf_Include_def)
qed

theorem collapse_removes_excluded_paths_witness:
  "\<exists>pf. \<not> fl_Include (pf_filter pf) (rel_path [''a'', ''x'']) False
    \<and> set_removes (exclusives (diff_events (pf_filter pf) example_lower (Some example_upper))) (rel_path [''a'', ''x''])"
proof -
  let ?pf = "\<lparr>pf_includePatterns = [], pf_excludePatterns = [''a/x''], pf_requiredPaths = [], pf_includeMatcher = None,
    pf_excludeMatcher = Some (\<lambda>p. Inr (p = ''a/x''))\<rparr>"
  have "map_of (tree_kids example_lower) ''a'' = Some (Node dir_info [(''x'', example_file 1), (''y'', example_file 2)])"
    "Option.bind (Some example_upper) (\<lambda>t. map_of (tree_kids t) ''a'') = None" "plain [''x'']" "rel_path [''a'', ''x''] = ''a/x''"
    by (simp_all add: example_lower_def example_upper_def plain_name_def rel_path_def)
  then show ?thesis
    using collapse_removes_excluded_paths [of example_lower "''a''" dir_info _ "Some example_upper" ?pf _ "[''x'']" False] example_trees(1)
    by (intro exI [of _ ?pf]) simp
qed

end
