(* ===== verification/Ds_Hash.thy ===== *)
theory Ds_Hash
  imports Ds_Core
begin

text \<open>
  Content comparison (\<open>hasher.go\<close>, \<open>pool.go\<close>): the decision tree of \<open>TwoPhaseHasher\<close>, the comparison
  in chunks and the comparison in concurrent segments. A file is its bytes and, when the medium is damaged, the
  position from which reads fail. The segments run concurrently and cancel each other: a schedule says at which
  positions a segment finds the context ended, and the theorems hold for every schedule the code can produce.
  Sizes are below \<open>2 ^ 62\<close>, where the \<open>int64\<close> arithmetic of the code does not wrap.
\<close>

section \<open>Files\<close>

datatype read_error = EOF | UnexpectedEOF | Fault ds_error

record disk_file =
  df_data :: "nat list"
  df_bad :: "(nat \<times> ds_error) option"

record hash_fs =
  hf_Open :: "string \<Rightarrow> ds_error + disk_file"
  hf_Readlink :: "string \<Rightarrow> ds_error + string"

text \<open>\<open>os.File.ReadAt\<close>: a read that returns fewer bytes than it was asked for has an error, one that returns all has none.\<close>

definition ReadAt :: "disk_file \<Rightarrow> nat \<Rightarrow> nat \<Rightarrow> nat list \<times> read_error option" where
  "ReadAt F pos len =
     (let avail = take len (drop pos (df_data F));
          short = (avail, if length avail < len then Some EOF else None)
      in case df_bad F of
           None \<Rightarrow> short
         | Some (b, err) \<Rightarrow> (if b < pos + len \<and> b \<le> length (df_data F) then (take (b - pos) avail, Some (Fault err)) else short))"

text \<open>\<open>io.ReadFull\<close> on a file whose offset is \<open>pos\<close>.\<close>

definition ReadFull :: "disk_file \<Rightarrow> nat \<Rightarrow> nat \<Rightarrow> nat list \<times> read_error option" where
  "ReadFull F pos len = (case ReadAt F pos len of
     (bs, Some EOF) \<Rightarrow> (bs, Some (if bs = [] then EOF else UnexpectedEOF))
   | r \<Rightarrow> r)"

fun isEOFChunk :: "read_error option \<Rightarrow> bool" where
  "isEOFChunk (Some EOF) = True"
| "isEOFChunk (Some UnexpectedEOF) = True"
| "isEOFChunk _ = False"

fun read_err :: "read_error \<Rightarrow> ds_error" where
  "read_err EOF = Msg [''EOF'']"
| "read_err UnexpectedEOF = Msg [''unexpected EOF'']"
| "read_err (Fault e) = e"

section \<open>The buffer pool\<close>

text \<open>A pool is the size of its buffers.\<close>

definition defaultBufSize :: int where "defaultBufSize = 65536"

definition NewBufPool :: "int \<Rightarrow> nat" where
  "NewBufPool sz = nat (if sz \<le> 0 then defaultBufSize else sz)"

definition sharedBufPool :: nat where "sharedBufPool = NewBufPool defaultBufSize"

section \<open>The hasher\<close>

record two_phase_hasher =
  th_BufPool :: "nat option"
  th_LargeFileThreshold :: int
  th_SegmentWorkers :: int

definition defaultLargeFileThreshold :: int where "defaultLargeFileThreshold = 2097152"

definition minSegmentSize :: nat where "minSegmentSize = 262144"

definition bufPool :: "two_phase_hasher \<Rightarrow> nat" where
  "bufPool h = (case th_BufPool h of Some p \<Rightarrow> p | None \<Rightarrow> sharedBufPool)"

definition largeFileThreshold :: "two_phase_hasher \<Rightarrow> int" where
  "largeFileThreshold h = (if th_LargeFileThreshold h > 0 then th_LargeFileThreshold h else defaultLargeFileThreshold)"

text \<open>\<open>NumCPU\<close> is \<open>runtime.NumCPU()\<close>.\<close>

definition segmentWorkers :: "nat \<Rightarrow> two_phase_hasher \<Rightarrow> nat" where
  "segmentWorkers NumCPU h = (if th_SegmentWorkers h > 0 then nat (th_SegmentWorkers h) else NumCPU)"

definition sameInode :: "file_info \<Rightarrow> file_info \<Rightarrow> bool" where
  "sameInode a b = (case (fi_Inode a, fi_Inode b) of (Some x, Some y) \<Rightarrow> fst x = fst y \<and> snd x = snd y | _ \<Rightarrow> False)"

definition compareSymlinks :: "hash_fs \<Rightarrow> string \<Rightarrow> string \<Rightarrow> ds_error + bool" where
  "compareSymlinks F lowerAbs upperAbs =
     (case hf_Readlink F lowerAbs of
        Inl err \<Rightarrow> Inl (Wrap [''readlink lower'', lowerAbs] err)
      | Inr lt \<Rightarrow> (case hf_Readlink F upperAbs of
                     Inl err \<Rightarrow> Inl (Wrap [''readlink upper'', upperAbs] err)
                   | Inr ut \<Rightarrow> Inr (lt = ut)))"

definition compareDirectories :: "file_info \<Rightarrow> file_info \<Rightarrow> bool" where
  "compareDirectories l u \<longleftrightarrow> fi_Perm l = fi_Perm u \<and> fi_ModTime l = fi_ModTime u"

text \<open>The loop of the sequential comparison, with both files at offset \<open>pos\<close>. A pool has no empty buffers; with one
  the loop would not end, and the model stops.\<close>

lemma ReadFull_full: "snd (ReadFull F pos B) = None \<Longrightarrow> 0 < B \<Longrightarrow> pos < length (df_data F)"
  by (auto simp: ReadFull_def ReadAt_def Let_def split: option.splits if_splits prod.splits read_error.splits)

function sequential_loop :: "nat \<Rightarrow> disk_file \<Rightarrow> disk_file \<Rightarrow> string \<Rightarrow> string \<Rightarrow> nat \<Rightarrow> ds_error + bool" where
  "sequential_loop B lf uf lowerAbs upperAbs pos =
     (let (lb, lErr) = ReadFull lf pos B; (ub, uErr) = ReadFull uf pos B in
      if lb \<noteq> ub then Inr False
      else if isEOFChunk lErr \<and> isEOFChunk uErr then Inr True
      else if isEOFChunk lErr \<noteq> isEOFChunk uErr then Inr False
      else case lErr of
        Some e \<Rightarrow> Inl (Wrap [''read lower'', lowerAbs] (read_err e))
      | None \<Rightarrow> (case uErr of
          Some e \<Rightarrow> Inl (Wrap [''read upper'', upperAbs] (read_err e))
        | None \<Rightarrow> (if B = 0 then Inl OutOfFuel else sequential_loop B lf uf lowerAbs upperAbs (pos + B))))"
  by pat_completeness auto
termination sequential_loop
proof (relation "measure (\<lambda>(B, lf, uf, la, ua, pos). length (df_data lf) - pos)")
  fix B lf uf la ua pos x lb lErr y ub uErr
  assume "x = ReadFull lf pos B" "(lb, lErr) = x" "lErr = None" "B \<noteq> 0"
  then have "pos < length (df_data lf)" using ReadFull_full [of lf pos B] by (metis snd_conv gr0I)
  then show "((B, lf, uf, la, ua, pos + B), B, lf, uf, la, ua, pos) \<in> measure (\<lambda>(B, lf, uf, la, ua, pos). length (df_data lf) - pos)"
    using \<open>B \<noteq> 0\<close> by simp
qed simp

declare sequential_loop.simps [simp del]

definition compareContentsSequential :: "hash_fs \<Rightarrow> two_phase_hasher \<Rightarrow> string \<Rightarrow> string \<Rightarrow> ds_error + bool" where
  "compareContentsSequential F h lowerAbs upperAbs =
     (case hf_Open F lowerAbs of
        Inl err \<Rightarrow> Inl (Wrap [''open lower'', lowerAbs] err)
      | Inr lf \<Rightarrow> (case hf_Open F upperAbs of
                     Inl err \<Rightarrow> Inl (Wrap [''open upper'', upperAbs] err)
                   | Inr uf \<Rightarrow> sequential_loop (bufPool h) lf uf lowerAbs upperAbs 0))"

text \<open>One segment; \<open>cancelled pos\<close> says that the context has ended when the segment is about to read at \<open>pos\<close>.\<close>

definition real_error :: "read_error option \<Rightarrow> ds_error option" where
  "real_error e = (case e of None \<Rightarrow> None | Some EOF \<Rightarrow> None | Some x \<Rightarrow> Some (read_err x))"

function segment_loop :: "nat \<Rightarrow> (nat \<Rightarrow> bool) \<Rightarrow> disk_file \<Rightarrow> disk_file \<Rightarrow> string \<Rightarrow> string \<Rightarrow> nat \<Rightarrow> nat \<Rightarrow> ds_error + bool" where
  "segment_loop B cancelled lf uf lowerAbs upperAbs stop pos =
     (if stop \<le> pos then Inr True
      else if cancelled pos then Inr False
      else
        let chunkLen = min B (stop - pos); (lb, lErr) = ReadAt lf pos chunkLen; (ub, uErr) = ReadAt uf pos chunkLen in
        if lb \<noteq> ub then Inr False
        else if length lb < chunkLen then Inr True
        else case real_error lErr of
          Some e \<Rightarrow> Inl (Wrap [''read lower'', lowerAbs] e)
        | None \<Rightarrow> (case real_error uErr of
            Some e \<Rightarrow> Inl (Wrap [''read upper'', upperAbs] e)
          | None \<Rightarrow> (if B = 0 then Inl OutOfFuel else segment_loop B cancelled lf uf lowerAbs upperAbs stop (pos + chunkLen))))"
  by pat_completeness auto
termination segment_loop
  by (relation "measure (\<lambda>(B, c, lf, uf, la, ua, stop, pos). stop - pos)") auto

declare segment_loop.simps [simp del]

definition compareSegment :: "two_phase_hasher \<Rightarrow> (nat \<Rightarrow> bool) \<Rightarrow> disk_file \<Rightarrow> disk_file \<Rightarrow> nat \<Rightarrow> nat \<Rightarrow> string \<Rightarrow> string \<Rightarrow> ds_error + bool" where
  "compareSegment h cancelled lf uf offset len lowerAbs upperAbs =
     segment_loop (bufPool h) cancelled lf uf lowerAbs upperAbs (offset + len) offset"

text \<open>The offsets and lengths of the segments of a file.\<close>

definition segments :: "nat \<Rightarrow> nat \<Rightarrow> (nat \<times> nat) list" where
  "segments workers sz =
     (let s0 = sz div workers; segSize = (if s0 < minSegmentSize then minSegmentSize else s0);
          numSegments = (sz + segSize - 1) div segSize
      in map (\<lambda>i. let off = i * segSize in (off, if i = numSegments - 1 then sz - off else segSize)) [0..<numSegments])"

fun firstFailure :: "(ds_error + bool) list \<Rightarrow> ds_error + bool" where
  "firstFailure [] = Inr True"
| "firstFailure (Inl err # rs) = Inl err"
| "firstFailure (Inr eq # rs) = (if \<not> eq then Inr False else firstFailure rs)"

definition segment_results :: "two_phase_hasher \<Rightarrow> (nat \<Rightarrow> nat \<Rightarrow> bool) \<Rightarrow> disk_file \<Rightarrow> disk_file \<Rightarrow> string \<Rightarrow> string \<Rightarrow> (nat \<times> nat) list \<Rightarrow> (ds_error + bool) list" where
  "segment_results h cancelled lf uf lowerAbs upperAbs segs =
     map (\<lambda>(off, ln). compareSegment h (cancelled off) lf uf off ln lowerAbs upperAbs) segs"

definition compareContentsParallel :: "nat \<Rightarrow> hash_fs \<Rightarrow> two_phase_hasher \<Rightarrow> (nat \<Rightarrow> nat \<Rightarrow> bool) \<Rightarrow> string \<Rightarrow> string \<Rightarrow> nat \<Rightarrow> ds_error + bool" where
  "compareContentsParallel NumCPU F h cancelled lowerAbs upperAbs sz =
     (case hf_Open F lowerAbs of
        Inl err \<Rightarrow> Inl (Wrap [''open lower'', lowerAbs] err)
      | Inr lf \<Rightarrow> (case hf_Open F upperAbs of
                     Inl err \<Rightarrow> Inl (Wrap [''open upper'', upperAbs] err)
                   | Inr uf \<Rightarrow> firstFailure (segment_results h cancelled lf uf lowerAbs upperAbs (segments (segmentWorkers NumCPU h) sz))))"

text \<open>The schedules the code can produce: the context of the segments is ended only by a segment that has found a
  difference or an error by itself. A segment is named by its offset.\<close>

definition possible_schedule :: "two_phase_hasher \<Rightarrow> (nat \<Rightarrow> nat \<Rightarrow> bool) \<Rightarrow> disk_file \<Rightarrow> disk_file \<Rightarrow> string \<Rightarrow> string \<Rightarrow> (nat \<times> nat) list \<Rightarrow> bool" where
  "possible_schedule h cancelled lf uf lowerAbs upperAbs segs \<longleftrightarrow>
     (\<forall>(off, ln) \<in> set segs. \<forall>pos. \<not> cancelled off pos) \<or>
     (\<exists>(off, ln) \<in> set segs. (\<forall>pos. \<not> cancelled off pos) \<and> compareSegment h (cancelled off) lf uf off ln lowerAbs upperAbs \<noteq> Inr True)"

definition compareRegularFiles :: "nat \<Rightarrow> hash_fs \<Rightarrow> two_phase_hasher \<Rightarrow> (nat \<Rightarrow> nat \<Rightarrow> bool) \<Rightarrow> string \<Rightarrow> string \<Rightarrow> file_info \<Rightarrow> file_info \<Rightarrow> ds_error + bool" where
  "compareRegularFiles NumCPU F h cancelled lowerAbs upperAbs l u =
     (if sameInode l u then Inr True
      else if fi_Size l \<noteq> fi_Size u then Inr False
      else if fi_ModTime l = fi_ModTime u then Inr True
      else if fi_Size l \<ge> largeFileThreshold h then compareContentsParallel NumCPU F h cancelled lowerAbs upperAbs (nat (fi_Size l))
      else compareContentsSequential F h lowerAbs upperAbs)"

definition Equal :: "nat \<Rightarrow> hash_fs \<Rightarrow> two_phase_hasher \<Rightarrow> (nat \<Rightarrow> nat \<Rightarrow> bool) \<Rightarrow> string \<Rightarrow> string \<Rightarrow> file_info \<Rightarrow> file_info \<Rightarrow> ds_error + bool" where
  "Equal NumCPU F h cancelled lowerAbs upperAbs l u =
     (if fi_Type l \<noteq> fi_Type u then Inr False
      else case fi_Type l of
        TSymlink \<Rightarrow> compareSymlinks F lowerAbs upperAbs
      | TDir \<Rightarrow> Inr (compareDirectories l u)
      | TRegular \<Rightarrow> compareRegularFiles NumCPU F h cancelled lowerAbs upperAbs l u
      | TOther bits \<Rightarrow> Inr (fi_Type l = fi_Type u \<and> fi_Perm l = fi_Perm u \<and> fi_ModeBits l = fi_ModeBits u))"

text \<open>The digest of a file, for the digest function \<open>xxh3\<close> of the library \<open>zeebo/xxh3\<close> on the bytes written to it.\<close>

definition fileDigest :: "(nat list \<Rightarrow> 'd) \<Rightarrow> hash_fs \<Rightarrow> string \<Rightarrow> ds_error + 'd" where
  "fileDigest xxh3 F path =
     (case hf_Open F path of
        Inl err \<Rightarrow> Inl (Wrap [''open'', path] err)
      | Inr f \<Rightarrow> (case ReadAt f 0 (Suc (length (df_data f))) of
                    (bs, Some (Fault err)) \<Rightarrow> Inl (Wrap [''digest'', path] err)
                  | (bs, _) \<Rightarrow> Inr (xxh3 bs)))"


section \<open>The chunk loops compare the contents\<close>

lemma ReadAt_sound:
  "df_bad F = None \<Longrightarrow> ReadAt F pos n = (take n (drop pos (df_data F)), if length (df_data F) - pos < n then Some EOF else None)"
  by (simp add: ReadAt_def Let_def)

lemma ReadFull_sound:
  "df_bad F = None \<Longrightarrow> ReadFull F pos n = (take n (drop pos (df_data F)),
     if length (df_data F) - pos < n then Some (if take n (drop pos (df_data F)) = [] then EOF else UnexpectedEOF) else None)"
  by (simp add: ReadFull_def ReadAt_sound)

lemma drop_split: "take n (drop p xs) = take n (drop p ys) \<Longrightarrow> drop p xs = drop p ys \<longleftrightarrow> drop (p + n) xs = drop (p + n) ys"
  by (metis append_take_drop_id drop_drop add.commute)

lemma take_chunk: "take (c + m) (drop p xs) = take c (drop p xs) @ take m (drop (p + c) xs)"
  by (simp add: take_add drop_drop add.commute)

lemma sequential_loop_sound:
  assumes "df_bad lf = None" "df_bad uf = None" "0 < B"
  shows "sequential_loop B lf uf la ua pos = Inr (drop pos (df_data lf) = drop pos (df_data uf))"
  using assms
proof (induction B lf uf la ua pos rule: sequential_loop.induct)
  case (1 B lf uf la ua pos)
  let ?l = "drop pos (df_data lf)" and ?u = "drop pos (df_data uf)"
  note step = sequential_loop.simps [of B lf uf la ua pos] ReadFull_sound [OF 1(2)] ReadFull_sound [OF 1(3)]
  show ?case
  proof (cases "take B ?l = take B ?u")
    case False
    then show ?thesis by (auto simp: step)
  next
    case eq: True
    then have len: "min B (length ?l) = min B (length ?u)" by (metis length_take min.commute)
    show ?thesis
    proof (cases "length ?l < B")
      case True
      then have "length ?u < B" using len by simp
      then have "?l = ?u" using eq True by simp
      moreover have "length (df_data lf) - pos < B" "length (df_data uf) - pos < B" using True \<open>length ?u < B\<close> by simp_all
      ultimately show ?thesis by (simp add: step)
    next
      case False
      then have u: "\<not> length ?u < B" using len by simp
      have "sequential_loop B lf uf la ua (pos + B) = Inr (drop (pos + B) (df_data lf) = drop (pos + B) (df_data uf))"
        using 1(1) [of "(take B ?l, None)" "take B ?l" None "(take B ?u, None)" "take B ?u" None] 1(2-4) False u eq
        by (simp add: ReadFull_sound)
      then show ?thesis using False u eq drop_split [OF eq] 1(4) by (simp add: step)
    qed
  qed
qed

lemma segment_loop_sound:
  assumes "df_bad lf = None" "df_bad uf = None" "0 < B" "stop \<le> length (df_data lf)" "stop \<le> length (df_data uf)"
  shows "\<exists>b. segment_loop B cancelled lf uf la ua stop pos = Inr b
    \<and> (b \<longrightarrow> take (stop - pos) (drop pos (df_data lf)) = take (stop - pos) (drop pos (df_data uf)))
    \<and> ((\<forall>p. \<not> cancelled p) \<longrightarrow> take (stop - pos) (drop pos (df_data lf)) = take (stop - pos) (drop pos (df_data uf)) \<longrightarrow> b)"
  using assms
proof (induction B cancelled lf uf la ua stop pos rule: segment_loop.induct)
  case (1 B cancelled lf uf la ua stop pos)
  let ?c = "min B (stop - pos)"
  let ?l = "take ?c (drop pos (df_data lf))" and ?u = "take ?c (drop pos (df_data uf))"
  note step = segment_loop.simps [of B cancelled lf uf la ua stop pos] ReadAt_sound [OF 1(2)] ReadAt_sound [OF 1(3)]
  show ?case
  proof (cases "stop \<le> pos \<or> cancelled pos")
    case True
    then show ?thesis by (auto simp: step)
  next
    case go: False
    have split: "take (stop - pos) (drop pos xs) = take ?c (drop pos xs) @ take (stop - (pos + ?c)) (drop (pos + ?c) xs)" for xs :: "nat list"
    proof -
      have "?c \<le> stop - pos" by simp
      then have "?c + (stop - (pos + ?c)) = stop - pos" by linarith
      then show ?thesis using take_chunk [of ?c "stop - (pos + ?c)" pos xs] by (simp only:)
    qed
    have full: "length ?l = ?c" "length ?u = ?c" "\<not> length (df_data lf) - pos < ?c" "\<not> length (df_data uf) - pos < ?c"
      using 1(5,6) by auto
    show ?thesis
    proof (cases "?l = ?u")
      case False
      have len: "length ?l = length ?u" using full(1,2) by (simp only:)
      have "take (stop - pos) (drop pos (df_data lf)) \<noteq> take (stop - pos) (drop pos (df_data uf))"
        unfolding split append_eq_append_conv [OF disjI1 [OF len]] using False by blast
      then show ?thesis using go False by (intro exI [of _ False]) (simp add: step Let_def)
    next
      case True
      have r: "ReadAt lf pos ?c = (?u, None)" "ReadAt uf pos ?c = (?u, None)"
        unfolding ReadAt_sound [OF 1(2)] ReadAt_sound [OF 1(3)] using full(3,4) True by (simp_all only: if_False)
      have again: "segment_loop B cancelled lf uf la ua stop pos = segment_loop B cancelled lf uf la ua stop (pos + ?c)"
        unfolding segment_loop.simps [of B cancelled lf uf la ua stop pos] Let_def r
        using go full(2) 1(4) by (simp del: length_take add: real_error_def)
      have c: "\<not> stop \<le> pos" "\<not> cancelled pos" "\<not> ?u \<noteq> ?u" "\<not> length ?u < ?c" "real_error None = None" "B \<noteq> 0"
        using go full(2) 1(4) by (simp_all del: length_take add: real_error_def)
      have IH: "\<exists>b. segment_loop B cancelled lf uf la ua stop (pos + ?c) = Inr b
          \<and> (b \<longrightarrow> take (stop - (pos + ?c)) (drop (pos + ?c) (df_data lf)) = take (stop - (pos + ?c)) (drop (pos + ?c) (df_data uf)))
          \<and> ((\<forall>p. \<not> cancelled p) \<longrightarrow> take (stop - (pos + ?c)) (drop (pos + ?c) (df_data lf)) = take (stop - (pos + ?c)) (drop (pos + ?c) (df_data uf)) \<longrightarrow> b)"
        by (rule 1(1) [OF c(1,2) refl r(1) [symmetric] refl r(2) [symmetric] refl c(3,4,5,5,6) 1(2-6)])
      have len: "length ?l = length ?u" using full(1,2) by (simp only:)
      show ?thesis
        unfolding split append_eq_append_conv [OF disjI1 [OF len]] again using IH True by blast
    qed
  qed
qed

section \<open>The segments divide the file\<close>

lemma equal_slices: "concat (map (\<lambda>i. take s (drop (i * s) xs)) [0..<k]) = take (k * s) xs"
proof (induction k)
  case (Suc k)
  have "take (Suc k * s) xs = take (k * s) xs @ take s (drop (k * s) xs)" by (metis add.commute mult_Suc take_add)
  then show ?case using Suc by simp
qed simp

lemma segments_partition:
  "concat (map (\<lambda>(off, ln). take ln (drop off xs)) (segments workers (length xs))) = xs"
proof -
  define s where "s = max (length xs div workers) minSegmentSize"
  define n where "n = (length xs + s - 1) div s"
  have s: "0 < s" by (simp add: s_def minSegmentSize_def max_def)
  have segs: "segments workers (length xs) = map (\<lambda>i. (i * s, if i = n - 1 then length xs - i * s else s)) [0..<n]"
    by (simp add: segments_def Let_def s_def n_def max_def not_less)
  show ?thesis
  proof (cases n)
    case 0
    then have "length xs + s - 1 < s" using s by (simp add: n_def div_eq_0_iff)
    then have "length xs = 0" using s by linarith
    then show ?thesis by (simp add: segs 0)
  next
    case (Suc k)
    have e: "map (\<lambda>i. take (if i = k then length xs - i * s else s) (drop (i * s) xs)) [0..<k] = map (\<lambda>i. take s (drop (i * s) xs)) [0..<k]"
      by (rule map_cong) auto
    have "concat (map (\<lambda>(off, ln). take ln (drop off xs)) (segments workers (length xs)))
        = concat (map (\<lambda>i. take (if i = k then length xs - i * s else s) (drop (i * s) xs)) [0..<k]) @ take (length xs - k * s) (drop (k * s) xs)"
      by (simp add: segs Suc comp_def)
    also have "\<dots> = concat (map (\<lambda>i. take s (drop (i * s) xs)) [0..<k]) @ take (length xs - k * s) (drop (k * s) xs)"
      unfolding e by (rule refl)
    also have "\<dots> = xs" by (simp add: equal_slices)
    finally show ?thesis .
  qed
qed

lemma segments_bounds:
  assumes "seg \<in> set (segments workers sz)"
  shows "fst seg + snd seg \<le> sz"
proof -
  define s where "s = max (sz div workers) minSegmentSize"
  define n where "n = (sz + s - 1) div s"
  have s: "0 < s" by (simp add: s_def minSegmentSize_def max_def)
  have "segments workers sz = map (\<lambda>i. (i * s, if i = n - 1 then sz - i * s else s)) [0..<n]"
    by (simp add: segments_def Let_def s_def n_def max_def not_less)
  then obtain i where i: "i < n" "seg = (i * s, if i = n - 1 then sz - i * s else s)" using assms by auto
  have "n * s \<le> sz + s - 1" unfolding n_def by (rule div_times_less_eq_dividend)
  then have n: "n * s < sz + s" using s by linarith
  then have "i * s \<le> sz" if "i < n" for i
  proof -
    have "Suc i * s \<le> n * s" using that by (intro mult_le_mono1) simp
    then show ?thesis using n by simp
  qed
  moreover have "Suc i * s \<le> sz" if "i \<noteq> n - 1"
  proof -
    have "Suc i < n" using that i(1) by simp
    from calculation [OF this] show ?thesis .
  qed
  ultimately show ?thesis using i by (auto simp: add.commute)
qed


section \<open>Properties\<close>

lemma bufPool_pos: "th_BufPool h \<noteq> Some 0 \<Longrightarrow> 0 < bufPool h"
  by (auto simp: bufPool_def sharedBufPool_def NewBufPool_def defaultBufSize_def split: option.split)

lemma compareSegment_sound:
  assumes "df_bad lf = None" "df_bad uf = None" "th_BufPool h \<noteq> Some 0" "off + ln \<le> length (df_data lf)" "off + ln \<le> length (df_data uf)"
  obtains b where "compareSegment h cancelled lf uf off ln la ua = Inr b"
    "b \<Longrightarrow> take ln (drop off (df_data lf)) = take ln (drop off (df_data uf))"
    "\<forall>p. \<not> cancelled p \<Longrightarrow> take ln (drop off (df_data lf)) = take ln (drop off (df_data uf)) \<Longrightarrow> b"
  using segment_loop_sound [OF assms(1,2) bufPool_pos [OF assms(3)] assms(4,5), of cancelled la ua off] unfolding compareSegment_def by auto

lemma firstFailure_bools: "\<forall>r \<in> set rs. \<exists>b. r = Inr b \<Longrightarrow> firstFailure rs = Inr (Inr False \<notin> set rs)"
  by (induction rs) auto

lemma slices_equal:
  assumes "length xs = length ys" "\<And>off ln. (off, ln) \<in> set (segments workers (length xs)) \<Longrightarrow> take ln (drop off xs) = take ln (drop off ys)"
  shows "xs = ys"
proof -
  have "map (\<lambda>(off, ln). take ln (drop off xs)) (segments workers (length xs)) = map (\<lambda>(off, ln). take ln (drop off ys)) (segments workers (length ys))"
    unfolding assms(1) [symmetric] using assms(2) by (intro map_cong) auto
  then show ?thesis using segments_partition [of xs workers] segments_partition [of ys workers] by metis
qed

text \<open>C7: The two content comparisons agree, whatever the interleaving. On files that can be read, comparing concurrent segments
  that cancel each other gives, for every schedule the code can produce, the same answer as reading both files in
  lockstep: whether their bytes are the same.\<close>

theorem compareContents_agree:
  assumes "hf_Open F la = Inr lf" "hf_Open F ua = Inr uf" "df_bad lf = None" "df_bad uf = None"
    and "length (df_data lf) = sz" "length (df_data uf) = sz" "th_BufPool h \<noteq> Some 0"
    and "possible_schedule h cancelled lf uf la ua (segments (segmentWorkers NumCPU h) sz)"
  shows "compareContentsParallel NumCPU F h cancelled la ua sz = Inr (df_data lf = df_data uf)
    \<and> compareContentsSequential F h la ua = Inr (df_data lf = df_data uf)"
proof
  let ?segs = "segments (segmentWorkers NumCPU h) sz" and ?res = "\<lambda>off ln. compareSegment h (cancelled off) lf uf off ln la ua"
  have in_file: "off + ln \<le> length (df_data lf)" "off + ln \<le> length (df_data uf)" if "(off, ln) \<in> set ?segs" for off ln
    using segments_bounds [OF that] assms(5,6) by simp_all
  note seg = compareSegment_sound [OF assms(3,4,7) in_file]
  have all: "\<forall>r \<in> set (segment_results h cancelled lf uf la ua ?segs). \<exists>b. r = Inr b"
    unfolding segment_results_def using seg by (auto split: prod.splits) metis
  have "Inr False \<notin> set (segment_results h cancelled lf uf la ua ?segs) \<longleftrightarrow> df_data lf = df_data uf"
  proof
    assume none: "Inr False \<notin> set (segment_results h cancelled lf uf la ua ?segs)"
    show "df_data lf = df_data uf"
    proof (rule slices_equal [of _ _ "segmentWorkers NumCPU h"])
      fix off ln assume s: "(off, ln) \<in> set (segments (segmentWorkers NumCPU h) (length (df_data lf)))"
      then have s: "(off, ln) \<in> set ?segs" using assms(5) by simp
      obtain b where b: "?res off ln = Inr b" "b \<Longrightarrow> take ln (drop off (df_data lf)) = take ln (drop off (df_data uf))"
        using seg [OF s s] by metis
      have "?res off ln \<in> set (segment_results h cancelled lf uf la ua ?segs)" using s by (force simp: segment_results_def)
      then show "take ln (drop off (df_data lf)) = take ln (drop off (df_data uf))" using none b by (cases b) auto
    qed (use assms in simp)
  next
    assume same: "df_data lf = df_data uf"
    have quiet: "?res off ln = Inr True" if s: "(off, ln) \<in> set ?segs" "\<forall>p. \<not> cancelled off p" for off ln
      using seg [OF s(1) s(1), of "cancelled off" la ua] s(2) same by metis
    then have "\<forall>(off, ln) \<in> set ?segs. \<forall>pos. \<not> cancelled off pos" using assms(8) unfolding possible_schedule_def by blast
    then show "Inr False \<notin> set (segment_results h cancelled lf uf la ua ?segs)" using quiet by (auto simp: segment_results_def)
  qed
  then show "compareContentsParallel NumCPU F h cancelled la ua sz = Inr (df_data lf = df_data uf)"
    using firstFailure_bools [OF all] by (simp add: compareContentsParallel_def assms(1,2))
  show "compareContentsSequential F h la ua = Inr (df_data lf = df_data uf)"
    using sequential_loop_sound [OF assms(3,4) bufPool_pos [OF assms(7)]] by (simp add: compareContentsSequential_def assms(1,2))
qed

definition example_hasher :: two_phase_hasher where
  "example_hasher = \<lparr>th_BufPool = None, th_LargeFileThreshold = 0, th_SegmentWorkers = 4\<rparr>"

definition example_fs :: "nat list \<Rightarrow> nat list \<Rightarrow> (nat \<times> ds_error) option \<Rightarrow> hash_fs" where
  "example_fs l u bad = \<lparr>hf_Open = (\<lambda>p. if p = ''l'' then Inr \<lparr>df_data = l, df_bad = bad\<rparr> else if p = ''u'' then Inr \<lparr>df_data = u, df_bad = bad\<rparr> else Inl NotExist),
     hf_Readlink = (\<lambda>p. Inl NotExist)\<rparr>"

theorem compareContents_agree_witness:
  "compareContentsParallel 1 (example_fs [1, 2, 3] [1, 2, 4] None) example_hasher (\<lambda>_ _. False) ''l'' ''u'' 3 = Inr False
   \<and> compareContentsSequential (example_fs [1, 2, 3] [1, 2, 4] None) example_hasher ''l'' ''u'' = Inr False"
  using compareContents_agree [of "example_fs [1, 2, 3] [1, 2, 4] None" "''l''" "\<lparr>df_data = [1, 2, 3], df_bad = None\<rparr>" "''u''"
      "\<lparr>df_data = [1, 2, 4], df_bad = None\<rparr>" 3 example_hasher "\<lambda>_ _. False" 1]
  by (simp add: example_fs_def example_hasher_def possible_schedule_def)

text \<open>What a comparison of regular files answers, when the sizes that were read are the files' sizes and hard links have
  one content: true exactly for the same bytes, and for files of one size with one modification time, which are not
  read at all.\<close>

theorem Equal_regular_files:
  assumes "fi_Type l = TRegular" "fi_Type u = TRegular" "hf_Open F la = Inr lf" "hf_Open F ua = Inr uf" "df_bad lf = None" "df_bad uf = None"
    and "fi_Size l = int (length (df_data lf))" "fi_Size u = int (length (df_data uf))" "th_BufPool h \<noteq> Some 0"
    and "sameInode l u \<Longrightarrow> df_data lf = df_data uf"
    and "possible_schedule h cancelled lf uf la ua (segments (segmentWorkers NumCPU h) (length (df_data lf)))"
  shows "Equal NumCPU F h cancelled la ua l u =
    Inr (df_data lf = df_data uf \<or> (length (df_data lf) = length (df_data uf) \<and> fi_ModTime l = fi_ModTime u))"
proof (cases "length (df_data uf) = length (df_data lf)")
  case True
  then show ?thesis
    using compareContents_agree [OF assms(3-6) refl True assms(9,11)] assms(1,2,7,8,10)
    by (auto simp: Equal_def compareRegularFiles_def)
next
  case False
  then have "df_data lf \<noteq> df_data uf" by metis
  then show ?thesis using assms(1,2,7,8,10) False by (auto simp: Equal_def compareRegularFiles_def)
qed

definition example_info :: "int \<Rightarrow> int \<Rightarrow> file_info" where
  "example_info sz t = \<lparr>fi_Type = TRegular, fi_Perm = 420, fi_ModeBits = 0, fi_Size = sz, fi_ModTime = t, fi_Inode = None\<rparr>"

theorem Equal_regular_files_witness:
  "Equal 1 (example_fs [1, 2, 3] [1, 2, 4] None) example_hasher (\<lambda>_ _. False) ''l'' ''u'' (example_info 3 10) (example_info 3 10) = Inr True
   \<and> [1, 2, 3 :: nat] \<noteq> [1, 2, 4]"
  using Equal_regular_files [of "example_info 3 10" "example_info 3 10" "example_fs [1, 2, 3] [1, 2, 4] None" "''l''" "\<lparr>df_data = [1, 2, 3], df_bad = None\<rparr>" "''u''"
      "\<lparr>df_data = [1, 2, 4], df_bad = None\<rparr>" example_hasher "\<lambda>_ _. False" 1]
  by (simp add: example_info_def example_fs_def example_hasher_def possible_schedule_def sameInode_def)


text \<open>A read that returns all bytes has no error, so the loop never gets to its error branches.\<close>

lemma ReadAt_full: "length (fst (ReadAt F pos n)) \<ge> n \<Longrightarrow> 0 < n \<Longrightarrow> snd (ReadAt F pos n) = None"
  by (auto simp: ReadAt_def Let_def split: option.splits if_splits)

lemma segment_loop_no_error: "0 < B \<Longrightarrow> \<exists>b. segment_loop B cancelled lf uf la ua stop pos = Inr b"
proof (induction B cancelled lf uf la ua stop pos rule: segment_loop.induct)
  case (1 B cancelled lf uf la ua stop pos)
  let ?c = "min B (stop - pos)"
  obtain lb le where l: "ReadAt lf pos ?c = (lb, le)" by (cases "ReadAt lf pos ?c")
  obtain ub ue where u: "ReadAt uf pos ?c = (ub, ue)" by (cases "ReadAt uf pos ?c")
  show ?case
  proof (cases "stop \<le> pos \<or> cancelled pos \<or> lb \<noteq> ub \<or> length lb < ?c")
    case True
    then show ?thesis by (auto simp: segment_loop.simps [of B cancelled lf uf la ua stop pos] Let_def l u)
  next
    case False
    then have c: "\<not> stop \<le> pos" "\<not> cancelled pos" "\<not> lb \<noteq> ub" "\<not> length lb < ?c" "B \<noteq> 0" using 1(2) by auto
    then have "0 < ?c" by simp
    then have "le = None" "ue = None" using ReadAt_full [of ?c lf pos] ReadAt_full [of ?c uf pos] l u c by auto
    then have e: "real_error le = None" "real_error ue = None" by (simp_all add: real_error_def)
    have "\<exists>b. segment_loop B cancelled lf uf la ua stop (pos + ?c) = Inr b"
      by (rule 1(1) [OF c(1,2) refl l [symmetric] refl u [symmetric] refl c(3,4) e c(5) 1(2)])
    then show ?thesis unfolding segment_loop.simps [of B cancelled lf uf la ua stop pos] Let_def l u using c e by auto
  qed
qed

lemma segment_loop_faulty:
  assumes "df_bad lf = Some (b, e)" "df_bad uf = Some (b, e')" "take b (df_data lf) = take b (df_data uf)" "0 < B"
    and "stop \<le> length (df_data lf)" "stop \<le> length (df_data uf)" "\<forall>p. \<not> cancelled p"
  shows "segment_loop B cancelled lf uf la ua stop pos = Inr True"
  using assms
proof (induction B cancelled lf uf la ua stop pos rule: segment_loop.induct)
  case (1 B cancelled lf uf la ua stop pos)
  let ?c = "min B (stop - pos)"
  obtain lb le where l: "ReadAt lf pos ?c = (lb, le)" by (cases "ReadAt lf pos ?c")
  obtain ub ue where u: "ReadAt uf pos ?c = (ub, ue)" by (cases "ReadAt uf pos ?c")
  have part: "take m (take n (drop p xs)) = take m (take n (drop p ys))" if "take b xs = take b ys" "p + min m n \<le> b" for m n p and xs ys :: "nat list"
  proof -
    have "take m (take n (drop p zs)) = drop p (take (p + min m n) (take b zs))" for zs :: "nat list"
    proof -
      have "take m (take n (drop p zs)) = take (min m n) (drop p zs)" by (rule take_take)
      also have "\<dots> = drop p (take (p + min m n) zs)" by (simp only: take_drop add.commute)
      also have "\<dots> = drop p (take (min (p + min m n) b) zs)" using that(2) by (simp only: min_absorb1)
      finally show ?thesis by (simp only: take_take)
    qed
    then show ?thesis using that(1) by (simp only:)
  qed
  show ?case
  proof (cases "stop \<le> pos")
    case True
    then show ?thesis by (simp add: segment_loop.simps [of B cancelled lf uf la ua stop pos])
  next
    case False
    then have c0: "0 < ?c" "pos + ?c \<le> length (df_data lf)" "pos + ?c \<le> length (df_data uf)" using 1(5-7) by auto
    show ?thesis
    proof (cases "b < pos + ?c")
      case True
      have n: "pos + min (b - pos) ?c \<le> b \<or> b - pos = 0" by auto
      have "lb = take (b - pos) (take ?c (drop pos (df_data lf)))" "ub = take (b - pos) (take ?c (drop pos (df_data uf)))"
        using l u 1(2,3) True c0 by (auto simp: ReadAt_def Let_def simp del: take_take)
      moreover from this have "lb = ub" using part [OF 1(4), of pos "b - pos" ?c] n by auto
      moreover have "length lb < ?c"
      proof -
        have "length lb \<le> b - pos" using calculation(1) by simp
        then show ?thesis using True c0(1) by linarith
      qed
      ultimately show ?thesis unfolding segment_loop.simps [of B cancelled lf uf la ua stop pos] Let_def l u using False 1(8) by simp
    next
      case False
      have lu: "lb = take ?c (drop pos (df_data lf))" "ub = take ?c (drop pos (df_data uf))" "le = None" "ue = None"
        using l u 1(2,3) False c0 by (auto simp: ReadAt_def Let_def)
      moreover have "lb = ub" using part [OF 1(4), of pos ?c ?c] False lu(1,2) by simp
      moreover have "length lb = ?c" using lu(1) c0(2) by simp
      ultimately have c: "\<not> stop \<le> pos" "\<not> cancelled pos" "\<not> lb \<noteq> ub" "\<not> length lb < ?c" "real_error le = None" "real_error ue = None" "B \<noteq> 0"
        using \<open>\<not> stop \<le> pos\<close> 1(5,8) by (simp_all add: real_error_def)
      have "segment_loop B cancelled lf uf la ua stop (pos + ?c) = Inr True"
        by (rule 1(1) [OF c(1,2) refl l [symmetric] refl u [symmetric] refl c(3-7) 1(2-8)])
      then show ?thesis unfolding segment_loop.simps [of B cancelled lf uf la ua stop pos] Let_def l u using c by simp
    qed
  qed
qed

lemma sequential_loop_faulty:
  assumes "df_bad lf = Some (b, e)" "df_bad uf = Some (b, e')" "take b (df_data lf) = take b (df_data uf)" "0 < B"
    and "b < length (df_data lf)" "b < length (df_data uf)" "pos \<le> b"
  shows "sequential_loop B lf uf la ua pos = Inl (Wrap [''read lower'', la] e)"
  using assms
proof (induction B lf uf la ua pos rule: sequential_loop.induct)
  case (1 B lf uf la ua pos)
  have part: "take m (drop pos xs) = take m (drop pos ys)" if "take b xs = take b ys" "pos + m \<le> b" for m and xs ys :: "nat list"
  proof -
    have "take m (drop pos zs) = drop pos (take (pos + m) (take b zs))" for zs :: "nat list"
      using that(2) by (simp add: take_drop add.commute min_absorb1)
    then show ?thesis using that(1) by (simp only:)
  qed
  show ?case
  proof (cases "b < pos + B")
    case True
    then have "ReadFull F pos B = (take (b - pos) (drop pos (df_data F)), Some (Fault x))" if "df_bad F = Some (b, x)" "b < length (df_data F)" for F x
      using that by (simp add: ReadFull_def ReadAt_def Let_def min_def)
    note r = this [OF 1(2,6)] this [OF 1(3,7)]
    have "take (b - pos) (drop pos (df_data lf)) = take (b - pos) (drop pos (df_data uf))" using part [OF 1(4)] 1(8) by simp
    then show ?thesis by (simp add: sequential_loop.simps [of B lf uf la ua pos] r)
  next
    case False
    then have r: "ReadFull F pos B = (take B (drop pos (df_data F)), None)" if "df_bad F = Some (b, x)" "b < length (df_data F)" for F x
      using that by (simp add: ReadFull_def ReadAt_def Let_def)
    have same: "take B (drop pos (df_data lf)) = take B (drop pos (df_data uf))" using part [OF 1(4)] False by simp
    have "sequential_loop B lf uf la ua (pos + B) = Inl (Wrap [''read lower'', la] e)"
      by (rule 1(1) [OF r [OF 1(2,6), symmetric] refl r [OF 1(3,7), symmetric] refl]) (use 1(2-8) same False in simp_all)
    then show ?thesis using same 1(5) by (simp add: sequential_loop.simps [of B lf uf la ua pos] r [OF 1(2,6)] r [OF 1(3,7)])
  qed
qed

text \<open>Read errors of large files are lost. A segment never reports an error, because a failing read is short and a short read is
  taken for the end of the file: two large files that both become unreadable at the same position are reported equal,
  whatever their remaining bytes, where the sequential comparison of the same files reports the error.\<close>

theorem compareContentsParallel_loses_read_errors:
  assumes "hf_Open F la = Inr lf" "hf_Open F ua = Inr uf" "df_bad lf = Some (b, e)" "df_bad uf = Some (b, e')"
    and "take b (df_data lf) = take b (df_data uf)" "b < sz" "length (df_data lf) = sz" "length (df_data uf) = sz" "th_BufPool h \<noteq> Some 0"
    and "\<And>off pos. \<not> cancelled off pos"
  shows "compareContentsParallel NumCPU F h cancelled la ua sz = Inr True
    \<and> compareContentsSequential F h la ua = Inl (Wrap [''read lower'', la] e)
    \<and> (\<forall>c off ln. \<exists>eq. compareSegment h c lf uf off ln la ua = Inr eq)"
proof (intro conjI allI)
  have "compareSegment h (cancelled off) lf uf off ln la ua = Inr True" if "(off, ln) \<in> set (segments (segmentWorkers NumCPU h) sz)" for off ln
    using segment_loop_faulty [OF assms(3-5) bufPool_pos [OF assms(9)]] segments_bounds [OF that] assms(7,8,10) by (simp add: compareSegment_def)
  then have "set (segment_results h cancelled lf uf la ua (segments (segmentWorkers NumCPU h) sz)) \<subseteq> {Inr True}"
    by (auto simp: segment_results_def)
  moreover have "set rs \<subseteq> {Inr True} \<Longrightarrow> firstFailure rs = Inr True" for rs by (induction rs) auto
  ultimately show "compareContentsParallel NumCPU F h cancelled la ua sz = Inr True" by (simp add: compareContentsParallel_def assms(1,2))
  show "compareContentsSequential F h la ua = Inl (Wrap [''read lower'', la] e)"
    using sequential_loop_faulty [OF assms(3-5) bufPool_pos [OF assms(9)]] assms(6-8) by (simp add: compareContentsSequential_def assms(1,2))
  show "\<exists>eq. compareSegment h c lf uf off ln la ua = Inr eq" for c off ln
    using segment_loop_no_error [OF bufPool_pos [OF assms(9)]] by (simp add: compareSegment_def)
qed

theorem compareContentsParallel_loses_read_errors_witness:
  "compareContentsParallel 1 (example_fs [1, 2, 3] [1, 2, 4] (Some (2, Sys ''EIO''))) example_hasher (\<lambda>_ _. False) ''l'' ''u'' 3 = Inr True"
  using compareContentsParallel_loses_read_errors [of "example_fs [1, 2, 3] [1, 2, 4] (Some (2, Sys ''EIO''))" "''l''"
      "\<lparr>df_data = [1, 2, 3], df_bad = Some (2, Sys ''EIO'')\<rparr>" "''u''" "\<lparr>df_data = [1, 2, 4], df_bad = Some (2, Sys ''EIO'')\<rparr>" 2 "Sys ''EIO''" "Sys ''EIO''" 3 example_hasher "\<lambda>_ _. False" 1]
  by (simp add: example_fs_def example_hasher_def)

end
