(* ===== verification/Ds_Handler.thy ===== *)
theory Ds_Handler
  imports Ds_Core
begin

text \<open>
  Handlers of the two streams (\<open>handler.go\<close>, \<open>actions.go\<close>). A handler takes an entry and changes a
  state; the combinators run several handlers on one state. A handler type of the source that keeps
  counters or a list is the definition of its state with its \<open>Handle\<close> method.
\<close>

section \<open>Combinators\<close>

type_synonym ('a, 's) handler = "'a \<Rightarrow> 's \<Rightarrow> ds_error option \<times> 's"

definition NoopExclusiveHandler :: "(exclusive_path, 's) handler" where "NoopExclusiveHandler ep s = (None, s)"

definition NoopCommonHandler :: "(common_path, 's) handler" where "NoopCommonHandler cp s = (None, s)"

fun run_chain :: "('a, 's) handler list \<Rightarrow> ('a, 's) handler" where
  "run_chain [] a s = (None, s)"
| "run_chain (h # hs) a s = (case h a s of (Some err, s') \<Rightarrow> (Some err, s') | (None, s') \<Rightarrow> run_chain hs a s')"

definition ChainExclusiveHandler :: "(exclusive_path, 's) handler list \<Rightarrow> (exclusive_path, 's) handler" where
  "ChainExclusiveHandler = run_chain"

definition ChainCommonHandler :: "(common_path, 's) handler list \<Rightarrow> (common_path, 's) handler" where
  "ChainCommonHandler = run_chain"

fun run_multi :: "('a, 's) handler list \<Rightarrow> 'a \<Rightarrow> ds_error list \<Rightarrow> 's \<Rightarrow> ds_error list \<times> 's" where
  "run_multi [] a errs s = (errs, s)"
| "run_multi (h # hs) a errs s = (case h a s of (err, s') \<Rightarrow> run_multi hs a (case err of None \<Rightarrow> errs | Some e \<Rightarrow> errs @ [e]) s')"

definition MultiExclusiveHandler :: "(exclusive_path, 's) handler list \<Rightarrow> (exclusive_path, 's) handler" where
  "MultiExclusiveHandler m ep s = (case run_multi m ep [] s of (errs, s') \<Rightarrow> (joinErrors errs, s'))"

definition MultiCommonHandler :: "(common_path, 's) handler list \<Rightarrow> (common_path, 's) handler" where
  "MultiCommonHandler m cp s = (case run_multi m cp [] s of (errs, s') \<Rightarrow> (joinErrors errs, s'))"

definition PredicateExclusiveHandler :: "(exclusive_path \<Rightarrow> bool) \<Rightarrow> (exclusive_path, 's) handler \<Rightarrow> (exclusive_path, 's) handler" where
  "PredicateExclusiveHandler P h ep s = (if P ep then h ep s else (None, s))"

definition PredicateCommonHandler :: "(common_path \<Rightarrow> bool) \<Rightarrow> (common_path, 's) handler \<Rightarrow> (common_path, 's) handler" where
  "PredicateCommonHandler P h cp s = (if P cp then h cp s else (None, s))"

section \<open>Predicates\<close>

definition OnlyCollapsed :: "exclusive_path \<Rightarrow> bool" where "OnlyCollapsed ep = ep_Collapsed ep"

definition OnlyKind :: "path_kind \<Rightarrow> exclusive_path \<Rightarrow> bool" where "OnlyKind k ep \<longleftrightarrow> ep_Kind ep = k"

definition OnlyChanged :: "common_path \<Rightarrow> bool" where
  "OnlyChanged cp = (case IsContentEqual cp of (eq, checked) \<Rightarrow> checked \<and> \<not> eq)"

definition OnlyUnchanged :: "common_path \<Rightarrow> bool" where
  "OnlyUnchanged cp = (case IsContentEqual cp of (eq, checked) \<Rightarrow> checked \<and> eq)"

definition OnlyTypeMismatched :: "common_path \<Rightarrow> bool" where "OnlyTypeMismatched cp = TypeMismatch cp"

section \<open>Counting\<close>

record exclusive_counts =
  ec_files :: int
  ec_dirs :: int
  ec_symlinks :: int
  ec_other :: int
  ec_collapsed :: int

definition CountingExclusiveHandler :: "(exclusive_path, exclusive_counts) handler" where
  "CountingExclusiveHandler ep c =
     (let c' = (case ep_Kind ep of
          KFile \<Rightarrow> c\<lparr>ec_files := ec_files c + 1\<rparr>
        | KDir \<Rightarrow> c\<lparr>ec_dirs := ec_dirs c + 1\<rparr>
        | KSymlink \<Rightarrow> c\<lparr>ec_symlinks := ec_symlinks c + 1\<rparr>
        | _ \<Rightarrow> c\<lparr>ec_other := ec_other c + 1\<rparr>)
      in (None, if ep_Collapsed ep then c'\<lparr>ec_collapsed := ec_collapsed c' + 1\<rparr> else c'))"

definition ec_Total :: "exclusive_counts \<Rightarrow> int" where
  "ec_Total e = ec_files e + ec_dirs e + ec_symlinks e + ec_other e"

record common_counts =
  cc_total :: int
  cc_equal :: int
  cc_changed :: int
  cc_unchecked :: int
  cc_mismatch :: int

definition CountingCommonHandler :: "(common_path, common_counts) handler" where
  "CountingCommonHandler cp c =
     (let c' = c\<lparr>cc_total := cc_total c + 1\<rparr> in
      if TypeMismatch cp then (None, c'\<lparr>cc_mismatch := cc_mismatch c' + 1\<rparr>)
      else case IsContentEqual cp of (eq, checked) \<Rightarrow>
        (if \<not> checked then (None, c'\<lparr>cc_unchecked := cc_unchecked c' + 1\<rparr>)
         else if eq then (None, c'\<lparr>cc_equal := cc_equal c' + 1\<rparr>)
         else (None, c'\<lparr>cc_changed := cc_changed c' + 1\<rparr>)))"

section \<open>Collecting\<close>

definition CollectingExclusiveHandler :: "(exclusive_path, exclusive_path list) handler" where
  "CollectingExclusiveHandler ep paths = (None, paths @ [ep])"

definition CollectingCommonHandler :: "(common_path, common_path list) handler" where
  "CollectingCommonHandler cp paths = (None, paths @ [cp])"

definition AccumulatingExclusiveHandler :: "(exclusive_path, pruning_set) handler" where
  "AccumulatingExclusiveHandler ep es = (None, snd (ps_Add ep es))"

text \<open>The line of a dry run, as its parts, is given to the writer.\<close>

definition DryRunExclusiveHandler :: "(string list \<Rightarrow> 's \<Rightarrow> ds_error option \<times> 's) \<Rightarrow> (exclusive_path, 's) handler" where
  "DryRunExclusiveHandler write ep s =
     (let verb = (if ep_Collapsed ep then ''removeAll'' else ''remove'') in write [verb, ep_Path ep, path_kind_String (ep_Kind ep)] s)"

section \<open>Lemmas\<close>

text \<open>A stream of entries through a handler that cannot fail.\<close>

definition handle_all :: "('a, 's) handler \<Rightarrow> 'a list \<Rightarrow> 's \<Rightarrow> 's" where
  "handle_all h = fold (\<lambda>a s. snd (h a s))"

lemma handle_all_append [simp]: "handle_all h (xs @ ys) s = handle_all h ys (handle_all h xs s)" "handle_all h [x] s = snd (h x s)" "handle_all h [] s = s"
  by (simp_all add: handle_all_def)

text \<open>A chain stops at the first error, a fan-out reaches every handler: both leave the same state when nothing fails.\<close>

lemma chain_multi_agree:
  "(\<And>h s. h \<in> set hs \<Longrightarrow> fst (h a s) = None) \<Longrightarrow> run_multi hs a errs s = (errs, snd (run_chain hs a s)) \<and> fst (run_chain hs a s) = None"
proof (induction hs arbitrary: s)
  case (Cons h hs)
  obtain err s' where "h a s = (err, s')" by (cases "h a s")
  then show ?case using Cons.prems [of h s] Cons.IH [of s'] Cons.prems by simp
qed simp

definition ec_zero :: exclusive_counts where
  "ec_zero = \<lparr>ec_files = 0, ec_dirs = 0, ec_symlinks = 0, ec_other = 0, ec_collapsed = 0\<rparr>"

definition cc_zero :: common_counts where
  "cc_zero = \<lparr>cc_total = 0, cc_equal = 0, cc_changed = 0, cc_unchecked = 0, cc_mismatch = 0\<rparr>"

lemma exclusive_counts_are_counts:
  "handle_all CountingExclusiveHandler eps ec_zero =
    \<lparr>ec_files = int (length (filter (OnlyKind KFile) eps)), ec_dirs = int (length (filter (OnlyKind KDir) eps)),
      ec_symlinks = int (length (filter (OnlyKind KSymlink) eps)),
      ec_other = int (length (filter (\<lambda>ep. OnlyKind KOther ep \<or> OnlyKind KUnknown ep) eps)),
      ec_collapsed = int (length (filter OnlyCollapsed eps))\<rparr>"
proof (induction eps rule: rev_induct)
  case (snoc ep eps)
  then show ?case by (cases "ep_Kind ep") (simp_all add: CountingExclusiveHandler_def OnlyKind_def OnlyCollapsed_def Let_def)
qed (simp add: ec_zero_def)

lemma exclusive_counts_total: "ec_Total (handle_all CountingExclusiveHandler eps ec_zero) = int (length eps)"
proof (induction eps rule: rev_induct)
  case (snoc ep eps)
  then show ?case by (cases "ep_Kind ep") (simp_all add: CountingExclusiveHandler_def ec_Total_def Let_def)
qed (simp add: ec_zero_def ec_Total_def)

text \<open>The counters partition the common stream: whatever entries pass and in whatever order, every entry is counted in the
  total and in exactly one of the mismatched, equal, changed and unchecked ones; a mismatched entry is never counted
  as equal or changed.\<close>

theorem CountingCommonHandler_partitions:
  "let c = handle_all CountingCommonHandler cps cc_zero; same = filter (\<lambda>cp. \<not> OnlyTypeMismatched cp) cps in
    cc_total c = int (length cps) \<and> cc_mismatch c = int (length (filter OnlyTypeMismatched cps))
    \<and> cc_equal c = int (length (filter OnlyUnchanged same)) \<and> cc_changed c = int (length (filter OnlyChanged same))
    \<and> cc_total c = cc_equal c + cc_changed c + cc_unchecked c + cc_mismatch c"
proof (induction cps rule: rev_induct)
  case (snoc cp cps)
  then show ?case
    by (cases "cp_HashEqual cp") (simp_all add: CountingCommonHandler_def OnlyTypeMismatched_def OnlyUnchanged_def OnlyChanged_def IsContentEqual_def Let_def split: bool.split)
qed (simp add: cc_zero_def)

end
