(* ===== verification/Ds_View.thy ===== *)
theory Ds_View
  imports Ds_Core
begin

text \<open>
  The merged view (\<open>merged_view.go\<close>), the only target of mutations, and the operations on it
  (\<open>executeOp\<close> of \<open>batcher.go\<close>). A view is a record of its methods on a state. The file system calls of
  \<open>FSMergedView\<close> are a record too; \<open>path_disk\<close> is the file system that the theorems use, the set of
  the absolute paths that exist.
\<close>

section \<open>Views\<close>

record 'v merged_view =
  mv_Remove :: "string \<Rightarrow> 'v \<Rightarrow> ds_error option \<times> 'v"
  mv_RemoveAll :: "string \<Rightarrow> 'v \<Rightarrow> ds_error option \<times> 'v"
  mv_Stat :: "string \<Rightarrow> 'v \<Rightarrow> ds_error + file_info"
  mv_AbsPath :: "string \<Rightarrow> string"
  mv_Root :: string

record 'd os_calls =
  os_Abs :: "string \<Rightarrow> ds_error + string"
  os_Stat :: "string \<Rightarrow> 'd \<Rightarrow> ds_error + file_info"
  os_Lstat :: "string \<Rightarrow> 'd \<Rightarrow> ds_error + file_info"
  os_Remove :: "string \<Rightarrow> 'd \<Rightarrow> ds_error option \<times> 'd"
  os_RemoveAll :: "string \<Rightarrow> 'd \<Rightarrow> ds_error option \<times> 'd"

subsection \<open>On disk\<close>

definition fv_AbsPath :: "string \<Rightarrow> string \<Rightarrow> string" where
  "fv_AbsPath root' relPath = filepath_Join [root', relPath]"

definition fv_Remove :: "'d os_calls \<Rightarrow> string \<Rightarrow> string \<Rightarrow> 'd \<Rightarrow> ds_error option \<times> 'd" where
  "fv_Remove os root' relPath d =
     (case os_Remove os (fv_AbsPath root' relPath) d of
        (None, d') \<Rightarrow> (None, d')
      | (Some err, d') \<Rightarrow> (if \<not> is_not_exist err then (wrapOp ''remove'' relPath (Some err), d') else (None, d')))"

definition fv_RemoveAll :: "'d os_calls \<Rightarrow> string \<Rightarrow> string \<Rightarrow> 'd \<Rightarrow> ds_error option \<times> 'd" where
  "fv_RemoveAll os root' relPath d =
     (case os_RemoveAll os (fv_AbsPath root' relPath) d of
        (None, d') \<Rightarrow> (None, d')
      | (Some err, d') \<Rightarrow> (wrapOp ''removeAll'' relPath (Some err), d'))"

definition fv_Stat :: "'d os_calls \<Rightarrow> string \<Rightarrow> string \<Rightarrow> 'd \<Rightarrow> ds_error + file_info" where
  "fv_Stat os root' relPath d =
     (case os_Lstat os (fv_AbsPath root' relPath) d of
        Inl err \<Rightarrow> Inl (OpError ''stat'' relPath err)
      | Inr info \<Rightarrow> Inr info)"

definition FSMergedView :: "'d os_calls \<Rightarrow> string \<Rightarrow> 'd merged_view" where
  "FSMergedView os root' = \<lparr>mv_Remove = fv_Remove os root', mv_RemoveAll = fv_RemoveAll os root', mv_Stat = fv_Stat os root',
     mv_AbsPath = fv_AbsPath root', mv_Root = root'\<rparr>"

definition NewFSMergedView :: "'d os_calls \<Rightarrow> string \<Rightarrow> 'd \<Rightarrow> ds_error + 'd merged_view" where
  "NewFSMergedView os dir d =
     (case os_Abs os dir of
        Inl err \<Rightarrow> Inl (Wrap [''merged view: resolve path'', dir] err)
      | Inr abs' \<Rightarrow>
          (case os_Stat os abs' d of
             Inl err \<Rightarrow> Inl (Wrap [''merged view: stat root'', abs'] err)
           | Inr info \<Rightarrow> (if \<not> IsDir info then Inl (Msg [''merged view: root'', abs', ''is not a directory'']) else Inr (FSMergedView os abs'))))"

subsection \<open>In memory\<close>

record mem_view =
  mm_root :: string
  mm_Removed :: "string list"
  mm_RemovedAll :: "string list"

definition NewMemMergedView :: "string \<Rightarrow> mem_view" where
  "NewMemMergedView root' = \<lparr>mm_root = root', mm_Removed = [], mm_RemovedAll = []\<rparr>"

definition mm_AbsPath :: "mem_view \<Rightarrow> string \<Rightarrow> string" where
  "mm_AbsPath m relPath = filepath_Join [mm_root m, relPath]"

definition mm_Remove :: "string \<Rightarrow> mem_view \<Rightarrow> ds_error option \<times> mem_view" where
  "mm_Remove relPath m = (None, m\<lparr>mm_Removed := mm_Removed m @ [relPath]\<rparr>)"

definition mm_RemoveAll :: "string \<Rightarrow> mem_view \<Rightarrow> ds_error option \<times> mem_view" where
  "mm_RemoveAll relPath m = (None, m\<lparr>mm_RemovedAll := mm_RemovedAll m @ [relPath]\<rparr>)"

definition mm_Stat :: "string \<Rightarrow> mem_view \<Rightarrow> ds_error + file_info" where
  "mm_Stat relPath m = Inl NotExist"

definition mm_AllOps :: "mem_view \<Rightarrow> string list" where
  "mm_AllOps m = mm_Removed m @ mm_RemovedAll m"

definition mm_Reset :: "mem_view \<Rightarrow> mem_view" where
  "mm_Reset m = m\<lparr>mm_Removed := [], mm_RemovedAll := []\<rparr>"

definition MemMergedView :: "string \<Rightarrow> mem_view merged_view" where
  "MemMergedView root' = \<lparr>mv_Remove = mm_Remove, mv_RemoveAll = mm_RemoveAll, mv_Stat = mm_Stat,
     mv_AbsPath = mm_AbsPath (NewMemMergedView root'), mv_Root = root'\<rparr>"

section \<open>Operations\<close>

text \<open>\<open>OpKind\<close> is an unsigned byte: \<open>OpOther\<close> stands for the values without a name.\<close>

datatype op_kind = OpRemove | OpRemoveAll | OpOther nat

definition op_kind_String :: "op_kind \<Rightarrow> string" where
  "op_kind_String k = (case k of OpRemove \<Rightarrow> ''remove'' | OpRemoveAll \<Rightarrow> ''removeAll'' | OpOther n \<Rightarrow> ''unknown'')"

datatype op_tag = NoTag | TagExclusive exclusive_path | TagCommon common_path | TagInfo file_info

record batch_op =
  bo_Kind :: op_kind
  bo_RelPath :: string
  bo_Tag :: op_tag

text \<open>\<open>ctxErr\<close> is \<open>ctx.Err()\<close> at the start of the operation.\<close>

definition executeOp :: "'v merged_view \<Rightarrow> ds_error option \<Rightarrow> batch_op \<Rightarrow> 'v \<Rightarrow> ds_error option \<times> 'v" where
  "executeOp M ctxErr bop v =
     (case ctxErr of
        Some err \<Rightarrow> (Some err, v)
      | None \<Rightarrow>
          (case bo_Kind bop of
             OpRemove \<Rightarrow> mv_Remove M (bo_RelPath bop) v
           | OpRemoveAll \<Rightarrow> mv_RemoveAll M (bo_RelPath bop) v
           | OpOther n \<Rightarrow> (Some (Msg [''batcher: unknown op kind'', bo_RelPath bop]), v)))"

text \<open>What a batch records of an operation's outcome, and a batch executed one operation after the other.\<close>

definition batch_error :: "batch_op \<Rightarrow> ds_error option \<Rightarrow> ds_error list" where
  "batch_error bop r = (case r of None \<Rightarrow> [] | Some err \<Rightarrow>
     (if isContextErr err then [] else [Wrap [op_kind_String (bo_Kind bop), bo_RelPath bop] err]))"

definition run_op :: "'v merged_view \<Rightarrow> batch_op \<Rightarrow> ds_error list \<times> 'v \<Rightarrow> ds_error list \<times> 'v" where
  "run_op M bop r = (case executeOp M None bop (snd r) of (err, v') \<Rightarrow> (fst r @ batch_error bop err, v'))"

abbreviation run_ops :: "'v merged_view \<Rightarrow> batch_op list \<Rightarrow> ds_error list \<times> 'v \<Rightarrow> ds_error list \<times> 'v" where
  "run_ops M \<equiv> fold (run_op M)"

section \<open>What a view of paths promises\<close>

definition plain_names :: "string list \<Rightarrow> bool" where
  "plain_names ns \<longleftrightarrow> ns \<noteq> [] \<and> (\<forall>n \<in> set ns. plain_name n)"

locale path_view =
  fixes view :: "'v merged_view" and paths :: "'v \<Rightarrow> string list set"
  assumes Remove_leaf: "plain_names ns \<Longrightarrow> (\<And>ts. ns @ ts \<in> paths v \<Longrightarrow> ts = []) \<Longrightarrow>
      fst (mv_Remove view (rel_path ns) v) = None \<and> paths (snd (mv_Remove view (rel_path ns) v)) = paths v - {ns}"
    and RemoveAll_tree: "plain_names ns \<Longrightarrow>
      fst (mv_RemoveAll view (rel_path ns) v) = None \<and> paths (snd (mv_RemoveAll view (rel_path ns) v)) = {ms \<in> paths v. \<nexists>ts. ms = ns @ ts}"
begin

text \<open>A list of operations, executed one after the other; \<open>targets\<close> are the paths that an operation removes.\<close>

definition targets :: "batch_op \<Rightarrow> string list set" where
  "targets bop = (if bo_Kind bop = OpRemoveAll then {ns @ ts | ns ts. rel_path ns = bo_RelPath bop \<and> plain_names ns}
     else {ns. rel_path ns = bo_RelPath bop \<and> plain_names ns})"

definition sound_op :: "'v \<Rightarrow> batch_op \<Rightarrow> bool" where
  "sound_op v bop \<longleftrightarrow> (\<exists>ns. plain_names ns \<and> bo_RelPath bop = rel_path ns \<and>
     (bo_Kind bop = OpRemoveAll \<or> (bo_Kind bop = OpRemove \<and> (\<forall>ts. ns @ ts \<in> paths v \<longrightarrow> ts = []))))"

lemma rel_path_plain: "plain_names ns \<Longrightarrow> plain_names ms \<Longrightarrow> rel_path ns = rel_path ms \<longleftrightarrow> ns = ms"
  unfolding plain_names_def using split_rel_path by metis

lemma execute_sound:
  assumes "sound_op v bop"
  shows "fst (executeOp view None bop v) = None" "paths (snd (executeOp view None bop v)) = paths v - targets bop"
proof -
  obtain ns where ns: "plain_names ns" "bo_RelPath bop = rel_path ns"
    "bo_Kind bop = OpRemoveAll \<or> (bo_Kind bop = OpRemove \<and> (\<forall>ts. ns @ ts \<in> paths v \<longrightarrow> ts = []))"
    using assms unfolding sound_op_def by blast
  have r: "rel_path ms = rel_path ns \<and> plain_names ms \<longleftrightarrow> ms = ns" for ms using rel_path_plain ns(1) by blast
  have "fst (executeOp view None bop v) = None \<and> paths (snd (executeOp view None bop v)) = paths v - targets bop"
  proof (cases "bo_Kind bop = OpRemoveAll")
    case True
    have "targets bop = {ns @ ts | ts. True}" using r by (auto simp: targets_def True ns(2))
    then show ?thesis using RemoveAll_tree [OF ns(1), of v] by (auto simp: executeOp_def True ns(2))
  next
    case False
    then have "targets bop = {ns}" using r by (auto simp: targets_def ns(2))
    then show ?thesis using Remove_leaf [OF ns(1), of v] ns(2,3) False by (auto simp: executeOp_def)
  qed
  then show "fst (executeOp view None bop v) = None" "paths (snd (executeOp view None bop v)) = paths v - targets bop" by simp_all
qed

lemma sound_op_later: "sound_op v bop \<Longrightarrow> paths v' \<subseteq> paths v \<Longrightarrow> sound_op v' bop"
  unfolding sound_op_def by blast

lemma run_sound_ops:
  "(\<And>bop. bop \<in> set bops \<Longrightarrow> sound_op v bop) \<Longrightarrow>
   fst (run_ops view bops (errs, v)) = errs \<and> paths (snd (run_ops view bops (errs, v))) = paths v - (\<Union>bop \<in> set bops. targets bop)"
proof (induction bops arbitrary: v)
  case (Cons bop bops)
  obtain v' where v': "executeOp view None bop v = (None, v')" "paths v' = paths v - targets bop"
    using execute_sound [of v bop] Cons.prems [of bop] by (cases "executeOp view None bop v") auto
  have "sound_op v' b" if "b \<in> set bops" for b
    using sound_op_later [of v b v'] Cons.prems [of b] that v'(2) by auto
  then show ?case using Cons.IH [of v'] v' by (auto simp: run_op_def batch_error_def)
qed simp

end

section \<open>The set of existing paths\<close>

text \<open>A path of the disk is the list of its names.\<close>

definition disk_names :: "string \<Rightarrow> string list" where
  "disk_names p = filter (\<lambda>n. n \<noteq> '''') (split_on CHR ''/'' p)"

definition pd_Remove :: "string \<Rightarrow> string list set \<Rightarrow> ds_error option \<times> string list set" where
  "pd_Remove p D =
     (let ns = disk_names p in
      if ns \<notin> D then (Some NotExist, D)
      else if \<exists>ms \<in> D. take (length ns) ms = ns \<and> ms \<noteq> ns then (Some (Sys ''directory not empty''), D)
      else (None, D - {ns}))"

definition pd_RemoveAll :: "string \<Rightarrow> string list set \<Rightarrow> ds_error option \<times> string list set" where
  "pd_RemoveAll p D = (let ns = disk_names p in (None, {ms \<in> D. take (length ns) ms \<noteq> ns}))"

definition path_disk :: "(string \<Rightarrow> file_info) \<Rightarrow> string list set os_calls" where
  "path_disk info = \<lparr>os_Abs = (\<lambda>p. Inr p), os_Stat = (\<lambda>p D. if disk_names p \<in> D then Inr (info p) else Inl NotExist),
     os_Lstat = (\<lambda>p D. if disk_names p \<in> D then Inr (info p) else Inl NotExist), os_Remove = pd_Remove, os_RemoveAll = pd_RemoveAll\<rparr>"

text \<open>The paths of a view at the directory with the names \<open>rs\<close>.\<close>

definition view_paths :: "string list \<Rightarrow> string list set \<Rightarrow> string list set" where
  "view_paths rs D = {ns. rs @ ns \<in> D}"

lemma disk_names_join:
  assumes "plain_names ns" "\<forall>n \<in> set rs. plain_name n"
  shows "disk_names (filepath_Join [abs_path rs, rel_path ns]) = rs @ ns"
proof -
  have p: "\<forall>n \<in> set (rs @ ns). plain_name n" "ns \<noteq> []" using assms by (auto simp: plain_names_def)
  have "filter (\<lambda>n. n \<noteq> '''') (rs @ ns) = rs @ ns" using p(1) by (intro filter_True) (auto simp: plain_name_def)
  then show ?thesis using split_abs_path [OF p(1)] p(2) by (simp add: disk_names_def Join_abs_rel_path [OF p])
qed

lemma prefix_take: "take (length ns) ms = ns \<longleftrightarrow> (\<exists>ts. ms = ns @ ts)"
  by (metis append_eq_conv_conj append_take_drop_id)

lemma fs_view_laws:
  assumes "\<forall>n \<in> set rs. plain_name n"
  shows "path_view (FSMergedView (path_disk info) (abs_path rs)) (view_paths rs)"
proof
  fix ns D assume ns: "plain_names ns" and leaf: "\<And>ts. ns @ ts \<in> view_paths rs D \<Longrightarrow> ts = []"
  note names = disk_names_join [OF ns assms]
  have "\<not> (\<exists>ms \<in> D. take (length (rs @ ns)) ms = rs @ ns \<and> ms \<noteq> rs @ ns)"
    using leaf unfolding prefix_take view_paths_def by auto
  then show "fst (mv_Remove (FSMergedView (path_disk info) (abs_path rs)) (rel_path ns) D) = None
      \<and> view_paths rs (snd (mv_Remove (FSMergedView (path_disk info) (abs_path rs)) (rel_path ns) D)) = view_paths rs D - {ns}"
    by (auto simp: FSMergedView_def fv_Remove_def path_disk_def pd_Remove_def Let_def fv_AbsPath_def names view_paths_def)
next
  fix ns D assume ns: "plain_names ns"
  note names = disk_names_join [OF ns assms]
  have "fst (mv_RemoveAll (FSMergedView (path_disk info) (abs_path rs)) (rel_path ns) D) = None"
    "snd (mv_RemoveAll (FSMergedView (path_disk info) (abs_path rs)) (rel_path ns) D) = {ms \<in> D. \<nexists>ts. ms = (rs @ ns) @ ts}"
    unfolding prefix_take [symmetric] by (simp_all add: FSMergedView_def fv_RemoveAll_def path_disk_def pd_RemoveAll_def Let_def fv_AbsPath_def names)
  then show "fst (mv_RemoveAll (FSMergedView (path_disk info) (abs_path rs)) (rel_path ns) D) = None
      \<and> view_paths rs (snd (mv_RemoveAll (FSMergedView (path_disk info) (abs_path rs)) (rel_path ns) D)) = {ms \<in> view_paths rs D. \<nexists>ts. ms = ns @ ts}"
    by (auto simp: view_paths_def)
qed

text \<open>The view at the directory \<open>/merged\<close>.\<close>

definition merged_dir :: "(string \<Rightarrow> file_info) \<Rightarrow> string list set merged_view" where
  "merged_dir info = FSMergedView (path_disk info) (abs_path [''merged''])"

interpretation fs_view: path_view "merged_dir info" "view_paths [''merged'']" for info
  unfolding merged_dir_def by (rule fs_view_laws) (simp add: plain_name_def)

end
