(* ===== verification/Ds_Batch.thy ===== *)
theory Ds_Batch
  imports Ds_View "HOL-Library.Multiset"
begin

text \<open>
  Batches (\<open>batcher.go\<close>, \<open>batcher_goroutine.go\<close>). \<open>executeBatch\<close> runs its operations in goroutines
  that a semaphore bounds; it is a step relation over the launching loop and the goroutines, and the
  cancellation of the context is a step of the environment. The batchers are records with one definition
  per method; what \<open>executeBatch\<close> returns is a parameter, constrained by \<open>executes\<close> to what the step
  relation allows.
\<close>

section \<open>executeBatch\<close>

text \<open>\<open>eb_cur\<close> is the operation of an iteration that has passed its check of the context and stands at the \<open>select\<close>;
  \<open>eb_running\<close> the goroutines that have not executed their operation; \<open>eb_ended\<close> those that have, with the error to
  append; \<open>eb_releasing\<close> those that stand at the receive from the semaphore, which holds \<open>eb_sem\<close> tokens.\<close>

record 'v exec_batch =
  eb_todo :: "batch_op list"
  eb_cur :: "batch_op option"
  eb_sem :: nat
  eb_running :: "batch_op list"
  eb_ended :: "ds_error list list"
  eb_releasing :: nat
  eb_errs :: "ds_error list"
  eb_view :: 'v
  eb_cancelled :: bool

definition eb_init :: "batch_op list \<Rightarrow> 'v \<Rightarrow> 'v exec_batch" where
  "eb_init bops v = \<lparr>eb_todo = bops, eb_cur = None, eb_sem = 0, eb_running = [], eb_ended = [], eb_releasing = 0, eb_errs = [],
     eb_view = v, eb_cancelled = False\<rparr>"

inductive eb_step :: "'v merged_view \<Rightarrow> nat \<Rightarrow> 'v exec_batch \<Rightarrow> 'v exec_batch \<Rightarrow> bool"
  for M :: "'v merged_view" and parallelism :: nat where
  check: "eb_todo s = bop # bops \<Longrightarrow> eb_cur s = None \<Longrightarrow> \<not> eb_cancelled s \<Longrightarrow>
    eb_step M parallelism s (s\<lparr>eb_todo := bops, eb_cur := Some bop\<rparr>)"
| break: "eb_todo s \<noteq> [] \<Longrightarrow> eb_cur s = None \<Longrightarrow> eb_cancelled s \<Longrightarrow>
    eb_step M parallelism s (s\<lparr>eb_todo := []\<rparr>)"
| send: "eb_cur s = Some bop \<Longrightarrow> eb_sem s < parallelism \<Longrightarrow>
    eb_step M parallelism s (s\<lparr>eb_cur := None, eb_sem := Suc (eb_sem s), eb_running := eb_running s @ [bop]\<rparr>)"
| ctx_done: "eb_cur s = Some bop \<Longrightarrow> eb_cancelled s \<Longrightarrow>
    eb_step M parallelism s (s\<lparr>eb_cur := None, eb_running := eb_running s @ [bop]\<rparr>)"
| execute: "eb_running s = as @ bop # bs \<Longrightarrow> executeOp M (if eb_cancelled s then Some (Ctx ''context canceled'') else None) bop (eb_view s) = (err, v') \<Longrightarrow>
    eb_step M parallelism s (s\<lparr>eb_running := as @ bs, eb_ended := eb_ended s @ [batch_error bop err], eb_view := v'\<rparr>)"
| append: "eb_ended s = as @ e # bs \<Longrightarrow>
    eb_step M parallelism s (s\<lparr>eb_ended := as @ bs, eb_errs := eb_errs s @ e, eb_releasing := Suc (eb_releasing s)\<rparr>)"
| release: "eb_releasing s = Suc n \<Longrightarrow> eb_sem s = Suc k \<Longrightarrow>
    eb_step M parallelism s (s\<lparr>eb_releasing := n, eb_sem := k\<rparr>)"

inductive eb_env :: "'v exec_batch \<Rightarrow> 'v exec_batch \<Rightarrow> bool" where
  cancel: "eb_env s (s\<lparr>eb_cancelled := True\<rparr>)"

text \<open>The loop has ended and \<open>wg.Wait\<close> returns.\<close>

definition eb_returned :: "'v exec_batch \<Rightarrow> bool" where
  "eb_returned s \<longleftrightarrow> eb_todo s = [] \<and> eb_cur s = None \<and> eb_running s = [] \<and> eb_ended s = [] \<and> eb_releasing s = 0"

inductive_cases eb_stepE: "eb_step M parallelism s s'"
inductive_cases eb_envE: "eb_env s s'"

subsection \<open>Runs without a cancellation\<close>

definition launched :: "'v exec_batch \<Rightarrow> nat" where
  "launched s = length (eb_running s) + length (eb_ended s) + eb_releasing s"

text \<open>\<open>done\<close> lists the operations that were executed, in the order of their execution.\<close>

definition eb_inv :: "'v merged_view \<Rightarrow> batch_op list \<Rightarrow> 'v \<Rightarrow> nat \<Rightarrow> 'v exec_batch \<Rightarrow> bool" where
  "eb_inv M bops v parallelism s \<longleftrightarrow> \<not> eb_cancelled s \<and> eb_sem s = launched s \<and> eb_sem s \<le> parallelism \<and>
     (\<exists>executed. mset bops = mset executed + mset (eb_running s) + (case eb_cur s of None \<Rightarrow> {#} | Some bop \<Rightarrow> {#bop#}) + mset (eb_todo s)
        \<and> eb_view s = snd (run_ops M executed ([], v))
        \<and> mset (fst (run_ops M executed ([], v))) = mset (eb_errs s) + mset (concat (eb_ended s)))"

lemma eb_inv_init: "eb_inv M bops v parallelism (eb_init bops v)"
  unfolding eb_inv_def eb_init_def launched_def by (simp add: exI [of _ "[]"])

lemma eb_inv_step:
  assumes "eb_step M parallelism s s'" "eb_inv M bops v parallelism s"
  shows "eb_inv M bops v parallelism s'"
  using assms(1)
proof cases
  case (execute as bop bs err v')
  obtain executed where e: "mset bops = mset executed + mset (eb_running s) + (case eb_cur s of None \<Rightarrow> {#} | Some bop \<Rightarrow> {#bop#}) + mset (eb_todo s)"
      "eb_view s = snd (run_ops M executed ([], v))"
      "mset (fst (run_ops M executed ([], v))) = mset (eb_errs s) + mset (concat (eb_ended s))"
    using assms(2) unfolding eb_inv_def by blast
  have nc: "\<not> eb_cancelled s" using assms(2) by (simp add: eb_inv_def)
  have r: "run_ops M (executed @ [bop]) ([], v) = (fst (run_ops M executed ([], v)) @ batch_error bop err, v')"
    using execute(3) nc e(2) by (simp add: run_op_def)
  have "mset bops = mset (executed @ [bop]) + mset (as @ bs) + (case eb_cur s of None \<Rightarrow> {#} | Some bop \<Rightarrow> {#bop#}) + mset (eb_todo s)"
    using e(1) execute(2) by simp
  moreover have "mset (fst (run_ops M (executed @ [bop]) ([], v))) = mset (eb_errs s) + mset (concat (eb_ended s @ [batch_error bop err]))"
    unfolding r using e(3) by simp
  ultimately show ?thesis
    using assms(2) execute(1,2) r unfolding eb_inv_def launched_def by (auto intro!: exI [of _ "executed @ [bop]"])
qed (use assms(2) in \<open>auto simp: eb_inv_def launched_def\<close>)

definition eb_measure :: "'v exec_batch \<Rightarrow> nat" where
  "eb_measure s = 5 * length (eb_todo s) + (case eb_cur s of None \<Rightarrow> 0 | Some b \<Rightarrow> 4) + 3 * length (eb_running s) + 2 * length (eb_ended s) + eb_releasing s"

lemma eb_step_decreases: "eb_step M parallelism s s' \<Longrightarrow> eb_measure s' < eb_measure s"
  by (erule eb_stepE) (auto simp: eb_measure_def neq_Nil_conv)

lemma eb_progress:
  assumes "eb_inv M bops v parallelism s" "0 < parallelism" "\<not> eb_returned s"
  shows "\<exists>s'. eb_step M parallelism s s'"
proof -
  have nc: "\<not> eb_cancelled s" and sem: "eb_sem s = launched s" using assms(1) by (simp_all add: eb_inv_def)
  consider (run) bop bs where "eb_running s = [] @ bop # bs" | (ended) e bs where "eb_ended s = [] @ e # bs" | (rel) n where "eb_releasing s = Suc n"
    | (none) "eb_running s = []" "eb_ended s = []" "eb_releasing s = 0" by (cases "eb_running s"; cases "eb_ended s"; cases "eb_releasing s") auto
  then show ?thesis
  proof cases
    case run
    obtain err v' where "executeOp M (if eb_cancelled s then Some (Ctx ''context canceled'') else None) bop (eb_view s) = (err, v')" by fastforce
    then show ?thesis using eb_step.execute [OF run] by blast
  next
    case ended
    then show ?thesis using eb_step.append [OF ended] by blast
  next
    case rel
    then obtain k where "eb_sem s = Suc k" using sem by (cases "eb_sem s") (auto simp: launched_def)
    then show ?thesis using eb_step.release [OF rel] by blast
  next
    case none
    then have "eb_sem s < parallelism" using sem assms(2) by (simp add: launched_def)
    then show ?thesis using eb_step.send nc none assms(3) eb_step.check
      by (cases "eb_cur s"; cases "eb_todo s") (fastforce simp: eb_returned_def)+
  qed
qed

lemma eb_inv_steps: "(eb_step M parallelism)\<^sup>*\<^sup>* (eb_init bops v) s \<Longrightarrow> eb_inv M bops v parallelism s"
  by (induction rule: rtranclp_induct) (auto intro: eb_inv_init eb_inv_step)

lemma eb_reaches_return:
  "(eb_step M parallelism)\<^sup>*\<^sup>* (eb_init bops v) s \<Longrightarrow> 0 < parallelism \<Longrightarrow> \<exists>s'. (eb_step M parallelism)\<^sup>*\<^sup>* s s' \<and> eb_returned s'"
proof (induction "eb_measure s" arbitrary: s rule: less_induct)
  case less
  show ?case
  proof (cases "eb_returned s")
    case False
    then obtain t where t: "eb_step M parallelism s t" using eb_progress [OF eb_inv_steps [OF less(2)] less(3)] by blast
    from less(1) [OF eb_step_decreases [OF t] rtranclp.rtrancl_into_rtrancl [OF less(2) t] less(3)] show ?thesis
      using converse_rtranclp_into_rtranclp [of "eb_step M parallelism", OF t] by blast
  qed blast
qed


section \<open>Properties of executeBatch\<close>

text \<open>C9: A batch whose context is not cancelled ends, with every operation executed once. From every state it can reach the batch
  can go on to return, and no run is longer than five steps per operation; when it returns, the view is the
  result of executing all operations one after the other in some order, and the collected errors are those operations' errors.\<close>

theorem executeBatch_completes:
  assumes "0 < parallelism" "(eb_step M parallelism)\<^sup>*\<^sup>* (eb_init bops v) s"
  shows "(\<exists>s'. (eb_step M parallelism)\<^sup>*\<^sup>* s s' \<and> eb_returned s')
    \<and> (\<forall>s'. eb_step M parallelism s s' \<longrightarrow> eb_measure s' < eb_measure s) \<and> eb_measure (eb_init bops v) = 5 * length bops
    \<and> (eb_returned s \<longrightarrow> (\<exists>order. mset order = mset bops \<and> eb_view s = snd (run_ops M order ([], v))
          \<and> mset (eb_errs s) = mset (fst (run_ops M order ([], v)))))"
proof (intro conjI)
  show "eb_returned s \<longrightarrow> (\<exists>order. mset order = mset bops \<and> eb_view s = snd (run_ops M order ([], v))
      \<and> mset (eb_errs s) = mset (fst (run_ops M order ([], v))))"
    using eb_inv_steps [OF assms(2)] unfolding eb_inv_def eb_returned_def by auto
qed (use eb_reaches_return [OF assms(2,1)] eb_step_decreases in \<open>auto simp: eb_measure_def eb_init_def\<close>)

definition example_op :: "string \<Rightarrow> batch_op" where
  "example_op p = \<lparr>bo_Kind = OpRemove, bo_RelPath = p, bo_Tag = NoTag\<rparr>"

theorem executeBatch_completes_witness:
  "\<exists>s. (eb_step (MemMergedView ''m'') 2)\<^sup>*\<^sup>* (eb_init [example_op ''a'', example_op ''b''] (NewMemMergedView ''m'')) s \<and> eb_returned s"
  using executeBatch_completes [of 2 "MemMergedView ''m''" "[example_op ''a'', example_op ''b'']" "NewMemMergedView ''m''"] by simp

subsection \<open>Cancellation\<close>

definition eb_any :: "'v merged_view \<Rightarrow> nat \<Rightarrow> 'v exec_batch \<Rightarrow> 'v exec_batch \<Rightarrow> bool" where
  "eb_any M parallelism s s' \<longleftrightarrow> eb_step M parallelism s s' \<or> eb_env s s'"

lemma launched_at_least_sem:
  assumes "eb_any M parallelism s s'" shows "launched s' + eb_sem s \<ge> launched s + eb_sem s'"
  using assms unfolding eb_any_def by (auto simp: launched_def elim!: eb_stepE eb_envE)

lemma launched_at_least_sem_steps:
  "(eb_any M parallelism)\<^sup>*\<^sup>* s s' \<Longrightarrow> launched s' + eb_sem s \<ge> launched s + eb_sem s'"
proof (induction rule: rtranclp_induct)
  case (step t u)
  then show ?case using launched_at_least_sem [of M parallelism t u] by linarith
qed simp

lemma without_token_never_returns:
  assumes "(eb_any M parallelism)\<^sup>*\<^sup>* (eb_init bops v) s" "eb_cur s = Some bop"
    and "(eb_any M parallelism)\<^sup>*\<^sup>* (s\<lparr>eb_cur := None, eb_running := eb_running s @ [bop]\<rparr>) u"
  shows "\<not> eb_returned u"
proof -
  have "eb_sem s \<le> launched s" using launched_at_least_sem_steps [OF assms(1)] by (simp add: eb_init_def launched_def)
  moreover have "launched u + eb_sem s \<ge> Suc (launched s) + eb_sem u"
    using launched_at_least_sem_steps [OF assms(3)] by (simp add: launched_def)
  ultimately have "launched u > 0" by linarith
  then show ?thesis by (auto simp: eb_returned_def launched_def)
qed

text \<open>C8: A cancellation can hang a batch for ever. When the context ends while an operation waits at the \<open>select\<close> and the
  \<open>select\<close> takes \<open>ctx.Done()\<close>, the \<open>break\<close> only leaves the \<open>select\<close>: the goroutine is launched without
  a token, and since every goroutine takes a token back at its end, \<open>wg.Wait\<close> never returns. Every nonempty
  batch can get there.\<close>

theorem executeBatch_hangs_on_cancellation:
  assumes "bops \<noteq> []"
  shows "(\<exists>s. (eb_any M parallelism)\<^sup>*\<^sup>* (eb_init bops v) s \<and> (\<forall>u. (eb_any M parallelism)\<^sup>*\<^sup>* s u \<longrightarrow> \<not> eb_returned u))
    \<and> (\<forall>s bop. (eb_any M parallelism)\<^sup>*\<^sup>* (eb_init bops v) s \<and> eb_cur s = Some bop \<and> eb_cancelled s \<longrightarrow>
        eb_step M parallelism s (s\<lparr>eb_cur := None, eb_running := eb_running s @ [bop]\<rparr>)
        \<and> (\<forall>u. (eb_any M parallelism)\<^sup>*\<^sup>* (s\<lparr>eb_cur := None, eb_running := eb_running s @ [bop]\<rparr>) u \<longrightarrow> \<not> eb_returned u))"
proof
  obtain bop rest where b: "bops = bop # rest" using assms by (cases bops) auto
  let ?i = "eb_init bops v"
  let ?s1 = "?i\<lparr>eb_todo := rest, eb_cur := Some bop\<rparr>"
  let ?s2 = "?s1\<lparr>eb_cancelled := True\<rparr>"
  let ?s3 = "?s2\<lparr>eb_cur := None, eb_running := eb_running ?s2 @ [bop]\<rparr>"
  have "eb_any M parallelism ?i ?s1" unfolding eb_any_def by (intro disjI1 check) (simp_all add: eb_init_def b)
  moreover have "eb_any M parallelism ?s1 ?s2" unfolding eb_any_def by (intro disjI2 cancel)
  ultimately have r2: "(eb_any M parallelism)\<^sup>*\<^sup>* ?i ?s2" by (meson r_into_rtranclp rtranclp_trans)
  have "eb_any M parallelism ?s2 ?s3" unfolding eb_any_def by (intro disjI1 ctx_done) simp_all
  then have "(eb_any M parallelism)\<^sup>*\<^sup>* ?i ?s3" using r2 by (meson rtranclp.rtrancl_into_rtrancl)
  moreover have "\<forall>u. (eb_any M parallelism)\<^sup>*\<^sup>* ?s3 u \<longrightarrow> \<not> eb_returned u"
    using without_token_never_returns [OF r2, of bop] by simp
  ultimately show "\<exists>s. (eb_any M parallelism)\<^sup>*\<^sup>* ?i s \<and> (\<forall>u. (eb_any M parallelism)\<^sup>*\<^sup>* s u \<longrightarrow> \<not> eb_returned u)" by blast
  show "\<forall>s bop. (eb_any M parallelism)\<^sup>*\<^sup>* ?i s \<and> eb_cur s = Some bop \<and> eb_cancelled s \<longrightarrow>
      eb_step M parallelism s (s\<lparr>eb_cur := None, eb_running := eb_running s @ [bop]\<rparr>)
      \<and> (\<forall>u. (eb_any M parallelism)\<^sup>*\<^sup>* (s\<lparr>eb_cur := None, eb_running := eb_running s @ [bop]\<rparr>) u \<longrightarrow> \<not> eb_returned u)"
  proof (intro allI impI conjI)
    fix s bop assume s: "(eb_any M parallelism)\<^sup>*\<^sup>* ?i s \<and> eb_cur s = Some bop \<and> eb_cancelled s"
    then show "eb_step M parallelism s (s\<lparr>eb_cur := None, eb_running := eb_running s @ [bop]\<rparr>)" by (intro ctx_done) simp_all
    fix u assume "(eb_any M parallelism)\<^sup>*\<^sup>* (s\<lparr>eb_cur := None, eb_running := eb_running s @ [bop]\<rparr>) u"
    then show "\<not> eb_returned u" using without_token_never_returns [of M parallelism bops v s bop u] s by simp
  qed
qed

theorem executeBatch_hangs_on_cancellation_witness:
  "\<exists>s. (eb_any (MemMergedView ''m'') 1)\<^sup>*\<^sup>* (eb_init [example_op ''a''] (NewMemMergedView ''m'')) s
     \<and> (\<forall>u. (eb_any (MemMergedView ''m'') 1)\<^sup>*\<^sup>* s u \<longrightarrow> \<not> eb_returned u)"
  using executeBatch_hangs_on_cancellation [of "[example_op ''a'']" "MemMergedView ''m''" 1 "NewMemMergedView ''m''"] by blast

section \<open>Batchers\<close>

record 'b batcher =
  ba_Submit :: "ds_error option \<Rightarrow> batch_op \<Rightarrow> 'b \<Rightarrow> ds_error option \<times> 'b"
  ba_Flush :: "ds_error option \<Rightarrow> 'b \<Rightarrow> ds_error option \<times> 'b"
  ba_Close :: "ds_error option \<Rightarrow> 'b \<Rightarrow> ds_error option \<times> 'b"

definition NopBatcher :: "'b batcher" where
  "NopBatcher = \<lparr>ba_Submit = (\<lambda>ctxErr bop b. (None, b)), ba_Flush = (\<lambda>ctxErr b. (None, b)), ba_Close = (\<lambda>ctxErr b. (None, b))\<rparr>"

subsection \<open>RecordingBatcher\<close>

record recording_batcher =
  rb_all :: "batch_op list"
  rb_pending :: "batch_op list"
  rb_total :: int

definition rb_Submit :: "batch_op \<Rightarrow> recording_batcher \<Rightarrow> ds_error option \<times> recording_batcher" where
  "rb_Submit bop r = (None, r\<lparr>rb_all := rb_all r @ [bop], rb_pending := rb_pending r @ [bop]\<rparr>)"

definition rb_Flush :: "recording_batcher \<Rightarrow> ds_error option \<times> recording_batcher" where
  "rb_Flush r = (None, r\<lparr>rb_total := rb_total r + int (length (rb_pending r)), rb_pending := []\<rparr>)"

definition rb_Close :: "recording_batcher \<Rightarrow> ds_error option \<times> recording_batcher" where
  "rb_Close r = rb_Flush r"

definition RecordingBatcher :: "recording_batcher batcher" where
  "RecordingBatcher = \<lparr>ba_Submit = (\<lambda>ctxErr. rb_Submit), ba_Flush = (\<lambda>ctxErr. rb_Flush), ba_Close = (\<lambda>ctxErr. rb_Close)\<rparr>"

subsection \<open>GoroutineBatcher\<close>

text \<open>The state is the batcher and the view it executes on.\<close>

record goroutine_batcher =
  gb_parallelism :: int
  gb_autoFlushAt :: int
  gb_pending :: "batch_op list"
  gb_closed :: bool

type_synonym 'v executor = "ds_error option \<Rightarrow> batch_op list \<Rightarrow> 'v \<Rightarrow> ds_error option \<times> 'v"

definition WithBatchParallelism :: "int \<Rightarrow> goroutine_batcher \<Rightarrow> goroutine_batcher" where
  "WithBatchParallelism n b = (if n > 0 then b\<lparr>gb_parallelism := n\<rparr> else b)"

definition WithAutoFlushAt :: "int \<Rightarrow> goroutine_batcher \<Rightarrow> goroutine_batcher" where
  "WithAutoFlushAt n b = (if n \<ge> 0 then b\<lparr>gb_autoFlushAt := n\<rparr> else b)"

definition NewGoroutineBatcher :: "nat \<Rightarrow> (goroutine_batcher \<Rightarrow> goroutine_batcher) list \<Rightarrow> goroutine_batcher" where
  "NewGoroutineBatcher NumCPU opts =
     fold (\<lambda>opt. opt) opts \<lparr>gb_parallelism = int NumCPU, gb_autoFlushAt = 0, gb_pending = [], gb_closed = False\<rparr>"

definition gb_Flush :: "'v executor \<Rightarrow> ds_error option \<Rightarrow> goroutine_batcher \<times> 'v \<Rightarrow> ds_error option \<times> goroutine_batcher \<times> 'v" where
  "gb_Flush exec ctxErr bv =
     (let (b, v) = bv in
      if gb_closed b then (Some BatcherClosed, b, v)
      else case exec ctxErr (gb_pending b) v of (err, v') \<Rightarrow> (err, b\<lparr>gb_pending := []\<rparr>, v'))"

definition gb_Submit :: "'v executor \<Rightarrow> ds_error option \<Rightarrow> batch_op \<Rightarrow> goroutine_batcher \<times> 'v \<Rightarrow> ds_error option \<times> goroutine_batcher \<times> 'v" where
  "gb_Submit exec ctxErr bop bv =
     (let (b, v) = bv in
      if gb_closed b then (Some BatcherClosed, b, v)
      else let b' = b\<lparr>gb_pending := gb_pending b @ [bop]\<rparr> in
        (if gb_autoFlushAt b' > 0 \<and> int (length (gb_pending b')) \<ge> gb_autoFlushAt b' then gb_Flush exec ctxErr (b', v) else (None, b', v)))"

text \<open>\<open>Close\<close> flushes between two critical sections; \<open>gb_settle\<close> is the second one.\<close>

definition gb_settle :: "goroutine_batcher \<times> 'v \<Rightarrow> goroutine_batcher \<times> 'v" where
  "gb_settle bv = ((fst bv)\<lparr>gb_closed := True\<rparr>, snd bv)"

definition gb_Close :: "'v executor \<Rightarrow> ds_error option \<Rightarrow> goroutine_batcher \<times> 'v \<Rightarrow> ds_error option \<times> goroutine_batcher \<times> 'v" where
  "gb_Close exec ctxErr bv =
     (if gb_closed (fst bv) then (None, bv)
      else case gb_Flush exec ctxErr bv of (err, bv') \<Rightarrow> (err, gb_settle bv'))"

definition gb_Len :: "goroutine_batcher \<Rightarrow> nat" where
  "gb_Len b = length (gb_pending b)"

definition GoroutineBatcher :: "'v executor \<Rightarrow> (goroutine_batcher \<times> 'v) batcher" where
  "GoroutineBatcher exec = \<lparr>ba_Submit = gb_Submit exec, ba_Flush = gb_Flush exec, ba_Close = gb_Close exec\<rparr>"

text \<open>What a call of \<open>executeBatch\<close> that returns may give: with a live context what \<open>executeBatch_completes\<close> states; with a
  context that has ended before the call, nothing is executed.\<close>

definition executes :: "'v merged_view \<Rightarrow> 'v executor \<Rightarrow> bool" where
  "executes M exec \<longleftrightarrow>
     (\<forall>bops v. \<exists>order errs. mset order = mset bops \<and> mset errs = mset (fst (run_ops M order ([], v)))
        \<and> exec None bops v = (joinErrors errs, snd (run_ops M order ([], v))))
     \<and> (\<forall>err bops v. exec (Some err) bops v = (None, v))"

definition in_order :: "'v merged_view \<Rightarrow> 'v executor" where
  "in_order M ctxErr bops v = (case ctxErr of Some err \<Rightarrow> (None, v) | None \<Rightarrow> (case run_ops M bops ([], v) of (errs, v') \<Rightarrow> (joinErrors errs, v')))"

lemma executes_in_order: "executes M (in_order M)"
proof -
  have "in_order M None bops v = (joinErrors (fst (run_ops M bops ([], v))), snd (run_ops M bops ([], v)))" for bops v
    by (simp add: in_order_def split: prod.split)
  then show ?thesis unfolding executes_def by (auto simp: in_order_def [of M "Some _"])
qed


section \<open>Sessions of a batcher\<close>

datatype batch_call = CallSubmit batch_op | CallFlush

definition perform :: "'b batcher \<Rightarrow> batch_call \<Rightarrow> ds_error list \<times> 'b \<Rightarrow> ds_error list \<times> 'b" where
  "perform B c r =
     (case (case c of CallSubmit bop \<Rightarrow> ba_Submit B None bop (snd r) | CallFlush \<Rightarrow> ba_Flush B None (snd r)) of
        (err, b) \<Rightarrow> (fst r @ (case err of None \<Rightarrow> [] | Some e \<Rightarrow> [e]), b))"

text \<open>The errors that the calls and the final \<open>Close\<close> return, and the state they leave.\<close>

definition session :: "'b batcher \<Rightarrow> batch_call list \<Rightarrow> 'b \<Rightarrow> ds_error list \<times> 'b" where
  "session B calls b =
     (case fold (perform B) calls ([], b) of (errs, b') \<Rightarrow>
        (case ba_Close B None b' of (err, b'') \<Rightarrow> (errs @ (case err of None \<Rightarrow> [] | Some e \<Rightarrow> [e]), b'')))"

definition submitted :: "batch_call list \<Rightarrow> batch_op list" where
  "submitted calls = concat (map (\<lambda>c. case c of CallSubmit bop \<Rightarrow> [bop] | CallFlush \<Rightarrow> []) calls)"

lemma run_ops_errs: "run_ops M bops (errs, v) = (errs @ fst (run_ops M bops ([], v)), snd (run_ops M bops ([], v)))"
proof (induction bops arbitrary: errs v)
  case (Cons bop bops)
  obtain err v' where "executeOp M None bop v = (err, v')" by (cases "executeOp M None bop v")
  then have step: "run_op M bop (es, v) = (es @ batch_error bop err, v')" for es by (simp add: run_op_def)
  show ?case using Cons [of "errs @ batch_error bop err" v'] Cons [of "batch_error bop err" v'] by (simp add: step)
qed simp

lemma run_ops_append:
  "fst (run_ops M (xs @ ys) ([], v)) = fst (run_ops M xs ([], v)) @ fst (run_ops M ys ([], snd (run_ops M xs ([], v))))"
  "snd (run_ops M (xs @ ys) ([], v)) = snd (run_ops M ys ([], snd (run_ops M xs ([], v))))"
  using run_ops_errs [of M ys "fst (run_ops M xs ([], v))" "snd (run_ops M xs ([], v))"] by simp_all

definition gb_inv :: "'v merged_view \<Rightarrow> 'v \<Rightarrow> batch_op list \<Rightarrow> ds_error list \<Rightarrow> goroutine_batcher \<times> 'v \<Rightarrow> bool" where
  "gb_inv M v0 subs errs bv \<longleftrightarrow> \<not> gb_closed (fst bv) \<and>
     (\<exists>order. mset subs = mset order + mset (gb_pending (fst bv)) \<and> snd bv = snd (run_ops M order ([], v0))
        \<and> (errs = [] \<longleftrightarrow> fst (run_ops M order ([], v0)) = []))"

lemma gb_Flush_inv:
  assumes "executes M exec" "gb_inv M v0 subs errs (b, v)"
  obtains err b' v' where "gb_Flush exec None (b, v) = (err, b', v')" "gb_pending b' = []" "gb_autoFlushAt b' = gb_autoFlushAt b"
    "gb_inv M v0 subs (errs @ (case err of None \<Rightarrow> [] | Some e \<Rightarrow> [e])) (b', v')"
proof -
  obtain order where order: "mset subs = mset order + mset (gb_pending b)" "v = snd (run_ops M order ([], v0))"
      "errs = [] \<longleftrightarrow> fst (run_ops M order ([], v0)) = []"
    using assms(2) unfolding gb_inv_def by auto
  have open_b: "\<not> gb_closed b" using assms(2) by (simp add: gb_inv_def)
  obtain more es where more: "mset more = mset (gb_pending b)" "mset es = mset (fst (run_ops M more ([], v)))"
      "exec None (gb_pending b) v = (joinErrors es, snd (run_ops M more ([], v)))"
    using assms(1) unfolding executes_def by blast
  have "es = [] \<longleftrightarrow> fst (run_ops M more ([], v)) = []" using more(2) by (metis mset_zero_iff)
  then have "(errs @ (case joinErrors es of None \<Rightarrow> [] | Some e \<Rightarrow> [e]) = []) \<longleftrightarrow> fst (run_ops M (order @ more) ([], v0)) = []"
    unfolding run_ops_append using order(2,3) by (auto simp: joinErrors_def)
  then have "gb_inv M v0 subs (errs @ (case joinErrors es of None \<Rightarrow> [] | Some e \<Rightarrow> [e])) (b\<lparr>gb_pending := []\<rparr>, snd (run_ops M more ([], v)))"
    unfolding gb_inv_def using open_b order(1,2) more(1) run_ops_append(2) [of M order more v0] by (auto intro!: exI [of _ "order @ more"])
  then show ?thesis
    using that [of "joinErrors es" "b\<lparr>gb_pending := []\<rparr>" "snd (run_ops M more ([], v))"] open_b more(3) by (simp add: gb_Flush_def)
qed

lemma gb_perform_inv:
  assumes "executes M exec" "gb_inv M v0 subs errs bv"
  shows "gb_inv M v0 (subs @ submitted [c]) (fst (perform (GoroutineBatcher exec) c (errs, bv))) (snd (perform (GoroutineBatcher exec) c (errs, bv)))"
proof -
  obtain b v where bv: "bv = (b, v)" by (cases bv)
  note inv = assms(2) [unfolded bv]
  show ?thesis
  proof (cases c)
    case CallFlush
    obtain err b' v' where "gb_Flush exec None (b, v) = (err, b', v')" "gb_inv M v0 subs (errs @ (case err of None \<Rightarrow> [] | Some e \<Rightarrow> [e])) (b', v')"
      using gb_Flush_inv [OF assms(1) inv] by metis
    then show ?thesis using CallFlush by (simp add: bv perform_def GoroutineBatcher_def submitted_def)
  next
    case (CallSubmit bop)
    let ?b = "b\<lparr>gb_pending := gb_pending b @ [bop]\<rparr>"
    have open_b: "\<not> gb_closed b" using inv by (simp add: gb_inv_def)
    have add: "gb_inv M v0 (subs @ [bop]) errs (?b, v)" using inv unfolding gb_inv_def by auto
    show ?thesis
    proof (cases "gb_autoFlushAt ?b > 0 \<and> int (length (gb_pending ?b)) \<ge> gb_autoFlushAt ?b")
      case True
      then have "gb_Submit exec None bop (b, v) = gb_Flush exec None (?b, v)" using open_b by (simp add: gb_Submit_def Let_def)
      moreover obtain err b' v' where "gb_Flush exec None (?b, v) = (err, b', v')" "gb_inv M v0 (subs @ [bop]) (errs @ (case err of None \<Rightarrow> [] | Some e \<Rightarrow> [e])) (b', v')"
        using gb_Flush_inv [OF assms(1) add] by metis
      ultimately show ?thesis using CallSubmit by (simp add: bv perform_def GoroutineBatcher_def submitted_def)
    next
      case False
      then have "gb_Submit exec None bop (b, v) = (None, ?b, v)" using open_b unfolding gb_Submit_def Let_def by auto
      then show ?thesis using CallSubmit add by (simp add: bv perform_def GoroutineBatcher_def submitted_def)
    qed
  qed
qed

lemma gb_performs_inv:
  "executes M exec \<Longrightarrow> gb_inv M v0 subs errs bv \<Longrightarrow>
   gb_inv M v0 (subs @ submitted calls) (fst (fold (perform (GoroutineBatcher exec)) calls (errs, bv))) (snd (fold (perform (GoroutineBatcher exec)) calls (errs, bv)))"
proof (induction calls arbitrary: subs errs bv)
  case (Cons c calls)
  obtain errs' bv' where p: "perform (GoroutineBatcher exec) c (errs, bv) = (errs', bv')" by (cases "perform (GoroutineBatcher exec) c (errs, bv)")
  have "submitted (c # calls) = submitted [c] @ submitted calls" by (simp add: submitted_def)
  then show ?case using Cons.IH [of "subs @ submitted [c]" errs' bv'] gb_perform_inv [OF Cons.prems, of c] Cons.prems(1) by (simp add: p)
qed (simp add: submitted_def)

text \<open>A goroutine batcher loses and repeats nothing. Whatever the threshold of the automatic flush and wherever the caller
  flushes, after the final \<open>Close\<close> the view is the result of executing every submitted operation once, in some
  order; the calls return no error exactly when no operation fails; nothing is pending; and the closed batcher
  refuses operations and ignores a second \<open>Close\<close>.\<close>

theorem GoroutineBatcher_executes_submissions_once:
  assumes "executes M exec" "\<not> gb_closed b" "gb_pending b = []"
  shows "case session (GoroutineBatcher exec) calls (b, v) of (errs, b', v') \<Rightarrow>
    (\<exists>order. mset order = mset (submitted calls) \<and> v' = snd (run_ops M order ([], v)) \<and> (errs = [] \<longleftrightarrow> fst (run_ops M order ([], v)) = []))
    \<and> gb_pending b' = [] \<and> ba_Submit (GoroutineBatcher exec) c bop (b', v') = (Some BatcherClosed, b', v')
    \<and> ba_Close (GoroutineBatcher exec) c (b', v') = (None, b', v')"
proof -
  have "gb_inv M v [] [] (b, v)" using assms(2,3) by (auto simp: gb_inv_def intro!: exI [of _ "[]"])
  from gb_performs_inv [OF assms(1) this, of calls] obtain errs1 b1 v1 where
    f: "fold (perform (GoroutineBatcher exec)) calls ([], (b, v)) = (errs1, b1, v1)" and inv: "gb_inv M v (submitted calls) errs1 (b1, v1)"
    by (cases "fold (perform (GoroutineBatcher exec)) calls ([], (b, v))") auto
  obtain err b2 v2 where fl: "gb_Flush exec None (b1, v1) = (err, b2, v2)" "gb_pending b2 = []"
      and inv2: "gb_inv M v (submitted calls) (errs1 @ (case err of None \<Rightarrow> [] | Some e \<Rightarrow> [e])) (b2, v2)"
    using gb_Flush_inv [OF assms(1) inv] by metis
  have open_b: "\<not> gb_closed b1" using inv by (simp add: gb_inv_def)
  have s: "session (GoroutineBatcher exec) calls (b, v) = (errs1 @ (case err of None \<Rightarrow> [] | Some e \<Rightarrow> [e]), b2\<lparr>gb_closed := True\<rparr>, v2)"
    using f fl open_b by (simp add: session_def GoroutineBatcher_def gb_Close_def gb_settle_def)
  show ?thesis unfolding s using inv2 fl(2) by (auto simp: gb_inv_def GoroutineBatcher_def gb_Submit_def gb_Close_def)
qed

theorem GoroutineBatcher_executes_submissions_once_witness:
  "gb_pending (fst (snd (session (GoroutineBatcher (in_order (MemMergedView ''m''))) [CallSubmit (example_op ''a''), CallFlush, CallSubmit (example_op ''b'')]
      (NewGoroutineBatcher 4 [WithAutoFlushAt 2], NewMemMergedView ''m'')))) = []"
  using GoroutineBatcher_executes_submissions_once [OF executes_in_order [of "MemMergedView ''m''"], of "NewGoroutineBatcher 4 [WithAutoFlushAt 2]"
      "[CallSubmit (example_op ''a''), CallFlush, CallSubmit (example_op ''b'')]" "NewMemMergedView ''m''" None "example_op ''a''"]
  by (simp add: NewGoroutineBatcher_def WithAutoFlushAt_def split: prod.splits)

text \<open>A submission during \<open>Close\<close> is lost. Between the flush and the second critical section of \<open>Close\<close>, \<open>Submit\<close> accepts
  an operation and returns nil; the batcher is then closed with the operation pending, and no later call executes it.\<close>

theorem Submit_during_Close_is_lost:
  assumes "\<not> gb_closed b" "gb_autoFlushAt b = 0" "gb_Flush exec c (b, v) = (err, b1, v1)"
  shows "\<exists>b2. gb_Submit exec c bop (b1, v1) = (None, b2, v1) \<and>
    (let bv = gb_settle (b2, v1) in gb_pending (fst bv) = [bop] \<and> gb_Flush exec c bv = (Some BatcherClosed, bv)
       \<and> gb_Submit exec c bop' bv = (Some BatcherClosed, bv) \<and> gb_Close exec c bv = (None, bv) \<and> snd bv = v1)"
proof -
  have "b1 = b\<lparr>gb_pending := []\<rparr>" using assms(1,3) by (simp add: gb_Flush_def split: prod.splits)
  then show ?thesis using assms(1,2) by (simp add: gb_Submit_def gb_Flush_def gb_Close_def gb_settle_def Let_def)
qed

theorem Submit_during_Close_is_lost_witness:
  "\<exists>b2. gb_Submit (in_order (MemMergedView ''m'')) None (example_op ''a'') (NewGoroutineBatcher 4 [], NewMemMergedView ''m'') = (None, b2, NewMemMergedView ''m'')
     \<and> gb_pending b2 = [example_op ''a'']"
  using Submit_during_Close_is_lost [of "NewGoroutineBatcher 4 []" "in_order (MemMergedView ''m'')" None "NewMemMergedView ''m''" None
      "NewGoroutineBatcher 4 []" "NewMemMergedView ''m''" "example_op ''a''" "example_op ''a''"]
  by (auto simp: NewGoroutineBatcher_def gb_Flush_def in_order_def joinErrors_def gb_settle_def Let_def)

text \<open>A recording batcher keeps the whole log, and counts what has been flushed.\<close>

lemma RecordingBatcher_log:
  "let r = snd (fold (perform RecordingBatcher) calls ([], \<lparr>rb_all = [], rb_pending = [], rb_total = 0\<rparr>)) in
    rb_all r = submitted calls \<and> rb_total r + int (length (rb_pending r)) = int (length (submitted calls))"
proof (induction calls rule: rev_induct)
  case (snoc c calls)
  then show ?case by (cases c) (auto simp: perform_def RecordingBatcher_def rb_Submit_def rb_Flush_def submitted_def Let_def split: prod.splits)
qed (simp add: submitted_def)

end
