(* ===== verification/Ds_Pipeline.thy ===== *)
theory Ds_Pipeline
  imports Ds_Spec Ds_Hash Ds_Handler Ds_Batch
begin

text \<open>
  The pipeline (\<open>pipeline.go\<close>, \<open>hash_pipeline.go\<close>, \<open>options.go\<close>, \<open>engine.go\<close>). A run is a step
  relation: the streams that the classifier fills, the goroutines of the hash stage and of the two worker
  pools, the forwarding of errors, and the cancellation of the context. What the handlers, the batchers
  and the view keep is the world \<open>'w\<close>; a call of a handler or of \<open>Submit\<close> that returns is one step, one that
  never returns keeps its goroutine for ever (\<open>run_env\<close>).
\<close>

section \<open>Hash enrichment\<close>

type_synonym content_hasher = "string \<Rightarrow> string \<Rightarrow> file_info option \<Rightarrow> file_info option \<Rightarrow> ds_error + bool"

record hash_pipeline =
  hp_Hasher :: "content_hasher option"
  hp_Workers :: int
  hp_BufPool :: "nat option"

definition WithHasher :: "content_hasher \<Rightarrow> hash_pipeline \<Rightarrow> hash_pipeline" where "WithHasher h p = p\<lparr>hp_Hasher := Some h\<rparr>"

definition WithHashWorkers :: "int \<Rightarrow> hash_pipeline \<Rightarrow> hash_pipeline" where
  "WithHashWorkers n p = (if n > 0 then p\<lparr>hp_Workers := n\<rparr> else p)"

definition WithBufPool :: "nat option \<Rightarrow> hash_pipeline \<Rightarrow> hash_pipeline" where "WithBufPool bp p = p\<lparr>hp_BufPool := bp\<rparr>"

text \<open>The default hasher reads the file system \<open>F\<close>; \<open>sched\<close> gives the schedule of the segments of a pair of
  files. A \<open>nil\<close> information is a panic of the hasher.\<close>

definition TwoPhaseHasher :: "nat \<Rightarrow> hash_fs \<Rightarrow> (string \<Rightarrow> string \<Rightarrow> nat \<Rightarrow> nat \<Rightarrow> bool) \<Rightarrow> nat option \<Rightarrow> content_hasher" where
  "TwoPhaseHasher NumCPU F sched bp lAbs uAbs l u =
     (case (l, u) of
        (Some li, Some ui) \<Rightarrow> Equal NumCPU F \<lparr>th_BufPool = bp, th_LargeFileThreshold = 0, th_SegmentWorkers = 0\<rparr> (sched lAbs uAbs) lAbs uAbs li ui
      | _ \<Rightarrow> Inl (Msg [''panic: nil FileInfo'']))"

text \<open>\<open>two_phase\<close> makes the default hasher for a buffer pool.\<close>

definition NewHashPipeline :: "(nat option \<Rightarrow> content_hasher) \<Rightarrow> nat \<Rightarrow> (hash_pipeline \<Rightarrow> hash_pipeline) list \<Rightarrow> hash_pipeline" where
  "NewHashPipeline two_phase NumCPU opts =
     (let p = fold (\<lambda>opt. opt) opts \<lparr>hp_Hasher = None, hp_Workers = int NumCPU, hp_BufPool = None\<rparr> in
      if hp_Hasher p = None then p\<lparr>hp_Hasher := Some (two_phase (hp_BufPool p))\<rparr> else p)"

text \<open>The entry as it leaves the stage, and the error to send.\<close>

definition enrichOne :: "(nat option \<Rightarrow> content_hasher) \<Rightarrow> hash_pipeline \<Rightarrow> ds_error option \<Rightarrow> string \<Rightarrow> string \<Rightarrow> common_path \<Rightarrow> common_path \<times> ds_error option" where
  "enrichOne two_phase p ctxErr lowerRoot upperRoot cp =
     (if ctxErr \<noteq> None then (cp, None)
      else if \<not> (cp_Kind cp = KFile \<or> cp_Kind cp = KSymlink) then (cp, None)
      else
        let hasher = (case hp_Hasher p of Some h \<Rightarrow> h | None \<Rightarrow> two_phase None);
            lAbs = filepath_Join [lowerRoot, cp_Path cp]; uAbs = filepath_Join [upperRoot, cp_Path cp]
        in case hasher lAbs uAbs (cp_LowerInfo cp) (cp_UpperInfo cp) of
             Inl err \<Rightarrow> (cp, Some (Wrap [''hash'', cp_Path cp] err))
           | Inr eq \<Rightarrow> (cp\<lparr>cp_HashEqual := Some eq\<rparr>, None))"

section \<open>Configuration\<close>

record 'w pipeline_config =
  pc_exclusiveWorkers :: int
  pc_commonWorkers :: int
  pc_abortOnError :: bool
  pc_hashPipeline :: "hash_pipeline option"
  pc_exclusiveBatcher :: "'w batcher option"
  pc_commonBatcher :: "'w batcher option"

type_synonym 'w pipeline_option = "'w pipeline_config \<Rightarrow> 'w pipeline_config"

definition defaultPipelineConfig :: "'w pipeline_config" where
  "defaultPipelineConfig = \<lparr>pc_exclusiveWorkers = 0, pc_commonWorkers = 0, pc_abortOnError = False, pc_hashPipeline = None,
     pc_exclusiveBatcher = None, pc_commonBatcher = None\<rparr>"

definition WithExclusiveWorkers :: "int \<Rightarrow> 'w pipeline_option" where
  "WithExclusiveWorkers n c = (if n > 0 then c\<lparr>pc_exclusiveWorkers := n\<rparr> else c)"

definition WithCommonWorkers :: "int \<Rightarrow> 'w pipeline_option" where
  "WithCommonWorkers n c = (if n > 0 then c\<lparr>pc_commonWorkers := n\<rparr> else c)"

definition WithAbortOnError :: "bool \<Rightarrow> 'w pipeline_option" where "WithAbortOnError abort c = c\<lparr>pc_abortOnError := abort\<rparr>"

definition WithHashPipeline :: "hash_pipeline \<Rightarrow> 'w pipeline_option" where "WithHashPipeline hp c = c\<lparr>pc_hashPipeline := Some hp\<rparr>"

definition WithExclusiveBatcher :: "'w batcher \<Rightarrow> 'w pipeline_option" where "WithExclusiveBatcher b c = c\<lparr>pc_exclusiveBatcher := Some b\<rparr>"

definition WithCommonBatcher :: "'w batcher \<Rightarrow> 'w pipeline_option" where "WithCommonBatcher b c = c\<lparr>pc_commonBatcher := Some b\<rparr>"

text \<open>A pipeline with its defaults filled in, and the environment it runs in: the number of processors, the default
  hasher and the roots of its classifier.\<close>

record 'w pipeline =
  pp_NumCPU :: nat
  pp_two_phase :: "nat option \<Rightarrow> content_hasher"
  pp_lowerRoot :: string
  pp_upperRoot :: string
  pp_excHandler :: "(exclusive_path, 'w) handler"
  pp_comHandler :: "(common_path, 'w) handler"
  pp_hash :: hash_pipeline
  pp_excBatcher :: "'w batcher"
  pp_comBatcher :: "'w batcher"
  pp_cfg :: "'w pipeline_config"

definition NewPipeline :: "nat \<Rightarrow> (nat option \<Rightarrow> content_hasher) \<Rightarrow> string \<times> string \<Rightarrow> (exclusive_path, 'w) handler option
    \<Rightarrow> (common_path, 'w) handler option \<Rightarrow> 'w pipeline_option list \<Rightarrow> 'w pipeline" where
  "NewPipeline NumCPU two_phase roots excH comH opts =
     (let cfg = fold (\<lambda>opt. opt) opts defaultPipelineConfig in
      \<lparr>pp_NumCPU = NumCPU, pp_two_phase = two_phase, pp_lowerRoot = fst roots, pp_upperRoot = snd roots,
       pp_excHandler = (case excH of Some h \<Rightarrow> h | None \<Rightarrow> NoopExclusiveHandler),
       pp_comHandler = (case comH of Some h \<Rightarrow> h | None \<Rightarrow> NoopCommonHandler),
       pp_hash = (case pc_hashPipeline cfg of Some hp \<Rightarrow> hp | None \<Rightarrow> NewHashPipeline two_phase NumCPU []),
       pp_excBatcher = (case pc_exclusiveBatcher cfg of Some b \<Rightarrow> b | None \<Rightarrow> NopBatcher),
       pp_comBatcher = (case pc_commonBatcher cfg of Some b \<Rightarrow> b | None \<Rightarrow> NopBatcher),
       pp_cfg = cfg\<rparr>)"

definition workerCount :: "nat \<Rightarrow> int \<Rightarrow> nat" where
  "workerCount NumCPU configured = (if configured > 0 then nat configured else NumCPU)"

definition excWorkers :: "'w pipeline \<Rightarrow> nat" where "excWorkers P = workerCount (pp_NumCPU P) (pc_exclusiveWorkers (pp_cfg P))"

definition comWorkers :: "'w pipeline \<Rightarrow> nat" where "comWorkers P = workerCount (pp_NumCPU P) (pc_commonWorkers (pp_cfg P))"

definition hashWorkers :: "'w pipeline \<Rightarrow> nat" where
  "hashWorkers P = (if hp_Workers (pp_hash P) \<le> 0 then pp_NumCPU P else nat (hp_Workers (pp_hash P)))"

section \<open>Operations for the batchers\<close>

definition exclusivePathToBatchOp :: "exclusive_path \<Rightarrow> batch_op" where
  "exclusivePathToBatchOp ep =
     \<lparr>bo_Kind = (if ep_Collapsed ep then OpRemoveAll else OpRemove), bo_RelPath = ep_Path ep, bo_Tag = TagExclusive ep\<rparr>"

definition commonPathToBatchOp :: "common_path \<Rightarrow> batch_op option" where
  "commonPathToBatchOp cp = (case IsContentEqual cp of (eq, checked) \<Rightarrow>
     (if \<not> checked \<or> \<not> eq then None else Some \<lparr>bo_Kind = OpRemove, bo_RelPath = cp_Path cp, bo_Tag = TagCommon cp\<rparr>))"

section \<open>The run\<close>

text \<open>\<open>pl_exc\<close>, \<open>pl_com\<close> and \<open>pl_classErrs\<close> are what the classifier has sent or will send; \<open>pl_excSel\<close>, \<open>pl_hashSel\<close> and
  \<open>pl_comSel\<close> the entry of a loop that has passed its check of the context and waits at the \<open>select\<close>; \<open>pl_hashing\<close>, \<open>pl_excJobs\<close> and
  \<open>pl_comJobs\<close> the goroutines before their call, \<open>pl_excSubmits\<close> and \<open>pl_comSubmits\<close> those between the handler and
  \<open>Submit\<close>; each holds a slot of its pool. So do the goroutines inside a call that never returns, which \<open>pl_excHung\<close>,
  \<open>pl_hashHung\<close> and \<open>pl_comHung\<close> count.\<close>

record 'w run_state =
  pl_exc :: "exclusive_path list"
  pl_excSel :: "exclusive_path option"
  pl_com :: "common_path list"
  pl_classErrs :: "ds_error list"
  pl_hashSel :: "common_path option"
  pl_hashing :: "common_path list"
  pl_enriched :: "common_path list"
  pl_comSel :: "common_path option"
  pl_excJobs :: "exclusive_path list"
  pl_excSubmits :: "exclusive_path list"
  pl_comJobs :: "common_path list"
  pl_comSubmits :: "common_path list"
  pl_errs :: "ds_error list"
  pl_excHung :: nat
  pl_hashHung :: nat
  pl_comHung :: nat
  pl_excHandled :: int
  pl_comHandled :: int
  pl_cancelled :: bool
  pl_world :: 'w

definition run_init :: "exclusive_path list \<Rightarrow> common_path list \<Rightarrow> ds_error list \<Rightarrow> 'w \<Rightarrow> 'w run_state" where
  "run_init exc com cerrs w = \<lparr>pl_exc = exc, pl_excSel = None, pl_com = com, pl_classErrs = cerrs,
     pl_hashSel = None, pl_hashing = [], pl_enriched = [], pl_comSel = None, pl_excJobs = [],
     pl_excSubmits = [], pl_comJobs = [], pl_comSubmits = [], pl_errs = [], pl_excHung = 0, pl_hashHung = 0, pl_comHung = 0, pl_excHandled = 0, pl_comHandled = 0,
     pl_cancelled = False, pl_world = w\<rparr>"

definition ctx_err :: "'w run_state \<Rightarrow> ds_error option" where
  "ctx_err s = (if pl_cancelled s then Some (Ctx ''context canceled'') else None)"

definition addErr :: "'w pipeline \<Rightarrow> string list \<Rightarrow> ds_error option \<Rightarrow> 'w run_state \<Rightarrow> 'w run_state" where
  "addErr P msg err s = (case err of None \<Rightarrow> s | Some e \<Rightarrow>
     (if isContextErr e then s
      else s\<lparr>pl_errs := pl_errs s @ [Wrap msg e], pl_cancelled := pl_cancelled s \<or> pc_abortOnError (pp_cfg P)\<rparr>))"

definition enrich :: "'w pipeline \<Rightarrow> ds_error option \<Rightarrow> common_path \<Rightarrow> common_path \<times> ds_error option" where
  "enrich P ctxErr cp = enrichOne (pp_two_phase P) (pp_hash P) ctxErr (pp_lowerRoot P) (pp_upperRoot P) cp"

definition handle_exclusive :: "'w pipeline \<Rightarrow> exclusive_path \<Rightarrow> 'w run_state \<Rightarrow> 'w run_state" where
  "handle_exclusive P ep s =
     (case pp_excHandler P ep (pl_world s) of
        (Some err, w) \<Rightarrow> addErr P [''exclusive handler'', ep_Path ep] (Some err) (s\<lparr>pl_world := w\<rparr>)
      | (None, w) \<Rightarrow> s\<lparr>pl_world := w, pl_excSubmits := pl_excSubmits s @ [ep]\<rparr>)"

definition submit_exclusive :: "'w pipeline \<Rightarrow> exclusive_path \<Rightarrow> 'w run_state \<Rightarrow> 'w run_state" where
  "submit_exclusive P ep s =
     (case ba_Submit (pp_excBatcher P) (ctx_err s) (exclusivePathToBatchOp ep) (pl_world s) of
        (Some err, w) \<Rightarrow> addErr P [''exclusive batcher submit'', ep_Path ep] (Some err) (s\<lparr>pl_world := w\<rparr>)
      | (None, w) \<Rightarrow> s\<lparr>pl_world := w, pl_excHandled := pl_excHandled s + 1\<rparr>)"

definition handle_common :: "'w pipeline \<Rightarrow> common_path \<Rightarrow> 'w run_state \<Rightarrow> 'w run_state" where
  "handle_common P cp s =
     (case pp_comHandler P cp (pl_world s) of
        (Some err, w) \<Rightarrow> addErr P [''common handler'', cp_Path cp] (Some err) (s\<lparr>pl_world := w\<rparr>)
      | (None, w) \<Rightarrow> s\<lparr>pl_world := w, pl_comSubmits := pl_comSubmits s @ [cp]\<rparr>)"

definition submit_common :: "'w pipeline \<Rightarrow> common_path \<Rightarrow> 'w run_state \<Rightarrow> 'w run_state" where
  "submit_common P cp s =
     (case commonPathToBatchOp cp of
        None \<Rightarrow> s\<lparr>pl_comHandled := pl_comHandled s + 1\<rparr>
      | Some bop \<Rightarrow>
          (case ba_Submit (pp_comBatcher P) (ctx_err s) bop (pl_world s) of
             (Some err, w) \<Rightarrow> addErr P [''common batcher submit'', cp_Path cp] (Some err) (s\<lparr>pl_world := w\<rparr>)
           | (None, w) \<Rightarrow> s\<lparr>pl_world := w, pl_comHandled := pl_comHandled s + 1\<rparr>))"

text \<open>The steps of the run. A call of a handler, a hasher or \<open>Submit\<close> that returns is one step.\<close>

inductive run_step :: "'w pipeline \<Rightarrow> 'w run_state \<Rightarrow> 'w run_state \<Rightarrow> bool" for P :: "'w pipeline" where
  exc_check: "pl_exc s = ep # eps \<Longrightarrow> pl_excSel s = None \<Longrightarrow> \<not> pl_cancelled s \<Longrightarrow> run_step P s (s\<lparr>pl_exc := eps, pl_excSel := Some ep\<rparr>)"
| exc_drain: "pl_exc s = ep # eps \<Longrightarrow> pl_excSel s = None \<Longrightarrow> pl_cancelled s \<Longrightarrow> run_step P s (s\<lparr>pl_exc := eps\<rparr>)"
| exc_send: "pl_excSel s = Some ep \<Longrightarrow> length (pl_excJobs s) + length (pl_excSubmits s) + pl_excHung s < excWorkers P \<Longrightarrow>
    run_step P s (s\<lparr>pl_excSel := None, pl_excJobs := pl_excJobs s @ [ep]\<rparr>)"
| exc_skip: "pl_excSel s = Some ep \<Longrightarrow> pl_cancelled s \<Longrightarrow> run_step P s (s\<lparr>pl_excSel := None\<rparr>)"
| exc_handle: "pl_excJobs s = as @ ep # bs \<Longrightarrow> run_step P s (handle_exclusive P ep (s\<lparr>pl_excJobs := as @ bs\<rparr>))"
| exc_submit: "pl_excSubmits s = as @ ep # bs \<Longrightarrow> run_step P s (submit_exclusive P ep (s\<lparr>pl_excSubmits := as @ bs\<rparr>))"
| hash_check: "pl_com s = cp # cps \<Longrightarrow> pl_hashSel s = None \<Longrightarrow> \<not> pl_cancelled s \<Longrightarrow> run_step P s (s\<lparr>pl_com := cps, pl_hashSel := Some cp\<rparr>)"
| hash_drain: "pl_com s = cp # cps \<Longrightarrow> pl_hashSel s = None \<Longrightarrow> pl_cancelled s \<Longrightarrow> run_step P s (s\<lparr>pl_com := cps\<rparr>)"
| hash_send: "pl_hashSel s = Some cp \<Longrightarrow> length (pl_hashing s) + pl_hashHung s < hashWorkers P \<Longrightarrow>
    run_step P s (s\<lparr>pl_hashSel := None, pl_hashing := pl_hashing s @ [cp]\<rparr>)"
| hash_skip: "pl_hashSel s = Some cp \<Longrightarrow> pl_cancelled s \<Longrightarrow> run_step P s (s\<lparr>pl_hashSel := None\<rparr>)"
| hash_done: "pl_hashing s = as @ cp # bs \<Longrightarrow> enrich P (ctx_err s) cp = (cp', err) \<Longrightarrow>
    run_step P s (addErr P [''hash stage''] err (s\<lparr>pl_hashing := as @ bs, pl_enriched := pl_enriched s @ [cp']\<rparr>))"
| hash_lost: "pl_hashing s = as @ cp # bs \<Longrightarrow> pl_cancelled s \<Longrightarrow> enrich P None cp = (cp', err) \<Longrightarrow> err' = err \<or> err' = None \<Longrightarrow>
    enriched = [] \<or> enriched = [cp'] \<Longrightarrow>
    run_step P s (addErr P [''hash stage''] err' (s\<lparr>pl_hashing := as @ bs, pl_enriched := pl_enriched s @ enriched\<rparr>))"
| com_check: "pl_enriched s = cp # cps \<Longrightarrow> pl_comSel s = None \<Longrightarrow> \<not> pl_cancelled s \<Longrightarrow> run_step P s (s\<lparr>pl_enriched := cps, pl_comSel := Some cp\<rparr>)"
| com_drain: "pl_enriched s = cp # cps \<Longrightarrow> pl_comSel s = None \<Longrightarrow> pl_cancelled s \<Longrightarrow> run_step P s (s\<lparr>pl_enriched := cps\<rparr>)"
| com_send: "pl_comSel s = Some cp \<Longrightarrow> length (pl_comJobs s) + length (pl_comSubmits s) + pl_comHung s < comWorkers P \<Longrightarrow>
    run_step P s (s\<lparr>pl_comSel := None, pl_comJobs := pl_comJobs s @ [cp]\<rparr>)"
| com_skip: "pl_comSel s = Some cp \<Longrightarrow> pl_cancelled s \<Longrightarrow> run_step P s (s\<lparr>pl_comSel := None\<rparr>)"
| com_handle: "pl_comJobs s = as @ cp # bs \<Longrightarrow> run_step P s (handle_common P cp (s\<lparr>pl_comJobs := as @ bs\<rparr>))"
| com_submit: "pl_comSubmits s = as @ cp # bs \<Longrightarrow> run_step P s (submit_common P cp (s\<lparr>pl_comSubmits := as @ bs\<rparr>))"
| class_err: "pl_classErrs s = e # es \<Longrightarrow> run_step P s (addErr P [''classifier stage''] (Some e) (s\<lparr>pl_classErrs := es\<rparr>))"

text \<open>What the run does not decide: the caller cancels, and a call never returns, after changing the world in any
  way. A \<open>Submit\<close> of the repository's batcher that flushes can do so (\<open>executeBatch_hangs_on_cancellation\<close>).\<close>

inductive run_env :: "'w run_state \<Rightarrow> 'w run_state \<Rightarrow> bool" where
  caller_cancels: "run_env s (s\<lparr>pl_cancelled := True\<rparr>)"
| exc_handler_hangs: "pl_excJobs s = as @ ep # bs \<Longrightarrow> run_env s (s\<lparr>pl_excJobs := as @ bs, pl_excHung := Suc (pl_excHung s), pl_world := w\<rparr>)"
| exc_submit_hangs: "pl_excSubmits s = as @ ep # bs \<Longrightarrow> run_env s (s\<lparr>pl_excSubmits := as @ bs, pl_excHung := Suc (pl_excHung s), pl_world := w\<rparr>)"
| hasher_hangs: "pl_hashing s = as @ cp # bs \<Longrightarrow> run_env s (s\<lparr>pl_hashing := as @ bs, pl_hashHung := Suc (pl_hashHung s)\<rparr>)"
| com_handler_hangs: "pl_comJobs s = as @ cp # bs \<Longrightarrow> run_env s (s\<lparr>pl_comJobs := as @ bs, pl_comHung := Suc (pl_comHung s), pl_world := w\<rparr>)"
| com_submit_hangs: "pl_comSubmits s = as @ cp # bs \<Longrightarrow> commonPathToBatchOp cp \<noteq> None \<Longrightarrow>
    run_env s (s\<lparr>pl_comSubmits := as @ bs, pl_comHung := Suc (pl_comHung s), pl_world := w\<rparr>)"

inductive_cases run_stepE: "run_step P s s'"
inductive_cases run_envE: "run_env s s'"

text \<open>\<open>stageWg.Wait\<close> returns.\<close>

definition stages_done :: "'w run_state \<Rightarrow> bool" where
  "stages_done s \<longleftrightarrow> pl_exc s = [] \<and> pl_com s = [] \<and> pl_classErrs s = [] \<and> pl_hashing s = [] \<and> pl_enriched s = []
     \<and> pl_excSel s = None \<and> pl_hashSel s = None \<and> pl_comSel s = None
     \<and> pl_excJobs s = [] \<and> pl_excSubmits s = [] \<and> pl_comJobs s = [] \<and> pl_comSubmits s = []
     \<and> pl_excHung s = 0 \<and> pl_hashHung s = 0 \<and> pl_comHung s = 0"

record pipeline_result =
  pr_ExclusiveHandled :: int
  pr_CommonHandled :: int
  pr_Err :: "ds_error option"

definition pr_OK :: "pipeline_result \<Rightarrow> bool" where "pr_OK r \<longleftrightarrow> pr_Err r = None"

definition finish_run :: "'w pipeline \<Rightarrow> 'w run_state \<Rightarrow> pipeline_result \<times> 'w" where
  "finish_run P s =
     (case ba_Flush (pp_excBatcher P) (ctx_err s) (pl_world s) of (e1, w1) \<Rightarrow>
        let s1 = addErr P [''exclusive batcher flush''] e1 (s\<lparr>pl_world := w1\<rparr>) in
        (case ba_Flush (pp_comBatcher P) (ctx_err s1) (pl_world s1) of (e2, w2) \<Rightarrow>
          let s2 = addErr P [''common batcher flush''] e2 (s1\<lparr>pl_world := w2\<rparr>) in
          (\<lparr>pr_ExclusiveHandled = pl_excHandled s2, pr_CommonHandled = pl_comHandled s2, pr_Err = joinErrors (pl_errs s2)\<rparr>, pl_world s2)))"


section \<open>Engines\<close>

text \<open>\<open>NewBestBatcher\<close> outside Linux. \<open>exec\<close> says what \<open>executeBatch\<close> does on a view.\<close>

definition NewBestBatcher :: "nat \<Rightarrow> 'v executor \<Rightarrow> (goroutine_batcher \<times> 'v) batcher \<times> goroutine_batcher" where
  "NewBestBatcher NumCPU exec = (GoroutineBatcher exec, NewGoroutineBatcher NumCPU [])"

definition NewDeleteEngine :: "'d os_calls \<Rightarrow> (string list \<Rightarrow> string + pattern_matcher) \<Rightarrow> nat \<Rightarrow> (nat option \<Rightarrow> content_hasher) \<Rightarrow> ('d merged_view \<Rightarrow> 'd executor)
    \<Rightarrow> string \<Rightarrow> string \<Rightarrow> string \<Rightarrow> classifier_option list \<Rightarrow> (goroutine_batcher \<times> 'd) pipeline_option list \<Rightarrow> 'd
    \<Rightarrow> ds_error + (classifier \<times> (goroutine_batcher \<times> 'd) pipeline \<times> goroutine_batcher)" where
  "NewDeleteEngine os pm_New NumCPU two_phase exec lowerDir upperDir mergedDir classOpts pipeOpts d =
     (case NewFSMergedView os mergedDir d of
        Inl err \<Rightarrow> Inl err
      | Inr view \<Rightarrow>
          (case NewBestBatcher NumCPU (exec view) of (B, b) \<Rightarrow>
            (case NewClassifier pm_New lowerDir upperDir classOpts of
               Inl panic \<Rightarrow> Inl (Msg [''panic'', panic])
             | Inr cl \<Rightarrow> Inr (cl, NewPipeline NumCPU two_phase (cl_lowerRoot cl, cl_upperRoot cl) (Some NoopExclusiveHandler) (Some NoopCommonHandler)
                 ([WithExclusiveBatcher B, WithCommonBatcher B] @ pipeOpts), b))))"

text \<open>The counters of an observing engine.\<close>

definition NewObserveEngine :: "(string list \<Rightarrow> string + pattern_matcher) \<Rightarrow> nat \<Rightarrow> (nat option \<Rightarrow> content_hasher) \<Rightarrow> string \<Rightarrow> string
    \<Rightarrow> classifier_option list \<Rightarrow> (exclusive_counts \<times> common_counts) pipeline_option list
    \<Rightarrow> string + (classifier \<times> (exclusive_counts \<times> common_counts) pipeline)" where
  "NewObserveEngine pm_New NumCPU two_phase lowerDir upperDir classOpts pipeOpts =
     (case NewClassifier pm_New lowerDir upperDir classOpts of
        Inl panic \<Rightarrow> Inl panic
      | Inr cl \<Rightarrow> Inr (cl, NewPipeline NumCPU two_phase (cl_lowerRoot cl, cl_upperRoot cl)
          (Some (\<lambda>ep w. case CountingExclusiveHandler ep (fst w) of (err, e) \<Rightarrow> (err, e, snd w)))
          (Some (\<lambda>cp w. case CountingCommonHandler cp (snd w) of (err, c) \<Rightarrow> (err, fst w, c))) pipeOpts))"

section \<open>Runs in which every call returns finish\<close>

lemma addErr_fields [simp]:
  "pl_exc (addErr P m e s) = pl_exc s" "pl_com (addErr P m e s) = pl_com s" "pl_classErrs (addErr P m e s) = pl_classErrs s"
  "pl_excSel (addErr P m e s) = pl_excSel s" "pl_hashSel (addErr P m e s) = pl_hashSel s" "pl_comSel (addErr P m e s) = pl_comSel s"
  "pl_hashing (addErr P m e s) = pl_hashing s" "pl_enriched (addErr P m e s) = pl_enriched s" "pl_excJobs (addErr P m e s) = pl_excJobs s"
  "pl_excSubmits (addErr P m e s) = pl_excSubmits s" "pl_comJobs (addErr P m e s) = pl_comJobs s" "pl_comSubmits (addErr P m e s) = pl_comSubmits s"
  "pl_excHandled (addErr P m e s) = pl_excHandled s" "pl_comHandled (addErr P m e s) = pl_comHandled s" "pl_world (addErr P m e s) = pl_world s"
  "pl_excHung (addErr P m e s) = pl_excHung s" "pl_hashHung (addErr P m e s) = pl_hashHung s" "pl_comHung (addErr P m e s) = pl_comHung s"
  by (simp_all add: addErr_def split: option.split)

primrec waiting :: "'a option \<Rightarrow> 'a list" where "waiting None = []" | "waiting (Some a) = [a]"

definition run_measure :: "'w run_state \<Rightarrow> nat" where
  "run_measure s = 4 * length (pl_exc s) + 3 * length (waiting (pl_excSel s)) + 2 * length (pl_excJobs s) + length (pl_excSubmits s)
     + 7 * length (pl_com s) + 6 * length (waiting (pl_hashSel s)) + 5 * length (pl_hashing s) + 4 * length (pl_enriched s)
     + 3 * length (waiting (pl_comSel s)) + 2 * length (pl_comJobs s) + length (pl_comSubmits s) + length (pl_classErrs s)"

lemma run_measure_calls:
  "run_measure (addErr P m e s) = run_measure s"
  "run_measure (handle_exclusive P ep s) \<le> run_measure s + 1" "run_measure (submit_exclusive P ep s) = run_measure s"
  "run_measure (handle_common P cp s) \<le> run_measure s + 1" "run_measure (submit_common P cp s) = run_measure s"
proof -
  show a: "run_measure (addErr P m e s) = run_measure s" for m e s by (simp add: run_measure_def)
  show "run_measure (handle_exclusive P ep s) \<le> run_measure s + 1"
    by (cases "pp_excHandler P ep (pl_world s)") (simp add: handle_exclusive_def a split: option.split, simp add: run_measure_def)
  show "run_measure (submit_exclusive P ep s) = run_measure s"
    by (cases "ba_Submit (pp_excBatcher P) (ctx_err s) (exclusivePathToBatchOp ep) (pl_world s)")
      (simp add: submit_exclusive_def a split: option.split, simp add: run_measure_def)
  show "run_measure (handle_common P cp s) \<le> run_measure s + 1"
    by (cases "pp_comHandler P cp (pl_world s)") (simp add: handle_common_def a split: option.split, simp add: run_measure_def)
  show "run_measure (submit_common P cp s) = run_measure s"
    by (simp add: submit_common_def a split: option.split prod.split) (simp add: run_measure_def)
qed

lemma run_step_decreases:
  assumes "run_step P s s'"
  shows "run_measure s' < run_measure s"
  using assms
proof cases
  case (exc_handle as ep bs)
  have "run_measure (s\<lparr>pl_excJobs := as @ bs\<rparr>) + 1 < run_measure s" using exc_handle(2) by (simp add: run_measure_def)
  then show ?thesis using run_measure_calls(2) [of P ep "s\<lparr>pl_excJobs := as @ bs\<rparr>"] unfolding exc_handle(1) by linarith
next
  case (com_handle as cp bs)
  have "run_measure (s\<lparr>pl_comJobs := as @ bs\<rparr>) + 1 < run_measure s" using com_handle(2) by (simp add: run_measure_def)
  then show ?thesis using run_measure_calls(4) [of P cp "s\<lparr>pl_comJobs := as @ bs\<rparr>"] unfolding com_handle(1) by linarith
qed (auto simp: run_measure_calls, auto simp: run_measure_def)

lemma workers_pos: "0 < pp_NumCPU P \<Longrightarrow> 0 < excWorkers P \<and> 0 < comWorkers P \<and> 0 < hashWorkers P"
  by (simp add: excWorkers_def comWorkers_def hashWorkers_def workerCount_def)

text \<open>The goroutines inside a call that does not return.\<close>

definition hung :: "'w run_state \<Rightarrow> nat" where
  "hung s = pl_excHung s + pl_hashHung s + pl_comHung s"

lemma hung_calls:
  "hung (addErr P m e s) = hung s" "hung (handle_exclusive P ep s) = hung s" "hung (submit_exclusive P ep s) = hung s"
  "hung (handle_common P cp s) = hung s" "hung (submit_common P cp s) = hung s"
proof -
  show a: "hung (addErr P m e s) = hung s" for m e s by (simp add: hung_def)
  show "hung (handle_exclusive P ep s) = hung s"
    by (cases "pp_excHandler P ep (pl_world s)") (simp add: handle_exclusive_def a split: option.split, simp add: hung_def)
  show "hung (submit_exclusive P ep s) = hung s"
    by (cases "ba_Submit (pp_excBatcher P) (ctx_err s) (exclusivePathToBatchOp ep) (pl_world s)")
      (simp add: submit_exclusive_def a split: option.split, simp add: hung_def)
  show "hung (handle_common P cp s) = hung s"
    by (cases "pp_comHandler P cp (pl_world s)") (simp add: handle_common_def a split: option.split, simp add: hung_def)
  show "hung (submit_common P cp s) = hung s"
    by (simp add: submit_common_def a split: option.split prod.split) (simp add: hung_def)
qed

lemma run_step_hung: "run_step P s s' \<Longrightarrow> hung s' = hung s"
  by (erule run_stepE) (simp_all add: hung_calls, simp_all add: hung_def)

lemma run_env_hung: "run_env s s' \<Longrightarrow> run_measure s' \<le> run_measure s \<and> hung s \<le> hung s'"
  by (erule run_envE) (simp_all add: hung_def run_measure_def)

lemma run_progress:
  assumes "0 < pp_NumCPU P" "hung s = 0" "\<not> stages_done s"
  shows "\<exists>s'. run_step P s s'"
proof -
  note w = workers_pos [OF assms(1)]
  have h: "pl_excHung s = 0" "pl_hashHung s = 0" "pl_comHung s = 0" using assms(2) by (simp_all add: hung_def)
  have jobs: "\<exists>as x bs. xs = as @ x # bs" if "xs \<noteq> []" for xs :: "'x list"
    using that by (metis append_Nil neq_Nil_conv)
  consider "pl_excJobs s \<noteq> []" | "pl_excSubmits s \<noteq> []" | "pl_hashing s \<noteq> []" | "pl_comJobs s \<noteq> []" | "pl_comSubmits s \<noteq> []" | "pl_classErrs s \<noteq> []"
    | (queues) "pl_excJobs s = []" "pl_excSubmits s = []" "pl_hashing s = []" "pl_comJobs s = []" "pl_comSubmits s = []" "pl_classErrs s = []" by blast
  then show ?thesis
  proof cases
    case 1
    then show ?thesis using jobs run_step.exc_handle by metis
  next
    case 2
    then show ?thesis using jobs run_step.exc_submit by metis
  next
    case 3
    then obtain as cp bs where h: "pl_hashing s = as @ cp # bs" using jobs by metis
    obtain cp' err where "enrich P (ctx_err s) cp = (cp', err)" by (cases "enrich P (ctx_err s) cp")
    from run_step.hash_done [OF h this] show ?thesis by blast
  next
    case 4
    then show ?thesis using jobs run_step.com_handle by metis
  next
    case 5
    then show ?thesis using jobs run_step.com_submit by metis
  next
    case 6
    then show ?thesis using run_step.class_err by (metis neq_Nil_conv)
  next
    case queues
    consider ep where "pl_excSel s = Some ep" | cp where "pl_hashSel s = Some cp" | cp where "pl_comSel s = Some cp"
      | (free) "pl_excSel s = None" "pl_hashSel s = None" "pl_comSel s = None" by fastforce
    then show ?thesis
    proof cases
      case (1 ep)
      then show ?thesis using run_step.exc_send [OF 1] queues w h by auto
    next
      case (2 cp)
      then show ?thesis using run_step.hash_send [OF 2] queues w h by auto
    next
      case (3 cp)
      then show ?thesis using run_step.com_send [OF 3] queues w h by auto
    next
      case free
      then consider ep eps where "pl_exc s = ep # eps" | cp cps where "pl_com s = cp # cps" | cp cps where "pl_enriched s = cp # cps"
        using assms(3) queues h by (auto simp: stages_done_def neq_Nil_conv)
      then show ?thesis
      proof cases
        case (1 ep eps)
        then show ?thesis using run_step.exc_check [OF 1 free(1)] run_step.exc_drain [OF 1 free(1)] by blast
      next
        case (2 cp cps)
        then show ?thesis using run_step.hash_check [OF 2 free(2)] run_step.hash_drain [OF 2 free(2)] by blast
      next
        case (3 cp cps)
        then show ?thesis using run_step.com_check [OF 3 free(3)] run_step.com_drain [OF 3 free(3)] by blast
      qed
    qed
  qed
qed

lemma run_finishes: "0 < pp_NumCPU P \<Longrightarrow> hung s = 0 \<Longrightarrow> \<exists>s'. (run_step P)\<^sup>*\<^sup>* s s' \<and> stages_done s'"
proof (induction "run_measure s" arbitrary: s rule: less_induct)
  case less
  show ?case
  proof (cases "stages_done s")
    case False
    then obtain t where t: "run_step P s t" using run_progress less(2,3) by blast
    have "hung t = 0" using run_step_hung [OF t] less(3) by simp
    from less(1) [OF run_step_decreases [OF t] less(2) this] show ?thesis
      using converse_rtranclp_into_rtranclp [of "run_step P", OF t] by blast
  qed blast
qed

lemma hung_init [simp]: "hung (run_init exc com cerrs w) = 0"
  by (simp add: hung_def run_init_def)

lemma run_can_finish: "0 < pp_NumCPU P \<Longrightarrow> \<exists>s'. (run_step P)\<^sup>*\<^sup>* (run_init exc com cerrs w) s' \<and> stages_done s'"
  by (simp add: run_finishes)

definition run_any :: "'w pipeline \<Rightarrow> 'w run_state \<Rightarrow> 'w run_state \<Rightarrow> bool" where
  "run_any P s s' \<longleftrightarrow> run_step P s s' \<or> run_env s s'"

lemma hung_stays: "(run_any P)\<^sup>*\<^sup>* s s' \<Longrightarrow> hung s \<le> hung s'"
  by (induction rule: rtranclp_induct) (use run_step_hung run_env_hung in \<open>force simp: run_any_def\<close>)+

text \<open>C10: A pipeline run ends exactly when every call of a handler, of the hasher and of \<open>Submit\<close> returns. In
  every state in which no call hangs, whatever the worker counts, the handlers and batchers, the errors so far, and whenever the caller
  cancels, a step is possible until all stages have ended; every step brings the run closer to its end, so that it ends after at most four
  steps per exclusive entry, seven per common entry and one per classifier error. After a call that hangs the stages never end: neither a
  cancellation nor an abort frees the goroutine that waits in it.\<close>

theorem Pipeline_finishes:
  assumes "0 < pp_NumCPU P"
  shows "(hung s = 0 \<longrightarrow> stages_done s \<or> (\<exists>s'. run_step P s s'))
    \<and> (\<forall>s'. run_step P s s' \<longrightarrow> run_measure s' < run_measure s \<and> hung s' = hung s)
    \<and> (\<forall>s'. run_env s s' \<longrightarrow> run_measure s' \<le> run_measure s)
    \<and> (hung s = 0 \<longrightarrow> (\<exists>s'. (run_step P)\<^sup>*\<^sup>* s s' \<and> stages_done s'))
    \<and> (0 < hung s \<longrightarrow> (\<forall>s'. (run_any P)\<^sup>*\<^sup>* s s' \<longrightarrow> \<not> stages_done s'))
    \<and> run_measure (run_init exc com cerrs w) = 4 * length exc + 7 * length com + length cerrs \<and> hung (run_init exc com cerrs w) = 0"
proof -
  have "\<not> stages_done s'" if "(run_any P)\<^sup>*\<^sup>* s s'" "0 < hung s" for s'
  proof -
    have "0 < hung s'" using hung_stays [OF that(1)] that(2) by simp
    then show ?thesis by (auto simp: stages_done_def hung_def)
  qed
  moreover have "run_measure (run_init exc com cerrs w) = 4 * length exc + 7 * length com + length cerrs"
    by (simp add: run_init_def run_measure_def)
  moreover have "stages_done s \<or> (\<exists>s'. run_step P s s')" if "hung s = 0" using run_progress [OF assms that] by blast
  moreover have "\<exists>s'. (run_step P)\<^sup>*\<^sup>* s s' \<and> stages_done s'" if "hung s = 0" by (rule run_finishes [OF assms that])
  ultimately show ?thesis
    by (intro conjI impI allI) (simp_all add: run_step_decreases run_step_hung run_env_hung)
qed

definition example_pipeline :: "'w pipeline" where
  "example_pipeline = NewPipeline 2 (\<lambda>bp la ua l u. Inr True) (''/l'', ''/u'') None None []"

theorem Pipeline_finishes_witness:
  "(\<exists>s'. (run_step example_pipeline)\<^sup>*\<^sup>* (run_init (exclusives (diff_events NoopFilter example_lower None)) [] [] ()) s' \<and> stages_done s')
    \<and> (\<nexists>s'. (run_any example_pipeline)\<^sup>*\<^sup>* ((run_init [] [] [] ())\<lparr>pl_excHung := 1\<rparr>) s' \<and> stages_done s')"
proof -
  have n: "0 < pp_NumCPU example_pipeline" by (simp add: example_pipeline_def NewPipeline_def)
  have h: "0 < hung ((run_init [] [] [] ())\<lparr>pl_excHung := 1\<rparr>)" by (simp add: hung_def)
  let ?i = "run_init (exclusives (diff_events NoopFilter example_lower None)) [] [] ()"
  have "\<exists>s'. (run_step example_pipeline)\<^sup>*\<^sup>* ?i s' \<and> stages_done s'"
    using Pipeline_finishes [OF n, of ?i "[]" "[]" "[]" "()"] hung_init by (elim conjE) (rule mp)
  moreover have "\<forall>s'. (run_any example_pipeline)\<^sup>*\<^sup>* ((run_init [] [] [] ())\<lparr>pl_excHung := 1\<rparr>) s' \<longrightarrow> \<not> stages_done s'"
    using Pipeline_finishes [OF n, of "(run_init [] [] [] ())\<lparr>pl_excHung := 1\<rparr>" "[]" "[]" "[]" "()"] h by (elim conjE) (rule mp)
  ultimately show ?thesis by blast
qed

section \<open>Deleting\<close>

definition stage_errors :: "string list \<Rightarrow> ds_error option \<Rightarrow> ds_error list" where
  "stage_errors msg err = (case err of None \<Rightarrow> [] | Some e \<Rightarrow> if isContextErr e then [] else [Wrap msg e])"

definition class_errors :: "ds_error list \<Rightarrow> ds_error list" where
  "class_errors es = concat (map (\<lambda>e. stage_errors [''classifier stage''] (Some e)) es)"

definition hash_errors :: "'w pipeline \<Rightarrow> common_path list \<Rightarrow> ds_error list" where
  "hash_errors P cps = concat (map (\<lambda>cp. stage_errors [''hash stage''] (snd (enrich P None cp))) cps)"

lemma addErr_no_abort:
  assumes "\<not> pc_abortOnError (pp_cfg P)"
  shows "pl_errs (addErr P msg err s) = pl_errs s @ stage_errors msg err" "pl_cancelled (addErr P msg err s) = pl_cancelled s"
  using assms by (auto simp: addErr_def stage_errors_def split: option.split)

text \<open>The pipeline of a deleting engine with the default options: no handlers, one batcher for both streams.\<close>

definition deletes :: "(goroutine_batcher \<times> 'v) pipeline \<Rightarrow> 'v executor \<Rightarrow> bool" where
  "deletes P exec \<longleftrightarrow> pp_excHandler P = NoopExclusiveHandler \<and> pp_comHandler P = NoopCommonHandler
     \<and> pp_excBatcher P = GoroutineBatcher exec \<and> pp_comBatcher P = GoroutineBatcher exec \<and> \<not> pc_abortOnError (pp_cfg P)"

definition common_ops :: "common_path list \<Rightarrow> batch_op list" where
  "common_ops cps = concat (map (\<lambda>cp. case commonPathToBatchOp cp of None \<Rightarrow> [] | Some bop \<Rightarrow> [bop]) cps)"

abbreviation enriched_entry :: "'w pipeline \<Rightarrow> common_path \<Rightarrow> common_path" where
  "enriched_entry P cp \<equiv> fst (enrich P None cp)"

definition empty_batcher :: "goroutine_batcher \<Rightarrow> bool" where
  "empty_batcher b \<longleftrightarrow> \<not> gb_closed b \<and> gb_autoFlushAt b = 0 \<and> gb_pending b = []"

text \<open>\<open>doneE\<close> and \<open>doneC\<close> are the entries that have passed, \<open>pending\<close> what the batcher holds.\<close>

definition del_at :: "(goroutine_batcher \<times> 'v) pipeline \<Rightarrow> exclusive_path list \<Rightarrow> common_path list \<Rightarrow> ds_error list \<Rightarrow> goroutine_batcher \<Rightarrow> 'v
    \<Rightarrow> exclusive_path list \<Rightarrow> common_path list \<Rightarrow> batch_op list \<Rightarrow> (goroutine_batcher \<times> 'v) run_state \<Rightarrow> bool" where
  "del_at P exc com cerrs b v doneE doneC pending s \<longleftrightarrow>
     mset exc = mset (pl_exc s) + mset (waiting (pl_excSel s)) + mset (pl_excJobs s) + mset (pl_excSubmits s) + mset doneE
     \<and> mset (map (enriched_entry P) com) = mset (map (enriched_entry P) (pl_com s)) + mset (map (enriched_entry P) (waiting (pl_hashSel s)))
         + mset (map (enriched_entry P) (pl_hashing s)) + mset (pl_enriched s) + mset (waiting (pl_comSel s)) + mset (pl_comJobs s) + mset (pl_comSubmits s) + mset doneC
     \<and> pl_excHandled s = int (length doneE) \<and> pl_comHandled s = int (length doneC)
     \<and> pl_world s = (b\<lparr>gb_pending := pending\<rparr>, v)
     \<and> mset pending = mset (map exclusivePathToBatchOp doneE) + mset (common_ops doneC)
     \<and> mset (pl_errs s) + mset (class_errors (pl_classErrs s)) + mset (hash_errors P (pl_com s)) + mset (hash_errors P (waiting (pl_hashSel s)))
         + mset (hash_errors P (pl_hashing s)) = mset (class_errors cerrs) + mset (hash_errors P com)"

definition del_inv :: "(goroutine_batcher \<times> 'v) pipeline \<Rightarrow> exclusive_path list \<Rightarrow> common_path list \<Rightarrow> ds_error list \<Rightarrow> goroutine_batcher \<Rightarrow> 'v
    \<Rightarrow> (goroutine_batcher \<times> 'v) run_state \<Rightarrow> bool" where
  "del_inv P exc com cerrs b v s \<longleftrightarrow> \<not> pl_cancelled s \<and> (\<exists>doneE doneC pending. del_at P exc com cerrs b v doneE doneC pending s)"

lemma del_invI: "\<not> pl_cancelled s \<Longrightarrow> del_at P exc com cerrs b v doneE doneC pending s \<Longrightarrow> del_inv P exc com cerrs b v s"
  unfolding del_inv_def by blast

lemma errors_simps [simp]:
  "class_errors [] = []" "class_errors (e # es) = stage_errors [''classifier stage''] (Some e) @ class_errors es"
  "hash_errors P [] = []" "hash_errors P (cp # cps) = stage_errors [''hash stage''] (snd (enrich P None cp)) @ hash_errors P cps"
  "hash_errors P (xs @ ys) = hash_errors P xs @ hash_errors P ys"
  by (simp_all add: class_errors_def hash_errors_def)

lemma common_ops_simps [simp]:
  "common_ops [] = []" "common_ops (cp # cps) = (case commonPathToBatchOp cp of None \<Rightarrow> [] | Some bop \<Rightarrow> [bop]) @ common_ops cps"
  "common_ops (xs @ ys) = common_ops xs @ common_ops ys"
  by (simp_all add: common_ops_def)

lemma del_inv_init: "empty_batcher b \<Longrightarrow> del_inv P exc com cerrs b v (run_init exc com cerrs (b, v))"
  by (rule del_invI [of _ _ _ _ _ _ _ "[]" "[]" "[]"]) (simp_all add: run_init_def empty_batcher_def del_at_def)

lemma submit_open:
  "empty_batcher b \<Longrightarrow> gb_Submit exec c bop (b\<lparr>gb_pending := pending\<rparr>, v) = (None, b\<lparr>gb_pending := pending @ [bop]\<rparr>, v)"
  by (simp add: empty_batcher_def gb_Submit_def Let_def)

lemma del_inv_step:
  assumes "run_step P s s'" "del_inv P exc com cerrs b v s" "deletes P exec" "empty_batcher b"
  shows "del_inv P exc com cerrs b v s'"
proof -
  obtain doneE doneC pending where inv: "del_at P exc com cerrs b v doneE doneC pending s" and nc: "\<not> pl_cancelled s"
    using assms(2) unfolding del_inv_def by blast
  have w: "pl_world s = (b\<lparr>gb_pending := pending\<rparr>, v)" using inv by (simp add: del_at_def)
  have D: "pp_excHandler P = NoopExclusiveHandler" "pp_comHandler P = NoopCommonHandler" "pp_excBatcher P = GoroutineBatcher exec"
    "pp_comBatcher P = GoroutineBatcher exec" "\<not> pc_abortOnError (pp_cfg P)" using assms(3) by (simp_all add: deletes_def)
  note abort = addErr_no_abort [OF D(5)]
  note same = del_invI [of _ _ _ _ _ _ _ doneE doneC pending]
  show ?thesis
    using assms(1)
  proof cases
    case (exc_handle as ep bs)
    then show ?thesis using inv nc by (intro same) (simp_all add: del_at_def handle_exclusive_def D NoopExclusiveHandler_def)
  next
    case (exc_submit as ep bs)
    have "s' = s\<lparr>pl_excSubmits := as @ bs, pl_world := (b\<lparr>gb_pending := pending @ [exclusivePathToBatchOp ep]\<rparr>, v), pl_excHandled := pl_excHandled s + 1\<rparr>"
      unfolding exc_submit(1) by (simp add: submit_exclusive_def D GoroutineBatcher_def w submit_open [OF assms(4)])
    then show ?thesis using inv nc exc_submit(2)
      by (intro del_invI [of _ _ _ _ _ _ _ "doneE @ [ep]" doneC "pending @ [exclusivePathToBatchOp ep]"]) (simp_all add: del_at_def)
  next
    case (hash_done as cp bs cp' err)
    have e: "enrich P None cp = (cp', err)" using hash_done(3) nc by (simp add: ctx_err_def)
    show ?thesis unfolding hash_done(1) using inv nc hash_done(2) by (intro same) (simp_all add: del_at_def abort e ac_simps)
  next
    case (com_handle as cp bs)
    then show ?thesis using inv nc by (intro same) (simp_all add: del_at_def handle_common_def D NoopCommonHandler_def)
  next
    case (com_submit as cp bs)
    show ?thesis
    proof (cases "commonPathToBatchOp cp")
      case None
      then have "s' = s\<lparr>pl_comSubmits := as @ bs, pl_comHandled := pl_comHandled s + 1\<rparr>" unfolding com_submit(1) by (simp add: submit_common_def)
      then show ?thesis using inv nc com_submit(2) None
        by (intro del_invI [of _ _ _ _ _ _ _ doneE "doneC @ [cp]" pending]) (simp_all add: del_at_def)
    next
      case (Some bop)
      then have "s' = s\<lparr>pl_comSubmits := as @ bs, pl_world := (b\<lparr>gb_pending := pending @ [bop]\<rparr>, v), pl_comHandled := pl_comHandled s + 1\<rparr>"
        unfolding com_submit(1) by (simp add: submit_common_def D GoroutineBatcher_def w submit_open [OF assms(4)])
      then show ?thesis using inv nc com_submit(2) Some
        by (intro del_invI [of _ _ _ _ _ _ _ doneE "doneC @ [cp]" "pending @ [bop]"]) (simp_all add: del_at_def)
    qed
  next
    case (class_err e es)
    then show ?thesis using inv nc by (intro same) (simp_all add: del_at_def abort ac_simps)
  qed (use inv nc in \<open>auto intro!: same simp: del_at_def ac_simps\<close>)
qed


lemma del_inv_steps:
  "(run_step P)\<^sup>*\<^sup>* (run_init exc com cerrs (b, v)) s \<Longrightarrow> deletes P exec \<Longrightarrow> empty_batcher b \<Longrightarrow> del_inv P exc com cerrs b v s"
  by (induction rule: rtranclp_induct) (auto intro: del_inv_init del_inv_step)

lemma mset_common_ops: "mset xs = mset ys \<Longrightarrow> mset (common_ops xs) = mset (common_ops ys)"
proof -
  let ?f = "\<lambda>cp. mset (case commonPathToBatchOp cp of None \<Rightarrow> [] | Some bop \<Rightarrow> [bop])"
  have "mset (common_ops zs) = (\<Sum>cp \<in># mset zs. ?f cp)" for zs by (induction zs) simp_all
  then show "mset xs = mset ys \<Longrightarrow> ?thesis" by simp
qed

lemma run_ops_real_errors: "\<forall>e \<in> set (fst (run_ops M bops ([], v))). \<not> isContextErr e"
proof (induction bops arbitrary: v rule: rev_induct)
  case (snoc bop bops)
  then show ?case by (auto simp: run_op_def batch_error_def split: prod.splits option.splits if_splits)
qed simp

lemma flush_errors: "mset es = mset (fst (run_ops M bops ([], v))) \<Longrightarrow> stage_errors msg (joinErrors es) = [] \<longleftrightarrow> es = []"
  using run_ops_real_errors [of M bops v] mset_eq_setD [of es] by (auto simp: stage_errors_def joinErrors_def list_ex_iff)

lemma deleting_run_plan:
  assumes "deletes P exec" "executes M exec" "empty_batcher b" "(run_step P)\<^sup>*\<^sup>* (run_init exc com cerrs (b, v)) s" "stages_done s"
  obtains order r b' where "finish_run P s = (r, b', snd (run_ops M order ([], v)))"
    "mset order = mset (map exclusivePathToBatchOp exc @ common_ops (map (enriched_entry P) com))"
    "pr_ExclusiveHandled r = int (length exc)" "pr_CommonHandled r = int (length com)" "gb_pending b' = []"
    "pr_OK r \<longleftrightarrow> class_errors cerrs = [] \<and> hash_errors P com = [] \<and> fst (run_ops M order ([], v)) = []"
proof -
  have inv: "del_inv P exc com cerrs b v s" by (rule del_inv_steps [OF assms(4,1,3)])
  then obtain doneE doneC pending where at: "del_at P exc com cerrs b v doneE doneC pending s" and nc: "\<not> pl_cancelled s"
    unfolding del_inv_def by blast
  have d: "mset exc = mset doneE" "mset (map (enriched_entry P) com) = mset doneC" "pl_excHandled s = int (length doneE)" "pl_comHandled s = int (length doneC)"
    "pl_world s = (b\<lparr>gb_pending := pending\<rparr>, v)" "mset pending = mset (map exclusivePathToBatchOp doneE) + mset (common_ops doneC)"
    "mset (pl_errs s) = mset (class_errors cerrs) + mset (hash_errors P com)"
    using at assms(5) by (simp_all add: del_at_def stages_done_def)
  have D: "pp_excBatcher P = GoroutineBatcher exec" "pp_comBatcher P = GoroutineBatcher exec" "\<not> pc_abortOnError (pp_cfg P)"
    using assms(1) by (simp_all add: deletes_def)
  note abort = addErr_no_abort [OF D(3)]
  have ob: "\<not> gb_closed b" using assms(3) by (simp add: empty_batcher_def)
  obtain order es where o: "mset order = mset pending" "mset es = mset (fst (run_ops M order ([], v)))"
      "exec None pending v = (joinErrors es, snd (run_ops M order ([], v)))"
    using assms(2) unfolding executes_def by blast
  let ?v = "snd (run_ops M order ([], v))"
  have empty: "exec None [] ?v = (None, ?v)"
  proof -
    obtain order' es' where "mset order' = mset []" "mset es' = mset (fst (run_ops M order' ([], ?v)))"
        "exec None [] ?v = (joinErrors es', snd (run_ops M order' ([], ?v)))"
      using assms(2) unfolding executes_def by blast
    then show ?thesis by (simp add: joinErrors_def)
  qed
  let ?w = "(b\<lparr>gb_pending := []\<rparr>, ?v)"
  let ?s1 = "addErr P [''exclusive batcher flush''] (joinErrors es) (s\<lparr>pl_world := ?w\<rparr>)"
  have f1: "ba_Flush (pp_excBatcher P) (ctx_err s) (pl_world s) = (joinErrors es, ?w)"
    using o(3) nc ob by (simp add: D GoroutineBatcher_def gb_Flush_def d(5) ctx_err_def)
  have f2: "ba_Flush (pp_comBatcher P) (ctx_err ?s1) (pl_world ?s1) = (None, ?w)"
    using empty nc ob by (simp add: D GoroutineBatcher_def gb_Flush_def ctx_err_def abort)
  let ?r = "\<lparr>pr_ExclusiveHandled = pl_excHandled s, pr_CommonHandled = pl_comHandled s, pr_Err = joinErrors (pl_errs ?s1)\<rparr>"
  have "finish_run P s = (?r, ?w)"
    unfolding finish_run_def f1 Let_def prod.case f2 by (simp add: addErr_def [of P _ None])
  moreover have "length doneE = length exc" "length doneC = length com" using d(1,2) by (metis size_mset, metis size_mset length_map)
  moreover have "mset order = mset (map exclusivePathToBatchOp exc @ common_ops (map (enriched_entry P) com))"
    using o(1) d(1,6) mset_common_ops [OF d(2)] by simp
  moreover have "pl_errs s = [] \<longleftrightarrow> class_errors cerrs = [] \<and> hash_errors P com = []"
  proof -
    have "pl_errs s = [] \<longleftrightarrow> mset (class_errors cerrs) + mset (hash_errors P com) = {#}" unfolding d(7) [symmetric] by simp
    then show ?thesis by simp
  qed
  moreover have "es = [] \<longleftrightarrow> fst (run_ops M order ([], v)) = []" using o(2) by (metis mset_zero_iff)
  moreover have "pr_OK ?r \<longleftrightarrow> pl_errs s = [] \<and> es = []"
  proof -
    have "joinErrors xs = None \<longleftrightarrow> xs = []" for xs by (simp add: joinErrors_def)
    then show ?thesis by (simp add: pr_OK_def abort flush_errors [OF o(2)])
  qed
  ultimately show ?thesis using d(3,4) by (intro that [of ?r "b\<lparr>gb_pending := []\<rparr>" order]) simp_all
qed

text \<open>A deleting run executes the plan. However the stages of a run that nobody cancels interleave, when they have ended every
  entry has been handled, and the flush executes one operation for every exclusive entry and one for every common
  entry whose contents the hasher found equal, each once, in some order; the result is an error exactly when the
  classifier, the hasher or an operation failed.\<close>

theorem DeleteEngine_executes_the_plan:
  assumes "deletes P exec" "executes M exec" "empty_batcher b" "(run_step P)\<^sup>*\<^sup>* (run_init exc com cerrs (b, v)) s" "stages_done s"
  shows "case finish_run P s of (r, b', v') \<Rightarrow>
    (\<exists>order. mset order = mset (map exclusivePathToBatchOp exc @ common_ops (map (enriched_entry P) com))
       \<and> v' = snd (run_ops M order ([], v))
       \<and> (pr_OK r \<longleftrightarrow> class_errors cerrs = [] \<and> hash_errors P com = [] \<and> fst (run_ops M order ([], v)) = []))
    \<and> pr_ExclusiveHandled r = int (length exc) \<and> pr_CommonHandled r = int (length com) \<and> gb_pending b' = []"
  by (rule deleting_run_plan [OF assms]) auto

definition delete_pipeline :: "content_hasher \<Rightarrow> 'v merged_view \<Rightarrow> (goroutine_batcher \<times> 'v) pipeline" where
  "delete_pipeline h M = NewPipeline 2 (\<lambda>bp. h) (''/l'', ''/u'') (Some NoopExclusiveHandler) (Some NoopCommonHandler)
     [WithExclusiveBatcher (GoroutineBatcher (in_order M)), WithCommonBatcher (GoroutineBatcher (in_order M))]"

lemma delete_pipeline_deletes: "deletes (delete_pipeline h M) (in_order M)" "0 < pp_NumCPU (delete_pipeline h M)"
  by (simp_all add: delete_pipeline_def NewPipeline_def deletes_def defaultPipelineConfig_def WithExclusiveBatcher_def WithCommonBatcher_def)

lemma new_batcher_empty: "empty_batcher (NewGoroutineBatcher n [])"
  by (simp add: NewGoroutineBatcher_def empty_batcher_def)

theorem DeleteEngine_executes_the_plan_witness:
  "\<exists>r b' v'. pr_ExclusiveHandled r = 2 \<and> gb_pending b' = [] \<and>
     (\<exists>s. finish_run (delete_pipeline (\<lambda>_ _ _ _. Inr True) (MemMergedView ''m'')) s = (r, b', v'))"
proof -
  let ?P = "delete_pipeline (\<lambda>_ _ _ _. Inr True) (MemMergedView ''m'')"
  let ?exc = "exclusives [excl_leaf [''a''] dir_info, excl_dir [''d''] dir_info]"
  let ?i = "run_init ?exc [] [] (NewGoroutineBatcher 2 [], NewMemMergedView ''m'')"
  obtain s where s: "(run_step ?P)\<^sup>*\<^sup>* ?i s" "stages_done s"
    using run_can_finish [OF delete_pipeline_deletes(2), of "\<lambda>_ _ _ _. Inr True" "MemMergedView ''m''" ?exc "[]" "[]"
        "(NewGoroutineBatcher 2 [], NewMemMergedView ''m'')"] by blast
  obtain r b' v' where f: "finish_run ?P s = (r, b', v')" by (cases "finish_run ?P s")
  have "pr_ExclusiveHandled r = int (length ?exc)" "gb_pending b' = []"
    using DeleteEngine_executes_the_plan [OF delete_pipeline_deletes(1) executes_in_order new_batcher_empty s] by (simp_all add: f)
  moreover have "length ?exc = 2" by (simp add: excl_leaf_def excl_dir_def)
  ultimately show ?thesis using f by auto
qed

section \<open>What a deleting engine leaves\<close>

text \<open>Every operation on a single entry is on a leaf of the merged view.\<close>

definition on_leaves :: "'w pipeline \<Rightarrow> walk_event list \<Rightarrow> string list set \<Rightarrow> bool" where
  "on_leaves P evs N \<longleftrightarrow> (\<forall>ns ts. ns @ ts \<in> N \<longrightarrow> ts \<noteq> [] \<longrightarrow>
     (\<forall>e \<in> set (exclusives evs). \<not> ep_Collapsed e \<longrightarrow> ep_Path e \<noteq> rel_path ns)
     \<and> (\<forall>c \<in> set (commons evs). cp_HashEqual (enriched_entry P c) = Some True \<longrightarrow> cp_Path c \<noteq> rel_path ns))"


lemma enriched_path: "cp_Path (enriched_entry P c) = cp_Path c"
  by (simp add: enrich_def enrichOne_def Let_def split: sum.split)

lemma exclusive_plain:
  assumes "wf_tree l" "is_node l" "e \<in> set (exclusives (diff_events f l u))"
  obtains ms where "plain_names ms" "ep_Path e = rel_path ms"
proof -
  obtain li lkids where l: "l = Node li lkids" using assms by auto
  obtain k where k: "k \<in> set lkids" "e \<in> set (exclusives (diff_entry f [fst k] (snd k) (Option.bind u (\<lambda>t. map_of (tree_kids t) (fst k)))))"
    using assms(3) by (auto simp: diff_events_def l exclusives_concat)
  have w: "plain_name (fst k)" "wf_tree (snd k)" using wf_kid [OF assms(1) [unfolded l] k(1)] by simp_all
  obtain qs where "plain qs" "ep_Path e = rel_path ([fst k] @ qs)" using diff_entry_below [OF _ _ w(2) k(2)] w(1) by auto
  then show ?thesis using that [of "fst k # qs"] w(1) by (simp add: plain_names_def)
qed

lemma common_plain:
  assumes "wf_tree l" "is_node l" "wf_tree t" "is_node t" "c \<in> set (commons (diff_events NoopFilter l (Some t)))"
  obtains ms where "plain_names ms" "cp_Path c = rel_path ms"
proof -
  obtain ms a b where c: "subtree l ms = Some a" "subtree t ms = Some b" "\<not> (is_node a \<and> is_node b)" "cp_Path c = rel_path ms"
    using assms(5) unfolding diff_events_commons [OF assms(1-4)] by auto
  then have "ms \<noteq> []" using assms(2,4) by auto
  then show ?thesis using that [of ms] c(4) wf_subtree [OF assms(1) c(1)] by (simp add: plain_names_def)
qed

lemma in_targets:
  assumes "plain_names ns" "plain_names ms" "bo_RelPath bop = rel_path ms"
  shows "ns \<in> path_view.targets bop \<longleftrightarrow> (if bo_Kind bop = OpRemoveAll then isPathUnder (rel_path ns) (rel_path ms) else rel_path ns = rel_path ms)"
proof -
  have "rel_path xs = rel_path ms \<and> plain_names xs \<longleftrightarrow> xs = ms" for xs using fs_view.rel_path_plain assms(2) by blast
  then have "path_view.targets bop = (if bo_Kind bop = OpRemoveAll then {ms @ ts | ts. True} else {ms})"
    by (auto simp: fs_view.targets_def assms(3))
  then show ?thesis
    using isPathUnder_rel_path [of ns ms] fs_view.rel_path_plain [OF assms(1,2)] assms(1,2) by (auto simp: plain_names_def)
qed

lemma common_ops_of: "bop \<in> set (common_ops (map (enriched_entry P) cps)) \<longleftrightarrow>
  (\<exists>c \<in> set cps. cp_HashEqual (enriched_entry P c) = Some True \<and> bop = \<lparr>bo_Kind = OpRemove, bo_RelPath = cp_Path c, bo_Tag = TagCommon (enriched_entry P c)\<rparr>)"
  by (induction cps) (auto simp: commonPathToBatchOp_def IsContentEqual_def enriched_path split: option.splits)

lemma deleting_run_result:
  assumes "deletes P exec" "executes (merged_dir info) exec" "empty_batcher b" "wf_tree l" "is_node l" "wf_tree t" "is_node t"
    and "evs = diff_events NoopFilter l (Some t)" "(run_step P)\<^sup>*\<^sup>* (run_init (exclusives evs) (commons evs) [] (b, D)) s" "stages_done s"
    and "on_leaves P evs (view_paths [''merged''] D)"
  obtains r b' D' where "finish_run P s = (r, b', D')"
    "\<And>ns. plain_names ns \<Longrightarrow> ns \<in> view_paths [''merged''] D' \<longleftrightarrow> ns \<in> view_paths [''merged''] D \<and>
       \<not> (set_removes (exclusives evs) (rel_path ns) \<or> (\<exists>c \<in> set (commons evs). cp_HashEqual (enriched_entry P c) = Some True \<and> cp_Path c = rel_path ns))"
    "pr_OK r \<longleftrightarrow> hash_errors P (commons evs) = []"
proof -
  let ?V = "view_paths [''merged'']" and ?ops = "map exclusivePathToBatchOp (exclusives evs) @ common_ops (map (enriched_entry P) (commons evs))"
  obtain order r b' where o: "finish_run P s = (r, b', snd (run_ops (merged_dir info) order ([], D)))" "mset order = mset ?ops"
      "pr_OK r \<longleftrightarrow> class_errors [] = [] \<and> hash_errors P (commons evs) = [] \<and> fst (run_ops (merged_dir info) order ([], D)) = []"
    by (rule deleting_run_plan [OF assms(1-3,9,10)])
  have ops: "set order = set ?ops" using o(2) by (rule mset_eq_setD)
  note ep = exclusive_plain [OF assms(4,5), of _ NoopFilter "Some t", folded assms(8)]
  note cpl = common_plain [OF assms(4-7), folded assms(8)]
  have leaf: "ts = []" if "rel_path ms = bo_RelPath bop" "bop \<in> set ?ops" "bo_Kind bop \<noteq> OpRemoveAll" "ms @ ts \<in> ?V D" for bop ms ts
  proof (rule ccontr)
    assume "ts \<noteq> []"
    with assms(11) that(4) have "(\<forall>e \<in> set (exclusives evs). \<not> ep_Collapsed e \<longrightarrow> ep_Path e \<noteq> rel_path ms)
        \<and> (\<forall>c \<in> set (commons evs). cp_HashEqual (enriched_entry P c) = Some True \<longrightarrow> cp_Path c \<noteq> rel_path ms)"
      unfolding on_leaves_def by blast
    then show False using that(1-3) by (auto simp: exclusivePathToBatchOp_def common_ops_of split: if_splits)
  qed
  have sound: "path_view.sound_op ?V D bop" if "bop \<in> set order" for bop
  proof -
    from that have b: "bop \<in> set ?ops" using ops by simp
    then consider e where "e \<in> set (exclusives evs)" "bop = exclusivePathToBatchOp e"
      | c where "c \<in> set (commons evs)" "bo_RelPath bop = cp_Path c" "bo_Kind bop = OpRemove" by (auto simp: common_ops_of)
    then obtain ms where "plain_names ms" "bo_RelPath bop = rel_path ms" "bo_Kind bop = OpRemoveAll \<or> bo_Kind bop = OpRemove"
      by cases (metis ep exclusivePathToBatchOp_def batch_op.simps(1,2), metis cpl)
    then show ?thesis unfolding fs_view.sound_op_def using leaf [OF _ b] by fastforce
  qed
  note run = fs_view.run_sound_ops [of order D info "[]", OF sound]
  let ?D' = "snd (run_ops (merged_dir info) order ([], D))"
  have "ns \<in> ?V ?D' \<longleftrightarrow> ns \<in> ?V D \<and> \<not> (set_removes (exclusives evs) (rel_path ns)
      \<or> (\<exists>c \<in> set (commons evs). cp_HashEqual (enriched_entry P c) = Some True \<and> cp_Path c = rel_path ns))" if ns: "plain_names ns" for ns
  proof -
    have ex: "ns \<in> path_view.targets (exclusivePathToBatchOp e) \<longleftrightarrow> entry_removes e (rel_path ns)" if e: "e \<in> set (exclusives evs)" for e
    proof -
      obtain ms where ms: "plain_names ms" "ep_Path e = rel_path ms" by (rule ep [OF e])
      then show ?thesis using in_targets [OF ns ms(1), of "exclusivePathToBatchOp e"] by (simp add: exclusivePathToBatchOp_def entry_removes_def)
    qed
    have co: "ns \<in> path_view.targets \<lparr>bo_Kind = OpRemove, bo_RelPath = cp_Path c, bo_Tag = tag\<rparr> \<longleftrightarrow> cp_Path c = rel_path ns"
      if c: "c \<in> set (commons evs)" for c tag
    proof -
      obtain ms where ms: "plain_names ms" "cp_Path c = rel_path ms" by (rule cpl [OF c])
      then show ?thesis using in_targets [OF ns ms(1), of "\<lparr>bo_Kind = OpRemove, bo_RelPath = cp_Path c, bo_Tag = tag\<rparr>"] by auto
    qed
    have "(\<exists>bop \<in> set (map exclusivePathToBatchOp (exclusives evs)). ns \<in> path_view.targets bop) \<longleftrightarrow> set_removes (exclusives evs) (rel_path ns)"
      using ex by (simp add: set_removes_def)
    moreover have "(\<exists>bop \<in> set (common_ops (map (enriched_entry P) (commons evs))). ns \<in> path_view.targets bop)
        \<longleftrightarrow> (\<exists>c \<in> set (commons evs). cp_HashEqual (enriched_entry P c) = Some True \<and> cp_Path c = rel_path ns)"
      unfolding Bex_def common_ops_of using co by blast
    ultimately have "(\<exists>bop \<in> set ?ops. ns \<in> path_view.targets bop) \<longleftrightarrow> set_removes (exclusives evs) (rel_path ns)
        \<or> (\<exists>c \<in> set (commons evs). cp_HashEqual (enriched_entry P c) = Some True \<and> cp_Path c = rel_path ns)"
      unfolding set_append bex_Un by blast
    then show ?thesis using run unfolding ops by auto
  qed
  moreover have "pr_OK r \<longleftrightarrow> hash_errors P (commons evs) = []" using o(3) run by simp
  ultimately show ?thesis using that [of r b' ?D'] o(1) by blast
qed


definition common_entry :: "string list \<Rightarrow> ds_tree \<Rightarrow> ds_tree \<Rightarrow> common_path" where
  "common_entry ns x y = \<lparr>cp_Path = rel_path ns, cp_Kind = kind_of x, cp_LowerInfo = Some (tree_info x), cp_UpperInfo = Some (tree_info y), cp_HashEqual = None\<rparr>"

lemma common_at:
  assumes "wf_tree l" "is_node l" "wf_tree t" "is_node t" "plain_names ns" "subtree l ns = Some x" "subtree t ns = Some y"
  shows "c \<in> set (commons (diff_events NoopFilter l (Some t))) \<and> cp_Path c = rel_path ns \<longleftrightarrow> \<not> (is_node x \<and> is_node y) \<and> c = common_entry ns x y"
proof
  assume c: "c \<in> set (commons (diff_events NoopFilter l (Some t))) \<and> cp_Path c = rel_path ns"
  then obtain ms a b where m: "subtree l ms = Some a" "subtree t ms = Some b" "\<not> (is_node a \<and> is_node b)" "c = common_entry ms a b"
    unfolding diff_events_commons [OF assms(1-4)] common_entry_def by blast
  then have "ms \<noteq> []" using assms(2,4) by auto
  then have "plain_names ms" using wf_subtree [OF assms(1) m(1)] by (simp add: plain_names_def)
  then have "ms = ns" using c m(4) fs_view.rel_path_plain [OF _ assms(5)] by (simp add: common_entry_def)
  then show "\<not> (is_node x \<and> is_node y) \<and> c = common_entry ns x y" using m assms(6,7) by simp
next
  assume "\<not> (is_node x \<and> is_node y) \<and> c = common_entry ns x y"
  then show "c \<in> set (commons (diff_events NoopFilter l (Some t))) \<and> cp_Path c = rel_path ns"
    unfolding diff_events_commons [OF assms(1-4)] common_entry_def using assms(6,7) by auto
qed

lemma deleting_run_outcome:
  assumes "deletes P exec" "executes (merged_dir info) exec" "empty_batcher b" "wf_tree l" "is_node l" "wf_tree t" "is_node t"
    and "evs = diff_events NoopFilter l (Some t)" "(run_step P)\<^sup>*\<^sup>* (run_init (exclusives evs) (commons evs) [] (b, D)) s" "stages_done s"
    and "on_leaves P evs (view_paths [''merged''] D)" "plain_names ns" "ns \<in> view_paths [''merged''] D" "finish_run P s = (r, b', D')"
  shows "pr_OK r \<longleftrightarrow> hash_errors P (commons evs) = []"
    and "subtree l ns = Some x \<Longrightarrow> ns \<in> view_paths [''merged''] D' \<longleftrightarrow>
      (case subtree t ns of None \<Rightarrow> False
       | Some y \<Rightarrow> if is_node x then is_node y else cp_HashEqual (enriched_entry P (common_entry ns x y)) \<noteq> Some True)"
    and "subtree l ns = None \<Longrightarrow> subtree t ns \<noteq> None \<Longrightarrow> ns \<in> view_paths [''merged''] D'"
proof -
  let ?V = "view_paths [''merged'']"
  let ?eq = "\<exists>c \<in> set (commons evs). cp_HashEqual (enriched_entry P c) = Some True \<and> cp_Path c = rel_path ns"
  obtain r2 b2 D2 where "finish_run P s = (r2, b2, D2)" "pr_OK r2 \<longleftrightarrow> hash_errors P (commons evs) = []"
      "ns \<in> ?V D2 \<longleftrightarrow> ns \<in> ?V D \<and> \<not> (set_removes (exclusives evs) (rel_path ns) \<or> ?eq)"
    using deleting_run_result [OF assms(1-11)] assms(12) by metis
  then have ok: "pr_OK r \<longleftrightarrow> hash_errors P (commons evs) = []" and D': "ns \<in> ?V D' \<longleftrightarrow> \<not> (set_removes (exclusives evs) (rel_path ns) \<or> ?eq)"
    using assms(13,14) by auto
  show "pr_OK r \<longleftrightarrow> hash_errors P (commons evs) = []" by (rule ok)
  have plain: "plain ns" "ns \<noteq> []" using assms(12) by (simp_all add: plain_names_def)
  note rem = diff_events_removes_lower [OF assms(4,5), of "Some t" ns, folded assms(8)]
  have up: "upper_at (Some t) ns = subtree t ns" by (simp add: upper_at_def)
  show "ns \<in> ?V D' \<longleftrightarrow> (case subtree t ns of None \<Rightarrow> False
       | Some y \<Rightarrow> if is_node x then is_node y else cp_HashEqual (enriched_entry P (common_entry ns x y)) \<noteq> Some True)" if x: "subtree l ns = Some x"
  proof (cases "subtree t ns")
    case None
    then show ?thesis using D' rem x up plain assms(6) by simp
  next
    case (Some y)
    note at = common_at [OF assms(4-7,12) x Some, folded assms(8)]
    have eq: "?eq \<longleftrightarrow> \<not> (is_node x \<and> is_node y) \<and> cp_HashEqual (enriched_entry P (common_entry ns x y)) = Some True"
    proof -
      have "?eq \<longleftrightarrow> (\<exists>c. (c \<in> set (commons evs) \<and> cp_Path c = rel_path ns) \<and> cp_HashEqual (enriched_entry P c) = Some True)" by blast
      then show ?thesis unfolding at by simp
    qed
    have dir: "cp_HashEqual (enriched_entry P (common_entry ns x y)) = None" if "is_node x"
      using that by (simp add: enrich_def enrichOne_def common_entry_def kind_of_def PathKindOf_def is_node_def)
    have "set_removes (exclusives evs) (rel_path ns) \<longleftrightarrow> is_node x \<and> \<not> is_node y" using rem x up plain assms(6) Some by simp
    then show ?thesis using D' eq dir Some by auto
  qed
  show "ns \<in> ?V D'" if none: "subtree l ns = None" "subtree t ns \<noteq> None"
  proof -
    have "\<not> ?eq"
    proof
      assume ?eq
      then obtain c where c: "c \<in> set (commons evs)" "cp_Path c = rel_path ns" by blast
      then obtain ms a where m: "subtree l ms = Some a" "rel_path ms = rel_path ns" "ms \<noteq> []"
        unfolding assms(8) diff_events_commons [OF assms(4-7)] using assms(5,7) by fastforce
      then have "plain_names ms" using wf_subtree [OF assms(4) m(1)] by (simp add: plain_names_def)
      then have "ms = ns" using fs_view.rel_path_plain [OF _ assms(12)] m(2) by blast
      then show False using m(1) none(1) by simp
    qed
    then show ?thesis using D' rem up plain assms(6) none by simp
  qed
qed

text \<open>A run on the example trees, with a hasher that finds every pair different.\<close>

abbreviation all_differ :: content_hasher where "all_differ \<equiv> \<lambda>_ _ _ _. Inr False"

definition example_merged :: "string list set" where
  "example_merged = {[''merged''], [''merged'', ''a''], [''merged'', ''a'', ''x''], [''merged'', ''b''], [''merged'', ''c''], [''merged'', ''d'']}"

lemma never_equal: "cp_HashEqual c \<noteq> Some True \<Longrightarrow> cp_HashEqual (enriched_entry (delete_pipeline all_differ M) c) \<noteq> Some True"
  by (simp add: enrich_def enrichOne_def delete_pipeline_def NewPipeline_def NewHashPipeline_def defaultPipelineConfig_def
      WithExclusiveBatcher_def WithCommonBatcher_def Let_def)

lemma example_events:
  "exclusives (diff_events NoopFilter example_lower (Some example_upper)) = exclusives [excl_dir [''a''] dir_info, excl_dir [''d''] dir_info]"
  by (simp add: diff_events_def example_lower_def example_upper_def example_file_def common_event_def excl_dir_def)

lemma example_on_leaves: "on_leaves (delete_pipeline all_differ M) (diff_events NoopFilter example_lower (Some example_upper)) N"
proof -
  have none: "cp_HashEqual c = None" if "c \<in> set (commons (diff_events NoopFilter example_lower (Some example_upper)))" for c
    using that unfolding diff_events_commons [OF example_trees(1-4)] by auto
  show ?thesis
    unfolding on_leaves_def
  proof (intro allI impI conjI ballI)
    fix ns e assume "e \<in> set (exclusives (diff_events NoopFilter example_lower (Some example_upper)))" "\<not> ep_Collapsed e"
    then show "ep_Path e \<noteq> rel_path ns" unfolding example_events by (auto simp: excl_dir_def)
  next
    fix ns c assume "c \<in> set (commons (diff_events NoopFilter example_lower (Some example_upper)))"
      "cp_HashEqual (enriched_entry (delete_pipeline all_differ M) c) = Some True"
    then show "cp_Path c \<noteq> rel_path ns" using never_equal [of c M] none by simp
  qed
qed

lemma example_run:
  obtains s r b' D' where "(run_step (delete_pipeline all_differ M))\<^sup>*\<^sup>* (run_init (exclusives evs) (commons evs) [] (NewGoroutineBatcher 2 [], D)) s"
    "stages_done s" "finish_run (delete_pipeline all_differ M) s = (r, b', D')"
  using run_can_finish [OF delete_pipeline_deletes(2)] by (metis prod_cases3)

text \<open>C1: What a deleting engine leaves in the merged directory, from the two trees to the disk, for every interleaving of the
  stages and every order in which the flush executes its operations: a path that only the lower tree has goes; a path that
  only the upper tree has stays; directories of both trees stay; a lower non-directory that the upper tree has too goes
  exactly when the hasher finds the two equal; and the result is an error exactly when the hasher failed.\<close>

theorem DeleteEngine_outcome:
  assumes "deletes P exec" "executes (merged_dir info) exec" "empty_batcher b" "wf_tree l" "is_node l" "wf_tree t" "is_node t"
    and "evs = diff_events NoopFilter l (Some t)" "(run_step P)\<^sup>*\<^sup>* (run_init (exclusives evs) (commons evs) [] (b, D)) s" "stages_done s"
    and "on_leaves P evs (view_paths [''merged''] D)" "plain_names ns" "ns \<in> view_paths [''merged''] D" "finish_run P s = (r, b', D')"
  shows "(pr_OK r \<longleftrightarrow> hash_errors P (commons evs) = [])
    \<and> (\<forall>x. subtree l ns = Some x \<and> subtree t ns = None \<longrightarrow> ns \<notin> view_paths [''merged''] D')
    \<and> (\<forall>y. subtree l ns = None \<and> subtree t ns = Some y \<longrightarrow> ns \<in> view_paths [''merged''] D')
    \<and> (\<forall>x y. subtree l ns = Some x \<and> subtree t ns = Some y \<longrightarrow>
         (is_node x \<and> is_node y \<longrightarrow> ns \<in> view_paths [''merged''] D')
         \<and> (\<not> is_node x \<longrightarrow> (ns \<in> view_paths [''merged''] D' \<longleftrightarrow> cp_HashEqual (enriched_entry P (common_entry ns x y)) \<noteq> Some True)))"
  using deleting_run_outcome [OF assms] by auto

theorem DeleteEngine_outcome_witness:
  "\<exists>s r b' D'. finish_run (delete_pipeline all_differ (merged_dir (\<lambda>_. dir_info))) s = (r, b', D') \<and> [''c''] \<in> view_paths [''merged''] D'"
proof -
  let ?evs = "diff_events NoopFilter example_lower (Some example_upper)" and ?M = "merged_dir (\<lambda>_. dir_info)"
  obtain s r b' D' where run: "(run_step (delete_pipeline all_differ ?M))\<^sup>*\<^sup>* (run_init (exclusives ?evs) (commons ?evs) [] (NewGoroutineBatcher 2 [], example_merged)) s"
      "stages_done s" "finish_run (delete_pipeline all_differ ?M) s = (r, b', D')" by (rule example_run)
  have ns: "plain_names [''c'']" "[''c''] \<in> view_paths [''merged''] example_merged"
    by (simp_all add: plain_names_def plain_name_def view_paths_def example_merged_def)
  have "subtree example_lower [''c''] = None" "subtree example_upper [''c''] = Some (example_file 5)"
    by (simp_all add: example_lower_def example_upper_def)
  then have "[''c''] \<in> view_paths [''merged''] D'"
    using DeleteEngine_outcome [OF delete_pipeline_deletes(1) executes_in_order new_batcher_empty example_trees(1-4) refl run(1,2) example_on_leaves ns run(3)] by blast
  then show ?thesis using run(3) by blast
qed

text \<open>A deleting engine removes the upper tree's file where the lower tree has a directory. The documentation of
  \<open>NewDeleteEngine\<close> says that common paths whose contents differ are left untouched because the upper version is
  authoritative; but the walk emits the lower directory as an exclusive entry too, and its \<open>RemoveAll\<close> is executed on the
  merged path, which is the upper file.\<close>

theorem DeleteEngine_removes_upper_file:
  assumes "deletes P exec" "executes (merged_dir info) exec" "empty_batcher b" "wf_tree l" "is_node l" "wf_tree t" "is_node t"
    and "evs = diff_events NoopFilter l (Some t)" "(run_step P)\<^sup>*\<^sup>* (run_init (exclusives evs) (commons evs) [] (b, D)) s" "stages_done s"
    and "on_leaves P evs (view_paths [''merged''] D)" "plain_names ns" "ns \<in> view_paths [''merged''] D" "finish_run P s = (r, b', D')"
    and "subtree l ns = Some x" "is_node x" "subtree t ns = Some y" "\<not> is_node y"
  shows "ns \<notin> view_paths [''merged''] D' \<and> TypeMismatch (common_entry ns x y) \<and> common_entry ns x y \<in> set (commons evs)
    \<and> commonPathToBatchOp (enriched_entry P (common_entry ns x y)) = None"
proof -
  have "common_entry ns x y \<in> set (commons evs)" using common_at [OF assms(4-7,12,15,17), of "common_entry ns x y"] assms(8,18) by simp
  moreover have "enriched_entry P (common_entry ns x y) = common_entry ns x y"
    using assms(16) by (simp add: enrich_def enrichOne_def common_entry_def kind_of_def PathKindOf_def is_node_def)
  ultimately show ?thesis
    using deleting_run_outcome(2) [OF assms(1-15)] assms(16-18)
    by (simp add: commonPathToBatchOp_def IsContentEqual_def TypeMismatch_def common_entry_def is_node_def)
qed

theorem DeleteEngine_removes_upper_file_witness:
  "\<exists>s r b' D'. finish_run (delete_pipeline all_differ (merged_dir (\<lambda>_. dir_info))) s = (r, b', D') \<and> [''d''] \<notin> view_paths [''merged''] D'
     \<and> subtree example_upper [''d''] = Some (example_file 6)"
proof -
  let ?evs = "diff_events NoopFilter example_lower (Some example_upper)" and ?M = "merged_dir (\<lambda>_. dir_info)"
  obtain s r b' D' where run: "(run_step (delete_pipeline all_differ ?M))\<^sup>*\<^sup>* (run_init (exclusives ?evs) (commons ?evs) [] (NewGoroutineBatcher 2 [], example_merged)) s"
      "stages_done s" "finish_run (delete_pipeline all_differ ?M) s = (r, b', D')" by (rule example_run)
  have ns: "plain_names [''d'']" "[''d''] \<in> view_paths [''merged''] example_merged"
    by (simp_all add: plain_names_def plain_name_def view_paths_def example_merged_def)
  have t: "subtree example_lower [''d''] = Some (Node dir_info [])" "is_node (Node dir_info [])"
    "subtree example_upper [''d''] = Some (example_file 6)" "\<not> is_node (example_file 6)"
    by (simp_all add: example_lower_def example_upper_def is_node_def dir_info_def example_file_def)
  have "[''d''] \<notin> view_paths [''merged''] D'"
    using DeleteEngine_removes_upper_file [OF delete_pipeline_deletes(1) executes_in_order new_batcher_empty example_trees(1-4) refl run(1,2) example_on_leaves ns run(3) t] by blast
  then show ?thesis using run(3) t(3) by blast
qed

end
