(* ===== verification/Ds_Prune.thy ===== *)
theory Ds_Prune
  imports Ds_Spec Ds_Batch
begin

text \<open>
  The directory pruner (\<open>pkg/dirpruner\<close>): observers (\<open>observer.go\<close>), options (\<open>options.go\<close>), the walk
  that decides what to delete and the pool of workers that submits the deletions (\<open>pruner.go\<close>). The
  walk reads the tree through the calls of \<open>walk_fs\<close>; its decisions are a list of actions that the
  pool performs, as a step relation over the channel, the workers and the end of the context. The
  constructor of the pattern filter that \<open>pruner.go\<close> calls, with four arguments and one result, does
  not exist in \<open>internal/dirsync\<close>: it is a parameter.
\<close>

section \<open>Events and observers (observer.go)\<close>

datatype disposition = DispositionKept | DispositionDeleted | DispositionCollapsed | DispositionOther nat

definition disposition_String :: "(nat \<Rightarrow> string) \<Rightarrow> disposition \<Rightarrow> string" where
  "disposition_String itoa d =
     (case d of DispositionKept \<Rightarrow> ''kept'' | DispositionDeleted \<Rightarrow> ''deleted'' | DispositionCollapsed \<Rightarrow> ''collapsed''
      | DispositionOther n \<Rightarrow> ''Disposition('' @ itoa n @ '')'')"

record prune_event =
  pv_RelPath :: string
  pv_IsDir :: bool
  pv_Disposition :: disposition
  pv_SubmitErr :: "ds_error option"

type_synonym 'w observer = "prune_event \<Rightarrow> 'w \<Rightarrow> 'w"

definition NoopObserver :: "'w observer" where "NoopObserver ev w = w"

text \<open>The verbosity is an integer: \<open>LogAll\<close> 0, \<open>LogDeletions\<close> 1, \<open>LogErrors\<close> 2.\<close>

definition LogAll :: int where "LogAll = 0"
definition LogDeletions :: int where "LogDeletions = 1"
definition LogErrors :: int where "LogErrors = 2"

definition log_classify :: "(ds_error \<Rightarrow> string) \<Rightarrow> int \<Rightarrow> prune_event \<Rightarrow> string \<times> string" where
  "log_classify err_text level ev =
     (case pv_SubmitErr ev of
        Some err \<Rightarrow> (''[ERROR]     '', ''  -- '' @ err_text err)
      | None \<Rightarrow>
          (case pv_Disposition ev of
             DispositionCollapsed \<Rightarrow> (if level > LogDeletions then ('''', '''') else (''[COLLAPSED] '', ''''))
           | DispositionDeleted \<Rightarrow> (if level > LogDeletions then ('''', '''') else (''[DELETED]   '', ''''))
           | DispositionKept \<Rightarrow> (if level > LogAll then ('''', '''') else (''[KEPT]      '', ''''))
           | DispositionOther n \<Rightarrow> ('''', '''')))"

text \<open>\<open>%-12s\<close> pads on the right to twelve characters.\<close>

definition pad_right :: "nat \<Rightarrow> string \<Rightarrow> string" where
  "pad_right n s = s @ replicate (n - length s) (CHR '' '')"

definition LogObserver :: "(ds_error \<Rightarrow> string) \<Rightarrow> int \<Rightarrow> (string \<Rightarrow> 'w \<Rightarrow> 'w) \<Rightarrow> 'w observer" where
  "LogObserver err_text level write ev w =
     (case log_classify err_text level ev of (tag, suffix) \<Rightarrow>
        if tag = '''' then w
        else write (pad_right 12 tag @ '' '' @ (pv_RelPath ev @ (if pv_IsDir ev \<and> pv_Disposition ev \<noteq> DispositionKept then ''/'' else '''')) @ suffix @ [CHR 0x0A]) w)"

record counting_observer =
  co_Kept :: int
  co_Deleted :: int
  co_Collapsed :: int
  co_Errors :: int

definition co_OnEvent :: "prune_event \<Rightarrow> counting_observer \<Rightarrow> counting_observer" where
  "co_OnEvent ev c =
     (if pv_SubmitErr ev \<noteq> None then c\<lparr>co_Errors := co_Errors c + 1\<rparr>
      else case pv_Disposition ev of
        DispositionKept \<Rightarrow> c\<lparr>co_Kept := co_Kept c + 1\<rparr>
      | DispositionDeleted \<Rightarrow> c\<lparr>co_Deleted := co_Deleted c + 1\<rparr>
      | DispositionCollapsed \<Rightarrow> c\<lparr>co_Collapsed := co_Collapsed c + 1\<rparr>
      | DispositionOther n \<Rightarrow> c)"

definition co_Total :: "counting_observer \<Rightarrow> int" where
  "co_Total c = co_Kept c + co_Deleted c + co_Collapsed c + co_Errors c"

text \<open>The observers of a multi observer; \<open>None\<close> is \<open>nil\<close>.\<close>

definition NewMultiObserver :: "'w observer option list \<Rightarrow> 'w observer list" where
  "NewMultiObserver observers = map the (filter (\<lambda>x. x \<noteq> None) observers)"

definition MultiObserver :: "'w observer list \<Rightarrow> 'w observer" where
  "MultiObserver observers ev w = fold (\<lambda>ob. ob ev) observers w"

section \<open>Options (options.go)\<close>

record 'w prune_config =
  dp_includePatterns :: "string list"
  dp_excludePatterns :: "string list"
  dp_requiredPaths :: "string list"
  dp_allowWildcards :: bool
  dp_followSymlinks :: bool
  dp_batcherFactory :: "'w merged_view \<Rightarrow> 'w \<Rightarrow> (ds_error + 'w batcher) \<times> 'w"
  dp_workers :: int
  dp_observer :: "'w observer"

type_synonym 'w prune_option = "'w prune_config \<Rightarrow> 'w prune_config"

definition prune_defaultConfig :: "('w merged_view \<Rightarrow> 'w \<Rightarrow> (ds_error + 'w batcher) \<times> 'w) \<Rightarrow> 'w prune_config" where
  "prune_defaultConfig best = \<lparr>dp_includePatterns = [], dp_excludePatterns = [], dp_requiredPaths = [], dp_allowWildcards = False,
     dp_followSymlinks = False, dp_batcherFactory = best, dp_workers = 4, dp_observer = NoopObserver\<rparr>"

definition dp_WithIncludePatterns :: "string list \<Rightarrow> 'w prune_option" where
  "dp_WithIncludePatterns patterns c = c\<lparr>dp_includePatterns := dp_includePatterns c @ patterns\<rparr>"

definition dp_WithExcludePatterns :: "string list \<Rightarrow> 'w prune_option" where
  "dp_WithExcludePatterns patterns c = c\<lparr>dp_excludePatterns := dp_excludePatterns c @ patterns\<rparr>"

definition dp_WithRequiredPaths :: "string list \<Rightarrow> 'w prune_option" where
  "dp_WithRequiredPaths ps c = c\<lparr>dp_requiredPaths := dp_requiredPaths c @ ps\<rparr>"

definition dp_WithAllowWildcards :: "bool \<Rightarrow> 'w prune_option" where
  "dp_WithAllowWildcards v c = c\<lparr>dp_allowWildcards := v\<rparr>"

definition dp_WithFollowSymlinks :: "bool \<Rightarrow> 'w prune_option" where
  "dp_WithFollowSymlinks v c = c\<lparr>dp_followSymlinks := v\<rparr>"

definition dp_WithBatcher :: "('w merged_view \<Rightarrow> 'w \<Rightarrow> (ds_error + 'w batcher) \<times> 'w) option \<Rightarrow> 'w prune_option" where
  "dp_WithBatcher factory c = (case factory of Some f \<Rightarrow> c\<lparr>dp_batcherFactory := f\<rparr> | None \<Rightarrow> c)"

definition dp_WithWorkers :: "int \<Rightarrow> 'w prune_option" where
  "dp_WithWorkers n c = (if n > 0 then c\<lparr>dp_workers := n\<rparr> else c)"

definition dp_WithObserver :: "'w observer option \<Rightarrow> 'w prune_option" where
  "dp_WithObserver ob c = (case ob of Some f \<Rightarrow> c\<lparr>dp_observer := f\<rparr> | None \<Rightarrow> c)"

definition dp_New :: "int \<Rightarrow> ('w merged_view \<Rightarrow> 'w \<Rightarrow> (ds_error + 'w batcher) \<times> 'w) \<Rightarrow> 'w prune_option list \<Rightarrow> 'w prune_config" where
  "dp_New NumCPU best opts =
     (let cfg = fold (\<lambda>opt. opt) opts (prune_defaultConfig best)
      in if dp_workers cfg \<le> 0 then cfg\<lparr>dp_workers := NumCPU\<rparr> else cfg)"

section \<open>The walk (pruner.go)\<close>

definition resolvedEntry :: "walk_fs \<Rightarrow> string \<Rightarrow> dir_entry \<Rightarrow> dir_entry" where
  "resolvedEntry F absDir e =
     (if de_Type e \<noteq> TSymlink then e
      else case fs_Stat F (filepath_Join [absDir, de_Name e]) of
        Inl err \<Rightarrow> e
      | Inr tInfo \<Rightarrow> e\<lparr>de_Type := fi_Type tInfo, de_Info := Inr tInfo\<rparr>)"

definition readEntries :: "walk_fs \<Rightarrow> string \<Rightarrow> bool \<Rightarrow> ds_error + dir_entry list" where
  "readEntries F absDir followSymlinks =
     (case fs_ReadDir F absDir of
        Inl err \<Rightarrow> Inl err
      | Inr entries \<Rightarrow> Inr (if \<not> followSymlinks then entries else map (resolvedEntry F absDir) entries))"

definition joinRel :: "string \<Rightarrow> string \<Rightarrow> string" where
  "joinRel relDir name = (if relDir = '''' then name else relDir @ ''/'' @ name)"

record submission =
  sj_op :: batch_op
  sj_disp :: disposition
  sj_ev :: prune_event

text \<open>
  What the walk does: it reports a kept file or offers a job to the pool. \<open>late\<close> marks a job that is
  offered when the context has already ended. \<open>wl_clock\<close> counts the looks of the walk at the context;
  \<open>dw_ended n\<close> is what the look number \<open>n\<close> sees.
\<close>

datatype prune_act = Keep prune_event | Offer bool submission

record walk_log =
  wl_acts :: "prune_act list"
  wl_errs :: "ds_error list"
  wl_clock :: nat

record dir_walk =
  dw_fs :: walk_fs
  dw_root :: string
  dw_filter :: path_filter
  dw_followSymlinks :: bool
  dw_ended :: "nat \<Rightarrow> bool"

definition look :: "dir_walk \<Rightarrow> walk_log \<Rightarrow> bool \<times> walk_log" where
  "look D s = (dw_ended D (wl_clock s), s\<lparr>wl_clock := Suc (wl_clock s)\<rparr>)"

definition addWalkErr :: "ds_error \<Rightarrow> walk_log \<Rightarrow> walk_log" where
  "addWalkErr err s = s\<lparr>wl_errs := wl_errs s @ [err]\<rparr>"

definition prune_job :: "string \<Rightarrow> bool \<Rightarrow> op_kind \<Rightarrow> disposition \<Rightarrow> file_info \<Rightarrow> submission" where
  "prune_job relPath isDir opKind disp info =
     \<lparr>sj_op = \<lparr>bo_Kind = opKind, bo_RelPath = relPath, bo_Tag = TagInfo info\<rparr>, sj_disp = disp,
      sj_ev = \<lparr>pv_RelPath = relPath, pv_IsDir = isDir, pv_Disposition = disp, pv_SubmitErr = None\<rparr>\<rparr>"

definition enqueue :: "dir_walk \<Rightarrow> submission \<Rightarrow> walk_log \<Rightarrow> walk_log" where
  "enqueue D j s = (case look D s of (ended, s) \<Rightarrow> s\<lparr>wl_acts := wl_acts s @ [Offer ended j]\<rparr>)"

definition keep_file :: "string \<Rightarrow> walk_log \<Rightarrow> walk_log" where
  "keep_file relPath s =
     s\<lparr>wl_acts := wl_acts s @ [Keep \<lparr>pv_RelPath = relPath, pv_IsDir = False, pv_Disposition = DispositionKept, pv_SubmitErr = None\<rparr>]\<rparr>"

text \<open>One entry: whether something at or below it was kept. \<open>walkDir\<close> walks a directory.\<close>

definition prune_entry :: "dir_walk \<Rightarrow> (string \<Rightarrow> walk_log \<Rightarrow> bool \<times> walk_log) \<Rightarrow> string \<Rightarrow> dir_entry \<Rightarrow> walk_log \<Rightarrow> bool \<times> walk_log" where
  "prune_entry D walkDir relDir e s =
     (let relPath = joinRel relDir (de_Name e) in
      case de_Info e of
        Inl err \<Rightarrow> (False, addWalkErr (Wrap [''stat'', relPath] err) s)
      | Inr info \<Rightarrow>
          (if \<not> fl_Include (dw_filter D) relPath (IsDir info) then
             (if IsDir info then (False, enqueue D (prune_job relPath True OpRemoveAll DispositionCollapsed info) s)
              else (False, enqueue D (prune_job relPath False OpRemove DispositionDeleted info) s))
           else if \<not> IsDir info then (True, keep_file relPath s)
           else (case walkDir relPath s of (childKept, s) \<Rightarrow>
             if fl_Include (dw_filter D) relPath False \<or> childKept then (True, s)
             else (False, enqueue D (prune_job relPath True OpRemoveAll DispositionCollapsed info) s))))"

fun prune_entries :: "dir_walk \<Rightarrow> (string \<Rightarrow> walk_log \<Rightarrow> bool \<times> walk_log) \<Rightarrow> string \<Rightarrow> dir_entry list \<Rightarrow> bool \<Rightarrow> walk_log \<Rightarrow> bool \<times> walk_log" where
  "prune_entries D walkDir relDir [] keptAny s = (keptAny, s)"
| "prune_entries D walkDir relDir (e # es) keptAny s =
     (case look D s of (ended, s) \<Rightarrow>
        if ended then (keptAny, s)
        else case prune_entry D walkDir relDir e s of (k, s) \<Rightarrow> prune_entries D walkDir relDir es (keptAny \<or> k) s)"

text \<open>The recursion takes fuel, the directory levels it may descend, and reports when it runs out.\<close>

primrec walkDir :: "nat \<Rightarrow> dir_walk \<Rightarrow> string \<Rightarrow> walk_log \<Rightarrow> bool \<times> walk_log" where
  "walkDir 0 D = (\<lambda>relDir s. (False, addWalkErr OutOfFuel s))"
| "walkDir (Suc n) D = (\<lambda>relDir s.
     case look D s of (ended, s) \<Rightarrow>
       if ended then (False, s)
       else case readEntries (dw_fs D) (filepath_Join [dw_root D, relDir]) (dw_followSymlinks D) of
         Inl err \<Rightarrow> (False, addWalkErr (Wrap [''read dir'', relDir] err) s)
       | Inr entries \<Rightarrow> prune_entries D (walkDir n D) relDir entries False s)"

definition walk_start :: walk_log where
  "walk_start = \<lparr>wl_acts = [], wl_errs = [], wl_clock = 0\<rparr>"

section \<open>The pool of workers (pruner.go)\<close>

text \<open>
  \<open>pp_acts\<close> is what the walk has still to do, \<open>pp_chan\<close> the channel of jobs, \<open>pp_busy\<close> the jobs of
  workers that have found the context alive and are about to submit, \<open>pp_post\<close> the events of workers
  that have submitted.
\<close>

record 'w prune_pool =
  pp_acts :: "prune_act list"
  pp_chan :: "submission list"
  pp_busy :: "submission list"
  pp_post :: "prune_event list"
  pp_ctx :: "ds_error option"
  pp_kept :: int
  pp_deleted :: int
  pp_collapsed :: int
  pp_submitErrors :: int
  pp_world :: 'w

definition pool_start :: "prune_act list \<Rightarrow> 'w \<Rightarrow> 'w prune_pool" where
  "pool_start acts w = \<lparr>pp_acts = acts, pp_chan = [], pp_busy = [], pp_post = [], pp_ctx = None,
     pp_kept = 0, pp_deleted = 0, pp_collapsed = 0, pp_submitErrors = 0, pp_world = w\<rparr>"

text \<open>The counting of a job whose submission has returned \<open>err\<close>.\<close>

definition count_job :: "submission \<Rightarrow> ds_error option \<Rightarrow> 'w prune_pool \<Rightarrow> 'w prune_pool" where
  "count_job j err s =
     (if err \<noteq> None then s\<lparr>pp_submitErrors := pp_submitErrors s + 1\<rparr>
      else case sj_disp j of
        DispositionDeleted \<Rightarrow> s\<lparr>pp_deleted := pp_deleted s + 1\<rparr>
      | DispositionCollapsed \<Rightarrow> s\<lparr>pp_collapsed := pp_collapsed s + 1\<rparr>
      | _ \<Rightarrow> s)"

definition submit_job :: "'w batcher \<Rightarrow> submission \<Rightarrow> 'w prune_pool \<Rightarrow> 'w prune_pool" where
  "submit_job B j s =
     (case ba_Submit B (pp_ctx s) (sj_op j) (pp_world s) of (err, w) \<Rightarrow>
        (count_job j err s)\<lparr>pp_world := w, pp_post := pp_post s @ [(sj_ev j)\<lparr>pv_SubmitErr := err\<rparr>]\<rparr>)"

inductive pool_step :: "'w prune_config \<Rightarrow> 'w batcher \<Rightarrow> 'w prune_pool \<Rightarrow> 'w prune_pool \<Rightarrow> bool" for C B where
  keep: "pp_acts s = Keep ev # acts \<Longrightarrow>
     pool_step C B s (s\<lparr>pp_acts := acts, pp_kept := pp_kept s + 1, pp_world := dp_observer C ev (pp_world s)\<rparr>)"
| offer: "pp_acts s = Offer late j # acts \<Longrightarrow> late \<longrightarrow> pp_ctx s \<noteq> None \<Longrightarrow> int (length (pp_chan s)) < dp_workers C * 16 \<Longrightarrow>
     pool_step C B s (s\<lparr>pp_acts := acts, pp_chan := pp_chan s @ [j]\<rparr>)"
| give_up: "pp_acts s = Offer late j # acts \<Longrightarrow> pp_ctx s \<noteq> None \<Longrightarrow> pool_step C B s (s\<lparr>pp_acts := acts\<rparr>)"
| take: "pp_chan s = j # rest \<Longrightarrow> int (length (pp_busy s) + length (pp_post s)) < dp_workers C \<Longrightarrow> pp_ctx s = None \<Longrightarrow>
     pool_step C B s (s\<lparr>pp_chan := rest, pp_busy := pp_busy s @ [j]\<rparr>)"
| drain: "pp_chan s = j # rest \<Longrightarrow> int (length (pp_busy s) + length (pp_post s)) < dp_workers C \<Longrightarrow> pp_ctx s \<noteq> None \<Longrightarrow>
     pool_step C B s (s\<lparr>pp_chan := rest\<rparr>)"
| submit: "pp_busy s = xs @ j # ys \<Longrightarrow> pool_step C B s (submit_job B j (s\<lparr>pp_busy := xs @ ys\<rparr>))"
| observe: "pp_post s = xs @ ev # ys \<Longrightarrow> pool_step C B s (s\<lparr>pp_post := xs @ ys, pp_world := dp_observer C ev (pp_world s)\<rparr>)"
| cancel: "pp_ctx s = None \<Longrightarrow> pool_step C B s (s\<lparr>pp_ctx := Some (Ctx err)\<rparr>)"

inductive_cases pool_stepE: "pool_step C B s s'"

definition pool_done :: "'w prune_pool \<Rightarrow> bool" where
  "pool_done s \<longleftrightarrow> pp_acts s = [] \<and> pp_chan s = [] \<and> pp_busy s = [] \<and> pp_post s = []"

section \<open>A prune (pruner.go)\<close>

record prune_result =
  pq_Kept :: int
  pq_Deleted :: int
  pq_Collapsed :: int
  pq_SubmitErrors :: int
  pq_Err :: "ds_error option"

definition pq_Total :: "prune_result \<Rightarrow> int" where
  "pq_Total r = pq_Kept r + pq_Deleted r + pq_Collapsed r + pq_SubmitErrors r"

definition pq_OK :: "prune_result \<Rightarrow> bool" where
  "pq_OK r \<longleftrightarrow> pq_Err r = None \<and> pq_SubmitErrors r = 0"

definition zero_result :: prune_result where
  "zero_result = \<lparr>pq_Kept = 0, pq_Deleted = 0, pq_Collapsed = 0, pq_SubmitErrors = 0, pq_Err = None\<rparr>"

text \<open>The constructor of pattern filters that the package calls is a parameter.\<close>

definition buildFilter :: "(string list \<Rightarrow> string list \<Rightarrow> string list \<Rightarrow> bool \<Rightarrow> path_filter) \<Rightarrow> 'w prune_config \<Rightarrow> path_filter" where
  "buildFilter newFilter C =
     (if dp_includePatterns C = [] \<and> dp_excludePatterns C = [] \<and> dp_requiredPaths C = [] \<and> \<not> dp_allowWildcards C then NoopFilter
      else newFilter (dp_includePatterns C) (dp_excludePatterns C) (dp_requiredPaths C) (dp_allowWildcards C))"

fun missing_paths :: "(string \<Rightarrow> ds_error + file_info) \<Rightarrow> string \<Rightarrow> string list \<Rightarrow> string list \<Rightarrow> ds_error + string list" where
  "missing_paths lstat targetDir [] missing = Inr missing"
| "missing_paths lstat targetDir (rel # rels) missing =
     (case lstat (filepath_Join [targetDir, rel]) of
        Inr info \<Rightarrow> missing_paths lstat targetDir rels missing
      | Inl err \<Rightarrow> (if is_not_exist err then missing_paths lstat targetDir rels (missing @ [rel])
                    else Inl (Wrap [''dirprune: stat required path'', rel] err)))"

definition checkRequired :: "(string \<Rightarrow> ds_error + file_info) \<Rightarrow> string \<Rightarrow> path_filter \<Rightarrow> ds_error option" where
  "checkRequired lstat targetDir f =
     (case missing_paths lstat targetDir (fl_RequiredPaths f) [] of
        Inl err \<Rightarrow> Some err
      | Inr missing \<Rightarrow> (if missing \<noteq> [] then Some (Msg (''dirprune: required paths absent from'' # targetDir # missing)) else None))"

text \<open>What comes before the walk: the filter and the batcher, or the error that \<open>Prune\<close> returns.\<close>

definition prune_setup :: "'w os_calls \<Rightarrow> (string list \<Rightarrow> string list \<Rightarrow> string list \<Rightarrow> bool \<Rightarrow> path_filter) \<Rightarrow> 'w prune_config \<Rightarrow> string \<Rightarrow> 'w
    \<Rightarrow> (ds_error + path_filter \<times> 'w batcher) \<times> 'w" where
  "prune_setup os newFilter C targetDir w =
     (if targetDir = '''' then (Inl (Msg [''dirprune: targetDir must not be empty'']), w)
      else case os_Stat os targetDir w of
        Inl err \<Rightarrow> (Inl (Wrap [''dirprune: stat target'', targetDir] err), w)
      | Inr info \<Rightarrow>
          (if \<not> IsDir info then (Inl (Msg [''dirprune: target'', targetDir, ''is not a directory'']), w)
           else let f = buildFilter newFilter C in
             case checkRequired (\<lambda>p. os_Lstat os p w) targetDir f of
               Some err \<Rightarrow> (Inl err, w)
             | None \<Rightarrow>
                 (case NewFSMergedView os targetDir w of
                    Inl err \<Rightarrow> (Inl (Wrap [''dirprune: merged view'', targetDir] err), w)
                  | Inr view \<Rightarrow>
                      (case dp_batcherFactory C view w of
                         (Inl err, w) \<Rightarrow> (Inl (Wrap [''dirprune: batcher''] err), w)
                       | (Inr B, w) \<Rightarrow> (Inr (f, B), w)))))"

definition prune_walk :: "nat \<Rightarrow> walk_fs \<Rightarrow> (nat \<Rightarrow> bool) \<Rightarrow> 'w prune_config \<Rightarrow> string \<Rightarrow> path_filter \<Rightarrow> walk_log" where
  "prune_walk n F ended C targetDir f =
     snd (walkDir n \<lparr>dw_fs = F, dw_root = targetDir, dw_filter = f, dw_followSymlinks = dp_followSymlinks C, dw_ended = ended\<rparr> '''' walk_start)"

definition closing_error :: "ds_error option \<Rightarrow> ds_error list" where
  "closing_error err = (case err of None \<Rightarrow> [] | Some e \<Rightarrow> if isContextErr e then [] else [Wrap [''batcher close''] e])"

definition prune_report :: "ds_error list \<Rightarrow> 'w prune_pool \<Rightarrow> ds_error option \<Rightarrow> prune_result" where
  "prune_report walkErrs s closeErr =
     \<lparr>pq_Kept = pp_kept s, pq_Deleted = pp_deleted s, pq_Collapsed = pp_collapsed s, pq_SubmitErrors = pp_submitErrors s,
      pq_Err = (if closing_error closeErr = [] then joinErrors walkErrs
        else joinErrors ((case joinErrors walkErrs of None \<Rightarrow> [] | Some e \<Rightarrow> [e]) @ closing_error closeErr))\<rparr>"

text \<open>The outcomes of a call: the result, the error and the world.\<close>

inductive Prune :: "nat \<Rightarrow> walk_fs \<Rightarrow> (nat \<Rightarrow> bool) \<Rightarrow> 'w os_calls \<Rightarrow> (string list \<Rightarrow> string list \<Rightarrow> string list \<Rightarrow> bool \<Rightarrow> path_filter) \<Rightarrow> 'w prune_config
    \<Rightarrow> string \<Rightarrow> 'w \<Rightarrow> prune_result \<times> ds_error option \<times> 'w \<Rightarrow> bool" for n F ended os newFilter C targetDir w where
  refused: "prune_setup os newFilter C targetDir w = (Inl err, w') \<Longrightarrow> Prune n F ended os newFilter C targetDir w (zero_result, Some err, w')"
| pruned: "prune_setup os newFilter C targetDir w = (Inr (f, B), w1) \<Longrightarrow>
     (pool_step C B)\<^sup>*\<^sup>* (pool_start (wl_acts (prune_walk n F ended C targetDir f)) w1) s \<Longrightarrow> pool_done s \<Longrightarrow>
     ba_Close B (pp_ctx s) (pp_world s) = (closeErr, w') \<Longrightarrow>
     Prune n F ended os newFilter C targetDir w (prune_report (wl_errs (prune_walk n F ended C targetDir f)) s closeErr, None, w')"

inductive_cases PruneE: "Prune n F ended os newFilter C targetDir w r"

section \<open>What the walk decides about a tree\<close>

text \<open>Whether the entry at a path is kept, and the actions of the walk at and below it.\<close>

fun entry_kept :: "path_filter \<Rightarrow> string list \<Rightarrow> ds_tree \<Rightarrow> bool" where
  "entry_kept f ns (Leaf i) \<longleftrightarrow> fl_Include f (rel_path ns) False"
| "entry_kept f ns (Node i kids) \<longleftrightarrow> fl_Include f (rel_path ns) True \<and>
     (fl_Include f (rel_path ns) False \<or> (\<exists>k \<in> set kids. entry_kept f (ns @ [fst k]) (snd k)))"

definition keep_act :: "string list \<Rightarrow> prune_act" where
  "keep_act ns = Keep \<lparr>pv_RelPath = rel_path ns, pv_IsDir = False, pv_Disposition = DispositionKept, pv_SubmitErr = None\<rparr>"

definition file_act :: "string list \<Rightarrow> file_info \<Rightarrow> prune_act" where
  "file_act ns i = Offer False (prune_job (rel_path ns) False OpRemove DispositionDeleted i)"

definition dir_act :: "string list \<Rightarrow> file_info \<Rightarrow> prune_act" where
  "dir_act ns i = Offer False (prune_job (rel_path ns) True OpRemoveAll DispositionCollapsed i)"

fun prune_acts :: "path_filter \<Rightarrow> string list \<Rightarrow> ds_tree \<Rightarrow> prune_act list" where
  "prune_acts f ns (Leaf i) = (if entry_kept f ns (Leaf i) then [keep_act ns] else [file_act ns i])"
| "prune_acts f ns (Node i kids) =
     (if \<not> fl_Include f (rel_path ns) True then [dir_act ns i]
      else concat (map (\<lambda>k. prune_acts f (ns @ [fst k]) (snd k)) kids) @ (if entry_kept f ns (Node i kids) then [] else [dir_act ns i]))"

definition kids_acts :: "path_filter \<Rightarrow> string list \<Rightarrow> (string \<times> ds_tree) list \<Rightarrow> prune_act list" where
  "kids_acts f ns kids = concat (map (\<lambda>k. prune_acts f (ns @ [fst k]) (snd k)) kids)"

definition kids_kept :: "path_filter \<Rightarrow> string list \<Rightarrow> (string \<times> ds_tree) list \<Rightarrow> bool" where
  "kids_kept f ns kids \<longleftrightarrow> (\<exists>k \<in> set kids. entry_kept f (ns @ [fst k]) (snd k))"

text \<open>The file system shows the tree below the target directory.\<close>

definition reads_tree :: "walk_fs \<Rightarrow> string \<Rightarrow> ds_tree \<Rightarrow> bool" where
  "reads_tree F dir t \<longleftrightarrow> (\<forall>ns i kids. plain ns \<longrightarrow> subtree t ns = Some (Node i kids) \<longrightarrow>
     fs_ReadDir F (filepath_Join [dir, rel_path ns]) = Inr (map entry_of kids))"

definition is_late :: "prune_act \<Rightarrow> bool" where
  "is_late a = (case a of Keep ev \<Rightarrow> False | Offer late j \<Rightarrow> late)"

text \<open>
  A part of the walk that leads from a log to another one: the actions it adds before the context ends
  are among those of the tree, and if it does not end they are all of them.
\<close>

definition faithful :: "dir_walk \<Rightarrow> prune_act list \<Rightarrow> bool \<Rightarrow> walk_log \<Rightarrow> bool \<times> walk_log \<Rightarrow> bool" where
  "faithful D spec kept s r \<longleftrightarrow>
     wl_clock s \<le> wl_clock (snd r) \<and>
     (\<exists>acts. wl_acts (snd r) = wl_acts s @ acts \<and> (\<forall>a \<in> set acts. \<not> is_late a \<longrightarrow> a \<in> set spec) \<and>
        ((\<forall>m < wl_clock (snd r). \<not> dw_ended D m) \<longrightarrow> acts = spec \<and> fst r = kept \<and> wl_errs (snd r) = wl_errs s))"

definition stays_ended :: "(nat \<Rightarrow> bool) \<Rightarrow> bool" where
  "stays_ended ended \<longleftrightarrow> (\<forall>m n. m \<le> n \<longrightarrow> ended m \<longrightarrow> ended n)"

lemma faithful_none: "faithful D [] k s (k, s)"
  by (simp add: faithful_def)

lemma faithful_seq:
  assumes "faithful D a ka s r" "faithful D b kb (snd r) r'"
  shows "faithful D (a @ b) kb s r'"
proof -
  obtain xs ys where x: "wl_acts (snd r) = wl_acts s @ xs" "\<forall>a' \<in> set xs. \<not> is_late a' \<longrightarrow> a' \<in> set a"
      "(\<forall>m < wl_clock (snd r). \<not> dw_ended D m) \<longrightarrow> xs = a \<and> fst r = ka \<and> wl_errs (snd r) = wl_errs s"
    and y: "wl_acts (snd r') = wl_acts (snd r) @ ys" "\<forall>a' \<in> set ys. \<not> is_late a' \<longrightarrow> a' \<in> set b"
      "(\<forall>m < wl_clock (snd r'). \<not> dw_ended D m) \<longrightarrow> ys = b \<and> fst r' = kb \<and> wl_errs (snd r') = wl_errs (snd r)"
    and c: "wl_clock s \<le> wl_clock (snd r)" "wl_clock (snd r) \<le> wl_clock (snd r')"
    using assms unfolding faithful_def by blast
  have "(\<forall>m < wl_clock (snd r'). \<not> dw_ended D m) \<longrightarrow> (\<forall>m < wl_clock (snd r). \<not> dw_ended D m)" using c(2) by simp
  then show ?thesis unfolding faithful_def using x y c by auto
qed

text \<open>A step whose end the context did not live to see promises nothing about its result.\<close>

lemma faithful_dead:
  assumes "faithful D spec k s r" "dw_ended D m" "m < wl_clock (snd r)"
  shows "faithful D spec k' s (b, snd r)"
  using assms unfolding faithful_def by auto

lemma faithful_stop: "dw_ended D (wl_clock s) \<Longrightarrow> faithful D spec k s (b, s\<lparr>wl_clock := Suc (wl_clock s)\<rparr>)"
  by (auto simp: faithful_def)

lemma faithful_enqueue:
  "faithful D [Offer False j] k s (k, enqueue D j s)"
  by (auto simp: faithful_def enqueue_def look_def is_late_def)

lemma joinRel_rel_path: "plain ns \<Longrightarrow> joinRel (rel_path ns) n = rel_path (ns @ [n])"
  using joinRelPath_rel_path [of ns n] by (simp add: joinRel_def joinRelPath_def)

lemma faithful_dir:
  assumes "stays_ended (dw_ended D)" "faithful D spec kept s (ck, s1)"
  shows "faithful D (spec @ (if direct \<or> kept then [] else [Offer False j])) (direct \<or> kept) s
     (if direct \<or> ck then (True, s1) else (False, enqueue D j s1))"
proof (cases "\<forall>m < wl_clock s1. \<not> dw_ended D m")
  case True
  then have k: "ck = kept" using assms(2) by (auto simp: faithful_def)
  then show ?thesis
    using faithful_seq [OF assms(2), of "[]" "direct \<or> kept" "(True, s1)"] faithful_none [of D True s1]
      faithful_seq [OF assms(2), of "[Offer False j]" False "(False, enqueue D j s1)"] faithful_enqueue [of D j False s1]
    by auto
next
  case False
  then obtain m where m: "m < wl_clock s1" "dw_ended D m" by blast
  have "dw_ended D (wl_clock s1)" using assms(1) m unfolding stays_ended_def using less_imp_le by blast
  then have e: "enqueue D j s1 = s1\<lparr>wl_clock := Suc (wl_clock s1), wl_acts := wl_acts s1 @ [Offer True j]\<rparr>"
    by (simp add: enqueue_def look_def)
  obtain xs where xs: "wl_clock s \<le> wl_clock s1" "wl_acts s1 = wl_acts s @ xs" "\<forall>a \<in> set xs. \<not> is_late a \<longrightarrow> a \<in> set spec"
    using assms(2) by (auto simp: faithful_def)
  show ?thesis
    unfolding faithful_def e using m xs by (auto simp: is_late_def less_Suc_eq)
qed

lemma faithful_entry:
  assumes "stays_ended (dw_ended D)" "plain ps"
    and "\<And>i kids s. t = Node i kids \<Longrightarrow> faithful D (kids_acts (dw_filter D) (ps @ [n]) kids) (kids_kept (dw_filter D) (ps @ [n]) kids) s (W (rel_path (ps @ [n])) s)"
    and "wf_tree t"
  shows "faithful D (prune_acts (dw_filter D) (ps @ [n]) t) (entry_kept (dw_filter D) (ps @ [n]) t) s (prune_entry D W (rel_path ps) (entry_of (n, t)) s)"
proof (cases t)
  case (Leaf i)
  have k: "faithful D [keep_act ns] True s (True, keep_file (rel_path ns) s)" for ns by (simp add: faithful_def keep_file_def keep_act_def)
  show ?thesis using k [of "ps @ [n]"] faithful_enqueue [of D "prune_job (rel_path (ps @ [n])) False OpRemove DispositionDeleted i" False s] assms(4)
    by (simp add: Leaf prune_entry_def joinRel_rel_path [OF assms(2)] file_act_def)
next
  case (Node i kids)
  obtain ck s1 where w: "W (rel_path (ps @ [n])) s = (ck, s1)" by fastforce
  note d = faithful_dir [OF assms(1) assms(3) [OF Node, of s, unfolded w], of "fl_Include (dw_filter D) (rel_path (ps @ [n])) False"
    "prune_job (rel_path (ps @ [n])) True OpRemoveAll DispositionCollapsed i"]
  show ?thesis
  proof (cases "fl_Include (dw_filter D) (rel_path (ps @ [n])) True")
    case True
    let ?j = "prune_job (rel_path (ps @ [n])) True OpRemoveAll DispositionCollapsed i"
    have "prune_entry D W (rel_path ps) (entry_of (n, t)) s =
        (if fl_Include (dw_filter D) (rel_path (ps @ [n])) False \<or> ck then (True, s1) else (False, enqueue D ?j s1))"
      using True w assms(4) by (simp add: Node prune_entry_def joinRel_rel_path [OF assms(2)] Let_def)
    moreover have "entry_kept (dw_filter D) (ps @ [n]) t \<longleftrightarrow> fl_Include (dw_filter D) (rel_path (ps @ [n])) False \<or> kids_kept (dw_filter D) (ps @ [n]) kids"
      using True by (simp add: Node kids_kept_def)
    moreover have "prune_acts (dw_filter D) (ps @ [n]) t = kids_acts (dw_filter D) (ps @ [n]) kids @ (if entry_kept (dw_filter D) (ps @ [n]) t then [] else [Offer False ?j])"
      using True by (simp add: Node kids_acts_def dir_act_def)
    ultimately show ?thesis using d by (simp only:)
  next
    case False
    then show ?thesis using faithful_enqueue [of D "prune_job (rel_path (ps @ [n])) True OpRemoveAll DispositionCollapsed i" False s] assms(4)
      by (simp add: Node prune_entry_def joinRel_rel_path [OF assms(2)] dir_act_def)
  qed
qed

lemma faithful_entries:
  assumes "stays_ended (dw_ended D)"
    and "\<And>k s. k \<in> set ks \<Longrightarrow> faithful D (prune_acts f (ps @ [fst k]) (snd k)) (entry_kept f (ps @ [fst k]) (snd k)) s (prune_entry D W rel (entry_of k) s)"
  shows "faithful D (kids_acts f ps ks) (kept \<or> kids_kept f ps ks) s (prune_entries D W rel (map entry_of ks) kept s)"
  using assms(2)
proof (induction ks arbitrary: kept s)
  case Nil
  then show ?case by (simp add: kids_acts_def kids_kept_def faithful_none)
next
  case (Cons k ks)
  let ?s = "s\<lparr>wl_clock := Suc (wl_clock s)\<rparr>"
  show ?case
  proof (cases "dw_ended D (wl_clock s)")
    case True
    then show ?thesis using faithful_stop [of D s] by (simp add: look_def)
  next
    case False
    obtain b s2 where e: "prune_entry D W rel (entry_of k) ?s = (b, s2)" by fastforce
    have t: "faithful D [] kept s (kept, ?s)" by (simp add: faithful_def)
    have f: "faithful D (prune_acts f (ps @ [fst k]) (snd k)) (entry_kept f (ps @ [fst k]) (snd k)) ?s (b, s2)"
      using Cons.prems [of k ?s] e by simp
    have r: "faithful D (kids_acts f ps ks) (kept \<or> b \<or> kids_kept f ps ks) s2 (prune_entries D W rel (map entry_of ks) (kept \<or> b) s2)"
      using Cons.IH [of "kept \<or> b" s2] Cons.prems by (simp add: disj_assoc)
    have all: "faithful D (prune_acts f (ps @ [fst k]) (snd k) @ kids_acts f ps ks) (kept \<or> b \<or> kids_kept f ps ks) s
        (prune_entries D W rel (map entry_of ks) (kept \<or> b) s2)"
      using faithful_seq [OF faithful_seq [OF t, of _ _ "(b, s2)"], of _ "entry_kept f (ps @ [fst k]) (snd k)" "kids_acts f ps ks"] f r by simp
    have "(\<forall>m < wl_clock (snd (prune_entries D W rel (map entry_of ks) (kept \<or> b) s2)). \<not> dw_ended D m) \<longrightarrow> b = entry_kept f (ps @ [fst k]) (snd k)"
      using f r by (auto simp: faithful_def)
    then show ?thesis using all False e by (simp add: look_def kids_acts_def kids_kept_def faithful_def)
  qed
qed

lemma walkDir_faithful:
  assumes "stays_ended (dw_ended D)" "reads_tree (dw_fs D) (dw_root D) t" "\<not> dw_followSymlinks D" "wf_tree t"
  shows "plain ps \<Longrightarrow> subtree t ps = Some (Node i kids) \<Longrightarrow> tree_depth (Node i kids) \<le> n \<Longrightarrow>
     faithful D (kids_acts (dw_filter D) ps kids) (kids_kept (dw_filter D) ps kids) s (walkDir n D (rel_path ps) s)"
proof (induction n arbitrary: ps i kids s)
  case (Suc n)
  let ?s = "s\<lparr>wl_clock := Suc (wl_clock s)\<rparr>"
  have w: "wf_tree (Node i kids)" using wf_subtree [OF assms(4) Suc.prems(2)] by blast
  have rd: "readEntries (dw_fs D) (filepath_Join [dw_root D, rel_path ps]) (dw_followSymlinks D) = Inr (map entry_of kids)"
    using assms(2,3) Suc.prems(1,2) by (simp add: readEntries_def reads_tree_def)
  have kid: "faithful D (prune_acts (dw_filter D) (ps @ [fst k]) (snd k)) (entry_kept (dw_filter D) (ps @ [fst k]) (snd k)) v
      (prune_entry D (walkDir n D) (rel_path ps) (entry_of k) v)" if k: "k \<in> set kids" for k v
  proof -
    obtain m u where mu: "k = (m, u)" by fastforce
    have pm: "plain_name m" "wf_tree u" using wf_kid [OF w k] mu by simp_all
    have "map_of kids m = Some u" using w k mu by (auto intro!: map_of_is_SomeI simp: strict_sorted_iff)
    then have st: "subtree t (ps @ [m]) = Some u" using Suc.prems(2) by (simp add: subtree_append)
    have d: "tree_depth u \<le> n" using depth_entry [OF k, of i] Suc.prems(3) mu by simp
    have "faithful D (kids_acts (dw_filter D) (ps @ [m]) kids') (kids_kept (dw_filter D) (ps @ [m]) kids') v' (walkDir n D (rel_path (ps @ [m])) v')"
      if "u = Node i' kids'" for i' kids' v'
      using Suc.IH [of "ps @ [m]" i' kids' v'] Suc.prems(1) pm(1) st d that by simp
    then show ?thesis using faithful_entry [OF assms(1) Suc.prems(1), of u m "walkDir n D" v] pm(2) mu by simp
  qed
  show ?case
  proof (cases "dw_ended D (wl_clock s)")
    case True
    then show ?thesis using faithful_stop [of D s] by (simp add: look_def)
  next
    case False
    have t: "faithful D [] False s (False, ?s)" by (simp add: faithful_def)
    have "faithful D (kids_acts (dw_filter D) ps kids) (kids_kept (dw_filter D) ps kids) ?s (prune_entries D (walkDir n D) (rel_path ps) (map entry_of kids) False ?s)"
      using faithful_entries [OF assms(1), of kids "dw_filter D" ps "walkDir n D" "rel_path ps" False ?s] kid by simp
    then show ?thesis using faithful_seq [OF t, of "kids_acts (dw_filter D) ps kids"] False rd by (simp add: look_def)
  qed
qed simp

section \<open>What the actions remove\<close>

definition op_removes :: "batch_op \<Rightarrow> string \<Rightarrow> bool" where
  "op_removes bop p \<longleftrightarrow> (if bo_Kind bop = OpRemoveAll then isPathUnder p (bo_RelPath bop) else p = bo_RelPath bop)"

definition act_removes :: "prune_act \<Rightarrow> string \<Rightarrow> bool" where
  "act_removes a p = (case a of Keep ev \<Rightarrow> False | Offer late j \<Rightarrow> op_removes (sj_op j) p)"

text \<open>
  The paths that survive: the entry is kept and every directory above it passes the filter. A file is
  kept when it matches; a directory when it matches itself or keeps something below it.
\<close>

definition survives :: "path_filter \<Rightarrow> ds_tree \<Rightarrow> string list \<Rightarrow> bool" where
  "survives f t ns \<longleftrightarrow> (\<exists>u. subtree t ns = Some u \<and> entry_kept f ns u) \<and>
     (\<forall>ms ts. ns = ms @ ts \<longrightarrow> ms \<noteq> [] \<longrightarrow> ts \<noteq> [] \<longrightarrow> fl_Include f (rel_path ms) True)"

lemma act_removes_simps [simp]:
  "\<not> act_removes (keep_act ns) p" "act_removes (file_act ns i) p \<longleftrightarrow> p = rel_path ns" "act_removes (dir_act ns i) p \<longleftrightarrow> isPathUnder p (rel_path ns)"
  by (simp_all add: act_removes_def keep_act_def file_act_def dir_act_def prune_job_def op_removes_def)

lemma kid_unique: "wf_tree (Node i kids) \<Longrightarrow> k \<in> set kids \<Longrightarrow> map_of kids (fst k) = Some v \<Longrightarrow> snd k = v"
  using map_of_is_SomeI [of kids "fst k" "snd k"] by (simp add: strict_sorted_iff)

lemma under_plain: "plain ns \<Longrightarrow> plain qs \<Longrightarrow> ns \<noteq> [] \<Longrightarrow> qs \<noteq> [] \<Longrightarrow> isPathUnder (rel_path qs) (rel_path ns) \<longleftrightarrow> (\<exists>ts. qs = ns @ ts)"
  by (rule isPathUnder_rel_path) auto

text \<open>The actions at a path concern that path and those below it.\<close>

lemma prune_acts_below:
  "a \<in> set (prune_acts f ns t) \<Longrightarrow> plain ns \<Longrightarrow> ns \<noteq> [] \<Longrightarrow> wf_tree t \<Longrightarrow> plain qs \<Longrightarrow> qs \<noteq> [] \<Longrightarrow> act_removes a (rel_path qs) \<Longrightarrow> \<exists>ts. qs = ns @ ts"
proof (induction f ns t rule: prune_acts.induct)
  case (1 f ns i)
  then have "rel_path qs = rel_path ns" by (auto split: if_splits)
  then have "isPathUnder (rel_path qs) (rel_path ns)" by simp
  then show ?case using under_plain [of ns qs] 1 by blast
next
  case (2 f ns i kids)
  consider "a = dir_act ns i" | k where "k \<in> set kids" "fl_Include f (rel_path ns) True" "a \<in> set (prune_acts f (ns @ [fst k]) (snd k))"
    using 2(2) by (auto split: if_splits)
  then show ?case
  proof cases
    case 1
    then show ?thesis using under_plain [of ns qs] 2 by simp
  next
    case k: 2
    then have "\<exists>ts. qs = (ns @ [fst k]) @ ts" using 2(1) [of k] 2(3-8) wf_kid [OF 2(5) k(1)] by simp
    then show ?thesis by auto
  qed
qed

lemma entry_kept_up:
  "subtree t (q # qs) = Some u \<Longrightarrow> entry_kept f (ns @ q # qs) u \<Longrightarrow>
   (\<forall>ms ts. q # qs = ms @ ts \<longrightarrow> ts \<noteq> [] \<longrightarrow> fl_Include f (rel_path (ns @ ms)) True) \<Longrightarrow> entry_kept f ns t"
proof (induction qs arbitrary: q ns t)
  case Nil
  then obtain i kids where t: "t = Node i kids" "map_of kids q = Some u" by (cases t) (auto split: option.splits)
  have "(q, u) \<in> set kids" using t(2) by (rule map_of_SomeD)
  then show ?case using Nil(2,3) t(1) by force
next
  case (Cons r rs)
  then obtain i kids v where t: "t = Node i kids" "map_of kids q = Some v" "subtree v (r # rs) = Some u" by (cases t) (auto split: option.splits)
  have m: "(q, v) \<in> set kids" using t(2) by (rule map_of_SomeD)
  have "\<forall>ms ts. r # rs = ms @ ts \<longrightarrow> ts \<noteq> [] \<longrightarrow> fl_Include f (rel_path ((ns @ [q]) @ ms)) True"
  proof (intro allI impI)
    fix ms ts
    assume "r # rs = ms @ ts" "ts \<noteq> ([] :: string list)"
    then show "fl_Include f (rel_path ((ns @ [q]) @ ms)) True" using Cons.prems(3) [rule_format, of "q # ms" ts] by simp
  qed
  then have "entry_kept f (ns @ [q]) v" using Cons.IH [OF t(3), of "ns @ [q]"] Cons.prems(2) by simp
  moreover have "fl_Include f (rel_path ns) True" using Cons.prems(3) [rule_format, of "[]" "q # r # rs"] by simp
  ultimately show ?case using m t(1) by force
qed

lemma prune_acts_remove:
  "plain ns \<Longrightarrow> ns \<noteq> [] \<Longrightarrow> wf_tree t \<Longrightarrow> subtree t qs = Some u \<Longrightarrow>
   (\<exists>a \<in> set (prune_acts f ns t). act_removes a (rel_path (ns @ qs))) \<longleftrightarrow>
   \<not> (entry_kept f (ns @ qs) u \<and> (\<forall>ms ts. qs = ms @ ts \<longrightarrow> ts \<noteq> [] \<longrightarrow> fl_Include f (rel_path (ns @ ms)) True))"
proof (induction f ns t arbitrary: qs rule: prune_acts.induct)
  case (1 f ns i)
  then show ?case by (auto split: if_splits)
next
  case (2 f ns i kids)
  have pq: "plain qs" using wf_subtree [OF 2(4,5)] by simp
  show ?case
  proof (cases "fl_Include f (rel_path ns) True")
    case False
    have "isPathUnder (rel_path (ns @ qs)) (rel_path ns)" using under_plain [of ns "ns @ qs"] 2(2,3) pq by auto
    moreover have "\<not> (entry_kept f (ns @ qs) u \<and> (\<forall>ms ts. qs = ms @ ts \<longrightarrow> ts \<noteq> [] \<longrightarrow> fl_Include f (rel_path (ns @ ms)) True))"
    proof (cases qs)
      case Nil
      then show ?thesis using False 2(5) by auto
    next
      case (Cons q rs)
      then show ?thesis using False by (metis append_Nil append.right_neutral list.distinct(1))
    qed
    ultimately show ?thesis using False by simp
  next
    case inc: True
    have below: "\<exists>ts. ns @ qs = (ns @ [fst k]) @ ts" if "k \<in> set kids" "a \<in> set (prune_acts f (ns @ [fst k]) (snd k))" "act_removes a (rel_path (ns @ qs))" for k a
      using prune_acts_below [OF that(2) _ _ _ _ _ that(3)] wf_kid [OF 2(4) that(1)] 2(2,3) pq by auto
    have acts: "(\<exists>a \<in> set (prune_acts f ns (Node i kids)). act_removes a (rel_path (ns @ qs))) \<longleftrightarrow>
        \<not> entry_kept f ns (Node i kids) \<or> (\<exists>k \<in> set kids. \<exists>a \<in> set (prune_acts f (ns @ [fst k]) (snd k)). act_removes a (rel_path (ns @ qs)))"
      using under_plain [of ns "ns @ qs"] 2(2,3) pq inc by auto
    show ?thesis
    proof (cases qs)
      case Nil
      then have "\<not> (\<exists>k \<in> set kids. \<exists>a \<in> set (prune_acts f (ns @ [fst k]) (snd k)). act_removes a (rel_path (ns @ qs)))" using below by fastforce
      moreover have "u = Node i kids" using 2(5) Nil by simp
      ultimately show ?thesis using acts Nil by (simp del: prune_acts.simps entry_kept.simps)
    next
      case (Cons q rs)
      obtain v where v: "map_of kids q = Some v" "subtree v rs = Some u" using 2(5) Cons by (auto split: option.splits)
      have m: "(q, v) \<in> set kids" using v(1) by (rule map_of_SomeD)
      have one: "(\<exists>k \<in> set kids. \<exists>a \<in> set (prune_acts f (ns @ [fst k]) (snd k)). act_removes a (rel_path (ns @ qs))) \<longleftrightarrow>
          (\<exists>a \<in> set (prune_acts f (ns @ [q]) v). act_removes a (rel_path ((ns @ [q]) @ rs)))"
      proof
        assume "\<exists>k \<in> set kids. \<exists>a \<in> set (prune_acts f (ns @ [fst k]) (snd k)). act_removes a (rel_path (ns @ qs))"
        then obtain k a where k: "k \<in> set kids" "a \<in> set (prune_acts f (ns @ [fst k]) (snd k))" "act_removes a (rel_path (ns @ qs))" by blast
        then have "fst k = q" using below [OF k] Cons by auto
        then have "snd k = v" using kid_unique [OF 2(4) k(1)] v(1) by simp
        then show "\<exists>a \<in> set (prune_acts f (ns @ [q]) v). act_removes a (rel_path ((ns @ [q]) @ rs))" using k \<open>fst k = q\<close> Cons by auto
      qed (use m Cons in force)
      have ih: "(\<exists>a \<in> set (prune_acts f (ns @ [q]) v). act_removes a (rel_path ((ns @ [q]) @ rs))) \<longleftrightarrow>
          \<not> (entry_kept f ((ns @ [q]) @ rs) u \<and> (\<forall>ms ts. rs = ms @ ts \<longrightarrow> ts \<noteq> [] \<longrightarrow> fl_Include f (rel_path ((ns @ [q]) @ ms)) True))"
        using 2(1) [OF _ m, of rs] inc wf_kid [OF 2(4) m] 2(2,3) v(2) by simp
      have pre: "(\<forall>ms ts. qs = ms @ ts \<longrightarrow> ts \<noteq> [] \<longrightarrow> fl_Include f (rel_path (ns @ ms)) True) \<longleftrightarrow>
          (\<forall>ms ts. rs = ms @ ts \<longrightarrow> ts \<noteq> [] \<longrightarrow> fl_Include f (rel_path ((ns @ [q]) @ ms)) True)"
        using inc unfolding Cons by (auto simp: Cons_eq_append_conv)
      have "entry_kept f (ns @ qs) u \<and> (\<forall>ms ts. qs = ms @ ts \<longrightarrow> ts \<noteq> [] \<longrightarrow> fl_Include f (rel_path (ns @ ms)) True) \<Longrightarrow> entry_kept f ns (Node i kids)"
        using entry_kept_up [of "Node i kids" q rs u f ns] 2(5) Cons by simp
      then show ?thesis using acts one ih pre Cons by auto
    qed
  qed
qed

lemma kids_acts_remove:
  assumes "wf_tree (Node i kids)" "subtree (Node i kids) ns = Some u" "ns \<noteq> []"
  shows "(\<exists>a \<in> set (kids_acts f [] kids). act_removes a (rel_path ns)) \<longleftrightarrow> \<not> survives f (Node i kids) ns"
proof -
  obtain n qs where n: "ns = n # qs" using assms(3) by (cases ns) auto
  obtain v where v: "map_of kids n = Some v" "subtree v qs = Some u" using assms(2) n by (auto split: option.splits)
  have m: "(n, v) \<in> set kids" using v(1) by (rule map_of_SomeD)
  have pn: "plain ns" using wf_subtree [OF assms(1,2)] by simp
  have "(\<exists>a \<in> set (kids_acts f [] kids). act_removes a (rel_path ns)) \<longleftrightarrow> (\<exists>a \<in> set (prune_acts f [n] v). act_removes a (rel_path ([n] @ qs)))"
  proof
    assume "\<exists>a \<in> set (kids_acts f [] kids). act_removes a (rel_path ns)"
    then obtain k a where k: "k \<in> set kids" "a \<in> set (prune_acts f [fst k] (snd k))" "act_removes a (rel_path ns)" by (auto simp: kids_acts_def)
    have "\<exists>ts. ns = [fst k] @ ts" using prune_acts_below [OF k(2) _ _ _ pn assms(3) k(3)] wf_kid [OF assms(1) k(1)] by simp
    then have "fst k = n" using n by simp
    then have "snd k = v" using kid_unique [OF assms(1) k(1)] v(1) by simp
    then show "\<exists>a \<in> set (prune_acts f [n] v). act_removes a (rel_path ([n] @ qs))" using k \<open>fst k = n\<close> n by auto
  qed (use m n in \<open>force simp: kids_acts_def\<close>)
  also have "\<dots> \<longleftrightarrow> \<not> (entry_kept f ns u \<and> (\<forall>ms ts. qs = ms @ ts \<longrightarrow> ts \<noteq> [] \<longrightarrow> fl_Include f (rel_path ([n] @ ms)) True))"
    using prune_acts_remove [of "[n]" v qs u f] wf_kid [OF assms(1) m] v(2) n by simp
  also have "\<dots> \<longleftrightarrow> \<not> survives f (Node i kids) ns"
    using assms(2) unfolding survives_def n by (auto simp: Cons_eq_append_conv)
  finally show ?thesis .
qed

section \<open>The pool\<close>

text \<open>The batcher appends what it accepts to a log that the observer does not touch.\<close>

definition records :: "('w \<Rightarrow> batch_op list) \<Rightarrow> 'w batcher \<Rightarrow> 'w prune_config \<Rightarrow> bool" where
  "records log B C \<longleftrightarrow>
     (\<forall>ctx bop w. log (snd (ba_Submit B ctx bop w)) = log w @ (if fst (ba_Submit B ctx bop w) = None then [bop] else [])) \<and>
     (\<forall>ev w. log (dp_observer C ev w) = log w)"

definition pool_sound :: "('w \<Rightarrow> batch_op list) \<Rightarrow> prune_act list \<Rightarrow> 'w \<Rightarrow> 'w prune_pool \<Rightarrow> bool" where
  "pool_sound log acts w0 s \<longleftrightarrow>
     set (pp_acts s) \<subseteq> set acts \<and> (\<forall>j \<in> set (pp_busy s). Offer False j \<in> set acts) \<and>
     (pp_ctx s = None \<longrightarrow> (\<forall>j \<in> set (pp_chan s). Offer False j \<in> set acts)) \<and>
     (\<forall>bop \<in> set (log (pp_world s)). bop \<in> set (log w0) \<or> (\<exists>j. Offer False j \<in> set acts \<and> bop = sj_op j))"

lemma count_job_fields [simp]:
  "pp_acts (count_job j err s) = pp_acts s" "pp_chan (count_job j err s) = pp_chan s" "pp_busy (count_job j err s) = pp_busy s"
  "pp_post (count_job j err s) = pp_post s" "pp_ctx (count_job j err s) = pp_ctx s" "pp_kept (count_job j err s) = pp_kept s"
  "pp_world (count_job j err s) = pp_world s"
  by (simp_all add: count_job_def split: disposition.split)

lemma submit_job_fields [simp]:
  "pp_acts (submit_job B j s) = pp_acts s" "pp_chan (submit_job B j s) = pp_chan s" "pp_busy (submit_job B j s) = pp_busy s"
  "pp_ctx (submit_job B j s) = pp_ctx s" "pp_kept (submit_job B j s) = pp_kept s"
  "pp_world (submit_job B j s) = snd (ba_Submit B (pp_ctx s) (sj_op j) (pp_world s))"
  "length (pp_post (submit_job B j s)) = Suc (length (pp_post s))"
  by (simp_all add: submit_job_def split: prod.split)

lemma pool_sound_step:
  assumes "records log B C" "pool_step C B s s'" "pool_sound log acts w0 s"
  shows "pool_sound log acts w0 s'"
  using assms(2)
proof (cases rule: pool_step.cases)
  case (offer late j rest)
  then show ?thesis using assms(3) by (auto simp: pool_sound_def)
next
  case (submit xs j ys)
  then have "Offer False j \<in> set acts" using assms(3) by (simp add: pool_sound_def)
  then show ?thesis using submit assms(1,3) by (auto simp: pool_sound_def records_def)
qed (use assms(1,3) in \<open>auto simp: pool_sound_def records_def\<close>)

lemma pool_sound_steps:
  assumes "records log B C" "(pool_step C B)\<^sup>*\<^sup>* (pool_start acts w) s"
  shows "pool_sound log acts w s"
  using assms(2)
proof induction
  case base
  then show ?case by (simp add: pool_sound_def pool_start_def)
next
  case (step s s')
  then show ?case using pool_sound_step [OF assms(1)] by blast
qed

text \<open>The books of a run whose context is alive: \<open>ok\<close> the jobs that the batcher took, \<open>bad\<close> those it refused.\<close>

fun offers :: "prune_act list \<Rightarrow> submission list" where
  "offers [] = []"
| "offers (Keep ev # acts) = offers acts"
| "offers (Offer late j # acts) = j # offers acts"

fun keeps :: "prune_act list \<Rightarrow> nat" where
  "keeps [] = 0"
| "keeps (Keep ev # acts) = Suc (keeps acts)"
| "keeps (Offer late j # acts) = keeps acts"

definition with_disp :: "disposition \<Rightarrow> submission list \<Rightarrow> int" where
  "with_disp d js = int (length (filter (\<lambda>j. sj_disp j = d) js))"

definition pool_books :: "('w \<Rightarrow> batch_op list) \<Rightarrow> prune_act list \<Rightarrow> 'w \<Rightarrow> 'w prune_pool \<Rightarrow> submission list \<Rightarrow> submission list \<Rightarrow> bool" where
  "pool_books log acts w0 s ok bad \<longleftrightarrow>
     log (pp_world s) = log w0 @ map sj_op ok \<and>
     mset (offers acts) = mset (offers (pp_acts s)) + mset (pp_chan s) + mset (pp_busy s) + mset ok + mset bad \<and>
     pp_submitErrors s = int (length bad) \<and> pp_deleted s = with_disp DispositionDeleted ok \<and> pp_collapsed s = with_disp DispositionCollapsed ok \<and>
     pp_kept s + int (keeps (pp_acts s)) = int (keeps acts)"

lemma pool_books_step:
  assumes "records log B C" "pool_step C B s s'" "pool_books log acts w0 s ok bad" "pp_ctx s' = None"
  shows "\<exists>ok' bad'. pool_books log acts w0 s' ok' bad'"
  using assms(2)
proof (cases rule: pool_step.cases)
  case (submit xs j ys)
  obtain err w where e: "ba_Submit B (pp_ctx s) (sj_op j) (pp_world s) = (err, w)" by fastforce
  have l: "log w = log (pp_world s) @ (if err = None then [sj_op j] else [])"
    using assms(1) e unfolding records_def by (metis fst_conv snd_conv)
  show ?thesis
  proof (cases err)
    case None
    have "pool_books log acts w0 s' (ok @ [j]) bad" using assms(3) submit e l None
      by (cases "sj_disp j") (simp_all add: pool_books_def submit_job_def count_job_def with_disp_def)
    then show ?thesis by blast
  next
    case (Some x)
    have "pool_books log acts w0 s' ok (bad @ [j])" using assms(3) submit e l Some
      by (simp add: pool_books_def submit_job_def count_job_def)
    then show ?thesis by blast
  qed
qed (rule exI [of _ ok], rule exI [of _ bad], use assms(1,3,4) in \<open>auto simp: pool_books_def records_def\<close>)+

lemma ctx_stays: "pool_step C B s s' \<Longrightarrow> pp_ctx s' = None \<Longrightarrow> pp_ctx s = None"
  by (erule pool_stepE) simp_all

lemma pool_books_steps:
  assumes "records log B C" "(pool_step C B)\<^sup>*\<^sup>* (pool_start acts w) s"
  shows "pp_ctx s = None \<Longrightarrow> \<exists>ok bad. pool_books log acts w s ok bad"
  using assms(2)
proof induction
  case base
  then show ?case by (auto simp: pool_books_def pool_start_def with_disp_def intro!: exI [of _ "[]"])
next
  case (step s s')
  obtain ok bad where "pool_books log acts w s ok bad" using step.IH ctx_stays [OF step.hyps(2) step.prems] by blast
  then show ?case using pool_books_step [OF assms(1) step.hyps(2) _ step.prems] by blast
qed

text \<open>The steps of a run are bounded, and a run that has not ended can go on.\<close>

definition pool_measure :: "'w prune_pool \<Rightarrow> nat" where
  "pool_measure s = 4 * length (pp_acts s) + 3 * length (pp_chan s) + 2 * length (pp_busy s) + length (pp_post s) + (if pp_ctx s = None then 1 else 0)"

lemma pool_step_decreases: "pool_step C B s s' \<Longrightarrow> pool_measure s' < pool_measure s"
  by (erule pool_stepE) (simp_all add: pool_measure_def split: if_splits)

definition no_late :: "'w prune_pool \<Rightarrow> bool" where
  "no_late s \<longleftrightarrow> (\<forall>a \<in> set (pp_acts s). is_late a \<longrightarrow> pp_ctx s \<noteq> None)"

lemma pool_progress:
  assumes "0 < dp_workers C" "\<not> pool_done s" "no_late s"
  shows "\<exists>s'. pool_step C B s s'"
proof (cases "pp_post s")
  case (Cons ev evs)
  then show ?thesis using pool_step.observe [of s "[]" ev evs C B] by auto
next
  case post: Nil
  show ?thesis
  proof (cases "pp_busy s")
    case (Cons j js)
    then show ?thesis using pool_step.submit [of s "[]" j js C B] by auto
  next
    case busy: Nil
    show ?thesis
    proof (cases "pp_chan s")
      case (Cons j js)
      then show ?thesis using post busy assms(1) pool_step.take [of s j js C B] pool_step.drain [of s j js C B] by (cases "pp_ctx s") auto
    next
      case chan: Nil
      then obtain a acts where a: "pp_acts s = a # acts" using assms(2) post busy by (cases "pp_acts s") (auto simp: pool_done_def)
      show ?thesis
      proof (cases a)
        case (Keep ev)
        then show ?thesis using a pool_step.keep [of s ev acts C B] by auto
      next
        case (Offer late j)
        then have "late \<longrightarrow> pp_ctx s \<noteq> None" using a assms(3) by (simp add: no_late_def is_late_def)
        then show ?thesis using a Offer chan assms(1) pool_step.offer [of s late j acts C B] by auto
      qed
    qed
  qed
qed

section \<open>Properties\<close>

lemma prune_walk_faithful:
  assumes "stays_ended ended" "reads_tree F dir (Node i kids)" "wf_tree (Node i kids)" "tree_depth (Node i kids) \<le> n" "\<not> dp_followSymlinks C"
  shows "\<forall>a \<in> set (wl_acts (prune_walk n F ended C dir f)). \<not> is_late a \<longrightarrow> a \<in> set (kids_acts f [] kids)"
    and "(\<And>m. \<not> ended m) \<Longrightarrow> wl_acts (prune_walk n F ended C dir f) = kids_acts f [] kids \<and> wl_errs (prune_walk n F ended C dir f) = []"
  using walkDir_faithful [of "\<lparr>dw_fs = F, dw_root = dir, dw_filter = f, dw_followSymlinks = dp_followSymlinks C, dw_ended = ended\<rparr>" "Node i kids" "[]" i kids n walk_start] assms
  by (auto simp: prune_walk_def faithful_def walk_start_def rel_path_def)

text \<open>
  C31: pruning never removes what should stay. Whatever the order of the workers and whenever the context
  ends, an operation that the batcher has accepted removes no path that survives: no file that matches
  below directories that pass the filter, and no directory that matches or holds such a file.
\<close>

theorem Prune_spares_survivors:
  assumes "stays_ended ended" "reads_tree F dir t" "wf_tree t" "is_node t" "tree_depth t \<le> n" "\<not> dp_followSymlinks C" "records log B C" "log w = []"
    and "(pool_step C B)\<^sup>*\<^sup>* (pool_start (wl_acts (prune_walk n F ended C dir f)) w) s"
    and "ns \<noteq> []" "survives f t ns" "bop \<in> set (log (pp_world s))"
  shows "\<not> op_removes bop (rel_path ns)"
proof
  assume r: "op_removes bop (rel_path ns)"
  obtain i kids where t: "t = Node i kids" using assms(3,4) by auto
  obtain j where "Offer False j \<in> set (wl_acts (prune_walk n F ended C dir f))" "bop = sj_op j"
    using pool_sound_steps [OF assms(7,9)] assms(8,12) unfolding pool_sound_def by auto
  then have "Offer False j \<in> set (kids_acts f [] kids)" "act_removes (Offer False j) (rel_path ns)"
    using prune_walk_faithful(1) [of ended F dir i kids n C f] assms(1-6) t r by (auto simp: is_late_def act_removes_def)
  moreover obtain u where "subtree t ns = Some u" using assms(11) by (auto simp: survives_def)
  ultimately show False using kids_acts_remove [of i kids ns u f] assms(3,10,11) t by blast
qed

lemma keeps_offers: "keeps acts + length (offers acts) = length acts"
  by (induction acts rule: offers.induct) simp_all

lemma offers_append [simp]: "offers (xs @ ys) = offers xs @ offers ys"
  by (induction xs rule: offers.induct) simp_all

lemma prune_acts_disp: "j \<in> set (offers (prune_acts f ns t)) \<Longrightarrow> sj_disp j = DispositionDeleted \<or> sj_disp j = DispositionCollapsed"
proof (induction f ns t rule: prune_acts.induct)
  case (2 f ns i kids)
  have c: "j \<in> set (offers (concat (map g ks))) \<longleftrightarrow> (\<exists>k \<in> set ks. j \<in> set (offers (g k)))" for g and ks :: "(string \<times> ds_tree) list"
    by (induction ks) auto
  show ?case using 2 by (auto simp: c dir_act_def prune_job_def split: if_splits)
qed (auto simp: keep_act_def file_act_def prune_job_def split: if_splits)

lemma kids_acts_disp: "j \<in> set (offers (kids_acts f ns kids)) \<Longrightarrow> sj_disp j = DispositionDeleted \<or> sj_disp j = DispositionCollapsed"
  unfolding kids_acts_def by (induction kids) (auto dest: prune_acts_disp)

lemma with_disp_all:
  "\<forall>j \<in> set js. sj_disp j = DispositionDeleted \<or> sj_disp j = DispositionCollapsed \<Longrightarrow>
   with_disp DispositionDeleted js + with_disp DispositionCollapsed js = int (length js)"
  by (induction js) (auto simp: with_disp_def)

text \<open>
  C32: a run that is not cancelled and whose submissions are accepted removes everything else: of the
  paths of the tree it removes exactly those that do not survive, and its result counts every decision
  of the walk once.
\<close>

theorem Prune_removes_the_rest:
  assumes "reads_tree F dir t" "wf_tree t" "is_node t" "tree_depth t \<le> n" "\<not> dp_followSymlinks C" "records log B C" "log w = []"
    and "(pool_step C B)\<^sup>*\<^sup>* (pool_start (wl_acts (prune_walk n F (\<lambda>_. False) C dir f)) w) s" "pool_done s" "pp_ctx s = None" "pp_submitErrors s = 0"
    and "ns \<noteq> []" "subtree t ns = Some u"
  shows "((\<exists>bop \<in> set (log (pp_world s)). op_removes bop (rel_path ns)) \<longleftrightarrow> \<not> survives f t ns) \<and>
     pq_Total (prune_report errs s closeErr) = int (length (kids_acts f [] (tree_kids t)))"
proof -
  obtain i kids where t: "t = Node i kids" using assms(2,3) by auto
  have a: "wl_acts (prune_walk n F (\<lambda>_. False) C dir f) = kids_acts f [] kids"
    using prune_walk_faithful(2) [of "\<lambda>_. False" F dir i kids n C f] assms(1-5) t by (simp add: stays_ended_def)
  obtain ok bad where b: "pool_books log (kids_acts f [] kids) w s ok bad"
    using pool_books_steps [OF assms(6,8)] assms(10) a by auto
  then have l: "log (pp_world s) = map sj_op ok" and m: "mset (offers (kids_acts f [] kids)) = mset ok"
    using assms(7,9,11) by (auto simp: pool_books_def pool_done_def)
  have o: "(\<exists>x \<in> set acts. act_removes x p) \<longleftrightarrow> (\<exists>j \<in> set (offers acts). op_removes (sj_op j) p)" for acts p
    by (induction acts rule: offers.induct) (auto simp: act_removes_def)
  have "(\<exists>bop \<in> set (log (pp_world s)). op_removes bop (rel_path ns)) \<longleftrightarrow> \<not> survives f t ns"
    using kids_acts_remove [of i kids ns u f] o [of "kids_acts f [] kids" "rel_path ns"] assms(2,12,13) t mset_eq_setD [OF m] l by auto
  moreover have "pp_deleted s + pp_collapsed s = int (length (offers (kids_acts f [] kids)))"
    using b m kids_acts_disp [of _ f "[]" kids] mset_eq_setD [OF m] mset_eq_length [OF m] with_disp_all [of ok] by (simp add: pool_books_def)
  ultimately show ?thesis
    using b assms(9,11) t keeps_offers [of "kids_acts f [] kids"] by (simp add: pq_Total_def prune_report_def pool_books_def pool_done_def)
qed

subsection \<open>Runs end\<close>

definition timely :: "walk_log \<Rightarrow> bool" where
  "timely s \<longleftrightarrow> (\<forall>a \<in> set (wl_acts s). \<not> is_late a)"

lemma timely_simps:
  "(\<And>m. \<not> dw_ended D m) \<Longrightarrow> timely (enqueue D j s) \<longleftrightarrow> timely s" "timely (keep_file p s) \<longleftrightarrow> timely s" "timely (addWalkErr err s) \<longleftrightarrow> timely s"
  by (auto simp: timely_def enqueue_def look_def keep_file_def addWalkErr_def is_late_def)

lemma walkDir_timely:
  assumes "\<And>m. \<not> dw_ended D m"
  shows "timely s \<Longrightarrow> timely (snd (walkDir n D rel s))"
proof (induction n arbitrary: rel s)
  case (Suc n)
  have entry: "timely (snd (prune_entry D (walkDir n D) rel e v))" if "timely v" for e v
  proof -
    obtain ck v2 where "walkDir n D (joinRel rel (de_Name e)) v = (ck, v2)" by fastforce
    moreover from this have "timely v2" using Suc.IH [OF that, of "joinRel rel (de_Name e)"] by simp
    ultimately show ?thesis using that timely_simps(1) [OF assms] by (simp add: prune_entry_def Let_def timely_simps split: sum.split)
  qed
  have entries: "timely v \<Longrightarrow> timely (snd (prune_entries D (walkDir n D) rel es k v))" for es k v
  proof (induction es arbitrary: k v)
    case (Cons e es)
    have "timely (v\<lparr>wl_clock := Suc (wl_clock v)\<rparr>)" using Cons.prems by (simp add: timely_def)
    then show ?case using entry [of "v\<lparr>wl_clock := Suc (wl_clock v)\<rparr>" e] Cons.IH assms by (simp add: look_def split: prod.split) (metis snd_conv)
  qed simp
  have "timely (s\<lparr>wl_clock := Suc (wl_clock s)\<rparr>)" using Suc.prems by (simp add: timely_def)
  then show ?case using entries assms by (simp add: look_def split: sum.split) (simp add: addWalkErr_def timely_def)
qed (simp add: addWalkErr_def timely_def)

lemma pool_no_late:
  assumes "pool_step C B s s'" "\<forall>a \<in> set (pp_acts s). \<not> is_late a"
  shows "\<forall>a \<in> set (pp_acts s'). \<not> is_late a"
  using assms by cases simp_all

lemma pool_can_finish:
  assumes "0 < dp_workers C"
  shows "\<forall>a \<in> set (pp_acts s). \<not> is_late a \<Longrightarrow> \<exists>s'. (pool_step C B)\<^sup>*\<^sup>* s s' \<and> pool_done s'"
proof (induction "pool_measure s" arbitrary: s rule: less_induct)
  case less
  show ?case
  proof (cases "pool_done s")
    case False
    then obtain s1 where s1: "pool_step C B s s1"
      using pool_progress [OF assms False] less.prems by (auto simp: no_late_def)
    then obtain s' where "(pool_step C B)\<^sup>*\<^sup>* s1 s'" "pool_done s'"
      using less.hyps [OF pool_step_decreases [OF s1] pool_no_late [OF s1 less.prems]] by blast
    then show ?thesis using s1 by (meson converse_rtranclp_into_rtranclp)
  qed blast
qed

lemma pool_steps_bound:
  "((pool_step C B) ^^ k) s s' \<Longrightarrow> k + pool_measure s' \<le> pool_measure s"
proof (induction k arbitrary: s')
  case (Suc k)
  then obtain s1 where "(pool_step C B ^^ k) s s1" "pool_step C B s1 s'" by auto
  then show ?case using Suc.IH [of s1] pool_step_decreases [of C B s1 s'] by simp
qed simp

text \<open>
  The pool of a prune ends: with a worker, a run has at most four steps for every decision of the
  walk and one for the end of the context, and from each of its states it can finish.
\<close>

theorem Prune_pool_returns:
  assumes "0 < dp_workers C" "((pool_step C B) ^^ k) (pool_start (wl_acts (prune_walk n F (\<lambda>_. False) C dir f)) w) s"
  shows "k \<le> 4 * length (wl_acts (prune_walk n F (\<lambda>_. False) C dir f)) + 1 \<and> (\<exists>s'. (pool_step C B)\<^sup>*\<^sup>* s s' \<and> pool_done s')"
proof -
  let ?s = "pool_start (wl_acts (prune_walk n F (\<lambda>_. False) C dir f)) w"
  have "\<forall>a \<in> set (pp_acts ?s). \<not> is_late a"
    using walkDir_timely [of "\<lparr>dw_fs = F, dw_root = dir, dw_filter = f, dw_followSymlinks = dp_followSymlinks C, dw_ended = \<lambda>_. False\<rparr>" walk_start n "''''"]
    by (simp add: pool_start_def prune_walk_def timely_def walk_start_def)
  then have "\<forall>a \<in> set (pp_acts s). \<not> is_late a"
    using assms(2) by (induction k arbitrary: s) (auto dest: pool_no_late)
  then show ?thesis using pool_can_finish [OF assms(1)] pool_steps_bound [OF assms(2)] by (simp add: pool_measure_def pool_start_def)
qed

subsection \<open>Errors\<close>

text \<open>
  A directory that cannot be read, and is only passed because something below it may match, is
  removed as a whole: the walk offers its removal, which takes everything at or below it.
\<close>

theorem unreadable_directory_is_removed:
  assumes "de_Info e = Inr info" "IsDir info" "fl_Include (dw_filter D) (joinRel relDir (de_Name e)) True" "\<not> fl_Include (dw_filter D) (joinRel relDir (de_Name e)) False"
    and "readEntries (dw_fs D) (filepath_Join [dw_root D, joinRel relDir (de_Name e)]) (dw_followSymlinks D) = Inl err" "\<And>m. \<not> dw_ended D m"
  shows "\<exists>j. wl_acts (snd (prune_entry D (walkDir (Suc n) D) relDir e s)) = wl_acts s @ [Offer False j] \<and>
     (\<forall>p. isPathUnder p (joinRel relDir (de_Name e)) \<longrightarrow> op_removes (sj_op j) p)"
  using assms by (simp add: prune_entry_def look_def enqueue_def addWalkErr_def Let_def prune_job_def op_removes_def)

lemma missing_paths_some:
  "(rel \<in> set rels \<and> (\<exists>e. lstat (filepath_Join [dir, rel]) = Inl e)) \<or> missing \<noteq> [] \<Longrightarrow> missing_paths lstat dir rels missing \<noteq> Inr []"
  by (induction rels arbitrary: missing) (auto split: sum.split)

text \<open>
  A prune whose directory lacks a required path returns an error and changes nothing.
\<close>

theorem Prune_refuses_missing_path:
  assumes "rel \<in> set (fl_RequiredPaths (buildFilter newFilter C))" "os_Lstat os (filepath_Join [dir, rel]) w = Inl e"
    and "Prune n F ended os newFilter C dir w (r, err, w')"
  shows "err \<noteq> None \<and> r = zero_result \<and> w' = w"
proof -
  have "missing_paths (\<lambda>p. os_Lstat os p w) dir (fl_RequiredPaths (buildFilter newFilter C)) [] \<noteq> Inr []"
    using missing_paths_some [of rel "fl_RequiredPaths (buildFilter newFilter C)" "\<lambda>p. os_Lstat os p w" dir "[]"] assms(1,2) by blast
  then have "checkRequired (\<lambda>p. os_Lstat os p w) dir (buildFilter newFilter C) \<noteq> None" by (simp add: checkRequired_def split: sum.split)
  then obtain x where "checkRequired (\<lambda>p. os_Lstat os p w) dir (buildFilter newFilter C) = Some x" by blast
  then have "\<exists>y. prune_setup os newFilter C dir w = (Inl y, w)" by (auto simp: prune_setup_def Let_def split: sum.split)
  then show ?thesis using assms(3) by (auto elim: PruneE)
qed

subsection \<open>Examples\<close>

text \<open>A directory with two files, of which a filter keeps one, and a batcher that records.\<close>

definition two_files :: ds_tree where
  "two_files = Node dir_info [(''a'', example_file 1), (''b'', example_file 2)]"

definition one_directory :: "ds_tree \<Rightarrow> walk_fs" where
  "one_directory t = \<lparr>fs_SecureJoin = (\<lambda>r p. Inr (r @ ''/'' @ p)), fs_ReadDir = (\<lambda>p. read_tree (Some t) (drop 3 p)),
     fs_Stat = (\<lambda>p. Inl NotExist), fs_Lstat = (\<lambda>p. Inl NotExist)\<rparr>"

definition keep_a :: path_filter where
  "keep_a = \<lparr>fl_Include = (\<lambda>p isDir. p = ''a''), fl_RequiredPaths = [''a'']\<rparr>"

definition recording_config :: "recording_batcher prune_config" where
  "recording_config = prune_defaultConfig (\<lambda>view w. (Inr RecordingBatcher, w))"

definition no_ops :: recording_batcher where
  "no_ops = \<lparr>rb_all = [], rb_pending = [], rb_total = 0\<rparr>"

lemma one_directory_reads: "wf_tree t \<Longrightarrow> reads_tree (one_directory t) ''/r'' t"
proof -
  have "filepath_Join [''/r'', rel_path ns] = (if ns = [] then ''/r'' else ''/r/'' @ rel_path ns)" if "plain ns" for ns
  proof (cases "ns = []")
    case True
    have "filepath_Join [''/r'', ''''] = ''/r''" by code_simp
    then show ?thesis using True by (simp add: rel_path_def)
  next
    case False
    have "abs_path [''r''] = ''/r''" "plain_name ''r''" by (simp_all add: abs_path_def plain_name_def)
    moreover have "abs_path (''r'' # ns) = ''/r/'' @ rel_path ns"
      using rel_path_append [of "[''r'']" ns] False by (simp add: abs_path_def rel_path_def)
    ultimately show ?thesis using Join_abs_rel_path [of "[''r'']" ns] that False by simp
  qed
  then show ?thesis
    using read_tree_rel_path by (simp add: reads_tree_def one_directory_def) (simp add: read_tree_def)
qed

lemma two_files_walk:
  "wf_tree two_files" "is_node two_files" "tree_depth two_files = 1" "records rb_all RecordingBatcher recording_config"
  "wl_acts (prune_walk 1 (one_directory two_files) (\<lambda>_. False) recording_config ''/r'' keep_a) =
     [keep_act [''a''], file_act [''b''] (tree_info (example_file 2))]"
proof -
  show w: "wf_tree two_files" "is_node two_files" and d: "tree_depth two_files = 1"
    by (simp_all add: two_files_def example_file_def dir_info_def is_node_def plain_name_def)
  show "records rb_all RecordingBatcher recording_config"
    by (simp add: records_def RecordingBatcher_def rb_Submit_def recording_config_def prune_defaultConfig_def NoopObserver_def)
  have "wl_acts (prune_walk 1 (one_directory two_files) (\<lambda>_. False) recording_config ''/r'' keep_a) = kids_acts keep_a [] (tree_kids two_files)"
    using prune_walk_faithful(2) [of "\<lambda>_. False" "one_directory two_files" "''/r''" dir_info "tree_kids two_files" 1 recording_config keep_a]
      one_directory_reads [OF w(1)] w(1) d by (simp add: two_files_def stays_ended_def recording_config_def prune_defaultConfig_def)
  then show "wl_acts (prune_walk 1 (one_directory two_files) (\<lambda>_. False) recording_config ''/r'' keep_a) =
     [keep_act [''a''], file_act [''b''] (tree_info (example_file 2))]"
    by (simp add: kids_acts_def two_files_def example_file_def keep_a_def rel_path_def)
qed

text \<open>The run in which one worker does everything in order.\<close>

lemma two_files_run:
  obtains s where "(pool_step recording_config RecordingBatcher)\<^sup>*\<^sup>* (pool_start [keep_act [''a''], file_act [''b''] i] no_ops) s"
    "pool_done s" "pp_ctx s = None" "pp_submitErrors s = 0" "map bo_RelPath (rb_all (pp_world s)) = [''b'']"
proof -
  let ?C = recording_config and ?B = RecordingBatcher
  define j where "j = prune_job (rel_path [''b'']) False OpRemove DispositionDeleted i"
  define s1 where "s1 = (pool_start [Offer False j] no_ops)\<lparr>pp_kept := 1\<rparr>"
  define s2 where "s2 = s1\<lparr>pp_acts := [], pp_chan := [j]\<rparr>"
  define s3 where "s3 = s1\<lparr>pp_acts := [], pp_busy := [j]\<rparr>"
  define s4 where "s4 = submit_job ?B j (s1\<lparr>pp_acts := []\<rparr>)"
  define s5 where "s5 = s4\<lparr>pp_post := []\<rparr>"
  have c: "dp_workers ?C = 4" "dp_observer ?C = NoopObserver" by (simp_all add: recording_config_def prune_defaultConfig_def)
  have "pool_step ?C ?B (pool_start [keep_act [''a''], file_act [''b''] i] no_ops) s1"
    using pool_step.keep [of "pool_start [keep_act [''a''], file_act [''b''] i] no_ops" _ "[Offer False j]" ?C ?B]
    by (simp add: pool_start_def keep_act_def file_act_def s1_def j_def c NoopObserver_def)
  moreover have "pool_step ?C ?B s1 s2" using pool_step.offer [of s1 False j "[]" ?C ?B] by (simp add: s1_def s2_def pool_start_def c)
  moreover have "pool_step ?C ?B s2 s3" using pool_step.take [of s2 j "[]" ?C ?B] by (simp add: s1_def s2_def s3_def pool_start_def c)
  moreover have "pool_step ?C ?B s3 s4" using pool_step.submit [of s3 "[]" j "[]" ?C ?B] by (simp add: s1_def s3_def s4_def pool_start_def)
  moreover have "pool_step ?C ?B s4 s5" using pool_step.observe [of s4 "[]" "hd (pp_post s4)" "[]" ?C ?B]
    by (simp add: s5_def s4_def submit_job_def count_job_def s1_def pool_start_def RecordingBatcher_def rb_Submit_def c NoopObserver_def j_def prune_job_def)
  ultimately have "(pool_step ?C ?B)\<^sup>*\<^sup>* (pool_start [keep_act [''a''], file_act [''b''] i] no_ops) s5"
    by (meson converse_rtranclp_into_rtranclp rtranclp.rtrancl_refl)
  then show ?thesis
    by (rule that) (simp_all add: s5_def s4_def s1_def submit_job_def count_job_def RecordingBatcher_def rb_Submit_def pool_start_def pool_done_def no_ops_def j_def prune_job_def rel_path_def)
qed

theorem Prune_spares_survivors_witness:
  "\<exists>s bop. (pool_step recording_config RecordingBatcher)\<^sup>*\<^sup>* (pool_start (wl_acts (prune_walk 1 (one_directory two_files) (\<lambda>_. False) recording_config ''/r'' keep_a)) no_ops) s \<and>
     bop \<in> set (rb_all (pp_world s)) \<and> \<not> op_removes bop (rel_path [''a''])"
proof -
  obtain s where s: "(pool_step recording_config RecordingBatcher)\<^sup>*\<^sup>* (pool_start (wl_acts (prune_walk 1 (one_directory two_files) (\<lambda>_. False) recording_config ''/r'' keep_a)) no_ops) s"
    "map bo_RelPath (rb_all (pp_world s)) = [''b'']"
    using two_files_run [of "tree_info (example_file 2)"] two_files_walk(5) by metis
  obtain bop where b: "bop \<in> set (rb_all (pp_world s))" using s(2) by (cases "rb_all (pp_world s)") auto
  have "survives keep_a two_files [''a'']"
    by (auto simp: survives_def two_files_def example_file_def keep_a_def rel_path_def append_eq_Cons_conv Cons_eq_append_conv)
  then have "\<not> op_removes bop (rel_path [''a''])"
    using Prune_spares_survivors [OF _ one_directory_reads [OF two_files_walk(1)] two_files_walk(1,2) _ _ two_files_walk(4) _ s(1) _ _ b] two_files_walk(3)
    by (simp add: stays_ended_def no_ops_def recording_config_def prune_defaultConfig_def)
  then show ?thesis using s(1) b by blast
qed

theorem Prune_removes_the_rest_witness:
  "\<exists>s :: recording_batcher prune_pool. (\<exists>bop \<in> set (rb_all (pp_world s)). op_removes bop (rel_path [''b''])) \<and> pq_Total (prune_report [] s None) = 2"
proof -
  obtain s where s: "(pool_step recording_config RecordingBatcher)\<^sup>*\<^sup>* (pool_start (wl_acts (prune_walk 1 (one_directory two_files) (\<lambda>_. False) recording_config ''/r'' keep_a)) no_ops) s"
    "pool_done s" "pp_ctx s = None" "pp_submitErrors s = 0"
    using two_files_run [of "tree_info (example_file 2)"] two_files_walk(5) by metis
  have t: "\<not> survives keep_a two_files [''b'']" "subtree two_files [''b''] = Some (example_file 2)" "length (kids_acts keep_a [] (tree_kids two_files)) = 2"
    by (simp_all add: survives_def two_files_def example_file_def keep_a_def rel_path_def kids_acts_def)
  have "(\<exists>bop \<in> set (rb_all (pp_world s)). op_removes bop (rel_path [''b''])) \<and> pq_Total (prune_report [] s None) = 2"
    using Prune_removes_the_rest [OF one_directory_reads [OF two_files_walk(1)] two_files_walk(1,2) _ _ two_files_walk(4) _ s _ t(2), of "[]" None] t(1,3) two_files_walk(3)
    by (auto simp: no_ops_def recording_config_def prune_defaultConfig_def)
  then show ?thesis by blast
qed

theorem Prune_pool_returns_witness:
  "(0::nat) \<le> 4 * length (wl_acts (prune_walk 1 (one_directory two_files) (\<lambda>_. False) recording_config ''/r'' keep_a)) + 1 \<and>
   (\<exists>s'. (pool_step recording_config RecordingBatcher)\<^sup>*\<^sup>* (pool_start (wl_acts (prune_walk 1 (one_directory two_files) (\<lambda>_. False) recording_config ''/r'' keep_a)) no_ops) s' \<and> pool_done s')"
  by (rule Prune_pool_returns) (simp_all add: recording_config_def prune_defaultConfig_def)

theorem unreadable_directory_is_removed_witness:
  "\<exists>j. wl_acts (snd (prune_entry \<lparr>dw_fs = one_directory two_files, dw_root = ''/r'', dw_filter = \<lparr>fl_Include = \<lambda>p isDir. isDir \<or> p = ''d/a'', fl_RequiredPaths = []\<rparr>,
       dw_followSymlinks = False, dw_ended = \<lambda>_. False\<rparr>
     (walkDir (Suc 0) \<lparr>dw_fs = one_directory two_files, dw_root = ''/r'', dw_filter = \<lparr>fl_Include = \<lambda>p isDir. isDir \<or> p = ''d/a'', fl_RequiredPaths = []\<rparr>,
       dw_followSymlinks = False, dw_ended = \<lambda>_. False\<rparr>) '''' \<lparr>de_Name = ''d'', de_Type = TDir, de_Info = Inr dir_info\<rparr> walk_start)) = [] @ [Offer False j] \<and>
     (\<forall>p. isPathUnder p (joinRel '''' ''d'') \<longrightarrow> op_removes (sj_op j) p)"
proof -
  have "filepath_Join [''/r'', ''d''] = ''/r/d''" by code_simp
  then have r: "readEntries (one_directory two_files) (filepath_Join [''/r'', joinRel '''' ''d'']) False = Inl NotExist"
    by (simp add: readEntries_def one_directory_def joinRel_def read_tree_def two_files_def)
  show ?thesis
    using unreadable_directory_is_removed [of "\<lparr>de_Name = ''d'', de_Type = TDir, de_Info = Inr dir_info\<rparr>" dir_info
      "\<lparr>dw_fs = one_directory two_files, dw_root = ''/r'', dw_filter = \<lparr>fl_Include = \<lambda>p isDir. isDir \<or> p = ''d/a'', fl_RequiredPaths = []\<rparr>,
       dw_followSymlinks = False, dw_ended = \<lambda>_. False\<rparr>" "''''" NotExist 0 walk_start] r
    by (simp add: dir_info_def joinRel_def walk_start_def)
qed

definition only_directory :: "recording_batcher os_calls" where
  "only_directory = \<lparr>os_Abs = Inr, os_Stat = (\<lambda>p w. Inr dir_info), os_Lstat = (\<lambda>p w. Inl NotExist), os_Remove = (\<lambda>p w. (None, w)), os_RemoveAll = (\<lambda>p w. (None, w))\<rparr>"

theorem Prune_refuses_missing_path_witness:
  "\<exists>err. Prune 1 (one_directory two_files) (\<lambda>_. False) only_directory (\<lambda>inc exc req wild. keep_a) (recording_config\<lparr>dp_requiredPaths := [''a'']\<rparr>) ''/r'' no_ops (zero_result, err, no_ops) \<and>
     err \<noteq> None \<and> zero_result = zero_result \<and> no_ops = no_ops"
proof -
  let ?C = "recording_config\<lparr>dp_requiredPaths := [''a'']\<rparr>" and ?f = "\<lambda>(inc :: string list) (exc :: string list) (req :: string list) (wild :: bool). keep_a"
  have "\<exists>err. Prune 1 (one_directory two_files) (\<lambda>_. False) only_directory ?f ?C ''/r'' no_ops (zero_result, Some err, no_ops)"
    by (rule exI, rule Prune.refused)
      (simp add: prune_setup_def only_directory_def dir_info_def buildFilter_def keep_a_def checkRequired_def)
  then obtain err where "Prune 1 (one_directory two_files) (\<lambda>_. False) only_directory ?f ?C ''/r'' no_ops (zero_result, Some err, no_ops)" by blast
  moreover from this have "Some err \<noteq> None \<and> zero_result = zero_result \<and> no_ops = no_ops"
    by (rule Prune_refuses_missing_path [where rel = "''a''" and e = NotExist, rotated 2]) (simp_all add: buildFilter_def keep_a_def only_directory_def)
  ultimately show ?thesis by blast
qed

end
