(* ===== verification/Go_Text.thy ===== *)
theory Go_Text
  imports Go_Strings
begin

text \<open>
  Further functions of Go's package \<open>strings\<close> that the watcher, the executor and the source
  components use on text: \<open>Cut\<close> and \<open>SplitN\<close> with a separator of several bytes, \<open>Contains\<close>,
  \<open>Fields\<close>, \<open>TrimRight\<close> and \<open>ToLower\<close>; with the facts behind the round trips of the parsers
  (splitting what was joined, trimming and splitting text without white space).
\<close>

section \<open>Definitions\<close>

text \<open>\<open>strings.Cut\<close>: the parts around the first occurrence of a separator.\<close>

fun cut_at :: "string \<Rightarrow> string \<Rightarrow> (string \<times> string) option" where
  "cut_at sep [] = (if sep = [] then Some ([], []) else None)"
| "cut_at sep (c # s) =
     (if HasPrefix (c # s) sep then Some ([], drop (length sep) (c # s))
      else map_option (\<lambda>(a, b). (c # a, b)) (cut_at sep s))"

text \<open>\<open>strings.SplitN(s, sep, n)\<close> for a positive \<open>n\<close> and a separator that is not empty.\<close>

fun SplitN :: "nat \<Rightarrow> string \<Rightarrow> string \<Rightarrow> string list" where
  "SplitN (Suc n) sep s =
     (if n = 0 then [s]
      else case cut_at sep s of None \<Rightarrow> [s] | Some (a, b) \<Rightarrow> a # SplitN n sep b)"
| "SplitN 0 sep s = []"

definition Contains :: "string \<Rightarrow> string \<Rightarrow> bool" where
  "Contains s sub \<longleftrightarrow> cut_at sub s \<noteq> None"

text \<open>\<open>strings.TrimRight(s, cutset)\<close> and \<open>strings.TrimLeft\<close> for a set of bytes.\<close>

definition TrimRight :: "string \<Rightarrow> char set \<Rightarrow> string" where
  "TrimRight s cs = rev (dropWhile (\<lambda>c. c \<in> cs) (rev s))"

definition TrimLeft :: "string \<Rightarrow> char set \<Rightarrow> string" where
  "TrimLeft s cs = dropWhile (\<lambda>c. c \<in> cs) s"

text \<open>
  \<open>strings.Fields\<close>: the runs of characters between white space; \<open>fields_from acc s\<close> reads \<open>s\<close>
  with the characters \<open>acc\<close> of an unfinished field (latest first).
\<close>

definition emit_field :: "string \<Rightarrow> string list" where
  "emit_field acc = (if acc = [] then [] else [rev acc])"

function fields_from :: "string \<Rightarrow> string \<Rightarrow> string list" where
  "fields_from acc s =
     (case s of
        [] \<Rightarrow> emit_field acc
      | c # s' \<Rightarrow>
          (case find (\<lambda>w. w \<noteq> [] \<and> HasPrefix s w) space_encodings of
             None \<Rightarrow> fields_from (c # acc) s'
           | Some w \<Rightarrow> emit_field acc @ fields_from [] (drop (length w) s)))"
  by auto

termination
proof (relation "measure (\<lambda>(acc, s). length s)")
  fix acc s w and c :: char and s' :: string
  assume "s = c # s'" "find (\<lambda>w. w \<noteq> [] \<and> HasPrefix s w) space_encodings = Some w"
  then have "w \<noteq> []" "HasPrefix s w" by (auto simp: find_Some_iff)
  then show "(([], drop (length w) s), (acc, s)) \<in> measure (\<lambda>(acc, s). length s)"
    by (auto simp: HasPrefix_iff)
qed auto

declare fields_from.simps [simp del]

definition Fields :: "string \<Rightarrow> string list" where
  "Fields s = fields_from [] s"

text \<open>
  \<open>strings.ToLower\<close>: byte by byte on ASCII text; on other text it maps every rune through
  Unicode's tables, which are the parameter \<open>unicode_lower\<close>.
\<close>

definition ascii_lower :: "char \<Rightarrow> char" where
  "ascii_lower c =
     (let n = (of_char c :: nat) in if 65 \<le> n \<and> n \<le> 90 then char_of (n + 32) else c)"

definition is_ascii :: "string \<Rightarrow> bool" where
  "is_ascii s \<longleftrightarrow> (\<forall>c \<in> set s. (of_char c :: nat) < 128)"

definition ToLower :: "(string \<Rightarrow> string) \<Rightarrow> string \<Rightarrow> string" where
  "ToLower unicode_lower s = (if is_ascii s then map ascii_lower s else unicode_lower s)"

section \<open>Facts\<close>

subsection \<open>Cutting and splitting\<close>

lemma cut_at_SomeD: "cut_at sep s = Some (a, b) \<Longrightarrow> s = a @ sep @ b"
  by (induction s arbitrary: a) (auto split: if_splits simp: HasPrefix_iff)

lemma cut_at_None_iff: "cut_at sep s = None \<longleftrightarrow> (\<forall>a b. s \<noteq> a @ sep @ b)"
proof (induction s)
  case (Cons c s)
  have "(\<forall>a b. c # s \<noteq> a @ sep @ b) \<longleftrightarrow> \<not> HasPrefix (c # s) sep \<and> (\<forall>a b. s \<noteq> a @ sep @ b)"
    unfolding HasPrefix_iff by (metis append_Cons append_Nil list.sel(3) neq_Nil_conv)
  then show ?case using Cons.IH by simp
qed simp

lemma Contains_iff: "Contains s sub \<longleftrightarrow> (\<exists>a b. s = a @ sub @ b)"
  unfolding Contains_def using cut_at_None_iff by auto

lemma cut_at_skip: "c \<noteq> hd sep \<Longrightarrow> sep \<noteq> [] \<Longrightarrow> cut_at sep (c # s) = map_option (\<lambda>(a, b). (c # a, b)) (cut_at sep s)"
  by (cases sep) (auto simp: HasPrefix_iff)

lemma cut_at_skip_all:
  "hd sep \<notin> set us \<Longrightarrow> sep \<noteq> [] \<Longrightarrow> cut_at sep (us @ s) = map_option (\<lambda>(a, b). (us @ a, b)) (cut_at sep s)"
proof (induction us)
  case Nil
  then show ?case by (cases "cut_at sep s") auto
next
  case (Cons u us)
  then have "u \<noteq> hd sep" "hd sep \<notin> set us" by auto
  then show ?case
    using cut_at_skip [of u sep "us @ s"] Cons by (cases "cut_at sep s") (auto simp del: cut_at.simps)
qed

lemma cut_at_here [simp]: "sep \<noteq> [] \<Longrightarrow> cut_at sep (sep @ s) = Some ([], s)"
  by (cases sep) (auto simp: HasPrefix_iff)

lemma cut_at_char: "c \<notin> set us \<Longrightarrow> cut_at [c] (us @ c # s) = Some (us, s)"
  using cut_at_skip_all [of "[c]" us "c # s"] cut_at_here [of "[c]" s] by (simp del: cut_at.simps cut_at_here)

lemma cut_at_char_None [simp]: "cut_at [c] s = None \<longleftrightarrow> c \<notin> set s"
  unfolding cut_at_None_iff by (auto simp: in_set_conv_decomp)

lemma SplitN_2: "SplitN 2 sep s = (case cut_at sep s of None \<Rightarrow> [s] | Some (a, b) \<Rightarrow> [a, b])"
  by (simp add: numeral_2_eq_2 split: option.splits)

lemma SplitN_not_Nil: "n \<noteq> 0 \<Longrightarrow> SplitN n sep s \<noteq> []"
  by (cases n) (auto split: option.splits)

lemma length_SplitN: "length (SplitN n sep s) \<le> n"
proof (induction n arbitrary: s)
  case (Suc n)
  then show ?case by (auto split: option.splits)
qed simp

lemma join_SplitN: "n \<noteq> 0 \<Longrightarrow> join_with sep (SplitN n sep s) = s"
proof (induction n arbitrary: s)
  case (Suc n)
  show ?case
  proof (cases "n = 0 \<or> cut_at sep s = None")
    case False
    then obtain a b where ab: "cut_at sep s = Some (a, b)" by auto
    with False Suc.IH [of b] have "join_with sep (SplitN (Suc n) sep s) = a @ sep @ b"
      using SplitN_not_Nil [of n sep b] by (simp add: join_with_Cons)
    then show ?thesis using cut_at_SomeD [OF ab] by simp
  qed auto
qed simp

subsection \<open>Text without white space\<close>

text \<open>Printable ASCII characters other than the blank; no white space encoding begins or ends with one.\<close>

definition graph_char :: "char \<Rightarrow> bool" where
  "graph_char c \<longleftrightarrow> 33 \<le> (of_char c :: nat) \<and> (of_char c :: nat) \<le> 126"

abbreviation graph :: "string \<Rightarrow> bool" where
  "graph s \<equiv> \<forall>c \<in> set s. graph_char c"

lemma space_encodings_graph: "w \<in> set space_encodings \<Longrightarrow> w \<noteq> [] \<and> \<not> graph_char (hd w) \<and> \<not> graph_char (last w)"
  by (simp add: space_encodings_def chars_def graph_char_def) (elim disjE, simp_all)

lemma no_space_prefix: "graph_char c \<Longrightarrow> find (\<lambda>w. w \<noteq> [] \<and> HasPrefix (c # s) w) space_encodings = None"
  using space_encodings_graph by (fastforce simp: find_None_iff HasPrefix_iff Cons_eq_append_conv)

lemma no_space_suffix: "graph_char c \<Longrightarrow> find (\<lambda>w. w \<noteq> [] \<and> HasPrefix (c # s) w) (map rev space_encodings) = None"
proof -
  assume c: "graph_char c"
  have "\<not> HasPrefix (c # s) (rev w)" if "w \<in> set space_encodings" for w
    using space_encodings_graph [OF that] c by (cases w rule: rev_cases) (auto simp: HasPrefix_iff)
  then show ?thesis by (auto simp: find_None_iff)
qed

lemma trim_left_graph: "s \<noteq> [] \<Longrightarrow> graph_char (hd s) \<Longrightarrow> trim_left space_encodings s = s"
  by (cases s) (simp_all add: trim_left.simps no_space_prefix)

lemma trim_right_graph: "s \<noteq> [] \<Longrightarrow> graph_char (hd s) \<Longrightarrow> trim_left (map rev space_encodings) s = s"
  by (cases s) (simp_all add: trim_left.simps no_space_suffix)

lemma TrimSpace_Nil [simp]: "TrimSpace [] = []"
  using TrimSpace_subset [of "[]"] by simp

lemma TrimSpace_graph: "graph s \<Longrightarrow> TrimSpace s = s"
proof (cases "s = []")
  case False
  assume g: "graph s"
  then have "graph_char (hd s)" "graph_char (hd (rev s))" using False by (simp_all add: hd_rev)
  then show ?thesis using False by (simp add: TrimSpace_def trim_left_graph trim_right_graph)
qed simp

lemma fields_from_Nil [simp]: "fields_from acc [] = emit_field acc"
  by (simp add: fields_from.simps)

lemma fields_from_graph: "graph us \<Longrightarrow> fields_from acc (us @ s) = fields_from (rev us @ acc) s"
proof (induction us arbitrary: acc)
  case (Cons u us)
  have "fields_from acc (u # us @ s) = fields_from (u # acc) (us @ s)"
    using Cons.prems by (subst fields_from.simps) (simp add: no_space_prefix)
  then show ?case using Cons by simp
qed simp

lemma space_encodings_blank: "w \<in> set space_encodings \<Longrightarrow> (of_char (hd w) :: nat) = 32 \<Longrightarrow> w = chars [32]"
  by (simp add: space_encodings_def chars_def) (elim disjE, simp_all)

lemma blank_is_space: "chars [32] \<in> set space_encodings"
  by (simp add: space_encodings_def)

lemma fields_from_blank: "fields_from acc (CHR '' '' # s) = emit_field acc @ fields_from [] s"
proof -
  let ?P = "\<lambda>w. w \<noteq> [] \<and> HasPrefix (CHR '' '' # s) w"
  have b: "chars [32] = '' ''" by code_simp
  have "?P (chars [32])" by (simp add: b HasPrefix_def)
  then obtain w where w: "find ?P space_encodings = Some w"
    using blank_is_space by (cases "find ?P space_encodings") (auto simp: find_None_iff)
  then have "w \<in> set space_encodings" "?P w" by (auto simp: find_Some_iff)
  moreover from this have "hd w = CHR '' ''" by (auto simp: HasPrefix_iff Cons_eq_append_conv)
  ultimately have "w = chars [32]" using space_encodings_blank [of w] by simp
  then show ?thesis using w b by (subst fields_from.simps) simp
qed

lemma Fields_join:
  assumes "\<forall>f \<in> set fs. f \<noteq> [] \<and> graph f"
  shows "Fields (join_with '' '' fs) = fs"
  using assms
proof (induction fs rule: induct_list012)
  case (2 f)
  then show ?case using fields_from_graph [of f "[]" "[]"] by (simp add: Fields_def emit_field_def)
next
  case (3 f g fs)
  then have "Fields (join_with '' '' (f # g # fs)) = f # Fields (join_with '' '' (g # fs))"
    using fields_from_graph [of f "[]" "CHR '' '' # join_with '' '' (g # fs)"]
    by (simp add: Fields_def emit_field_def fields_from_blank)
  then show ?case using 3 by simp
qed (simp add: Fields_def emit_field_def)

text \<open>The separator of two groups of blank-separated fields is found where it was written.\<close>

lemma cut_at_fields:
  assumes "fs \<noteq> []" "\<forall>f \<in> set fs. f \<noteq> [] \<and> graph f \<and> f \<noteq> ''-''"
  shows "cut_at '' - '' (join_with '' '' fs @ '' - '' @ s) = Some (join_with '' '' fs, s)"
  using assms
proof (induction fs rule: induct_list012)
  case (2 f)
  then have "CHR '' '' \<notin> set f" by (auto simp: graph_char_def)
  then show ?case using cut_at_skip_all [of "'' - ''" f "'' - '' @ s"] by (simp del: cut_at.simps append_Cons)
next
  case (3 f g fs)
  let ?r = "join_with '' '' (g # fs) @ '' - '' @ s"
  have f: "CHR '' '' \<notin> set f" using 3 by (auto simp: graph_char_def)
  have g: "g \<noteq> []" "CHR '' '' \<notin> set g" "g \<noteq> ''-''" using 3 by (auto simp: graph_char_def)
  have "\<exists>t. ?r = g @ t" by (cases fs) auto
  then obtain t where r: "?r = g @ t" ..
  have np: "\<not> HasPrefix (CHR '' '' # ?r) '' - ''"
    unfolding r using g by (cases g rule: remdups_adj.cases) (auto simp: HasPrefix_def)
  have "cut_at '' - '' (CHR '' '' # ?r) = map_option (\<lambda>(a, b). (CHR '' '' # a, b)) (cut_at '' - '' ?r)"
    using np by simp
  also have "cut_at '' - '' ?r = Some (join_with '' '' (g # fs), s)" using 3 by simp
  finally have "cut_at '' - '' (CHR '' '' # ?r) = Some (CHR '' '' # join_with '' '' (g # fs), s)" by simp
  then show ?case
    using cut_at_skip_all [of "'' - ''" f "CHR '' '' # ?r"] f by simp
qed simp

end
