(* ===== verification/Fw_Overlay.thy ===== *)
theory Fw_Overlay
  imports Go_Text Ds_Core
begin

text \<open>
  The overlay mount description of \<open>pkg/fswatch\<close>: \<open>errors.go\<close>, \<open>overlay.go\<close>,
  \<open>overlay_linux.go\<close>, the portable mountinfo parser \<open>overlay_parser.go\<close> and the containerd
  conversions of \<open>snapshot/overlay.go\<close>. A mount is its merged directory, the writable directory
  and the stack of read-only ones; \<open>Layers\<close> is that stack as numbered records. The list of
  mounts the kernel reports (package \<open>mountinfo\<close>), a snapshotter's \<open>Mounts\<close> and \<open>Stat\<close>, and
  whether a path exists are parameters.
\<close>

section \<open>Errors (errors.go)\<close>

datatype fw_error =
    ErrMountNotFound
  | ErrWatcherClosed
  | ErrNotSupported
  | ErrPermission
  | ErrQueueOverflow
  | ErrPathEscapes
  | FwMsg "string list"
  | FwWrap "string list" fw_error
  | FwJoin "fw_error list"

text \<open>\<open>errors.Is\<close>: the chain of \<open>%w\<close> wrappings is followed, and every branch of a join.\<close>

fun fw_Is :: "fw_error \<Rightarrow> fw_error \<Rightarrow> bool" where
  "fw_Is (FwWrap msg e) target \<longleftrightarrow> FwWrap msg e = target \<or> fw_Is e target"
| "fw_Is (FwJoin es) target \<longleftrightarrow> FwJoin es = target \<or> (\<exists>e \<in> set es. fw_Is e target)"
| "fw_Is e target \<longleftrightarrow> e = target"

definition fw_Join :: "fw_error list \<Rightarrow> fw_error option" where
  "fw_Join es = (if es = [] then None else Some (FwJoin es))"

section \<open>The mount and its layers (overlay.go)\<close>

record snapshot_layer =
  sl_Index :: nat
  sl_Path :: string
  sl_IsUpper :: bool
  sl_ChainID :: string

record overlay_info =
  oi_MergedDir :: string
  oi_UpperDir :: string
  oi_WorkDir :: string
  oi_LowerDirs :: "string list"
  oi_Layers :: "snapshot_layer list"
  oi_ID :: string
  oi_Labels :: "string \<rightharpoonup> string"

definition AllDirs :: "overlay_info \<Rightarrow> string list" where
  "AllDirs o' = (if oi_UpperDir o' \<noteq> '''' then [oi_UpperDir o'] else []) @ oi_LowerDirs o'"

definition ContainsPath :: "overlay_info \<Rightarrow> string \<Rightarrow> bool" where
  "ContainsPath o' absPath \<longleftrightarrow>
     (case Rel (oi_MergedDir o') absPath of None \<Rightarrow> False | Some rel \<Rightarrow> \<not> HasPrefix rel ''..'')"

text \<open>\<open>exists p\<close> stands for \<open>os.Lstat(p)\<close> without an error.\<close>

definition ResolveLayer :: "(string \<Rightarrow> bool) \<Rightarrow> overlay_info \<Rightarrow> string \<Rightarrow> snapshot_layer option" where
  "ResolveLayer exists o' relPath =
     find (\<lambda>layer. exists (filepath_Join [sl_Path layer, relPath])) (oi_Layers o')"

definition RelPath :: "overlay_info \<Rightarrow> string \<Rightarrow> fw_error + string" where
  "RelPath o' absPath =
     (case Rel (oi_MergedDir o') absPath of
        None \<Rightarrow> Inl (FwMsg [''overlay: path not under merged dir'', absPath, oi_MergedDir o'])
      | Some rel \<Rightarrow>
          (if HasPrefix rel ''..'' then Inl (FwMsg [''overlay: path escapes merged dir'', absPath, oi_MergedDir o'])
           else Inr rel))"

definition cleanPath :: "string \<Rightarrow> string" where
  "cleanPath p = (if p = '''' then '''' else let c = Clean p in if c \<noteq> ''.'' then c else '''')"

definition number_layers :: "bool \<Rightarrow> nat \<Rightarrow> string list \<Rightarrow> snapshot_layer list" where
  "number_layers upper i ds =
     map (\<lambda>(j, d). \<lparr>sl_Index = i + j, sl_Path = d, sl_IsUpper = upper, sl_ChainID = ''''\<rparr>) (enumerate 0 ds)"

definition buildLayers :: "overlay_info \<Rightarrow> overlay_info" where
  "buildLayers o' =
     (let upper = (if oi_UpperDir o' \<noteq> '''' then number_layers True 0 [oi_UpperDir o'] else []);
          idx = (if oi_UpperDir o' \<noteq> '''' then 1 else 0)
      in o'\<lparr>oi_Layers := oi_Layers o' @ upper @ number_layers False idx (oi_LowerDirs o')\<rparr>)"

definition NewOverlayInfo :: "string \<Rightarrow> string \<Rightarrow> string \<Rightarrow> string list \<Rightarrow> overlay_info" where
  "NewOverlayInfo mergedDir upperDir workDir lowerDirs =
     buildLayers \<lparr>oi_MergedDir = Clean mergedDir, oi_UpperDir = cleanPath upperDir, oi_WorkDir = cleanPath workDir,
       oi_LowerDirs = map Clean lowerDirs, oi_Layers = [], oi_ID = '''', oi_Labels = Map.empty\<rparr>"

section \<open>Mount options (overlay.go)\<close>

definition kv_field :: "string \<Rightarrow> (string \<rightharpoonup> string) \<Rightarrow> (string \<rightharpoonup> string)" where
  "kv_field field m =
     (case SplitN 2 ''='' field of
        [k, v] \<Rightarrow> m(TrimSpace k \<mapsto> TrimSpace v)
      | [k] \<Rightarrow> (let key = TrimSpace k in if key \<noteq> '''' then m(key \<mapsto> '''') else m)
      | _ \<Rightarrow> m)"

definition parseKVOptions :: "string \<Rightarrow> (string \<rightharpoonup> string)" where
  "parseKVOptions opts = fold kv_field (split_on CHR '','' opts) Map.empty"

text \<open>Reading a missing key of a Go map gives the empty string.\<close>

definition opt_str :: "(string \<rightharpoonup> string) \<Rightarrow> string \<Rightarrow> string" where
  "opt_str m k = (case m k of None \<Rightarrow> '''' | Some v \<Rightarrow> v)"

definition overlayInfoFromVFSOptions :: "string \<Rightarrow> string \<Rightarrow> fw_error + overlay_info" where
  "overlayInfoFromVFSOptions vfsOptions mergedDir =
     (let opts = parseKVOptions vfsOptions; lower = opt_str opts ''lowerdir'' in
      if lower = '''' then Inl (FwMsg [''overlay: mount has no lowerdir'', mergedDir, vfsOptions])
      else Inr (NewOverlayInfo mergedDir (opt_str opts ''upperdir'') (opt_str opts ''workdir'')
             (map Clean (split_on CHR '':'' lower))))"

section \<open>Mounts known to the kernel (overlay_linux.go)\<close>

record mount_entry =
  mi_Mountpoint :: string
  mi_VFSOptions :: string

definition pick_mount :: "string \<Rightarrow> mount_entry list \<Rightarrow> mount_entry option" where
  "pick_mount mergedDir mounts = find (\<lambda>m. Clean (mi_Mountpoint m) = mergedDir) mounts"

definition OverlayInfoFromMount :: "fw_error + mount_entry list \<Rightarrow> string \<Rightarrow> fw_error + overlay_info" where
  "OverlayInfoFromMount getMounts dir =
     (let mergedDir = Clean dir in
      case getMounts of
        Inl err \<Rightarrow> Inl (FwWrap [''overlay: get mounts''] err)
      | Inr mounts \<Rightarrow>
          (case pick_mount mergedDir mounts of
             Some m \<Rightarrow> overlayInfoFromVFSOptions (mi_VFSOptions m) mergedDir
           | None \<Rightarrow> Inl (FwWrap [''overlay'', mergedDir] ErrMountNotFound)))"

text \<open>The file variant: \<open>openErr\<close> is the error of opening the mountinfo file, if any.\<close>

definition overlayInfoFromMountFile :: "fw_error option \<Rightarrow> fw_error + mount_entry list \<Rightarrow> string \<Rightarrow> string \<Rightarrow> fw_error + overlay_info" where
  "overlayInfoFromMountFile openErr fileMounts mountinfoPath dir =
     (let mergedDir = Clean dir in
      case openErr of
        Some err \<Rightarrow> Inl (FwWrap [''overlay: open'', mountinfoPath] err)
      | None \<Rightarrow>
          (case fileMounts of
             Inl err \<Rightarrow> Inl (FwWrap [''overlay: parse'', mountinfoPath] err)
           | Inr mounts \<Rightarrow>
               (case pick_mount mergedDir mounts of
                  Some m \<Rightarrow> overlayInfoFromVFSOptions (mi_VFSOptions m) mergedDir
                | None \<Rightarrow> Inl (FwWrap [''overlay'', mergedDir] ErrMountNotFound))))"

section \<open>The mountinfo parser (overlay\_parser.go)\<close>








section \<open>Layers\<close>

lemma length_number_layers [simp]: "length (number_layers u i ds) = length ds"
  by (simp add: number_layers_def)

lemma number_layers_nth:
  "j < length ds \<Longrightarrow> number_layers u i ds ! j = \<lparr>sl_Index = i + j, sl_Path = ds ! j, sl_IsUpper = u, sl_ChainID = ''''\<rparr>"
  by (simp add: number_layers_def nth_enumerate_eq)

lemma number_layers_Path [simp]: "map sl_Path (number_layers u i ds) = ds"
  by (rule nth_equalityI) (simp_all add: number_layers_nth)

lemma NewOverlayInfo_sel [simp]:
  "oi_MergedDir (NewOverlayInfo m u w ls) = Clean m"
  "oi_UpperDir (NewOverlayInfo m u w ls) = cleanPath u"
  "oi_WorkDir (NewOverlayInfo m u w ls) = cleanPath w"
  "oi_LowerDirs (NewOverlayInfo m u w ls) = map Clean ls"
  by (simp_all add: NewOverlayInfo_def buildLayers_def Let_def)

text \<open>The layer stack an overlay mount promises: consistently numbered, the upper one first.\<close>

definition layers_ok :: "overlay_info \<Rightarrow> bool" where
  "layers_ok o' \<longleftrightarrow>
     map sl_Path (oi_Layers o') = AllDirs o' \<and>
     (\<forall>i < length (oi_Layers o'). sl_Index (oi_Layers o' ! i) = i \<and>
        sl_IsUpper (oi_Layers o' ! i) = (i = 0 \<and> oi_UpperDir o' \<noteq> ''''))"

lemma NewOverlayInfo_layers_ok: "layers_ok (NewOverlayInfo m u w ls)"
proof -
  have "oi_Layers (NewOverlayInfo m u w ls) =
      (if cleanPath u \<noteq> '''' then number_layers True 0 [cleanPath u] @ number_layers False 1 (map Clean ls)
       else number_layers False 0 (map Clean ls))"
    by (simp add: NewOverlayInfo_def buildLayers_def Let_def)
  then show ?thesis
    by (auto simp: layers_ok_def AllDirs_def number_layers_nth nth_append)
qed

text \<open>The layer found for a path is the topmost one that holds it.\<close>

lemma ResolveLayer_topmost:
  "ResolveLayer exists o' p = Some layer \<longleftrightarrow>
     (\<exists>above below. oi_Layers o' = above @ layer # below \<and> exists (filepath_Join [sl_Path layer, p]) \<and>
        (\<forall>l \<in> set above. \<not> exists (filepath_Join [sl_Path l, p])))"
  by (simp add: ResolveLayer_def find_Some_iff_split)

lemma ResolveLayer_None: "ResolveLayer exists o' p = None \<longleftrightarrow> (\<forall>l \<in> set (oi_Layers o'). \<not> exists (filepath_Join [sl_Path l, p]))"
  by (auto simp: ResolveLayer_def find_None_iff)

section \<open>Paths below the merged directory\<close>

lemma drop_common_cases:
  "drop_common bs ts = (bs', ts') \<Longrightarrow>
     \<exists>cs. bs = cs @ bs' \<and> ts = cs @ ts' \<and> (bs' = [] \<or> ts' = [] \<or> hd bs' \<noteq> hd ts')"
proof (induction bs ts rule: drop_common.induct)
  case (1 b bs t ts)
  show ?case
  proof (cases "b = t")
    case True
    then obtain cs where "bs = cs @ bs'" "ts = cs @ ts'" "bs' = [] \<or> ts' = [] \<or> hd bs' \<noteq> hd ts'"
      using 1 by auto
    then show ?thesis using True by (intro exI [of _ "b # cs"]) simp
  qed (use 1 in auto)
qed auto

lemma join_dots_prefix: "bs \<noteq> [] \<Longrightarrow> HasPrefix (join_with sep (map (\<lambda>_. ''..'') bs @ ts)) ''..''"
proof (cases bs)
  case (Cons b bs')
  then show ?thesis by (cases "bs' = [] \<and> ts = []") (auto simp: HasPrefix_iff join_with_Cons)
qed simp

text \<open>A path that is not below the base starts with \<open>..\<close> when it is written relative to it.\<close>

lemma Rel_abs_outside:
  assumes p: "\<forall>n \<in> set (ms @ ns). plain_name n" and out: "\<not> (\<exists>rs. ns = ms @ rs)"
  shows "\<exists>r. Rel (abs_path ms) (abs_path ns) = Some r \<and> HasPrefix r ''..''"
proof -
  have c: "Clean (abs_path ms) = abs_path ms" "Clean (abs_path ns) = abs_path ns"
    "path_elems (abs_path ms) = ms" "path_elems (abs_path ns) = ns"
    using p by (simp_all add: Clean_abs_path path_elems_abs_path)
  have r: "is_rooted (abs_path xs)" for xs :: "string list" by (simp add: is_rooted_def abs_path_def)
  have "ms \<noteq> ns" using out by auto
  then have ne: "abs_path ns \<noteq> abs_path ms" using abs_path_inj [of ns ms] p by auto
  obtain bs ts where d: "drop_common ms ns = (bs, ts)" by (cases "drop_common ms ns")
  from drop_common_cases [OF d] obtain cs where cs: "ms = cs @ bs" "ns = cs @ ts" by blast
  have b: "bs \<noteq> []" using out cs by auto
  then have "hd bs \<in> set ms" using cs by simp
  then have "hd bs \<noteq> ''..''" using p by (auto simp: plain_name_def)
  then have "Rel (abs_path ms) (abs_path ns) = Some (join_with ''/'' (map (\<lambda>_. ''..'') bs @ ts))"
    using ne by (simp add: Rel_def c r d)
  then show ?thesis using join_dots_prefix [OF b] by blast
qed

lemma rel_path_dots: "rs \<noteq> [] \<Longrightarrow> \<forall>n \<in> set rs. plain_name n \<Longrightarrow> HasPrefix (rel_path rs) ''..'' \<longleftrightarrow> HasPrefix (hd rs) ''..''"
proof (cases rs)
  case (Cons n ns)
  assume p: "\<forall>n \<in> set rs. plain_name n"
  show ?thesis
  proof (cases ns)
    case Nil
    then show ?thesis using Cons by (simp add: rel_path_def)
  next
    case (Cons n' ns')
    have "rel_path rs = n @ ''/'' @ rel_path ns" using \<open>rs = n # ns\<close> Cons by (simp add: rel_path_def)
    moreover have "n \<noteq> ''..'' \<and> n \<noteq> ''.'' \<and> n \<noteq> ''''" using p \<open>rs = n # ns\<close> by (simp add: plain_name_def)
    ultimately show ?thesis using \<open>rs = n # ns\<close>
      by (cases n rule: remdups_adj.cases) (auto simp: HasPrefix_def)
  qed
qed simp

lemma RelPath_iff:
  assumes p: "\<forall>n \<in> set (ms @ ns). plain_name n" and m: "oi_MergedDir o' = abs_path ms"
  shows "RelPath o' (abs_path ns) = Inr r \<longleftrightarrow>
     (\<exists>rs. ns = ms @ rs \<and> r = (if rs = [] then ''.'' else rel_path rs) \<and> (rs = [] \<or> \<not> HasPrefix (hd rs) ''..''))"
proof (cases "\<exists>rs. ns = ms @ rs")
  case True
  then obtain rs where rs: "ns = ms @ rs" by blast
  have rel: "Rel (abs_path ms) (abs_path ns) = Some (if rs = [] then ''.'' else rel_path rs)"
    unfolding rs by (rule Rel_abs_path) (use p rs in auto)
  have "HasPrefix (if rs = [] then ''.'' else rel_path rs) ''..'' \<longleftrightarrow> rs \<noteq> [] \<and> HasPrefix (hd rs) ''..''"
    using rel_path_dots [of rs] p rs by (auto simp: HasPrefix_def)
  then show ?thesis using rs rel by (auto simp: RelPath_def m)
next
  case False
  from Rel_abs_outside [OF p False] show ?thesis using False by (auto simp: RelPath_def m)
qed

lemma ContainsPath_iff_RelPath: "ContainsPath o' p \<longleftrightarrow> (\<exists>r. RelPath o' p = Inr r)"
  by (auto simp: ContainsPath_def RelPath_def split: option.split)

section \<open>Round trips of the mountinfo text\<close>

























section \<open>Properties\<close>



text \<open>
  The overlay claims a path exactly when it is its merged directory or lies below it, and gives
  the path relative to it; an element that follows the merged directory and begins with two dots
  is taken for an escape.
\<close>

theorem RelPath_below_merged:
  assumes "\<forall>n \<in> set (ms @ ns). plain_name n"
  shows "RelPath (NewOverlayInfo (abs_path ms) u w ls) (abs_path ns) = Inr r \<longleftrightarrow>
     (\<exists>rs. ns = ms @ rs \<and> r = (if rs = [] then ''.'' else rel_path rs) \<and> (rs = [] \<or> \<not> HasPrefix (hd rs) ''..''))"
  by (rule RelPath_iff [OF assms]) (use assms in \<open>simp add: Clean_abs_path\<close>)

theorem RelPath_below_merged_witness:
  "RelPath (NewOverlayInfo (abs_path [''m'']) ''/u'' ''/w'' [''/l'']) (abs_path [''m'', ''..data'']) = Inr ''..data'' \<longleftrightarrow>
     (\<exists>rs. [''m'', ''..data''] = [''m''] @ rs \<and> ''..data'' = (if rs = [] then ''.'' else rel_path rs) \<and>
        (rs = [] \<or> \<not> HasPrefix (hd rs) ''..''))"
  by (rule RelPath_below_merged) (simp add: plain_name_def)

end
