(* ===== verification/Fw_Event.thy ===== *)
theory Fw_Event
  imports Fw_Overlay
begin

text \<open>
  The watcher's events and filters: \<open>pkg/fswatch/event.go\<close>, \<open>filter.go\<close> and the snapshot-aware
  filters of \<open>snapshot/enricher.go\<close>. An event mask is a 64-bit word. The value of a Go \<open>any\<close> is
  an option, \<open>None\<close> for the nil interface; a nil attribute map is \<open>None\<close>. Points in time are
  nanoseconds. Filters do not mutate the event, so they are predicates of the context's error and
  the event; the event value stands for the pointer the stages share.
\<close>

section \<open>Masks (event.go)\<close>

type_synonym event_mask = uint64

definition OpAccess :: event_mask where "OpAccess = 0x00000001"
definition OpOpen :: event_mask where "OpOpen = 0x00000020"
definition OpOpenExec :: event_mask where "OpOpenExec = 0x00001000"
definition OpCloseNoWrite :: event_mask where "OpCloseNoWrite = 0x00000010"
definition OpModify :: event_mask where "OpModify = 0x00000002"
definition OpCloseWrite :: event_mask where "OpCloseWrite = 0x00000008"
definition OpCreate :: event_mask where "OpCreate = 0x00000100"
definition OpDelete :: event_mask where "OpDelete = 0x00000200"
definition OpDeleteSelf :: event_mask where "OpDeleteSelf = 0x00000400"
definition OpMovedFrom :: event_mask where "OpMovedFrom = 0x00000040"
definition OpMovedTo :: event_mask where "OpMovedTo = 0x00000080"
definition OpMoveSelf :: event_mask where "OpMoveSelf = 0x00000800"
definition OpAttrib :: event_mask where "OpAttrib = 0x00000004"
definition OpOnDir :: event_mask where "OpOnDir = 0x40000000"
definition OpEventOnChild :: event_mask where "OpEventOnChild = 0x08000000"
definition OpOverflow :: event_mask where "OpOverflow = 0x00004000"

lemmas op_defs = OpAccess_def OpOpen_def OpOpenExec_def OpCloseNoWrite_def OpModify_def OpCloseWrite_def
  OpCreate_def OpDelete_def OpDeleteSelf_def OpMovedFrom_def OpMovedTo_def OpMoveSelf_def OpAttrib_def
  OpOnDir_def OpEventOnChild_def OpOverflow_def

definition MaskReadOnly :: event_mask where
  "MaskReadOnly = OpAccess OR OpOpen OR OpOpenExec OR OpCloseNoWrite"

definition MaskAll :: event_mask where
  "MaskAll = OpAccess OR OpOpen OR OpOpenExec OR OpCloseNoWrite OR OpModify OR OpCloseWrite OR OpCreate OR
     OpDelete OR OpDeleteSelf OR OpMovedFrom OR OpMovedTo OR OpMoveSelf OR OpAttrib"

definition opModificationBits :: event_mask where
  "opModificationBits = OpModify OR OpCloseWrite OR OpCreate OR OpDelete OR OpDeleteSelf OR OpMovedFrom OR
     OpMovedTo OR OpMoveSelf OR OpAttrib"

definition mask_Has :: "event_mask \<Rightarrow> event_mask \<Rightarrow> bool" where
  "mask_Has m op \<longleftrightarrow> m AND op \<noteq> 0"

definition mask_IsReadOnly :: "event_mask \<Rightarrow> bool" where
  "mask_IsReadOnly m \<longleftrightarrow> m AND opModificationBits = 0"

definition op_table :: "(event_mask \<times> string) list" where
  "op_table = [(OpAccess, ''ACCESS''), (OpOpen, ''OPEN''), (OpOpenExec, ''OPEN_EXEC''), (OpCloseNoWrite, ''CLOSE_NOWRITE''),
     (OpModify, ''MODIFY''), (OpCloseWrite, ''CLOSE_WRITE''), (OpCreate, ''CREATE''), (OpDelete, ''DELETE''),
     (OpDeleteSelf, ''DELETE_SELF''), (OpMovedFrom, ''MOVED_FROM''), (OpMovedTo, ''MOVED_TO''), (OpMoveSelf, ''MOVE_SELF''),
     (OpAttrib, ''ATTRIB''), (OpOverflow, ''OVERFLOW'')]"

definition opNames :: "event_mask \<Rightarrow> string list" where
  "opNames m = map snd (filter (\<lambda>t. mask_Has m (fst t)) op_table)"

definition mask_String :: "event_mask \<Rightarrow> string" where
  "mask_String m = (let names = opNames m in if names = [] then ''none'' else join_with ''|'' names)"

section \<open>Events (event.go)\<close>

record raw_event =
  re_Mask :: event_mask
  re_PID :: "32 word"
  re_Path :: string
  re_Timestamp :: int
  re_WatcherID :: string

definition IsOverflow :: "('a raw_event_scheme) \<Rightarrow> bool" where
  "IsOverflow r = mask_Has (re_Mask r) OpOverflow"

record fw_event = raw_event +
  ev_Dir :: string
  ev_Name :: string
  ev_FileInfo :: "file_info option"

record process_info =
  pi_PID :: "32 word"
  pi_Comm :: string
  pi_Exe :: string
  pi_Cmdline :: "string list"
  pi_ContainerID :: string

record 'v enriched_event = fw_event +
  ee_Overlay :: "overlay_info option"
  ee_SourceLayer :: "snapshot_layer option"
  ee_Process :: "process_info option"
  ee_Attrs :: "(string \<rightharpoonup> 'v option) option"

text \<open>\<open>Clone\<close> copies the struct and its attribute map; as a value the copy equals the original.\<close>

definition ev_Clone :: "'v enriched_event \<Rightarrow> 'v enriched_event" where
  "ev_Clone e = e\<lparr>ee_Attrs := map_option (\<lambda>m k. m k) (ee_Attrs e)\<rparr>"

definition SetAttr :: "string \<Rightarrow> 'v option \<Rightarrow> 'v enriched_event \<Rightarrow> 'v enriched_event" where
  "SetAttr key val e =
     e\<lparr>ee_Attrs := Some ((case ee_Attrs e of None \<Rightarrow> Map.empty | Some m \<Rightarrow> m)(key \<mapsto> val))\<rparr>"

definition attr_lookup :: "'v enriched_event \<Rightarrow> string \<Rightarrow> 'v option option" where
  "attr_lookup e key = (case ee_Attrs e of None \<Rightarrow> None | Some m \<Rightarrow> m key)"

definition ev_Attr :: "'v enriched_event \<Rightarrow> string \<Rightarrow> 'v option" where
  "ev_Attr e key = (case attr_lookup e key of None \<Rightarrow> None | Some v \<Rightarrow> v)"

definition ev_IsReadOnly :: "'v enriched_event \<Rightarrow> bool" where
  "ev_IsReadOnly e = mask_IsReadOnly (re_Mask e)"

section \<open>Filters (filter.go)\<close>

text \<open>A filter sees the context's error, if it is cancelled, and the event.\<close>

type_synonym 'v fw_filter = "fw_error option \<Rightarrow> 'v enriched_event \<Rightarrow> bool"

fun AllFilters :: "'v fw_filter list \<Rightarrow> 'v fw_filter" where
  "AllFilters [] ctx e = True"
| "AllFilters (f # fs) ctx e = (if \<not> f ctx e then False else AllFilters fs ctx e)"

fun AnyFilter :: "'v fw_filter list \<Rightarrow> 'v fw_filter" where
  "AnyFilter [] ctx e = False"
| "AnyFilter (f # fs) ctx e = (if f ctx e then True else AnyFilter fs ctx e)"

definition NotFilter :: "'v fw_filter \<Rightarrow> 'v fw_filter" where "NotFilter f ctx e \<longleftrightarrow> \<not> f ctx e"

definition ReadOnlyFilter :: "'v fw_filter" where "ReadOnlyFilter ctx e = mask_IsReadOnly (re_Mask e)"

definition MaskFilter :: "event_mask list \<Rightarrow> 'v fw_filter" where
  "MaskFilter ops ctx e \<longleftrightarrow> re_Mask e AND fold (\<lambda>op combined. combined OR op) ops 0 \<noteq> 0"

definition ExactMaskFilter :: "event_mask \<Rightarrow> 'v fw_filter" where "ExactMaskFilter m ctx e \<longleftrightarrow> re_Mask e = m"

definition path_has_prefix :: "string \<Rightarrow> string \<Rightarrow> bool" where
  "path_has_prefix path p \<longleftrightarrow> HasPrefix path (p @ ''/'') \<or> path = p"

definition PathPrefixFilter :: "string list \<Rightarrow> 'v fw_filter" where
  "PathPrefixFilter prefixes ctx e \<longleftrightarrow> list_ex (path_has_prefix (re_Path e)) (map Clean prefixes)"

definition PathExcludeFilter :: "string list \<Rightarrow> 'v fw_filter" where
  "PathExcludeFilter prefixes = NotFilter (PathPrefixFilter prefixes)"

definition ExtensionFilter :: "(string \<Rightarrow> string) \<Rightarrow> string list \<Rightarrow> 'v fw_filter" where
  "ExtensionFilter unicode_lower exts ctx e \<longleftrightarrow>
     list_ex (HasSuffix (ToLower unicode_lower (ev_Name e))) (map (ToLower unicode_lower) exts)"

definition PIDFilter :: "32 word list \<Rightarrow> 'v fw_filter" where "PIDFilter pids ctx e \<longleftrightarrow> re_PID e \<in> set pids"

definition ExcludePIDFilter :: "32 word list \<Rightarrow> 'v fw_filter" where
  "ExcludePIDFilter pids = NotFilter (PIDFilter pids)"

definition NoOverflowFilter :: "'v fw_filter" where "NoOverflowFilter ctx e \<longleftrightarrow> \<not> mask_Has (re_Mask e) OpOverflow"

definition ExternalFilter :: "(string \<Rightarrow> bool) \<Rightarrow> 'v fw_filter" where "ExternalFilter fn ctx e = fn (re_Path e)"

definition ExternalContextFilter :: "(fw_error option \<Rightarrow> string \<Rightarrow> bool) \<Rightarrow> 'v fw_filter" where
  "ExternalContextFilter fn ctx e = fn ctx (re_Path e)"

definition UpperDirOnlyFilter :: "'v fw_filter" where
  "UpperDirOnlyFilter ctx e = (case ee_SourceLayer e of None \<Rightarrow> False | Some layer \<Rightarrow> sl_IsUpper layer)"

definition LowerDirOnlyFilter :: "'v fw_filter" where
  "LowerDirOnlyFilter ctx e = (case ee_SourceLayer e of None \<Rightarrow> False | Some layer \<Rightarrow> \<not> sl_IsUpper layer)"

definition AttrFilter :: "string \<Rightarrow> 'v fw_filter" where "AttrFilter key ctx e \<longleftrightarrow> attr_lookup e key \<noteq> None"

definition AttrValueFilter :: "string \<Rightarrow> 'v option \<Rightarrow> 'v fw_filter" where
  "AttrValueFilter key val ctx e \<longleftrightarrow> ev_Attr e key = val"

text \<open>\<open>now\<close> is the time at which the filter runs.\<close>

definition FreshnessFilter :: "int \<Rightarrow> int \<Rightarrow> 'v fw_filter" where
  "FreshnessFilter now maxAge ctx e \<longleftrightarrow> now - re_Timestamp e \<le> maxAge"

section \<open>Snapshot-aware filters (snapshot/enricher.go)\<close>

definition pathContainsSegment :: "string \<Rightarrow> string \<Rightarrow> bool" where
  "pathContainsSegment path segment \<longleftrightarrow>
     (if segment = '''' \<or> path = '''' then False
      else path = segment \<or> Contains path (''/'' @ segment @ ''/'') \<or> HasSuffix path (''/'' @ segment)
        \<or> HasPrefix path (segment @ ''/''))"

definition SnapshotKeyFilter :: "string \<Rightarrow> 'v fw_filter" where
  "SnapshotKeyFilter snapshotKey ctx e =
     (case ee_Overlay e of
        None \<Rightarrow> False
      | Some o' \<Rightarrow> list_ex (\<lambda>layer. pathContainsSegment (sl_Path layer) snapshotKey) (oi_Layers o'))"

definition MergedDirFilter :: "string \<Rightarrow> 'v fw_filter" where "MergedDirFilter mergedDir = PathPrefixFilter [mergedDir]"

definition ContainerdKindFilter :: "'v option \<Rightarrow> 'v fw_filter" where
  "ContainerdKindFilter kind = AttrValueFilter ''containerd.io/snapshot/kind'' kind"

section \<open>Facts\<close>

lemma AllFilters_iff: "AllFilters fs ctx e \<longleftrightarrow> (\<forall>f \<in> set fs. f ctx e)"
  by (induction fs) auto

lemma AnyFilter_iff: "AnyFilter fs ctx e \<longleftrightarrow> (\<exists>f \<in> set fs. f ctx e)"
  by (induction fs) auto

lemma AllFilters_append: "AllFilters (fs @ gs) ctx e \<longleftrightarrow> AllFilters fs ctx e \<and> AllFilters gs ctx e"
  by (auto simp: AllFilters_iff)

lemma De_Morgan_filters: "NotFilter (AnyFilter fs) ctx e = AllFilters (map NotFilter fs) ctx e"
  by (simp add: NotFilter_def AnyFilter_iff AllFilters_iff)

lemma ev_Clone_id [simp]: "ev_Clone e = e"
  by (cases e) (simp add: ev_Clone_def option.map_ident)

lemma Attr_SetAttr: "ev_Attr (SetAttr k v e) k' = (if k = k' then v else ev_Attr e k')"
  by (simp add: ev_Attr_def attr_lookup_def SetAttr_def split: option.split)

lemma AttrFilter_SetAttr [simp]: "AttrFilter k ctx (SetAttr k' v e) \<longleftrightarrow> k = k' \<or> AttrFilter k ctx e"
  by (auto simp: AttrFilter_def attr_lookup_def SetAttr_def split: option.split)

text \<open>A word shares a bit with a union of masks exactly when it shares one with a member.\<close>

lemma word_or_and_zero: "(m :: uint64) AND (a OR b) = 0 \<longleftrightarrow> m AND a = 0 \<and> m AND b = 0"
  by (simp add: bit.conj_disj_distrib) (metis or_eq_0_iff)

lemma fold_or_and: "(m :: uint64) AND fold (\<lambda>op combined. combined OR op) ops acc = 0 \<longleftrightarrow>
    m AND acc = 0 \<and> (\<forall>op \<in> set ops. m AND op = 0)"
  by (induction ops arbitrary: acc) (auto simp: word_or_and_zero)

lemma MaskFilter_iff: "MaskFilter ops ctx e \<longleftrightarrow> (\<exists>op \<in> set ops. mask_Has (re_Mask e) op)"
  by (simp add: MaskFilter_def fold_or_and mask_Has_def)

lemma IsReadOnly_iff:
  "mask_IsReadOnly m \<longleftrightarrow>
     (\<forall>op \<in> {OpModify, OpCloseWrite, OpCreate, OpDelete, OpDeleteSelf, OpMovedFrom, OpMovedTo, OpMoveSelf, OpAttrib}. \<not> mask_Has m op)"
  by (simp add: mask_IsReadOnly_def opModificationBits_def word_or_and_zero mask_Has_def)

text \<open>Among the operations that can be subscribed to, the read-only ones are the rest.\<close>

lemma masks_partition: "MaskReadOnly AND opModificationBits = 0" "MaskReadOnly OR opModificationBits = MaskAll"
  by (simp_all add: MaskReadOnly_def opModificationBits_def MaskAll_def op_defs)

text \<open>The name of a mask determines which of the named operations it has.\<close>

lemma mask_String_names:
  "opNames m \<noteq> [] \<Longrightarrow> split_on CHR ''|'' (mask_String m) = opNames m"
proof -
  assume n: "opNames m \<noteq> []"
  have "\<forall>t \<in> set op_table. CHR ''|'' \<notin> set (snd t)" by (simp add: op_table_def)
  then have "\<forall>x \<in> set (opNames m). CHR ''|'' \<notin> set x" by (auto simp: opNames_def)
  with n show ?thesis by (simp add: mask_String_def split_join)
qed

section \<open>Path prefixes\<close>

lemma split_rel_of_abs:
  assumes "\<forall>n \<in> set ns. plain_name n" "ps \<noteq> []" "\<forall>n \<in> set ps. plain_name n" "abs_path ns = abs_path ps @ ''/'' @ t"
  shows "ns = ps @ split_on CHR ''/'' t"
proof -
  have "ns \<noteq> []"
  proof
    assume "ns = []"
    then have "join_with ''/'' ps = []" using assms(4) by (simp add: abs_path_def)
    then show False using assms(2,3) by (cases ps rule: remdups_adj.cases) (auto simp: plain_name_def)
  qed
  then have "'''' # ns = split_on CHR ''/'' (abs_path ns)" using assms(1) by (simp add: split_abs_path)
  also have "\<dots> = split_on CHR ''/'' (abs_path ps) @ split_on CHR ''/'' t"
    unfolding assms(4) using split_on_append [of "CHR ''/''" "abs_path ps" t] by simp
  also have "split_on CHR ''/'' (abs_path ps) = '''' # ps" using assms by (simp add: split_abs_path)
  finally show ?thesis by simp
qed

lemma abs_path_append: "ps \<noteq> [] \<Longrightarrow> rs \<noteq> [] \<Longrightarrow> abs_path (ps @ rs) = abs_path ps @ ''/'' @ join_with ''/'' rs"
  using rel_path_append [of ps rs] by (simp add: abs_path_def rel_path_def)

lemma path_has_prefix_iff:
  assumes "\<forall>n \<in> set (ns @ ps). plain_name n"
  shows "path_has_prefix (abs_path ns) (abs_path ps) \<longleftrightarrow> ns = ps \<or> ps \<noteq> [] \<and> (\<exists>rs. ns = ps @ rs)"
proof (cases "ps = []")
  case True
  have "\<not> HasPrefix (abs_path ns) ''//''"
  proof (cases ns)
    case (Cons n ns')
    obtain x where x: "abs_path ns = CHR ''/'' # n @ x" using Cons by (cases ns') (auto simp: abs_path_def)
    obtain c n' where "n = c # n'" "c \<noteq> CHR ''/''" using assms Cons by (cases n) (auto simp: plain_name_def)
    then show ?thesis by (simp add: x HasPrefix_def)
  qed (simp add: abs_path_def HasPrefix_def)
  then show ?thesis using True assms abs_path_inj [of ns "[]"] by (auto simp: path_has_prefix_def abs_path_def)
next
  case False
  have "HasPrefix (abs_path ns) (abs_path ps @ ''/'') \<longleftrightarrow> (\<exists>rs. rs \<noteq> [] \<and> ns = ps @ rs)"
  proof
    assume "HasPrefix (abs_path ns) (abs_path ps @ ''/'')"
    then obtain t where "abs_path ns = abs_path ps @ ''/'' @ t" by (auto simp: HasPrefix_iff)
    with assms False have "ns = ps @ split_on CHR ''/'' t" by (intro split_rel_of_abs) auto
    then show "\<exists>rs. rs \<noteq> [] \<and> ns = ps @ rs" by auto
  next
    assume "\<exists>rs. rs \<noteq> [] \<and> ns = ps @ rs"
    then show "HasPrefix (abs_path ns) (abs_path ps @ ''/'')"
      using False by (auto simp: abs_path_append HasPrefix_iff)
  qed
  moreover have "abs_path ns = abs_path ps \<longleftrightarrow> ns = ps" using abs_path_inj [of ns ps] assms by auto
  ultimately show ?thesis using False by (auto simp: path_has_prefix_def)
qed

section \<open>Properties\<close>

text \<open>
  On clean absolute paths the prefix filter passes exactly the prefix itself and, unless the
  prefix is the root directory, everything below it: whole path elements are compared, and a filter
  for the root directory passes nothing but the root directory itself.
\<close>

theorem PathPrefixFilter_whole_elements:
  assumes "\<forall>p \<in> set (ns # pss). \<forall>n \<in> set p. plain_name n" "re_Path e = abs_path ns"
  shows "PathPrefixFilter (map abs_path pss) ctx e \<longleftrightarrow> (\<exists>ps \<in> set pss. ns = ps \<or> ps \<noteq> [] \<and> (\<exists>rs. ns = ps @ rs))"
proof -
  have "path_has_prefix (abs_path ns) (Clean (abs_path ps)) \<longleftrightarrow> ns = ps \<or> ps \<noteq> [] \<and> (\<exists>rs. ns = ps @ rs)" if "ps \<in> set pss" for ps
    using assms that path_has_prefix_iff [of ns ps] Clean_abs_path [of ps] by auto
  then show ?thesis using assms by (simp add: PathPrefixFilter_def list_ex_iff)
qed

definition example_event :: "string list \<Rightarrow> nat enriched_event" where
  "example_event ns = \<lparr>re_Mask = OpOpen, re_PID = 7, re_Path = abs_path ns, re_Timestamp = 0, re_WatcherID = '''',
     ev_Dir = '''', ev_Name = '''', ev_FileInfo = None, ee_Overlay = None, ee_SourceLayer = None, ee_Process = None, ee_Attrs = None\<rparr>"

theorem PathPrefixFilter_whole_elements_witness:
  "PathPrefixFilter (map abs_path [[], [''usr'']]) None (example_event [''usr2'']) \<longleftrightarrow>
     (\<exists>ps \<in> set [[], [''usr'']]. [''usr2''] = ps \<or> ps \<noteq> [] \<and> (\<exists>rs. [''usr2''] = ps @ rs))"
  by (rule PathPrefixFilter_whole_elements) (simp_all add: plain_name_def example_event_def)

end

