(* ===== verification/Fw_Stage.thy ===== *)
theory Fw_Stage
  imports Fw_Event
begin

text \<open>
  The stages after the filters: transformers (\<open>pkg/fswatch/transform.go\<close>), handlers
  (\<open>handler.go\<close>) and the middlewares that wrap a handler (\<open>middleware/otel.go\<close>). A
  transformer gives its error and the changed event; a handler acts on a world \<open>'w\<close> and either
  returns an error value or panics. \<open>/proc\<close>, \<open>os.Lstat\<close>, loggers, writers, tracers and meters are
  parameters that act on the world.
\<close>

section \<open>Transformers (transform.go)\<close>

type_synonym 'v transformer = "fw_error option \<Rightarrow> 'v enriched_event \<Rightarrow> fw_error option \<times> 'v enriched_event"

fun run_transformers :: "'v transformer list \<Rightarrow> fw_error option \<Rightarrow> 'v enriched_event \<Rightarrow> fw_error list \<times> 'v enriched_event" where
  "run_transformers [] ctx e = ([], e)"
| "run_transformers (t # ts) ctx e =
     (let (err, e') = t ctx e; (errs, e'') = run_transformers ts ctx e' in
      ((case err of None \<Rightarrow> errs | Some x \<Rightarrow> x # errs), e''))"

definition ChainTransformer :: "'v transformer list \<Rightarrow> 'v transformer" where
  "ChainTransformer ts ctx e = (let (errs, e') = run_transformers ts ctx e in (fw_Join errs, e'))"

definition ConditionalTransformer :: "('v enriched_event \<Rightarrow> bool) \<Rightarrow> 'v transformer \<Rightarrow> 'v transformer" where
  "ConditionalTransformer P inner ctx e = (if P e then inner ctx e else (None, e))"

definition OverlayEnricher :: "(string \<Rightarrow> bool) \<Rightarrow> overlay_info \<Rightarrow> 'v transformer" where
  "OverlayEnricher exists o' ctx e =
     (case RelPath o' (re_Path e) of
        Inl err \<Rightarrow> (None, e)
      | Inr relPath \<Rightarrow> (None, e\<lparr>ee_Overlay := Some o', ee_SourceLayer := ResolveLayer exists o' relPath\<rparr>))"

text \<open>What \<open>/proc/{pid}\<close> holds: \<open>comm\<close>, \<open>exe\<close>, \<open>cmdline\<close> and the lines of \<open>cgroup\<close>.\<close>

record proc_entry =
  pe_comm :: "string option"
  pe_exe :: "string option"
  pe_cmdline :: "string option"
  pe_cgroup :: "string list option"

definition isContainerID :: "string \<Rightarrow> bool" where
  "isContainerID s \<longleftrightarrow> length s = 64 \<and>
     list_all (\<lambda>c. CHR ''0'' \<le> c \<and> c \<le> CHR ''9'' \<or> CHR ''a'' \<le> c \<and> c \<le> CHR ''f'') s"

fun containerID_of_lines :: "string list \<Rightarrow> string" where
  "containerID_of_lines [] = ''''"
| "containerID_of_lines (line # ls) =
     (let parts = SplitN 3 '':'' line in
      if length parts \<noteq> 3 then containerID_of_lines ls
      else case find isContainerID (split_on CHR ''/'' (parts ! 2)) of
        Some seg \<Rightarrow> seg
      | None \<Rightarrow> containerID_of_lines ls)"

definition containerIDFromCgroup :: "proc_entry \<Rightarrow> string" where
  "containerIDFromCgroup p = (case pe_cgroup p of None \<Rightarrow> '''' | Some ls \<Rightarrow> containerID_of_lines ls)"

definition cmdline_args :: "string \<Rightarrow> string list" where
  "cmdline_args data = filter (\<lambda>p. p \<noteq> '''') (split_on (CHR 0x00) (TrimRight data {CHR 0x00}))"

definition readProcessInfo :: "proc_entry \<Rightarrow> 32 word \<Rightarrow> process_info option" where
  "readProcessInfo p pid =
     (let cid = containerIDFromCgroup p;
          info = \<lparr>pi_PID = pid,
            pi_Comm = (case pe_comm p of None \<Rightarrow> '''' | Some d \<Rightarrow> TrimRight d {CHR 0x0A}),
            pi_Exe = (case pe_exe p of None \<Rightarrow> '''' | Some x \<Rightarrow> x),
            pi_Cmdline = (case pe_cmdline p of None \<Rightarrow> [] | Some d \<Rightarrow> cmdline_args d),
            pi_ContainerID = cid\<rparr>;
          enriched = (pe_comm p \<noteq> None \<or> pe_exe p \<noteq> None \<or> pe_cmdline p \<noteq> None \<or> cid \<noteq> '''')
      in if enriched then Some info else None)"

definition ProcessEnricher :: "(32 word \<Rightarrow> proc_entry) \<Rightarrow> 'v transformer" where
  "ProcessEnricher proc ctx e = (None, e\<lparr>ee_Process := readProcessInfo (proc (re_PID e)) (re_PID e)\<rparr>)"

definition PathNormaliser :: "string \<Rightarrow> 'v transformer" where
  "PathNormaliser watchRoot ctx e =
     (let root' = Clean watchRoot; clean = Clean (re_Path e);
          e' = e\<lparr>re_Path := clean, ev_Dir := Dir clean, ev_Name := Base clean\<rparr> in
      case Rel root' clean of
        None \<Rightarrow> (Some (FwWrap [clean, root'] ErrPathEscapes), e')
      | Some rel \<Rightarrow> (if HasPrefix rel ''..'' then (Some (FwWrap [clean, root'] ErrPathEscapes), e') else (None, e')))"

text \<open>The entries of an attribute map in the order in which the loop meets them.\<close>

definition set_attrs :: "(string \<times> 'v option) list \<Rightarrow> 'v enriched_event \<Rightarrow> 'v enriched_event" where
  "set_attrs kvs e = fold (\<lambda>(k, v). SetAttr k v) kvs e"

definition StaticAttrTransformer :: "(string \<times> 'v option) list \<Rightarrow> 'v transformer" where
  "StaticAttrTransformer frozen ctx e = (None, set_attrs frozen e)"

definition DynamicAttrTransformer :: "('v enriched_event \<Rightarrow> (string \<times> 'v option) list) \<Rightarrow> 'v transformer" where
  "DynamicAttrTransformer fn ctx e = (None, set_attrs (fn e) e)"

definition FileStatTransformer :: "(string \<Rightarrow> file_info option) \<Rightarrow> 'v transformer" where
  "FileStatTransformer lstat ctx e =
     (case lstat (re_Path e) of None \<Rightarrow> (None, e) | Some info \<Rightarrow> (None, e\<lparr>ev_FileInfo := Some info\<rparr>))"

section \<open>Handlers (handler.go)\<close>

datatype panic_value = PErr fw_error | PStr string | POther string

datatype outcome = Ret "fw_error option" | Panicked panic_value

type_synonym ('v, 'w) fw_handler = "fw_error option \<Rightarrow> 'v enriched_event \<Rightarrow> 'w \<Rightarrow> outcome \<times> 'w"

fun ChainHandler :: "('v, 'w) fw_handler list \<Rightarrow> ('v, 'w) fw_handler" where
  "ChainHandler [] ctx e w = (Ret None, w)"
| "ChainHandler (h # hs) ctx e w =
     (case h ctx e w of
        (Ret None, w') \<Rightarrow> ChainHandler hs ctx e w'
      | (res, w') \<Rightarrow> (res, w'))"

fun run_handlers :: "('v, 'w) fw_handler list \<Rightarrow> fw_error option \<Rightarrow> 'v enriched_event \<Rightarrow> fw_error list \<Rightarrow> 'w \<Rightarrow> outcome \<times> 'w" where
  "run_handlers [] ctx e errs w = (Ret (fw_Join errs), w)"
| "run_handlers (h # hs) ctx e errs w =
     (case h ctx e w of
        (Ret None, w') \<Rightarrow> run_handlers hs ctx e errs w'
      | (Ret (Some err), w') \<Rightarrow> run_handlers hs ctx e (errs @ [err]) w'
      | (Panicked v, w') \<Rightarrow> (Panicked v, w'))"

definition MultiHandler :: "('v, 'w) fw_handler list \<Rightarrow> ('v, 'w) fw_handler" where
  "MultiHandler hs ctx e w = run_handlers hs ctx e [] w"

definition PredicateHandler :: "('v enriched_event \<Rightarrow> bool) \<Rightarrow> ('v, 'w) fw_handler \<Rightarrow> ('v, 'w) fw_handler" where
  "PredicateHandler P h ctx e w = (if P e then h ctx e w else (Ret None, w))"

definition NoopHandler :: "('v, 'w) fw_handler" where "NoopHandler ctx e w = (Ret None, w)"

datatype kv_value = KStr string | KInt int | KTime int | KBool bool | KErr fw_error

type_synonym kv = "string \<times> kv_value"

definition log_args :: "'v enriched_event \<Rightarrow> kv list" where
  "log_args e =
     [(''path'', KStr (re_Path e)), (''mask'', KStr (mask_String (re_Mask e))), (''pid'', KInt (sint (re_PID e))), (''ts'', KTime (re_Timestamp e))]
     @ (case ee_Process e of None \<Rightarrow> [] | Some p \<Rightarrow> [(''comm'', KStr (pi_Comm p)), (''exe'', KStr (pi_Exe p))])
     @ (case ee_SourceLayer e of None \<Rightarrow> []
        | Some l \<Rightarrow> [(''layer_index'', KInt (int (sl_Index l))), (''layer_is_upper'', KBool (sl_IsUpper l))])"

definition LogHandler :: "('l \<Rightarrow> string \<Rightarrow> kv list \<Rightarrow> 'w \<Rightarrow> 'w) \<Rightarrow> 'l \<Rightarrow> ('v, 'w) fw_handler" where
  "LogHandler logger level ctx e w = (Ret None, logger level ''fanwatch event'' (log_args e) w)"

record event_counters =
  ct_Total :: uint64
  ct_AccessEvents :: uint64
  ct_OpenEvents :: uint64
  ct_ExecEvents :: uint64
  ct_OtherEvents :: uint64

definition CountingHandler :: "('v, event_counters) fw_handler" where
  "CountingHandler ctx e c =
     (let c = c\<lparr>ct_Total := ct_Total c + 1\<rparr>; m = re_Mask e in
      (Ret None,
       if mask_Has m OpAccess then c\<lparr>ct_AccessEvents := ct_AccessEvents c + 1\<rparr>
       else if mask_Has m OpOpen then c\<lparr>ct_OpenEvents := ct_OpenEvents c + 1\<rparr>
       else if mask_Has m OpOpenExec then c\<lparr>ct_ExecEvents := ct_ExecEvents c + 1\<rparr>
       else c\<lparr>ct_OtherEvents := ct_OtherEvents c + 1\<rparr>))"

definition ct_Snapshot :: "event_counters \<Rightarrow> event_counters" where
  "ct_Snapshot c = \<lparr>ct_Total = ct_Total c, ct_AccessEvents = ct_AccessEvents c, ct_OpenEvents = ct_OpenEvents c,
     ct_ExecEvents = ct_ExecEvents c, ct_OtherEvents = ct_OtherEvents c\<rparr>"

definition ct_Reset :: "event_counters \<Rightarrow> event_counters" where
  "ct_Reset c = \<lparr>ct_Total = 0, ct_AccessEvents = 0, ct_OpenEvents = 0, ct_ExecEvents = 0, ct_OtherEvents = 0\<rparr>"

definition CollectingHandler :: "('v, 'v enriched_event list) fw_handler" where
  "CollectingHandler ctx e events = (Ret None, events @ [ev_Clone e])"

definition coll_Events :: "'v enriched_event list \<Rightarrow> 'v enriched_event list" where "coll_Events events = map ev_Clone events"

definition coll_Len :: "'v enriched_event list \<Rightarrow> nat" where "coll_Len events = length events"

definition coll_Reset :: "'v enriched_event list \<Rightarrow> 'v enriched_event list" where "coll_Reset events = []"

text \<open>\<open>fmt\<close> renders time, mask, pid and path as one line; \<open>write\<close> is the writer, the standard output by default.\<close>

definition WriterHandler ::
  "(int \<Rightarrow> string \<Rightarrow> 32 word \<Rightarrow> string \<Rightarrow> string) \<Rightarrow> (string \<Rightarrow> 'w \<Rightarrow> fw_error option \<times> 'w) \<Rightarrow> (string \<Rightarrow> 'w \<Rightarrow> fw_error option \<times> 'w) option
    \<Rightarrow> ('v, 'w) fw_handler" where
  "WriterHandler fmt stdout writer ctx e w =
     (let write = (case writer of None \<Rightarrow> stdout | Some wr \<Rightarrow> wr);
          (err, w') = write (fmt (re_Timestamp e) (mask_String (re_Mask e)) (re_PID e) (re_Path e)) w
      in (Ret err, w'))"

text \<open>
  A buffered channel of capacity \<open>cap\<close> as the list of its elements. When the send and the
  cancellation are both ready, \<open>select\<close> takes either; \<open>pick\<close> is its choice.
\<close>

definition ChannelHandler :: "nat \<Rightarrow> bool \<Rightarrow> ('v, 'v enriched_event list) fw_handler" where
  "ChannelHandler cap pick ctx e buf =
     (let clone = ev_Clone e in
      (Ret None, if length buf < cap \<and> (ctx = None \<or> pick) then buf @ [clone] else buf))"

section \<open>Middlewares (middleware/otel.go)\<close>

type_synonym ('v, 'w) middleware = "('v, 'w) fw_handler \<Rightarrow> ('v, 'w) fw_handler"

record ('s, 'w) tracer =
  tr_Start :: "string \<Rightarrow> kv list \<Rightarrow> 'w \<Rightarrow> 's \<times> 'w"
  tr_End :: "'s \<Rightarrow> 'w \<Rightarrow> 'w"
  tr_RecordError :: "'s \<Rightarrow> fw_error \<Rightarrow> 'w \<Rightarrow> 'w"

record 'w meter =
  mt_Int64Counter :: "string \<Rightarrow> fw_error option"
  mt_Add :: "string \<Rightarrow> kv list \<Rightarrow> 'w \<Rightarrow> 'w"

record ('s, 'w) otel_config =
  ot_Tracer :: "('s, 'w) tracer option"
  ot_Meter :: "'w meter option"
  ot_SpanName :: string
  ot_RecordAttributes :: bool

definition NewOTELWithConfig :: "('s, 'w) otel_config \<Rightarrow> fw_error + ('s, 'w) otel_config" where
  "NewOTELWithConfig cfg =
     (let cfg = (if ot_SpanName cfg = '''' then cfg\<lparr>ot_SpanName := ''fswatch.event''\<rparr> else cfg) in
      case ot_Meter cfg of
        None \<Rightarrow> Inr cfg
      | Some m \<Rightarrow>
          (case mt_Int64Counter m ''fswatch.events.total'' of
             Some err \<Rightarrow> Inl (FwWrap [''otel: create events counter''] err)
           | None \<Rightarrow>
               (case mt_Int64Counter m ''fswatch.events.errors'' of
                  Some err \<Rightarrow> Inl (FwWrap [''otel: create errors counter''] err)
                | None \<Rightarrow> Inr cfg)))"

definition NewOTEL :: "('s, 'w) tracer option \<Rightarrow> 'w meter option \<Rightarrow> fw_error + ('s, 'w) otel_config" where
  "NewOTEL tracer meter =
     NewOTELWithConfig \<lparr>ot_Tracer = tracer, ot_Meter = meter, ot_SpanName = ''fswatch.event'', ot_RecordAttributes = True\<rparr>"

definition eventAttrs :: "'v enriched_event \<Rightarrow> kv list" where
  "eventAttrs e =
     [(''fswatch.event.mask'', KStr (mask_String (re_Mask e))), (''fswatch.event.pid'', KInt (sint (re_PID e))), (''fswatch.event.path'', KStr (re_Path e))]
     @ (case ee_SourceLayer e of None \<Rightarrow> []
        | Some l \<Rightarrow> [(''fswatch.layer.index'', KInt (int (sl_Index l))), (''fswatch.layer.upper'', KBool (sl_IsUpper l))])
     @ (case ee_Process e of None \<Rightarrow> [] | Some p \<Rightarrow> [(''fswatch.process.comm'', KStr (pi_Comm p))])"

definition startSpan :: "('s, 'w) otel_config \<Rightarrow> 'v enriched_event \<Rightarrow> 'w \<Rightarrow> 's option \<times> 'w" where
  "startSpan cfg e w =
     (case ot_Tracer cfg of
        None \<Rightarrow> (None, w)
      | Some t \<Rightarrow> (let (s, w') = tr_Start t (ot_SpanName cfg) (if ot_RecordAttributes cfg then eventAttrs e else []) w in (Some s, w')))"

definition on_span :: "('s, 'w) otel_config \<Rightarrow> (('s, 'w) tracer \<Rightarrow> 's \<Rightarrow> 'w \<Rightarrow> 'w) \<Rightarrow> 's option \<Rightarrow> 'w \<Rightarrow> 'w" where
  "on_span cfg f span w = (case (ot_Tracer cfg, span) of (Some t, Some s) \<Rightarrow> f t s w | _ \<Rightarrow> w)"

definition recordMetrics :: "('s, 'w) otel_config \<Rightarrow> 'v enriched_event \<Rightarrow> fw_error option \<Rightarrow> 'w \<Rightarrow> 'w" where
  "recordMetrics cfg e err w =
     (case ot_Meter cfg of
        None \<Rightarrow> w
      | Some m \<Rightarrow>
          (let attrs = eventAttrs e; w' = mt_Add m ''fswatch.events.total'' attrs w in
           if err \<noteq> None then mt_Add m ''fswatch.events.errors'' attrs w' else w'))"

text \<open>A panic skips the metrics; the deferred \<open>span.End()\<close> runs on every way out.\<close>

definition OTELMiddleware :: "('s, 'w) otel_config \<Rightarrow> ('v, 'w) middleware" where
  "OTELMiddleware cfg next ctx e w =
     (let (span, w1) = startSpan cfg e w in
      case next ctx e w1 of
        (Panicked v, w2) \<Rightarrow> (Panicked v, on_span cfg tr_End span w2)
      | (Ret err, w2) \<Rightarrow>
          (let w3 = recordMetrics cfg e err w2;
               w4 = (case err of None \<Rightarrow> w3 | Some x \<Rightarrow> on_span cfg (\<lambda>t s. tr_RecordError t s x) span w3)
           in (Ret err, on_span cfg tr_End span w4)))"

definition LoggingMiddleware :: "(string \<Rightarrow> kv list \<Rightarrow> 'w \<Rightarrow> 'w) \<Rightarrow> ('v, 'w) middleware" where
  "LoggingMiddleware logFn next ctx e w =
     (case next ctx e w of
        (Ret (Some err), w') \<Rightarrow>
          (Ret (Some err), logFn ''fanwatch: handler error''
             [(''error'', KErr err), (''path'', KStr (re_Path e)), (''mask'', KStr (mask_String (re_Mask e))), (''pid'', KInt (sint (re_PID e)))] w')
      | (res, w') \<Rightarrow> (res, w'))"

fun panicToError :: "panic_value \<Rightarrow> fw_error" where
  "panicToError (PErr e) = FwWrap [''fanwatch: recovered panic''] e"
| "panicToError (PStr s) = FwMsg [''fanwatch: recovered panic'', s]"
| "panicToError (POther s) = FwMsg [''fanwatch: recovered panic'', s]"

definition RecoveryMiddleware :: "(panic_value \<Rightarrow> 'v enriched_event \<Rightarrow> 'w \<Rightarrow> 'w) option \<Rightarrow> ('v, 'w) middleware" where
  "RecoveryMiddleware onPanic next ctx e w =
     (case next ctx e w of
        (Panicked v, w') \<Rightarrow> (Ret (Some (panicToError v)), (case onPanic of None \<Rightarrow> w' | Some f \<Rightarrow> f v e w'))
      | (Ret err, w') \<Rightarrow> (Ret err, w'))"

record metrics =
  mx_handled :: uint64
  mx_errors :: uint64
  mx_filtered :: uint64

text \<open>\<open>upd\<close> says where in the world the counters live.\<close>

definition MetricsMiddleware :: "((metrics \<Rightarrow> metrics) \<Rightarrow> 'w \<Rightarrow> 'w) \<Rightarrow> ('v, 'w) middleware" where
  "MetricsMiddleware upd next ctx e w =
     (case next ctx e w of
        (Ret (Some err), w') \<Rightarrow> (Ret (Some err), upd (\<lambda>m. m\<lparr>mx_errors := mx_errors m + 1\<rparr>) w')
      | (Ret None, w') \<Rightarrow> (Ret None, upd (\<lambda>m. m\<lparr>mx_handled := mx_handled m + 1\<rparr>) w')
      | (Panicked v, w') \<Rightarrow> (Panicked v, w'))"

definition mx_Reset :: "metrics \<Rightarrow> metrics" where
  "mx_Reset m = \<lparr>mx_handled = 0, mx_errors = 0, mx_filtered = 0\<rparr>"

section \<open>Transformer facts\<close>

lemma run_transformers_event: "snd (run_transformers ts ctx e) = fold (\<lambda>t e. snd (t ctx e)) ts e"
  by (induction ts arbitrary: e) (simp_all add: split_beta)

lemma run_transformers_errors:
  "fst (run_transformers ts ctx e) = [] \<longleftrightarrow> (\<forall>i < length ts. fst ((ts ! i) ctx (fold (\<lambda>t e. snd (t ctx e)) (take i ts) e)) = None)"
proof (induction ts arbitrary: e)
  case (Cons t ts)
  have "(\<forall>i < length (t # ts). fst (((t # ts) ! i) ctx (fold (\<lambda>t e. snd (t ctx e)) (take i (t # ts)) e)) = None) \<longleftrightarrow>
      fst (t ctx e) = None \<and> (\<forall>i < length ts. fst ((ts ! i) ctx (fold (\<lambda>t e. snd (t ctx e)) (take i ts) (snd (t ctx e)))) = None)"
    by (simp add: All_less_Suc2)
  then show ?case using Cons.IH [of "snd (t ctx e)"] by (simp add: split_beta split: option.splits)
qed simp

lemma ChainTransformer_spec:
  "snd (ChainTransformer ts ctx e) = fold (\<lambda>t e. snd (t ctx e)) ts e \<and>
   (fst (ChainTransformer ts ctx e) = None \<longleftrightarrow>
      (\<forall>i < length ts. fst ((ts ! i) ctx (fold (\<lambda>t e. snd (t ctx e)) (take i ts) e)) = None))"
  by (simp add: ChainTransformer_def split_beta run_transformers_event fw_Join_def flip: run_transformers_errors)

text \<open>Attributes with distinct keys can be set in any order.\<close>

lemma SetAttr_commute: "k \<noteq> k' \<Longrightarrow> SetAttr k v (SetAttr k' v' e) = SetAttr k' v' (SetAttr k v e)"
  by (simp add: SetAttr_def fun_upd_twist)

lemma set_attrs_order:
  assumes "mset kvs = mset kvs'" "distinct (map fst kvs)"
  shows "set_attrs kvs e = set_attrs kvs' e"
  unfolding set_attrs_def
proof (rule fold_multiset_equiv [OF _ assms(1), THEN fun_cong])
  fix x y assume "x \<in> set kvs" "y \<in> set kvs"
  show "(case x of (k, v) \<Rightarrow> SetAttr k v) \<circ> (case y of (k, v) \<Rightarrow> SetAttr k v) =
      (case y of (k, v) \<Rightarrow> SetAttr k v) \<circ> (case x of (k, v) \<Rightarrow> SetAttr k v)"
  proof (cases "x = y")
    case False
    then have "fst x \<noteq> fst y" using assms(2) \<open>x \<in> set kvs\<close> \<open>y \<in> set kvs\<close> by (auto simp: distinct_map inj_on_def)
    then show ?thesis by (cases x; cases y) (auto simp: fun_eq_iff SetAttr_commute)
  qed simp
qed

lemma ev_Attr_set_attrs:
  "distinct (map fst kvs) \<Longrightarrow> ev_Attr (set_attrs kvs e) k = (case map_of kvs k of None \<Rightarrow> ev_Attr e k | Some v \<Rightarrow> v)"
proof (induction kvs arbitrary: e)
  case (Cons kv kvs)
  obtain k' v where kv: "kv = (k', v)" by (cases kv)
  have step: "set_attrs (kv # kvs) e = set_attrs kvs (SetAttr k' v e)" by (simp add: set_attrs_def kv)
  have "map_of kvs k = None" if "k' = k" using Cons.prems that by (simp add: kv map_of_eq_None_iff)
  moreover have "ev_Attr (set_attrs kvs (SetAttr k' v e)) k =
      (case map_of kvs k of None \<Rightarrow> ev_Attr (SetAttr k' v e) k | Some v \<Rightarrow> v)"
    using Cons by simp
  ultimately show ?case unfolding step by (cases "map_of kvs k") (auto simp: kv Attr_SetAttr)
qed (simp add: set_attrs_def)

section \<open>Handler facts\<close>

lemma ChainHandler_append:
  "ChainHandler (hs @ hs') ctx e w =
     (case ChainHandler hs ctx e w of (Ret None, w') \<Rightarrow> ChainHandler hs' ctx e w' | r \<Rightarrow> r)"
  by (induction hs arbitrary: w) (simp_all split: prod.splits outcome.splits option.splits)

definition no_panic :: "('v, 'w) fw_handler \<Rightarrow> bool" where
  "no_panic h \<longleftrightarrow> (\<forall>ctx e w v. fst (h ctx e w) \<noteq> Panicked v)"

lemma run_handlers_world:
  "\<forall>h \<in> set hs. no_panic h \<Longrightarrow> snd (run_handlers hs ctx e errs w) = fold (\<lambda>h w. snd (h ctx e w)) hs w"
proof (induction hs arbitrary: errs w)
  case (Cons h hs)
  obtain err w' where "h ctx e w = (Ret err, w')"
    using Cons.prems by (cases "h ctx e w"; cases "fst (h ctx e w)") (auto simp: no_panic_def, metis fst_conv)
  then show ?case using Cons by (cases err) auto
qed simp

lemma RecoveryMiddleware_no_panic: "no_panic (RecoveryMiddleware onPanic h)"
  by (auto simp: no_panic_def RecoveryMiddleware_def split: prod.splits outcome.splits)

lemma RecoveryMiddleware_transparent: "no_panic h \<Longrightarrow> RecoveryMiddleware onPanic h = h"
  by (auto simp: no_panic_def RecoveryMiddleware_def fun_eq_iff split: prod.splits outcome.splits)
    (metis fst_conv)

text \<open>The four classes of events add up to the total, modulo \<open>2 ^ 64\<close>.\<close>

definition counts_ok :: "event_counters \<Rightarrow> bool" where
  "counts_ok c \<longleftrightarrow> ct_Total c = ct_AccessEvents c + ct_OpenEvents c + ct_ExecEvents c + ct_OtherEvents c"

lemma CountingHandler_counts: "counts_ok c \<Longrightarrow> counts_ok (snd (CountingHandler ctx e c))"
  by (simp add: counts_ok_def CountingHandler_def Let_def)

lemma counts_Reset: "counts_ok (ct_Reset c)"
  by (simp add: counts_ok_def ct_Reset_def)

text \<open>The channel never holds more than its capacity, and what it holds arrived in this order.\<close>

lemma ChannelHandler_bound: "length buf \<le> cap \<Longrightarrow> length (snd (ChannelHandler cap pick ctx e buf)) \<le> cap"
  by (auto simp: ChannelHandler_def Let_def)

lemma ChannelHandler_first:
  "length buf \<le> cap \<Longrightarrow> fold (\<lambda>e buf. snd (ChannelHandler cap pick None e buf)) es buf = take cap (buf @ es)"
proof (induction es arbitrary: buf)
  case (Cons e es)
  show ?case
  proof (cases "length buf < cap")
    case True
    then show ?thesis using Cons.IH [of "buf @ [e]"] by (simp add: ChannelHandler_def)
  next
    case False
    then show ?thesis using Cons by (simp add: ChannelHandler_def)
  qed
qed simp

section \<open>Properties\<close>

text \<open>
  A tracing middleware leaves no span open: whatever the wrapped handler does, return a value
  or panic, the number of open spans is the same after the call as before it.
\<close>

theorem OTELMiddleware_ends_spans:
  assumes "\<And>t n kvs w. ot_Tracer cfg = Some t \<Longrightarrow> opened (snd (tr_Start t n kvs w)) = Suc (opened w)"
    and "\<And>t s w. ot_Tracer cfg = Some t \<Longrightarrow> opened (tr_End t s w) = opened w - 1"
    and "\<And>t s x w. ot_Tracer cfg = Some t \<Longrightarrow> opened (tr_RecordError t s x w) = opened w"
    and "\<And>m n kvs w. ot_Meter cfg = Some m \<Longrightarrow> opened (mt_Add m n kvs w) = opened w"
    and "\<And>ctx e w. opened (snd (next ctx e w)) = opened w"
  shows "opened (snd (OTELMiddleware cfg next ctx e w)) = opened w"
proof -
  obtain span w1 where s: "startSpan cfg e w = (span, w1)" by (cases "startSpan cfg e w")
  obtain r w2 where n: "next ctx e w1 = (r, w2)" by (cases "next ctx e w1")
  have w2: "opened w2 = opened w1" using assms(5) [of ctx e w1] n by simp
  have metrics: "opened (recordMetrics cfg e err w2) = opened w2" for err
    using assms(4) by (simp add: recordMetrics_def Let_def split: option.splits)
  show ?thesis
  proof (cases "ot_Tracer cfg")
    case None
    then show ?thesis using s n w2 metrics
      by (auto simp: OTELMiddleware_def startSpan_def on_span_def Let_def split: outcome.splits option.splits)
  next
    case (Some t)
    then have "opened w1 = Suc (opened w)" and sp: "span \<noteq> None"
      using s assms(1) [OF Some, of "ot_SpanName cfg" "if ot_RecordAttributes cfg then eventAttrs e else []" w]
      by (auto simp: startSpan_def split: prod.splits)
    then show ?thesis using Some s n w2 metrics assms(2) [OF Some] assms(3) [OF Some]
      by (auto simp: OTELMiddleware_def on_span_def Let_def split: outcome.splits option.splits)
  qed
qed

definition example_tracer :: "(nat, nat) tracer" where
  "example_tracer = \<lparr>tr_Start = \<lambda>n kvs w. (w, Suc w), tr_End = \<lambda>s w. w - 1, tr_RecordError = \<lambda>s x w. w\<rparr>"

theorem OTELMiddleware_ends_spans_witness:
  "id (snd (OTELMiddleware \<lparr>ot_Tracer = Some example_tracer, ot_Meter = None, ot_SpanName = ''s'', ot_RecordAttributes = True\<rparr>
     (\<lambda>ctx e w. (Panicked (PStr ''x''), w)) None (example_event []) 3)) = id 3"
  by (rule OTELMiddleware_ends_spans) (auto simp: example_tracer_def)

text \<open>
  Every transformer of a chain runs on the event as its predecessors left it, also after one
  of them has failed, and the chain reports an error exactly when some transformer did.
\<close>

theorem ChainTransformer_runs_all:
  "snd (ChainTransformer ts ctx e) = fold (\<lambda>t e. snd (t ctx e)) ts e \<and>
   (fst (ChainTransformer ts ctx e) = None \<longleftrightarrow>
      (\<forall>i \<in> {..<length ts}. fst ((ts ! i) ctx (fold (\<lambda>t e. snd (t ctx e)) (take i ts) e)) = None))"
  using ChainTransformer_spec [of ts ctx e] by (simp add: Ball_def)

end
