(* ===== verification/Fw_Pipeline.thy ===== *)
theory Fw_Pipeline
  imports Fw_Stage
begin

text \<open>
  The watcher's event pipeline: \<open>pkg/fswatch/pipeline.go\<close> and the pipeline options of
  \<open>options.go\<close>. \<open>RunSync\<close> is a step relation: its loop receives, filters and waits for a worker
  slot, the workers transform and handle in any order, and the error consumer reports. The
  environment delivers events, closes the channel and cancels the context.
\<close>

section \<open>Construction\<close>

record ('v, 'w) fw_pipeline =
  fp_filters :: "'v fw_filter list"
  fp_transformers :: "'v transformer list"
  fp_handler :: "('v, 'w) fw_handler"
  fp_middlewares :: "('v, 'w) middleware list"
  fp_workers :: int
  fp_errBufSize :: int

type_synonym ('v, 'w) fw_option = "('v, 'w) fw_pipeline \<Rightarrow> ('v, 'w) fw_pipeline"

definition fw_WithFilter :: "'v fw_filter \<Rightarrow> ('v, 'w) fw_option" where
  "fw_WithFilter f p = p\<lparr>fp_filters := fp_filters p @ [f]\<rparr>"

definition fw_WithFilters :: "'v fw_filter list \<Rightarrow> ('v, 'w) fw_option" where
  "fw_WithFilters fs p = p\<lparr>fp_filters := fp_filters p @ fs\<rparr>"

definition fw_WithTransformer :: "'v transformer \<Rightarrow> ('v, 'w) fw_option" where
  "fw_WithTransformer t p = p\<lparr>fp_transformers := fp_transformers p @ [t]\<rparr>"

definition fw_WithTransformers :: "'v transformer list \<Rightarrow> ('v, 'w) fw_option" where
  "fw_WithTransformers ts p = p\<lparr>fp_transformers := fp_transformers p @ ts\<rparr>"

definition fw_WithHandler :: "('v, 'w) fw_handler \<Rightarrow> ('v, 'w) fw_option" where "fw_WithHandler h p = p\<lparr>fp_handler := h\<rparr>"

definition fw_WithMiddleware :: "('v, 'w) middleware \<Rightarrow> ('v, 'w) fw_option" where
  "fw_WithMiddleware m p = p\<lparr>fp_middlewares := fp_middlewares p @ [m]\<rparr>"

definition fw_WithWorkers :: "int \<Rightarrow> ('v, 'w) fw_option" where
  "fw_WithWorkers n p = (if n > 0 then p\<lparr>fp_workers := n\<rparr> else p)"

definition fw_WithErrorBufferSize :: "int \<Rightarrow> ('v, 'w) fw_option" where
  "fw_WithErrorBufferSize n p = (if n > 0 then p\<lparr>fp_errBufSize := n\<rparr> else p)"

definition fw_WithReadOnlyPipeline :: "('v, 'w) fw_option" where
  "fw_WithReadOnlyPipeline p = p\<lparr>fp_filters := fp_filters p @ [ReadOnlyFilter, NoOverflowFilter]\<rparr>"

definition fw_WithOverlayEnrichment :: "(string \<Rightarrow> bool) \<Rightarrow> (string \<Rightarrow> file_info option) \<Rightarrow> overlay_info \<Rightarrow> ('v, 'w) fw_option" where
  "fw_WithOverlayEnrichment exists lstat o' p =
     p\<lparr>fp_transformers := fp_transformers p @ [OverlayEnricher exists o', FileStatTransformer lstat]\<rparr>"

definition fw_WithProcessEnrichment :: "(32 word \<Rightarrow> proc_entry) \<Rightarrow> ('v, 'w) fw_option" where
  "fw_WithProcessEnrichment proc p = p\<lparr>fp_transformers := fp_transformers p @ [ProcessEnricher proc]\<rparr>"

definition fw_WithFullEnrichment ::
  "(string \<Rightarrow> bool) \<Rightarrow> (32 word \<Rightarrow> proc_entry) \<Rightarrow> (string \<Rightarrow> file_info option) \<Rightarrow> overlay_info \<Rightarrow> ('v, 'w) fw_option" where
  "fw_WithFullEnrichment exists proc lstat o' p =
     p\<lparr>fp_transformers := fp_transformers p @ [OverlayEnricher exists o', ProcessEnricher proc, FileStatTransformer lstat]\<rparr>"

definition fw_NewPipeline :: "nat \<Rightarrow> ('v, 'w) fw_option list \<Rightarrow> ('v, 'w) fw_pipeline" where
  "fw_NewPipeline numCPU opts =
     (let p = fold (\<lambda>opt p. opt p) opts \<lparr>fp_filters = [], fp_transformers = [], fp_handler = NoopHandler,
                fp_middlewares = [], fp_workers = int numCPU, fp_errBufSize = 64\<rparr>
      in p\<lparr>fp_handler := foldr (\<lambda>m h. m h) (fp_middlewares p) (fp_handler p)\<rparr>)"

definition numWorkers :: "nat \<Rightarrow> ('v, 'w) fw_pipeline \<Rightarrow> nat" where
  "numWorkers numCPU p = (if fp_workers p > 0 then nat (fp_workers p) else numCPU)"

definition toEnriched :: "raw_event \<Rightarrow> 'v enriched_event" where
  "toEnriched raw = \<lparr>re_Mask = re_Mask raw, re_PID = re_PID raw, re_Path = re_Path raw, re_Timestamp = re_Timestamp raw,
     re_WatcherID = re_WatcherID raw, ev_Dir = Dir (re_Path raw), ev_Name = Base (re_Path raw), ev_FileInfo = None,
     ee_Overlay = None, ee_SourceLayer = None, ee_Process = None, ee_Attrs = None\<rparr>"

definition passesFilters :: "('v, 'w) fw_pipeline \<Rightarrow> 'v fw_filter" where
  "passesFilters p ctx e = AllFilters (fp_filters p) ctx e"

definition applyTransformers :: "('v, 'w) fw_pipeline \<Rightarrow> 'v transformer" where
  "applyTransformers p ctx e = ChainTransformer (fp_transformers p) ctx e"

section \<open>RunSync\<close>

text \<open>
  \<open>rs_in\<close> are the events in the input channel, \<open>rs_cur\<close> the event between its receipt and the
  filters, \<open>rs_waiting\<close> the one waiting for a slot; \<open>rs_jobs\<close> are the workers that have not yet
  transformed their event, \<open>rs_handlings\<close> those about to handle it. \<open>rs_errCh\<close> is the error
  channel, \<open>rs_reported\<close> what \<open>onError\<close> has received, \<open>rs_done\<close> tells that the loop was left, and
  \<open>rs_crashed\<close> that a worker panicked, which ends the process.
\<close>

record ('v, 'w) rs_state =
  rs_in :: "raw_event list"
  rs_closed :: bool
  rs_cur :: "'v enriched_event option"
  rs_waiting :: "'v enriched_event option"
  rs_jobs :: "'v enriched_event list"
  rs_handlings :: "'v enriched_event list"
  rs_received :: nat
  rs_filtered :: nat
  rs_handled :: nat
  rs_errCount :: nat
  rs_errCh :: "fw_error list"
  rs_reported :: "fw_error list"
  rs_cancelled :: bool
  rs_done :: bool
  rs_crashed :: bool
  rs_world :: 'w

definition rs_init :: "'w \<Rightarrow> ('v, 'w) rs_state" where
  "rs_init w = \<lparr>rs_in = [], rs_closed = False, rs_cur = None, rs_waiting = None, rs_jobs = [], rs_handlings = [],
     rs_received = 0, rs_filtered = 0, rs_handled = 0, rs_errCount = 0, rs_errCh = [], rs_reported = [],
     rs_cancelled = False, rs_done = False, rs_crashed = False, rs_world = w\<rparr>"

definition rs_ctx :: "('v, 'w) rs_state \<Rightarrow> fw_error option" where
  "rs_ctx s = (if rs_cancelled s then Some (FwMsg [''context canceled'']) else None)"

definition rs_addErr :: "('v, 'w) fw_pipeline \<Rightarrow> fw_error option \<Rightarrow> ('v, 'w) rs_state \<Rightarrow> ('v, 'w) rs_state" where
  "rs_addErr p err s =
     (case err of
        None \<Rightarrow> s
      | Some e \<Rightarrow> s\<lparr>rs_errCount := rs_errCount s + 1,
          rs_errCh := (if int (length (rs_errCh s)) < fp_errBufSize p then rs_errCh s @ [e] else rs_errCh s)\<rparr>)"

definition rs_receive :: "('v, 'w) fw_pipeline \<Rightarrow> raw_event \<Rightarrow> ('v, 'w) rs_state \<Rightarrow> ('v, 'w) rs_state" where
  "rs_receive p raw s =
     (if rs_cancelled s then s
      else (let s = s\<lparr>rs_received := rs_received s + 1\<rparr> in
        if IsOverflow raw then (rs_addErr p (Some ErrQueueOverflow) s)\<lparr>rs_filtered := rs_filtered s + 1\<rparr>
        else s\<lparr>rs_cur := Some (toEnriched raw)\<rparr>))"

definition rs_filter :: "('v, 'w) fw_pipeline \<Rightarrow> 'v enriched_event \<Rightarrow> ('v, 'w) rs_state \<Rightarrow> ('v, 'w) rs_state" where
  "rs_filter p e s =
     (if \<not> passesFilters p (rs_ctx s) e then s\<lparr>rs_filtered := rs_filtered s + 1\<rparr>
      else s\<lparr>rs_waiting := Some e\<rparr>)"

definition rs_transform :: "('v, 'w) fw_pipeline \<Rightarrow> 'v enriched_event \<Rightarrow> ('v, 'w) rs_state \<Rightarrow> ('v, 'w) rs_state" where
  "rs_transform p e s =
     (let (err, e') = applyTransformers p (rs_ctx s) e;
          s = rs_addErr p (map_option (FwWrap [''pipeline: transform'', re_Path e']) err) s
      in s\<lparr>rs_handlings := rs_handlings s @ [e']\<rparr>)"

definition rs_handle :: "('v, 'w) fw_pipeline \<Rightarrow> 'v enriched_event \<Rightarrow> ('v, 'w) rs_state \<Rightarrow> ('v, 'w) rs_state" where
  "rs_handle p e s =
     (case fp_handler p (rs_ctx s) e (rs_world s) of
        (Panicked v, w) \<Rightarrow> s\<lparr>rs_world := w, rs_crashed := True\<rparr>
      | (Ret (Some err), w) \<Rightarrow> rs_addErr p (Some (FwWrap [''pipeline: handle'', re_Path e] err)) (s\<lparr>rs_world := w\<rparr>)
      | (Ret None, w) \<Rightarrow> s\<lparr>rs_world := w, rs_handled := rs_handled s + 1\<rparr>)"

definition at_select :: "('v, 'w) rs_state \<Rightarrow> bool" where
  "at_select s \<longleftrightarrow> \<not> rs_done s \<and> rs_cur s = None \<and> rs_waiting s = None"

text \<open>One step of the loop, of a worker or of the error consumer; \<open>n\<close> is the number of slots.\<close>

inductive rs_step :: "nat \<Rightarrow> ('v, 'w) fw_pipeline \<Rightarrow> ('v, 'w) rs_state \<Rightarrow> ('v, 'w) rs_state \<Rightarrow> bool" for n p where
  receive: "\<not> rs_crashed s \<Longrightarrow> at_select s \<Longrightarrow> rs_in s = raw # raws \<Longrightarrow> rs_step n p s (rs_receive p raw (s\<lparr>rs_in := raws\<rparr>))"
| closed: "\<not> rs_crashed s \<Longrightarrow> at_select s \<Longrightarrow> rs_in s = [] \<Longrightarrow> rs_closed s \<Longrightarrow> rs_step n p s (s\<lparr>rs_done := True\<rparr>)"
| cancelled: "\<not> rs_crashed s \<Longrightarrow> at_select s \<Longrightarrow> rs_cancelled s \<Longrightarrow> rs_step n p s (s\<lparr>rs_done := True\<rparr>)"
| filter_event: "\<not> rs_crashed s \<Longrightarrow> rs_cur s = Some e \<Longrightarrow> rs_step n p s (rs_filter p e (s\<lparr>rs_cur := None\<rparr>))"
| acquire: "\<not> rs_crashed s \<Longrightarrow> rs_waiting s = Some e \<Longrightarrow> length (rs_jobs s) + length (rs_handlings s) < n \<Longrightarrow>
    rs_step n p s (s\<lparr>rs_waiting := None, rs_jobs := rs_jobs s @ [e]\<rparr>)"
| skip: "\<not> rs_crashed s \<Longrightarrow> rs_waiting s = Some e \<Longrightarrow> rs_cancelled s \<Longrightarrow> rs_step n p s (s\<lparr>rs_waiting := None\<rparr>)"
| transform: "\<not> rs_crashed s \<Longrightarrow> rs_jobs s = as @ e # bs \<Longrightarrow> rs_step n p s (rs_transform p e (s\<lparr>rs_jobs := as @ bs\<rparr>))"
| handle: "\<not> rs_crashed s \<Longrightarrow> rs_handlings s = as @ e # bs \<Longrightarrow> rs_step n p s (rs_handle p e (s\<lparr>rs_handlings := as @ bs\<rparr>))"
| report: "\<not> rs_crashed s \<Longrightarrow> rs_errCh s = err # errs \<Longrightarrow> rs_step n p s (s\<lparr>rs_errCh := errs, rs_reported := rs_reported s @ [err]\<rparr>)"

inductive rs_env :: "('v, 'w) rs_state \<Rightarrow> ('v, 'w) rs_state \<Rightarrow> bool" where
  deliver: "\<not> rs_closed s \<Longrightarrow> rs_env s (s\<lparr>rs_in := rs_in s @ [raw]\<rparr>)"
| close: "\<not> rs_closed s \<Longrightarrow> rs_env s (s\<lparr>rs_closed := True\<rparr>)"
| cancel: "rs_env s (s\<lparr>rs_cancelled := True\<rparr>)"

inductive_cases rs_stepE: "rs_step n p s s'"
inductive_cases rs_envE: "rs_env s s'"

record fw_result =
  fr_Received :: nat
  fr_Filtered :: nat
  fr_Handled :: nat
  fr_Errors :: nat

definition rs_finished :: "('v, 'w) rs_state \<Rightarrow> bool" where
  "rs_finished s \<longleftrightarrow> rs_done s \<and> rs_jobs s = [] \<and> rs_handlings s = [] \<and> rs_errCh s = []"

definition rs_result :: "('v, 'w) rs_state \<Rightarrow> fw_result" where
  "rs_result s = \<lparr>fr_Received = rs_received s, fr_Filtered = rs_filtered s, fr_Handled = rs_handled s, fr_Errors = rs_errCount s\<rparr>"

text \<open>
  \<open>Run\<close> forwards every reported error to a channel of the same size; a full channel drops it.
\<close>

definition run_forward :: "('v, 'w) fw_pipeline \<Rightarrow> bool \<Rightarrow> fw_error \<Rightarrow> ('v, 'w) rs_state \<Rightarrow> fw_error list \<Rightarrow> fw_error list" where
  "run_forward p pick err s ch =
     (if int (length ch) < fp_errBufSize p \<and> (\<not> rs_cancelled s \<or> pick) then ch @ [err] else ch)"

section \<open>Reachable states\<close>

text \<open>\<open>rs_reach n p w raws s\<close>: the run that began with the world \<open>w\<close> is in state \<open>s\<close> after the events \<open>raws\<close> were delivered.\<close>

inductive rs_reach :: "nat \<Rightarrow> ('v, 'w) fw_pipeline \<Rightarrow> 'w \<Rightarrow> raw_event list \<Rightarrow> ('v, 'w) rs_state \<Rightarrow> bool" for n p w where
  start: "rs_reach n p w [] (rs_init w)"
| step: "rs_reach n p w raws s \<Longrightarrow> rs_step n p s s' \<Longrightarrow> rs_reach n p w raws s'"
| delivered: "rs_reach n p w raws s \<Longrightarrow> \<not> rs_closed s \<Longrightarrow> rs_reach n p w (raws @ [raw]) (s\<lparr>rs_in := rs_in s @ [raw]\<rparr>)"
| channel_closed: "rs_reach n p w raws s \<Longrightarrow> \<not> rs_closed s \<Longrightarrow> rs_reach n p w raws (s\<lparr>rs_closed := True\<rparr>)"
| ctx_cancelled: "rs_reach n p w raws s \<Longrightarrow> rs_reach n p w raws (s\<lparr>rs_cancelled := True\<rparr>)"

lemmas rs_ops = rs_receive_def rs_filter_def rs_transform_def rs_handle_def rs_addErr_def Let_def

primrec pend :: "'a option \<Rightarrow> 'a list" where "pend None = []" | "pend (Some a) = [a]"

definition in_flight :: "('v, 'w) rs_state \<Rightarrow> nat" where
  "in_flight s = length (rs_jobs s) + length (rs_handlings s)"

definition pending_count :: "('v, 'w) rs_state \<Rightarrow> nat" where
  "pending_count s = length (pend (rs_cur s)) + length (pend (rs_waiting s)) + in_flight s + (if rs_crashed s then 1 else 0)"

text \<open>
  The books of a run: \<open>hfail\<close> handlers failed, \<open>tfail\<close> transformers failed, \<open>over\<close> overflow events
  were met and \<open>skipped\<close> events were given up after a cancellation.
\<close>

definition accounts :: "nat \<Rightarrow> nat \<Rightarrow> nat \<Rightarrow> nat \<Rightarrow> nat \<Rightarrow> bool \<Rightarrow> bool" where
  "accounts received filtered pending handled errs cancelled \<longleftrightarrow> (\<exists>hfail tfail over skipped.
     received = filtered + pending + handled + hfail + skipped \<and>
     errs = over + tfail + hfail \<and> over \<le> filtered \<and> (cancelled \<or> skipped = 0))"

definition rs_books :: "('v, 'w) rs_state \<Rightarrow> bool" where
  "rs_books s \<longleftrightarrow> accounts (rs_received s) (rs_filtered s) (pending_count s) (rs_handled s) (rs_errCount s) (rs_cancelled s)"

lemma accounts_receive: "accounts r f q h e c \<Longrightarrow> accounts (Suc r) f (Suc q) h e c"
  unfolding accounts_def by (elim ex_forward) simp

lemma accounts_overflow: "accounts r f q h e c \<Longrightarrow> accounts (Suc r) (Suc f) q h (Suc e) c"
  unfolding accounts_def
proof (elim exE)
  fix hf tf ov sk
  assume "r = f + q + h + hf + sk \<and> e = ov + tf + hf \<and> ov \<le> f \<and> (c \<or> sk = 0)"
  then show "\<exists>hf tf ov sk. Suc r = Suc f + q + h + hf + sk \<and> Suc e = ov + tf + hf \<and> ov \<le> Suc f \<and> (c \<or> sk = 0)"
    by (intro exI [of _ hf] exI [of _ tf] exI [of _ "Suc ov"] exI [of _ sk]) simp
qed

lemma accounts_filter: "accounts r f (Suc q) h e c \<Longrightarrow> accounts r (Suc f) q h e c"
  unfolding accounts_def by (elim ex_forward) simp

lemma accounts_handled: "accounts r f (Suc q) h e c \<Longrightarrow> accounts r f q (Suc h) e c"
  unfolding accounts_def by (elim ex_forward) simp

lemma accounts_skip: "accounts r f (Suc q) h e True \<Longrightarrow> accounts r f q h e True"
  unfolding accounts_def
proof (elim exE)
  fix hf tf ov sk
  assume "r = f + Suc q + h + hf + sk \<and> e = ov + tf + hf \<and> ov \<le> f \<and> (True \<or> sk = 0)"
  then show "\<exists>hf tf ov sk. r = f + q + h + hf + sk \<and> e = ov + tf + hf \<and> ov \<le> f \<and> (True \<or> sk = 0)"
    by (intro exI [of _ hf] exI [of _ tf] exI [of _ ov] exI [of _ "Suc sk"]) simp
qed

lemma accounts_tfail: "accounts r f q h e c \<Longrightarrow> accounts r f q h (Suc e) c"
  unfolding accounts_def
proof (elim exE)
  fix hf tf ov sk
  assume "r = f + q + h + hf + sk \<and> e = ov + tf + hf \<and> ov \<le> f \<and> (c \<or> sk = 0)"
  then show "\<exists>hf tf ov sk. r = f + q + h + hf + sk \<and> Suc e = ov + tf + hf \<and> ov \<le> f \<and> (c \<or> sk = 0)"
    by (intro exI [of _ hf] exI [of _ "Suc tf"] exI [of _ ov] exI [of _ sk]) simp
qed

lemma accounts_hfail: "accounts r f (Suc q) h e c \<Longrightarrow> accounts r f q h (Suc e) c"
  unfolding accounts_def
proof (elim exE)
  fix hf tf ov sk
  assume "r = f + Suc q + h + hf + sk \<and> e = ov + tf + hf \<and> ov \<le> f \<and> (c \<or> sk = 0)"
  then show "\<exists>hf tf ov sk. r = f + q + h + hf + sk \<and> Suc e = ov + tf + hf \<and> ov \<le> f \<and> (c \<or> sk = 0)"
    by (intro exI [of _ "Suc hf"] exI [of _ tf] exI [of _ ov] exI [of _ sk]) simp
qed

lemma accounts_cancel: "accounts r f q h e c \<Longrightarrow> accounts r f q h e True"
  unfolding accounts_def by blast

lemmas accounts_rules = accounts_receive accounts_overflow accounts_filter accounts_handled accounts_skip accounts_tfail accounts_hfail

definition rs_bounded :: "nat \<Rightarrow> ('v, 'w) fw_pipeline \<Rightarrow> ('v, 'w) rs_state \<Rightarrow> bool" where
  "rs_bounded n p s \<longleftrightarrow> in_flight s \<le> n \<and> length (rs_errCh s) \<le> nat (fp_errBufSize p) \<and>
     length (rs_errCh s) + length (rs_reported s) \<le> rs_errCount s"

lemma bounded_step: "rs_step n p s s' \<Longrightarrow> rs_bounded n p s \<Longrightarrow> rs_bounded n p s'"
  by (induction rule: rs_step.induct)
    (auto simp: rs_bounded_def in_flight_def rs_ops nat_less_iff zless_nat_eq_int_zless
      split: option.splits prod.splits outcome.splits)

definition rs_shape :: "('v, 'w) rs_state \<Rightarrow> bool" where
  "rs_shape s \<longleftrightarrow> (rs_cur s = None \<or> rs_waiting s = None) \<and>
     (rs_done s \<longrightarrow> rs_cur s = None \<and> rs_waiting s = None \<and> (rs_cancelled s \<or> rs_in s = [] \<and> rs_closed s))"

lemma shape_step: "rs_step n p s s' \<Longrightarrow> rs_shape s \<Longrightarrow> rs_shape s'"
  by (induction rule: rs_step.induct)
    (auto simp: rs_shape_def at_select_def rs_ops split: option.split prod.split outcome.split)

lemma books_step: "rs_step n p s s' \<Longrightarrow> rs_shape s \<Longrightarrow> rs_books s \<Longrightarrow> rs_books s'"
proof (induction rule: rs_step.induct)
  case (receive s raw raws)
  then show ?case
    by (auto simp: rs_books_def rs_receive_def rs_addErr_def pending_count_def in_flight_def at_select_def Let_def
        dest: accounts_receive accounts_overflow)
next
  case (filter_event s e)
  then show ?case by (auto simp: rs_books_def rs_shape_def rs_filter_def pending_count_def in_flight_def dest: accounts_filter)
next
  case (acquire s e)
  then show ?case by (auto simp: rs_books_def pending_count_def in_flight_def)
next
  case (skip s e)
  then show ?case by (auto simp: rs_books_def pending_count_def in_flight_def dest: accounts_skip)
next
  case (transform s as e bs)
  then show ?case
    by (auto simp: rs_books_def rs_transform_def rs_addErr_def pending_count_def in_flight_def Let_def
        dest: accounts_tfail split: prod.split option.split)
next
  case (handle s as e bs)
  then show ?case
    by (auto simp: rs_books_def rs_handle_def rs_addErr_def pending_count_def in_flight_def
        dest: accounts_hfail accounts_handled split: prod.split option.split outcome.split)
qed (simp_all add: rs_books_def pending_count_def in_flight_def)

lemma reach_invariant:
  "rs_reach n p w raws s \<Longrightarrow> rs_shape s \<and> rs_books s \<and> rs_bounded n p s"
proof (induction rule: rs_reach.induct)
  case start
  then show ?case
    by (simp add: rs_shape_def rs_books_def rs_bounded_def rs_init_def pending_count_def in_flight_def accounts_def)
next
  case (step raws s s')
  then show ?case using shape_step books_step bounded_step by blast
qed (auto simp: rs_shape_def rs_books_def rs_bounded_def pending_count_def in_flight_def intro: accounts_cancel)

section \<open>What a run delivers\<close>

text \<open>
  The events of a run that is not cancelled, as the handler sees them: overflow events and events
  that a filter rejects are left out, the others are transformed.
\<close>

definition accepted :: "('v, 'w) fw_pipeline \<Rightarrow> raw_event list \<Rightarrow> 'v enriched_event list" where
  "accepted p raws = filter (passesFilters p None) (map toEnriched (filter (\<lambda>r. \<not> IsOverflow r) raws))"

definition transformed :: "('v, 'w) fw_pipeline \<Rightarrow> 'v enriched_event \<Rightarrow> 'v enriched_event" where
  "transformed p e = snd (applyTransformers p None e)"

definition underway :: "('v, 'w) fw_pipeline \<Rightarrow> ('v, 'w) rs_state \<Rightarrow> 'v enriched_event multiset" where
  "underway p s = image_mset (transformed p) (mset (filter (passesFilters p None) (pend (rs_cur s)) @ pend (rs_waiting s) @ rs_jobs s))
     + mset (rs_handlings s)"

definition collecting :: "('v, 'v enriched_event list) fw_pipeline \<Rightarrow> raw_event list \<Rightarrow> ('v, 'v enriched_event list) rs_state \<Rightarrow> bool" where
  "collecting p raws s \<longleftrightarrow> \<not> rs_crashed s \<and> (rs_cancelled s \<or> (\<exists>taken. raws = taken @ rs_in s \<and> rs_received s = length taken \<and>
     rs_handled s = length (rs_world s) \<and>
     rs_filtered s + length (accepted p taken) + length (filter (\<lambda>e. \<not> passesFilters p None e) (pend (rs_cur s))) = length taken \<and>
     mset (rs_world s) + underway p s = image_mset (transformed p) (mset (accepted p taken))))"

lemma accepted_snoc:
  "accepted p (raws @ [r]) = accepted p raws @ (if \<not> IsOverflow r \<and> passesFilters p None (toEnriched r) then [toEnriched r] else [])"
  by (simp add: accepted_def)

lemma collecting_receive:
  assumes "collecting p raws s" "at_select s" "rs_in s = r # rs"
  shows "collecting p raws (rs_receive p r (s\<lparr>rs_in := rs\<rparr>))"
proof (cases "rs_cancelled s")
  case True
  then show ?thesis using assms by (simp add: collecting_def rs_receive_def)
next
  case False
  then obtain taken where t: "raws = taken @ r # rs" "rs_received s = length taken" "rs_handled s = length (rs_world s)"
    "rs_filtered s + length (accepted p taken) + length (filter (\<lambda>e. \<not> passesFilters p None e) (pend (rs_cur s))) = length taken"
    "mset (rs_world s) + underway p s = image_mset (transformed p) (mset (accepted p taken))"
    using assms by (auto simp: collecting_def)
  have c: "rs_cur s = None" "rs_waiting s = None" using assms by (auto simp: at_select_def)
  then have "mset (rs_world s) + underway p (rs_receive p r (s\<lparr>rs_in := rs\<rparr>)) =
      image_mset (transformed p) (mset (accepted p (taken @ [r])))"
    using False t(5) by (auto simp: underway_def rs_receive_def rs_addErr_def accepted_snoc Let_def)
  moreover have "rs_filtered (rs_receive p r (s\<lparr>rs_in := rs\<rparr>)) + length (accepted p (taken @ [r])) +
      length (filter (\<lambda>e. \<not> passesFilters p None e) (pend (rs_cur (rs_receive p r (s\<lparr>rs_in := rs\<rparr>))))) = length (taken @ [r])"
    using False t(4) c by (auto simp: rs_receive_def rs_addErr_def accepted_snoc Let_def)
  ultimately show ?thesis using False t(1-3) assms(1)
    unfolding collecting_def by (auto simp: rs_receive_def rs_addErr_def Let_def intro!: exI [of _ "taken @ [r]"])
qed

lemma collecting_step:
  assumes "rs_step n p s s'" "fp_handler p = CollectingHandler" "rs_shape s" "collecting p raws s"
  shows "collecting p raws s'"
  using assms
proof (induction rule: rs_step.induct)
  case (receive s raw raws')
  then show ?case by (simp add: collecting_receive)
next
  case (filter_event s e)
  then show ?case by (auto simp: collecting_def rs_filter_def rs_ctx_def rs_shape_def underway_def)
next
  case (acquire s e)
  then show ?case by (auto simp: collecting_def underway_def)
next
  case (transform s as e bs)
  then show ?case
    by (auto simp: collecting_def rs_transform_def rs_addErr_def rs_ctx_def underway_def transformed_def Let_def
        split: prod.split option.split)
next
  case (handle s as e bs)
  then show ?case by (auto simp: collecting_def rs_handle_def CollectingHandler_def underway_def)
qed (auto simp: collecting_def underway_def)

lemma reach_collecting:
  "rs_reach n p [] raws s \<Longrightarrow> fp_handler p = CollectingHandler \<Longrightarrow> collecting p raws s"
proof (induction rule: rs_reach.induct)
  case start
  then show ?case by (simp add: collecting_def rs_init_def underway_def accepted_def)
next
  case (step raws s s')
  then show ?case using collecting_step [of n p s s' raws] reach_invariant [OF step.hyps(1)] by simp
qed (auto simp: collecting_def underway_def)

section \<open>Runs end\<close>

definition rs_measure :: "('v, 'w) rs_state \<Rightarrow> nat" where
  "rs_measure s = 7 * length (rs_in s) + 6 * length (pend (rs_cur s)) + 5 * length (pend (rs_waiting s)) + 4 * length (rs_jobs s) +
     2 * length (rs_handlings s) + length (rs_errCh s) + (if rs_done s then 0 else 1) + (if rs_crashed s then 0 else 1)"

lemma step_measure: "rs_step n p s s' \<Longrightarrow> rs_shape s \<Longrightarrow> rs_measure s' < rs_measure s"
  by (induction rule: rs_step.induct)
    (auto simp: rs_measure_def rs_shape_def at_select_def rs_ops split: option.split prod.split outcome.split)

lemma step_possible:
  assumes "rs_closed s" "0 < n" "\<not> rs_crashed s" "\<not> rs_finished s"
  shows "\<exists>s'. rs_step n p s s'"
proof (cases "rs_handlings s")
  case (Cons e es)
  then show ?thesis using rs_step.handle [of s "[]" e es n p] assms by auto
next
  case Nil
  show ?thesis
  proof (cases "rs_jobs s")
    case (Cons e es)
    then show ?thesis using rs_step.transform [of s "[]" e es n p] assms by auto
  next
    case jobs: Nil
    show ?thesis
    proof (cases "rs_errCh s")
      case (Cons e es)
      then show ?thesis using rs_step.report [of s e es n p] assms by auto
    next
      case errs: Nil
      then have "\<not> rs_done s" using assms Nil jobs by (simp add: rs_finished_def)
      show ?thesis
      proof (cases "rs_cur s"; cases "rs_waiting s")
        assume "rs_cur s = None" "rs_waiting s = None"
        then have sel: "at_select s" using \<open>\<not> rs_done s\<close> by (simp add: at_select_def)
        show ?thesis
        proof (cases "rs_in s")
          case Nil
          then show ?thesis using rs_step.closed [OF _ sel] assms by auto
        next
          case (Cons r rs)
          then show ?thesis using rs_step.receive [OF _ sel Cons] assms by auto
        qed
      next
        fix e assume "rs_waiting s = Some e"
        then show ?thesis using rs_step.acquire [of s e n p] assms Nil jobs by auto
      qed (use rs_step.filter_event [of s _ n p] assms in auto)
    qed
  qed
qed

lemma step_keeps:
  "rs_step n p s s' \<Longrightarrow> no_panic (fp_handler p) \<Longrightarrow> rs_closed s \<and> \<not> rs_crashed s \<Longrightarrow> rs_closed s' \<and> \<not> rs_crashed s'"
proof (induction rule: rs_step.induct)
  case (handle s as e bs)
  then show ?case
    by (auto simp: rs_handle_def rs_addErr_def no_panic_def split: prod.split outcome.split option.split) (metis fst_conv)+
qed (auto simp: rs_ops split: option.split prod.split)

lemma run_ends:
  assumes "(rs_step n p ^^ k) s s'" "rs_shape s" "rs_closed s" "\<not> rs_crashed s" "0 < n" "no_panic (fp_handler p)"
  shows "k \<le> rs_measure s \<and> (rs_finished s' \<or> (\<exists>s''. rs_step n p s' s''))"
proof -
  have "rs_shape s' \<and> rs_closed s' \<and> \<not> rs_crashed s' \<and> k + rs_measure s' \<le> rs_measure s"
    using assms(1)
  proof (induction k arbitrary: s')
    case 0
    then show ?case using assms by simp
  next
    case (Suc k)
    then obtain t where "(rs_step n p ^^ k) s t" and st: "rs_step n p t s'" by auto
    with Suc.IH have t: "rs_shape t" "rs_closed t" "\<not> rs_crashed t" "k + rs_measure t \<le> rs_measure s" by auto
    show ?case using shape_step [OF st t(1)] step_measure [OF st t(1)] step_keeps [OF st assms(6)] t by simp
  qed
  then show ?thesis using step_possible [of s' n p] assms(5) by auto
qed

section \<open>Properties\<close>

text \<open>
  C14: at every moment of a run at most as many events are being transformed or handled as there
  are workers, the error channel stays within its buffer, and no error is reported that was not
  counted.
\<close>

theorem RunSync_respects_limits:
  assumes "rs_reach n p w raws s"
  shows "length (rs_jobs s) + length (rs_handlings s) \<le> n \<and> length (rs_errCh s) \<le> nat (fp_errBufSize p) \<and>
     length (rs_reported s) \<le> rs_errCount s"
  using reach_invariant [OF assms] by (auto simp: rs_bounded_def in_flight_def)

text \<open>
  C5: a run that ends without being cancelled collects exactly the delivered events that are no
  overflow markers and pass every filter, each one once and as the transformers left it, in some
  order; its result counts all delivered events as received, the rejected ones as filtered and the
  collected ones as handled.
\<close>

theorem RunSync_collects:
  assumes "rs_reach n p [] raws s" "fp_handler p = CollectingHandler" "rs_finished s" "\<not> rs_cancelled s"
  shows "mset (rs_world s) = image_mset (transformed p) (mset (accepted p raws)) \<and>
     fr_Received (rs_result s) = length raws \<and> fr_Handled (rs_result s) = length (accepted p raws) \<and>
     fr_Filtered (rs_result s) = length raws - length (accepted p raws)"
proof -
  have inv: "rs_shape s" "rs_books s" using reach_invariant [OF assms(1)] by auto
  then have d: "rs_in s = []" "rs_cur s = None" "rs_waiting s = None" "rs_jobs s = []" "rs_handlings s = []"
    using assms(3,4) by (auto simp: rs_shape_def rs_finished_def)
  then have u: "underway p s = {#}" by (simp add: underway_def)
  have m: "mset (rs_world s) = image_mset (transformed p) (mset (accepted p raws))"
    "rs_received s = length raws" "rs_handled s = length (rs_world s)" "rs_filtered s + length (accepted p raws) = length raws"
    using reach_collecting [OF assms(1,2)] assms(4) d u by (auto simp: collecting_def)
  have "length (rs_world s) = length (accepted p raws)" using arg_cong [OF m(1), of size] by simp
  then show ?thesis using m by (simp add: rs_result_def)
qed

definition example_raw :: raw_event where
  "example_raw = \<lparr>re_Mask = OpOpen, re_PID = 7, re_Path = ''/m/a'', re_Timestamp = 0, re_WatcherID = ''''\<rparr>"

definition collector :: "(nat, nat enriched_event list) fw_pipeline" where
  "collector = fw_NewPipeline 1 [fw_WithReadOnlyPipeline, fw_WithHandler CollectingHandler]"

lemma collector_fields [simp]: "fp_handler collector = CollectingHandler" "fp_errBufSize collector = 64"
  "passesFilters collector ctx e \<longleftrightarrow> ReadOnlyFilter ctx e \<and> NoOverflowFilter ctx e" "applyTransformers collector ctx e = (None, e)"
  by (simp_all add: collector_def fw_NewPipeline_def fw_WithReadOnlyPipeline_def fw_WithHandler_def passesFilters_def
      applyTransformers_def ChainTransformer_def fw_Join_def)

definition collector_end :: "(nat, nat enriched_event list) rs_state" where
  "collector_end = (rs_init [toEnriched example_raw])\<lparr>rs_closed := True, rs_received := 1, rs_handled := 1, rs_done := True\<rparr>"

text \<open>The channel holds one event and is closed; the run takes six steps to its end.\<close>

definition collector_start :: "(nat, nat enriched_event list) rs_state" where
  "collector_start = (rs_init [])\<lparr>rs_in := [example_raw], rs_closed := True\<rparr>"

lemma collector_start_reach: "rs_reach 1 collector [] [example_raw] collector_start"
proof -
  let ?s0 = "rs_init [] :: (nat, nat enriched_event list) rs_state"
  have "rs_reach 1 collector [] ([] @ [example_raw]) (?s0\<lparr>rs_in := rs_in ?s0 @ [example_raw]\<rparr>)"
    by (intro rs_reach.delivered rs_reach.start) (simp add: rs_init_def)
  then have "rs_reach 1 collector [] [example_raw] (?s0\<lparr>rs_in := [example_raw]\<rparr>)" by (simp add: rs_init_def)
  then show ?thesis using rs_reach.channel_closed by (fastforce simp: rs_init_def collector_start_def)
qed

lemma collector_steps: "(rs_step 1 collector ^^ 6) collector_start collector_end"
proof -
  let ?e = "toEnriched example_raw :: nat enriched_event"
  note simps = rs_init_def at_select_def rs_receive_def rs_filter_def rs_transform_def rs_addErr_def
    rs_handle_def example_raw_def IsOverflow_def mask_Has_def op_defs ReadOnlyFilter_def NoOverflowFilter_def mask_IsReadOnly_def
    opModificationBits_def toEnriched_def CollectingHandler_def rs_ctx_def
  let ?s0 = "(rs_init [])\<lparr>rs_closed := True\<rparr> :: (nat, nat enriched_event list) rs_state"
  let ?s1 = "?s0\<lparr>rs_received := 1, rs_cur := Some ?e\<rparr>" and ?s2 = "?s0\<lparr>rs_received := 1, rs_waiting := Some ?e\<rparr>"
  let ?s3 = "?s0\<lparr>rs_received := 1, rs_jobs := [?e]\<rparr>" and ?s4 = "?s0\<lparr>rs_received := 1, rs_handlings := [?e]\<rparr>"
  let ?s5 = "?s0\<lparr>rs_received := 1, rs_world := [?e], rs_handled := 1\<rparr>"
  have 1: "rs_step 1 collector collector_start ?s1"
    using rs_step.receive [of collector_start example_raw "[]" 1 collector] by (simp add: simps collector_start_def)
  have 2: "rs_step 1 collector ?s1 ?s2" using rs_step.filter_event [of ?s1 ?e 1 collector] by (simp add: simps)
  have 3: "rs_step 1 collector ?s2 ?s3" using rs_step.acquire [of ?s2 ?e 1 collector] by (simp add: simps)
  have 4: "rs_step 1 collector ?s3 ?s4" using rs_step.transform [of ?s3 "[]" ?e "[]" 1 collector] by (simp add: simps)
  have 5: "rs_step 1 collector ?s4 ?s5" using rs_step.handle [of ?s4 "[]" ?e "[]" 1 collector] by (simp add: simps)
  have 6: "rs_step 1 collector ?s5 collector_end" using rs_step.closed [of ?s5 1 collector] by (simp add: simps collector_end_def)
  from 1 2 3 4 5 6 show ?thesis by (auto simp: numeral_eq_Suc intro!: relcomppI)
qed

lemma reach_steps: "(rs_step n p ^^ k) s s' \<Longrightarrow> rs_reach n p w raws s \<Longrightarrow> rs_reach n p w raws s'"
  by (induction k arbitrary: s') (auto intro: rs_reach.step)

lemma collector_run: "rs_reach 1 collector [] [example_raw] collector_end"
  by (rule reach_steps [OF collector_steps collector_start_reach])
theorem RunSync_respects_limits_witness:
  "length (rs_jobs collector_end) + length (rs_handlings collector_end) \<le> 1 \<and>
   length (rs_errCh collector_end) \<le> nat (fp_errBufSize collector) \<and> length (rs_reported collector_end) \<le> rs_errCount collector_end"
  by (rule RunSync_respects_limits [OF collector_run])

theorem RunSync_collects_witness:
  "mset (rs_world collector_end) = image_mset (transformed collector) (mset (accepted collector [example_raw])) \<and>
   fr_Received (rs_result collector_end) = length [example_raw] \<and>
   fr_Handled (rs_result collector_end) = length (accepted collector [example_raw]) \<and>
   fr_Filtered (rs_result collector_end) = length [example_raw] - length (accepted collector [example_raw])"
  by (rule RunSync_collects [OF collector_run]) (simp_all add: collector_end_def rs_init_def rs_finished_def)

text \<open>
  C24: once the input channel is closed, every run with at least one worker takes at most as many steps
  as its measure says, and until the loop, the workers and the error consumer have all finished some
  step is possible: \<open>RunSync\<close> returns. A call of a filter, a transformer or the handler is part of one
  step: that these calls return is assumed, and that the handler does not panic.
\<close>

theorem RunSync_returns:
  assumes "rs_reach n p w raws s" "(rs_step n p ^^ k) s s'" "rs_closed s" "\<not> rs_crashed s" "0 < n" "no_panic (fp_handler p)"
  shows "k \<le> rs_measure s \<and> (rs_finished s' \<or> (\<exists>s''. rs_step n p s' s''))"
  using run_ends [OF assms(2)] reach_invariant [OF assms(1)] assms by simp

theorem RunSync_returns_witness:
  "rs_in collector_start = [example_raw] \<and> (rs_step 1 collector ^^ 6) collector_start collector_end \<and> 6 \<le> rs_measure collector_start
    \<and> (rs_finished collector_end \<or> (\<exists>s''. rs_step 1 collector collector_end s''))"
proof -
  have "6 \<le> rs_measure collector_start \<and> (rs_finished collector_end \<or> (\<exists>s''. rs_step 1 collector collector_end s''))"
    by (rule RunSync_returns [OF collector_start_reach collector_steps])
      (simp_all add: collector_start_def rs_init_def no_panic_def CollectingHandler_def)
  then show ?thesis using collector_steps by (simp add: collector_start_def)
qed
text \<open>
  Middlewares wrap the handler in such a way that the one registered first is the outermost:
  its code runs first on every event.
\<close>

theorem first_middleware_is_outermost:
  "fp_handler (fw_NewPipeline n (fw_WithHandler h # map fw_WithMiddleware (m # ms))) =
     m (fp_handler (fw_NewPipeline n (fw_WithHandler h # map fw_WithMiddleware ms)))"
proof -
  have "fold (\<lambda>opt p. opt p) (map fw_WithMiddleware ms) p = p\<lparr>fp_middlewares := fp_middlewares p @ ms\<rparr>" for p :: "('a, 'b) fw_pipeline" and ms
    by (induction ms arbitrary: p) (simp_all add: fw_WithMiddleware_def)
  then show ?thesis by (simp add: fw_NewPipeline_def fw_WithHandler_def fw_WithMiddleware_def Let_def)
qed

end
