(* ===== verification/Fw_Watcher.thy ===== *)
theory Fw_Watcher
  imports Fw_Event
begin

text \<open>
  The fanotify watcher: \<open>pkg/fswatch/watcher_linux.go\<close>, the watcher options of \<open>options.go\<close> and
  the decoding of the kernel's event buffer in \<open>internal/sys/fanotify_linux.go\<close>. The results of
  the system calls are parameters; the file descriptors the process holds are a set of the state,
  so that it can be said which calls give them back.
\<close>

section \<open>Configuration (options.go)\<close>

record watcher_config =
  wc_mergedDir :: string
  wc_mask :: event_mask
  wc_overlay :: "overlay_info option"
  wc_bufSize :: int
  wc_readBufSize :: int
  wc_watcherID :: string

definition defaultWatcherConfig :: watcher_config where
  "defaultWatcherConfig = \<lparr>wc_mergedDir = '''', wc_mask = MaskReadOnly, wc_overlay = None, wc_bufSize = 512,
     wc_readBufSize = 4096, wc_watcherID = ''''\<rparr>"

type_synonym watcher_option = "watcher_config \<Rightarrow> watcher_config"

definition WithMergedDir :: "string \<Rightarrow> watcher_option" where "WithMergedDir dir c = c\<lparr>wc_mergedDir := dir\<rparr>"
definition WithMask :: "event_mask \<Rightarrow> watcher_option" where "WithMask m c = c\<lparr>wc_mask := m\<rparr>"
definition WithOverlay :: "overlay_info \<Rightarrow> watcher_option" where
  "WithOverlay o' c = (let c = c\<lparr>wc_overlay := Some o'\<rparr> in
     if wc_mergedDir c = '''' then c\<lparr>wc_mergedDir := oi_MergedDir o'\<rparr> else c)"
definition WithEventBufferSize :: "int \<Rightarrow> watcher_option" where
  "WithEventBufferSize n c = (if n > 0 then c\<lparr>wc_bufSize := n\<rparr> else c)"
definition WithReadBufferSize :: "int \<Rightarrow> watcher_option" where
  "WithReadBufferSize n c = (if n \<ge> 4096 then c\<lparr>wc_readBufSize := n\<rparr> else c)"
definition WithWatcherID :: "string \<Rightarrow> watcher_option" where "WithWatcherID i c = c\<lparr>wc_watcherID := i\<rparr>"

section \<open>The event buffer (internal/sys)\<close>

text \<open>A little-endian field of the C struct, as the host reads it.\<close>

definition le_nat :: "bytes \<Rightarrow> nat" where
  "le_nat bs = foldr (\<lambda>b n. unat b + 256 * n) bs 0"

definition MetadataVersion :: nat where "MetadataVersion = 3"

text \<open>The struct has 24 bytes: length, version, a reserved byte, metadata length, mask, descriptor, process.\<close>

definition EventMetadataSize :: nat where "EventMetadataSize = 24"

record event_record =
  er_Mask :: uint64
  er_PID :: "32 word"
  er_FD :: "32 word"

definition meta_field :: "nat \<Rightarrow> nat \<Rightarrow> bytes \<Rightarrow> nat" where
  "meta_field off len buf = le_nat (take len (drop off buf))"

function parseEventBuf :: "bytes \<Rightarrow> event_record list \<times> fw_error option" where
  "parseEventBuf buf =
     (if length buf < EventMetadataSize then ([], None)
      else if meta_field 4 1 buf \<noteq> MetadataVersion then ([], Some (FwMsg [''fanotify: unexpected metadata version'']))
      else (let n = meta_field 0 4 buf in
        if n < EventMetadataSize \<or> n > length buf then ([], None)
        else (let (recs, err) = parseEventBuf (drop n buf) in
          (\<lparr>er_Mask = of_nat (meta_field 8 8 buf), er_PID = of_nat (meta_field 20 4 buf), er_FD = of_nat (meta_field 16 4 buf)\<rparr> # recs, err))))"
  by auto

termination
  by (relation "measure length") (auto simp: EventMetadataSize_def)

declare parseEventBuf.simps [simp del]

text \<open>\<open>read\<close> is the outcome of \<open>read(2)\<close>: an error, with whether it is \<open>EAGAIN\<close>, or the bytes.\<close>

definition ReadEvents :: "(bool \<times> fw_error) + bytes \<Rightarrow> event_record list \<times> fw_error option" where
  "ReadEvents rd =
     (case rd of
        Inl (again, err) \<Rightarrow> (if again then ([], None) else ([], Some (FwWrap [''fanotify read''] err)))
      | Inr buf \<Rightarrow> (if buf = [] then ([], None) else parseEventBuf buf))"

text \<open>\<open>FDToPath\<close> closes its descriptor on every way out; \<open>link\<close> is what \<open>/proc/self/fd\<close> says.\<close>

definition FDToPath :: "(int \<Rightarrow> fw_error + string) \<Rightarrow> int \<Rightarrow> int set \<Rightarrow> (fw_error + string) \<times> int set" where
  "FDToPath link fd fds =
     (if fd < 0 then Inr ''''
      else case link fd of Inl err \<Rightarrow> Inl (FwWrap [''fanotify: resolve fd''] err) | Inr path \<Rightarrow> Inr path, fds - {fd})"

section \<open>The watcher (watcher\_linux.go)\<close>

record watcher =
  wa_cfg :: watcher_config
  wa_watching :: bool
  wa_closed :: bool
  wa_fanotifyFD :: int
  wa_stopReadFD :: int
  wa_stopWriteFD :: int

text \<open>A failed system call: whether its error value is \<open>EPERM\<close> itself, and its message.\<close>

record sys_error =
  se_isEPERM :: bool
  se_msg :: string

definition isPermissionErr :: "sys_error option \<Rightarrow> bool" where
  "isPermissionErr err =
     (case err of None \<Rightarrow> False
      | Some e \<Rightarrow> se_isEPERM e \<or> Contains (se_msg e) ''CAP_SYS_ADMIN'' \<or> Contains (se_msg e) ''permission denied'')"

text \<open>\<open>sys.Init\<close>: the errno of \<open>fanotify_init\<close> (whether it is \<open>EPERM\<close>, and its text) is wrapped.\<close>

definition sys_Init :: "(bool \<times> string) + int \<Rightarrow> sys_error + int" where
  "sys_Init call =
     (case call of
        Inl (perm, msg) \<Rightarrow>
          Inl \<lparr>se_isEPERM = False,
            se_msg = (if perm then ''fanotify init: CAP_SYS_ADMIN required: '' else ''fanotify init: '') @ msg\<rparr>
      | Inr fd \<Rightarrow> Inr fd)"

definition close_fd :: "int \<Rightarrow> int set \<Rightarrow> int \<times> int set" where
  "close_fd fd fds = (if fd \<ge> 0 then (-1, fds - {fd}) else (fd, fds))"

definition closeResources :: "watcher \<Rightarrow> int set \<Rightarrow> watcher \<times> int set" where
  "closeResources w fds =
     (let (f, fds) = close_fd (wa_fanotifyFD w) fds;
          (sw, fds) = close_fd (wa_stopWriteFD w) fds;
          (sr, fds) = close_fd (wa_stopReadFD w) fds
      in (w\<lparr>wa_fanotifyFD := f, wa_stopWriteFD := sw, wa_stopReadFD := sr\<rparr>, fds))"

text \<open>The mask that is registered for the mount; \<open>mark\<close> is the outcome of \<open>fanotify_mark\<close>.\<close>

definition mark_mask :: "watcher_config \<Rightarrow> uint64" where
  "mark_mask c = wc_mask c OR OpOnDir OR OpEventOnChild"

definition markMergedDir :: "(uint64 \<Rightarrow> string \<Rightarrow> fw_error option) \<Rightarrow> watcher \<Rightarrow> fw_error option" where
  "markMergedDir mark w =
     (case mark (mark_mask (wa_cfg w)) (wc_mergedDir (wa_cfg w)) of
        None \<Rightarrow> None | Some err \<Rightarrow> Some (FwWrap [''fanwatch: mark'', wc_mergedDir (wa_cfg w)] err))"

definition newWatcher ::
  "(bool \<times> string) + int \<Rightarrow> fw_error + int \<times> int \<Rightarrow> (uint64 \<Rightarrow> string \<Rightarrow> fw_error option) \<Rightarrow> watcher_option list \<Rightarrow> int set
    \<Rightarrow> (fw_error + watcher) \<times> int set" where
  "newWatcher initCall pipeCall mark opts fds =
     (let cfg = fold (\<lambda>o' c. o' c) opts defaultWatcherConfig in
      if wc_mergedDir cfg = '''' then (Inl (FwMsg [''fanwatch: WithMergedDir is required'']), fds)
      else case sys_Init initCall of
        Inl err \<Rightarrow>
          (if isPermissionErr (Some err) then (Inl ErrPermission, fds)
           else (Inl (FwMsg [''fanwatch: init'', se_msg err]), fds))
      | Inr fd \<Rightarrow>
          (let fds = insert fd fds in
           case pipeCall of
             Inl err \<Rightarrow> (Inl (FwWrap [''fanwatch: stop pipe''] err), fds - {fd})
           | Inr (stopR, stopW) \<Rightarrow>
               (let fds = insert stopR (insert stopW fds);
                    w = \<lparr>wa_cfg = cfg, wa_watching = False, wa_closed = False, wa_fanotifyFD = fd,
                          wa_stopReadFD = stopR, wa_stopWriteFD = stopW\<rparr> in
                case markMergedDir mark w of
                  Some err \<Rightarrow> (Inl err, snd (closeResources w fds))
                | None \<Rightarrow> (Inr w, fds))))"

text \<open>\<open>Watch\<close> returns the capacity of the channel it makes; the read loop then runs on its own.\<close>

definition Watch :: "watcher \<Rightarrow> (fw_error + int) \<times> watcher" where
  "Watch w =
     (if wa_closed w then (Inl ErrWatcherClosed, w)
      else if wa_watching w then (Inl (FwMsg [''fanwatch: Watch already active; create a new Watcher to watch again'']), w)
      else (Inr (wc_bufSize (wa_cfg w)), w\<lparr>wa_watching := True\<rparr>))"

text \<open>\<open>Close\<close>: its middle component tells whether the stop byte is written.\<close>

definition watcher_Close :: "watcher \<Rightarrow> int set \<Rightarrow> bool \<times> watcher \<times> int set" where
  "watcher_Close w fds = (if wa_closed w then (False, w, fds) else (True, closeResources (w\<lparr>wa_closed := True\<rparr>) fds))"

text \<open>
  The events of one batch: \<open>accepted\<close> says for how many more events the channel takes the event
  before \<open>select\<close> finds the context cancelled (\<open>None\<close>: it never does). The result gives the events
  sent, the descriptors still open and whether the loop returns.
\<close>

fun send_records :: "string \<Rightarrow> int \<Rightarrow> (int \<Rightarrow> fw_error + string) \<Rightarrow> nat option \<Rightarrow> event_record list \<Rightarrow> int set
    \<Rightarrow> raw_event list \<times> int set \<times> bool" where
  "send_records wid now link accepted [] fds = ([], fds, False)"
| "send_records wid now link accepted (r # rs) fds =
     (case FDToPath link (sint (er_FD r)) fds of
        (Inl err, fds) \<Rightarrow> send_records wid now link accepted rs fds
      | (Inr path, fds) \<Rightarrow>
          (let event = \<lparr>re_Mask = er_Mask r, re_PID = er_PID r, re_Path = path, re_Timestamp = now, re_WatcherID = wid\<rparr> in
           if accepted = Some 0 then ([], fds, True)
           else (let (evs, fds, stop) = send_records wid now link (map_option (\<lambda>k. k - 1) accepted) rs fds in (event # evs, fds, stop))))"

text \<open>
  One round of the read loop: what it sees of the context, of \<open>poll\<close> and of \<open>read\<close>, the time, the
  links of \<open>/proc/self/fd\<close>, the descriptors the kernel opened for the records, and the channel.
\<close>

record read_round =
  rr_cancelled :: bool
  rr_readable :: "fw_error + bool"
  rr_read :: "(bool \<times> fw_error) + bytes"
  rr_now :: int
  rr_link :: "int \<Rightarrow> fw_error + string"
  rr_opened :: "int set"
  rr_accepted :: "nat option"

fun readLoop :: "watcher \<Rightarrow> read_round list \<Rightarrow> int set \<Rightarrow> raw_event list \<times> int set \<times> bool" where
  "readLoop w [] fds = ([], fds, False)"
| "readLoop w (r # rs) fds =
     (if rr_cancelled r then ([], fds, True)
      else if rr_readable r \<noteq> Inr True then ([], fds, True)
      else (let fds = fds \<union> rr_opened r in
        case ReadEvents (rr_read r) of
          (recs, Some err) \<Rightarrow> readLoop w rs fds
        | (recs, None) \<Rightarrow>
            (let (evs, fds, stop) = send_records (wc_watcherID (wa_cfg w)) (rr_now r) (rr_link r) (rr_accepted r) recs fds in
             if stop then (evs, fds, True)
             else (let (evs', fds, stop) = readLoop w rs fds in (evs @ evs', fds, stop)))))"

section \<open>Facts\<close>

primrec put_le :: "nat \<Rightarrow> nat \<Rightarrow> bytes" where
  "put_le 0 n = []"
| "put_le (Suc k) n = of_nat (n mod 256) # put_le k (n div 256)"

lemma length_put_le [simp]: "length (put_le k n) = k"
  by (induction k arbitrary: n) simp_all

lemma le_nat_put_le: "n < 256 ^ k \<Longrightarrow> le_nat (put_le k n) = n"
proof (induction k arbitrary: n)
  case (Suc k)
  then have "n div 256 < 256 ^ k" by (simp add: less_mult_imp_div_less mult.commute)
  moreover have "unat (of_nat (n mod 256) :: byte) = n mod 256" by (simp add: unat_of_nat take_bit_nat_def)
  ultimately show ?case using Suc.IH [of "n div 256"] by (simp add: le_nat_def)
qed (simp add: le_nat_def)

text \<open>The kernel's layout of one event, with the bytes of any additional records after the metadata.\<close>

definition encode_event :: "event_record \<times> bytes \<Rightarrow> bytes" where
  "encode_event re = (let r = fst re; extra = snd re in
     put_le 4 (24 + length extra) @ put_le 1 3 @ put_le 1 0 @ put_le 2 24 @ put_le 8 (unat (er_Mask r))
     @ put_le 4 (unat (er_FD r)) @ put_le 4 (unat (er_PID r)) @ extra)"

lemma length_encode_event: "length (encode_event (r, extra)) = 24 + length extra"
  by (simp add: encode_event_def)

lemma meta_field_at:
  "length us = off \<Longrightarrow> length vs = len \<Longrightarrow> meta_field off len (us @ vs @ ws) = le_nat vs"
  by (simp add: meta_field_def)

lemma parse_encode_event:
  assumes "24 + length extra < 2 ^ 32"
  shows "parseEventBuf (encode_event (r, extra) @ buf) =
     (let (recs, err) = parseEventBuf buf in (r # recs, err))"
proof -
  let ?e = "encode_event (r, extra) @ buf"
  let ?a = "put_le 4 (24 + length extra)" and ?b = "put_le 1 3 @ put_le 1 0 @ put_le 2 24"
    and ?m = "put_le 8 (unat (er_Mask r))" and ?f = "put_le 4 (unat (er_FD r))" and ?p = "put_le 4 (unat (er_PID r))"
  have bounds: "unat (er_Mask r) < 256 ^ 8" "unat (er_FD r) < 256 ^ 4" "unat (er_PID r) < 256 ^ 4"
    using unsigned_less [of "er_Mask r"] unsigned_less [of "er_FD r"] unsigned_less [of "er_PID r"] by simp_all
  have len: "meta_field 0 4 ?e = 24 + length extra"
    using meta_field_at [of "[]" 0 ?a 4] le_nat_put_le [of "24 + length extra" 4] assms by (simp add: encode_event_def)
  have vers: "meta_field 4 1 ?e = 3"
    using meta_field_at [of ?a 4 "put_le 1 3" 1] le_nat_put_le [of 3 1] by (simp add: encode_event_def)
  have mask: "meta_field 8 8 ?e = unat (er_Mask r)"
    using meta_field_at [of "?a @ ?b" 8 ?m 8] le_nat_put_le [OF bounds(1)] by (simp add: encode_event_def)
  have fd: "meta_field 16 4 ?e = unat (er_FD r)"
    using meta_field_at [of "?a @ ?b @ ?m" 16 ?f 4] le_nat_put_le [OF bounds(2)] by (simp add: encode_event_def)
  have pid: "meta_field 20 4 ?e = unat (er_PID r)"
    using meta_field_at [of "?a @ ?b @ ?m @ ?f" 20 ?p 4] le_nat_put_le [OF bounds(3)] by (simp add: encode_event_def)
  have "\<lparr>er_Mask = er_Mask r, er_PID = er_PID r, er_FD = er_FD r\<rparr> = r" by (cases r) simp
  moreover have "drop (24 + length extra) ?e = buf" by (simp add: length_encode_event)
  moreover obtain recs err where "parseEventBuf buf = (recs, err)" by (cases "parseEventBuf buf")
  ultimately show ?thesis
    by (subst parseEventBuf.simps)
      (simp add: len vers [simplified] mask fd pid length_encode_event EventMetadataSize_def MetadataVersion_def)
qed

lemma parse_encode_events:
  "\<forall>re \<in> set res. 24 + length (snd re) < 2 ^ 32 \<Longrightarrow> parseEventBuf (concat (map encode_event res)) = (map fst res, None)"
proof (induction res)
  case Nil
  then show ?case by (simp add: parseEventBuf.simps EventMetadataSize_def)
next
  case (Cons re res)
  then show ?case using parse_encode_event [of "snd re" "fst re" "concat (map encode_event res)"] by simp
qed

lemma closeResources_closes:
  "snd (closeResources w fds) = fds - {fd \<in> {wa_fanotifyFD w, wa_stopReadFD w, wa_stopWriteFD w}. fd \<ge> 0}"
  by (auto simp: closeResources_def close_fd_def split_beta)

lemma newWatcher_error_fds:
  assumes "newWatcher initCall pipeCall mark opts fds = (Inl err, fds')"
    and "\<And>fd. initCall = Inr fd \<Longrightarrow> 0 \<le> fd \<and> fd \<notin> fds"
    and "\<And>r w. pipeCall = Inr (r, w) \<Longrightarrow> 0 \<le> r \<and> 0 \<le> w \<and> r \<notin> fds \<and> w \<notin> fds"
  shows "fds' = fds"
  using assms
  by (auto simp: newWatcher_def sys_Init_def closeResources_closes Let_def split: if_splits sum.splits prod.splits option.splits)

text \<open>A batch that is sent completely closes the descriptor of every record.\<close>

lemma send_records_all:
  "send_records wid now link None rs fds = (evs, fds', stop) \<Longrightarrow>
     \<not> stop \<and> fds' = fds - (\<lambda>r. sint (er_FD r)) ` set rs \<and> length evs \<le> length rs"
proof (induction rs arbitrary: fds evs fds' stop)
  case (Cons r rs)
  obtain evs0 fds0 stop0 where rest: "send_records wid now link None rs (fds - {sint (er_FD r)}) = (evs0, fds0, stop0)"
    by (cases "send_records wid now link None rs (fds - {sint (er_FD r)})")
  obtain res where res: "FDToPath link (sint (er_FD r)) fds = (res, fds - {sint (er_FD r)})" by (simp add: FDToPath_def)
  have "\<not> stop0 \<and> fds0 = fds - {sint (er_FD r)} - (\<lambda>r. sint (er_FD r)) ` set rs \<and> length evs0 \<le> length rs"
    by (rule Cons.IH [OF rest])
  then show ?case using Cons.prems rest res by (cases res) auto
qed simp

text \<open>
  A cancellation that is seen while a batch is sent ends the loop at once: the descriptors of the
  records that follow stay open, although the records are lost.
\<close>

lemma send_records_leak:
  assumes "link (sint (er_FD r)) = Inr path" "r' \<in> set rs" "sint (er_FD r') \<in> fds" "er_FD r' \<noteq> er_FD r"
  shows "\<exists>fds'. send_records wid now link (Some 0) (r # rs) fds = ([], fds', True) \<and> sint (er_FD r') \<in> fds'"
proof -
  obtain res where "FDToPath link (sint (er_FD r)) fds = (Inr res, fds - {sint (er_FD r)})"
    using assms(1) by (cases "sint (er_FD r) < 0") (auto simp: FDToPath_def)
  then show ?thesis using assms(3,4) by (simp add: signed_word_eqI) (metis signed_word_eqI)
qed

section \<open>Properties\<close>

text \<open>
  C23: decoding the buffer in which the kernel has laid out any number of events, each with any
  additional bytes after its metadata, gives back these events in order and no error.
\<close>

theorem parseEventBuf_roundtrip:
  assumes "\<forall>re \<in> set res. 24 + length (snd re) < 2 ^ 32"
  shows "parseEventBuf (concat (map encode_event res)) = (map fst res, None)"
  by (rule parse_encode_events [OF assms])

theorem parseEventBuf_roundtrip_witness:
  "parseEventBuf (concat (map encode_event [(\<lparr>er_Mask = 0x20, er_PID = 7, er_FD = 5\<rparr>, [1, 2])])) =
     (map fst [(\<lparr>er_Mask = 0x20, er_PID = 7, er_FD = 5\<rparr>, [1, 2 :: byte])], None)"
  by (rule parseEventBuf_roundtrip) simp

text \<open>
  A watcher that cannot be constructed leaves no descriptor open, whichever of its system calls
  fails.
\<close>

theorem newWatcher_releases_on_error:
  assumes "newWatcher initCall pipeCall mark opts fds = (Inl err, fds')"
    and "\<And>fd. initCall = Inr fd \<Longrightarrow> 0 \<le> fd \<and> fd \<notin> fds"
    and "\<And>r w. pipeCall = Inr (r, w) \<Longrightarrow> 0 \<le> r \<and> 0 \<le> w \<and> r \<notin> fds \<and> w \<notin> fds"
  shows "fds' = fds"
  by (rule newWatcher_error_fds [OF assms])

theorem newWatcher_releases_on_error_witness:
  "snd (newWatcher (Inr 3) (Inr (4, 5)) (\<lambda>m d. Some ErrNotSupported) [WithMergedDir ''/m''] {1, 2}) = {1, 2}"
proof -
  let ?call = "newWatcher (Inr 3) (Inr (4, 5)) (\<lambda>m d. Some ErrNotSupported) [WithMergedDir ''/m''] {1, 2}"
  have "?call = (Inl (FwWrap [''fanwatch: mark'', ''/m''] ErrNotSupported), snd ?call)"
    by (simp add: newWatcher_def sys_Init_def markMergedDir_def WithMergedDir_def defaultWatcherConfig_def)
  from newWatcher_releases_on_error [OF this] show ?thesis by simp
qed

end
