(* ===== verification/Fw_Snapshot.thy ===== *)
theory Fw_Snapshot
  imports Fw_Stage
begin

text \<open>
  The containerd side of the watcher: \<open>pkg/fswatch/snapshot/overlay.go\<close> and the enrichers of
  \<open>snapshot/enricher.go\<close>. The kernel's list of overlay mounts, the snapshotter's \<open>Mounts\<close> and
  \<open>Stat\<close> and the existence of paths are parameters. A Go map that a loop ranges over is an
  association list in the order in which the loop meets the entries.
\<close>

section \<open>Mount options (snapshot/overlay.go)\<close>

definition snap_kv_field :: "string \<Rightarrow> (string \<rightharpoonup> string) \<Rightarrow> (string \<rightharpoonup> string)" where
  "snap_kv_field field m =
     (case SplitN 2 ''='' field of
        [k, v] \<Rightarrow> m(TrimSpace k \<mapsto> TrimSpace v)
      | kv \<Rightarrow> (if kv ! 0 \<noteq> '''' then m(TrimSpace (kv ! 0) \<mapsto> '''') else m))"

definition parseOverlayOptions :: "string \<Rightarrow> (string \<rightharpoonup> string)" where
  "parseOverlayOptions opts = fold snap_kv_field (split_on CHR '','' opts) Map.empty"

definition parseSliceKVOptions :: "string list \<Rightarrow> (string \<rightharpoonup> string)" where
  "parseSliceKVOptions options = fold snap_kv_field options Map.empty"

section \<open>Resolving overlays (snapshot/overlay.go)\<close>

record ctd_mount =
  cm_Type :: string
  cm_Source :: string
  cm_Options :: "string list"

record snap_info =
  si_Name :: string
  si_Kind :: string
  si_Parent :: string
  si_Labels :: "(string \<times> string) list"

record snapshotter =
  sn_Mounts :: "string \<Rightarrow> fw_error + ctd_mount list"
  sn_Stat :: "string \<Rightarrow> fw_error + snap_info"

definition overlayInfoFromMountinfo :: "mount_entry \<Rightarrow> string \<Rightarrow> fw_error + overlay_info" where
  "overlayInfoFromMountinfo m mergedDir =
     (let opts = parseOverlayOptions (mi_VFSOptions m); lower = opt_str opts ''lowerdir'' in
      if lower = '''' then Inl (FwMsg [''snapshot: overlay mount has no lowerdir'', mergedDir])
      else Inr (NewOverlayInfo mergedDir (opt_str opts ''upperdir'') (opt_str opts ''workdir'')
             (map Clean (split_on CHR '':'' lower))))"

definition OverlayInfoFromMergedDir :: "fw_error + mount_entry list \<Rightarrow> string \<Rightarrow> fw_error + overlay_info" where
  "OverlayInfoFromMergedDir getMounts dir =
     (let mergedDir = Clean dir in
      case getMounts of
        Inl err \<Rightarrow> Inl (FwWrap [''snapshot: get overlay mounts''] err)
      | Inr mounts \<Rightarrow>
          (case pick_mount mergedDir mounts of
             Some m \<Rightarrow> overlayInfoFromMountinfo m mergedDir
           | None \<Rightarrow> Inl (FwWrap [''snapshot'', mergedDir] ErrMountNotFound)))"

definition overlayInfoFromOverlayMount :: "ctd_mount \<Rightarrow> string \<Rightarrow> fw_error + overlay_info" where
  "overlayInfoFromOverlayMount m mergedDir =
     (let opts = parseSliceKVOptions (cm_Options m); lower = opt_str opts ''lowerdir'' in
      if lower = '''' then Inl (FwMsg [''snapshot: overlay mount missing lowerdir option''])
      else Inr (NewOverlayInfo mergedDir (opt_str opts ''upperdir'') (opt_str opts ''workdir'')
             (map Clean (split_on CHR '':'' lower))))"

fun overlayInfoFromMounts :: "ctd_mount list \<Rightarrow> string \<Rightarrow> fw_error + overlay_info" where
  "overlayInfoFromMounts [] mergedDir = Inl (FwMsg [''snapshot: no overlay or bind mount found''])"
| "overlayInfoFromMounts (m # ms) mergedDir =
     (if cm_Type m = ''overlay'' then overlayInfoFromOverlayMount m mergedDir
      else if cm_Type m = ''bind'' then Inr (NewOverlayInfo mergedDir '''' '''' [cm_Source m])
      else overlayInfoFromMounts ms mergedDir)"

definition OverlayInfoFromSnapshotter :: "snapshotter \<Rightarrow> string \<Rightarrow> string \<Rightarrow> fw_error + overlay_info" where
  "OverlayInfoFromSnapshotter sn key mergedDir =
     (case sn_Mounts sn key of
        Inl err \<Rightarrow> Inl (FwWrap [''snapshot: snapshotter.Mounts'', key] err)
      | Inr mounts \<Rightarrow>
          (case overlayInfoFromMounts mounts mergedDir of
             Inl err \<Rightarrow> Inl (FwWrap [''snapshot: overlay info from mounts for'', key] err)
           | Inr info \<Rightarrow> Inr info))"

definition ResolveOverlayInfo :: "fw_error + mount_entry list \<Rightarrow> string \<Rightarrow> snapshotter option \<Rightarrow> string \<Rightarrow> fw_error + overlay_info" where
  "ResolveOverlayInfo getMounts mergedDir sn key =
     (case OverlayInfoFromMergedDir getMounts mergedDir of
        Inr info \<Rightarrow> Inr info
      | Inl err \<Rightarrow>
          (case sn of
             None \<Rightarrow> Inl err
           | Some sn \<Rightarrow>
               (if key = '''' then Inl err
                else case OverlayInfoFromSnapshotter sn key mergedDir of
                  Inr info \<Rightarrow> Inr info
                | Inl snErr \<Rightarrow> Inl (FwWrap [''snapshot: both strategies failed''] err))))"

definition live_overlays :: "mount_entry list \<Rightarrow> (string \<times> overlay_info) list" where
  "live_overlays mounts =
     List.map_filter (\<lambda>m. case overlayInfoFromMountinfo m (Clean (mi_Mountpoint m)) of
        Inl err \<Rightarrow> None | Inr info \<Rightarrow> Some (Clean (mi_Mountpoint m), info)) mounts"

definition AllOverlayMounts :: "fw_error + mount_entry list \<Rightarrow> fw_error + (string \<times> overlay_info) list" where
  "AllOverlayMounts getMounts =
     (case getMounts of
        Inl err \<Rightarrow> Inl (FwWrap [''snapshot: enumerate overlay mounts''] err)
      | Inr mounts \<Rightarrow> Inr (sort_key fst (live_overlays mounts)))"

definition ContainerdSnapshotMounts :: "fw_error + mount_entry list \<Rightarrow> string \<Rightarrow> fw_error + (string \<times> overlay_info) list" where
  "ContainerdSnapshotMounts getMounts snapshotterRoot =
     (let r = Clean snapshotterRoot in
      case AllOverlayMounts getMounts of
        Inl err \<Rightarrow> Inl err
      | Inr entries \<Rightarrow> Inr (filter (\<lambda>e. list_ex (\<lambda>lower. HasPrefix lower (r @ ''/'')) (oi_LowerDirs (snd e))) entries))"

text \<open>The walk along the parents: \<open>None\<close> is a loop that never returns.\<close>

partial_function (option) ancestor_loop ::
  "(string \<Rightarrow> fw_error + snap_info) \<Rightarrow> string list \<Rightarrow> snap_info list \<Rightarrow> string \<Rightarrow> (fw_error + snap_info list) option" where
  "ancestor_loop stat visited chain current =
     (if current = '''' then Some (Inr chain)
      else if current \<in> set visited then Some (Inl (FwMsg [''snapshot: cycle detected at key'', current]))
      else case stat current of
        Inl err \<Rightarrow> Some (Inl (FwWrap [''snapshot: stat'', current] err))
      | Inr info \<Rightarrow> ancestor_loop stat (current # visited) (chain @ [info]) (si_Parent info))"

definition SnapshotAncestors :: "snapshotter \<Rightarrow> string \<Rightarrow> (fw_error + snap_info list) option" where
  "SnapshotAncestors sn key = ancestor_loop (sn_Stat sn) [] [] key"

section \<open>Enrichers (snapshot/enricher.go)\<close>

text \<open>Attaching an overlay to an event whose path lies below its merged directory.\<close>

definition attach_overlay :: "(string \<Rightarrow> bool) \<Rightarrow> overlay_info \<Rightarrow> 'v enriched_event \<Rightarrow> 'v enriched_event" where
  "attach_overlay exists o' e =
     (case RelPath o' (re_Path e) of
        Inl err \<Rightarrow> e
      | Inr relPath \<Rightarrow> e\<lparr>ee_Overlay := Some o', ee_SourceLayer := ResolveLayer exists o' relPath\<rparr>)"

type_synonym overlay_cache = "(string \<times> overlay_info) list"

definition find_containing :: "string \<Rightarrow> overlay_cache \<Rightarrow> overlay_info option" where
  "find_containing path cache = map_option snd (find (\<lambda>e. ContainsPath (snd e) path) cache)"

definition add_missing :: "string \<times> overlay_info \<Rightarrow> overlay_cache \<Rightarrow> overlay_cache" where
  "add_missing m cache = (if fst m \<in> fst ` set cache then cache else cache @ [m])"

definition resolveForPath :: "fw_error + mount_entry list \<Rightarrow> string \<Rightarrow> overlay_cache \<Rightarrow> (fw_error + overlay_info option) \<times> overlay_cache" where
  "resolveForPath getMounts path cache =
     (case find_containing path cache of
        Some info \<Rightarrow> (Inr (Some info), cache)
      | None \<Rightarrow>
          (case AllOverlayMounts getMounts of
             Inl err \<Rightarrow> (Inl (FwWrap [''containerd enricher: enumerate overlay mounts''] err), cache)
           | Inr mounts \<Rightarrow> (let cache = fold add_missing mounts cache in (Inr (find_containing path cache), cache))))"

definition ContainerdEnricher_Transform ::
  "(string \<Rightarrow> bool) \<Rightarrow> fw_error + mount_entry list \<Rightarrow> 'v enriched_event \<Rightarrow> overlay_cache \<Rightarrow> (fw_error option \<times> 'v enriched_event) \<times> overlay_cache" where
  "ContainerdEnricher_Transform exists getMounts e cache =
     (case resolveForPath getMounts (re_Path e) cache of
        (Inr (Some o'), cache) \<Rightarrow> ((None, attach_overlay exists o' e), cache)
      | (_, cache) \<Rightarrow> ((None, e), cache))"

definition InvalidateCache :: "overlay_cache \<Rightarrow> overlay_cache" where "InvalidateCache cache = []"

definition CachedEntries :: "overlay_cache \<Rightarrow> (string \<rightharpoonup> overlay_info)" where "CachedEntries cache = map_of cache"

text \<open>
  \<open>resolveForKey\<close> looks into the cache twice, as it is before (\<open>c1\<close>) and after (\<open>c2\<close>) the call of
  the snapshotter, which runs without the lock; it gives the cache it leaves.
\<close>

definition resolveForKey ::
  "snapshotter \<Rightarrow> string \<Rightarrow> string \<Rightarrow> (string \<rightharpoonup> overlay_info) \<Rightarrow> (string \<rightharpoonup> overlay_info) \<Rightarrow> (fw_error + overlay_info) \<times> (string \<rightharpoonup> overlay_info)" where
  "resolveForKey sn mergedDir key c1 c2 =
     (case c1 key of
        Some info \<Rightarrow> (Inr info, c1)
      | None \<Rightarrow>
          (case OverlayInfoFromSnapshotter sn key mergedDir of
             Inl err \<Rightarrow> (Inl err, c2)
           | Inr info \<Rightarrow>
               (case c2 key of Some existing \<Rightarrow> (Inr existing, c2) | None \<Rightarrow> (Inr info, c2(key \<mapsto> info)))))"

definition SnapshotterEnricher_Transform ::
  "(string \<Rightarrow> bool) \<Rightarrow> snapshotter \<Rightarrow> string \<Rightarrow> ('v enriched_event \<Rightarrow> string) \<Rightarrow> 'v enriched_event \<Rightarrow> (string \<rightharpoonup> overlay_info) \<Rightarrow> (string \<rightharpoonup> overlay_info)
    \<Rightarrow> (fw_error option \<times> 'v enriched_event) \<times> (string \<rightharpoonup> overlay_info)" where
  "SnapshotterEnricher_Transform exists sn mergedDir keyFn e c1 c2 =
     (if keyFn e = '''' then ((None, e), c1)
      else case resolveForKey sn mergedDir (keyFn e) c1 c2 of
        (Inl err, c) \<Rightarrow> ((None, e), c)
      | (Inr o', c) \<Rightarrow> ((None, attach_overlay exists o' e), c))"

definition NewMountEnricher :: "ctd_mount list \<Rightarrow> string \<Rightarrow> fw_error + overlay_info" where
  "NewMountEnricher mounts mergedDir =
     (case overlayInfoFromMounts mounts mergedDir of
        Inl err \<Rightarrow> Inl (FwWrap [''snapshot: build mount enricher''] err)
      | Inr info \<Rightarrow> Inr info)"

definition MountEnricher_Transform :: "(string \<Rightarrow> bool) \<Rightarrow> overlay_info \<Rightarrow> 'v transformer" where
  "MountEnricher_Transform exists o' ctx e = (None, attach_overlay exists o' e)"

text \<open>\<open>str\<close> and \<open>labels\<close> put a string and a label map into an attribute value.\<close>

definition SnapshotInfoTransformer ::
  "(string \<Rightarrow> 'v) \<Rightarrow> ((string \<times> string) list \<Rightarrow> 'v) \<Rightarrow> snapshotter \<Rightarrow> ('v enriched_event \<Rightarrow> string) \<Rightarrow> 'v transformer" where
  "SnapshotInfoTransformer str labels sn keyFn ctx e =
     (let key = keyFn e in
      if key = '''' then (None, e)
      else case sn_Stat sn key of
        Inl err \<Rightarrow> (None, e)
      | Inr info \<Rightarrow>
          (let e = SetAttr ''containerd.snapshot.name'' (Some (str (si_Name info))) e;
               e = SetAttr ''containerd.snapshot.kind'' (Some (str (si_Kind info))) e;
               e = SetAttr ''containerd.snapshot.parent'' (Some (str (si_Parent info))) e
           in (None, if length (si_Labels info) > 0 then SetAttr ''containerd.snapshot.labels'' (Some (labels (si_Labels info))) e else e)))"

definition UpperDirWritesFilter :: "'v fw_filter" where "UpperDirWritesFilter = UpperDirOnlyFilter"

definition ImageLayerFilter :: "'v fw_filter" where "ImageLayerFilter = LowerDirOnlyFilter"

definition MountsToOverlayInfo :: "ctd_mount list \<Rightarrow> string \<Rightarrow> fw_error + overlay_info" where
  "MountsToOverlayInfo = overlayInfoFromMounts"

section \<open>Facts\<close>

text \<open>Two enrichers share the code path of \<open>OverlayEnricher\<close>.\<close>

lemma MountEnricher_is_OverlayEnricher: "MountEnricher_Transform exists o' = OverlayEnricher exists o'"
  by (simp add: fun_eq_iff MountEnricher_Transform_def OverlayEnricher_def attach_overlay_def split: sum.split)

text \<open>Whoever resolves a key gets what the cache holds from then on: the first store wins a race.\<close>

lemma resolveForKey_agrees:
  "resolveForKey sn mergedDir key c1 c2 = (Inr info, c) \<Longrightarrow> c key = Some info"
  by (auto simp: resolveForKey_def split: option.splits sum.splits)

lemma resolveForKey_keeps:
  "c1 \<subseteq>\<^sub>m c2 \<Longrightarrow> resolveForKey sn mergedDir key c1 c2 = (r, c) \<Longrightarrow> c1 \<subseteq>\<^sub>m c"
  by (auto simp: resolveForKey_def map_le_def split: option.splits sum.splits)

text \<open>The kind that \<open>SnapshotInfoTransformer\<close> attaches is not the attribute that the kind filter reads.\<close>

lemma kind_filter_misses_transformer:
  "ContainerdKindFilter kind ctx' (snd (SnapshotInfoTransformer str labels sn keyFn ctx e)) = ContainerdKindFilter kind ctx' e"
  by (auto simp: ContainerdKindFilter_def AttrValueFilter_def SnapshotInfoTransformer_def Attr_SetAttr Let_def split: sum.split)

subsection \<open>Ancestors\<close>

text \<open>\<open>ks\<close> are the keys from \<open>k\<close> along the parents, up to a snapshot without a parent.\<close>

fun parent_path :: "(string \<Rightarrow> fw_error + snap_info) \<Rightarrow> string \<Rightarrow> string list \<Rightarrow> bool" where
  "parent_path stat k [] \<longleftrightarrow> k = ''''"
| "parent_path stat k (k' # ks) \<longleftrightarrow> k = k' \<and> k \<noteq> '''' \<and>
     (case stat k of Inl err \<Rightarrow> False | Inr info \<Rightarrow> parent_path stat (si_Parent info) ks)"

lemma parent_path_unique: "parent_path stat k ks \<Longrightarrow> parent_path stat k ks' \<Longrightarrow> ks = ks'"
proof (induction ks arbitrary: k ks')
  case (Cons a ks)
  then show ?case by (cases ks') (auto split: sum.splits)
qed (auto elim: parent_path.elims)

lemma parent_path_drop: "parent_path stat k (us @ a # vs) \<Longrightarrow> parent_path stat a (a # vs)"
  by (induction us arbitrary: k) (auto split: sum.splits)

lemma parent_path_distinct: "parent_path stat k ks \<Longrightarrow> distinct ks"
proof (rule ccontr)
  assume p: "parent_path stat k ks" and "\<not> distinct ks"
  then obtain us vs ws a where ks: "ks = us @ [a] @ vs @ [a] @ ws" using not_distinct_decomp by metis
  then have "parent_path stat a (a # vs @ a # ws)" "parent_path stat a (a # ws)"
    using p parent_path_drop [of stat k us a "vs @ a # ws"] parent_path_drop [of stat k "us @ a # vs" a ws] by simp_all
  from parent_path_unique [OF this] have "length (vs @ a # ws) = length ws" by simp
  then show False by simp
qed

definition infos :: "(string \<Rightarrow> fw_error + snap_info) \<Rightarrow> string list \<Rightarrow> snap_info list" where
  "infos stat ks = map (\<lambda>k. projr (stat k)) ks"

lemma ancestor_loop_path:
  "parent_path stat k ks \<Longrightarrow> distinct ks \<Longrightarrow> set ks \<inter> set visited = {} \<Longrightarrow>
     ancestor_loop stat visited chain k = Some (Inr (chain @ infos stat ks))"
proof (induction ks arbitrary: k visited chain)
  case Nil
  then show ?case by (simp add: ancestor_loop.simps infos_def)
next
  case (Cons a ks)
  then obtain info where "stat k = Inr info" "parent_path stat (si_Parent info) ks" "k = a" "k \<noteq> ''''"
    by (auto split: sum.splits)
  with Cons show ?case by (subst ancestor_loop.simps) (simp add: infos_def)
qed

lemma ancestor_loop_sound:
  assumes "ancestor_loop stat visited chain k = Some res"
  shows "case res of Inl err \<Rightarrow> True | Inr infs \<Rightarrow> \<exists>ks. parent_path stat k ks \<and> infs = chain @ infos stat ks"
    (is "?P stat visited chain k res")
proof (rule ancestor_loop.raw_induct [where P = ?P, OF _ assms])
  fix loop stat visited chain k res
  assume IH: "\<And>stat visited chain k res. loop stat visited chain k = Some res \<Longrightarrow> ?P stat visited chain k res"
    and eq: "(if k = '''' then Some (Inr chain)
      else if k \<in> set visited then Some (Inl (FwMsg [''snapshot: cycle detected at key'', k]))
      else case stat k of
        Inl err \<Rightarrow> Some (Inl (FwWrap [''snapshot: stat'', k] err))
      | Inr info \<Rightarrow> loop stat (k # visited) (chain @ [info]) (si_Parent info)) = Some res"
  show "?P stat visited chain k res"
  proof (cases "k = ''''")
    case True
    then show ?thesis using eq by (auto simp: infos_def intro!: exI [of _ "[]"])
  next
    case k: False
    show ?thesis
    proof (cases "k \<in> set visited")
      case True
      then show ?thesis using eq k by auto
    next
      case v: False
      show ?thesis
      proof (cases "stat k")
        case (Inl err)
        then show ?thesis using eq k v by auto
      next
        case (Inr info)
        then have "loop stat (k # visited) (chain @ [info]) (si_Parent info) = Some res" using eq k v by simp
        from IH [OF this] have r: "case res of Inl err \<Rightarrow> True
          | Inr infs \<Rightarrow> \<exists>ks. parent_path stat (si_Parent info) ks \<and> infs = (chain @ [info]) @ infos stat ks" .
        show ?thesis
        proof (cases res)
          case (Inr infs)
          then obtain ks where "parent_path stat (si_Parent info) ks" "infs = chain @ info # infos stat ks" using r by auto
          then have "parent_path stat k (k # ks)" "infs = chain @ infos stat (k # ks)"
            using k \<open>stat k = Inr info\<close> by (simp_all add: infos_def)
          then show ?thesis unfolding Inr sum.case by blast
        qed simp
      qed
    qed
  qed
qed

lemma ancestor_loop_terminates:
  assumes "finite K" "\<And>k info. k \<in> K \<Longrightarrow> stat k = Inr info \<Longrightarrow> si_Parent info \<in> insert '''' K" "k \<in> insert '''' K"
  shows "\<exists>res. ancestor_loop stat visited chain k = Some res"
  using assms(3)
proof (induction "card (K - set visited)" arbitrary: visited chain k rule: less_induct)
  case less
  show ?case
  proof (cases "k = '''' \<or> k \<in> set visited")
    case True
    then show ?thesis by (auto simp: ancestor_loop.simps)
  next
    case False
    show ?thesis
    proof (cases "stat k")
      case (Inl err)
      then show ?thesis using False by (auto simp: ancestor_loop.simps)
    next
      case (Inr info)
      have "K - set (k # visited) \<subset> K - set visited" using False less.prems by auto
      then have "card (K - set (k # visited)) < card (K - set visited)" using assms(1) by (intro psubset_card_mono) auto
      moreover have "si_Parent info \<in> insert '''' K" using assms(2) [OF _ Inr] False less.prems by auto
      ultimately have "\<exists>res. ancestor_loop stat (k # visited) (chain @ [info]) (si_Parent info) = Some res" by (rule less.hyps)
      moreover have "ancestor_loop stat visited chain k = ancestor_loop stat (k # visited) (chain @ [info]) (si_Parent info)"
        using False Inr by (subst ancestor_loop.simps) simp
      ultimately show ?thesis by simp
    qed
  qed
qed

section \<open>Properties\<close>

text \<open>
  \<open>SnapshotAncestors\<close> succeeds exactly when the chain of parents from the key ends in a
  snapshot without a parent, and then gives the \<open>Stat\<close> of each snapshot of that chain once, the key's
  own first and its oldest ancestor last.
\<close>

theorem SnapshotAncestors_follows_parents:
  "SnapshotAncestors sn key = Some (Inr chain) \<longleftrightarrow> (\<exists>ks. parent_path (sn_Stat sn) key ks \<and> chain = infos (sn_Stat sn) ks)"
  using ancestor_loop_sound [of "sn_Stat sn" "[]" "[]" key "Inr chain"] ancestor_loop_path [of "sn_Stat sn" key _ "[]" "[]"]
    parent_path_distinct [of "sn_Stat sn" key]
  by (auto simp: SnapshotAncestors_def)

text \<open>
  If the parents of finitely many snapshots stay among them, \<open>SnapshotAncestors\<close> returns on
  each of them, also when their parents form a cycle.
\<close>

theorem SnapshotAncestors_returns:
  assumes "finite K" "\<And>k info. k \<in> K \<Longrightarrow> sn_Stat sn k = Inr info \<Longrightarrow> si_Parent info \<in> insert '''' K" "key \<in> insert '''' K"
  shows "\<exists>res. SnapshotAncestors sn key = Some res"
  unfolding SnapshotAncestors_def by (rule ancestor_loop_terminates [OF assms])

definition cyclic_snapshotter :: snapshotter where
  "cyclic_snapshotter = \<lparr>sn_Mounts = \<lambda>k. Inl ErrNotSupported,
     sn_Stat = \<lambda>k. Inr \<lparr>si_Name = k, si_Kind = ''committed'', si_Parent = (if k = ''a'' then ''b'' else ''a''), si_Labels = []\<rparr>\<rparr>"

theorem SnapshotAncestors_returns_witness: "\<exists>res. SnapshotAncestors cyclic_snapshotter ''a'' = Some res"
  by (rule SnapshotAncestors_returns [of "{''a'', ''b''}"]) (auto simp: cyclic_snapshotter_def)

end
