(* ===== verification/Cs_Writer.thy ===== *)
theory Cs_Writer
  imports Prelude
begin

text \<open>
  Content stores, first part: the containerd interfaces that \<open>core/content\<close> is written against
  (errors, info, status, options, \<open>content.Writer\<close> and \<open>content.Store\<close> as records of operations
  over a world), the no-op and mock implementations (\<open>store/noop\<close>, \<open>testutil/mock.go\<close>), and the
  writers that combine others: \<open>writer/fanout\<close> and \<open>writer/resilient\<close>. A store that the
  combinators receive is a parameter. The world \<open>'w rworld\<close> carries the \<open>failed\<close> flags of the
  resilient writers, one per wrapper, beside the world of the stores.
\<close>

section \<open>Interfaces\<close>

datatype c_error =
    CNotFound
  | CReadOnly
  | CMsg "string list"
  | CWrap "string list" c_error
  | CJoin "c_error list"

text \<open>\<open>errdefs.IsNotFound\<close>: the error or one it wraps is the not-found error.\<close>

fun IsNotFound :: "c_error \<Rightarrow> bool" where
  "IsNotFound CNotFound \<longleftrightarrow> True"
| "IsNotFound (CWrap msg e) \<longleftrightarrow> IsNotFound e"
| "IsNotFound (CJoin es) \<longleftrightarrow> (\<exists>e \<in> set es. IsNotFound e)"
| "IsNotFound e \<longleftrightarrow> False"

definition c_Join :: "c_error list \<Rightarrow> c_error option" where
  "c_Join es = (if es = [] then None else Some (CJoin es))"

record content_info =
  ci_Digest :: string
  ci_Size :: int
  ci_CreatedAt :: int
  ci_UpdatedAt :: int
  ci_Labels :: "string \<rightharpoonup> string"

record content_status =
  cs_Ref :: string
  cs_Offset :: int
  cs_Total :: int
  cs_Expected :: string
  cs_StartedAt :: int
  cs_UpdatedAt :: int

record descriptor =
  de_MediaType :: string
  de_Digest :: string
  de_Size :: int

record writer_opts =
  wo_Ref :: string
  wo_Desc :: descriptor

text \<open>Options change the struct they are given and may fail.\<close>

type_synonym writer_opt = "writer_opts \<Rightarrow> c_error option \<times> writer_opts"
type_synonym info_opt = "content_info \<Rightarrow> c_error option \<times> content_info"

definition zero_info :: content_info where
  "zero_info = \<lparr>ci_Digest = '''', ci_Size = 0, ci_CreatedAt = 0, ci_UpdatedAt = 0, ci_Labels = Map.empty\<rparr>"

definition zero_status :: content_status where
  "zero_status = \<lparr>cs_Ref = '''', cs_Offset = 0, cs_Total = 0, cs_Expected = '''', cs_StartedAt = 0, cs_UpdatedAt = 0\<rparr>"

record content_reader =
  cr_ReadAt :: "bytes \<Rightarrow> int \<Rightarrow> nat \<times> bytes"
  cr_Size :: int

record 'w content_writer =
  cw_Write :: "bytes \<Rightarrow> 'w \<Rightarrow> (nat \<times> c_error option) \<times> 'w"
  cw_Commit :: "int \<Rightarrow> string \<Rightarrow> info_opt list \<Rightarrow> 'w \<Rightarrow> c_error option \<times> 'w"
  cw_Truncate :: "int \<Rightarrow> 'w \<Rightarrow> c_error option \<times> 'w"
  cw_Close :: "'w \<Rightarrow> c_error option \<times> 'w"
  cw_Digest :: "'w \<Rightarrow> string"
  cw_Status :: "'w \<Rightarrow> c_error + content_status"

text \<open>
  \<open>so_Update\<close> gives both results of the method, an info and an error, because some stores return both.
  \<open>so_Walk\<close> gives the infos that a store's \<open>Walk\<close> presents for the filters and the store's own error;
  \<open>visit\<close> calls the caller's function on them and stops at its first error.
\<close>

record 'w content_store =
  so_Info :: "string \<Rightarrow> 'w \<Rightarrow> (c_error + content_info) \<times> 'w"
  so_ReaderAt :: "descriptor \<Rightarrow> 'w \<Rightarrow> (c_error + content_reader) \<times> 'w"
  so_Status :: "string \<Rightarrow> 'w \<Rightarrow> (c_error + content_status) \<times> 'w"
  so_ListStatuses :: "string list \<Rightarrow> 'w \<Rightarrow> (c_error + content_status list) \<times> 'w"
  so_Walk :: "string list \<Rightarrow> 'w \<Rightarrow> (content_info list \<times> c_error option) \<times> 'w"
  so_Delete :: "string \<Rightarrow> 'w \<Rightarrow> c_error option \<times> 'w"
  so_Abort :: "string \<Rightarrow> 'w \<Rightarrow> c_error option \<times> 'w"
  so_Update :: "content_info \<Rightarrow> string list \<Rightarrow> 'w \<Rightarrow> (content_info \<times> c_error option) \<times> 'w"
  so_Writer :: "writer_opt list \<Rightarrow> 'w \<Rightarrow> (c_error + 'w content_writer) \<times> 'w"

fun visit :: "(content_info \<Rightarrow> 'w \<Rightarrow> c_error option \<times> 'w) \<Rightarrow> content_info list \<Rightarrow> c_error option \<Rightarrow> 'w \<Rightarrow> c_error option \<times> 'w" where
  "visit fn [] own w = (own, w)"
| "visit fn (i # is) own w =
     (case fn i w of (Some e, w') \<Rightarrow> (Some e, w') | (None, w') \<Rightarrow> visit fn is own w')"

section \<open>No-op and mock implementations\<close>

definition noop_ReaderAt :: content_reader where
  "noop_ReaderAt = \<lparr>cr_ReadAt = \<lambda>p off. (length p, p), cr_Size = -1\<rparr>"

definition noop_Writer :: "'w content_writer" where
  "noop_Writer = \<lparr>cw_Write = \<lambda>p w. ((length p, None), w), cw_Commit = \<lambda>sz dgst opts w. (None, w),
     cw_Truncate = \<lambda>sz w. (None, w), cw_Close = \<lambda>w. (None, w), cw_Digest = \<lambda>w. '''', cw_Status = \<lambda>w. Inr zero_status\<rparr>"

definition noop_Store :: "'w content_store" where
  "noop_Store = \<lparr>so_Info = \<lambda>d w. (Inr zero_info, w), so_ReaderAt = \<lambda>d w. (Inr noop_ReaderAt, w),
     so_Status = \<lambda>r w. (Inr zero_status, w), so_ListStatuses = \<lambda>fs w. (Inr [], w), so_Walk = \<lambda>fs w. (([], None), w),
     so_Delete = \<lambda>d w. (None, w), so_Abort = \<lambda>r w. (None, w), so_Update = \<lambda>i fs w. ((i, None), w),
     so_Writer = \<lambda>opts w. (Inr noop_Writer, w)\<rparr>"

text \<open>A mock store has an optional function for every operation; a missing one is the no-op.\<close>

record 'w mock_store =
  mk_AbortFn :: "(string \<Rightarrow> 'w \<Rightarrow> c_error option \<times> 'w) option"
  mk_DeleteFn :: "(string \<Rightarrow> 'w \<Rightarrow> c_error option \<times> 'w) option"
  mk_InfoFn :: "(string \<Rightarrow> 'w \<Rightarrow> (c_error + content_info) \<times> 'w) option"
  mk_ListStatusesFn :: "(string list \<Rightarrow> 'w \<Rightarrow> (c_error + content_status list) \<times> 'w) option"
  mk_ReaderAtFn :: "(descriptor \<Rightarrow> 'w \<Rightarrow> (c_error + content_reader) \<times> 'w) option"
  mk_StatusFn :: "(string \<Rightarrow> 'w \<Rightarrow> (c_error + content_status) \<times> 'w) option"
  mk_UpdateFn :: "(content_info \<Rightarrow> string list \<Rightarrow> 'w \<Rightarrow> (content_info \<times> c_error option) \<times> 'w) option"
  mk_WalkFn :: "(string list \<Rightarrow> 'w \<Rightarrow> (content_info list \<times> c_error option) \<times> 'w) option"
  mk_WriterFn :: "(writer_opt list \<Rightarrow> 'w \<Rightarrow> (c_error + 'w content_writer) \<times> 'w) option"

definition or_else :: "'a option \<Rightarrow> 'a \<Rightarrow> 'a" where "or_else x d = (case x of None \<Rightarrow> d | Some y \<Rightarrow> y)"

definition MockStore :: "'w mock_store \<Rightarrow> 'w content_store" where
  "MockStore m = \<lparr>so_Info = or_else (mk_InfoFn m) (so_Info noop_Store), so_ReaderAt = or_else (mk_ReaderAtFn m) (so_ReaderAt noop_Store),
     so_Status = or_else (mk_StatusFn m) (so_Status noop_Store), so_ListStatuses = or_else (mk_ListStatusesFn m) (so_ListStatuses noop_Store),
     so_Walk = or_else (mk_WalkFn m) (so_Walk noop_Store), so_Delete = or_else (mk_DeleteFn m) (so_Delete noop_Store),
     so_Abort = or_else (mk_AbortFn m) (so_Abort noop_Store), so_Update = or_else (mk_UpdateFn m) (so_Update noop_Store),
     so_Writer = or_else (mk_WriterFn m) (so_Writer noop_Store)\<rparr>"

record 'w mock_writer =
  mw_WriteFn :: "(bytes \<Rightarrow> 'w \<Rightarrow> (nat \<times> c_error option) \<times> 'w) option"
  mw_CommitFn :: "(int \<Rightarrow> string \<Rightarrow> info_opt list \<Rightarrow> 'w \<Rightarrow> c_error option \<times> 'w) option"
  mw_DigestFn :: "('w \<Rightarrow> string) option"
  mw_StatusFn :: "('w \<Rightarrow> c_error + content_status) option"
  mw_TruncateFn :: "(int \<Rightarrow> 'w \<Rightarrow> c_error option \<times> 'w) option"
  mw_CloseFn :: "('w \<Rightarrow> c_error option \<times> 'w) option"

definition MockWriter :: "'w mock_writer \<Rightarrow> 'w content_writer" where
  "MockWriter m = \<lparr>cw_Write = or_else (mw_WriteFn m) (cw_Write noop_Writer), cw_Commit = or_else (mw_CommitFn m) (cw_Commit noop_Writer),
     cw_Truncate = or_else (mw_TruncateFn m) (cw_Truncate noop_Writer), cw_Close = or_else (mw_CloseFn m) (cw_Close noop_Writer),
     cw_Digest = or_else (mw_DigestFn m) (cw_Digest noop_Writer), cw_Status = or_else (mw_StatusFn m) (cw_Status noop_Writer)\<rparr>"

section \<open>Running calls concurrently\<close>

text \<open>
  A schedule gives, for every number of goroutines, the order in which their calls take effect;
  each call is atomic.
\<close>

type_synonym schedule = "nat \<Rightarrow> nat list"

definition is_schedule :: "schedule \<Rightarrow> bool" where
  "is_schedule sch \<longleftrightarrow> (\<forall>n. mset (sch n) = mset [0..<n])"

text \<open>Errors appended under a lock, in the order of the calls.\<close>

fun run_errs :: "('a \<Rightarrow> 'w \<Rightarrow> c_error option \<times> 'w) \<Rightarrow> 'a list \<Rightarrow> 'w \<Rightarrow> c_error list \<times> 'w" where
  "run_errs fn [] w = ([], w)"
| "run_errs fn (x # xs) w =
     (let (err, w') = fn x w; (errs, w'') = run_errs fn xs w' in
      ((case err of None \<Rightarrow> errs | Some e \<Rightarrow> e # errs), w''))"

section \<open>Fan-out writer (writer/fanout)\<close>

fun fanout_Write :: "'w content_writer list \<Rightarrow> bytes \<Rightarrow> 'w \<Rightarrow> (nat \<times> c_error option) \<times> 'w" where
  "fanout_Write [] p w = ((length p, None), w)"
| "fanout_Write (x # xs) p w =
     (case cw_Write x p w of
        ((n, Some err), w') \<Rightarrow> ((n, Some (CWrap [''fanout write''] err)), w')
      | ((n, None), w') \<Rightarrow>
          (if n \<noteq> length p then ((n, Some (CMsg [''fanout write: short write''])), w')
           else fanout_Write xs p w'))"

definition fanout_all :: "schedule \<Rightarrow> ('w content_writer \<Rightarrow> 'w \<Rightarrow> c_error option \<times> 'w) \<Rightarrow> 'w content_writer list \<Rightarrow> 'w \<Rightarrow> c_error option \<times> 'w" where
  "fanout_all sch fn ws w =
     (let (errs, w') = run_errs (\<lambda>i. fn (ws ! i)) (sch (length ws)) w in (c_Join errs, w'))"

definition fanout_New :: "schedule \<Rightarrow> 'w content_writer list \<Rightarrow> 'w content_writer" where
  "fanout_New sch ws = \<lparr>cw_Write = fanout_Write ws,
     cw_Commit = \<lambda>sz expected opts. fanout_all sch (\<lambda>x. cw_Commit x sz expected opts) ws,
     cw_Truncate = \<lambda>sz w. (let (errs, w') = run_errs (\<lambda>x. cw_Truncate x sz) ws w in (c_Join errs, w')),
     cw_Close = fanout_all sch cw_Close ws,
     cw_Digest = \<lambda>w. (if ws = [] then '''' else cw_Digest (ws ! 0) w),
     cw_Status = \<lambda>w. (if ws = [] then Inl (CMsg [''fanout: no writers configured'']) else cw_Status (ws ! 0) w)\<rparr>"

section \<open>Resilient writer (writer/resilient)\<close>

record 'w rworld =
  rw_failed :: "bool list"
  rw_base :: 'w

definition markFailed :: "nat \<Rightarrow> 'w rworld content_writer \<Rightarrow> 'w rworld \<Rightarrow> 'w rworld" where
  "markFailed i inner w =
     (if rw_failed w ! i then w else snd (cw_Close inner (w\<lparr>rw_failed := (rw_failed w)[i := True]\<rparr>)))"

definition resilient_Write :: "nat \<Rightarrow> 'w rworld content_writer \<Rightarrow> bytes \<Rightarrow> 'w rworld \<Rightarrow> (nat \<times> c_error option) \<times> 'w rworld" where
  "resilient_Write i inner p w =
     (if rw_failed w ! i then ((length p, None), w)
      else case cw_Write inner p w of
        ((n, Some err), w') \<Rightarrow> ((length p, None), markFailed i inner w')
      | ((n, None), w') \<Rightarrow> ((length p, None), w'))"

definition absorb :: "nat \<Rightarrow> 'w rworld content_writer \<Rightarrow> ('w rworld \<Rightarrow> c_error option \<times> 'w rworld) \<Rightarrow> 'w rworld \<Rightarrow> c_error option \<times> 'w rworld" where
  "absorb i inner f w =
     (if rw_failed w ! i then (None, w)
      else case f w of
        (Some err, w') \<Rightarrow> (None, markFailed i inner w')
      | (None, w') \<Rightarrow> (None, w'))"

definition resilient_Commit :: "nat \<Rightarrow> 'w rworld content_writer \<Rightarrow> int \<Rightarrow> string \<Rightarrow> info_opt list \<Rightarrow> 'w rworld \<Rightarrow> c_error option \<times> 'w rworld" where
  "resilient_Commit i inner sz expected opts = absorb i inner (cw_Commit inner sz expected opts)"

definition resilient_Truncate :: "nat \<Rightarrow> 'w rworld content_writer \<Rightarrow> int \<Rightarrow> 'w rworld \<Rightarrow> c_error option \<times> 'w rworld" where
  "resilient_Truncate i inner sz = absorb i inner (cw_Truncate inner sz)"

definition resilient_Close :: "nat \<Rightarrow> 'w rworld content_writer \<Rightarrow> 'w rworld \<Rightarrow> c_error option \<times> 'w rworld" where
  "resilient_Close i inner w = (if rw_failed w ! i then (None, w) else cw_Close inner w)"

definition resilient_writer :: "nat \<Rightarrow> 'w rworld content_writer \<Rightarrow> 'w rworld content_writer" where
  "resilient_writer i inner = \<lparr>cw_Write = resilient_Write i inner, cw_Commit = resilient_Commit i inner,
     cw_Truncate = resilient_Truncate i inner, cw_Close = resilient_Close i inner,
     cw_Digest = cw_Digest inner, cw_Status = cw_Status inner\<rparr>"

text \<open>\<open>resilient.Wrap\<close> allocates the flag of the new writer.\<close>

definition resilient_Wrap :: "'w rworld content_writer \<Rightarrow> 'w rworld \<Rightarrow> 'w rworld content_writer \<times> 'w rworld" where
  "resilient_Wrap inner w =
     (resilient_writer (length (rw_failed w)) inner, w\<lparr>rw_failed := rw_failed w @ [False]\<rparr>)"

section \<open>Facts\<close>

lemma schedule_length: "is_schedule sch \<Longrightarrow> length (sch n) = n"
proof -
  assume "is_schedule sch"
  then have "size (mset (sch n)) = size (mset [0..<n])" by (simp add: is_schedule_def)
  then show ?thesis by simp
qed

lemma schedule_set: "is_schedule sch \<Longrightarrow> set (sch n) = {0..<n}"
proof -
  assume "is_schedule sch"
  then have "set_mset (mset (sch n)) = set_mset (mset [0..<n])" by (simp add: is_schedule_def)
  then show ?thesis by simp
qed

lemma schedule_distinct: "is_schedule sch \<Longrightarrow> distinct (sch n)"
  using distinct_upt [of 0 n] mset_eq_imp_distinct_iff [of "sch n" "[0..<n]"] by (simp add: is_schedule_def)

lemma c_Join_None [simp]: "c_Join es = None \<longleftrightarrow> es = []"
  by (simp add: c_Join_def)

lemma run_errs_append: "run_errs fn (xs @ ys) w =
    (let (e1, w1) = run_errs fn xs w; (e2, w2) = run_errs fn ys w1 in (e1 @ e2, w2))"
  by (induction xs arbitrary: w) (simp_all add: Let_def split_beta split: option.splits)

text \<open>What a fan-out write leaves behind: the writers before the first failing one have all the bytes.\<close>

lemma fanout_Write_all:
  "(\<forall>x \<in> set xs. \<forall>w. fst (cw_Write x p w) = (length p, None)) \<Longrightarrow>
     fanout_Write (xs @ ys) p w = fanout_Write ys p (fold (\<lambda>x w. snd (cw_Write x p w)) xs w)"
proof (induction xs arbitrary: w)
  case (Cons x xs)
  obtain w' where "cw_Write x p w = ((length p, None), w')" using Cons.prems by (cases "cw_Write x p w") (metis fst_conv list.set_intros(1))
  then show ?case using Cons by simp
qed simp

subsection \<open>Resilient writers\<close>

datatype rcall = RWrite bytes | RCommit int string "info_opt list" | RTruncate int

primrec run_call :: "nat \<Rightarrow> 'w rworld content_writer \<Rightarrow> rcall \<Rightarrow> 'w rworld \<Rightarrow> 'w rworld" where
  "run_call i inner (RWrite p) w = snd (resilient_Write i inner p w)"
| "run_call i inner (RCommit sz dgst opts) w = snd (resilient_Commit i inner sz dgst opts w)"
| "run_call i inner (RTruncate sz) w = snd (resilient_Truncate i inner sz w)"

text \<open>
  \<open>closes\<close> counts the calls of the inner \<open>Close\<close>; no operation of the inner writer touches the flag
  of its wrapper.
\<close>

definition counts_closes :: "nat \<Rightarrow> 'w rworld content_writer \<Rightarrow> ('w rworld \<Rightarrow> nat) \<Rightarrow> bool" where
  "counts_closes i inner closes \<longleftrightarrow>
     (\<forall>w. closes (snd (cw_Close inner w)) = Suc (closes w) \<and> rw_failed (snd (cw_Close inner w)) = rw_failed w) \<and>
     (\<forall>p w. closes (snd (cw_Write inner p w)) = closes w \<and> rw_failed (snd (cw_Write inner p w)) = rw_failed w) \<and>
     (\<forall>sz d os w. closes (snd (cw_Commit inner sz d os w)) = closes w \<and> rw_failed (snd (cw_Commit inner sz d os w)) = rw_failed w) \<and>
     (\<forall>sz w. closes (snd (cw_Truncate inner sz w)) = closes w \<and> rw_failed (snd (cw_Truncate inner sz w)) = rw_failed w) \<and>
     (\<forall>w fs. closes (w\<lparr>rw_failed := fs\<rparr>) = closes w)"

definition closed_iff_failed :: "nat \<Rightarrow> ('w rworld \<Rightarrow> nat) \<Rightarrow> nat \<Rightarrow> 'w rworld \<Rightarrow> bool" where
  "closed_iff_failed i closes c w \<longleftrightarrow> i < length (rw_failed w) \<and> closes w = c + (if rw_failed w ! i then 1 else 0)"

lemma markFailed_closes:
  assumes "counts_closes i inner closes" "closed_iff_failed i closes c w"
  shows "closed_iff_failed i closes c (markFailed i inner w)"
  using assms by (auto simp: counts_closes_def closed_iff_failed_def markFailed_def)

lemma unchanged_closes:
  "closes w' = closes w \<Longrightarrow> rw_failed w' = rw_failed w \<Longrightarrow> closed_iff_failed i closes c w \<Longrightarrow> closed_iff_failed i closes c w'"
  by (simp add: closed_iff_failed_def)

lemma absorb_closes:
  assumes c: "counts_closes i inner closes" "closed_iff_failed i closes c w"
    and f: "closes (snd (f w)) = closes w" "rw_failed (snd (f w)) = rw_failed w"
  shows "closed_iff_failed i closes c (snd (absorb i inner f w))"
proof -
  obtain r w' where "f w = (r, w')" by (cases "f w")
  moreover from this have "closed_iff_failed i closes c w'" using unchanged_closes [OF _ _ c(2)] f by simp
  ultimately show ?thesis using c(2) markFailed_closes [OF c(1)] by (auto simp: absorb_def split: option.split)
qed

lemma run_call_closes:
  assumes c: "counts_closes i inner closes" "closed_iff_failed i closes c w"
  shows "closed_iff_failed i closes c (run_call i inner call w)"
proof (cases call)
  case (RWrite p)
  obtain n r w' where e: "cw_Write inner p w = ((n, r), w')" by (metis prod.collapse)
  have "closes (snd (cw_Write inner p w)) = closes w" "rw_failed (snd (cw_Write inner p w)) = rw_failed w"
    using c(1) unfolding counts_closes_def by blast+
  with e have "closed_iff_failed i closes c w'" using unchanged_closes [OF _ _ c(2)] by simp
  then show ?thesis using RWrite e c(2) markFailed_closes [OF c(1)] by (auto simp: resilient_Write_def split: option.split)
next
  case (RCommit sz d os)
  then show ?thesis using absorb_closes [OF c] c(1) by (simp add: resilient_Commit_def counts_closes_def)
next
  case (RTruncate sz)
  then show ?thesis using absorb_closes [OF c] c(1) by (simp add: resilient_Truncate_def counts_closes_def)
qed

lemma run_calls_closes:
  "counts_closes i inner closes \<Longrightarrow> closed_iff_failed i closes c w \<Longrightarrow> closed_iff_failed i closes c (fold (run_call i inner) calls w)"
  by (induction calls arbitrary: w) (simp_all add: run_call_closes)

section \<open>Properties\<close>

text \<open>
  A resilient writer releases the writer it wraps exactly once: after any writes, commits and
  truncations, failing or not, and a final \<open>Close\<close>, the inner \<open>Close\<close> has been called once.
\<close>

theorem resilient_closes_inner_once:
  assumes "counts_closes i inner closes" "i < length (rw_failed w)" "\<not> rw_failed w ! i"
  shows "closes (snd (resilient_Close i inner (fold (run_call i inner) calls w))) = Suc (closes w)"
proof -
  have "closed_iff_failed i closes (closes w) w" using assms(2,3) by (simp add: closed_iff_failed_def)
  from run_calls_closes [OF assms(1) this, of calls] show ?thesis
    using assms(1) by (auto simp: resilient_Close_def closed_iff_failed_def counts_closes_def)
qed

definition failing_writer :: "nat rworld content_writer" where
  "failing_writer = noop_Writer\<lparr>cw_Write := \<lambda>p w. ((0, Some (CMsg [''disk full''])), w), cw_Close := \<lambda>w. (None, w\<lparr>rw_base := Suc (rw_base w)\<rparr>)\<rparr>"

theorem resilient_closes_inner_once_witness:
  "rw_base (snd (resilient_Close 0 failing_writer (fold (run_call 0 failing_writer) [RWrite [1], RWrite [2], RTruncate 0]
     \<lparr>rw_failed = [False], rw_base = 0\<rparr>))) = Suc (rw_base \<lparr>rw_failed = [False], rw_base = 0 :: nat\<rparr>)"
  by (rule resilient_closes_inner_once) (simp_all add: counts_closes_def failing_writer_def noop_Writer_def)

text \<open>
  A fan-out write that fails stops at the failing writer: the writers before it have taken all
  the bytes and those behind it none, so the writers no longer hold the same content.
\<close>

theorem fanout_Write_stops_at_failure:
  assumes "\<forall>x \<in> set xs. \<forall>w. fst (cw_Write x p w) = (length p, None)"
    and "cw_Write x p (fold (\<lambda>x w. snd (cw_Write x p w)) xs w) = ((n, Some err), w')"
  shows "cw_Write (fanout_New sch (xs @ x # ys)) p w = ((n, Some (CWrap [''fanout write''] err)), w')"
  using assms by (simp add: fanout_New_def fanout_Write_all)

definition appending_writer :: "bytes rworld content_writer" where
  "appending_writer = noop_Writer\<lparr>cw_Write := \<lambda>p w. ((length p, None), w\<lparr>rw_base := rw_base w @ p\<rparr>)\<rparr>"

definition rejecting_writer :: "bytes rworld content_writer" where
  "rejecting_writer = noop_Writer\<lparr>cw_Write := \<lambda>p w. ((0, Some CReadOnly), w)\<rparr>"

theorem fanout_Write_stops_at_failure_witness:
  "cw_Write (fanout_New (\<lambda>n. [0..<n]) ([appending_writer] @ rejecting_writer # [appending_writer])) [1, 2] \<lparr>rw_failed = [], rw_base = []\<rparr> =
     ((0, Some (CWrap [''fanout write''] CReadOnly)), \<lparr>rw_failed = [], rw_base = [1, 2]\<rparr>)"
  by (rule fanout_Write_stops_at_failure) (simp_all add: appending_writer_def rejecting_writer_def noop_Writer_def)

end
