(* ===== verification/Cs_Store.thy ===== *)
theory Cs_Store
  imports Cs_Writer
begin

text \<open>
  Content stores, second part: the composite stores \<open>composite/fallback\<close>, \<open>composite/split\<close> and
  \<open>composite/fanout\<close>, the store middlewares and the event bus they publish on
  (\<open>store/middleware\<close>, \<open>core/content/event\<close>), and the adapters between the two versions of the
  containerd interface (\<open>composite/content\<close>). All of them turn stores into stores. The contract of a
  lookup is a locale; the fallback of two lookups is a lookup again.
\<close>

section \<open>Fallback store (composite/fallback)\<close>

definition fb_Info :: "'w content_store \<Rightarrow> 'w content_store \<Rightarrow> string \<Rightarrow> 'w \<Rightarrow> (c_error + content_info) \<times> 'w" where
  "fb_Info primary secondary d w =
     (case so_Info primary d w of
        (Inr info, w') \<Rightarrow> (Inr info, w')
      | (Inl err, w') \<Rightarrow> (if \<not> IsNotFound err then (Inl err, w') else so_Info secondary d w'))"

definition fb_ReaderAt :: "'w content_store \<Rightarrow> 'w content_store \<Rightarrow> descriptor \<Rightarrow> 'w \<Rightarrow> (c_error + content_reader) \<times> 'w" where
  "fb_ReaderAt primary secondary d w =
     (case so_ReaderAt primary d w of
        (Inr r, w') \<Rightarrow> (Inr r, w')
      | (Inl err, w') \<Rightarrow> (if \<not> IsNotFound err then (Inl err, w') else so_ReaderAt secondary d w'))"

definition fb_Writer :: "schedule \<Rightarrow> 'w rworld content_store \<Rightarrow> 'w rworld content_store \<Rightarrow> writer_opt list \<Rightarrow> 'w rworld
    \<Rightarrow> (c_error + 'w rworld content_writer) \<times> 'w rworld" where
  "fb_Writer sch primary secondary opts w =
     (case so_Writer primary opts w of
        (Inl err, w') \<Rightarrow> (Inl (CWrap [''fallback: primary writer''] err), w')
      | (Inr pw, w') \<Rightarrow>
          (case so_Writer secondary opts w' of
             (Inl err, w'') \<Rightarrow> (Inr pw, w'')
           | (Inr sw, w'') \<Rightarrow> (let (rw, w3) = resilient_Wrap sw w'' in (Inr (fanout_New sch [pw, rw]), w3))))"

definition fb_Abort :: "'w content_store \<Rightarrow> 'w content_store \<Rightarrow> string \<Rightarrow> 'w \<Rightarrow> c_error option \<times> 'w" where
  "fb_Abort primary secondary ref w =
     (let (primaryErr, w') = so_Abort primary ref w; (_, w'') = so_Abort secondary ref w' in (primaryErr, w''))"

definition fallback_New :: "schedule \<Rightarrow> 'w rworld content_store \<Rightarrow> 'w rworld content_store \<Rightarrow> 'w rworld content_store" where
  "fallback_New sch primary secondary = \<lparr>so_Info = fb_Info primary secondary, so_ReaderAt = fb_ReaderAt primary secondary,
     so_Status = so_Status primary, so_ListStatuses = so_ListStatuses primary, so_Walk = so_Walk primary,
     so_Delete = so_Delete primary, so_Abort = fb_Abort primary secondary, so_Update = so_Update primary,
     so_Writer = fb_Writer sch primary secondary\<rparr>"

section \<open>Split store (composite/split)\<close>

text \<open>Calls tried in order until one succeeds.\<close>

fun first_success :: "('w \<Rightarrow> (c_error + 'a) \<times> 'w) list \<Rightarrow> 'w \<Rightarrow> 'a option \<times> 'w" where
  "first_success [] w = (None, w)"
| "first_success (f # fs) w =
     (case f w of (Inr a, w') \<Rightarrow> (Some a, w') | (Inl err, w') \<Rightarrow> first_success fs w')"

fun collect_results :: "('w \<Rightarrow> (c_error + 'a) \<times> 'w) list \<Rightarrow> 'w \<Rightarrow> (c_error list \<times> 'a list) \<times> 'w" where
  "collect_results [] w = (([], []), w)"
| "collect_results (f # fs) w =
     (case f w of
        (Inr a, w') \<Rightarrow> (let ((errs, as), w'') = collect_results fs w' in ((errs, a # as), w''))
      | (Inl err, w') \<Rightarrow> (let ((errs, as), w'') = collect_results fs w' in ((err # errs, as), w'')))"

fun run_keep_first :: "('w \<Rightarrow> c_error option \<times> 'w) list \<Rightarrow> c_error option \<Rightarrow> 'w \<Rightarrow> c_error option \<times> 'w" where
  "run_keep_first [] retErr w = (retErr, w)"
| "run_keep_first (f # fs) retErr w =
     (let (err, w') = f w in run_keep_first fs (if err \<noteq> None \<and> retErr = None then err else retErr) w')"

fun last_update :: "((content_info \<times> c_error option) list) \<Rightarrow> content_info option" where
  "last_update [] = None"
| "last_update ((i, err) # rs) =
     (case last_update rs of Some j \<Rightarrow> Some j | None \<Rightarrow> (if err = None then Some i else None))"

fun run_all :: "('w \<Rightarrow> 'a \<times> 'w) list \<Rightarrow> 'w \<Rightarrow> 'a list \<times> 'w" where
  "run_all [] w = ([], w)"
| "run_all (f # fs) w = (let (a, w') = f w; (as, w'') = run_all fs w' in (a # as, w''))"

definition split_New :: "'w content_store \<Rightarrow> 'w content_store list \<Rightarrow> c_error + 'w content_store \<times> 'w content_store list" where
  "split_New read writes =
     (if writes = [] then Inl (CMsg [''split store requires at least one write store'']) else Inr (read, writes))"

definition sp_Info :: "'w content_store \<Rightarrow> 'w content_store list \<Rightarrow> string \<Rightarrow> 'w \<Rightarrow> (c_error + content_info) \<times> 'w" where
  "sp_Info read writes d w =
     (case first_success (map (\<lambda>ws. so_Info ws d) writes) w of
        (Some info, w') \<Rightarrow> (Inr info, w')
      | (None, w') \<Rightarrow> so_Info read d w')"

definition sp_ReaderAt :: "'w content_store \<Rightarrow> 'w content_store list \<Rightarrow> descriptor \<Rightarrow> 'w \<Rightarrow> (c_error + content_reader) \<times> 'w" where
  "sp_ReaderAt read writes d w =
     (case first_success (so_ReaderAt read d # map (\<lambda>ws. so_ReaderAt ws d) writes) w of
        (Some r, w') \<Rightarrow> (Inr r, w')
      | (None, w') \<Rightarrow> (Inl (CMsg [''split: content not found in any store'']), w'))"

definition sp_ListStatuses :: "'w content_store list \<Rightarrow> string list \<Rightarrow> 'w \<Rightarrow> (c_error + content_status list) \<times> 'w" where
  "sp_ListStatuses writes fs w =
     (case first_success (map (\<lambda>ws. so_ListStatuses ws fs) writes) w of
        (Some sts, w') \<Rightarrow> (Inr sts, w')
      | (None, w') \<Rightarrow> (Inl (CMsg [''split: no write store could list statuses'']), w'))"

definition sp_Status :: "'w content_store list \<Rightarrow> string \<Rightarrow> 'w \<Rightarrow> (c_error + content_status) \<times> 'w" where
  "sp_Status writes ref w =
     (case first_success (map (\<lambda>ws. so_Status ws ref) writes) w of
        (Some st, w') \<Rightarrow> (Inr st, w')
      | (None, w') \<Rightarrow> (Inl (CMsg [''split: status not found in any write store'', ref]), w'))"

definition sp_Writer :: "schedule \<Rightarrow> 'w content_store list \<Rightarrow> writer_opt list \<Rightarrow> 'w \<Rightarrow> (c_error + 'w content_writer) \<times> 'w" where
  "sp_Writer sch writes opts w =
     (let ((errs, ws), w') = collect_results (map (\<lambda>s. so_Writer s opts) writes) w in
      (if ws = [] then Inl (CJoin errs) else Inr (fanout_New sch ws), w'))"

definition sp_Abort :: "'w content_store list \<Rightarrow> string \<Rightarrow> 'w \<Rightarrow> c_error option \<times> 'w" where
  "sp_Abort writes ref w = run_keep_first (map (\<lambda>ws. so_Abort ws ref) writes) None w"

definition sp_Delete :: "'w content_store \<Rightarrow> 'w content_store list \<Rightarrow> string \<Rightarrow> 'w \<Rightarrow> c_error option \<times> 'w" where
  "sp_Delete read writes d w = run_keep_first (so_Delete read d # map (\<lambda>ws. so_Delete ws d) writes) None w"

definition update_result :: "(content_info \<times> c_error option) list \<Rightarrow> (c_error list \<Rightarrow> c_error option) \<Rightarrow> content_info \<times> c_error option" where
  "update_result rs join =
     (let errs = List.map_filter snd rs in
      case last_update rs of Some i \<Rightarrow> (i, join errs) | None \<Rightarrow> (zero_info, join errs))"

definition sp_Update :: "'w content_store list \<Rightarrow> content_info \<Rightarrow> string list \<Rightarrow> 'w \<Rightarrow> (content_info \<times> c_error option) \<times> 'w" where
  "sp_Update writes info fs w =
     (let (rs, w') = run_all (map (\<lambda>ws. so_Update ws info fs) writes) w in (update_result rs c_Join, w'))"

definition split_Store :: "schedule \<Rightarrow> 'w content_store \<Rightarrow> 'w content_store list \<Rightarrow> 'w content_store" where
  "split_Store sch read writes = \<lparr>so_Info = sp_Info read writes, so_ReaderAt = sp_ReaderAt read writes, so_Status = sp_Status writes,
     so_ListStatuses = sp_ListStatuses writes, so_Walk = so_Walk read, so_Delete = sp_Delete read writes, so_Abort = sp_Abort writes,
     so_Update = sp_Update writes, so_Writer = sp_Writer sch writes\<rparr>"

section \<open>Fan-out store (composite/fanout)\<close>

text \<open>Concurrent calls whose results are stored by index, in the order of a schedule.\<close>

fun run_at :: "('w \<Rightarrow> 'a \<times> 'w) list \<Rightarrow> nat list \<Rightarrow> (nat \<rightharpoonup> 'a) \<Rightarrow> 'w \<Rightarrow> (nat \<rightharpoonup> 'a) \<times> 'w" where
  "run_at fs [] rs w = (rs, w)"
| "run_at fs (i # is) rs w = (let (a, w') = (fs ! i) w in run_at fs is (rs(i \<mapsto> a)) w')"

definition par_run :: "schedule \<Rightarrow> ('w \<Rightarrow> 'a \<times> 'w) list \<Rightarrow> 'w \<Rightarrow> 'a list \<times> 'w" where
  "par_run sch fs w =
     (let (rs, w') = run_at fs (sch (length fs)) Map.empty w in (map (\<lambda>i. the (rs i)) [0..<length fs], w'))"

definition filterNotFound :: "c_error list \<Rightarrow> nat \<Rightarrow> c_error option" where
  "filterNotFound errs ntotal =
     (if errs = [] then None
      else (let real = filter (\<lambda>e. \<not> IsNotFound e) errs; notFoundCount = length (filter IsNotFound errs) in
        if real = [] then (if notFoundCount = ntotal then Some CNotFound else None)
        else Some (CJoin real)))"

definition fo_parallel :: "schedule \<Rightarrow> ('w content_store \<Rightarrow> 'w \<Rightarrow> c_error option \<times> 'w) \<Rightarrow> 'w content_store list \<Rightarrow> 'w \<Rightarrow> c_error option \<times> 'w" where
  "fo_parallel sch fn stores w =
     (let (errs, w') = par_run sch (map fn stores) w in (filterNotFound (List.map_filter id errs) (length stores), w'))"

definition fo_first :: "('w \<Rightarrow> (c_error + 'a) \<times> 'w) list \<Rightarrow> 'w \<Rightarrow> (c_error + 'a) \<times> 'w" where
  "fo_first calls w =
     (case first_success calls w of (Some a, w') \<Rightarrow> (Inr a, w') | (None, w') \<Rightarrow> (Inl CNotFound, w'))"

definition fo_Update :: "schedule \<Rightarrow> 'w content_store list \<Rightarrow> content_info \<Rightarrow> string list \<Rightarrow> 'w \<Rightarrow> (content_info \<times> c_error option) \<times> 'w" where
  "fo_Update sch stores info fs w =
     (let (rs, w') = par_run sch (map (\<lambda>cs. so_Update cs info fs) stores) w in
      (update_result rs (\<lambda>errs. filterNotFound errs (length stores)), w'))"

fun dedupe_statuses :: "string set \<Rightarrow> content_status list \<Rightarrow> content_status list" where
  "dedupe_statuses seen [] = []"
| "dedupe_statuses seen (st # sts) =
     (if cs_Ref st \<in> seen then dedupe_statuses seen sts else st # dedupe_statuses (insert (cs_Ref st) seen) sts)"

definition errors_of :: "(c_error + 'a) list \<Rightarrow> c_error list" where
  "errors_of rs = List.map_filter (\<lambda>r. case r of Inl err \<Rightarrow> Some err | Inr a \<Rightarrow> None) rs"

definition values_of :: "(c_error + 'a) list \<Rightarrow> 'a list" where
  "values_of rs = List.map_filter (\<lambda>r. case r of Inl err \<Rightarrow> None | Inr a \<Rightarrow> Some a) rs"

definition fo_ListStatuses :: "schedule \<Rightarrow> 'w content_store list \<Rightarrow> string list \<Rightarrow> 'w \<Rightarrow> (c_error + content_status list) \<times> 'w" where
  "fo_ListStatuses sch stores fs w =
     (let (rs, w') = par_run sch (map (\<lambda>cs. so_ListStatuses cs fs) stores) w; errs = errors_of rs in
      (if length errs = length stores \<and> length stores > 0 then Inl (CJoin errs)
       else Inr (dedupe_statuses {} (concat (values_of rs))), w'))"

text \<open>
  Without a store the source returns a nil writer and a nil error; the model gives an error of its
  own in this case.
\<close>

definition fo_Writer :: "schedule \<Rightarrow> 'w content_store list \<Rightarrow> writer_opt list \<Rightarrow> 'w \<Rightarrow> (c_error + 'w content_writer) \<times> 'w" where
  "fo_Writer sch stores opts w =
     (let (rs, w') = par_run sch (map (\<lambda>cs. so_Writer cs opts) stores) w; ws = values_of rs in
      (if ws = [] then (case filterNotFound (errors_of rs) (length stores) of
           Some err \<Rightarrow> Inl err | None \<Rightarrow> Inl (CMsg [''nil writer'']))
       else Inr (fanout_New sch ws), w'))"

text \<open>
  \<open>Walk\<close>: every store presents its infos on its own goroutine; \<open>order\<close> tells which goroutine makes
  the next move. A move marks the next info as seen, or skips it if its digest was, calls the visitor
  for the marked info under the lock, or ends the walk of the store with its error. \<open>WalkCalling\<close>
  stands between \<open>LoadOrStore\<close> and the lock.
\<close>

datatype walker = Walking "content_info list" "c_error option" | WalkCalling content_info "content_info list" "c_error option" | WalkDone

fun walk_moves :: "(content_info \<Rightarrow> 'w \<Rightarrow> c_error option \<times> 'w) \<Rightarrow> nat list \<Rightarrow> walker list \<Rightarrow> string set \<Rightarrow> c_error list \<Rightarrow> 'w
    \<Rightarrow> (walker list \<times> c_error list) \<times> 'w" where
  "walk_moves fn [] ks seen errs w = ((ks, errs), w)"
| "walk_moves fn (i # is) ks seen errs w =
     (case ks ! i of
        WalkDone \<Rightarrow> walk_moves fn is ks seen errs w
      | Walking [] own \<Rightarrow>
          walk_moves fn is (ks[i := WalkDone]) seen (case own of None \<Rightarrow> errs | Some e \<Rightarrow> errs @ [e]) w
      | Walking (x # xs) own \<Rightarrow>
          (if ci_Digest x \<in> seen then walk_moves fn is (ks[i := Walking xs own]) seen errs w
           else walk_moves fn is (ks[i := WalkCalling x xs own]) (insert (ci_Digest x) seen) errs w)
      | WalkCalling x xs own \<Rightarrow>
          (case fn x w of
             (None, w') \<Rightarrow> walk_moves fn is (ks[i := Walking xs own]) seen errs w'
           | (Some e, w') \<Rightarrow> walk_moves fn is (ks[i := WalkDone]) seen (errs @ [e]) w'))"
definition fo_Walk :: "nat list \<Rightarrow> 'w content_store list \<Rightarrow> (content_info \<Rightarrow> 'w \<Rightarrow> c_error option \<times> 'w) \<Rightarrow> string list \<Rightarrow> 'w \<Rightarrow> c_error option \<times> 'w" where
  "fo_Walk order stores fn fs w =
     (let (walks, w') = run_all (map (\<lambda>cs. so_Walk cs fs) stores) w;
          ((ks, errs), w'') = walk_moves fn order (map (\<lambda>(is, own). Walking is own) walks) {} [] w'
      in (c_Join errs, w''))"

definition fanout_Store :: "schedule \<Rightarrow> nat list \<Rightarrow> 'w content_store list \<Rightarrow> 'w content_store" where
  "fanout_Store sch order stores = \<lparr>so_Info = \<lambda>d. fo_first (map (\<lambda>cs. so_Info cs d) stores),
     so_ReaderAt = \<lambda>d. fo_first (map (\<lambda>cs. so_ReaderAt cs d) stores), so_Status = \<lambda>r. fo_first (map (\<lambda>cs. so_Status cs r) stores),
     so_ListStatuses = fo_ListStatuses sch stores,
     so_Walk = \<lambda>fs w. (let (walks, w') = run_all (map (\<lambda>cs. so_Walk cs fs) stores) w;
          ((ks, errs), is) = walk_moves (\<lambda>x is. (None, is @ [x])) order (map (\<lambda>(is, own). Walking is own) walks) {} [] []
        in ((is, c_Join errs), w')),
     so_Delete = \<lambda>d. fo_parallel sch (\<lambda>cs. so_Delete cs d) stores, so_Abort = \<lambda>r. fo_parallel sch (\<lambda>cs. so_Abort cs r) stores,
     so_Update = fo_Update sch stores, so_Writer = fo_Writer sch stores\<rparr>"

section \<open>Event bus (core/content/event)\<close>

definition KindWriteStarted :: string where "KindWriteStarted = ''content.write.started''"
definition KindWriteCommitted :: string where "KindWriteCommitted = ''content.write.committed''"
definition KindWriteFailed :: string where "KindWriteFailed = ''content.write.failed''"
definition KindReadHit :: string where "KindReadHit = ''content.read.hit''"
definition KindReadMiss :: string where "KindReadMiss = ''content.read.miss''"
definition KindDeleted :: string where "KindDeleted = ''content.deleted''"

record store_event =
  se_Kind :: string
  se_Source :: string
  se_Digest :: string
  se_Ref :: string
  se_Err :: "c_error option"
  se_OccurredAt :: int

text \<open>The handlers are a Go map: an association list in the order in which a loop meets the entries.\<close>

type_synonym 'w event_handler = "store_event \<Rightarrow> 'w \<Rightarrow> 'w"

record 'w event_bus =
  eb_handlers :: "(uint64 \<times> 'w event_handler) list"
  eb_seq :: uint64

definition NewBus :: "'w event_bus" where "NewBus = \<lparr>eb_handlers = [], eb_seq = 0\<rparr>"

definition bus_Subscribe :: "'w event_handler \<Rightarrow> 'w event_bus \<Rightarrow> uint64 \<times> 'w event_bus" where
  "bus_Subscribe h b =
     (let i = eb_seq b + 1 in
      (i, b\<lparr>eb_seq := i, eb_handlers := (i, h) # filter (\<lambda>e. fst e \<noteq> i) (eb_handlers b)\<rparr>))"

text \<open>The function that \<open>Subscribe\<close> returns; a second call finds nothing to delete.\<close>

definition bus_unsubscribe :: "uint64 \<Rightarrow> 'w event_bus \<Rightarrow> 'w event_bus" where
  "bus_unsubscribe i b = b\<lparr>eb_handlers := filter (\<lambda>e. fst e \<noteq> i) (eb_handlers b)\<rparr>"

text \<open>\<open>perm\<close> is the order of the map iteration of this call.\<close>

definition bus_snapshot :: "((uint64 \<times> 'w event_handler) list \<Rightarrow> (uint64 \<times> 'w event_handler) list) \<Rightarrow> 'w event_bus \<Rightarrow> 'w event_handler list" where
  "bus_snapshot perm b = map snd (perm (eb_handlers b))"

definition bus_Publish :: "((uint64 \<times> 'w event_handler) list \<Rightarrow> (uint64 \<times> 'w event_handler) list) \<Rightarrow> store_event \<Rightarrow> 'w event_bus \<Rightarrow> 'w \<Rightarrow> 'w" where
  "bus_Publish perm evt b w = fold (\<lambda>h. h evt) (bus_snapshot perm b) w"

section \<open>Store middlewares (store/middleware)\<close>

type_synonym 'w store_middleware = "'w content_store \<Rightarrow> 'w content_store"

definition mw_Chain :: "'w content_store \<Rightarrow> 'w store_middleware list \<Rightarrow> 'w content_store" where
  "mw_Chain base ms = foldr (\<lambda>m s. m s) ms base"

definition ReadOnly :: "'w store_middleware" where
  "ReadOnly next = next\<lparr>so_Writer := \<lambda>opts w. (Inl (CWrap [''Writer''] CReadOnly), w), so_Delete := \<lambda>d w. (Some (CWrap [''Delete''] CReadOnly), w),
     so_Update := \<lambda>i fs w. ((zero_info, Some (CWrap [''Update''] CReadOnly)), w), so_Abort := \<lambda>r w. (Some (CWrap [''Abort''] CReadOnly), w)\<rparr>"

text \<open>
  \<open>emit\<close> is \<open>bus.PublishAsync\<close>: it hands the event to the goroutine that runs the handlers; \<open>now\<close> is
  the clock.
\<close>

definition observable_writer :: "(store_event \<Rightarrow> 'w \<Rightarrow> 'w) \<Rightarrow> ('w \<Rightarrow> int) \<Rightarrow> string \<Rightarrow> 'w content_writer \<Rightarrow> 'w content_writer" where
  "observable_writer emit now source x = x\<lparr>cw_Commit := \<lambda>sz expected opts w.
     (let (err, w') = cw_Commit x sz expected opts w in
      (err, emit \<lparr>se_Kind = (if err \<noteq> None then KindWriteFailed else KindWriteCommitted), se_Source = source, se_Digest = expected,
               se_Ref = '''', se_Err = err, se_OccurredAt = now w'\<rparr> w'))\<rparr>"

definition Observable :: "(store_event \<Rightarrow> 'w \<Rightarrow> 'w) \<Rightarrow> ('w \<Rightarrow> int) \<Rightarrow> string \<Rightarrow> 'w store_middleware" where
  "Observable emit now source next = next\<lparr>
     so_ReaderAt := \<lambda>d w. (case so_ReaderAt next d w of
        (Inl err, w') \<Rightarrow> (Inl err, emit \<lparr>se_Kind = KindReadMiss, se_Source = source, se_Digest = de_Digest d, se_Ref = '''', se_Err = Some err, se_OccurredAt = now w'\<rparr> w')
      | (Inr r, w') \<Rightarrow> (Inr r, emit \<lparr>se_Kind = KindReadHit, se_Source = source, se_Digest = de_Digest d, se_Ref = '''', se_Err = None, se_OccurredAt = now w'\<rparr> w')),
     so_Writer := \<lambda>opts w. (case so_Writer next opts w of
        (Inl err, w') \<Rightarrow> (Inl err, emit \<lparr>se_Kind = KindWriteFailed, se_Source = source, se_Digest = '''', se_Ref = '''', se_Err = Some err, se_OccurredAt = now w'\<rparr> w')
      | (Inr x, w') \<Rightarrow> (Inr (observable_writer emit now source x),
          emit \<lparr>se_Kind = KindWriteStarted, se_Source = source, se_Digest = '''', se_Ref = '''', se_Err = None, se_OccurredAt = now w'\<rparr> w')),
     so_Delete := \<lambda>d w. (case so_Delete next d w of
        (None, w') \<Rightarrow> (None, emit \<lparr>se_Kind = KindDeleted, se_Source = source, se_Digest = d, se_Ref = '''', se_Err = None, se_OccurredAt = now w'\<rparr> w')
      | (Some err, w') \<Rightarrow> (Some err, w'))\<rparr>"

section \<open>Interface adapters (composite/content)\<close>

text \<open>
  The two versions of the structs have the same fields, so a conversion of a value is the identity.
  A converted option applies the original to a local copy of the struct. The two structs share
  their label map: an option that writes into the map in place, instead of assigning the field as
  the options of containerd do, is outside the model.
\<close>

definition convert_writer_opt :: "writer_opt \<Rightarrow> writer_opt" where
  "convert_writer_opt opt wo = (fst (opt wo), wo)"

definition convert_info_opt :: "info_opt \<Rightarrow> info_opt" where
  "convert_info_opt opt info = (fst (opt info), info)"

definition adapt_writer :: "'w content_writer \<Rightarrow> 'w content_writer" where
  "adapt_writer x = x\<lparr>cw_Commit := \<lambda>sz expected opts. cw_Commit x sz expected (map convert_info_opt opts)\<rparr>"

definition adapt_store :: "'w content_store \<Rightarrow> 'w content_store" where
  "adapt_store s = s\<lparr>so_Update := \<lambda>info fieldpaths. so_Update s info [],
     so_Writer := \<lambda>opts w. (case so_Writer s (map convert_writer_opt opts) w of
        (Inl err, w') \<Rightarrow> (Inl err, w') | (Inr x, w') \<Rightarrow> (Inr (adapt_writer x), w'))\<rparr>"

text \<open>Both directions are the same code over the two versions.\<close>

definition V1Writer :: "'w content_writer \<Rightarrow> 'w content_writer" where "V1Writer = adapt_writer"

definition V2Writer :: "'w content_writer \<Rightarrow> 'w content_writer" where "V2Writer = adapt_writer"

definition V1ContentStore :: "'w content_store \<Rightarrow> 'w content_store" where "V1ContentStore = adapt_store"

definition V2ContentStore :: "'w content_store \<Rightarrow> 'w content_store" where "V2ContentStore = adapt_store"

section \<open>Atomic time (internal/atomic)\<close>

text \<open>A point in time is stored as its milliseconds; \<open>t\<close> and the result are nanoseconds.\<close>

definition UnixMilli :: "int \<Rightarrow> 64 word" where "UnixMilli t = of_int (t div 1000000)"

definition at_Set :: "int \<Rightarrow> 64 word" where "at_Set t = UnixMilli t"

definition at_Get :: "64 word \<Rightarrow> int" where "at_Get m = sint m * 1000000"

section \<open>Facts\<close>

subsection \<open>Lookups\<close>

text \<open>A store whose \<open>Info\<close> is the lookup of a map, a miss being the not-found error.\<close>

locale lookup_store =
  fixes s :: "'w content_store" and holds :: "'w \<Rightarrow> string \<Rightarrow> content_info option"
  assumes Info_law: "so_Info s d w = (case holds w d of Some i \<Rightarrow> (Inr i, w) | None \<Rightarrow> (Inl CNotFound, w))"
begin

lemma Info_found: "so_Info s d w = (Inr i, w') \<longleftrightarrow> holds w d = Some i \<and> w' = w"
  by (auto simp: Info_law split: option.split)

lemma Info_world [simp]: "snd (so_Info s d w) = w"
  by (simp add: Info_law split: option.split)

end

locale two_lookups = p: lookup_store s1 h1 + q: lookup_store s2 h2
  for s1 s2 :: "'w rworld content_store" and h1 h2 +
  fixes sch :: schedule
begin

lemma fallback_Info: "so_Info (fallback_New sch s1 s2) d w =
    (case h1 w d of Some i \<Rightarrow> (Inr i, w) | None \<Rightarrow> (case h2 w d of Some i \<Rightarrow> (Inr i, w) | None \<Rightarrow> (Inl CNotFound, w)))"
  by (simp add: fallback_New_def fb_Info_def p.Info_law q.Info_law split: option.split)

end

sublocale two_lookups \<subseteq> fb: lookup_store "fallback_New sch s1 s2" "\<lambda>w d. case h1 w d of Some i \<Rightarrow> Some i | None \<Rightarrow> h2 w d"
  by unfold_locales (simp add: fallback_Info split: option.split)

context two_lookups
begin

lemma split_of_fallback: "so_Info (split_Store sch' s1 [s2]) d w =
    (case h2 w d of Some i \<Rightarrow> (Inr i, w) | None \<Rightarrow> so_Info s1 d w)"
  by (simp add: split_Store_def sp_Info_def q.Info_law split: option.split)

end

text \<open>
  The interface on stores of the model: mock stores that look an info up in a part of the world.
\<close>

definition empty_mock :: "'w mock_store" where
  "empty_mock = \<lparr>mk_AbortFn = None, mk_DeleteFn = None, mk_InfoFn = None, mk_ListStatusesFn = None, mk_ReaderAtFn = None,
     mk_StatusFn = None, mk_UpdateFn = None, mk_WalkFn = None, mk_WriterFn = None\<rparr>"

definition map_store :: "('w \<Rightarrow> string \<Rightarrow> content_info option) \<Rightarrow> 'w content_store" where
  "map_store holds = MockStore (empty_mock\<lparr>mk_InfoFn := Some (\<lambda>d w. (case holds w d of Some i \<Rightarrow> Inr i | None \<Rightarrow> Inl CNotFound, w))\<rparr>)"

interpretation mem: two_lookups "map_store (\<lambda>w. fst (rw_base w))" "map_store (\<lambda>w. snd (rw_base w))"
  "\<lambda>w. fst (rw_base w)" "\<lambda>w. snd (rw_base w)" sch for sch
  by unfold_locales (auto simp: map_store_def MockStore_def empty_mock_def or_else_def split: option.split)

subsection \<open>Fan-out\<close>

lemma first_success_None: "(\<forall>f \<in> set fs. \<forall>w. \<exists>e. fst (f w) = Inl e) \<Longrightarrow> fst (first_success fs w) = None"
proof (induction fs arbitrary: w)
  case (Cons f fs)
  obtain e w' where "f w = (Inl e, w')" using Cons.prems by (cases "f w") (metis fst_conv list.set_intros(1))
  then show ?case using Cons by simp
qed simp

lemma filterNotFound_None_iff:
  "filterNotFound errs n = None \<longleftrightarrow> (\<forall>e \<in> set errs. IsNotFound e) \<and> (errs = [] \<or> length errs \<noteq> n)"
proof -
  have "filter (\<lambda>e. \<not> IsNotFound e) errs = [] \<longleftrightarrow> (\<forall>e \<in> set errs. IsNotFound e)" by (simp add: filter_empty_conv)
  moreover have "(\<forall>e \<in> set errs. IsNotFound e) \<Longrightarrow> filter IsNotFound errs = errs" by simp
  ultimately show ?thesis by (auto simp: filterNotFound_def Let_def)
qed

lemma run_at_results:
  assumes "distinct is" "set is \<inter> dom rs = {}" "run_at fs is rs w = (rs', w')"
  shows "dom rs' = dom rs \<union> set is \<and> rs \<subseteq>\<^sub>m rs'"
  using assms
proof (induction "is" arbitrary: rs w)
  case (Cons i "is")
  obtain a w1 where f: "(fs ! i) w = (a, w1)" by (cases "(fs ! i) w")
  have "run_at fs is (rs(i \<mapsto> a)) w1 = (rs', w')" using Cons.prems(3) f by simp
  moreover have "distinct is" "set is \<inter> dom (rs(i \<mapsto> a)) = {}" using Cons.prems by auto
  ultimately have ih: "dom rs' = dom (rs(i \<mapsto> a)) \<union> set is" "rs(i \<mapsto> a) \<subseteq>\<^sub>m rs'" using Cons.IH by blast+
  moreover have "rs \<subseteq>\<^sub>m rs(i \<mapsto> a)" using Cons.prems(2) by (auto simp: map_le_def)
  ultimately show ?case using map_le_trans [of rs "rs(i \<mapsto> a)" rs'] by auto
qed auto

lemma dedupe_refs: "set (map cs_Ref (dedupe_statuses seen sts)) = cs_Ref ` set sts - seen \<and> distinct (map cs_Ref (dedupe_statuses seen sts))"
  by (induction sts arbitrary: seen) auto

lemma dedupe_first: "st \<in> set (dedupe_statuses seen sts) \<Longrightarrow> find (\<lambda>x. cs_Ref x = cs_Ref st) sts = Some st"
proof (induction sts arbitrary: seen)
  case (Cons a sts)
  have new: "cs_Ref x \<notin> S" if "x \<in> set (dedupe_statuses S sts)" for x S
    using dedupe_refs [of S sts] that by auto
  show ?case
  proof (cases "cs_Ref a \<in> seen")
    case True
    then have m: "st \<in> set (dedupe_statuses seen sts)" using Cons.prems by simp
    then have "cs_Ref a \<noteq> cs_Ref st" using new [OF m] True by auto
    then show ?thesis using Cons.IH [OF m] by simp
  next
    case False
    show ?thesis
    proof (cases "st = a")
      case False
      then have m: "st \<in> set (dedupe_statuses (insert (cs_Ref a) seen) sts)" using Cons.prems \<open>cs_Ref a \<notin> seen\<close> by simp
      then have "cs_Ref a \<noteq> cs_Ref st" using new [OF m] by auto
      then show ?thesis using Cons.IH [OF m] by simp
    qed simp
  qed
qed simp

subsection \<open>Walks\<close>

text \<open>
  The visitor \<open>fn\<close> with a log of its calls and their results. Whatever the order of the moves, every
  digest is marked by one goroutine, which visits it, and a goroutine that ends has presented all its
  infos or failed.
\<close>

definition logging_visit :: "(content_info \<Rightarrow> 'w \<Rightarrow> c_error option \<times> 'w) \<Rightarrow> content_info \<Rightarrow> 'w \<times> (content_info \<times> c_error option) list
    \<Rightarrow> c_error option \<times> 'w \<times> (content_info \<times> c_error option) list" where
  "logging_visit fn x s = (let (e, w) = fn x (fst s) in (e, w, snd s @ [(x, e)]))"

definition log_digests :: "(content_info \<times> c_error option) list \<Rightarrow> string list" where
  "log_digests vs = map (\<lambda>v. ci_Digest (fst v)) vs"

fun pending :: "walker \<Rightarrow> string list" where
  "pending (WalkCalling x is own) = [ci_Digest x]"
| "pending k = []"

fun remaining :: "walker \<Rightarrow> string set" where
  "remaining (Walking is own) = ci_Digest ` set is"
| "remaining (WalkCalling x is own) = ci_Digest ` set is"
| "remaining WalkDone = {}"

fun own_error :: "walker \<Rightarrow> c_error option" where
  "own_error (Walking is own) = own"
| "own_error (WalkCalling x is own) = own"
| "own_error WalkDone = None"

fun moves_left :: "walker \<Rightarrow> nat" where
  "moves_left (Walking is own) = Suc (2 * length is)"
| "moves_left (WalkCalling x is own) = Suc (Suc (2 * length is))"
| "moves_left WalkDone = 0"

text \<open>A state of the walk: walkers, marked digests, errors and the log.\<close>

definition walk_inv :: "string set \<Rightarrow> bool \<Rightarrow> walker list \<Rightarrow> string set \<Rightarrow> c_error list \<Rightarrow> (content_info \<times> c_error option) list \<Rightarrow> bool" where
  "walk_inv D bad ks seen errs vs \<longleftrightarrow>
     mset (log_digests vs) + (\<Sum>k \<in># mset ks. mset (pending k)) = mset_set seen \<and> finite seen \<and>
     seen \<union> (\<Union>k \<in> set ks. remaining k) \<subseteq> D \<and>
     ((\<forall>v \<in> set vs. snd v = None) \<longrightarrow> seen \<union> (\<Union>k \<in> set ks. remaining k) = D) \<and>
     (errs = [] \<longrightarrow> (\<forall>v \<in> set vs. snd v = None) \<and> (bad \<longleftrightarrow> (\<exists>k \<in> set ks. own_error k \<noteq> None))) \<and> (errs \<noteq> [] \<longrightarrow> bad \<or> (\<exists>v \<in> set vs. snd v \<noteq> None))"

lemma set_split_nth: "i < length ks \<Longrightarrow> \<exists>as bs. ks = as @ ks ! i # bs \<and> length as = i \<and> (\<forall>k. ks[i := k] = as @ k # bs)"
  by (intro exI [of _ "take i ks"] exI [of _ "drop (Suc i) ks"]) (simp add: id_take_nth_drop [symmetric] upd_conv_take_nth_drop)

lemma walk_moves_inv:
  assumes "walk_moves (logging_visit fn) order ks seen errs (w, vs) = ((ks', errs'), (w', vs'))" "walk_inv D bad ks seen errs vs"
    "\<forall>i \<in> set order. i < length ks"
  shows "(\<exists>seen'. walk_inv D bad ks' seen' errs' vs') \<and> length ks' = length ks \<and>
    (\<forall>i < length ks. moves_left (ks' ! i) \<le> moves_left (ks ! i) - count_list order i)"
  using assms
proof (induction order arbitrary: ks seen errs w vs)
  case (Cons i order)
  have i: "i < length ks" using Cons.prems(3) by simp
  obtain as bs where ks: "ks = as @ ks ! i # bs" "length as = i" "\<And>k. ks[i := k] = as @ k # bs"
    using set_split_nth [OF i] by blast

  have step: ?case
    if run: "walk_moves (logging_visit fn) order (ks[i := k]) seen1 errs1 (w1, vs1) = ((ks', errs'), (w', vs'))"
      and inv: "walk_inv D bad (as @ k # bs) seen1 errs1 vs1" and less: "moves_left k \<le> moves_left (ks ! i) - 1" for k seen1 errs1 w1 vs1
  proof -
    have "(\<exists>seen'. walk_inv D bad ks' seen' errs' vs') \<and> length ks' = length (ks[i := k]) \<and>
        (\<forall>j < length (ks[i := k]). moves_left (ks' ! j) \<le> moves_left (ks[i := k] ! j) - count_list order j)"
    proof (rule Cons.IH [OF run])
      show "walk_inv D bad (ks[i := k]) seen1 errs1 vs1" using inv ks(3) by simp
      show "\<forall>j \<in> set order. j < length (ks[i := k])" using Cons.prems(3) by simp
    qed
    moreover have "moves_left (ks[i := k] ! j) - count_list order j \<le> moves_left (ks ! j) - count_list (i # order) j" if "j < length ks" for j
      using less that i by (cases "j = i") auto
    ultimately show ?thesis by (metis (no_types, lifting) length_list_update le_trans)
  qed
  have inv: "walk_inv D bad (as @ ks ! i # bs) seen errs vs" using Cons.prems(2) ks(1) by simp
  show ?case
  proof (cases "ks ! i")
    case WalkDone
    then have "ks[i := WalkDone] = ks" using i by (metis list_update_id)
    then show ?thesis using step [of WalkDone seen errs w vs] Cons.prems(1) inv WalkDone by simp
  next
    case (Walking xs own)
    show ?thesis
    proof (cases xs)
      case Nil
      then show ?thesis
        using step [of WalkDone seen "case own of None \<Rightarrow> errs | Some e \<Rightarrow> errs @ [e]" w vs] Cons.prems(1) inv Walking
        by (cases own; cases "errs = []") (auto simp: walk_inv_def)
    next
      case (Cons x ys)
      show ?thesis
      proof (cases "ci_Digest x \<in> seen")
        case True
        then have u: "seen \<union> (\<Union>k \<in> set (as @ Walking xs own # bs). remaining k) = seen \<union> (\<Union>k \<in> set (as @ Walking ys own # bs). remaining k)"
          using Cons by auto
        have "walk_inv D bad (as @ Walking ys own # bs) seen errs vs" using inv unfolding Walking walk_inv_def u by simp
        then show ?thesis using step [of "Walking ys own" seen errs w vs] Cons.prems(1) Walking Cons True by simp
      next
        case False
        then have "walk_inv D bad (as @ WalkCalling x ys own # bs) (insert (ci_Digest x) seen) errs vs"
          using inv Walking Cons by (auto simp: walk_inv_def)
        then show ?thesis using step [of "WalkCalling x ys own" "insert (ci_Digest x) seen" errs w vs] Cons.prems(1) Walking Cons False by simp
      qed
    qed
  next
    case (WalkCalling x ys own)
    obtain e w1 where e: "fn x w = (e, w1)" by fastforce
    have lv: "logging_visit fn x (w, vs) = (e, w1, vs @ [(x, e)])" by (simp add: logging_visit_def e)
    have m: "mset (log_digests (vs @ [(x, e)])) = add_mset (ci_Digest x) (mset (log_digests vs))" by (simp add: log_digests_def)
    show ?thesis
    proof (cases e)
      case None
      have "walk_inv D bad (as @ Walking ys own # bs) seen errs (vs @ [(x, e)])"
        using inv WalkCalling m None by (auto simp: walk_inv_def)
      then show ?thesis using step [of "Walking ys own" seen errs w1 "vs @ [(x, e)]"] Cons.prems(1) WalkCalling None lv by simp
    next
      case (Some err)
      have "walk_inv D bad (as @ WalkDone # bs) seen (errs @ [err]) (vs @ [(x, e)])"
        using inv WalkCalling m Some by (auto simp: walk_inv_def)
      then show ?thesis using step [of WalkDone seen "errs @ [err]" w1 "vs @ [(x, e)]"] Cons.prems(1) WalkCalling Some lv by simp
    qed
  qed
qed auto
subsection \<open>Writers of the fallback store\<close>

lemma fb_Writer_parts:
  assumes "so_Writer p opts w = (Inr pw, w0)" "so_Writer s opts w0 = (Inr sw, w1)"
  shows "fb_Writer sch p s opts w =
     (Inr (fanout_New sch [pw, resilient_writer (length (rw_failed w1)) sw]), w1\<lparr>rw_failed := rw_failed w1 @ [False]\<rparr>)"
  using assms by (simp add: fb_Writer_def resilient_Wrap_def)

lemma absorb_None: "fst (absorb i inner f w) = None"
  by (simp add: absorb_def split: prod.split option.split)

lemma resilient_Write_all: "fst (resilient_Write i inner p w) = (length p, None)"
  by (simp add: resilient_Write_def split: prod.split option.split)

lemma run_errs_None: "(\<forall>x \<in> set xs. \<forall>w. fst (fn x w) = None) \<Longrightarrow> fst (run_errs fn xs w) = []"
  by (induction xs arbitrary: w) (simp_all add: split_beta)

lemma run_errs_two:
  "fst (run_errs fn [a, b] w) \<noteq> [] \<longleftrightarrow> fst (fn a w) \<noteq> None \<or> fst (fn b (snd (fn a w))) \<noteq> None"
  by (cases "fst (fn a w)"; cases "fst (fn b (snd (fn a w)))") (simp_all add: split_beta)

lemma schedule_2: "is_schedule sch \<Longrightarrow> sch 2 = [0, 1] \<or> sch 2 = [1, 0]"
proof -
  assume "is_schedule sch"
  then have m: "mset (sch 2) = mset [0..<2]" by (simp add: is_schedule_def del: mset_upt)
  have u: "[0..<2] = [0, 1::nat]" by (simp add: upt_rec)
  have "set (sch 2) = {0, 1}" using mset_eq_setD [OF m] by (simp only: u) simp
  moreover have "length (sch 2) = Suc (Suc 0)" using mset_eq_length [OF m] by simp
  then obtain a b where "sch 2 = [a, b]" by (auto simp: length_Suc_conv)
  ultimately show ?thesis by (auto simp: doubleton_eq_iff)
qed

section \<open>Properties\<close>

text \<open>
  The fallback of two lookups is their union in which the primary wins: an info is found when
  one of the stores holds it, and only then.
\<close>

theorem fallback_Info_refines:
  assumes "\<And>d w. so_Info p d w = (case h1 w d of Some i \<Rightarrow> (Inr i, w) | None \<Rightarrow> (Inl CNotFound, w))"
    and "\<And>d w. so_Info q d w = (case h2 w d of Some i \<Rightarrow> (Inr i, w) | None \<Rightarrow> (Inl CNotFound, w))"
  shows "so_Info (fallback_New sch p q) d w = (case (h2 w ++ h1 w) d of Some i \<Rightarrow> (Inr i, w) | None \<Rightarrow> (Inl CNotFound, w))"
proof -
  have "two_lookups p q h1 h2" using assms by unfold_locales
  from two_lookups.fallback_Info [OF this, of sch d w] show ?thesis by (simp add: map_add_def split: option.split)
qed

theorem fallback_Info_refines_witness:
  "so_Info (fallback_New (\<lambda>n. [0..<n]) (map_store (\<lambda>w. fst (rw_base w))) (map_store (\<lambda>w. snd (rw_base w)))) ''d''
     \<lparr>rw_failed = [], rw_base = (Map.empty, [''d'' \<mapsto> zero_info])\<rparr> =
   (case ([''d'' \<mapsto> zero_info] ++ Map.empty) ''d'' of
      Some i \<Rightarrow> (Inr i, \<lparr>rw_failed = [], rw_base = (Map.empty, [''d'' \<mapsto> zero_info])\<rparr>)
    | None \<Rightarrow> (Inl CNotFound, \<lparr>rw_failed = [], rw_base = (Map.empty, [''d'' \<mapsto> zero_info])\<rparr>))"
  using fallback_Info_refines [OF mem.p.Info_law mem.q.Info_law,
      of "\<lambda>n. [0..<n]" "''d''" "\<lparr>rw_failed = [], rw_base = (Map.empty, [''d'' \<mapsto> zero_info])\<rparr>"]
  by simp

text \<open>
  The worlds in which a commit of the fallback writer may call the commit of the primary writer: before
  or after the one of the secondary writer, if there is one.
\<close>

definition primary_commit_worlds :: "'w rworld content_store \<Rightarrow> writer_opt list \<Rightarrow> 'w rworld \<Rightarrow> int \<Rightarrow> string \<Rightarrow> info_opt list \<Rightarrow> 'w rworld \<Rightarrow> 'w rworld set" where
  "primary_commit_worlds s opts w0 sz d os v =
     {v} \<union> (case so_Writer s opts w0 of (Inl err, w1) \<Rightarrow> {} | (Inr sw, w1) \<Rightarrow> {snd (resilient_Commit (length (rw_failed w1)) sw sz d os v)})"

lemma fallback_pair_Write:
  "fst (cw_Write (fanout_New sch [pw, resilient_writer i sw]) bs v) = (length bs, None) \<longleftrightarrow> fst (cw_Write pw bs v) = (length bs, None)"
proof -
  obtain n err v' where p: "cw_Write pw bs v = ((n, err), v')" by (metis prod.collapse)
  obtain v'' where "resilient_Write i sw bs v' = ((length bs, None), v'')" using resilient_Write_all [of i sw bs v'] by (metis fst_conv surj_pair)
  then show ?thesis using p by (cases err) (auto simp: fanout_New_def resilient_writer_def)
qed

lemma fallback_pair_Commit:
  assumes "is_schedule sch"
  shows "\<exists>u \<in> {v, snd (resilient_Commit i sw sz d os v)}.
     fst (cw_Commit (fanout_New sch [pw, resilient_writer i sw]) sz d os v) = None \<longleftrightarrow> fst (cw_Commit pw sz d os u) = None"
proof -
  let ?ws = "[pw, resilient_writer i sw]"
  have c: "fst (cw_Commit (fanout_New sch ?ws) sz d os v) = None \<longleftrightarrow> fst (run_errs (\<lambda>i. (\<lambda>x. cw_Commit x sz d os) (?ws ! i)) (sch 2) v) = []"
    by (simp add: fanout_New_def fanout_all_def split_beta numeral_2_eq_2)
  have r: "fst (resilient_Commit i sw sz d os u) = None" for u by (simp add: resilient_Commit_def absorb_None)
  from schedule_2 [OF assms] show ?thesis
  proof
    assume s: "sch 2 = [0, 1]"
    have "fst (cw_Commit (fanout_New sch ?ws) sz d os v) = None \<longleftrightarrow> fst (cw_Commit pw sz d os v) = None"
      unfolding c s using run_errs_two [of "\<lambda>i. (\<lambda>x. cw_Commit x sz d os) (?ws ! i)" 0 1 v] r by (auto simp: resilient_writer_def)
    then show ?thesis by simp
  next
    assume s: "sch 2 = [1, 0]"
    have "fst (cw_Commit (fanout_New sch ?ws) sz d os v) = None \<longleftrightarrow> fst (cw_Commit pw sz d os (snd (resilient_Commit i sw sz d os v))) = None"
      unfolding c s using run_errs_two [of "\<lambda>i. (\<lambda>x. cw_Commit x sz d os) (?ws ! i)" 1 0 v] r by (auto simp: resilient_writer_def)
    then show ?thesis by simp
  qed
qed

text \<open>
  C26: whatever the secondary store does, whether it opens a writer or not and whether that writer
  fails or not, a store with fallback opens a writer when the primary does; a write to it succeeds
  exactly when the primary's write does, and a commit exactly when the primary's commit does, at the
  moment the schedule gives to it.
\<close>

theorem fallback_writer_absorbs_secondary:
  assumes "so_Writer p opts w = (Inr pw, w0)" "is_schedule sch"
  shows "\<exists>wr w2. so_Writer (fallback_New sch p s) opts w = (Inr wr, w2) \<and>
     (\<forall>bs v. fst (cw_Write wr bs v) = (length bs, None) \<longleftrightarrow> fst (cw_Write pw bs v) = (length bs, None)) \<and>
     (\<forall>sz d os v. \<exists>u \<in> primary_commit_worlds s opts w0 sz d os v. fst (cw_Commit wr sz d os v) = None \<longleftrightarrow> fst (cw_Commit pw sz d os u) = None)"
proof -
  obtain r w1 where s: "so_Writer s opts w0 = (r, w1)" by fastforce
  show ?thesis
  proof (cases r)
    case (Inl err)
    then have "so_Writer (fallback_New sch p s) opts w = (Inr pw, w1)" using assms(1) s by (simp add: fallback_New_def fb_Writer_def)
    then show ?thesis using s Inl by (intro exI [of _ pw] exI [of _ w1]) (simp add: primary_commit_worlds_def)
  next
    case (Inr sw)
    let ?wr = "fanout_New sch [pw, resilient_writer (length (rw_failed w1)) sw]"
    have "so_Writer (fallback_New sch p s) opts w = (Inr ?wr, w1\<lparr>rw_failed := rw_failed w1 @ [False]\<rparr>)"
      using fb_Writer_parts [OF assms(1) s [unfolded Inr], of sch] by (simp add: fallback_New_def)
    moreover have "primary_commit_worlds s opts w0 sz d os v = {v, snd (resilient_Commit (length (rw_failed w1)) sw sz d os v)}" for sz d os v
      using s Inr by (auto simp: primary_commit_worlds_def)
    ultimately show ?thesis
      using fallback_pair_Write [of sch pw "length (rw_failed w1)" sw] fallback_pair_Commit [OF assms(2)] by (intro exI conjI allI) (assumption, blast, simp only:)
  qed
qed
text \<open>
  Closing is not absorbed: if the secondary writer fails to close while it has not failed
  before, closing the writer of the fallback store fails, although the primary closes.
\<close>

theorem fallback_Close_reports_secondary:
  assumes "so_Writer p opts w = (Inr pw, w0)" "so_Writer s opts w0 = (Inr sw, w1)" "is_schedule sch"
    and "\<And>w. rw_failed (snd (cw_Close pw w)) = rw_failed w" "\<And>w. fst (cw_Close sw w) \<noteq> None"
    and "so_Writer (fallback_New sch p s) opts w = (Inr wr, w2)"
  shows "fst (cw_Close wr w2) \<noteq> None"
proof -
  let ?i = "length (rw_failed w1)"
  let ?ws = "[pw, resilient_writer ?i sw]"
  have wr: "wr = fanout_New sch ?ws" "w2 = w1\<lparr>rw_failed := rw_failed w1 @ [False]\<rparr>"
    using assms(6) fb_Writer_parts [OF assms(1,2), of sch] by (simp_all add: fallback_New_def)
  have f: "\<not> rw_failed w2 ! ?i" by (simp add: wr)
  have r: "fst (resilient_Close ?i sw v) \<noteq> None" if "\<not> rw_failed v ! ?i" for v
    using that assms(5) by (simp add: resilient_Close_def)
  have "sch 2 = [0, 1] \<or> sch 2 = [1, 0]" by (rule schedule_2 [OF assms(3)])
  then have "fst (run_errs (\<lambda>i. cw_Close (?ws ! i)) (sch 2) w2) \<noteq> []"
  proof
    assume "sch 2 = [0, 1]"
    then show ?thesis using f r [of "snd (cw_Close pw w2)"] assms(4) [of w2]
      by (simp only: run_errs_two) (simp add: resilient_writer_def)
  next
    assume "sch 2 = [1, 0]"
    then show ?thesis using f r [of w2] by (simp only: run_errs_two) (simp add: resilient_writer_def)
  qed
  then show ?thesis by (simp add: wr(1) fanout_New_def fanout_all_def split_beta numeral_2_eq_2)
qed

text \<open>A store that hands out one writer, for the examples.\<close>

definition writer_store :: "'w content_writer \<Rightarrow> 'w content_store" where
  "writer_store x = MockStore (empty_mock\<lparr>mk_WriterFn := Some (\<lambda>opts w. (Inr x, w))\<rparr>)"

definition unclosable_writer :: "bytes rworld content_writer" where
  "unclosable_writer = noop_Writer\<lparr>cw_Close := \<lambda>w. (Some (CMsg [''lost'']), w)\<rparr>"

lemmas example_writers = writer_store_def MockStore_def empty_mock_def or_else_def noop_Writer_def
  appending_writer_def rejecting_writer_def unclosable_writer_def

theorem fallback_writer_absorbs_secondary_witness:
  "\<exists>wr w2. so_Writer (fallback_New (\<lambda>n. [0..<n]) (writer_store appending_writer) (writer_store rejecting_writer)) []
       \<lparr>rw_failed = [], rw_base = []\<rparr> = (Inr wr, w2) \<and>
     fst (cw_Write wr [1, 2] \<lparr>rw_failed = [False], rw_base = []\<rparr>) = (length [1, 2 :: byte], None) \<and>
     fst (cw_Commit wr 2 ''d'' [] \<lparr>rw_failed = [False], rw_base = []\<rparr>) = None"
proof -
  let ?v = "\<lparr>rw_failed = [False], rw_base = []\<rparr> :: bytes rworld"
  have p: "so_Writer (writer_store appending_writer) [] \<lparr>rw_failed = [], rw_base = []\<rparr> = (Inr appending_writer, \<lparr>rw_failed = [], rw_base = []\<rparr>)"
    by (simp add: example_writers)
  have s: "is_schedule (\<lambda>n. [0..<n])" by (simp add: is_schedule_def)
  have a: "fst (cw_Write appending_writer [1, 2] ?v) = (length [1, 2 :: byte], None)" "fst (cw_Commit appending_writer sz d os u) = None" for sz d os u
    by (simp_all add: example_writers)
  obtain wr w2 where h: "so_Writer (fallback_New (\<lambda>n. [0..<n]) (writer_store appending_writer) (writer_store rejecting_writer)) []
       \<lparr>rw_failed = [], rw_base = []\<rparr> = (Inr wr, w2)"
    "\<forall>bs v. fst (cw_Write wr bs v) = (length bs, None) \<longleftrightarrow> fst (cw_Write appending_writer bs v) = (length bs, None)"
    "\<forall>sz d os v. \<exists>u \<in> primary_commit_worlds (writer_store rejecting_writer) [] \<lparr>rw_failed = [], rw_base = []\<rparr> sz d os v.
       fst (cw_Commit wr sz d os v) = None \<longleftrightarrow> fst (cw_Commit appending_writer sz d os u) = None"
    using fallback_writer_absorbs_secondary [OF p s, of "writer_store rejecting_writer"] by blast
  have "fst (cw_Commit wr 2 ''d'' [] ?v) = None" using h(3) [rule_format, of 2 "''d''" "[]" ?v] a(2) by auto
  moreover have "fst (cw_Write wr [1, 2] ?v) = (length [1, 2 :: byte], None)" using h(2) a(1) by blast
  ultimately show ?thesis using h(1) by blast
qed
theorem fallback_Close_reports_secondary_witness:
  "fst (cw_Close (fanout_New (\<lambda>n. [0..<n]) [appending_writer, resilient_writer 0 unclosable_writer])
     \<lparr>rw_failed = [False], rw_base = []\<rparr>) \<noteq> None"
  by (rule fallback_Close_reports_secondary [of "writer_store appending_writer" "[]" "\<lparr>rw_failed = [], rw_base = []\<rparr>" _ _ "writer_store unclosable_writer" _ _ "\<lambda>n. [0..<n]"])
    (simp add: example_writers is_schedule_def fallback_New_def fb_Writer_def resilient_Wrap_def)+

text \<open>The order gives every goroutine as many moves as it can need: \<open>Walk\<close> waits for all of them.\<close>

definition enough_moves :: "(content_info list \<times> c_error option) list \<Rightarrow> nat list \<Rightarrow> bool" where
  "enough_moves walks order \<longleftrightarrow> (\<forall>i \<in> set order. i < length walks) \<and>
     (\<forall>i < length walks. Suc (2 * length (fst (walks ! i))) \<le> count_list order i)"

text \<open>
  C17: the walk of a fan-out store calls the visitor at most once for every digest: whatever the visitor
  does and the order in which the goroutines move, its calls are for infos that the stores present, of
  pairwise different digests. Unless the visitor fails, all digests of the stores are visited, even when
  a store ends its walk with an error; the walk ends without an error exactly when neither the visitor
  nor a store failed.
\<close>

theorem fanout_Walk_visits_once:
  assumes "run_all (map (\<lambda>cs. so_Walk cs fs) stores) (w, []) = (walks, (w0, []))" "enough_moves walks order"
    and "fo_Walk order stores (logging_visit fn) fs (w, []) = (err, (w1, log))"
  shows "distinct (log_digests log) \<and> set (log_digests log) \<subseteq> (\<Union>wk \<in> set walks. ci_Digest ` set (fst wk)) \<and>
     ((\<forall>v \<in> set log. snd v = None) \<longrightarrow> set (log_digests log) = (\<Union>wk \<in> set walks. ci_Digest ` set (fst wk))) \<and>
     (err = None \<longleftrightarrow> (\<forall>v \<in> set log. snd v = None) \<and> (\<forall>wk \<in> set walks. snd wk = None))"
proof -
  let ?ks = "map (\<lambda>(is, own). Walking is own) walks" and ?D = "\<Union>wk \<in> set walks. ci_Digest ` set (fst wk)"
  obtain ks errs where run: "walk_moves (logging_visit fn) order ?ks {} [] (w0, []) = ((ks, errs), (w1, log))" "err = c_Join errs"
    using assms(1,3) by (auto simp: fo_Walk_def split: prod.splits)
  have "(\<Sum>k \<in># mset ?ks. mset (pending k)) = {#}" by (simp add: image_mset.compositionality comp_def case_prod_unfold)
  moreover have "(\<Union>k \<in> set ?ks. remaining k) = ?D" "(\<exists>k \<in> set ?ks. own_error k \<noteq> None) \<longleftrightarrow> (\<exists>wk \<in> set walks. snd wk \<noteq> None)"
    by (simp_all add: case_prod_unfold)
  ultimately have inv: "walk_inv ?D (\<exists>wk \<in> set walks. snd wk \<noteq> None) ?ks {} [] []"
    unfolding walk_inv_def by (simp only: log_digests_def) simp
  have n: "\<forall>i \<in> set order. i < length ?ks" using assms(2) by (simp add: enough_moves_def)
  obtain seen where fin: "walk_inv ?D (\<exists>wk \<in> set walks. snd wk \<noteq> None) ks seen errs log" "length ks = length walks"
    "\<forall>i < length walks. moves_left (ks ! i) \<le> moves_left (?ks ! i) - count_list order i"
    using walk_moves_inv [OF run(1) inv n] by auto
  have ended: "k = WalkDone" if "k \<in> set ks" for k
  proof -
    obtain i where i: "i < length walks" "k = ks ! i" using \<open>k \<in> set ks\<close> fin(2) by (auto simp: in_set_conv_nth)
    then have "moves_left k = 0" using fin(3) assms(2) by (auto simp: enough_moves_def case_prod_unfold)
    then show ?thesis by (cases k) simp_all
  qed
  have "image_mset (\<lambda>k. mset (pending k)) (mset ks) = image_mset (\<lambda>k. {#}) (mset ks)"
    by (rule image_mset_cong) (use ended in fastforce)
  then have p: "(\<Sum>k \<in># mset ks. mset (pending k)) = {#}" by simp
  have r: "(\<Union>k \<in> set ks. remaining k) = {}" "\<not> (\<exists>k \<in> set ks. own_error k \<noteq> None)" using ended by fastforce+
  have seen: "finite seen" "mset (log_digests log) = mset_set seen" using fin(1) p by (simp_all add: walk_inv_def)
  then have d: "set (log_digests log) = seen" by (metis finite_set_mset_mset_set set_mset_mset)
  have "distinct (log_digests log)" using seen d by (simp add: distinct_count_atmost_1 count_mset_set')
  moreover
  have "err = None \<longleftrightarrow> errs = []" using run(2) by simp
  ultimately show ?thesis using fin(1) d r by (auto simp: walk_inv_def)
qed

definition listing_store :: "string list \<Rightarrow> 'w content_store" where
  "listing_store ds = MockStore (empty_mock\<lparr>mk_WalkFn := Some (\<lambda>fs w. ((map (\<lambda>d. zero_info\<lparr>ci_Digest := d\<rparr>) ds, None), w))\<rparr>)"

theorem fanout_Walk_visits_once_witness:
  "\<exists>w1 log. fo_Walk [0, 1, 1, 0, 1, 0, 1, 1] [listing_store [''a''], listing_store [''b'', ''a'']] (logging_visit (\<lambda>i w. (None, w + 1))) [] (0 :: nat, []) = (None, (w1, log)) \<and>
     distinct (log_digests log) \<and> set (log_digests log) = {''a'', ''b''}"
proof -
  let ?walks = "[([zero_info\<lparr>ci_Digest := ''a''\<rparr>], None), ([zero_info\<lparr>ci_Digest := ''b''\<rparr>, zero_info\<lparr>ci_Digest := ''a''\<rparr>], None)]"
  let ?stores = "[listing_store [''a''], listing_store [''b'', ''a'']]" and ?order = "[0, 1, 1, 0, 1, 0, 1, 1]"
  have r: "run_all (map (\<lambda>cs. so_Walk cs []) ?stores) (0 :: nat, []) = (?walks, (0, []))"
    by (simp add: listing_store_def MockStore_def or_else_def)
  have e: "enough_moves ?walks ?order" by (auto simp: enough_moves_def less_Suc_eq)
  have f: "fo_Walk ?order ?stores (logging_visit (\<lambda>i w. (None, w + 1))) [] (0 :: nat, []) =
      (None, (2, [(zero_info\<lparr>ci_Digest := ''b''\<rparr>, None), (zero_info\<lparr>ci_Digest := ''a''\<rparr>, None)]))"
    unfolding fo_Walk_def r by (simp add: logging_visit_def zero_info_def c_Join_def)
  show ?thesis using fanout_Walk_visits_once [OF r e f] f by (auto simp: log_digests_def)
qed
text \<open>
  An option given to the adapter of a store never reaches the store it wraps: every converted
  option leaves the struct it is given as it was, so a reference passed to the adapter is lost.
\<close>

theorem adapter_drops_writer_options:
  "snd (convert_writer_opt opt wo) = wo \<and> snd (convert_info_opt iopt info) = info \<and>
   so_Update (adapt_store s) info fieldpaths = so_Update s info []"
  by (simp add: convert_writer_opt_def convert_info_opt_def adapt_store_def)

text \<open>
  A fan-out store reports any failure of its stores as a missing content: when every store
  fails, for whatever reason, \<open>Info\<close> and \<open>Status\<close> give the not-found error.
\<close>

theorem fanout_Info_masks_errors:
  assumes "\<And>s w. s \<in> set stores \<Longrightarrow> \<exists>e. fst (so_Info s d w) = Inl e"
  shows "fst (so_Info (fanout_Store sch order stores) d w) = Inl CNotFound"
proof -
  have "fst (first_success (map (\<lambda>s. so_Info s d) stores) w) = None"
    using assms by (intro first_success_None) auto
  then show ?thesis by (simp add: fanout_Store_def fo_first_def split_beta)
qed

theorem fanout_Info_masks_errors_witness:
  "fst (so_Info (fanout_Store (\<lambda>n. [0..<n]) [] [noop_Store\<lparr>so_Info := \<lambda>d w. (Inl (CMsg [''permission denied'']), w)\<rparr>]) ''d'' ()) = Inl CNotFound"
  by (rule fanout_Info_masks_errors) simp

end
