(* ===== verification/Cs_Registry.thy ===== *)
theory Cs_Registry
  imports Cs_Writer Cache_Contract Go_Text "HOL-Library.Sublist"
begin

text \<open>
  The content store over a registry (\<open>core/content/store/registry\<close>): the sharded cache of infos with
  a time to live, the sharded table of active ingestions, retries, the store that reads through and
  writes through a local store, its writer with the goroutine that copies to the local store, and
  its reader. The registry client (\<open>RegistryBackend\<close>), the local store, the clock, the timers and
  the parsers of references and digests are parameters.
\<close>

section \<open>Errors (errors.go)\<close>

datatype err_kind = ErrKindUnknown | ErrKindNotFound | ErrKindAlreadyExists | ErrKindInvalidArgument | ErrKindUnavailable | ErrKindPrecondition

definition kind_tag :: "err_kind \<Rightarrow> string" where
  "kind_tag k = (case k of ErrKindUnknown \<Rightarrow> ''unknown'' | ErrKindNotFound \<Rightarrow> ''not found'' | ErrKindAlreadyExists \<Rightarrow> ''already exists''
     | ErrKindInvalidArgument \<Rightarrow> ''invalid argument'' | ErrKindUnavailable \<Rightarrow> ''unavailable'' | ErrKindPrecondition \<Rightarrow> ''precondition'')"

definition storeErr :: "err_kind \<Rightarrow> string \<Rightarrow> string \<Rightarrow> c_error option \<Rightarrow> c_error" where
  "storeErr kind op msg cause =
     (case cause of None \<Rightarrow> CMsg [kind_tag kind, op, msg] | Some e \<Rightarrow> CWrap [kind_tag kind, op, msg] e)"

text \<open>The cause is printed into the message, only the not-found error is wrapped.\<close>

definition notFoundErr :: "string \<Rightarrow> c_error" where
  "notFoundErr op = CWrap [''registry'', op] CNotFound"

section \<open>The cache of infos (cache.go)\<close>

text \<open>The 32-bit FNV-1a hash of the standard library.\<close>

definition fnv32a_hash :: "string \<Rightarrow> 32 word" where
  "fnv32a_hash s = fold (\<lambda>c h. (h XOR of_char c) * 16777619) s 2166136261"

record info_entry =
  ie_info :: content_info
  ie_expiresAt :: int

record info_cache =
  ic_shards :: "(string \<rightharpoonup> info_entry) list"
  ic_ttl :: int

definition newInfoCache :: "int \<Rightarrow> info_cache" where
  "newInfoCache ttl = \<lparr>ic_shards = replicate 256 Map.empty, ic_ttl = ttl\<rparr>"

definition ic_index :: "string \<Rightarrow> nat" where
  "ic_index dgst = unat (fnv32a_hash dgst AND 0xff)"

definition ic_Get :: "int \<Rightarrow> string \<Rightarrow> info_cache \<Rightarrow> content_info option" where
  "ic_Get now dgst c =
     (case (ic_shards c ! ic_index dgst) dgst of
        None \<Rightarrow> None
      | Some e \<Rightarrow> (if now > ie_expiresAt e then None else Some (ie_info e)))"

text \<open>\<open>time.Now().Add(ttl).UnixNano()\<close>: the nanoseconds of the sum, in 64 bits.\<close>

definition ic_deadline :: "int \<Rightarrow> int \<Rightarrow> int" where
  "ic_deadline now ttl = signed_take_bit 63 (now + ttl)"

definition ic_Set :: "int \<Rightarrow> string \<Rightarrow> content_info \<Rightarrow> info_cache \<Rightarrow> info_cache" where
  "ic_Set now dgst info c =
     c\<lparr>ic_shards := (ic_shards c)[ic_index dgst :=
         (ic_shards c ! ic_index dgst)(dgst \<mapsto> \<lparr>ie_info = info, ie_expiresAt = ic_deadline now (ic_ttl c)\<rparr>)]\<rparr>"

definition ic_Delete :: "string \<Rightarrow> info_cache \<Rightarrow> info_cache" where
  "ic_Delete dgst c = c\<lparr>ic_shards := (ic_shards c)[ic_index dgst := (ic_shards c ! ic_index dgst)(dgst := None)]\<rparr>"

definition ic_Flush :: "info_cache \<Rightarrow> info_cache" where
  "ic_Flush c = c\<lparr>ic_shards := map (\<lambda>s. Map.empty) (ic_shards c)\<rparr>"

section \<open>The table of active ingestions (ingestion.go)\<close>

text \<open>
  A writer is named by its number in the world. A shard is a Go map: an association list; \<open>perm\<close> is
  the order in which a loop meets the entries of a shard.
\<close>

record ingestion =
  ai_ref :: string
  ai_desc :: descriptor
  ai_writer :: nat
  ai_startedAt :: int
  ai_updatedAt :: int

type_synonym tracker = "(string \<times> ingestion) list list"

definition newIngestionTracker :: tracker where "newIngestionTracker = replicate 64 []"

definition it_index :: "string \<Rightarrow> nat" where "it_index ref = unat (fnv32a_hash ref AND 0x3f)"

definition it_Get :: "string \<Rightarrow> tracker \<Rightarrow> ingestion option" where
  "it_Get ref t = map_of (t ! it_index ref) ref"

definition it_Add :: "string \<Rightarrow> ingestion \<Rightarrow> tracker \<Rightarrow> bool \<times> tracker" where
  "it_Add ref ing t =
     (if it_Get ref t \<noteq> None then (False, t)
      else (True, t[it_index ref := (ref, ing) # (t ! it_index ref)]))"

definition it_Remove :: "string \<Rightarrow> tracker \<Rightarrow> ingestion option \<times> tracker" where
  "it_Remove ref t = (it_Get ref t, t[it_index ref := filter (\<lambda>e. fst e \<noteq> ref) (t ! it_index ref)])"

definition it_Touch :: "int \<Rightarrow> string \<Rightarrow> tracker \<Rightarrow> tracker" where
  "it_Touch now ref t =
     t[it_index ref := map (\<lambda>(r, ing). (r, if r = ref then ing\<lparr>ai_updatedAt := now\<rparr> else ing)) (t ! it_index ref)]"

definition it_All :: "((string \<times> ingestion) list \<Rightarrow> (string \<times> ingestion) list) \<Rightarrow> tracker \<Rightarrow> ingestion list" where
  "it_All perm t = concat (map (\<lambda>s. map snd (perm s)) t)"

definition it_RemoveAll :: "((string \<times> ingestion) list \<Rightarrow> (string \<times> ingestion) list) \<Rightarrow> tracker \<Rightarrow> ingestion list \<times> tracker" where
  "it_RemoveAll perm t = (it_All perm t, map (\<lambda>s. []) t)"

section \<open>Retries (store.go)\<close>

text \<open>
  The pause before attempt \<open>i\<close>: \<open>jitter\<close> is the random part. \<open>sleep\<close> waits for it on the timer or
  until the context ends.
\<close>

definition retryBase :: "64 word" where "retryBase = 100000000"

definition backoff :: "64 word \<Rightarrow> nat \<Rightarrow> 64 word" where
  "backoff jitter attempt =
     (let d = push_bit (attempt - 1) retryBase + jitter in if d \<le>s 0 then retryBase else d)"

datatype 'a retried = Succeeded 'a | Interrupted c_error | Exhausted "c_error option"

fun retry :: "(nat \<Rightarrow> 'w \<Rightarrow> c_error option \<times> 'w) \<Rightarrow> ('w \<Rightarrow> (c_error + 'a) \<times> 'w) \<Rightarrow> nat \<Rightarrow> nat \<Rightarrow> c_error option \<Rightarrow> 'w \<Rightarrow> 'a retried \<times> 'w" where
  "retry sleep call 0 i lastErr w = (Exhausted lastErr, w)"
| "retry sleep call (Suc k) i lastErr w =
     (case (if i > 0 then sleep i w else (None, w)) of
        (Some err, w) \<Rightarrow> (Interrupted err, w)
      | (None, w) \<Rightarrow>
          (case call w of
             (Inr a, w) \<Rightarrow> (Succeeded a, w)
           | (Inl err, w) \<Rightarrow> retry sleep call k (Suc i) (Some err) w))"

section \<open>Buffer pool (bufpool.go)\<close>

text \<open>
  Buffers have a power of two as capacity, between 512 bytes and 4 MiB. \<open>poolCap\<close> is the capacity of
  the buffer that \<open>poolGet\<close> returns.
\<close>

fun bits_len :: "nat \<Rightarrow> nat" where
  "bits_len n = (if n = 0 then 0 else Suc (bits_len (n div 2)))"

declare bits_len.simps [simp del]

definition bpIdx :: "nat \<Rightarrow> nat" where
  "bpIdx sz = (if sz = 0 then 0 else min 22 (max 9 (bits_len (sz - 1))) - 9)"

definition poolCap :: "nat \<Rightarrow> nat" where "poolCap sz = 2 ^ (bpIdx sz + 9)"

record local_chunk =
  ck_buf :: bytes
  ck_cap :: nat
  ck_n :: nat

text \<open>A buffer of the pool with the bytes that \<open>copy\<close> puts into it.\<close>

definition pool_copy :: "bytes \<Rightarrow> local_chunk" where
  "pool_copy p = \<lparr>ck_buf = take (poolCap (length p)) p, ck_cap = poolCap (length p), ck_n = length p\<rparr>"

section \<open>The store and its world (store.go)\<close>

record reg_desc = descriptor +
  rd_Annotations :: "string \<rightharpoonup> string"

text \<open>
  A stream of a registry: \<open>Read\<close> into a buffer of a length gives the bytes and an error, such as the
  end of the file; some streams also implement \<open>io.ReaderAt\<close>.
\<close>

record 'w stream =
  st_Read :: "nat \<Rightarrow> 'w \<Rightarrow> (bytes \<times> c_error option) \<times> 'w"
  st_ReadAt :: "(nat \<Rightarrow> int \<Rightarrow> 'w \<Rightarrow> (bytes \<times> c_error option) \<times> 'w) option"
  st_Close :: "'w \<Rightarrow> c_error option \<times> 'w"

record 'w backend =
  bk_Resolve :: "string \<Rightarrow> 'w \<Rightarrow> (c_error + string \<times> reg_desc) \<times> 'w"
  bk_Fetch :: "string \<Rightarrow> descriptor \<Rightarrow> 'w \<Rightarrow> (c_error + 'w stream) \<times> 'w"
  bk_Push :: "string \<Rightarrow> descriptor \<Rightarrow> 'w \<Rightarrow> (c_error + 'w content_writer) \<times> 'w"

text \<open>
  What the store takes from outside: the clock, the timer of a pause (\<open>Some\<close>: the error of an ended
  context), the parsers of named references and digests, and the order of map iterations and of
  concurrent hooks.
\<close>

record 'w reg_env =
  ge_now :: "'w \<Rightarrow> int"
  ge_sleep :: "nat \<Rightarrow> 'w \<Rightarrow> c_error option \<times> 'w"
  ge_parseNamed :: "string \<Rightarrow> c_error option"
  ge_withDigest :: "string \<Rightarrow> string \<Rightarrow> c_error + string"
  ge_parseDigest :: "string \<Rightarrow> c_error + string"
  ge_validate :: "string \<Rightarrow> c_error option"
  ge_perm :: "(string \<times> ingestion) list \<Rightarrow> (string \<times> ingestion) list"
  ge_sch :: schedule

datatype reg_kind = EventBlobFetched | EventBlobPushed | EventBlobCached | EventBlobDeleted | EventBlobAccessed

record reg_event =
  ev_Kind :: reg_kind
  ev_Digest :: string
  ev_Size :: int
  ev_Ref :: string
  ev_Timestamp :: int

record 'w store_options =
  so_hooks :: "(reg_event \<Rightarrow> 'w \<Rightarrow> 'w) list"
  so_cacheTTL :: int
  so_retryMax :: int
  so_workerLimit :: int

type_synonym 'w store_option = "'w store_options \<Rightarrow> 'w store_options"

definition WithHooks :: "(reg_event \<Rightarrow> 'w \<Rightarrow> 'w) list \<Rightarrow> 'w store_option" where
  "WithHooks hooks c = c\<lparr>so_hooks := so_hooks c @ hooks\<rparr>"

definition WithCacheTTL :: "int \<Rightarrow> 'w store_option" where "WithCacheTTL ttl c = c\<lparr>so_cacheTTL := ttl\<rparr>"

definition WithRetryMax :: "int \<Rightarrow> 'w store_option" where "WithRetryMax n c = c\<lparr>so_retryMax := n\<rparr>"

definition WithWriterWorkerLimit :: "int \<Rightarrow> 'w store_option" where "WithWriterWorkerLimit n c = c\<lparr>so_workerLimit := n\<rparr>"

record 'w registry_store =
  gs_remote :: "'w backend"
  gs_local :: "'w content_store"
  gs_localClose :: "('w \<Rightarrow> c_error option \<times> 'w) option"
  gs_ref :: string
  gs_hooks :: "(reg_event \<Rightarrow> 'w \<Rightarrow> 'w) list"
  gs_retryMax :: int
  gs_workerLimit :: int

text \<open>
  The writers of the store are objects of the world. \<open>pw_ch\<close> is the channel to the goroutine that
  writes to the local store; a field without a local writer is not used.
\<close>

record 'w push_writer =
  pw_offset :: "64 word"
  pw_committed :: bool
  pw_ref :: string
  pw_desc :: descriptor
  pw_remote :: "'w content_writer"
  pw_local :: "'w content_writer option"
  pw_ch :: "local_chunk list"
  pw_cap :: nat
  pw_chClosed :: bool

record 'w reg_world =
  gw_cache :: info_cache
  gw_ing :: tracker
  gw_writers :: "'w push_writer list"
  gw_crashed :: bool
  gw_base :: 'w

definition on_base :: "('w \<Rightarrow> 'a \<times> 'w) \<Rightarrow> 'w reg_world \<Rightarrow> 'a \<times> 'w reg_world" where
  "on_base f g = (let (a, w) = f (gw_base g) in (a, g\<lparr>gw_base := w\<rparr>))"

definition reg_New ::
  "'w reg_env \<Rightarrow> 'w backend option \<Rightarrow> ('w content_store \<times> ('w \<Rightarrow> c_error option \<times> 'w) option) option \<Rightarrow> string \<Rightarrow> 'w store_option list \<Rightarrow> 'w
   \<Rightarrow> c_error + 'w registry_store \<times> 'w reg_world" where
  "reg_New E remote local ref opts w =
     (case remote of None \<Rightarrow> Inl (CMsg [''registry: backend must not be nil''])
      | Some rem \<Rightarrow> (case local of None \<Rightarrow> Inl (CMsg [''registry: local store must not be nil''])
      | Some (loc, closer) \<Rightarrow>
          if ref = '''' then Inl (CMsg [''registry: reference must not be empty''])
          else (case ge_parseNamed E ref of Some err \<Rightarrow> Inl (CWrap [''registry: invalid reference'', ref] err)
          | None \<Rightarrow>
              (let so = fold (\<lambda>opt c. opt c) opts \<lparr>so_hooks = [], so_cacheTTL = 0, so_retryMax = 0, so_workerLimit = 0\<rparr>;
                   ttl = (if so_cacheTTL so \<le> 0 then 300000000000 else so_cacheTTL so);
                   retryMax = (if so_retryMax so \<le> 0 then 3 else so_retryMax so);
                   workerLimit = (if so_workerLimit so \<le> 0 then 32 else so_workerLimit so)
               in Inr (\<lparr>gs_remote = rem, gs_local = loc, gs_localClose = closer, gs_ref = ref, gs_hooks = so_hooks so,
                        gs_retryMax = retryMax, gs_workerLimit = workerLimit\<rparr>,
                       \<lparr>gw_cache = newInfoCache ttl, gw_ing = newIngestionTracker, gw_writers = [], gw_crashed = False, gw_base = w\<rparr>)))))"

definition emit :: "'w reg_env \<Rightarrow> 'w registry_store \<Rightarrow> reg_event \<Rightarrow> 'w reg_world \<Rightarrow> 'w reg_world" where
  "emit E S evt g = g\<lparr>gw_base := fold (\<lambda>i. (gs_hooks S ! i) evt) (ge_sch E (length (gs_hooks S))) (gw_base g)\<rparr>"

definition blob_event :: "'w reg_env \<Rightarrow> reg_kind \<Rightarrow> string \<Rightarrow> int \<Rightarrow> 'w reg_world \<Rightarrow> reg_event" where
  "blob_event E kind dgst sz g = \<lparr>ev_Kind = kind, ev_Digest = dgst, ev_Size = sz, ev_Ref = '''', ev_Timestamp = ge_now E (gw_base g)\<rparr>"

definition fetchRemoteInfoWithRetry :: "'w reg_env \<Rightarrow> 'w registry_store \<Rightarrow> string \<Rightarrow> 'w \<Rightarrow> (c_error + content_info) \<times> 'w" where
  "fetchRemoteInfoWithRetry E S dgst w =
     (case ge_parseNamed E (gs_ref S) of
        Some err \<Rightarrow> (Inl (storeErr ErrKindInvalidArgument ''Info'' ''parse reference'' (Some err)), w)
      | None \<Rightarrow> (case ge_withDigest E (gs_ref S) dgst of
          Inl err \<Rightarrow> (Inl (storeErr ErrKindInvalidArgument ''Info'' ''build digest ref'' (Some err)), w)
        | Inr dref \<Rightarrow> (case retry (ge_sleep E) (bk_Resolve (gs_remote S) dref) (nat (gs_retryMax S)) 0 None w of
            (Succeeded (name, desc), w) \<Rightarrow>
              (Inr \<lparr>ci_Digest = de_Digest desc, ci_Size = de_Size desc, ci_CreatedAt = 0, ci_UpdatedAt = 0, ci_Labels = rd_Annotations desc\<rparr>, w)
          | (Interrupted err, w) \<Rightarrow> (Inl err, w)
          | (Exhausted err, w) \<Rightarrow> (Inl (notFoundErr ''Info''), w))))"

text \<open>The two other retry loops return the last error itself.\<close>

definition finish_retry :: "'a retried \<times> 'w \<Rightarrow> (c_error + 'a) \<times> 'w" where
  "finish_retry r =
     (case r of (Succeeded a, w) \<Rightarrow> (Inr a, w) | (Interrupted err, w) \<Rightarrow> (Inl err, w)
      | (Exhausted (Some err), w) \<Rightarrow> (Inl err, w) | (Exhausted None, w) \<Rightarrow> (Inl (CMsg [''no attempt'']), w))"

definition fetchWithRetry :: "'w reg_env \<Rightarrow> 'w registry_store \<Rightarrow> descriptor \<Rightarrow> 'w \<Rightarrow> (c_error + 'w stream) \<times> 'w" where
  "fetchWithRetry E S desc w = finish_retry (retry (ge_sleep E) (bk_Fetch (gs_remote S) (gs_ref S) desc) (nat (gs_retryMax S)) 0 None w)"

definition pushWithRetry :: "'w reg_env \<Rightarrow> 'w registry_store \<Rightarrow> descriptor \<Rightarrow> 'w \<Rightarrow> (c_error + 'w content_writer) \<times> 'w" where
  "pushWithRetry E S desc w = finish_retry (retry (ge_sleep E) (bk_Push (gs_remote S) (gs_ref S) desc) (nat (gs_retryMax S)) 0 None w)"

definition digestFromRef :: "'w reg_env \<Rightarrow> string \<Rightarrow> c_error + string" where
  "digestFromRef E ref =
     (if ref = '''' then Inl (CMsg [''either descriptor digest or ref with digest is required''])
      else case ge_parseDigest E ref of
        Inr dgst \<Rightarrow> (case ge_validate E dgst of None \<Rightarrow> Inr dgst | Some err \<Rightarrow> Inl err)
      | Inl err \<Rightarrow>
          (if CHR ''@'' \<notin> set ref then Inl (CMsg [''ref must be a valid digest or contain @digest'', ref])
           else case ge_parseDigest E (tl (dropWhile (\<lambda>c. c \<noteq> CHR ''@'') ref)) of
             Inl err \<Rightarrow> Inl (CWrap [''parse digest from ref'', ref] err)
           | Inr dgst \<Rightarrow> (case ge_validate E dgst of None \<Rightarrow> Inr dgst | Some err \<Rightarrow> Inl err)))"

definition matchesFilters :: "content_status \<Rightarrow> string list \<Rightarrow> bool" where
  "matchesFilters st filters \<longleftrightarrow> filters = [] \<or> (\<exists>f \<in> set filters. HasPrefix (cs_Ref st) f)"

section \<open>The writer (writer.go)\<close>

text \<open>
  Results of methods that may panic. A writer is named by its number; \<open>update_writer\<close> changes one.
\<close>

datatype 'a call_result = Returns 'a | SendOnClosedChannel

definition update_writer :: "nat \<Rightarrow> ('w push_writer \<Rightarrow> 'w push_writer) \<Rightarrow> 'w reg_world \<Rightarrow> 'w reg_world" where
  "update_writer k f g = g\<lparr>gw_writers := (gw_writers g)[k := f (gw_writers g ! k)]\<rparr>"

definition newContentWriter :: "string \<Rightarrow> descriptor \<Rightarrow> 'w content_writer \<Rightarrow> 'w content_writer option \<Rightarrow> int \<Rightarrow> 'w push_writer" where
  "newContentWriter ref desc remote local chanCap =
     \<lparr>pw_offset = 0, pw_committed = False, pw_ref = ref, pw_desc = desc, pw_remote = remote, pw_local = local,
      pw_ch = [], pw_cap = nat (if chanCap \<le> 0 then 32 else chanCap), pw_chClosed = False\<rparr>"

text \<open>
  One round of \<open>localWorker\<close>: a chunk leaves the channel and is written, whatever the result. Slicing
  a buffer beyond its capacity panics, and a panic of a goroutine ends the program.
\<close>

definition localWorker :: "nat \<Rightarrow> 'w reg_world \<Rightarrow> 'w reg_world" where
  "localWorker k g =
     (let x = gw_writers g ! k in
      case (pw_local x, pw_ch x) of
        (Some loc, c # cs) \<Rightarrow>
          (let g = update_writer k (\<lambda>x. x\<lparr>pw_ch := cs\<rparr>) g in
           if ck_n c > ck_cap c then g\<lparr>gw_crashed := True\<rparr> else snd (on_base (cw_Write loc (take (ck_n c) (ck_buf c))) g))
      | _ \<Rightarrow> g)"

text \<open>Closing the channel and \<open>localWg.Wait\<close>: the goroutine ends once it has emptied the channel.\<close>

definition closeLocalCh :: "nat \<Rightarrow> 'w reg_world \<Rightarrow> 'w reg_world" where
  "closeLocalCh k g = (if pw_local (gw_writers g ! k) = None then g else update_writer k (\<lambda>x. x\<lparr>pw_chClosed := True\<rparr>) g)"

definition wait_local :: "nat \<Rightarrow> 'w reg_world \<Rightarrow> 'w reg_world" where
  "wait_local k g = (localWorker k ^^ length (pw_ch (gw_writers g ! k))) g"

definition pw_Write :: "'w reg_env \<Rightarrow> nat \<Rightarrow> bytes \<Rightarrow> 'w reg_world \<Rightarrow> (nat \<times> c_error option) call_result \<times> 'w reg_world" where
  "pw_Write E k p g =
     (case on_base (cw_Write (pw_remote (gw_writers g ! k)) p) g of
        ((n, Some err), g) \<Rightarrow> (Returns (n, Some err), g)
      | ((n, None), g) \<Rightarrow>
          (let x = gw_writers g ! k in
           if pw_local x \<noteq> None \<and> n > 0 \<and> pw_chClosed x then (SendOnClosedChannel, g)
           else (let g = (if pw_local x \<noteq> None \<and> n > 0 \<and> length (pw_ch x) < pw_cap x
                          then update_writer k (\<lambda>x. x\<lparr>pw_ch := pw_ch x @ [pool_copy (take n p)]\<rparr>) g else g);
                     g = update_writer k (\<lambda>x. x\<lparr>pw_offset := pw_offset x + of_nat n\<rparr>) g
                 in (Returns (n, None), g\<lparr>gw_ing := it_Touch (ge_now E (gw_base g)) (pw_ref x) (gw_ing g)\<rparr>))))"

definition pw_Commit :: "'w reg_env \<Rightarrow> 'w registry_store \<Rightarrow> nat \<Rightarrow> int \<Rightarrow> string \<Rightarrow> info_opt list \<Rightarrow> 'w reg_world \<Rightarrow> c_error option \<times> 'w reg_world" where
  "pw_Commit E S k sz expected opts g =
     (let x = gw_writers g ! k in
      if pw_committed x then (Some (storeErr ErrKindPrecondition ''Commit'' ''already committed'' None), g)
      else case on_base (cw_Commit (pw_remote x) sz expected opts) g of
        (Some err, g) \<Rightarrow> (Some (CWrap [''registry: remote commit''] err), g)
      | (None, g) \<Rightarrow>
          (let g = update_writer k (\<lambda>x. x\<lparr>pw_committed := True\<rparr>) g;
               g = (case pw_local x of None \<Rightarrow> g
                    | Some loc \<Rightarrow> snd (on_base (cw_Commit loc sz expected opts) (wait_local k (closeLocalCh k g))));
               g = g\<lparr>gw_ing := snd (it_Remove (pw_ref x) (gw_ing g))\<rparr>;
               g = (if expected \<noteq> '''' then g\<lparr>gw_cache := ic_Delete expected (gw_cache g)\<rparr> else g)
           in (None, emit E S ((blob_event E EventBlobPushed expected sz g)\<lparr>ev_Ref := pw_ref x\<rparr>) g)))"

definition pw_Close :: "nat \<Rightarrow> 'w reg_world \<Rightarrow> c_error option \<times> 'w reg_world" where
  "pw_Close k g =
     (let x = gw_writers g ! k;
          g = closeLocalCh k g;
          g = (case pw_local x of None \<Rightarrow> g | Some loc \<Rightarrow> snd (on_base (cw_Close loc) (wait_local k g)));
          g = g\<lparr>gw_ing := snd (it_Remove (pw_ref x) (gw_ing g))\<rparr>
      in on_base (cw_Close (pw_remote x)) g)"

definition pw_Digest :: "nat \<Rightarrow> 'w reg_world \<Rightarrow> string" where
  "pw_Digest k g = cw_Digest (pw_remote (gw_writers g ! k)) (gw_base g)"

definition pw_Status :: "nat \<Rightarrow> 'w reg_world \<Rightarrow> c_error + content_status" where
  "pw_Status k g = cw_Status (pw_remote (gw_writers g ! k)) (gw_base g)"

definition pw_Truncate :: "nat \<Rightarrow> int \<Rightarrow> 'w reg_world \<Rightarrow> c_error option \<times> 'w reg_world" where
  "pw_Truncate k sz g = on_base (cw_Truncate (pw_remote (gw_writers g ! k)) sz) g"

section \<open>The reader (reader.go)\<close>

record 'w reg_reader =
  gr_rc :: "'w stream"
  gr_localWriter :: "'w content_writer option"
  gr_size :: int

text \<open>
  With \<open>io.ReaderAt\<close> the reader asks the stream directly. Without, it reads the next bytes of the
  stream and copies them to the local writer: \<open>io.TeeReader\<close> returns an error of that write.
\<close>

definition tee_Read :: "'w reg_reader \<Rightarrow> nat \<Rightarrow> 'w \<Rightarrow> (bytes \<times> c_error option) \<times> 'w" where
  "tee_Read r n w =
     (let ((p, err), w) = st_Read (gr_rc r) n w in
      case gr_localWriter r of
        None \<Rightarrow> ((p, err), w)
      | Some lw \<Rightarrow>
          (if p = [] then ((p, err), w)
           else case cw_Write lw p w of
             ((k, Some werr), w) \<Rightarrow> ((take k p, Some werr), w)
           | ((k, None), w) \<Rightarrow> ((p, err), w)))"

definition gr_ReadAt :: "'w reg_reader \<Rightarrow> nat \<Rightarrow> int \<Rightarrow> 'w \<Rightarrow> (bytes \<times> c_error option) \<times> 'w" where
  "gr_ReadAt r n off w =
     (case st_ReadAt (gr_rc r) of Some readAt \<Rightarrow> readAt n off w | None \<Rightarrow> tee_Read r n w)"

definition gr_Size :: "'w reg_reader \<Rightarrow> int" where "gr_Size r = gr_size r"

text \<open>The loop may not end: a stream that never fails is read for ever.\<close>

partial_function (option) drainTee :: "'w reg_reader \<Rightarrow> nat \<Rightarrow> 'w \<Rightarrow> 'w option" where
  "drainTee r bufSize w =
     (case tee_Read r bufSize w of
        ((p, Some err), w) \<Rightarrow> Some w
      | ((p, None), w) \<Rightarrow> drainTee r bufSize w)"

definition gr_Close :: "nat \<Rightarrow> 'w reg_reader \<Rightarrow> 'w \<Rightarrow> (c_error option \<times> 'w) option" where
  "gr_Close bufSize r w =
     (case (if st_ReadAt (gr_rc r) = None then drainTee r bufSize w else Some w) of
        None \<Rightarrow> None
      | Some w \<Rightarrow>
          (let w = (case gr_localWriter r of None \<Rightarrow> w
                    | Some lw \<Rightarrow> snd (cw_Close lw (snd (cw_Commit lw (gr_size r) '''' [] w))))
           in Some (st_Close (gr_rc r) w)))"

section \<open>The operations of the store (store.go)\<close>

definition reg_Info :: "'w reg_env \<Rightarrow> 'w registry_store \<Rightarrow> string \<Rightarrow> 'w reg_world \<Rightarrow> (c_error + content_info) \<times> 'w reg_world" where
  "reg_Info E S dgst g =
     (if dgst = '''' then (Inl (storeErr ErrKindInvalidArgument ''Info'' ''empty digest'' None), g)
      else case ic_Get (ge_now E (gw_base g)) dgst (gw_cache g) of
        Some info \<Rightarrow> (Inr info, emit E S (blob_event E EventBlobCached dgst (ci_Size info) g) g)
      | None \<Rightarrow> (case on_base (so_Info (gs_local S) dgst) g of
          (Inr info, g) \<Rightarrow>
            (let g = g\<lparr>gw_cache := ic_Set (ge_now E (gw_base g)) dgst info (gw_cache g)\<rparr>
             in (Inr info, emit E S (blob_event E EventBlobCached dgst (ci_Size info) g) g))
        | (Inl err, g) \<Rightarrow> (case on_base (fetchRemoteInfoWithRetry E S dgst) g of
            (Inl err, g) \<Rightarrow> (Inl err, g)
          | (Inr info, g) \<Rightarrow>
              (let g = g\<lparr>gw_cache := ic_Set (ge_now E (gw_base g)) dgst info (gw_cache g)\<rparr>
               in (Inr info, emit E S (blob_event E EventBlobAccessed dgst (ci_Size info) g) g)))))"

datatype 'w reader_at = LocalReader content_reader | RemoteReader "'w reg_reader"

definition opt_WithDescriptor :: "descriptor \<Rightarrow> writer_opt" where
  "opt_WithDescriptor desc wo = (None, wo\<lparr>wo_Desc := desc\<rparr>)"

definition opt_WithRef :: "string \<Rightarrow> writer_opt" where "opt_WithRef ref wo = (None, wo\<lparr>wo_Ref := ref\<rparr>)"

text \<open>The local writer is optional: an error of the local store means that there is none.\<close>

definition local_writer :: "'w registry_store \<Rightarrow> descriptor \<Rightarrow> string \<Rightarrow> 'w reg_world \<Rightarrow> 'w content_writer option \<times> 'w reg_world" where
  "local_writer S desc ref g =
     (case on_base (so_Writer (gs_local S) [opt_WithDescriptor desc, opt_WithRef ref]) g of
        (Inr lw, g) \<Rightarrow> (Some lw, g) | (Inl err, g) \<Rightarrow> (None, g))"

definition reg_ReaderAt :: "'w reg_env \<Rightarrow> 'w registry_store \<Rightarrow> descriptor \<Rightarrow> 'w reg_world \<Rightarrow> (c_error + 'w reader_at) \<times> 'w reg_world" where
  "reg_ReaderAt E S desc g =
     (case ge_validate E (de_Digest desc) of
        Some err \<Rightarrow> (Inl (storeErr ErrKindInvalidArgument ''ReaderAt'' ''invalid digest'' (Some err)), g)
      | None \<Rightarrow> (case on_base (so_ReaderAt (gs_local S) desc) g of
          (Inr ra, g) \<Rightarrow> (Inr (LocalReader ra), emit E S (blob_event E EventBlobCached (de_Digest desc) (de_Size desc) g) g)
        | (Inl err, g) \<Rightarrow> (case on_base (fetchWithRetry E S desc) g of
            (Inl err, g) \<Rightarrow> (Inl (storeErr ErrKindUnavailable ''ReaderAt'' (de_Digest desc) (Some err)), g)
          | (Inr rc, g) \<Rightarrow>
              (let (lw, g) = local_writer S desc (de_Digest desc) g
               in (Inr (RemoteReader \<lparr>gr_rc = rc, gr_localWriter = lw, gr_size = de_Size desc\<rparr>),
                   emit E S (blob_event E EventBlobFetched (de_Digest desc) (de_Size desc) g) g)))))"

fun apply_opts :: "writer_opt list \<Rightarrow> writer_opts \<Rightarrow> c_error + writer_opts" where
  "apply_opts [] wo = Inr wo"
| "apply_opts (opt # opts) wo =
     (case opt wo of (Some err, wo') \<Rightarrow> Inl (storeErr ErrKindInvalidArgument ''Writer'' ''apply option'' (Some err))
      | (None, wo') \<Rightarrow> apply_opts opts wo')"

definition zero_opts :: writer_opts where
  "zero_opts = \<lparr>wo_Ref = '''', wo_Desc = \<lparr>de_MediaType = '''', de_Digest = '''', de_Size = 0\<rparr>\<rparr>"

definition reg_Writer :: "'w reg_env \<Rightarrow> 'w registry_store \<Rightarrow> writer_opt list \<Rightarrow> 'w reg_world \<Rightarrow> (c_error + nat) \<times> 'w reg_world" where
  "reg_Writer E S opts g =
     (case apply_opts opts zero_opts of Inl err \<Rightarrow> (Inl err, g)
      | Inr wo \<Rightarrow>
        (case (if de_Digest (wo_Desc wo) = '''' then digestFromRef E (wo_Ref wo) else Inr (de_Digest (wo_Desc wo))) of
           Inl err \<Rightarrow> (Inl (storeErr ErrKindInvalidArgument ''Writer'' ''resolve digest'' (Some err)), g)
         | Inr dgst \<Rightarrow>
            (let desc = (wo_Desc wo)\<lparr>de_Digest := dgst\<rparr>; ingRef = (if wo_Ref wo = '''' then dgst else wo_Ref wo) in
             if it_Get ingRef (gw_ing g) \<noteq> None
             then (Inl (storeErr ErrKindAlreadyExists ''Writer'' ''ingestion already active'' None), g)
             else case on_base (pushWithRetry E S desc) g of
               (Inl err, g) \<Rightarrow> (Inl (storeErr ErrKindUnavailable ''Writer'' ''remote push'' (Some err)), g)
             | (Inr rw, g) \<Rightarrow>
                 (let (lw, g) = local_writer S desc ingRef g;
                      k = length (gw_writers g);
                      now = ge_now E (gw_base g);
                      ing = \<lparr>ai_ref = ingRef, ai_desc = desc, ai_writer = k, ai_startedAt = now, ai_updatedAt = now\<rparr>
                  in (Inr k, g\<lparr>gw_writers := gw_writers g @ [newContentWriter ingRef desc rw lw (gs_workerLimit S)],
                               gw_ing := snd (it_Add ingRef ing (gw_ing g))\<rparr>)))))"

definition ingestion_status :: "'w reg_world \<Rightarrow> string \<Rightarrow> ingestion \<Rightarrow> c_error + content_status" where
  "ingestion_status g ref ing =
     (case pw_Status (ai_writer ing) g of Inl err \<Rightarrow> Inl err
      | Inr st \<Rightarrow> Inr (st\<lparr>cs_Ref := ref, cs_StartedAt := ai_startedAt ing, cs_UpdatedAt := ai_updatedAt ing\<rparr>))"

definition reg_Status :: "'w registry_store \<Rightarrow> string \<Rightarrow> 'w reg_world \<Rightarrow> (c_error + content_status) \<times> 'w reg_world" where
  "reg_Status S ref g =
     (case it_Get ref (gw_ing g) of Some ing \<Rightarrow> (ingestion_status g ref ing, g) | None \<Rightarrow> on_base (so_Status (gs_local S) ref) g)"

definition reg_ListStatuses :: "'w reg_env \<Rightarrow> 'w registry_store \<Rightarrow> string list \<Rightarrow> 'w reg_world \<Rightarrow> (c_error + content_status list) \<times> 'w reg_world" where
  "reg_ListStatuses E S filters g =
     (let sts = List.map_filter (\<lambda>ing. case ingestion_status g (ai_ref ing) ing of Inl err \<Rightarrow> None | Inr st \<Rightarrow> Some st) (it_All (ge_perm E) (gw_ing g));
          out = filter (\<lambda>st. matchesFilters st filters) sts
      in case on_base (so_ListStatuses (gs_local S) filters) g of
           (Inr ls, g) \<Rightarrow> (Inr (out @ ls), g) | (Inl err, g) \<Rightarrow> (Inr out, g))"

definition reg_Abort :: "'w registry_store \<Rightarrow> string \<Rightarrow> 'w reg_world \<Rightarrow> c_error option \<times> 'w reg_world" where
  "reg_Abort S ref g =
     (case it_Remove ref (gw_ing g) of
        (Some ing, t) \<Rightarrow> pw_Close (ai_writer ing) (g\<lparr>gw_ing := t\<rparr>)
      | (None, t) \<Rightarrow> on_base (so_Abort (gs_local S) ref) (g\<lparr>gw_ing := t\<rparr>))"

definition reg_Update :: "'w registry_store \<Rightarrow> content_info \<Rightarrow> string list \<Rightarrow> 'w reg_world \<Rightarrow> (content_info \<times> c_error option) \<times> 'w reg_world" where
  "reg_Update S info fieldpaths g =
     (case on_base (so_Update (gs_local S) info fieldpaths) g of
        ((updated, None), g) \<Rightarrow> ((updated, None), g\<lparr>gw_cache := ic_Delete (ci_Digest info) (gw_cache g)\<rparr>)
      | ((updated, Some err), g) \<Rightarrow> ((updated, Some err), g))"

definition reg_Walk :: "'w registry_store \<Rightarrow> string list \<Rightarrow> 'w reg_world \<Rightarrow> (content_info list \<times> c_error option) \<times> 'w reg_world" where
  "reg_Walk S filters = on_base (so_Walk (gs_local S) filters)"

definition reg_Delete :: "'w reg_env \<Rightarrow> 'w registry_store \<Rightarrow> string \<Rightarrow> 'w reg_world \<Rightarrow> c_error option \<times> 'w reg_world" where
  "reg_Delete E S dgst g =
     (case on_base (so_Delete (gs_local S) dgst) g of
        (Some err, g) \<Rightarrow> (Some err, g)
      | (None, g) \<Rightarrow>
          (let g = g\<lparr>gw_cache := ic_Delete dgst (gw_cache g)\<rparr> in (None, emit E S (blob_event E EventBlobDeleted dgst 0 g) g)))"

definition reg_Close :: "'w reg_env \<Rightarrow> 'w registry_store \<Rightarrow> 'w reg_world \<Rightarrow> c_error option \<times> 'w reg_world" where
  "reg_Close E S g =
     (let (ings, t) = it_RemoveAll (ge_perm E) (gw_ing g);
          g = fold (\<lambda>ing g. snd (pw_Close (ai_writer ing) g)) ings (g\<lparr>gw_ing := t\<rparr>);
          g = g\<lparr>gw_cache := ic_Flush (gw_cache g)\<rparr>
      in case gs_localClose S of None \<Rightarrow> (None, g) | Some f \<Rightarrow> on_base f g)"

section \<open>Facts\<close>

subsection \<open>The cache of infos\<close>

lemma ic_index_less: "ic_index d < 256"
proof -
  have "fnv32a_hash d AND 0xff \<le> 0xff" by (rule word_and_le1)
  then show ?thesis by (simp add: ic_index_def word_le_nat_alt)
qed

definition ic_lookup :: "info_cache \<Rightarrow> string \<rightharpoonup> info_entry" where
  "ic_lookup c dgst = (ic_shards c ! ic_index dgst) dgst"

definition ic_ok :: "info_cache \<Rightarrow> bool" where
  "ic_ok c \<longleftrightarrow> length (ic_shards c) = 256"

lemma ic_ops_ok [simp]:
  "ic_ok (newInfoCache ttl)" "ic_ok (ic_Set now d i c) = ic_ok c" "ic_ok (ic_Delete d c) = ic_ok c" "ic_ok (ic_Flush c) = ic_ok c"
  by (simp_all add: ic_ok_def newInfoCache_def ic_Set_def ic_Delete_def ic_Flush_def)

lemma ic_ttl_ops [simp]:
  "ic_ttl (newInfoCache ttl) = ttl" "ic_ttl (ic_Set now d i c) = ic_ttl c" "ic_ttl (ic_Delete d c) = ic_ttl c" "ic_ttl (ic_Flush c) = ic_ttl c"
  by (simp_all add: newInfoCache_def ic_Set_def ic_Delete_def ic_Flush_def)

lemma shard_update:
  "length ss = 256 \<Longrightarrow> (ss[ic_index d := (ss ! ic_index d)(d := v)] ! ic_index d') d' = (if d' = d then v else (ss ! ic_index d') d')"
  using ic_index_less [of d] by (cases "ic_index d' = ic_index d") auto

lemma ic_lookup_ops:
  "ic_lookup (newInfoCache ttl) d' = None"
  "ic_ok c \<Longrightarrow> ic_lookup (ic_Set now d i c) d' =
     (if d' = d then Some \<lparr>ie_info = i, ie_expiresAt = ic_deadline now (ic_ttl c)\<rparr> else ic_lookup c d')"
  "ic_ok c \<Longrightarrow> ic_lookup (ic_Delete d c) d' = (if d' = d then None else ic_lookup c d')"
  "ic_ok c \<Longrightarrow> ic_lookup (ic_Flush c) d' = None"
  using ic_index_less [of d'] shard_update [of "ic_shards c" d _ d']
  by (simp_all add: ic_lookup_def ic_ok_def newInfoCache_def ic_Set_def ic_Delete_def ic_Flush_def)

lemma ic_Get_lookup:
  "ic_Get now d c = (case ic_lookup c d of None \<Rightarrow> None | Some e \<Rightarrow> if now > ie_expiresAt e then None else Some (ie_info e))"
  by (simp add: ic_Get_def ic_lookup_def)

lemma ic_deadline_in_range: "- (2 ^ 63) \<le> now + ttl \<Longrightarrow> now + ttl < 2 ^ 63 \<Longrightarrow> ic_deadline now ttl = now + ttl"
  by (simp add: ic_deadline_def signed_take_bit_int_eq_self)

text \<open>At every moment whose deadlines are in the range of 64 bits the cache keeps the contract of a cache that stores and deletes.\<close>

interpretation ic: storing_cache "\<lambda>c. ic_ok c \<and> 0 \<le> ic_ttl c \<and> - (2 ^ 63) \<le> t \<and> t + ic_ttl c < 2 ^ 63"
    "\<lambda>c d. ic_Get t d c" "\<lambda>d c. (ic_Get t d c, c)" "ic_Set t" ic_Delete
  for t
  by unfold_locales (auto simp: ic_Get_lookup ic_lookup_ops ic_deadline_in_range fun_eq_iff)

text \<open>The reference: one map that remembers the time of the last write of every digest.\<close>

datatype ic_op = ISet string content_info | IDelete string | IFlush

fun ic_do :: "int \<times> ic_op \<Rightarrow> info_cache \<Rightarrow> info_cache" where
  "ic_do (now, ISet d i) c = ic_Set now d i c"
| "ic_do (now, IDelete d) c = ic_Delete d c"
| "ic_do (now, IFlush) c = ic_Flush c"

fun ic_ideal :: "int \<times> ic_op \<Rightarrow> (string \<rightharpoonup> content_info \<times> int) \<Rightarrow> (string \<rightharpoonup> content_info \<times> int)" where
  "ic_ideal (now, ISet d i) m = m(d \<mapsto> (i, now))"
| "ic_ideal (now, IDelete d) m = m(d := None)"
| "ic_ideal (now, IFlush) m = Map.empty"

lemma ic_run:
  assumes "ic_ok c" "\<And>d. ic_lookup c d = map_option (\<lambda>(i, t). \<lparr>ie_info = i, ie_expiresAt = ic_deadline t (ic_ttl c)\<rparr>) (m d)"
  shows "ic_lookup (fold ic_do ops c) d = map_option (\<lambda>(i, t). \<lparr>ie_info = i, ie_expiresAt = ic_deadline t (ic_ttl c)\<rparr>) (fold ic_ideal ops m d)"
  using assms
proof (induction ops arbitrary: c m)
  case (Cons op ops)
  have t: "ic_ttl (ic_do op c) = ic_ttl c" by (cases "(op, c)" rule: ic_do.cases) simp_all
  have "ic_ok (ic_do op c)" using Cons.prems(1) by (cases "(op, c)" rule: ic_do.cases) simp_all
  moreover have "ic_lookup (ic_do op c) d = map_option (\<lambda>(i, t). \<lparr>ie_info = i, ie_expiresAt = ic_deadline t (ic_ttl (ic_do op c))\<rparr>) (ic_ideal op m d)" for d
    using Cons.prems by (cases "(op, c)" rule: ic_do.cases) (auto simp: ic_lookup_ops)
  ultimately show ?case using Cons.IH [of "ic_do op c" "ic_ideal op m"] by (simp add: t)
qed simp

subsection \<open>The table of ingestions\<close>

lemma it_index_less: "it_index ref < 64"
proof -
  have "fnv32a_hash ref AND 0x3f \<le> 0x3f" by (rule word_and_le1)
  then show ?thesis by (simp add: it_index_def word_le_nat_alt)
qed

lemma map_of_filter_neq: "map_of (filter (\<lambda>e. fst e \<noteq> ref) xs) r = (if r = ref then None else map_of xs r)"
  by (induction xs) auto

lemma map_of_touch: "map_of (map (\<lambda>(r, i). (r, if r = ref then f i else i)) xs) r = (if r = ref then map_option f (map_of xs r) else map_of xs r)"
  by (induction xs) auto

lemma it_shard_update:
  "length t = 64 \<Longrightarrow> t[it_index ref := s] ! it_index r = (if it_index r = it_index ref then s else t ! it_index r)"
  using it_index_less [of r] by auto

lemma it_Get_Add: "length t = 64 \<Longrightarrow> it_Get r (snd (it_Add ref ing t)) = (if r = ref \<and> it_Get ref t = None then Some ing else it_Get r t)"
  by (auto simp: it_Get_def it_Add_def it_shard_update)

lemma it_Get_Remove: "length t = 64 \<Longrightarrow> it_Get r (snd (it_Remove ref t)) = (if r = ref then None else it_Get r t)"
  by (auto simp: it_Get_def it_Remove_def it_shard_update map_of_filter_neq)

lemma it_Get_Touch:
  "length t = 64 \<Longrightarrow> it_Get r (it_Touch now ref t) = (if r = ref then map_option (\<lambda>i. i\<lparr>ai_updatedAt := now\<rparr>) (it_Get r t) else it_Get r t)"
  by (auto simp: it_Get_def it_Touch_def it_shard_update map_of_touch)

lemma it_length [simp]:
  "length (snd (it_Add ref ing t)) = length t" "length (snd (it_Remove ref t)) = length t" "length (it_Touch now ref t) = length t"
  by (simp_all add: it_Add_def it_Remove_def it_Touch_def)

subsection \<open>Retries and buffers\<close>

text \<open>\<open>calls\<close> counts the requests that reach the registry.\<close>

lemma retry_calls:
  assumes "\<And>i w. calls (snd (sleep i w)) = calls w" "\<And>w. calls (snd (call w)) = Suc (calls w)"
  shows "calls (snd (retry sleep call k i lastErr w)) \<le> calls w + k \<and>
     (\<forall>e. fst (retry sleep call k i lastErr w) = Exhausted e \<longrightarrow> calls (snd (retry sleep call k i lastErr w)) = calls w + k)"
proof (induction k arbitrary: i lastErr w)
  case (Suc k)
  obtain e w1 where s: "(if i > 0 then sleep i w else (None, w)) = (e, w1)" by fastforce
  have w1: "calls w1 = calls w" using s assms(1) [of i w] by (auto split: if_splits)
  obtain r w2 where c: "call w1 = (r, w2)" by fastforce
  have w2: "calls w2 = Suc (calls w)" using assms(2) [of w1] c w1 by simp
  show ?case
  proof (cases e)
    case (Some err)
    then show ?thesis using s w1 by simp
  next
    case None
    then show ?thesis using s c w2 Suc.IH [of "Suc i" "Some (projl r)" w2] by (cases r) auto
  qed
qed simp

lemma retry_first_success:
  assumes "\<And>i w. fst (sleep i w) = None"
  shows "(\<exists>a. fst (retry sleep call k i lastErr w) = Succeeded a) \<or> (\<exists>e. fst (retry sleep call k i lastErr w) = Exhausted e)"
proof (induction k arbitrary: i lastErr w)
  case (Suc k)
  have "fst (if i > 0 then sleep i w else (None, w)) = None" using assms by simp
  then obtain w1 where s: "(if i > 0 then sleep i w else (None, w)) = (None, w1)" by (metis prod.collapse)
  obtain r w2 where c: "call w1 = (r, w2)" by fastforce
  show ?case using s c Suc.IH by (cases r) auto
qed simp

lemma bits_len_le: "n < 2 ^ k \<Longrightarrow> bits_len n \<le> k"
proof (induction k arbitrary: n)
  case 0
  then show ?case by (simp add: bits_len.simps)
next
  case (Suc k)
  then have "bits_len (n div 2) \<le> k" by (simp add: less_mult_imp_div_less mult.commute)
  then show ?case by (simp add: bits_len.simps [of n])
qed

lemma bits_len_gt: "n < 2 ^ bits_len n"
proof (induction n rule: bits_len.induct)
  case (1 n)
  show ?case
  proof (cases "n = 0")
    case False
    then have "n div 2 < 2 ^ bits_len (n div 2)" using 1 by simp
    then show ?thesis using False by (simp add: bits_len.simps [of n])
  qed simp
qed

lemma poolCap_small: "sz \<le> 2 ^ 22 \<Longrightarrow> sz \<le> poolCap sz"
proof (cases "sz = 0")
  case False
  assume "sz \<le> 2 ^ 22"
  then have "bits_len (sz - 1) \<le> 22" using False by (intro bits_len_le) simp
  then have e: "bpIdx sz + 9 = max 9 (bits_len (sz - 1))" using False by (simp add: bpIdx_def)
  have "(2::nat) ^ bits_len (sz - 1) \<le> 2 ^ max 9 (bits_len (sz - 1))" by (intro power_increasing) simp_all
  moreover have "sz - 1 < 2 ^ bits_len (sz - 1)" by (rule bits_len_gt)
  ultimately show ?thesis unfolding poolCap_def e by linarith
qed simp

lemma poolCap_max: "poolCap sz \<le> 2 ^ 22"
  unfolding poolCap_def bpIdx_def by (intro power_increasing) (simp_all, linarith)

lemma poolCap_iff: "sz \<le> poolCap sz \<longleftrightarrow> sz \<le> 2 ^ 22"
  using poolCap_small [of sz] poolCap_max [of sz] by linarith

subsection \<open>The copy to the local store\<close>

text \<open>
  The runs of one writer between its creation and its commit: writes and rounds of the goroutine, in
  any order. \<open>w_run\<close> also gives the chunks that the registry accepted.
\<close>

datatype w_act = AWrite bytes | AWorker

fun w_run :: "'w reg_env \<Rightarrow> nat \<Rightarrow> w_act list \<Rightarrow> 'w reg_world \<Rightarrow> bytes list \<times> 'w reg_world" where
  "w_run E k [] g = ([], g)"
| "w_run E k (AWorker # as) g = w_run E k as (localWorker k g)"
| "w_run E k (AWrite p # as) g =
     (case pw_Write E k p g of
        (Returns (n, None), g) \<Rightarrow> (let (acc, g) = w_run E k as g in ((if n > 0 then take n p # acc else acc), g))
      | (r, g) \<Rightarrow> w_run E k as g)"

definition chunk_bytes :: "local_chunk \<Rightarrow> bytes" where "chunk_bytes c = take (ck_n c) (ck_buf c)"

definition pending_chunks :: "nat \<Rightarrow> 'w reg_world \<Rightarrow> bytes list" where
  "pending_chunks k g = map chunk_bytes (pw_ch (gw_writers g ! k))"

text \<open>\<open>loc\<close> reads the chunks that the local store has received through the local writer.\<close>

definition copy_laws :: "('w \<Rightarrow> bytes list) \<Rightarrow> 'w content_writer \<Rightarrow> 'w content_writer \<Rightarrow> bool" where
  "copy_laws loc remote local \<longleftrightarrow>
     (\<forall>p w. loc (snd (cw_Write remote p w)) = loc w) \<and> (\<forall>sz d os w. loc (snd (cw_Commit remote sz d os w)) = loc w) \<and>
     (\<forall>p w. loc (snd (cw_Write local p w)) = loc w @ [p]) \<and> (\<forall>sz d os w. loc (snd (cw_Commit local sz d os w)) = loc w)"

definition copying :: "bool \<Rightarrow> nat \<Rightarrow> 'w content_writer \<Rightarrow> 'w content_writer \<Rightarrow> 'w reg_world \<Rightarrow> bool" where
  "copying cl k remote local g \<longleftrightarrow> k < length (gw_writers g) \<and>
     (let x = gw_writers g ! k in pw_remote x = remote \<and> pw_local x = Some local \<and> pw_chClosed x = cl \<and>
        (\<forall>c \<in> set (pw_ch x). ck_n c \<le> ck_cap c))"

lemma on_base_simps:
  "gw_base (snd (on_base f g)) = snd (f (gw_base g))" "fst (on_base f g) = fst (f (gw_base g))"
  "gw_writers (snd (on_base f g)) = gw_writers g" "gw_ing (snd (on_base f g)) = gw_ing g"
  "gw_cache (snd (on_base f g)) = gw_cache g" "gw_crashed (snd (on_base f g)) = gw_crashed g"
  by (simp_all add: on_base_def split_beta)

lemma update_writer_simps:
  "gw_base (update_writer k f g) = gw_base g" "gw_ing (update_writer k f g) = gw_ing g"
  "gw_crashed (update_writer k f g) = gw_crashed g" "gw_cache (update_writer k f g) = gw_cache g"
  "length (gw_writers (update_writer k f g)) = length (gw_writers g)"
  "k < length (gw_writers g) \<Longrightarrow> gw_writers (update_writer k f g) ! k = f (gw_writers g ! k)"
  by (simp_all add: update_writer_def)

lemma chunk_bytes_pool: "length p \<le> 2 ^ 22 \<Longrightarrow> chunk_bytes (pool_copy p) = p"
  using poolCap_small [of "length p"] by (simp add: chunk_bytes_def pool_copy_def)

lemma localWorker_copy:
  assumes "copying cl k remote lw g" "copy_laws loc remote lw"
  shows "copying cl k remote lw (localWorker k g)"
    "loc (gw_base (localWorker k g)) @ pending_chunks k (localWorker k g) = loc (gw_base g) @ pending_chunks k g"
    "length (pw_ch (gw_writers (localWorker k g) ! k)) = length (pw_ch (gw_writers g ! k)) - 1"
    "pw_cap (gw_writers (localWorker k g) ! k) = pw_cap (gw_writers g ! k)"
proof -
  obtain x where x: "gw_writers g ! k = x" "k < length (gw_writers g)" "pw_remote x = remote" "pw_local x = Some lw" "pw_chClosed x = cl"
    "\<forall>c \<in> set (pw_ch x). ck_n c \<le> ck_cap c"
    using assms(1) by (auto simp: copying_def Let_def)
  have l: "loc (snd (cw_Write lw p w)) = loc w @ [p]" for p w using assms(2) by (simp add: copy_laws_def)
  have "copying cl k remote lw (localWorker k g) \<and>
    loc (gw_base (localWorker k g)) @ pending_chunks k (localWorker k g) = loc (gw_base g) @ pending_chunks k g \<and>
    length (pw_ch (gw_writers (localWorker k g) ! k)) = length (pw_ch (gw_writers g ! k)) - 1 \<and>
    pw_cap (gw_writers (localWorker k g) ! k) = pw_cap (gw_writers g ! k)"
  proof (cases "pw_ch x")
    case Nil
    then show ?thesis using assms(1) x by (simp add: localWorker_def)
  next
    case (Cons c cs)
    then show ?thesis using x l
      by (simp add: localWorker_def Let_def copying_def pending_chunks_def on_base_simps update_writer_simps chunk_bytes_def)
  qed
  then show "copying cl k remote lw (localWorker k g)"
    "loc (gw_base (localWorker k g)) @ pending_chunks k (localWorker k g) = loc (gw_base g) @ pending_chunks k g"
    "length (pw_ch (gw_writers (localWorker k g) ! k)) = length (pw_ch (gw_writers g ! k)) - 1"
    "pw_cap (gw_writers (localWorker k g) ! k) = pw_cap (gw_writers g ! k)" by simp_all
qed

lemma pw_Write_copy:
  assumes "copying False k remote lw g" "copy_laws loc remote lw" "length p \<le> 2 ^ 22" "pw_Write E k p g = (r, g')"
  shows "copying False k remote lw g' \<and> pw_cap (gw_writers g' ! k) = pw_cap (gw_writers g ! k) \<and>
    (\<exists>n err. r = Returns (n, err) \<and>
       (if err = None \<and> n > 0 \<and> length (pw_ch (gw_writers g ! k)) < pw_cap (gw_writers g ! k)
        then loc (gw_base g') @ pending_chunks k g' = (loc (gw_base g) @ pending_chunks k g) @ [take n p] \<and>
             length (pw_ch (gw_writers g' ! k)) = Suc (length (pw_ch (gw_writers g ! k)))
        else loc (gw_base g') @ pending_chunks k g' = loc (gw_base g) @ pending_chunks k g \<and>
             length (pw_ch (gw_writers g' ! k)) = length (pw_ch (gw_writers g ! k))))"
proof -
  obtain x where x: "gw_writers g ! k = x" "k < length (gw_writers g)" "pw_remote x = remote" "pw_local x = Some lw" "\<not> pw_chClosed x"
    "\<forall>c \<in> set (pw_ch x). ck_n c \<le> ck_cap c"
    using assms(1) by (auto simp: copying_def Let_def)
  obtain n err g1 where w: "on_base (cw_Write remote p) g = ((n, err), g1)" by (metis prod.collapse)
  have g1: "gw_writers g1 = gw_writers g" "loc (gw_base g1) = loc (gw_base g)"
    using on_base_simps(1,3) [of "cw_Write remote p" g] assms(2) unfolding w by (simp_all add: copy_laws_def)
  have "length (take n p) \<le> 2 ^ 22" using assms(3) by simp
  note c = chunk_bytes_pool [OF this] poolCap_small [OF this]
  have c2: "ck_n (pool_copy (take n p)) \<le> ck_cap (pool_copy (take n p))" using c(2) by (simp add: pool_copy_def)
  show ?thesis
  proof (cases err)
    case (Some e)
    then have "r = Returns (n, Some e)" "g' = g1" using assms(4) x w by (simp_all add: pw_Write_def)
    then show ?thesis using x g1 by (simp add: copying_def pending_chunks_def)
  next
    case None
    define y where "y = (if n > 0 \<and> length (pw_ch x) < pw_cap x then x\<lparr>pw_ch := pw_ch x @ [pool_copy (take n p)]\<rparr> else x)\<lparr>pw_offset := pw_offset x + of_nat n\<rparr>"
    have r: "r = Returns (n, None)" and g': "gw_base g' = gw_base g1" "gw_writers g' = (gw_writers g)[k := y]"
      using assms(4) x w g1 None by (auto simp: pw_Write_def Let_def update_writer_def y_def)
    then have y: "gw_writers g' ! k = y" using x by simp
    have "pw_remote y = remote" "pw_local y = Some lw" "\<not> pw_chClosed y" "pw_cap y = pw_cap x" "\<forall>c \<in> set (pw_ch y). ck_n c \<le> ck_cap c"
      using x c2 by (auto simp: y_def)
    moreover have "map chunk_bytes (pw_ch y) = map chunk_bytes (pw_ch x) @ (if n > 0 \<and> length (pw_ch x) < pw_cap x then [take n p] else [])"
      by (simp add: y_def c(1))
    moreover have "length (pw_ch y) = length (pw_ch x) + (if n > 0 \<and> length (pw_ch x) < pw_cap x then 1 else 0)" by (simp add: y_def)
    ultimately show ?thesis using x g' g1 y r None by (simp add: copying_def pending_chunks_def)
  qed
qed

lemma w_run_copy:
  assumes "copying False k remote lw g" "copy_laws loc remote lw" "\<forall>p. AWrite p \<in> set acts \<longrightarrow> length p \<le> 2 ^ 22"
    "w_run E k acts g = (acc, g')" "length (pw_ch (gw_writers g ! k)) \<le> pw_cap (gw_writers g ! k)"
  shows "\<exists>kept. subseq kept acc \<and> copying False k remote lw g' \<and> pw_cap (gw_writers g' ! k) = pw_cap (gw_writers g ! k) \<and>
     length (pw_ch (gw_writers g' ! k)) \<le> pw_cap (gw_writers g ! k) \<and>
     loc (gw_base g') @ pending_chunks k g' = (loc (gw_base g) @ pending_chunks k g) @ kept \<and>
     (length (pw_ch (gw_writers g ! k)) + length acc \<le> pw_cap (gw_writers g ! k) \<longrightarrow> kept = acc)"
  using assms(1,3,4,5)
proof (induction acts arbitrary: g acc)
  case (Cons act acts)
  show ?case
  proof (cases act)
    case AWorker
    note lw = localWorker_copy [OF Cons.prems(1) assms(2)]
    have "\<exists>kept. subseq kept acc \<and> copying False k remote lw g' \<and> pw_cap (gw_writers g' ! k) = pw_cap (gw_writers (localWorker k g) ! k) \<and>
       length (pw_ch (gw_writers g' ! k)) \<le> pw_cap (gw_writers (localWorker k g) ! k) \<and>
       loc (gw_base g') @ pending_chunks k g' = (loc (gw_base (localWorker k g)) @ pending_chunks k (localWorker k g)) @ kept \<and>
       (length (pw_ch (gw_writers (localWorker k g) ! k)) + length acc \<le> pw_cap (gw_writers (localWorker k g) ! k) \<longrightarrow> kept = acc)"
      using Cons.prems AWorker lw by (intro Cons.IH) auto
    then show ?thesis unfolding lw by auto
  next
    case (AWrite p)
    obtain r g1 where w: "pw_Write E k p g = (r, g1)" by fastforce
    note pw = pw_Write_copy [OF Cons.prems(1) assms(2) _ w]
    obtain n err where r: "r = Returns (n, err)" using pw Cons.prems(2) AWrite by auto
    obtain acc1 where run: "w_run E k acts g1 = (acc1, g')" and acc: "acc = (if err = None \<and> n > 0 then take n p # acc1 else acc1)"
      using Cons.prems(3) AWrite w r by (cases "w_run E k acts g1"; cases err) auto
    have p: "length p \<le> 2 ^ 22" using Cons.prems(2) AWrite by simp
    note pw = pw [OF p, unfolded r, simplified]
    have len: "length (pw_ch (gw_writers g1 ! k)) \<le> pw_cap (gw_writers g1 ! k)" using pw Cons.prems(4) by (auto split: if_splits)
    obtain kept where kept: "subseq kept acc1" "copying False k remote lw g'" "pw_cap (gw_writers g' ! k) = pw_cap (gw_writers g1 ! k)"
      "length (pw_ch (gw_writers g' ! k)) \<le> pw_cap (gw_writers g1 ! k)"
      "loc (gw_base g') @ pending_chunks k g' = (loc (gw_base g1) @ pending_chunks k g1) @ kept"
      "length (pw_ch (gw_writers g1 ! k)) + length acc1 \<le> pw_cap (gw_writers g1 ! k) \<longrightarrow> kept = acc1"
      using Cons.IH [OF _ _ run len] pw Cons.prems(2) by auto
    show ?thesis
    proof (cases "err = None \<and> n > 0 \<and> length (pw_ch (gw_writers g ! k)) < pw_cap (gw_writers g ! k)")
      case True
      then show ?thesis using kept pw acc by (intro exI [of _ "take n p # kept"]) auto
    next
      case False
      then have "subseq kept acc" using kept(1) acc by auto
      then show ?thesis using False kept pw acc by (intro exI [of _ kept]) auto
    qed
  qed
qed auto

lemma wait_local_copy:
  assumes "copying cl k remote lw g" "copy_laws loc remote lw"
  shows "loc (gw_base (wait_local k g)) = loc (gw_base g) @ pending_chunks k g"
proof -
  have "copying cl k remote lw ((localWorker k ^^ n) g) \<and>
     loc (gw_base ((localWorker k ^^ n) g)) @ pending_chunks k ((localWorker k ^^ n) g) = loc (gw_base g) @ pending_chunks k g \<and>
     length (pw_ch (gw_writers ((localWorker k ^^ n) g) ! k)) = length (pw_ch (gw_writers g ! k)) - n" for n
  proof (induction n)
    case (Suc n)
    then have "copying cl k remote lw ((localWorker k ^^ n) g)" by simp
    from localWorker_copy [OF this assms(2)] show ?case using Suc by simp
  qed (simp add: assms(1))
  from this [of "length (pw_ch (gw_writers g ! k))"] show ?thesis by (auto simp: wait_local_def pending_chunks_def)
qed

lemma fold_keeps: "(\<And>i w. i \<in> set is \<Longrightarrow> obs (f i w) = obs w) \<Longrightarrow> obs (fold f is w) = obs w"
  by (induction "is" arbitrary: w) auto

definition hooks_keep :: "('w \<Rightarrow> 'o) \<Rightarrow> 'w registry_store \<Rightarrow> bool" where
  "hooks_keep obs S \<longleftrightarrow> (\<forall>h \<in> set (gs_hooks S). \<forall>evt w. obs (h evt w) = obs w)"

lemma emit_keeps:
  assumes "is_schedule (ge_sch E)" "hooks_keep loc S"
  shows "loc (gw_base (emit E S evt g)) = loc (gw_base g)"
  unfolding emit_def using schedule_set [OF assms(1), of "length (gs_hooks S)"] assms(2)
  by (auto simp: hooks_keep_def intro!: fold_keeps)

lemma pw_Commit_copy:
  assumes "copying False k remote lw g" "copy_laws loc remote lw" "pw_Commit E S k sz d os g = (None, g')"
    "is_schedule (ge_sch E)" "hooks_keep loc S"
  shows "loc (gw_base g') = loc (gw_base g) @ pending_chunks k g"
proof -
  obtain x where x: "gw_writers g ! k = x" "k < length (gw_writers g)" "pw_remote x = remote" "pw_local x = Some lw"
    using assms(1) by (auto simp: copying_def Let_def)
  obtain r g1 where c: "on_base (cw_Commit remote sz d os) g = (r, g1)" by fastforce
  have g1: "gw_writers g1 = gw_writers g" "loc (gw_base g1) = loc (gw_base g)"
    using on_base_simps(1,3) [of "cw_Commit remote sz d os" g] assms(2) unfolding c by (simp_all add: copy_laws_def)
  note commit = assms(3) [unfolded pw_Commit_def x(1) Let_def x(3) c x(4)]
  have r: "r = None" using commit by (cases r) (simp_all split: if_splits)
  define g2 where "g2 = closeLocalCh k (update_writer k (\<lambda>x. x\<lparr>pw_committed := True\<rparr>) g1)"
  have g2: "copying True k remote lw g2" "pending_chunks k g2 = pending_chunks k g" "loc (gw_base g2) = loc (gw_base g)"
    using assms(1) g1 x by (simp_all add: g2_def closeLocalCh_def copying_def pending_chunks_def update_writer_simps)
  have l: "loc (snd (cw_Commit lw s d o' w)) = loc w" for s d o' w using assms(2) by (simp add: copy_laws_def)
  have "loc (gw_base g') = loc (gw_base (wait_local k g2))"
    using commit unfolding r by (auto simp: g2_def emit_keeps [OF assms(4,5)] on_base_simps l split: if_splits)
  then show ?thesis using wait_local_copy [OF g2(1) assms(2)] g2 by simp
qed

section \<open>Properties\<close>

text \<open>
  C25: a lookup in the sharded cache of infos answers exactly from the last write of the digest:
  after any timed writes, deletions and flushes it gives the info of the last write, if it was not
  deleted since and its deadline has not passed, and nothing otherwise. The deadline is the time of the
  write plus the time to live, in 64 bits of nanoseconds.
\<close>

theorem InfoCache_refines_ttl_map:
  "ic_Get now d (fold ic_do ops (newInfoCache ttl)) =
     (case fold ic_ideal ops Map.empty d of None \<Rightarrow> None | Some (i, t) \<Rightarrow> if now > signed_take_bit 63 (t + ttl) then None else Some i)"
  using ic_run [of "newInfoCache ttl" Map.empty ops d] by (simp add: ic_Get_lookup ic_lookup_ops ic_deadline_def split: option.split)

text \<open>A time to live that leads beyond the range of 64 bits makes every entry expire at once.\<close>

theorem huge_ttl_expires_at_once:
  assumes "0 \<le> now" "now < 2 ^ 63" "ttl < 2 ^ 63" "2 ^ 63 \<le> now + ttl"
  shows "ic_Get now d (ic_Set now d i (newInfoCache ttl)) = None"
proof -
  have "signed_take_bit 63 (now + ttl) = signed_take_bit 63 (now + ttl - 2 ^ 64)"
    by (simp add: signed_take_bit_eq_iff_take_bit_eq take_bit_eq_mod)
  also have "\<dots> = now + ttl - 2 ^ 64" using assms by (intro signed_take_bit_int_eq_self) auto
  finally show ?thesis using assms by (simp add: ic_Get_lookup ic_lookup_ops ic_deadline_def)
qed

theorem huge_ttl_expires_at_once_witness:
  "ic_Get 1 d (ic_Set 1 d i (newInfoCache (2 ^ 63 - 1))) = None"
  by (rule huge_ttl_expires_at_once) simp_all
text \<open>
  C15: the copy that a push leaves in the local store consists of chunks that the registry accepted,
  in their order: however the goroutine and the writes, of at most 4 MiB each, interleave, after a
  successful commit the local store has received a subsequence of the accepted chunks, and all of them
  if the registry accepted no more chunks than the channel holds.
\<close>

theorem push_copies_to_local:
  assumes "copy_laws loc remote lw" "k < length (gw_writers g)" "gw_writers g ! k = newContentWriter ref desc remote (Some lw) chanCap"
    "0 < chanCap" "\<forall>p. AWrite p \<in> set acts \<longrightarrow> length p \<le> 2 ^ 22" "w_run E k acts g = (acc, g1)"
    "pw_Commit E S k sz d os g1 = (None, g2)" "is_schedule (ge_sch E)" "hooks_keep loc S"
  shows "\<exists>kept. subseq kept acc \<and> loc (gw_base g2) = loc (gw_base g) @ kept \<and> (length acc \<le> nat chanCap \<longrightarrow> kept = acc)"
proof -
  have c: "copying False k remote lw g" "pending_chunks k g = []" "pw_ch (gw_writers g ! k) = []" "pw_cap (gw_writers g ! k) = nat chanCap"
    using assms(2,3,4) by (simp_all add: copying_def pending_chunks_def newContentWriter_def)
  from w_run_copy [OF c(1) assms(1,5,6)] c obtain kept where
    kept: "subseq kept acc" "copying False k remote lw g1" "loc (gw_base g1) @ pending_chunks k g1 = loc (gw_base g) @ kept"
      "length acc \<le> nat chanCap \<longrightarrow> kept = acc" by auto
  then show ?thesis using pw_Commit_copy [OF kept(2) assms(1,7,8,9)] by auto
qed

definition example_env :: "bytes list reg_env" where
  "example_env = \<lparr>ge_now = \<lambda>w. int (length w), ge_sleep = \<lambda>i w. (None, w), ge_parseNamed = \<lambda>r. None, ge_withDigest = \<lambda>r d. Inr (r @ ''@'' @ d),
     ge_parseDigest = Inr, ge_validate = \<lambda>d. None, ge_perm = \<lambda>xs. xs, ge_sch = \<lambda>n. [0..<n]\<rparr>"

definition chunk_writer :: "bytes list content_writer" where
  "chunk_writer = noop_Writer\<lparr>cw_Write := \<lambda>p w. ((length p, None), w @ [p])\<rparr>"

definition example_registry :: "bytes list registry_store" where
  "example_registry = \<lparr>gs_remote = \<lparr>bk_Resolve = \<lambda>r w. (Inl CNotFound, w), bk_Fetch = \<lambda>r d w. (Inl CNotFound, w), bk_Push = \<lambda>r d w. (Inr noop_Writer, w)\<rparr>,
     gs_local = noop_Store\<lparr>so_Writer := \<lambda>opts w. (Inr chunk_writer, w)\<rparr>, gs_localClose = None, gs_ref = ''registry.example/app'', gs_hooks = [],
     gs_retryMax = 3, gs_workerLimit = 1\<rparr>"

definition example_world :: "bytes list reg_world" where
  "example_world = \<lparr>gw_cache = newInfoCache 10, gw_ing = newIngestionTracker,
     gw_writers = [newContentWriter ''r'' (wo_Desc zero_opts) noop_Writer (Some chunk_writer) 1], gw_crashed = False, gw_base = []\<rparr>"

lemmas example_push = example_env_def chunk_writer_def example_registry_def example_world_def noop_Writer_def newContentWriter_def zero_opts_def

text \<open>One write and one round of the goroutine fit in a channel of one chunk.\<close>

lemma example_push_run:
  "w_run example_env 0 [AWrite [1], AWorker] example_world = (acc, g1) \<Longrightarrow>
   acc = [[1]] \<and> fst (pw_Commit example_env example_registry 0 1 ''d'' [] g1) = None"
  by (auto simp: example_push pw_Write_def on_base_def update_writer_def Let_def pw_Commit_def localWorker_def pool_copy_def poolCap_def split_beta)

theorem push_copies_to_local_witness:
  "gw_base (snd (pw_Commit example_env example_registry 0 1 ''d'' [] (snd (w_run example_env 0 [AWrite [1], AWorker] example_world)))) = [[1]]"
proof -
  obtain acc g1 where run: "w_run example_env 0 [AWrite [1], AWorker] example_world = (acc, g1)" by fastforce
  note r = example_push_run [OF run]
  obtain g2 where commit: "pw_Commit example_env example_registry 0 1 ''d'' [] g1 = (None, g2)" using r by (metis prod.collapse)
  have w: "gw_writers example_world ! 0 = newContentWriter ''r'' (wo_Desc zero_opts) noop_Writer (Some chunk_writer) 1"
    "0 < length (gw_writers example_world)" "gw_base example_world = []" by (simp_all add: example_world_def)
  have l: "copy_laws (\<lambda>w. w) noop_Writer chunk_writer" by (simp add: copy_laws_def example_push)
  have s: "is_schedule (ge_sch example_env)" "hooks_keep (\<lambda>w. w) example_registry" by (simp_all add: hooks_keep_def is_schedule_def example_env_def example_registry_def)
  have a: "\<forall>p. AWrite p \<in> set [AWrite [1], AWorker] \<longrightarrow> length p \<le> 2 ^ 22" by simp
  show ?thesis
    using push_copies_to_local [OF l w(2,1) _ a run commit s] r run commit w(3) by auto
qed
text \<open>
  C29: a lookup of an info that the registry does not answer gives up after exactly \<open>retryMax\<close>
  requests, with the not-found error, if the context does not end.
\<close>

theorem Info_gives_up_after_retryMax:
  assumes "\<And>i w. fst (ge_sleep E i w) = None \<and> calls (snd (ge_sleep E i w)) = calls w"
    and "\<And>ref w. (\<exists>e. fst (bk_Resolve (gs_remote S) ref w) = Inl e) \<and> calls (snd (bk_Resolve (gs_remote S) ref w)) = Suc (calls w)"
    and "ge_parseNamed E (gs_ref S) = None" "ge_withDigest E (gs_ref S) d = Inr dref"
  shows "fst (fetchRemoteInfoWithRetry E S d w) = Inl (notFoundErr ''Info'') \<and>
     calls (snd (fetchRemoteInfoWithRetry E S d w)) = calls w + nat (gs_retryMax S)"
proof -
  let ?r = "retry (ge_sleep E) (bk_Resolve (gs_remote S) dref) (nat (gs_retryMax S)) 0 None w"
  have no: "fst (retry (ge_sleep E) (bk_Resolve (gs_remote S) dref) k i lastErr w) \<noteq> Succeeded a" for k i lastErr w a
  proof (induction k arbitrary: i lastErr w)
    case (Suc k)
    obtain e w1 where s: "(if i > 0 then ge_sleep E i w else (None, w)) = (e, w1)" by fastforce
    obtain err w2 where "bk_Resolve (gs_remote S) dref w1 = (Inl err, w2)" using assms(2) [of dref w1] by (metis prod.collapse)
    then show ?case using s Suc by (cases e) auto
  qed simp
  obtain e where e: "fst ?r = Exhausted e"
    using retry_first_success [of "ge_sleep E" "bk_Resolve (gs_remote S) dref" "nat (gs_retryMax S)" 0 None w] assms(1) no by auto
  moreover have "calls (snd ?r) = calls w + nat (gs_retryMax S)"
    using retry_calls [of calls "ge_sleep E" "bk_Resolve (gs_remote S) dref"] assms(1,2) e by blast
  ultimately show ?thesis using assms(3,4) by (cases ?r) (simp add: fetchRemoteInfoWithRetry_def)
qed

definition unreachable :: "nat registry_store" where
  "unreachable = \<lparr>gs_remote = \<lparr>bk_Resolve = \<lambda>r w. (Inl (CMsg [''timeout'']), Suc w), bk_Fetch = \<lambda>r d w. (Inl CNotFound, w), bk_Push = \<lambda>r d w. (Inl CNotFound, w)\<rparr>,
     gs_local = noop_Store, gs_localClose = None, gs_ref = ''registry.example/app'', gs_hooks = [], gs_retryMax = 3, gs_workerLimit = 1\<rparr>"

definition idle_env :: "nat reg_env" where
  "idle_env = \<lparr>ge_now = int, ge_sleep = \<lambda>i w. (None, w), ge_parseNamed = \<lambda>r. None, ge_withDigest = \<lambda>r d. Inr (r @ ''@'' @ d),
     ge_parseDigest = Inr, ge_validate = \<lambda>d. None, ge_perm = \<lambda>xs. xs, ge_sch = \<lambda>n. [0..<n]\<rparr>"

theorem Info_gives_up_after_retryMax_witness:
  "fst (fetchRemoteInfoWithRetry idle_env unreachable ''d'' 0) = Inl (notFoundErr ''Info'') \<and>
   snd (fetchRemoteInfoWithRetry idle_env unreachable ''d'' 0) = 0 + nat (gs_retryMax unreachable)"
  by (rule Info_gives_up_after_retryMax [where calls = "\<lambda>w. w"]) (simp_all add: idle_env_def unreachable_def)

text \<open>
  C30: the pool has no buffer for more than 4 MiB: a write of more bytes to a writer with a local
  copy is accepted, and the goroutine that copies it then crashes the program.
\<close>

theorem Write_over_4MiB_crashes:
  assumes "k < length (gw_writers g)" "gw_writers g ! k = newContentWriter ref desc remote (Some lw) chanCap" "0 < chanCap"
    and "cw_Write remote p (gw_base g) = ((length p, None), w')" "2 ^ 22 < length p"
  shows "fst (pw_Write E k p g) = Returns (length p, None) \<and> gw_crashed (localWorker k (snd (pw_Write E k p g)))"
proof -
  have "poolCap (length p) < length p" using assms(5) poolCap_max [of "length p"] by linarith
  moreover have "p \<noteq> []" using assms(5) by auto
  ultimately show ?thesis using assms(1-4)
    by (simp add: pw_Write_def on_base_def newContentWriter_def update_writer_def localWorker_def pool_copy_def Let_def)
qed

theorem Write_over_4MiB_crashes_witness:
  "fst (pw_Write example_env 0 (replicate 4194305 0) example_world) = Returns (length (replicate 4194305 (0::byte)), None) \<and>
   gw_crashed (localWorker 0 (snd (pw_Write example_env 0 (replicate 4194305 0) example_world)))"
  by (rule Write_over_4MiB_crashes [where w' = "[]" and ref = "''r''" and desc = "wo_Desc zero_opts" and remote = noop_Writer and lw = chunk_writer and chanCap = 1])
    (simp_all add: example_world_def noop_Writer_def)

subsection \<open>Closing writers\<close>

lemma localWorker_frame:
  "gw_ing (localWorker k g) = gw_ing g \<and> length (gw_writers (localWorker k g)) = length (gw_writers g) \<and>
   (k < length (gw_writers g) \<longrightarrow> (let x = gw_writers g ! k; x' = gw_writers (localWorker k g) ! k in
      pw_chClosed x' = pw_chClosed x \<and> pw_local x' = pw_local x \<and> pw_remote x' = pw_remote x \<and> pw_ref x' = pw_ref x))"
  by (cases "pw_ch (gw_writers g ! k)"; cases "pw_local (gw_writers g ! k)")
    (simp_all add: localWorker_def Let_def on_base_simps update_writer_simps)

lemma wait_local_frame:
  "gw_ing (wait_local k g) = gw_ing g \<and> length (gw_writers (wait_local k g)) = length (gw_writers g) \<and>
   (k < length (gw_writers g) \<longrightarrow> (let x = gw_writers g ! k; x' = gw_writers (wait_local k g) ! k in
      pw_chClosed x' = pw_chClosed x \<and> pw_local x' = pw_local x \<and> pw_remote x' = pw_remote x \<and> pw_ref x' = pw_ref x))"
proof -
  have "gw_ing ((localWorker k ^^ n) g) = gw_ing g \<and> length (gw_writers ((localWorker k ^^ n) g)) = length (gw_writers g) \<and>
   (k < length (gw_writers g) \<longrightarrow> (let x = gw_writers g ! k; x' = gw_writers ((localWorker k ^^ n) g) ! k in
      pw_chClosed x' = pw_chClosed x \<and> pw_local x' = pw_local x \<and> pw_remote x' = pw_remote x \<and> pw_ref x' = pw_ref x))" for n
    by (induction n) (auto simp: Let_def localWorker_frame [unfolded Let_def])
  then show ?thesis unfolding wait_local_def by blast
qed

lemma pw_Close_frame:
  assumes "k < length (gw_writers g)"
  shows "gw_ing (snd (pw_Close k g)) = snd (it_Remove (pw_ref (gw_writers g ! k)) (gw_ing g))"
    "length (gw_writers (snd (pw_Close k g))) = length (gw_writers g)"
    "pw_local (gw_writers (snd (pw_Close k g)) ! k) = pw_local (gw_writers g ! k)"
    "pw_remote (gw_writers (snd (pw_Close k g)) ! k) = pw_remote (gw_writers g ! k)"
    "pw_local (gw_writers g ! k) \<noteq> None \<Longrightarrow> pw_chClosed (gw_writers (snd (pw_Close k g)) ! k)"
  using assms wait_local_frame [of k "update_writer k (\<lambda>x. x\<lparr>pw_chClosed := True\<rparr>) g"]
  by (cases "pw_local (gw_writers g ! k)"; simp add: pw_Close_def Let_def closeLocalCh_def on_base_simps update_writer_simps)+

text \<open>
  Aborting an ingestion closes the channel of its writer: if the writer copies to the local
  store, its next write panics, after the registry has taken the bytes.
\<close>

theorem Write_after_Abort_panics:
  assumes "it_Get ref (gw_ing g) = Some ing" "ai_writer ing < length (gw_writers g)" "pw_local (gw_writers g ! ai_writer ing) \<noteq> None"
    and "\<And>w. fst (cw_Write (pw_remote (gw_writers g ! ai_writer ing)) p w) = (length p, None)" "p \<noteq> []"
  shows "fst (pw_Write E (ai_writer ing) p (snd (reg_Abort S ref g))) = SendOnClosedChannel"
proof -
  let ?k = "ai_writer ing"
  define g1 where "g1 = g\<lparr>gw_ing := snd (it_Remove ref (gw_ing g))\<rparr>"
  have a: "snd (reg_Abort S ref g) = snd (pw_Close ?k g1)"
    using assms(1) by (simp add: reg_Abort_def it_Remove_def g1_def)
  have g1: "gw_writers g1 = gw_writers g" by (simp add: g1_def)
  note f = pw_Close_frame [of ?k g1, unfolded g1, OF assms(2)]
  obtain g2 where "on_base (cw_Write (pw_remote (gw_writers g ! ?k)) p) (snd (pw_Close ?k g1)) = ((length p, None), g2)"
    "gw_writers g2 = gw_writers (snd (pw_Close ?k g1))"
    using on_base_simps(2,3) [of "cw_Write (pw_remote (gw_writers g ! ?k)) p" "snd (pw_Close ?k g1)"] assms(4) by (metis prod.collapse)
  then show ?thesis using f assms(3,5) unfolding a by (simp add: pw_Write_def Let_def)
qed

lemma example_world_ingestion:
  "reg_Writer example_env example_registry [opt_WithRef ''r'', opt_WithDescriptor \<lparr>de_MediaType = '''', de_Digest = ''d'', de_Size = 2\<rparr>]
     \<lparr>gw_cache = newInfoCache 10, gw_ing = newIngestionTracker, gw_writers = [], gw_crashed = False, gw_base = []\<rparr> = (Inr 0, g) \<Longrightarrow>
   it_Get ''r'' (gw_ing g) = Some \<lparr>ai_ref = ''r'', ai_desc = \<lparr>de_MediaType = '''', de_Digest = ''d'', de_Size = 2\<rparr>, ai_writer = 0, ai_startedAt = 0, ai_updatedAt = 0\<rparr> \<and>
   gw_writers g = [newContentWriter ''r'' \<lparr>de_MediaType = '''', de_Digest = ''d'', de_Size = 2\<rparr> noop_Writer (Some chunk_writer) 1]"
proof -
  have e: "it_Get r newIngestionTracker = None" for r using it_index_less [of r] by (simp add: it_Get_def newIngestionTracker_def)
  have l: "length newIngestionTracker = 64" by (simp add: newIngestionTracker_def)
  assume "reg_Writer example_env example_registry [opt_WithRef ''r'', opt_WithDescriptor \<lparr>de_MediaType = '''', de_Digest = ''d'', de_Size = 2\<rparr>]
     \<lparr>gw_cache = newInfoCache 10, gw_ing = newIngestionTracker, gw_writers = [], gw_crashed = False, gw_base = []\<rparr> = (Inr 0, g)"
  then show ?thesis
    by (auto simp: reg_Writer_def opt_WithRef_def opt_WithDescriptor_def zero_opts_def example_env_def example_registry_def
        pushWithRetry_def finish_retry_def on_base_def local_writer_def noop_Store_def e it_Get_Add l eval_nat_numeral Let_def)
qed

theorem Write_after_Abort_panics_witness:
  "\<exists>g. fst (pw_Write example_env 0 [1] (snd (reg_Abort example_registry ''r'' g))) = SendOnClosedChannel"
proof -
  let ?g0 = "\<lparr>gw_cache = newInfoCache 10, gw_ing = newIngestionTracker, gw_writers = [], gw_crashed = False, gw_base = []\<rparr> :: bytes list reg_world"
  let ?opts = "[opt_WithRef ''r'', opt_WithDescriptor \<lparr>de_MediaType = '''', de_Digest = ''d'', de_Size = 2\<rparr>]"
  have e: "it_Get r newIngestionTracker = None" for r using it_index_less [of r] by (simp add: it_Get_def newIngestionTracker_def)
  obtain g where "reg_Writer example_env example_registry ?opts ?g0 = (Inr 0, g)"
    by (auto simp: reg_Writer_def opt_WithRef_def opt_WithDescriptor_def zero_opts_def example_env_def example_registry_def
        pushWithRetry_def finish_retry_def on_base_def local_writer_def noop_Store_def e eval_nat_numeral Let_def)
  note w = example_world_ingestion [OF this]
  show ?thesis
    by (rule exI [of _ g], rule Write_after_Abort_panics
        [where ing = "\<lparr>ai_ref = ''r'', ai_desc = \<lparr>de_MediaType = '''', de_Digest = ''d'', de_Size = 2\<rparr>, ai_writer = 0, ai_startedAt = 0, ai_updatedAt = 0\<rparr>", simplified])
      (simp_all add: w newContentWriter_def noop_Writer_def)
qed

text \<open>
  Closing a writer forgets the active ingestion of its reference whoever made it: after the
  usual close that follows a commit, the ingestion that was begun for the same reference in between
  is no longer listed, and a further one is accepted beside it.
\<close>

theorem Close_forgets_other_ingestion:
  assumes "length (gw_ing g) = 64" "k < length (gw_writers g)" "it_Get (pw_ref (gw_writers g ! k)) (gw_ing g) = Some ing"
  shows "it_Get (pw_ref (gw_writers g ! k)) (gw_ing (snd (pw_Close k g))) = None \<and>
     (\<forall>r. r \<noteq> pw_ref (gw_writers g ! k) \<longrightarrow> it_Get r (gw_ing (snd (pw_Close k g))) = it_Get r (gw_ing g))"
  using assms by (simp add: pw_Close_frame(1) it_Get_Remove)

subsection \<open>Readers\<close>

text \<open>
  What a stream and the local writer promise: \<open>rest\<close> is what the stream has left; it gives it in
  pieces and then an error, and the local writer takes every piece.
\<close>

definition stream_laws :: "('w \<Rightarrow> bytes) \<Rightarrow> ('w \<Rightarrow> bytes) \<Rightarrow> 'w stream \<Rightarrow> 'w content_writer \<Rightarrow> bool" where
  "stream_laws rest got rc lw \<longleftrightarrow>
     (\<forall>n w. n > 0 \<longrightarrow> (let ((p, err), w') = st_Read rc n w in rest w = p @ rest w' \<and> got w' = got w \<and>
        (if rest w = [] then err \<noteq> None else err = None \<and> p \<noteq> []))) \<and>
     (\<forall>p w. let ((k, err), w') = cw_Write lw p w in err = None \<and> got w' = got w @ p \<and> rest w' = rest w) \<and>
     (\<forall>sz d os w. got (snd (cw_Commit lw sz d os w)) = got w) \<and> (\<forall>w. got (snd (cw_Close lw w)) = got w) \<and>
     (\<forall>w. got (snd (st_Close rc w)) = got w)"

lemma tee_Read_laws:
  assumes "stream_laws rest got (gr_rc r) lw" "gr_localWriter r = Some lw" "n > 0" "tee_Read r n w = ((p, err), w')"
  shows "got w' @ rest w' = got w @ rest w \<and>
     (if rest w = [] then err \<noteq> None \<and> rest w' = [] else err = None \<and> length (rest w') < length (rest w))"
proof -
  obtain q e w1 where s: "st_Read (gr_rc r) n w = ((q, e), w1)" by (metis prod.collapse)
  have "let ((p, err), w') = st_Read (gr_rc r) n w in rest w = p @ rest w' \<and> got w' = got w \<and>
        (if rest w = [] then err \<noteq> None else err = None \<and> p \<noteq> [])"
    using assms(1,3) unfolding stream_laws_def by blast
  then have st: "rest w = q @ rest w1 \<and> got w1 = got w \<and> (if rest w = [] then e \<noteq> None else e = None \<and> q \<noteq> [])"
    unfolding s Let_def prod.case .
  obtain k e2 w2 where t: "cw_Write lw q w1 = ((k, e2), w2)" by (metis prod.collapse)
  have "let ((k, err), w') = cw_Write lw q w1 in err = None \<and> got w' = got w1 @ q \<and> rest w' = rest w1"
    using assms(1) unfolding stream_laws_def by blast
  then have lw: "e2 = None \<and> got w2 = got w1 @ q \<and> rest w2 = rest w1" unfolding t Let_def prod.case .
  have r: "p = q \<and> err = e \<and> w' = (if q = [] then w1 else w2)"
  proof (cases "q = []")
    case True
    then show ?thesis using assms(4) unfolding tee_Read_def s Let_def prod.case assms(2) option.case by simp
  next
    case False
    have "e2 = None" using lw by blast
    then have t: "cw_Write lw q w1 = ((k, None), w2)" using t by simp
    show ?thesis using assms(4) False unfolding tee_Read_def s Let_def prod.case assms(2) option.case t by simp
  qed
  from st have rest: "rest w = q @ rest w1" and got: "got w1 = got w" and e: "if rest w = [] then e \<noteq> None else e = None \<and> q \<noteq> []"
    by blast+
  show ?thesis
  proof (cases "q = []")
    case True
    then have w: "rest w = []" using e by meson
    then have "e \<noteq> None" using e by simp
    then show ?thesis using r True w rest got by simp
  next
    case False
    then have w: "rest w \<noteq> []" using rest by simp
    have l: "length (rest w) = length q + length (rest w1)" unfolding rest by simp
    have r2: "err = None" "w' = w2" "q \<noteq> []" using r False e w by simp_all
    have lw2: "got w2 = got w1 @ q" "rest w2 = rest w1" using lw by blast+
    have "got w2 @ rest w2 = got w @ rest w" by (simp only: lw2 got rest append_assoc)
    moreover have "length (rest w2) < length (rest w)" using l r2(3) by (simp only: lw2) simp
    ultimately show ?thesis using r2(1,2) w by presburger
  qed
qed

lemma drainTee_laws:
  assumes "stream_laws rest got (gr_rc r) lw" "gr_localWriter r = Some lw" "n > 0"
  shows "\<exists>w'. drainTee r n w = Some w' \<and> got w' = got w @ rest w"
proof (induction "length (rest w)" arbitrary: w rule: less_induct)
  case less
  obtain p err w1 where t: "tee_Read r n w = ((p, err), w1)" by (metis prod.collapse)
  note l = tee_Read_laws [OF assms t]
  show ?case
  proof (cases "rest w = []")
    case True
    then show ?thesis using t l by (cases err) (auto simp: drainTee.simps [of r n w])
  next
    case False
    then obtain w' where "drainTee r n w1 = Some w'" "got w' = got w1 @ rest w1" using less.hyps [of w1] l by auto
    then show ?thesis using False t l by (simp add: drainTee.simps [of r n w])
  qed
qed

fun reads :: "'w reg_reader \<Rightarrow> (nat \<times> int) list \<Rightarrow> 'w \<Rightarrow> 'w" where
  "reads r [] w = w"
| "reads r ((n, off) # ns) w = reads r ns (snd (gr_ReadAt r n off w))"

lemma reads_laws:
  assumes "stream_laws rest got (gr_rc r) lw" "gr_localWriter r = Some lw" "st_ReadAt (gr_rc r) = None" "\<forall>(n, off) \<in> set ns. n > 0"
  shows "got (reads r ns w) @ rest (reads r ns w) = got w @ rest w"
  using assms(4)
proof (induction ns arbitrary: w)
  case (Cons no ns)
  obtain n off where no: "no = (n, off)" by (cases no)
  obtain p err w1 where t: "tee_Read r n w = ((p, err), w1)" by (metis prod.collapse)
  have "got w1 @ rest w1 = got w @ rest w" using tee_Read_laws [OF assms(1,2) _ t] Cons.prems no by simp
  then show ?case using Cons no t assms(3) by (simp add: gr_ReadAt_def)
qed simp

text \<open>
  A reader that streams from the registry leaves a complete copy in the local store: whatever
  the caller has read before, closing it brings everything the stream had to the local writer.
\<close>

theorem reader_completes_local_copy:
  assumes "stream_laws rest got (gr_rc r) lw" "gr_localWriter r = Some lw" "st_ReadAt (gr_rc r) = None"
    "\<forall>(n, off) \<in> set ns. n > 0" "0 < bufSize"
  shows "\<exists>err w'. gr_Close bufSize r (reads r ns w) = Some (err, w') \<and> got w' = got w @ rest w"
proof -
  obtain w1 where d: "drainTee r bufSize (reads r ns w) = Some w1" "got w1 = got (reads r ns w) @ rest (reads r ns w)"
    using drainTee_laws [OF assms(1,2,5)] by blast
  have l: "got (snd (cw_Commit lw sz d os v)) = got v" "got (snd (cw_Close lw v)) = got v" "got (snd (st_Close (gr_rc r) v)) = got v" for sz d os v
    using assms(1) by (simp_all add: stream_laws_def)
  obtain err w' where c: "st_Close (gr_rc r) (snd (cw_Close lw (snd (cw_Commit lw (gr_size r) '''' [] w1)))) = (err, w')" by fastforce
  have "got w' = got w1" using l(3) [of "snd (cw_Close lw (snd (cw_Commit lw (gr_size r) '''' [] w1)))"] c l(1,2) by simp
  then have "got w' = got w @ rest w" using d(2) reads_laws [OF assms(1-4)] by simp
  moreover have "gr_Close bufSize r (reads r ns w) = Some (err, w')" using assms(2,3) d(1) c by (simp add: gr_Close_def)
  ultimately show ?thesis by blast
qed

text \<open>A stream of the bytes that the first component of the world still holds.\<close>

definition byte_stream :: "(bytes \<times> bytes) stream" where
  "byte_stream = \<lparr>st_Read = \<lambda>n w. ((take n (fst w), if fst w = [] then Some (CMsg [''EOF'']) else None), (drop n (fst w), snd w)),
     st_ReadAt = None, st_Close = \<lambda>w. (None, w)\<rparr>"

definition byte_writer :: "(bytes \<times> bytes) content_writer" where
  "byte_writer = noop_Writer\<lparr>cw_Write := \<lambda>p w. ((length p, None), (fst w, snd w @ p))\<rparr>"

theorem reader_completes_local_copy_witness:
  "\<exists>err w'. gr_Close 4 \<lparr>gr_rc = byte_stream, gr_localWriter = Some byte_writer, gr_size = 5\<rparr>
       (reads \<lparr>gr_rc = byte_stream, gr_localWriter = Some byte_writer, gr_size = 5\<rparr> [(2, 0)] ([1, 2, 3, 4, 5], [])) = Some (err, w') \<and>
     snd w' = snd ([1, 2, 3, 4, 5 :: byte], []) @ fst ([1, 2, 3, 4, 5], [] :: bytes)"
  by (rule reader_completes_local_copy [where lw = byte_writer])
    (auto simp: stream_laws_def byte_stream_def byte_writer_def noop_Writer_def Let_def)

text \<open>
  A reader without \<open>io.ReaderAt\<close> ignores the offset: reading at any two offsets gives the same
  next bytes of the stream.
\<close>

theorem ReadAt_ignores_offset:
  assumes "st_ReadAt (gr_rc r) = None"
  shows "gr_ReadAt r n off w = gr_ReadAt r n off' w"
  using assms by (simp add: gr_ReadAt_def)

theorem ReadAt_ignores_offset_witness:
  "gr_ReadAt \<lparr>gr_rc = byte_stream, gr_localWriter = None, gr_size = 5\<rparr> 2 0 ([1, 2, 3], []) =
   gr_ReadAt \<lparr>gr_rc = byte_stream, gr_localWriter = None, gr_size = 5\<rparr> 2 7 ([1, 2, 3], [])"
  by (rule ReadAt_ignores_offset) (simp add: byte_stream_def)

theorem Close_forgets_other_ingestion_witness:
  "it_Get ''r'' (gw_ing (snd (pw_Close 0 (example_world\<lparr>gw_ing := snd (it_Add ''r'' \<lparr>ai_ref = ''r'', ai_desc = wo_Desc zero_opts, ai_writer = 1, ai_startedAt = 0, ai_updatedAt = 0\<rparr> newIngestionTracker)\<rparr>)))) = None"
proof -
  let ?ing = "\<lparr>ai_ref = ''r'', ai_desc = wo_Desc zero_opts, ai_writer = 1, ai_startedAt = 0, ai_updatedAt = 0\<rparr>"
  let ?g = "example_world\<lparr>gw_ing := snd (it_Add ''r'' ?ing newIngestionTracker)\<rparr>"
  have l: "length newIngestionTracker = 64" by (simp add: newIngestionTracker_def)
  have "it_Get ''r'' newIngestionTracker = None" using it_index_less [of "''r''"] by (simp add: it_Get_def newIngestionTracker_def)
  then have "it_Get ''r'' (gw_ing ?g) = Some ?ing" by (simp add: it_Get_Add l)
  moreover have "pw_ref (gw_writers ?g ! 0) = ''r''" by (simp add: example_world_def newContentWriter_def)
  ultimately show ?thesis using Close_forgets_other_ingestion [of ?g 0 ?ing] by (simp add: l example_world_def)
qed

end
