(* ===== verification/Cs_B2.thy ===== *)
theory Cs_B2
  imports Cs_Registry
begin

text \<open>
  The content store over an object store (\<open>core/content/store/b2\<close>): the configuration, the keys of
  the objects, the store's operations and its writer, which streams into an upload through a pipe;
  and the tracing decorators of both service stores (\<open>b2/otel.go\<close>, \<open>registry/otel.go\<close>). The object
  store client, the clock, the filter library, the digest library's hash and parser and the parsers
  of the standard library for configuration values are parameters.
\<close>

section \<open>Configuration (config.go)\<close>

record b2_config =
  bc_Bucket :: string
  bc_Region :: string
  bc_Prefix :: string
  bc_Tenant :: string
  bc_ManifestsPrefix :: string
  bc_BlobsPrefix :: string
  bc_Names :: "string list"
  bc_TouchRefresh :: int
  bc_EndpointURL :: string
  bc_AccessKeyID :: string
  bc_SecretAccessKey :: string
  bc_SessionToken :: string
  bc_UsePathStyle :: bool
  bc_UploadParallelism :: int

definition attrOr :: "(string \<rightharpoonup> string) \<Rightarrow> string \<Rightarrow> string \<Rightarrow> string" where
  "attrOr attrs key fallback = (case attrs key of Some v \<Rightarrow> v | None \<Rightarrow> fallback)"

definition attrOrEnv :: "(string \<rightharpoonup> string) \<Rightarrow> (string \<rightharpoonup> string) \<Rightarrow> string \<Rightarrow> string \<Rightarrow> string \<Rightarrow> string" where
  "attrOrEnv env attrs key envKey fallback =
     (case attrs key of Some v \<Rightarrow> v | None \<Rightarrow> (case env envKey of Some v \<Rightarrow> v | None \<Rightarrow> fallback))"

definition validateTenant :: "string \<Rightarrow> c_error option" where
  "validateTenant tenant =
     (if tenant = '''' then Some (CMsg [''b2: tenant must not be empty''])
      else if CHR ''/'' \<in> set tenant then Some (CMsg [''b2: tenant must not contain /'', tenant]) else None)"

text \<open>\<open>env\<close> is the environment; \<open>parseDuration\<close>, \<open>parseBool\<close> and \<open>atoi\<close> are those of the standard library.\<close>

definition ParseConfig ::
  "(string \<Rightarrow> int option) \<Rightarrow> (string \<Rightarrow> bool option) \<Rightarrow> (string \<Rightarrow> int option) \<Rightarrow> (string \<rightharpoonup> string) \<Rightarrow> (string \<rightharpoonup> string)
   \<Rightarrow> c_error + b2_config" where
  "ParseConfig parseDuration parseBool atoi env attrs =
     (let bucket = attrOrEnv env attrs ''bucket'' ''AWS_BUCKET'' ''bons'';
          region = attrOrEnv env attrs ''region'' ''AWS_REGION'' ''us-east-005''
      in case (case attrs ''tenant'' of Some t \<Rightarrow> Some t | None \<Rightarrow> env ''AWS_TENANT'') of
           None \<Rightarrow> Inl (CMsg [''b2: tenant is required''])
         | Some tenant \<Rightarrow> (case validateTenant tenant of Some err \<Rightarrow> Inl err | None \<Rightarrow>
             (let names = (case attrs ''name'' of Some n \<Rightarrow> split_on (CHR '';'') n | None \<Rightarrow> [''bons'']);
                  touchRefresh = (case Option.bind (attrs ''touch_refresh'') parseDuration of Some d \<Rightarrow> d | None \<Rightarrow> 86400000000000);
                  usePathStyle = (case Option.bind (attrs ''use_path_style'') parseBool of Some b \<Rightarrow> b | None \<Rightarrow> False)
              in case (case attrs ''upload_parallelism'' of None \<Rightarrow> Some 4
                       | Some s \<Rightarrow> (case atoi s of None \<Rightarrow> None | Some v \<Rightarrow> if v \<le> 0 then None else Some v)) of
                   None \<Rightarrow> Inl (CMsg [''b2: upload_parallelism must be a positive integer''])
                 | Some par \<Rightarrow> Inr \<lparr>bc_Bucket = bucket, bc_Region = region, bc_Prefix = attrOr attrs ''prefix'' '''', bc_Tenant = tenant,
                     bc_ManifestsPrefix = attrOr attrs ''manifests_prefix'' ''manifests/'', bc_BlobsPrefix = attrOr attrs ''blobs_prefix'' ''blobs/'',
                     bc_Names = names, bc_TouchRefresh = touchRefresh, bc_EndpointURL = attrOr attrs ''endpoint_url'' '''',
                     bc_AccessKeyID = attrOr attrs ''access_key_id'' '''', bc_SecretAccessKey = attrOr attrs ''secret_access_key'' '''',
                     bc_SessionToken = attrOr attrs ''session_token'' '''', bc_UsePathStyle = usePathStyle, bc_UploadParallelism = par\<rparr>)))"

section \<open>Object keys (paths.go)\<close>

record object_paths =
  op_tenant :: string
  op_blobsPrefix :: string

definition NewObjectPaths :: "b2_config \<Rightarrow> c_error + object_paths" where
  "NewObjectPaths cfg =
     (case validateTenant (bc_Tenant cfg) of Some err \<Rightarrow> Inl err
      | None \<Rightarrow> Inr \<lparr>op_tenant = bc_Tenant cfg, op_blobsPrefix = bc_BlobsPrefix cfg\<rparr>)"

text \<open>The two parts of a digest; the library panics on a digest without a colon (\<open>None\<close>).\<close>

definition dg_parts :: "string \<Rightarrow> (string \<times> string) option" where
  "dg_parts d = (if CHR '':'' \<in> set d then Some (takeWhile (\<lambda>c. c \<noteq> CHR '':'') d, tl (dropWhile (\<lambda>c. c \<noteq> CHR '':'') d)) else None)"

definition BlobPath :: "object_paths \<Rightarrow> string \<Rightarrow> string option" where
  "BlobPath p d = map_option (\<lambda>(alg, enc). join_with ''/'' [op_tenant p, op_blobsPrefix p @ alg, enc]) (dg_parts d)"

definition Folder :: "object_paths \<Rightarrow> string list \<Rightarrow> string" where
  "Folder p parts = join_with ''/'' (op_tenant p # parts)"

definition TrimBlobPrefix :: "object_paths \<Rightarrow> string \<Rightarrow> string" where
  "TrimBlobPrefix p key = TrimPrefix key (op_tenant p @ ''/'' @ op_blobsPrefix p)"

text \<open>\<open>parse\<close> is the parser of the digest library; it validates.\<close>

definition digestFromPath :: "(string \<Rightarrow> c_error + string) \<Rightarrow> string \<Rightarrow> object_paths \<Rightarrow> c_error + string" where
  "digestFromPath parse key p =
     (let trimmed = TrimBlobPrefix p key in
      if trimmed = '''' then Inl (CMsg [''b2: cannot extract digest from key'', key])
      else case SplitN 2 ''/'' trimmed of
        [a, b] \<Rightarrow> (if a = '''' \<or> b = '''' then Inl (CMsg [''b2: malformed blob key'', key]) else parse (a @ '':'' @ b))
      | _ \<Rightarrow> Inl (CMsg [''b2: malformed blob key'', key]))"

definition DigestToPath :: "(string \<Rightarrow> c_error option) \<Rightarrow> string \<Rightarrow> c_error + string" where
  "DigestToPath validate d =
     (case validate d of Some err \<Rightarrow> Inl err
      | None \<Rightarrow> (case dg_parts d of None \<Rightarrow> Inl (CMsg [''invalid digest'']) | Some (alg, enc) \<Rightarrow> Inr (''blobs/'' @ alg @ ''/'' @ enc)))"

section \<open>The object store (backend.go, errors.go)\<close>

record checksums =
  cs_SHA256 :: string
  cs_SHA1 :: string
  cs_CRC32 :: string
  cs_CRC32C :: string

record object_meta =
  om_Key :: string
  om_Size :: int
  om_LastModified :: int
  om_ETag :: string
  om_VersionID :: string
  om_StorageClass :: string
  om_Metadata :: "string \<rightharpoonup> string"
  om_Checksums :: checksums

record upload_result =
  ur_Key :: string
  ur_Size :: int
  ur_LastModified :: int

record object_entry =
  oe_Key :: string
  oe_Size :: int
  oe_LastModified :: int
  oe_Metadata :: "string \<rightharpoonup> string"

record upload_entry =
  ue_Key :: string
  ue_Size :: int
  ue_Initiated :: int

text \<open>
  \<open>PutObject\<close> reads from a pipe. \<open>os_PutData key size read p\<close> is its next read: after the bytes \<open>read\<close>
  it is offered \<open>p\<close>; \<open>None\<close>: it takes all of \<open>p\<close> and wants more; \<open>Some (n, r)\<close>: it takes \<open>n\<close> bytes and
  returns \<open>r\<close>. \<open>os_PutEOF\<close> is its end when the pipe is closed. A listing is a list whose last entry may be
  an error.
\<close>

record 'w object_storage =
  os_StatObject :: "string \<Rightarrow> 'w \<Rightarrow> (c_error + object_meta) \<times> 'w"
  os_GetObject :: "string \<Rightarrow> 'w \<Rightarrow> (c_error + content_reader) \<times> 'w"
  os_PutData :: "string \<Rightarrow> int \<Rightarrow> bytes \<Rightarrow> bytes \<Rightarrow> 'w \<Rightarrow> (nat \<times> (c_error + upload_result)) option \<times> 'w"
  os_PutEOF :: "string \<Rightarrow> int \<Rightarrow> bytes \<Rightarrow> 'w \<Rightarrow> (c_error + upload_result) \<times> 'w"
  os_CopyObjectMetadata :: "string \<Rightarrow> (string \<rightharpoonup> string) \<Rightarrow> 'w \<Rightarrow> (c_error + upload_result) \<times> 'w"
  os_RemoveObject :: "string \<Rightarrow> 'w \<Rightarrow> c_error option \<times> 'w"
  os_RemoveIncompleteUpload :: "string \<Rightarrow> 'w \<Rightarrow> c_error option \<times> 'w"
  os_ListObjects :: "string \<Rightarrow> 'w \<Rightarrow> (object_entry list \<times> c_error option) \<times> 'w"
  os_ListIncompleteUploads :: "string \<Rightarrow> 'w \<Rightarrow> (upload_entry list \<times> c_error option) \<times> 'w"
  os_BucketExists :: "string \<Rightarrow> 'w \<Rightarrow> (c_error + bool) \<times> 'w"
  os_MakeBucket :: "string \<Rightarrow> string \<Rightarrow> 'w \<Rightarrow> c_error option \<times> 'w"

text \<open>\<open>response\<close> gives the status code and the code that the client finds in an error.\<close>

definition classifyMinioErr :: "(c_error \<Rightarrow> int \<times> string) \<Rightarrow> c_error \<Rightarrow> err_kind" where
  "classifyMinioErr response err =
     (let (status, code) = response err in
      if status = 404 \<or> code = ''NoSuchKey'' \<or> code = ''NoSuchBucket'' then ErrKindNotFound
      else if status = 409 then ErrKindAlreadyExists
      else if status = 400 then ErrKindInvalidArgument
      else if status \<ge> 500 then ErrKindUnavailable
      else ErrKindUnknown)"

definition isNotFound :: "(c_error \<Rightarrow> int \<times> string) \<Rightarrow> c_error \<Rightarrow> bool" where
  "isNotFound response err \<longleftrightarrow> classifyMinioErr response err = ErrKindNotFound"

definition ensureBucket :: "'w object_storage \<Rightarrow> string \<Rightarrow> string \<Rightarrow> 'w \<Rightarrow> c_error option \<times> 'w" where
  "ensureBucket B bucket region w =
     (case os_BucketExists B bucket w of
        (Inl err, w) \<Rightarrow> (Some (CWrap [''b2: check bucket'', bucket] err), w)
      | (Inr ok, w) \<Rightarrow>
          (if ok then (None, w)
           else case os_MakeBucket B bucket region w of
             (Some err, w) \<Rightarrow> (Some (CWrap [''b2: create bucket'', bucket] err), w) | (None, w) \<Rightarrow> (None, w)))"

section \<open>The writer (writer.go)\<close>

record upload =
  up_object :: string
  up_ref :: string
  up_size :: int
  up_read :: bytes
  up_hashed :: bytes
  up_offset :: int
  up_closed :: bool
  up_done :: "(c_error + upload_result) option"
  up_committed :: bool
  up_startedAt :: int
  up_updatedAt :: int

datatype b2_kind = EventBlobCommitted | EventBlobDeleted | EventBlobAccessed | EventBlobWalked

record b2_event =
  be_Kind :: b2_kind
  be_Digest :: string
  be_Size :: int
  be_Ref :: string
  be_Labels :: "string \<rightharpoonup> string"
  be_Timestamp :: int

text \<open>Outside of the store: the clock, the digest of bytes and the errors of the client.\<close>

record 'w b2_env =
  bn_now :: "'w \<Rightarrow> int"
  bn_digest :: "bytes \<Rightarrow> string"
  bn_response :: "c_error \<Rightarrow> int \<times> string"
  bn_lower :: "string \<Rightarrow> string"
  bn_parseDigest :: "string \<Rightarrow> c_error + string"
  bn_parseFilters :: "string list \<Rightarrow> c_error + ((string list \<Rightarrow> string option) \<Rightarrow> bool)"

record 'w b2_store =
  bs_backend :: "'w object_storage"
  bs_cfg :: b2_config
  bs_paths :: object_paths
  bs_hooks :: "(b2_event \<Rightarrow> 'w \<Rightarrow> 'w) list"

definition b2_emit :: "'w b2_store \<Rightarrow> b2_event \<Rightarrow> 'w \<Rightarrow> 'w" where
  "b2_emit S evt w = fold (\<lambda>h. h evt) (bs_hooks S) w"

definition new_upload :: "'w b2_env \<Rightarrow> string \<Rightarrow> string \<Rightarrow> int \<Rightarrow> 'w \<Rightarrow> c_error + upload" where
  "new_upload N object ref sz w =
     (if object = '''' then Inl (CMsg [''b2/writer: object path must not be empty''])
      else Inr \<lparr>up_object = object, up_ref = ref, up_size = sz, up_read = [], up_hashed = [], up_offset = 0, up_closed = False, up_done = None,
                up_committed = False, up_startedAt = bn_now N w, up_updatedAt = 0\<rparr>)"

text \<open>
  A write hands its bytes to the reader of the pipe and returns when all of them are taken: once the
  upload has returned, nobody reads any more and the write waits for ever (\<open>None\<close>).
\<close>

definition up_Write :: "'w b2_env \<Rightarrow> 'w b2_store \<Rightarrow> bytes \<Rightarrow> upload \<Rightarrow> 'w \<Rightarrow> (nat \<times> c_error option) option \<times> upload \<times> 'w" where
  "up_Write N S p u w =
     (if up_closed u then (Some (0, Some (CMsg [''io: read/write on closed pipe''])), u, w)
      else if up_done u \<noteq> None then (None, u, w)
      else case os_PutData (bs_backend S) (up_object u) (up_size u) (up_read u) p w of
        (None, w) \<Rightarrow> (Some (length p, None), u\<lparr>up_read := up_read u @ p, up_hashed := up_hashed u @ p,
                        up_offset := up_offset u + int (length p), up_updatedAt := bn_now N w\<rparr>, w)
      | (Some (n, r), w) \<Rightarrow>
          (if n < length p then (None, u\<lparr>up_read := up_read u @ take n p, up_done := Some r\<rparr>, w)
           else (Some (length p, None), u\<lparr>up_read := up_read u @ p, up_done := Some r, up_hashed := up_hashed u @ p,
                    up_offset := up_offset u + int (length p), up_updatedAt := bn_now N w\<rparr>, w)))"

text \<open>Closing the write side of the pipe and waiting for the upload.\<close>

definition finish_upload :: "'w b2_store \<Rightarrow> upload \<Rightarrow> 'w \<Rightarrow> (c_error + upload_result) \<times> upload \<times> 'w" where
  "finish_upload S u w =
     (case up_done u of
        Some r \<Rightarrow> (r, u\<lparr>up_closed := True\<rparr>, w)
      | None \<Rightarrow> (let (r, w) = os_PutEOF (bs_backend S) (up_object u) (up_size u) (up_read u) w
                 in (r, u\<lparr>up_closed := True, up_done := Some r\<rparr>, w)))"

definition up_Close :: "'w b2_store \<Rightarrow> upload \<Rightarrow> 'w \<Rightarrow> c_error option \<times> upload \<times> 'w" where
  "up_Close S u w =
     (let (r, u, w) = finish_upload S u w in ((case r of Inl err \<Rightarrow> Some err | Inr x \<Rightarrow> None), u, w))"

definition map_copy :: "(string \<rightharpoonup> string) \<Rightarrow> (string \<rightharpoonup> string) \<Rightarrow> (string \<rightharpoonup> string)" where
  "map_copy dst src = dst ++ src"

definition applyLabels :: "'w b2_store \<Rightarrow> string \<Rightarrow> (string \<rightharpoonup> string) \<Rightarrow> 'w \<Rightarrow> c_error option \<times> 'w" where
  "applyLabels S key labels w =
     (case os_StatObject (bs_backend S) key w of
        (Inl err, w) \<Rightarrow> (Some (CWrap [''b2/writer: stat for label update''] err), w)
      | (Inr meta, w) \<Rightarrow>
          (case os_CopyObjectMetadata (bs_backend S) key (map_copy (om_Metadata meta) labels) w of
             (Inl err, w) \<Rightarrow> (Some (CWrap [''b2/writer: update labels''] err), w) | (Inr r, w) \<Rightarrow> (None, w)))"

fun commit_opts :: "info_opt list \<Rightarrow> content_info \<Rightarrow> c_error + content_info" where
  "commit_opts [] base = Inr base"
| "commit_opts (opt # opts) base =
     (case opt base of (Some err, base') \<Rightarrow> Inl (CWrap [''b2/writer: apply commit option''] err)
      | (None, base') \<Rightarrow> commit_opts opts base')"

definition actual_size :: "upload \<Rightarrow> int" where
  "actual_size u = (if up_size u > 0 then up_size u else up_offset u)"

text \<open>The checks after the upload; \<open>has_labels\<close>: the label map is not empty.\<close>

definition commit_checks :: "'w b2_env \<Rightarrow> 'w b2_store \<Rightarrow> int \<Rightarrow> string \<Rightarrow> info_opt list \<Rightarrow> upload_result \<Rightarrow> upload \<Rightarrow> 'w
    \<Rightarrow> c_error option \<times> upload \<times> 'w" where
  "commit_checks N S sz expected opts result u w =
     (if sz > 0 \<and> actual_size u \<noteq> sz then (Some (CMsg [''b2/writer: size mismatch'']), u, w)
      else if expected \<noteq> '''' \<and> bn_digest N (up_hashed u) \<noteq> expected then (Some (CMsg [''b2/writer: digest mismatch'', expected]), u, w)
      else case commit_opts opts zero_info of
        Inl err \<Rightarrow> (Some err, u, w)
      | Inr base \<Rightarrow>
          (case (if ci_Labels base \<noteq> Map.empty then applyLabels S (ur_Key result) (ci_Labels base) w else (None, w)) of
             (Some err, w) \<Rightarrow> (Some err, u, w)
           | (None, w) \<Rightarrow>
               (None, u\<lparr>up_committed := True\<rparr>,
                b2_emit S \<lparr>be_Kind = EventBlobCommitted, be_Digest = bn_digest N (up_hashed u), be_Size = actual_size u, be_Ref = up_ref u,
                   be_Labels = ci_Labels base, be_Timestamp = bn_now N w\<rparr> w)))"

text \<open>\<open>interrupted\<close>: the select finds the context of \<open>Commit\<close> ended; the upload ends behind its back.\<close>

definition up_Commit :: "'w b2_env \<Rightarrow> 'w b2_store \<Rightarrow> c_error option \<Rightarrow> int \<Rightarrow> string \<Rightarrow> info_opt list \<Rightarrow> upload \<Rightarrow> 'w
    \<Rightarrow> c_error option \<times> upload \<times> 'w" where
  "up_Commit N S interrupted sz expected opts u w =
     (if up_committed u then (Some (CMsg [''b2/writer: already committed'']), u, w)
      else (let (r, u, w) = finish_upload S u w in
        case interrupted of
          Some err \<Rightarrow> (Some (CWrap [''b2/writer: commit cancelled''] err), u, w)
        | None \<Rightarrow> (case r of
            Inl err \<Rightarrow> (Some (CWrap [''b2/writer: upload failed''] err), u, w)
          | Inr result \<Rightarrow> commit_checks N S sz expected opts result u w)))"

definition up_Status :: "'w b2_env \<Rightarrow> upload \<Rightarrow> content_status" where
  "up_Status N u = \<lparr>cs_Ref = up_ref u, cs_Offset = up_offset u, cs_Total = up_size u, cs_Expected = bn_digest N (up_hashed u),
     cs_StartedAt = up_startedAt u,
     cs_UpdatedAt = (if up_updatedAt u \<noteq> 0 then up_updatedAt u else case up_done u of Some (Inr r) \<Rightarrow> ur_LastModified r | _ \<Rightarrow> 0)\<rparr>"

definition up_Truncate :: "int \<Rightarrow> c_error" where
  "up_Truncate sz = CMsg [''b2/writer: truncate not supported'']"

section \<open>The store (store.go, adapters.go)\<close>

text \<open>A method may panic: the digest library does on a digest without a colon.\<close>

datatype 'a b2_result = B2Panic | B2Ret 'a

definition with_key :: "'w b2_store \<Rightarrow> string \<Rightarrow> (string \<Rightarrow> 'w \<Rightarrow> 'a \<times> 'w) \<Rightarrow> 'w \<Rightarrow> 'a b2_result \<times> 'w" where
  "with_key S d f w =
     (case BlobPath (bs_paths S) d of None \<Rightarrow> (B2Panic, w) | Some key \<Rightarrow> (let (a, w) = f key w in (B2Ret a, w)))"

definition b2_New :: "'w object_storage \<Rightarrow> b2_config \<Rightarrow> (b2_event \<Rightarrow> 'w \<Rightarrow> 'w) list \<Rightarrow> c_error + 'w b2_store" where
  "b2_New backend cfg hooks =
     (case NewObjectPaths cfg of Inl err \<Rightarrow> Inl (CWrap [''b2: build object paths''] err)
      | Inr paths \<Rightarrow> Inr \<lparr>bs_backend = backend, bs_cfg = cfg, bs_paths = paths, bs_hooks = hooks\<rparr>)"

definition b2_error :: "'w b2_env \<Rightarrow> string \<Rightarrow> string \<Rightarrow> c_error \<Rightarrow> c_error" where
  "b2_error N op msg err = storeErr (classifyMinioErr (bn_response N) err) op msg (Some err)"

text \<open>The error of a lookup: not found, or classified.\<close>

definition lookup_error :: "'w b2_env \<Rightarrow> string \<Rightarrow> string \<Rightarrow> c_error \<Rightarrow> c_error" where
  "lookup_error N op d err = (if isNotFound (bn_response N) err then CWrap [''b2: blob'', d] CNotFound else b2_error N op d err)"

definition b2_Abort :: "'w b2_env \<Rightarrow> 'w b2_store \<Rightarrow> string \<Rightarrow> 'w \<Rightarrow> c_error option \<times> 'w" where
  "b2_Abort N S ref w =
     (case os_RemoveIncompleteUpload (bs_backend S) (Folder (bs_paths S) [bc_BlobsPrefix (bs_cfg S), ref]) w of
        (Some err, w) \<Rightarrow> (Some (b2_error N ''Abort'' ref err), w) | (None, w) \<Rightarrow> (None, w))"

definition plain_event :: "'w b2_env \<Rightarrow> b2_kind \<Rightarrow> string \<Rightarrow> int \<Rightarrow> (string \<rightharpoonup> string) \<Rightarrow> 'w \<Rightarrow> b2_event" where
  "plain_event N kind d sz labels w = \<lparr>be_Kind = kind, be_Digest = d, be_Size = sz, be_Ref = '''', be_Labels = labels, be_Timestamp = bn_now N w\<rparr>"

definition b2_Delete :: "'w b2_env \<Rightarrow> 'w b2_store \<Rightarrow> string \<Rightarrow> 'w \<Rightarrow> c_error option b2_result \<times> 'w" where
  "b2_Delete N S d = with_key S d (\<lambda>key w.
     (case os_RemoveObject (bs_backend S) key w of
        (Some err, w) \<Rightarrow> (Some (b2_error N ''Delete'' d err), w)
      | (None, w) \<Rightarrow> (None, b2_emit S (plain_event N EventBlobDeleted d 0 Map.empty w) w)))"

definition set_label :: "string \<Rightarrow> string \<Rightarrow> (string \<rightharpoonup> string) \<Rightarrow> (string \<rightharpoonup> string)" where
  "set_label k v m = (if v = '''' then m else m(k \<mapsto> v))"

definition checked_digest :: "string \<Rightarrow> string \<Rightarrow> string \<Rightarrow> string" where
  "checked_digest alg checksum d = (if checksum = '''' then d else alg @ '':'' @ checksum)"

definition metaToContentInfo :: "string \<Rightarrow> object_meta \<Rightarrow> content_info" where
  "metaToContentInfo d meta =
     (let labels = set_label ''b2.version'' (om_VersionID meta) (set_label ''b2.etag'' (om_ETag meta)
            (set_label ''b2.storage-class'' (om_StorageClass meta) (om_Metadata meta)));
          c = om_Checksums meta;
          dgst = checked_digest ''crc32c'' (cs_CRC32C c) (checked_digest ''crc32'' (cs_CRC32 c)
            (checked_digest ''sha1'' (cs_SHA1 c) (checked_digest ''sha256'' (cs_SHA256 c) d)))
      in \<lparr>ci_Digest = dgst, ci_Size = om_Size meta, ci_CreatedAt = om_LastModified meta, ci_UpdatedAt = om_LastModified meta, ci_Labels = labels\<rparr>)"

definition b2_Info :: "'w b2_env \<Rightarrow> 'w b2_store \<Rightarrow> string \<Rightarrow> 'w \<Rightarrow> (c_error + content_info) b2_result \<times> 'w" where
  "b2_Info N S d = with_key S d (\<lambda>key w.
     (case os_StatObject (bs_backend S) key w of
        (Inl err, w) \<Rightarrow> (Inl (lookup_error N ''Info'' d err), w)
      | (Inr meta, w) \<Rightarrow> (let info = metaToContentInfo d meta in
          (Inr info, b2_emit S (plain_event N EventBlobAccessed (ci_Digest info) (ci_Size info) (ci_Labels info) w) w))))"

definition b2_ReaderAt :: "'w b2_env \<Rightarrow> 'w b2_store \<Rightarrow> descriptor \<Rightarrow> 'w \<Rightarrow> (c_error + content_reader) b2_result \<times> 'w" where
  "b2_ReaderAt N S desc = with_key S (de_Digest desc) (\<lambda>key w.
     (case os_GetObject (bs_backend S) key w of
        (Inl err, w) \<Rightarrow> (Inl (lookup_error N ''ReaderAt'' (de_Digest desc) err), w)
      | (Inr r, w) \<Rightarrow> (Inr r, b2_emit S (plain_event N EventBlobAccessed (de_Digest desc) (de_Size desc) Map.empty w) w)))"

definition upload_status :: "'w b2_env \<Rightarrow> upload_entry \<Rightarrow> 'w \<Rightarrow> content_status" where
  "upload_status N e w = \<lparr>cs_Ref = ue_Key e, cs_Offset = 0, cs_Total = ue_Size e, cs_Expected = '''', cs_StartedAt = ue_Initiated e, cs_UpdatedAt = bn_now N w\<rparr>"

text \<open>The field paths by which the filters look into statuses and objects.\<close>

definition statusAdaptor :: "content_status \<Rightarrow> string list \<Rightarrow> string option" where
  "statusAdaptor st fieldpath = (case fieldpath of f # fs \<Rightarrow> (if f = ''ref'' then Some (cs_Ref st) else None) | [] \<Rightarrow> None)"

definition mapLookup :: "string list \<Rightarrow> (string \<rightharpoonup> string) \<Rightarrow> string option" where
  "mapLookup fieldpath m = (if fieldpath = [] then None else m (join_with ''.'' fieldpath))"

definition objectEntryAdaptor :: "(string \<Rightarrow> string) \<Rightarrow> string \<Rightarrow> (string \<rightharpoonup> string) \<Rightarrow> string list \<Rightarrow> string option" where
  "objectEntryAdaptor lower key metadata fieldpath =
     (case fieldpath of [] \<Rightarrow> None
      | f # fs \<Rightarrow> (if ToLower lower f \<in> {''ref'', ''object'', ''key''} then Some key
                  else if ToLower lower f = ''labels'' then mapLookup fs metadata else None))"

text \<open>On an error of the listing the statuses found so far are returned with it.\<close>

definition b2_ListStatuses :: "'w b2_env \<Rightarrow> 'w b2_store \<Rightarrow> string list \<Rightarrow> 'w \<Rightarrow> (content_status list \<times> c_error option) \<times> 'w" where
  "b2_ListStatuses N S fs w =
     (case bn_parseFilters N fs of
        Inl err \<Rightarrow> (([], Some (storeErr ErrKindInvalidArgument ''ListStatuses'' ''parse filters'' (Some err))), w)
      | Inr match \<Rightarrow>
          (let ((es, err), w) = os_ListIncompleteUploads (bs_backend S) (Folder (bs_paths S) []) w;
               sts = map (\<lambda>e. upload_status N e w) es
           in ((filter (\<lambda>st. fs = [] \<or> match (statusAdaptor st)) sts,
                map_option (\<lambda>e. storeErr ErrKindUnknown ''ListStatuses'' ''list'' (Some e)) err), w)))"

definition b2_Status :: "'w b2_env \<Rightarrow> 'w b2_store \<Rightarrow> string \<Rightarrow> 'w \<Rightarrow> (c_error + content_status) \<times> 'w" where
  "b2_Status N S ref w =
     (case os_ListIncompleteUploads (bs_backend S) (Folder (bs_paths S) [ref]) w of
        ((e # es, err), w) \<Rightarrow> (Inr (upload_status N e w), w)
      | (([], Some err), w) \<Rightarrow> (Inl (storeErr ErrKindUnknown ''Status'' ref (Some err)), w)
      | (([], None), w) \<Rightarrow> (Inl (CWrap [''b2: no incomplete upload for ref'', ref] CNotFound), w))"

text \<open>The parsed field paths of an update only decide whether it fails; all labels are merged.\<close>

definition b2_Update :: "'w b2_env \<Rightarrow> 'w b2_store \<Rightarrow> content_info \<Rightarrow> string list \<Rightarrow> 'w \<Rightarrow> (c_error + content_info) b2_result \<times> 'w" where
  "b2_Update N S info fieldpaths = with_key S (ci_Digest info) (\<lambda>key w.
     (case os_StatObject (bs_backend S) key w of
        (Inl err, w) \<Rightarrow> (Inl (lookup_error N ''Update'' (ci_Digest info) err), w)
      | (Inr meta, w) \<Rightarrow>
          (case (if fieldpaths = [] then Inr (\<lambda>a. True) else bn_parseFilters N fieldpaths) of
             Inl err \<Rightarrow> (Inl (storeErr ErrKindInvalidArgument ''Update'' ''parse fieldpaths'' (Some err)), w)
           | Inr match \<Rightarrow>
               (let metadata = map_copy (om_Metadata meta) (ci_Labels info) in
                case os_CopyObjectMetadata (bs_backend S) key metadata w of
                  (Inl err, w) \<Rightarrow> (Inl (b2_error N ''Update'' (ci_Digest info) err), w)
                | (Inr r, w) \<Rightarrow> (Inr \<lparr>ci_Digest = ci_Digest info, ci_Size = ur_Size r, ci_CreatedAt = om_LastModified meta,
                                    ci_UpdatedAt = ur_LastModified r, ci_Labels = metadata\<rparr>, w)))))"

fun walk_entries :: "'w b2_env \<Rightarrow> 'w b2_store \<Rightarrow> (object_entry \<Rightarrow> bool) \<Rightarrow> (content_info \<Rightarrow> 'w \<Rightarrow> c_error option \<times> 'w) \<Rightarrow> object_entry list \<Rightarrow> c_error option
    \<Rightarrow> 'w \<Rightarrow> c_error option \<times> 'w" where
  "walk_entries N S match fn [] err w = (map_option (\<lambda>e. storeErr ErrKindUnknown ''Walk'' ''list'' (Some e)) err, w)"
| "walk_entries N S match fn (e # es) err w =
     (if \<not> match e then walk_entries N S match fn es err w
      else case digestFromPath (bn_parseDigest N) (oe_Key e) (bs_paths S) of
        Inl bad \<Rightarrow> walk_entries N S match fn es err w
      | Inr d \<Rightarrow>
          (let info = \<lparr>ci_Digest = d, ci_Size = oe_Size e, ci_CreatedAt = oe_LastModified e, ci_UpdatedAt = oe_LastModified e, ci_Labels = oe_Metadata e\<rparr>;
               w = b2_emit S (plain_event N EventBlobWalked d (oe_Size e) (oe_Metadata e) w) w
           in case fn info w of (Some stop, w) \<Rightarrow> (Some stop, w) | (None, w) \<Rightarrow> walk_entries N S match fn es err w))"

definition b2_Walk :: "'w b2_env \<Rightarrow> 'w b2_store \<Rightarrow> (content_info \<Rightarrow> 'w \<Rightarrow> c_error option \<times> 'w) \<Rightarrow> string list \<Rightarrow> 'w \<Rightarrow> c_error option \<times> 'w" where
  "b2_Walk N S fn fs w =
     (case bn_parseFilters N fs of
        Inl err \<Rightarrow> (Some (storeErr ErrKindInvalidArgument ''Walk'' ''parse filters'' (Some err)), w)
      | Inr match \<Rightarrow>
          (let ((es, err), w) = os_ListObjects (bs_backend S) (Folder (bs_paths S) []) w
           in walk_entries N S (\<lambda>e. fs = [] \<or> match (objectEntryAdaptor (bn_lower N) (oe_Key e) (oe_Metadata e))) fn es err w))"

definition resolveObjectPath :: "'w b2_env \<Rightarrow> 'w b2_store \<Rightarrow> writer_opts \<Rightarrow> (c_error + string) b2_result" where
  "resolveObjectPath N S wo =
     (if de_Digest (wo_Desc wo) \<noteq> ''''
      then (case BlobPath (bs_paths S) (de_Digest (wo_Desc wo)) of None \<Rightarrow> B2Panic | Some key \<Rightarrow> B2Ret (Inr key))
      else if wo_Ref wo \<noteq> ''''
      then (case bn_parseDigest N (wo_Ref wo) of
              Inl err \<Rightarrow> B2Ret (Inr (Folder (bs_paths S) [bc_BlobsPrefix (bs_cfg S), wo_Ref wo]))
            | Inr d \<Rightarrow> (case BlobPath (bs_paths S) d of None \<Rightarrow> B2Panic | Some key \<Rightarrow> B2Ret (Inr key)))
      else B2Ret (Inl (CMsg [''b2: writer requires a descriptor digest or ref''])))"

definition b2_Writer :: "'w b2_env \<Rightarrow> 'w b2_store \<Rightarrow> writer_opt list \<Rightarrow> 'w \<Rightarrow> (c_error + upload) b2_result" where
  "b2_Writer N S opts w =
     (case apply_opts opts zero_opts of Inl err \<Rightarrow> B2Ret (Inl err)
      | Inr wo \<Rightarrow>
          (case resolveObjectPath N S wo of B2Panic \<Rightarrow> B2Panic
           | B2Ret (Inl err) \<Rightarrow> B2Ret (Inl err)
           | B2Ret (Inr object) \<Rightarrow>
               B2Ret (new_upload N object (wo_Ref wo) (if de_Size (wo_Desc wo) > 0 then de_Size (wo_Desc wo) else -1) w)))"

section \<open>Tracing decorators (otel.go)\<close>

text \<open>
  A tracer works on its own part of the world. \<open>sp_Error\<close> is \<open>RecordError\<close> followed by the error status.
  The two decorators are the same code with other names for spans and attributes.
\<close>

datatype attr_value = AStr string | AInt int | AStrings "string list"

record ('s, 't) tracing =
  sp_Start :: "string \<Rightarrow> (string \<times> attr_value) list \<Rightarrow> 't \<Rightarrow> 's \<times> 't"
  sp_SetAttributes :: "'s \<Rightarrow> (string \<times> attr_value) list \<Rightarrow> 't \<Rightarrow> 't"
  sp_Error :: "'s \<Rightarrow> c_error \<Rightarrow> 't \<Rightarrow> 't"
  sp_End :: "'s \<Rightarrow> 't \<Rightarrow> 't"

definition traced_call :: "('s, 't) tracing \<Rightarrow> string \<Rightarrow> (string \<times> attr_value) list \<Rightarrow> ('a \<Rightarrow> c_error option) \<Rightarrow> ('a \<Rightarrow> (string \<times> attr_value) list)
    \<Rightarrow> ('w \<Rightarrow> 'a \<times> 'w) \<Rightarrow> 'w \<times> 't \<Rightarrow> 'a \<times> 'w \<times> 't" where
  "traced_call T name attrs err ok f wt =
     (let (w, t) = wt; (s, t) = sp_Start T name attrs t; (a, w) = f w;
          t = (case err a of Some e \<Rightarrow> sp_Error T s e t | None \<Rightarrow> (if ok a = [] then t else sp_SetAttributes T s (ok a) t))
      in (a, w, sp_End T s t))"

definition sum_err :: "c_error + 'a \<Rightarrow> c_error option" where
  "sum_err r = (case r of Inl e \<Rightarrow> Some e | Inr a \<Rightarrow> None)"

definition on_world :: "('w \<Rightarrow> 'a \<times> 'w) \<Rightarrow> 'w \<times> 't \<Rightarrow> 'a \<times> 'w \<times> 't" where
  "on_world f wt = (let (a, w) = f (fst wt) in (a, w, snd wt))"

definition lift_writer :: "'w content_writer \<Rightarrow> ('w \<times> 't) content_writer" where
  "lift_writer x = \<lparr>cw_Write = \<lambda>p. on_world (cw_Write x p), cw_Commit = \<lambda>sz d os. on_world (cw_Commit x sz d os),
     cw_Truncate = \<lambda>sz. on_world (cw_Truncate x sz), cw_Close = on_world (cw_Close x), cw_Digest = \<lambda>wt. cw_Digest x (fst wt),
     cw_Status = \<lambda>wt. cw_Status x (fst wt)\<rparr>"

definition TracedStore :: "('s, 't) tracing \<Rightarrow> string \<Rightarrow> (string \<Rightarrow> string) \<Rightarrow> 'w content_store \<Rightarrow> ('w \<times> 't) content_store" where
  "TracedStore T pre key inner = \<lparr>
     so_Info = \<lambda>d. traced_call T (pre @ ''.Info'') [(key ''digest'', AStr d)] sum_err
        (\<lambda>r. case r of Inr i \<Rightarrow> [(key ''size_bytes'', AInt (ci_Size i))] | Inl e \<Rightarrow> []) (so_Info inner d),
     so_ReaderAt = \<lambda>d. traced_call T (pre @ ''.ReaderAt'') [(key ''digest'', AStr (de_Digest d)), (key ''size_bytes'', AInt (de_Size d))] sum_err
        (\<lambda>r. []) (so_ReaderAt inner d),
     so_Status = \<lambda>ref. traced_call T (pre @ ''.Status'') [(key ''ref'', AStr ref)] sum_err (\<lambda>r. []) (so_Status inner ref),
     so_ListStatuses = \<lambda>fs. traced_call T (pre @ ''.ListStatuses'') [(key ''filters'', AStrings fs)] sum_err
        (\<lambda>r. case r of Inr sts \<Rightarrow> [(key ''count'', AInt (int (length sts)))] | Inl e \<Rightarrow> []) (so_ListStatuses inner fs),
     so_Walk = \<lambda>fs. on_world (so_Walk inner fs),
     so_Delete = \<lambda>d. traced_call T (pre @ ''.Delete'') [(key ''digest'', AStr d)] (\<lambda>e. e) (\<lambda>r. []) (so_Delete inner d),
     so_Abort = \<lambda>ref. traced_call T (pre @ ''.Abort'') [(key ''ref'', AStr ref)] (\<lambda>e. e) (\<lambda>r. []) (so_Abort inner ref),
     so_Update = \<lambda>i fs. traced_call T (pre @ ''.Update'') [(key ''digest'', AStr (ci_Digest i))] snd (\<lambda>r. []) (so_Update inner i fs),
     so_Writer = \<lambda>opts wt. (case traced_call T (pre @ ''.Writer'') [] sum_err (\<lambda>r. []) (so_Writer inner opts) wt of
        (Inl e, wt) \<Rightarrow> (Inl e, wt) | (Inr x, wt) \<Rightarrow> (Inr (lift_writer x), wt))\<rparr>"

text \<open>The traced walk counts the calls of the visitor.\<close>

fun visit_count :: "(content_info \<Rightarrow> 'w \<Rightarrow> c_error option \<times> 'w) \<Rightarrow> content_info list \<Rightarrow> c_error option \<Rightarrow> int \<Rightarrow> 'w \<Rightarrow> (c_error option \<times> int) \<times> 'w" where
  "visit_count fn [] own n w = ((own, n), w)"
| "visit_count fn (i # is) own n w =
     (case fn i w of (Some e, w) \<Rightarrow> ((Some e, n + 1), w) | (None, w) \<Rightarrow> visit_count fn is own (n + 1) w)"

definition traced_Walk :: "('s, 't) tracing \<Rightarrow> string \<Rightarrow> (string \<Rightarrow> string) \<Rightarrow> 'w content_store \<Rightarrow> (content_info \<Rightarrow> 'w \<Rightarrow> c_error option \<times> 'w) \<Rightarrow> string list
    \<Rightarrow> 'w \<times> 't \<Rightarrow> c_error option \<times> 'w \<times> 't" where
  "traced_Walk T pre key inner fn fs wt =
     (let (w, t) = wt; (s, t) = sp_Start T (pre @ ''.Walk'') [(key ''filters'', AStrings fs)] t;
          ((is, own), w) = so_Walk inner fs w; ((err, n), w) = visit_count fn is own 0 w;
          t = sp_SetAttributes T s [(key ''walked_count'', AInt n)] t;
          t = (case err of Some e \<Rightarrow> sp_Error T s e t | None \<Rightarrow> t)
      in (err, w, sp_End T s t))"

definition registry_TracedStore :: "('s, 't) tracing \<Rightarrow> 'w content_store \<Rightarrow> ('w \<times> 't) content_store" where
  "registry_TracedStore T = TracedStore T ''registry'' (\<lambda>k. ''registry.'' @ k)"

definition b2_TracedStore :: "('s, 't) tracing \<Rightarrow> 'w content_store \<Rightarrow> ('w \<times> 't) content_store" where
  "b2_TracedStore T = TracedStore T ''b2'' (\<lambda>k. if k = ''size_bytes'' then ''size'' else k)"

section \<open>Facts\<close>

lemma traced_call_world: "fst (traced_call T name attrs err ok f (w, t)) = fst (f w) \<and> fst (snd (traced_call T name attrs err ok f (w, t))) = snd (f w)"
  by (simp add: traced_call_def split_beta)

lemma visit_count_visit: "fst (fst (visit_count fn is own n w)) = fst (visit fn is own w) \<and> snd (visit_count fn is own n w) = snd (visit fn is own w)"
  by (induction "is" arbitrary: n w) (auto split: prod.split option.split)

text \<open>The keys of blobs.\<close>

lemma BlobPath_parts: "CHR '':'' \<notin> set alg \<Longrightarrow> BlobPath p (alg @ '':'' @ enc) = Some (op_tenant p @ ''/'' @ op_blobsPrefix p @ alg @ ''/'' @ enc)"
  by (simp add: BlobPath_def dg_parts_def takeWhile_sentinel dropWhile_append)

lemma Abort_key_differs:
  assumes "BlobPath p d = Some key"
  shows "key \<noteq> Folder p [op_blobsPrefix p, d]"
proof -
  obtain alg enc where d: "dg_parts d = Some (alg, enc)" "key = op_tenant p @ ''/'' @ op_blobsPrefix p @ alg @ ''/'' @ enc"
    using assms by (auto simp: BlobPath_def)
  have "CHR '':'' \<in> set d" and alg: "alg = takeWhile (\<lambda>c. c \<noteq> CHR '':'') d" and enc: "enc = tl (dropWhile (\<lambda>c. c \<noteq> CHR '':'') d)"
    using d(1) by (auto simp: dg_parts_def split: if_splits)
  then have "dropWhile (\<lambda>c. c \<noteq> CHR '':'') d \<noteq> []" by (auto simp: dropWhile_eq_Nil_conv)
  then have "length d = Suc (length alg + length enc)"
    using takeWhile_dropWhile_id [of "\<lambda>c. c \<noteq> CHR '':''" d] alg enc
    by (metis length_append length_Cons list.collapse add_Suc_right)
  then have "length key \<noteq> length (Folder p [op_blobsPrefix p, d])" by (simp add: d(2) Folder_def)
  then show ?thesis by auto
qed

text \<open>
  What an object store promises of uploads: when an upload succeeds, at its end or as soon as it has all
  the bytes it was told of, the object holds exactly the bytes it has read; looking at an object and
  copying its metadata leave the contents alone. Uploads may fail, at any point, and a failed one may
  leave anything behind.
\<close>

definition object_laws :: "('w \<Rightarrow> string \<rightharpoonup> bytes) \<Rightarrow> 'w object_storage \<Rightarrow> bool" where
  "object_laws stored B \<longleftrightarrow>
     (\<forall>key sz read p w n r w'. os_PutData B key sz read p w = (Some (n, Inr r), w') \<longrightarrow> stored w' key = Some (read @ take n p)) \<and>
     (\<forall>key sz read w r w'. os_PutEOF B key sz read w = (Inr r, w') \<longrightarrow> stored w' key = Some read) \<and>
     (\<forall>key w. stored (snd (os_StatObject B key w)) = stored w) \<and>
     (\<forall>key m w. stored (snd (os_CopyObjectMetadata B key m w)) = stored w)"

lemma object_lawsD:
  assumes "object_laws stored B"
  shows "os_PutData B key sz read p w = (Some (n, Inr r), w') \<Longrightarrow> stored w' key = Some (read @ take n p)"
    "os_PutEOF B key sz read w = (Inr r, w') \<Longrightarrow> stored w' key = Some read"
    "stored (snd (os_StatObject B key w)) = stored w" "stored (snd (os_CopyObjectMetadata B key m w)) = stored w"
  using assms unfolding object_laws_def by blast+

text \<open>Writes that all return, whatever they return.\<close>

fun write_all :: "'w b2_env \<Rightarrow> 'w b2_store \<Rightarrow> bytes list \<Rightarrow> upload \<Rightarrow> 'w \<Rightarrow> (upload \<times> 'w) option" where
  "write_all N S [] u w = Some (u, w)"
| "write_all N S (p # ps) u w = (case up_Write N S p u w of (None, u, w) \<Rightarrow> None | (Some r, u, w) \<Rightarrow> write_all N S ps u w)"

text \<open>An upload that was given the bytes \<open>read\<close>; if it has already succeeded, they are stored.\<close>

definition uploading :: "('w \<Rightarrow> string \<rightharpoonup> bytes) \<Rightarrow> string \<Rightarrow> bytes \<Rightarrow> upload \<Rightarrow> 'w \<Rightarrow> bool" where
  "uploading stored key read u w \<longleftrightarrow> up_object u = key \<and> up_read u = read \<and> up_hashed u = read \<and> up_offset u = int (length read) \<and>
     \<not> up_closed u \<and> \<not> up_committed u \<and> (\<forall>r. up_done u = Some (Inr r) \<longrightarrow> stored w key = Some read)"

lemma up_Write_uploading:
  assumes "object_laws stored (bs_backend S)" "uploading stored key read u w" "up_Write N S p u w = (Some r, u', w')"
  shows "uploading stored key (read @ p) u' w' \<and> up_size u' = up_size u"
proof -
  obtain put w1 where put: "os_PutData (bs_backend S) key (up_size u) read p w = (put, w1)" by fastforce
  have u: "\<not> up_closed u" "up_done u = None" using assms(2,3) by (auto simp: uploading_def up_Write_def split: if_splits)
  show ?thesis
  proof (cases put)
    case None
    then show ?thesis using assms(2,3) u put by (auto simp: uploading_def up_Write_def)
  next
    case (Some nr)
    obtain n r1 where nr: "nr = (n, r1)" by fastforce
    have n: "length p \<le> n" using assms(2,3) u put Some nr by (auto simp: uploading_def up_Write_def not_le split: if_splits)
    have "stored w1 key = Some (read @ p)" if "r1 = Inr x" for x
      using object_lawsD(1) [OF assms(1), of key "up_size u" read p w n x w1] put Some nr that n by simp
    then show ?thesis using assms(2,3) u put Some nr n by (auto simp: uploading_def up_Write_def)
  qed
qed

lemma write_all_uploading:
  "object_laws stored (bs_backend S) \<Longrightarrow> uploading stored key read u w \<Longrightarrow> write_all N S ps u w = Some (u', w') \<Longrightarrow>
   uploading stored key (read @ concat ps) u' w' \<and> up_size u' = up_size u"
proof (induction ps arbitrary: read u w)
  case (Cons p ps)
  obtain r u1 w1 where p: "up_Write N S p u w = (Some r, u1, w1)" "write_all N S ps u1 w1 = Some (u', w')"
    using Cons.prems(3) by (auto split: prod.splits option.splits)
  note u1 = up_Write_uploading [OF Cons.prems(1,2) p(1)]
  show ?case using Cons.IH [OF Cons.prems(1) conjunct1 [OF u1] p(2)] u1 by simp
qed simp

lemma new_upload_uploading: "new_upload N key ref declared w0 = Inr u \<Longrightarrow> uploading stored key [] u w \<and> up_size u = declared"
  by (auto simp: new_upload_def uploading_def split: if_splits)
definition hooks_keep_objects :: "('w \<Rightarrow> string \<rightharpoonup> bytes) \<Rightarrow> 'w b2_store \<Rightarrow> bool" where
  "hooks_keep_objects stored S \<longleftrightarrow> (\<forall>h \<in> set (bs_hooks S). \<forall>e w. stored (h e w) = stored w)"

lemma b2_emit_keeps: "hooks_keep_objects stored S \<Longrightarrow> stored (b2_emit S e w) = stored w"
  unfolding b2_emit_def by (rule fold_keeps) (simp add: hooks_keep_objects_def)

lemma finish_uploading:
  assumes "object_laws stored (bs_backend S)" "uploading stored key read u w" "finish_upload S u w = (Inr r, u', w')"
  shows "stored w' key = Some read \<and> up_hashed u' = read \<and> up_offset u' = int (length read) \<and> up_size u' = up_size u"
  using assms(2,3) object_lawsD(2) [OF assms(1), of key "up_size u" read w]
  by (auto simp: uploading_def finish_upload_def split: option.splits prod.splits)

lemma commit_checks_ok:
  assumes "object_laws stored (bs_backend S)" "hooks_keep_objects stored S" "commit_checks N S sz expected opts r u w = (None, u', w')"
  shows "(sz > 0 \<longrightarrow> actual_size u = sz) \<and> (expected \<noteq> '''' \<longrightarrow> bn_digest N (up_hashed u) = expected) \<and> stored w' = stored w"
proof -
  have l: "stored (snd (applyLabels S key labels w)) = stored w" for key labels
  proof -
    obtain s w1 where s: "os_StatObject (bs_backend S) key w = (s, w1)" by fastforce
    have w1: "stored w1 = stored w" using object_lawsD(3) [OF assms(1), of key w] s by simp
    obtain c w2 where c: "os_CopyObjectMetadata (bs_backend S) key (map_copy (om_Metadata (projr s)) labels) w1 = (c, w2)" by fastforce
    have "stored w2 = stored w" using object_lawsD(4) [OF assms(1), of key "map_copy (om_Metadata (projr s)) labels" w1] c w1 by simp
    then show ?thesis using s c w1 by (cases s; cases c) (simp_all add: applyLabels_def)
  qed
  have e: "\<not> (sz > 0 \<and> actual_size u \<noteq> sz)" "\<not> (expected \<noteq> '''' \<and> bn_digest N (up_hashed u) \<noteq> expected)"
    using assms(3) by (auto simp: commit_checks_def split: if_splits)
  obtain base where b: "commit_opts opts zero_info = Inr base"
    using assms(3) e by (cases "commit_opts opts zero_info") (auto simp: commit_checks_def)
  obtain err w1 where a: "(if ci_Labels base \<noteq> Map.empty then applyLabels S (ur_Key r) (ci_Labels base) w else (None, w)) = (err, w1)" by fastforce
  have w1: "stored w1 = stored w" using a l [of "ur_Key r" "ci_Labels base"] by (cases "ci_Labels base = Map.empty") simp_all
  have "stored w' = stored w"
    using assms(3) e b a w1 by (cases err) (auto simp: commit_checks_def b2_emit_keeps [OF assms(2)])
  then show ?thesis using e by blast
qed

section \<open>Properties\<close>

text \<open>
  The digest of a blob is read back from the key of its object: the key built from an algorithm
  and an encoded hash gives the parser of digests exactly these two parts.
\<close>

theorem digestFromPath_BlobPath:
  assumes "CHR '':'' \<notin> set alg" "CHR ''/'' \<notin> set alg" "alg \<noteq> ''''" "enc \<noteq> ''''"
  shows "\<exists>key. BlobPath p (alg @ '':'' @ enc) = Some key \<and> digestFromPath parse key p = parse (alg @ '':'' @ enc)"
proof -
  have "SplitN 2 ''/'' (alg @ ''/'' @ enc) = [alg, enc]"
    using cut_at_char [of "CHR ''/''" alg enc] assms(2) by (simp add: SplitN_2)
  then show ?thesis using assms BlobPath_parts [of alg p enc]
    by (simp add: digestFromPath_def TrimBlobPrefix_def TrimPrefix_append [of "op_tenant p @ ''/'' @ op_blobsPrefix p", simplified])
qed

text \<open>
  C16: a commit that succeeds certifies the object: after writes to a new writer that all returned, an
  object store that keeps its promises, and whose uploads may fail, holds exactly the written bytes
  under the key of the blob, they have the expected digest and, when no size was declared, the expected
  size.
\<close>

theorem Commit_certifies_object:
  assumes "object_laws stored (bs_backend S)" "hooks_keep_objects stored S" "new_upload N key ref declared w0 = Inr u"
    and "write_all N S ps u w = Some (u1, w1)" "up_Commit N S interrupted sz expected opts u1 w1 = (None, u2, w2)"
  shows "stored w2 key = Some (concat ps) \<and> (expected \<noteq> '''' \<longrightarrow> bn_digest N (concat ps) = expected) \<and>
     (0 < sz \<and> declared \<le> 0 \<longrightarrow> int (length (concat ps)) = sz)"
proof -
  have u1: "uploading stored key (concat ps) u1 w1" "up_size u1 = declared"
    using write_all_uploading [OF assms(1) conjunct1 [OF new_upload_uploading [OF assms(3)]] assms(4)] new_upload_uploading [OF assms(3), of stored w] by simp_all
  obtain r u' w' where f: "finish_upload S u1 w1 = (r, u', w')" by (metis prod.collapse)
  obtain x where x: "r = Inr x" "commit_checks N S sz expected opts x u' w' = (None, u2, w2)"
    using assms(5) f u1(1) by (auto simp: up_Commit_def uploading_def split: option.splits sum.splits)
  note fin = finish_uploading [OF assms(1) u1(1) f [unfolded x(1)]]
  from commit_checks_ok [OF assms(1,2) x(2)] fin u1(2) show ?thesis by (auto simp: actual_size_def)
qed

text \<open>
  C39: a commit whose digest does not match is refused only after the upload: when the upload succeeds,
  the wrong bytes stay stored under the key of the expected blob, and the store answers for that blob
  from then on.
\<close>

theorem mismatched_Commit_leaves_object:
  assumes "object_laws stored (bs_backend S)" "BlobPath (bs_paths S) d = Some key" "new_upload N key ref declared w0 = Inr u"
    and "write_all N S ps u w = Some (u1, w1)" "bn_digest N (concat ps) \<noteq> d" "d \<noteq> ''''"
    and "finish_upload S u1 w1 = (Inr r, u2, w2)" "fst (os_StatObject (bs_backend S) key w2) = Inr meta"
  shows "\<exists>err info. up_Commit N S None sz d opts u1 w1 = (Some err, u2, w2) \<and> stored w2 key = Some (concat ps) \<and>
     fst (b2_Info N S d w2) = B2Ret (Inr info)"
proof -
  have u1: "uploading stored key (concat ps) u1 w1"
    using write_all_uploading [OF assms(1) conjunct1 [OF new_upload_uploading [OF assms(3)]] assms(4)] by simp
  note fin = finish_uploading [OF assms(1) u1 assms(7)]
  have "\<exists>err. commit_checks N S sz d opts r u2 w2 = (Some err, u2, w2)" using assms(5,6) fin by (simp add: commit_checks_def)
  then have "\<exists>err. up_Commit N S None sz d opts u1 w1 = (Some err, u2, w2)" using assms(7) u1 by (auto simp: up_Commit_def uploading_def)
  moreover obtain w3 where "os_StatObject (bs_backend S) key w2 = (Inr meta, w3)" using assms(8) by (metis prod.collapse)
  then have "\<exists>info. fst (b2_Info N S d w2) = B2Ret (Inr info)" using assms(2) by (simp add: b2_Info_def with_key_def Let_def)
  ultimately show ?thesis using fin by blast
qed
text \<open>
  Once the upload has failed, nobody reads the pipe: a write that ends with the failure still
  reports success, and the next one never returns.
\<close>

theorem Write_hangs_after_failed_upload:
  assumes "\<not> up_closed u" "up_done u = None"
    and "os_PutData (bs_backend S) (up_object u) (up_size u) (up_read u) p w = (Some (length p, Inl err), w')"
  shows "\<exists>u'. up_Write N S p u w = (Some (length p, None), u', w') \<and> up_done u' = Some (Inl err) \<and> up_Write N S q u' w' = (None, u', w')"
  using assms by (simp add: up_Write_def)

text \<open>
  Aborting by the digest of a blob removes another key than the one its upload uses.
\<close>

theorem Abort_misses_upload:
  assumes "resolveObjectPath N S \<lparr>wo_Ref = ref, wo_Desc = \<lparr>de_MediaType = '''', de_Digest = '''', de_Size = 0\<rparr>\<rparr> = B2Ret (Inr key)"
    and "ref \<noteq> ''''" "bn_parseDigest N ref = Inr ref" "op_blobsPrefix (bs_paths S) = bc_BlobsPrefix (bs_cfg S)"
  shows "key \<noteq> Folder (bs_paths S) [bc_BlobsPrefix (bs_cfg S), ref]"
  using assms Abort_key_differs [of "bs_paths S" ref key] by (auto simp: resolveObjectPath_def split: option.splits)

text \<open>
  Tracing a store changes nothing but the trace: every operation gives the result of the traced
  store and leaves its world as the traced store does.
\<close>

theorem TracedStore_transparent:
  "fst (so_Info (TracedStore T pre key st) d (w, t)) = fst (so_Info st d w) \<and>
   fst (snd (so_Info (TracedStore T pre key st) d (w, t))) = snd (so_Info st d w) \<and>
   fst (so_Update (TracedStore T pre key st) i fs (w, t)) = fst (so_Update st i fs w) \<and>
   fst (snd (so_Update (TracedStore T pre key st) i fs (w, t))) = snd (so_Update st i fs w) \<and>
   fst (so_Delete (TracedStore T pre key st) d (w, t)) = fst (so_Delete st d w) \<and>
   fst (snd (so_Delete (TracedStore T pre key st) d (w, t))) = snd (so_Delete st d w) \<and>
   fst (so_ListStatuses (TracedStore T pre key st) fs (w, t)) = fst (so_ListStatuses st fs w) \<and>
   fst (traced_Walk T pre key st fn fs (w, t)) = fst (case so_Walk st fs w of ((is, own), w) \<Rightarrow> visit fn is own w)"
  using visit_count_visit [of fn "fst (fst (so_Walk st fs w))" "snd (fst (so_Walk st fs w))" 0 "snd (so_Walk st fs w)"]
  by (simp add: TracedStore_def traced_call_world traced_Walk_def split_beta Let_def)

subsection \<open>Examples\<close>

definition map_objects :: "(string \<rightharpoonup> bytes) object_storage" where
  "map_objects = \<lparr>os_StatObject = \<lambda>key w. (case w key of None \<Rightarrow> Inl CNotFound
        | Some bs \<Rightarrow> Inr \<lparr>om_Key = key, om_Size = int (length bs), om_LastModified = 0, om_ETag = '''', om_VersionID = '''', om_StorageClass = '''',
            om_Metadata = Map.empty, om_Checksums = \<lparr>cs_SHA256 = '''', cs_SHA1 = '''', cs_CRC32 = '''', cs_CRC32C = ''''\<rparr>\<rparr>, w),
     os_GetObject = \<lambda>key w. (Inl CNotFound, w), os_PutData = \<lambda>key sz read p w. (None, w),
     os_PutEOF = \<lambda>key sz read w. (Inr \<lparr>ur_Key = key, ur_Size = int (length read), ur_LastModified = 0\<rparr>, w(key \<mapsto> read)),
     os_CopyObjectMetadata = \<lambda>key m w. (Inl CNotFound, w), os_RemoveObject = \<lambda>key w. (None, w(key := None)),
     os_RemoveIncompleteUpload = \<lambda>key w. (None, w), os_ListObjects = \<lambda>pre w. (([], None), w), os_ListIncompleteUploads = \<lambda>pre w. (([], None), w),
     os_BucketExists = \<lambda>b w. (Inr True, w), os_MakeBucket = \<lambda>b r w. (None, w)\<rparr>"

definition example_b2_env :: "(string \<rightharpoonup> bytes) b2_env" where
  "example_b2_env = \<lparr>bn_now = \<lambda>w. 0, bn_digest = \<lambda>bs. if bs = [1, 2] then ''sha256:aa'' else ''sha256:bb'', bn_response = \<lambda>e. (404, ''''),
     bn_lower = \<lambda>s. s, bn_parseDigest = Inr, bn_parseFilters = \<lambda>fs. Inr (\<lambda>a. True)\<rparr>"

definition example_paths :: object_paths where "example_paths = \<lparr>op_tenant = ''t'', op_blobsPrefix = ''blobs/''\<rparr>"

definition example_b2 :: "(string \<rightharpoonup> bytes) b2_store" where
  "example_b2 = \<lparr>bs_backend = map_objects, bs_cfg = projr (ParseConfig (\<lambda>s. None) (\<lambda>s. None) (\<lambda>s. None) Map.empty [''tenant'' \<mapsto> ''t'']),
     bs_paths = example_paths, bs_hooks = []\<rparr>"

definition example_upload :: upload where
  "example_upload = projr (new_upload example_b2_env ''t/blobs/sha256/aa'' '''' (-1) Map.empty)"

lemma example_b2_laws:
  "object_laws (\<lambda>w. w) (bs_backend example_b2)" "hooks_keep_objects (\<lambda>w. w) example_b2"
  "new_upload example_b2_env ''t/blobs/sha256/aa'' '''' (-1) Map.empty = Inr example_upload"
  "BlobPath (bs_paths example_b2) ''sha256:aa'' = Some ''t/blobs/sha256/aa''"
  by (auto simp: object_laws_def example_b2_def map_objects_def hooks_keep_objects_def example_upload_def new_upload_def
      example_paths_def BlobPath_def dg_parts_def split: option.split)

lemma example_write_all:
  "write_all example_b2_env example_b2 [[1], [2]] example_upload Map.empty =
     Some (example_upload\<lparr>up_read := [1, 2], up_hashed := [1, 2], up_offset := 2, up_updatedAt := 0\<rparr>, Map.empty)"
  "write_all example_b2_env example_b2 [[3]] example_upload Map.empty =
     Some (example_upload\<lparr>up_read := [3], up_hashed := [3], up_offset := 1, up_updatedAt := 0\<rparr>, Map.empty)"
  by (simp_all add: example_b2_def map_objects_def example_upload_def new_upload_def example_b2_env_def up_Write_def)
theorem digestFromPath_BlobPath_witness:
  "\<exists>key. BlobPath example_paths (''sha256'' @ '':'' @ ''aa'') = Some key \<and> digestFromPath Inr key example_paths = Inr (''sha256'' @ '':'' @ ''aa'')"
  by (rule digestFromPath_BlobPath) simp_all

theorem Commit_certifies_object_witness:
  "\<exists>u2 w2. up_Commit example_b2_env example_b2 None 2 ''sha256:aa'' [] (example_upload\<lparr>up_read := [1, 2], up_hashed := [1, 2], up_offset := 2, up_updatedAt := 0\<rparr>) Map.empty
       = (None, u2, w2) \<and>
     w2 ''t/blobs/sha256/aa'' = Some (concat [[1], [2]]) \<and> (''sha256:aa'' \<noteq> '''' \<longrightarrow> bn_digest example_b2_env (concat [[1], [2]]) = ''sha256:aa'') \<and>
     (0 < (2::int) \<and> (-1::int) \<le> 0 \<longrightarrow> int (length (concat [[1], [2 :: byte]])) = 2)"
proof -
  obtain u2 w2 where c: "up_Commit example_b2_env example_b2 None 2 ''sha256:aa'' []
      (example_upload\<lparr>up_read := [1, 2], up_hashed := [1, 2], up_offset := 2, up_updatedAt := 0\<rparr>) Map.empty = (None, u2, w2)"
    by (simp add: up_Commit_def finish_upload_def example_b2_def map_objects_def example_upload_def new_upload_def example_b2_env_def
        commit_checks_def actual_size_def zero_info_def)
  show ?thesis
    using Commit_certifies_object [OF example_b2_laws(1,2,3) example_write_all(1) c] c by blast
qed

theorem mismatched_Commit_leaves_object_witness:
  "\<exists>u2 w2 err info. up_Commit example_b2_env example_b2 None 1 ''sha256:aa'' []
       (example_upload\<lparr>up_read := [3], up_hashed := [3], up_offset := 1, up_updatedAt := 0\<rparr>) Map.empty = (Some err, u2, w2) \<and>
     w2 ''t/blobs/sha256/aa'' = Some (concat [[3]]) \<and> fst (b2_Info example_b2_env example_b2 ''sha256:aa'' w2) = B2Ret (Inr info)"
proof -
  let ?u = "example_upload\<lparr>up_read := [3], up_hashed := [3], up_offset := 1, up_updatedAt := 0\<rparr>"
  let ?r = "\<lparr>ur_Key = ''t/blobs/sha256/aa'', ur_Size = 1, ur_LastModified = 0\<rparr>"
  let ?w = "(Map.empty :: string \<rightharpoonup> bytes)(''t/blobs/sha256/aa'' \<mapsto> [3])"
  have f: "finish_upload example_b2 ?u Map.empty = (Inr ?r, ?u\<lparr>up_closed := True, up_done := Some (Inr ?r)\<rparr>, ?w)"
    by (simp add: finish_upload_def example_b2_def map_objects_def example_upload_def new_upload_def)
  obtain meta where m: "fst (os_StatObject (bs_backend example_b2) ''t/blobs/sha256/aa'' ?w) = Inr meta"
    by (simp add: example_b2_def map_objects_def)
  have d: "bn_digest example_b2_env (concat [[3]]) \<noteq> ''sha256:aa''" by (simp add: example_b2_env_def)
  show ?thesis
    using mismatched_Commit_leaves_object [OF example_b2_laws(1,4,3) example_write_all(2) d _ f m, of 1 "[]"] by blast
qed
definition failing_objects :: "(string \<rightharpoonup> bytes) b2_store" where
  "failing_objects = example_b2\<lparr>bs_backend := map_objects\<lparr>os_PutData := \<lambda>key sz read p w. (Some (length p, Inl (CMsg [''connection reset''])), w)\<rparr>\<rparr>"

theorem Write_hangs_after_failed_upload_witness:
  "\<exists>u'. up_Write example_b2_env failing_objects [1] example_upload Map.empty = (Some (length [1::byte], None), u', Map.empty) \<and>
     up_done u' = Some (Inl (CMsg [''connection reset''])) \<and> up_Write example_b2_env failing_objects [2] u' Map.empty = (None, u', Map.empty)"
  by (rule Write_hangs_after_failed_upload) (simp_all add: failing_objects_def example_upload_def new_upload_def)

theorem Abort_misses_upload_witness:
  "''t/blobs/sha256/aa'' \<noteq> Folder (bs_paths example_b2) [bc_BlobsPrefix (bs_cfg example_b2), ''sha256:aa'']"
  by (rule Abort_misses_upload [of example_b2_env example_b2 "''sha256:aa''"])
    (simp_all add: resolveObjectPath_def BlobPath_def dg_parts_def example_b2_env_def example_b2_def example_paths_def ParseConfig_def validateTenant_def attrOr_def attrOrEnv_def Let_def)

end
