(* ===== verification/Ex_Core.thy ===== *)
theory Ex_Core
  imports Go_Text
begin

text \<open>
  The framework of the exporters (\<open>plugins/exporter/core\<close>): the artifact that flows through an export
  (\<open>types.go\<close>), errors (\<open>errors.go\<close>), the interfaces (\<open>interfaces.go\<close>) as records of operations on a
  world \<open>'w\<close>, requests and their builder (\<open>request.go\<close>), the registry of exporters (\<open>registry.go\<close>),
  the pipeline of transformers around an exporter (\<open>pipeline.go\<close>), and the reporters of progress
  (\<open>progress/reporter.go\<close>). Points in time are nanoseconds since the epoch. A Go map is a map; a \<open>nil\<close>
  map is the empty one, since every write is behind a check. The order in which a map is iterated is
  the order of an association list.
\<close>

section \<open>Errors (errors.go)\<close>

datatype ex_sentinel = ErrNotRegistered | ErrAlreadyRegistered | ErrValidation | ErrUnsupportedOption | ErrTransformFailed | ErrContentNotFound | ErrExportAborted

text \<open>\<open>XMsg\<close> is \<open>fmt.Errorf\<close> or an error of a callee, \<open>XWrap\<close> one with \<open>%w\<close>; messages are lists of their parts.\<close>

datatype ex_error =
    Sentinel ex_sentinel
  | XMsg "string list"
  | XWrap "string list" ex_error
  | ValidationError string string
  | OptionError string string string
  | TransformError string ex_error

fun ex_Is :: "ex_error \<Rightarrow> ex_sentinel \<Rightarrow> bool" where
  "ex_Is (Sentinel s) target \<longleftrightarrow> s = target"
| "ex_Is (XMsg m) target \<longleftrightarrow> False"
| "ex_Is (XWrap m err) target \<longleftrightarrow> ex_Is err target"
| "ex_Is (ValidationError field message) target \<longleftrightarrow> target = ErrValidation"
| "ex_Is (OptionError key val message) target \<longleftrightarrow> target = ErrUnsupportedOption"
| "ex_Is (TransformError name cause) target \<longleftrightarrow> target = ErrTransformFailed \<or> ex_Is cause target"

section \<open>Artifacts (types.go)\<close>

record ex_digest =
  dg_Algorithm :: string
  dg_Hex :: string

definition zero_digest :: ex_digest where "zero_digest = \<lparr>dg_Algorithm = '''', dg_Hex = ''''\<rparr>"

text \<open>\<open>sha\<close> is the hexadecimal SHA-256 of its argument.\<close>

definition NewDigest :: "(bytes \<Rightarrow> string) \<Rightarrow> bytes \<Rightarrow> ex_digest" where
  "NewDigest sha data = \<lparr>dg_Algorithm = ''sha256'', dg_Hex = sha data\<rparr>"

definition ex_ParseDigest :: "string \<Rightarrow> ex_error + ex_digest" where
  "ex_ParseDigest s =
     (case SplitN 2 '':'' s of
        [a, h] \<Rightarrow> (if a = '''' \<or> h = '''' then Inl (XMsg [''invalid digest'', s]) else Inr \<lparr>dg_Algorithm = a, dg_Hex = h\<rparr>)
      | _ \<Rightarrow> Inl (XMsg [''invalid digest'', s]))"

definition ex_digest_String :: "ex_digest \<Rightarrow> string" where
  "ex_digest_String d = (if dg_Hex d = '''' then '''' else dg_Algorithm d @ '':'' @ dg_Hex d)"

definition dg_IsZero :: "ex_digest \<Rightarrow> bool" where "dg_IsZero d \<longleftrightarrow> dg_Hex d = ''''"

record ex_platform =
  pt_OS :: string
  pt_Architecture :: string
  pt_Variant :: string
  pt_OSVersion :: string

definition platform_String :: "ex_platform \<Rightarrow> string" where
  "platform_String p = pt_OS p @ ''/'' @ pt_Architecture p @ (if pt_Variant p \<noteq> '''' then ''/'' @ pt_Variant p else '''')"

definition platform_Normalize :: "(string \<Rightarrow> string) \<Rightarrow> ex_platform \<Rightarrow> ex_platform" where
  "platform_Normalize unicode_lower p = p\<lparr>pt_OS := ToLower unicode_lower (pt_OS p), pt_Architecture := ToLower unicode_lower (pt_Architecture p)\<rparr>"

record blob_descriptor =
  bd_Digest :: ex_digest
  bd_Size :: int
  bd_MediaType :: string
  bd_Annotations :: "string \<rightharpoonup> string"

record layer_history =
  lh_CreatedAt :: "int option"
  lh_CreatedBy :: string
  lh_Comment :: string
  lh_EmptyLayer :: bool

record ex_layer =
  la_Descriptor :: blob_descriptor
  la_DiffID :: ex_digest
  la_History :: "layer_history option"

record attestation_record =
  at_Kind :: string
  at_PredicateType :: string
  at_Path :: string
  at_Payload :: bytes
  at_InlineOnly :: bool
  at_Metadata :: "string \<rightharpoonup> bytes"

record artifact =
  ar_Kind :: string
  ar_Platforms :: "ex_platform list"
  ar_Layers :: "ex_layer list"
  ar_Config :: bytes
  ar_Attestations :: "attestation_record list"
  ar_Annotations :: "string \<rightharpoonup> string"
  ar_Labels :: "string \<rightharpoonup> string"
  ar_Metadata :: "string \<rightharpoonup> bytes"

text \<open>Copies are equal values; what they share with the original is not visible in this model.\<close>

definition cloneLayer :: "ex_layer \<Rightarrow> ex_layer" where
  "cloneLayer l = (case la_History l of None \<Rightarrow> l | Some h \<Rightarrow> l\<lparr>la_History := Some (h\<lparr>lh_CreatedAt := lh_CreatedAt h\<rparr>)\<rparr>)"

definition artifact_Clone :: "artifact \<Rightarrow> artifact" where
  "artifact_Clone a = a\<lparr>ar_Layers := map cloneLayer (ar_Layers a), ar_Metadata := (\<lambda>k. ar_Metadata a k)\<rparr>"

definition attestation_Clone :: "attestation_record \<Rightarrow> attestation_record" where
  "attestation_Clone r = r\<lparr>at_Metadata := (\<lambda>k. at_Metadata r k)\<rparr>"

lemma artifact_Clone_id [simp]: "artifact_Clone a = a"
  by (simp add: artifact_Clone_def cloneLayer_def map_idI split: option.split)

lemma attestation_Clone_id [simp]: "attestation_Clone r = r"
  by (simp add: attestation_Clone_def)

type_synonym ex_options = "string \<rightharpoonup> string"

definition options_Get :: "ex_options \<Rightarrow> string \<Rightarrow> string" where
  "options_Get m key = (case m key of Some v \<Rightarrow> v | None \<Rightarrow> '''')"

definition options_GetDefault :: "ex_options \<Rightarrow> string \<Rightarrow> string \<Rightarrow> string" where
  "options_GetDefault m key def = (case m key of Some v \<Rightarrow> v | None \<Rightarrow> def)"

section \<open>Interfaces (interfaces.go)\<close>

record 'w reporter =
  rp_Start :: "string \<Rightarrow> string \<Rightarrow> 'w \<Rightarrow> 'w"
  rp_Update :: "string \<Rightarrow> int \<Rightarrow> 'w \<Rightarrow> 'w"
  rp_Complete :: "string \<Rightarrow> ex_error option \<Rightarrow> 'w \<Rightarrow> 'w"
  rp_Close :: "'w \<Rightarrow> ex_error option \<times> 'w"

text \<open>A transformer returns an artifact, \<open>None\<close> for \<open>nil\<close>.\<close>

record 'w transformer =
  tf_Name :: string
  tf_Priority :: int
  tf_Transform :: "artifact \<Rightarrow> 'w \<Rightarrow> (ex_error + artifact option) \<times> 'w"

record 'w blob_store =
  bb_WriteBlob :: "bytes \<Rightarrow> string \<Rightarrow> 'w \<Rightarrow> (ex_error + ex_digest) \<times> 'w"
  bb_Has :: "ex_digest \<Rightarrow> 'w \<Rightarrow> (ex_error + bool) \<times> 'w"
  bb_ReadBlob :: "ex_digest \<Rightarrow> 'w \<Rightarrow> (ex_error + bytes) \<times> 'w"

section \<open>Requests and results (request.go)\<close>

record 'w export_request =
  rq_SessionID :: string
  rq_Artifact :: "artifact option"
  rq_ImageName :: string
  rq_Push :: bool
  rq_PushByDigest :: bool
  rq_Insecure :: bool
  rq_Epoch :: "int option"
  rq_Annotations :: "string \<rightharpoonup> string"
  rq_Labels :: "string \<rightharpoonup> string"
  rq_Reporter :: "'w reporter option"
  rq_Store :: bool
  rq_ExtraOptions :: ex_options

definition rq_Validate :: "'w export_request \<Rightarrow> ex_error option" where
  "rq_Validate r =
     (if rq_Artifact r = None then Some (XMsg [''ExportRequest: Artifact must not be nil''])
      else if rq_SessionID r = '''' then Some (XMsg [''ExportRequest: SessionID must not be empty''])
      else case rq_Reporter r of None \<Rightarrow> Some (XMsg [''ExportRequest: Reporter must not be nil'']) | Some rep \<Rightarrow> None)"

record export_result =
  xr_Descriptor :: "blob_descriptor option"
  xr_ImageDigest :: ex_digest
  xr_ImageName :: string
  xr_ConfigDigest :: ex_digest
  xr_Metadata :: "string \<rightharpoonup> string"

definition ResultKeyImageDigest :: string where "ResultKeyImageDigest = ''containerimage.digest''"
definition ResultKeyImageName :: string where "ResultKeyImageName = ''image.name''"
definition ResultKeyDescriptor :: string where "ResultKeyDescriptor = ''containerimage.descriptor''"

definition xr_Get :: "string \<Rightarrow> export_result \<Rightarrow> string" where
  "xr_Get key r = (case xr_Metadata r key of Some v \<Rightarrow> v | None \<Rightarrow> '''')"

definition xr_Set :: "string \<Rightarrow> string \<Rightarrow> export_result \<Rightarrow> export_result" where
  "xr_Set key val r = r\<lparr>xr_Metadata := (xr_Metadata r)(key \<mapsto> val)\<rparr>"

type_synonym 'w finalize = "'w \<Rightarrow> ex_error option \<times> 'w"
type_synonym 'w export_fn = "'w export_request \<Rightarrow> 'w \<Rightarrow> (ex_error + export_result \<times> 'w finalize option) \<times> 'w"

subsection \<open>The builder\<close>

definition NewExportRequest :: "'w export_request" where
  "NewExportRequest = \<lparr>rq_SessionID = '''', rq_Artifact = None, rq_ImageName = '''', rq_Push = False, rq_PushByDigest = False, rq_Insecure = False,
     rq_Epoch = None, rq_Annotations = Map.empty, rq_Labels = Map.empty, rq_Reporter = None, rq_Store = True, rq_ExtraOptions = Map.empty\<rparr>"

definition rq_WithSessionID :: "string \<Rightarrow> 'w export_request \<Rightarrow> 'w export_request" where "rq_WithSessionID i b = b\<lparr>rq_SessionID := i\<rparr>"
definition rq_WithArtifact :: "artifact option \<Rightarrow> 'w export_request \<Rightarrow> 'w export_request" where "rq_WithArtifact a b = b\<lparr>rq_Artifact := a\<rparr>"
definition rq_WithImageName :: "string \<Rightarrow> 'w export_request \<Rightarrow> 'w export_request" where "rq_WithImageName name b = b\<lparr>rq_ImageName := name\<rparr>"
definition rq_WithPush :: "bool \<Rightarrow> 'w export_request \<Rightarrow> 'w export_request" where "rq_WithPush push b = b\<lparr>rq_Push := push\<rparr>"
definition rq_WithPushByDigest :: "bool \<Rightarrow> 'w export_request \<Rightarrow> 'w export_request" where "rq_WithPushByDigest v b = b\<lparr>rq_PushByDigest := v\<rparr>"
definition rq_WithInsecure :: "bool \<Rightarrow> 'w export_request \<Rightarrow> 'w export_request" where "rq_WithInsecure v b = b\<lparr>rq_Insecure := v\<rparr>"
definition rq_WithEpoch :: "int option \<Rightarrow> 'w export_request \<Rightarrow> 'w export_request" where "rq_WithEpoch t b = b\<lparr>rq_Epoch := t\<rparr>"
definition rq_WithAnnotation :: "string \<Rightarrow> string \<Rightarrow> 'w export_request \<Rightarrow> 'w export_request" where
  "rq_WithAnnotation key val b = b\<lparr>rq_Annotations := (rq_Annotations b)(key \<mapsto> val)\<rparr>"
definition rq_WithLabel :: "string \<Rightarrow> string \<Rightarrow> 'w export_request \<Rightarrow> 'w export_request" where
  "rq_WithLabel key val b = b\<lparr>rq_Labels := (rq_Labels b)(key \<mapsto> val)\<rparr>"
definition rq_WithReporter :: "'w reporter option \<Rightarrow> 'w export_request \<Rightarrow> 'w export_request" where "rq_WithReporter r b = b\<lparr>rq_Reporter := r\<rparr>"
definition rq_WithStore :: "bool \<Rightarrow> 'w export_request \<Rightarrow> 'w export_request" where "rq_WithStore v b = b\<lparr>rq_Store := v\<rparr>"
definition rq_WithExtraOption :: "string \<Rightarrow> string \<Rightarrow> 'w export_request \<Rightarrow> 'w export_request" where
  "rq_WithExtraOption key val b = b\<lparr>rq_ExtraOptions := (rq_ExtraOptions b)(key \<mapsto> val)\<rparr>"

definition rq_Build :: "'w export_request \<Rightarrow> ex_error + 'w export_request" where
  "rq_Build b = (case rq_Validate b of Some err \<Rightarrow> Inl err | None \<Rightarrow> Inr b)"

section \<open>The registry (registry.go)\<close>

record 'w exporter =
  xp_Type :: string
  xp_Resolve :: "ex_options \<Rightarrow> 'w \<Rightarrow> (ex_error + 'w export_fn) \<times> 'w"

record 'w exporters =
  rg_exporters :: "string \<rightharpoonup> 'w exporter"
  rg_sealed :: bool

definition NewRegistry :: "'w exporters" where
  "NewRegistry = \<lparr>rg_exporters = Map.empty, rg_sealed = False\<rparr>"

definition rg_Register :: "'w exporter option \<Rightarrow> 'w exporters \<Rightarrow> ex_error option \<times> 'w exporters" where
  "rg_Register e r =
     (case e of
        None \<Rightarrow> (Some (XMsg [''registry: cannot register nil exporter'']), r)
      | Some x \<Rightarrow>
          (if xp_Type x = '''' then (Some (XMsg [''registry: exporter has empty Type()'']), r)
           else if rg_sealed r then (Some (XWrap [xp_Type x, ''(registry is sealed after first Resolve)''] (Sentinel ErrAlreadyRegistered)), r)
           else if rg_exporters r (xp_Type x) \<noteq> None then (Some (XWrap [xp_Type x] (Sentinel ErrAlreadyRegistered)), r)
           else (None, r\<lparr>rg_exporters := (rg_exporters r)(xp_Type x \<mapsto> x)\<rparr>)))"

text \<open>The panic of \<open>MustRegister\<close> is \<open>None\<close>.\<close>

definition rg_MustRegister :: "'w exporter option \<Rightarrow> 'w exporters \<Rightarrow> 'w exporters option" where
  "rg_MustRegister e r = (case rg_Register e r of (Some err, r) \<Rightarrow> None | (None, r) \<Rightarrow> Some r)"

definition rg_Get :: "string \<Rightarrow> 'w exporters \<Rightarrow> ex_error + 'w exporter" where
  "rg_Get t r = (case rg_exporters r t of None \<Rightarrow> Inl (XWrap [t] (Sentinel ErrNotRegistered)) | Some e \<Rightarrow> Inr e)"

definition rg_Resolve :: "string \<Rightarrow> ex_options \<Rightarrow> 'w exporters \<times> 'w \<Rightarrow> (ex_error + 'w export_fn) \<times> 'w exporters \<times> 'w" where
  "rg_Resolve t m s =
     (case rg_Get t (fst s) of
        Inl err \<Rightarrow> (Inl err, s)
      | Inr e \<Rightarrow> (case xp_Resolve e m (snd s) of (res, w) \<Rightarrow> (res, (fst s)\<lparr>rg_sealed := True\<rparr>, w)))"

text \<open>
  The insertion sort with its array: \<open>shift key k ts\<close> is the inner loop with \<open>j + 1 = k\<close>, which moves
  the greater elements below \<open>k\<close> up and stores the key.
\<close>

fun shift :: "string \<Rightarrow> nat \<Rightarrow> string list \<Rightarrow> string list" where
  "shift key 0 ts = ts[0 := key]"
| "shift key (Suc j) ts = (if ts ! j > key then shift key j (ts[Suc j := ts ! j]) else ts[Suc j := key])"

definition sortExporterTypes :: "string list \<Rightarrow> string list" where
  "sortExporterTypes ts = fold (\<lambda>i ts. shift (ts ! i) i ts) [1..<length ts] ts"

text \<open>\<open>enum\<close> is the order in which the map is iterated.\<close>

definition rg_Types :: "(string set \<Rightarrow> string list) \<Rightarrow> 'w exporters \<Rightarrow> string list" where
  "rg_Types enum r = sortExporterTypes (enum (dom (rg_exporters r)))"

section \<open>The pipeline (pipeline.go)\<close>

type_synonym 'w ex_middleware = "'w export_fn \<Rightarrow> 'w export_fn"

record 'w ex_pipeline =
  pe_exporter :: "'w export_fn"
  pe_transformers :: "'w transformer list"
  pe_nameIndex :: "string set"
  pe_middlewares :: "'w ex_middleware list"

definition ex_NewPipeline :: "'w export_fn \<Rightarrow> 'w ex_middleware list \<Rightarrow> 'w ex_pipeline" where
  "ex_NewPipeline x ms = \<lparr>pe_exporter = x, pe_transformers = [], pe_nameIndex = {}, pe_middlewares = ms\<rparr>"

text \<open>\<open>sort.SliceStable\<close> is the stable \<open>sort_key\<close>.\<close>

definition AddTransformer :: "'w transformer option \<Rightarrow> 'w ex_pipeline \<Rightarrow> ex_error option \<times> 'w ex_pipeline" where
  "AddTransformer t p =
     (case t of
        None \<Rightarrow> (Some (XMsg [''pipeline: cannot add nil transformer'']), p)
      | Some x \<Rightarrow>
          (if tf_Name x = '''' then (Some (XMsg [''pipeline: transformer must have a non-empty Name()'']), p)
           else if tf_Name x \<in> pe_nameIndex p then (Some (XMsg [''pipeline: transformer already added'', tf_Name x]), p)
           else (None, p\<lparr>pe_nameIndex := insert (tf_Name x) (pe_nameIndex p), pe_transformers := sort_key tf_Priority (pe_transformers p @ [x])\<rparr>)))"

definition MustAddTransformer :: "'w transformer option \<Rightarrow> 'w ex_pipeline \<Rightarrow> 'w ex_pipeline option" where
  "MustAddTransformer t p = (case AddTransformer t p of (Some err, p) \<Rightarrow> None | (None, p) \<Rightarrow> Some p)"

fun run_transformers :: "'w transformer list \<Rightarrow> artifact \<Rightarrow> 'w \<Rightarrow> (ex_error + artifact) \<times> 'w" where
  "run_transformers [] a w = (Inr a, w)"
| "run_transformers (t # ts) a w =
     (case tf_Transform t a w of
        (Inl err, w) \<Rightarrow> (Inl (TransformError (tf_Name t) err), w)
      | (Inr None, w) \<Rightarrow> (Inl (TransformError (tf_Name t) (XMsg [''transformer returned nil artifact''])), w)
      | (Inr (Some a), w) \<Rightarrow> run_transformers ts a w)"

definition Execute :: "'w ex_pipeline \<Rightarrow> 'w export_fn" where
  "Execute p req w =
     (case rq_Validate req of
        Some err \<Rightarrow> (Inl (XWrap [''pipeline execute''] err), w)
      | None \<Rightarrow>
          (case run_transformers (pe_transformers p) (artifact_Clone (the (rq_Artifact req))) w of
             (Inl err, w) \<Rightarrow> (Inl err, w)
           | (Inr a, w) \<Rightarrow> foldr (\<lambda>m f. m f) (pe_middlewares p) (pe_exporter p) (req\<lparr>rq_Artifact := Some a\<rparr>) w))"

subsection \<open>Its builder\<close>

record 'w pipeline_builder =
  pu_exporterType :: string
  pu_opts :: ex_options
  pu_transformers :: "'w transformer option list"
  pu_middlewares :: "'w ex_middleware list"

definition NewPipelineBuilder :: "'w pipeline_builder" where
  "NewPipelineBuilder = \<lparr>pu_exporterType = '''', pu_opts = Map.empty, pu_transformers = [], pu_middlewares = []\<rparr>"

definition ForExporter :: "string \<Rightarrow> ex_options \<Rightarrow> 'w pipeline_builder \<Rightarrow> 'w pipeline_builder" where
  "ForExporter t m b = b\<lparr>pu_exporterType := t, pu_opts := m\<rparr>"

definition pu_WithTransformer :: "'w transformer option \<Rightarrow> 'w pipeline_builder \<Rightarrow> 'w pipeline_builder" where
  "pu_WithTransformer t b = b\<lparr>pu_transformers := pu_transformers b @ [t]\<rparr>"

definition pu_WithMiddleware :: "'w ex_middleware \<Rightarrow> 'w pipeline_builder \<Rightarrow> 'w pipeline_builder" where
  "pu_WithMiddleware m b = b\<lparr>pu_middlewares := pu_middlewares b @ [m]\<rparr>"

fun add_all :: "'w transformer option list \<Rightarrow> 'w ex_pipeline \<Rightarrow> ex_error + 'w ex_pipeline" where
  "add_all [] p = Inr p"
| "add_all (t # ts) p = (case AddTransformer t p of (Some err, p) \<Rightarrow> Inl (XWrap [''PipelineBuilder''] err) | (None, p) \<Rightarrow> add_all ts p)"

definition pu_Build :: "'w pipeline_builder \<Rightarrow> 'w exporters \<times> 'w \<Rightarrow> (ex_error + 'w ex_pipeline) \<times> 'w exporters \<times> 'w" where
  "pu_Build b s =
     (if pu_exporterType b = '''' then (Inl (XMsg [''PipelineBuilder: exporter type must be set via ForExporter()'']), s)
      else case rg_Resolve (pu_exporterType b) (pu_opts b) s of
        (Inl err, s) \<Rightarrow> (Inl (XWrap [''PipelineBuilder''] err), s)
      | (Inr x, s) \<Rightarrow> (add_all (pu_transformers b) (ex_NewPipeline x (pu_middlewares b)), s))"

section \<open>Progress (progress/reporter.go)\<close>

definition Noop_reporter :: "'w reporter" where
  "Noop_reporter = \<lparr>rp_Start = (\<lambda>i l w. w), rp_Update = (\<lambda>i n w. w), rp_Complete = (\<lambda>i e w. w), rp_Close = (\<lambda>w. (None, w))\<rparr>"

text \<open>The running operations of a console, with their labels and starts, and the lines it has written; \<open>now\<close> reads the clock.\<close>

record console_state =
  cs_ops :: "string \<rightharpoonup> string \<times> int"
  cs_lines :: "string list list"

definition NewConsole :: "(console_state \<Rightarrow> int) \<Rightarrow> (int \<Rightarrow> string) \<Rightarrow> (int \<Rightarrow> string) \<Rightarrow> (ex_error \<Rightarrow> string) \<Rightarrow> console_state reporter" where
  "NewConsole now duration itoa err_text =
     \<lparr>rp_Start = (\<lambda>i label s. s\<lparr>cs_ops := (cs_ops s)(i \<mapsto> (label, now s)), cs_lines := cs_lines s @ [[''start'', label]]\<rparr>),
      rp_Update = (\<lambda>i pct s. case cs_ops s i of None \<Rightarrow> s | Some (label, t) \<Rightarrow> s\<lparr>cs_lines := cs_lines s @ [[label, itoa pct]]\<rparr>),
      rp_Complete = (\<lambda>i err s. case cs_ops s i of None \<Rightarrow> s
        | Some (label, t) \<Rightarrow>
            (let elapsed = duration ((now s - t) div 1000000 * 1000000) in
             s\<lparr>cs_lines := cs_lines s @ [case err of Some e \<Rightarrow> [label, ''FAILED'', elapsed, err_text e] | None \<Rightarrow> [label, ''done'', elapsed]],
               cs_ops := (cs_ops s)(i := None)\<rparr>)),
      rp_Close = (\<lambda>s. (None, s))\<rparr>"

datatype progress_event = PStart string string | PUpdate string int | PComplete string "ex_error option"

definition CapturingReporter :: "progress_event list reporter" where
  "CapturingReporter = \<lparr>rp_Start = (\<lambda>i label es. es @ [PStart i label]), rp_Update = (\<lambda>i pct es. es @ [PUpdate i pct]),
     rp_Complete = (\<lambda>i err es. es @ [PComplete i err]), rp_Close = (\<lambda>es. (None, es))\<rparr>"

definition StartedIDs :: "progress_event list \<Rightarrow> string list" where
  "StartedIDs es = concat (map (\<lambda>e. case e of PStart i label \<Rightarrow> [i] | _ \<Rightarrow> []) es)"

definition CompletedWithError :: "progress_event list \<Rightarrow> bool" where
  "CompletedWithError es \<longleftrightarrow> list_ex (\<lambda>e. case e of PComplete i (Some err) \<Rightarrow> True | _ \<Rightarrow> False) es"

section \<open>Facts\<close>

subsection \<open>The insertion sort\<close>

lemma insort_append_greater: "key < y \<Longrightarrow> insort key (xs @ [y]) = insort key xs @ [y]"
  by (induction xs) auto

lemma insort_append_last: "sorted xs \<Longrightarrow> \<forall>x \<in> set xs. x \<le> key \<Longrightarrow> insort key xs = xs @ [key]"
  using properties_for_sort [of "xs @ [key]" "key # xs"] by (simp add: sorted_append sorted_sort_id)

lemma shift_insort:
  "k < length ts \<Longrightarrow> sorted (take k ts) \<Longrightarrow> shift key k ts = insort key (take k ts) @ drop (Suc k) ts"
proof (induction k arbitrary: ts)
  case 0
  then show ?case by (cases ts) auto
next
  case (Suc j)
  have t: "take (Suc j) ts = take j ts @ [ts ! j]" using Suc.prems(1) by (simp add: take_Suc_conv_app_nth)
  then have s: "sorted (take j ts)" "\<forall>x \<in> set (take j ts). x \<le> ts ! j" using Suc.prems(2) by (simp_all add: sorted_append)
  show ?case
  proof (cases "ts ! j > key")
    case True
    have "shift key j (ts[Suc j := ts ! j]) = insort key (take j ts) @ drop (Suc j) (ts[Suc j := ts ! j])"
      using Suc.IH [of "ts[Suc j := ts ! j]"] Suc.prems(1) s(1) by simp
    also have "drop (Suc j) (ts[Suc j := ts ! j]) = ts ! j # drop (Suc (Suc j)) ts"
      using Suc.prems(1) Cons_nth_drop_Suc [of "Suc j" "ts[Suc j := ts ! j]"] by simp
    finally show ?thesis using True t insort_append_greater [of key "ts ! j" "take j ts"] by simp
  next
    case False
    then have "insort key (take (Suc j) ts) = take (Suc j) ts @ [key]"
      using insort_append_last [OF Suc.prems(2), of key] s(2) t by (auto simp: not_less intro: order_trans)
    then show ?thesis using False Suc.prems(1) by (simp add: upd_conv_take_nth_drop)
  qed
qed

lemma sort_loop: "n \<le> length ts \<Longrightarrow> 0 < n \<Longrightarrow> fold (\<lambda>i ts. shift (ts ! i) i ts) [1..<n] ts = sort (take n ts) @ drop n ts"
proof (induction n)
  case (Suc n)
  show ?case
  proof (cases "n = 0")
    case True
    then show ?thesis using Suc.prems by (cases ts) auto
  next
    case False
    let ?us = "sort (take n ts) @ drop n ts"
    have u: "fold (\<lambda>i ts. shift (ts ! i) i ts) [1..<n] ts = ?us" using Suc False by simp
    have n: "?us ! n = ts ! n" "take n ?us = sort (take n ts)" "drop (Suc n) ?us = drop (Suc n) ts"
      using Suc.prems(1) by (simp_all add: nth_append)
    have "shift (?us ! n) n ?us = insort (ts ! n) (sort (take n ts)) @ drop (Suc n) ts"
      using shift_insort [of n ?us "?us ! n"] n Suc.prems(1) by simp
    also have "insort (ts ! n) (sort (take n ts)) = sort (take (Suc n) ts)"
      using properties_for_sort [of "insort (ts ! n) (sort (take n ts))" "take (Suc n) ts"] Suc.prems(1) by (simp add: take_Suc_conv_app_nth sorted_insort)
    finally show ?thesis using u False by simp
  qed
qed simp

lemma sortExporterTypes_sort: "sortExporterTypes ts = sort ts"
  using sort_loop [of "length ts" ts] by (cases ts) (simp_all add: sortExporterTypes_def)

interpretation exporter_types: slice_sort "\<lambda>t :: string. t" sortExporterTypes
  by unfold_locales (simp_all add: sortExporterTypes_sort)

subsection \<open>Transformers in their order\<close>

lemma sort_key_again: "sort_key f (sort_key f xs @ ys) = sort_key f (xs @ ys)"
proof (rule properties_for_sort_key)
  have "filter (\<lambda>x. f k = f x) (sort_key f zs) = filter (\<lambda>x. f k = f x) zs" for k zs
    using sort_key_stable [of f "f k" zs] by (simp add: eq_commute)
  then show "filter (\<lambda>x. f k = f x) (sort_key f (xs @ ys)) = filter (\<lambda>x. f k = f x) (sort_key f xs @ ys)" for k by simp
qed simp_all

lemma AddTransformer_ok:
  "AddTransformer (Some t) p = (None, p') \<longleftrightarrow> tf_Name t \<noteq> '''' \<and> tf_Name t \<notin> pe_nameIndex p \<and>
     p' = p\<lparr>pe_nameIndex := insert (tf_Name t) (pe_nameIndex p), pe_transformers := sort_key tf_Priority (pe_transformers p @ [t])\<rparr>"
  by (auto simp: AddTransformer_def)

lemma add_all_ok:
  "add_all (map Some ts) p = Inr p' \<Longrightarrow>
   pe_transformers p' = sort_key tf_Priority (pe_transformers p @ ts) \<or> ts = [] \<and> p' = p"
proof (induction ts arbitrary: p)
  case (Cons t ts)
  obtain p1 where p1: "AddTransformer (Some t) p = (None, p1)" "add_all (map Some ts) p1 = Inr p'"
    using Cons.prems by (auto split: prod.splits option.splits)
  have "pe_transformers p1 = sort_key tf_Priority (pe_transformers p @ [t])" using p1(1) by (simp add: AddTransformer_ok)
  then show ?case using Cons.IH [OF p1(2)] sort_key_again [of tf_Priority "pe_transformers p @ [t]" ts] by auto
qed simp

lemma add_all_frame:
  "add_all ts p = Inr p' \<Longrightarrow> pe_exporter p' = pe_exporter p \<and> pe_middlewares p' = pe_middlewares p"
  by (induction ts arbitrary: p) (auto simp: AddTransformer_def split: prod.splits option.splits if_splits)

section \<open>Properties\<close>

text \<open>
  \<open>Types\<close> lists the registered types in increasing order, each once, whatever the order in which the
  map is iterated: the insertion sort of the array sorts.
\<close>

theorem Types_lists_in_order:
  assumes "\<And>A. finite A \<Longrightarrow> set (enum A) = A \<and> distinct (enum A)" "finite (dom (rg_exporters r))"
  shows "rg_Types enum r = sorted_list_of_set (dom (rg_exporters r))"
proof -
  have "set (enum (dom (rg_exporters r))) = dom (rg_exporters r)" "distinct (enum (dom (rg_exporters r)))" using assms by blast+
  then have "sort (enum (dom (rg_exporters r))) = sorted_list_of_set (dom (rg_exporters r))"
    using sorted_list_of_set_sort_remdups [of "enum (dom (rg_exporters r))"] by (simp add: distinct_remdups_id)
  then show ?thesis by (simp add: rg_Types_def sortExporterTypes_sort)
qed

theorem Types_lists_in_order_witness:
  "rg_Types sorted_list_of_set ((NewRegistry :: nat exporters)\<lparr>rg_exporters := [''oci'' \<mapsto> x, ''local'' \<mapsto> y]\<rparr>) =
   sorted_list_of_set (dom (rg_exporters ((NewRegistry :: nat exporters)\<lparr>rg_exporters := [''oci'' \<mapsto> x, ''local'' \<mapsto> y]\<rparr>)))"
  by (rule Types_lists_in_order) (simp_all add: NewRegistry_def)

text \<open>The transformers \<open>ts\<close>, one after the other, make the artifact \<open>b\<close> and the world \<open>w2\<close> of \<open>a\<close> and \<open>w\<close>, without a failure.\<close>

inductive hands_on :: "'w transformer list \<Rightarrow> artifact \<Rightarrow> 'w \<Rightarrow> artifact \<Rightarrow> 'w \<Rightarrow> bool" where
  none: "hands_on [] a w a w"
| more: "tf_Transform t a w = (Inr (Some a1), w1) \<Longrightarrow> hands_on ts a1 w1 b w2 \<Longrightarrow> hands_on (t # ts) a w b w2"

inductive_simps hands_on_simps [simp]: "hands_on [] a w b w2" "hands_on (t # ts) a w b w2"

text \<open>The first of the transformers that fails is \<open>t\<close>, on the artifact \<open>b\<close>; \<open>err\<close> is its error and \<open>w2\<close> the world it leaves.\<close>

inductive first_failure :: "'w transformer list \<Rightarrow> artifact \<Rightarrow> 'w \<Rightarrow> 'w transformer \<Rightarrow> ex_error \<Rightarrow> 'w \<Rightarrow> bool" where
  fails: "hands_on ts1 a w b w1 \<Longrightarrow> tf_Transform t b w1 = (Inl err, w2) \<Longrightarrow> first_failure (ts1 @ t # ts2) a w t err w2"
| no_artifact: "hands_on ts1 a w b w1 \<Longrightarrow> tf_Transform t b w1 = (Inr None, w2) \<Longrightarrow>
    first_failure (ts1 @ t # ts2) a w t (XMsg [''transformer returned nil artifact'']) w2"

lemma first_failure_later:
  assumes "tf_Transform t a w = (Inr (Some a1), w1)" "first_failure ts a1 w1 u err w2"
  shows "first_failure (t # ts) a w u err w2"
  using assms(2,1)
proof cases
  case (fails ts1 b w1' ts2)
  then show ?thesis using assms(1) first_failure.fails [of "t # ts1" a w b w1' u err w2 ts2] by simp
next
  case (no_artifact ts1 b w1' ts2)
  then show ?thesis using assms(1) first_failure.no_artifact [of "t # ts1" a w b w1' u w2 ts2] by simp
qed

lemma run_transformers_trace:
  "(\<exists>b w2. hands_on ts a w b w2 \<and> run_transformers ts a w = (Inr b, w2)) \<or>
   (\<exists>t err w2. first_failure ts a w t err w2 \<and> run_transformers ts a w = (Inl (TransformError (tf_Name t) err), w2))"
proof (induction ts arbitrary: a w)
  case (Cons t ts)
  obtain r w1 where t: "tf_Transform t a w = (r, w1)" by fastforce
  consider err where "r = Inl err" | "r = Inr None" | a1 where "r = Inr (Some a1)" by (metis not_None_eq obj_sumE)
  then show ?case
  proof cases
    case 1
    then show ?thesis using t first_failure.fails [of "[]" a w a w t _ w1 ts] by auto
  next
    case 2
    then show ?thesis using t first_failure.no_artifact [of "[]" a w a w t w1 ts] by auto
  next
    case 3
    then have run: "run_transformers (t # ts) a w = run_transformers ts a1 w1" using t by simp
    from Cons.IH [of a1 w1] show ?thesis
    proof (elim disjE exE conjE)
      fix u err w2 assume "first_failure ts a1 w1 u err w2" "run_transformers ts a1 w1 = (Inl (TransformError (tf_Name u) err), w2)"
      then show ?thesis using first_failure_later [of t a w a1 w1 ts] t 3 unfolding run by blast
    qed (use t 3 run in auto)
  qed
qed simp
text \<open>
  C40: executing a pipeline runs the added transformers in the order of their priorities, those of one
  priority in the order of their addition, each on the artifact of the one before. Either all of them
  return artifacts, and the exporter runs inside the middlewares, the first of them outermost, on the
  request with the last artifact; or the first of them that fails or returns no artifact ends the run
  in the world it leaves, so that neither a later transformer nor the exporter is called, and the error
  names it and is a failed transformation.
\<close>

theorem Execute_by_priority:
  assumes "add_all (map Some ts) (ex_NewPipeline x ms) = Inr p" "rq_Validate req = None" "rq_Artifact req = Some a"
  shows "(\<exists>b w2. hands_on (sort_key tf_Priority ts) a w b w2 \<and>
       Execute p req w = foldr (\<lambda>m f. m f) ms x (req\<lparr>rq_Artifact := Some b\<rparr>) w2) \<or>
     (\<exists>t err w2. first_failure (sort_key tf_Priority ts) a w t err w2 \<and>
       Execute p req w = (Inl (TransformError (tf_Name t) err), w2) \<and> ex_Is (TransformError (tf_Name t) err) ErrTransformFailed)"
proof -
  have "pe_transformers p = sort_key tf_Priority ts" using add_all_ok [OF assms(1)] by (auto simp: ex_NewPipeline_def)
  moreover have "pe_exporter p = x" "pe_middlewares p = ms" using add_all_frame [OF assms(1)] by (simp_all add: ex_NewPipeline_def)
  ultimately have run: "Execute p req w = (case run_transformers (sort_key tf_Priority ts) a w of
      (Inl err, w) \<Rightarrow> (Inl err, w) | (Inr b, w) \<Rightarrow> foldr (\<lambda>m f. m f) ms x (req\<lparr>rq_Artifact := Some b\<rparr>) w)"
    by (simp only: Execute_def assms(2,3) option.case option.sel artifact_Clone_id)
  from run_transformers_trace [of "sort_key tf_Priority ts" a w] show ?thesis
  proof (elim disjE exE conjE)
    fix b w2 assume "hands_on (sort_key tf_Priority ts) a w b w2" "run_transformers (sort_key tf_Priority ts) a w = (Inr b, w2)"
    then show ?thesis unfolding run by (intro disjI1 exI conjI) simp_all
  next
    fix t err w2
    assume "first_failure (sort_key tf_Priority ts) a w t err w2" "run_transformers (sort_key tf_Priority ts) a w = (Inl (TransformError (tf_Name t) err), w2)"
    then show ?thesis unfolding run by (intro disjI2 exI conjI) simp_all
  qed
qed
text \<open>Two transformers that only record their names, added in the order opposite to their priorities.\<close>

definition recording :: "string \<Rightarrow> int \<Rightarrow> string list transformer" where
  "recording name priority = \<lparr>tf_Name = name, tf_Priority = priority, tf_Transform = (\<lambda>a w. (Inr (Some a), w @ [name]))\<rparr>"

definition recording_export :: "string list export_fn" where
  "recording_export req w = (Inl (Sentinel ErrExportAborted), w @ [''export''])"

definition recording_request :: "string list export_request" where
  "recording_request = rq_WithSessionID ''s'' (rq_WithArtifact (Some \<lparr>ar_Kind = '''', ar_Platforms = [], ar_Layers = [], ar_Config = [],
     ar_Attestations = [], ar_Annotations = Map.empty, ar_Labels = Map.empty, ar_Metadata = Map.empty\<rparr>)
     (rq_WithReporter (Some \<lparr>rp_Start = (\<lambda>i l w. w), rp_Update = (\<lambda>i n w. w), rp_Complete = (\<lambda>i e w. w), rp_Close = (\<lambda>w. (None, w))\<rparr>) NewExportRequest))"

theorem Execute_by_priority_witness:
  "\<exists>p. add_all (map Some [recording ''b'' 5, recording ''a'' 1]) (ex_NewPipeline recording_export [\<lambda>f req w. f req (w @ [''outer'']), \<lambda>f req w. f req (w @ [''inner''])]) = Inr p \<and>
     Execute p recording_request [] = (Inl (Sentinel ErrExportAborted), [''a'', ''b'', ''outer'', ''inner'', ''export''])"
proof -
  let ?ts = "[recording ''b'' 5, recording ''a'' 1]"
  let ?ms = "[\<lambda>f req w. f req (w @ [''outer'']), \<lambda>f req w. f req (w @ [''inner''])]"
  have v: "rq_Validate recording_request = None"
    by (simp add: recording_request_def rq_Validate_def rq_WithSessionID_def rq_WithArtifact_def rq_WithReporter_def NewExportRequest_def)
  have "\<exists>p. add_all (map Some ?ts) (ex_NewPipeline recording_export ?ms) = Inr p"
    by (simp add: AddTransformer_def ex_NewPipeline_def recording_def)
  then obtain p where p: "add_all (map Some ?ts) (ex_NewPipeline recording_export ?ms) = Inr p" by blast
  have s: "sort_key tf_Priority ?ts = [recording ''a'' 1, recording ''b'' 5]" by (simp add: recording_def)
  obtain a where a: "rq_Artifact recording_request = Some a"
    by (simp add: recording_request_def rq_WithSessionID_def rq_WithArtifact_def rq_WithReporter_def)
  have ok: "tf_Transform u b w1 = (Inr (Some b), w1 @ [tf_Name u])" if "u \<in> set (sort_key tf_Priority ?ts)" for u b w1
    using that by (auto simp: recording_def)
  have "\<not> first_failure (sort_key tf_Priority ?ts) a [] u err w2" for u err w2
    by (auto elim!: first_failure.cases dest!: arg_cong [where f = set] simp: ok)
  then obtain b w2 where h: "hands_on (sort_key tf_Priority ?ts) a [] b w2"
    "Execute p recording_request [] = foldr (\<lambda>m f. m f) ?ms recording_export (recording_request\<lparr>rq_Artifact := Some b\<rparr>) w2"
    using Execute_by_priority [OF p v a, of "[]"] by blast
  have "w2 = [''a'', ''b'']" using h(1) unfolding s by (simp add: recording_def)
  then show ?thesis using p h(2) by (simp add: recording_export_def)
qed
subsection \<open>Registration\<close>

datatype 'w registry_call = CallRegister "'w exporter option" | CallResolve string ex_options

fun registry_do :: "'w registry_call \<Rightarrow> 'w exporters \<times> 'w \<Rightarrow> 'w exporters \<times> 'w" where
  "registry_do (CallRegister e) s = (snd (rg_Register e (fst s)), snd s)"
| "registry_do (CallResolve t m) s = snd (rg_Resolve t m s)"

lemma registry_do_keeps:
  "rg_exporters (fst s) \<subseteq>\<^sub>m rg_exporters (fst (registry_do c s)) \<and>
   (rg_sealed (fst s) \<longrightarrow> rg_sealed (fst (registry_do c s)) \<and> rg_exporters (fst (registry_do c s)) = rg_exporters (fst s))"
  by (cases c) (auto simp: rg_Register_def rg_Resolve_def map_le_def split: option.split sum.split prod.split)

lemma registry_dos_keep:
  "rg_exporters (fst s) \<subseteq>\<^sub>m rg_exporters (fst (fold registry_do cs s)) \<and>
   (rg_sealed (fst s) \<longrightarrow> rg_exporters (fst (fold registry_do cs s)) = rg_exporters (fst s))"
proof (induction cs arbitrary: s)
  case (Cons c cs)
  then show ?case using registry_do_keeps [of s c] map_le_trans by (metis fold_simps(2))
qed simp

text \<open>
  The registry only grows, and a resolution of a registered type ends its growth: over any calls a
  registered type keeps its exporter, and after the resolution, whether the exporter accepts the
  options or not, the set of exporters stays as it is.
\<close>

theorem Resolve_seals_registry:
  assumes "rg_Get t r = Inr e"
  shows "rg_Get t (fst (fold registry_do cs (r, w))) = Inr e \<and>
     rg_exporters (fst (fold registry_do cs (snd (rg_Resolve t m (r, w))))) = rg_exporters r"
proof -
  have e: "rg_exporters r t = Some e" using assms by (simp add: rg_Get_def split: option.splits)
  then have "rg_exporters (fst (fold registry_do cs (r, w))) t = Some e"
    using registry_dos_keep [of "(r, w)" cs] by (metis domI fst_conv map_le_def)
  moreover have "rg_sealed (fst (snd (rg_Resolve t m (r, w))))" "rg_exporters (fst (snd (rg_Resolve t m (r, w)))) = rg_exporters r"
    using assms by (simp_all add: rg_Resolve_def split: prod.split)
  ultimately show ?thesis using registry_dos_keep [of "snd (rg_Resolve t m (r, w))" cs] by (simp add: rg_Get_def)
qed

definition plain_exporter :: "string \<Rightarrow> nat exporter" where
  "plain_exporter t = \<lparr>xp_Type = t, xp_Resolve = (\<lambda>m w. (Inl (XMsg [''no'']), w))\<rparr>"

theorem Resolve_seals_registry_witness:
  "rg_Get ''oci'' (fst (fold registry_do [CallRegister (Some (plain_exporter ''tar''))] (\<lparr>rg_exporters = [''oci'' \<mapsto> plain_exporter ''oci''], rg_sealed = False\<rparr>, 0))) =
     Inr (plain_exporter ''oci'') \<and>
   rg_exporters (fst (fold registry_do [CallRegister (Some (plain_exporter ''tar''))]
     (snd (rg_Resolve ''oci'' Map.empty (\<lparr>rg_exporters = [''oci'' \<mapsto> plain_exporter ''oci''], rg_sealed = False\<rparr>, 0))))) =
   rg_exporters \<lparr>rg_exporters = [''oci'' \<mapsto> plain_exporter ''oci''], rg_sealed = False\<rparr>"
  by (rule Resolve_seals_registry) (simp add: rg_Get_def)

text \<open>
  The textual form of a digest is read back as the digest, when neither of its parts is empty and
  its algorithm holds no colon.
\<close>

theorem ParseDigest_String:
  assumes "dg_Algorithm d \<noteq> ''''" "dg_Hex d \<noteq> ''''" "CHR '':'' \<notin> set (dg_Algorithm d)"
  shows "ex_ParseDigest (ex_digest_String d) = Inr d"
proof -
  have "SplitN 2 '':'' (dg_Algorithm d @ '':'' @ dg_Hex d) = [dg_Algorithm d, dg_Hex d]"
    using cut_at_char [of "CHR '':''" "dg_Algorithm d" "dg_Hex d"] assms(3) by (simp add: numeral_2_eq_2)
  then show ?thesis using assms by (simp add: ex_ParseDigest_def ex_digest_String_def)
qed

theorem ParseDigest_String_witness:
  "ex_ParseDigest (ex_digest_String \<lparr>dg_Algorithm = ''sha256'', dg_Hex = ''ab''\<rparr>) = Inr \<lparr>dg_Algorithm = ''sha256'', dg_Hex = ''ab''\<rparr>"
  by (rule ParseDigest_String) simp_all

end
