(* ===== verification/Ex_Transform.thy ===== *)
theory Ex_Transform
  imports Ex_Core
begin

text \<open>
  The transformers of the exporters (\<open>plugins/exporter/transform\<close>): chains (\<open>chain.go\<close>), the epoch
  transformer that clamps timestamps (\<open>epoch.go\<close>), the filter of attestations (\<open>attestation.go\<close>) and the
  injection of annotations (\<open>annotation.go\<close>). The clock, the format of a point in time and the order in
  which a map is iterated are arguments. Numbers in text are read and written as \<open>strconv\<close> does.
  Points in time are integers of nanoseconds without bound; \<open>time.Time\<close> wraps around beyond 292 thousand
  million years.
\<close>

section \<open>Numbers in text\<close>

definition string_of_bytes :: "bytes \<Rightarrow> string" where
  "string_of_bytes bs = map (\<lambda>b. char_of (unat b)) bs"

definition is_digit :: "char \<Rightarrow> bool" where
  "is_digit c \<longleftrightarrow> (48 :: nat) \<le> of_char c \<and> of_char c \<le> (57 :: nat)"

definition nat_of_digits :: "string \<Rightarrow> nat" where
  "nat_of_digits s = foldl (\<lambda>n c. 10 * n + (of_char c - 48)) 0 s"

text \<open>\<open>strconv.ParseInt(s, 10, 64)\<close>, with \<open>None\<close> for its errors, and \<open>strconv.FormatInt(n, 10)\<close>.\<close>

definition ParseInt :: "string \<Rightarrow> int option" where
  "ParseInt s =
     (let neg = (s \<noteq> [] \<and> hd s = CHR ''-''); ds = (if s \<noteq> [] \<and> (hd s = CHR ''-'' \<or> hd s = CHR ''+'') then tl s else s) in
      if ds = [] \<or> \<not> list_all is_digit ds then None
      else let n = (if neg then - int (nat_of_digits ds) else int (nat_of_digits ds)) in
        if - (2 ^ 63) \<le> n \<and> n < 2 ^ 63 then Some n else None)"

definition FormatInt :: "int \<Rightarrow> string" where
  "FormatInt n = (if n < 0 then CHR ''-'' # dec (nat (- n)) else dec (nat n))"

section \<open>Chains (chain.go)\<close>

definition PriorityEarliest :: int where "PriorityEarliest = 0"
definition PriorityPreProcess :: int where "PriorityPreProcess = 100"
definition PriorityCore :: int where "PriorityCore = 200"
definition PriorityAttestation :: int where "PriorityAttestation = 300"
definition PriorityAnnotation :: int where "PriorityAnnotation = 400"
definition PriorityLatest :: int where "PriorityLatest = 900"

definition NewFuncTransformer :: "string \<Rightarrow> int \<Rightarrow> (artifact \<Rightarrow> 'w \<Rightarrow> (ex_error + artifact option) \<times> 'w) \<Rightarrow> 'w transformer" where
  "NewFuncTransformer name priority fn = \<lparr>tf_Name = name, tf_Priority = priority, tf_Transform = fn\<rparr>"

record 'w transformer_chain =
  hn_name :: string
  hn_priority :: int
  hn_children :: "'w transformer list"
  hn_index :: "string set"

definition NewChain :: "string \<Rightarrow> int \<Rightarrow> 'w transformer_chain" where
  "NewChain name priority = \<lparr>hn_name = name, hn_priority = priority, hn_children = [], hn_index = {}\<rparr>"

definition chain_Add :: "'w transformer option \<Rightarrow> 'w transformer_chain \<Rightarrow> ex_error option \<times> 'w transformer_chain" where
  "chain_Add t c =
     (case t of
        None \<Rightarrow> (Some (XMsg [''chain'', hn_name c, ''cannot add nil transformer'']), c)
      | Some x \<Rightarrow>
          (if tf_Name x \<in> hn_index c then (Some (XMsg [''chain'', hn_name c, ''transformer already present'', tf_Name x]), c)
           else (None, c\<lparr>hn_index := insert (tf_Name x) (hn_index c), hn_children := sort_key tf_Priority (hn_children c @ [x])\<rparr>)))"

definition chain_MustAdd :: "'w transformer option \<Rightarrow> 'w transformer_chain \<Rightarrow> 'w transformer_chain option" where
  "chain_MustAdd t c = (case chain_Add t c of (Some err, c) \<Rightarrow> None | (None, c) \<Rightarrow> Some c)"

fun run_children :: "string \<Rightarrow> 'w transformer list \<Rightarrow> artifact \<Rightarrow> 'w \<Rightarrow> (ex_error + artifact option) \<times> 'w" where
  "run_children name [] current w = (Inr (Some current), w)"
| "run_children name (child # children) current w =
     (case tf_Transform child current w of
        (Inl err, w) \<Rightarrow> (Inl (TransformError (tf_Name child) err), w)
      | (Inr None, w) \<Rightarrow> (Inl (XMsg [''chain'', name, ''child returned nil artifact'', tf_Name child]), w)
      | (Inr (Some current), w) \<Rightarrow> run_children name children current w)"

definition chain_Transform :: "'w transformer_chain \<Rightarrow> artifact \<Rightarrow> 'w \<Rightarrow> (ex_error + artifact option) \<times> 'w" where
  "chain_Transform c = run_children (hn_name c) (hn_children c)"

text \<open>A chain is a transformer.\<close>

definition chain_transformer :: "'w transformer_chain \<Rightarrow> 'w transformer" where
  "chain_transformer c = \<lparr>tf_Name = hn_name c, tf_Priority = hn_priority c, tf_Transform = chain_Transform c\<rparr>"

section \<open>The epoch (epoch.go)\<close>

definition MetaKeySourceDateEpoch :: string where "MetaKeySourceDateEpoch = ''source.date.epoch''"
definition MetaKeyEpochApplied :: string where "MetaKeyEpochApplied = ''exporter.epoch.applied''"

definition second :: int where "second = 1000000000"

definition resolveEpoch :: "artifact \<Rightarrow> ex_error + int option" where
  "resolveEpoch a =
     (case ar_Metadata a MetaKeySourceDateEpoch of
        None \<Rightarrow> Inr None
      | Some raw \<Rightarrow>
          (if raw = [] then Inr None
           else case ParseInt (string_of_bytes raw) of
             None \<Rightarrow> Inl (ValidationError MetaKeySourceDateEpoch (''must be a Unix second integer, got: '' @ string_of_bytes raw))
           | Some secs \<Rightarrow> Inr (Some (secs * second))))"

definition clamp_layer :: "int \<Rightarrow> ex_layer \<Rightarrow> ex_layer" where
  "clamp_layer epoch l =
     (case la_History l of
        None \<Rightarrow> l
      | Some h \<Rightarrow>
          (if lh_CreatedAt h = None \<or> the (lh_CreatedAt h) > epoch then l\<lparr>la_History := Some (h\<lparr>lh_CreatedAt := Some epoch\<rparr>)\<rparr> else l))"

definition apply_epoch :: "int \<Rightarrow> artifact \<Rightarrow> artifact" where
  "apply_epoch epoch a =
     (let clone = artifact_Clone a in
      clone\<lparr>ar_Layers := map (clamp_layer epoch) (ar_Layers clone),
        ar_Metadata := (ar_Metadata clone)(MetaKeyEpochApplied \<mapsto> bytes_of_string ''true'',
          MetaKeySourceDateEpoch \<mapsto> bytes_of_string (FormatInt (epoch div second)))\<rparr>)"

definition epoch_Transform :: "int \<Rightarrow> bool \<Rightarrow> artifact \<Rightarrow> ex_error + artifact" where
  "epoch_Transform now fallbackToNow a =
     (case resolveEpoch a of
        Inl err \<Rightarrow> Inl err
      | Inr (Some epoch) \<Rightarrow> Inr (apply_epoch epoch a)
      | Inr None \<Rightarrow> (if \<not> fallbackToNow then Inr a else Inr (apply_epoch now a)))"

section \<open>Attestations (attestation.go)\<close>

definition AttestationKindBundle :: string where "AttestationKindBundle = ''bundle''"

record attestation_opts =
  ao_AllowedKinds :: "string set"
  ao_DeniedPredicateTypes :: "string list"
  ao_RequirePayload :: bool
  ao_DeduplicateByPath :: bool

definition no_attestation_opts :: attestation_opts where
  "no_attestation_opts = \<lparr>ao_AllowedKinds = {}, ao_DeniedPredicateTypes = [], ao_RequirePayload = False, ao_DeduplicateByPath = False\<rparr>"

definition WithAllowedKinds :: "string list \<Rightarrow> attestation_opts \<Rightarrow> attestation_opts" where
  "WithAllowedKinds kinds c = c\<lparr>ao_AllowedKinds := set kinds\<rparr>"

definition WithDeniedPredicateType :: "string \<Rightarrow> attestation_opts \<Rightarrow> attestation_opts" where
  "WithDeniedPredicateType prefix c = c\<lparr>ao_DeniedPredicateTypes := ao_DeniedPredicateTypes c @ [prefix]\<rparr>"

definition WithRequirePayload :: "bool \<Rightarrow> attestation_opts \<Rightarrow> attestation_opts" where
  "WithRequirePayload v c = c\<lparr>ao_RequirePayload := v\<rparr>"

definition WithDeduplicateByPath :: "bool \<Rightarrow> attestation_opts \<Rightarrow> attestation_opts" where
  "WithDeduplicateByPath v c = c\<lparr>ao_DeduplicateByPath := v\<rparr>"

definition att_validate :: "attestation_opts \<Rightarrow> attestation_record \<Rightarrow> ex_error option" where
  "att_validate c r =
     (if at_Path r = '''' \<and> at_Kind r \<noteq> AttestationKindBundle then Some (XMsg [''attestation has empty path'', at_Kind r])
      else if ao_RequirePayload c \<and> TrimSpace (string_of_bytes (at_Payload r)) = '''' then Some (XMsg [''attestation has empty payload'', at_Path r])
      else None)"

definition allowKind :: "attestation_opts \<Rightarrow> string \<Rightarrow> bool" where
  "allowKind c k \<longleftrightarrow> ao_AllowedKinds c = {} \<or> k \<in> ao_AllowedKinds c"

definition denyPredicate :: "attestation_opts \<Rightarrow> string \<Rightarrow> bool" where
  "denyPredicate c pt \<longleftrightarrow> list_ex (\<lambda>prefix. length pt \<ge> length prefix \<and> take (length prefix) pt = prefix) (ao_DeniedPredicateTypes c)"

fun keep_attestations :: "attestation_opts \<Rightarrow> string set \<Rightarrow> attestation_record list \<Rightarrow> ex_error + attestation_record list" where
  "keep_attestations c seen [] = Inr []"
| "keep_attestations c seen (r # rs) =
     (case att_validate c r of
        Some err \<Rightarrow> Inl err
      | None \<Rightarrow>
          (if \<not> allowKind c (at_Kind r) \<or> denyPredicate c (at_PredicateType r) \<or> ao_DeduplicateByPath c \<and> at_Path r \<in> seen then keep_attestations c seen rs
           else case keep_attestations c (if ao_DeduplicateByPath c then insert (at_Path r) seen else seen) rs of
             Inl err \<Rightarrow> Inl err
           | Inr kept \<Rightarrow> Inr (attestation_Clone r # kept)))"

definition attestation_Transform :: "attestation_opts \<Rightarrow> artifact \<Rightarrow> ex_error + artifact" where
  "attestation_Transform c a =
     (if ar_Attestations a = [] then Inr a
      else case keep_attestations c {} (ar_Attestations a) of
        Inl err \<Rightarrow> Inl err
      | Inr kept \<Rightarrow> Inr ((artifact_Clone a)\<lparr>ar_Attestations := kept\<rparr>))"

section \<open>Annotations (annotation.go)\<close>

definition AnnotationCreated :: string where "AnnotationCreated = ''org.opencontainers.image.created''"

text \<open>\<open>MergeStrategy\<close> is an integer; \<open>MergeStrategyOther\<close> stands for the values without a name.\<close>

datatype merge_strategy = MergeStrategyOverwrite | MergeStrategyPreserve | MergeStrategyError | MergeStrategyOther int

record annotation_opts =
  no_StaticAnnotations :: "string \<rightharpoonup> string"
  no_InjectCreatedAt :: bool
  no_Strategy :: merge_strategy
  no_AllowedPrefixes :: "string list"

definition default_annotation_opts :: annotation_opts where
  "default_annotation_opts = \<lparr>no_StaticAnnotations = Map.empty, no_InjectCreatedAt = False, no_Strategy = MergeStrategyOverwrite, no_AllowedPrefixes = []\<rparr>"

definition WithStaticAnnotation :: "string \<Rightarrow> string \<Rightarrow> annotation_opts \<Rightarrow> annotation_opts" where
  "WithStaticAnnotation key val c = c\<lparr>no_StaticAnnotations := (no_StaticAnnotations c)(key \<mapsto> val)\<rparr>"

definition WithInjectCreatedAt :: "bool \<Rightarrow> annotation_opts \<Rightarrow> annotation_opts" where
  "WithInjectCreatedAt v c = c\<lparr>no_InjectCreatedAt := v\<rparr>"

definition WithMergeStrategy :: "merge_strategy \<Rightarrow> annotation_opts \<Rightarrow> annotation_opts" where
  "WithMergeStrategy s c = c\<lparr>no_Strategy := s\<rparr>"

definition WithAllowedAnnotationPrefix :: "string \<Rightarrow> annotation_opts \<Rightarrow> annotation_opts" where
  "WithAllowedAnnotationPrefix prefix c = c\<lparr>no_AllowedPrefixes := no_AllowedPrefixes c @ [prefix]\<rparr>"

text \<open>The arithmetic of \<open>int64\<close> wraps around.\<close>

definition wrap64 :: "int \<Rightarrow> int" where
  "wrap64 n = (n + 2 ^ 63) mod 2 ^ 64 - 2 ^ 63"

fun parseUnixSecs :: "string \<Rightarrow> int \<Rightarrow> int" where
  "parseUnixSecs [] n = n"
| "parseUnixSecs (c # s) n = (if \<not> is_digit c then -1 else parseUnixSecs s (wrap64 (wrap64 (n * 10) + int (of_char c - 48))))"

definition resolveCreatedAt :: "int \<Rightarrow> artifact \<Rightarrow> int" where
  "resolveCreatedAt now a =
     (let secs = (case ar_Metadata a MetaKeySourceDateEpoch of None \<Rightarrow> 0 | Some raw \<Rightarrow> if raw = [] then 0 else parseUnixSecs (string_of_bytes raw) 0) in
      if secs > 0 then secs * second
      else case List.map_filter (\<lambda>l. Option.bind (la_History l) lh_CreatedAt) (rev (ar_Layers a)) of
        t # ts \<Rightarrow> t
      | [] \<Rightarrow> now)"

definition buildIncoming :: "(int \<Rightarrow> string) \<Rightarrow> int \<Rightarrow> annotation_opts \<Rightarrow> artifact \<Rightarrow> (string \<rightharpoonup> string)" where
  "buildIncoming rfc3339 now c a =
     (if no_InjectCreatedAt c \<and> no_StaticAnnotations c AnnotationCreated = None
      then (no_StaticAnnotations c)(AnnotationCreated \<mapsto> rfc3339 (resolveCreatedAt now a))
      else no_StaticAnnotations c)"

definition allowedPrefix :: "annotation_opts \<Rightarrow> string \<Rightarrow> bool" where
  "allowedPrefix c key \<longleftrightarrow> list_ex (HasPrefix key) (no_AllowedPrefixes c)"

text \<open>One entry of the loop that merges; the loop runs over the incoming map in the order of \<open>enum\<close>.\<close>

definition merge_one :: "merge_strategy \<Rightarrow> string \<Rightarrow> string \<Rightarrow> (string \<rightharpoonup> string) \<Rightarrow> ex_error + (string \<rightharpoonup> string)" where
  "merge_one strategy k v m =
     (case m k of
        None \<Rightarrow> Inr (m(k \<mapsto> v))
      | Some existing \<Rightarrow>
          (case strategy of
             MergeStrategyPreserve \<Rightarrow> Inr m
           | MergeStrategyError \<Rightarrow> Inl (XMsg [''annotation-injector: collision on key'', k, existing, v])
           | _ \<Rightarrow> Inr (m(k \<mapsto> v))))"

fun merge_all :: "merge_strategy \<Rightarrow> (string \<rightharpoonup> string) \<Rightarrow> string list \<Rightarrow> (string \<rightharpoonup> string) \<Rightarrow> ex_error + (string \<rightharpoonup> string)" where
  "merge_all strategy incoming [] m = Inr m"
| "merge_all strategy incoming (k # ks) m =
     (case merge_one strategy k (the (incoming k)) m of Inl err \<Rightarrow> Inl err | Inr m \<Rightarrow> merge_all strategy incoming ks m)"

definition annotation_Transform :: "(string set \<Rightarrow> string list) \<Rightarrow> (int \<Rightarrow> string) \<Rightarrow> int \<Rightarrow> annotation_opts \<Rightarrow> artifact \<Rightarrow> ex_error + artifact" where
  "annotation_Transform enum rfc3339 now c a =
     (let incoming = buildIncoming rfc3339 now c a in
      if incoming = Map.empty then Inr a
      else let incoming = (if no_AllowedPrefixes c \<noteq> [] then incoming |` {k. allowedPrefix c k} else incoming) in
        if incoming = Map.empty then Inr a
        else case merge_all (no_Strategy c) incoming (enum (dom incoming)) (ar_Annotations (artifact_Clone a)) of
          Inl err \<Rightarrow> Inl err
        | Inr m \<Rightarrow> Inr ((artifact_Clone a)\<lparr>ar_Annotations := m\<rparr>))"

section \<open>Facts\<close>

subsection \<open>Numbers\<close>

lemma string_of_bytes_of_string [simp]: "string_of_bytes (bytes_of_string s) = s"
proof -
  have "char_of (unat (of_char c :: byte)) = c" for c :: char
  proof -
    have "(of_char c :: byte) = word_of_nat (of_char c :: nat)" by (simp add: of_nat_of_char)
    then have "unat (of_char c :: byte) = (of_char c :: nat)" by (simp add: unat_of_nat take_bit_nat_eq_self)
    then show ?thesis by simp
  qed
  then show ?thesis by (simp add: string_of_bytes_def bytes_of_string_def map_idI)
qed

lemma digit_char: "d < (10 :: nat) \<Longrightarrow> is_digit (char_of (48 + d)) \<and> of_char (char_of (48 + d) :: char) - 48 = d"
  by (simp add: is_digit_def)

lemma dec_digits: "list_all is_digit (dec n) \<and> nat_of_digits (dec n) = n \<and> dec n \<noteq> []"
proof (induction n rule: less_induct)
  case (less n)
  show ?case
  proof (cases "n < 10")
    case True
    then show ?thesis using digit_char [of n] by (simp add: dec.simps [of n] nat_of_digits_def)
  next
    case False
    then have "list_all is_digit (dec (n div 10)) \<and> nat_of_digits (dec (n div 10)) = n div 10" using less.IH [of "n div 10"] by simp
    then show ?thesis using False digit_char [of "n mod 10"] by (simp add: dec.simps [of n] nat_of_digits_def)
  qed
qed

lemma is_digit_no_sign: "is_digit c \<Longrightarrow> c \<noteq> CHR ''-'' \<and> c \<noteq> CHR ''+''"
  by (auto simp: is_digit_def)

lemma ParseInt_FormatInt: "- (2 ^ 63) \<le> n \<Longrightarrow> n < 2 ^ 63 \<Longrightarrow> ParseInt (FormatInt n) = Some n"
proof (cases "n < 0")
  case True
  assume "- (2 ^ 63) \<le> n" "n < 2 ^ 63"
  then show ?thesis using True dec_digits [of "nat (- n)"] by (simp add: ParseInt_def FormatInt_def Let_def)
next
  case False
  assume n: "- (2 ^ 63) \<le> n" "n < 2 ^ 63"
  obtain c cs where c: "dec (nat n) = c # cs" using dec_digits [of "nat n"] by (cases "dec (nat n)") auto
  then have "c \<noteq> CHR ''-'' \<and> c \<noteq> CHR ''+''" using dec_digits [of "nat n"] is_digit_no_sign by simp
  then show ?thesis using False n c dec_digits [of "nat n"] by (simp add: ParseInt_def FormatInt_def Let_def)
qed

lemma ParseInt_range: "ParseInt s = Some n \<Longrightarrow> - (2 ^ 63) \<le> n \<and> n < 2 ^ 63"
  by (auto simp: ParseInt_def Let_def split: if_splits)

lemma FormatInt_not_empty: "FormatInt n \<noteq> []"
  using dec_digits [of "nat n"] by (simp add: FormatInt_def)

subsection \<open>The epoch\<close>

lemma resolveEpoch_apply:
  assumes "- (2 ^ 63) \<le> secs" "secs < 2 ^ 63"
  shows "resolveEpoch (apply_epoch (secs * second) a) = Inr (Some (secs * second))"
proof -
  have "secs * second div second = secs" by (simp add: second_def)
  moreover have "bytes_of_string (FormatInt secs) \<noteq> []" using FormatInt_not_empty by (simp add: bytes_of_string_def)
  ultimately show ?thesis using ParseInt_FormatInt [OF assms] by (simp add: resolveEpoch_def apply_epoch_def Let_def)
qed

lemma clamp_twice: "clamp_layer e (clamp_layer e l) = clamp_layer e l"
  by (simp add: clamp_layer_def split: option.split)

lemma apply_epoch_twice: "apply_epoch e (apply_epoch e a) = apply_epoch e a"
  by (simp add: apply_epoch_def Let_def clamp_twice fun_upd_idem)

section \<open>Properties\<close>

text \<open>
  The epoch transformer makes an artifact reproducible: when its metadata names an epoch, no layer of
  the result was created later, layers created before keep their time, and a second application, at
  any time, changes nothing.
\<close>

theorem epoch_clamps_once:
  assumes "epoch_Transform now fb a = Inr b" "resolveEpoch a = Inr (Some epoch)"
  shows "epoch_Transform now' fb' b = Inr b \<and>
     (\<forall>l \<in> set (ar_Layers b). \<forall>h. la_History l = Some h \<longrightarrow> (\<exists>t \<le> epoch. lh_CreatedAt h = Some t)) \<and>
     length (ar_Layers b) = length (ar_Layers a) \<and>
     (\<forall>i < length (ar_Layers a). \<forall>h t. la_History (ar_Layers a ! i) = Some h \<longrightarrow> lh_CreatedAt h = Some t \<longrightarrow> t \<le> epoch \<longrightarrow> ar_Layers b ! i = ar_Layers a ! i)"
proof -
  have b: "b = apply_epoch epoch a" using assms by (simp add: epoch_Transform_def)
  obtain raw secs where raw: "ar_Metadata a MetaKeySourceDateEpoch = Some raw" "ParseInt (string_of_bytes raw) = Some secs" "epoch = secs * second"
    using assms(2) by (auto simp: resolveEpoch_def split: option.splits if_splits)
  have "resolveEpoch b = Inr (Some epoch)" using resolveEpoch_apply [of secs a] ParseInt_range [OF raw(2)] raw(3) b by simp
  then have "epoch_Transform now' fb' b = Inr b" using apply_epoch_twice [of epoch a] b by (simp add: epoch_Transform_def)
  moreover have "(\<forall>l \<in> set (ar_Layers b). \<forall>h. la_History l = Some h \<longrightarrow> (\<exists>t \<le> epoch. lh_CreatedAt h = Some t))"
    unfolding b by (auto simp: apply_epoch_def Let_def clamp_layer_def split: option.splits if_splits)
  ultimately show ?thesis unfolding b by (auto simp: apply_epoch_def Let_def clamp_layer_def)
qed

definition bare_artifact :: artifact where
  "bare_artifact = \<lparr>ar_Kind = ''containerimage'', ar_Platforms = [], ar_Layers = [], ar_Config = [], ar_Attestations = [],
     ar_Annotations = Map.empty, ar_Labels = Map.empty, ar_Metadata = Map.empty\<rparr>"

definition dated_artifact :: "string \<Rightarrow> artifact" where
  "dated_artifact s = bare_artifact\<lparr>ar_Metadata := [MetaKeySourceDateEpoch \<mapsto> bytes_of_string s]\<rparr>"

lemma dated_epoch: "resolveEpoch (dated_artifact ''7'') = Inr (Some (7 * second))"
proof -
  have "bytes_of_string ''7'' \<noteq> []" by (simp add: bytes_of_string_def)
  moreover have "ParseInt ''7'' = Some 7" by (simp add: ParseInt_def is_digit_def nat_of_digits_def)
  ultimately show ?thesis by (simp add: resolveEpoch_def dated_artifact_def)
qed

theorem epoch_clamps_once_witness:
  "epoch_Transform 9 True (apply_epoch (7 * second) (dated_artifact ''7'')) = Inr (apply_epoch (7 * second) (dated_artifact ''7''))"
  using epoch_clamps_once [of 3 False "dated_artifact ''7''" "apply_epoch (7 * second) (dated_artifact ''7'')" "7 * second" 9 True] dated_epoch
  by (simp add: epoch_Transform_def)

text \<open>
  The filter of attestations keeps, in their order, those of an allowed kind whose predicate type has
  no denied prefix; deduplicating, it keeps the first of every path among them.
\<close>

definition att_ok :: "attestation_opts \<Rightarrow> attestation_record \<Rightarrow> bool" where
  "att_ok c r \<longleftrightarrow> allowKind c (at_Kind r) \<and> \<not> denyPredicate c (at_PredicateType r)"

fun first_paths :: "string set \<Rightarrow> attestation_record list \<Rightarrow> attestation_record list" where
  "first_paths seen [] = []"
| "first_paths seen (r # rs) = (if at_Path r \<in> seen then first_paths seen rs else r # first_paths (insert (at_Path r) seen) rs)"

lemma keep_attestations_spec:
  "keep_attestations c seen rs = Inr kept \<Longrightarrow>
   kept = (if ao_DeduplicateByPath c then first_paths seen (filter (att_ok c) rs) else filter (att_ok c) rs) \<and> (\<forall>r \<in> set rs. att_validate c r = None)"
proof (induction rs arbitrary: kept seen)
  case (Cons r rs)
  have v: "att_validate c r = None" using Cons.prems by (cases "att_validate c r") simp_all
  show ?case
  proof (cases "att_ok c r \<and> \<not> (ao_DeduplicateByPath c \<and> at_Path r \<in> seen)")
    case True
    then have n: "\<not> (\<not> allowKind c (at_Kind r) \<or> denyPredicate c (at_PredicateType r) \<or> ao_DeduplicateByPath c \<and> at_Path r \<in> seen)"
      by (simp add: att_ok_def)
    obtain ks where k: "keep_attestations c (if ao_DeduplicateByPath c then insert (at_Path r) seen else seen) rs = Inr ks" "kept = r # ks"
      using Cons.prems v n by (simp add: if_not_P split: sum.splits)
    show ?thesis using Cons.IH [OF k(1)] k(2) v True by simp
  next
    case False
    then have k: "keep_attestations c seen rs = Inr kept" using Cons.prems v by (auto simp: att_ok_def)
    show ?thesis using Cons.IH [OF k] v False by auto
  qed
qed simp

lemma first_paths_spec:
  "distinct (map at_Path (first_paths seen rs)) \<and> set (map at_Path (first_paths seen rs)) = set (map at_Path rs) - seen"
  by (induction seen rs rule: first_paths.induct) auto

theorem attestation_filter_keeps:
  assumes "attestation_Transform c a = Inr b"
  shows "ar_Attestations b = (if ao_DeduplicateByPath c then first_paths {} (filter (att_ok c) (ar_Attestations a)) else filter (att_ok c) (ar_Attestations a)) \<and>
     (ao_DeduplicateByPath c \<longrightarrow> distinct (map at_Path (ar_Attestations b))) \<and>
     set (map at_Path (ar_Attestations b)) = at_Path ` {r \<in> set (ar_Attestations a). att_ok c r} \<and> (\<forall>r \<in> set (ar_Attestations a). att_validate c r = None)"
proof (cases "ar_Attestations a = []")
  case True
  then show ?thesis using assms by (simp add: attestation_Transform_def)
next
  case False
  then obtain kept where k: "keep_attestations c {} (ar_Attestations a) = Inr kept" "ar_Attestations b = kept"
    using assms by (auto simp: attestation_Transform_def split: sum.splits)
  show ?thesis using keep_attestations_spec [OF k(1)] first_paths_spec [of "{}" "filter (att_ok c) (ar_Attestations a)"] k(2) by auto
qed

definition two_attestations :: artifact where
  "two_attestations = bare_artifact\<lparr>ar_Attestations :=
     [\<lparr>at_Kind = ''sbom'', at_PredicateType = '''', at_Path = ''p'', at_Payload = [], at_InlineOnly = False, at_Metadata = Map.empty\<rparr>,
      \<lparr>at_Kind = ''vuln'', at_PredicateType = '''', at_Path = ''q'', at_Payload = [], at_InlineOnly = False, at_Metadata = Map.empty\<rparr>]\<rparr>"

theorem attestation_filter_keeps_witness:
  "\<exists>b. attestation_Transform (WithAllowedKinds [''vuln''] no_attestation_opts) two_attestations = Inr b \<and> map at_Path (ar_Attestations b) = [''q'']"
proof -
  let ?c = "WithAllowedKinds [''vuln''] no_attestation_opts"
  obtain r s where rs: "ar_Attestations two_attestations = [r, s]" "att_validate ?c r = None" "att_validate ?c s = None"
      "\<not> allowKind ?c (at_Kind r)" "allowKind ?c (at_Kind s)" "at_Path s = ''q''"
    by (simp add: two_attestations_def att_validate_def allowKind_def WithAllowedKinds_def no_attestation_opts_def)
  have d: "\<not> denyPredicate ?c pt" for pt by (simp add: denyPredicate_def WithAllowedKinds_def no_attestation_opts_def)
  have "\<not> ao_DeduplicateByPath ?c" by (simp add: WithAllowedKinds_def no_attestation_opts_def)
  then have "\<exists>b. attestation_Transform ?c two_attestations = Inr b" using rs d by (simp add: attestation_Transform_def)
  then obtain b where b: "attestation_Transform ?c two_attestations = Inr b" by blast
  have "ar_Attestations b = filter (att_ok ?c) [r, s]"
    using attestation_filter_keeps [OF b] \<open>\<not> ao_DeduplicateByPath ?c\<close> rs(1) by simp
  then show ?thesis using b rs d by (simp add: att_ok_def)
qed

subsection \<open>Annotations\<close>

lemma merge_all_ok:
  "merge_all strategy incoming ks m = Inr m' \<Longrightarrow> distinct ks \<Longrightarrow> set ks \<subseteq> dom incoming \<Longrightarrow>
   (\<forall>k. m' k = (if k \<in> set ks \<and> (m k = None \<or> strategy \<noteq> MergeStrategyPreserve) then incoming k else m k)) \<and>
   (strategy = MergeStrategyError \<longrightarrow> (\<forall>k \<in> set ks. m k = None))"
proof (induction ks arbitrary: m)
  case (Cons k ks)
  obtain m1 where m1: "merge_one strategy k (the (incoming k)) m = Inr m1" "merge_all strategy incoming ks m1 = Inr m'"
    using Cons.prems(1) by (auto split: sum.splits)
  have one: "m1 = (if m k = None \<or> strategy \<noteq> MergeStrategyPreserve then m(k \<mapsto> the (incoming k)) else m) \<and> (strategy = MergeStrategyError \<longrightarrow> m k = None)"
    using m1(1) by (cases strategy) (auto simp: merge_one_def split: option.splits)
  have k: "Some (the (incoming k)) = incoming k" "k \<notin> set ks" using Cons.prems(2,3) by auto
  have ih: "(\<forall>q. m' q = (if q \<in> set ks \<and> (m1 q = None \<or> strategy \<noteq> MergeStrategyPreserve) then incoming q else m1 q)) \<and>
      (strategy = MergeStrategyError \<longrightarrow> (\<forall>q \<in> set ks. m1 q = None))"
    using Cons.IH [OF m1(2)] Cons.prems(2,3) by simp
  have eq: "m1 q = m q" if "q \<noteq> k" for q using one that by simp
  have "m' k = m1 k" using ih k(2) by simp
  then have "m' k = (if m k = None \<or> strategy \<noteq> MergeStrategyPreserve then incoming k else m k)" using one k(1) by simp
  moreover have "m' q = (if q \<in> set ks \<and> (m q = None \<or> strategy \<noteq> MergeStrategyPreserve) then incoming q else m q)" if "q \<noteq> k" for q
    using conjunct1 [OF ih, rule_format, of q] unfolding eq [OF that] .
  moreover have "strategy = MergeStrategyError \<longrightarrow> (\<forall>q \<in> set (k # ks). m q = None)"
    using ih one eq k(2) by (metis set_ConsD)
  ultimately show ?case by (metis set_ConsD list.set_intros)
qed simp

text \<open>What a merge gives for a key: \<open>old\<close> the artifact's annotation, \<open>new\<close> the incoming one that is allowed.\<close>

definition merged_value :: "merge_strategy \<Rightarrow> string option \<Rightarrow> string option \<Rightarrow> string option" where
  "merged_value strategy old new = (if new = None \<or> old \<noteq> None \<and> strategy = MergeStrategyPreserve then old else new)"

definition allowed_incoming :: "(int \<Rightarrow> string) \<Rightarrow> int \<Rightarrow> annotation_opts \<Rightarrow> artifact \<Rightarrow> (string \<rightharpoonup> string)" where
  "allowed_incoming rfc3339 now c a = (\<lambda>k. if no_AllowedPrefixes c = [] \<or> allowedPrefix c k then buildIncoming rfc3339 now c a k else None)"

lemma annotation_Transform_eq:
  "annotation_Transform enum rfc3339 now c a =
     (if allowed_incoming rfc3339 now c a = Map.empty then Inr a
      else case merge_all (no_Strategy c) (allowed_incoming rfc3339 now c a) (enum (dom (allowed_incoming rfc3339 now c a))) (ar_Annotations a) of
        Inl err \<Rightarrow> Inl err | Inr m \<Rightarrow> Inr (a\<lparr>ar_Annotations := m\<rparr>))"
proof -
  have inc: "(if no_AllowedPrefixes c \<noteq> [] then buildIncoming rfc3339 now c a |` {k. allowedPrefix c k} else buildIncoming rfc3339 now c a) =
      allowed_incoming rfc3339 now c a"
    by (rule ext) (simp add: allowed_incoming_def restrict_map_def)
  have empty: "buildIncoming rfc3339 now c a = Map.empty \<Longrightarrow> allowed_incoming rfc3339 now c a = Map.empty"
    by (rule ext) (simp add: allowed_incoming_def)
  show ?thesis unfolding annotation_Transform_def Let_def inc artifact_Clone_id using empty by simp
qed

text \<open>
  Annotations are merged key by key, so that the iteration order of the map does not matter: an
  allowed incoming annotation fills a free key and replaces a taken one unless the strategy preserves
  it, a merge under the error strategy that succeeds met no taken key, and nothing else changes.
\<close>

theorem annotations_merge_keywise:
  assumes "annotation_Transform enum rfc3339 now c a = Inr b"
    and "\<And>A. finite A \<Longrightarrow> set (enum A) = A \<and> distinct (enum A)" "finite (dom (no_StaticAnnotations c))"
  shows "b = a\<lparr>ar_Annotations := (\<lambda>k. merged_value (no_Strategy c) (ar_Annotations a k) (allowed_incoming rfc3339 now c a k))\<rparr> \<and>
     (no_Strategy c = MergeStrategyError \<longrightarrow> dom (ar_Annotations a) \<inter> dom (allowed_incoming rfc3339 now c a) = {})"
proof -
  let ?inc = "allowed_incoming rfc3339 now c a"
  have fin: "finite (dom (buildIncoming rfc3339 now c a))" using assms(3) by (simp add: buildIncoming_def)
  have "dom ?inc \<subseteq> dom (buildIncoming rfc3339 now c a)" by (rule subsetI) (simp add: allowed_incoming_def dom_def split: if_splits)
  then have enum: "set (enum (dom ?inc)) = dom ?inc \<and> distinct (enum (dom ?inc))" by (rule assms(2) [OF finite_subset [OF _ fin]])
  show ?thesis
  proof (cases "?inc = Map.empty")
    case True
    then have "b = a" using assms(1) by (simp add: annotation_Transform_eq)
    then show ?thesis using True by (simp add: merged_value_def)
  next
    case False
    then obtain m where m: "merge_all (no_Strategy c) ?inc (enum (dom ?inc)) (ar_Annotations a) = Inr m" "b = a\<lparr>ar_Annotations := m\<rparr>"
      using assms(1) by (auto simp: annotation_Transform_eq split: sum.splits)
    have r: "(\<forall>k. m k = (if k \<in> dom ?inc \<and> (ar_Annotations a k = None \<or> no_Strategy c \<noteq> MergeStrategyPreserve) then ?inc k else ar_Annotations a k)) \<and>
        (no_Strategy c = MergeStrategyError \<longrightarrow> (\<forall>k \<in> dom ?inc. ar_Annotations a k = None))"
      using merge_all_ok [OF m(1)] enum by simp
    have "m = (\<lambda>k. merged_value (no_Strategy c) (ar_Annotations a k) (?inc k))"
      by (rule ext) (use r in \<open>auto simp: merged_value_def domIff\<close>)
    moreover have "dom (ar_Annotations a) \<inter> dom ?inc = {}" if strict: "no_Strategy c = MergeStrategyError"
    proof -
      have "\<forall>k \<in> dom ?inc. ar_Annotations a k = None" using r strict by blast
      then have "\<forall>k \<in> dom ?inc. k \<notin> dom (ar_Annotations a)" by (simp only: domIff not_not)
      then show ?thesis by blast
    qed
    ultimately show ?thesis using m(2) by simp
  qed
qed

theorem annotations_merge_keywise_witness:
  "\<exists>b. annotation_Transform sorted_list_of_set (\<lambda>t. ''t'') 0 (WithStaticAnnotation ''k'' ''v'' default_annotation_opts) bare_artifact = Inr b \<and>
     ar_Annotations b ''k'' = Some ''v''"
proof -
  let ?c = "WithStaticAnnotation ''k'' ''v'' default_annotation_opts"
  have p: "no_AllowedPrefixes ?c = []" "no_Strategy ?c = MergeStrategyOverwrite" "no_StaticAnnotations ?c = [''k'' \<mapsto> ''v'']"
    by (simp_all add: WithStaticAnnotation_def default_annotation_opts_def)
  have inc: "allowed_incoming (\<lambda>t. ''t'') 0 ?c bare_artifact = [''k'' \<mapsto> ''v'']"
    by (rule ext) (simp add: allowed_incoming_def p buildIncoming_def, simp add: WithStaticAnnotation_def default_annotation_opts_def)
  have "ar_Annotations bare_artifact = Map.empty" by (simp add: bare_artifact_def)
  then have r: "\<exists>b. annotation_Transform sorted_list_of_set (\<lambda>t. ''t'') 0 ?c bare_artifact = Inr b"
    by (simp add: annotation_Transform_eq inc p merge_one_def)
  then obtain b where b: "annotation_Transform sorted_list_of_set (\<lambda>t. ''t'') 0 ?c bare_artifact = Inr b" by blast
  have "ar_Annotations b = (\<lambda>k. merged_value (no_Strategy ?c) (ar_Annotations bare_artifact k) ([''k'' \<mapsto> ''v''] k))"
    using annotations_merge_keywise [OF b] p(3) inc by simp
  then show ?thesis using b by (simp add: merged_value_def p)
qed

text \<open>
  The creation annotation ignores an epoch of zero: the epoch transformer takes it from the metadata,
  but the annotation of an artifact whose layers have no time is the clock.
\<close>

theorem epoch_zero_gives_clock:
  assumes "ar_Metadata a MetaKeySourceDateEpoch = Some (bytes_of_string ''0'')" "\<forall>l \<in> set (ar_Layers a). Option.bind (la_History l) lh_CreatedAt = None"
  shows "resolveEpoch a = Inr (Some 0) \<and> resolveCreatedAt now a = now"
proof -
  have ne: "bytes_of_string ''0'' \<noteq> []" by (simp add: bytes_of_string_def)
  have "ParseInt ''0'' = Some 0" by (simp add: ParseInt_def is_digit_def nat_of_digits_def)
  moreover have "parseUnixSecs ''0'' 0 = 0" by (simp add: is_digit_def wrap64_def)
  moreover have "List.map_filter (\<lambda>l. Option.bind (la_History l) lh_CreatedAt) (rev (ar_Layers a)) = []"
    using assms(2) by (auto simp: List.map_filter_def filter_empty_conv)
  ultimately show ?thesis using assms(1) ne by (simp add: resolveEpoch_def resolveCreatedAt_def)
qed

theorem epoch_zero_gives_clock_witness:
  "resolveEpoch (dated_artifact ''0'') = Inr (Some 0) \<and> resolveCreatedAt 5 (dated_artifact ''0'') = 5"
  by (rule epoch_zero_gives_clock) (simp_all add: dated_artifact_def bare_artifact_def)

end
