(* ===== verification/Spec2Isabelle.thy ===== *)
theory Spec2Isabelle
  imports Fs_Processor Lm_Ttl Lm_Engine Lm_Adapter Lm_Persist Lm_Flight Lm_Diff Lm_Provenance Ds_Pipeline Ds_Prune
    Fw_Pipeline Fw_Watcher Fw_Snapshot Cs_Store Cs_B2
    Ex_Transform
begin

text \<open>
  \<^bold>\<open>bons-ci: a model of its deduplication, synchronisation, watching, content-store and export libraries.\<close>

  \<^bold>\<open>The program.\<close> bons-ci is a build system written in Go. The parts modelled here are the libraries
  that hold its own logic; the rest of the repository connects them to containerd, buildkit, git and
  the kernel.

  \<^item> \<open>pkg/fshash\<close> deduplicates the files that the build vertices of an overlay file system access and
    computes a Merkle root for every vertex: a chain of layers (\<open>layer\<close>), a hash cache (\<open>cache\<close>), an access
    tracker with a Bloom filter (\<open>access\<close>), overlay markers (\<open>overlay\<close>), content hashers (\<open>chunk\<close>), the tree
    (\<open>merkle\<close>) and the processor that feeds events through all of them (\<open>processor.go\<close>).
  \<^item> \<open>pkg/layermerkle\<close> does the same for layer stacks of container images: a resolver finds the layer
    that owns a path (\<open>resolver.go\<close>, \<open>whiteout.go\<close>, \<open>ringcache.go\<close>), a deduplicator asks the cache, the
    resolver and the hasher in this order (\<open>deduplicator.go\<close>), a vertex processor builds a Merkle forest
    (\<open>merkle.go\<close>), and the engine runs them behind a channel (\<open>engine.go\<close>). Around it: the persistent cache
    (\<open>persistent.go\<close>), the wire format (\<open>serial.go\<close>), differences (\<open>diff.go\<close>), provenance and warm starts.
  \<^item> \<open>internal/dirsync\<close> compares a lower and an upper directory in one merge walk (\<open>walker.go\<close>,
    \<open>classifier.go\<close>), compares the contents of common files (\<open>hasher.go\<close>) and deletes from a merged view in
    batches (\<open>batcher.go\<close>, \<open>pipeline.go\<close>, \<open>engine.go\<close>). \<open>pkg/dirpruner\<close> uses its filters, view and batchers to
    delete from a directory everything that a filter does not keep.
  \<^item> \<open>pkg/fswatch\<close> reads fanotify events of an overlay mount, filters and enriches them and hands them to
    handlers (\<open>pipeline.go\<close>, \<open>watcher_linux.go\<close>, \<open>snapshot\<close>).
  \<^item> \<open>core/content\<close> combines content stores: fallback, split and fan-out stores, writers, middlewares and
    events, and two stores over services, a registry (\<open>store/registry\<close>) and an object store (\<open>store/b2\<close>).
  \<^item> \<open>plugins/exporter\<close> exports artifacts: a registry of exporters and a pipeline that runs transformers on
    the artifact and then the exporter inside middlewares (\<open>core\<close>), reporters of progress (\<open>progress\<close>), and
    the transformers for timestamps, attestations and annotations (\<open>transform\<close>).

  \<^bold>\<open>The theories.\<close> The prefix of a theory names its part; every theory opens with the files it models and
  how state and calls of the code appear in it. Definitions have the names of the functions, with a
  prefix for the receiver where two types share a method name.

  \<^item> Shared: \<open>Prelude\<close> (Go values, words, lists, sorting and map iteration as locales), \<open>Go_Strings\<close> and
    \<open>Go_Text\<close> (the functions of \<open>strings\<close> and \<open>path/filepath\<close> that the source uses), \<open>Cache_Contract\<close> (what the
    deduplication engines expect from a cache), \<open>Lru_Spec\<close> (the LRU list that both caches implement).
  \<^item> fshash: \<open>Fs_Core\<close>, \<open>Fs_Chunk\<close>, \<open>Fs_Layer\<close>, \<open>Fs_Cache\<close>, \<open>Fs_Bloom\<close>, \<open>Fs_Access\<close>, \<open>Fs_Overlay\<close>, \<open>Fs_Merkle\<close>,
    \<open>Fs_Processor\<close>.
  \<^item> layermerkle: \<open>Lm_Core\<close>, \<open>Lm_Trie\<close>, \<open>Lm_Cache\<close>, \<open>Lm_Ttl\<close>, \<open>Lm_Resolver\<close>, \<open>Lm_Whiteout\<close>, \<open>Lm_Hasher\<close>, \<open>Lm_Merkle\<close>,
    \<open>Lm_Dedup\<close>, \<open>Lm_Vertex\<close>, \<open>Lm_Engine\<close>, \<open>Lm_Adapter\<close>, \<open>Lm_Persist\<close>, \<open>Lm_Flight\<close>, \<open>Lm_Serial\<close>, \<open>Lm_Diff\<close>, \<open>Lm_Provenance\<close>.
  \<^item> dirsync and dirpruner: \<open>Ds_Core\<close>, \<open>Ds_View\<close>, \<open>Ds_Walk\<close>, \<open>Ds_Spec\<close>, \<open>Ds_Hash\<close>, \<open>Ds_Handler\<close>, \<open>Ds_Batch\<close>, \<open>Ds_Pipeline\<close>,
    \<open>Ds_Prune\<close>.
  \<^item> fswatch: \<open>Fw_Overlay\<close>, \<open>Fw_Event\<close>, \<open>Fw_Stage\<close>, \<open>Fw_Pipeline\<close>, \<open>Fw_Watcher\<close>, \<open>Fw_Snapshot\<close>.
  \<^item> content stores: \<open>Cs_Writer\<close>, \<open>Cs_Store\<close>, \<open>Cs_Registry\<close>, \<open>Cs_B2\<close>.
  \<^item> exporters: \<open>Ex_Core\<close>, \<open>Ex_Transform\<close>.

  \<^bold>\<open>How code becomes definitions.\<close> A struct is a record and an operation a function from the state (and
  the world of its callees) to result and new state; a critical section is one step. A Go error is a
  value of an error datatype of the part, an absent error \<open>None\<close>; panics are a value too where the code
  can panic. An interface is a record of operations (\<open>hash_cache\<close>, \<open>file_hasher\<close>, \<open>batcher\<close>, \<open>merged_view\<close>,
  \<open>content_store\<close>). Code that is not in the repository, the file system, clocks, digest functions,
  encoders, the containerd, registry and object store clients, is a parameter, with its documented
  behaviour as a named hypothesis (\<open>reads_tree\<close>, \<open>object_laws\<close>, \<open>copy_laws\<close>, \<open>stream_laws\<close>); every theorem
  with a hypothesis has a witness on concrete functions. The iteration order of a Go map and unstable
  sorts are parameters as well, so that the theorems hold for every order.

  Goroutines are step relations: \<open>eb_step\<close> (a batch), \<open>run_step\<close> (the dirsync pipeline), \<open>rs_step\<close> (the watcher
  pipeline), \<open>pool_step\<close> of \<open>Ds_Prune\<close> (the pruner's workers), the engines of \<open>Fs_Processor\<close> and \<open>Lm_Engine\<close>, the
  callers of \<open>Lm_Flight\<close>. The end of a context is a step of the environment, and so is in the dirsync
  pipeline a call that never returns (\<open>run_env\<close>). What is between the critical sections of a call, or
  between its start and its first read of shared state, is recorded in the state: the registrations of
  \<open>Fs_Processor\<close>, the dispatch loops of \<open>Lm_Engine\<close> that have not read the channel field yet, the walkers
  of the fan-out store that stand before the visitor. Coarser than the code are \<open>Finalize\<close> and the processing of
  one event in \<open>Fs_Processor\<close> and of one event in \<open>Lm_Engine\<close>, which are one step. In the content stores the order of
  concurrent calls is a schedule, and the copying goroutine of the registry writer interleaves with
  the writes (\<open>w_run\<close>).

  \<^bold>\<open>Interfaces.\<close> \<open>weak_cache\<close>, \<open>storing_cache\<close> and \<open>forgetful_cache\<close> are the contracts of a cache, interpreted by
  fshash's cache, by layermerkle's LRU and ring caches and by the registry's cache of infos (for
  times to live whose deadlines fit in 64 bits);
  \<open>hash_cache_laws\<close>, \<open>hasher_laws\<close> and \<open>resolver_laws\<close> are what layermerkle's deduplicator needs (\<open>dedup_parts\<close>),
  kept by the decorators (\<open>decorated_cache\<close>, \<open>decorated_hasher\<close>, \<open>logged_cache\<close>) and interpreted on the concrete
  ones; \<open>mark_store\<close> and \<open>memo_stat\<close> share the proofs of similar tables; \<open>path_view\<close> is what a merged view does to
  the set of existing paths, interpreted by the view on disk; \<open>diff_environment\<close>, \<open>map_range\<close> and \<open>slice_sort\<close> are
  sorting and iteration; \<open>lookup_store\<close> and \<open>two_lookups\<close> compose stores.

  \<^bold>\<open>What the lemmas show.\<close>

  \<^item> Caches: both LRU caches refine the list of \<open>Lru_Spec\<close>, through the pointer updates of the list; the
    caches with a time to live answer from the last write, and not after it expired; the persistent
    cache, reopened from any prefix of completed writes, serves the last write.
  \<^item> Deduplication: a hash that is served is the hash of the file of the layer that owns the path;
    ownership and visibility agree with the merged view of the layers; the Bloom filter has no
    false negatives; a Merkle root depends on the last hash of every path only, and proofs are sound.
  \<^item> Engines: every accepted event is waiting, processed or discarded, once; a stopped engine drains its
    queue unless it is restarted too early; chains follow the registered parents; one execution per key
    of a singleflight group.
  \<^item> dirsync: the merge walk produces exactly the classification of the two trees; the exclusive entries
    do not overlap and remove what is in the lower tree only; contents are equal when the comparison
    says so under every schedule of its segments; a batch completes, and hangs exactly in the way
    described when it is cancelled while it waits for a slot; a run ends exactly when its calls return,
    and leaves the right paths.
  \<^item> dirpruner: no accepted operation removes a path that survives, whenever the context ends; a complete
    run removes exactly the others; the pool ends.
  \<^item> fswatch: a run collects exactly the events that pass the filters, keeps its limits and returns; the
    parser of event buffers inverts their encoding, that of mountinfo lines inverts it for the mount point
    and leaves the directories as they are written.
  \<^item> Content stores: the fan-out walk visits every digest once; a secondary writer that fails does not
    fail the primary; a registry push leaves in the local store a subsequence of the accepted chunks
    in order, all of them within the capacity of the channel; lookups give up after the configured
    number of attempts; a commit to the object store certifies the bytes under the key.
  \<^item> Exporters: the pipeline runs the transformers by priority and stably, and stops at the first failure;
    a resolution seals the registry, whose types are listed sorted (the insertion sort interprets
    \<open>slice_sort\<close>); clamping to an epoch is idempotent; the attestation filter keeps the first of every path;
    annotations are merged key by key in any iteration order.

  Several theorems state what the code does where that is not what it means to do: they name the
  behaviour (\<open>executeBatch_hangs_on_cancellation\<close>, \<open>Write_over_4MiB_crashes\<close>, \<open>Write_after_Abort_panics\<close>,
  \<open>mismatched_Commit_leaves_object\<close>, \<open>Write_hangs_after_failed_upload\<close>, \<open>unreadable_directory_is_removed\<close>,
  \<open>Submit_during_Close_is_lost\<close>, \<open>early_restart_strands_event\<close>, \<open>overlapping_registrations_cut_chain\<close>,
  \<open>huge_ttl_expires_at_once\<close> and others).

  \<^bold>\<open>Bounds and fuel.\<close> The merge walk and the pruner's walk take fuel, the number of directory levels they
  may descend; \<open>walkBoth_events\<close> and \<open>walkDir_faithful\<close> show that the depth of the tree is enough, and a walk
  without fuel reports it as an error. Loops that may not end are partial functions with a value for
  not returning (the level loops of the Merkle tree, the draining of a reader, the chain of snapshot
  parents), and that they return is proved. Step relations have measures (\<open>eb_measure\<close>, \<open>run_measure\<close>,
  \<open>rs_measure\<close>, \<open>pool_measure\<close>). Bit masks, hashes and the words of the Bloom filter are words of their width;
  file sizes in \<open>Ds_Hash\<close> are below \<open>2 ^ 62\<close>, counters of events are integers.

  \<^bold>\<open>Not modelled.\<close> The LLB client (\<open>client/llb\<close>) builds protobuf messages of the vendored solver. The image
  converters, the snapshotter orchestrator, the executors and their networking, the container
  image exporter and the git and http sources are sequences of calls to containerd, runc, CNI, git and HTTP, whose code is
  not in the repository. \<open>batcher_io_uring.go\<close> talks to a kernel ring through a system call library.
  \<open>backend_minio.go\<close> and \<open>backend_oci.go\<close> translate records of client libraries. The telemetry exporters,
  command-line printers, test fixtures and the public aliases have no logic of their own.
\<close>

end
